(* ===== verification/Prelude.thy ===== *)
theory Prelude
  imports Main "HOL-Library.Word" "HOL-Library.Sublist"
begin

text \<open>
  What the components share: the names of the fixed-width integer types of the C++ source,
  the unsigned decrement of a \<open>size_t\<close> (with its wrap-around), the position search
  \<open>std::lower_bound\<close>, the collections of simplification rules the component proofs draw
  on, and a generic notion of a machine whose invariant holds in every reachable state.
\<close>

named_theorems status_simps \<open>distinctness and success tests of the result codes\<close>
named_theorems wf_simps \<open>unfolding rules of well-formedness predicates\<close>
named_theorems inv_intros \<open>every operation keeps its component's invariant\<close>

type_synonym u8 = "8 word"
type_synonym u16 = "16 word"
type_synonym u32 = "32 word"
type_synonym u64 = "64 word"
type_synonym bytes = "u8 list"

section \<open>Unsigned sizes\<close>

text \<open>
  Counters of type \<open>std::size_t\<close> are natural numbers below \<open>2 ^ 64\<close>. Decrementing zero
  wraps around in C++; the model writes that out, so that a proof which relies on a counter
  never being decremented below zero has to establish it.
\<close>

definition size_max :: nat where
  "size_max = 2 ^ 64 - 1"

definition size_dec :: "nat \<Rightarrow> nat" where
  "size_dec n = (if n = 0 then size_max else n - 1)"

lemma size_dec_pos [simp]: "0 < n \<Longrightarrow> size_dec n = n - 1"
  by (simp add: size_dec_def)

text \<open>Sums and differences of sizes wrap around in the same way.\<close>

definition size_add :: "nat \<Rightarrow> nat \<Rightarrow> nat" where
  "size_add a b = (a + b) mod (size_max + 1)"

definition size_sub :: "nat \<Rightarrow> nat \<Rightarrow> nat" where
  "size_sub a b = (if b \<le> a then a - b else a + (size_max + 1) - b)"

lemma size_sub_le [simp]: "b \<le> a \<Longrightarrow> size_sub a b = a - b"
  by (simp add: size_sub_def)

lemma size_add_le [simp]: "a + b \<le> size_max \<Longrightarrow> size_add a b = a + b"
  by (simp add: size_add_def)

lemma size_add_bound: "size_add a b \<le> a + b"
  by (simp add: size_add_def)

section \<open>\<open>std::lower_bound\<close>\<close>

text \<open>
  The binary search of the C++ standard library over the range that starts at \<open>first\<close> and
  has \<open>len\<close> elements: the position of the first element that does not satisfy \<open>p\<close>,
  provided the range is partitioned by \<open>p\<close>.
\<close>

function lower_bound_from :: "('a \<Rightarrow> bool) \<Rightarrow> 'a list \<Rightarrow> nat \<Rightarrow> nat \<Rightarrow> nat" where
  "lower_bound_from p xs first len =
     (if len = 0 then first
      else let half = len div 2; middle = first + half in
        if p (xs ! middle) then lower_bound_from p xs (Suc middle) (len - half - 1)
        else lower_bound_from p xs first half)"
  by pat_completeness auto
termination
  by (relation "measure (\<lambda>(p, xs, first, len). len)") auto

declare lower_bound_from.simps [simp del]

definition lower_bound :: "('a \<Rightarrow> bool) \<Rightarrow> 'a list \<Rightarrow> nat" where
  "lower_bound p xs = lower_bound_from p xs 0 (length xs)"

definition partitioned :: "('a \<Rightarrow> bool) \<Rightarrow> 'a list \<Rightarrow> bool" where
  "partitioned p xs \<longleftrightarrow> (\<forall>i j. i \<le> j \<and> j < length xs \<and> p (xs ! j) \<longrightarrow> p (xs ! i))"

lemma lower_bound_from_spec:
  assumes "partitioned p xs" and "first + len \<le> length xs"
    and "\<forall>i < first. p (xs ! i)" and "\<forall>i < length xs. first + len \<le> i \<longrightarrow> \<not> p (xs ! i)"
  shows "(let r = lower_bound_from p xs first len in r \<le> length xs \<and>
      (\<forall>i < r. p (xs ! i)) \<and> (\<forall>i < length xs. r \<le> i \<longrightarrow> \<not> p (xs ! i)))"
  using assms
proof (induction p xs first len rule: lower_bound_from.induct)
  case (1 p xs first len)
  let ?mid = "first + len div 2"
  show ?case
  proof (cases "len = 0")
    case True
    with "1.prems" show ?thesis by (simp add: lower_bound_from.simps [of p xs first 0])
  next
    case len: False
    then have mid: "?mid < length xs" "len div 2 < len" using "1.prems"(2) by simp_all
    show ?thesis
    proof (cases "p (xs ! ?mid)")
      case True
      have below: "\<forall>i < Suc ?mid. p (xs ! i)"
        using "1.prems"(1) True mid(1) by (auto simp: partitioned_def less_Suc_eq_le)
      have "let r = lower_bound_from p xs (Suc ?mid) (len - len div 2 - 1) in r \<le> length xs \<and>
          (\<forall>i < r. p (xs ! i)) \<and> (\<forall>i < length xs. r \<le> i \<longrightarrow> \<not> p (xs ! i))"
        using len True "1.prems" below mid by (intro "1.IH"(1)) auto
      with len True show ?thesis
        by (simp add: lower_bound_from.simps [of p xs first len] Let_def)
    next
      case False
      have above: "\<forall>i < length xs. ?mid \<le> i \<longrightarrow> \<not> p (xs ! i)"
        using "1.prems"(1) False by (auto simp: partitioned_def)
      have "let r = lower_bound_from p xs first (len div 2) in r \<le> length xs \<and>
          (\<forall>i < r. p (xs ! i)) \<and> (\<forall>i < length xs. r \<le> i \<longrightarrow> \<not> p (xs ! i))"
        using len False "1.prems" above mid by (intro "1.IH"(2)) auto
      with len False show ?thesis
        by (simp add: lower_bound_from.simps [of p xs first len] Let_def)
    qed
  qed
qed

lemma lower_bound_spec:
  assumes "partitioned p xs"
  shows "lower_bound p xs \<le> length xs"
    and "i < lower_bound p xs \<Longrightarrow> p (xs ! i)"
    and "lower_bound p xs \<le> i \<Longrightarrow> i < length xs \<Longrightarrow> \<not> p (xs ! i)"
  using lower_bound_from_spec [of p xs 0 "length xs"] assms
  by (auto simp: lower_bound_def Let_def)

section \<open>Generic list lemmas\<close>

lemma sorted_wrt_insert_at:
  assumes "sorted_wrt R xs" and "n \<le> length xs"
    and "\<And>x. x \<in> set (take n xs) \<Longrightarrow> R x y" and "\<And>x. x \<in> set (drop n xs) \<Longrightarrow> R y x"
  shows "sorted_wrt R (take n xs @ y # drop n xs)"
proof -
  have "sorted_wrt R (take n xs @ drop n xs)" using assms(1) by simp
  then show ?thesis
    using assms(3,4) by (simp only: sorted_wrt_append) auto
qed

lemma set_insert_at: "set (take n xs @ y # drop n xs) = insert y (set xs)"
proof -
  have "set (take n xs) \<union> set (drop n xs) = set xs"
    by (metis append_take_drop_id set_append)
  then show ?thesis by auto
qed

lemma distinct_split_unique:
  assumes "distinct (xs @ v # ys)" "xs @ v # ys = xs' @ v # ys'"
  shows "xs = xs'"
proof -
  have "v \<notin> set xs" "v \<notin> set ys" using assms(1) by auto
  then show ?thesis using append_Cons_eq_iff assms(2) by metis
qed

lemma find_Some_iff_distinct:
  assumes "\<And>x y. x \<in> set xs \<Longrightarrow> y \<in> set xs \<Longrightarrow> P x \<Longrightarrow> P y \<Longrightarrow> x = y"
  shows "List.find P xs = Some x \<longleftrightarrow> x \<in> set xs \<and> P x"
  using assms
proof (induction xs)
  case Nil
  then show ?case by simp
next
  case (Cons a xs)
  then show ?case by (cases "P a") (auto 4 4)
qed

section \<open>Machines and their invariants\<close>

text \<open>
  A machine is a set of initial states and a step relation. An invariant that holds
  initially and that every step keeps holds in every state a run can reach. Every
  concurrent component states its invariant against this interface.
\<close>

locale machine =
  fixes initial :: "'s \<Rightarrow> bool"
    and step :: "'s \<Rightarrow> 's \<Rightarrow> bool"
    and inv :: "'s \<Rightarrow> bool"
  assumes initial_inv: "initial s \<Longrightarrow> inv s"
    and step_inv: "step s t \<Longrightarrow> inv s \<Longrightarrow> inv t"
begin

lemma run_inv:
  assumes "step\<^sup>*\<^sup>* s t" and "inv s"
  shows "inv t"
  using assms by (induction rule: rtranclp_induct) (auto intro: step_inv)

lemma reachable_inv:
  assumes "initial s" and "step\<^sup>*\<^sup>* s t"
  shows "inv t"
  using assms by (blast intro: run_inv initial_inv)

end

end
