(* ===== verification/Dependency_Graph.thy ===== *)
theory Dependency_Graph
  imports Prelude
begin

text \<open>
  \<open>utils/execution_graph/dependency_graph.hpp\<close>: the directed dependency graph, its
  construction, and the layered topological validation. Every public method takes the
  graph's lock for its whole body, so each is one atomic step on the record below.
\<close>

section \<open>Data and construction\<close>

datatype graph_status = GRAPH_OK | GRAPH_INVALID_ARGUMENT | DUPLICATE_NODE | NODE_NOT_FOUND
  | DUPLICATE_DEPENDENCY | DEPENDENCY_CYCLE | EXECUTION_IN_PROGRESS | WORKER_SUBMISSION_FAILED

record 'n dependency_graph =
  dg_nodes :: "'n list"
  node_indices :: "'n \<rightharpoonup> nat"
  dependents :: "nat list list"
  dependency_counts :: "nat list"
  edge_count :: nat
  topology_valid :: bool
  forward_layer_indices :: "nat list list"

definition empty_graph :: "'n dependency_graph" where
  "empty_graph = \<lparr>dg_nodes = [], node_indices = Map.empty, dependents = [], dependency_counts = [],
     edge_count = 0, topology_valid = False, forward_layer_indices = []\<rparr>"

definition add_node :: "'n \<Rightarrow> 'n dependency_graph \<Rightarrow> 'n dependency_graph \<times> graph_status" where
  "add_node v g =
     (case node_indices g v of Some _ \<Rightarrow> (g, DUPLICATE_NODE)
      | None \<Rightarrow>
        (g\<lparr>node_indices := (node_indices g)(v \<mapsto> length (dg_nodes g)),
           dg_nodes := dg_nodes g @ [v],
           dependents := dependents g @ [[]],
           dependency_counts := dependency_counts g @ [0],
           topology_valid := False\<rparr>, GRAPH_OK))"

definition add_dependency ::
    "'n \<Rightarrow> 'n \<Rightarrow> 'n dependency_graph \<Rightarrow> 'n dependency_graph \<times> graph_status" where
  "add_dependency prerequisite dependent g =
     (case (node_indices g prerequisite, node_indices g dependent) of
        (Some p, Some d) \<Rightarrow>
          if d \<in> set (dependents g ! p) then (g, DUPLICATE_DEPENDENCY)
          else (g\<lparr>dependents := (dependents g)[p := dependents g ! p @ [d]],
                  dependency_counts := (dependency_counts g)[d := Suc (dependency_counts g ! d)],
                  edge_count := Suc (edge_count g),
                  topology_valid := False\<rparr>, GRAPH_OK)
      | _ \<Rightarrow> (g, NODE_NOT_FOUND))"

definition graph_size :: "'n dependency_graph \<Rightarrow> nat" where
  "graph_size g = length (dg_nodes g)"

definition graph_dependency_count :: "'n dependency_graph \<Rightarrow> nat" where
  "graph_dependency_count g = edge_count g"

section \<open>Validation\<close>

text \<open>
  One decrement of the inner loop: the counter of a dependent goes down, and the dependent
  becomes ready when it reaches zero. The outer \<open>while\<close> loop has no bound of its own: not
  returning is \<open>None\<close>, and that it returns is a theorem about well-formed graphs.
\<close>

definition release :: "nat \<Rightarrow> nat list \<times> nat list \<Rightarrow> nat list \<times> nat list" where
  "release d st =
     (let remaining = (fst st)[d := size_dec (fst st ! d)]
      in (remaining, if remaining ! d = 0 then snd st @ [d] else snd st))"

partial_function (option) layer_loop ::
    "nat list list \<Rightarrow> nat list \<Rightarrow> nat list \<Rightarrow> nat list list \<Rightarrow> nat \<Rightarrow> (nat list list \<times> nat) option" where
  "layer_loop deps remaining ready layers visited =
     (if ready = [] then Some (layers, visited)
      else let sorted_ready = sort ready;
               (remaining', next) =
                 fold (\<lambda>index. fold release (deps ! index)) sorted_ready (remaining, [])
           in layer_loop deps remaining' next (layers @ [sorted_ready]) (visited + length sorted_ready))"

declare layer_loop.simps [code]

definition validate_locked :: "'n dependency_graph \<Rightarrow> ('n dependency_graph \<times> graph_status) option" where
  "validate_locked g =
     (if topology_valid g then Some (g, GRAPH_OK)
      else case layer_loop (dependents g) (dependency_counts g)
                  (filter (\<lambda>i. dependency_counts g ! i = 0) [0..<length (dg_nodes g)]) [] 0 of
          None \<Rightarrow> None
        | Some (layers, visited) \<Rightarrow>
            if visited \<noteq> length (dg_nodes g)
            then Some (g\<lparr>forward_layer_indices := []\<rparr>, DEPENDENCY_CYCLE)
            else Some (g\<lparr>forward_layer_indices := layers, topology_valid := True\<rparr>, GRAPH_OK))"

record 'n graph_snapshot =
  snapshot_nodes :: "'n list"
  snapshot_dependents :: "nat list list"
  snapshot_counts :: "nat list"

definition snapshot ::
    "'n dependency_graph \<Rightarrow> ('n dependency_graph \<times> graph_status \<times> 'n graph_snapshot option) option" where
  "snapshot g =
     (case validate_locked g of None \<Rightarrow> None
      | Some (g', status) \<Rightarrow>
          if status \<noteq> GRAPH_OK then Some (g', status, None)
          else Some (g', GRAPH_OK, Some \<lparr>snapshot_nodes = dg_nodes g',
            snapshot_dependents = dependents g', snapshot_counts = dependency_counts g'\<rparr>))"

definition forward_layers ::
    "'n dependency_graph \<Rightarrow> ('n dependency_graph \<times> graph_status \<times> 'n list list) option" where
  "forward_layers g =
     (case validate_locked g of None \<Rightarrow> None
      | Some (g', status) \<Rightarrow>
          if status \<noteq> GRAPH_OK then Some (g', status, [])
          else Some (g', GRAPH_OK, map (map (\<lambda>i. dg_nodes g' ! i)) (forward_layer_indices g')))"

definition reverse_layers ::
    "'n dependency_graph \<Rightarrow> ('n dependency_graph \<times> graph_status \<times> 'n list list) option" where
  "reverse_layers g =
     (case forward_layers g of None \<Rightarrow> None
      | Some (g', status, forward) \<Rightarrow>
          if status \<noteq> GRAPH_OK then Some (g', status, []) else Some (g', GRAPH_OK, rev forward))"

section \<open>Well-formed graphs\<close>

text \<open>Prerequisites of a dense index, and what a correct layering is.\<close>

definition preds :: "nat list list \<Rightarrow> nat \<Rightarrow> nat set" where
  "preds deps d = {p. p < length deps \<and> d \<in> set (deps ! p)}"

definition deps_wf :: "nat list list \<Rightarrow> bool" where
  "deps_wf deps \<longleftrightarrow> (\<forall>p < length deps. distinct (deps ! p) \<and> set (deps ! p) \<subseteq> {..<length deps})"

text \<open>
  Every layer holds exactly the nodes that are not in an earlier layer and whose
  prerequisites all are, in ascending registration order.
\<close>

definition greedy_layers :: "nat list list \<Rightarrow> nat list list \<Rightarrow> bool" where
  "greedy_layers deps layers \<longleftrightarrow>
     (\<forall>before layer after. layers = before @ layer # after \<longrightarrow> sorted layer \<and> distinct layer \<and>
        set layer = {d. d < length deps \<and> d \<notin> set (concat before) \<and> preds deps d \<subseteq> set (concat before)})"

definition complete_layers :: "nat list list \<Rightarrow> nat list list \<Rightarrow> bool" where
  "complete_layers deps layers \<longleftrightarrow> greedy_layers deps layers \<and>
     distinct (concat layers) \<and> set (concat layers) = {..<length deps}"

definition edges :: "nat list list \<Rightarrow> (nat \<times> nat) set" where
  "edges deps = {(p, d). p \<in> preds deps d}"

definition graph_wf :: "'n dependency_graph \<Rightarrow> bool" where
  "graph_wf g \<longleftrightarrow> distinct (dg_nodes g) \<and>
     (\<forall>v i. node_indices g v = Some i \<longleftrightarrow> i < length (dg_nodes g) \<and> dg_nodes g ! i = v) \<and>
     length (dependents g) = length (dg_nodes g) \<and>
     dependency_counts g = map (\<lambda>d. card (preds (dependents g) d)) [0..<length (dg_nodes g)] \<and>
     deps_wf (dependents g) \<and>
     (topology_valid g \<longrightarrow> complete_layers (dependents g) (forward_layer_indices g))"

lemma finite_preds [simp]: "finite (preds deps d)"
  unfolding preds_def by simp

lemma preds_lt: "p \<in> preds deps d \<Longrightarrow> p < length deps"
  by (simp add: preds_def)

lemma dependent_lt: "deps_wf deps \<Longrightarrow> p \<in> preds deps d \<Longrightarrow> d < length deps"
  by (auto simp: preds_def deps_wf_def)

lemma graph_wf_empty: "graph_wf empty_graph"
  by (simp add: graph_wf_def empty_graph_def deps_wf_def)

lemma preds_append_empty: "preds (deps @ [[]]) d = preds deps d"
  by (auto simp: preds_def nth_append less_Suc_eq)

lemma deps_wf_append_empty: "deps_wf deps \<Longrightarrow> deps_wf (deps @ [[]])"
  unfolding deps_wf_def by (fastforce simp: nth_append less_Suc_eq)

lemma graph_wf_add_node [inv_intros]:
  assumes wf: "graph_wf g"
  shows "graph_wf (fst (add_node v g))"
proof (cases "node_indices g v")
  case (Some i)
  then show ?thesis using wf by (simp add: add_node_def)
next
  case None
  let ?n = "length (dg_nodes g)"
  have new: "v \<notin> set (dg_nodes g)" using wf None
    by (metis graph_wf_def in_set_conv_nth option.distinct(1))
  have idx: "((node_indices g)(v \<mapsto> ?n)) w = Some i \<longleftrightarrow>
      i < Suc ?n \<and> (dg_nodes g @ [v]) ! i = w" for w i
    using wf new by (auto simp: graph_wf_def nth_append less_Suc_eq)
  have out: "preds (dependents g) ?n = {}"
    using wf dependent_lt [of "dependents g"] by (fastforce simp: graph_wf_def)
  have eq: "fst (add_node v g) = g\<lparr>node_indices := (node_indices g)(v \<mapsto> ?n),
      dg_nodes := dg_nodes g @ [v], dependents := dependents g @ [[]],
      dependency_counts := dependency_counts g @ [0], topology_valid := False\<rparr>"
    using None by (simp add: add_node_def)
  show ?thesis
    using wf new idx out deps_wf_append_empty unfolding eq graph_wf_def
    by (simp add: preds_append_empty)
qed

lemma preds_add_edge:
  assumes "p < length deps" "d \<notin> set (deps ! p)"
  shows "preds (deps[p := deps ! p @ [d]]) e = (if e = d then insert p (preds deps e) else preds deps e)"
  using assms by (auto simp: preds_def nth_list_update)

lemma graph_wf_add_dependency [inv_intros]:
  assumes wf: "graph_wf g"
  shows "graph_wf (fst (add_dependency v w g))"
proof (cases "\<exists>p d. node_indices g v = Some p \<and> node_indices g w = Some d \<and> d \<notin> set (dependents g ! p)")
  case False
  then show ?thesis using wf by (auto simp: add_dependency_def split: option.splits)
next
  case True
  then obtain p d where pd: "node_indices g v = Some p" "node_indices g w = Some d"
    "d \<notin> set (dependents g ! p)" by blast
  let ?n = "length (dg_nodes g)" and ?deps = "dependents g"
  have lt: "p < length ?deps" "d < length ?deps" "length ?deps = ?n"
    using pd wf by (auto simp: graph_wf_def)
  have fresh: "p \<notin> preds ?deps d" using pd(3) by (simp add: preds_def)
  let ?deps' = "?deps[p := ?deps ! p @ [d]]"
  have wf': "deps_wf ?deps'"
    using wf pd lt by (auto simp: graph_wf_def deps_wf_def nth_list_update)
  have cnt: "(dependency_counts g)[d := Suc (dependency_counts g ! d)] =
      map (\<lambda>e. card (preds ?deps' e)) [0..<?n]"
    using wf lt fresh by (intro nth_equalityI)
      (auto simp: graph_wf_def nth_list_update preds_add_edge [OF lt(1) pd(3)])
  have eq: "fst (add_dependency v w g) = g\<lparr>dependents := ?deps',
      dependency_counts := (dependency_counts g)[d := Suc (dependency_counts g ! d)],
      edge_count := Suc (edge_count g), topology_valid := False\<rparr>"
    using pd by (simp add: add_dependency_def)
  show ?thesis using wf wf' cnt unfolding eq graph_wf_def by simp
qed

section \<open>The decrement loop\<close>

lemma fold_fold_concat: "fold (\<lambda>i. fold f (g i)) xs s = fold f (concat (map g xs)) s"
  by (induction xs arbitrary: s) auto

lemma release_loop:
  assumes "\<forall>d \<in> set ds. d < length remaining \<and> count_list ds d \<le> remaining ! d"
  shows "\<exists>new. fold release ds (remaining, next) =
      (map (\<lambda>d. remaining ! d - count_list ds d) [0..<length remaining], next @ new) \<and>
      distinct new \<and> set new = {d \<in> set ds. count_list ds d = remaining ! d}"
  using assms
proof (induction ds arbitrary: remaining "next")
  case Nil
  then show ?case by (simp add: map_nth)
next
  case (Cons d ds)
  have d: "d < length remaining" "0 < remaining ! d" using Cons.prems by auto
  let ?rem = "remaining[d := remaining ! d - 1]"
  let ?next = "if remaining ! d = 1 then next @ [d] else next"
  have step: "release d (remaining, next) = (?rem, ?next)"
    using d by (auto simp: release_def Let_def)
  have "\<forall>e \<in> set ds. e < length ?rem \<and> count_list ds e \<le> ?rem ! e"
  proof
    fix e assume "e \<in> set ds"
    then have "e < length remaining" "count_list (d # ds) e \<le> remaining ! e" using Cons.prems by auto
    then show "e < length ?rem \<and> count_list ds e \<le> ?rem ! e"
      by (auto simp: nth_list_update split: if_splits)
  qed
  from Cons.IH [OF this, of ?next] obtain new where new:
    "fold release ds (?rem, ?next) =
       (map (\<lambda>e. ?rem ! e - count_list ds e) [0..<length ?rem], ?next @ new)"
    "distinct new" "set new = {e \<in> set ds. count_list ds e = ?rem ! e}" by blast
  have le: "Suc (count_list ds d) \<le> remaining ! d" using Cons.prems by auto
  have rem: "map (\<lambda>e. ?rem ! e - count_list ds e) [0..<length ?rem] =
      map (\<lambda>e. remaining ! e - count_list (d # ds) e) [0..<length remaining]"
    by (auto simp: nth_list_update)
  show ?case
  proof (cases "remaining ! d = 1")
    case True
    then have notin: "d \<notin> set ds" using le by (simp add: count_list_0_iff)
    have "fold release (d # ds) (remaining, next) =
        (map (\<lambda>e. remaining ! e - count_list (d # ds) e) [0..<length remaining], next @ d # new)"
      using step new(1) rem True by simp
    moreover have "distinct (d # new)" using new notin by auto
    moreover have "set (d # new) = {e \<in> set (d # ds). count_list (d # ds) e = remaining ! e}"
    proof (rule set_eqI)
      fix e
      show "e \<in> set (d # new) \<longleftrightarrow> e \<in> {e \<in> set (d # ds). count_list (d # ds) e = remaining ! e}"
        using new(3) notin True d by (cases "e = d") (simp_all add: count_notin)
    qed
    ultimately show ?thesis by blast
  next
    case False
    have "fold release (d # ds) (remaining, next) =
        (map (\<lambda>e. remaining ! e - count_list (d # ds) e) [0..<length remaining], next @ new)"
      using step new(1) rem False by simp
    moreover have "set new = {e \<in> set (d # ds). count_list (d # ds) e = remaining ! e}"
    proof -
      have mem: "d \<in> set ds" if "Suc (count_list ds d) = remaining ! d"
        using that False by (metis One_nat_def count_list_0_iff)
      have eq: "count_list ds d = remaining ! d - 1 \<longleftrightarrow> Suc (count_list ds d) = remaining ! d"
        using le by linarith
      have "e \<in> set new \<longleftrightarrow> e \<in> {e \<in> set (d # ds). count_list (d # ds) e = remaining ! e}" for e
        using new(3) d mem eq by (cases "e = d") auto
      then show ?thesis by blast
    qed
    ultimately show ?thesis using new(2) by blast
  qed
qed

lemma count_list_distinct: "distinct xs \<Longrightarrow> count_list xs d = (if d \<in> set xs then 1 else 0)"
  by (induction xs) auto

lemma count_released:
  assumes "\<forall>p \<in> set ps. distinct (deps ! p)" "distinct ps"
  shows "count_list (concat (map (\<lambda>p. deps ! p) ps)) d = card {p \<in> set ps. d \<in> set (deps ! p)}"
  using assms
proof (induction ps)
  case Nil
  then show ?case by simp
next
  case (Cons p ps)
  have "{q \<in> set (p # ps). d \<in> set (deps ! q)} =
      (if d \<in> set (deps ! p) then insert p {q \<in> set ps. d \<in> set (deps ! q)}
       else {q \<in> set ps. d \<in> set (deps ! q)})" by auto
  then show ?case using Cons by (simp add: count_list_distinct)
qed

section \<open>The layer loop\<close>

definition loop_inv :: "nat list list \<Rightarrow> nat list \<Rightarrow> nat list \<Rightarrow> nat list list \<Rightarrow> nat \<Rightarrow> bool" where
  "loop_inv deps remaining ready layers visited \<longleftrightarrow>
     greedy_layers deps layers \<and> distinct (concat layers) \<and>
     set (concat layers) \<subseteq> {..<length deps} \<and> visited = length (concat layers) \<and>
     distinct ready \<and>
     set ready = {d. d < length deps \<and> d \<notin> set (concat layers) \<and> preds deps d \<subseteq> set (concat layers)} \<and>
     remaining = map (\<lambda>d. card (preds deps d - set (concat layers))) [0..<length deps]"

lemma greedy_layers_snoc:
  assumes "greedy_layers deps layers" "sorted layer" "distinct layer"
    and "set layer = {d. d < length deps \<and> d \<notin> set (concat layers) \<and> preds deps d \<subseteq> set (concat layers)}"
  shows "greedy_layers deps (layers @ [layer])"
  unfolding greedy_layers_def
proof (intro allI impI)
  fix before l after
  assume eq: "layers @ [layer] = before @ l # after"
  show "sorted l \<and> distinct l \<and>
    set l = {d. d < length deps \<and> d \<notin> set (concat before) \<and> preds deps d \<subseteq> set (concat before)}"
  proof (cases after rule: rev_cases)
    case Nil
    with eq assms show ?thesis by simp
  next
    case (snoc after' a)
    with eq have "layers = before @ l # after'" by simp
    with assms(1) show ?thesis unfolding greedy_layers_def by blast
  qed
qed

lemma greedy_layers_preds:
  assumes "greedy_layers deps layers" "d \<in> set (concat layers)"
  shows "preds deps d \<subseteq> set (concat layers)"
proof -
  from assms(2) obtain layer where "layer \<in> set layers" "d \<in> set layer" by auto
  then obtain before after where split: "layers = before @ layer # after" by (meson split_list)
  then have "preds deps d \<subseteq> set (concat before)"
    using assms(1) \<open>d \<in> set layer\<close> unfolding greedy_layers_def by blast
  with split show ?thesis by auto
qed

lemma layer_step:
  assumes wf: "deps_wf deps" and inv: "loop_inv deps remaining ready layers visited"
  shows "\<exists>remaining' next.
    fold (\<lambda>index. fold release (deps ! index)) (sort ready) (remaining, []) = (remaining', next) \<and>
    loop_inv deps remaining' next (layers @ [sort ready]) (visited + length (sort ready))"
proof -
  let ?V = "set (concat layers)" and ?R = "set ready" and ?n = "length deps"
  let ?ds = "concat (map (\<lambda>p. deps ! p) (sort ready))"
  have R: "?R = {d. d < ?n \<and> d \<notin> ?V \<and> preds deps d \<subseteq> ?V}" and dR: "distinct ready"
    and rem: "remaining = map (\<lambda>d. card (preds deps d - ?V)) [0..<?n]"
    and gr: "greedy_layers deps layers"
    using inv unfolding loop_inv_def by blast+
  have cnt: "count_list ?ds d = card {p \<in> ?R. d \<in> set (deps ! p)}" for d
    using wf R dR by (subst count_released) (auto simp: deps_wf_def)
  have sub: "{p \<in> ?R. d \<in> set (deps ! p)} \<subseteq> preds deps d - ?V" for d
    using R by (auto simp: preds_def)
  have diff: "preds deps d - ?V - {p \<in> ?R. d \<in> set (deps ! p)} = preds deps d - (?V \<union> ?R)" for d
    by (auto simp: preds_def)
  have lt: "d < ?n" if d: "d \<in> set ?ds" for d
  proof -
    from d obtain p where "p \<in> ?R" "d \<in> set (deps ! p)" by auto
    then have "p \<in> preds deps d" using R by (auto simp: preds_def)
    then show ?thesis by (rule dependent_lt [OF wf])
  qed
  have bound: "\<forall>d \<in> set ?ds. d < length remaining \<and> count_list ?ds d \<le> remaining ! d"
  proof
    fix d assume d: "d \<in> set ?ds"
    have "count_list ?ds d \<le> card (preds deps d - ?V)"
      unfolding cnt by (intro card_mono sub) simp
    then show "d < length remaining \<and> count_list ?ds d \<le> remaining ! d"
      using lt [OF d] rem by simp
  qed
  from release_loop [OF this, of "[]"] obtain new where new:
    "fold release ?ds (remaining, []) =
       (map (\<lambda>d. remaining ! d - count_list ?ds d) [0..<length remaining], new)"
    "distinct new" "set new = {d \<in> set ?ds. count_list ?ds d = remaining ! d}" by auto
  have card: "card (preds deps d - ?V) - count_list ?ds d = card (preds deps d - (?V \<union> ?R))" for d
    unfolding cnt diff [symmetric] using sub [of d] by (intro card_Diff_subset [symmetric])
      (auto intro: finite_subset)
  have rem': "map (\<lambda>d. remaining ! d - count_list ?ds d) [0..<length remaining] =
      map (\<lambda>d. card (preds deps d - set (concat (layers @ [sort ready])))) [0..<?n]"
    using rem card by simp
  have newset: "set new = {d. d < ?n \<and> d \<notin> ?V \<union> ?R \<and> preds deps d \<subseteq> ?V \<union> ?R}"
  proof (rule set_eqI)
    fix d
    have full: "count_list ?ds d = remaining ! d \<longleftrightarrow> preds deps d \<subseteq> ?V \<union> ?R" if "d < ?n"
    proof -
      have "count_list ?ds d \<le> card (preds deps d - ?V)"
        unfolding cnt by (intro card_mono sub) simp
      then have "count_list ?ds d = remaining ! d \<longleftrightarrow> card (preds deps d - (?V \<union> ?R)) = 0"
        using that rem card [of d] by (simp del: card_eq_0_iff card_0_eq) linarith
      also have "\<dots> \<longleftrightarrow> preds deps d \<subseteq> ?V \<union> ?R" by auto
      finally show ?thesis .
    qed
    have mem: "d \<in> set ?ds \<longleftrightarrow> (\<exists>p \<in> ?R. p \<in> preds deps d)"
      using R by (auto simp: preds_def)
    have out: "d \<notin> ?V \<union> ?R" if "p \<in> ?R" "p \<in> preds deps d" for p
      using that R greedy_layers_preds [OF gr, of d] by blast
    show "d \<in> set new \<longleftrightarrow> d \<in> {d. d < ?n \<and> d \<notin> ?V \<union> ?R \<and> preds deps d \<subseteq> ?V \<union> ?R}"
      using new(3) full mem out lt R by blast
  qed
  have "loop_inv deps (map (\<lambda>d. remaining ! d - count_list ?ds d) [0..<length remaining]) new
      (layers @ [sort ready]) (visited + length (sort ready))"
    unfolding loop_inv_def rem'
    using inv R dR new(2) newset greedy_layers_snoc [OF gr, of "sort ready"]
    unfolding loop_inv_def by auto
  then show ?thesis using new(1) by (simp add: fold_fold_concat)
qed

lemma layer_loop_returns:
  assumes wf: "deps_wf deps" and inv: "loop_inv deps remaining ready layers visited"
  shows "\<exists>layers' visited' remaining'.
    layer_loop deps remaining ready layers visited = Some (layers', visited') \<and>
    loop_inv deps remaining' [] layers' visited'"
  using inv
proof (induction "length deps - visited" arbitrary: remaining ready layers visited rule: less_induct)
  case less
  show ?case
  proof (cases "ready = []")
    case True
    with less.prems show ?thesis by (auto simp: layer_loop.simps)
  next
    case False
    obtain remaining' "next" where step:
      "fold (\<lambda>index. fold release (deps ! index)) (sort ready) (remaining, []) = (remaining', next)"
      "loop_inv deps remaining' next (layers @ [sort ready]) (visited + length (sort ready))"
      using layer_step [OF wf less.prems] by blast
    have "card (set (concat (layers @ [sort ready]))) \<le> card {..<length deps}"
      using step(2) unfolding loop_inv_def by (intro card_mono) auto
    moreover have "card (set (concat (layers @ [sort ready]))) = visited + length (sort ready)"
      using step(2) unfolding loop_inv_def by (metis distinct_card)
    ultimately have "length deps - (visited + length (sort ready)) < length deps - visited"
      using False by (cases ready) auto
    from less.hyps [OF this step(2)] show ?thesis
      using False step(1) by (simp add: layer_loop.simps [of deps remaining ready])
  qed
qed

lemma loop_inv_start:
  "loop_inv deps (map (\<lambda>d. card (preds deps d)) [0..<length deps])
     (filter (\<lambda>i. map (\<lambda>d. card (preds deps d)) [0..<length deps] ! i = 0) [0..<length deps]) [] 0"
  by (auto simp: loop_inv_def greedy_layers_def)

text \<open>A finished loop has visited everything exactly when the edges have no cycle.\<close>

lemma acyclic_visits_all:
  assumes wf: "deps_wf deps" and inv: "loop_inv deps remaining [] layers visited"
    and ac: "acyclic (edges deps)"
  shows "set (concat layers) = {..<length deps}"
proof (rule ccontr)
  let ?V = "set (concat layers)" and ?U = "{..<length deps} - set (concat layers)"
  assume "?V \<noteq> {..<length deps}"
  then have ne: "?U \<noteq> {}" using inv unfolding loop_inv_def by blast
  have "finite (edges deps)"
    by (rule finite_subset [of _ "{..<length deps} \<times> {..<length deps}"])
      (auto simp: edges_def intro: preds_lt dependent_lt [OF wf])
  then have "wf (edges deps)" using ac by (simp add: finite_acyclic_wf)
  then obtain d where d: "d \<in> ?U" "\<And>p. (p, d) \<in> edges deps \<Longrightarrow> p \<notin> ?U"
    using ne by (metis ex_in_conv wfE_min)
  then have "preds deps d \<subseteq> ?V" by (auto simp: edges_def dest: preds_lt)
  moreover have "{} = {d. d < length deps \<and> d \<notin> ?V \<and> preds deps d \<subseteq> ?V}"
    using inv unfolding loop_inv_def by simp
  ultimately show False using d(1) by auto
qed

lemma greedy_layer_nth:
  assumes "greedy_layers deps layers" "k < length layers" "d \<in> set (layers ! k)"
  shows "d \<notin> set (concat (take k layers))" and "preds deps d \<subseteq> set (concat (take k layers))"
proof -
  have "layers = take k layers @ layers ! k # drop (Suc k) layers"
    using assms(2) by (rule id_take_nth_drop)
  then have "set (layers ! k) = {d. d < length deps \<and> d \<notin> set (concat (take k layers)) \<and>
      preds deps d \<subseteq> set (concat (take k layers))}"
    using assms(1) unfolding greedy_layers_def by blast
  with assms(3) show "d \<notin> set (concat (take k layers))" "preds deps d \<subseteq> set (concat (take k layers))"
    by auto
qed

lemma in_take_concat: "d \<in> set (concat (take k layers)) \<longleftrightarrow> (\<exists>j < k. j < length layers \<and> d \<in> set (layers ! j))"
proof -
  have "d \<in> set (concat xs) \<longleftrightarrow> (\<exists>j < length xs. d \<in> set (xs ! j))" for xs
    by (simp add: in_set_conv_nth [of _ xs] Bex_def) blast
  from this [of "take k layers"] show ?thesis by auto
qed

lemma greedy_ancestors:
  assumes gr: "greedy_layers deps layers" and "(p, d) \<in> (edges deps)\<^sup>+"
    and k: "k < length layers" "d \<in> set (layers ! k)"
  shows "p \<in> set (concat (take k layers))"
  using assms(2)
proof (induction rule: converse_trancl_induct)
  case (base p)
  then show ?case using greedy_layer_nth(2) [OF gr k] by (auto simp: edges_def)
next
  case (step p q)
  from step(3) obtain j where j: "j < k" "j < length layers" "q \<in> set (layers ! j)"
    unfolding in_take_concat by blast
  have "p \<in> set (concat (take j layers))"
    using greedy_layer_nth(2) [OF gr j(2,3)] step(1) by (auto simp: edges_def)
  with j(1) show ?case unfolding in_take_concat by (meson order_less_trans)
qed

lemma complete_layers_acyclic:
  assumes wf: "deps_wf deps" and cl: "complete_layers deps layers"
  shows "acyclic (edges deps)"
proof (rule acyclicI, rule allI, rule notI)
  fix d
  assume cyc: "(d, d) \<in> (edges deps)\<^sup>+"
  then obtain q where "(q, d) \<in> edges deps" by (meson tranclE)
  then have "d \<in> set (concat layers)"
    using cl dependent_lt [OF wf] by (auto simp: edges_def complete_layers_def)
  then obtain k where k: "k < length layers" "d \<in> set (layers ! k)"
    using in_take_concat [of d "length layers" layers] by auto
  have gr: "greedy_layers deps layers" using cl by (simp add: complete_layers_def)
  show False using greedy_ancestors [OF gr cyc k] greedy_layer_nth(1) [OF gr k] by blast
qed

section \<open>Validation decides acyclicity\<close>

lemma validate_unvalidated:
  assumes wf: "graph_wf g" and nv: "\<not> topology_valid g"
  shows "\<exists>layers. validate_locked g =
    (if acyclic (edges (dependents g))
     then Some (g\<lparr>forward_layer_indices := layers, topology_valid := True\<rparr>, GRAPH_OK)
     else Some (g\<lparr>forward_layer_indices := []\<rparr>, DEPENDENCY_CYCLE)) \<and>
    (acyclic (edges (dependents g)) \<longrightarrow> complete_layers (dependents g) layers)"
proof -
  let ?deps = "dependents g" and ?n = "length (dg_nodes g)"
  have dw: "deps_wf ?deps" and n: "length ?deps = ?n"
    and cnt: "dependency_counts g = map (\<lambda>d. card (preds ?deps d)) [0..<?n]"
    using wf unfolding graph_wf_def by blast+
  have "loop_inv ?deps (dependency_counts g)
      (filter (\<lambda>i. dependency_counts g ! i = 0) [0..<?n]) [] 0"
    using loop_inv_start [of ?deps] n cnt by simp
  from layer_loop_returns [OF dw this] obtain layers visited remaining where loop:
    "layer_loop ?deps (dependency_counts g) (filter (\<lambda>i. dependency_counts g ! i = 0) [0..<?n]) [] 0 =
       Some (layers, visited)" "loop_inv ?deps remaining [] layers visited" by blast
  have inv: "greedy_layers ?deps layers" "distinct (concat layers)"
    "set (concat layers) \<subseteq> {..<?n}" "visited = length (concat layers)"
    using loop(2) n unfolding loop_inv_def by simp_all
  have all: "visited = ?n \<longleftrightarrow> set (concat layers) = {..<?n}"
    using inv by (metis card_lessThan card_subset_eq distinct_card finite_lessThan)
  have iff: "acyclic (edges ?deps) \<longleftrightarrow> visited = ?n"
    using acyclic_visits_all [OF dw loop(2)] complete_layers_acyclic [OF dw, of layers] inv all n
    by (auto simp: complete_layers_def)
  then have "acyclic (edges ?deps) \<longrightarrow> complete_layers ?deps layers"
    using inv all n by (simp add: complete_layers_def)
  with iff show ?thesis using nv loop(1) by (intro exI [of _ layers]) (simp add: validate_locked_def)
qed

lemma validate_locked_cases:
  assumes wf: "graph_wf g"
  obtains (valid) g' where "validate_locked g = Some (g', GRAPH_OK)"
    "graph_wf g'" "dg_nodes g' = dg_nodes g" "dependents g' = dependents g"
    "dependency_counts g' = dependency_counts g" "topology_valid g'"
    "complete_layers (dependents g) (forward_layer_indices g')" "acyclic (edges (dependents g))"
  | (cycle) g' where "validate_locked g = Some (g', DEPENDENCY_CYCLE)"
    "graph_wf g'" "dg_nodes g' = dg_nodes g" "dependents g' = dependents g"
    "\<not> acyclic (edges (dependents g))"
proof (cases "topology_valid g")
  case True
  then show ?thesis using wf valid complete_layers_acyclic
    by (metis graph_wf_def validate_locked_def)
next
  case False
  obtain layers where val: "validate_locked g =
    (if acyclic (edges (dependents g))
     then Some (g\<lparr>forward_layer_indices := layers, topology_valid := True\<rparr>, GRAPH_OK)
     else Some (g\<lparr>forward_layer_indices := []\<rparr>, DEPENDENCY_CYCLE))"
    and cl: "acyclic (edges (dependents g)) \<longrightarrow> complete_layers (dependents g) layers"
    using validate_unvalidated [OF wf False] by blast
  show ?thesis
  proof (cases "acyclic (edges (dependents g))")
    case True
    have "graph_wf (g\<lparr>forward_layer_indices := layers, topology_valid := True\<rparr>)"
      using wf True cl unfolding graph_wf_def by simp
    with True val cl show ?thesis by (intro valid [of "g\<lparr>forward_layer_indices := layers, topology_valid := True\<rparr>"]) simp_all
  next
    case cyc: False
    have "graph_wf (g\<lparr>forward_layer_indices := []\<rparr>)"
      using wf False unfolding graph_wf_def by simp
    with cyc val show ?thesis by (intro cycle [of "g\<lparr>forward_layer_indices := []\<rparr>"]) simp_all
  qed
qed

section \<open>Orders for the clients\<close>

text \<open>The declared relation on node values: \<open>v\<close> may follow only after \<open>w\<close>.\<close>

definition requires :: "'n dependency_graph \<Rightarrow> 'n \<Rightarrow> 'n \<Rightarrow> bool" where
  "requires g v w \<longleftrightarrow> (\<exists>p d. node_indices g w = Some p \<and> node_indices g v = Some d \<and>
     d \<in> set (dependents g ! p))"

definition layer_order :: "'n dependency_graph \<Rightarrow> 'n list list option" where
  "layer_order g =
     (case forward_layers g of Some (_, GRAPH_OK, layers) \<Rightarrow> Some layers | _ \<Rightarrow> None)"

lemma layer_order_cases:
  assumes wf: "graph_wf g"
  obtains (valid) g' layers where
    "forward_layers g = Some (g', GRAPH_OK, map (map (\<lambda>i. dg_nodes g ! i)) layers)"
    "reverse_layers g = Some (g', GRAPH_OK, rev (map (map (\<lambda>i. dg_nodes g ! i)) layers))"
    "layer_order g = Some (map (map (\<lambda>i. dg_nodes g ! i)) layers)"
    "graph_wf g'" "dg_nodes g' = dg_nodes g" "dependents g' = dependents g" "topology_valid g'"
    "complete_layers (dependents g) layers" "acyclic (edges (dependents g))"
  | (cycle) g' where "forward_layers g = Some (g', DEPENDENCY_CYCLE, [])"
    "reverse_layers g = Some (g', DEPENDENCY_CYCLE, [])"
    "layer_order g = None" "graph_wf g'" "dg_nodes g' = dg_nodes g" "dependents g' = dependents g"
    "\<not> acyclic (edges (dependents g))"
  using wf
proof (cases rule: validate_locked_cases)
  case (valid g')
  then show ?thesis
    by (intro that(1) [of g' "forward_layer_indices g'"])
      (simp_all add: forward_layers_def reverse_layers_def layer_order_def)
next
  case (cycle g')
  then show ?thesis
    by (intro that(2) [of g']) (simp_all add: forward_layers_def reverse_layers_def layer_order_def)
qed

text \<open>
  What lifecycle code relies on: an order by layers in which every prerequisite of a member
  is in an earlier layer. Walking the layers forwards meets prerequisites first, walking
  them backwards meets dependents first.
\<close>

locale layered_order =
  fixes invar :: "'g \<Rightarrow> bool"
    and members :: "'g \<Rightarrow> 'n set"
    and needs :: "'g \<Rightarrow> 'n \<Rightarrow> 'n \<Rightarrow> bool"
    and order :: "'g \<Rightarrow> 'n list list option"
  assumes order_members: "invar g \<Longrightarrow> order g = Some layers \<Longrightarrow>
      distinct (concat layers) \<and> set (concat layers) = members g"
    and order_before: "invar g \<Longrightarrow> order g = Some layers \<Longrightarrow> k < length layers \<Longrightarrow>
      v \<in> set (layers ! k) \<Longrightarrow> needs g v w \<Longrightarrow> w \<in> set (concat (take k layers))"
begin

lemma forward_prerequisites_first:
  assumes g: "invar g" "order g = Some layers" and split: "concat layers = xs @ v # ys"
    and need: "needs g v w"
  shows "w \<in> set xs"
proof -
  have d: "distinct (xs @ v # ys)" using order_members [OF g] split by simp
  have "v \<in> set (concat (take (length layers) layers))" using split by (simp del: set_concat)
  then obtain k where k: "k < length layers" "v \<in> set (layers ! k)"
    unfolding in_take_concat by blast
  obtain as bs where lk: "layers ! k = as @ v # bs" using k(2) by (meson split_list)
  have "concat layers = (concat (take k layers) @ as) @ v # (bs @ concat (drop (Suc k) layers))"
    by (subst id_take_nth_drop [OF k(1)]) (simp add: lk)
  then have "xs = concat (take k layers) @ as"
    using split d by (metis distinct_split_unique)
  then show ?thesis using order_before [OF g k need] by simp
qed

lemma reverse_dependents_first:
  assumes g: "invar g" "order g = Some layers" and split: "concat (rev layers) = xs @ w # ys"
    and need: "needs g v w" and mem: "v \<in> members g"
  shows "v \<in> set xs"
proof -
  have "distinct (concat layers)" "set (concat layers) = members g" using order_members [OF g] by simp_all
  have d: "distinct (xs @ w # ys)"
  proof -
    have "length (concat (rev layers)) = length (concat layers)"
      by (simp add: length_concat rev_map [symmetric] sum_list_rev)
    moreover have "set (concat (rev layers)) = set (concat layers)" by simp
    ultimately show ?thesis using \<open>distinct (concat layers)\<close> split by (metis card_distinct distinct_card)
  qed
  have "v \<in> set (concat (take (length layers) layers))"
    using mem \<open>set (concat layers) = members g\<close> by (simp del: set_concat)
  then obtain k where k: "k < length layers" "v \<in> set (layers ! k)"
    unfolding in_take_concat by blast
  then obtain j where j: "j < k" "j < length layers" "w \<in> set (layers ! j)"
    using order_before [OF g k need] unfolding in_take_concat by blast
  obtain as bs where lj: "layers ! j = as @ w # bs" using j(3) by (meson split_list)
  have "concat (rev layers) =
      (concat (rev (drop (Suc j) layers)) @ as) @ w # (bs @ concat (rev (take j layers)))"
    by (subst id_take_nth_drop [OF j(2)]) (simp add: lj)
  then have "xs = concat (rev (drop (Suc j) layers)) @ as"
    using split d by (metis distinct_split_unique)
  moreover have "layers ! k \<in> set (drop (Suc j) layers)"
    using j(1) k(1) by (auto simp: in_set_conv_nth intro: exI [of _ "k - Suc j"])
  ultimately show ?thesis using k(2) by auto
qed

lemma reverse_layer_dependents_first:
  assumes g: "invar g" "order g = Some layers" and split: "rev layers = as @ layer # bs"
    and w: "w \<in> set layer" and need: "needs g v w" and mem: "v \<in> members g"
  shows "v \<in> set (concat as)"
proof -
  have d: "distinct (concat layers)" "set (concat layers) = members g" using order_members [OF g] by simp_all
  have layers: "layers = rev bs @ layer # rev as" using arg_cong [OF split, of rev] by simp
  have "v \<in> set (concat (take (length layers) layers))" using mem d(2) by (simp del: set_concat)
  then obtain k where k: "k < length layers" "v \<in> set (layers ! k)" unfolding in_take_concat by blast
  have "\<not> k \<le> length bs"
  proof
    assume "k \<le> length bs"
    then have "take k layers = take k (rev bs)" using layers by simp
    then have "w \<in> set (concat (take k (rev bs)))" using order_before [OF g k need] by simp
    then have "w \<in> set (concat (rev bs))"
      unfolding set_concat using set_take_subset [of k "rev bs"] by blast
    then show False using d(1) w unfolding layers by auto
  qed
  then have "layers ! k \<in> set (rev as)" using k(1) nth_mem [of "k - Suc (length bs)" "rev as"] unfolding layers
    by (auto simp: nth_append nth_Cons')
  then show ?thesis using k(2) by auto
qed

end

lemma nth_map_layers: "map (map f) layers ! k = map f (layers ! k)" if "k < length layers"
  using that by simp

lemma layer_order_members:
  assumes wf: "graph_wf g" and lo: "layer_order g = Some ls"
  shows "distinct (concat ls) \<and> set (concat ls) = set (dg_nodes g)"
  using wf
proof (cases rule: layer_order_cases)
  case (valid g' layers)
  have n: "length (dependents g) = length (dg_nodes g)" "distinct (dg_nodes g)"
    using wf by (simp_all add: graph_wf_def)
  have all: "distinct (concat layers)" "set (concat layers) = {..<length (dg_nodes g)}"
    using valid(8) n by (simp_all add: complete_layers_def)
  have eq: "concat ls = map (\<lambda>i. dg_nodes g ! i) (concat layers)"
    using valid(3) lo by (simp add: map_concat)
  have "inj_on (\<lambda>i. dg_nodes g ! i) {..<length (dg_nodes g)}"
    using n(2) by (auto simp: inj_on_def nth_eq_iff_index_eq)
  with all have "distinct (concat ls)" by (simp add: eq distinct_map)
  moreover have "set (concat ls) = set (dg_nodes g)"
    unfolding eq set_map all(2) by (auto simp: in_set_conv_nth)
  ultimately show ?thesis by simp
qed (use lo in simp)

lemma layer_order_before:
  assumes wf: "graph_wf g" and lo: "layer_order g = Some ls" and k: "k < length ls"
    and v: "v \<in> set (ls ! k)" and req: "requires g v w"
  shows "w \<in> set (concat (take k ls))"
  using wf
proof (cases rule: layer_order_cases)
  case (valid g' layers)
  have ls: "ls = map (map (\<lambda>i. dg_nodes g ! i)) layers" using valid(3) lo by simp
  from req obtain p d where pd: "node_indices g w = Some p" "node_indices g v = Some d"
    "d \<in> set (dependents g ! p)" unfolding requires_def by blast
  have idx: "\<And>u i. node_indices g u = Some i \<longleftrightarrow> i < length (dg_nodes g) \<and> dg_nodes g ! i = u"
    and n: "length (dependents g) = length (dg_nodes g)" "distinct (dg_nodes g)"
    using wf unfolding graph_wf_def by blast+
  have p: "p \<in> preds (dependents g) d" and pn: "dg_nodes g ! p = w"
    using pd idx n by (auto simp: preds_def)
  have gr: "greedy_layers (dependents g) layers" "set (concat layers) = {..<length (dg_nodes g)}"
    using valid(8) n by (simp_all add: complete_layers_def)
  from v k obtain d' where d': "d' \<in> set (layers ! k)" "dg_nodes g ! d' = v" and kl: "k < length layers"
    by (auto simp: ls)
  have "d' \<in> set (concat layers)" using d'(1) kl by auto
  then have "d' < length (dg_nodes g)" using gr(2) by blast
  then have "d' = d" using pd(2) idx d'(2) n(2) by (metis nth_eq_iff_index_eq)
  then have "p \<in> set (concat (take k layers))"
    using greedy_layer_nth(2) [OF gr(1) kl d'(1)] p by blast
  then have "dg_nodes g ! p \<in> set (map (\<lambda>i. dg_nodes g ! i) (concat (take k layers)))" by simp
  then show ?thesis unfolding pn ls by (simp add: map_concat take_map)
qed (use lo in simp)

interpretation layers: layered_order graph_wf "\<lambda>g. set (dg_nodes g)" requires layer_order
  by unfold_locales (fact layer_order_members layer_order_before)+

lemma add_dependency_cases:
  assumes "graph_wf g"
  shows "(if v \<notin> set (dg_nodes g) \<or> w \<notin> set (dg_nodes g) then add_dependency v w g = (g, NODE_NOT_FOUND)
    else if requires g w v then add_dependency v w g = (g, DUPLICATE_DEPENDENCY)
    else snd (add_dependency v w g) = GRAPH_OK \<and> \<not> topology_valid (fst (add_dependency v w g)) \<and>
      (\<forall>x y. requires (fst (add_dependency v w g)) x y \<longleftrightarrow> requires g x y \<or> (x = w \<and> y = v)))"
proof -
  have idx: "\<And>u i. node_indices g u = Some i \<longleftrightarrow> i < length (dg_nodes g) \<and> dg_nodes g ! i = u"
    and len: "length (dependents g) = length (dg_nodes g)"
    using assms unfolding graph_wf_def by blast+
  have mem: "u \<in> set (dg_nodes g) \<longleftrightarrow> (\<exists>i. node_indices g u = Some i)" for u
    using idx by (auto simp: in_set_conv_nth)
  show ?thesis
  proof (cases "v \<in> set (dg_nodes g) \<and> w \<in> set (dg_nodes g)")
    case True
    then obtain p d where pd: "node_indices g v = Some p" "node_indices g w = Some d" using mem by blast
    have p: "p < length (dependents g)" using pd(1) idx len by simp
    have req: "requires g w v \<longleftrightarrow> d \<in> set (dependents g ! p)" using pd by (auto simp: requires_def)
    have uniq: "(node_indices g u = Some p \<longleftrightarrow> u = v)" "(node_indices g u = Some d \<longleftrightarrow> u = w)" for u
      using pd idx by auto
    show ?thesis
    proof (cases "d \<in> set (dependents g ! p)")
      case False
      then have "node_indices (fst (add_dependency v w g)) = node_indices g"
        "dependents (fst (add_dependency v w g)) = (dependents g)[p := dependents g ! p @ [d]]"
        using pd by (simp_all add: add_dependency_def)
      then have "requires (fst (add_dependency v w g)) x y \<longleftrightarrow> (\<exists>i j. node_indices g y = Some i \<and>
          node_indices g x = Some j \<and> (j \<in> set (dependents g ! i) \<or> (i = p \<and> j = d)))" for x y
        unfolding requires_def using p by (auto simp: nth_list_update)
      then have "requires (fst (add_dependency v w g)) x y \<longleftrightarrow> requires g x y \<or> (x = w \<and> y = v)" for x y
        unfolding requires_def using uniq [of x] uniq [of y] by blast
      then show ?thesis using True False pd req by (simp add: add_dependency_def)
    qed (use True pd req in \<open>simp add: add_dependency_def\<close>)
  qed (use mem in \<open>auto simp: add_dependency_def split: option.splits\<close>)
qed

section \<open>Properties\<close>

text \<open>Histories of the graph's modifying operations.\<close>

datatype 'n graph_op = Add_Node 'n | Add_Dependency 'n 'n | Validate

fun graph_apply :: "'n dependency_graph \<Rightarrow> 'n graph_op \<Rightarrow> 'n dependency_graph" where
  "graph_apply g (Add_Node v) = fst (add_node v g)"
| "graph_apply g (Add_Dependency v w) = fst (add_dependency v w g)"
| "graph_apply g Validate = (case validate_locked g of None \<Rightarrow> g | Some (g', status) \<Rightarrow> g')"

lemma graph_wf_apply: "graph_wf g \<Longrightarrow> graph_wf (graph_apply g a)"
proof (cases a)
  case Validate
  assume wf: "graph_wf g"
  then show ?thesis using Validate by (cases rule: validate_locked_cases) simp_all
qed (simp_all add: graph_wf_add_node graph_wf_add_dependency)

lemma graph_wf_history: "graph_wf g \<Longrightarrow> graph_wf (foldl graph_apply g ops)"
  by (induction ops arbitrary: g) (auto intro: graph_wf_apply)

text \<open>
  Invariant. Every history of \<open>add_node\<close>, \<open>add_dependency\<close> and validations keeps the
  graph well formed: the index map inverts the node list, the incoming counters equal the
  numbers of distinct prerequisites, adjacency lists hold no duplicate, and whenever the
  cached layers are marked valid they are a complete layering of the current edges.
\<close>

lemma graph_history_wf:
  "graph_wf (foldl graph_apply empty_graph ops)"
  by (rule graph_wf_history [OF graph_wf_empty])

text \<open>
  \<open>add_dependency\<close> on every branch. It fails with \<open>NODE_NOT_FOUND\<close> when an end is not
  registered and with \<open>DUPLICATE_DEPENDENCY\<close> when the edge exists, changing nothing; otherwise
  it returns \<open>OK\<close>, and the required pairs are the earlier ones and the new one.
\<close>

lemma add_dependency_correct:
  assumes "graph_wf g"
  shows "(if v \<notin> set (dg_nodes g) \<or> w \<notin> set (dg_nodes g) then add_dependency v w g = (g, NODE_NOT_FOUND)
    else if requires g w v then add_dependency v w g = (g, DUPLICATE_DEPENDENCY)
    else snd (add_dependency v w g) = GRAPH_OK \<and> \<not> topology_valid (fst (add_dependency v w g)) \<and>
      (\<forall>x y. requires (fst (add_dependency v w g)) x y \<longleftrightarrow> requires g x y \<or> (x = w \<and> y = v)))"
  using assms by (rule add_dependency_cases)

text \<open>
  C4: layered validation decides acyclicity and orders the nodes. On a well-formed graph
  \<open>forward_layers\<close> returns; with no cycle it answers \<open>OK\<close> and layers that hold every node
  exactly once, each node after all nodes it requires, and \<open>reverse_layers\<close> is the reverse
  list of layers; with a cycle both answer \<open>DEPENDENCY_CYCLE\<close> and no layers.
\<close>

theorem forward_layers_correct:
  assumes "graph_wf g"
  shows "(acyclic (edges (dependents g)) \<and> (\<exists>g' layers. forward_layers g = Some (g', GRAPH_OK, layers) \<and>
      reverse_layers g = Some (g', GRAPH_OK, rev layers) \<and>
      distinct (concat layers) \<and> set (concat layers) = set (dg_nodes g) \<and>
      (\<forall>xs v ys w. concat layers = xs @ v # ys \<and> requires g v w \<longrightarrow> w \<in> set xs) \<and>
      (\<forall>k < length layers. \<forall>v \<in> set (layers ! k). \<forall>w. requires g v w \<longrightarrow> w \<in> set (concat (take k layers))))) \<or>
    (\<not> acyclic (edges (dependents g)) \<and> (\<exists>g'. forward_layers g = Some (g', DEPENDENCY_CYCLE, []) \<and>
      reverse_layers g = Some (g', DEPENDENCY_CYCLE, [])))"
  using assms
proof (cases rule: layer_order_cases)
  case (valid g' layers)
  let ?ls = "map (map (\<lambda>i. dg_nodes g ! i)) layers"
  note lo = assms valid(3)
  have "\<forall>xs v ys w. concat ?ls = xs @ v # ys \<and> requires g v w \<longrightarrow> w \<in> set xs"
    using layers.forward_prerequisites_first [OF lo] by blast
  moreover have "\<forall>k < length ?ls. \<forall>v \<in> set (?ls ! k). \<forall>w. requires g v w \<longrightarrow> w \<in> set (concat (take k ?ls))"
    using layers.order_before [OF lo] by blast
  ultimately show ?thesis using valid(1,2,9) layers.order_members [OF lo] by blast
qed blast

theorem forward_layers_correct_witness:
  "let g = foldl graph_apply (empty_graph :: nat dependency_graph)
       [Add_Node 3, Add_Node 5, Add_Node 4, Add_Dependency 3 4, Add_Dependency 4 5] in
   graph_wf g \<and> map_option snd (forward_layers g) = Some (GRAPH_OK, [[3], [4], [5]]) \<and> acyclic (edges (dependents g))"
proof -
  let ?g = "foldl graph_apply (empty_graph :: nat dependency_graph)
       [Add_Node 3, Add_Node 5, Add_Node 4, Add_Dependency 3 4, Add_Dependency 4 5]"
  have wf: "graph_wf ?g" by (rule graph_wf_history [OF graph_wf_empty])
  have "map_option snd (forward_layers ?g) = Some (GRAPH_OK, [[3], [4], [5]])" by code_simp
  with wf forward_layers_correct [OF wf] show ?thesis unfolding Let_def by fastforce
qed

text \<open>
  Layers are as early as possible. In the layering of an acyclic graph a layer holds
  exactly the nodes, in ascending registration order, that are in no earlier layer and whose
  prerequisites all are.
\<close>

lemma layers_greedy:
  assumes "graph_wf g" "validate_locked g = Some (g', GRAPH_OK)"
  shows "topology_valid g' \<and> greedy_layers (dependents g) (forward_layer_indices g') \<and>
    dependents g' = dependents g \<and> dg_nodes g' = dg_nodes g"
  using assms(1)
proof (cases rule: validate_locked_cases)
  case (valid h)
  then show ?thesis using assms(2) by (simp add: complete_layers_def)
qed (use assms(2) in simp)

end
