(* ===== verification/Execution_Plan.thy ===== *)
theory Execution_Plan
  imports Dependency_Graph "HOL-Library.Multiset"
begin

text \<open>
  \<open>utils/execution_graph/execution_plan.hpp\<close>: independent runs of job sets against one
  validated graph. A run is shared by worker threads; what it does between two acquisitions
  of its lock is one atomic task, a thread is the list of the tasks it still has to perform,
  and a step performs the first task of one thread. Which thread moves, and whether the
  worker pool accepts a submission, is up to the environment.
\<close>

section \<open>Compiled plans\<close>

record plan_data =
  plan_dependents :: "nat list list"
  plan_counts :: "nat list"
  plan_roots :: "nat list"

definition make_data :: "'n graph_snapshot \<Rightarrow> plan_data" where
  "make_data snap = \<lparr>plan_dependents = snapshot_dependents snap, plan_counts = snapshot_counts snap,
     plan_roots = filter (\<lambda>i. snapshot_counts snap ! i = 0) [0..<length (snapshot_counts snap)]\<rparr>"

definition compile_plan ::
    "'n dependency_graph \<Rightarrow> ('n dependency_graph \<times> graph_status \<times> plan_data option) option" where
  "compile_plan topology =
     (case snapshot topology of None \<Rightarrow> None
      | Some (g, status, None) \<Rightarrow> Some (g, status, None)
      | Some (g, status, Some snap) \<Rightarrow> Some (g, GRAPH_OK, Some (make_data snap)))"

definition plan_size :: "plan_data \<Rightarrow> nat" where
  "plan_size D = length (plan_counts D)"

section \<open>Runs\<close>

datatype task =
    Schedule nat         \<comment> \<open>\<open>schedule()\<close>, first critical section\<close>
  | Submit nat           \<comment> \<open>\<open>workers_.add_urgent()\<close>\<close>
  | Reject nat           \<comment> \<open>\<open>schedule()\<close>, critical section after a rejection\<close>
  | Queued nat           \<comment> \<open>an accepted wrapper that no worker has taken\<close>
  | Running nat          \<comment> \<open>the caller's job is executing\<close>
  | Complete nat         \<comment> \<open>\<open>complete()\<close>, first critical section\<close>
  | Finish               \<comment> \<open>\<open>complete()\<close>, last critical section\<close>
  | Invoke graph_status  \<comment> \<open>\<open>invoke()\<close>, outside the lock\<close>

datatype run_event = Began nat | Ended nat | Counted nat | Called graph_status

record run_state =
  remaining_dependencies :: "nat list"
  remaining_nodes :: nat
  running_jobs :: nat
  run_status :: graph_status
  finished :: bool
  threads :: "task list list"
  trace :: "run_event list"

definition new_run :: "plan_data \<Rightarrow> run_state" where
  "new_run D = \<lparr>remaining_dependencies = plan_counts D, remaining_nodes = plan_size D, running_jobs = 0,
     run_status = GRAPH_OK, finished = False, threads = [map Schedule (plan_roots D)], trace = []\<rparr>"

text \<open>
  \<open>submit()\<close>: a null job is \<open>None\<close> in the job list; the completion callback and the
  queue's activity are booleans. The accepted run starts with the caller's thread about to
  schedule every root.
\<close>

definition submit :: "bool \<Rightarrow> plan_data option \<Rightarrow> 'j option list \<Rightarrow> bool \<Rightarrow> graph_status \<times> run_state option" where
  "submit workers_active data jobs has_completion =
     (case data of None \<Rightarrow> (GRAPH_INVALID_ARGUMENT, None)
      | Some D \<Rightarrow>
          if plan_size D = 0 \<or> length jobs \<noteq> plan_size D \<or> \<not> has_completion \<or> \<not> workers_active
          then (GRAPH_INVALID_ARGUMENT, None)
          else if None \<in> set jobs then (GRAPH_INVALID_ARGUMENT, None)
          else (GRAPH_OK, Some (new_run D)))"

definition take_completion_locked :: "run_state \<Rightarrow> run_state \<times> task list" where
  "take_completion_locked s =
     (if finished s \<or> running_jobs s \<noteq> 0 \<or> (run_status s = GRAPH_OK \<and> remaining_nodes s \<noteq> 0)
      then (s, [])
      else (s\<lparr>finished := True\<rparr>, [Invoke (run_status s)]))"

text \<open>
  One task: the state after it, the tasks its thread goes on with, and the threads it adds.
  \<open>accept\<close> is the worker pool's answer to a submission.
\<close>

fun perform :: "plan_data \<Rightarrow> bool \<Rightarrow> task \<Rightarrow> run_state \<Rightarrow> run_state \<times> task list \<times> task list list" where
  "perform D accept (Schedule n) s =
     (if finished s \<or> run_status s \<noteq> GRAPH_OK then (s, [], [])
      else (s\<lparr>running_jobs := Suc (running_jobs s)\<rparr>, [Submit n], []))"
| "perform D accept (Submit n) s = (if accept then (s, [], [[Queued n]]) else (s, [Reject n], []))"
| "perform D accept (Reject n) s =
     (let s1 = s\<lparr>running_jobs := size_dec (running_jobs s)\<rparr>;
          s2 = (if run_status s1 = GRAPH_OK then s1\<lparr>run_status := WORKER_SUBMISSION_FAILED\<rparr> else s1);
          (s3, invocation) = take_completion_locked s2
      in (s3, invocation, []))"
| "perform D accept (Queued n) s = (s\<lparr>trace := trace s @ [Began n]\<rparr>, [Running n], [])"
| "perform D accept (Running n) s = (s\<lparr>trace := trace s @ [Ended n]\<rparr>, [Complete n], [])"
| "perform D accept (Complete n) s =
     (let s1 = s\<lparr>running_jobs := size_dec (running_jobs s)\<rparr>
      in if run_status s1 \<noteq> GRAPH_OK then (s1, [Finish], [])
         else let (remaining, ready) = fold release (plan_dependents D ! n) (remaining_dependencies s1, [])
              in (s1\<lparr>remaining_nodes := size_dec (remaining_nodes s1),
                     remaining_dependencies := remaining, trace := trace s1 @ [Counted n]\<rparr>,
                  map Schedule ready @ [Finish], []))"
| "perform D accept Finish s = (let (s1, invocation) = take_completion_locked s in (s1, invocation, []))"
| "perform D accept (Invoke status) s = (s\<lparr>trace := trace s @ [Called status]\<rparr>, [], [])"

inductive run_step :: "plan_data \<Rightarrow> run_state \<Rightarrow> run_state \<Rightarrow> bool" for D where
  step: "i < length (threads s) \<Longrightarrow> threads s ! i = t # rest \<Longrightarrow>
     perform D accept t s = (s', continuation, new) \<Longrightarrow>
     run_step D s (s'\<lparr>threads := (threads s)[i := continuation @ rest] @ new\<rparr>)"

inductive_cases run_stepE: "run_step D s s'"

section \<open>The invariant\<close>

definition plan_wf :: "plan_data \<Rightarrow> bool" where
  "plan_wf D \<longleftrightarrow> deps_wf (plan_dependents D) \<and> acyclic (edges (plan_dependents D)) \<and>
     length (plan_counts D) = length (plan_dependents D) \<and>
     plan_counts D = map (\<lambda>d. card (preds (plan_dependents D) d)) [0..<length (plan_dependents D)] \<and>
     plan_roots D = filter (\<lambda>i. plan_counts D ! i = 0) [0..<length (plan_counts D)]"

definition prerequisites :: "plan_data \<Rightarrow> nat \<Rightarrow> nat set" where
  "prerequisites D n = preds (plan_dependents D) n"

fun token_of :: "task \<Rightarrow> nat option" where
  "token_of (Schedule n) = Some n"
| "token_of (Submit n) = Some n"
| "token_of (Reject n) = Some n"
| "token_of (Queued n) = Some n"
| "token_of (Running n) = Some n"
| "token_of (Complete n) = Some n"
| "token_of Finish = None"
| "token_of (Invoke s) = None"

fun counts_as_running :: "task \<Rightarrow> bool" where
  "counts_as_running (Schedule n) = False"
| "counts_as_running Finish = False"
| "counts_as_running (Invoke s) = False"
| "counts_as_running t = True"

fun before_begin :: "task \<Rightarrow> nat option" where
  "before_begin (Schedule n) = Some n"
| "before_begin (Submit n) = Some n"
| "before_begin (Reject n) = Some n"
| "before_begin (Queued n) = Some n"
| "before_begin t = None"

definition tokens :: "nat \<Rightarrow> task multiset \<Rightarrow> nat" where
  "tokens n M = size (filter_mset (\<lambda>t. token_of t = Some n) M)"

definition early_tokens :: "nat \<Rightarrow> task multiset \<Rightarrow> nat" where
  "early_tokens n M = size (filter_mset (\<lambda>t. before_begin t = Some n) M)"

definition running_tasks :: "task multiset \<Rightarrow> nat" where
  "running_tasks M = size (filter_mset counts_as_running M)"

definition invocations :: "task multiset \<Rightarrow> nat" where
  "invocations M = size (filter_mset (\<lambda>t. \<exists>st. t = Invoke st) M)"

definition pending :: "run_state \<Rightarrow> task multiset" where
  "pending s = mset (concat (threads s))"

definition counted :: "run_state \<Rightarrow> nat set" where
  "counted s = {n. Counted n \<in> set (trace s)}"

definition released :: "plan_data \<Rightarrow> run_state \<Rightarrow> nat \<Rightarrow> bool" where
  "released D s n \<longleftrightarrow> n < plan_size D \<and> prerequisites D n \<subseteq> counted s"

definition calls :: "run_event list \<Rightarrow> nat" where
  "calls es = length (filter (\<lambda>e. \<exists>st. e = Called st) es)"

text \<open>
  Bookkeeping of nodes: each released node has one token or is counted; nothing else has.
  Once the run has failed tokens may be dropped.
\<close>

definition node_inv :: "plan_data \<Rightarrow> run_state \<Rightarrow> task multiset \<Rightarrow> bool" where
  "node_inv D s M \<longleftrightarrow>
     counted s \<subseteq> {..<plan_size D} \<and>
     remaining_nodes s = plan_size D - card (counted s) \<and>
     remaining_dependencies s = map (\<lambda>d. card (prerequisites D d - counted s)) [0..<plan_size D] \<and>
     (\<forall>n. tokens n M + (if n \<in> counted s then 1 else 0) \<le> (if released D s n then 1 else 0)) \<and>
     (run_status s = GRAPH_OK \<longrightarrow>
       (\<forall>n. tokens n M + (if n \<in> counted s then 1 else 0) = (if released D s n then (1::nat) else 0)))"

text \<open>
  Bookkeeping of the completion: the running counter counts the accepted and submitted
  tasks, the callback is taken when the run finishes, and a run that could finish still has
  a task that will look.
\<close>

definition completion_core :: "plan_data \<Rightarrow> run_state \<Rightarrow> task multiset \<Rightarrow> bool" where
  "completion_core D s M \<longleftrightarrow>
     running_jobs s = running_tasks M \<and>
     (run_status s = GRAPH_OK \<or> run_status s = WORKER_SUBMISSION_FAILED) \<and>
     (finished s \<longrightarrow> running_jobs s = 0 \<and> (run_status s = GRAPH_OK \<longrightarrow> remaining_nodes s = 0)) \<and>
     invocations M + calls (trace s) = (if finished s then 1 else 0) \<and>
     (\<forall>st. Invoke st \<in># M \<or> Called st \<in> set (trace s) \<longrightarrow> st = run_status s)"

definition may_finish :: "run_state \<Rightarrow> bool" where
  "may_finish s \<longleftrightarrow> \<not> finished s \<and> running_jobs s = 0 \<and>
     (run_status s \<noteq> GRAPH_OK \<or> remaining_nodes s = 0)"

definition completion_inv :: "plan_data \<Rightarrow> run_state \<Rightarrow> task multiset \<Rightarrow> bool" where
  "completion_inv D s M \<longleftrightarrow> completion_core D s M \<and> (may_finish s \<longrightarrow> Finish \<in># M)"

definition trace_inv :: "plan_data \<Rightarrow> run_state \<Rightarrow> task multiset \<Rightarrow> bool" where
  "trace_inv D s M \<longleftrightarrow>
     (\<forall>n \<in> counted s. Ended n \<in> set (trace s)) \<and>
     (\<forall>n. Complete n \<in># M \<longrightarrow> Ended n \<in> set (trace s)) \<and>
     (\<forall>before after n. trace s = before @ Began n # after \<longrightarrow>
        (\<forall>p \<in> prerequisites D n. Ended p \<in> set before)) \<and>
     (\<forall>n. count_list (trace s) (Began n) + early_tokens n M \<le> (if released D s n then 1 else 0))"

definition run_inv :: "plan_data \<Rightarrow> run_state \<Rightarrow> bool" where
  "run_inv D s \<longleftrightarrow> 0 < plan_size D \<and>
     node_inv D s (pending s) \<and> completion_inv D s (pending s) \<and> trace_inv D s (pending s)"

text \<open>The counting functions over the multiset of pending tasks.\<close>

lemma counting_simps [simp]:
  "tokens n {#} = 0" "early_tokens n {#} = 0" "running_tasks {#} = 0" "invocations {#} = 0"
  "tokens n (add_mset t M) = (if token_of t = Some n then 1 else 0) + tokens n M"
  "early_tokens n (add_mset t M) = (if before_begin t = Some n then 1 else 0) + early_tokens n M"
  "running_tasks (add_mset t M) = (if counts_as_running t then 1 else 0) + running_tasks M"
  "invocations (add_mset t M) = (if \<exists>st. t = Invoke st then 1 else 0) + invocations M"
  "tokens n (M + N) = tokens n M + tokens n N"
  "early_tokens n (M + N) = early_tokens n M + early_tokens n N"
  "running_tasks (M + N) = running_tasks M + running_tasks N"
  "invocations (M + N) = invocations M + invocations N"
  by (simp_all add: tokens_def early_tokens_def running_tasks_def invocations_def)

lemma tokens_schedule: "tokens n (mset (map Schedule ns)) = count_list ns n"
  by (induction ns) auto

lemma early_tokens_schedule: "early_tokens n (mset (map Schedule ns)) = count_list ns n"
  by (induction ns) auto

lemma running_schedule: "running_tasks (mset (map Schedule ns)) = 0"
  by (induction ns) auto

lemma invocations_schedule: "invocations (mset (map Schedule ns)) = 0"
  by (induction ns) auto

lemma calls_append [simp]: "calls (xs @ ys) = calls xs + calls ys"
  by (simp add: calls_def)

lemma calls_simps [simp]:
  "calls [] = 0" "calls [Began n] = 0" "calls [Ended n] = 0" "calls [Counted n] = 0" "calls [Called st] = 1"
  by (simp_all add: calls_def)

lemma count_list_le: "count_list xs x + count_list ys x \<le> 1 \<Longrightarrow> count_list (xs @ ys) x \<le> 1"
  by simp

lemma tokens_early: "early_tokens n M \<le> tokens n M"
proof -
  have "token_of t = Some n" if "before_begin t = Some n" for t using that by (cases t) auto
  then show ?thesis by (induction M) auto
qed

lemma pending_step:
  assumes "i < length (threads s)" "threads s ! i = t # rest"
  shows "\<exists>R. pending s = add_mset t R \<and>
    mset (concat ((threads s)[i := continuation @ rest] @ new)) = R + mset continuation + mset (concat new)"
proof -
  let ?pre = "concat (take i (threads s))" and ?post = "concat (drop (Suc i) (threads s))"
  have "threads s = take i (threads s) @ (t # rest) # drop (Suc i) (threads s)"
    using id_take_nth_drop [OF assms(1)] assms(2) by simp
  then have "concat (threads s) = ?pre @ t # rest @ ?post"
    by (metis append_Cons concat.simps(2) concat_append)
  moreover have "concat ((threads s)[i := continuation @ rest]) = ?pre @ continuation @ rest @ ?post"
    using assms(1) by (simp add: upd_conv_take_nth_drop)
  ultimately show ?thesis
    by (intro exI [of _ "mset (?pre @ rest @ ?post)"]) (simp add: pending_def)
qed

section \<open>Every task keeps the invariant\<close>

text \<open>What completing one node does to the counters, when the run has not failed.\<close>

lemma complete_releases:
  assumes wf: "plan_wf D" and n: "n < plan_size D" "n \<notin> C" and C: "C \<subseteq> {..<plan_size D}"
  shows "\<exists>ready. fold release (plan_dependents D ! n)
      (map (\<lambda>d. card (prerequisites D d - C)) [0..<plan_size D], []) =
      (map (\<lambda>d. card (prerequisites D d - insert n C)) [0..<plan_size D], ready) \<and>
    distinct ready \<and>
    set ready = {d. d < plan_size D \<and> n \<in> prerequisites D d \<and> prerequisites D d \<subseteq> insert n C}"
proof -
  let ?deps = "plan_dependents D" and ?N = "plan_size D"
  have N: "length ?deps = ?N" and dw: "deps_wf ?deps"
    using wf by (simp_all add: plan_wf_def plan_size_def)
  have dist: "distinct (?deps ! n)" and lt: "set (?deps ! n) \<subseteq> {..<?N}"
    using dw n N by (auto simp: deps_wf_def)
  have mem: "d \<in> set (?deps ! n) \<longleftrightarrow> n \<in> prerequisites D d" for d
    using n N by (auto simp: prerequisites_def preds_def)
  have fin: "finite (prerequisites D d)" for d by (simp add: prerequisites_def)
  have minus: "card (prerequisites D d - C) - (if d \<in> set (?deps ! n) then 1 else 0) =
      card (prerequisites D d - insert n C)" for d
  proof -
    have "prerequisites D d - insert n C = (prerequisites D d - C) - {n}" by auto
    moreover have "n \<in> prerequisites D d - C \<longleftrightarrow> d \<in> set (?deps ! n)" using mem n by auto
    ultimately show ?thesis using fin by simp
  qed
  have pos: "0 < card (prerequisites D d - C)" if "d \<in> set (?deps ! n)" for d
    using that mem [of d] n fin by (auto simp: card_gt_0_iff)
  have bound: "\<forall>d \<in> set (?deps ! n). d < length (map (\<lambda>d. card (prerequisites D d - C)) [0..<?N]) \<and>
      count_list (?deps ! n) d \<le> map (\<lambda>d. card (prerequisites D d - C)) [0..<?N] ! d"
    using lt pos dist by (auto simp: count_list_distinct Suc_le_eq)
  from release_loop [OF this, of "[]"] obtain ready where ready:
    "fold release (?deps ! n) (map (\<lambda>d. card (prerequisites D d - C)) [0..<?N], []) =
      (map (\<lambda>d. map (\<lambda>d. card (prerequisites D d - C)) [0..<?N] ! d - count_list (?deps ! n) d)
         [0..<?N], ready)"
    "distinct ready" "set ready = {d \<in> set (?deps ! n). count_list (?deps ! n) d =
       map (\<lambda>d. card (prerequisites D d - C)) [0..<?N] ! d}" by auto
  have fst: "map (\<lambda>d. map (\<lambda>d. card (prerequisites D d - C)) [0..<?N] ! d - count_list (?deps ! n) d)
      [0..<?N] = map (\<lambda>d. card (prerequisites D d - insert n C)) [0..<?N]"
    using minus by (auto simp: count_list_distinct [OF dist])
  have "set ready = {d. d < ?N \<and> n \<in> prerequisites D d \<and> prerequisites D d \<subseteq> insert n C}"
  proof (rule set_eqI)
    fix d
    have "1 = card (prerequisites D d - C) \<longleftrightarrow> prerequisites D d \<subseteq> insert n C"
      if d: "d \<in> set (?deps ! n)"
    proof -
      have "card (prerequisites D d - insert n C) = card (prerequisites D d - C) - 1"
        using minus [of d] d by simp
      then have "1 = card (prerequisites D d - C) \<longleftrightarrow> card (prerequisites D d - insert n C) = 0"
        using pos [OF d] by linarith
      also have "\<dots> \<longleftrightarrow> prerequisites D d \<subseteq> insert n C" using fin by auto
      finally show ?thesis .
    qed
    moreover have "map (\<lambda>d. card (prerequisites D d - C)) [0..<?N] ! d = card (prerequisites D d - C)"
      if "d \<in> set (?deps ! n)"
      using that lt by auto
    ultimately have iff: "d \<in> set ready \<longleftrightarrow> d \<in> set (?deps ! n) \<and> prerequisites D d \<subseteq> insert n C"
      using ready(3) by (auto simp: count_list_distinct [OF dist])
    show "d \<in> set ready \<longleftrightarrow>
        d \<in> {d. d < ?N \<and> n \<in> prerequisites D d \<and> prerequisites D d \<subseteq> insert n C}"
      using iff lt mem by blast
  qed
  with ready(1,2) fst show ?thesis by auto
qed

lemma snoc_split_iff: "xs @ [x] = before @ y # after \<longleftrightarrow>
    (after = [] \<and> before = xs \<and> y = x) \<or> (\<exists>after'. after = after' @ [x] \<and> xs = before @ y # after')"
  by (cases after rule: rev_cases) auto

definition step_inv :: "plan_data \<Rightarrow> run_state \<Rightarrow> task multiset \<Rightarrow> bool" where
  "step_inv D s M \<longleftrightarrow> 0 < plan_size D \<and> node_inv D s M \<and> completion_inv D s M \<and> trace_inv D s M"

lemma counted_simps [simp]:
  "counted (s\<lparr>trace := trace s @ [Began n]\<rparr>) = counted s"
  "counted (s\<lparr>trace := trace s @ [Ended n]\<rparr>) = counted s"
  "counted (s\<lparr>trace := trace s @ [Called st]\<rparr>) = counted s"
  "counted (s\<lparr>trace := trace s @ [Counted n]\<rparr>) = insert n (counted s)"
  "counted (s\<lparr>running_jobs := r\<rparr>) = counted s"
  "counted (s\<lparr>finished := f\<rparr>) = counted s"
  "counted (s\<lparr>run_status := st\<rparr>) = counted s"
  "counted (s\<lparr>threads := ts\<rparr>) = counted s"
  by (auto simp: counted_def)

lemma released_cong: "counted s' = counted s \<Longrightarrow> released D s' n = released D s n"
  by (simp add: released_def)

lemma token_facts:
  assumes "node_inv D s (add_mset t R)" "token_of t = Some n"
  shows "released D s n" and "n \<notin> counted s" and "n < plan_size D" and "tokens n R = 0"
proof -
  have "tokens n (add_mset t R) + (if n \<in> counted s then 1 else 0) \<le> (if released D s n then 1 else 0)"
    using assms(1) unfolding node_inv_def by blast
  then show "released D s n" "n \<notin> counted s" "tokens n R = 0"
    using assms(2) by (auto split: if_splits)
  then show "n < plan_size D" by (simp add: released_def)
qed

lemma trace_inv_drop:
  assumes tr: "trace_inv D s M" and e: "trace s' = trace s" "counted s' = counted s"
    and complete: "\<And>n. Complete n \<in># M' \<Longrightarrow> Complete n \<in># M"
    and early: "\<And>n. early_tokens n M' \<le> early_tokens n M"
  shows "trace_inv D s' M'"
proof -
  have cnt: "count_list (trace s) (Began n) + early_tokens n M \<le> (if released D s n then 1 else 0)" for n
    using tr unfolding trace_inv_def by blast
  have "count_list (trace s) (Began n) + early_tokens n M' \<le> (if released D s n then 1 else 0)" for n
    using cnt [of n] early [of n] by linarith
  moreover have "\<forall>n. Complete n \<in># M' \<longrightarrow> Ended n \<in> set (trace s)"
    using tr complete unfolding trace_inv_def by blast
  ultimately show ?thesis
    using tr unfolding trace_inv_def e released_cong [OF e(2)] by blast
qed

lemma node_inv_drop:
  assumes "node_inv D s M" "counted s' = counted s" "run_status s' \<noteq> GRAPH_OK"
    and "remaining_nodes s' = remaining_nodes s" "remaining_dependencies s' = remaining_dependencies s"
    and le: "\<And>n. tokens n M' \<le> tokens n M"
  shows "node_inv D s' M'"
proof -
  have "tokens n M' + (if n \<in> counted s then 1 else 0) \<le> (if released D s n then 1 else 0)" for n
  proof -
    have "tokens n M + (if n \<in> counted s then 1 else 0) \<le> (if released D s n then 1 else 0)"
      using assms(1) unfolding node_inv_def by blast
    with le [of n] show ?thesis by linarith
  qed
  then show ?thesis using assms(1-5) by (simp add: node_inv_def released_cong [OF assms(2)])
qed

lemma completion_inv_drop:
  assumes "completion_inv D s (add_mset t R)" "\<not> counts_as_running t" "t \<noteq> Finish" "\<forall>st. t \<noteq> Invoke st"
  shows "completion_inv D s R"
  using assms by (auto simp: completion_inv_def completion_core_def)

lemma drop_when_failed:
  assumes "step_inv D s (add_mset (Schedule n) R)" "finished s \<or> run_status s \<noteq> GRAPH_OK"
  shows "step_inv D s R"
proof -
  have nf: "run_status s \<noteq> GRAPH_OK"
  proof
    assume ok: "run_status s = GRAPH_OK"
    then have "remaining_nodes s = 0" using assms by (auto simp: step_inv_def completion_inv_def completion_core_def)
    moreover have "counted s \<subseteq> {..<plan_size D}" "remaining_nodes s = plan_size D - card (counted s)"
      using assms(1) by (simp_all add: step_inv_def node_inv_def)
    ultimately have "counted s = {..<plan_size D}"
      by (metis card_lessThan card_seteq diff_is_0_eq finite_lessThan)
    then show False
      using token_facts [of D s "Schedule n" R n] assms(1) by (auto simp: step_inv_def)
  qed
  have "node_inv D s R"
    by (rule node_inv_drop [of D s "add_mset (Schedule n) R"]) (use assms(1) nf in \<open>simp_all add: step_inv_def\<close>)
  moreover have "trace_inv D s R"
    by (rule trace_inv_drop [of D s "add_mset (Schedule n) R"]) (use assms(1) in \<open>simp_all add: step_inv_def\<close>)
  moreover have "completion_inv D s R"
    by (rule completion_inv_drop [of D s "Schedule n"]) (use assms(1) in \<open>simp_all add: step_inv_def\<close>)
  ultimately show ?thesis using assms(1) by (simp add: step_inv_def)
qed

lemma unfinished_silent:
  assumes "completion_core D s M" "\<not> finished s"
  shows "calls (trace s) = 0" "invocations M = 0" "\<And>st. Called st \<notin> set (trace s)" "\<And>st. Invoke st \<notin># M"
proof -
  show "calls (trace s) = 0" "invocations M = 0"
    using assms by (simp_all add: completion_core_def)
  then show "\<And>st. Called st \<notin> set (trace s)" "\<And>st. Invoke st \<notin># M"
    by (auto simp: calls_def invocations_def filter_empty_conv)
qed

lemma running_unfinished:
  assumes "completion_core D s (add_mset t R)" "counts_as_running t"
  shows "\<not> finished s" "running_jobs s = Suc (running_tasks R)" "size_dec (running_jobs s) = running_tasks R"
  using assms by (auto simp: completion_core_def)

lemma take_completion_locked_may:
  "take_completion_locked s =
     (if may_finish s then (s\<lparr>finished := True\<rparr>, [Invoke (run_status s)]) else (s, []))"
  by (simp add: take_completion_locked_def may_finish_def)

lemma take_completion_inv:
  assumes core: "completion_core D s M" and take: "take_completion_locked s = (s', invocation)"
  shows "completion_inv D s' (M + mset invocation)"
    and "counted s' = counted s" "remaining_nodes s' = remaining_nodes s"
    and "remaining_dependencies s' = remaining_dependencies s"
    and "run_status s' = run_status s" "trace s' = trace s"
    and "\<forall>t \<in> set invocation. token_of t = None \<and> before_begin t = None"
    and "tokens n (mset invocation) = 0" and "early_tokens n (mset invocation) = 0"
proof -
  note fin = unfinished_silent [OF core]
  consider "may_finish s" "s' = s\<lparr>finished := True\<rparr>" "invocation = [Invoke (run_status s)]"
    | "\<not> may_finish s" "s' = s" "invocation = []"
    using take unfolding take_completion_locked_may by (cases "may_finish s") auto
  then have all: "completion_inv D s' (M + mset invocation) \<and> counted s' = counted s \<and>
      remaining_nodes s' = remaining_nodes s \<and> remaining_dependencies s' = remaining_dependencies s \<and>
      run_status s' = run_status s \<and> trace s' = trace s \<and>
      (\<forall>t \<in> set invocation. token_of t = None \<and> before_begin t = None) \<and>
      tokens n (mset invocation) = 0 \<and> early_tokens n (mset invocation) = 0"
  proof cases
    case 1
    then show ?thesis using core fin
      by (auto simp: completion_inv_def completion_core_def may_finish_def)
  next
    case 2
    then show ?thesis using core by (auto simp: completion_inv_def)
  qed
  then show "completion_inv D s' (M + mset invocation)"
    "counted s' = counted s" "remaining_nodes s' = remaining_nodes s"
    "remaining_dependencies s' = remaining_dependencies s"
    "run_status s' = run_status s" "trace s' = trace s"
    "\<forall>t \<in> set invocation. token_of t = None \<and> before_begin t = None"
    "tokens n (mset invocation) = 0" "early_tokens n (mset invocation) = 0"
    by blast+
qed

lemma may_finish_simps [simp]:
  "may_finish (s\<lparr>trace := tr\<rparr>) = may_finish s" "may_finish (s\<lparr>threads := ts\<rparr>) = may_finish s"
  by (simp_all add: may_finish_def)

lemma schedule_inv:
  assumes "step_inv D s (add_mset (Schedule n) R)" "\<not> finished s" "run_status s = GRAPH_OK"
  shows "step_inv D (s\<lparr>running_jobs := Suc (running_jobs s)\<rparr>) (add_mset (Submit n) R)"
  using assms unfolding step_inv_def node_inv_def completion_inv_def completion_core_def trace_inv_def
  by (simp add: released_def may_finish_def)

lemma submit_inv:
  assumes "step_inv D s (add_mset (Submit n) R)"
  shows "step_inv D s (add_mset (Queued n) R)" and "step_inv D s (add_mset (Reject n) R)"
  using assms unfolding step_inv_def node_inv_def completion_inv_def completion_core_def trace_inv_def
  by auto

text \<open>A task that only logs: the node and completion bookkeeping carry over.\<close>

lemma node_inv_log:
  assumes "node_inv D s M" "counted s' = counted s" "run_status s' = run_status s"
    and "remaining_nodes s' = remaining_nodes s" "remaining_dependencies s' = remaining_dependencies s"
    and "\<And>n. tokens n M' = tokens n M"
  shows "node_inv D s' M'"
  using assms by (simp add: node_inv_def released_def)

lemma trace_inv_snoc:
  assumes tr: "trace_inv D s M" and e: "trace s' = trace s @ [e]" "counted s' = counted s"
    and began: "\<And>n. e = Began n \<Longrightarrow> prerequisites D n \<subseteq> counted s"
    and complete: "\<And>n. Complete n \<in># M' \<Longrightarrow> Complete n \<in># M \<or> e = Ended n"
    and early: "\<And>n. (if e = Began n then 1 else 0) + early_tokens n M' \<le> early_tokens n M"
  shows "trace_inv D s' M'"
proof -
  have ended: "\<forall>n \<in> counted s. Ended n \<in> set (trace s)"
    and order: "\<And>before after n. trace s = before @ Began n # after \<Longrightarrow>
        \<forall>p \<in> prerequisites D n. Ended p \<in> set before"
    and cnt: "\<And>n. count_list (trace s) (Began n) + early_tokens n M \<le> (if released D s n then 1 else 0)"
    using tr unfolding trace_inv_def by blast+
  have "\<forall>p \<in> prerequisites D n. Ended p \<in> set before"
    if "trace s @ [e] = before @ Began n # after" for before after n
    using that unfolding snoc_split_iff
  proof (elim disjE exE conjE)
    assume "before = trace s" "Began n = e"
    then show ?thesis using began [of n] ended by auto
  qed (use order in blast)
  moreover have "count_list (trace s @ [e]) (Began n) + early_tokens n M' \<le> (if released D s n then 1 else 0)" for n
    using cnt [of n] early [of n] by (auto split: if_splits)
  moreover have "\<forall>n. Complete n \<in># M' \<longrightarrow> Ended n \<in> set (trace s @ [e])"
    using tr complete unfolding trace_inv_def by fastforce
  ultimately show ?thesis
    using ended unfolding trace_inv_def e released_cong [OF e(2)] by auto
qed

lemma began_inv:
  assumes inv: "step_inv D s (add_mset (Queued n) R)"
  shows "step_inv D (s\<lparr>trace := trace s @ [Began n]\<rparr>) (add_mset (Running n) R)"
proof -
  have rel: "prerequisites D n \<subseteq> counted s"
    using token_facts(1) [of D s "Queued n" R n] inv by (simp add: step_inv_def released_def)
  have "node_inv D (s\<lparr>trace := trace s @ [Began n]\<rparr>) (add_mset (Running n) R)"
    by (rule node_inv_log [of D s "add_mset (Queued n) R"]) (use inv in \<open>simp_all add: step_inv_def\<close>)
  moreover have "trace_inv D (s\<lparr>trace := trace s @ [Began n]\<rparr>) (add_mset (Running n) R)"
    by (rule trace_inv_snoc [of D s "add_mset (Queued n) R" _ "Began n"]) (use inv rel in \<open>auto simp: step_inv_def\<close>)
  moreover have "completion_inv D (s\<lparr>trace := trace s @ [Began n]\<rparr>) (add_mset (Running n) R)"
    using inv by (auto simp: step_inv_def completion_inv_def completion_core_def)
  ultimately show ?thesis using inv by (simp add: step_inv_def)
qed

lemma ended_inv:
  assumes inv: "step_inv D s (add_mset (Running n) R)"
  shows "step_inv D (s\<lparr>trace := trace s @ [Ended n]\<rparr>) (add_mset (Complete n) R)"
proof -
  have "node_inv D (s\<lparr>trace := trace s @ [Ended n]\<rparr>) (add_mset (Complete n) R)"
    by (rule node_inv_log [of D s "add_mset (Running n) R"]) (use inv in \<open>simp_all add: step_inv_def\<close>)
  moreover have "trace_inv D (s\<lparr>trace := trace s @ [Ended n]\<rparr>) (add_mset (Complete n) R)"
    by (rule trace_inv_snoc [of D s "add_mset (Running n) R" _ "Ended n"]) (use inv in \<open>auto simp: step_inv_def\<close>)
  moreover have "completion_inv D (s\<lparr>trace := trace s @ [Ended n]\<rparr>) (add_mset (Complete n) R)"
    using inv by (auto simp: step_inv_def completion_inv_def completion_core_def)
  ultimately show ?thesis using inv by (simp add: step_inv_def)
qed

lemma invoke_inv:
  assumes inv: "step_inv D s (add_mset (Invoke st) R)"
  shows "step_inv D (s\<lparr>trace := trace s @ [Called st]\<rparr>) R"
proof -
  have "node_inv D (s\<lparr>trace := trace s @ [Called st]\<rparr>) R"
    by (rule node_inv_log [of D s "add_mset (Invoke st) R"]) (use inv in \<open>simp_all add: step_inv_def\<close>)
  moreover have "trace_inv D (s\<lparr>trace := trace s @ [Called st]\<rparr>) R"
    by (rule trace_inv_snoc [of D s "add_mset (Invoke st) R" _ "Called st"]) (use inv in \<open>auto simp: step_inv_def\<close>)
  moreover have "completion_inv D (s\<lparr>trace := trace s @ [Called st]\<rparr>) R"
  proof -
    have c: "completion_core D s (add_mset (Invoke st) R)" "may_finish s \<longrightarrow> Finish \<in># R"
      using inv by (simp_all add: step_inv_def completion_inv_def)
    have "\<forall>st'. Invoke st' \<in># R \<or> Called st' \<in> set (trace s @ [Called st]) \<longrightarrow> st' = run_status s"
    proof (intro allI impI)
      fix st' assume "Invoke st' \<in># R \<or> Called st' \<in> set (trace s @ [Called st])"
      then have "Invoke st' \<in># add_mset (Invoke st) R \<or> Called st' \<in> set (trace s)" by auto
      then show "st' = run_status s" using c(1) unfolding completion_core_def by blast
    qed
    moreover have "invocations R + calls (trace s @ [Called st]) = (if finished s then 1 else 0)"
      using c(1) by (simp add: completion_core_def)
    moreover have "finished s \<longrightarrow> running_jobs s = 0" "running_jobs s = running_tasks (add_mset (Invoke st) R)"
      using c(1) unfolding completion_core_def by blast+
    ultimately show ?thesis using c by (simp add: completion_inv_def completion_core_def)
  qed
  ultimately show ?thesis using inv by (simp add: step_inv_def)
qed

lemma finish_inv:
  assumes inv: "step_inv D s (add_mset Finish R)"
    and take: "take_completion_locked s = (s', invocation)"
  shows "step_inv D s' (R + mset invocation)"
proof -
  have core: "completion_core D s R"
    using inv by (auto simp: step_inv_def completion_inv_def completion_core_def)
  note tk = take_completion_inv [OF core take]
  have "node_inv D s' (R + mset invocation)"
    by (rule node_inv_log [of D s "add_mset Finish R"]) (use inv tk(2-5,8) in \<open>simp_all add: step_inv_def\<close>)
  moreover have "trace_inv D s' (R + mset invocation)"
    by (rule trace_inv_drop [of D s "add_mset Finish R"])
      (use inv tk(2,6,7,9) in \<open>auto simp: step_inv_def\<close>)
  ultimately show ?thesis using tk(1) inv by (simp add: step_inv_def)
qed

lemma core_unfinished:
  assumes core: "completion_core D s M" and "\<not> finished s" "\<not> finished s'" "trace s' = trace s @ es" "calls es = 0"
    and "running_jobs s' = running_tasks M'" "invocations M' = 0"
    and "run_status s' = GRAPH_OK \<or> run_status s' = WORKER_SUBMISSION_FAILED"
  shows "completion_core D s' M'"
proof -
  have "Called st \<notin> set es" "Invoke st \<notin># M'" for st
    using assms(5,7) by (auto simp: calls_def invocations_def filter_empty_conv)
  then show ?thesis
    using unfinished_silent [OF core assms(2)] assms by (simp add: completion_core_def)
qed

lemma reject_inv:
  assumes inv: "step_inv D s (add_mset (Reject n) R)"
    and take: "take_completion_locked (s\<lparr>running_jobs := size_dec (running_jobs s),
      run_status := WORKER_SUBMISSION_FAILED\<rparr>) = (s', invocation)"
  shows "step_inv D s' (R + mset invocation)"
proof -
  let ?s = "s\<lparr>running_jobs := size_dec (running_jobs s), run_status := WORKER_SUBMISSION_FAILED\<rparr>"
  have core0: "completion_core D s (add_mset (Reject n) R)"
    using inv by (simp add: step_inv_def completion_inv_def)
  note run = running_unfinished [OF core0, simplified]
  have "completion_core D ?s R"
    by (rule core_unfinished [OF core0 run(1), of _ "[]"])
      (use run unfinished_silent(2) [OF core0 run(1)] in simp_all)
  note tk = take_completion_inv [OF this take]
  have "node_inv D s' (R + mset invocation)"
    by (rule node_inv_drop [of D s "add_mset (Reject n) R"]) (use inv tk(2-5,8) in \<open>simp_all add: step_inv_def\<close>)
  moreover have "trace_inv D s' (R + mset invocation)"
    by (rule trace_inv_drop [of D s "add_mset (Reject n) R"]) (use inv tk(2,6,7,9) in \<open>auto simp: step_inv_def\<close>)
  ultimately show ?thesis using tk(1) inv by (simp add: step_inv_def)
qed

lemma complete_failed_inv:
  assumes inv: "step_inv D s (add_mset (Complete n) R)" and failed: "run_status s \<noteq> GRAPH_OK"
  shows "step_inv D (s\<lparr>running_jobs := size_dec (running_jobs s)\<rparr>) (add_mset Finish R)"
proof -
  let ?s = "s\<lparr>running_jobs := size_dec (running_jobs s)\<rparr>"
  have core0: "completion_core D s (add_mset (Complete n) R)"
    using inv by (simp add: step_inv_def completion_inv_def)
  note run = running_unfinished [OF core0, simplified]
  have "completion_core D ?s (add_mset Finish R)"
    by (rule core_unfinished [OF core0 run(1), of _ "[]"])
      (use run unfinished_silent(2) [OF core0 run(1)] core0 in \<open>simp_all add: completion_core_def\<close>)
  moreover have "node_inv D ?s (add_mset Finish R)"
    by (rule node_inv_drop [of D s "add_mset (Complete n) R"]) (use inv failed in \<open>simp_all add: step_inv_def\<close>)
  moreover have "trace_inv D ?s (add_mset Finish R)"
    by (rule trace_inv_drop [of D s "add_mset (Complete n) R"]) (use inv in \<open>auto simp: step_inv_def\<close>)
  ultimately show ?thesis using inv by (simp add: step_inv_def completion_inv_def)
qed

text \<open>Counting a node moves its token to the counted set and creates one token per node it releases.\<close>

lemma complete_node_inv:
  assumes wf: "plan_wf D" and inv: "node_inv D s (add_mset (Complete n) R)" and ok: "run_status s = GRAPH_OK"
    and fold: "fold release (plan_dependents D ! n) (remaining_dependencies s, []) = (remaining, ready)"
    and s': "counted s' = insert n (counted s)" "remaining_nodes s' = size_dec (remaining_nodes s)"
      "remaining_dependencies s' = remaining" "run_status s' = run_status s"
  shows "node_inv D s' (R + mset (map Schedule ready) + {#Finish#})"
    and "\<And>m. count_list ready m + (if released D s m then 1 else 0) \<le> (if released D s' m then 1 else 0)"
proof -
  let ?C = "counted s"
  note tf = token_facts [OF inv, of n, simplified]
  have C: "?C \<subseteq> {..<plan_size D}" and rn: "remaining_nodes s = plan_size D - card ?C"
    and rd: "remaining_dependencies s = map (\<lambda>d. card (prerequisites D d - ?C)) [0..<plan_size D]"
    using inv by (simp_all add: node_inv_def)
  obtain ready' where "fold release (plan_dependents D ! n) (remaining_dependencies s, []) =
      (map (\<lambda>d. card (prerequisites D d - insert n ?C)) [0..<plan_size D], ready')" "distinct ready'"
    "set ready' = {d. d < plan_size D \<and> n \<in> prerequisites D d \<and> prerequisites D d \<subseteq> insert n ?C}"
    using complete_releases [OF wf tf(3,2) C] unfolding rd by blast
  then have rdy: "remaining = map (\<lambda>d. card (prerequisites D d - insert n ?C)) [0..<plan_size D]" "distinct ready"
    "set ready = {d. d < plan_size D \<and> n \<in> prerequisites D d \<and> prerequisites D d \<subseteq> insert n ?C}"
    using fold by auto
  have fin: "finite ?C" using C finite_subset by blast
  have "card ?C < plan_size D"
    using C tf(2,3) by (metis card_lessThan finite_lessThan lessThan_iff psubsetI psubset_card_mono)
  then have nodes: "remaining_nodes s' = plan_size D - card (insert n ?C)"
    using s'(2) rn fin tf(2) by simp
  have rel': "released D s' m \<longleftrightarrow> m \<in> set ready \<or> released D s m" for m
    using rdy(3) s'(1) by (auto simp: released_def)
  have excl: "m \<notin> set ready" if "released D s m" for m
    using that tf(2) rdy(3) by (auto simp: released_def)
  show "count_list ready m + (if released D s m then 1 else 0) \<le> (if released D s' m then 1 else 0)" for m
    using rel' [of m] excl [of m] by (simp add: count_list_distinct [OF rdy(2)])
  have "tokens m (R + mset (map Schedule ready) + {#Finish#}) + (if m \<in> counted s' then 1 else 0) =
      (if released D s' m then 1 else 0)" for m
  proof -
    have "tokens m (add_mset (Complete n) R) + (if m \<in> ?C then 1 else 0) = (if released D s m then 1 else 0)"
      using inv ok unfolding node_inv_def by blast
    then show ?thesis
      using rel' [of m] excl [of m] tf s'(1)
      by (auto simp: tokens_schedule count_list_distinct [OF rdy(2)] simp del: mset_map split: if_splits)
  qed
  then show "node_inv D s' (R + mset (map Schedule ready) + {#Finish#})"
    unfolding node_inv_def using C tf(3) nodes rdy(1) s'(1,3) by simp
qed

lemma complete_ok_inv:
  assumes wf: "plan_wf D" and inv: "step_inv D s (add_mset (Complete n) R)" and ok: "run_status s = GRAPH_OK"
    and fold: "fold release (plan_dependents D ! n) (remaining_dependencies s, []) = (remaining, ready)"
  shows "step_inv D (s\<lparr>running_jobs := size_dec (running_jobs s), remaining_nodes := size_dec (remaining_nodes s),
      remaining_dependencies := remaining, trace := trace s @ [Counted n]\<rparr>)
    (R + mset (map Schedule ready) + {#Finish#})" (is "step_inv D ?s ?M")
proof -
  have core0: "completion_core D s (add_mset (Complete n) R)" and node0: "node_inv D s (add_mset (Complete n) R)"
    and tr: "trace_inv D s (add_mset (Complete n) R)"
    using inv by (simp_all add: step_inv_def completion_inv_def)
  have C: "counted ?s = insert n (counted s)" by (auto simp: counted_def)
  note node = complete_node_inv [OF wf node0 ok fold, of ?s, simplified C, simplified]
  note run = running_unfinished [OF core0, simplified]
  have "completion_core D ?s ?M"
    by (rule core_unfinished [OF core0 run(1), of _ "[Counted n]"])
      (use run unfinished_silent(2) [OF core0 run(1)] ok in
        \<open>simp_all add: running_schedule invocations_schedule del: mset_map\<close>)
  moreover have "trace_inv D ?s ?M"
  proof -
    have early: "count_list (trace s @ [Counted n]) (Began m) + early_tokens m ?M \<le>
        (if released D ?s m then 1 else 0)" for m
    proof -
      have "count_list (trace s) (Began m) + early_tokens m (add_mset (Complete n) R) \<le>
          (if released D s m then 1 else 0)"
        using tr unfolding trace_inv_def by blast
      then show ?thesis using node(2) [of m] by (simp add: early_tokens_schedule del: mset_map)
    qed
    have ended: "\<forall>m \<in> insert n (counted s). Ended m \<in> set (trace s)"
      using tr by (simp add: trace_inv_def)
    have "\<forall>m. Complete m \<in># ?M \<longrightarrow> Ended m \<in> set (trace s)"
      using tr by (auto simp: trace_inv_def)
    moreover have "\<forall>before after m. trace s @ [Counted n] = before @ Began m # after \<longrightarrow>
        (\<forall>p \<in> prerequisites D m. Ended p \<in> set before)"
      using tr unfolding trace_inv_def snoc_split_iff by blast
    ultimately show ?thesis
      unfolding trace_inv_def C using early ended by auto
  qed
  ultimately show ?thesis using inv node(1) by (simp add: step_inv_def completion_inv_def)
qed

text \<open>Every task keeps the invariant, with its thread's continuation in its place.\<close>

lemma perform_inv:
  assumes "plan_wf D" "step_inv D s (add_mset t R)" "perform D accept t s = (s', continuation, new)"
  shows "step_inv D s' (R + mset continuation + mset (concat new))"
proof (cases t)
  case (Schedule n)
  show ?thesis
  proof (cases "finished s \<or> run_status s \<noteq> GRAPH_OK")
    case True
    then show ?thesis using assms drop_when_failed [of D s n R] Schedule by auto
  next
    case False
    then show ?thesis using assms schedule_inv [of D s n R] Schedule by auto
  qed
next
  case (Submit n)
  then show ?thesis using assms submit_inv [of D s n R] by (auto split: if_splits)
next
  case (Reject n)
  have "run_status s = GRAPH_OK \<or> run_status s = WORKER_SUBMISSION_FAILED"
    using assms(2) by (simp add: step_inv_def completion_inv_def completion_core_def)
  then have "(if run_status s = GRAPH_OK then s\<lparr>running_jobs := size_dec (running_jobs s), run_status := WORKER_SUBMISSION_FAILED\<rparr>
      else s\<lparr>running_jobs := size_dec (running_jobs s)\<rparr>) =
      s\<lparr>running_jobs := size_dec (running_jobs s), run_status := WORKER_SUBMISSION_FAILED\<rparr>" by auto
  then have "take_completion_locked (s\<lparr>running_jobs := size_dec (running_jobs s),
      run_status := WORKER_SUBMISSION_FAILED\<rparr>) = (s', continuation)" "new = []"
    using assms(3) Reject by (simp_all add: Let_def split: prod.splits)
  then show ?thesis using reject_inv assms(2) Reject by simp
next
  case (Queued n)
  then show ?thesis using assms began_inv [of D s n R] by auto
next
  case (Running n)
  then show ?thesis using assms ended_inv [of D s n R] by auto
next
  case (Complete n)
  show ?thesis
  proof (cases "run_status s = GRAPH_OK")
    case True
    obtain remaining ready where
      f: "fold release (plan_dependents D ! n) (remaining_dependencies s, []) = (remaining, ready)" by fastforce
    show ?thesis
      using complete_ok_inv [OF assms(1) _ True f, of R] assms(2,3) Complete True f
      by (auto simp: Let_def)
  next
    case False
    then show ?thesis using assms complete_failed_inv [of D s n R] Complete by auto
  qed
next
  case Finish
  then show ?thesis using assms finish_inv [of D s R] by (auto split: prod.splits)
next
  case (Invoke st)
  then show ?thesis using assms invoke_inv [of D s st R] by auto
qed

lemma step_inv_threads [simp]: "step_inv D (s\<lparr>threads := ts\<rparr>) M = step_inv D s M"
  by (simp add: step_inv_def node_inv_def completion_inv_def completion_core_def trace_inv_def released_def)

lemma run_inv_step: "run_inv D s = step_inv D s (pending s)"
  by (simp add: run_inv_def step_inv_def)

lemma run_step_inv:
  assumes "plan_wf D" "run_step D s s'" "run_inv D s"
  shows "run_inv D s'"
proof -
  obtain i t rest accept s1 continuation new where st: "i < length (threads s)" "threads s ! i = t # rest"
    "perform D accept t s = (s1, continuation, new)"
    "s' = s1\<lparr>threads := (threads s)[i := continuation @ rest] @ new\<rparr>"
    using assms(2) by (auto elim!: run_stepE)
  obtain R where R: "pending s = add_mset t R"
    "mset (concat ((threads s)[i := continuation @ rest] @ new)) = R + mset continuation + mset (concat new)"
    using pending_step [OF st(1,2)] by blast
  have "step_inv D s1 (R + mset continuation + mset (concat new))"
    using perform_inv [OF assms(1) _ st(3)] assms(3) R(1) by (simp add: run_inv_step)
  moreover have "pending s' = R + mset continuation + mset (concat new)"
    using st(4) R(2) by (simp add: pending_def)
  ultimately show ?thesis using st(4) by (simp add: run_inv_step)
qed

lemma new_run_inv:
  assumes "plan_wf D" "0 < plan_size D"
  shows "run_inv D (new_run D)"
proof -
  let ?M = "mset (map Schedule (plan_roots D))"
  have pend: "pending (new_run D) = ?M" by (simp add: pending_def new_run_def)
  have C: "counted (new_run D) = {}" by (simp add: counted_def new_run_def)
  have fin: "finite (prerequisites D d)" for d by (simp add: prerequisites_def)
  have cnt: "plan_counts D = map (\<lambda>d. card (prerequisites D d)) [0..<plan_size D]"
    and roots: "plan_roots D = filter (\<lambda>i. plan_counts D ! i = 0) [0..<plan_size D]"
    using assms(1) by (simp_all add: plan_wf_def prerequisites_def plan_size_def)
  have "m \<in> set (plan_roots D) \<longleftrightarrow> m < plan_size D \<and> plan_counts D ! m = 0" for m
    unfolding roots by auto
  moreover have "plan_counts D ! m = card (prerequisites D m)" if "m < plan_size D" for m
    unfolding cnt using that by simp
  moreover have "distinct (plan_roots D)" unfolding roots by simp
  ultimately have tok: "count_list (plan_roots D) m = (if released D (new_run D) m then 1 else 0)" for m
    using fin by (auto simp: count_list_distinct released_def C)
  have "node_inv D (new_run D) ?M"
    unfolding node_inv_def C using tok cnt by (simp add: tokens_schedule new_run_def del: mset_map)
  moreover have "completion_inv D (new_run D) ?M"
    using assms(2) by (auto simp: completion_inv_def completion_core_def new_run_def may_finish_def
        running_schedule invocations_schedule simp del: mset_map)
  moreover have "trace_inv D (new_run D) ?M"
    unfolding trace_inv_def C using tok by (auto simp: new_run_def early_tokens_schedule simp del: mset_map)
  ultimately show ?thesis using assms(2) by (simp add: run_inv_def pend)
qed

section \<open>Runs end\<close>

fun task_weight :: "task \<Rightarrow> nat" where
  "task_weight (Schedule n) = 7"
| "task_weight (Submit n) = 6"
| "task_weight (Queued n) = 5"
| "task_weight (Running n) = 4"
| "task_weight (Reject n) = 3"
| "task_weight (Complete n) = 3"
| "task_weight Finish = 2"
| "task_weight (Invoke st) = 1"

definition run_measure :: "plan_data \<Rightarrow> run_state \<Rightarrow> nat \<times> nat" where
  "run_measure D s = (plan_size D - card (counted s), \<Sum>\<^sub># (image_mset task_weight (pending s)))"

lemma take_completion_weight:
  assumes "take_completion_locked s = (s', invocation)"
  shows "sum_list (map task_weight invocation) \<le> 1 \<and> trace s' = trace s"
  using assms by (auto simp: take_completion_locked_may split: if_splits)

lemma perform_weight:
  assumes "perform D accept t s = (s', continuation, new)"
  shows "(sum_list (map task_weight (continuation @ concat new)) < task_weight t \<and> counted s' = counted s) \<or>
    (\<exists>n. t = Complete n \<and> counted s' = insert n (counted s))"
proof (cases t)
  case (Reject n)
  then show ?thesis
    using assms by (auto simp: Let_def counted_def split: prod.splits if_splits dest!: take_completion_weight)
next
  case Finish
  then show ?thesis
    using assms by (auto simp: Let_def counted_def split: prod.splits dest!: take_completion_weight)
qed (use assms in \<open>auto simp: Let_def counted_def split: prod.splits if_splits\<close>)

lemma run_step_measure:
  assumes "run_step D s s'" "run_inv D s"
  shows "(run_measure D s', run_measure D s) \<in> less_than <*lex*> less_than"
proof -
  obtain i t rest accept s1 continuation new where st: "i < length (threads s)" "threads s ! i = t # rest"
    "perform D accept t s = (s1, continuation, new)"
    "s' = s1\<lparr>threads := (threads s)[i := continuation @ rest] @ new\<rparr>"
    using assms(1) by (auto elim!: run_stepE)
  obtain R where R: "pending s = add_mset t R"
    "mset (concat ((threads s)[i := continuation @ rest] @ new)) = R + mset continuation + mset (concat new)"
    using pending_step [OF st(1,2)] by blast
  have pend: "pending s' = R + mset continuation + mset (concat new)" using st(4) R(2) by (simp add: pending_def)
  have C: "counted s' = counted s1" using st(4) by simp
  have node: "node_inv D s (add_mset t R)" using assms(2) R(1) by (simp add: run_inv_def)
  from perform_weight [OF st(3)] show ?thesis
  proof
    assume "sum_list (map task_weight (continuation @ concat new)) < task_weight t \<and> counted s1 = counted s"
    moreover have "\<Sum>\<^sub># (image_mset task_weight (mset xs)) = sum_list (map task_weight xs)" for xs
      by (metis mset_map sum_mset_sum_list)
    ultimately show ?thesis
      unfolding run_measure_def C pend R(1) by simp
  next
    assume "\<exists>n. t = Complete n \<and> counted s1 = insert n (counted s)"
    then obtain n where n: "t = Complete n" "counted s1 = insert n (counted s)" by blast
    have tf: "n \<notin> counted s" "n < plan_size D" using token_facts [OF node, of n] n(1) by simp_all
    have sub: "counted s \<subseteq> {..<plan_size D}" using node by (simp add: node_inv_def)
    then have lt: "card (counted s) < plan_size D" and fin: "finite (counted s)"
      using tf by (metis card_lessThan finite_lessThan lessThan_iff psubsetI psubset_card_mono,
          meson finite_lessThan finite_subset)
    then have "plan_size D - card (insert n (counted s)) < plan_size D - card (counted s)" using tf(1) by simp
    then show ?thesis unfolding run_measure_def C n(2) by simp
  qed
qed

section \<open>Accepted runs\<close>

text \<open>An accepted run: a compiled acyclic graph whose submission was accepted.\<close>

definition accepted_run :: "'n dependency_graph \<Rightarrow> plan_data \<Rightarrow> run_state \<Rightarrow> bool" where
  "accepted_run g D s0 \<longleftrightarrow> graph_wf g \<and> (\<exists>g'. compile_plan g = Some (g', GRAPH_OK, Some D)) \<and>
     (\<exists>(jobs :: unit option list) active has. submit active (Some D) jobs has = (GRAPH_OK, Some s0))"

lemma compile_plan_cases:
  assumes wf: "graph_wf g"
  obtains (valid) g' where "compile_plan g = Some (g', GRAPH_OK, Some (make_data
      \<lparr>snapshot_nodes = dg_nodes g, snapshot_dependents = dependents g, snapshot_counts = dependency_counts g\<rparr>))"
    "graph_wf g'" "acyclic (edges (dependents g))"
  | (cycle) g' where "compile_plan g = Some (g', DEPENDENCY_CYCLE, None)" "graph_wf g'"
    "\<not> acyclic (edges (dependents g))"
  using wf
proof (cases rule: validate_locked_cases)
  case (valid g')
  then show ?thesis by (intro that(1) [of g']) (simp_all add: compile_plan_def snapshot_def)
next
  case (cycle g')
  then show ?thesis by (intro that(2) [of g']) (simp_all add: compile_plan_def snapshot_def)
qed

lemma make_data_wf:
  assumes "graph_wf g" "acyclic (edges (dependents g))"
  shows "plan_wf (make_data
      \<lparr>snapshot_nodes = dg_nodes g, snapshot_dependents = dependents g, snapshot_counts = dependency_counts g\<rparr>)"
  using assms unfolding graph_wf_def plan_wf_def make_data_def by simp

lemma accepted_run_facts:
  assumes "accepted_run g D s0"
  shows "plan_wf D" "s0 = new_run D" "0 < plan_size D"
proof -
  have wf: "graph_wf g" using assms by (simp add: accepted_run_def)
  then show "plan_wf D"
    using assms make_data_wf [OF wf] by (cases rule: compile_plan_cases) (auto simp: accepted_run_def)
  show "s0 = new_run D" "0 < plan_size D"
    using assms by (auto simp: accepted_run_def submit_def split: if_splits)
qed

interpretation plan_run: machine
  "\<lambda>(D, s). plan_wf D \<and> 0 < plan_size D \<and> s = new_run D"
  "\<lambda>(D, s) (D', s'). D' = D \<and> plan_wf D \<and> run_step D s s'"
  "\<lambda>(D, s). run_inv D s"
  by unfold_locales (auto intro: new_run_inv run_step_inv)

lemma accepted_run_inv:
  assumes acc: "accepted_run g D s0" and run: "(run_step D)\<^sup>*\<^sup>* s0 s"
  shows "run_inv D s"
proof -
  note f = accepted_run_facts [OF acc]
  have "(\<lambda>(D, s) (D', s'). D' = D \<and> plan_wf D \<and> run_step D s s')\<^sup>*\<^sup>* (D, s0) (D, s)"
    using run by (induction rule: rtranclp_induct) (auto intro: rtranclp.rtrancl_into_rtrancl simp: f(1))
  from plan_run.reachable_inv [OF _ this] f show ?thesis by simp
qed

text \<open>An executable scheduler: each choice names a thread and the pool's answer to a submission.\<close>

fun run_choices :: "plan_data \<Rightarrow> (nat \<times> bool) list \<Rightarrow> run_state \<Rightarrow> run_state" where
  "run_choices D [] s = s"
| "run_choices D ((i, accept) # cs) s =
     (if i < length (threads s) then
        case threads s ! i of [] \<Rightarrow> run_choices D cs s
        | t # rest \<Rightarrow> let (s', continuation, new) = perform D accept t s
            in run_choices D cs (s'\<lparr>threads := (threads s)[i := continuation @ rest] @ new\<rparr>)
      else run_choices D cs s)"

lemma run_choices_reachable: "(run_step D)\<^sup>*\<^sup>* s (run_choices D cs s)"
proof (induction D cs s rule: run_choices.induct)
  case (2 D i accept cs s)
  show ?case
  proof (cases "i < length (threads s) \<and> threads s ! i \<noteq> []")
    case True
    then obtain t rest where t: "i < length (threads s)" "threads s ! i = t # rest" by (meson list.exhaust)
    obtain s' continuation new where p: "perform D accept t s = (s', continuation, new)" by (metis prod_cases3)
    have "run_step D s (s'\<lparr>threads := (threads s)[i := continuation @ rest] @ new\<rparr>)"
      by (rule run_step.step [OF t p])
    with 2(2) [OF t p [symmetric]] show ?thesis
      using t p by (simp add: converse_rtranclp_into_rtranclp)
  qed (use 2 in \<open>auto split: list.splits\<close>)
qed simp

lemma all_counted:
  assumes "node_inv D s M" "remaining_nodes s = 0"
  shows "counted s = {..<plan_size D}"
  using assms by (metis card_lessThan card_seteq diff_is_0_eq finite_lessThan node_inv_def)

lemma quiescent_counts_all:
  assumes wf: "plan_wf D" and node: "node_inv D s {#}" and ok: "run_status s = GRAPH_OK"
  shows "counted s = {..<plan_size D}"
proof -
  let ?deps = "plan_dependents D"
  have rel: "n \<in> counted s \<longleftrightarrow> released D s n" for n
  proof -
    have "tokens n {#} + (if n \<in> counted s then 1 else 0) = (if released D s n then (1::nat) else 0)"
      using node ok unfolding node_inv_def by blast
    then show ?thesis by (auto split: if_splits)
  qed
  have dw: "deps_wf ?deps" and ac: "acyclic (edges ?deps)" and N: "length ?deps = plan_size D"
    using wf by (simp_all add: plan_wf_def plan_size_def)
  have "finite (edges ?deps)"
    by (rule finite_subset [of _ "{..<length ?deps} \<times> {..<length ?deps}"])
      (auto simp: edges_def intro: preds_lt dependent_lt [OF dw])
  then have "wf (edges ?deps)" using ac by (simp add: finite_acyclic_wf)
  then have "n < plan_size D \<longrightarrow> n \<in> counted s" for n
  proof (induction n rule: wf_induct_rule)
    case (less n)
    have "p \<in> counted s" if "p \<in> prerequisites D n" for p
      using that less [of p] preds_lt [of p ?deps n] N by (simp add: prerequisites_def edges_def)
    then show ?case by (auto simp: rel released_def)
  qed
  moreover have "counted s \<subseteq> {..<plan_size D}" using node by (simp add: node_inv_def)
  ultimately show ?thesis by auto
qed

lemma quiescent_finished:
  assumes wf: "plan_wf D" and inv: "run_inv D s" and quiet: "\<forall>t \<in> set (threads s). t = []"
  shows "finished s"
proof (rule ccontr)
  assume nf: "\<not> finished s"
  have pend: "pending s = {#}" using quiet by (simp add: pending_def)
  have node: "node_inv D s {#}" and comp: "completion_inv D s {#}"
    using inv pend by (simp_all add: run_inv_def)
  have "\<not> may_finish s" "running_jobs s = 0" using comp by (simp_all add: completion_inv_def completion_core_def)
  then have ok: "run_status s = GRAPH_OK" "remaining_nodes s \<noteq> 0" using nf by (auto simp: may_finish_def)
  then show False
    using quiescent_counts_all [OF wf node ok(1)] node by (simp add: node_inv_def)
qed

lemma quiescent_called:
  assumes inv: "run_inv D s" and quiet: "\<forall>t \<in> set (threads s). t = []" and fin: "finished s"
  shows "\<exists>st. filter (\<lambda>e. \<exists>st. e = Called st) (trace s) = [Called st] \<and>
        (st = GRAPH_OK \<and> counted s = {..<plan_size D} \<and> (\<forall>n < plan_size D. Ended n \<in> set (trace s)) \<or>
         st = WORKER_SUBMISSION_FAILED)"
proof -
  have pend: "pending s = {#}" using quiet by (simp add: pending_def)
  have node: "node_inv D s {#}" and core: "completion_core D s {#}" and tr: "trace_inv D s {#}"
    using inv pend by (simp_all add: run_inv_def completion_inv_def)
  have "calls (trace s) = 1" using core fin by (simp add: completion_core_def)
  then obtain e where e: "filter (\<lambda>e. \<exists>st. e = Called st) (trace s) = [e]"
    unfolding calls_def by (metis One_nat_def Suc_length_conv length_0_conv)
  then have "e \<in> set (filter (\<lambda>e. \<exists>st. e = Called st) (trace s))" by simp
  then obtain st where st: "e = Called st" "Called st \<in> set (trace s)" by auto
  then have "st = run_status s" using core by (simp add: completion_core_def)
  moreover have "run_status s = GRAPH_OK \<or> run_status s = WORKER_SUBMISSION_FAILED"
    using core by (simp add: completion_core_def)
  moreover have "counted s = {..<plan_size D} \<and> (\<forall>n < plan_size D. Ended n \<in> set (trace s))" if "run_status s = GRAPH_OK"
  proof -
    have "counted s = {..<plan_size D}"
      using that core fin all_counted [OF node] by (simp add: completion_core_def)
    then show ?thesis using tr by (simp add: trace_inv_def)
  qed
  ultimately show ?thesis using e st(1) by blast
qed

section \<open>Properties\<close>

text \<open>A graph of two nodes, the second requiring the first, and its compiled plan.\<close>

definition two_step_graph :: "nat dependency_graph" where
  "two_step_graph = fst (add_dependency 1 2 (fst (add_node 2 (fst (add_node 1 empty_graph)))))"

definition two_step_plan :: plan_data where
  "two_step_plan = \<lparr>plan_dependents = [[1], []], plan_counts = [0, 1], plan_roots = [0]\<rparr>"

lemma two_step_accepted: "accepted_run two_step_graph two_step_plan (new_run two_step_plan)"
proof -
  have "map_option snd (compile_plan two_step_graph) = Some (GRAPH_OK, Some two_step_plan)" by code_simp
  then have "\<exists>g'. compile_plan two_step_graph = Some (g', GRAPH_OK, Some two_step_plan)" by auto
  moreover have "submit True (Some two_step_plan) [Some (), Some ()] True = (GRAPH_OK, Some (new_run two_step_plan))"
    by (simp add: submit_def two_step_plan_def plan_size_def)
  moreover have "graph_wf two_step_graph"
    unfolding two_step_graph_def by (intro graph_wf_add_dependency graph_wf_add_node graph_wf_empty)
  ultimately show ?thesis unfolding accepted_run_def by blast
qed

text \<open>
  \<open>ExecutionPlan::compile\<close> on any graph built by the graph's operations returns \<open>OK\<close> with a
  plan exactly when the graph has no cycle, and otherwise \<open>DEPENDENCY_CYCLE\<close> with the output
  cleared; the compiled counters are the numbers of prerequisites and the roots are the nodes
  without any, in registration order.
\<close>

lemma compile_plan_correct:
  assumes "graph_wf g"
  shows "(\<exists>g'. compile_plan g = Some (g', DEPENDENCY_CYCLE, None)) \<and> \<not> acyclic (edges (dependents g)) \<or>
    (\<exists>g' D. compile_plan g = Some (g', GRAPH_OK, Some D)) \<and> acyclic (edges (dependents g)) \<and>
    (\<forall>g' D. compile_plan g = Some (g', GRAPH_OK, Some D) \<longrightarrow> plan_size D = graph_size g \<and>
       plan_dependents D = dependents g \<and>
       (\<forall>i < graph_size g. plan_counts D ! i = card (preds (dependents g) i)) \<and>
       plan_roots D = filter (\<lambda>i. preds (dependents g) i = {}) [0..<graph_size g])"
  using assms
proof (cases rule: compile_plan_cases)
  case (valid g')
  have "dependency_counts g = map (\<lambda>d. card (preds (dependents g) d)) [0..<graph_size g]"
    using assms by (simp add: graph_wf_def graph_size_def)
  with valid show ?thesis by (auto simp: make_data_def plan_size_def intro!: filter_cong)
qed simp

text \<open>
  C1: in every execution of an accepted run, whatever threads the jobs run on and whichever
  submissions the worker pool rejects, a job begins only after every job it depends on has
  ended, and no job begins twice.
\<close>

theorem plan_run_order:
  assumes "accepted_run g D s0" "(run_step D)\<^sup>*\<^sup>* s0 s"
  shows "(\<forall>before n after. trace s = before @ Began n # after \<longrightarrow>
      (\<forall>p \<in> prerequisites D n. Ended p \<in> set before) \<and> Began n \<notin> set before)"
proof (intro allI impI conjI)
  fix before n after assume tr: "trace s = before @ Began n # after"
  have inv: "trace_inv D s (pending s)" using accepted_run_inv [OF assms] by (simp add: run_inv_def)
  then show "\<forall>p \<in> prerequisites D n. Ended p \<in> set before" using tr unfolding trace_inv_def by blast
  have "count_list (trace s) (Began n) + early_tokens n (pending s) \<le> (if released D s n then 1 else 0)"
    using inv unfolding trace_inv_def by blast
  then have "count_list before (Began n) = 0" using tr by (auto split: if_splits)
  then show "Began n \<notin> set before" by (simp add: count_list_0_iff)
qed

theorem plan_run_order_witness:
  "let s = run_choices two_step_plan [(0, True), (0, True), (1, True), (1, True), (1, True), (1, True), (1, True), (2, True)]
       (new_run two_step_plan)
   in trace s = [Began 0, Ended 0, Counted 0] @ Began 1 # [] \<and>
     (\<forall>p \<in> prerequisites two_step_plan 1. Ended p \<in> set [Began 0, Ended 0, Counted 0])"
proof -
  let ?s = "run_choices two_step_plan [(0, True), (0, True), (1, True), (1, True), (1, True), (1, True), (1, True), (2, True)]
       (new_run two_step_plan)"
  have "trace ?s = [Began 0, Ended 0, Counted 0] @ Began 1 # []" by code_simp
  moreover from this have "\<forall>p \<in> prerequisites two_step_plan 1. Ended p \<in> set [Began 0, Ended 0, Counted 0]"
    using plan_run_order [OF two_step_accepted run_choices_reachable] by blast
  ultimately show ?thesis unfolding Let_def by blast
qed

text \<open>
  C2: the completion callback of an accepted run is called at most once, and when no task of
  the run is left it has been called exactly once: with \<open>OK\<close> if and only if every node's job
  ended and was counted, and otherwise with \<open>WORKER_SUBMISSION_FAILED\<close>.
\<close>

theorem plan_run_completion:
  assumes "accepted_run g D s0" "(run_step D)\<^sup>*\<^sup>* s0 s"
  shows "calls (trace s) \<le> 1 \<and>
    ((\<forall>t \<in> set (threads s). t = []) \<longrightarrow>
      (\<exists>st. filter (\<lambda>e. \<exists>st. e = Called st) (trace s) = [Called st] \<and>
        (st = GRAPH_OK \<and> counted s = {..<plan_size D} \<and> (\<forall>n < plan_size D. Ended n \<in> set (trace s)) \<or>
         st = WORKER_SUBMISSION_FAILED)))"
proof -
  note acc = accepted_run_facts [OF assms(1)]
  note inv = accepted_run_inv [OF assms]
  have core: "completion_core D s (pending s)" using inv by (simp add: run_inv_def completion_inv_def)
  then have "calls (trace s) \<le> 1" by (auto simp: completion_core_def split: if_splits)
  moreover
  {
    assume quiet: "\<forall>t \<in> set (threads s). t = []"
    have "finished s"
      by (rule quiescent_finished [OF acc(1) inv quiet])
    from quiescent_called [OF inv quiet this] have
      "\<exists>st. filter (\<lambda>e. \<exists>st. e = Called st) (trace s) = [Called st] \<and>
        (st = GRAPH_OK \<and> counted s = {..<plan_size D} \<and> (\<forall>n < plan_size D. Ended n \<in> set (trace s)) \<or>
         st = WORKER_SUBMISSION_FAILED)" .
  }
  ultimately show ?thesis by blast
qed

theorem plan_run_completion_witness:
  "let s = run_choices two_step_plan [(0, True), (0, True), (1, True), (1, True), (1, True), (1, True), (1, False),
         (1, True), (1, True), (1, True)] (new_run two_step_plan)
   in (\<forall>t \<in> set (threads s). t = []) \<and>
     (\<exists>st. filter (\<lambda>e. \<exists>st. e = Called st) (trace s) = [Called st] \<and> st = WORKER_SUBMISSION_FAILED)"
proof -
  let ?s = "run_choices two_step_plan [(0, True), (0, True), (1, True), (1, True), (1, True), (1, True), (1, False),
         (1, True), (1, True), (1, True)] (new_run two_step_plan)"
  have "threads ?s = [[], []]" "trace ?s = [Began 0, Ended 0, Counted 0, Called WORKER_SUBMISSION_FAILED]"
    by code_simp+
  then show ?thesis
    using plan_run_completion [OF two_step_accepted run_choices_reachable, of "[(0, True), (0, True), (1, True),
      (1, True), (1, True), (1, True), (1, False), (1, True), (1, True), (1, True)]"]
    unfolding Let_def by fastforce
qed

text \<open>
  C3: every execution of an accepted run is finite: there is no infinite sequence of steps
  of its threads, so that (with the jobs and the callback returning, as they are required to)
  the run always reaches the state in which no task is left.
\<close>

theorem plan_run_terminates:
  assumes "accepted_run g D s0"
  shows "\<not> (\<exists>run. run 0 = s0 \<and> (\<forall>i. run_step D (run i) (run (Suc i))))"
proof
  assume "\<exists>run. run 0 = s0 \<and> (\<forall>i. run_step D (run i) (run (Suc i)))"
  then obtain run where run: "run 0 = s0" "\<And>i. run_step D (run i) (run (Suc i))" by blast
  have "(run_step D)\<^sup>*\<^sup>* s0 (run i)" for i
    using run by (induction i) (auto intro: rtranclp.rtrancl_into_rtrancl)
  then have "run_inv D (run i)" for i using accepted_run_inv [OF assms] by blast
  then have "(run_measure D (run (Suc i)), run_measure D (run i)) \<in> less_than <*lex*> less_than" for i
    using run_step_measure [OF run(2)] by blast
  moreover have "wf (less_than <*lex*> less_than)" by blast
  ultimately show False
    using wf_no_infinite_down_chainE [of "less_than <*lex*> less_than" "\<lambda>i. run_measure D (run i)"] by blast
qed

theorem plan_run_terminates_witness:
  "accepted_run two_step_graph two_step_plan (new_run two_step_plan) \<and>
   \<not> (\<exists>run. run 0 = new_run two_step_plan \<and> (\<forall>i. run_step two_step_plan (run i) (run (Suc i))))"
  using plan_run_terminates [OF two_step_accepted] two_step_accepted by blast

end
