(* ===== verification/Key_Trie.thy ===== *)
theory Key_Trie
  imports Prelude "HOL-Library.List_Lexorder"
begin

text \<open>
  \<open>utils/containers/trie.hpp\<close>: the contiguous trie. The node vector is a list; a child is an
  index into it; \<open>kInvalidNode\<close>, the missing-node result, is \<open>None\<close>. \<open>kd\<close> and \<open>vd\<close>
  are the value-initialised \<open>KeyType{}\<close> and \<open>ValueType{}\<close> of the template's parameters.
\<close>

section \<open>Data and operations\<close>

record ('k, 'v) trie_node =
  key :: 'k
  children :: "nat list"
  sequence_end :: bool
  node_value :: 'v

type_synonym ('k, 'v) trie = "('k, 'v) trie_node list"

definition kRootNode :: nat where
  "kRootNode = 0"

definition kLinearSearchMaximumChildren :: nat where
  "kLinearSearchMaximumChildren = 8"

definition blank_node :: "'k \<Rightarrow> 'v \<Rightarrow> ('k, 'v) trie_node" where
  "blank_node k vd = \<lparr>key = k, children = [], sequence_end = False, node_value = vd\<rparr>"

definition trie_new :: "'k \<Rightarrow> 'v \<Rightarrow> ('k, 'v) trie" where
  "trie_new kd vd = [blank_node kd vd]"

definition trie_size :: "('k, 'v) trie \<Rightarrow> nat" where
  "trie_size t = length t"

definition find_child :: "('k::linorder, 'v) trie \<Rightarrow> nat \<Rightarrow> 'k \<Rightarrow> nat option" where
  "find_child t n k =
     (if length t \<le> n then None
      else let cs = children (t ! n) in
        if length cs \<le> kLinearSearchMaximumChildren
        then List.find (\<lambda>c. key (t ! c) = k) cs
        else let candidate = lower_bound (\<lambda>c. key (t ! c) < k) cs in
          if candidate \<noteq> length cs \<and> key (t ! (cs ! candidate)) = k
          then Some (cs ! candidate) else None)"

fun find_from :: "('k::linorder, 'v) trie \<Rightarrow> nat \<Rightarrow> 'k list \<Rightarrow> nat option" where
  "find_from t current [] = Some current"
| "find_from t current (k # ks) =
     (case find_child t current k of None \<Rightarrow> None | Some child \<Rightarrow> find_from t child ks)"

definition find_node :: "('k::linorder, 'v) trie \<Rightarrow> 'k list \<Rightarrow> nat option" where
  "find_node t ks = find_from t kRootNode ks"

definition trie_find :: "('k::linorder, 'v) trie \<Rightarrow> 'k list \<Rightarrow> 'v option" where
  "trie_find t ks =
     (case find_node t ks of None \<Rightarrow> None
      | Some n \<Rightarrow> if \<not> sequence_end (t ! n) then None else Some (node_value (t ! n)))"

text \<open>One missing edge: a node is appended and its index enters the parent's sorted children.\<close>

definition add_child :: "'v \<Rightarrow> ('k::linorder, 'v) trie \<Rightarrow> nat \<Rightarrow> 'k \<Rightarrow> ('k, 'v) trie" where
  "add_child vd t current k =
     (let child = length t;
          t1 = t @ [blank_node k vd];
          cs = children (t1 ! current);
          position = lower_bound (\<lambda>c. key (t1 ! c) < k) cs
      in t1[current := (t1 ! current)\<lparr>children := take position cs @ child # drop position cs\<rparr>])"

fun insert_path :: "'v \<Rightarrow> ('k::linorder, 'v) trie \<Rightarrow> nat \<Rightarrow> 'k list \<Rightarrow> ('k, 'v) trie \<times> nat" where
  "insert_path vd t current [] = (t, current)"
| "insert_path vd t current (k # ks) =
     (case find_child t current k of
        Some child \<Rightarrow> insert_path vd t child ks
      | None \<Rightarrow> insert_path vd (add_child vd t current k) (length t) ks)"

definition set_terminal :: "('k, 'v) trie \<Rightarrow> nat \<Rightarrow> bool \<Rightarrow> 'v \<Rightarrow> ('k, 'v) trie" where
  "set_terminal t n b v = t[n := (t ! n)\<lparr>sequence_end := b, node_value := v\<rparr>]"

definition trie_insert :: "'v \<Rightarrow> 'k::linorder list \<Rightarrow> 'v \<Rightarrow> ('k, 'v) trie \<Rightarrow> ('k, 'v) trie \<times> nat" where
  "trie_insert vd ks v t =
     (let (t', current) = insert_path vd t kRootNode ks in (set_terminal t' current True v, current))"

definition trie_erase :: "'v \<Rightarrow> 'k::linorder list \<Rightarrow> ('k, 'v) trie \<Rightarrow> ('k, 'v) trie \<times> bool" where
  "trie_erase vd ks t =
     (case find_node t ks of None \<Rightarrow> (t, False)
      | Some n \<Rightarrow> if \<not> sequence_end (t ! n) then (t, False) else (set_terminal t n False vd, True))"

definition trie_contains :: "('k::linorder, 'v) trie \<Rightarrow> 'k list \<Rightarrow> bool" where
  "trie_contains t ks = (case find_node t ks of None \<Rightarrow> False | Some n \<Rightarrow> sequence_end (t ! n))"

text \<open>
  \<open>collect_completions\<close> recurses over the child indexes; nothing in the type says that the
  recursion ends, so it spends fuel and answers \<open>None\<close> when the fuel is gone. The trie's
  size is enough (\<open>collect_enough\<close> below).
\<close>

fun collect_completions ::
    "nat \<Rightarrow> ('k, 'v) trie \<Rightarrow> nat \<Rightarrow> 'k list \<Rightarrow> 'k list list option"
  and collect_children ::
    "nat \<Rightarrow> ('k, 'v) trie \<Rightarrow> nat list \<Rightarrow> 'k list \<Rightarrow> 'k list list option" where
  "collect_completions 0 t n current = None"
| "collect_completions (Suc fuel) t n current =
     map_option (\<lambda>rest. (if sequence_end (t ! n) then [current] else []) @ rest)
       (collect_children fuel t (children (t ! n)) current)"
| "collect_children fuel t [] current = Some []"
| "collect_children fuel t (c # cs) current =
     (case collect_completions fuel t c (current @ [key (t ! c)]) of None \<Rightarrow> None
      | Some first \<Rightarrow> map_option (\<lambda>rest. first @ rest) (collect_children fuel t cs current))"

definition completions :: "('k::linorder, 'v) trie \<Rightarrow> 'k list \<Rightarrow> 'k list list option" where
  "completions t pre =
     (case find_node t pre of None \<Rightarrow> Some []
      | Some n \<Rightarrow> collect_completions (length t) t n pre)"

section \<open>Well-formed tries\<close>

definition child_keys :: "('k, 'v) trie \<Rightarrow> nat \<Rightarrow> 'k list" where
  "child_keys t n = map (\<lambda>c. key (t ! c)) (children (t ! n))"

definition trie_wf :: "('k::linorder, 'v) trie \<Rightarrow> bool" where
  "trie_wf t \<longleftrightarrow> t \<noteq> [] \<and>
     (\<forall>n < length t. sorted_wrt (<) (child_keys t n) \<and>
        (\<forall>c \<in> set (children (t ! n)). n < c \<and> c < length t)) \<and>
     (\<forall>m < length t. \<forall>n < length t. \<forall>c.
        c \<in> set (children (t ! m)) \<and> c \<in> set (children (t ! n)) \<longrightarrow> m = n)"

lemma trie_wfD [wf_simps]:
  assumes "trie_wf t"
  shows "t \<noteq> []" and "0 < length t"
    and "n < length t \<Longrightarrow> sorted_wrt (<) (child_keys t n)"
    and "n < length t \<Longrightarrow> c \<in> set (children (t ! n)) \<Longrightarrow> n < c"
    and "n < length t \<Longrightarrow> c \<in> set (children (t ! n)) \<Longrightarrow> c < length t"
    and "m < length t \<Longrightarrow> n < length t \<Longrightarrow> c \<in> set (children (t ! m)) \<Longrightarrow>
      c \<in> set (children (t ! n)) \<Longrightarrow> m = n"
  using assms unfolding trie_wf_def by (blast+)

lemma trie_wf_new: "trie_wf (trie_new kd vd)"
  by (simp add: trie_wf_def trie_new_def blank_node_def child_keys_def)

lemma strict_map_inj: "sorted_wrt (<) (map f cs) \<Longrightarrow> inj_on (f :: _ \<Rightarrow> 'k::linorder) (set cs)"
  by (simp add: strict_sorted_iff distinct_map)

lemma strict_map_mono:
  assumes "sorted_wrt (<) (map (f :: _ \<Rightarrow> 'k::linorder) cs)" "i \<le> j" "j < length cs"
  shows "f (cs ! i) \<le> f (cs ! j)"
  using sorted_nth_mono [of "map f cs" i j] assms by (simp add: strict_sorted_iff)

lemma children_key_inj:
  assumes "trie_wf t" "n < length t" "c \<in> set (children (t ! n))" "d \<in> set (children (t ! n))"
    and "key (t ! c) = key (t ! d)"
  shows "c = d"
  using strict_map_inj [OF trie_wfD(3) [OF assms(1,2), unfolded child_keys_def]] assms(3-5)
  by (auto dest: inj_onD)

lemma children_partitioned:
  assumes "sorted_wrt (<) (map f cs)"
  shows "partitioned (\<lambda>c. f c < (k::'k::linorder)) cs"
  unfolding partitioned_def using strict_map_mono [OF assms] by (meson order_le_less_trans)

text \<open>The linear scan and the binary search of \<open>find_child\<close> agree on sorted children.\<close>

lemma lower_bound_finds:
  assumes "sorted_wrt (<) (map f cs)"
  shows "(let p = lower_bound (\<lambda>c. f c < (k::'k::linorder)) cs in
      if p \<noteq> length cs \<and> f (cs ! p) = k then Some (cs ! p) else None) = List.find (\<lambda>c. f c = k) cs"
proof -
  let ?p = "lower_bound (\<lambda>c. f c < k) cs"
  note part = children_partitioned [OF assms, of k]
  note spec = lower_bound_spec [OF part]
  have le: "?p \<le> length cs" by (rule spec(1))
  have inj: "\<And>x y. x \<in> set cs \<Longrightarrow> y \<in> set cs \<Longrightarrow> f x = k \<Longrightarrow> f y = k \<Longrightarrow> x = y"
    using strict_map_inj [OF assms] by (metis inj_onD)
  show ?thesis
  proof (cases "?p \<noteq> length cs \<and> f (cs ! ?p) = k")
    case True
    then have "cs ! ?p \<in> set cs" using le by auto
    then have "List.find (\<lambda>c. f c = k) cs = Some (cs ! ?p)"
      using True inj by (subst find_Some_iff_distinct) auto
    with True show ?thesis by (simp add: Let_def)
  next
    case False
    have "f (cs ! i) \<noteq> k" if i: "i < length cs" for i
    proof
      assume eq: "f (cs ! i) = k"
      then have "?p \<le> i" using spec(2) [of i] by (meson leI order_less_irrefl)
      then have "?p < length cs" using i by simp
      then have "\<not> f (cs ! ?p) < k" using spec(3) by blast
      moreover have "f (cs ! ?p) \<le> f (cs ! i)"
        using \<open>?p \<le> i\<close> i by (rule strict_map_mono [OF assms])
      ultimately show False using False eq \<open>?p < length cs\<close> by auto
    qed
    then have "List.find (\<lambda>c. f c = k) cs = None"
      by (auto simp: find_None_iff in_set_conv_nth)
    then show ?thesis using False by (auto simp: Let_def)
  qed
qed

lemma find_child_linear:
  assumes "trie_wf t" and "n < length t"
  shows "find_child t n k = List.find (\<lambda>c. key (t ! c) = k) (children (t ! n))"
  using lower_bound_finds [of "\<lambda>c. key (t ! c)" "children (t ! n)" k] trie_wfD(3) [OF assms] assms(2)
  by (auto simp: find_child_def child_keys_def Let_def)

lemma find_child_iff:
  assumes "trie_wf t" and "n < length t"
  shows "find_child t n k = Some c \<longleftrightarrow> c \<in> set (children (t ! n)) \<and> key (t ! c) = k"
  using assms children_key_inj [OF assms]
  by (subst find_child_linear) (auto intro!: find_Some_iff_distinct)

lemma find_child_bounds:
  assumes "trie_wf t" "n < length t" "find_child t n k = Some c"
  shows "n < c" and "c < length t"
  using assms trie_wfD(4,5) [OF assms(1,2)] find_child_iff [OF assms(1,2)] by simp_all

lemma find_child_None_iff:
  assumes "trie_wf t" and "n < length t"
  shows "find_child t n k = None \<longleftrightarrow> (\<forall>c \<in> set (children (t ! n)). key (t ! c) \<noteq> k)"
  using find_child_iff [OF assms, of k] by (metis not_None_eq option.distinct(1))

lemma find_from_append:
  "find_from t n (ks @ ls) = (case find_from t n ks of None \<Rightarrow> None | Some m \<Rightarrow> find_from t m ls)"
  by (induction ks arbitrary: n) (auto split: option.splits)

lemma find_from_bounds:
  assumes wf: "trie_wf t" and n: "n < length t" and f: "find_from t n ks = Some m"
  shows "m < length t \<and> n \<le> m \<and> (ks \<noteq> [] \<longrightarrow> n < m)"
  using n f
proof (induction ks arbitrary: n)
  case (Cons k ks)
  then obtain c where c: "find_child t n k = Some c" "find_from t c ks = Some m"
    by (auto split: option.splits)
  then have "c \<in> set (children (t ! n))"
    by (simp add: find_child_iff [OF wf Cons.prems(1)])
  then have "n < c" "c < length t" using wf Cons.prems(1) by (auto dest: trie_wfD)
  then show ?case using Cons.IH [OF _ c(2)] by simp
qed simp

lemma find_node_bound: "trie_wf t \<Longrightarrow> find_node t ks = Some m \<Longrightarrow> m < length t"
  unfolding find_node_def kRootNode_def using find_from_bounds trie_wfD(2) by blast

text \<open>A node is reached by one sequence only.\<close>

lemma find_node_inj:
  assumes wf: "trie_wf t"
  shows "find_node t ks = Some n \<Longrightarrow> find_node t ls = Some n \<Longrightarrow> ks = ls"
proof (induction ks arbitrary: n ls rule: rev_induct)
  case Nil
  then show ?case using find_from_bounds [OF wf, of 0 ls 0] trie_wfD(2) [OF wf]
    by (auto simp: find_node_def kRootNode_def)
next
  case (snoc k ks)
  from snoc.prems(1) obtain m where m: "find_node t ks = Some m" "find_child t m k = Some n"
    by (auto simp: find_node_def find_from_append split: option.splits)
  note mb = find_node_bound [OF wf m(1)]
  have nin: "n \<in> set (children (t ! m))" "key (t ! n) = k"
    using m(2) by (simp_all add: find_child_iff [OF wf mb])
  show ?case
  proof (cases ls rule: rev_cases)
    case Nil
    with snoc.prems(2) have "n = 0" by (simp add: find_node_def kRootNode_def)
    with trie_wfD(4) [OF wf mb nin(1)] show ?thesis by simp
  next
    case (snoc ls' l)
    with snoc.prems(2) obtain m' where m': "find_node t ls' = Some m'" "find_child t m' l = Some n"
      by (auto simp: find_node_def find_from_append split: option.splits)
    note mb' = find_node_bound [OF wf m'(1)]
    have nin': "n \<in> set (children (t ! m'))" "key (t ! n) = l"
      using m'(2) by (simp_all add: find_child_iff [OF wf mb'])
    have "m = m'" by (rule trie_wfD(6) [OF wf mb mb' nin(1) nin'(1)])
    then have "ks = ls'" using snoc.IH [OF m(1)] m'(1) by simp
    with snoc nin nin' show ?thesis by simp
  qed
qed

section \<open>Insertion\<close>

lemma add_child_basic:
  assumes "n < length t"
  shows "length (add_child vd t n k) = Suc (length t)"
    and "i < length t \<Longrightarrow> key (add_child vd t n k ! i) = key (t ! i)"
    and "i < length t \<Longrightarrow> sequence_end (add_child vd t n k ! i) = sequence_end (t ! i)"
    and "i < length t \<Longrightarrow> node_value (add_child vd t n k ! i) = node_value (t ! i)"
    and "i < length t \<Longrightarrow> i \<noteq> n \<Longrightarrow> children (add_child vd t n k ! i) = children (t ! i)"
    and "add_child vd t n k ! length t = blank_node k vd"
  using assms by (auto simp: add_child_def Let_def nth_append nth_list_update)

lemma add_child_children:
  assumes wf: "trie_wf t" and n: "n < length t" and new: "find_child t n k = None"
  shows "set (children (add_child vd t n k ! n)) = insert (length t) (set (children (t ! n)))"
    and "sorted_wrt (<) (child_keys (add_child vd t n k) n)"
proof -
  let ?t1 = "t @ [blank_node k vd]" and ?cs = "children (t ! n)"
  let ?p = "lower_bound (\<lambda>c. key (?t1 ! c) < k) ?cs"
  have t1: "key (?t1 ! c) = key (t ! c)" if "c \<in> set ?cs" for c
    using trie_wfD(5) [OF wf n that] by (simp add: nth_append)
  have ch: "children (add_child vd t n k ! n) = take ?p ?cs @ length t # drop ?p ?cs"
    using n by (simp add: add_child_def Let_def nth_append)
  show "set (children (add_child vd t n k ! n)) = insert (length t) (set ?cs)"
    unfolding ch by (rule set_insert_at)
  have keys: "map (\<lambda>c. key (add_child vd t n k ! c)) xs = map (\<lambda>c. key (t ! c)) xs"
    if "set xs \<subseteq> set ?cs" for xs
    using that trie_wfD(5) [OF wf n] by (auto simp: add_child_basic(2) [OF n])
  have sorted: "sorted_wrt (<) (map (\<lambda>c. key (t ! c)) ?cs)"
    using trie_wfD(3) [OF wf n] by (simp add: child_keys_def)
  then have "sorted_wrt (<) (map (\<lambda>c. key (?t1 ! c)) ?cs)" using t1 by (simp cong: map_cong)
  note spec = lower_bound_spec [OF children_partitioned [OF this, of k]]
  have below: "key (t ! c) < k" if "c \<in> set (take ?p ?cs)" for c
  proof -
    from that obtain i where i: "i < ?p" "c = ?cs ! i" by (auto simp: in_set_conv_nth)
    then have "c \<in> set ?cs" using spec(1) by simp
    with spec(2) [OF i(1)] t1 i(2) show ?thesis by simp
  qed
  have above: "k < key (t ! c)" if c: "c \<in> set (drop ?p ?cs)" for c
  proof -
    from c obtain j where j: "j < length ?cs - ?p" "c = drop ?p ?cs ! j"
      unfolding in_set_conv_nth length_drop by blast
    define i where "i = ?p + j"
    have i: "i < length ?cs" "?p \<le> i" "c = ?cs ! i" using j spec(1) by (simp_all add: i_def)
    then have "\<not> key (t ! c) < k" using spec(3) [of i] t1 by auto
    moreover have "key (t ! c) \<noteq> k"
      using new i by (auto simp: find_child_None_iff [OF wf n])
    ultimately show ?thesis by simp
  qed
  have "sorted_wrt (<) (take ?p (map (\<lambda>c. key (t ! c)) ?cs) @ k # drop ?p (map (\<lambda>c. key (t ! c)) ?cs))"
    using below above spec(1) by (intro sorted_wrt_insert_at [OF sorted]) (auto simp: take_map drop_map)
  moreover have "child_keys (add_child vd t n k) n =
      take ?p (map (\<lambda>c. key (t ! c)) ?cs) @ k # drop ?p (map (\<lambda>c. key (t ! c)) ?cs)"
    unfolding child_keys_def ch map_append list.map
    by (simp add: keys set_take_subset set_drop_subset take_map drop_map
        add_child_basic(6) [OF n] blank_node_def)
  ultimately show "sorted_wrt (<) (child_keys (add_child vd t n k) n)" by simp
qed

lemma trie_wf_add_child [inv_intros]:
  assumes wf: "trie_wf t" and n: "n < length t" and new: "find_child t n k = None"
  shows "trie_wf (add_child vd t n k)"
proof -
  let ?t' = "add_child vd t n k"
  note basic = add_child_basic [OF n]
  have ch: "set (children (?t' ! i)) =
      (if i = n then insert (length t) (set (children (t ! i)))
       else if i = length t then {} else set (children (t ! i)))" if "i < length ?t'" for i
    using that add_child_children(1) [OF wf n new] n basic
    by (auto simp: less_Suc_eq blank_node_def)
  have fresh: "length t \<notin> set (children (t ! i))" if "i < length t" for i
    using trie_wfD(5) [OF wf that] by blast
  have srt: "sorted_wrt (<) (child_keys ?t' i)" if i: "i < length ?t'" for i
  proof (cases "i = n \<or> i = length t")
    case True
    then show ?thesis using add_child_children(2) [OF wf n new] basic
      by (auto simp: child_keys_def blank_node_def)
  next
    case False
    then have it: "i < length t" using i basic by simp
    then have "child_keys ?t' i = child_keys t i"
      using False trie_wfD(5) [OF wf it] by (auto simp: child_keys_def basic)
    then show ?thesis using trie_wfD(3) [OF wf it] by simp
  qed
  have bounds: "i < c \<and> c < length ?t'"
    if "i < length ?t'" "c \<in> set (children (?t' ! i))" for i c
  proof (cases "c = length t")
    case True
    then show ?thesis using that ch [OF that(1)] n basic(1) fresh
      by (auto split: if_splits simp: less_Suc_eq)
  next
    case False
    then have "i < length t" "c \<in> set (children (t ! i))"
      using that ch [OF that(1)] n basic(1) by (auto split: if_splits)
    then have "i < c" "c < length t" using trie_wfD(4,5) [OF wf] by blast+
    then show ?thesis using basic(1) by simp
  qed
  have uniq: "i = j" if "i < length ?t'" "j < length ?t'"
      "c \<in> set (children (?t' ! i))" "c \<in> set (children (?t' ! j))" for i j c
  proof (cases "c = length t")
    case True
    then show ?thesis using that ch [OF that(1)] ch [OF that(2)] n basic(1) fresh
      by (auto split: if_splits simp: less_Suc_eq)
  next
    case False
    then have "i < length t" "c \<in> set (children (t ! i))" "j < length t" "c \<in> set (children (t ! j))"
      using that ch [OF that(1)] ch [OF that(2)] n basic(1) by (auto split: if_splits)
    then show ?thesis using trie_wfD(6) [OF wf] by blast
  qed
  have "length ?t' \<noteq> 0" using basic(1) by simp
  then have "?t' \<noteq> []" by simp
  then show ?thesis unfolding trie_wf_def using srt bounds uniq by blast
qed

text \<open>Growth of a trie: old nodes keep their data and edges, new nodes end no sequence.\<close>

definition trie_grows :: "('k::linorder, 'v) trie \<Rightarrow> ('k, 'v) trie \<Rightarrow> bool" where
  "trie_grows t t' \<longleftrightarrow> length t \<le> length t' \<and>
     (\<forall>i < length t. sequence_end (t' ! i) = sequence_end (t ! i) \<and> node_value (t' ! i) = node_value (t ! i)) \<and>
     (\<forall>i. length t \<le> i \<and> i < length t' \<longrightarrow> \<not> sequence_end (t' ! i)) \<and>
     (\<forall>i < length t. \<forall>k c. find_child t i k = Some c \<longrightarrow> find_child t' i k = Some c) \<and>
     (\<forall>i < length t. \<forall>k c. c < length t \<and> find_child t' i k = Some c \<longrightarrow> find_child t i k = Some c)"

lemma trie_growsD:
  assumes "trie_grows t t'"
  shows "length t \<le> length t'"
    and "i < length t \<Longrightarrow> sequence_end (t' ! i) = sequence_end (t ! i)"
    and "i < length t \<Longrightarrow> node_value (t' ! i) = node_value (t ! i)"
    and "length t \<le> i \<Longrightarrow> i < length t' \<Longrightarrow> \<not> sequence_end (t' ! i)"
    and "i < length t \<Longrightarrow> find_child t i k = Some c \<Longrightarrow> find_child t' i k = Some c"
    and "i < length t \<Longrightarrow> c < length t \<Longrightarrow> find_child t' i k = Some c \<Longrightarrow> find_child t i k = Some c"
  using assms unfolding trie_grows_def by blast+

lemma trie_grows_refl: "trie_grows t t"
  by (auto simp: trie_grows_def)

lemma trie_grows_trans: "trie_grows t u \<Longrightarrow> trie_grows u w \<Longrightarrow> trie_grows t w"
  unfolding trie_grows_def by (smt (verit, ccfv_SIG) leI order_less_le_trans order_trans)

lemma trie_grows_add_child:
  assumes wf: "trie_wf t" and n: "n < length t" and new: "find_child t n k = None"
  shows "trie_grows t (add_child vd t n k)" and "find_child (add_child vd t n k) n k = Some (length t)"
proof -
  let ?t' = "add_child vd t n k"
  note basic = add_child_basic [OF n]
  note wf' = trie_wf_add_child [OF wf n new, of vd]
  note ch = add_child_children(1) [OF wf n new, of vd]
  have edge: "find_child ?t' i l = Some c \<longleftrightarrow>
      (i = n \<and> l = k \<and> c = length t) \<or> find_child t i l = Some c" if i: "i < length t" for i l c
  proof -
    have "find_child ?t' i l = Some c \<longleftrightarrow> c \<in> set (children (?t' ! i)) \<and> key (?t' ! c) = l"
      using i basic(1) by (intro find_child_iff [OF wf']) simp
    also have "\<dots> \<longleftrightarrow> (i = n \<and> l = k \<and> c = length t) \<or>
        c \<in> set (children (t ! i)) \<and> key (t ! c) = l"
      using ch basic trie_wfD(5) [OF wf i] by (cases "i = n") (auto simp: blank_node_def i)
    finally show ?thesis by (simp add: find_child_iff [OF wf i])
  qed
  show "trie_grows t ?t'"
    unfolding trie_grows_def using basic edge by (auto simp: less_Suc_eq blank_node_def)
  show "find_child ?t' n k = Some (length t)" using edge n by blast
qed

lemma find_from_grows:
  assumes wf: "trie_wf t" and gr: "trie_grows t t'" and n: "n < length t"
  shows "find_from t n ks = Some m \<Longrightarrow> find_from t' n ks = Some m"
  using n
proof (induction ks arbitrary: n)
  case (Cons k ks)
  then obtain c where c: "find_child t n k = Some c" "find_from t c ks = Some m"
    by (auto split: option.splits)
  then have "find_from t' c ks = Some m"
    using Cons.IH [OF c(2) find_child_bounds(2) [OF wf Cons.prems(2) c(1)]] by simp
  moreover have "find_child t' n k = Some c" by (rule trie_growsD(5) [OF gr Cons.prems(2) c(1)])
  ultimately show ?case by simp
qed simp

lemma find_from_shrinks:
  assumes wf': "trie_wf t'" and gr: "trie_grows t t'" and m: "m < length t" and n: "n < length t'"
  shows "find_from t' n ks = Some m \<Longrightarrow> find_from t n ks = Some m"
  using n
proof (induction ks arbitrary: n)
  case (Cons k ks)
  then obtain c where c: "find_child t' n k = Some c" "find_from t' c ks = Some m"
    by (auto split: option.splits)
  have cb: "n < c" "c < length t'"
    by (rule find_child_bounds [OF wf' Cons.prems(2) c(1)])+
  then have "c \<le> m" using find_from_bounds [OF wf' cb(2) c(2)] by simp
  then have "n < length t" "c < length t" using cb m by simp_all
  then have "find_child t n k = Some c" using c(1) by (rule trie_growsD(6) [OF gr])
  moreover have "find_from t c ks = Some m" using Cons.IH [OF c(2)] cb by blast
  ultimately show ?case by simp
qed simp

lemma insert_path_spec:
  assumes "trie_wf t" and "n < length t" and "insert_path vd t n ks = (t', m)"
  shows "trie_wf t' \<and> trie_grows t t' \<and> m < length t' \<and> find_from t' n ks = Some m"
  using assms
proof (induction ks arbitrary: t n)
  case Nil
  then show ?case by (auto simp: trie_grows_refl)
next
  case (Cons k ks)
  show ?case
  proof (cases "find_child t n k")
    case (Some c)
    then have c: "c < length t" by (rule find_child_bounds(2) [OF Cons.prems(1,2)])
    have "insert_path vd t c ks = (t', m)" using Cons.prems(3) Some by simp
    from Cons.IH [OF Cons.prems(1) c this]
    have IH: "trie_wf t'" "trie_grows t t'" "m < length t'" "find_from t' c ks = Some m" by simp_all
    then have "find_child t' n k = Some c" using trie_growsD(5) [OF _ Cons.prems(2) Some] by blast
    with IH show ?thesis by simp
  next
    case None
    let ?u = "add_child vd t n k"
    note gr = trie_grows_add_child [OF Cons.prems(1,2) None, of vd]
    note wf = trie_wf_add_child [OF Cons.prems(1,2) None, of vd]
    have len: "length t < length ?u" using add_child_basic(1) [OF Cons.prems(2)] by simp
    have "insert_path vd ?u (length t) ks = (t', m)" using Cons.prems(3) None by simp
    from Cons.IH [OF wf len this]
    have IH: "trie_wf t'" "trie_grows ?u t'" "m < length t'" "find_from t' (length t) ks = Some m"
      by simp_all
    have "find_child t' n k = Some (length t)"
      using trie_growsD(5) [OF IH(2) _ gr(2)] Cons.prems(2) len by simp
    with IH gr(1) show ?thesis by (auto intro: trie_grows_trans)
  qed
qed

lemma nth_list_update': "xs[n := x] ! i = (if i = n \<and> n < length xs then x else xs ! i)"
  by (cases "n < length xs") (auto simp: list_update_beyond)

lemma set_terminal_frame:
  shows "length (set_terminal t n b v) = length t"
    and "children (set_terminal t n b v ! i) = children (t ! i)"
    and "key (set_terminal t n b v ! i) = key (t ! i)"
  by (simp_all add: set_terminal_def nth_list_update')

lemma find_child_set_terminal: "find_child (set_terminal t n b v) i k = find_child t i k"
  by (simp add: find_child_def set_terminal_frame Let_def)

lemma find_from_set_terminal: "find_from (set_terminal t n b v) i ks = find_from t i ks"
  by (induction ks arbitrary: i) (auto simp: find_child_set_terminal split: option.splits)

lemma trie_wf_set_terminal [inv_intros]: "trie_wf t \<Longrightarrow> trie_wf (set_terminal t n b v)"
  unfolding trie_wf_def child_keys_def set_terminal_frame
  by (metis length_0_conv set_terminal_frame(1))

lemma trie_find_set_terminal:
  assumes wf: "trie_wf t" and n: "find_node t ks = Some n"
  shows "trie_find (set_terminal t n b v) =
     (trie_find t)(ks := (if b then Some v else None))"
proof
  fix ls
  have same: "find_node (set_terminal t n b v) ls = find_node t ls"
    by (simp add: find_node_def find_from_set_terminal)
  show "trie_find (set_terminal t n b v) ls = ((trie_find t)(ks := (if b then Some v else None))) ls"
  proof (cases "ls = ks")
    case True
    then show ?thesis using n same find_node_bound [OF wf n]
      by (simp add: trie_find_def set_terminal_def)
  next
    case False
    then have "find_node t ls \<noteq> Some n" using find_node_inj [OF wf n] by blast
    then show ?thesis using False same
      by (auto simp: trie_find_def set_terminal_def split: option.splits)
  qed
qed

lemma trie_find_grows:
  assumes wf: "trie_wf t" and wf': "trie_wf t'" and gr: "trie_grows t t'"
  shows "trie_find t' = trie_find t"
proof
  fix ls
  have root: "0 < length t" "0 < length t'" using wf wf' trie_wfD(2) by blast+
  show "trie_find t' ls = trie_find t ls"
  proof (cases "find_node t ls")
    case (Some n)
    then have "find_node t' ls = Some n"
      using find_from_grows [OF wf gr] root by (simp add: find_node_def kRootNode_def)
    with Some trie_growsD(2,3) [OF gr find_node_bound [OF wf Some]] show ?thesis
      by (simp add: trie_find_def)
  next
    case None
    have "\<not> sequence_end (t' ! n)" if n: "find_node t' ls = Some n" for n
    proof -
      have "\<not> n < length t"
        using find_from_shrinks [OF wf' gr _ root(2)] n None
        by (auto simp: find_node_def kRootNode_def)
      then show ?thesis using trie_growsD(4) [OF gr _ find_node_bound [OF wf' n]] by simp
    qed
    with None show ?thesis by (auto simp: trie_find_def split: option.splits)
  qed
qed

lemma trie_insert_spec:
  assumes wf: "trie_wf t" and ins: "trie_insert vd ks v t = (t', n)"
  shows "trie_wf t'" and "trie_find t' = (trie_find t)(ks \<mapsto> v)" and "find_node t' ks = Some n"
    and "find_node t ls = Some m \<Longrightarrow> find_node t' ls = Some m"
proof -
  obtain u where u: "insert_path vd t kRootNode ks = (u, n)" "t' = set_terminal u n True v"
    using ins by (auto simp: trie_insert_def split: prod.splits)
  note root = trie_wfD(2) [OF wf]
  have sp: "trie_wf u" "trie_grows t u" "n < length u" "find_node u ks = Some n"
    using insert_path_spec [OF wf _ u(1)] root by (auto simp: kRootNode_def find_node_def)
  show "trie_wf t'" using sp(1) u(2) by (simp add: trie_wf_set_terminal)
  show "trie_find t' = (trie_find t)(ks \<mapsto> v)"
    using trie_find_set_terminal [OF sp(1,4), of True v] trie_find_grows [OF wf sp(1,2)] u(2) by simp
  show "find_node t' ks = Some n"
    using sp(4) u(2) by (simp add: find_node_def find_from_set_terminal)
  show "find_node t' ls = Some m" if "find_node t ls = Some m"
    using that find_from_grows [OF wf sp(2) root] u(2)
    by (simp add: find_node_def find_from_set_terminal kRootNode_def)
qed

text \<open>Inserting below an existing node, where no node is yet: one node is appended, the rest stays.\<close>

lemma insert_path_leaf:
  assumes "find_from t n p = Some m" "find_child t m c = None"
  shows "insert_path vd t n (p @ [c]) = (add_child vd t m c, length t)"
  using assms by (induction p arbitrary: n) (auto split: option.splits)

lemma trie_insert_leaf:
  assumes wf: "trie_wf t" and m: "find_node t p = Some m" and new: "find_node t (p @ [c]) = None"
    and ins: "trie_insert vd (p @ [c]) v t = (t', n)"
  shows "n = length t" and "length t' = Suc (length t)" and "trie_wf t'"
    and "find_node t' ls = (if ls = p @ [c] then Some (length t) else find_node t ls)"
    and "i < length t \<Longrightarrow> sequence_end (t' ! i) = sequence_end (t ! i) \<and> node_value (t' ! i) = node_value (t ! i) \<and>
      key (t' ! i) = key (t ! i)"
    and "i < length t \<Longrightarrow> i \<noteq> m \<Longrightarrow> children (t' ! i) = children (t ! i)"
    and "t' ! length t = \<lparr>key = c, children = [], sequence_end = True, node_value = v\<rparr>"
proof -
  have mb: "m < length t" by (rule find_node_bound [OF wf m])
  have nc: "find_child t m c = None"
    using m new by (auto simp: find_node_def find_from_append split: option.splits)
  have u: "insert_path vd t kRootNode (p @ [c]) = (add_child vd t m c, length t)"
    using m nc by (intro insert_path_leaf) (simp_all add: find_node_def)
  then have n: "n = length t" and t': "t' = set_terminal (add_child vd t m c) (length t) True v"
    using ins by (auto simp: trie_insert_def)
  note basic = add_child_basic [OF mb, where vd = vd and k = c]
  show "n = length t" by (rule n)
  show "length t' = Suc (length t)" by (simp add: t' set_terminal_frame basic)
  note sp = trie_insert_spec [OF wf ins]
  show wf': "trie_wf t'" by (rule sp(1))
  show "i < length t \<Longrightarrow> sequence_end (t' ! i) = sequence_end (t ! i) \<and> node_value (t' ! i) = node_value (t ! i) \<and>
      key (t' ! i) = key (t ! i)"
    using basic by (simp add: t' set_terminal_def nth_list_update')
  show "i < length t \<Longrightarrow> i \<noteq> m \<Longrightarrow> children (t' ! i) = children (t ! i)"
    using basic by (simp add: t' set_terminal_frame)
  show "t' ! length t = \<lparr>key = c, children = [], sequence_end = True, node_value = v\<rparr>"
    using basic by (simp add: t' set_terminal_def blank_node_def)
  show "find_node t' ls = (if ls = p @ [c] then Some (length t) else find_node t ls)"
  proof (cases "ls = p @ [c]")
    case True
    then show ?thesis using sp(3) n by simp
  next
    case False
    have "find_node t ls = Some i" if i: "find_node t' ls = Some i" for i
    proof -
      have "i \<noteq> length t" using find_node_inj [OF wf' i, of "p @ [c]"] sp(3) n False by auto
      then have "i < length t" using find_node_bound [OF wf' i] basic(1) by (simp add: t' set_terminal_frame)
      moreover have "find_from (add_child vd t m c) kRootNode ls = Some i"
        using i by (simp add: t' find_node_def find_from_set_terminal)
      ultimately show ?thesis
        using find_from_shrinks [OF trie_wf_add_child [OF wf mb nc, of vd] trie_grows_add_child(1) [OF wf mb nc, of vd],
            of i kRootNode ls] basic(1)
        by (simp add: find_node_def kRootNode_def)
    qed
    then show ?thesis using False sp(4) by (cases "find_node t' ls"; cases "find_node t ls") auto
  qed
qed

lemma trie_erase_spec:
  assumes wf: "trie_wf t" and er: "trie_erase vd ks t = (t', b)"
  shows "trie_wf t'" and "trie_find t' = (trie_find t)(ks := None)"
    and "b \<longleftrightarrow> trie_find t ks \<noteq> None" and "find_node t' ls = find_node t ls"
proof -
  consider "trie_find t ks = None" "t' = t" "\<not> b"
    | n where "find_node t ks = Some n" "sequence_end (t ! n)" "t' = set_terminal t n False vd" "b"
    using er by (auto simp: trie_erase_def trie_find_def split: option.splits if_splits)
  then have "trie_wf t' \<and> trie_find t' = (trie_find t)(ks := None) \<and>
      (b \<longleftrightarrow> trie_find t ks \<noteq> None) \<and> find_node t' ls = find_node t ls"
  proof cases
    case 1
    then show ?thesis using wf by (auto simp: fun_upd_idem)
  next
    case (2 n)
    then show ?thesis using wf trie_find_set_terminal [OF wf 2(1), of False vd]
      by (auto simp: trie_wf_set_terminal find_node_def find_from_set_terminal trie_find_def)
  qed
  then show "trie_wf t'" "trie_find t' = (trie_find t)(ks := None)"
    "b \<longleftrightarrow> trie_find t ks \<noteq> None" "find_node t' ls = find_node t ls" by simp_all
qed

section \<open>Completions\<close>

text \<open>The sequences that end below a node, relative to it.\<close>

definition stored_below :: "('k::linorder, 'v) trie \<Rightarrow> nat \<Rightarrow> 'k list set" where
  "stored_below t n = {ls. \<exists>m. find_from t n ls = Some m \<and> sequence_end (t ! m)}"

lemma append_less_append: "(zs @ xs < zs @ ys) = (xs < (ys :: 'k::linorder list))"
  by (induction zs) auto

lemma find_from_Cons_iff:
  assumes "trie_wf t" "n < length t"
  shows "find_from t n (k # ls) = Some m \<longleftrightarrow>
    (\<exists>c \<in> set (children (t ! n)). key (t ! c) = k \<and> find_from t c ls = Some m)"
proof (cases "find_child t n k")
  case None
  then have "\<forall>c \<in> set (children (t ! n)). key (t ! c) \<noteq> k"
    by (simp add: find_child_None_iff [OF assms])
  with None show ?thesis by auto
next
  case (Some d)
  then have "c \<in> set (children (t ! n)) \<and> key (t ! c) = k \<longleftrightarrow> c = d" for c
    by (metis find_child_iff [OF assms] option.inject)
  moreover have "find_from t n (k # ls) = find_from t d ls" using Some by simp
  ultimately show ?thesis by metis
qed

lemma stored_below_unfold:
  assumes "trie_wf t" "n < length t"
  shows "stored_below t n = (if sequence_end (t ! n) then {[]} else {}) \<union>
    (\<Union>c \<in> set (children (t ! n)). (\<lambda>ls. key (t ! c) # ls) ` stored_below t c)"
proof (rule set_eqI)
  fix ls
  show "ls \<in> stored_below t n \<longleftrightarrow> ls \<in> (if sequence_end (t ! n) then {[]} else {}) \<union>
    (\<Union>c \<in> set (children (t ! n)). (\<lambda>ls. key (t ! c) # ls) ` stored_below t c)"
  proof (cases ls)
    case Nil
    then show ?thesis by (auto simp: stored_below_def)
  next
    case (Cons k ls')
    have "ls \<in> stored_below t n \<longleftrightarrow>
        (\<exists>c \<in> set (children (t ! n)). key (t ! c) = k \<and> ls' \<in> stored_below t c)"
      unfolding stored_below_def Cons mem_Collect_eq find_from_Cons_iff [OF assms] by blast
    then show ?thesis using Cons by auto
  qed
qed

text \<open>
  What one recursive call collects: with fuel for the nodes above it, the sequences of its
  subtree, each once, in lexicographic order.
\<close>

definition collected :: "'k::linorder list list option \<Rightarrow> 'k list \<Rightarrow> 'k list set \<Rightarrow> bool" where
  "collected r current S \<longleftrightarrow>
     (\<exists>xs. r = Some xs \<and> set xs = (\<lambda>ls. current @ ls) ` S \<and> sorted_wrt (<) xs)"

lemma collect_children_spec:
  assumes sub: "\<And>c current. c \<in> set cs \<Longrightarrow>
      collected (collect_completions fuel t c current) current (stored_below t c)"
    and srt: "sorted_wrt (<) (map (\<lambda>c. key (t ! c)) cs)"
  shows "collected (collect_children fuel t cs current) current
    (\<Union>c \<in> set cs. (\<lambda>ls. key (t ! c) # ls) ` stored_below t c)"
  using assms
proof (induction cs)
  case Nil
  then show ?case by (simp add: collected_def)
next
  case (Cons c cs)
  let ?k = "key (t ! c)"
  have "collected (collect_completions fuel t c (current @ [?k])) (current @ [?k]) (stored_below t c)"
    by (rule Cons.prems(1)) simp
  then obtain xs where xs: "collect_completions fuel t c (current @ [?k]) = Some xs"
    "set xs = (\<lambda>ls. (current @ [?k]) @ ls) ` stored_below t c" "sorted_wrt (<) xs"
    by (auto simp: collected_def)
  have "collected (collect_children fuel t cs current) current
      (\<Union>c \<in> set cs. (\<lambda>ls. key (t ! c) # ls) ` stored_below t c)"
    using Cons.prems by (intro Cons.IH) auto
  then obtain ys where ys: "collect_children fuel t cs current = Some ys"
    "set ys = (\<lambda>ls. current @ ls) ` (\<Union>c \<in> set cs. (\<lambda>ls. key (t ! c) # ls) ` stored_below t c)"
    "sorted_wrt (<) ys"
    by (auto simp: collected_def)
  have "x < y" if "x \<in> set xs" "y \<in> set ys" for x y
  proof -
    have "x \<in> (\<lambda>ls. (current @ [?k]) @ ls) ` stored_below t c" using that(1) xs(2) by blast
    then obtain l where "x = current @ ?k # l" by auto
    moreover have "y \<in> (\<lambda>ls. current @ ls) `
        (\<Union>c \<in> set cs. (\<lambda>ls. key (t ! c) # ls) ` stored_below t c)" using that(2) ys(2) by blast
    then obtain d l' where "d \<in> set cs" "y = current @ key (t ! d) # l'" by auto
    moreover have "?k < key (t ! d)" using Cons.prems(2) \<open>d \<in> set cs\<close> by simp
    ultimately show ?thesis by (simp add: append_less_append)
  qed
  then have "sorted_wrt (<) (xs @ ys)" using xs(3) ys(3) by (simp add: sorted_wrt_append)
  moreover have "set (xs @ ys) = (\<lambda>ls. current @ ls) `
      (\<Union>c \<in> set (c # cs). (\<lambda>ls. key (t ! c) # ls) ` stored_below t c)"
    using xs(2) ys(2) by (auto simp: image_Un image_image)
  ultimately show ?case using xs(1) ys(1) unfolding collected_def by simp
qed

lemma collect_enough:
  assumes wf: "trie_wf t"
  shows "n < length t \<Longrightarrow> length t - n \<le> fuel \<Longrightarrow>
    collected (collect_completions fuel t n current) current (stored_below t n)"
proof (induction fuel arbitrary: n current)
  case 0
  then show ?case by simp
next
  case (Suc fuel)
  have "collected (collect_children fuel t (children (t ! n)) current) current
      (\<Union>c \<in> set (children (t ! n)). (\<lambda>ls. key (t ! c) # ls) ` stored_below t c)"
  proof (rule collect_children_spec)
    show "sorted_wrt (<) (map (\<lambda>c. key (t ! c)) (children (t ! n)))"
      using trie_wfD(3) [OF wf Suc.prems(1)] by (simp add: child_keys_def)
    show "collected (collect_completions fuel t c current) current (stored_below t c)"
      if "c \<in> set (children (t ! n))" for c current
      using trie_wfD(4,5) [OF wf Suc.prems(1) that] Suc.prems by (intro Suc.IH) auto
  qed
  then obtain xs where xs: "collect_children fuel t (children (t ! n)) current = Some xs"
    "set xs = (\<lambda>ls. current @ ls) `
      (\<Union>c \<in> set (children (t ! n)). (\<lambda>ls. key (t ! c) # ls) ` stored_below t c)"
    "sorted_wrt (<) xs"
    by (auto simp: collected_def)
  have "current < x" if "x \<in> set xs" for x
    using that xs(2) append_less_append [of current "[]"] by auto
  then show ?case
    using xs unfolding collected_def stored_below_unfold [OF wf Suc.prems(1)]
    by (auto simp: image_Un)
qed

lemma stored_below_root: "ls \<in> stored_below t kRootNode \<longleftrightarrow> trie_find t ls \<noteq> None"
  by (auto simp: stored_below_def trie_find_def find_node_def split: option.splits)

lemma trie_contains_iff: "trie_contains t ks \<longleftrightarrow> trie_find t ks \<noteq> None"
  by (auto simp: trie_contains_def trie_find_def split: option.splits)

lemma completions_collects:
  assumes wf: "trie_wf t"
  shows "\<exists>xs. completions t pre = Some xs \<and> sorted_wrt (<) xs \<and>
    set xs = {ls. prefix pre ls \<and> trie_find t ls \<noteq> None}"
proof (cases "find_node t pre")
  case None
  then have "find_node t (pre @ ls) = None" for ls
    by (simp add: find_node_def find_from_append)
  then have "{ls. prefix pre ls \<and> trie_find t ls \<noteq> None} = {}"
    by (auto simp: prefix_def trie_find_def)
  with None show ?thesis by (simp add: completions_def)
next
  case (Some n)
  have "collected (collect_completions (length t) t n pre) pre (stored_below t n)"
    using find_node_bound [OF wf Some] by (intro collect_enough [OF wf]) simp_all
  moreover have "(\<lambda>ls. pre @ ls) ` stored_below t n = {ls. prefix pre ls \<and> trie_find t ls \<noteq> None}"
  proof -
    have "find_node t (pre @ ls) = find_from t n ls" for ls
      using Some by (simp add: find_node_def find_from_append)
    then have "ls \<in> stored_below t n \<longleftrightarrow> trie_find t (pre @ ls) \<noteq> None" for ls
      by (auto simp: stored_below_def trie_find_def split: option.splits)
    then show ?thesis by (auto simp: prefix_def)
  qed
  ultimately show ?thesis using Some by (auto simp: completions_def collected_def)
qed

section \<open>The interface the clients rely on\<close>

text \<open>
  Finite maps from key sequences, as the command registry and the reply topology use them:
  lookup, insertion with a stable index, erasure, and ordered prefix enumeration.
\<close>

locale sequence_map =
  fixes fresh :: 't
    and lookup :: "'t \<Rightarrow> 'k::linorder list \<Rightarrow> 'v option"
    and insert :: "'k list \<Rightarrow> 'v \<Rightarrow> 't \<Rightarrow> 't \<times> 'i"
    and erase :: "'k list \<Rightarrow> 't \<Rightarrow> 't \<times> bool"
    and complete :: "'t \<Rightarrow> 'k list \<Rightarrow> 'k list list option"
    and invar :: "'t \<Rightarrow> bool"
  assumes invar_fresh: "invar fresh"
    and lookup_fresh: "lookup fresh = Map.empty"
    and invar_insert: "invar t \<Longrightarrow> invar (fst (insert ks v t))"
    and lookup_insert: "invar t \<Longrightarrow> lookup (fst (insert ks v t)) = (lookup t)(ks \<mapsto> v)"
    and invar_erase: "invar t \<Longrightarrow> invar (fst (erase ks t))"
    and lookup_erase: "invar t \<Longrightarrow> lookup (fst (erase ks t)) = (lookup t)(ks := None)"
    and complete_spec: "invar t \<Longrightarrow> \<exists>xs. complete t pre = Some xs \<and> sorted_wrt (<) xs \<and>
      set xs = {ls. prefix pre ls \<and> lookup t ls \<noteq> None}"
begin

text \<open>Inserting one value under many sequences, in the given order.\<close>

lemma invar_insert_all:
  "invar t \<Longrightarrow> invar (fold (\<lambda>ks t. fst (insert ks v t)) kss t)"
  by (induction kss arbitrary: t) (auto intro: invar_insert)

lemma lookup_insert_all:
  "invar t \<Longrightarrow> lookup (fold (\<lambda>ks t. fst (insert ks v t)) kss t) ls =
    (if ls \<in> set kss then Some v else lookup t ls)"
  by (induction kss arbitrary: t) (auto simp: invar_insert lookup_insert)

lemma complete_insert_all:
  assumes "invar t"
  shows "\<exists>xs. complete (fold (\<lambda>ks t. fst (insert ks v t)) kss t) pre = Some xs \<and>
    sorted_wrt (<) xs \<and>
    set xs = {ls. prefix pre ls \<and> (ls \<in> set kss \<or> lookup t ls \<noteq> None)}"
  using complete_spec [OF invar_insert_all [OF assms, of v kss], of pre]
  by (auto simp: lookup_insert_all [OF assms])

end

lemma trie_find_new: "trie_find (trie_new kd vd) = Map.empty"
proof
  fix ks
  show "trie_find (trie_new kd vd) ks = Map.empty ks"
    by (cases ks)
      (auto simp: trie_find_def find_node_def trie_new_def blank_node_def find_child_def
        kLinearSearchMaximumChildren_def kRootNode_def)
qed

interpretation trie: sequence_map
  "trie_new kd vd" trie_find "trie_insert vd" "trie_erase vd" completions trie_wf
  for kd :: "'k::linorder" and vd :: 'v
proof unfold_locales
  show "trie_wf (trie_new kd vd)" by (rule trie_wf_new)
  show "trie_find (trie_new kd vd) = Map.empty" by (rule trie_find_new)
next
  fix t :: "('k, 'v) trie" and ks v pre
  assume wf: "trie_wf t"
  show "trie_wf (fst (trie_insert vd ks v t))"
    using trie_insert_spec(1) [OF wf] by (metis prod.collapse)
  show "trie_find (fst (trie_insert vd ks v t)) = (trie_find t)(ks \<mapsto> v)"
    using trie_insert_spec(2) [OF wf] by (metis prod.collapse)
  show "trie_wf (fst (trie_erase vd ks t))"
    using trie_erase_spec(1) [OF wf] by (metis prod.collapse)
  show "trie_find (fst (trie_erase vd ks t)) = (trie_find t)(ks := None)"
    using trie_erase_spec(2) [OF wf] by (metis prod.collapse)
  show "\<exists>xs. completions t pre = Some xs \<and> sorted_wrt (<) xs \<and>
      set xs = {ls. prefix pre ls \<and> trie_find t ls \<noteq> None}"
    by (rule completions_collects [OF wf])
qed

section \<open>Properties\<close>

text \<open>A history of the trie's modifying operations, on the code's representation and on maps.\<close>

datatype ('k, 'v) trie_op = Insert_Op "'k list" 'v | Erase_Op "'k list"

fun trie_apply :: "'v \<Rightarrow> ('k::linorder, 'v) trie \<Rightarrow> ('k, 'v) trie_op \<Rightarrow> ('k, 'v) trie" where
  "trie_apply vd t (Insert_Op ks v) = fst (trie_insert vd ks v t)"
| "trie_apply vd t (Erase_Op ks) = fst (trie_erase vd ks t)"

fun map_apply :: "('k list \<rightharpoonup> 'v) \<Rightarrow> ('k, 'v) trie_op \<Rightarrow> ('k list \<rightharpoonup> 'v)" where
  "map_apply m (Insert_Op ks v) = m(ks \<mapsto> v)"
| "map_apply m (Erase_Op ks) = m(ks := None)"

lemma trie_history:
  "trie_wf t \<Longrightarrow> trie_wf (foldl (trie_apply vd) t ops) \<and>
    trie_find (foldl (trie_apply vd) t ops) = foldl map_apply (trie_find t) ops"
proof (induction ops arbitrary: t)
  case (Cons a ops)
  have "trie_wf (trie_apply vd t a)" "trie_find (trie_apply vd t a) = map_apply (trie_find t) a"
    using Cons.prems by (cases a; simp add: trie.invar_insert trie.invar_erase trie.lookup_insert trie.lookup_erase)+
  then show ?case using Cons.IH [of "trie_apply vd t a"] by simp
qed simp

text \<open>
  C5: refinement. After any history of insertions and erasures on a fresh trie, \<open>find\<close>
  returns for every key sequence what a map from sequences to values holds after the same
  history, and \<open>contains\<close> tells whether the map is defined there.
\<close>

theorem trie_refines_map:
  "trie_find (foldl (trie_apply vd) (trie_new kd vd) ops) = foldl map_apply Map.empty ops \<and>
   (\<forall>ks. trie_contains (foldl (trie_apply vd) (trie_new kd vd) ops) ks \<longleftrightarrow> foldl map_apply Map.empty ops ks \<noteq> None)"
  using trie_history [where t = "trie_new kd vd" and vd = vd and ops = ops] trie_wf_new [of kd vd] by (simp add: trie_find_new trie_contains_iff)

text \<open>
  C6: \<open>completions\<close> of a prefix terminates and returns, after any history, exactly the stored
  sequences that extend the prefix, in strictly increasing lexicographic order (hence without
  repetition), whatever the order of insertion.
\<close>

theorem trie_completions_exact:
  "\<exists>xs. completions (foldl (trie_apply vd) (trie_new kd vd) ops) pre = Some xs \<and> sorted_wrt (<) xs \<and>
     set xs = {ls. prefix pre ls \<and> foldl map_apply Map.empty ops ls \<noteq> None}"
  using trie.complete_spec [of "foldl (trie_apply vd) (trie_new kd vd) ops" pre]
    trie_history [where t = "trie_new kd vd" and vd = vd and ops = ops] trie_wf_new [of kd vd]
  by (simp add: trie_find_new)

text \<open>
  Node indexes are stable. An insertion returns the index at which its sequence is found,
  and neither it nor an erasure moves any node: a sequence that led to an index before leads
  to the same index after, and two sequences never lead to the same node.
\<close>

lemma trie_indexes_stable:
  assumes "trie_wf t"
  shows "find_node (fst (trie_insert vd ks v t)) ks = Some (snd (trie_insert vd ks v t)) \<and>
    (\<forall>ls m. find_node t ls = Some m \<longrightarrow> find_node (fst (trie_insert vd ks v t)) ls = Some m) \<and>
    (\<forall>ls. find_node (fst (trie_erase vd ks t)) ls = find_node t ls) \<and>
    (\<forall>ls ls' m. find_node t ls = Some m \<and> find_node t ls' = Some m \<longrightarrow> ls = ls')"
  using trie_insert_spec(3,4) [OF assms, of vd ks v] trie_erase_spec(4) [OF assms, of vd ks]
    find_node_inj [OF assms]
  by (metis prod.collapse)

text \<open>
  The two searches of \<open>find_child\<close> agree: on a well-formed trie the binary search used
  above eight children and the linear scan used below return the same child for every key.
\<close>

lemma find_child_searches_agree:
  assumes "trie_wf t" "n < length t"
  shows "find_child t n k = List.find (\<lambda>c. key (t ! c) = k) (children (t ! n)) \<and>
    (find_child t n k = Some c \<longleftrightarrow> c \<in> set (children (t ! n)) \<and> key (t ! c) = k)"
  using find_child_linear [OF assms] find_child_iff [OF assms] by simp

end
