(* ===== verification/Turn_Address.thy ===== *)
theory Turn_Address
  imports Prelude "HOL-Library.List_Lexorder"
begin

text \<open>
  \<open>canvas/turn/address.hpp\<close> and \<open>address.cpp\<close>: hierarchical human addresses of turns, such as
  \<open>2.b.3\<close>, their parser and printer, and the presentation order. Ordinals are unsigned 64-bit
  numbers; the model keeps them as natural numbers with the overflow tests of the source.
\<close>

section \<open>Components and their order\<close>

datatype component_kind = NUMERIC | ALPHABETIC

datatype address_component = AddressComponent (component_kind: component_kind) (ordinal: nat)

definition component_less :: "address_component \<Rightarrow> address_component \<Rightarrow> bool" where
  "component_less c other =
     (if component_kind c \<noteq> component_kind other then component_kind c = NUMERIC
      else ordinal c < ordinal other)"

instantiation address_component :: linorder
begin

definition less_address_component where
  "less_address_component = component_less"

definition less_eq_address_component where
  "less_eq_address_component c d = (component_less c d \<or> c = (d :: address_component))"

instance
proof
  fix x y z :: address_component
  show "(x < y) = (x \<le> y \<and> \<not> y \<le> x)"
    unfolding less_address_component_def less_eq_address_component_def component_less_def
    by (cases "component_kind x"; cases "component_kind y"; auto)
  show "x \<le> x" by (simp add: less_eq_address_component_def)
  show "x \<le> z" if "x \<le> y" "y \<le> z"
    using that unfolding less_eq_address_component_def component_less_def by (auto split: if_splits)
  show "x = y" if "x \<le> y" "y \<le> x"
    using that unfolding less_eq_address_component_def component_less_def
    by (cases "component_kind x"; cases "component_kind y") (auto split: if_splits)
  show "x \<le> y \<or> y \<le> x"
    unfolding less_eq_address_component_def component_less_def
    by (cases x; cases y; cases "component_kind x"; cases "component_kind y") (auto split: if_splits)
qed

end

type_synonym turn_address = "address_component list"

section \<open>Parsing and printing\<close>

definition u64_max :: nat where
  "u64_max = 2 ^ 64 - 1"

definition is_digit :: "char \<Rightarrow> bool" where
  "is_digit c \<longleftrightarrow> 48 \<le> (of_char c :: nat) \<and> (of_char c :: nat) \<le> 57"

text \<open>
  \<open>std::from_chars\<close> for an unsigned 64-bit number in base ten: the value of the longest prefix
  of digits and the rest of the text; \<open>None\<close> without a digit or when the value does not fit.
\<close>

definition digits_value :: "string \<Rightarrow> nat" where
  "digits_value ds = foldl (\<lambda>v c. v * 10 + (of_char c - 48)) 0 ds"

definition from_chars :: "string \<Rightarrow> (nat \<times> string) option" where
  "from_chars text =
     (let ds = takeWhile is_digit text; value = digits_value ds
      in if ds = [] \<or> u64_max < value then None else Some (value, dropWhile is_digit text))"

fun parse_letters :: "nat \<Rightarrow> string \<Rightarrow> nat option" where
  "parse_letters value [] = Some value"
| "parse_letters value (c # text) =
     (if (of_char c :: nat) < 97 \<or> 122 < (of_char c :: nat) then None
      else let digit = (of_char c - 97) + 1
        in if (u64_max - digit) div 26 < value then None
           else parse_letters (value * 26 + digit) text)"

definition parse_component :: "string \<Rightarrow> address_component option" where
  "parse_component text =
     (case text of [] \<Rightarrow> None
      | front # _ \<Rightarrow>
          if is_digit front then
            (if front = CHR ''0'' then None
             else case from_chars text of None \<Rightarrow> None
               | Some (value, rest) \<Rightarrow>
                   if rest \<noteq> [] \<or> value = 0 then None else Some (AddressComponent NUMERIC value))
          else map_option (AddressComponent ALPHABETIC) (parse_letters 0 text))"

text \<open>The characters that the loop of \<open>alphabetic\<close> pushes, last digit first.\<close>

fun alphabetic_digits :: "nat \<Rightarrow> string" where
  "alphabetic_digits n =
     (if n = 0 then [] else char_of (97 + (n - 1) mod 26) # alphabetic_digits ((n - 1) div 26))"

declare alphabetic_digits.simps [simp del]

definition alphabetic :: "nat \<Rightarrow> string" where
  "alphabetic n = rev (alphabetic_digits n)"

fun decimal_digits :: "nat \<Rightarrow> string" where
  "decimal_digits n = char_of (48 + n mod 10) # (if n < 10 then [] else decimal_digits (n div 10))"

declare decimal_digits.simps [simp del]

definition to_string :: "nat \<Rightarrow> string" where
  "to_string n = rev (decimal_digits n)"

definition component_string :: "address_component \<Rightarrow> string" where
  "component_string c =
     (if component_kind c = NUMERIC then to_string (ordinal c) else alphabetic (ordinal c))"

definition address_string :: "turn_address \<Rightarrow> string" where
  "address_string components =
     foldl (\<lambda>result c. (if result \<noteq> [] then result @ ''.'' else result) @ component_string c) [] components"

text \<open>
  The loop of \<open>TurnAddress::parse\<close> on the text from \<open>begin\<close> on, and the components collected so
  far. It stops at the end of the text or after a component with no separator behind it.
\<close>

function parse_loop :: "string \<Rightarrow> turn_address \<Rightarrow> turn_address option" where
  "parse_loop text components =
     (if text = [] then Some components
      else case parse_component (takeWhile (\<lambda>c. c \<noteq> CHR ''.'') text) of None \<Rightarrow> None
        | Some component \<Rightarrow>
            (case dropWhile (\<lambda>c. c \<noteq> CHR ''.'') text of
               [] \<Rightarrow> Some (components @ [component])
             | _ # rest \<Rightarrow> parse_loop rest (components @ [component])))"
  by pat_completeness auto
termination
proof (relation "measure (\<lambda>(text, components). length text)")
  fix input :: string and c rest
  assume "dropWhile (\<lambda>c. c \<noteq> CHR ''.'') input = c # rest"
  then have "Suc (length rest) \<le> length input" using length_dropWhile_le by (metis length_Cons)
  then show "((rest, components @ [component]), input, components) \<in> measure (\<lambda>(text, components). length text)"
    for components component by simp
qed simp

declare parse_loop.simps [simp del]

definition parse_address :: "string \<Rightarrow> turn_address option" where
  "parse_address text = (if text = [] then None else parse_loop text [])"

definition root_address :: "nat \<Rightarrow> turn_address" where
  "root_address n = [AddressComponent NUMERIC n]"

definition numeric_child :: "turn_address \<Rightarrow> nat \<Rightarrow> turn_address" where
  "numeric_child a n = a @ [AddressComponent NUMERIC n]"

definition alphabetic_child :: "turn_address \<Rightarrow> nat \<Rightarrow> turn_address" where
  "alphabetic_child a n = a @ [AddressComponent ALPHABETIC n]"

definition is_prefix_of :: "turn_address \<Rightarrow> turn_address \<Rightarrow> bool" where
  "is_prefix_of a other \<longleftrightarrow> length a < length other \<and> take (length a) other = a"

text \<open>\<open>operator<=>\<close> as \<open>std::lexicographical_compare_three_way\<close>: -1, 0 or 1.\<close>

fun address_compare :: "turn_address \<Rightarrow> turn_address \<Rightarrow> int" where
  "address_compare [] [] = 0"
| "address_compare [] (d # ds) = -1"
| "address_compare (c # cs) [] = 1"
| "address_compare (c # cs) (d # ds) =
     (if component_less c d then -1 else if component_less d c then 1 else address_compare cs ds)"

section \<open>Decimal and alphabetic numerals\<close>

definition valid_component :: "address_component \<Rightarrow> bool" where
  "valid_component c \<longleftrightarrow> 0 < ordinal c \<and> ordinal c \<le> u64_max"

definition valid_address :: "turn_address \<Rightarrow> bool" where
  "valid_address a \<longleftrightarrow> a \<noteq> [] \<and> (\<forall>c \<in> set a. valid_component c)"

lemma digits_value_simps [simp]:
  "digits_value [] = 0" "digits_value (ds @ [c]) = digits_value ds * 10 + (of_char c - 48)"
  by (simp_all add: digits_value_def)

lemma to_string_rec: "to_string n = (if n < 10 then [] else to_string (n div 10)) @ [char_of (48 + n mod 10)]"
  by (simp add: to_string_def decimal_digits.simps [of n])

lemma to_string_digits: "\<forall>c \<in> set (to_string n). is_digit c" "to_string n \<noteq> []"
proof -
  show "\<forall>c \<in> set (to_string n). is_digit c"
  proof (induction n rule: less_induct)
    case (less n)
    have "is_digit (char_of (48 + n mod 10))" by (simp add: is_digit_def)
    then show ?case using less.IH [of "n div 10"] by (subst to_string_rec) auto
  qed
  show "to_string n \<noteq> []" by (subst to_string_rec) simp
qed

lemma digits_value_to_string: "digits_value (to_string n) = n"
proof (induction n rule: less_induct)
  case (less n)
  then show ?case using less.IH [of "n div 10"] by (subst to_string_rec) auto
qed

lemma to_string_leading: "0 < n \<Longrightarrow> hd (to_string n) \<noteq> CHR ''0''"
proof (induction n rule: less_induct)
  case (less n)
  show ?case
  proof (cases "n < 10")
    case True
    have "(of_char (char_of (48 + n mod 10)) :: nat) \<noteq> of_char (CHR ''0'')"
      using True less.prems by simp
    then have "char_of (48 + n mod 10) \<noteq> CHR ''0''" by metis
    then show ?thesis using True by (subst to_string_rec) (simp del: of_char_of)
  next
    case False
    then have "hd (to_string (n div 10)) \<noteq> CHR ''0''" using less by simp
    then show ?thesis using False to_string_digits(2) by (subst to_string_rec) simp
  qed
qed

lemma char_of_digit: "is_digit c \<Longrightarrow> char_of (48 + (of_char c - 48 :: nat)) = c"
  by (simp add: is_digit_def)

lemma digits_value_pos: "ds \<noteq> [] \<Longrightarrow> \<forall>c \<in> set ds. is_digit c \<Longrightarrow> hd ds \<noteq> CHR ''0'' \<Longrightarrow> 0 < digits_value ds"
proof (induction ds rule: rev_induct)
  case (snoc c ds)
  show ?case
  proof (cases "ds = []")
    case True
    have "of_char c \<noteq> (48 :: nat)"
      using snoc.prems(3) True of_char_eq_iff [of c "CHR ''0''", where ?'a = nat] by simp
    then show ?thesis using True snoc.prems(2) by (simp add: is_digit_def digits_value_def)
  qed (use snoc in simp)
qed simp

lemma to_string_digits_value:
  "ds \<noteq> [] \<Longrightarrow> \<forall>c \<in> set ds. is_digit c \<Longrightarrow> hd ds \<noteq> CHR ''0'' \<Longrightarrow> to_string (digits_value ds) = ds"
proof (induction ds rule: rev_induct)
  case (snoc c ds)
  have c: "is_digit c" "of_char c - 48 < (10 :: nat)" using snoc.prems(2) by (auto simp: is_digit_def)
  show ?case
  proof (cases "ds = []")
    case True
    then show ?thesis
      using c char_of_digit [OF c(1)] by (subst to_string_rec) (simp add: digits_value_def)
  next
    case False
    then have "to_string (digits_value ds) = ds" and "0 < digits_value ds"
      using snoc digits_value_pos [of ds] by auto
    then show ?thesis using c char_of_digit [OF c(1)] by (subst to_string_rec) simp
  qed
qed simp

lemma alphabetic_rec:
  "alphabetic n = (if n = 0 then [] else alphabetic ((n - 1) div 26) @ [char_of (97 + (n - 1) mod 26)])"
  by (simp add: alphabetic_def alphabetic_digits.simps [of n])

lemma alphabetic_letters: "\<forall>c \<in> set (alphabetic n). 97 \<le> (of_char c :: nat) \<and> (of_char c :: nat) \<le> 122"
proof (induction n rule: less_induct)
  case (less n)
  have "(n - 1) mod 26 < 26" by simp
  then have "97 \<le> (of_char (char_of (97 + (n - 1) mod 26)) :: nat) \<and> (of_char (char_of (97 + (n - 1) mod 26)) :: nat) \<le> 122"
    by simp
  then show ?case using less.IH [of "(n - 1) div 26"] by (subst alphabetic_rec) auto
qed

lemma parse_letters_append:
  "parse_letters v (xs @ ys) = (case parse_letters v xs of None \<Rightarrow> None | Some w \<Rightarrow> parse_letters w ys)"
  by (induction v xs rule: parse_letters.induct) (auto simp: Let_def)

lemma parse_letters_alphabetic: "n \<le> u64_max \<Longrightarrow> parse_letters 0 (alphabetic n) = Some n"
proof (induction n rule: less_induct)
  case (less n)
  show ?case
  proof (cases "n = 0")
    case True
    then show ?thesis by (simp add: alphabetic_rec [of 0])
  next
    case False
    let ?m = "(n - 1) div 26" and ?d = "(n - 1) mod 26 + 1"
    have n: "n = ?m * 26 + ?d" using False by (simp add: div_mult_mod_eq [of "n - 1" 26])
    have d: "(n - 1) mod 26 < 26" by simp
    have "parse_letters 0 (alphabetic ?m) = Some ?m" using less False by simp
    moreover have "\<not> (u64_max - ?d) div 26 < ?m"
    proof -
      have "?m * 26 \<le> u64_max - ?d" using n less.prems by linarith
      then show ?thesis by (simp add: not_less less_eq_div_iff_mult_less_eq)
    qed
    moreover have "(of_char (char_of (97 + (n - 1) mod 26)) :: nat) = 97 + (n - 1) mod 26"
      using d by simp
    ultimately show ?thesis
      using False n d by (subst alphabetic_rec) (simp add: parse_letters_append Let_def)
  qed
qed

lemma parse_letters_sound:
  "parse_letters v cs = Some w \<Longrightarrow> v \<le> u64_max \<Longrightarrow> alphabetic w = alphabetic v @ cs \<and> w \<le> u64_max"
proof (induction v cs arbitrary: w rule: parse_letters.induct)
  case (2 v c cs)
  let ?d = "(of_char c - 97) + 1 :: nat"
  have c: "97 \<le> (of_char c :: nat)" "(of_char c :: nat) \<le> 122" and small: "\<not> (u64_max - ?d) div 26 < v"
    and rec: "parse_letters (v * 26 + ?d) cs = Some w"
    using "2.prems"(1) by (auto simp: Let_def split: if_splits)
  have d: "?d \<le> 26" using c(2) by linarith
  have "v * 26 \<le> u64_max - ?d" using small by (simp add: not_less less_eq_div_iff_mult_less_eq)
  moreover have "?d \<le> u64_max" using d by (simp add: u64_max_def)
  ultimately have le: "v * 26 + ?d \<le> u64_max" by linarith
  have "alphabetic (v * 26 + ?d) = alphabetic v @ [c]"
  proof -
    obtain k :: nat where k: "of_char c = 97 + k" "k < 26"
      using c that [of "of_char c - 97"] by simp
    then have "char_of (97 + k) = c" by (metis char_of_char)
    then show ?thesis using k by (subst alphabetic_rec) simp
  qed
  then show ?case using "2.IH" rec le c small by (simp add: Let_def)
qed simp

section \<open>Components and addresses\<close>

lemma component_string_shape:
  assumes "valid_component c"
  shows "component_string c \<noteq> []" "CHR ''.'' \<notin> set (component_string c)"
proof -
  have "\<not> is_digit CHR ''.''" "\<not> 97 \<le> (of_char CHR ''.'' :: nat)" by (simp_all add: is_digit_def)
  then show "CHR ''.'' \<notin> set (component_string c)"
    using to_string_digits(1) [of "ordinal c"] alphabetic_letters [of "ordinal c"] unfolding component_string_def by metis
  show "component_string c \<noteq> []"
    using assms to_string_digits(2) by (auto simp: component_string_def valid_component_def alphabetic_rec [of "ordinal c"])
qed

lemma parse_component_string:
  assumes "valid_component c"
  shows "parse_component (component_string c) = Some c"
proof (cases "component_kind c")
  case NUMERIC
  let ?s = "to_string (ordinal c)"
  have all: "\<forall>x \<in> set ?s. is_digit x" and ne: "?s \<noteq> []" by (rule to_string_digits)+
  have "takeWhile is_digit ?s = ?s" "dropWhile is_digit ?s = []"
    using all by (simp_all add: takeWhile_eq_all_conv dropWhile_eq_Nil_conv)
  note whole = this
  have "from_chars ?s = Some (ordinal c, [])"
    using ne assms unfolding from_chars_def whole Let_def digits_value_to_string by (simp add: valid_component_def)
  moreover obtain x xs where x: "?s = x # xs" using ne by (meson list.exhaust)
  moreover have "is_digit x" "x \<noteq> CHR ''0''"
    using all to_string_leading [of "ordinal c"] assms x by (auto simp: valid_component_def)
  ultimately have "parse_component ?s = Some (AddressComponent NUMERIC (ordinal c))"
    using assms by (simp add: parse_component_def valid_component_def)
  then show ?thesis using NUMERIC by (cases c) (simp add: component_string_def)
next
  case ALPHABETIC
  let ?s = "alphabetic (ordinal c)"
  obtain x xs where x: "?s = x # xs"
    using assms ALPHABETIC component_string_shape(1) [OF assms] by (metis component_kind.distinct(1) component_string_def neq_Nil_conv)
  have "97 \<le> (of_char x :: nat)" using alphabetic_letters [of "ordinal c"] x by auto
  then have "\<not> is_digit x" by (simp add: is_digit_def)
  then have "parse_component ?s = Some (AddressComponent ALPHABETIC (ordinal c))"
    using x parse_letters_alphabetic [of "ordinal c"] assms by (simp add: parse_component_def valid_component_def)
  then show ?thesis using ALPHABETIC by (cases c) (simp add: component_string_def)
qed

lemma parse_component_sound:
  assumes "parse_component t = Some c"
  shows "valid_component c" "component_string c = t"
proof -
  from assms obtain x xs where t: "t = x # xs" by (auto simp: parse_component_def split: list.splits)
  have "valid_component c \<and> component_string c = t"
  proof (cases "is_digit x")
    case True
    with assms t obtain v where v: "x \<noteq> CHR ''0''" "from_chars t = Some (v, [])" "v \<noteq> 0" "c = AddressComponent NUMERIC v"
      by (auto simp: parse_component_def split: if_splits option.splits)
    then have "dropWhile is_digit t = []" "v = digits_value (takeWhile is_digit t)" "v \<le> u64_max"
      by (auto simp: from_chars_def Let_def split: if_splits)
    moreover from this(1) have all: "\<forall>y \<in> set t. is_digit y" "takeWhile is_digit t = t"
      by (simp_all add: dropWhile_eq_Nil_conv takeWhile_eq_all_conv)
    moreover have "to_string (digits_value t) = t" using to_string_digits_value [of t] all(1) v(1) t by simp
    ultimately have "to_string v = t" "0 < v" "v \<le> u64_max" using v(3) by simp_all
    then show ?thesis using v(4) by (simp add: valid_component_def component_string_def)
  next
    case False
    with assms t obtain v where v: "parse_letters 0 t = Some v" "c = AddressComponent ALPHABETIC v"
      by (auto simp: parse_component_def)
    then have "alphabetic v = t" "v \<le> u64_max"
      using parse_letters_sound [OF v(1)] by (simp_all add: alphabetic_rec [of 0])
    moreover from this(1) have "v \<noteq> 0" using t by (metis alphabetic_rec list.distinct(1))
    ultimately show ?thesis using v(2) by (simp add: valid_component_def component_string_def)
  qed
  then show "valid_component c" "component_string c = t" by simp_all
qed

lemma address_string_Cons:
  assumes "valid_component c"
  shows "address_string (c # cs) = component_string c @ concat (map (\<lambda>d. CHR ''.'' # component_string d) cs)"
proof -
  have "foldl (\<lambda>result c. (if result \<noteq> [] then result @ ''.'' else result) @ component_string c) r cs =
      r @ concat (map (\<lambda>d. CHR ''.'' # component_string d) cs)" if "r \<noteq> []" for r
    using that by (induction cs arbitrary: r) simp_all
  then show ?thesis using component_string_shape(1) [OF assms] by (simp add: address_string_def)
qed

lemma no_dot_split:
  assumes "CHR ''.'' \<notin> set xs"
  shows "takeWhile (\<lambda>c. c \<noteq> CHR ''.'') (xs @ CHR ''.'' # ys) = xs" "dropWhile (\<lambda>c. c \<noteq> CHR ''.'') (xs @ CHR ''.'' # ys) = CHR ''.'' # ys"
    "takeWhile (\<lambda>c. c \<noteq> CHR ''.'') xs = xs" "dropWhile (\<lambda>c. c \<noteq> CHR ''.'') xs = []"
proof -
  have p: "\<And>x. x \<in> set xs \<Longrightarrow> x \<noteq> CHR ''.''" using assms by auto
  show "takeWhile (\<lambda>c. c \<noteq> CHR ''.'') (xs @ CHR ''.'' # ys) = xs"
    by (subst takeWhile_append2) (use p in simp_all)
  show "dropWhile (\<lambda>c. c \<noteq> CHR ''.'') (xs @ CHR ''.'' # ys) = CHR ''.'' # ys"
    by (subst dropWhile_append2) (use p in simp_all)
  show "takeWhile (\<lambda>c. c \<noteq> CHR ''.'') xs = xs" "dropWhile (\<lambda>c. c \<noteq> CHR ''.'') xs = []"
    using p by (simp_all add: takeWhile_eq_all_conv dropWhile_eq_Nil_conv)
qed

lemma parse_loop_string:
  "\<forall>c \<in> set (c # cs). valid_component c \<Longrightarrow>
    parse_loop (component_string c @ concat (map (\<lambda>d. CHR ''.'' # component_string d) cs)) acc = Some (acc @ c # cs)"
proof (induction cs arbitrary: c acc)
  case Nil
  then show ?case
    using component_string_shape [of c] parse_component_string [of c]
    by (subst parse_loop.simps) (simp add: no_dot_split)
next
  case (Cons d cs)
  have v: "valid_component c" "\<forall>c \<in> set (d # cs). valid_component c" using Cons.prems by simp_all
  show ?case
    using Cons.IH [OF v(2), of "acc @ [c]"] component_string_shape [OF v(1)] parse_component_string [OF v(1)]
    by (subst parse_loop.simps) (simp add: no_dot_split)
qed

lemma parse_loop_sound:
  "parse_loop t acc = Some r \<Longrightarrow> t \<noteq> [] \<Longrightarrow>
    \<exists>c cs. r = acc @ c # cs \<and> (\<forall>c \<in> set (c # cs). valid_component c) \<and>
      (t = address_string (c # cs) \<or> t = address_string (c # cs) @ ''.'')"
proof (induction t acc arbitrary: r rule: parse_loop.induct)
  case (1 t acc)
  let ?head = "takeWhile (\<lambda>c. c \<noteq> CHR ''.'') t" and ?tail = "dropWhile (\<lambda>c. c \<noteq> CHR ''.'') t"
  have t: "t = ?head @ ?tail" by simp
  from "1.prems" obtain c where c: "parse_component ?head = Some c"
    by (auto simp: parse_loop.simps [of t acc] split: option.splits)
  note cs = parse_component_sound [OF c]
  show ?case
  proof (cases ?tail)
    case Nil
    have "r = acc @ [c]" using "1.prems" by (simp add: parse_loop.simps [of t acc] c Nil)
    moreover have "t = address_string [c]"
      using address_string_Cons [OF cs(1), of "[]"] cs(2) t Nil by (metis append_Nil2 concat.simps(1) list.map(1))
    ultimately show ?thesis using cs(1) by (intro exI [of _ c] exI [of _ "[]"]) simp
  next
    case (Cons dot rest)
    have dot: "dot = CHR ''.''" using hd_dropWhile [of "\<lambda>c. c \<noteq> CHR ''.''" t] Cons by simp
    have rec: "parse_loop rest (acc @ [c]) = Some r" using "1.prems" c Cons by (simp add: parse_loop.simps [of t acc])
    show ?thesis
    proof (cases "rest = []")
      case True
      then have "r = acc @ [c]" using rec by (simp add: parse_loop.simps)
      moreover have "t = address_string [c] @ ''.''"
        using address_string_Cons [OF cs(1), of "[]"] cs(2) t Cons dot True
        by (metis append_Nil2 concat.simps(1) list.map(1))
      ultimately show ?thesis using cs(1) by (intro exI [of _ c] exI [of _ "[]"]) simp
    next
      case False
      obtain d ds where d: "r = (acc @ [c]) @ d # ds" "\<forall>c \<in> set (d # ds). valid_component c"
        "rest = address_string (d # ds) \<or> rest = address_string (d # ds) @ ''.''"
        using "1.IH" [OF "1.prems"(2) c Cons rec False] by blast
      have "address_string (c # d # ds) = ?head @ CHR ''.'' # address_string (d # ds)"
        using d(2) cs by (simp add: address_string_Cons)
      then have "t = address_string (c # d # ds) \<or> t = address_string (c # d # ds) @ ''.''"
        using t Cons dot d(3) by (metis append_Cons append_assoc)
      then show ?thesis using d(1,2) cs(1) by (intro exI [of _ c] exI [of _ "d # ds"]) auto
    qed
  qed
qed

lemma parse_address_string:
  assumes "valid_address a"
  shows "parse_address (address_string a) = Some a"
proof -
  obtain c cs where a: "a = c # cs" using assms by (cases a) (auto simp: valid_address_def)
  then have v: "\<forall>c \<in> set (c # cs). valid_component c" using assms by (simp add: valid_address_def)
  then have "address_string a \<noteq> []" using component_string_shape(1) [of c] a by (simp add: address_string_Cons)
  then show ?thesis
    using parse_loop_string [OF v, of "[]"] v a by (simp add: parse_address_def address_string_Cons)
qed

lemma parse_address_valid:
  assumes "parse_address t = Some a"
  shows "valid_address a" and "t = address_string a \<or> t = address_string a @ ''.''"
proof -
  have "t \<noteq> []" "parse_loop t [] = Some a" using assms by (auto simp: parse_address_def split: if_splits)
  then show "valid_address a" "t = address_string a \<or> t = address_string a @ ''.''"
    using parse_loop_sound [of t "[]" a] by (auto simp: valid_address_def)
qed

lemmas parse_evaluation = parse_address_def parse_loop.simps parse_component_def from_chars_def
  digits_value_def is_digit_def u64_max_def Let_def

section \<open>Properties\<close>

text \<open>
  C10: round trip. The canonical text of every address with positive 64-bit ordinals parses
  back to that address, so that \<open>string\<close> is injective on such addresses.
\<close>

theorem address_round_trip:
  assumes "valid_address a"
  shows "parse_address (address_string a) = Some a"
  using assms by (rule parse_address_string)

theorem address_round_trip_witness:
  "valid_address [AddressComponent NUMERIC 2, AddressComponent ALPHABETIC 28] \<and>
   address_string [AddressComponent NUMERIC 2, AddressComponent ALPHABETIC 28] = ''2.ab'' \<and>
   parse_address ''2.ab'' = Some [AddressComponent NUMERIC 2, AddressComponent ALPHABETIC 28]"
proof -
  let ?a = "[AddressComponent NUMERIC 2, AddressComponent ALPHABETIC 28]"
  have v: "valid_address ?a" by (simp add: valid_address_def valid_component_def u64_max_def)
  have s: "address_string ?a = ''2.ab''" by code_simp
  show ?thesis using address_round_trip [OF v] v s by simp
qed

text \<open>
  What \<open>parse\<close> accepts. An accepted text yields an address with positive 64-bit ordinals
  and is the canonical text of that address, or that text followed by one dot: zero, leading
  zeros, capitals, empty components and overflowing ordinals are all rejected.
\<close>

lemma parse_address_sound:
  assumes "parse_address t = Some a"
  shows "valid_address a \<and> (t = address_string a \<or> t = address_string a @ ''.'')"
  using parse_address_valid [OF assms] by blast

text \<open>
  The trailing dot. Every canonical text followed by one dot is accepted as well, as the
  same address, so \<open>parse\<close> accepts texts that are not canonical.
\<close>

lemma parse_address_trailing_dot:
  "parse_address ''1.'' = parse_address ''1'' \<and> parse_address ''1.'' = Some (root_address 1) \<and>
   address_string (root_address 1) \<noteq> ''1.''"
  by (simp add: parse_evaluation root_address_def address_string_def component_string_def to_string_def decimal_digits.simps)

lemma address_compare_less: "address_compare a b = -1 \<longleftrightarrow> a < b" and address_compare_eq: "address_compare a b = 0 \<longleftrightarrow> a = b"
proof (induction a b rule: address_compare.induct)
  case (4 c cs d ds)
  have tri: "component_less c d \<longleftrightarrow> c < d" "component_less d c \<longleftrightarrow> d < c"
    by (simp_all add: less_address_component_def)
  { case 1 then show ?case using 4 tri by (auto simp: not_less_iff_gr_or_eq) }
  { case 2 then show ?case using 4 tri by (auto simp: not_less_iff_gr_or_eq) }
qed simp_all

lemma address_compare_range: "address_compare a b \<in> {-1, 0, 1}"
  by (induction a b rule: address_compare.induct) auto

text \<open>
  Presentation order. \<open>operator<=>\<close> is the lexicographic order over the linear order of
  components (numeric before alphabetic, then by ordinal): it answers equal exactly on equal
  addresses, reverses with its arguments, and puts an ancestor before its descendants.
\<close>

lemma address_order_total:
  "address_compare a b \<in> {-1, 0, 1} \<and> (address_compare a b = -1 \<longleftrightarrow> a < b) \<and>
   (address_compare a b = 0 \<longleftrightarrow> a = b) \<and> (address_compare a b = 1 \<longleftrightarrow> b < a) \<and>
   (is_prefix_of a b \<longleftrightarrow> strict_prefix a b) \<and> (is_prefix_of a b \<longrightarrow> address_compare a b = -1)"
proof -
  have one: "address_compare a b = 1 \<longleftrightarrow> b < a"
    using address_compare_range [of a b] address_compare_less [of a b] address_compare_eq [of a b] by fastforce
  have "is_prefix_of a b \<longleftrightarrow> strict_prefix a b"
    unfolding is_prefix_of_def strict_prefix_def prefix_def
    by (metis append_eq_conv_conj append_take_drop_id length_append length_greater_0_conv less_add_same_cancel1
        append_Nil2 take_all_iff linorder_not_less)
  moreover have "a < b" if "strict_prefix a b"
  proof -
    from that obtain c cs where "b = a @ c # cs" by (metis append_Nil2 list.exhaust prefix_def strict_prefix_def)
    then show ?thesis by (induction a arbitrary: b) auto
  qed
  ultimately show ?thesis
    using one address_compare_range [of a b] address_compare_less [of a b] address_compare_eq [of a b] by blast
qed

end
