(* ===== verification/Turn_Tree.thy ===== *)
theory Turn_Tree
  imports Turn_Address Key_Trie "HOL-Library.Multiset"
begin

text \<open>
  \<open>canvas/turn/turn_tree.hpp\<close> and \<open>turn_tree.cpp\<close>: the in-memory reply topology of a canvas, a
  trie from addresses to committed turns with, in every node, the counters that allocate the
  addresses of replies and parts, and a content hash per node.

  The protobuf message \<open>Turn\<close> (\<open>canvas/protos/turn.proto\<close>) is a record with its identity, its
  parent and the remaining fields as one opaque value; \<open>blank\<close> is the value of the remaining
  fields of a cleared message. Serialisation and SHA-256 are not part of the sources: they are
  the arguments \<open>serialize\<close> and \<open>sha256\<close>. A digest is a string of 32 bytes. The loops around
  \<open>compare_exchange_weak\<close> only retry, so an allocation is one atomic step on its counter.
\<close>

section \<open>Data\<close>

record turn_id =
  canvas_uuid :: "string option"
  human_address :: "string option"

record 'c turn =
  turn_id :: "turn_id option"
  turn_parent :: "turn_id option"
  turn_fields :: 'c

record 'c turn_node =
  node_turn :: "'c turn"
  next_numeric_child :: nat
  next_alphabetic_child :: nat

definition empty_turn :: "'c \<Rightarrow> 'c turn" where
  "empty_turn blank = \<lparr>turn_id = None, turn_parent = None, turn_fields = blank\<rparr>"

definition turn_node_of :: "'c turn \<Rightarrow> 'c turn_node" where
  "turn_node_of t = \<lparr>node_turn = t, next_numeric_child = 1, next_alphabetic_child = 1\<rparr>"

definition allocator :: "component_kind \<Rightarrow> 'c turn_node \<Rightarrow> nat" where
  "allocator kind v = (if kind = NUMERIC then next_numeric_child v else next_alphabetic_child v)"

definition set_allocator :: "component_kind \<Rightarrow> nat \<Rightarrow> 'c turn_node \<Rightarrow> 'c turn_node" where
  "set_allocator kind w v =
     (if kind = NUMERIC then v\<lparr>next_numeric_child := w\<rparr> else v\<lparr>next_alphabetic_child := w\<rparr>)"

datatype tree_status = TREE_OK | INVALID_TURN | PARENT_NOT_FOUND | ALREADY_EXISTS | ADDRESS_EXHAUSTED

type_synonym 'c turn_trie = "(address_component, 'c turn_node) trie"

record 'c turn_tree =
  tree_trie :: "'c turn_trie"
  tree_hashes :: "string list"
  root_hash :: string

definition zero_hash :: string where
  "zero_hash = replicate 32 (CHR 0x00)"

definition no_component :: address_component where
  "no_component = AddressComponent NUMERIC 0"

definition new_tree :: "'c \<Rightarrow> 'c turn_tree" where
  "new_tree blank = \<lparr>tree_trie = trie_new no_component (turn_node_of (empty_turn blank)),
     tree_hashes = [zero_hash], root_hash = zero_hash\<rparr>"

definition u32_max :: nat where
  "u32_max = 2 ^ 32 - 1"

section \<open>Operations\<close>

definition direct_child :: "turn_address \<Rightarrow> turn_address \<Rightarrow> bool" where
  "direct_child parent child =
     (if length child \<noteq> length parent + 1 then False
      else let component = last child
        in (if component_kind component = NUMERIC then numeric_child parent (ordinal component)
            else alphabetic_child parent (ordinal component)) = child)"

definition successor :: "nat \<Rightarrow> nat" where
  "successor n = (if n = u32_max then 0 else n + 1)"

definition advance_past :: "nat \<Rightarrow> nat \<Rightarrow> nat" where
  "advance_past current n =
     (let desired = successor n
      in if current \<noteq> 0 \<and> (desired = 0 \<or> current < desired) then desired else current)"

definition preserve_watermark :: "nat \<Rightarrow> nat \<Rightarrow> nat" where
  "preserve_watermark current rebuilt =
     (if current = 0 \<or> rebuilt = 0 then 0 else if rebuilt < current then current else rebuilt)"

text \<open>A store through the \<open>mutable\<close> counter of a node's value.\<close>

definition update_value :: "nat \<Rightarrow> ('v \<Rightarrow> 'v) \<Rightarrow> ('k, 'v) trie \<Rightarrow> ('k, 'v) trie" where
  "update_value n f t = t[n := (t ! n)\<lparr>node_value := f (node_value (t ! n))\<rparr>]"

definition find_committed :: "'c turn_trie \<Rightarrow> turn_address \<Rightarrow> nat option" where
  "find_committed t a =
     (case find_node t a of None \<Rightarrow> None | Some n \<Rightarrow> if sequence_end (t ! n) then Some n else None)"

text \<open>
  \<open>allocate_child\<close>: the parent's node and address (no address for the synthetic root), then
  one step of the counter, then the shell of the started turn.
\<close>

definition parent_node ::
    "string \<Rightarrow> turn_id option \<Rightarrow> 'c turn_trie \<Rightarrow> tree_status + (nat \<times> turn_address option)" where
  "parent_node uuid parent t =
     (case parent of None \<Rightarrow> Inr (kRootNode, None)
      | Some p \<Rightarrow>
          if canvas_uuid p = None \<or> canvas_uuid p \<noteq> Some uuid \<or> human_address p = None then Inl INVALID_TURN
          else case parse_address (the (human_address p)) of None \<Rightarrow> Inl INVALID_TURN
            | Some a \<Rightarrow>
                (case find_committed t a of None \<Rightarrow> Inl PARENT_NOT_FOUND
                 | Some n \<Rightarrow> Inr (n, Some a)))"

definition allocate_child ::
    "'c \<Rightarrow> string \<Rightarrow> turn_id option \<Rightarrow> component_kind \<Rightarrow> 'c turn_tree \<Rightarrow> 'c turn_tree \<times> tree_status \<times> 'c turn" where
  "allocate_child blank uuid parent kind tree =
     (if length uuid \<noteq> 16 \<or> (kind = ALPHABETIC \<and> parent = None) then (tree, INVALID_TURN, empty_turn blank)
      else case parent_node uuid parent (tree_trie tree) of
          Inl status \<Rightarrow> (tree, status, empty_turn blank)
        | Inr (n, parent_address) \<Rightarrow>
            let w = allocator kind (node_value (tree_trie tree ! n))
            in if w = 0 then (tree, ADDRESS_EXHAUSTED, empty_turn blank)
               else let address = (case parent_address of None \<Rightarrow> root_address w
                        | Some a \<Rightarrow> if kind = NUMERIC then numeric_child a w else alphabetic_child a w)
                 in (tree\<lparr>tree_trie := update_value n (set_allocator kind (successor w)) (tree_trie tree)\<rparr>, TREE_OK,
                     \<lparr>turn_id = Some \<lparr>canvas_uuid = Some uuid, human_address = Some (address_string address)\<rparr>,
                      turn_parent = parent, turn_fields = blank\<rparr>))"

definition reply_to where
  "reply_to blank uuid parent tree = allocate_child blank uuid parent NUMERIC tree"

definition append_part where
  "append_part blank uuid parent tree = allocate_child blank uuid (Some parent) ALPHABETIC tree"

text \<open>The canonical encoding of a node: a tag, its turn, then each child's key and hash.\<close>

definition encode_ordinal :: "nat \<Rightarrow> string" where
  "encode_ordinal n = map (\<lambda>byte. char_of (n div 2 ^ ((8 - byte - 1) * 8) mod 256)) [0..<8]"

definition encode_node ::
    "(string option) \<Rightarrow> (address_component \<times> string) list \<Rightarrow> string" where
  "encode_node payload kids =
     ''PUC-TURN-TRIE-V1'' @ [if payload \<noteq> None then CHR 0x01 else CHR 0x00] @
     (case payload of None \<Rightarrow> [] | Some bytes \<Rightarrow> bytes) @
     concat (map (\<lambda>(k, h). (if component_kind k = NUMERIC then CHR 0x00 else CHR 0x01) #
       encode_ordinal (ordinal k) @ h) kids)"

definition hash_node ::
    "('c turn \<Rightarrow> string option) \<Rightarrow> (string \<Rightarrow> string) \<Rightarrow> 'c turn_trie \<Rightarrow> string list \<Rightarrow> nat \<Rightarrow> string" where
  "hash_node serialize sha256 t hashes index =
     (let node = t ! index;
          kids = map (\<lambda>c. (key (t ! c), hashes ! c)) (children node)
      in if sequence_end node then
           (case serialize (node_turn (node_value node)) of None \<Rightarrow> zero_hash
            | Some payload \<Rightarrow> sha256 (encode_node (Some payload) kids))
         else sha256 (encode_node None kids))"

fun path_from :: "('k::linorder, 'v) trie \<Rightarrow> nat \<Rightarrow> 'k list \<Rightarrow> nat list" where
  "path_from t n [] = [n]"
| "path_from t n (k # ks) =
     n # (case find_child t n k of None \<Rightarrow> [] | Some c \<Rightarrow> path_from t c ks)"

definition rehash ::
    "('c turn \<Rightarrow> string option) \<Rightarrow> (string \<Rightarrow> string) \<Rightarrow> 'c turn_trie \<Rightarrow> nat list \<Rightarrow> string list \<Rightarrow> string list" where
  "rehash serialize sha256 t nodes hashes =
     fold (\<lambda>n hs. hs[n := hash_node serialize sha256 t hs n]) nodes hashes"

text \<open>\<open>std::vector::resize\<close>: value-initialised digests at the end, or a shorter vector.\<close>

definition resize_hashes :: "nat \<Rightarrow> string list \<Rightarrow> string list" where
  "resize_hashes n hs = take n hs @ replicate (n - length hs) zero_hash"

definition commit_turn ::
    "('c turn \<Rightarrow> string option) \<Rightarrow> (string \<Rightarrow> string) \<Rightarrow> 'c \<Rightarrow> nat \<Rightarrow> turn_address \<Rightarrow> 'c turn \<Rightarrow> 'c turn_tree \<Rightarrow> 'c turn_tree" where
  "commit_turn serialize sha256 blank parent_index address t tree =
     (let trie1 = fst (trie_insert (turn_node_of (empty_turn blank)) address (turn_node_of t) (tree_trie tree));
          hashes1 = resize_hashes (trie_size trie1) (tree_hashes tree);
          child = last address;
          trie2 = update_value parent_index (\<lambda>v. set_allocator (component_kind child)
            (advance_past (allocator (component_kind child) v) (ordinal child mod 2 ^ 32)) v) trie1;
          hashes2 = rehash serialize sha256 trie2 (rev (path_from trie2 kRootNode address)) hashes1
      in \<lparr>tree_trie = trie2, tree_hashes = hashes2, root_hash = hashes2 ! kRootNode\<rparr>)"

definition apply_parent ::
    "turn_id \<Rightarrow> turn_address \<Rightarrow> turn_id option \<Rightarrow> 'c turn_trie \<Rightarrow> tree_status + nat" where
  "apply_parent i address parent t =
     (case parent of
        Some p \<Rightarrow>
          if canvas_uuid p = None \<or> human_address p = None \<or> canvas_uuid p \<noteq> canvas_uuid i
          then Inl INVALID_TURN
          else (case parse_address (the (human_address p)) of None \<Rightarrow> Inl INVALID_TURN
            | Some parent_address \<Rightarrow>
                if \<not> direct_child parent_address address then Inl INVALID_TURN
                else case find_committed t parent_address of None \<Rightarrow> Inl PARENT_NOT_FOUND
                  | Some n \<Rightarrow> Inr n)
      | None \<Rightarrow>
          if length address \<noteq> 1 \<or> component_kind (hd address) \<noteq> NUMERIC then Inl INVALID_TURN
          else Inr kRootNode)"

definition apply_turn ::
    "('c turn \<Rightarrow> string option) \<Rightarrow> (string \<Rightarrow> string) \<Rightarrow> 'c \<Rightarrow> 'c turn \<Rightarrow> 'c turn_tree \<Rightarrow> 'c turn_tree \<times> tree_status" where
  "apply_turn serialize sha256 blank t tree =
     (case turn_id t of None \<Rightarrow> (tree, INVALID_TURN)
      | Some i \<Rightarrow>
        if human_address i = None \<or> canvas_uuid i = None then (tree, INVALID_TURN)
        else case parse_address (the (human_address i)) of None \<Rightarrow> (tree, INVALID_TURN)
          | Some address \<Rightarrow>
            if length (the (canvas_uuid i)) \<noteq> 16 then (tree, INVALID_TURN)
            else if u32_max < ordinal (last address) then (tree, ADDRESS_EXHAUSTED)
            else case apply_parent i address (turn_parent t) (tree_trie tree) of
              Inl status \<Rightarrow> (tree, status)
            | Inr parent_index \<Rightarrow>
                if find_committed (tree_trie tree) address \<noteq> None then (tree, ALREADY_EXISTS)
                else (commit_turn serialize sha256 blank parent_index address t tree, TREE_OK))"

definition find_turn :: "'c turn_tree \<Rightarrow> turn_address \<Rightarrow> 'c turn option" where
  "find_turn tree a = map_option node_turn (trie_find (tree_trie tree) a)"

definition tree_size :: "'c turn_tree \<Rightarrow> nat" where
  "tree_size tree = trie_size (tree_trie tree) - 1"

definition preserve_node :: "'c turn_node \<Rightarrow> 'c turn_node \<Rightarrow> 'c turn_node" where
  "preserve_node current candidate =
     set_allocator ALPHABETIC (preserve_watermark (allocator ALPHABETIC current) (allocator ALPHABETIC candidate))
       (set_allocator NUMERIC (preserve_watermark (allocator NUMERIC current) (allocator NUMERIC candidate)) candidate)"

definition preserve_reservations :: "'c turn_trie \<Rightarrow> 'c turn_trie \<Rightarrow> 'c turn_trie" where
  "preserve_reservations t rebuilt =
     fold (\<lambda>a r. case (find_committed t a, find_committed r a) of
         (Some current, Some candidate) \<Rightarrow> update_value candidate (preserve_node (node_value (t ! current))) r
       | _ \<Rightarrow> r)
       (case completions t [] of None \<Rightarrow> [] | Some as \<Rightarrow> as)
       (update_value kRootNode (preserve_node (node_value (t ! kRootNode))) rebuilt)"

fun apply_all ::
    "('c turn \<Rightarrow> string option) \<Rightarrow> (string \<Rightarrow> string) \<Rightarrow> 'c \<Rightarrow> 'c turn list \<Rightarrow> 'c turn_tree \<Rightarrow> 'c turn_tree \<times> tree_status" where
  "apply_all serialize sha256 blank [] tree = (tree, TREE_OK)"
| "apply_all serialize sha256 blank (t # ts) tree =
     (case apply_turn serialize sha256 blank t tree of (tree', status) \<Rightarrow>
        if status \<noteq> TREE_OK then (tree', status) else apply_all serialize sha256 blank ts tree')"

definition turn_address_of :: "'c turn \<Rightarrow> turn_address option" where
  "turn_address_of t =
     (case turn_id t of None \<Rightarrow> None
      | Some i \<Rightarrow> parse_address (case human_address i of None \<Rightarrow> '''' | Some a \<Rightarrow> a))"

text \<open>
  \<open>rebuild\<close>: \<open>std::sort\<close> by address. Its order of turns with equal addresses is unspecified;
  the model's sort is stable. Two such turns never both apply.
\<close>

definition rebuild ::
    "('c turn \<Rightarrow> string option) \<Rightarrow> (string \<Rightarrow> string) \<Rightarrow> 'c \<Rightarrow> 'c turn list \<Rightarrow> 'c turn_tree \<Rightarrow> 'c turn_tree \<times> tree_status" where
  "rebuild serialize sha256 blank turns tree =
     (if \<exists>t \<in> set turns. turn_address_of t = None then (tree, INVALID_TURN)
      else let ordered = sort_key (\<lambda>t. the (turn_address_of t)) turns;
               (candidate, status) = apply_all serialize sha256 blank ordered (new_tree blank)
        in if status \<noteq> TREE_OK then (tree, status)
           else (candidate\<lparr>tree_trie := preserve_reservations (tree_trie tree) (tree_trie candidate)\<rparr>, TREE_OK))"

section \<open>Counters\<close>

text \<open>The first ordinal that a counter has not given away; zero means that all are gone.\<close>

definition limit :: "nat \<Rightarrow> nat" where
  "limit w = (if w = 0 then u32_max + 1 else w)"

lemma limit_successor: "w \<noteq> 0 \<Longrightarrow> w \<le> u32_max \<Longrightarrow> limit (successor w) = limit w + 1 \<and> successor w \<le> u32_max"
  by (auto simp: limit_def successor_def)

lemma limit_advance:
  "w \<le> u32_max \<Longrightarrow> n \<le> u32_max \<Longrightarrow>
    limit (advance_past w n) = max (limit w) (n + 1) \<and> advance_past w n \<le> u32_max"
  by (auto simp: limit_def advance_past_def successor_def Let_def)

lemma limit_preserve:
  "w \<le> u32_max \<Longrightarrow> v \<le> u32_max \<Longrightarrow>
    limit (preserve_watermark w v) = max (limit w) (limit v) \<and> preserve_watermark w v \<le> u32_max"
  by (auto simp: limit_def preserve_watermark_def)

lemma allocator_set [simp]:
  "allocator kind (set_allocator kind' w v) = (if kind = kind' then w else allocator kind v)"
  "node_turn (set_allocator kind' w v) = node_turn v"
  by (cases kind; cases kind'; simp add: allocator_def set_allocator_def)+

lemma allocator_new [simp]: "allocator kind (turn_node_of t) = 1" "node_turn (turn_node_of t) = t"
  by (simp_all add: allocator_def turn_node_of_def)

definition raises :: "'c turn_node \<Rightarrow> 'c turn_node \<Rightarrow> bool" where
  "raises v v' \<longleftrightarrow> node_turn v' = node_turn v \<and>
     (\<forall>kind. allocator kind v' \<le> u32_max \<and> limit (allocator kind v) \<le> limit (allocator kind v'))"

lemma raises_successor:
  "allocator kind v \<noteq> 0 \<Longrightarrow> \<forall>k. allocator k v \<le> u32_max \<Longrightarrow>
    raises v (set_allocator kind (successor (allocator kind v)) v)"
  using limit_successor by (auto simp: raises_def)

lemma raises_advance:
  "n \<le> u32_max \<Longrightarrow> \<forall>k. allocator k v \<le> u32_max \<Longrightarrow>
    raises v (set_allocator kind (advance_past (allocator kind v) n) v)"
  using limit_advance by (auto simp: raises_def)

lemma raises_preserve:
  "\<forall>k. allocator k v \<le> u32_max \<Longrightarrow> \<forall>k. allocator k current \<le> u32_max \<Longrightarrow> raises v (preserve_node current v)"
  using limit_preserve by (auto simp: raises_def preserve_node_def)

lemma preserve_node_limit:
  "\<forall>k. allocator k v \<le> u32_max \<Longrightarrow> \<forall>k. allocator k current \<le> u32_max \<Longrightarrow>
    limit (allocator kind (preserve_node current v)) = max (limit (allocator kind current)) (limit (allocator kind v))"
  using limit_preserve by (cases kind) (auto simp: preserve_node_def)

section \<open>Well-formed tries of turns\<close>

definition trie_ok :: "'c turn_trie \<Rightarrow> bool" where
  "trie_ok t \<longleftrightarrow> trie_wf t \<and>
     (\<forall>i < length t. \<exists>a. find_node t a = Some i) \<and>
     (\<forall>a n. find_node t a = Some n \<longrightarrow> (sequence_end (t ! n) \<longleftrightarrow> a \<noteq> [])) \<and>
     (\<forall>a n kind. find_node t a = Some n \<longrightarrow> allocator kind (node_value (t ! n)) \<le> u32_max) \<and>
     (\<forall>a c n m. find_node t a = Some n \<and> find_node t (a @ [c]) = Some m \<longrightarrow>
        ordinal c < limit (allocator (component_kind c) (node_value (t ! n)))) \<and>
     (\<forall>a n. find_node t a = Some n \<and> a \<noteq> [] \<longrightarrow> turn_address_of (node_turn (node_value (t ! n))) = Some a)"

lemma trie_okD:
  assumes "trie_ok t"
  shows "trie_wf t"
    and "i < length t \<Longrightarrow> \<exists>a. find_node t a = Some i"
    and "find_node t a = Some n \<Longrightarrow> sequence_end (t ! n) \<longleftrightarrow> a \<noteq> []"
    and "find_node t a = Some n \<Longrightarrow> allocator kind (node_value (t ! n)) \<le> u32_max"
    and "find_node t a = Some n \<Longrightarrow> find_node t (a @ [c]) = Some m \<Longrightarrow>
        ordinal c < limit (allocator (component_kind c) (node_value (t ! n)))"
    and "find_node t a = Some n \<Longrightarrow> a \<noteq> [] \<Longrightarrow> turn_address_of (node_turn (node_value (t ! n))) = Some a"
  using assms unfolding trie_ok_def by blast+

lemma update_value_terminal:
  "update_value n f t = set_terminal t n (sequence_end (t ! n)) (f (node_value (t ! n)))"
  by (simp add: update_value_def set_terminal_def)

lemma update_value_frame [simp]:
  "length (update_value n f t) = length t" "children (update_value n f t ! i) = children (t ! i)"
  "key (update_value n f t ! i) = key (t ! i)" "sequence_end (update_value n f t ! i) = sequence_end (t ! i)"
  by (simp_all add: update_value_def nth_list_update')

lemma update_value_nth:
  "n < length t \<Longrightarrow> node_value (update_value n f t ! i) = (if i = n then f (node_value (t ! n)) else node_value (t ! i))"
  by (simp add: update_value_def nth_list_update')

lemma update_value_find [simp]:
  "find_node (update_value n f t) a = find_node t a" "find_child (update_value n f t) i k = find_child t i k"
  "trie_wf t \<Longrightarrow> trie_wf (update_value n f t)"
  by (simp_all add: update_value_terminal find_node_def find_from_set_terminal find_child_set_terminal trie_wf_set_terminal)

lemma trie_ok_update:
  assumes ok: "trie_ok t" and n: "n < length t" and up: "raises (node_value (t ! n)) (f (node_value (t ! n)))"
  shows "trie_ok (update_value n f t)"
proof -
  let ?t = "update_value n f t"
  have le: "limit (allocator kind (node_value (t ! i))) \<le> limit (allocator kind (node_value (?t ! i)))" for kind i
    using up n by (simp add: update_value_nth raises_def)
  have "allocator kind (node_value (?t ! i)) \<le> u32_max" if "find_node t a = Some i" for a kind i
    using trie_okD(4) [OF ok that] up n by (simp add: update_value_nth raises_def)
  moreover have "ordinal c < limit (allocator (component_kind c) (node_value (?t ! i)))"
    if "find_node t a = Some i" "find_node t (a @ [c]) = Some m" for a c i m
    using trie_okD(5) [OF ok that] le [of "component_kind c" i] by linarith
  moreover have "turn_address_of (node_turn (node_value (?t ! i))) = Some a" if "find_node t a = Some i" "a \<noteq> []" for a i
    using trie_okD(6) [OF ok that] up n by (auto simp: update_value_nth raises_def)
  ultimately show ?thesis
    unfolding trie_ok_def update_value_find(1) update_value_frame using trie_okD(1-3) [OF ok] by auto
qed

lemma find_committed_ok:
  assumes "trie_ok t"
  shows "find_committed t a = (if a = [] then None else find_node t a)"
  using trie_okD(3) [OF assms, of a] by (auto simp: find_committed_def split: option.splits)

lemma find_root [simp]: "find_node t [] = Some 0"
  by (simp add: find_node_def kRootNode_def)

text \<open>Insertion of a new child and the advance of its parent's counter.\<close>

definition insert_child :: "'c \<Rightarrow> nat \<Rightarrow> turn_address \<Rightarrow> 'c turn \<Rightarrow> 'c turn_trie \<Rightarrow> 'c turn_trie" where
  "insert_child blank n a tn t = update_value n (\<lambda>v. set_allocator (component_kind (last a))
     (advance_past (allocator (component_kind (last a)) v) (ordinal (last a) mod 2 ^ 32)) v)
     (fst (trie_insert (turn_node_of (empty_turn blank)) a (turn_node_of tn) t))"

lemma insert_child_facts:
  assumes wf: "trie_wf t" and m: "find_node t p = Some m" and new: "find_node t (p @ [c]) = None"
    and t'_def: "t' = insert_child blank m (p @ [c]) tn t"
  shows "trie_wf t'" "length t' = Suc (length t)"
    and "find_node t' a = (if a = p @ [c] then Some (length t) else find_node t a)"
    and "i < length t \<Longrightarrow> sequence_end (t' ! i) = sequence_end (t ! i) \<and> key (t' ! i) = key (t ! i)"
    and "i < length t \<Longrightarrow> i \<noteq> m \<Longrightarrow> node_value (t' ! i) = node_value (t ! i) \<and> children (t' ! i) = children (t ! i)"
    and "node_value (t' ! m) = set_allocator (component_kind c)
      (advance_past (allocator (component_kind c) (node_value (t ! m))) (ordinal c mod 2 ^ 32)) (node_value (t ! m))"
    and "t' ! length t = \<lparr>key = c, children = [], sequence_end = True, node_value = turn_node_of tn\<rparr>"
proof -
  obtain u n where ins: "trie_insert (turn_node_of (empty_turn blank)) (p @ [c]) (turn_node_of tn) t = (u, n)" by fastforce
  note leaf = trie_insert_leaf [OF wf m new ins]
  have mb: "m < length t" by (rule find_node_bound [OF wf m])
  then have mu: "m < length u" using leaf(2) by simp
  have t': "t' = update_value m (\<lambda>v. set_allocator (component_kind c)
     (advance_past (allocator (component_kind c) v) (ordinal c mod 2 ^ 32)) v) u"
    by (simp add: t'_def insert_child_def ins)
  show "trie_wf t'" "length t' = Suc (length t)" using leaf(2,3) by (simp_all add: t')
  show "find_node t' a = (if a = p @ [c] then Some (length t) else find_node t a)" using leaf(4) by (simp add: t')
  show "i < length t \<Longrightarrow> sequence_end (t' ! i) = sequence_end (t ! i) \<and> key (t' ! i) = key (t ! i)"
    using leaf(5) by (simp add: t')
  show "i < length t \<Longrightarrow> i \<noteq> m \<Longrightarrow> node_value (t' ! i) = node_value (t ! i) \<and> children (t' ! i) = children (t ! i)"
    using leaf(5,6) mu by (simp add: t' update_value_nth)
  show "node_value (t' ! m) = set_allocator (component_kind c)
      (advance_past (allocator (component_kind c) (node_value (t ! m))) (ordinal c mod 2 ^ 32)) (node_value (t ! m))"
    using leaf(5) [OF mb] mu by (simp add: t' update_value_nth)
  show "t' ! length t = \<lparr>key = c, children = [], sequence_end = True, node_value = turn_node_of tn\<rparr>"
    using leaf(7) mb by (simp add: t' update_value_def)
qed

lemma trie_ok_insert_child:
  assumes ok: "trie_ok t" and m: "find_node t p = Some m" and new: "find_node t (p @ [c]) = None"
    and c: "ordinal c \<le> u32_max" and tn: "turn_address_of tn = Some (p @ [c])"
  shows "trie_ok (insert_child blank m (p @ [c]) tn t)"
proof -
  define t' where "t' = insert_child blank m (p @ [c]) tn t"
  note wf = trie_okD(1) [OF ok]
  note f = insert_child_facts [OF wf m new t'_def]
  have cm: "ordinal c mod 2 ^ 32 = ordinal c" using c by (simp add: u32_max_def)
  have mb: "m < length t" by (rule find_node_bound [OF wf m])
  have alloc: "\<forall>k. allocator k (node_value (t ! m)) \<le> u32_max" using trie_okD(4) [OF ok m] by blast
  have up: "raises (node_value (t ! m)) (node_value (t' ! m))"
    using raises_advance [OF c alloc] unfolding f(6) cm by blast
  have value_of: "node_turn (node_value (t' ! i)) = node_turn (node_value (t ! i)) \<and>
      allocator k (node_value (t' ! i)) \<le> u32_max \<and>
      limit (allocator k (node_value (t ! i))) \<le> limit (allocator k (node_value (t' ! i)))"
    if "find_node t a = Some i" for a i k
    using up f(5) [of i] find_node_bound [OF wf that] trie_okD(4) [OF ok that] by (cases "i = m") (auto simp: raises_def)
  have one: "(1::nat) \<le> u32_max" by (simp add: u32_max_def)
  have "\<exists>a. find_node t' a = Some i" if "i < length t'" for i
    using that f(2,3) trie_okD(2) [OF ok, of i] new by (cases "i = length t") (auto, metis option.distinct(1))
  moreover have "sequence_end (t' ! n) \<longleftrightarrow> a \<noteq> []" if "find_node t' a = Some n" for a n
    using that f(3) [of a] f(4) f(7) trie_okD(3) [OF ok, of a n] find_node_bound [OF wf, of a n] by (auto split: if_splits)
  moreover have "allocator kind (node_value (t' ! n)) \<le> u32_max" if "find_node t' a = Some n" for a n kind
    using that f(3) [of a] value_of [of a n kind] f(7) one by (auto split: if_splits)
  moreover have "turn_address_of (node_turn (node_value (t' ! n))) = Some a" if "find_node t' a = Some n" "a \<noteq> []" for a n
    using that f(3) [of a] value_of [of a n NUMERIC] f(7) tn trie_okD(6) [OF ok, of a n] by (auto split: if_splits)
  moreover have "ordinal d < limit (allocator (component_kind d) (node_value (t' ! n)))"
    if a: "find_node t' a = Some n" and d: "find_node t' (a @ [d]) = Some k" for a d n k
  proof (cases "a @ [d] = p @ [c]")
    case True
    then have "n = m" using a m f(3) [of a] by auto
    moreover have "allocator (component_kind c) (node_value (t' ! m)) =
        advance_past (allocator (component_kind c) (node_value (t ! m))) (ordinal c)" unfolding f(6) cm by simp
    ultimately show ?thesis
      using True limit_advance [of "allocator (component_kind c) (node_value (t ! m))" "ordinal c"] alloc c by simp
  next
    case False
    then have d': "find_node t (a @ [d]) = Some k" using d unfolding f(3) by (auto split: if_splits)
    have "a \<noteq> p @ [c]"
    proof
      assume "a = p @ [c]"
      then have "find_node t (a @ [d]) = None" using new by (auto simp: find_node_def find_from_append split: option.splits)
      with d' show False by simp
    qed
    then have a': "find_node t a = Some n" using a f(3) by simp
    show ?thesis
      using trie_okD(5) [OF ok a' d'] value_of [OF a', of "component_kind d"] by linarith
  qed
  ultimately show ?thesis unfolding t'_def [symmetric] trie_ok_def using f(1) by blast
qed

lemma direct_child_iff: "direct_child parent a \<longleftrightarrow> (\<exists>c. a = parent @ [c])"
proof
  assume "direct_child parent a"
  then show "\<exists>c. a = parent @ [c]"
    by (auto simp: direct_child_def numeric_child_def alphabetic_child_def Let_def split: if_splits) metis+
next
  assume "\<exists>c. a = parent @ [c]"
  then obtain c where "a = parent @ [c]" by blast
  then show "direct_child parent a"
    by (cases c; cases "component_kind c") (auto simp: direct_child_def numeric_child_def alphabetic_child_def)
qed

lemma trie_ok_new: "trie_ok (tree_trie (new_tree blank))"
proof -
  let ?t = "tree_trie (new_tree blank)"
  have t: "?t = [blank_node no_component (turn_node_of (empty_turn blank))]" by (simp add: new_tree_def trie_new_def)
  have only: "find_node ?t a = Some n \<Longrightarrow> a = [] \<and> n = 0" for a n
    by (cases a) (auto simp: find_node_def kRootNode_def t find_child_def blank_node_def split: if_splits)
  then show ?thesis
    unfolding trie_ok_def
  proof (intro conjI allI impI)
    show "trie_wf ?t" by (simp add: new_tree_def trie_wf_new)
    show "\<exists>a. find_node ?t a = Some i" if "i < length ?t" for i using that by (auto simp: t intro: exI [of _ "[]"])
    show "sequence_end (?t ! n) = (a \<noteq> [])" if "find_node ?t a = Some n" for a n
      using only [OF that] by (simp add: t blank_node_def)
    show "allocator kind (node_value (?t ! n)) \<le> u32_max" if "find_node ?t a = Some n" for a n kind
      using only [OF that] by (simp add: t blank_node_def u32_max_def)
  qed (use only in \<open>blast+\<close>)
qed

section \<open>The operations keep the trie well formed\<close>

lemma apply_parent_not_ok: "apply_parent i a parent t \<noteq> Inl TREE_OK"
  by (auto simp: apply_parent_def split: option.splits)

text \<open>What a successful \<open>apply\<close> has established, and what the others leave alone.\<close>

lemma apply_turn_cases:
  assumes ok: "trie_ok (tree_trie tree)" and ap: "apply_turn serialize sha256 blank tn tree = (tree', status)"
  obtains (committed) p c m where "status = TREE_OK" "find_node (tree_trie tree) p = Some m"
    "find_node (tree_trie tree) (p @ [c]) = None" "ordinal c \<le> u32_max" "turn_address_of tn = Some (p @ [c])"
    "tree' = commit_turn serialize sha256 blank m (p @ [c]) tn tree"
  | (rejected) "status \<noteq> TREE_OK" "tree' = tree"
proof (cases "status = TREE_OK")
  case False
  then have "tree' = tree" using ap
    by (auto simp: apply_turn_def split: option.splits sum.splits if_splits)
  with False show ?thesis using rejected by blast
next
  case True
  obtain i where i1: "turn_id tn = Some i" "human_address i \<noteq> None"
    using ap True by (auto simp: apply_turn_def split: option.splits if_splits)
  obtain ad where i2: "parse_address (the (human_address i)) = Some ad" "\<not> u32_max < ordinal (last ad)"
    using ap True i1 by (auto simp: apply_turn_def split: option.splits if_splits)
  obtain m where i3: "apply_parent i ad (turn_parent tn) (tree_trie tree) = Inr m"
    "find_committed (tree_trie tree) ad = None" "tree' = commit_turn serialize sha256 blank m ad tn tree"
    using ap True i1 i2 apply_parent_not_ok [of i ad "turn_parent tn" "tree_trie tree"]
    by (auto simp: apply_turn_def split: sum.splits if_splits)
  note i = i1 i2 i3(2,3) and par = i3(1)
  have a: "turn_address_of tn = Some ad" using i(1-3) by (auto simp: turn_address_of_def)
  have "(length ad = 1 \<and> m = kRootNode) \<or> (\<exists>q. direct_child q ad \<and> find_committed (tree_trie tree) q = Some m)"
    using par by (auto simp: apply_parent_def split: option.splits if_splits)
  then have "\<exists>p c. ad = p @ [c] \<and> find_node (tree_trie tree) p = Some m"
  proof
    assume "length ad = 1 \<and> m = kRootNode"
    then show ?thesis by (intro exI [of _ "[]"] exI [of _ "hd ad"]) (cases ad; simp add: kRootNode_def)
  next
    assume "\<exists>q. direct_child q ad \<and> find_committed (tree_trie tree) q = Some m"
    then show ?thesis unfolding direct_child_iff find_committed_ok [OF ok] by (auto split: if_splits)
  qed
  then obtain p c where pc: "ad = p @ [c]" "find_node (tree_trie tree) p = Some m" by blast
  then have "find_node (tree_trie tree) (p @ [c]) = None" using i(5) find_committed_ok [OF ok] by simp
  with committed [OF True pc(2) this] i(4,6) a pc(1) show ?thesis by simp
qed

lemma commit_turn_trie:
  "tree_trie (commit_turn serialize sha256 blank m a tn tree) = insert_child blank m a tn (tree_trie tree)"
  by (simp add: commit_turn_def insert_child_def Let_def)

lemma trie_ok_apply [inv_intros]:
  assumes "trie_ok (tree_trie tree)"
  shows "trie_ok (tree_trie (fst (apply_turn serialize sha256 blank tn tree)))"
proof -
  obtain tree' status where ap: "apply_turn serialize sha256 blank tn tree = (tree', status)" by fastforce
  show ?thesis using assms ap
  proof (cases rule: apply_turn_cases)
    case (committed p c m)
    then show ?thesis using ap trie_ok_insert_child [OF assms committed(2-5)] by (simp add: commit_turn_trie)
  qed (use ap assms in simp)
qed

lemma find_turn_ok:
  assumes "trie_ok (tree_trie tree)"
  shows "find_turn tree a = (if a = [] then None
    else map_option (\<lambda>n. node_turn (node_value (tree_trie tree ! n))) (find_node (tree_trie tree) a))"
  using trie_okD(3) [OF assms, of a] by (auto simp: find_turn_def trie_find_def split: option.splits)

lemma find_turn_commit:
  assumes ok: "trie_ok (tree_trie tree)" and m: "find_node (tree_trie tree) p = Some m"
    and new: "find_node (tree_trie tree) (p @ [c]) = None" and c: "ordinal c \<le> u32_max"
    and tn: "turn_address_of tn = Some (p @ [c])"
  shows "find_turn (commit_turn serialize sha256 blank m (p @ [c]) tn tree) = (find_turn tree)(p @ [c] \<mapsto> tn)"
proof
  fix a :: turn_address
  let ?t = "tree_trie tree" and ?t' = "insert_child blank m (p @ [c]) tn (tree_trie tree)"
  note f = insert_child_facts [OF trie_okD(1) [OF ok] m new refl]
  have eq: "find_turn (commit_turn serialize sha256 blank m (p @ [c]) tn tree) a = (if a = [] then None
    else map_option (\<lambda>n. node_turn (node_value (?t' ! n))) (find_node ?t' a))"
    by (subst find_turn_ok) (simp_all add: commit_turn_trie trie_ok_insert_child [OF ok m new c tn])
  have "node_turn (node_value (?t' ! n)) = node_turn (node_value (?t ! n))" if "find_node ?t a = Some n" for n
    using f(5) [of n] f(6) find_node_bound [OF trie_okD(1) [OF ok] that] by (cases "n = m") simp_all
  then show "find_turn (commit_turn serialize sha256 blank m (p @ [c]) tn tree) a = ((find_turn tree)(p @ [c] \<mapsto> tn)) a"
    unfolding eq using f(3) [where a = a] f(7) by (auto simp: find_turn_ok [OF ok] intro!: map_option_cong)
qed

lemma parent_node_cases:
  assumes ok: "trie_ok t"
  obtains (error) status where "parent_node uuid parent t = Inl status" "status \<noteq> TREE_OK"
  | (root) "parent_node uuid parent t = Inr (0, None)" "parent = None"
  | (node) p n pid where "parent_node uuid parent t = Inr (n, Some p)" "find_node t p = Some n" "valid_address p"
      "parent = Some pid"
proof (cases "parent_node uuid parent t")
  case (Inl status)
  then have "status \<noteq> TREE_OK" by (auto simp: parent_node_def split: option.splits if_splits)
  with Inl error show ?thesis by blast
next
  case (Inr r)
  show ?thesis
  proof (cases parent)
    case None
    then show ?thesis using root by (simp add: parent_node_def kRootNode_def)
  next
    case (Some pid)
    with Inr obtain p n where "parse_address (the (human_address pid)) = Some p" "find_committed t p = Some n"
      "r = (n, Some p)"
      by (auto simp: parent_node_def split: option.splits if_splits)
    then show ?thesis
      using node [of n p pid] Some Inr parse_address_valid(1) [of "the (human_address pid)" p] find_committed_ok [OF ok, of p]
      by (auto split: if_splits)
  qed
qed

lemma allocate_child_step:
  assumes "\<not> (length uuid \<noteq> 16 \<or> (kind = ALPHABETIC \<and> parent = None))"
  shows "parent_node uuid parent (tree_trie tree) = Inl status \<Longrightarrow>
      allocate_child blank uuid parent kind tree = (tree, status, empty_turn blank)"
    and "parent_node uuid parent (tree_trie tree) = Inr (n, pa) \<Longrightarrow> w = allocator kind (node_value (tree_trie tree ! n)) \<Longrightarrow>
      allocate_child blank uuid parent kind tree =
        (if w = 0 then (tree, ADDRESS_EXHAUSTED, empty_turn blank)
         else (tree\<lparr>tree_trie := update_value n (set_allocator kind (successor w)) (tree_trie tree)\<rparr>, TREE_OK,
           \<lparr>turn_id = Some \<lparr>canvas_uuid = Some uuid, human_address = Some (address_string (case pa of None \<Rightarrow> root_address w
               | Some a \<Rightarrow> if kind = NUMERIC then numeric_child a w else alphabetic_child a w))\<rparr>,
            turn_parent = parent, turn_fields = blank\<rparr>))"
  unfolding allocate_child_def if_not_P [OF assms] by (auto simp: Let_def split: option.splits)

lemma allocate_child_cases:
  assumes ok: "trie_ok (tree_trie tree)"
    and al: "allocate_child blank uuid parent kind tree = (tree', status, started)"
  obtains (allocated) p n where "status = TREE_OK" "find_node (tree_trie tree) p = Some n"
    "allocator kind (node_value (tree_trie tree ! n)) \<noteq> 0"
    "turn_address_of started = Some (p @ [AddressComponent kind (allocator kind (node_value (tree_trie tree ! n)))])"
    "turn_parent started = parent"
    "tree' = tree\<lparr>tree_trie := update_value n
       (set_allocator kind (successor (allocator kind (node_value (tree_trie tree ! n))))) (tree_trie tree)\<rparr>"
  | (refused) "status \<noteq> TREE_OK" "tree' = tree" "started = empty_turn blank"
proof -
  let ?t = "tree_trie tree"
  have w: "allocator kind (node_value (?t ! n)) \<le> u64_max" if "find_node ?t p = Some n" for p n
    using trie_okD(4) [OF ok that, of kind] by (simp add: u32_max_def u64_max_def)
  show thesis
  proof (cases "length uuid \<noteq> 16 \<or> (kind = ALPHABETIC \<and> parent = None)")
    case True
    then show thesis using al refused by (simp add: allocate_child_def)
  next
    case False
    from ok show thesis
    proof (cases rule: parent_node_cases [where uuid = uuid and parent = parent])
      case (error st)
      then show thesis using allocate_child_step(1) [OF False error(1)] al refused by simp
    next
      case root
      let ?w = "allocator kind (node_value (?t ! 0))"
      have k: "kind = NUMERIC" using root(2) False by (cases kind) auto
      have "valid_address (root_address ?w)" if "?w \<noteq> 0"
        using that w [of "[]" 0] by (simp add: root_address_def valid_address_def valid_component_def)
      then show thesis
        using al refused allocated [of "[]" 0] k unfolding allocate_child_step(2) [OF False root(1) refl]
        by (auto simp: turn_address_of_def parse_address_string root_address_def split: if_splits)
    next
      case (node p n pid)
      let ?w = "allocator kind (node_value (?t ! n))"
      have ad: "(if kind = NUMERIC then numeric_child p ?w else alphabetic_child p ?w) = p @ [AddressComponent kind ?w]"
        by (cases kind) (simp_all add: numeric_child_def alphabetic_child_def)
      have "valid_address (p @ [AddressComponent kind ?w])" if "?w \<noteq> 0"
        using that w [OF node(2)] node(3) by (auto simp: valid_address_def valid_component_def)
      then show thesis
        using al refused allocated [OF _ node(2)] ad unfolding allocate_child_step(2) [OF False node(1) refl]
        by (auto simp: turn_address_of_def parse_address_string split: if_splits)
    qed
  qed
qed

lemma trie_ok_allocate [inv_intros]:
  assumes ok: "trie_ok (tree_trie tree)"
  shows "trie_ok (tree_trie (fst (allocate_child blank uuid parent kind tree)))"
proof -
  obtain tree' status started where al: "allocate_child blank uuid parent kind tree = (tree', status, started)"
    by (metis prod_cases3)
  show ?thesis using ok al
  proof (cases rule: allocate_child_cases)
    case (allocated p n)
    have "trie_ok (update_value n (set_allocator kind (successor (allocator kind (node_value (tree_trie tree ! n))))) (tree_trie tree))"
      using trie_okD(4) [OF ok allocated(2)] allocated(3)
      by (intro trie_ok_update [OF ok find_node_bound [OF trie_okD(1) [OF ok] allocated(2)]] raises_successor) blast+
    then show ?thesis using al allocated(6) by simp
  qed (use al ok in simp)
qed

section \<open>Addresses are given away once\<close>

definition watermark :: "'c turn_trie \<Rightarrow> turn_address \<Rightarrow> component_kind \<Rightarrow> nat" where
  "watermark t a kind = limit (allocator kind (node_value (t ! the (find_node t a))))"

lemma watermark_update:
  assumes "n < length t" "raises (node_value (t ! n)) (f (node_value (t ! n)))"
  shows "watermark t a kind \<le> watermark (update_value n f t) a kind"
  using assms by (simp add: watermark_def update_value_nth raises_def)

lemma watermark_apply:
  assumes ok: "trie_ok (tree_trie tree)" and a: "find_node (tree_trie tree) a = Some n"
  shows "find_node (tree_trie (fst (apply_turn serialize sha256 blank tn tree))) a = Some n \<and>
    watermark (tree_trie tree) a kind \<le> watermark (tree_trie (fst (apply_turn serialize sha256 blank tn tree))) a kind"
proof -
  obtain tree' status where ap: "apply_turn serialize sha256 blank tn tree = (tree', status)" by fastforce
  show ?thesis using ok ap
  proof (cases rule: apply_turn_cases)
    case (committed p c m)
    define t' where "t' = insert_child blank m (p @ [c]) tn (tree_trie tree)"
    note f = insert_child_facts [OF trie_okD(1) [OF ok] committed(2,3) t'_def]
    have t': "tree_trie tree' = t'" using committed(6) by (simp add: commit_turn_trie t'_def)
    have a': "find_node t' a = Some n" using a committed(3) f(3) [of a] by auto
    have cm: "ordinal c mod 2 ^ 32 \<le> u32_max" by (simp add: u32_max_def le_diff_conv2 Suc_le_eq)
    have "limit (allocator kind (node_value (tree_trie tree ! n))) \<le> limit (allocator kind (node_value (t' ! n)))"
    proof (cases "n = m")
      case True
      have "raises (node_value (tree_trie tree ! m)) (node_value (t' ! m))"
        unfolding f(6) using trie_okD(4) [OF ok committed(2)] by (intro raises_advance cm) blast
      then show ?thesis using True by (simp add: raises_def)
    qed (use f(5) find_node_bound [OF trie_okD(1) [OF ok] a] in simp)
    then show ?thesis using ap t' a' a by (simp add: watermark_def)
  qed (use ap a in simp)
qed

lemma watermark_allocate:
  assumes ok: "trie_ok (tree_trie tree)"
    and al: "allocate_child blank uuid parent kind tree = (tree', status, started)"
  shows "find_node (tree_trie tree') a = find_node (tree_trie tree) a"
    and "find_node (tree_trie tree) a = Some n \<Longrightarrow> watermark (tree_trie tree) a k \<le> watermark (tree_trie tree') a k"
    and "status = TREE_OK \<Longrightarrow> \<exists>p m. find_node (tree_trie tree) p = Some m \<and>
      turn_address_of started = Some (p @ [AddressComponent kind (watermark (tree_trie tree) p kind)]) \<and>
      watermark (tree_trie tree) p kind < watermark (tree_trie tree') p kind \<and>
      find_node (tree_trie tree) (p @ [AddressComponent kind (watermark (tree_trie tree) p kind)]) = None"
proof -
  have "find_node (tree_trie tree') a = find_node (tree_trie tree) a \<and>
    (find_node (tree_trie tree) a = Some n \<longrightarrow> watermark (tree_trie tree) a k \<le> watermark (tree_trie tree') a k) \<and>
    (status = TREE_OK \<longrightarrow> (\<exists>p m. find_node (tree_trie tree) p = Some m \<and>
      turn_address_of started = Some (p @ [AddressComponent kind (watermark (tree_trie tree) p kind)]) \<and>
      watermark (tree_trie tree) p kind < watermark (tree_trie tree') p kind \<and>
      find_node (tree_trie tree) (p @ [AddressComponent kind (watermark (tree_trie tree) p kind)]) = None))"
    using ok al
  proof (cases rule: allocate_child_cases)
    case (allocated p m)
    let ?t = "tree_trie tree" and ?w = "allocator kind (node_value (tree_trie tree ! m))"
    have mb: "m < length ?t" by (rule find_node_bound [OF trie_okD(1) [OF ok] allocated(2)])
    have alloc: "\<forall>k. allocator k (node_value (?t ! m)) \<le> u32_max" using trie_okD(4) [OF ok allocated(2)] by blast
    have t': "tree_trie tree' = update_value m (set_allocator kind (successor ?w)) ?t" using allocated(6) by simp
    have wm: "watermark ?t p kind = ?w" using allocated(2,3) by (simp add: watermark_def limit_def)
    have "watermark ?t p kind < watermark (tree_trie tree') p kind"
      using limit_successor [OF allocated(3)] alloc mb allocated(2) by (simp add: t' watermark_def update_value_nth)
    moreover have "find_node ?t (p @ [AddressComponent kind ?w]) = None"
    proof (rule ccontr)
      assume "find_node ?t (p @ [AddressComponent kind ?w]) \<noteq> None"
      then obtain j where "find_node ?t (p @ [AddressComponent kind ?w]) = Some j" by blast
      from trie_okD(5) [OF ok allocated(2) this] show False using allocated(3) by (simp add: limit_def)
    qed
    moreover have "watermark ?t a k \<le> watermark (tree_trie tree') a k"
      unfolding t' by (rule watermark_update [OF mb]) (rule raises_successor [OF allocated(3) alloc])
    ultimately show ?thesis using allocated(2,4) t' wm by auto
  qed simp
  then show "find_node (tree_trie tree') a = find_node (tree_trie tree) a"
    "find_node (tree_trie tree) a = Some n \<Longrightarrow> watermark (tree_trie tree) a k \<le> watermark (tree_trie tree') a k"
    "status = TREE_OK \<Longrightarrow> \<exists>p m. find_node (tree_trie tree) p = Some m \<and>
      turn_address_of started = Some (p @ [AddressComponent kind (watermark (tree_trie tree) p kind)]) \<and>
      watermark (tree_trie tree) p kind < watermark (tree_trie tree') p kind \<and>
      find_node (tree_trie tree) (p @ [AddressComponent kind (watermark (tree_trie tree) p kind)]) = None"
    by blast+
qed

text \<open>Histories of allocations and commits, and the addresses they give away.\<close>

datatype 'c tree_op = Allocate string "turn_id option" component_kind | Apply "'c turn"

fun allocated_addresses ::
    "('c turn \<Rightarrow> string option) \<Rightarrow> (string \<Rightarrow> string) \<Rightarrow> 'c \<Rightarrow> 'c tree_op list \<Rightarrow> 'c turn_tree \<Rightarrow> turn_address list" where
  "allocated_addresses serialize sha256 blank [] tree = []"
| "allocated_addresses serialize sha256 blank (Allocate uuid parent kind # ops) tree =
     (case allocate_child blank uuid parent kind tree of (tree', status, started) \<Rightarrow>
        (if status = TREE_OK then [the (turn_address_of started)] else []) @
        allocated_addresses serialize sha256 blank ops tree')"
| "allocated_addresses serialize sha256 blank (Apply tn # ops) tree =
     allocated_addresses serialize sha256 blank ops (fst (apply_turn serialize sha256 blank tn tree))"

lemma allocated_above:
  "trie_ok (tree_trie tree) \<Longrightarrow> find_node (tree_trie tree) p = Some n \<Longrightarrow>
    p @ [c] \<in> set (allocated_addresses serialize sha256 blank ops tree) \<Longrightarrow>
    watermark (tree_trie tree) p (component_kind c) \<le> ordinal c"
proof (induction ops arbitrary: tree n)
  case (Cons x ops)
  show ?case
  proof (cases x)
    case (Apply tn)
    let ?tree = "fst (apply_turn serialize sha256 blank tn tree)"
    have "watermark (tree_trie ?tree) p (component_kind c) \<le> ordinal c"
      using Cons.prems Apply watermark_apply [OF Cons.prems(1,2)] trie_ok_apply [OF Cons.prems(1)]
      by (intro Cons.IH) auto
    then show ?thesis using watermark_apply [OF Cons.prems(1,2)] le_trans by blast
  next
    case (Allocate uuid parent kind)
    obtain tree' status started where al: "allocate_child blank uuid parent kind tree = (tree', status, started)"
      by (metis prod_cases3)
    note wm = watermark_allocate [OF Cons.prems(1) al]
    show ?thesis
    proof (cases "p @ [c] \<in> set (allocated_addresses serialize sha256 blank ops tree')")
      case True
      have "trie_ok (tree_trie tree')" using trie_ok_allocate [OF Cons.prems(1)] al by (metis fst_conv)
      then have "watermark (tree_trie tree') p (component_kind c) \<le> ordinal c"
        using Cons.IH True wm(1) Cons.prems(2) by auto
      then show ?thesis using wm(2) [OF Cons.prems(2)] le_trans by blast
    next
      case False
      then have "status = TREE_OK" "turn_address_of started = Some (p @ [c]) \<or> the (turn_address_of started) = p @ [c]"
        using Cons.prems(3) Allocate al by (auto split: if_splits)
      then show ?thesis using wm(3) by auto
    qed
  qed
qed simp

lemma allocated_not_committed:
  "trie_ok (tree_trie tree) \<Longrightarrow> a \<in> set (allocated_addresses serialize sha256 blank ops tree) \<Longrightarrow>
    find_node (tree_trie tree) a = None"
proof (induction ops arbitrary: tree)
  case (Cons x ops)
  show ?case
  proof (cases x)
    case (Apply tn)
    have none: "find_node (tree_trie (fst (apply_turn serialize sha256 blank tn tree))) a = None"
      using Cons.prems Apply trie_ok_apply [OF Cons.prems(1)] by (intro Cons.IH) auto
    show ?thesis
    proof (cases "find_node (tree_trie tree) a")
      case (Some n)
      then show ?thesis using watermark_apply [OF Cons.prems(1) Some] none by simp
    qed simp
  next
    case (Allocate uuid parent kind)
    obtain tree' status started where al: "allocate_child blank uuid parent kind tree = (tree', status, started)"
      by (metis prod_cases3)
    note wm = watermark_allocate [OF Cons.prems(1) al]
    have ok': "trie_ok (tree_trie tree')" using trie_ok_allocate [OF Cons.prems(1)] al by (metis fst_conv)
    show ?thesis
    proof (cases "a \<in> set (allocated_addresses serialize sha256 blank ops tree')")
      case True
      then show ?thesis using Cons.IH [OF ok'] wm(1) by simp
    next
      case False
      then have "status = TREE_OK" "the (turn_address_of started) = a"
        using Cons.prems(2) Allocate al by (auto split: if_splits)
      then show ?thesis using wm(3) by auto
    qed
  qed
qed simp

lemma allocated_distinct:
  "trie_ok (tree_trie tree) \<Longrightarrow> distinct (allocated_addresses serialize sha256 blank ops tree)"
proof (induction ops arbitrary: tree)
  case (Cons x ops)
  show ?case
  proof (cases x)
    case (Apply tn)
    then show ?thesis using Cons.IH [OF trie_ok_apply [OF Cons.prems]] by simp
  next
    case (Allocate uuid parent kind)
    obtain tree' status started where al: "allocate_child blank uuid parent kind tree = (tree', status, started)"
      by (metis prod_cases3)
    note wm = watermark_allocate [OF Cons.prems al]
    have ok': "trie_ok (tree_trie tree')" using trie_ok_allocate [OF Cons.prems] al by (metis fst_conv)
    have "the (turn_address_of started) \<notin> set (allocated_addresses serialize sha256 blank ops tree')" if st: "status = TREE_OK"
    proof
      assume in_rest: "the (turn_address_of started) \<in> set (allocated_addresses serialize sha256 blank ops tree')"
      obtain p m where p: "find_node (tree_trie tree) p = Some m"
        "turn_address_of started = Some (p @ [AddressComponent kind (watermark (tree_trie tree) p kind)])"
        "watermark (tree_trie tree) p kind < watermark (tree_trie tree') p kind"
        using wm(3) [OF st] by blast
      have "watermark (tree_trie tree') p kind \<le> watermark (tree_trie tree) p kind"
        using allocated_above [OF ok' _ in_rest [unfolded p(2) option.sel], of m] wm(1) p(1) by simp
      with p(3) show False by simp
    qed
    then show ?thesis using Cons.IH [OF ok'] Allocate al by simp
  qed
qed simp

section \<open>Rebuilding\<close>

lemma apply_all_spec:
  "trie_ok (tree_trie tree) \<Longrightarrow> apply_all serialize sha256 blank ts tree = (tree', TREE_OK) \<Longrightarrow>
    trie_ok (tree_trie tree') \<and> distinct (map turn_address_of ts) \<and>
    (\<forall>tn \<in> set ts. \<exists>a. turn_address_of tn = Some a \<and> find_turn tree a = None) \<and>
    (\<forall>a tn. find_turn tree' a = Some tn \<longleftrightarrow> find_turn tree a = Some tn \<or> (tn \<in> set ts \<and> turn_address_of tn = Some a))"
proof (induction ts arbitrary: tree)
  case (Cons t ts)
  obtain tree1 status where ap: "apply_turn serialize sha256 blank t tree = (tree1, status)" by fastforce
  have ok1: "trie_ok (tree_trie tree1)"
    using trie_ok_apply [OF Cons.prems(1), of serialize sha256 blank t] ap by simp
  from Cons.prems(1) ap show ?case
  proof (cases rule: apply_turn_cases)
    case (committed p c m)
    have rest: "apply_all serialize sha256 blank ts tree1 = (tree', TREE_OK)" using Cons.prems(2) ap committed(1) by simp
    note IH = Cons.IH [OF ok1 rest]
    have ft: "find_turn tree1 = (find_turn tree)(p @ [c] \<mapsto> t)"
      using find_turn_commit [OF Cons.prems(1) committed(2-5)] committed(6) by simp
    have none: "find_turn tree (p @ [c]) = None" using committed(3) by (simp add: find_turn_ok [OF Cons.prems(1)])
    have "turn_address_of t \<notin> turn_address_of ` set ts"
    proof
      assume "turn_address_of t \<in> turn_address_of ` set ts"
      then obtain u where u: "u \<in> set ts" "turn_address_of u = Some (p @ [c])" using committed(5) by auto
      then show False using IH ft by (metis fun_upd_same option.distinct(1) option.sel)
    qed
    moreover have "\<exists>a. turn_address_of tn = Some a \<and> find_turn tree a = None" if "tn \<in> set (t # ts)" for tn
      using that IH ft none committed(5) by (auto split: if_splits)
    moreover have "find_turn tree' a = Some tn \<longleftrightarrow>
        find_turn tree a = Some tn \<or> (tn \<in> set (t # ts) \<and> turn_address_of tn = Some a)" for a tn
    proof -
      have "find_turn tree' a = Some tn \<longleftrightarrow> find_turn tree1 a = Some tn \<or> (tn \<in> set ts \<and> turn_address_of tn = Some a)"
        using IH by blast
      then show ?thesis using ft none committed(5) by auto
    qed
    ultimately show ?thesis using IH by simp
  next
    case rejected
    then show ?thesis using Cons.prems(2) ap by simp
  qed
qed simp

text \<open>The counters aside, two tries of turns are the same.\<close>

definition same_content :: "'c turn_trie \<Rightarrow> 'c turn_trie \<Rightarrow> bool" where
  "same_content r r' \<longleftrightarrow> length r' = length r \<and> (\<forall>i. children (r' ! i) = children (r ! i) \<and> key (r' ! i) = key (r ! i) \<and>
     sequence_end (r' ! i) = sequence_end (r ! i) \<and> node_turn (node_value (r' ! i)) = node_turn (node_value (r ! i)))"

lemma same_content_update:
  "\<forall>v. node_turn (f v) = node_turn v \<Longrightarrow> same_content r (update_value n f r)"
  by (simp add: same_content_def update_value_def nth_list_update')

lemma same_content_preserve: "same_content r (update_value n (preserve_node v) r)"
  by (rule same_content_update) (simp add: preserve_node_def)

lemma preserve_step_ok:
  assumes okt: "trie_ok t" and okr: "trie_ok r" and n: "find_node t a = Some n" and m: "find_node r a = Some m"
  shows "trie_ok (update_value m (preserve_node (node_value (t ! n))) r)"
    and "watermark r b kind \<le> watermark (update_value m (preserve_node (node_value (t ! n))) r) b kind"
    and "watermark t a kind \<le> watermark (update_value m (preserve_node (node_value (t ! n))) r) a kind"
proof -
  have alloc: "\<forall>k. allocator k (node_value (t ! n)) \<le> u32_max" "\<forall>k. allocator k (node_value (r ! m)) \<le> u32_max"
    using trie_okD(4) [OF okt n] trie_okD(4) [OF okr m] by blast+
  have mb: "m < length r" by (rule find_node_bound [OF trie_okD(1) [OF okr] m])
  note up = raises_preserve [OF alloc(2,1)]
  show "trie_ok (update_value m (preserve_node (node_value (t ! n))) r)" by (rule trie_ok_update [where f = "preserve_node (node_value (t ! n))", OF okr mb up])
  show "watermark r b kind \<le> watermark (update_value m (preserve_node (node_value (t ! n))) r) b kind"
    by (rule watermark_update [where f = "preserve_node (node_value (t ! n))", OF mb up])
  show "watermark t a kind \<le> watermark (update_value m (preserve_node (node_value (t ! n))) r) a kind"
    using n m mb by (simp add: watermark_def update_value_nth preserve_node_limit [OF alloc(2,1)])
qed

lemma preserve_fold:
  assumes okt: "trie_ok t"
  shows "trie_ok r \<Longrightarrow> r' = fold (\<lambda>a r. case (find_committed t a, find_committed r a) of
         (Some current, Some candidate) \<Rightarrow> update_value candidate (preserve_node (node_value (t ! current))) r
       | _ \<Rightarrow> r) as r \<Longrightarrow>
    trie_ok r' \<and> same_content r r' \<and> (\<forall>a. find_node r' a = find_node r a) \<and> (\<forall>a kind. watermark r a kind \<le> watermark r' a kind) \<and>
    (\<forall>a \<in> set as. a \<noteq> [] \<and> find_node t a \<noteq> None \<and> find_node r a \<noteq> None \<longrightarrow>
      (\<forall>kind. watermark t a kind \<le> watermark r' a kind))"
proof (induction as arbitrary: r)
  case (Cons a as)
  define r1 where "r1 = (case (find_committed t a, find_committed r a) of
         (Some current, Some candidate) \<Rightarrow> update_value candidate (preserve_node (node_value (t ! current))) r
       | _ \<Rightarrow> r)"
  have step: "trie_ok r1 \<and> same_content r r1 \<and> (\<forall>b. find_node r1 b = find_node r b) \<and> (\<forall>b kind. watermark r b kind \<le> watermark r1 b kind) \<and>
      (a \<noteq> [] \<and> find_node t a \<noteq> None \<and> find_node r a \<noteq> None \<longrightarrow> (\<forall>kind. watermark t a kind \<le> watermark r1 a kind))"
  proof (cases "a \<noteq> [] \<and> find_node t a \<noteq> None \<and> find_node r a \<noteq> None")
    case True
    then obtain n m where nm: "find_node t a = Some n" "find_node r a = Some m" by blast
    then have "r1 = update_value m (preserve_node (node_value (t ! n))) r"
      using True by (simp add: r1_def find_committed_ok [OF okt] find_committed_ok [OF Cons.prems(1)])
    then show ?thesis using preserve_step_ok [OF okt Cons.prems(1) nm] by (simp add: same_content_preserve)
  next
    case False
    then have "r1 = r"
      by (auto simp: r1_def find_committed_ok [OF okt] find_committed_ok [OF Cons.prems(1)] split: option.splits)
    then show ?thesis using Cons.prems(1) False by (auto simp: same_content_def)
  qed
  have IH: "trie_ok r' \<and> same_content r1 r' \<and> (\<forall>b. find_node r' b = find_node r1 b) \<and> (\<forall>b kind. watermark r1 b kind \<le> watermark r' b kind) \<and>
    (\<forall>b \<in> set as. b \<noteq> [] \<and> find_node t b \<noteq> None \<and> find_node r1 b \<noteq> None \<longrightarrow>
      (\<forall>kind. watermark t b kind \<le> watermark r' b kind))"
    using Cons.prems(2) step by (intro Cons.IH) (simp_all add: r1_def)
  have "same_content r r'" using IH step by (auto simp: same_content_def)
  moreover have "watermark r b kind \<le> watermark r' b kind" for b kind
    using IH step le_trans [of "watermark r b kind" "watermark r1 b kind"] by blast
  moreover have "watermark t a kind \<le> watermark r' a kind"
    if "a \<noteq> [] \<and> find_node t a \<noteq> None \<and> find_node r a \<noteq> None" for kind
    using that IH step le_trans [of "watermark t a kind" "watermark r1 a kind"] by blast
  ultimately show ?case using IH step by auto
qed (simp add: same_content_def)

lemma preserve_reservations_spec:
  assumes okt: "trie_ok t" and okr: "trie_ok r"
  shows "trie_ok (preserve_reservations t r)"
    and "find_node (preserve_reservations t r) a = find_node r a"
    and "watermark r a kind \<le> watermark (preserve_reservations t r) a kind"
    and "same_content r (preserve_reservations t r)"
    and "find_node t a \<noteq> None \<Longrightarrow> find_node r a \<noteq> None \<Longrightarrow>
      watermark t a kind \<le> watermark (preserve_reservations t r) a kind"
proof -
  define r0 where "r0 = update_value kRootNode (preserve_node (node_value (t ! kRootNode))) r"
  have r0: "trie_ok r0" "find_node r0 b = find_node r b" "watermark r b k \<le> watermark r0 b k"
    "watermark t [] k \<le> watermark r0 [] k" for b k
    using preserve_step_ok [OF okt okr, of "[]" 0 0] by (simp_all add: r0_def kRootNode_def)
  obtain as where as: "completions t [] = Some as" "set as = {ls. prefix [] ls \<and> trie_find t ls \<noteq> None}"
    using trie.complete_spec [OF trie_okD(1) [OF okt], of "[]"] by blast
  have eq: "preserve_reservations t r = fold (\<lambda>a r. case (find_committed t a, find_committed r a) of
         (Some current, Some candidate) \<Rightarrow> update_value candidate (preserve_node (node_value (t ! current))) r
       | _ \<Rightarrow> r) as r0"
    by (simp add: preserve_reservations_def as(1) r0_def)
  note pf = preserve_fold [OF okt r0(1) eq]
  show "trie_ok (preserve_reservations t r)" "find_node (preserve_reservations t r) a = find_node r a"
    using pf r0(2) by simp_all
  have "watermark r0 a kind \<le> watermark (preserve_reservations t r) a kind" using pf by blast
  with r0(3) show "watermark r a kind \<le> watermark (preserve_reservations t r) a kind" by (rule le_trans)
  have "same_content r r0" unfolding r0_def by (rule same_content_preserve)
  then show "same_content r (preserve_reservations t r)" using pf by (auto simp: same_content_def)
  show "watermark t a kind \<le> watermark (preserve_reservations t r) a kind"
    if "find_node t a \<noteq> None" "find_node r a \<noteq> None"
  proof (cases "a = []")
    case True
    have "watermark r0 [] kind \<le> watermark (preserve_reservations t r) [] kind" using pf by blast
    with r0(4) True show ?thesis by (simp add: order_trans [OF r0(4)])
  next
    case False
    then have "trie_find t a \<noteq> None"
      using that(1) trie_okD(3) [OF okt, of a] by (auto simp: trie_find_def)
    then have "a \<in> set as" using as(2) by simp
    then show ?thesis using pf False that r0(2) by simp
  qed
qed

section \<open>Content hashes\<close>

definition hash_inv :: "('c turn \<Rightarrow> string option) \<Rightarrow> (string \<Rightarrow> string) \<Rightarrow> 'c turn_tree \<Rightarrow> bool" where
  "hash_inv serialize sha256 tree \<longleftrightarrow> length (tree_hashes tree) = length (tree_trie tree) \<and>
     root_hash tree = tree_hashes tree ! 0 \<and>
     (length (tree_trie tree) = 1 \<longrightarrow> root_hash tree = zero_hash) \<and>
     (\<forall>i < length (tree_trie tree). 1 < length (tree_trie tree) \<longrightarrow>
        tree_hashes tree ! i = hash_node serialize sha256 (tree_trie tree) (tree_hashes tree) i)"

lemma hash_node_cong:
  assumes "children (t ! i) = children (t' ! i)" "sequence_end (t ! i) = sequence_end (t' ! i)"
    "node_turn (node_value (t ! i)) = node_turn (node_value (t' ! i))"
    "\<And>c. c \<in> set (children (t' ! i)) \<Longrightarrow> key (t ! c) = key (t' ! c) \<and> hs ! c = hs' ! c"
  shows "hash_node serialize sha256 t hs i = hash_node serialize sha256 t' hs' i"
proof -
  have "map (\<lambda>c. (key (t ! c), hs ! c)) (children (t ! i)) = map (\<lambda>c. (key (t' ! c), hs' ! c)) (children (t' ! i))"
    unfolding assms(1) using assms(4) by simp
  then show ?thesis unfolding hash_node_def Let_def assms(2,3) by (simp only:)
qed

lemma hash_inv_same_content:
  assumes "hash_inv serialize sha256 tree" "same_content (tree_trie tree) t'"
  shows "hash_inv serialize sha256 (tree\<lparr>tree_trie := t'\<rparr>)"
proof -
  have "hash_node serialize sha256 t' hs i = hash_node serialize sha256 (tree_trie tree) hs i" for hs i
    using assms(2) by (intro hash_node_cong) (simp_all add: same_content_def)
  then show ?thesis using assms by (auto simp: hash_inv_def same_content_def)
qed

lemma rehash_simps [simp]:
  "rehash serialize sha256 t [] hs = hs"
  "rehash serialize sha256 t (n # ns) hs = rehash serialize sha256 t ns (hs[n := hash_node serialize sha256 t hs n])"
  by (simp_all add: rehash_def)

lemma rehash_frame:
  "length (rehash serialize sha256 t ns hs) = length hs"
  "i \<notin> set ns \<Longrightarrow> rehash serialize sha256 t ns hs ! i = hs ! i"
  by (induction ns arbitrary: hs) auto

text \<open>Rehashing nodes in decreasing order: children have greater indexes, so they are final when read.\<close>

lemma rehash_spec:
  assumes wf: "trie_wf t"
  shows "sorted_wrt (>) ns \<Longrightarrow> \<forall>n \<in> set ns. n < length hs \<and> n < length t \<Longrightarrow> n \<in> set ns \<Longrightarrow>
    rehash serialize sha256 t ns hs ! n = hash_node serialize sha256 t (rehash serialize sha256 t ns hs) n"
proof (induction ns arbitrary: hs)
  case (Cons m ns)
  let ?hs = "hs[m := hash_node serialize sha256 t hs m]"
  show ?case
  proof (cases "n = m")
    case True
    have m: "m \<notin> set ns" "m < length hs" "m < length t" using Cons.prems by auto
    have "rehash serialize sha256 t ns ?hs ! c = hs ! c" if "c \<in> set (children (t ! m))" for c
    proof -
      have "m < c" using trie_wfD(4) [OF wf m(3) that] .
      then have "c \<notin> set ns" "c \<noteq> m" using Cons.prems(1) by auto
      then show ?thesis by (simp add: rehash_frame(2))
    qed
    then have "hash_node serialize sha256 t (rehash serialize sha256 t ns ?hs) m = hash_node serialize sha256 t hs m"
      by (intro hash_node_cong) simp_all
    then show ?thesis using True m by (simp add: rehash_frame(2))
  next
    case False
    then show ?thesis using Cons.IH [of ?hs] Cons.prems by auto
  qed
qed simp

lemma path_from_facts:
  assumes wf: "trie_wf t"
  shows "n < length t \<Longrightarrow> sorted_wrt (<) (path_from t n ks) \<and> (\<forall>i \<in> set (path_from t n ks). n \<le> i \<and> i < length t) \<and>
    n \<in> set (path_from t n ks) \<and>
    (\<forall>c \<in> set (path_from t n ks). c = n \<or> (\<exists>j \<in> set (path_from t n ks). c \<in> set (children (t ! j))))"
proof (induction ks arbitrary: n)
  case (Cons k ks)
  show ?case
  proof (cases "find_child t n k")
    case (Some c)
    have c: "n < c" "c < length t" by (rule find_child_bounds [OF wf Cons.prems Some])+
    have cc: "c \<in> set (children (t ! n))" using Some find_child_iff [OF wf Cons.prems] by simp
    note IH = Cons.IH [OF c(2)]
    have above: "n < i" "i < length t" if "i \<in> set (path_from t c ks)" for i
      using IH that c(1) by (meson order_less_le_trans, blast)
    have "sorted_wrt (<) (n # path_from t c ks)" using IH above(1) by simp
    moreover have "\<forall>i \<in> set (n # path_from t c ks). n \<le> i \<and> i < length t" using above Cons.prems by (simp add: order.strict_implies_order)
    moreover have "\<forall>d \<in> set (n # path_from t c ks). d = n \<or> (\<exists>j \<in> set (n # path_from t c ks). d \<in> set (children (t ! j)))"
    proof
      fix d assume "d \<in> set (n # path_from t c ks)"
      then consider "d = n" | "d = c" | "d \<in> set (path_from t c ks)" "d \<noteq> c" by auto
      then show "d = n \<or> (\<exists>j \<in> set (n # path_from t c ks). d \<in> set (children (t ! j)))"
      proof cases
        case 3
        then show ?thesis using IH by auto
      qed (use cc in auto)
    qed
    ultimately show ?thesis using Some by simp
  qed (use Cons.prems in simp)
qed simp

lemma find_in_path: "find_from t n xs = Some k \<Longrightarrow> k \<in> set (path_from t n (xs @ ys))"
proof (induction xs arbitrary: n)
  case Nil
  then show ?case by (cases ys) simp_all
qed (auto split: option.splits)

lemma hash_inv_commit:
  assumes ok: "trie_ok (tree_trie tree)" and inv: "hash_inv serialize sha256 tree"
    and m: "find_node (tree_trie tree) p = Some m" and new: "find_node (tree_trie tree) (p @ [c]) = None"
  shows "hash_inv serialize sha256 (commit_turn serialize sha256 blank m (p @ [c]) tn tree)"
proof -
  let ?t = "tree_trie tree"
  define t' where "t' = insert_child blank m (p @ [c]) tn ?t"
  define ns where "ns = rev (path_from t' 0 (p @ [c]))"
  define hs where "hs = tree_hashes tree @ [zero_hash]"
  define hs' where "hs' = rehash serialize sha256 t' ns hs"
  note f = insert_child_facts [OF trie_okD(1) [OF ok] m new t'_def]
  have len: "length (tree_hashes tree) = length ?t" using inv by (simp add: hash_inv_def)
  have tree': "commit_turn serialize sha256 blank m (p @ [c]) tn tree = \<lparr>tree_trie = t', tree_hashes = hs', root_hash = hs' ! 0\<rparr>"
  proof -
    have "trie_size (fst (trie_insert (turn_node_of (empty_turn blank)) (p @ [c]) (turn_node_of tn) ?t)) = Suc (length ?t)"
      using f(2) by (simp add: t'_def insert_child_def trie_size_def)
    then have "resize_hashes (trie_size (fst (trie_insert (turn_node_of (empty_turn blank)) (p @ [c]) (turn_node_of tn) ?t)))
        (tree_hashes tree) = hs"
      using len by (simp add: resize_hashes_def hs_def)
    then show ?thesis
      by (simp add: commit_turn_def Let_def hs'_def ns_def t'_def insert_child_def kRootNode_def)
  qed
  have lens: "length hs = length t'" "length hs' = length t'" using f(2) len by (simp_all add: hs_def hs'_def rehash_frame)
  have root: "0 < length t'" using f(2) by simp
  note path = path_from_facts [OF f(1) root, of "p @ [c]"]
  have desc: "sorted_wrt (>) ns" using path by (simp add: ns_def sorted_wrt_rev)
  have bounds: "\<forall>n \<in> set ns. n < length hs \<and> n < length t'" using path lens by (simp add: ns_def)
  have in_path: "m \<in> set ns" "length ?t \<in> set ns" "0 \<in> set ns"
  proof -
    have "find_node t' p = Some m" using m f(3) [of p] by simp
    then show "m \<in> set ns" using find_in_path [of t' 0 p m "[c]"] by (simp add: ns_def find_node_def kRootNode_def)
    have "find_node t' (p @ [c]) = Some (length ?t)" using f(3) by simp
    then show "length ?t \<in> set ns"
      using find_in_path [of t' 0 "p @ [c]" "length ?t" "[]"] by (simp add: ns_def find_node_def kRootNode_def)
    show "0 \<in> set ns" using path by (simp add: ns_def)
  qed
  have "hs' ! i = hash_node serialize sha256 t' hs' i" if i: "i < length t'" for i
  proof (cases "i \<in> set ns")
    case True
    then show ?thesis unfolding hs'_def by (rule rehash_spec [OF f(1) desc bounds])
  next
    case False
    then have ib: "i < length ?t" "i \<noteq> m" "i \<noteq> 0" using i f(2) in_path by (metis less_Suc_eq)+
    have node: "children (t' ! i) = children (?t ! i)" "sequence_end (t' ! i) = sequence_end (?t ! i)"
      "node_value (t' ! i) = node_value (?t ! i)" using f(4,5) ib by simp_all
    have kid: "key (t' ! k) = key (?t ! k) \<and> hs' ! k = tree_hashes tree ! k" if k: "k \<in> set (children (?t ! i))" for k
    proof -
      have kb: "k < length ?t" "i < k" using trie_wfD(4,5) [OF trie_okD(1) [OF ok] ib(1) k] by simp_all
      have "k \<notin> set ns"
      proof
        assume "k \<in> set ns"
        then obtain j where "j \<in> set ns" "k \<in> set (children (t' ! j))" using path kb by (auto simp: ns_def)
        moreover have "k \<in> set (children (t' ! i))" using k node(1) by simp
        ultimately have "j = i" using trie_wfD(6) [OF f(1)] bounds i by blast
        with False \<open>j \<in> set ns\<close> show False by simp
      qed
      then show ?thesis using kb(1) f(4) len by (simp add: hs'_def rehash_frame hs_def nth_append)
    qed
    have "hs' ! i = tree_hashes tree ! i"
      using False ib(1) len by (simp add: hs'_def rehash_frame hs_def nth_append)
    also have "\<dots> = hash_node serialize sha256 ?t (tree_hashes tree) i"
      using inv ib by (simp add: hash_inv_def)
    also have "\<dots> = hash_node serialize sha256 t' hs' i"
      using node kid by (intro hash_node_cong) auto
    finally show ?thesis .
  qed
  moreover have "length t' \<noteq> 1" using f(2) trie_wfD(1) [OF trie_okD(1) [OF ok]] by simp
  ultimately show ?thesis unfolding hash_inv_def tree' using lens by simp
qed

text \<open>The hash of a node is determined by the turns at and below its address.\<close>

definition tree_wf :: "('c turn \<Rightarrow> string option) \<Rightarrow> (string \<Rightarrow> string) \<Rightarrow> 'c turn_tree \<Rightarrow> bool" where
  "tree_wf serialize sha256 tree \<longleftrightarrow> trie_ok (tree_trie tree) \<and> hash_inv serialize sha256 tree"

lemma child_keys_find:
  assumes "trie_wf t" "n < length t"
  shows "set (child_keys t n) = {c. find_child t n c \<noteq> None}" "sorted_wrt (<) (child_keys t n)"
  using find_child_None_iff [OF assms] trie_wfD(3) [OF assms] by (auto simp: child_keys_def)

lemma find_node_snoc: "find_node t a = Some n \<Longrightarrow> find_node t (a @ [c]) = find_child t n c"
  by (auto simp: find_node_def find_from_append split: option.splits)

lemma same_turns_same_nodes:
  assumes "trie_ok (tree_trie x)" "trie_ok (tree_trie y)" "find_turn x = find_turn y"
  shows "find_node (tree_trie x) a = None \<longleftrightarrow> find_node (tree_trie y) a = None"
  using fun_cong [OF assms(3), of a] by (auto simp: find_turn_ok [OF assms(1)] find_turn_ok [OF assms(2)] split: if_splits)

lemma same_turns_same_hashes:
  assumes okx: "tree_wf serialize sha256 x" and oky: "tree_wf serialize sha256 y" and eq: "find_turn x = find_turn y"
    and nonempty: "1 < length (tree_trie x)" "1 < length (tree_trie y)"
  shows "find_node (tree_trie x) a = Some n \<Longrightarrow> find_node (tree_trie y) a = Some m \<Longrightarrow>
    tree_hashes x ! n = tree_hashes y ! m"
proof (induction "length (tree_trie x) - n" arbitrary: a n m rule: less_induct)
  case less
  let ?s = "tree_trie x" and ?t = "tree_trie y"
  have ok: "trie_ok ?s" "trie_ok ?t" "hash_inv serialize sha256 x" "hash_inv serialize sha256 y"
    using okx oky by (simp_all add: tree_wf_def)
  note wf = trie_okD(1) [OF ok(1)] trie_okD(1) [OF ok(2)]
  have nb: "n < length ?s" and mb: "m < length ?t" using find_node_bound wf less.prems by blast+
  have "find_child ?s n c = None \<longleftrightarrow> find_child ?t m c = None" for c
    using same_turns_same_nodes [OF ok(1,2) eq, of "a @ [c]"] less.prems by (simp add: find_node_snoc)
  then have keys: "child_keys ?s n = child_keys ?t m"
    using child_keys_find [OF wf(1) nb] child_keys_find [OF wf(2) mb] by (simp add: strict_sorted_equal)
  have "map (\<lambda>c. (key (?s ! c), tree_hashes x ! c)) (children (?s ! n)) =
      map (\<lambda>c. (key (?t ! c), tree_hashes y ! c)) (children (?t ! m))"
  proof (rule nth_equalityI)
    show len: "length (map (\<lambda>c. (key (?s ! c), tree_hashes x ! c)) (children (?s ! n))) =
        length (map (\<lambda>c. (key (?t ! c), tree_hashes y ! c)) (children (?t ! m)))"
      using keys by (metis child_keys_def length_map)
    fix j assume "j < length (map (\<lambda>c. (key (?s ! c), tree_hashes x ! c)) (children (?s ! n)))"
    then have j: "j < length (children (?s ! n))" "j < length (children (?t ! m))" using len by simp_all
    let ?c = "children (?s ! n) ! j" and ?d = "children (?t ! m) ! j"
    have k: "key (?s ! ?c) = key (?t ! ?d)" using arg_cong [OF keys, of "\<lambda>xs. xs ! j"] j by (simp add: child_keys_def)
    have "find_child ?s n (key (?s ! ?c)) = Some ?c" "find_child ?t m (key (?t ! ?d)) = Some ?d"
      using find_child_iff [OF wf(1) nb] find_child_iff [OF wf(2) mb] j by simp_all
    then have "find_node ?s (a @ [key (?s ! ?c)]) = Some ?c" "find_node ?t (a @ [key (?s ! ?c)]) = Some ?d"
      using less.prems k by (simp_all add: find_node_snoc)
    moreover have "n < ?c" "?c < length ?s" using trie_wfD(4,5) [OF wf(1) nb] j(1) by simp_all
    ultimately have "tree_hashes x ! ?c = tree_hashes y ! ?d" by (intro less.hyps) auto
    then show "map (\<lambda>c. (key (?s ! c), tree_hashes x ! c)) (children (?s ! n)) ! j =
        map (\<lambda>c. (key (?t ! c), tree_hashes y ! c)) (children (?t ! m)) ! j"
      using j k by simp
  qed
  moreover have "sequence_end (?s ! n) \<longleftrightarrow> sequence_end (?t ! m)"
    using trie_okD(3) [OF ok(1) less.prems(1)] trie_okD(3) [OF ok(2) less.prems(2)] by simp
  moreover have "sequence_end (?t ! m) \<longrightarrow> node_turn (node_value (?s ! n)) = node_turn (node_value (?t ! m))"
    using fun_cong [OF eq, of a] less.prems trie_okD(3) [OF ok(2) less.prems(2)]
    by (cases "a = []") (simp_all add: find_turn_ok [OF ok(1)] find_turn_ok [OF ok(2)])
  ultimately have "hash_node serialize sha256 ?s (tree_hashes x) n = hash_node serialize sha256 ?t (tree_hashes y) m"
    unfolding hash_node_def Let_def by presburger
  then show ?case using ok(3,4) nb mb nonempty by (simp add: hash_inv_def)
qed

lemma find_turn_nonempty:
  assumes ok: "trie_ok (tree_trie tree)"
  shows "length (tree_trie tree) = 1 \<longleftrightarrow> find_turn tree = Map.empty"
proof
  assume one: "length (tree_trie tree) = 1"
  have "find_turn tree a = None" for a
  proof (cases "find_node (tree_trie tree) a")
    case (Some n)
    then have "n = 0" using find_node_bound [OF trie_okD(1) [OF ok] Some] one by simp
    then have "a = []" using find_node_inj [OF trie_okD(1) [OF ok] Some, of "[]"] by simp
    then show ?thesis by (simp add: find_turn_ok [OF ok])
  qed (simp add: find_turn_ok [OF ok])
  then show "find_turn tree = Map.empty" by blast
next
  assume none: "find_turn tree = Map.empty"
  show "length (tree_trie tree) = 1"
  proof (rule ccontr)
    assume "length (tree_trie tree) \<noteq> 1"
    then have "1 < length (tree_trie tree)" using trie_wfD(2) [OF trie_okD(1) [OF ok]] by linarith
    then obtain a where a: "find_node (tree_trie tree) a = Some 1" using trie_okD(2) [OF ok] by blast
    then have "a \<noteq> []" by auto
    then have "find_turn tree a \<noteq> None" using a by (simp add: find_turn_ok [OF ok])
    with none show False by simp
  qed
qed

lemma root_hash_determined:
  assumes x: "tree_wf serialize sha256 x" and y: "tree_wf serialize sha256 y" and eq: "find_turn x = find_turn y"
  shows "root_hash x = root_hash y"
proof -
  have ok: "trie_ok (tree_trie x)" "trie_ok (tree_trie y)" using x y by (simp_all add: tree_wf_def)
  have iff: "length (tree_trie x) = 1 \<longleftrightarrow> length (tree_trie y) = 1" using find_turn_nonempty ok eq by metis
  have pos: "0 < length (tree_trie x)" "0 < length (tree_trie y)" using ok trie_okD(1) trie_wfD(2) by blast+
  show ?thesis
  proof (cases "length (tree_trie x) = 1")
    case True
    have "root_hash x = zero_hash" "root_hash y = zero_hash"
      using True iff x y unfolding tree_wf_def hash_inv_def by blast+
    then show ?thesis by simp
  next
    case False
    then have "1 < length (tree_trie x)" "1 < length (tree_trie y)" using iff pos by linarith+
    from same_turns_same_hashes [OF x y eq this, of "[]" 0 0] show ?thesis
      using x y by (simp add: tree_wf_def hash_inv_def)
  qed
qed

section \<open>Histories\<close>

lemma tree_wf_new: "tree_wf serialize sha256 (new_tree blank)"
  unfolding tree_wf_def by (simp add: trie_ok_new hash_inv_def) (simp add: new_tree_def trie_new_def)

lemma tree_wf_apply [inv_intros]:
  assumes "tree_wf serialize sha256 tree"
  shows "tree_wf serialize sha256 (fst (apply_turn serialize sha256 blank tn tree))"
proof -
  have ok: "trie_ok (tree_trie tree)" "hash_inv serialize sha256 tree" using assms by (simp_all add: tree_wf_def)
  obtain tree' status where ap: "apply_turn serialize sha256 blank tn tree = (tree', status)" by fastforce
  from ok(1) ap have "hash_inv serialize sha256 tree'"
  proof (cases rule: apply_turn_cases)
    case (committed p c m)
    then show ?thesis using hash_inv_commit [OF ok committed(2,3)] by simp
  qed (use ok in simp)
  then show ?thesis using trie_ok_apply [OF ok(1), of serialize sha256 blank tn] ap by (simp add: tree_wf_def)
qed

lemma tree_wf_allocate [inv_intros]:
  assumes "tree_wf serialize sha256 tree"
  shows "tree_wf serialize sha256 (fst (allocate_child blank uuid parent kind tree))"
proof -
  have ok: "trie_ok (tree_trie tree)" "hash_inv serialize sha256 tree" using assms by (simp_all add: tree_wf_def)
  obtain tree' status started where al: "allocate_child blank uuid parent kind tree = (tree', status, started)"
    by (metis prod_cases3)
  from ok(1) al have "hash_inv serialize sha256 tree'"
  proof (cases rule: allocate_child_cases)
    case (allocated p n)
    then show ?thesis using hash_inv_same_content [OF ok(2) same_content_update] by simp
  qed (use ok in simp)
  then show ?thesis using trie_ok_allocate [OF ok(1), of blank uuid parent kind] al by (simp add: tree_wf_def)
qed

lemma tree_wf_apply_all:
  "tree_wf serialize sha256 tree \<Longrightarrow> tree_wf serialize sha256 (fst (apply_all serialize sha256 blank ts tree))"
proof (induction ts arbitrary: tree)
  case (Cons t ts)
  obtain tree1 status where ap: "apply_turn serialize sha256 blank t tree = (tree1, status)" by fastforce
  then have "tree_wf serialize sha256 tree1" using tree_wf_apply [OF Cons.prems, of blank t] by simp
  then show ?case using Cons.IH ap by simp
qed simp

lemma rebuild_cases:
  assumes ok: "trie_ok (tree_trie tree)" and rb: "rebuild serialize sha256 blank turns tree = (tree', status)"
  obtains (rebuilt) candidate where "status = TREE_OK" "tree_wf serialize sha256 candidate"
    "tree' = candidate\<lparr>tree_trie := preserve_reservations (tree_trie tree) (tree_trie candidate)\<rparr>"
    "distinct (map turn_address_of turns)"
    "\<And>a tn. find_turn candidate a = Some tn \<longleftrightarrow> tn \<in> set turns \<and> turn_address_of tn = Some a"
  | (failed) "status \<noteq> TREE_OK" "tree' = tree"
proof (cases "status = TREE_OK")
  case False
  then have "tree' = tree" using rb by (auto simp: rebuild_def Let_def split: if_splits prod.splits)
  with False show thesis using failed by blast
next
  case True
  let ?ordered = "sort_key (\<lambda>t. the (turn_address_of t)) turns"
  obtain candidate st where all: "apply_all serialize sha256 blank ?ordered (new_tree blank) = (candidate, st)" by fastforce
  then have st: "st = TREE_OK" and tree': "tree' = candidate\<lparr>tree_trie := preserve_reservations (tree_trie tree) (tree_trie candidate)\<rparr>"
    using rb True by (auto simp: rebuild_def Let_def split: if_splits)
  have new: "find_turn (new_tree blank) = Map.empty"
    using find_turn_nonempty [OF trie_ok_new] by (simp add: new_tree_def trie_new_def)
  note sp = apply_all_spec [OF trie_ok_new all [unfolded st]]
  have "mset (map turn_address_of ?ordered) = mset (map turn_address_of turns)" by simp
  then have "distinct (map turn_address_of turns)" using sp by (metis mset_eq_imp_distinct_iff)
  moreover have "find_turn candidate a = Some tn \<longleftrightarrow> tn \<in> set turns \<and> turn_address_of tn = Some a" for a tn
    using sp new by simp
  moreover have "tree_wf serialize sha256 candidate"
    using tree_wf_apply_all [OF tree_wf_new, of serialize sha256 blank ?ordered blank] all by simp
  ultimately show thesis using rebuilt [OF True _ tree'] by blast
qed

lemma rebuilt_tree:
  assumes ok: "trie_ok (tree_trie tree)" and wf: "tree_wf serialize sha256 candidate"
    and tree': "tree' = candidate\<lparr>tree_trie := preserve_reservations (tree_trie tree) (tree_trie candidate)\<rparr>"
  shows "tree_wf serialize sha256 tree'" and "find_turn tree' = find_turn candidate"
proof -
  have okc: "trie_ok (tree_trie candidate)" "hash_inv serialize sha256 candidate" using wf by (simp_all add: tree_wf_def)
  note sp = preserve_reservations_spec [OF ok okc(1)]
  show "tree_wf serialize sha256 tree'"
    using sp(1) hash_inv_same_content [OF okc(2) sp(4)] by (simp add: tree' tree_wf_def)
  have ok': "trie_ok (tree_trie tree')" using sp(1) by (simp add: tree')
  have "find_turn tree' a = find_turn candidate a" for a
    unfolding find_turn_ok [OF ok'] find_turn_ok [OF okc(1)] using sp(2,4) by (simp add: tree' same_content_def)
  then show "find_turn tree' = find_turn candidate" by blast
qed

datatype 'c history_op = Step "'c tree_op" | Rebuild "'c turn list"

fun history_step ::
    "('c turn \<Rightarrow> string option) \<Rightarrow> (string \<Rightarrow> string) \<Rightarrow> 'c \<Rightarrow> 'c turn_tree \<Rightarrow> 'c history_op \<Rightarrow> 'c turn_tree" where
  "history_step serialize sha256 blank tree (Step (Allocate uuid parent kind)) =
     fst (allocate_child blank uuid parent kind tree)"
| "history_step serialize sha256 blank tree (Step (Apply tn)) = fst (apply_turn serialize sha256 blank tn tree)"
| "history_step serialize sha256 blank tree (Rebuild turns) = fst (rebuild serialize sha256 blank turns tree)"

lemma tree_wf_history_step:
  assumes "tree_wf serialize sha256 tree"
  shows "tree_wf serialize sha256 (history_step serialize sha256 blank tree x)"
proof (cases x)
  case (Step y)
  then show ?thesis using assms by (cases y) (simp_all add: tree_wf_allocate tree_wf_apply)
next
  case (Rebuild turns)
  have ok: "trie_ok (tree_trie tree)" using assms by (simp add: tree_wf_def)
  obtain tree' status where rb: "rebuild serialize sha256 blank turns tree = (tree', status)" by fastforce
  from ok rb show ?thesis
  proof (cases rule: rebuild_cases)
    case (rebuilt candidate)
    then show ?thesis using rebuilt_tree(1) [OF ok rebuilt(2,3)] Rebuild rb by simp
  qed (use assms Rebuild rb in simp)
qed

lemma tree_wf_history:
  "tree_wf serialize sha256 (foldl (history_step serialize sha256 blank) (new_tree blank) ops)"
proof -
  have "tree_wf serialize sha256 tree \<Longrightarrow> tree_wf serialize sha256 (foldl (history_step serialize sha256 blank) tree ops)" for tree
  proof (induction ops arbitrary: tree)
    case (Cons x ops)
    then show ?case using Cons.IH [OF tree_wf_history_step [OF Cons.prems]] by simp
  qed simp
  from this [OF tree_wf_new] show ?thesis .
qed

lemma apply_turn_find:
  assumes "trie_ok (tree_trie tree)" "snd (apply_turn serialize sha256 blank tn tree) = TREE_OK"
  shows "find_turn (fst (apply_turn serialize sha256 blank tn tree)) = (find_turn tree)(the (turn_address_of tn) \<mapsto> tn)"
proof -
  obtain tree' where ap: "apply_turn serialize sha256 blank tn tree = (tree', TREE_OK)" using assms(2) by (metis prod.collapse)
  from assms(1) ap show ?thesis
  proof (cases rule: apply_turn_cases)
    case (committed p c m)
    then show ?thesis using find_turn_commit [OF assms(1) committed(2-5)] ap by simp
  qed simp
qed

lemma allocate_child_find:
  assumes ok: "trie_ok (tree_trie tree)"
  shows "find_turn (fst (allocate_child blank uuid parent kind tree)) = find_turn tree"
proof -
  obtain tree' status started where al: "allocate_child blank uuid parent kind tree = (tree', status, started)"
    by (metis prod_cases3)
  have ok': "trie_ok (tree_trie tree')" using trie_ok_allocate [OF ok, of blank uuid parent kind] al by simp
  from ok al have "find_turn tree' = find_turn tree"
  proof (cases rule: allocate_child_cases)
    case (allocated p n)
    have "same_content (tree_trie tree) (tree_trie tree')" using allocated(6) by (simp add: same_content_update)
    then show ?thesis
      unfolding fun_eq_iff find_turn_ok [OF ok'] find_turn_ok [OF ok] using allocated(6) by (simp add: same_content_def)
  qed simp
  then show ?thesis using al by simp
qed

section \<open>Properties\<close>

text \<open>A serialiser and a digest to evaluate the operations with, and a first root turn.\<close>

definition demo_serialize :: "unit turn \<Rightarrow> string option" where
  "demo_serialize t = Option.bind (turn_id t) human_address"

definition demo_uuid :: string where
  "demo_uuid = ''0123456789abcdef''"

definition demo_turn :: "string \<Rightarrow> string option \<Rightarrow> unit turn" where
  "demo_turn a p = \<lparr>turn_id = Some \<lparr>canvas_uuid = Some demo_uuid, human_address = Some a\<rparr>,
     turn_parent = map_option (\<lambda>a. \<lparr>canvas_uuid = Some demo_uuid, human_address = Some a\<rparr>) p, turn_fields = ()\<rparr>"

definition demo_tree :: "unit turn_tree" where
  "demo_tree = fst (apply_turn demo_serialize id () (demo_turn ''1'' None) (new_tree ()))"

text \<open>
  C7: no address is given away twice. In any history of replies, parts and commits on a
  well-formed tree the allocated addresses are pairwise different, and none of them was
  committed in the tree before.
\<close>

theorem allocations_unique:
  assumes "tree_wf serialize sha256 tree"
  shows "distinct (allocated_addresses serialize sha256 blank ops tree) \<and>
    (\<forall>a \<in> set (allocated_addresses serialize sha256 blank ops tree). find_turn tree a = None)"
proof -
  have ok: "trie_ok (tree_trie tree)" using assms by (simp add: tree_wf_def)
  then show ?thesis
    using allocated_distinct allocated_not_committed by (auto simp: find_turn_ok [OF ok])
qed

theorem allocations_unique_witness:
  "tree_wf demo_serialize id (new_tree ()) \<and>
   allocated_addresses demo_serialize id () [Allocate demo_uuid None NUMERIC, Allocate demo_uuid None NUMERIC] (new_tree ()) =
     [root_address 1, root_address 2] \<and>
   distinct (allocated_addresses demo_serialize id () [Allocate demo_uuid None NUMERIC, Allocate demo_uuid None NUMERIC] (new_tree ()))"
proof -
  let ?ops = "[Allocate demo_uuid None NUMERIC, Allocate demo_uuid None NUMERIC]"
  have "allocated_addresses demo_serialize id () ?ops (new_tree ()) = [root_address 1, root_address 2]"
    by (simp add: allocate_child_def demo_uuid_def parent_node_def new_tree_def trie_new_def blank_node_def
        turn_node_of_def allocator_def set_allocator_def update_value_def successor_def u32_max_def kRootNode_def
        turn_address_of_def root_address_def parse_address_string valid_address_def valid_component_def u64_max_def)
  then show ?thesis
    using allocations_unique [OF tree_wf_new [of demo_serialize id "()"], where blank = "()" and ops = ?ops]
      tree_wf_new [of demo_serialize id "()"] by blast
qed

text \<open>
  C9: \<open>apply\<close> on every branch. A refused turn leaves the tree as it was; an accepted one has a
  valid address whose last ordinal fits 32 bits and that was not committed, its parent is
  committed (or it is a root), and the only change to the committed turns is its own entry.
\<close>

theorem apply_turn_correct:
  assumes "tree_wf serialize sha256 tree" "apply_turn serialize sha256 blank tn tree = (tree', status)"
  shows "tree_wf serialize sha256 tree' \<and>
    (if status = TREE_OK then
       (\<exists>p c. turn_address_of tn = Some (p @ [c]) \<and> ordinal c \<le> u32_max \<and> find_turn tree (p @ [c]) = None \<and>
          (p = [] \<or> find_turn tree p \<noteq> None) \<and> find_turn tree' = (find_turn tree)(p @ [c] \<mapsto> tn) \<and>
          tree_size tree' = tree_size tree + 1)
     else tree' = tree)"
proof -
  have ok: "trie_ok (tree_trie tree)" using assms by (simp add: tree_wf_def)
  have wf': "tree_wf serialize sha256 tree'" using tree_wf_apply [OF assms(1), of blank tn] assms(2) by simp
  from ok assms(2) show ?thesis
  proof (cases rule: apply_turn_cases)
    case (committed p c m)
    have len: "length (tree_trie tree') = Suc (length (tree_trie tree))"
      using insert_child_facts(2) [OF trie_okD(1) [OF ok] committed(2,3) refl] committed(6) by (simp add: commit_turn_trie)
    have "tree_size tree' = tree_size tree + 1"
      using len trie_wfD(2) [OF trie_okD(1) [OF ok]] by (simp add: tree_size_def trie_size_def)
    moreover have "find_turn tree' = (find_turn tree)(p @ [c] \<mapsto> tn)"
      using find_turn_commit [OF ok committed(2-5)] committed(6) by simp
    ultimately show ?thesis
      using committed(1-5) wf' by (auto simp: find_turn_ok [OF ok])
  qed (use assms(1) in simp)
qed

theorem apply_turn_correct_witness:
  "apply_turn demo_serialize id () (demo_turn ''1'' None) (new_tree ()) = (demo_tree, TREE_OK) \<and>
   tree_wf demo_serialize id demo_tree \<and> find_turn demo_tree (root_address 1) = Some (demo_turn ''1'' None)"
proof -
  have st: "snd (apply_turn demo_serialize id () (demo_turn ''1'' None) (new_tree ())) = TREE_OK"
    by (simp add: apply_turn_def demo_turn_def demo_uuid_def parse_evaluation u32_max_def apply_parent_def
        find_committed_def new_tree_def trie_new_def blank_node_def find_node_def find_child_def kRootNode_def)
  then have ap: "apply_turn demo_serialize id () (demo_turn ''1'' None) (new_tree ()) = (demo_tree, TREE_OK)"
    by (simp add: demo_tree_def prod_eq_iff)
  have a: "turn_address_of (demo_turn ''1'' None) = Some (root_address 1)"
    by (simp add: turn_address_of_def demo_turn_def parse_evaluation root_address_def)
  show ?thesis using apply_turn_correct [OF tree_wf_new ap] ap a by (auto simp: fun_upd_def)
qed

text \<open>
  \<open>rebuild\<close> is all or nothing. When it fails the tree is unchanged; when it succeeds the
  committed turns are exactly the given ones, each at its own address, the root hash is again
  the content hash, and no counter of a parent present in both trees has gone back.
\<close>

lemma rebuild_correct:
  assumes "tree_wf serialize sha256 tree" "rebuild serialize sha256 blank turns tree = (tree', status)"
  shows "if status \<noteq> TREE_OK then tree' = tree
    else tree_wf serialize sha256 tree' \<and> distinct (map turn_address_of turns) \<and>
      (\<forall>a tn. find_turn tree' a = Some tn \<longleftrightarrow> tn \<in> set turns \<and> turn_address_of tn = Some a) \<and>
      (\<forall>a kind. (a = [] \<or> find_turn tree a \<noteq> None \<and> find_turn tree' a \<noteq> None) \<longrightarrow>
        watermark (tree_trie tree) a kind \<le> watermark (tree_trie tree') a kind)"
proof -
  have ok: "trie_ok (tree_trie tree)" using assms by (simp add: tree_wf_def)
  from ok assms(2) show ?thesis
  proof (cases rule: rebuild_cases)
    case (rebuilt candidate)
    have okc: "trie_ok (tree_trie candidate)" using rebuilt(2) by (simp add: tree_wf_def)
    note new = rebuilt_tree [OF ok rebuilt(2,3)]
    have "watermark (tree_trie tree) a kind \<le> watermark (tree_trie tree') a kind"
      if "a = [] \<or> find_turn tree a \<noteq> None \<and> find_turn tree' a \<noteq> None" for a kind
      using that preserve_reservations_spec(5) [OF ok okc, of a kind] rebuilt(3) new(2)
      by (auto simp: find_turn_ok [OF ok] find_turn_ok [OF okc] split: if_splits)
    then show ?thesis using new rebuilt(1,4,5) by simp
  qed simp
qed

text \<open>
  C8: the root hash is a function of the committed turns. Two trees that any histories of
  allocations, commits and rebuilds have produced have the same root hash whenever they hold
  the same turns, in whatever order these were committed, although \<open>apply\<close> recomputes the
  hashes of one path only.
\<close>

theorem root_hash_canonical:
  assumes "find_turn (foldl (history_step serialize sha256 blank) (new_tree blank) ops) =
    find_turn (foldl (history_step serialize sha256 blank) (new_tree blank) ops')"
  shows "root_hash (foldl (history_step serialize sha256 blank) (new_tree blank) ops) =
    root_hash (foldl (history_step serialize sha256 blank) (new_tree blank) ops')"
  by (rule root_hash_determined [OF tree_wf_history tree_wf_history assms])

theorem root_hash_canonical_witness:
  "let x = foldl (history_step demo_serialize id ()) (new_tree ()) [Step (Apply (demo_turn ''1'' None))];
       y = foldl (history_step demo_serialize id ()) (new_tree ())
         [Step (Allocate demo_uuid None NUMERIC), Step (Apply (demo_turn ''1'' None))]
   in find_turn x = find_turn y \<and> root_hash x = root_hash y"
proof -
  let ?x = "foldl (history_step demo_serialize id ()) (new_tree ()) [Step (Apply (demo_turn ''1'' None))]"
    and ?y = "foldl (history_step demo_serialize id ()) (new_tree ())
         [Step (Allocate demo_uuid None NUMERIC), Step (Apply (demo_turn ''1'' None))]"
  have "snd (apply_turn demo_serialize id () (demo_turn ''1'' None) (fst (allocate_child () demo_uuid None NUMERIC (new_tree ())))) = TREE_OK"
    "snd (apply_turn demo_serialize id () (demo_turn ''1'' None) (new_tree ())) = TREE_OK"
    by (simp_all add: apply_turn_def demo_turn_def demo_uuid_def parse_evaluation u32_max_def apply_parent_def
        find_committed_def new_tree_def trie_new_def blank_node_def find_node_def find_child_def kRootNode_def
        allocate_child_def parent_node_def update_value_def turn_node_of_def allocator_def)
  note st = this
  have "find_turn ?x = find_turn ?y"
    using apply_turn_find [OF trie_ok_allocate [OF trie_ok_new] st(1)] apply_turn_find [OF trie_ok_new st(2)]
      allocate_child_find [OF trie_ok_new, where blank = "()" and uuid = demo_uuid and parent = None and kind = NUMERIC] by simp
  with root_hash_canonical [OF this] show ?thesis unfolding Let_def by blast
qed

end
