(* ===== verification/Ipc_Types.thy ===== *)
theory Ipc_Types
  imports Prelude
begin

text \<open>
  \<open>utils/ipc/status.hpp\<close>: the result codes of the IPC components, and the interface of a codec
  whose encodings can be concatenated: decoding reads one value off the front of a byte stream
  and says how many bytes belonged to it.
\<close>

datatype ipc_status = IPC_OK | IPC_INVALID_ARGUMENT | INVALID_CHANNEL_NAME | INVALID_TRANSPORT_PATH
  | DUPLICATE_CHANNEL | CHANNEL_NOT_FOUND | CHANNEL_UNAVAILABLE | NOT_CONNECTED | MESSAGE_TOO_LARGE
  | PARTIAL_TRANSFER | IO_ERROR | END_OF_STREAM | MALFORMED_MESSAGE | TRUNCATED_MESSAGE
  | UNSUPPORTED_VERSION | CHECKSUM_MISMATCH | IDENTIFIER_EXHAUSTED

record transfer_result =
  transfer_status :: ipc_status
  transfer_bytes :: nat

section \<open>Streams of encoded values\<close>

locale stream_codec =
  fixes valid :: "'m \<Rightarrow> bool"
    and encode :: "'m \<Rightarrow> bytes"
    and decode :: "bytes \<Rightarrow> ('d \<times> nat) option"
    and view :: "'m \<Rightarrow> 'd"
  assumes encode_nonempty: "valid m \<Longrightarrow> encode m \<noteq> []"
    and decode_encode: "valid m \<Longrightarrow> decode (encode m @ rest) = Some (view m, length (encode m))"
    and decode_partial: "valid m \<Longrightarrow> k < length (encode m) \<Longrightarrow> decode (take k (encode m)) = None"
begin

text \<open>Decoding while the front of the stream decodes; the fuel bounds the number of values.\<close>

fun decode_stream :: "nat \<Rightarrow> bytes \<Rightarrow> 'd list \<times> bytes" where
  "decode_stream 0 data = ([], data)"
| "decode_stream (Suc fuel) data =
     (case decode data of None \<Rightarrow> ([], data)
      | Some (d, n) \<Rightarrow> let (ds, rest) = decode_stream fuel (drop n data) in (d # ds, rest))"

lemma encode_inj_view:
  assumes "valid m" "valid m'" "encode m = encode m'"
  shows "view m = view m'"
  using decode_encode [OF assms(1), of "[]"] decode_encode [OF assms(2), of "[]"] assms(3) by simp

text \<open>A stream of whole encodings and one encoding cut short gives back the values and the cut.\<close>

lemma decode_stream_concat:
  assumes "\<forall>m \<in> set ms. valid m" "valid m'" "k < length (encode m')" "length ms < fuel"
  shows "decode_stream fuel (concat (map encode ms) @ take k (encode m')) = (map view ms, take k (encode m'))"
  using assms
proof (induction ms arbitrary: fuel)
  case Nil
  then obtain f where "fuel = Suc f" by (cases fuel) auto
  then show ?case using decode_partial [OF assms(2,3)] by simp
next
  case (Cons m ms)
  then obtain f where f: "fuel = Suc f" by (cases fuel) auto
  have "decode_stream f (concat (map encode ms) @ take k (encode m')) = (map view ms, take k (encode m'))"
    using Cons f by simp
  then show ?case using f decode_encode [of m] Cons.prems(1) by simp
qed

end

end
