(* ===== verification/Wire_Message.thy ===== *)
theory Wire_Message
  imports Ipc_Types
begin

text \<open>
  \<open>utils/ipc/msg.hpp\<close> and \<open>msg.cpp\<close>: the versioned wire format of IPC messages. SHA-256 comes
  from a third-party library and is the argument \<open>sha256\<close> of the definitions; the only fact used
  of it is that a digest has 32 bytes. Fields keep their C++ widths; sizes are natural numbers
  with the \<open>size_t\<close> bound where the source tests for it.
\<close>

unbundle bit_operations_syntax

section \<open>Constants and integers\<close>

definition kMagic :: bytes where
  "kMagic = [0x50, 0x55, 0x43, 0x49]"

definition kWireVersion :: u8 where "kWireVersion = 0"
definition kBaseHeaderBytes :: nat where "kBaseHeaderBytes = 24"
definition kMaximumSessionIdBytes :: nat where "kMaximumSessionIdBytes = 16"
definition kChecksumBytes :: nat where "kChecksumBytes = 32"
definition kSessionFlag :: u8 where "kSessionFlag = 1"
definition kTimestampFlag :: u8 where "kTimestampFlag = 2"
definition kMultipartFlag :: u8 where "kMultipartFlag = 4"
definition kChecksumFlag :: u8 where "kChecksumFlag = 8"
definition kExtensionFlag :: u8 where "kExtensionFlag = 16"
definition kKnownFlags :: u8 where
  "kKnownFlags = kSessionFlag OR kTimestampFlag OR kMultipartFlag OR kChecksumFlag OR kExtensionFlag"

definition append_integer :: "'a::len word \<Rightarrow> bytes" where
  "append_integer v = map (\<lambda>offset. ucast (drop_bit ((offset - 1) * 8) v)) (rev [1..<Suc (LENGTH('a) div 8)])"

definition read_integer :: "bytes \<Rightarrow> nat \<Rightarrow> 'a::len word" where
  "read_integer data offset =
     foldl (\<lambda>v index. push_bit 8 v OR ucast (data ! (offset + index))) 0 [0..<LENGTH('a) div 8]"

section \<open>Messages\<close>

record session_id =
  session_length :: u8
  session_data :: bytes

record multipart_header =
  total_parts :: u32
  part_index :: u32

record message =
  msg_channel_id :: u32
  msg_message_id :: u32
  msg_session :: "session_id option"
  msg_timestamp :: "u64 option"
  msg_multipart :: "multipart_header option"
  msg_extension :: bytes
  msg_payload :: bytes
  include_checksum :: bool

record wire_header =
  wire_version :: u8
  wire_header_bytes :: u16
  has_session_id :: bool
  has_timestamp :: bool
  is_multipart :: bool
  has_checksum :: bool
  has_extension :: bool

record decoded_message =
  dec_wire :: wire_header
  dec_channel_id :: u32
  dec_message_id :: u32
  dec_payload_length :: u64
  dec_session :: "session_id option"
  dec_timestamp :: "u64 option"
  dec_multipart :: "multipart_header option"
  dec_extension :: bytes
  dec_payload :: bytes
  dec_checksum :: "bytes option"

text \<open>\<open>SessionId::operator==\<close> compares the declared bytes only.\<close>

definition session_eq :: "session_id \<Rightarrow> session_id \<Rightarrow> bool" where
  "session_eq s t \<longleftrightarrow> session_length s = session_length t \<and>
     (\<forall>i < min (unat (session_length s)) 16. session_data s ! i = session_data t ! i)"

section \<open>Serialisation\<close>

definition optional_header_bytes :: "message \<Rightarrow> nat" where
  "optional_header_bytes m = kBaseHeaderBytes +
     (case msg_session m of None \<Rightarrow> 0 | Some s \<Rightarrow> 1 + unat (session_length s)) +
     (case msg_timestamp m of None \<Rightarrow> 0 | Some _ \<Rightarrow> 8) +
     (case msg_multipart m of None \<Rightarrow> 0 | Some _ \<Rightarrow> 8)"

definition message_flags :: "message \<Rightarrow> u8" where
  "message_flags m =
     (if msg_session m \<noteq> None then kSessionFlag else 0) OR
     (if msg_timestamp m \<noteq> None then kTimestampFlag else 0) OR
     (if msg_multipart m \<noteq> None then kMultipartFlag else 0) OR
     (if include_checksum m then kChecksumFlag else 0) OR
     (if msg_extension m = [] then 0 else kExtensionFlag)"

definition encode_base :: "message \<Rightarrow> nat \<Rightarrow> bytes" where
  "encode_base m header_bytes =
     kMagic @ [kWireVersion] @ [message_flags m] @ append_integer (word_of_nat header_bytes :: u16) @
     append_integer (msg_channel_id m) @ append_integer (msg_message_id m) @
     append_integer (word_of_nat (length (msg_payload m)) :: u64)"

definition encode_options :: "message \<Rightarrow> bytes" where
  "encode_options m =
     (case msg_session m of None \<Rightarrow> []
      | Some s \<Rightarrow> session_length s # take (unat (session_length s)) (session_data s)) @
     (case msg_timestamp m of None \<Rightarrow> [] | Some t \<Rightarrow> append_integer t) @
     (case msg_multipart m of None \<Rightarrow> []
      | Some p \<Rightarrow> append_integer (total_parts p) @ append_integer (part_index p)) @
     msg_extension m"

definition serialize_message :: "(bytes \<Rightarrow> bytes) \<Rightarrow> message \<Rightarrow> nat \<Rightarrow> ipc_status + bytes" where
  "serialize_message sha256 m maximum_payload_bytes =
     (if msg_channel_id m = 0 \<or> maximum_payload_bytes = 0 then Inl IPC_INVALID_ARGUMENT
      else if maximum_payload_bytes < length (msg_payload m) then Inl MESSAGE_TOO_LARGE
      else if (case msg_session m of None \<Rightarrow> False
         | Some s \<Rightarrow> session_length s = 0 \<or> kMaximumSessionIdBytes < unat (session_length s))
      then Inl IPC_INVALID_ARGUMENT
      else if (case msg_multipart m of None \<Rightarrow> False
         | Some p \<Rightarrow> total_parts p = 0 \<or> total_parts p \<le> part_index p)
      then Inl IPC_INVALID_ARGUMENT
      else if 65535 - optional_header_bytes m < length (msg_extension m) then Inl MESSAGE_TOO_LARGE
      else let header_bytes = optional_header_bytes m + length (msg_extension m);
               output = encode_base m header_bytes @ encode_options m @ msg_payload m
        in Inr (if include_checksum m then output @ sha256 output else output))"

section \<open>Deserialisation\<close>

definition checksum_matches :: "bytes \<Rightarrow> bytes \<Rightarrow> bool" where
  "checksum_matches expected actual =
     (foldl (\<lambda>difference index. difference OR (expected ! index XOR actual ! index)) 0
        [0..<length expected] = (0 :: u8))"

text \<open>The optional sections, each from a cursor: the section and the cursor behind it.\<close>

definition decode_session :: "bytes \<Rightarrow> nat \<Rightarrow> bool \<Rightarrow> nat \<Rightarrow> ipc_status + (session_id option \<times> nat)" where
  "decode_session data header_bytes present cursor =
     (if \<not> present then Inr (None, cursor)
      else if header_bytes \<le> cursor then Inl MALFORMED_MESSAGE
      else let len = data ! cursor; cursor1 = cursor + 1
        in if len = 0 \<or> kMaximumSessionIdBytes < unat len \<or> header_bytes - cursor1 < unat len
           then Inl MALFORMED_MESSAGE
           else Inr (Some \<lparr>session_length = len,
               session_data = take (unat len) (drop cursor1 data) @ replicate (16 - unat len) 0\<rparr>,
             cursor1 + unat len))"

definition decode_timestamp :: "bytes \<Rightarrow> nat \<Rightarrow> bool \<Rightarrow> nat \<Rightarrow> ipc_status + (u64 option \<times> nat)" where
  "decode_timestamp data header_bytes present cursor =
     (if \<not> present then Inr (None, cursor)
      else if header_bytes - cursor < 8 then Inl MALFORMED_MESSAGE
      else Inr (Some (read_integer data cursor), cursor + 8))"

definition decode_multipart :: "bytes \<Rightarrow> nat \<Rightarrow> bool \<Rightarrow> nat \<Rightarrow> ipc_status + (multipart_header option \<times> nat)" where
  "decode_multipart data header_bytes present cursor =
     (if \<not> present then Inr (None, cursor)
      else if header_bytes - cursor < 8 then Inl MALFORMED_MESSAGE
      else let p = \<lparr>total_parts = read_integer data cursor, part_index = read_integer data (cursor + 4)\<rparr>
        in if total_parts p = 0 \<or> total_parts p \<le> part_index p then Inl MALFORMED_MESSAGE
           else Inr (Some p, cursor + 8))"

definition decode_extension :: "bytes \<Rightarrow> nat \<Rightarrow> bool \<Rightarrow> nat \<Rightarrow> ipc_status + bytes" where
  "decode_extension data header_bytes present cursor =
     (if present then
        (if cursor = header_bytes then Inl MALFORMED_MESSAGE
         else Inr (take (header_bytes - cursor) (drop cursor data)))
      else if cursor \<noteq> header_bytes then Inl MALFORMED_MESSAGE else Inr [])"

text \<open>Payload and checksum, once the header has been read into \<open>decoded\<close>.\<close>

definition decode_body ::
    "(bytes \<Rightarrow> bytes) \<Rightarrow> bytes \<Rightarrow> nat \<Rightarrow> decoded_message \<Rightarrow> ipc_status + (decoded_message \<times> nat)" where
  "decode_body sha256 data header_bytes decoded =
     (let payload_bytes = unat (dec_payload_length decoded);
          checksum_bytes = (if has_checksum (dec_wire decoded) then kChecksumBytes else 0)
      in if size_max - header_bytes - checksum_bytes < payload_bytes then Inl MESSAGE_TOO_LARGE
         else let total_bytes = header_bytes + payload_bytes + checksum_bytes
           in if length data < total_bytes then Inl TRUNCATED_MESSAGE
              else let decoded1 = decoded\<lparr>dec_payload := take payload_bytes (drop header_bytes data)\<rparr>
                in if has_checksum (dec_wire decoded) then
                     (let expected = sha256 (take (total_bytes - kChecksumBytes) data);
                          encoded = take kChecksumBytes (drop (total_bytes - kChecksumBytes) data)
                      in if \<not> checksum_matches expected encoded then Inl CHECKSUM_MISMATCH
                         else Inr (decoded1\<lparr>dec_checksum := Some encoded\<rparr>, total_bytes))
                   else Inr (decoded1, total_bytes))"

definition decode_options ::
    "bytes \<Rightarrow> nat \<Rightarrow> decoded_message \<Rightarrow> ipc_status + decoded_message" where
  "decode_options data header_bytes decoded =
     (case decode_session data header_bytes (has_session_id (dec_wire decoded)) kBaseHeaderBytes of
        Inl status \<Rightarrow> Inl status
      | Inr (session, cursor1) \<Rightarrow>
          (case decode_timestamp data header_bytes (has_timestamp (dec_wire decoded)) cursor1 of
             Inl status \<Rightarrow> Inl status
           | Inr (timestamp, cursor2) \<Rightarrow>
               (case decode_multipart data header_bytes (is_multipart (dec_wire decoded)) cursor2 of
                  Inl status \<Rightarrow> Inl status
                | Inr (multipart, cursor3) \<Rightarrow>
                    (case decode_extension data header_bytes (has_extension (dec_wire decoded)) cursor3 of
                       Inl status \<Rightarrow> Inl status
                     | Inr extension \<Rightarrow> Inr (decoded\<lparr>dec_session := session, dec_timestamp := timestamp,
                         dec_multipart := multipart, dec_extension := extension\<rparr>)))))"

definition deserialize_message ::
    "(bytes \<Rightarrow> bytes) \<Rightarrow> bytes \<Rightarrow> nat \<Rightarrow> ipc_status + (decoded_message \<times> nat)" where
  "deserialize_message sha256 data maximum_payload_bytes =
     (if maximum_payload_bytes = 0 then Inl IPC_INVALID_ARGUMENT
      else if length data < kBaseHeaderBytes then Inl TRUNCATED_MESSAGE
      else if take 4 data \<noteq> kMagic then Inl MALFORMED_MESSAGE
      else if data ! 4 \<noteq> kWireVersion then Inl UNSUPPORTED_VERSION
      else let flags = data ! 5 in
        if flags AND NOT kKnownFlags \<noteq> 0 then Inl MALFORMED_MESSAGE
      else let header_bytes = unat (read_integer data 6 :: u16) in
        if header_bytes < kBaseHeaderBytes then Inl MALFORMED_MESSAGE
      else if length data < header_bytes then Inl TRUNCATED_MESSAGE
      else let decoded = \<lparr>dec_wire = \<lparr>wire_version = data ! 4, wire_header_bytes = word_of_nat header_bytes,
                 has_session_id = (flags AND kSessionFlag \<noteq> 0), has_timestamp = (flags AND kTimestampFlag \<noteq> 0),
                 is_multipart = (flags AND kMultipartFlag \<noteq> 0), has_checksum = (flags AND kChecksumFlag \<noteq> 0),
                 has_extension = (flags AND kExtensionFlag \<noteq> 0)\<rparr>,
               dec_channel_id = read_integer data 8, dec_message_id = read_integer data 12,
               dec_payload_length = read_integer data 16, dec_session = None, dec_timestamp = None,
               dec_multipart = None, dec_extension = [], dec_payload = [], dec_checksum = None\<rparr> in
        if dec_channel_id decoded = 0 then Inl MALFORMED_MESSAGE
      else if maximum_payload_bytes < unat (dec_payload_length decoded) then Inl MESSAGE_TOO_LARGE
      else case decode_options data header_bytes decoded of
          Inl status \<Rightarrow> Inl status
        | Inr decoded1 \<Rightarrow> decode_body sha256 data header_bytes decoded1)"

section \<open>Integers in network byte order\<close>

lemma length_append_integer [simp]: "length (append_integer (v :: 'a::len word)) = LENGTH('a) div 8"
  by (simp add: append_integer_def)

lemma append_integer_nth:
  assumes "i < LENGTH('a) div 8"
  shows "append_integer (v :: 'a::len word) ! i = ucast (drop_bit ((LENGTH('a) div 8 - 1 - i) * 8) v)"
proof -
  have "rev [1..<Suc (LENGTH('a) div 8)] ! i = LENGTH('a) div 8 - i"
    using assms by (subst rev_nth) (simp_all del: upt_Suc)
  then show ?thesis using assms by (simp add: append_integer_def del: upt_Suc)
qed

lemma combine_byte:
  assumes "8 \<le> LENGTH('a)"
  shows "push_bit 8 (drop_bit 8 w) OR ucast (ucast w :: u8) = (w :: 'a::len word)"
  by (rule bit_word_eqI) (use assms in \<open>auto simp: bit_simps\<close>)

lemma read_append_integer:
  assumes d: "8 dvd LENGTH('a)" and len: "length pre = offset"
  shows "read_integer (pre @ append_integer (v :: 'a::len word) @ post) offset = v"
proof -
  let ?n = "LENGTH('a) div 8" and ?data = "pre @ append_integer v @ post"
  have n: "?n * 8 = LENGTH('a)" using d by simp
  have pos: "8 \<le> LENGTH('a)" using d by (metis dvd_imp_le len_gt_0)
  have "foldl (\<lambda>v index. push_bit 8 v OR ucast (?data ! (offset + index))) 0 [0..<k] =
      drop_bit ((?n - k) * 8) v" if "k \<le> ?n" for k
    using that
  proof (induction k)
    case 0
    have "drop_bit (?n * 8) v = 0" unfolding n by (rule bit_word_eqI) (simp add: bit_simps)
    then show ?case by simp
  next
    case (Suc k)
    let ?w = "drop_bit ((?n - Suc k) * 8) v"
    have eq: "(?n - k) * 8 = (?n - Suc k) * 8 + 8" using Suc.prems by (simp add: Suc_diff_Suc)
    have "?data ! (offset + k) = ucast ?w"
      using Suc.prems len by (simp add: nth_append append_integer_nth)
    then have "foldl (\<lambda>v index. push_bit 8 v OR ucast (?data ! (offset + index))) 0 [0..<Suc k] =
        push_bit 8 (drop_bit 8 ?w) OR ucast (ucast ?w :: u8)"
      using Suc by (simp add: eq drop_bit_drop_bit add.commute)
    also have "\<dots> = ?w" by (rule combine_byte [OF pos])
    finally show ?case .
  qed
  from this [of ?n] show ?thesis by (simp add: read_integer_def)
qed

section \<open>Flags and checksums\<close>

lemma flag_tests:
  fixes s t m c e :: bool
  defines "f \<equiv> (if s then kSessionFlag else 0) OR (if t then kTimestampFlag else 0) OR
     (if m then kMultipartFlag else 0) OR (if c then kChecksumFlag else 0) OR (if e then 0 else kExtensionFlag)"
  shows "f AND NOT kKnownFlags = 0" "(f AND kSessionFlag \<noteq> 0) = s" "(f AND kTimestampFlag \<noteq> 0) = t"
    "(f AND kMultipartFlag \<noteq> 0) = m" "(f AND kChecksumFlag \<noteq> 0) = c" "(f AND kExtensionFlag \<noteq> 0) = (\<not> e)"
  unfolding f_def kSessionFlag_def kTimestampFlag_def kMultipartFlag_def kChecksumFlag_def kExtensionFlag_def kKnownFlags_def
  by (cases s; cases t; cases m; cases c; cases e; simp)+

lemma word_nat_small: "n < 2 ^ LENGTH('a) \<Longrightarrow> unat (word_of_nat n :: 'a::len word) = n"
  by (simp add: unsigned_of_nat take_bit_nat_eq_self)

lemma xor_zero_iff: "(a XOR b = 0) = (a = (b :: 'a::len word))"
proof
  assume "a XOR b = 0"
  then have "(a XOR b) XOR b = b" by simp
  then show "a = b" by (simp add: xor.assoc)
qed simp

lemma fold_difference:
  "foldl (\<lambda>difference index. difference OR (f index XOR g index)) (d :: 'a::len word) xs = 0 \<longleftrightarrow>
    d = 0 \<and> (\<forall>i \<in> set xs. f i = g i)"
proof (induction xs arbitrary: d)
  case (Cons x xs)
  have "(d OR (f x XOR g x) = 0) = (d = 0 \<and> f x = g x)"
    using xor_zero_iff [of "f x" "g x"] by (simp add: or_eq_0_iff)
  with Cons show ?case by auto
qed simp

lemma checksum_matches_iff:
  assumes len: "length expected = length actual"
  shows "checksum_matches expected actual \<longleftrightarrow> expected = actual"
proof -
  have "checksum_matches expected actual \<longleftrightarrow> (\<forall>i < length expected. expected ! i = actual ! i)"
    using fold_difference [of "\<lambda>i. expected ! i" "\<lambda>i. actual ! i" 0 "[0..<length expected]"]
    by (auto simp: checksum_matches_def)
  also have "\<dots> \<longleftrightarrow> expected = actual" using nth_equalityI [OF len] by blast
  finally show ?thesis .
qed

section \<open>Round trip\<close>

text \<open>A message that the serialiser accepts, with the array and span sizes C++ guarantees.\<close>

definition valid_message :: "nat \<Rightarrow> message \<Rightarrow> bool" where
  "valid_message maximum m \<longleftrightarrow>
     msg_channel_id m \<noteq> 0 \<and> length (msg_payload m) \<le> maximum \<and> 0 < maximum \<and>
     (\<forall>s. msg_session m = Some s \<longrightarrow> session_length s \<noteq> 0 \<and> unat (session_length s) \<le> 16 \<and> length (session_data s) = 16) \<and>
     (\<forall>p. msg_multipart m = Some p \<longrightarrow> part_index p < total_parts p) \<and>
     optional_header_bytes m + length (msg_extension m) \<le> 65535 \<and>
     length (msg_payload m) + 65535 + 32 \<le> size_max"

definition encode_message :: "(bytes \<Rightarrow> bytes) \<Rightarrow> message \<Rightarrow> bytes" where
  "encode_message sha256 m =
     (let output = encode_base m (optional_header_bytes m + length (msg_extension m)) @ encode_options m @ msg_payload m
      in if include_checksum m then output @ sha256 output else output)"

definition pad_session :: "session_id \<Rightarrow> session_id" where
  "pad_session s = s\<lparr>session_data := take (unat (session_length s)) (session_data s) @
     replicate (16 - unat (session_length s)) 0\<rparr>"

definition view_header :: "message \<Rightarrow> decoded_message" where
  "view_header m =
     \<lparr>dec_wire = \<lparr>wire_version = 0, wire_header_bytes = word_of_nat (optional_header_bytes m + length (msg_extension m)),
        has_session_id = (msg_session m \<noteq> None), has_timestamp = (msg_timestamp m \<noteq> None),
        is_multipart = (msg_multipart m \<noteq> None), has_checksum = include_checksum m,
        has_extension = (msg_extension m \<noteq> [])\<rparr>,
      dec_channel_id = msg_channel_id m, dec_message_id = msg_message_id m,
      dec_payload_length = word_of_nat (length (msg_payload m)), dec_session = map_option pad_session (msg_session m),
      dec_timestamp = msg_timestamp m, dec_multipart = msg_multipart m, dec_extension = msg_extension m,
      dec_payload = [], dec_checksum = None\<rparr>"

definition view_message :: "(bytes \<Rightarrow> bytes) \<Rightarrow> message \<Rightarrow> decoded_message" where
  "view_message sha256 m = (view_header m)\<lparr>dec_payload := msg_payload m,
     dec_checksum := (if include_checksum m
       then Some (sha256 (encode_base m (optional_header_bytes m + length (msg_extension m)) @ encode_options m @ msg_payload m))
       else None)\<rparr>"

lemma serialize_valid:
  assumes "valid_message maximum m"
  shows "serialize_message sha256 m maximum = Inr (encode_message sha256 m)"
  using assms
  by (auto simp: serialize_message_def valid_message_def encode_message_def kMaximumSessionIdBytes_def Let_def
      not_le split: option.splits)

lemma length_encode_base [simp]: "length (encode_base m h) = 24"
  by (simp add: encode_base_def kMagic_def)

lemma length_encode_options:
  assumes "valid_message maximum m"
  shows "length (encode_options m) + 24 = optional_header_bytes m + length (msg_extension m)"
  using assms
  by (auto simp: encode_options_def optional_header_bytes_def kBaseHeaderBytes_def valid_message_def split: option.splits)

text \<open>The fixed part of the header, whatever follows it.\<close>

lemma base_reads:
  assumes data_def: "data = encode_base m h @ rest"
  shows "take 4 data = kMagic" "data ! 4 = 0" "data ! 5 = message_flags m"
    "read_integer data 6 = (word_of_nat h :: u16)" "read_integer data 8 = msg_channel_id m"
    "read_integer data 12 = msg_message_id m" "read_integer data 16 = (word_of_nat (length (msg_payload m)) :: u64)"
proof -
  let ?h = "append_integer (word_of_nat h :: u16)" and ?c = "append_integer (msg_channel_id m)"
    and ?i = "append_integer (msg_message_id m)" and ?l = "append_integer (word_of_nat (length (msg_payload m)) :: u64)"
    and ?pre = "kMagic @ [kWireVersion] @ [message_flags m]"
  show "take 4 data = kMagic" "data ! 4 = 0" "data ! 5 = message_flags m"
    by (simp_all add: data_def encode_base_def kMagic_def kWireVersion_def)
  show "read_integer data 6 = (word_of_nat h :: u16)"
    using read_append_integer [of ?pre 6 "word_of_nat h :: u16" "?c @ ?i @ ?l @ rest"]
    by (simp add: data_def encode_base_def kMagic_def)
  show "read_integer data 8 = msg_channel_id m"
    using read_append_integer [of "?pre @ ?h" 8 "msg_channel_id m" "?i @ ?l @ rest"]
    by (simp add: data_def encode_base_def kMagic_def)
  show "read_integer data 12 = msg_message_id m"
    using read_append_integer [of "?pre @ ?h @ ?c" 12 "msg_message_id m" "?l @ rest"]
    by (simp add: data_def encode_base_def kMagic_def)
  show "read_integer data 16 = (word_of_nat (length (msg_payload m)) :: u64)"
    using read_append_integer [of "?pre @ ?h @ ?c @ ?i" 16 "word_of_nat (length (msg_payload m)) :: u64" rest]
    by (simp add: data_def encode_base_def kMagic_def)
qed

text \<open>The optional sections, each at the cursor where its encoding starts.\<close>

lemma decode_session_at:
  assumes "length pre = cursor"
    and "\<forall>x. s = Some x \<longrightarrow> session_length x \<noteq> 0 \<and> unat (session_length x) \<le> 16 \<and> length (session_data x) = 16"
    and "enc = (case s of None \<Rightarrow> [] | Some x \<Rightarrow> session_length x # take (unat (session_length x)) (session_data x))"
    and "cursor + length enc \<le> header_bytes"
  shows "decode_session (pre @ enc @ post) header_bytes (s \<noteq> None) cursor = Inr (map_option pad_session s, cursor + length enc)"
proof (cases s)
  case (Some x)
  have len: "unat (session_length x) \<le> 16" "length (session_data x) = 16" "session_length x \<noteq> 0"
    using assms(2) Some by simp_all
  have "(pre @ enc @ post) ! cursor = session_length x" using assms(1,3) Some by (simp add: nth_append)
  moreover have "take (unat (session_length x)) (drop (cursor + 1) (pre @ enc @ post)) = take (unat (session_length x)) (session_data x)"
    using assms(1,3) Some len by simp
  moreover have "length enc = 1 + unat (session_length x)" using assms(3) Some len by simp
  ultimately show ?thesis
    using Some len assms(4) by (simp add: decode_session_def Let_def kMaximumSessionIdBytes_def pad_session_def)
qed (use assms in \<open>simp add: decode_session_def\<close>)

lemma decode_timestamp_at:
  assumes "length pre = cursor" "enc = (case t of None \<Rightarrow> [] | Some x \<Rightarrow> append_integer x)" "cursor + length enc \<le> header_bytes"
  shows "decode_timestamp (pre @ enc @ post) header_bytes (t \<noteq> None) cursor = Inr (t, cursor + length enc)"
  using assms read_append_integer [of pre cursor "the t" post]
  by (cases t) (simp_all add: decode_timestamp_def)

lemma decode_multipart_at:
  assumes "length pre = cursor" "\<forall>x. p = Some x \<longrightarrow> part_index x < total_parts x"
    and "enc = (case p of None \<Rightarrow> [] | Some x \<Rightarrow> append_integer (total_parts x) @ append_integer (part_index x))"
    and "cursor + length enc \<le> header_bytes"
  shows "decode_multipart (pre @ enc @ post) header_bytes (p \<noteq> None) cursor = Inr (p, cursor + length enc)"
proof (cases p)
  case (Some x)
  have "read_integer (pre @ enc @ post) cursor = total_parts x"
    using read_append_integer [of pre cursor "total_parts x" "append_integer (part_index x) @ post"] assms(1,3) Some by simp
  moreover have "read_integer (pre @ enc @ post) (cursor + 4) = part_index x"
    using read_append_integer [of "pre @ append_integer (total_parts x)" "cursor + 4" "part_index x" post] assms(1,3) Some by simp
  moreover have "part_index x < total_parts x" "total_parts x \<noteq> 0" using assms(2) Some by auto
  ultimately show ?thesis using Some assms(3,4) by (simp add: decode_multipart_def not_le)
qed (use assms in \<open>simp add: decode_multipart_def\<close>)

lemma decode_extension_at:
  assumes "length pre = cursor" "header_bytes = cursor + length e"
  shows "decode_extension (pre @ e @ post) header_bytes (e \<noteq> []) cursor = Inr e"
  using assms by (simp add: decode_extension_def)

lemma decode_options_at:
  assumes v: "valid_message maximum m" and w: "dec_wire d = dec_wire (view_header m)"
  shows "decode_options (encode_base m h @ encode_options m @ tail) (optional_header_bytes m + length (msg_extension m)) d =
    Inr (d\<lparr>dec_session := map_option pad_session (msg_session m), dec_timestamp := msg_timestamp m,
      dec_multipart := msg_multipart m, dec_extension := msg_extension m\<rparr>)"
proof -
  let ?hb = "optional_header_bytes m + length (msg_extension m)"
  define b where "b = encode_base m h"
  define es where "es = (case msg_session m of None \<Rightarrow> [] | Some s \<Rightarrow> session_length s # take (unat (session_length s)) (session_data s))"
  define et where "et = (case msg_timestamp m of None \<Rightarrow> [] | Some t \<Rightarrow> append_integer t)"
  define ep where "ep = (case msg_multipart m of None \<Rightarrow> [] | Some p \<Rightarrow> append_integer (total_parts p) @ append_integer (part_index p))"
  let ?e = "msg_extension m"
  have opts: "encode_options m = es @ et @ ep @ ?e" by (simp add: encode_options_def es_def et_def ep_def)
  have hb: "?hb = 24 + length es + length et + length ep + length ?e"
    using length_encode_options [OF v] by (simp add: opts)
  have b: "length b = 24" by (simp add: b_def)
  have s: "decode_session (b @ es @ et @ ep @ ?e @ tail) ?hb (msg_session m \<noteq> None) kBaseHeaderBytes =
      Inr (map_option pad_session (msg_session m), 24 + length es)"
    using decode_session_at [of b 24 "msg_session m" es ?hb "et @ ep @ ?e @ tail"] v b hb
    by (simp add: valid_message_def es_def kBaseHeaderBytes_def)
  have t: "decode_timestamp (b @ es @ et @ ep @ ?e @ tail) ?hb (msg_timestamp m \<noteq> None) (24 + length es) =
      Inr (msg_timestamp m, 24 + length es + length et)"
    using decode_timestamp_at [of "b @ es" "24 + length es" et "msg_timestamp m" ?hb "ep @ ?e @ tail"] b hb by (simp add: et_def)
  have p: "decode_multipart (b @ es @ et @ ep @ ?e @ tail) ?hb (msg_multipart m \<noteq> None) (24 + length es + length et) =
      Inr (msg_multipart m, 24 + length es + length et + length ep)"
    using decode_multipart_at [of "b @ es @ et" "24 + length es + length et" "msg_multipart m" ep ?hb "?e @ tail"] b hb v
    by (simp add: ep_def valid_message_def)
  have e: "decode_extension (b @ es @ et @ ep @ ?e @ tail) ?hb (?e \<noteq> []) (24 + length es + length et + length ep) = Inr ?e"
    using decode_extension_at [of "b @ es @ et @ ep" "24 + length es + length et + length ep" ?hb ?e tail] b hb by simp
  have flags: "has_session_id (dec_wire d) = (msg_session m \<noteq> None)" "has_timestamp (dec_wire d) = (msg_timestamp m \<noteq> None)"
    "is_multipart (dec_wire d) = (msg_multipart m \<noteq> None)" "has_extension (dec_wire d) = (?e \<noteq> [])"
    using w by (simp_all add: view_header_def)
  have data: "encode_base m h @ encode_options m @ tail = b @ es @ et @ ep @ ?e @ tail" by (simp add: opts b_def)
  show ?thesis unfolding decode_options_def data flags by (simp only: s t p e sum.case prod.case)
qed

text \<open>Once the whole header is there, what is decoded depends on the bytes behind it only in \<open>decode_body\<close>.\<close>

lemma deserialize_header:
  assumes v: "valid_message maximum m"
  shows "deserialize_message sha256 (encode_base m (optional_header_bytes m + length (msg_extension m)) @ encode_options m @ tail) maximum =
    decode_body sha256 (encode_base m (optional_header_bytes m + length (msg_extension m)) @ encode_options m @ tail)
      (optional_header_bytes m + length (msg_extension m)) (view_header m)"
proof -
  define h where "h = optional_header_bytes m + length (msg_extension m)"
  define data where "data = encode_base m h @ encode_options m @ tail"
  note r = base_reads [OF data_def]
  have hb: "24 \<le> h" "h \<le> 65535" "length (encode_options m) + 24 = h"
    using v length_encode_options [OF v] by (simp_all add: h_def valid_message_def optional_header_bytes_def kBaseHeaderBytes_def)
  have len: "h \<le> length data" using hb(3) by (simp add: data_def)
  have hw: "unat (word_of_nat h :: u16) = h" using hb(2) by (simp add: word_nat_small)
  have pl: "unat (word_of_nat (length (msg_payload m)) :: u64) = length (msg_payload m)"
    using v by (simp add: valid_message_def size_max_def word_nat_small)
  have ch: "msg_channel_id m \<noteq> 0" "length (msg_payload m) \<le> maximum" "maximum \<noteq> 0" using v by (simp_all add: valid_message_def)
  note ft = flag_tests [of "msg_session m \<noteq> None" "msg_timestamp m \<noteq> None" "msg_multipart m \<noteq> None" "include_checksum m"
      "msg_extension m = []", folded message_flags_def]
  define d where "d = (view_header m)\<lparr>dec_session := None, dec_timestamp := None, dec_multipart := None, dec_extension := []\<rparr>"
  have dv: "d = \<lparr>dec_wire = \<lparr>wire_version = 0, wire_header_bytes = word_of_nat h,
        has_session_id = (msg_session m \<noteq> None), has_timestamp = (msg_timestamp m \<noteq> None),
        is_multipart = (msg_multipart m \<noteq> None), has_checksum = include_checksum m,
        has_extension = (msg_extension m \<noteq> [])\<rparr>,
      dec_channel_id = msg_channel_id m, dec_message_id = msg_message_id m,
      dec_payload_length = word_of_nat (length (msg_payload m)), dec_session = None,
      dec_timestamp = None, dec_multipart = None, dec_extension = [], dec_payload = [], dec_checksum = None\<rparr>"
    by (simp add: d_def view_header_def h_def)
  have dec: "decode_options data h d = Inr (view_header m)"
  proof -
    have "decode_options data h d = Inr (d\<lparr>dec_session := map_option pad_session (msg_session m), dec_timestamp := msg_timestamp m,
      dec_multipart := msg_multipart m, dec_extension := msg_extension m\<rparr>)"
      unfolding data_def h_def by (rule decode_options_at [OF v]) (simp add: d_def)
    also have "\<dots> = Inr (view_header m)" by (simp add: d_def view_header_def)
    finally show ?thesis .
  qed
  have "deserialize_message sha256 data maximum = decode_body sha256 data h (view_header m)"
    unfolding deserialize_message_def Let_def r hw ft
    using hb len ch pl dec dv by (simp add: kBaseHeaderBytes_def kWireVersion_def)
  then show ?thesis by (simp add: data_def h_def)
qed

lemma body_sizes:
  assumes v: "valid_message maximum m" and sha: "\<forall>x. length (sha256 x) = 32"
  defines "h \<equiv> optional_header_bytes m + length (msg_extension m)"
  defines "c \<equiv> if include_checksum m then 32 else 0 :: nat"
  shows "unat (dec_payload_length (view_header m)) = length (msg_payload m)"
    "\<not> size_max - h - c < length (msg_payload m)" "has_checksum (dec_wire (view_header m)) = include_checksum m"
    "length (encode_base m h @ encode_options m) = h"
    "length (encode_message sha256 m) = h + length (msg_payload m) + c"
proof -
  show "unat (dec_payload_length (view_header m)) = length (msg_payload m)"
    using v by (simp add: view_header_def valid_message_def size_max_def word_nat_small)
  show "\<not> size_max - h - c < length (msg_payload m)"
    using v by (auto simp: valid_message_def h_def c_def)
  show "has_checksum (dec_wire (view_header m)) = include_checksum m" by (simp add: view_header_def)
  show "length (encode_base m h @ encode_options m) = h" using length_encode_options [OF v] by (simp add: h_def)
  then show "length (encode_message sha256 m) = h + length (msg_payload m) + c"
    by (simp add: encode_message_def Let_def h_def [symmetric] c_def sha)
qed

lemma deserialize_encoded:
  assumes v: "valid_message maximum m" and sha: "\<forall>x. length (sha256 x) = 32"
  shows "deserialize_message sha256 (encode_message sha256 m @ rest) maximum =
    Inr (view_message sha256 m, length (encode_message sha256 m))"
proof -
  define h where "h = optional_header_bytes m + length (msg_extension m)"
  define hdr where "hdr = encode_base m h @ encode_options m"
  define out where "out = hdr @ msg_payload m"
  note b = body_sizes [OF v sha, folded h_def]
  have hdr: "length hdr = h" using b(4) by (simp add: hdr_def)
  have vm: "view_message sha256 m = (view_header m)\<lparr>dec_payload := msg_payload m,
      dec_checksum := (if include_checksum m then Some (sha256 out) else None)\<rparr>"
    by (simp add: view_message_def out_def hdr_def h_def)
  have chk: "dec_checksum (view_header m) = None" by (simp add: view_header_def)
  have em: "encode_message sha256 m = (if include_checksum m then out @ sha256 out else out)"
    by (simp add: encode_message_def Let_def out_def hdr_def h_def)
  have split: "encode_message sha256 m @ rest = encode_base m h @ encode_options m @ drop h (encode_message sha256 m @ rest)"
  proof -
    have "encode_message sha256 m @ rest = hdr @ drop h (encode_message sha256 m @ rest)"
      using hdr by (simp add: em out_def)
    then show ?thesis unfolding hdr_def append_assoc .
  qed
  have "deserialize_message sha256 (encode_message sha256 m @ rest) maximum =
      decode_body sha256 (encode_message sha256 m @ rest) h (view_header m)"
    using deserialize_header [OF v, of sha256 "drop h (encode_message sha256 m @ rest)", folded h_def]
    unfolding split [symmetric] .
  also have "\<dots> = Inr (view_message sha256 m, length (encode_message sha256 m))"
  proof (cases "include_checksum m")
    case True
    have len: "length out = h + length (msg_payload m)" using hdr by (simp add: out_def)
    show ?thesis
      unfolding decode_body_def Let_def b(1,3) using True b(2) hdr len sha chk
      by (simp add: em kChecksumBytes_def checksum_matches_iff vm out_def)
  next
    case False
    then show ?thesis
      unfolding decode_body_def Let_def b(1,3) using b(2) hdr chk by (simp add: em kChecksumBytes_def vm out_def)
  qed
  finally show ?thesis .
qed

lemma deserialize_short_header:
  assumes "maximum \<noteq> 0" "24 \<le> length data" "take 4 data = kMagic" "data ! 4 = 0"
    "data ! 5 AND NOT kKnownFlags = 0" "24 \<le> unat (read_integer data 6 :: u16)"
    "length data < unat (read_integer data 6 :: u16)"
  shows "deserialize_message sha256 data maximum = Inl TRUNCATED_MESSAGE"
  unfolding deserialize_message_def Let_def using assms by (simp add: kBaseHeaderBytes_def kWireVersion_def)

lemma deserialize_cut:
  assumes v: "valid_message maximum m" and sha: "\<forall>x. length (sha256 x) = 32" and k: "k < length (encode_message sha256 m)"
  shows "deserialize_message sha256 (take k (encode_message sha256 m)) maximum = Inl TRUNCATED_MESSAGE"
proof -
  define h where "h = optional_header_bytes m + length (msg_extension m)"
  define hdr where "hdr = encode_base m h @ encode_options m"
  note b = body_sizes [OF v sha, folded h_def]
  have hdr: "length hdr = h" using b(4) by (simp add: hdr_def)
  have h24: "24 \<le> h" by (simp add: h_def optional_header_bytes_def kBaseHeaderBytes_def)
  obtain tail where em: "encode_message sha256 m = hdr @ tail"
    by (simp add: encode_message_def Let_def hdr_def h_def) (metis append_assoc)
  have max: "maximum \<noteq> 0" using v by (simp add: valid_message_def)
  consider "k < 24" | "24 \<le> k" "k < h" | "h \<le> k" by linarith
  then show ?thesis
  proof cases
    case 1
    then have "length (take k (encode_message sha256 m)) < kBaseHeaderBytes" by (simp add: kBaseHeaderBytes_def)
    then show ?thesis using max unfolding deserialize_message_def by simp
  next
    case 2
    define rest where "rest = take (k - 24) (encode_options m @ tail)"
    have data: "take k (encode_message sha256 m) = encode_base m h @ rest"
      using 2 by (simp add: em hdr_def rest_def)
    have len: "length (take k (encode_message sha256 m)) = k" using k by simp
    note r = base_reads [OF data]
    have "h \<le> 65535" using v by (simp add: valid_message_def h_def)
    then have hw: "unat (word_of_nat h :: u16) = h" by (simp add: word_nat_small)
    have "message_flags m AND NOT kKnownFlags = 0" unfolding message_flags_def by (rule flag_tests(1))
    then show ?thesis using 2 max r(1-4) hw len by (intro deserialize_short_header) simp_all
  next
    case 3
    have data: "take k (encode_message sha256 m) = encode_base m h @ encode_options m @ take (k - h) tail"
      using 3 hdr by (simp add: em hdr_def)
    have len: "length (take k (encode_message sha256 m)) = k" using k by simp
    have "deserialize_message sha256 (take k (encode_message sha256 m)) maximum =
        decode_body sha256 (take k (encode_message sha256 m)) h (view_header m)"
      using deserialize_header [OF v, of sha256 "take (k - h) tail", folded h_def] data by simp
    also have "\<dots> = Inl TRUNCATED_MESSAGE"
      unfolding decode_body_def Let_def b(1,3) len using b(2,5) k by (auto simp: kChecksumBytes_def)
    finally show ?thesis .
  qed
qed

section \<open>Properties\<close>

text \<open>
  What the deserialiser returns on success, as an option: the interface of concatenated
  streams is interpreted on the codec for any digest function with 32-byte results.
\<close>

definition decode_message :: "(bytes \<Rightarrow> bytes) \<Rightarrow> nat \<Rightarrow> bytes \<Rightarrow> (decoded_message \<times> nat) option" where
  "decode_message sha256 maximum data =
     (case deserialize_message sha256 data maximum of Inl _ \<Rightarrow> None | Inr r \<Rightarrow> Some r)"

definition digest32 :: "(bytes \<Rightarrow> bytes) \<Rightarrow> bytes \<Rightarrow> bytes" where
  "digest32 sha256 x = take 32 (sha256 x @ replicate 32 0)"

lemma digest32_length: "\<forall>x. length (digest32 sha256 x) = 32"
  by (auto simp: digest32_def min_def)

interpretation wire: stream_codec "valid_message maximum" "encode_message (digest32 sha256)"
  "decode_message (digest32 sha256) maximum" "view_message (digest32 sha256)"
  for maximum :: nat and sha256 :: "bytes \<Rightarrow> bytes"
proof unfold_locales
  fix m rest and k :: nat
  assume v: "valid_message maximum m"
  have "24 \<le> length (encode_message (digest32 sha256) m)"
    by (simp add: encode_message_def Let_def)
  then show "encode_message (digest32 sha256) m \<noteq> []" by auto
  show "decode_message (digest32 sha256) maximum (encode_message (digest32 sha256) m @ rest) =
      Some (view_message (digest32 sha256) m, length (encode_message (digest32 sha256) m))"
    using deserialize_encoded [OF v digest32_length] by (simp add: decode_message_def)
  show "decode_message (digest32 sha256) maximum (take k (encode_message (digest32 sha256) m)) = None"
    if "k < length (encode_message (digest32 sha256) m)"
    using deserialize_cut [OF v digest32_length that] by (simp add: decode_message_def)
qed

definition ping :: message where
  "ping = \<lparr>msg_channel_id = 7, msg_message_id = 1, msg_session = Some \<lparr>session_length = 2, session_data = [1, 2] @ replicate 14 9\<rparr>,
     msg_timestamp = None, msg_multipart = Some \<lparr>total_parts = 3, part_index = 2\<rparr>, msg_extension = [5],
     msg_payload = [10, 20, 30], include_checksum = True\<rparr>"

lemma ping_valid: "valid_message 100 ping"
  by (simp add: valid_message_def ping_def optional_header_bytes_def kBaseHeaderBytes_def size_max_def)

text \<open>
  C14: round trip of the wire codec. Whatever digest function with 32-byte results is used, an
  accepted message followed by any bytes is deserialised to the same routing fields, session
  (its declared bytes), timestamp, part position, extension and payload, with its checksum
  verified and exactly the message's own bytes consumed.
\<close>

theorem message_round_trip:
  assumes "valid_message maximum m" "\<forall>x. length (sha256 x) = 32"
  shows "\<exists>output d. serialize_message sha256 m maximum = Inr output \<and>
    deserialize_message sha256 (output @ rest) maximum = Inr (d, length output) \<and>
    dec_channel_id d = msg_channel_id m \<and> dec_message_id d = msg_message_id m \<and>
    unat (dec_payload_length d) = length (msg_payload m) \<and>
    rel_option session_eq (dec_session d) (msg_session m) \<and> dec_timestamp d = msg_timestamp m \<and>
    dec_multipart d = msg_multipart m \<and> dec_extension d = msg_extension m \<and> dec_payload d = msg_payload m \<and>
    (dec_checksum d \<noteq> None \<longleftrightarrow> include_checksum m)"
proof -
  have "session_eq (pad_session s) s" if "msg_session m = Some s" for s
    using assms(1) that by (auto simp: session_eq_def pad_session_def valid_message_def nth_append)
  then have "rel_option session_eq (map_option pad_session (msg_session m)) (msg_session m)"
    by (cases "msg_session m") simp_all
  moreover have "unat (dec_payload_length (view_header m)) = length (msg_payload m)"
    by (rule body_sizes(1) [OF assms])
  ultimately show ?thesis
    using serialize_valid [OF assms(1), of sha256] deserialize_encoded [OF assms, of rest]
    by (auto simp: view_message_def view_header_def)
qed

theorem message_round_trip_witness:
  "valid_message 100 ping \<and> (\<exists>output d. serialize_message (digest32 id) ping 100 = Inr output \<and>
    deserialize_message (digest32 id) (output @ [1]) 100 = Inr (d, length output) \<and> dec_payload d = [10, 20, 30])"
  using message_round_trip [OF ping_valid digest32_length [of id], of "[1]"] ping_valid by (auto simp: ping_def)

text \<open>
  An incomplete message is recognised as incomplete. Every proper prefix of an encoded
  message deserialises to \<open>TRUNCATED_MESSAGE\<close>, never to another error and never to a message, so
  that a reader of a stream can wait for more bytes.
\<close>

lemma message_prefix_truncated:
  assumes "valid_message maximum m" "\<forall>x. length (sha256 x) = 32" "serialize_message sha256 m maximum = Inr output"
    "k < length output"
  shows "deserialize_message sha256 (take k output) maximum = Inl TRUNCATED_MESSAGE"
  using assms serialize_valid [OF assms(1), of sha256] deserialize_cut [OF assms(1,2)] by simp

text \<open>
  Streams of messages. Decoding a concatenation of encoded messages with the last one cut
  short returns exactly the complete messages, in order, and leaves the cut bytes.
\<close>

lemma message_stream:
  assumes "\<forall>m \<in> set ms. valid_message maximum m" "valid_message maximum m'"
    "k < length (encode_message (digest32 sha256) m')"
  shows "wire.decode_stream sha256 maximum (Suc (length ms))
      (concat (map (encode_message (digest32 sha256)) ms) @ take k (encode_message (digest32 sha256) m')) =
    (map (view_message (digest32 sha256)) ms, take k (encode_message (digest32 sha256) m'))"
  by (rule wire.decode_stream_concat [OF assms]) simp

text \<open>
  C15: integrity. A message whose checksum flag is set is accepted only if the digest behind
  the payload equals the digest of every byte before it; and whatever is accepted consumed
  its own length, at most the input, with a payload within the configured maximum.
\<close>

theorem deserialize_checked:
  assumes "deserialize_message sha256 data maximum = Inr (d, n)" "\<forall>x. length (sha256 x) = 32"
  shows "n \<le> length data \<and> length (dec_payload d) \<le> maximum \<and> dec_channel_id d \<noteq> 0 \<and>
    (has_checksum (dec_wire d) \<longrightarrow> 32 \<le> n \<and> sha256 (take (n - 32) data) = take 32 (drop (n - 32) data))"
proof -
  define h where "h = unat (read_integer data 6 :: u16)"
  from assms(1) obtain d0 d1 where d: "decode_options data h d0 = Inr d1" "decode_body sha256 data h d1 = Inr (d, n)"
    "unat (dec_payload_length d0) \<le> maximum" "dec_channel_id d0 \<noteq> 0"
    unfolding deserialize_message_def Let_def h_def [symmetric]
    by (auto simp: Let_def not_less split: if_splits sum.splits)
  have d1: "dec_payload_length d1 = dec_payload_length d0" "dec_channel_id d1 = dec_channel_id d0"
    using d(1) by (auto simp: decode_options_def split: sum.splits prod.splits)
  let ?p = "unat (dec_payload_length d1)" and ?c = "if has_checksum (dec_wire d1) then 32 else 0 :: nat"
  have n: "n = h + ?p + ?c" "n \<le> length data" and dd: "dec_wire d = dec_wire d1" "dec_channel_id d = dec_channel_id d1"
    "dec_payload d = take ?p (drop h data)"
    and chk: "has_checksum (dec_wire d1) \<Longrightarrow> checksum_matches (sha256 (take (n - 32) data)) (take 32 (drop (n - 32) data))"
    using d(2) by (auto simp: decode_body_def Let_def kChecksumBytes_def split: if_splits)
  have "32 \<le> n \<and> sha256 (take (n - 32) data) = take 32 (drop (n - 32) data)" if "has_checksum (dec_wire d)"
  proof -
    have "32 \<le> n" using that n(1) dd(1) by simp
    then show ?thesis
      using chk that dd(1) n(2) assms(2) checksum_matches_iff [of "sha256 (take (n - 32) data)" "take 32 (drop (n - 32) data)"]
      by simp
  qed
  then show ?thesis using n(2) dd d(3,4) d1 by simp
qed

theorem deserialize_checked_witness:
  "\<exists>d n. deserialize_message (digest32 id) (encode_message (digest32 id) ping) 100 = Inr (d, n) \<and>
    has_checksum (dec_wire d) \<and> digest32 id (take (n - 32) (encode_message (digest32 id) ping)) =
      take 32 (drop (n - 32) (encode_message (digest32 id) ping))"
proof -
  have dec: "deserialize_message (digest32 id) (encode_message (digest32 id) ping) 100 =
      Inr (view_message (digest32 id) ping, length (encode_message (digest32 id) ping))"
    using deserialize_encoded [OF ping_valid digest32_length [of id], of "[]"] by simp
  have "has_checksum (dec_wire (view_message (digest32 id) ping))" by (simp add: view_message_def view_header_def ping_def)
  with deserialize_checked [OF dec digest32_length] dec show ?thesis by blast
qed

end
