(* ===== verification/Framed_Io.thy ===== *)
theory Framed_Io
  imports Wire_Message
begin

text \<open>
  \<open>utils/ipc/framed_io.cpp\<close>: length-prefixed frames over a nonblocking byte stream. The operating
  system is a schedule: the list of answers that successive rounds of the transfer loops get
  from \<open>poll_descriptor\<close> and from \<open>read\<close>/\<open>recv\<close> or \<open>write\<close>/\<open>send\<close>. A loop that still waits when
  the schedule ends has not returned: its result is \<open>None\<close>.
\<close>

unbundle bit_operations_syntax

section \<open>Schedules\<close>

datatype io_event =
    Poll_Stopping      \<comment> \<open>\<open>stopping\<close> is set before the poll\<close>
  | Poll_Timed_Out
  | Poll_Closed
  | Poll_Failed
  | Transfer nat       \<comment> \<open>ready; the call moves up to that many bytes\<close>
  | Transfer_Again     \<comment> \<open>ready; \<open>EINTR\<close>, \<open>EAGAIN\<close> or \<open>EWOULDBLOCK\<close>\<close>
  | Transfer_Broken    \<comment> \<open>ready; \<open>EPIPE\<close>, \<open>ECONNRESET\<close> or \<open>ENOTCONN\<close>\<close>
  | Transfer_Failed    \<comment> \<open>ready; another \<open>errno\<close>\<close>

text \<open>
  \<open>read_exactly\<close>: the schedule, the bytes that are still to arrive, the number of bytes wanted
  and the bytes read so far; the status, the buffer, the bytes left and the schedule left.
  \<open>write_all\<close> appends what it writes to the bytes sent so far.
\<close>

fun read_exactly ::
    "io_event list \<Rightarrow> bytes \<Rightarrow> nat \<Rightarrow> bytes \<Rightarrow> (ipc_status \<times> bytes \<times> bytes \<times> io_event list) option" where
  "read_exactly events incoming wanted buffer =
     (if wanted \<le> length buffer then Some (IPC_OK, buffer, incoming, events)
      else case events of [] \<Rightarrow> None
        | Poll_Stopping # rest \<Rightarrow> Some (CHANNEL_UNAVAILABLE, buffer, incoming, rest)
        | Poll_Timed_Out # rest \<Rightarrow> read_exactly rest incoming wanted buffer
        | Poll_Closed # rest \<Rightarrow>
            Some (if buffer \<noteq> [] then TRUNCATED_MESSAGE else END_OF_STREAM, buffer, incoming, rest)
        | Poll_Failed # rest \<Rightarrow> Some (IO_ERROR, buffer, incoming, rest)
        | Transfer n # rest \<Rightarrow>
            let count = min n (min (wanted - length buffer) (length incoming))
            in if 0 < count then read_exactly rest (drop count incoming) wanted (buffer @ take count incoming)
               else Some (if buffer = [] then END_OF_STREAM else TRUNCATED_MESSAGE, buffer, incoming, rest)
        | Transfer_Again # rest \<Rightarrow> read_exactly rest incoming wanted buffer
        | Transfer_Broken # rest \<Rightarrow> Some (IO_ERROR, buffer, incoming, rest)
        | Transfer_Failed # rest \<Rightarrow> Some (IO_ERROR, buffer, incoming, rest))"

fun write_all :: "io_event list \<Rightarrow> bytes \<Rightarrow> bytes \<Rightarrow> (ipc_status \<times> bytes \<times> io_event list) option" where
  "write_all events pending sent =
     (if pending = [] then Some (IPC_OK, sent, events)
      else case events of [] \<Rightarrow> None
        | Poll_Stopping # rest \<Rightarrow> Some (CHANNEL_UNAVAILABLE, sent, rest)
        | Poll_Timed_Out # rest \<Rightarrow> write_all rest pending sent
        | Poll_Closed # rest \<Rightarrow> Some (END_OF_STREAM, sent, rest)
        | Poll_Failed # rest \<Rightarrow> Some (IO_ERROR, sent, rest)
        | Transfer n # rest \<Rightarrow>
            let count = min n (length pending)
            in if 0 < count then write_all rest (drop count pending) (sent @ take count pending)
               else Some (IO_ERROR, sent, rest)
        | Transfer_Again # rest \<Rightarrow> write_all rest pending sent
        | Transfer_Broken # rest \<Rightarrow> Some (NOT_CONNECTED, sent, rest)
        | Transfer_Failed # rest \<Rightarrow> Some (IO_ERROR, sent, rest))"

declare read_exactly.simps [simp del] write_all.simps [simp del]

section \<open>Frames\<close>

definition frame_prefix :: "nat \<Rightarrow> bytes" where
  "frame_prefix n = (let size = word_of_nat n :: u32
     in [ucast (drop_bit 24 size), ucast (drop_bit 16 size), ucast (drop_bit 8 size), ucast size])"

definition frame_size :: "bytes \<Rightarrow> u32" where
  "frame_size p = push_bit 24 (ucast (p ! 0)) OR push_bit 16 (ucast (p ! 1)) OR push_bit 8 (ucast (p ! 2)) OR ucast (p ! 3)"

definition write_frame ::
    "int \<Rightarrow> bytes \<Rightarrow> nat \<Rightarrow> io_event list \<Rightarrow> (transfer_result \<times> bytes \<times> io_event list) option" where
  "write_frame descriptor payload maximum_message_bytes events =
     (if descriptor < 0 then Some (\<lparr>transfer_status = NOT_CONNECTED, transfer_bytes = 0\<rparr>, [], events)
      else if maximum_message_bytes < length payload \<or> 2 ^ 32 - 1 < length payload
      then Some (\<lparr>transfer_status = MESSAGE_TOO_LARGE, transfer_bytes = 0\<rparr>, [], events)
      else case write_all events (frame_prefix (length payload)) [] of None \<Rightarrow> None
        | Some (status, sent, rest) \<Rightarrow>
            if status \<noteq> IPC_OK then Some (\<lparr>transfer_status = status, transfer_bytes = 0\<rparr>, sent, rest)
            else case write_all rest payload sent of None \<Rightarrow> None
              | Some (status1, sent1, rest1) \<Rightarrow>
                  Some (if status1 = IPC_OK then \<lparr>transfer_status = IPC_OK, transfer_bytes = length payload\<rparr>
                        else \<lparr>transfer_status = status1, transfer_bytes = 0\<rparr>, sent1, rest1))"

text \<open>The status, the output vector, the bytes left in the stream and the schedule left.\<close>

definition read_frame ::
    "int \<Rightarrow> bytes \<Rightarrow> nat \<Rightarrow> io_event list \<Rightarrow> (ipc_status \<times> bytes \<times> bytes \<times> io_event list) option" where
  "read_frame descriptor incoming maximum_message_bytes events =
     (if descriptor < 0 then Some (NOT_CONNECTED, [], incoming, events)
      else case read_exactly events incoming 4 [] of None \<Rightarrow> None
        | Some (status, p, incoming1, rest) \<Rightarrow>
            if status \<noteq> IPC_OK then Some (status, [], incoming1, rest)
            else let size = frame_size p
              in if maximum_message_bytes < unat size then Some (MESSAGE_TOO_LARGE, [], incoming1, rest)
                 else case read_exactly rest incoming1 (unat size) [] of None \<Rightarrow> None
                   | Some (status1, buffer, incoming2, rest2) \<Rightarrow>
                       Some (status1, buffer @ replicate (unat size - length buffer) 0, incoming2, rest2))"

section \<open>Partial transfers\<close>

lemma frame_size_prefix: "n < 2 ^ 32 \<Longrightarrow> unat (frame_size (frame_prefix n)) = n"
proof -
  assume n: "n < 2 ^ 32"
  let ?w = "word_of_nat n :: u32"
  have "push_bit 24 (ucast (ucast (drop_bit 24 ?w) :: u8) :: u32) OR push_bit 16 (ucast (ucast (drop_bit 16 ?w) :: u8)) OR
      push_bit 8 (ucast (ucast (drop_bit 8 ?w) :: u8)) OR ucast (ucast ?w :: u8) = ?w"
  proof (rule bit_word_eqI)
    fix i assume i: "i < LENGTH(32)"
    consider "i < 8" | "8 \<le> i" "i < 16" | "16 \<le> i" "i < 24" | "24 \<le> i" by linarith
    then show "bit (push_bit 24 (ucast (ucast (drop_bit 24 ?w) :: u8) :: u32) OR push_bit 16 (ucast (ucast (drop_bit 16 ?w) :: u8)) OR
      push_bit 8 (ucast (ucast (drop_bit 8 ?w) :: u8)) OR ucast (ucast ?w :: u8)) i = bit ?w i"
      using i by cases (auto simp: bit_simps)
  qed
  then show ?thesis using word_nat_small [of n, where ?'a = 32] n by (simp add: frame_size_def frame_prefix_def Let_def)
qed

lemma read_exactly_ok:
  "read_exactly events incoming wanted buffer = Some (IPC_OK, result, left, rest) \<Longrightarrow> length buffer \<le> wanted \<Longrightarrow>
    result @ left = buffer @ incoming \<and> length result = wanted"
proof (induction events arbitrary: incoming buffer)
  case Nil
  then show ?case by (simp add: read_exactly.simps split: if_splits)
next
  case (Cons e es)
  note step = Cons.prems(1) [unfolded read_exactly.simps [of "e # es"]]
  show ?case
  proof (cases "wanted \<le> length buffer")
    case True
    then show ?thesis using step Cons.prems(2) by simp
  next
    case False
    let ?count = "\<lambda>n. min n (min (wanted - length buffer) (length incoming))"
    consider "read_exactly es incoming wanted buffer = Some (IPC_OK, result, left, rest)"
      | n where "read_exactly es (drop (?count n) incoming) wanted (buffer @ take (?count n) incoming) = Some (IPC_OK, result, left, rest)"
      using step False by (cases e) (simp_all add: Let_def split: if_splits)
    then show ?thesis
    proof cases
      case 1
      then show ?thesis using Cons.IH Cons.prems(2) by blast
    next
      case (2 n)
      have "length (buffer @ take (?count n) incoming) \<le> wanted" using False by simp
      with Cons.IH [OF 2] show ?thesis by simp
    qed
  qed
qed

lemma write_all_ok:
  "write_all events pending sent = Some (IPC_OK, result, rest) \<Longrightarrow> result = sent @ pending"
proof (induction events arbitrary: pending sent)
  case Nil
  then show ?case by (simp add: write_all.simps split: if_splits)
next
  case (Cons e es)
  note step = Cons.prems [unfolded write_all.simps [of "e # es"]]
  show ?case
  proof (cases "pending = []")
    case True
    then show ?thesis using step by simp
  next
    case False
    let ?count = "\<lambda>n. min n (length pending)"
    consider "write_all es pending sent = Some (IPC_OK, result, rest)"
      | n where "write_all es (drop (?count n) pending) (sent @ take (?count n) pending) = Some (IPC_OK, result, rest)"
      using step False by (cases e) (simp_all add: Let_def split: if_splits)
    then show ?thesis
    proof cases
      case 1
      then show ?thesis using Cons.IH by blast
    next
      case (2 n)
      from Cons.IH [OF 2] show ?thesis by (simp del: drop_append take_append)
    qed
  qed
qed

text \<open>A benign schedule only delays or transfers something, and transfers often enough.\<close>

fun benign :: "io_event \<Rightarrow> bool" where
  "benign Poll_Timed_Out = True"
| "benign Transfer_Again = True"
| "benign (Transfer n) = (0 < n)"
| "benign _ = False"

fun transfers :: "io_event list \<Rightarrow> nat" where
  "transfers [] = 0"
| "transfers (e # es) = (case e of Transfer _ \<Rightarrow> 1 | _ \<Rightarrow> 0) + transfers es"

lemma read_exactly_returns:
  "\<forall>e \<in> set events. benign e \<Longrightarrow> length buffer \<le> wanted \<Longrightarrow> wanted - length buffer \<le> length incoming \<Longrightarrow>
    wanted - length buffer \<le> transfers events \<Longrightarrow>
    \<exists>result left rest. read_exactly events incoming wanted buffer = Some (IPC_OK, result, left, rest) \<and>
      (\<forall>e \<in> set rest. benign e) \<and> transfers events \<le> transfers rest + (wanted - length buffer)"
proof (induction events arbitrary: incoming buffer)
  case Nil
  then show ?case by (simp add: read_exactly.simps)
next
  case (Cons e es)
  show ?case
  proof (cases "wanted \<le> length buffer")
    case True
    then show ?thesis using Cons.prems by (subst read_exactly.simps) simp
  next
    case False
    show ?thesis
    proof (cases e)
      case (Transfer n)
      let ?c = "min n (min (wanted - length buffer) (length incoming))"
      have pos: "0 < ?c" using Transfer Cons.prems False by auto
      have eq: "read_exactly (e # es) incoming wanted buffer =
          read_exactly es (drop ?c incoming) wanted (buffer @ take ?c incoming)"
        using Transfer False pos by (subst read_exactly.simps) (simp add: Let_def)
      have len: "length (buffer @ take ?c incoming) = length buffer + ?c" by simp
      have "\<exists>result left rest. read_exactly es (drop ?c incoming) wanted (buffer @ take ?c incoming) = Some (IPC_OK, result, left, rest) \<and>
          (\<forall>e \<in> set rest. benign e) \<and> transfers es \<le> transfers rest + (wanted - length (buffer @ take ?c incoming))"
        using Cons.prems Transfer pos False len by (intro Cons.IH) auto
      then obtain result left rest where r: "read_exactly es (drop ?c incoming) wanted (buffer @ take ?c incoming) = Some (IPC_OK, result, left, rest)"
        "\<forall>e \<in> set rest. benign e" "transfers es \<le> transfers rest + (wanted - (length buffer + ?c))"
        unfolding len by blast
      have "transfers (e # es) \<le> transfers rest + (wanted - length buffer)"
      proof -
        have "transfers (e # es) = Suc (transfers es)" using Transfer by simp
        then show ?thesis using r(3) pos False by linarith
      qed
      then show ?thesis unfolding eq using r(1,2) by blast
    qed (use Cons False in \<open>simp_all add: read_exactly.simps [of "_ # _"]\<close>)
  qed
qed

lemma write_all_returns:
  "\<forall>e \<in> set events. benign e \<Longrightarrow> length pending \<le> transfers events \<Longrightarrow>
    \<exists>result rest. write_all events pending sent = Some (IPC_OK, result, rest) \<and>
      (\<forall>e \<in> set rest. benign e) \<and> transfers events \<le> transfers rest + length pending"
proof (induction events arbitrary: pending sent)
  case Nil
  then show ?case by (simp add: write_all.simps)
next
  case (Cons e es)
  show ?case
  proof (cases "pending = []")
    case True
    then show ?thesis using Cons.prems by (subst write_all.simps) simp
  next
    case False
    show ?thesis
    proof (cases e)
      case (Transfer n)
      let ?c = "min n (length pending)"
      have pos: "0 < ?c" using Transfer Cons.prems False by auto
      have eq: "write_all (e # es) pending sent = write_all es (drop ?c pending) (sent @ take ?c pending)"
        using Transfer False pos by (subst write_all.simps) (simp add: Let_def)
      have "\<exists>result rest. write_all es (drop ?c pending) (sent @ take ?c pending) = Some (IPC_OK, result, rest) \<and>
          (\<forall>e \<in> set rest. benign e) \<and> transfers es \<le> transfers rest + length (drop ?c pending)"
        using Cons.prems Transfer pos by (intro Cons.IH) auto
      then obtain result rest where r: "write_all es (drop ?c pending) (sent @ take ?c pending) = Some (IPC_OK, result, rest)"
        "\<forall>e \<in> set rest. benign e" "transfers es \<le> transfers rest + (length pending - ?c)" by auto
      have "transfers (e # es) \<le> transfers rest + length pending"
      proof -
        have "transfers (e # es) = Suc (transfers es)" using Transfer by simp
        then show ?thesis using r(3) pos by linarith
      qed
      then show ?thesis unfolding eq using r(1,2) by blast
    qed (use Cons False in \<open>simp_all add: write_all.simps [of "_ # _"]\<close>)
  qed
qed

lemma length_frame_prefix [simp]: "length (frame_prefix n) = 4"
  by (simp add: frame_prefix_def Let_def)

lemma write_frame_ok:
  assumes "write_frame descriptor payload maximum events = Some (r, sent, rest)" "transfer_status r = IPC_OK"
  shows "sent = frame_prefix (length payload) @ payload" "transfer_bytes r = length payload"
    "length payload \<le> maximum" "length payload < 2 ^ 32" "0 \<le> descriptor"
proof -
  have ok: "0 \<le> descriptor" "length payload \<le> maximum" "length payload < 2 ^ 32"
    using assms by (auto simp: write_frame_def split: if_splits)
  obtain status sent0 rest0 where w: "write_all events (frame_prefix (length payload)) [] = Some (status, sent0, rest0)"
    using assms(1) ok by (auto simp: write_frame_def split: if_splits option.splits)
  have st: "status = IPC_OK" using assms ok w by (auto simp: write_frame_def split: if_splits option.splits)
  obtain status1 sent1 rest1 where w1: "write_all rest0 payload sent0 = Some (status1, sent1, rest1)"
    using assms(1) ok w st by (auto simp: write_frame_def split: option.splits)
  have st1: "status1 = IPC_OK" "sent = sent1" "transfer_bytes r = length payload"
    using assms ok w st w1 by (auto simp: write_frame_def split: if_splits)
  show "sent = frame_prefix (length payload) @ payload"
    using write_all_ok [OF w [unfolded st]] write_all_ok [OF w1 [unfolded st1(1)]] st1(2) by simp
  show "transfer_bytes r = length payload" "length payload \<le> maximum" "length payload < 2 ^ 32" "0 \<le> descriptor"
    using st1 ok by simp_all
qed

section \<open>Properties\<close>

text \<open>
  C16: framing survives partial transfers. If a frame was written successfully and the bytes
  arrive, followed by anything, then reading a frame that succeeds returns exactly the payload
  and leaves exactly what followed, however the operating system splits or delays both
  transfers.
\<close>

theorem frame_round_trip:
  assumes "write_frame wd payload wmax wevents = Some (r, sent, wrest)" "transfer_status r = IPC_OK"
    "read_frame rd (sent @ rest) rmax revents = Some (IPC_OK, output, left, rrest)"
  shows "output = payload \<and> left = rest"
proof -
  note w = write_frame_ok [OF assms(1,2)]
  have rd: "\<not> rd < 0" using assms(3) by (auto simp: read_frame_def split: if_splits)
  obtain status p incoming1 rest1 where p: "read_exactly revents (sent @ rest) 4 [] = Some (status, p, incoming1, rest1)"
    using assms(3) rd by (auto simp: read_frame_def split: option.splits)
  have st: "status = IPC_OK" using assms(3) rd p by (auto simp: read_frame_def split: if_splits)
  have "p @ incoming1 = frame_prefix (length payload) @ payload @ rest" "length p = 4"
    using read_exactly_ok [OF p [unfolded st]] w(1) by simp_all
  then have pp: "p = frame_prefix (length payload)" "incoming1 = payload @ rest"
    by (metis append_eq_append_conv length_frame_prefix)+
  have size: "unat (frame_size p) = length payload" using frame_size_prefix [OF w(4)] pp(1) by simp
  obtain status2 buffer rest2 where b: "read_exactly rest1 (payload @ rest) (length payload) [] = Some (status2, buffer, left, rest2)"
    "status2 = IPC_OK" "output = buffer @ replicate (length payload - length buffer) 0"
    using assms(3) rd p st pp size by (auto simp: read_frame_def Let_def split: if_splits option.splits)
  have "buffer @ left = payload @ rest" "length buffer = length payload"
    using read_exactly_ok [OF b(1) [unfolded b(2)]] by simp_all
  then show ?thesis using b(3) by simp
qed

theorem frame_round_trip_witness:
  "\<exists>r sent wrest output left rrest.
    write_frame 3 [7, 8, 9] 10 [Transfer 2, Poll_Timed_Out, Transfer 5, Transfer_Again, Transfer 1, Transfer 9] = Some (r, sent, wrest) \<and>
    transfer_status r = IPC_OK \<and>
    read_frame 4 (sent @ [1]) 10 [Transfer 1, Transfer 3, Transfer_Again, Transfer 2, Transfer 2] = Some (IPC_OK, output, left, rrest) \<and>
    output = [7, 8, 9] \<and> left = [1]"
proof -
  have w: "write_frame 3 [7, 8, 9] 10 [Transfer 2, Poll_Timed_Out, Transfer 5, Transfer_Again, Transfer 1, Transfer 9] =
      Some (\<lparr>transfer_status = IPC_OK, transfer_bytes = 3\<rparr>, [0, 0, 0, 3, 7, 8, 9], [])"
    by (simp add: write_frame_def write_all.simps frame_prefix_def Let_def)
  have r: "read_frame 4 ([0, 0, 0, 3, 7, 8, 9] @ [1]) 10 [Transfer 1, Transfer 3, Transfer_Again, Transfer 2, Transfer 2] =
      Some (IPC_OK, [7, 8, 9], [1], [])"
    by (simp add: read_frame_def read_exactly.simps frame_size_def Let_def)
  from frame_round_trip [OF w _ r] w r show ?thesis by auto
qed

text \<open>
  C17: framing makes progress. On an open descriptor a payload within the limits is written
  completely, and read back, under every schedule that only delays or transfers at least one
  byte per transfer, once it has as many transfers as there are bytes.
\<close>

theorem frame_progress:
  assumes "length payload \<le> maximum" "length payload < 2 ^ 32" "0 \<le> descriptor"
    "\<forall>e \<in> set events. benign e" "4 + length payload \<le> transfers events"
  shows "(\<exists>rest. write_frame descriptor payload maximum events =
      Some (\<lparr>transfer_status = IPC_OK, transfer_bytes = length payload\<rparr>, frame_prefix (length payload) @ payload, rest)) \<and>
    (\<exists>rest. read_frame descriptor (frame_prefix (length payload) @ payload @ more_bytes) maximum events =
      Some (IPC_OK, payload, more_bytes, rest))"
proof
  let ?p = "frame_prefix (length payload)"
  obtain sent rest where w: "write_all events ?p [] = Some (IPC_OK, sent, rest)" "\<forall>e \<in> set rest. benign e"
    "length payload \<le> transfers rest"
    using write_all_returns [OF assms(4), of ?p "[]"] assms(5) by auto
  obtain sent1 rest1 where w1: "write_all rest payload sent = Some (IPC_OK, sent1, rest1)"
    using write_all_returns [OF w(2,3), of sent] by blast
  have "sent1 = ?p @ payload" using write_all_ok [OF w(1)] write_all_ok [OF w1] by simp
  then show "\<exists>rest. write_frame descriptor payload maximum events =
      Some (\<lparr>transfer_status = IPC_OK, transfer_bytes = length payload\<rparr>, ?p @ payload, rest)"
    using assms(1-3) w(1) w1 by (simp add: write_frame_def)
  obtain p left rest2 where r: "read_exactly events (?p @ payload @ more_bytes) 4 [] = Some (IPC_OK, p, left, rest2)"
    "\<forall>e \<in> set rest2. benign e" "length payload \<le> transfers rest2"
    using read_exactly_returns [OF assms(4), of "[]" 4 "?p @ payload @ more_bytes"] assms(5) by auto
  have pl: "p = ?p" "left = payload @ more_bytes"
    using read_exactly_ok [OF r(1)] by (metis append_eq_append_conv append_Nil list.size(3) le0 length_frame_prefix)+
  obtain q left1 rest3 where r1: "read_exactly rest2 (payload @ more_bytes) (length payload) [] = Some (IPC_OK, q, left1, rest3)"
    using read_exactly_returns [OF r(2), of "[]" "length payload" "payload @ more_bytes"] r(3) by auto
  have "q = payload" "left1 = more_bytes"
    using read_exactly_ok [OF r1] append_eq_append_conv [of q payload left1 more_bytes] by simp_all
  then show "\<exists>rest. read_frame descriptor (?p @ payload @ more_bytes) maximum events = Some (IPC_OK, payload, more_bytes, rest)"
    using assms(1-3) r(1) pl r1 frame_size_prefix [OF assms(2)] by (simp add: read_frame_def Let_def)
qed

theorem frame_progress_witness:
  "\<exists>rest. read_frame 0 (frame_prefix 1 @ [42] @ [5]) 1 (replicate 5 (Transfer 1)) = Some (IPC_OK, [42], [5], rest)"
proof -
  have "transfers (replicate 5 (Transfer 1)) = 5" by code_simp
  then show ?thesis using frame_progress [of "[42]" 1 0 "replicate 5 (Transfer 1)" "[5]"] by simp
qed

end
