(* ===== verification/App_State.thy ===== *)
theory App_State
  imports Dependency_Graph
begin

text \<open>
  \<open>state/state.hpp\<close>, \<open>state.cpp\<close> and \<open>lifecycle.hpp\<close>: registration of subsystems and their
  lifecycle in dependency order. A public method holds the lifecycle lock for its whole body,
  so it is one transition. The hooks of the subsystems are the environment: an argument \<open>env\<close>
  says what a hook returns given the hooks called so far, where \<open>initialize\<close> and \<open>start\<close> may
  also throw (\<open>stop\<close> and \<open>terminate\<close> are \<open>noexcept\<close>). The state logs every hook call
  with its result. A hook may call back into the lifecycle; in the four transient states such
  a call changes nothing (\<open>reentrant_calls_rejected\<close>).
\<close>

section \<open>Data\<close>

datatype lifecycle_state = UNINITIALIZED | INITIALIZING | INITIALIZED | STARTING | RUNNING
  | STOPPING | STOPPED | TERMINATING | TERMINATED | CRASHED

datatype app_status = APP_OK | APP_INVALID_ARGUMENT | DUPLICATE_SUBSYSTEM | DUPLICATE_SUBSYSTEM_NAME
  | SUBSYSTEM_NOT_FOUND | MISSING_DEPENDENCY | APP_DUPLICATE_DEPENDENCY | APP_DEPENDENCY_CYCLE
  | REGISTRATION_FROZEN | INVALID_LIFECYCLE_TRANSITION | SUBSYSTEM_FAILURE | APP_INTERNAL_ERROR

datatype operating_mode = TUI | TEST | OTHER_MODE nat

datatype hook = Initialize_Hook | Start_Hook | Stop_Hook | Terminate_Hook

datatype hook_result = Returned app_status | Threw

type_synonym 'id hook_event = "hook \<times> 'id \<times> app_status"

record 'id hooks =
  throwing_hook :: "hook \<Rightarrow> 'id \<Rightarrow> 'id hook_event list \<Rightarrow> hook_result"
  noexcept_hook :: "hook \<Rightarrow> 'id \<Rightarrow> 'id hook_event list \<Rightarrow> app_status"

record 'id entry =
  entry_name :: string
  entry_dependencies :: "'id list"
  initialized :: bool
  started :: bool

record 'id app_state =
  subsystems :: "'id \<rightharpoonup> 'id entry"
  subsystem_names :: "string \<rightharpoonup> 'id"
  registration_order :: "'id list"
  app_topology :: "'id dependency_graph option"
  app_forward_layers :: "'id list list"
  app_reverse_layers :: "'id list list"
  app_lifecycle :: lifecycle_state
  app_mode :: operating_mode
  registration_frozen :: bool
  hook_log :: "'id hook_event list"

definition new_app :: "'id app_state" where
  "new_app = \<lparr>subsystems = Map.empty, subsystem_names = Map.empty, registration_order = [],
     app_topology = None, app_forward_layers = [], app_reverse_layers = [], app_lifecycle = UNINITIALIZED, app_mode = TUI,
     registration_frozen = False, hook_log = []\<rparr>"

definition valid_operating_mode :: "operating_mode \<Rightarrow> bool" where
  "valid_operating_mode mode \<longleftrightarrow> mode = TUI \<or> mode = TEST"

fun topology_status :: "graph_status \<Rightarrow> app_status" where
  "topology_status GRAPH_OK = APP_OK"
| "topology_status DUPLICATE_NODE = DUPLICATE_SUBSYSTEM"
| "topology_status NODE_NOT_FOUND = MISSING_DEPENDENCY"
| "topology_status DUPLICATE_DEPENDENCY = APP_DUPLICATE_DEPENDENCY"
| "topology_status DEPENDENCY_CYCLE = APP_DEPENDENCY_CYCLE"
| "topology_status GRAPH_INVALID_ARGUMENT = APP_INTERNAL_ERROR"
| "topology_status EXECUTION_IN_PROGRESS = APP_INTERNAL_ERROR"
| "topology_status WORKER_SUBMISSION_FAILED = APP_INTERNAL_ERROR"

definition record_failure :: "app_status \<Rightarrow> app_status \<Rightarrow> app_status" where
  "record_failure candidate first_failure =
     (if first_failure = APP_OK \<and> candidate \<noteq> APP_OK then candidate else first_failure)"

section \<open>Registration and topology\<close>

definition register_subsystem ::
    "'id \<Rightarrow> (string \<times> 'id list) option \<Rightarrow> 'id app_state \<Rightarrow> 'id app_state \<times> app_status" where
  "register_subsystem i subsystem s =
     (case subsystem of None \<Rightarrow> (s, APP_INVALID_ARGUMENT)
      | Some (name, deps) \<Rightarrow>
          if name = [] then (s, APP_INVALID_ARGUMENT)
          else if registration_frozen s then (s, REGISTRATION_FROZEN)
          else if subsystems s i \<noteq> None then (s, DUPLICATE_SUBSYSTEM)
          else if subsystem_names s name \<noteq> None then (s, DUPLICATE_SUBSYSTEM_NAME)
          else (s\<lparr>subsystem_names := (subsystem_names s)(name \<mapsto> i),
                  subsystems := (subsystems s)(i \<mapsto> \<lparr>entry_name = name, entry_dependencies = deps,
                    initialized = False, started = False\<rparr>),
                  registration_order := registration_order s @ [i]\<rparr>, APP_OK))"

fun add_nodes :: "'id list \<Rightarrow> 'id dependency_graph \<Rightarrow> app_status + 'id dependency_graph" where
  "add_nodes [] g = Inr g"
| "add_nodes (i # is) g =
     (case add_node i g of (g', status) \<Rightarrow>
        if status \<noteq> GRAPH_OK then Inl (topology_status status) else add_nodes is g')"

fun add_edges ::
    "('id \<rightharpoonup> 'id entry) \<Rightarrow> 'id \<Rightarrow> 'id list \<Rightarrow> 'id dependency_graph \<Rightarrow> app_status + 'id dependency_graph" where
  "add_edges subs i [] g = Inr g"
| "add_edges subs i (dependency # ds) g =
     (if subs dependency = None then Inl MISSING_DEPENDENCY
      else case add_dependency dependency i g of (g', status) \<Rightarrow>
        if status \<noteq> GRAPH_OK then Inl (topology_status status) else add_edges subs i ds g')"

fun add_all_edges ::
    "('id \<rightharpoonup> 'id entry) \<Rightarrow> 'id list \<Rightarrow> 'id dependency_graph \<Rightarrow> app_status + 'id dependency_graph" where
  "add_all_edges subs [] g = Inr g"
| "add_all_edges subs (i # is) g =
     (case subs i of None \<Rightarrow> Inl APP_INTERNAL_ERROR
      | Some e \<Rightarrow>
          (case add_edges subs i (entry_dependencies e) g of Inl status \<Rightarrow> Inl status
           | Inr g' \<Rightarrow> add_all_edges subs is g'))"

definition build_topology :: "'id app_state \<Rightarrow> ('id app_state \<times> app_status) option" where
  "build_topology s =
     (case add_nodes (registration_order s) empty_graph of Inl status \<Rightarrow> Some (s, status)
      | Inr g \<Rightarrow>
        (case add_all_edges (subsystems s) (registration_order s) g of Inl status \<Rightarrow> Some (s, status)
         | Inr g1 \<Rightarrow>
           (case forward_layers g1 of None \<Rightarrow> None
            | Some (g2, status, forward) \<Rightarrow>
                if status \<noteq> GRAPH_OK then Some (s, topology_status status)
                else case reverse_layers g2 of None \<Rightarrow> None
                  | Some (g3, status3, reverse) \<Rightarrow>
                      if status3 \<noteq> GRAPH_OK then Some (s, topology_status status3)
                      else Some (s\<lparr>app_topology := Some g3, app_forward_layers := forward, app_reverse_layers := reverse\<rparr>, APP_OK))))"

section \<open>Hooks\<close>

text \<open>One hook call: its status (a throw is \<open>SUBSYSTEM_FAILURE\<close>) and the log with it.\<close>

definition log_call :: "hook \<Rightarrow> 'id \<Rightarrow> app_status \<Rightarrow> 'id app_state \<Rightarrow> 'id app_state" where
  "log_call h i status s = s\<lparr>hook_log := hook_log s @ [(h, i, status)]\<rparr>"

definition call_hook :: "'id hooks \<Rightarrow> hook \<Rightarrow> 'id \<Rightarrow> 'id app_state \<Rightarrow> 'id app_state \<times> app_status" where
  "call_hook env h i s =
     (let status = (case throwing_hook env h i (hook_log s) of Returned st \<Rightarrow> st | Threw \<Rightarrow> SUBSYSTEM_FAILURE)
      in (log_call h i status s, status))"

definition call_noexcept :: "'id hooks \<Rightarrow> hook \<Rightarrow> 'id \<Rightarrow> 'id app_state \<Rightarrow> 'id app_state \<times> app_status" where
  "call_noexcept env h i s =
     (let status = noexcept_hook env h i (hook_log s) in (log_call h i status s, status))"

definition set_entry :: "'id \<Rightarrow> ('id entry \<Rightarrow> 'id entry) \<Rightarrow> 'id app_state \<Rightarrow> 'id app_state" where
  "set_entry i f s = s\<lparr>subsystems := (subsystems s)(i := map_option f (subsystems s i))\<rparr>"

text \<open>The rollbacks take the completed identifiers in reverse order and stop at a failure.\<close>

fun rollback_started :: "'id hooks \<Rightarrow> 'id list \<Rightarrow> 'id app_state \<Rightarrow> app_status \<Rightarrow> 'id app_state \<times> app_status" where
  "rollback_started env [] s first_failure = (s, first_failure)"
| "rollback_started env (i # is) s first_failure =
     (case subsystems s i of
        None \<Rightarrow> rollback_started env is s (record_failure APP_INTERNAL_ERROR first_failure)
      | Some e \<Rightarrow>
          (case call_noexcept env Stop_Hook i s of (s', status) \<Rightarrow>
             if status = APP_OK
             then rollback_started env is (set_entry i (\<lambda>e. e\<lparr>started := False\<rparr>) s') (record_failure status first_failure)
             else (s', record_failure status first_failure)))"

fun rollback_initialized :: "'id hooks \<Rightarrow> 'id list \<Rightarrow> 'id app_state \<Rightarrow> app_status \<Rightarrow> 'id app_state \<times> app_status" where
  "rollback_initialized env [] s first_failure = (s, first_failure)"
| "rollback_initialized env (i # is) s first_failure =
     (case subsystems s i of
        None \<Rightarrow> rollback_initialized env is s (record_failure APP_INTERNAL_ERROR first_failure)
      | Some e \<Rightarrow>
          (case call_noexcept env Terminate_Hook i s of (s', status) \<Rightarrow>
             if status = APP_OK
             then rollback_initialized env is
               (set_entry i (\<lambda>e. e\<lparr>started := False, initialized := False\<rparr>) s') (record_failure status first_failure)
             else (s', record_failure status first_failure)))"

text \<open>The nested loops over the forward layers; \<open>completed\<close> grows at its end.\<close>

fun initialize_loop :: "'id hooks \<Rightarrow> 'id list \<Rightarrow> 'id list \<Rightarrow> 'id app_state \<Rightarrow> 'id app_state \<times> app_status" where
  "initialize_loop env [] completed s = (s\<lparr>app_lifecycle := INITIALIZED\<rparr>, APP_OK)"
| "initialize_loop env (i # is) completed s =
     (case subsystems s i of
        None \<Rightarrow> ((fst (rollback_initialized env (rev completed) s APP_OK))\<lparr>app_lifecycle := CRASHED\<rparr>, APP_INTERNAL_ERROR)
      | Some e \<Rightarrow>
          (case call_hook env Initialize_Hook i s of (s', status) \<Rightarrow>
             if status \<noteq> APP_OK
             then ((fst (rollback_initialized env (rev completed) s' APP_OK))\<lparr>app_lifecycle := CRASHED\<rparr>, status)
             else initialize_loop env is (completed @ [i]) (set_entry i (\<lambda>e. e\<lparr>initialized := True\<rparr>) s')))"

fun start_loop ::
    "'id hooks \<Rightarrow> lifecycle_state \<Rightarrow> 'id list \<Rightarrow> 'id list \<Rightarrow> 'id app_state \<Rightarrow> 'id app_state \<times> app_status" where
  "start_loop env previous [] completed s = (s\<lparr>app_lifecycle := RUNNING\<rparr>, APP_OK)"
| "start_loop env previous (i # is) completed s =
     (case subsystems s i of
        None \<Rightarrow> ((fst (rollback_started env (rev completed) s APP_OK))\<lparr>app_lifecycle := CRASHED\<rparr>, APP_INTERNAL_ERROR)
      | Some e \<Rightarrow>
          if \<not> initialized e
          then ((fst (rollback_started env (rev completed) s APP_OK))\<lparr>app_lifecycle := CRASHED\<rparr>, APP_INTERNAL_ERROR)
          else (case call_hook env Start_Hook i s of (s', status) \<Rightarrow>
             if status \<noteq> APP_OK
             then (case rollback_started env (rev completed) s' APP_OK of (s2, rollback_status) \<Rightarrow>
               (s2\<lparr>app_lifecycle := if rollback_status = APP_OK then previous else CRASHED\<rparr>, status))
             else start_loop env previous is (completed @ [i]) (set_entry i (\<lambda>e. e\<lparr>started := True\<rparr>) s')))"

fun stop_layer :: "'id hooks \<Rightarrow> 'id list \<Rightarrow> 'id app_state \<Rightarrow> app_status \<Rightarrow> app_status \<Rightarrow> 'id app_state \<times> app_status \<times> app_status" where
  "stop_layer env [] s first_failure layer_failure = (s, first_failure, layer_failure)"
| "stop_layer env (i # is) s first_failure layer_failure =
     (case subsystems s i of
        None \<Rightarrow> stop_layer env is s (record_failure APP_INTERNAL_ERROR first_failure)
          (record_failure APP_INTERNAL_ERROR layer_failure)
      | Some e \<Rightarrow>
          if \<not> started e then stop_layer env is s first_failure layer_failure
          else (case call_noexcept env Stop_Hook i s of (s', status) \<Rightarrow>
            stop_layer env is (if status = APP_OK then set_entry i (\<lambda>e. e\<lparr>started := False\<rparr>) s' else s')
              (record_failure status first_failure) (record_failure status layer_failure)))"

fun stop_layers :: "'id hooks \<Rightarrow> bool \<Rightarrow> 'id list list \<Rightarrow> 'id app_state \<Rightarrow> app_status \<Rightarrow> 'id app_state \<times> app_status" where
  "stop_layers env best_effort [] s first_failure = (s, first_failure)"
| "stop_layers env best_effort (layer # ls) s first_failure =
     (case stop_layer env layer s first_failure APP_OK of (s', first', layer_failure) \<Rightarrow>
        if \<not> best_effort \<and> layer_failure \<noteq> APP_OK then (s', first')
        else stop_layers env best_effort ls s' first')"

definition stop_started :: "'id hooks \<Rightarrow> bool \<Rightarrow> 'id app_state \<Rightarrow> 'id app_state \<times> app_status" where
  "stop_started env best_effort s = stop_layers env best_effort (app_reverse_layers s) s APP_OK"

fun terminate_loop :: "'id hooks \<Rightarrow> 'id list \<Rightarrow> 'id app_state \<Rightarrow> app_status \<Rightarrow> 'id app_state \<times> app_status" where
  "terminate_loop env [] s first_failure = (s, first_failure)"
| "terminate_loop env (i # is) s first_failure =
     (case subsystems s i of
        None \<Rightarrow> terminate_loop env is s (record_failure APP_INTERNAL_ERROR first_failure)
      | Some e \<Rightarrow>
          if \<not> initialized e then terminate_loop env is s first_failure
          else (case call_noexcept env Terminate_Hook i s of (s', status) \<Rightarrow>
            terminate_loop env is
              (if status = APP_OK then set_entry i (\<lambda>e. e\<lparr>started := False, initialized := False\<rparr>) s' else s')
              (record_failure status first_failure)))"

definition terminate_initialized :: "'id hooks \<Rightarrow> 'id app_state \<Rightarrow> 'id app_state \<times> app_status" where
  "terminate_initialized env s = terminate_loop env (concat (app_reverse_layers s)) s APP_OK"

section \<open>Lifecycle operations\<close>

definition app_initialize :: "'id hooks \<Rightarrow> operating_mode \<Rightarrow> 'id app_state \<Rightarrow> ('id app_state \<times> app_status) option" where
  "app_initialize env mode s =
     (if app_lifecycle s \<noteq> UNINITIALIZED then Some (s, INVALID_LIFECYCLE_TRANSITION)
      else if \<not> valid_operating_mode mode then Some (s, APP_INVALID_ARGUMENT)
      else let s1 = s\<lparr>registration_frozen := True, app_mode := mode, app_lifecycle := INITIALIZING\<rparr>
        in case build_topology s1 of None \<Rightarrow> None
          | Some (s2, status) \<Rightarrow>
              if status \<noteq> APP_OK then Some (s2\<lparr>app_lifecycle := CRASHED\<rparr>, status)
              else Some (initialize_loop env (concat (app_forward_layers s2)) [] s2))"

definition app_start :: "'id hooks \<Rightarrow> 'id app_state \<Rightarrow> 'id app_state \<times> app_status" where
  "app_start env s =
     (if app_lifecycle s \<noteq> INITIALIZED \<and> app_lifecycle s \<noteq> STOPPED then (s, INVALID_LIFECYCLE_TRANSITION)
      else start_loop env (app_lifecycle s) (concat (app_forward_layers s)) [] (s\<lparr>app_lifecycle := STARTING\<rparr>))"

definition app_stop :: "'id hooks \<Rightarrow> 'id app_state \<Rightarrow> 'id app_state \<times> app_status" where
  "app_stop env s =
     (if app_lifecycle s \<in> {UNINITIALIZED, INITIALIZED, STOPPED, TERMINATED} then (s, APP_OK)
      else if app_lifecycle s \<noteq> RUNNING \<and> app_lifecycle s \<noteq> CRASHED then (s, INVALID_LIFECYCLE_TRANSITION)
      else case stop_started env False (s\<lparr>app_lifecycle := STOPPING\<rparr>) of (s', status) \<Rightarrow>
        (s'\<lparr>app_lifecycle := if status = APP_OK \<and> app_lifecycle s \<noteq> CRASHED then STOPPED else CRASHED\<rparr>, status))"

definition app_terminate :: "'id hooks \<Rightarrow> 'id app_state \<Rightarrow> 'id app_state \<times> app_status" where
  "app_terminate env s =
     (if app_lifecycle s = TERMINATED then (s, APP_OK)
      else if app_lifecycle s \<in> {INITIALIZING, STARTING, STOPPING, TERMINATING} then (s, INVALID_LIFECYCLE_TRANSITION)
      else if app_lifecycle s = UNINITIALIZED
      then (s\<lparr>registration_frozen := True, app_lifecycle := TERMINATED\<rparr>, APP_OK)
      else case stop_started env True (s\<lparr>app_lifecycle := TERMINATING\<rparr>) of (s1, failure1) \<Rightarrow>
        (case terminate_initialized env s1 of (s2, failure2) \<Rightarrow>
          (let first_failure = record_failure failure2 failure1
           in (s2\<lparr>app_lifecycle := if first_failure = APP_OK then TERMINATED else CRASHED\<rparr>, first_failure))))"

section \<open>Logs of hook calls\<close>

text \<open>
  What the log says: the subsystems whose last completed phase was \<open>initialize\<close>, and those
  whose last completed phase was \<open>start\<close>.
\<close>

fun log_event :: "'id set \<times> 'id set \<Rightarrow> 'id hook_event \<Rightarrow> 'id set \<times> 'id set" where
  "log_event (inits, starts) (h, i, status) =
     (if status \<noteq> APP_OK then (inits, starts)
      else case h of Initialize_Hook \<Rightarrow> (insert i inits, starts)
        | Start_Hook \<Rightarrow> (inits, insert i starts)
        | Stop_Hook \<Rightarrow> (inits, starts - {i})
        | Terminate_Hook \<Rightarrow> (inits - {i}, starts - {i}))"

definition log_initialized :: "'id hook_event list \<Rightarrow> 'id set" where
  "log_initialized log = fst (foldl log_event ({}, {}) log)"

definition log_started :: "'id hook_event list \<Rightarrow> 'id set" where
  "log_started log = snd (foldl log_event ({}, {}) log)"

definition calls_ok ::
    "('id hook_event list \<Rightarrow> 'id hook_event \<Rightarrow> bool) \<Rightarrow> 'id hook_event list \<Rightarrow> 'id hook_event list \<Rightarrow> bool" where
  "calls_ok P log evs \<longleftrightarrow> (\<forall>xs ev ys. evs = xs @ ev # ys \<longrightarrow> P (log @ xs) ev)"

lemma calls_ok_Nil [simp]: "calls_ok P log []"
  by (simp add: calls_ok_def)

lemma calls_ok_Cons [simp]: "calls_ok P log (ev # evs) \<longleftrightarrow> P log ev \<and> calls_ok P (log @ [ev]) evs"
proof
  assume *: "calls_ok P log (ev # evs)"
  then have "P (log @ []) ev" unfolding calls_ok_def by blast
  moreover have "P ((log @ [ev]) @ xs) ev'" if "evs = xs @ ev' # ys" for xs ev' ys
    using * that unfolding calls_ok_def by (metis append.assoc append_Cons append_Nil)
  ultimately show "P log ev \<and> calls_ok P (log @ [ev]) evs" by (simp add: calls_ok_def)
next
  assume *: "P log ev \<and> calls_ok P (log @ [ev]) evs"
  show "calls_ok P log (ev # evs)"
    unfolding calls_ok_def
  proof (intro allI impI)
    fix xs ev' ys assume "ev # evs = xs @ ev' # ys"
    then consider "xs = []" "ev' = ev" | xs' where "xs = ev # xs'" "evs = xs' @ ev' # ys"
      by (auto simp: Cons_eq_append_conv)
    then show "P (log @ xs) ev'"
    proof cases
      case 2
      then have "P ((log @ [ev]) @ xs') ev'" using * unfolding calls_ok_def by blast
      with 2 show ?thesis by simp
    qed (use * in simp)
  qed
qed

lemma calls_ok_append [simp]:
  "calls_ok P log (xs @ ys) \<longleftrightarrow> calls_ok P log xs \<and> calls_ok P (log @ xs) ys"
  by (induction xs arbitrary: log) simp_all

lemma calls_ok_mono: "calls_ok P log evs \<Longrightarrow> (\<forall>xs ev. P xs ev \<longrightarrow> Q xs ev) \<Longrightarrow> calls_ok Q log evs"
  by (simp add: calls_ok_def)

section \<open>Runs of hooks\<close>

definition init_set :: "'id app_state \<Rightarrow> 'id set" where
  "init_set s = {i. \<exists>e. subsystems s i = Some e \<and> initialized e}"

definition start_set :: "'id app_state \<Rightarrow> 'id set" where
  "start_set s = {i. \<exists>e. subsystems s i = Some e \<and> started e}"

definition deps_of :: "'id app_state \<Rightarrow> 'id \<Rightarrow> 'id set" where
  "deps_of s i = (case subsystems s i of None \<Rightarrow> {} | Some e \<Rightarrow> set (entry_dependencies e))"

text \<open>What a run of hooks leaves alone, and that the flags say what the log says.\<close>

definition app_registry where
  "app_registry s = ((\<lambda>i. map_option (\<lambda>e. (entry_name e, entry_dependencies e)) (subsystems s i)),
     subsystem_names s, registration_order s, app_topology s, app_forward_layers s, app_reverse_layers s,
     app_mode s, registration_frozen s)"

definition flags_logged :: "'id app_state \<Rightarrow> bool" where
  "flags_logged s \<longleftrightarrow> log_initialized (hook_log s) = init_set s \<and> log_started (hook_log s) = start_set s"

definition hook_run ::
    "('id hook_event list \<Rightarrow> 'id hook_event \<Rightarrow> bool) \<Rightarrow> 'id app_state \<Rightarrow> 'id app_state \<Rightarrow> bool" where
  "hook_run P s s' \<longleftrightarrow> app_registry s' = app_registry s \<and> flags_logged s' \<and>
     (\<exists>evs. hook_log s' = hook_log s @ evs \<and> calls_ok P (hook_log s) evs)"

lemma hook_run_refl: "flags_logged s \<Longrightarrow> hook_run P s s"
  by (simp add: hook_run_def)

lemma hook_run_trans: "hook_run P s s' \<Longrightarrow> hook_run P s' s'' \<Longrightarrow> hook_run P s s''"
  by (auto simp: hook_run_def)

lemma hook_run_mono: "hook_run P s s' \<Longrightarrow> (\<forall>xs ev. P xs ev \<longrightarrow> Q xs ev) \<Longrightarrow> hook_run Q s s'"
  unfolding hook_run_def using calls_ok_mono by blast

lemma hook_run_logged: "hook_run P s s' \<Longrightarrow> flags_logged s'"
  by (simp add: hook_run_def)

lemma registry_facts:
  assumes "app_registry s' = app_registry s"
  shows "deps_of s' = deps_of s" and "dom (subsystems s') = dom (subsystems s)"
    and "registration_order s' = registration_order s" and "subsystem_names s' = subsystem_names s"
    and "app_topology s' = app_topology s" and "app_forward_layers s' = app_forward_layers s"
    and "app_reverse_layers s' = app_reverse_layers s" and "registration_frozen s' = registration_frozen s"
    and "map_option entry_name (subsystems s' i) = map_option entry_name (subsystems s i)"
proof -
  have eq: "map_option (\<lambda>e. (entry_name e, entry_dependencies e)) (subsystems s' i) =
      map_option (\<lambda>e. (entry_name e, entry_dependencies e)) (subsystems s i)" for i
    using assms unfolding app_registry_def prod.inject by (elim conjE) (rule fun_cong)
  show "deps_of s' = deps_of s"
  proof
    fix i
    show "deps_of s' i = deps_of s i"
      using eq [of i] by (cases "subsystems s i"; cases "subsystems s' i") (simp_all add: deps_of_def)
  qed
  show "dom (subsystems s') = dom (subsystems s)"
  proof (rule set_eqI)
    fix i
    show "i \<in> dom (subsystems s') \<longleftrightarrow> i \<in> dom (subsystems s)"
      using eq [of i] by (cases "subsystems s i"; cases "subsystems s' i") (simp_all add: domIff)
  qed
  show "map_option entry_name (subsystems s' i) = map_option entry_name (subsystems s i)"
    using eq [of i] by (cases "subsystems s i"; cases "subsystems s' i") simp_all
qed (use assms in \<open>simp_all add: app_registry_def\<close>)

lemma hook_run_registry: "hook_run P s s' \<Longrightarrow> app_registry s' = app_registry s"
  by (simp add: hook_run_def)

lemmas hook_run_facts = registry_facts [OF hook_run_registry]

lemma lifecycle_update [simp]:
  "init_set (s\<lparr>app_lifecycle := l\<rparr>) = init_set s" "start_set (s\<lparr>app_lifecycle := l\<rparr>) = start_set s"
  "deps_of (s\<lparr>app_lifecycle := l\<rparr>) = deps_of s" "app_registry (s\<lparr>app_lifecycle := l\<rparr>) = app_registry s"
  "flags_logged (s\<lparr>app_lifecycle := l\<rparr>) = flags_logged s"
  "hook_run P s' (s\<lparr>app_lifecycle := l\<rparr>) = hook_run P s' s"
  "hook_run P (s\<lparr>app_lifecycle := l\<rparr>) s' = hook_run P s s'"
  by (simp_all add: init_set_def start_set_def deps_of_def app_registry_def flags_logged_def hook_run_def fun_eq_iff)

lemma other_updates [simp]:
  "init_set (s\<lparr>registration_frozen := b\<rparr>) = init_set s" "start_set (s\<lparr>registration_frozen := b\<rparr>) = start_set s"
  "deps_of (s\<lparr>registration_frozen := b\<rparr>) = deps_of s" "flags_logged (s\<lparr>registration_frozen := b\<rparr>) = flags_logged s"
  "init_set (s\<lparr>app_mode := m\<rparr>) = init_set s" "start_set (s\<lparr>app_mode := m\<rparr>) = start_set s"
  "deps_of (s\<lparr>app_mode := m\<rparr>) = deps_of s" "flags_logged (s\<lparr>app_mode := m\<rparr>) = flags_logged s"
  "init_set (s\<lparr>app_topology := t\<rparr>) = init_set s" "start_set (s\<lparr>app_topology := t\<rparr>) = start_set s"
  "deps_of (s\<lparr>app_topology := t\<rparr>) = deps_of s" "flags_logged (s\<lparr>app_topology := t\<rparr>) = flags_logged s"
  "init_set (s\<lparr>app_forward_layers := l\<rparr>) = init_set s" "start_set (s\<lparr>app_forward_layers := l\<rparr>) = start_set s"
  "deps_of (s\<lparr>app_forward_layers := l\<rparr>) = deps_of s" "flags_logged (s\<lparr>app_forward_layers := l\<rparr>) = flags_logged s"
  "init_set (s\<lparr>app_reverse_layers := l\<rparr>) = init_set s" "start_set (s\<lparr>app_reverse_layers := l\<rparr>) = start_set s"
  "deps_of (s\<lparr>app_reverse_layers := l\<rparr>) = deps_of s" "flags_logged (s\<lparr>app_reverse_layers := l\<rparr>) = flags_logged s"
  by (simp_all add: init_set_def start_set_def deps_of_def flags_logged_def fun_eq_iff)

lemma log_call_simps [simp]:
  "init_set (log_call h i st s) = init_set s" "start_set (log_call h i st s) = start_set s"
  "app_registry (log_call h i st s) = app_registry s" "subsystems (log_call h i st s) = subsystems s"
  "hook_log (log_call h i st s) = hook_log s @ [(h, i, st)]" "deps_of (log_call h i st s) = deps_of s"
  by (simp_all add: log_call_def init_set_def start_set_def app_registry_def deps_of_def fun_eq_iff)

text \<open>The update of the flags after a successful hook.\<close>

fun hook_flags :: "hook \<Rightarrow> 'id entry \<Rightarrow> 'id entry" where
  "hook_flags Initialize_Hook e = e\<lparr>initialized := True\<rparr>"
| "hook_flags Start_Hook e = e\<lparr>started := True\<rparr>"
| "hook_flags Stop_Hook e = e\<lparr>started := False\<rparr>"
| "hook_flags Terminate_Hook e = e\<lparr>started := False, initialized := False\<rparr>"

definition done_hook :: "hook \<Rightarrow> 'id \<Rightarrow> app_status \<Rightarrow> 'id app_state \<Rightarrow> 'id app_state" where
  "done_hook h i st s = (if st = APP_OK then set_entry i (hook_flags h) (log_call h i st s) else log_call h i st s)"

lemma hook_flags_fold:
  "(\<lambda>e. e\<lparr>initialized := True\<rparr>) = hook_flags Initialize_Hook" "(\<lambda>e. e\<lparr>started := True\<rparr>) = hook_flags Start_Hook"
  "(\<lambda>e. e\<lparr>started := False\<rparr>) = hook_flags Stop_Hook"
  "(\<lambda>e. e\<lparr>started := False, initialized := False\<rparr>) = hook_flags Terminate_Hook"
  by (simp_all add: fun_eq_iff)

lemma done_hook_registry [simp]: "app_registry (done_hook h i st s) = app_registry s"
  by (cases h) (auto simp: done_hook_def set_entry_def app_registry_def fun_eq_iff option.map_comp comp_def log_call_def)

lemma done_hook_log [simp]: "hook_log (done_hook h i st s) = hook_log s @ [(h, i, st)]"
  by (simp add: done_hook_def set_entry_def)

lemma done_hook_sets:
  assumes "i \<in> dom (subsystems s)"
  shows "(init_set (done_hook h i st s), start_set (done_hook h i st s)) =
    log_event (init_set s, start_set s) (h, i, st)"
  using assms by (cases h) (auto simp: done_hook_def set_entry_def init_set_def start_set_def)

lemma done_hook_run:
  assumes "flags_logged s" and "i \<in> dom (subsystems s)" and "P (hook_log s) (h, i, st)"
  shows "hook_run P s (done_hook h i st s)"
proof -
  have "(log_initialized (hook_log s), log_started (hook_log s)) = (init_set s, start_set s)"
    using assms(1) by (simp add: flags_logged_def)
  then have "foldl log_event ({}, {}) (hook_log s) = (init_set s, start_set s)"
    by (simp add: log_initialized_def log_started_def prod_eq_iff)
  then have "flags_logged (done_hook h i st s)"
    using done_hook_sets [OF assms(2), of h st, symmetric]
    by (simp add: flags_logged_def log_initialized_def log_started_def)
  with assms(3) show ?thesis by (simp add: hook_run_def)
qed

text \<open>
  When a hook may be called: \<open>initialize\<close> once all dependencies are initialized, \<open>start\<close> once
  all are started, \<open>stop\<close> and \<open>terminate\<close> only on what was started or initialized, and,
  unless the call is part of a best-effort teardown, only once no dependent still is.
\<close>

fun hook_pre :: "('id \<Rightarrow> 'id set) \<Rightarrow> bool \<Rightarrow> 'id hook_event list \<Rightarrow> 'id hook_event \<Rightarrow> bool" where
  "hook_pre d lenient log (Initialize_Hook, i, _) \<longleftrightarrow> i \<notin> log_initialized log \<and> d i \<subseteq> log_initialized log"
| "hook_pre d lenient log (Start_Hook, i, _) \<longleftrightarrow>
     i \<in> log_initialized log \<and> i \<notin> log_started log \<and> d i \<subseteq> log_started log"
| "hook_pre d lenient log (Stop_Hook, i, _) \<longleftrightarrow>
     i \<in> log_started log \<and> (lenient \<or> (\<forall>j. i \<in> d j \<longrightarrow> j \<notin> log_started log))"
| "hook_pre d lenient log (Terminate_Hook, i, _) \<longleftrightarrow>
     i \<in> log_initialized log \<and> (lenient \<or> i \<notin> log_started log \<and> (\<forall>j. i \<in> d j \<longrightarrow> j \<notin> log_initialized log))"

lemma hook_pre_lenient: "hook_pre d False log ev \<Longrightarrow> hook_pre d lenient log ev"
  by (cases ev rule: hook_pre.cases [of "(d, lenient, log, ev)" for d lenient log ev, simplified]) auto

lemma record_failure_ok [simp]: "record_failure c f = APP_OK \<longleftrightarrow> c = APP_OK \<and> f = APP_OK"
  by (auto simp: record_failure_def)

definition follows_deps :: "('id \<Rightarrow> 'id set) \<Rightarrow> 'id list \<Rightarrow> bool" where
  "follows_deps d xs \<longleftrightarrow> (\<forall>as i bs. xs = as @ i # bs \<longrightarrow> d i \<subseteq> set as)"

definition dependents_first :: "('id \<Rightarrow> 'id set) \<Rightarrow> 'id set \<Rightarrow> 'id list \<Rightarrow> bool" where
  "dependents_first d active xs \<longleftrightarrow>
     (\<forall>as i bs j. xs = as @ i # bs \<longrightarrow> i \<in> d j \<longrightarrow> j \<in> active \<longrightarrow> j \<in> set as)"

lemma dependents_first_head:
  "dependents_first d active (i # is) \<Longrightarrow> i \<in> d j \<Longrightarrow> j \<notin> active"
  unfolding dependents_first_def by (metis append_Nil empty_iff list.set(1))

lemma dependents_first_tail:
  assumes "dependents_first d active (i # is)" and "active' \<subseteq> active - {i}"
  shows "dependents_first d active' is"
  unfolding dependents_first_def
proof (intro allI impI)
  fix as k bs j
  assume "is = as @ k # bs" "k \<in> d j" "j \<in> active'"
  then have "i # is = (i # as) @ k # bs" "j \<in> active" "j \<noteq> i" using assms(2) by auto
  then have "j \<in> set (i # as)" using assms(1) \<open>k \<in> d j\<close> unfolding dependents_first_def by blast
  then show "j \<in> set as" using \<open>j \<noteq> i\<close> by simp
qed

lemma rev_dependents_first:
  assumes "follows_deps d (xs @ ys)" and "distinct xs"
  shows "dependents_first d (set xs) (rev xs)"
  unfolding dependents_first_def
proof (intro allI impI)
  fix as i bs j
  assume r: "rev xs = as @ i # bs" and i: "i \<in> d j" and j: "j \<in> set xs"
  have xs: "xs = rev bs @ i # rev as" using arg_cong [OF r, of rev] by simp
  obtain us vs where uv: "xs = us @ j # vs" using j by (meson split_list)
  have "i \<in> set us" using assms(1) i unfolding follows_deps_def uv by auto
  then obtain us1 us2 where "us = us1 @ i # us2" by (meson split_list)
  then have "xs = us1 @ i # (us2 @ j # vs)" using uv by simp
  then have "rev as = us2 @ j # vs" using xs assms(2) by (metis append_eq_append_conv2 distinct_split_unique list.inject same_append_eq)
  then show "j \<in> set as" by (metis in_set_conv_decomp set_rev)
qed

lemma active_dom: "i \<in> start_set s \<Longrightarrow> i \<in> dom (subsystems s)" "i \<in> init_set s \<Longrightarrow> i \<in> dom (subsystems s)"
  by (auto simp: start_set_def init_set_def)

lemma done_hook_start_set:
  assumes "i \<in> dom (subsystems s)"
  shows "start_set (done_hook Stop_Hook i st s) = (if st = APP_OK then start_set s - {i} else start_set s)"
    and "start_set (done_hook Start_Hook i st s) = (if st = APP_OK then insert i (start_set s) else start_set s)"
    and "start_set (done_hook Initialize_Hook i st s) = start_set s"
    and "start_set (done_hook Terminate_Hook i st s) = (if st = APP_OK then start_set s - {i} else start_set s)"
  using done_hook_sets [OF assms, of Stop_Hook st] done_hook_sets [OF assms, of Start_Hook st]
    done_hook_sets [OF assms, of Initialize_Hook st] done_hook_sets [OF assms, of Terminate_Hook st]
  by (simp_all split: if_splits)

lemma done_hook_init_set:
  assumes "i \<in> dom (subsystems s)"
  shows "init_set (done_hook Stop_Hook i st s) = init_set s"
    and "init_set (done_hook Start_Hook i st s) = init_set s"
    and "init_set (done_hook Initialize_Hook i st s) = (if st = APP_OK then insert i (init_set s) else init_set s)"
    and "init_set (done_hook Terminate_Hook i st s) = (if st = APP_OK then init_set s - {i} else init_set s)"
  using done_hook_sets [OF assms, of Stop_Hook st] done_hook_sets [OF assms, of Start_Hook st]
    done_hook_sets [OF assms, of Initialize_Hook st] done_hook_sets [OF assms, of Terminate_Hook st]
  by (simp_all split: if_splits)

lemmas done_hook_set_simps = done_hook_start_set done_hook_init_set

lemma done_hook_pre_run:
  assumes "flags_logged s" and "i \<in> dom (subsystems s)" and "hook_pre d c (hook_log s) (h, i, st)"
  shows "hook_run (hook_pre d c) s (done_hook h i st s)" "flags_logged (done_hook h i st s)"
  using done_hook_run [OF assms(1,2), where P = "hook_pre d c", OF assms(3)] by (simp_all add: hook_run_def)

subsection \<open>Rolling back\<close>

lemma rollback_started_step:
  assumes "i \<in> dom (subsystems s)" and "st = noexcept_hook env Stop_Hook i (hook_log s)"
  shows "rollback_started env (i # is) s ff =
    (if st = APP_OK then rollback_started env is (done_hook Stop_Hook i st s) (record_failure st ff)
     else (done_hook Stop_Hook i st s, record_failure st ff))"
  using assms by (auto simp: call_noexcept_def done_hook_def hook_flags_fold [symmetric] Let_def)

lemma rollback_initialized_step:
  assumes "i \<in> dom (subsystems s)" and "st = noexcept_hook env Terminate_Hook i (hook_log s)"
  shows "rollback_initialized env (i # is) s ff =
    (if st = APP_OK then rollback_initialized env is (done_hook Terminate_Hook i st s) (record_failure st ff)
     else (done_hook Terminate_Hook i st s, record_failure st ff))"
  using assms by (auto simp: call_noexcept_def done_hook_def hook_flags_fold [symmetric] Let_def)

lemma rollback_started_run:
  assumes "flags_logged s" "set is \<subseteq> start_set s" "distinct is" "dependents_first d (start_set s) is"
    and "rollback_started env is s ff = (s', st)"
  shows "hook_run (hook_pre d False) s s' \<and> init_set s' = init_set s \<and> start_set s' \<subseteq> start_set s \<and>
    (st = APP_OK \<longrightarrow> start_set s' = start_set s - set is)"
  using assms
proof (induction "is" arbitrary: s ff)
  case Nil
  then show ?case by (simp add: hook_run_refl)
next
  case (Cons i "is")
  define r where "r = noexcept_hook env Stop_Hook i (hook_log s)"
  define s1 where "s1 = done_hook Stop_Hook i r s"
  have dom: "i \<in> dom (subsystems s)" using Cons.prems(2) active_dom(1) [of i s] by auto
  have pre: "hook_pre d False (hook_log s) (Stop_Hook, i, r)"
    using Cons.prems(1,2) dependents_first_head [OF Cons.prems(4)] by (auto simp: flags_logged_def)
  note run = done_hook_pre_run [OF Cons.prems(1) dom pre, folded s1_def]
  note sets = done_hook_set_simps [OF dom, of r, folded s1_def]
  show ?case
  proof (cases "r = APP_OK")
    case True
    have "rollback_started env is s1 (record_failure r ff) = (s', st)"
      using Cons.prems(5) True unfolding rollback_started_step [OF dom r_def] s1_def by simp
    moreover have "dependents_first d (start_set s1) is"
      using dependents_first_tail [OF Cons.prems(4)] sets(1) True by simp
    moreover have "set is \<subseteq> start_set s1" using Cons.prems(2,3) sets(1) True by auto
    ultimately have "hook_run (hook_pre d False) s1 s' \<and> init_set s' = init_set s1 \<and> start_set s' \<subseteq> start_set s1 \<and>
        (st = APP_OK \<longrightarrow> start_set s' = start_set s1 - set is)"
      using Cons.IH [of s1 "record_failure r ff"] run(2) Cons.prems(3) by simp
    then show ?thesis using hook_run_trans [OF run(1)] sets True by auto
  next
    case False
    then have "s' = s1" "st \<noteq> APP_OK"
      using Cons.prems(5) unfolding rollback_started_step [OF dom r_def] s1_def by auto
    then show ?thesis using run sets False by auto
  qed
qed

lemma rollback_initialized_run:
  assumes "flags_logged s" "set is \<subseteq> init_set s" "distinct is" "dependents_first d (init_set s) is"
    and "start_set s = {}" and "rollback_initialized env is s ff = (s', st)"
  shows "hook_run (hook_pre d False) s s' \<and> init_set s' \<subseteq> init_set s \<and> start_set s' = {} \<and>
    (st = APP_OK \<longrightarrow> init_set s' = init_set s - set is)"
  using assms
proof (induction "is" arbitrary: s ff)
  case Nil
  then show ?case by (simp add: hook_run_refl)
next
  case (Cons i "is")
  define r where "r = noexcept_hook env Terminate_Hook i (hook_log s)"
  define s1 where "s1 = done_hook Terminate_Hook i r s"
  have dom: "i \<in> dom (subsystems s)" using Cons.prems(2) active_dom(2) [of i s] by auto
  have pre: "hook_pre d False (hook_log s) (Terminate_Hook, i, r)"
    using Cons.prems(1,2,5) dependents_first_head [OF Cons.prems(4)] by (auto simp: flags_logged_def)
  note run = done_hook_pre_run [OF Cons.prems(1) dom pre, folded s1_def]
  note sets = done_hook_set_simps [OF dom, of r, folded s1_def]
  show ?case
  proof (cases "r = APP_OK")
    case True
    have "rollback_initialized env is s1 (record_failure r ff) = (s', st)"
      using Cons.prems(6) True unfolding rollback_initialized_step [OF dom r_def] s1_def by simp
    moreover have "dependents_first d (init_set s1) is"
      using dependents_first_tail [OF Cons.prems(4)] sets(8) True by simp
    moreover have "set is \<subseteq> init_set s1" using Cons.prems(2,3) sets(8) True by auto
    ultimately have "hook_run (hook_pre d False) s1 s' \<and> init_set s' \<subseteq> init_set s1 \<and> start_set s' = {} \<and>
        (st = APP_OK \<longrightarrow> init_set s' = init_set s1 - set is)"
      using Cons.IH [of s1 "record_failure r ff"] run(2) Cons.prems(3,5) sets(4) True by simp
    then show ?thesis using hook_run_trans [OF run(1)] sets True by auto
  next
    case False
    then have "s' = s1" "st \<noteq> APP_OK"
      using Cons.prems(6) unfolding rollback_initialized_step [OF dom r_def] s1_def by auto
    then show ?thesis using run sets False Cons.prems(5) by auto
  qed
qed

subsection \<open>Stopping and terminating\<close>

lemma stop_layer_step:
  assumes "i \<in> dom (subsystems s)" and "st = noexcept_hook env Stop_Hook i (hook_log s)"
  shows "stop_layer env (i # is) s ff lf =
    (if i \<in> start_set s
     then stop_layer env is (done_hook Stop_Hook i st s) (record_failure st ff) (record_failure st lf)
     else stop_layer env is s ff lf)"
  using assms by (auto simp: call_noexcept_def done_hook_def hook_flags_fold [symmetric] Let_def start_set_def)

lemma terminate_loop_step:
  assumes "i \<in> dom (subsystems s)" and "st = noexcept_hook env Terminate_Hook i (hook_log s)"
  shows "terminate_loop env (i # is) s ff =
    (if i \<in> init_set s
     then terminate_loop env is (done_hook Terminate_Hook i st s) (record_failure st ff)
     else terminate_loop env is s ff)"
  using assms by (auto simp: call_noexcept_def done_hook_def hook_flags_fold [symmetric] Let_def init_set_def)

lemma stop_layer_run:
  assumes "flags_logged s" "set layer \<subseteq> dom (subsystems s)"
    and "c \<or> (\<forall>i \<in> set layer. \<forall>j. i \<in> d j \<longrightarrow> j \<notin> start_set s)"
    and "stop_layer env layer s ff lf = (s', ff', lf')"
  shows "hook_run (hook_pre d c) s s' \<and> init_set s' = init_set s \<and> start_set s' \<subseteq> start_set s \<and>
    (\<exists>ok. (ff' = APP_OK \<longleftrightarrow> ff = APP_OK \<and> ok) \<and> (lf' = APP_OK \<longleftrightarrow> lf = APP_OK \<and> ok) \<and>
      (ok \<longrightarrow> start_set s' = start_set s - set layer))"
  using assms
proof (induction layer arbitrary: s ff lf)
  case Nil
  then show ?case by (auto simp: hook_run_refl intro!: exI [of _ True])
next
  case (Cons i layer)
  define r where "r = noexcept_hook env Stop_Hook i (hook_log s)"
  define s1 where "s1 = done_hook Stop_Hook i r s"
  have dom: "i \<in> dom (subsystems s)" using Cons.prems(2) by auto
  show ?case
  proof (cases "i \<in> start_set s")
    case False
    have "stop_layer env layer s ff lf = (s', ff', lf')"
      using Cons.prems(4) False unfolding stop_layer_step [OF dom r_def] by simp
    then have "hook_run (hook_pre d c) s s' \<and> init_set s' = init_set s \<and> start_set s' \<subseteq> start_set s \<and>
        (\<exists>ok. (ff' = APP_OK \<longleftrightarrow> ff = APP_OK \<and> ok) \<and> (lf' = APP_OK \<longleftrightarrow> lf = APP_OK \<and> ok) \<and>
          (ok \<longrightarrow> start_set s' = start_set s - set layer))"
      using Cons.IH [of s ff lf] Cons.prems(1-3) by auto
    with False show ?thesis by (simp add: Diff_insert0)
  next
    case True
    have pre: "hook_pre d c (hook_log s) (Stop_Hook, i, r)"
      using Cons.prems(1,3) True by (auto simp: flags_logged_def)
    note run = done_hook_pre_run [OF Cons.prems(1) dom pre, folded s1_def]
    note sets = done_hook_set_simps [OF dom, of r, folded s1_def]
    have "stop_layer env layer s1 (record_failure r ff) (record_failure r lf) = (s', ff', lf')"
      using Cons.prems(4) True unfolding stop_layer_step [OF dom r_def] s1_def by simp
    moreover have "set layer \<subseteq> dom (subsystems s1)"
      using Cons.prems(2) registry_facts(2) [OF done_hook_registry, of Stop_Hook i r s, folded s1_def] by simp
    moreover have "c \<or> (\<forall>i \<in> set layer. \<forall>j. i \<in> d j \<longrightarrow> j \<notin> start_set s1)"
      using Cons.prems(3) sets(1) by (auto split: if_splits)
    ultimately obtain ok where ih: "hook_run (hook_pre d c) s1 s'" "init_set s' = init_set s1" "start_set s' \<subseteq> start_set s1"
        "ff' = APP_OK \<longleftrightarrow> record_failure r ff = APP_OK \<and> ok" "lf' = APP_OK \<longleftrightarrow> record_failure r lf = APP_OK \<and> ok"
        "ok \<longrightarrow> start_set s' = start_set s1 - set layer"
      using Cons.IH [of s1 "record_failure r ff" "record_failure r lf"] run(2) by blast
    have "init_set s' = init_set s" "start_set s' \<subseteq> start_set s" using ih(2,3) sets by (auto split: if_splits)
    moreover have "r = APP_OK \<and> ok \<longrightarrow> start_set s' = start_set s - set (i # layer)" using ih(6) sets(1) by auto
    ultimately show ?thesis using hook_run_trans [OF run(1) ih(1)] ih(4,5)
      by (intro conjI exI [of _ "r = APP_OK \<and> ok"]) auto
  qed
qed

definition layers_dependents_first :: "('id \<Rightarrow> 'id set) \<Rightarrow> 'id set \<Rightarrow> 'id list list \<Rightarrow> bool" where
  "layers_dependents_first d active ls \<longleftrightarrow>
     (\<forall>as layer bs i j. ls = as @ layer # bs \<longrightarrow> i \<in> set layer \<longrightarrow> i \<in> d j \<longrightarrow> j \<in> active \<longrightarrow> j \<in> set (concat as))"

lemma layers_dependents_first_head:
  assumes "layers_dependents_first d active (layer # ls)" and "i \<in> set layer" and "i \<in> d j"
  shows "j \<notin> active"
proof
  assume "j \<in> active"
  then have "j \<in> set (concat [])" using assms unfolding layers_dependents_first_def by blast
  then show False by simp
qed

lemma layers_dependents_first_tail:
  assumes "layers_dependents_first d active (layer # ls)" and "active' \<subseteq> active - set layer"
  shows "layers_dependents_first d active' ls"
  unfolding layers_dependents_first_def
proof (intro allI impI)
  fix as l bs i j
  assume *: "ls = as @ l # bs" "i \<in> set l" "i \<in> d j" "j \<in> active'"
  then have "layer # ls = (layer # as) @ l # bs" "j \<in> active" "j \<notin> set layer" using assms(2) by auto
  then have "j \<in> set (concat (layer # as))" using assms(1) *(2,3) unfolding layers_dependents_first_def by blast
  then show "j \<in> set (concat as)" using \<open>j \<notin> set layer\<close> by simp
qed

lemma stop_layers_run:
  assumes "flags_logged s" "set (concat ls) \<subseteq> dom (subsystems s)"
    and "stop_layers env best_effort ls s ff = (s', ff')"
    and "c \<or> ((\<not> best_effort \<or> ff' = APP_OK) \<and> layers_dependents_first d (start_set s) ls)"
  shows "hook_run (hook_pre d c) s s' \<and> init_set s' = init_set s \<and> start_set s' \<subseteq> start_set s \<and>
    (ff' = APP_OK \<longrightarrow> ff = APP_OK \<and> start_set s' = start_set s - set (concat ls))"
  using assms
proof (induction ls arbitrary: s ff c)
  case Nil
  then show ?case by (simp add: hook_run_refl)
next
  case (Cons layer ls)
  obtain s1 ff1 lf where layer: "stop_layer env layer s ff APP_OK = (s1, ff1, lf)" by (metis prod_cases3)
  have "c \<or> (\<forall>i \<in> set layer. \<forall>j. i \<in> d j \<longrightarrow> j \<notin> start_set s)"
    using Cons.prems(4) layers_dependents_first_head by fast
  then obtain ok where one: "hook_run (hook_pre d c) s s1" "init_set s1 = init_set s" "start_set s1 \<subseteq> start_set s"
      "ff1 = APP_OK \<longleftrightarrow> ff = APP_OK \<and> ok" "lf = APP_OK \<longleftrightarrow> ok" "ok \<longrightarrow> start_set s1 = start_set s - set layer"
    using stop_layer_run [OF Cons.prems(1) _ _ layer, of c d] Cons.prems(2) by auto
  show ?case
  proof (cases "\<not> best_effort \<and> lf \<noteq> APP_OK")
    case True
    then have "s' = s1" "ff' = ff1" using Cons.prems(3) layer by simp_all
    with one True show ?thesis by auto
  next
    case False
    then have rest: "stop_layers env best_effort ls s1 ff1 = (s', ff')" using Cons.prems(3) layer by auto
    have logged: "flags_logged s1" using one(1) by (rule hook_run_logged)
    have dom: "set (concat ls) \<subseteq> dom (subsystems s1)"
      using Cons.prems(2) hook_run_facts(2) [OF one(1)] by simp
    have ok: "ff1 = APP_OK \<and> lf = APP_OK" if "ff' = APP_OK"
    proof -
      have "hook_run (hook_pre d True) s1 s' \<and> init_set s' = init_set s1 \<and> start_set s' \<subseteq> start_set s1 \<and>
          (ff' = APP_OK \<longrightarrow> ff1 = APP_OK \<and> start_set s' = start_set s1 - set (concat ls))"
        by (rule Cons.IH [OF logged dom rest]) simp
      then show ?thesis using that one(4,5) by blast
    qed
    have "c \<or> ((\<not> best_effort \<or> ff' = APP_OK) \<and> layers_dependents_first d (start_set s1) ls)"
    proof (cases c)
      case nc: False
      then have "ok" using Cons.prems(4) False ok one(5) by blast
      then show ?thesis using Cons.prems(4) nc one(6) layers_dependents_first_tail by (metis order_refl)
    qed simp
    from Cons.IH [OF logged dom rest this]
    show ?thesis using hook_run_trans [OF one(1), of s'] one(2-6) ok by auto
  qed
qed

lemma terminate_loop_run:
  assumes "flags_logged s" "set is \<subseteq> dom (subsystems s)"
    and "terminate_loop env is s ff = (s', ff')"
    and "c \<or> (ff' = APP_OK \<and> dependents_first d (init_set s) is \<and> start_set s = {})"
  shows "hook_run (hook_pre d c) s s' \<and> init_set s' \<subseteq> init_set s \<and> start_set s' \<subseteq> start_set s \<and>
    (start_set s \<subseteq> init_set s \<longrightarrow> start_set s' \<subseteq> init_set s') \<and>
    (ff' = APP_OK \<longrightarrow> ff = APP_OK \<and> init_set s' = init_set s - set is)"
  using assms
proof (induction "is" arbitrary: s ff c)
  case Nil
  then show ?case by (auto simp: hook_run_refl)
next
  case (Cons i "is")
  define r where "r = noexcept_hook env Terminate_Hook i (hook_log s)"
  define s1 where "s1 = done_hook Terminate_Hook i r s"
  have dom: "i \<in> dom (subsystems s)" using Cons.prems(2) by auto
  show ?case
  proof (cases "i \<in> init_set s")
    case False
    have "terminate_loop env is s ff = (s', ff')"
      using Cons.prems(3) False unfolding terminate_loop_step [OF dom r_def] by simp
    moreover have "c \<or> (ff' = APP_OK \<and> dependents_first d (init_set s) is \<and> start_set s = {})"
      using Cons.prems(4) dependents_first_tail [of d "init_set s" i "is" "init_set s"] False by auto
    ultimately show ?thesis using Cons.IH [of s ff c] Cons.prems(1,2) False by (simp add: Diff_insert0)
  next
    case True
    note sets = done_hook_set_simps [OF dom, of r, folded s1_def]
    have pre: "hook_pre d c (hook_log s) (Terminate_Hook, i, r)"
      using Cons.prems(1,4) True dependents_first_head [of d "init_set s" i "is"] by (auto simp: flags_logged_def)
    note run = done_hook_pre_run [OF Cons.prems(1) dom pre, folded s1_def]
    have rest: "terminate_loop env is s1 (record_failure r ff) = (s', ff')"
      using Cons.prems(3) True unfolding terminate_loop_step [OF dom r_def] s1_def by simp
    have dom1: "set is \<subseteq> dom (subsystems s1)"
      using Cons.prems(2) hook_run_facts(2) [OF run(1)] by simp
    have ok: "r = APP_OK \<and> ff = APP_OK" if "ff' = APP_OK"
      using Cons.IH [OF run(2) dom1 rest, of True] that by simp
    have "c \<or> (ff' = APP_OK \<and> dependents_first d (init_set s1) is \<and> start_set s1 = {})"
      using Cons.prems(4) ok sets dependents_first_tail [of d "init_set s" i "is" "init_set s1"] by auto
    from Cons.IH [OF run(2) dom1 rest this]
    show ?thesis using hook_run_trans [OF run(1), of s'] sets ok by (auto split: if_splits)
  qed
qed

subsection \<open>Initializing and starting\<close>

lemma initialize_loop_step:
  assumes "i \<in> dom (subsystems s)"
    and "st = (case throwing_hook env Initialize_Hook i (hook_log s) of Returned st \<Rightarrow> st | Threw \<Rightarrow> SUBSYSTEM_FAILURE)"
  shows "initialize_loop env (i # is) completed s =
    (let s1 = done_hook Initialize_Hook i st s in
     if st = APP_OK then initialize_loop env is (completed @ [i]) s1
     else ((fst (rollback_initialized env (rev completed) s1 APP_OK))\<lparr>app_lifecycle := CRASHED\<rparr>, st))"
  using assms by (auto simp: call_hook_def done_hook_def hook_flags_fold [symmetric] Let_def)

lemma start_loop_step:
  assumes "i \<in> init_set s"
    and "st = (case throwing_hook env Start_Hook i (hook_log s) of Returned st \<Rightarrow> st | Threw \<Rightarrow> SUBSYSTEM_FAILURE)"
  shows "start_loop env previous (i # is) completed s =
    (let s1 = done_hook Start_Hook i st s in
     if st = APP_OK then start_loop env previous is (completed @ [i]) s1
     else (case rollback_started env (rev completed) s1 APP_OK of (s2, rs) \<Rightarrow>
       (s2\<lparr>app_lifecycle := if rs = APP_OK then previous else CRASHED\<rparr>, st)))"
  using assms by (auto simp: call_hook_def done_hook_def hook_flags_fold [symmetric] Let_def init_set_def)

lemma follows_deps_next: "follows_deps d (xs @ i # ys) \<Longrightarrow> d i \<subseteq> set xs"
  by (simp add: follows_deps_def)

lemma initialize_loop_run:
  assumes "flags_logged s" "start_set s = {}" "init_set s = set completed"
    and "distinct (completed @ is)" "follows_deps d (completed @ is)" "set is \<subseteq> dom (subsystems s)"
    and "initialize_loop env is completed s = (s', st)"
  shows "hook_run (hook_pre d False) s s' \<and> start_set s' = {} \<and>
    (if st = APP_OK then app_lifecycle s' = INITIALIZED \<and> init_set s' = set (completed @ is)
     else app_lifecycle s' = CRASHED)"
  using assms
proof (induction "is" arbitrary: completed s)
  case Nil
  then show ?case by (auto simp: hook_run_refl)
next
  case (Cons i "is")
  define r where
    "r = (case throwing_hook env Initialize_Hook i (hook_log s) of Returned st \<Rightarrow> st | Threw \<Rightarrow> SUBSYSTEM_FAILURE)"
  define s1 where "s1 = done_hook Initialize_Hook i r s"
  have dom: "i \<in> dom (subsystems s)" using Cons.prems(6) by auto
  have pre: "hook_pre d False (hook_log s) (Initialize_Hook, i, r)"
    using Cons.prems(1,3,4) follows_deps_next [OF Cons.prems(5)] by (auto simp: flags_logged_def)
  note run = done_hook_pre_run [OF Cons.prems(1) dom pre, folded s1_def]
  note sets = done_hook_set_simps [OF dom, of r, folded s1_def]
  note step = initialize_loop_step [OF dom r_def, folded s1_def, unfolded Let_def]
  show ?case
  proof (cases "r = APP_OK")
    case True
    have "initialize_loop env is (completed @ [i]) s1 = (s', st)"
      using Cons.prems(7) True unfolding step by simp
    then have "hook_run (hook_pre d False) s1 s' \<and> start_set s' = {} \<and>
      (if st = APP_OK then app_lifecycle s' = INITIALIZED \<and> init_set s' = set ((completed @ [i]) @ is)
       else app_lifecycle s' = CRASHED)"
      using Cons.prems True sets run(2) hook_run_facts(2) [OF run(1)] by (intro Cons.IH) simp_all
    then show ?thesis using hook_run_trans [OF run(1), of s'] by simp
  next
    case False
    obtain s2 rs where rb: "rollback_initialized env (rev completed) s1 APP_OK = (s2, rs)" by fastforce
    then have s': "s' = s2\<lparr>app_lifecycle := CRASHED\<rparr>" "st = r" using Cons.prems(7) False unfolding step by auto
    have "dependents_first d (set completed) (rev completed)"
      using rev_dependents_first [OF Cons.prems(5)] Cons.prems(4) by simp
    then have "hook_run (hook_pre d False) s1 s2 \<and> init_set s2 \<subseteq> init_set s1 \<and> start_set s2 = {} \<and>
        (rs = APP_OK \<longrightarrow> init_set s2 = init_set s1 - set (rev completed))"
      using Cons.prems(2,3,4) sets False run(2) by (intro rollback_initialized_run [OF _ _ _ _ _ rb]) simp_all
    then show ?thesis using hook_run_trans [OF run(1), of s2] False s' by simp
  qed
qed

lemma start_loop_run:
  assumes "flags_logged s" "start_set s = set completed" "set (completed @ is) \<subseteq> init_set s"
    and "distinct (completed @ is)" "follows_deps d (completed @ is)"
    and "start_loop env previous is completed s = (s', st)"
  shows "hook_run (hook_pre d False) s s' \<and> init_set s' = init_set s \<and>
    (if st = APP_OK then app_lifecycle s' = RUNNING \<and> start_set s' = set (completed @ is)
     else app_lifecycle s' = previous \<and> start_set s' = {} \<or> app_lifecycle s' = CRASHED \<and> start_set s' \<subseteq> init_set s')"
  using assms
proof (induction "is" arbitrary: completed s)
  case Nil
  then show ?case by (auto simp: hook_run_refl)
next
  case (Cons i "is")
  define r where
    "r = (case throwing_hook env Start_Hook i (hook_log s) of Returned st \<Rightarrow> st | Threw \<Rightarrow> SUBSYSTEM_FAILURE)"
  define s1 where "s1 = done_hook Start_Hook i r s"
  have i: "i \<in> init_set s" and dom: "i \<in> dom (subsystems s)"
    using Cons.prems(3) active_dom(2) [of i s] by auto
  have pre: "hook_pre d False (hook_log s) (Start_Hook, i, r)"
    using Cons.prems(1,2,4) i follows_deps_next [OF Cons.prems(5)] by (auto simp: flags_logged_def)
  note run = done_hook_pre_run [OF Cons.prems(1) dom pre, folded s1_def]
  note sets = done_hook_set_simps [OF dom, of r, folded s1_def]
  note step = start_loop_step [OF i r_def, folded s1_def, unfolded Let_def]
  show ?case
  proof (cases "r = APP_OK")
    case True
    have "start_loop env previous is (completed @ [i]) s1 = (s', st)"
      using Cons.prems(6) True unfolding step by simp
    then have "hook_run (hook_pre d False) s1 s' \<and> init_set s' = init_set s1 \<and>
      (if st = APP_OK then app_lifecycle s' = RUNNING \<and> start_set s' = set ((completed @ [i]) @ is)
       else app_lifecycle s' = previous \<and> start_set s' = {} \<or> app_lifecycle s' = CRASHED \<and> start_set s' \<subseteq> init_set s')"
      using Cons.prems True sets run(2) by (intro Cons.IH) simp_all
    then show ?thesis using hook_run_trans [OF run(1), of s'] sets(6) by (auto split: if_splits)
  next
    case False
    obtain s2 rs where rb: "rollback_started env (rev completed) s1 APP_OK = (s2, rs)" by fastforce
    then have s': "s' = s2\<lparr>app_lifecycle := if rs = APP_OK then previous else CRASHED\<rparr>" "st = r"
      using Cons.prems(6) False unfolding step by auto
    have "dependents_first d (set completed) (rev completed)"
      using rev_dependents_first [OF Cons.prems(5)] Cons.prems(4) by simp
    then have rb': "hook_run (hook_pre d False) s1 s2 \<and> init_set s2 = init_set s1 \<and> start_set s2 \<subseteq> start_set s1 \<and>
        (rs = APP_OK \<longrightarrow> start_set s2 = start_set s1 - set (rev completed))"
      using Cons.prems(2,4) sets False run(2) by (intro rollback_started_run [OF _ _ _ _ rb]) simp_all
    then have "start_set s2 \<subseteq> init_set s2" "rs = APP_OK \<longrightarrow> start_set s2 = {}"
      using Cons.prems(2,3) sets False by auto
    then show ?thesis using hook_run_trans [OF run(1), of s2] False s' rb' sets(6) by simp
  qed
qed

section \<open>Topology\<close>

lemma add_node_new:
  assumes "graph_wf g" and "v \<notin> set (dg_nodes g)"
  obtains g' where "add_node v g = (g', GRAPH_OK)" "graph_wf g'" "dg_nodes g' = dg_nodes g @ [v]"
    "requires g' = requires g"
proof -
  have idx: "\<And>u i. node_indices g u = Some i \<longleftrightarrow> i < length (dg_nodes g) \<and> dg_nodes g ! i = u"
    and len: "length (dependents g) = length (dg_nodes g)" and dw: "deps_wf (dependents g)"
    using assms(1) unfolding graph_wf_def by blast+
  have none: "node_indices g v = None"
    using idx [of v] assms(2) by (metis not_Some_eq nth_mem)
  define g' where "g' = fst (add_node v g)"
  have wf: "graph_wf g'" unfolding g'_def using assms(1) by (rule graph_wf_add_node)
  have idx': "node_indices g' = (node_indices g)(v \<mapsto> length (dg_nodes g))"
    and deps': "dependents g' = dependents g @ [[]]" and nodes': "dg_nodes g' = dg_nodes g @ [v]"
    and st: "add_node v g = (g', GRAPH_OK)"
    using none by (simp_all add: g'_def add_node_def)
  have "requires g' x y \<longleftrightarrow> requires g x y" for x y
  proof -
    have out: "length (dg_nodes g) \<notin> set (dependents g ! p)" if "p < length (dg_nodes g)" for p
      using dw that len unfolding deps_wf_def by fastforce
    have nth: "(dependents g @ [[]]) ! p = (if p = length (dg_nodes g) then [] else dependents g ! p)"
      if "p < length (dg_nodes g) \<or> p = length (dg_nodes g)" for p using that len by (auto simp: nth_append)
    show ?thesis
    proof
      assume "requires g' x y"
      then obtain p k where pk: "((node_indices g)(v \<mapsto> length (dg_nodes g))) y = Some p"
        "((node_indices g)(v \<mapsto> length (dg_nodes g))) x = Some k" "k \<in> set ((dependents g @ [[]]) ! p)"
        unfolding requires_def idx' deps' by blast
      then have "y \<noteq> v" using nth [of "length (dg_nodes g)"] by auto
      then have y: "node_indices g y = Some p" using pk(1) by simp
      then have p: "p < length (dg_nodes g)" "k \<in> set (dependents g ! p)" using idx [of y p] pk(3) nth [of p] by auto
      then have "x \<noteq> v" using pk(2) out by auto
      then show "requires g x y" using y pk(2) p(2) unfolding requires_def by auto
    next
      assume "requires g x y"
      then obtain p k where pk: "node_indices g y = Some p" "node_indices g x = Some k" "k \<in> set (dependents g ! p)"
        unfolding requires_def by blast
      then have "y \<noteq> v" "x \<noteq> v" "p < length (dg_nodes g)" using none idx [of y p] by auto
      then show "requires g' x y" unfolding requires_def idx' deps' using pk nth [of p] by auto
    qed
  qed
  then show ?thesis using that [OF st wf nodes'] by (simp add: fun_eq_iff)
qed

lemma add_nodes_new:
  assumes "graph_wf g" "distinct (dg_nodes g @ is)"
  obtains g' where "add_nodes is g = Inr g'" "graph_wf g'" "dg_nodes g' = dg_nodes g @ is" "requires g' = requires g"
  using assms
proof (induction "is" arbitrary: g thesis)
  case (Cons i "is")
  obtain g1 where g1: "add_node i g = (g1, GRAPH_OK)" "graph_wf g1" "dg_nodes g1 = dg_nodes g @ [i]"
    "requires g1 = requires g" using Cons.prems(2,3) add_node_new [of g i] by auto
  moreover have "distinct (dg_nodes g1 @ is)" using Cons.prems(3) g1(3) by simp
  ultimately obtain g' where "add_nodes is g1 = Inr g'" "graph_wf g'" "dg_nodes g' = dg_nodes g1 @ is"
    "requires g' = requires g1" using Cons.IH [of g1] by blast
  then show ?case using g1 by (intro Cons.prems(1) [of g']) auto
qed simp

lemma add_edges_result:
  assumes "graph_wf g" "dom subs = set (dg_nodes g)" "i \<in> dom subs"
  shows "case add_edges subs i ds g of
      Inl st \<Rightarrow> st \<in> {MISSING_DEPENDENCY, APP_DUPLICATE_DEPENDENCY} \<and>
        (\<not> set ds \<subseteq> dom subs \<or> \<not> distinct ds \<or> (\<exists>j \<in> set ds. requires g i j))
    | Inr g' \<Rightarrow> graph_wf g' \<and> dg_nodes g' = dg_nodes g \<and>
        (\<forall>x y. requires g' x y \<longleftrightarrow> requires g x y \<or> (x = i \<and> y \<in> set ds))"
  using assms
proof (induction ds arbitrary: g)
  case (Cons j ds)
  show ?case
  proof (cases "j \<in> dom subs \<and> \<not> requires g i j")
    case True
    define g1 where "g1 = fst (add_dependency j i g)"
    have c: "snd (add_dependency j i g) = GRAPH_OK" "\<forall>x y. requires g1 x y \<longleftrightarrow> requires g x y \<or> (x = i \<and> y = j)"
      using add_dependency_cases [OF Cons.prems(1), of j i] True Cons.prems(2,3) unfolding g1_def by auto
    have g1: "add_dependency j i g = (g1, GRAPH_OK)" using c(1) by (simp add: g1_def prod_eq_iff)
    have wf: "graph_wf g1" unfolding g1_def using Cons.prems(1) by (rule graph_wf_add_dependency)
    have nodes: "dg_nodes g1 = dg_nodes g"
      unfolding g1_def by (simp add: add_dependency_def split: option.splits)
    have e: "add_edges subs i (j # ds) g = add_edges subs i ds g1" using g1 True by (auto simp: domIff)
    show ?thesis
      using Cons.IH [of g1] wf nodes Cons.prems(2,3) c(2) unfolding e by (fastforce split: sum.splits)
  next
    case False
    have "j \<in> dom subs \<Longrightarrow> requires g i j \<Longrightarrow> add_dependency j i g = (g, DUPLICATE_DEPENDENCY)"
      using add_dependency_cases [OF Cons.prems(1), of j i] Cons.prems(2,3) by auto
    then show ?thesis using False by (auto simp: domIff split: sum.splits)
  qed
qed simp

lemma add_all_edges_result:
  assumes "graph_wf g" "dom subs = set (dg_nodes g)" "set is \<subseteq> dom subs"
  shows "case add_all_edges subs is g of
      Inl st \<Rightarrow> st \<in> {MISSING_DEPENDENCY, APP_DUPLICATE_DEPENDENCY} \<and>
        (\<not> distinct is \<or> (\<exists>i \<in> set is. \<not> set (entry_dependencies (the (subs i))) \<subseteq> dom subs \<or>
          \<not> distinct (entry_dependencies (the (subs i))) \<or> (\<exists>j. requires g i j)))
    | Inr g' \<Rightarrow> graph_wf g' \<and> dg_nodes g' = dg_nodes g \<and>
        (\<forall>x y. requires g' x y \<longleftrightarrow> requires g x y \<or> (x \<in> set is \<and> y \<in> set (entry_dependencies (the (subs x)))))"
  using assms
proof (induction "is" arbitrary: g)
  case (Cons i "is")
  obtain e where e: "subs i = Some e" using Cons.prems(3) by auto
  note edge = add_edges_result [OF Cons.prems(1,2), of i "entry_dependencies e"]
  show ?case
  proof (cases "add_edges subs i (entry_dependencies e) g")
    case (Inl st)
    then show ?thesis using edge e by fastforce
  next
    case (Inr g1)
    then have g1: "graph_wf g1" "dg_nodes g1 = dg_nodes g"
      "\<forall>x y. requires g1 x y \<longleftrightarrow> requires g x y \<or> (x = i \<and> y \<in> set (entry_dependencies e))"
      using edge e by auto
    have eq: "add_all_edges subs (i # is) g = add_all_edges subs is g1" using e Inr by simp
    have ih: "case add_all_edges subs is g1 of
      Inl st \<Rightarrow> st \<in> {MISSING_DEPENDENCY, APP_DUPLICATE_DEPENDENCY} \<and>
        (\<not> distinct is \<or> (\<exists>i \<in> set is. \<not> set (entry_dependencies (the (subs i))) \<subseteq> dom subs \<or>
          \<not> distinct (entry_dependencies (the (subs i))) \<or> (\<exists>j. requires g1 i j)))
    | Inr g' \<Rightarrow> graph_wf g' \<and> dg_nodes g' = dg_nodes g1 \<and>
        (\<forall>x y. requires g' x y \<longleftrightarrow> requires g1 x y \<or> (x \<in> set is \<and> y \<in> set (entry_dependencies (the (subs x)))))"
      using Cons.IH [of g1] g1 Cons.prems(2,3) by simp
    show ?thesis
    proof (cases "add_all_edges subs is g1")
      case st: (Inl st)
      show ?thesis using ih g1(3) unfolding eq st sum.case list.set distinct.simps by blast
    next
      case g2: (Inr g2)
      show ?thesis using ih g1 e unfolding eq g2 by auto
    qed
  qed
qed simp

lemma forward_layers_again:
  assumes "graph_wf g" and "forward_layers g = Some (g', GRAPH_OK, ls)"
  shows "forward_layers g' = Some (g', GRAPH_OK, ls)"
  using assms(1)
proof (cases rule: validate_locked_cases)
  case (valid g1)
  then have g': "g' = g1" using assms(2) by (simp add: forward_layers_def)
  have "validate_locked g1 = Some (g1, GRAPH_OK)" using valid(6) by (simp add: validate_locked_def)
  then show ?thesis using assms(2) valid unfolding g' by (simp add: forward_layers_def)
next
  case (cycle g1)
  then show ?thesis using assms(2) by (simp add: forward_layers_def)
qed

lemma requires_cong:
  assumes "graph_wf g" "graph_wf g'" "dg_nodes g' = dg_nodes g" "dependents g' = dependents g"
  shows "requires g' = requires g"
proof -
  have "node_indices g' u = node_indices g u" for u
    using assms(1-3) unfolding graph_wf_def by (metis not_Some_eq)
  with assms(4) show ?thesis unfolding requires_def fun_eq_iff by simp
qed

definition topology_of :: "'id app_state \<Rightarrow> 'id dependency_graph \<Rightarrow> 'id list list \<Rightarrow> bool" where
  "topology_of s g layers \<longleftrightarrow> graph_wf g \<and> set (dg_nodes g) = dom (subsystems s) \<and>
     (\<forall>v w. requires g v w \<longleftrightarrow> w \<in> deps_of s v) \<and> layer_order g = Some layers"

text \<open>The registered dependencies can be ordered: none is missing, repeated or part of a cycle.\<close>

definition sortable :: "'id app_state \<Rightarrow> bool" where
  "sortable s \<longleftrightarrow> (\<exists>rank :: 'id \<Rightarrow> nat. \<forall>i e. subsystems s i = Some e \<longrightarrow> distinct (entry_dependencies e) \<and>
     (\<forall>j \<in> set (entry_dependencies e). j \<in> dom (subsystems s) \<and> rank j < rank i))"

lemma sortable_acyclic:
  assumes "graph_wf g" and "sortable s" and req: "\<forall>v w. requires g v w \<longleftrightarrow> w \<in> deps_of s v"
  shows "acyclic (edges (dependents g))"
proof -
  obtain rank :: "'a \<Rightarrow> nat" where "\<forall>i e. subsystems s i = Some e \<longrightarrow> distinct (entry_dependencies e) \<and>
      (\<forall>j \<in> set (entry_dependencies e). j \<in> dom (subsystems s) \<and> rank j < rank i)"
    using assms(2) unfolding sortable_def by blast
  then have rank: "w \<in> deps_of s v \<Longrightarrow> rank w < rank v" for v w
    by (cases "subsystems s v") (simp_all add: deps_of_def)
  have idx: "\<And>u i. node_indices g u = Some i \<longleftrightarrow> i < length (dg_nodes g) \<and> dg_nodes g ! i = u"
    and len: "length (dependents g) = length (dg_nodes g)" and dw: "deps_wf (dependents g)"
    using assms(1) unfolding graph_wf_def by blast+
  have "edges (dependents g) \<subseteq> measure (\<lambda>i. rank (dg_nodes g ! i))"
  proof
    fix e assume "e \<in> edges (dependents g)"
    then obtain p k where e: "e = (p, k)" "p \<in> preds (dependents g) k" by (auto simp: edges_def)
    then have "p < length (dg_nodes g)" "k < length (dg_nodes g)" "k \<in> set (dependents g ! p)"
      using dependent_lt [OF dw] len by (auto simp: preds_def)
    then have "requires g (dg_nodes g ! k) (dg_nodes g ! p)" unfolding requires_def using idx by blast
    then show "e \<in> measure (\<lambda>i. rank (dg_nodes g ! i))" using req rank e(1) by simp
  qed
  then show ?thesis by (meson acyclic_subset wf_acyclic wf_measure)
qed

lemma build_topology_result:
  assumes order: "distinct (registration_order s)" "set (registration_order s) = dom (subsystems s)"
  obtains (built) g layers where "build_topology s =
      Some (s\<lparr>app_topology := Some g, app_forward_layers := layers, app_reverse_layers := rev layers\<rparr>, APP_OK)"
      "topology_of s g layers"
  | (rejected) st where "build_topology s = Some (s, st)" "\<not> sortable s"
      "st \<in> {MISSING_DEPENDENCY, APP_DUPLICATE_DEPENDENCY, APP_DEPENDENCY_CYCLE}"
proof -
  obtain g where g: "add_nodes (registration_order s) empty_graph = Inr g" "graph_wf g"
      "dg_nodes g = registration_order s" "requires g = requires (empty_graph :: 'a dependency_graph)"
    using add_nodes_new [OF graph_wf_empty, of "registration_order s"] order(1) by (auto simp: empty_graph_def)
  have none: "\<not> requires g v w" for v w unfolding g(4) by (simp add: requires_def empty_graph_def)
  have dom: "dom (subsystems s) = set (dg_nodes g)" using order(2) g(3) by simp
  note edges = add_all_edges_result [OF g(2) dom, of "registration_order s"]
  show ?thesis
  proof (cases "add_all_edges (subsystems s) (registration_order s) g")
    case (Inl st)
    then have "\<not> sortable s" "st \<in> {MISSING_DEPENDENCY, APP_DUPLICATE_DEPENDENCY}"
      using edges order none unfolding sortable_def by (fastforce simp: subset_iff)+
    then show ?thesis using Inl g(1) by (intro rejected [of st]) (auto simp: build_topology_def)
  next
    case (Inr g1)
    then have g1: "graph_wf g1" "dg_nodes g1 = dg_nodes g"
        "\<forall>x y. requires g1 x y \<longleftrightarrow> x \<in> dom (subsystems s) \<and> y \<in> set (entry_dependencies (the (subsystems s x)))"
      using edges order(2) none by auto
    have req: "\<forall>v w. requires g1 v w \<longleftrightarrow> w \<in> deps_of s v"
      using g1(3) by (auto simp: deps_of_def domIff split: option.splits)
    show ?thesis using g1(1)
    proof (cases rule: layer_order_cases)
      case (valid g2 ls)
      let ?layers = "map (map (\<lambda>i. dg_nodes g1 ! i)) ls"
      have again: "forward_layers g2 = Some (g2, GRAPH_OK, ?layers)" by (rule forward_layers_again [OF g1(1) valid(1)])
      have "build_topology s =
          Some (s\<lparr>app_topology := Some g2, app_forward_layers := ?layers, app_reverse_layers := rev ?layers\<rparr>, APP_OK)"
        using g(1) Inr valid(1) again by (simp add: build_topology_def reverse_layers_def)
      moreover have "topology_of s g2 ?layers"
        using valid(4,5) req requires_cong [OF g1(1) valid(4-6)] again g1(2) dom
        by (simp add: topology_of_def layer_order_def)
      ultimately show ?thesis by (rule built)
    next
      case (cycle g2)
      then have "\<not> sortable s" using sortable_acyclic [OF g1(1) _ req] by blast
      then show ?thesis using cycle(1) g(1) Inr by (intro rejected) (auto simp: build_topology_def)
    qed
  qed
qed

section \<open>Histories\<close>

text \<open>What holds between two public calls, by lifecycle state.\<close>

fun lifecycle_inv :: "lifecycle_state \<Rightarrow> 'id app_state \<Rightarrow> bool" where
  "lifecycle_inv UNINITIALIZED s \<longleftrightarrow> app_topology s = None \<and> \<not> registration_frozen s \<and> hook_log s = []"
| "lifecycle_inv INITIALIZED s \<longleftrightarrow> app_topology s \<noteq> None \<and> registration_frozen s \<and>
     init_set s = dom (subsystems s) \<and> start_set s = {}"
| "lifecycle_inv RUNNING s \<longleftrightarrow> app_topology s \<noteq> None \<and> registration_frozen s \<and>
     init_set s = dom (subsystems s) \<and> start_set s = dom (subsystems s)"
| "lifecycle_inv STOPPED s \<longleftrightarrow> app_topology s \<noteq> None \<and> registration_frozen s \<and>
     init_set s = dom (subsystems s) \<and> start_set s = {}"
| "lifecycle_inv TERMINATED s \<longleftrightarrow> registration_frozen s \<and> init_set s = {} \<and> start_set s = {}"
| "lifecycle_inv CRASHED s \<longleftrightarrow> registration_frozen s \<and> start_set s \<subseteq> init_set s"
| "lifecycle_inv _ s \<longleftrightarrow> False"

definition topology_inv :: "'id app_state \<Rightarrow> bool" where
  "topology_inv s \<longleftrightarrow> (case app_topology s of
      None \<Rightarrow> app_forward_layers s = [] \<and> app_reverse_layers s = [] \<and> init_set s = {}
    | Some g \<Rightarrow> topology_of s g (app_forward_layers s) \<and> app_reverse_layers s = rev (app_forward_layers s))"

definition names_inv :: "'id app_state \<Rightarrow> bool" where
  "names_inv s \<longleftrightarrow> (\<forall>n i. subsystem_names s n = Some i \<longleftrightarrow> map_option entry_name (subsystems s i) = Some n)"

definition app_wf :: "'id app_state \<Rightarrow> bool" where
  "app_wf s \<longleftrightarrow> distinct (registration_order s) \<and> set (registration_order s) = dom (subsystems s) \<and>
     names_inv s \<and> topology_inv s \<and> flags_logged s \<and> lifecycle_inv (app_lifecycle s) s"

lemma app_wf_new: "app_wf new_app"
  by (simp add: app_wf_def new_app_def names_inv_def topology_inv_def init_set_def start_set_def
      flags_logged_def log_initialized_def log_started_def)

text \<open>The layers of a built topology visit every subsystem, dependencies first.\<close>

lemma topology_forward:
  assumes "topology_of s g layers"
  shows "distinct (concat layers)" and "set (concat layers) = dom (subsystems s)"
    and "follows_deps (deps_of s) (concat layers)"
proof -
  have g: "graph_wf g" "layer_order g = Some layers" "set (dg_nodes g) = dom (subsystems s)"
    "\<forall>v w. requires g v w \<longleftrightarrow> w \<in> deps_of s v" using assms by (simp_all add: topology_of_def)
  show "distinct (concat layers)" "set (concat layers) = dom (subsystems s)"
    using layers.order_members [OF g(1,2)] g(3) by auto
  show "follows_deps (deps_of s) (concat layers)"
    unfolding follows_deps_def using layers.forward_prerequisites_first [OF g(1,2)] g(4) by blast
qed

lemma topology_reverse:
  assumes "topology_of s g layers"
  shows "layers_dependents_first (deps_of s) (dom (subsystems s)) (rev layers)"
    and "dependents_first (deps_of s) (dom (subsystems s)) (concat (rev layers))"
proof -
  have g: "graph_wf g" "layer_order g = Some layers" "set (dg_nodes g) = dom (subsystems s)"
    "\<forall>v w. requires g v w \<longleftrightarrow> w \<in> deps_of s v" using assms by (simp_all add: topology_of_def)
  show "layers_dependents_first (deps_of s) (dom (subsystems s)) (rev layers)"
    unfolding layers_dependents_first_def
    using layers.reverse_layer_dependents_first [OF g(1,2)] g(3,4) by blast
  show "dependents_first (deps_of s) (dom (subsystems s)) (concat (rev layers))"
    unfolding dependents_first_def using layers.reverse_dependents_first [OF g(1,2)] g(3,4) by blast
qed

lemma layers_dependents_first_subset:
  "layers_dependents_first d A ls \<Longrightarrow> B \<subseteq> A \<Longrightarrow> layers_dependents_first d B ls"
  unfolding layers_dependents_first_def by blast

lemma dependents_first_subset: "dependents_first d A xs \<Longrightarrow> B \<subseteq> A \<Longrightarrow> dependents_first d B xs"
  unfolding dependents_first_def by blast

lemma topology_of_registry:
  "app_registry s' = app_registry s \<Longrightarrow> topology_of s' g layers \<longleftrightarrow> topology_of s g layers"
  using registry_facts(1,2) [of s' s] by (simp add: topology_of_def)

text \<open>A run of hooks keeps all of the invariant but the lifecycle's part.\<close>

lemma hook_run_wf:
  assumes "app_wf s" and "hook_run P s s'" and "init_set s' \<subseteq> init_set s \<or> app_topology s \<noteq> None"
    and "lifecycle_inv (app_lifecycle s') s'"
  shows "app_wf s'"
proof -
  note f = hook_run_facts [OF assms(2)]
  have "topology_inv s'"
    using assms(1,3) f topology_of_registry [OF hook_run_registry [OF assms(2)]]
    by (auto simp: app_wf_def topology_inv_def split: option.splits)
  then show ?thesis
    using assms(1,4) f hook_run_logged [OF assms(2)] by (simp add: app_wf_def names_inv_def)
qed

lemma app_wf_flags: "app_wf s \<Longrightarrow> flags_logged s" "app_wf s \<Longrightarrow> topology_inv s" "app_wf s \<Longrightarrow> start_set s \<subseteq> init_set s"
proof -
  assume wf: "app_wf s"
  then show "flags_logged s" "topology_inv s" by (simp_all add: app_wf_def)
  then show "start_set s \<subseteq> init_set s" using wf unfolding app_wf_def
    by (cases "app_lifecycle s") (auto simp: flags_logged_def log_started_def)
qed

lemma start_set_dom: "start_set s \<subseteq> dom (subsystems s)" and init_set_dom: "init_set s \<subseteq> dom (subsystems s)"
  by (auto simp: start_set_def init_set_def)

lemma stop_started_run:
  assumes "flags_logged s" "topology_inv s" "start_set s \<subseteq> init_set s" "stop_started env best_effort s = (s', st)"
    and "c \<or> \<not> best_effort \<or> st = APP_OK"
  shows "hook_run (hook_pre (deps_of s) c) s s' \<and> init_set s' = init_set s \<and> start_set s' \<subseteq> start_set s \<and>
    (st = APP_OK \<longrightarrow> start_set s' = {})"
proof (cases "app_topology s")
  case None
  then show ?thesis using assms by (auto simp: topology_inv_def stop_started_def hook_run_refl)
next
  case (Some g)
  then have top: "topology_of s g (app_forward_layers s)" "app_reverse_layers s = rev (app_forward_layers s)"
    using assms(2) by (simp_all add: topology_inv_def)
  have dom: "set (concat (app_reverse_layers s)) = dom (subsystems s)"
    using topology_forward(2) [OF top(1)] top(2) by simp
  have "layers_dependents_first (deps_of s) (start_set s) (app_reverse_layers s)"
    using layers_dependents_first_subset [OF topology_reverse(1) [OF top(1)] start_set_dom] top(2) by simp
  then have cond: "c \<or> ((\<not> best_effort \<or> st = APP_OK) \<and>
      layers_dependents_first (deps_of s) (start_set s) (app_reverse_layers s))" using assms(5) by blast
  have "set (concat (app_reverse_layers s)) \<subseteq> dom (subsystems s)" using dom by simp
  from stop_layers_run [OF assms(1) this assms(4) [unfolded stop_started_def] cond]
  show ?thesis using dom start_set_dom [of s] by auto
qed

lemma terminate_initialized_run:
  assumes "flags_logged s" "topology_inv s" "start_set s \<subseteq> init_set s" "terminate_initialized env s = (s', st)"
    and "c \<or> st = APP_OK \<and> start_set s = {}"
  shows "hook_run (hook_pre (deps_of s) c) s s' \<and> init_set s' \<subseteq> init_set s \<and> start_set s' \<subseteq> init_set s' \<and>
    (st = APP_OK \<longrightarrow> init_set s' = {})"
proof (cases "app_topology s")
  case None
  then show ?thesis using assms by (auto simp: topology_inv_def terminate_initialized_def hook_run_refl)
next
  case (Some g)
  then have top: "topology_of s g (app_forward_layers s)" "app_reverse_layers s = rev (app_forward_layers s)"
    using assms(2) by (simp_all add: topology_inv_def)
  have dom: "set (concat (app_reverse_layers s)) = dom (subsystems s)"
    using topology_forward(2) [OF top(1)] top(2) by simp
  have "dependents_first (deps_of s) (init_set s) (concat (app_reverse_layers s))"
    using dependents_first_subset [OF topology_reverse(2) [OF top(1)] init_set_dom] top(2) by simp
  then have cond: "c \<or> (st = APP_OK \<and> dependents_first (deps_of s) (init_set s) (concat (app_reverse_layers s)) \<and>
      start_set s = {})" using assms(5) by blast
  have "set (concat (app_reverse_layers s)) \<subseteq> dom (subsystems s)" using dom by simp
  from terminate_loop_run [OF assms(1) this assms(4) [unfolded terminate_initialized_def] cond]
  show ?thesis using dom init_set_dom [of s] assms(3) by auto
qed

lemma app_stop_run:
  assumes wf: "app_wf s" and stop: "app_stop env s = (s', st)"
  shows "app_wf s'" "hook_run (hook_pre (deps_of s) False) s s'" "init_set s' = init_set s"
    and "st = APP_OK \<Longrightarrow> start_set s' = {}"
proof -
  note flags = app_wf_flags [OF wf]
  have inv: "lifecycle_inv (app_lifecycle s) s" using wf by (simp add: app_wf_def)
  have "app_wf s' \<and> hook_run (hook_pre (deps_of s) False) s s' \<and> init_set s' = init_set s \<and>
      (st = APP_OK \<longrightarrow> start_set s' = {})"
  proof (cases "app_lifecycle s \<in> {RUNNING, CRASHED}")
    case False
    then have "s' = s \<and> start_set s = {}"
      using stop inv flags(1) by (cases "app_lifecycle s") (auto simp: app_stop_def flags_logged_def log_started_def)
    then show ?thesis using wf flags(1) by (simp add: hook_run_refl)
  next
    case True
    let ?s0 = "s\<lparr>app_lifecycle := STOPPING\<rparr>"
    obtain s1 where run: "stop_started env False ?s0 = (s1, st)"
      and s': "s' = s1\<lparr>app_lifecycle := if st = APP_OK \<and> app_lifecycle s \<noteq> CRASHED then STOPPED else CRASHED\<rparr>"
      using stop True by (auto simp: app_stop_def split: prod.splits)
    have s0: "flags_logged ?s0" "topology_inv ?s0" "start_set ?s0 \<subseteq> init_set ?s0"
      using flags by (simp_all add: topology_inv_def topology_of_def cong: option.case_cong)
    from stop_started_run [OF s0 run, of False]
    have r: "hook_run (hook_pre (deps_of s) False) s s1" "init_set s1 = init_set s" "start_set s1 \<subseteq> start_set s"
      "st = APP_OK \<longrightarrow> start_set s1 = {}" by auto
    note f = hook_run_facts [OF r(1)]
    have "start_set s1 \<subseteq> init_set s1" using r(2,3) flags(3) by simp
    then have "lifecycle_inv (app_lifecycle s') s'"
      using inv True r(2,4) f(2,5,8) unfolding s' by auto
    then have "app_wf s'" using hook_run_wf [OF wf, of _ s'] r(1,2) unfolding s' by simp
    then show ?thesis using r unfolding s' by simp
  qed
  then show "app_wf s'" "hook_run (hook_pre (deps_of s) False) s s'" "init_set s' = init_set s"
    and "st = APP_OK \<Longrightarrow> start_set s' = {}" by simp_all
qed

lemma app_terminate_run:
  assumes wf: "app_wf s" and stop: "app_terminate env s = (s', st)"
  shows "app_wf s'" "app_lifecycle s \<noteq> UNINITIALIZED \<Longrightarrow> hook_run (hook_pre (deps_of s) (st \<noteq> APP_OK)) s s'"
    and "hook_log s' = hook_log s \<or> app_lifecycle s \<noteq> UNINITIALIZED"
    and "st = APP_OK \<Longrightarrow> app_lifecycle s' = TERMINATED" "deps_of s' = deps_of s"
proof -
  note flags = app_wf_flags [OF wf]
  have inv: "lifecycle_inv (app_lifecycle s) s" using wf by (simp add: app_wf_def)
  have "app_wf s' \<and> (app_lifecycle s \<noteq> UNINITIALIZED \<longrightarrow> hook_run (hook_pre (deps_of s) (st \<noteq> APP_OK)) s s') \<and>
      (hook_log s' = hook_log s \<or> app_lifecycle s \<noteq> UNINITIALIZED) \<and>
      (st = APP_OK \<longrightarrow> app_lifecycle s' = TERMINATED) \<and> deps_of s' = deps_of s"
  proof (cases "app_lifecycle s = TERMINATED \<or> app_lifecycle s = UNINITIALIZED")
    case True
    then show ?thesis
    proof
      assume "app_lifecycle s = TERMINATED"
      then show ?thesis using stop wf flags(1) by (simp add: app_terminate_def hook_run_refl)
    next
      assume u: "app_lifecycle s = UNINITIALIZED"
      then have s': "s' = s\<lparr>registration_frozen := True, app_lifecycle := TERMINATED\<rparr>" "st = APP_OK"
        using stop by (simp_all add: app_terminate_def)
      have "init_set s = {}" "start_set s = {}"
        using flags(1) inv u by (auto simp: flags_logged_def log_initialized_def log_started_def)
      moreover have "app_forward_layers s = []" "app_reverse_layers s = []"
        using flags(2) inv u by (simp_all add: topology_inv_def)
      ultimately have "app_wf s'" using wf u inv by (simp add: s' app_wf_def names_inv_def topology_inv_def)
      then show ?thesis using u s' by simp
    qed
  next
    case False
    let ?s0 = "s\<lparr>app_lifecycle := TERMINATING\<rparr>"
    have live: "app_lifecycle s \<in> {INITIALIZED, RUNNING, STOPPED, CRASHED}"
      using inv False by (cases "app_lifecycle s") auto
    obtain s1 f1 where run1: "stop_started env True ?s0 = (s1, f1)" by fastforce
    obtain s2 f2 where run2: "terminate_initialized env s1 = (s2, f2)" by fastforce
    have s': "s' = s2\<lparr>app_lifecycle := if st = APP_OK then TERMINATED else CRASHED\<rparr>" and st: "st = record_failure f2 f1"
      using stop live run1 run2 by (auto simp: app_terminate_def Let_def)
    have s0: "flags_logged ?s0" "topology_inv ?s0" "start_set ?s0 \<subseteq> init_set ?s0"
      using flags by (simp_all add: topology_inv_def topology_of_def cong: option.case_cong)
    have "(st \<noteq> APP_OK) \<or> \<not> True \<or> f1 = APP_OK" using st by auto
    from stop_started_run [OF s0 run1 this]
    have r1: "hook_run (hook_pre (deps_of s) (st \<noteq> APP_OK)) s s1" "init_set s1 = init_set s" "start_set s1 \<subseteq> start_set s"
      "f1 = APP_OK \<longrightarrow> start_set s1 = {}" by auto
    note f = hook_run_facts [OF r1(1)]
    have s1: "flags_logged s1" "topology_inv s1" "start_set s1 \<subseteq> init_set s1"
      using hook_run_logged [OF r1(1)] flags(2,3) f(5,6,7) r1(2,3) topology_of_registry [OF hook_run_registry [OF r1(1)]]
      by (auto simp: topology_inv_def split: option.splits)
    have "(st \<noteq> APP_OK) \<or> f2 = APP_OK \<and> start_set s1 = {}" using st r1(4) by auto
    from terminate_initialized_run [OF s1 run2 this]
    have r2: "hook_run (hook_pre (deps_of s) (st \<noteq> APP_OK)) s1 s2" "init_set s2 \<subseteq> init_set s1"
      "start_set s2 \<subseteq> init_set s2" "f2 = APP_OK \<longrightarrow> init_set s2 = {}" using f(1) by auto
    have r: "hook_run (hook_pre (deps_of s) (st \<noteq> APP_OK)) s s2" by (rule hook_run_trans [OF r1(1) r2(1)])
    note g = hook_run_facts [OF r]
    have "registration_frozen s" using live inv by auto
    then have "lifecycle_inv (app_lifecycle s') s'" using r2(3,4) st g(8) unfolding s' by auto
    then have "app_wf s'" using hook_run_wf [OF wf, of _ s'] r r2(2) r1(2) unfolding s' by simp
    then show ?thesis using r g(1) False unfolding s' by simp
  qed
  then show "app_wf s'" "app_lifecycle s \<noteq> UNINITIALIZED \<Longrightarrow> hook_run (hook_pre (deps_of s) (st \<noteq> APP_OK)) s s'"
    and "hook_log s' = hook_log s \<or> app_lifecycle s \<noteq> UNINITIALIZED"
    and "st = APP_OK \<Longrightarrow> app_lifecycle s' = TERMINATED" "deps_of s' = deps_of s" by simp_all
qed

lemma app_start_run:
  assumes wf: "app_wf s" and start: "app_start env s = (s', st)"
  shows "app_wf s'" "hook_run (hook_pre (deps_of s) False) s s'"
    and "st = APP_OK \<Longrightarrow> app_lifecycle s' = RUNNING"
    and "st \<noteq> APP_OK \<Longrightarrow> app_lifecycle s' = app_lifecycle s \<and> start_set s' = start_set s \<or> app_lifecycle s' = CRASHED"
proof -
  note flags = app_wf_flags [OF wf]
  have inv: "lifecycle_inv (app_lifecycle s) s" using wf by (simp add: app_wf_def)
  have "app_wf s' \<and> hook_run (hook_pre (deps_of s) False) s s' \<and> (st = APP_OK \<longrightarrow> app_lifecycle s' = RUNNING) \<and>
      (st \<noteq> APP_OK \<longrightarrow> app_lifecycle s' = app_lifecycle s \<and> start_set s' = start_set s \<or> app_lifecycle s' = CRASHED)"
  proof (cases "app_lifecycle s \<in> {INITIALIZED, STOPPED}")
    case False
    then have "s' = s" "st \<noteq> APP_OK" using start by (auto simp: app_start_def)
    then show ?thesis using wf flags(1) by (simp add: hook_run_refl)
  next
    case True
    let ?s0 = "s\<lparr>app_lifecycle := STARTING\<rparr>" and ?order = "concat (app_forward_layers s)"
    have run: "start_loop env (app_lifecycle s) ?order [] ?s0 = (s', st)" using start True by (auto simp: app_start_def)
    from True inv have live: "app_topology s \<noteq> None" "registration_frozen s" "init_set s = dom (subsystems s)" "start_set s = {}" by auto
    then obtain g where "topology_of s g (app_forward_layers s)" using flags(2) by (auto simp: topology_inv_def)
    note top = topology_forward [OF this]
    have "hook_run (hook_pre (deps_of s) False) ?s0 s' \<and> init_set s' = init_set ?s0 \<and>
        (if st = APP_OK then app_lifecycle s' = RUNNING \<and> start_set s' = set ([] @ ?order)
         else app_lifecycle s' = app_lifecycle s \<and> start_set s' = {} \<or> app_lifecycle s' = CRASHED \<and> start_set s' \<subseteq> init_set s')"
      using flags(1) live top by (intro start_loop_run [OF _ _ _ _ _ run]) simp_all
    then have r: "hook_run (hook_pre (deps_of s) False) s s'" "init_set s' = init_set s"
      "if st = APP_OK then app_lifecycle s' = RUNNING \<and> start_set s' = dom (subsystems s)
       else app_lifecycle s' = app_lifecycle s \<and> start_set s' = {} \<or> app_lifecycle s' = CRASHED \<and> start_set s' \<subseteq> init_set s'"
      using top(2) by (auto split: if_splits)
    note f = hook_run_facts [OF r(1)]
    have "lifecycle_inv (app_lifecycle s') s'"
      using r(2,3) f(2,5,8) live True by (auto split: if_splits)
    then have "app_wf s'" using hook_run_wf [OF wf r(1)] r(2) by simp
    then show ?thesis using r live(4) by (auto split: if_splits)
  qed
  then show "app_wf s'" "hook_run (hook_pre (deps_of s) False) s s'" "st = APP_OK \<Longrightarrow> app_lifecycle s' = RUNNING"
    and "st \<noteq> APP_OK \<Longrightarrow> app_lifecycle s' = app_lifecycle s \<and> start_set s' = start_set s \<or> app_lifecycle s' = CRASHED"
    by auto
qed

lemma app_initialize_run:
  assumes wf: "app_wf s"
  obtains s' st where "app_initialize env mode s = Some (s', st)" "app_wf s'" "deps_of s' = deps_of s"
    "subsystem_names s' = subsystem_names s" "dom (subsystems s') = dom (subsystems s)"
    "\<exists>evs. hook_log s' = hook_log s @ evs \<and> calls_ok (hook_pre (deps_of s) False) (hook_log s) evs"
    "st = APP_OK \<Longrightarrow> app_lifecycle s' = INITIALIZED"
    "st \<noteq> APP_OK \<Longrightarrow> app_lifecycle s' = CRASHED \<or> s' = s \<and> (app_lifecycle s \<noteq> UNINITIALIZED \<or> \<not> valid_operating_mode mode)"
    "app_lifecycle s = UNINITIALIZED \<Longrightarrow> valid_operating_mode mode \<Longrightarrow> sortable s \<Longrightarrow>
       \<forall>i log. throwing_hook env Initialize_Hook i log = Returned APP_OK \<Longrightarrow> st = APP_OK"
proof (cases "app_lifecycle s = UNINITIALIZED \<and> valid_operating_mode mode")
  case False
  then have "app_initialize env mode s = Some (s, if app_lifecycle s \<noteq> UNINITIALIZED
      then INVALID_LIFECYCLE_TRANSITION else APP_INVALID_ARGUMENT)" by (simp add: app_initialize_def)
  then obtain st where "app_initialize env mode s = Some (s, st)" "st \<noteq> APP_OK" by (simp split: if_splits)
  then show ?thesis using False wf by (intro that [of s st]) auto
next
  case True
  note flags = app_wf_flags [OF wf]
  have inv: "app_topology s = None" "\<not> registration_frozen s" "hook_log s = []"
    using wf True by (simp_all add: app_wf_def)
  have empty: "init_set s = {}" "start_set s = {}"
    using flags(1) inv by (auto simp: flags_logged_def log_initialized_def log_started_def)
  have layers: "app_forward_layers s = []" "app_reverse_layers s = []" using flags(2) inv by (simp_all add: topology_inv_def)
  define s1 where "s1 = s\<lparr>registration_frozen := True, app_mode := mode, app_lifecycle := INITIALIZING\<rparr>"
  have sort: "sortable s1 = sortable s" by (simp add: s1_def sortable_def)
  have init: "app_initialize env mode s = (case build_topology s1 of None \<Rightarrow> None
      | Some (s2, status) \<Rightarrow> if status \<noteq> APP_OK then Some (s2\<lparr>app_lifecycle := CRASHED\<rparr>, status)
          else Some (initialize_loop env (concat (app_forward_layers s2)) [] s2))"
    using True by (simp add: app_initialize_def s1_def)
  have "distinct (registration_order s1)" "set (registration_order s1) = dom (subsystems s1)"
    using wf by (simp_all add: app_wf_def s1_def)
  then show ?thesis
  proof (cases rule: build_topology_result)
    case (rejected st)
    have "app_wf (s1\<lparr>app_lifecycle := CRASHED\<rparr>)"
      using wf empty inv layers by (simp add: s1_def app_wf_def names_inv_def topology_inv_def)
    then show ?thesis using rejected init sort
      by (intro that [of "s1\<lparr>app_lifecycle := CRASHED\<rparr>" st]) (auto simp: s1_def)
  next
    case (built g ls)
    define s2 where "s2 = s1\<lparr>app_topology := Some g, app_forward_layers := ls, app_reverse_layers := rev ls\<rparr>"
    have t: "topology_of s2 g ls" using built(2) by (simp add: s2_def topology_of_def)
    have wf2: "app_wf (s2\<lparr>app_lifecycle := CRASHED\<rparr>)"
      using wf empty inv layers t by (simp add: s2_def s1_def app_wf_def names_inv_def topology_inv_def topology_of_def)
    have s2: "init_set s2 = {}" "start_set s2 = {}" "flags_logged s2" "deps_of s2 = deps_of s"
      "subsystem_names s2 = subsystem_names s" "dom (subsystems s2) = dom (subsystems s)" "hook_log s2 = hook_log s"
      "registration_frozen s2" "app_topology s2 \<noteq> None" "app_forward_layers s2 = ls"
      using empty flags(1) by (simp_all add: s2_def s1_def)
    obtain s' st where loop: "initialize_loop env (concat ls) [] s2 = (s', st)" by fastforce
    have run: "hook_run (hook_pre (deps_of s) False) s2 s' \<and> start_set s' = {} \<and>
        (if st = APP_OK then app_lifecycle s' = INITIALIZED \<and> init_set s' = set ([] @ concat ls)
         else app_lifecycle s' = CRASHED)"
      using s2 topology_forward [OF t] by (intro initialize_loop_run [OF _ _ _ _ _ _ loop]) simp_all
    then have r: "hook_run (hook_pre (deps_of s) False) s2 s'" by simp
    note f = hook_run_facts [OF r]
    have "lifecycle_inv (app_lifecycle s') s'"
      using run f(2,5,8) s2 topology_forward(2) [OF t] by (auto split: if_splits)
    then have wf': "app_wf s'" using hook_run_wf [OF wf2, of _ s'] r s2(9) by simp
    have ok: "st = APP_OK" if "\<forall>i log. throwing_hook env Initialize_Hook i log = Returned APP_OK"
    proof -
      have "snd (initialize_loop env is c s) = APP_OK" if "set is \<subseteq> dom (subsystems s)" for "is" c s
        using that
      proof (induction "is" arbitrary: c s)
        case (Cons i "is")
        then have "i \<in> dom (subsystems s)" by simp
        note step = initialize_loop_step [OF this, of APP_OK env, unfolded Let_def]
        show ?case using Cons step registry_facts(2) [OF done_hook_registry, of Initialize_Hook i APP_OK s]
            \<open>\<forall>i log. throwing_hook env Initialize_Hook i log = Returned APP_OK\<close> by simp
      qed simp
      then show ?thesis using loop topology_forward(2) [OF t] by (metis order_refl snd_conv)
    qed
    show ?thesis
      using wf' f s2 r init built(1) loop run ok
      by (intro that [of s' st]) (auto simp: s2_def [symmetric] hook_run_def split: if_splits)
  qed
qed

lemma register_result:
  assumes wf: "app_wf s"
  shows "app_wf (fst (register_subsystem i sub s))"
    "hook_log (fst (register_subsystem i sub s)) = hook_log s"
    "snd (register_subsystem i sub s) \<noteq> APP_OK \<Longrightarrow> fst (register_subsystem i sub s) = s"
    "snd (register_subsystem i sub s) = APP_OK \<Longrightarrow> hook_log s = []"
proof -
  show "snd (register_subsystem i sub s) \<noteq> APP_OK \<Longrightarrow> fst (register_subsystem i sub s) = s"
    "hook_log (fst (register_subsystem i sub s)) = hook_log s"
    by (auto simp: register_subsystem_def split: option.splits if_splits)
  have "app_wf (fst (register_subsystem i sub s)) \<and> hook_log s = []" if ok: "snd (register_subsystem i sub s) = APP_OK"
  proof -
    obtain name deps where sub: "sub = Some (name, deps)" "\<not> registration_frozen s" "subsystems s i = None"
        "subsystem_names s name = None"
      using ok by (auto simp: register_subsystem_def split: option.splits if_splits)
    have u: "app_lifecycle s = UNINITIALIZED" "hook_log s = []" "app_topology s = None"
      using wf sub(2) unfolding app_wf_def by (cases "app_lifecycle s"; simp)+
    define e where "e = \<lparr>entry_name = name, entry_dependencies = deps, initialized = False, started = False\<rparr>"
    have s': "fst (register_subsystem i sub s) = s\<lparr>subsystem_names := (subsystem_names s)(name \<mapsto> i),
        subsystems := (subsystems s)(i \<mapsto> e), registration_order := registration_order s @ [i]\<rparr>"
      using ok sub by (auto simp: register_subsystem_def e_def split: if_splits)
    have sets: "init_set (fst (register_subsystem i sub s)) = init_set s"
      "start_set (fst (register_subsystem i sub s)) = start_set s"
      unfolding s' using sub(3) by (auto simp: init_set_def start_set_def e_def)
    have "names_inv (fst (register_subsystem i sub s))"
    proof -
      have n: "subsystem_names s n = Some k \<longleftrightarrow> map_option entry_name (subsystems s k) = Some n" for n k
        using wf by (simp add: app_wf_def names_inv_def)
      show ?thesis unfolding names_inv_def s' using n sub(3) n [of name] sub(4) by (auto simp: e_def)
    qed
    moreover have "i \<notin> set (registration_order s)" using wf sub(3) by (simp add: app_wf_def domIff)
    ultimately show ?thesis
      using wf u sets unfolding s' app_wf_def
      by (simp add: topology_inv_def flags_logged_def)
  qed
  then show "snd (register_subsystem i sub s) = APP_OK \<Longrightarrow> hook_log s = []" by blast
  show "app_wf (fst (register_subsystem i sub s))"
    using \<open>snd (register_subsystem i sub s) = APP_OK \<Longrightarrow> app_wf (fst (register_subsystem i sub s)) \<and> hook_log s = []\<close>
      \<open>snd (register_subsystem i sub s) \<noteq> APP_OK \<Longrightarrow> fst (register_subsystem i sub s) = s\<close> wf
    by metis
qed

text \<open>A history is any sequence of public calls, each with its own behaviour of the hooks.\<close>

datatype 'id app_call = Register 'id "(string \<times> 'id list) option" | Initialize operating_mode | Start | Stop | Terminate

fun app_apply :: "'id hooks \<times> 'id app_call \<Rightarrow> 'id app_state \<Rightarrow> ('id app_state \<times> app_status) option" where
  "app_apply (env, Register i sub) s = Some (register_subsystem i sub s)"
| "app_apply (env, Initialize mode) s = app_initialize env mode s"
| "app_apply (env, Start) s = Some (app_start env s)"
| "app_apply (env, Stop) s = Some (app_stop env s)"
| "app_apply (env, Terminate) s = Some (app_terminate env s)"

fun app_history :: "('id hooks \<times> 'id app_call) list \<Rightarrow> 'id app_state \<Rightarrow> 'id app_state option" where
  "app_history [] s = Some s"
| "app_history (a # as) s = (case app_apply a s of None \<Rightarrow> None | Some (s', st) \<Rightarrow> app_history as s')"

definition log_legal :: "'id app_state \<Rightarrow> bool" where
  "log_legal s \<longleftrightarrow> calls_ok (hook_pre (deps_of s) True) [] (hook_log s)"

lemma log_legal_extend:
  assumes "log_legal s" "deps_of s' = deps_of s" "hook_log s' = hook_log s @ evs"
    and "calls_ok (hook_pre (deps_of s) c) (hook_log s) evs"
  shows "log_legal s'"
proof -
  have "calls_ok (hook_pre (deps_of s) True) (hook_log s) evs"
    using assms(4)
  proof (rule calls_ok_mono, intro allI impI)
    fix xs ev
    assume "hook_pre (deps_of s) c xs ev"
    then show "hook_pre (deps_of s) True xs ev"
      by (cases ev rule: hook_pre.cases [of "(d, l, log, ev)" for d l log ev, simplified]) auto
  qed
  then show ?thesis using assms(1-3) by (simp add: log_legal_def)
qed

lemma app_apply_ok:
  assumes "app_wf s" "log_legal s"
  obtains s' st where "app_apply a s = Some (s', st)" "app_wf s'" "log_legal s'"
proof -
  have run: "log_legal s'" if "hook_run (hook_pre (deps_of s) c) s s'" for s' c
    using that log_legal_extend [OF assms(2)] hook_run_facts(1) [OF that] unfolding hook_run_def by blast
  obtain env c where a: "a = (env, c)" by fastforce
  show ?thesis
  proof (cases c)
    case (Register i sub)
    have "log_legal (fst (register_subsystem i sub s))"
      using register_result [OF assms(1), of i sub] assms(2)
      by (cases "snd (register_subsystem i sub s) = APP_OK") (simp_all add: log_legal_def)
    then show ?thesis using a Register register_result(1) [OF assms(1)] that by (metis app_apply.simps(1) prod.collapse)
  next
    case (Initialize mode)
    show ?thesis using app_initialize_run [OF assms(1), of env mode] a Initialize log_legal_extend [OF assms(2)] that
      by (metis app_apply.simps(2))
  next
    case Start
    then show ?thesis using a app_start_run(1,2) [OF assms(1)] run that by (metis app_apply.simps(3) prod.collapse)
  next
    case Stop
    then show ?thesis using a app_stop_run(1,2) [OF assms(1)] run that by (metis app_apply.simps(4) prod.collapse)
  next
    case Terminate
    obtain s' st where t: "app_terminate env s = (s', st)" by fastforce
    note r = app_terminate_run [OF assms(1) t]
    have "log_legal s'"
    proof (cases "app_lifecycle s = UNINITIALIZED")
      case True
      then show ?thesis using r(3,5) assms(2) by (simp add: log_legal_def)
    next
      case False
      then show ?thesis by (intro run [OF r(2)])
    qed
    then show ?thesis using a Terminate t r(1) that by simp
  qed
qed

lemma app_history_ok:
  assumes "app_wf s" "log_legal s"
  obtains s' where "app_history as s = Some s'" "app_wf s'" "log_legal s'"
  using assms
proof (induction as arbitrary: s thesis)
  case (Cons a as)
  obtain s1 st where "app_apply a s = Some (s1, st)" "app_wf s1" "log_legal s1"
    by (rule app_apply_ok [OF Cons.prems(2,3)])
  then show ?case using Cons.IH [of s1 thesis] Cons.prems(1) by simp
qed simp

lemma app_history_new:
  obtains s' where "app_history as new_app = Some s'" "app_wf s'" "log_legal s'"
  by (rule app_history_ok [OF app_wf_new]) (simp add: log_legal_def new_app_def)

section \<open>Properties\<close>

text \<open>Calls made by a hook, in a transient state, change nothing.\<close>

lemma reentrant_calls_rejected:
  assumes "app_lifecycle s \<in> {INITIALIZING, STARTING, STOPPING, TERMINATING}" and "registration_frozen s"
  shows "\<exists>st. app_apply (env, c) s = Some (s, st) \<and> st \<noteq> APP_OK"
  using assms
  by (cases c) (auto simp: app_initialize_def app_start_def app_stop_def app_terminate_def register_subsystem_def
      split: option.splits)

definition sample_hooks :: "nat hooks" where
  "sample_hooks = \<lparr>throwing_hook = (\<lambda>h i log. Returned APP_OK), noexcept_hook = (\<lambda>h i log. APP_OK)\<rparr>"

definition failing_hooks :: "nat hooks" where
  "failing_hooks = \<lparr>throwing_hook = (\<lambda>h i log. if h = Start_Hook \<and> i = 2 then Threw else Returned APP_OK),
     noexcept_hook = (\<lambda>h i log. APP_OK)\<rparr>"

definition sample_calls :: "(nat hooks \<times> nat app_call) list" where
  "sample_calls = [(sample_hooks, Register 2 (Some (''tui'', [1]))), (sample_hooks, Register 1 (Some (''jobs'', []))),
     (sample_hooks, Initialize TUI), (failing_hooks, Start), (sample_hooks, Start)]"

text \<open>
  C12: After any sequence of public calls, with any behaviour of the hooks, the lifecycle state
  means what it says: before the first \<open>initialize\<close> no hook has run and registration is open;
  \<open>INITIALIZED\<close> and \<open>STOPPED\<close> mean that every registered subsystem is initialized and none
  started, \<open>RUNNING\<close> that all are started, \<open>TERMINATED\<close> that none is initialized; a crash leaves
  only initialized subsystems started, and none of the transient states is left behind. Every
  call returns. The flags are exactly what the log of hook calls says.
\<close>

theorem lifecycle_history:
  "\<exists>s. app_history calls new_app = Some s \<and> lifecycle_inv (app_lifecycle s) s \<and>
     init_set s = log_initialized (hook_log s) \<and> start_set s = log_started (hook_log s) \<and>
     distinct (registration_order s) \<and> set (registration_order s) = dom (subsystems s) \<and>
     (\<forall>n i. subsystem_names s n = Some i \<longleftrightarrow> map_option entry_name (subsystems s i) = Some n)"
proof -
  obtain s where "app_history calls new_app = Some s" "app_wf s" by (rule app_history_new [of calls])
  then show ?thesis unfolding app_wf_def flags_logged_def names_inv_def by auto
qed

text \<open>
  C11: Order of the hooks over the whole life of the application, whatever the hooks return:
  \<open>initialize\<close> is called only on a subsystem that is not initialized and whose dependencies all
  are; \<open>start\<close> only on an initialized, unstarted one whose dependencies are all started;
  \<open>stop\<close> only on a started and \<open>terminate\<close> only on an initialized one.
\<close>

theorem hooks_in_order:
  assumes "app_history calls new_app = Some s" and "hook_log s = xs @ (h, i, st) # ys"
  shows "case h of
      Initialize_Hook \<Rightarrow> i \<notin> log_initialized xs \<and> deps_of s i \<subseteq> log_initialized xs
    | Start_Hook \<Rightarrow> i \<in> log_initialized xs \<and> i \<notin> log_started xs \<and> deps_of s i \<subseteq> log_started xs
    | Stop_Hook \<Rightarrow> i \<in> log_started xs
    | Terminate_Hook \<Rightarrow> i \<in> log_initialized xs"
proof -
  obtain s' where "app_history calls new_app = Some s'" "log_legal s'" by (rule app_history_new [of calls])
  then have "calls_ok (hook_pre (deps_of s) True) [] (hook_log s)" using assms(1) by (simp add: log_legal_def)
  then have "hook_pre (deps_of s) True ([] @ xs) (h, i, st)" using assms(2) unfolding calls_ok_def by blast
  then show ?thesis by (cases h) simp_all
qed

theorem hooks_in_order_witness:
  "\<exists>s. app_history sample_calls new_app = Some s \<and>
     hook_log s = [(Initialize_Hook, 1, APP_OK), (Initialize_Hook, 2, APP_OK), (Start_Hook, 1, APP_OK)] @
       (Start_Hook, 2, SUBSYSTEM_FAILURE) # [(Stop_Hook, 1, APP_OK), (Start_Hook, 1, APP_OK), (Start_Hook, 2, APP_OK)] \<and>
     deps_of s 2 \<subseteq> log_started [(Initialize_Hook, 1, APP_OK), (Initialize_Hook, 2, APP_OK), (Start_Hook, 1, APP_OK)]"
proof -
  have "map_option hook_log (app_history sample_calls new_app) =
    Some ([(Initialize_Hook, 1, APP_OK), (Initialize_Hook, 2, APP_OK), (Start_Hook, 1, APP_OK)] @
       (Start_Hook, 2, SUBSYSTEM_FAILURE) # [(Stop_Hook, 1, APP_OK), (Start_Hook, 1, APP_OK), (Start_Hook, 2, APP_OK)])"
    by code_simp
  then obtain s where s: "app_history sample_calls new_app = Some s"
    "hook_log s = [(Initialize_Hook, 1, APP_OK), (Initialize_Hook, 2, APP_OK), (Start_Hook, 1, APP_OK)] @
       (Start_Hook, 2, SUBSYSTEM_FAILURE) # [(Stop_Hook, 1, APP_OK), (Start_Hook, 1, APP_OK), (Start_Hook, 2, APP_OK)]"
    by blast
  from hooks_in_order [OF s] s show ?thesis by auto
qed

text \<open>
  C13: Quiescing goes from dependents to dependencies. In every reachable state \<open>stop\<close>, and
  \<open>terminate\<close> when it succeeds, calls the \<open>stop\<close> hook of a subsystem only when no subsystem
  that depends on it is still started, and the \<open>terminate\<close> hook only when the subsystem is
  stopped and none that depends on it is still initialized. A successful \<open>stop\<close> leaves nothing
  started, a successful \<open>terminate\<close> leaves the application terminated.
\<close>

theorem teardown_dependents_first:
  assumes "app_history calls new_app = Some s"
    and "app_stop env s = (s', st) \<or> app_terminate env s = (s', st) \<and> st = APP_OK"
  shows "\<exists>evs. hook_log s' = hook_log s @ evs \<and>
    (\<forall>xs i r ys. evs = xs @ (Stop_Hook, i, r) # ys \<longrightarrow> (\<forall>j. i \<in> deps_of s j \<longrightarrow> j \<notin> log_started (hook_log s @ xs))) \<and>
    (\<forall>xs i r ys. evs = xs @ (Terminate_Hook, i, r) # ys \<longrightarrow> i \<notin> log_started (hook_log s @ xs) \<and>
      (\<forall>j. i \<in> deps_of s j \<longrightarrow> j \<notin> log_initialized (hook_log s @ xs))) \<and>
    (st = APP_OK \<longrightarrow> start_set s' = {}) \<and>
    (app_terminate env s = (s', st) \<and> st = APP_OK \<longrightarrow> app_lifecycle s' = TERMINATED \<and> init_set s' = {})"
proof -
  obtain t where "app_history calls new_app = Some t" "app_wf t" by (rule app_history_new [of calls])
  then have wf: "app_wf s" using assms(1) by simp
  have fin: "app_lifecycle s' = TERMINATED \<and> init_set s' = {} \<and> start_set s' = {}"
    if "app_terminate env s = (s', st)" "st = APP_OK"
    using app_terminate_run(1,4) [OF wf that(1)] that(2) by (simp add: app_wf_def)
  have "\<exists>evs. hook_log s' = hook_log s @ evs \<and> calls_ok (hook_pre (deps_of s) False) (hook_log s) evs"
    using assms(2)
  proof
    assume "app_stop env s = (s', st)"
    from app_stop_run(2) [OF wf this] show ?thesis by (simp add: hook_run_def)
  next
    assume "app_terminate env s = (s', st) \<and> st = APP_OK"
    then show ?thesis using app_terminate_run(2,3) [OF wf, of env s' st]
      by (cases "app_lifecycle s = UNINITIALIZED") (auto simp: hook_run_def)
  qed
  then obtain evs where evs: "hook_log s' = hook_log s @ evs"
    and ok: "\<And>xs ev ys. evs = xs @ ev # ys \<Longrightarrow> hook_pre (deps_of s) False (hook_log s @ xs) ev"
    unfolding calls_ok_def by blast
  have "st = APP_OK \<longrightarrow> start_set s' = {}" using assms(2) app_stop_run(4) [OF wf] fin by blast
  with fin show ?thesis using evs ok by (intro exI [of _ evs]) (fastforce dest: ok)
qed

theorem teardown_dependents_first_witness:
  "\<exists>s s' evs. app_history sample_calls new_app = Some s \<and> app_stop sample_hooks s = (s', APP_OK) \<and>
     hook_log s' = hook_log s @ evs \<and> start_set s' = {} \<and>
     (\<forall>xs i r ys. evs = xs @ (Stop_Hook, i, r) # ys \<longrightarrow> (\<forall>j. i \<in> deps_of s j \<longrightarrow> j \<notin> log_started (hook_log s @ xs)))"
proof -
  have "map_option (\<lambda>s. snd (app_stop sample_hooks s)) (app_history sample_calls new_app) = Some APP_OK"
    by code_simp
  then obtain s where s: "app_history sample_calls new_app = Some s" "snd (app_stop sample_hooks s) = APP_OK" by blast
  then have stop: "app_stop sample_hooks s = (fst (app_stop sample_hooks s), APP_OK)" by (metis prod.collapse)
  from teardown_dependents_first [OF s(1) disjI1, OF stop] s(1) stop show ?thesis by blast
qed

text \<open>
  \<open>initialize\<close> in a reachable, not yet initialized state, with a valid mode: when the
  declared dependencies can be ordered and no hook fails, it succeeds with every registered
  subsystem initialized; when it reports anything but success the application is crashed, and
  nothing is started. It always returns, and registration is frozen from then on.
\<close>

lemma initialize_correct:
  assumes "app_history calls new_app = Some s" and "app_lifecycle s = UNINITIALIZED" and "valid_operating_mode mode"
  shows "\<exists>s' st. app_initialize env mode s = Some (s', st) \<and> registration_frozen s' \<and>
    (st = APP_OK \<longrightarrow> app_lifecycle s' = INITIALIZED \<and> init_set s' = dom (subsystems s)) \<and>
    (st \<noteq> APP_OK \<longrightarrow> app_lifecycle s' = CRASHED) \<and> start_set s' \<subseteq> init_set s' \<and>
    (sortable s \<and> (\<forall>i log. throwing_hook env Initialize_Hook i log = Returned APP_OK) \<longrightarrow> st = APP_OK)"
proof -
  obtain t where "app_history calls new_app = Some t" "app_wf t" by (rule app_history_new [of calls])
  then have wf: "app_wf s" using assms(1) by simp
  obtain s' st where i: "app_initialize env mode s = Some (s', st)" "app_wf s'"
      "dom (subsystems s') = dom (subsystems s)" "st = APP_OK \<Longrightarrow> app_lifecycle s' = INITIALIZED"
      "st \<noteq> APP_OK \<Longrightarrow> app_lifecycle s' = CRASHED"
      "sortable s \<Longrightarrow> \<forall>i log. throwing_hook env Initialize_Hook i log = Returned APP_OK \<Longrightarrow> st = APP_OK"
    using app_initialize_run [OF wf, of env mode] assms(2,3) by (metis (no_types, lifting))
  have "lifecycle_inv (app_lifecycle s') s'" "start_set s' \<subseteq> init_set s'"
    using i(2) app_wf_flags(3) [OF i(2)] by (simp_all add: app_wf_def)
  then show ?thesis using i by (cases "st = APP_OK") auto
qed

text \<open>
  \<open>start\<close> in a reachable state: success means the application is running with every
  subsystem started. Failure leaves the lifecycle state and the set of started subsystems as
  they were, the already started ones having been stopped again in reverse order, or, when
  that rollback itself fails, a crashed application.
\<close>

lemma start_correct:
  assumes "app_history calls new_app = Some s" and "app_start env s = (s', st)"
  shows "if st = APP_OK then app_lifecycle s' = RUNNING \<and> start_set s' = dom (subsystems s)
    else app_lifecycle s' = app_lifecycle s \<and> start_set s' = start_set s \<or>
      app_lifecycle s' = CRASHED \<and> start_set s' \<subseteq> init_set s'"
proof -
  obtain t where "app_history calls new_app = Some t" "app_wf t" by (rule app_history_new [of calls])
  then have wf: "app_wf s" using assms(1) by simp
  note r = app_start_run [OF wf assms(2)]
  have "lifecycle_inv (app_lifecycle s') s'" using r(1) by (simp add: app_wf_def)
  then show ?thesis using r(3,4) hook_run_facts(2) [OF r(2)] app_wf_flags(3) [OF r(1)] by (cases "st = APP_OK") simp_all
qed

end
