(* ===== verification/Utf8_Text.thy ===== *)
theory Utf8_Text
  imports Prelude
begin

text \<open>
  UTF-8 as the program reads and writes it: \<open>utils/utf8/utf8.cpp\<close> (\<open>is_valid\<close>) and the codec of
  \<open>puc-cli/tui/text_input/text_editor_utils.cpp\<close> (\<open>consume_utf8\<close>, \<open>append_utf8\<close>,
  \<open>decode_utf8\<close>, \<open>encode_utf8\<close>). Bytes are 8-bit words, scalars 32-bit words. Both
  sources classify the leading byte and run through the continuation bytes in the same way;
  the model shares these two steps. A loop over an offset is a recursion on the remaining
  bytes.
\<close>

unbundle bit_operations_syntax

section \<open>Decoding and encoding\<close>

definition is_continuation :: "u8 \<Rightarrow> bool" where
  "is_continuation byte \<longleftrightarrow> byte AND 0xc0 = 0x80"

text \<open>Length, leading payload bits and least scalar of a sequence, by its first byte.\<close>

definition lead_byte :: "u8 \<Rightarrow> (nat \<times> u32 \<times> u32) option" where
  "lead_byte first =
     (if first \<le> 0x7f then Some (1, ucast first, 0)
      else if 0xc2 \<le> first \<and> first \<le> 0xdf then Some (2, ucast first AND 0x1f, 0x80)
      else if 0xe0 \<le> first \<and> first \<le> 0xef then Some (3, ucast first AND 0x0f, 0x800)
      else if 0xf0 \<le> first \<and> first \<le> 0xf4 then Some (4, ucast first AND 0x07, 0x10000)
      else None)"

fun continue_scalar :: "bytes \<Rightarrow> u32 \<Rightarrow> u32 option" where
  "continue_scalar [] codepoint = Some codepoint"
| "continue_scalar (continuation # bs) codepoint =
     (if \<not> is_continuation continuation then None
      else continue_scalar bs (push_bit 6 codepoint OR (ucast continuation AND 0x3f)))"

definition is_surrogate :: "u32 \<Rightarrow> bool" where
  "is_surrogate codepoint \<longleftrightarrow> 0xd800 \<le> codepoint \<and> codepoint \<le> 0xdfff"

text \<open>One complete sequence: \<open>None\<close> when a continuation byte or the scalar is wrong.\<close>

definition decode_scalar :: "bytes \<Rightarrow> u32 \<Rightarrow> u32 \<Rightarrow> u32 option" where
  "decode_scalar continuations codepoint minimum =
     (case continue_scalar continuations codepoint of None \<Rightarrow> None
      | Some c \<Rightarrow> if c < minimum \<or> c > 0x10ffff \<or> is_surrogate c then None else Some c)"

definition kReplacement :: u32 where
  "kReplacement = 0xfffd"

function consume_utf8 :: "bytes \<Rightarrow> bool \<Rightarrow> u32 list \<times> bytes" where
  "consume_utf8 [] finish = ([], [])"
| "consume_utf8 (first # bs) finish =
     (case lead_byte first of
        None \<Rightarrow> apfst ((#) kReplacement) (consume_utf8 bs finish)
      | Some (len, codepoint, minimum) \<Rightarrow>
          if length (first # bs) < len
          then if \<not> finish then ([], first # bs) else apfst ((#) kReplacement) (consume_utf8 bs finish)
          else (case decode_scalar (take (len - 1) bs) codepoint minimum of
              None \<Rightarrow> apfst ((#) kReplacement) (consume_utf8 bs finish)
            | Some c \<Rightarrow> apfst ((#) c) (consume_utf8 (drop (len - 1) bs) finish)))"
  by pat_completeness auto
termination
  by (relation "measure (\<lambda>(bs, _). length bs)") auto

declare consume_utf8.simps(2) [simp del]

definition decode_utf8 :: "bytes \<Rightarrow> u32 list" where
  "decode_utf8 t = fst (consume_utf8 t True)"

definition append_utf8 :: "u32 \<Rightarrow> bytes" where
  "append_utf8 character =
     (let codepoint = (if character > 0x10ffff \<or> is_surrogate character then kReplacement else character)
      in if codepoint \<le> 0x7f then [ucast codepoint]
         else if codepoint \<le> 0x7ff
         then [ucast (0xc0 OR drop_bit 6 codepoint), ucast (0x80 OR (codepoint AND 0x3f))]
         else if codepoint \<le> 0xffff
         then [ucast (0xe0 OR drop_bit 12 codepoint), ucast (0x80 OR (drop_bit 6 codepoint AND 0x3f)),
               ucast (0x80 OR (codepoint AND 0x3f))]
         else [ucast (0xf0 OR drop_bit 18 codepoint), ucast (0x80 OR (drop_bit 12 codepoint AND 0x3f)),
               ucast (0x80 OR (drop_bit 6 codepoint AND 0x3f)), ucast (0x80 OR (codepoint AND 0x3f))])"

fun encode_utf8 :: "u32 list \<Rightarrow> bytes" where
  "encode_utf8 [] = []"
| "encode_utf8 (character # cs) = append_utf8 character @ encode_utf8 cs"

function is_valid :: "bytes \<Rightarrow> bool" where
  "is_valid [] = True"
| "is_valid (first # bs) =
     (case lead_byte first of
        None \<Rightarrow> False
      | Some (len, codepoint, minimum) \<Rightarrow>
          if length (first # bs) < len then False
          else decode_scalar (take (len - 1) bs) codepoint minimum \<noteq> None \<and> is_valid (drop (len - 1) bs))"
  by pat_completeness auto
termination
  by (relation "measure length") auto

declare is_valid.simps(2) [simp del]

section \<open>Words as numbers\<close>

lemma unat_and_low:
  "unat (x AND 0x07) = unat x mod 8" "unat (x AND 0x0f) = unat x mod 16"
  "unat (x AND 0x1f) = unat x mod 32" "unat (x AND 0x3f) = unat x mod 64" for x :: "'a::len word"
proof -
  have m: "unat (x AND mask n) = unat x mod 2 ^ n" for n
  proof -
    have "unat (x AND mask n) = take_bit n (unat x)" by (simp flip: take_bit_eq_mask add: unsigned_take_bit_eq)
    then show ?thesis unfolding take_bit_eq_mod .
  qed
  show "unat (x AND 0x07) = unat x mod 8" "unat (x AND 0x0f) = unat x mod 16"
    "unat (x AND 0x1f) = unat x mod 32" "unat (x AND 0x3f) = unat x mod 64"
    using m [of 3] m [of 4] m [of 5] m [of 6] by (simp_all add: mask_eq_exp_minus_1)
qed

lemma unat_drop: "unat (drop_bit n x) = unat x div 2 ^ n" for x :: "'a::len word"
proof -
  have "unat (drop_bit n x) = drop_bit n (unat x)" by (rule unat_drop_bit_eq)
  then show ?thesis unfolding drop_bit_eq_div .
qed

lemma unat_push_or:
  fixes x y :: "'a::len word"
  assumes "unat y < 2 ^ k" and "unat x * 2 ^ k + unat y < 2 ^ LENGTH('a)"
  shows "unat (push_bit k x OR y) = unat x * 2 ^ k + unat y"
proof -
  have y: "y = take_bit k y"
  proof -
    have "unat (take_bit k y) = take_bit k (unat y)" by (rule unsigned_take_bit_eq)
    also have "\<dots> = unat y" using assms(1) by (simp add: take_bit_nat_eq_self)
    finally show ?thesis by (simp add: word_unat_eq_iff)
  qed
  have "\<not> bit (push_bit k x) n \<or> \<not> bit y n" for n
    by (subst y) (auto simp: bit_simps)
  then have "push_bit k x OR y = push_bit k x + y" by (simp add: disjunctive_add)
  moreover have "unat (push_bit k x) = unat x * 2 ^ k"
  proof -
    have "unat (push_bit k x) = take_bit LENGTH('a) (push_bit k (unat x))" by (rule unsigned_push_bit_eq)
    also have "\<dots> = unat x * 2 ^ k" unfolding take_bit_eq_mod push_bit_eq_mult using assms(2) by simp
    finally show ?thesis .
  qed
  ultimately show ?thesis using assms(2) by (simp add: unat_plus_simple unat_word_ariths)
qed

lemma unat_byte_to_scalar [simp]: "unat (ucast b :: u32) = unat b" for b :: u8
  by (simp add: unsigned_ucast_eq take_bit_nat_eq_self unsigned_less [THEN less_le_trans])

lemma unat_scalar_to_byte: "unat (ucast c :: u8) = unat c mod 256" for c :: u32
proof -
  have "unat (ucast c :: u8) = take_bit 8 (unat c)" by (simp add: unsigned_ucast_eq)
  then show ?thesis unfolding take_bit_eq_mod by simp
qed

lemma is_continuation_iff: "is_continuation b \<longleftrightarrow> unat b div 64 = 2"
proof -
  have "b AND 0xc0 = push_bit 6 (drop_bit 6 b)"
  proof (rule bit_eqI)
    fix n assume "possible_bit TYPE(8 word) n"
    then have "n < 8" by simp
    then have "n \<in> {0, 1, 2, 3, 4, 5, 6, 7}" by auto
    then show "bit (b AND 0xc0) n \<longleftrightarrow> bit (push_bit 6 (drop_bit 6 b)) n"
      by (auto simp: bit_simps)
  qed
  moreover have "unat (push_bit 6 (drop_bit 6 b)) = unat b div 64 * 64"
    using unat_push_or [of 0 6 "drop_bit 6 b"] unsigned_less [of b, where ?'a = nat] by (simp add: unat_drop)
  ultimately show ?thesis unfolding is_continuation_def word_unat_eq_iff by simp
qed

lemma unat_continue:
  fixes cp :: u32 and b :: u8
  assumes "unat cp < 2 ^ 26"
  shows "unat (push_bit 6 cp OR (ucast b AND 0x3f)) = unat cp * 64 + unat b mod 64"
proof -
  have "unat (ucast b AND 0x3f :: u32) = unat b mod 64" by (simp add: unat_and_low)
  then show ?thesis using assms unat_push_or [of "ucast b AND 0x3f :: u32" 6 cp] by simp
qed

lemma unat_marked:
  fixes x :: u32
  shows "unat x < 64 \<Longrightarrow> unat (ucast (0x80 OR x) :: u8) = 128 + unat x"
    and "unat x < 64 \<Longrightarrow> unat (ucast (0xc0 OR x) :: u8) = 192 + unat x"
    and "unat x < 32 \<Longrightarrow> unat (ucast (0xe0 OR x) :: u8) = 224 + unat x"
    and "unat x < 16 \<Longrightarrow> unat (ucast (0xf0 OR x) :: u8) = 240 + unat x"
  using unat_push_or [of x 6 "2 :: u32"] unat_push_or [of x 6 "3 :: u32"] unat_push_or [of x 5 "7 :: u32"]
    unat_push_or [of x 4 "15 :: u32"] by (simp_all add: unat_scalar_to_byte)

text \<open>The scalars that UTF-8 can carry.\<close>

definition scalar :: "u32 \<Rightarrow> bool" where
  "scalar c \<longleftrightarrow> \<not> (c > 0x10ffff \<or> is_surrogate c)"

lemma scalar_iff: "scalar c \<longleftrightarrow> unat c \<le> 0x10ffff \<and> \<not> (0xd800 \<le> unat c \<and> unat c \<le> 0xdfff)"
  by (simp add: scalar_def is_surrogate_def word_le_nat_alt word_less_nat_alt not_less)

lemma scalar_replacement [simp]: "scalar kReplacement"
  by (simp add: scalar_iff kReplacement_def)

text \<open>Leading bytes and continuation bytes as numbers.\<close>

lemma lead_byte_intros:
  "unat b < 128 \<Longrightarrow> lead_byte b = Some (1, ucast b, 0)"
  "194 \<le> unat b \<Longrightarrow> unat b < 224 \<Longrightarrow> lead_byte b = Some (2, ucast b AND 0x1f, 0x80)"
  "224 \<le> unat b \<Longrightarrow> unat b < 240 \<Longrightarrow> lead_byte b = Some (3, ucast b AND 0x0f, 0x800)"
  "240 \<le> unat b \<Longrightarrow> unat b < 245 \<Longrightarrow> lead_byte b = Some (4, ucast b AND 0x07, 0x10000)"
  by (simp_all add: lead_byte_def word_le_nat_alt)

lemma mod_offset:
  fixes n :: nat
  assumes "q * m \<le> n" and "n < q * m + m"
  shows "n mod m = n - q * m" and "n div m = q"
proof -
  obtain k where k: "n = q * m + k" using assms(1) by (metis le_Suc_ex)
  with assms(2) show "n mod m = n - q * m" "n div m = q" by simp_all
qed

lemma lead_byte_cases:
  assumes "lead_byte b = Some (len, cp, minimum)"
  obtains "len = 1" "unat b < 128" "unat cp = unat b" "unat minimum = 0"
  | "len = 2" "194 \<le> unat b" "unat b < 224" "unat cp = unat b - 192" "unat minimum = 128"
  | "len = 3" "224 \<le> unat b" "unat b < 240" "unat cp = unat b - 224" "unat minimum = 2048"
  | "len = 4" "240 \<le> unat b" "unat b < 245" "unat cp = unat b - 240" "unat minimum = 65536"
proof -
  have m: "unat b mod 32 = unat b - 192" if "192 \<le> unat b" "unat b < 224" using that mod_offset(1) [of 6 32 "unat b"] by simp
  have none: "unat b \<le> 127 \<or> (194 \<le> unat b \<and> unat b \<le> 223) \<or> (224 \<le> unat b \<and> unat b \<le> 239) \<or>
      (240 \<le> unat b \<and> unat b \<le> 244) \<or> lead_byte b = None"
    by (simp add: lead_byte_def word_le_nat_alt)
  have m2: "unat b mod 16 = unat b - 224" if "224 \<le> unat b" "unat b < 240" using that mod_offset(1) [of 14 16 "unat b"] by simp
  have m3: "unat b mod 8 = unat b - 240" if "240 \<le> unat b" "unat b < 245" using that mod_offset(1) [of 30 8 "unat b"] by simp
  consider "unat b \<le> 127" | "194 \<le> unat b" "unat b \<le> 223" | "224 \<le> unat b" "unat b \<le> 239"
    | "240 \<le> unat b" "unat b \<le> 244" | "lead_byte b = None"
    using none by (elim disjE conjE)
  then show thesis
  proof cases
    case 1
    then show ?thesis using assms lead_byte_intros(1) [of b] by (intro that(1)) auto
  next
    case 2
    then show ?thesis using assms lead_byte_intros(2) [of b] m by (intro that(2)) (auto simp: unat_and_low)
  next
    case 3
    then show ?thesis using assms lead_byte_intros(3) [of b] m2 by (intro that(3)) (auto simp: unat_and_low)
  next
    case 4
    then show ?thesis using assms lead_byte_intros(4) [of b] m3 by (intro that(4)) (auto simp: unat_and_low)
  next
    case 5
    then show ?thesis using assms by simp
  qed
qed

fun scalar_value :: "bytes \<Rightarrow> nat \<Rightarrow> nat" where
  "scalar_value [] n = n"
| "scalar_value (b # bs) n = scalar_value bs (n * 64 + unat b mod 64)"

lemma continue_scalar_value:
  assumes "unat cp < 2 ^ (32 - 6 * length bs)" and "length bs \<le> 4"
  shows "continue_scalar bs cp = Some c \<longleftrightarrow> (\<forall>b \<in> set bs. unat b div 64 = 2) \<and> unat c = scalar_value bs (unat cp)"
  using assms
proof (induction bs arbitrary: cp)
  case Nil
  then show ?case by (auto simp: word_unat_eq_iff)
next
  case (Cons b bs)
  have "(2::nat) ^ (32 - 6 * length (b # bs)) \<le> 2 ^ 26" by (intro power_increasing) auto
  then have lt: "unat cp < 2 ^ 26" using Cons.prems(1) by linarith
  define k where "k = 26 - 6 * length bs"
  have k: "32 - 6 * length (b # bs) = k" "32 - 6 * length bs = k + 6" using Cons.prems(2) by (auto simp: k_def)
  have "unat b mod 64 < 64" by simp
  then have "unat cp * 64 + unat b mod 64 < 2 ^ (32 - 6 * length bs)"
    using Cons.prems(1) unfolding k power_add by simp
  then show ?case using Cons.IH [of "push_bit 6 cp OR (ucast b AND 0x3f)"] Cons.prems(2)
    by (simp add: is_continuation_iff unat_continue [OF lt])
qed

lemma decode_scalar_value:
  assumes "unat cp < 2 ^ (32 - 6 * length bs)" and "length bs \<le> 4"
  shows "decode_scalar bs cp minimum = Some c \<longleftrightarrow> (\<forall>b \<in> set bs. unat b div 64 = 2) \<and>
    unat c = scalar_value bs (unat cp) \<and> unat minimum \<le> unat c \<and> scalar c"
proof -
  have "decode_scalar bs cp minimum = Some c \<longleftrightarrow> continue_scalar bs cp = Some c \<and> \<not> c < minimum \<and> scalar c"
    by (auto simp: decode_scalar_def scalar_def split: option.splits if_splits)
  then show ?thesis
    unfolding continue_scalar_value [OF assms] by (auto simp: word_less_nat_alt not_less)
qed

definition scalar_numbers :: "nat \<Rightarrow> nat list" where
  "scalar_numbers n =
     (if n \<le> 0x7f then [n]
      else if n \<le> 0x7ff then [192 + n div 64, 128 + n mod 64]
      else if n \<le> 0xffff then [224 + n div 4096, 128 + n div 64 mod 64, 128 + n mod 64]
      else [240 + n div 262144, 128 + n div 4096 mod 64, 128 + n div 64 mod 64, 128 + n mod 64])"

lemma append_utf8_numbers:
  assumes "scalar c"
  shows "map unat (append_utf8 c) = scalar_numbers (unat c)"
proof -
  have n: "unat c \<le> 0x10ffff" using assms by (simp add: scalar_iff)
  have c: "\<not> (c > 0x10ffff \<or> is_surrogate c)" using assms by (simp add: scalar_def)
  have low: "unat (ucast (0x80 OR (x AND 0x3f)) :: u8) = 128 + unat x mod 64" for x :: u32
    using unat_marked(1) [of "x AND 0x3f"] by (simp add: unat_and_low)
  have d: "unat c \<le> 0x7ff \<Longrightarrow> unat c div 64 < 64" "unat c \<le> 0xffff \<Longrightarrow> unat c div 4096 < 32" "unat c div 262144 < 16"
    using n by (simp_all add: div_less_iff_less_mult)
  show ?thesis
    using c d unat_marked(2) [of "drop_bit 6 c"] unat_marked(3) [of "drop_bit 12 c"] unat_marked(4) [of "drop_bit 18 c"]
    unfolding append_utf8_def scalar_numbers_def
    by (simp add: Let_def low [unfolded unat_scalar_to_byte] unat_drop word_le_nat_alt unat_scalar_to_byte)
qed

lemma append_utf8_replace: "append_utf8 c = append_utf8 (if scalar c then c else kReplacement)"
  using scalar_replacement unfolding scalar_def append_utf8_def by simp

text \<open>Sequences of two, three and four bytes, by the digits of the scalar in base 64.\<close>

lemma continuation_digit:
  assumes "unat b = 128 + r" and "r < 64"
  shows "unat b div 64 = 2" and "unat b mod 64 = r"
  using assms mod_offset [of 2 64 "unat b"] by simp_all

lemma decode_two:
  assumes "unat b = 192 + q" "2 \<le> q" "q < 32" "unat b0 = 128 + r" "r < 64" "unat c = q * 64 + r" "scalar c"
  shows "lead_byte b = Some (2, ucast b AND 0x1f, 0x80)" "decode_scalar [b0] (ucast b AND 0x1f) 0x80 = Some c"
proof -
  show "lead_byte b = Some (2, ucast b AND 0x1f, 0x80)" using assms(1-3) by (intro lead_byte_intros) simp_all
  have cp: "unat (ucast b AND 0x1f :: u32) = q" using mod_offset(1) [of 6 32 "unat b"] assms by (simp add: unat_and_low)
  have "128 \<le> q * 64 + r" using assms(2) by simp
  then show "decode_scalar [b0] (ucast b AND 0x1f) 0x80 = Some c"
    using assms continuation_digit [OF assms(4,5)] by (subst decode_scalar_value) (simp_all add: cp)
qed

lemma decode_three:
  assumes "unat b = 224 + q" "q < 16" "unat b1 = 128 + r1" "r1 < 64" "unat b0 = 128 + r" "r < 64"
    and "unat c = (q * 64 + r1) * 64 + r" "2048 \<le> unat c" "scalar c"
  shows "lead_byte b = Some (3, ucast b AND 0x0f, 0x800)" "decode_scalar [b1, b0] (ucast b AND 0x0f) 0x800 = Some c"
proof -
  show "lead_byte b = Some (3, ucast b AND 0x0f, 0x800)" using assms(1,2) by (intro lead_byte_intros) simp_all
  have cp: "unat (ucast b AND 0x0f :: u32) = q" using mod_offset(1) [of 14 16 "unat b"] assms by (simp add: unat_and_low)
  show "decode_scalar [b1, b0] (ucast b AND 0x0f) 0x800 = Some c"
    using assms(2,7-9) continuation_digit [OF assms(3,4)] continuation_digit [OF assms(5,6)]
    by (subst decode_scalar_value) (simp_all add: cp)
qed

lemma decode_four:
  assumes "unat b = 240 + q" "q < 5" "unat b2 = 128 + r2" "r2 < 64" "unat b1 = 128 + r1" "r1 < 64"
    and "unat b0 = 128 + r" "r < 64"
    and "unat c = ((q * 64 + r2) * 64 + r1) * 64 + r" "65536 \<le> unat c" "scalar c"
  shows "lead_byte b = Some (4, ucast b AND 0x07, 0x10000)" "decode_scalar [b2, b1, b0] (ucast b AND 0x07) 0x10000 = Some c"
proof -
  show "lead_byte b = Some (4, ucast b AND 0x07, 0x10000)" using assms(1,2) by (intro lead_byte_intros) simp_all
  have cp: "unat (ucast b AND 0x07 :: u32) = q" using mod_offset(1) [of 30 8 "unat b"] assms by (simp add: unat_and_low)
  show "decode_scalar [b2, b1, b0] (ucast b AND 0x07) 0x10000 = Some c"
    using assms(2,9-11) continuation_digit [OF assms(3,4)] continuation_digit [OF assms(5,6)] continuation_digit [OF assms(7,8)]
    by (subst decode_scalar_value) (simp_all add: cp)
qed

lemma digits:
  fixes q r r1 r2 :: nat
  assumes "r < 64" "r1 < 64" "r2 < 64"
  shows "(q * 64 + r) div 64 = q" "(q * 64 + r) mod 64 = r"
    and "((q * 64 + r1) * 64 + r) div 4096 = q"
    and "(((q * 64 + r2) * 64 + r1) * 64 + r) div 4096 = q * 64 + r2"
    and "(((q * 64 + r2) * 64 + r1) * 64 + r) div 262144 = q"
proof -
  have one: "(q * 64 + r) div 64 = q" "(q * 64 + r) mod 64 = r" if "r < 64" for q r :: nat using that by simp_all
  then show "(q * 64 + r) div 64 = q" "(q * 64 + r) mod 64 = r" using assms(1) by simp_all
  have e2: "n div 4096 = n div 64 div 64" for n :: nat by (simp flip: div_mult2_eq)
  have e3: "n div 262144 = n div 64 div 64 div 64" for n :: nat by (simp flip: div_mult2_eq)
  show "((q * 64 + r1) * 64 + r) div 4096 = q" "(((q * 64 + r2) * 64 + r1) * 64 + r) div 4096 = q * 64 + r2"
    "(((q * 64 + r2) * 64 + r1) * 64 + r) div 262144 = q"
    unfolding e2 e3 one(1) [OF assms(1)] one(1) [OF assms(2)] one(1) [OF assms(3)] by simp_all
qed

lemma scalar_numbers_two: "2 \<le> q \<Longrightarrow> q < 32 \<Longrightarrow> r < 64 \<Longrightarrow> scalar_numbers (q * 64 + r) = [192 + q, 128 + r]"
  by (simp add: scalar_numbers_def digits [of r 0 0])

lemma scalar_numbers_three:
  assumes "0x7ff < (q * 64 + r1) * 64 + r" "(q * 64 + r1) * 64 + r \<le> 0xffff" "r1 < 64" "r < 64"
  shows "scalar_numbers ((q * 64 + r1) * 64 + r) = [224 + q, 128 + r1, 128 + r]"
  using assms unfolding scalar_numbers_def by (simp only: digits [of r r1 0] digits [of r1 0 0]) auto

lemma scalar_numbers_four:
  assumes "0xffff < ((q * 64 + r2) * 64 + r1) * 64 + r" "r2 < 64" "r1 < 64" "r < 64"
  shows "scalar_numbers (((q * 64 + r2) * 64 + r1) * 64 + r) = [240 + q, 128 + r2, 128 + r1, 128 + r]"
  using assms unfolding scalar_numbers_def
  by (simp only: digits [of r r1 r2] digits [of r1 r2 0] digits [of r2 0 0]) auto

lemma digit_split: obtains q r :: nat where "n = q * 64 + r" "r < 64"
  by (metis mod_div_mult_eq add.commute mod_less_divisor zero_less_numeral)

text \<open>Every scalar is written as one sequence that the decoder reads back, and no other.\<close>

lemma append_utf8_decodes:
  assumes "scalar c"
  obtains b bs cp minimum where "append_utf8 c = b # bs"
    "lead_byte b = Some (Suc (length bs), cp, minimum)" "decode_scalar bs cp minimum = Some c"
proof -
  obtain q1 r0 where q1: "unat c = q1 * 64 + r0" "r0 < 64" by (rule digit_split)
  obtain q2 r1 where q2: "q1 = q2 * 64 + r1" "r1 < 64" by (rule digit_split)
  obtain q3 r2 where q3: "q2 = q3 * 64 + r2" "r2 < 64" by (rule digit_split)
  have n: "unat c \<le> 0x10ffff" using assms by (simp add: scalar_iff)
  note num = append_utf8_numbers [OF assms]
  consider "unat c \<le> 0x7f" | "0x7f < unat c" "unat c \<le> 0x7ff" | "0x7ff < unat c" "unat c \<le> 0xffff" | "0xffff < unat c"
    by linarith
  then show ?thesis
  proof cases
    case 1
    then obtain b where b: "append_utf8 c = [b]" "unat b = unat c" using num by (auto simp: scalar_numbers_def)
    then show ?thesis using 1 assms lead_byte_intros(1) [of b] decode_scalar_value [of "ucast b" "[]" 0 c]
      by (intro that [of b "[]"]) auto
  next
    case 2
    then have r: "2 \<le> q1" "q1 < 32" using q1 by linarith+
    obtain b b0 where b: "append_utf8 c = [b, b0]" "unat b = 192 + q1" "unat b0 = 128 + r0"
      using num unfolding q1(1) scalar_numbers_two [OF r q1(2)] by auto
    show ?thesis using that [OF b(1)] decode_two [OF b(2) r b(3) q1(2,1) assms] by simp
  next
    case 3
    then have r: "q2 < 16" using q1 q2 by linarith
    have "map unat (append_utf8 c) = [224 + q2, 128 + r1, 128 + r0]"
      using scalar_numbers_three [of q2 r1 r0] 3 num q1 q2 by simp
    then obtain b b1 b0 where b: "append_utf8 c = [b, b1, b0]" "unat b = 224 + q2" "unat b1 = 128 + r1" "unat b0 = 128 + r0"
      by auto
    have c: "unat c = (q2 * 64 + r1) * 64 + r0" "2048 \<le> unat c" using q1 q2 3 by simp_all
    show ?thesis using that [OF b(1)] decode_three [OF b(2) r b(3) q2(2) b(4) q1(2) c assms] by simp
  next
    case 4
    then have r: "q3 < 5" using q1 q2 q3 n by linarith
    have "map unat (append_utf8 c) = [240 + q3, 128 + r2, 128 + r1, 128 + r0]"
      using scalar_numbers_four [of q3 r2 r1 r0] 4 num q1 q2 q3 by simp
    then obtain b b2 b1 b0 where b: "append_utf8 c = [b, b2, b1, b0]" "unat b = 240 + q3" "unat b2 = 128 + r2"
        "unat b1 = 128 + r1" "unat b0 = 128 + r0" by auto
    have c: "unat c = ((q3 * 64 + r2) * 64 + r1) * 64 + r0" "65536 \<le> unat c" using q1 q2 q3 4 by simp_all
    show ?thesis using that [OF b(1)] decode_four [OF b(2) r b(3) q3(2) b(4) q2(2) b(5) q1(2) c assms] by simp
  qed
qed

lemma continuation_number: "unat b div 64 = 2 \<Longrightarrow> \<exists>r. unat b = 128 + r \<and> r < 64 \<and> unat b mod 64 = r"
  by (intro exI [of _ "unat b mod 64"]) (metis mod_div_mult_eq add.commute mod_less_divisor mult_2_right numeral_Bit0
      mult.commute numeral_times_numeral semiring_norm(12,13) zero_less_numeral)

lemma append_utf8_eqI:
  assumes "scalar c" and "scalar_numbers (unat c) = map unat bs"
  shows "append_utf8 c = bs"
proof -
  have "inj (unat :: u8 \<Rightarrow> nat)" by (simp add: inj_on_def word_unat_eq_iff)
  then show ?thesis using append_utf8_numbers [OF assms(1)] assms(2) by (metis inj_map_eq_map)
qed

lemma decode_append:
  assumes lead: "lead_byte b = Some (len, cp, minimum)" and len: "length bs = len - 1"
    and dec: "decode_scalar bs cp minimum = Some c"
  shows "append_utf8 c = b # bs \<and> scalar c"
  using lead
proof (cases rule: lead_byte_cases)
  case 1
  then have "bs = []" using len by simp
  then have "unat c = unat b" "scalar c" using dec 1 decode_scalar_value [of cp "[]" minimum c] by auto
  then show ?thesis using 1 \<open>bs = []\<close> by (auto intro!: append_utf8_eqI simp: scalar_numbers_def)
next
  case 2
  then obtain b0 where bs: "bs = [b0]" using len by (auto simp: length_Suc_conv)
  have cp: "unat cp < 32" using 2 by simp
  have v: "unat b0 div 64 = 2" "unat c = unat cp * 64 + unat b0 mod 64" "128 \<le> unat c" "scalar c"
    using dec 2 cp decode_scalar_value [of cp bs minimum c] by (auto simp: bs)
  obtain r where r: "unat b0 = 128 + r" "r < 64" "unat b0 mod 64 = r" using continuation_number [OF v(1)] by blast
  have "2 \<le> unat cp" using 2 by linarith
  then show ?thesis using v(2,4) 2 r cp scalar_numbers_two [of "unat cp" r] by (auto intro!: append_utf8_eqI simp: bs)
next
  case 3
  then obtain b1 b0 where bs: "bs = [b1, b0]" using len by (auto simp: length_Suc_conv numeral_2_eq_2)
  have cp: "unat cp < 16" using 3 by simp
  have v: "unat b1 div 64 = 2" "unat b0 div 64 = 2" "unat c = (unat cp * 64 + unat b1 mod 64) * 64 + unat b0 mod 64"
    "2048 \<le> unat c" "scalar c"
    using dec 3 cp decode_scalar_value [of cp bs minimum c] by (auto simp: bs)
  obtain r where r: "unat b0 = 128 + r" "r < 64" "unat b0 mod 64 = r" using continuation_number [OF v(2)] by blast
  obtain r1 where r1: "unat b1 = 128 + r1" "r1 < 64" "unat b1 mod 64 = r1" using continuation_number [OF v(1)] by blast
  have "0x7ff < (unat cp * 64 + r1) * 64 + r" "(unat cp * 64 + r1) * 64 + r \<le> 0xffff" using v(3,4) r(2,3) r1(2,3) cp by simp_all
  then show ?thesis using v(3,5) 3 r r1 scalar_numbers_three [of "unat cp" r1 r] by (auto intro!: append_utf8_eqI simp: bs)
next
  case 4
  then obtain b2 b1 b0 where bs: "bs = [b2, b1, b0]" using len by (auto simp: length_Suc_conv numeral_3_eq_3)
  have cp: "unat cp < 5" using 4 by simp
  have v: "unat b2 div 64 = 2" "unat b1 div 64 = 2" "unat b0 div 64 = 2"
    "unat c = ((unat cp * 64 + unat b2 mod 64) * 64 + unat b1 mod 64) * 64 + unat b0 mod 64" "65536 \<le> unat c" "scalar c"
    using dec 4 cp decode_scalar_value [of cp bs minimum c] by (auto simp: bs)
  obtain r where r: "unat b0 = 128 + r" "r < 64" "unat b0 mod 64 = r" using continuation_number [OF v(3)] by blast
  obtain r1 where r1: "unat b1 = 128 + r1" "r1 < 64" "unat b1 mod 64 = r1" using continuation_number [OF v(2)] by blast
  obtain r2 where r2: "unat b2 = 128 + r2" "r2 < 64" "unat b2 mod 64 = r2" using continuation_number [OF v(1)] by blast
  have "0xffff < ((unat cp * 64 + r2) * 64 + r1) * 64 + r" using v(4,5) r(3) r1(3) r2(3) by simp
  then show ?thesis using v(4,6) 4 r r1 r2 scalar_numbers_four [of "unat cp" r2 r1 r] by (auto intro!: append_utf8_eqI simp: bs)
qed

section \<open>Texts\<close>

definition sanitize :: "u32 \<Rightarrow> u32" where
  "sanitize c = (if scalar c then c else kReplacement)"

lemma scalar_sanitize [simp]: "scalar (sanitize c)" "scalar c \<Longrightarrow> sanitize c = c"
  by (simp_all add: sanitize_def)

lemma append_sanitize: "append_utf8 c = append_utf8 (sanitize c)"
  unfolding sanitize_def by (rule append_utf8_replace)

lemma consume_append: "consume_utf8 (append_utf8 c @ rest) finish = apfst ((#) (sanitize c)) (consume_utf8 rest finish)"
proof -
  obtain b bs cp minimum where "append_utf8 (sanitize c) = b # bs"
    "lead_byte b = Some (Suc (length bs), cp, minimum)" "decode_scalar bs cp minimum = Some (sanitize c)"
    using append_utf8_decodes [OF scalar_sanitize(1)] by blast
  then show ?thesis unfolding append_sanitize [of c] by (simp add: consume_utf8.simps)
qed

lemma consume_encode:
  "consume_utf8 (encode_utf8 cs @ rest) finish = apfst ((@) (map sanitize cs)) (consume_utf8 rest finish)"
  by (induction cs) (simp_all add: consume_append prod_eq_iff)

lemma is_valid_append: "is_valid (append_utf8 c @ rest) = is_valid rest"
proof -
  obtain b bs cp minimum where "append_utf8 (sanitize c) = b # bs"
    "lead_byte b = Some (Suc (length bs), cp, minimum)" "decode_scalar bs cp minimum = Some (sanitize c)"
    using append_utf8_decodes [OF scalar_sanitize(1)] by blast
  then show ?thesis unfolding append_sanitize [of c] by (simp add: is_valid.simps)
qed

lemma is_valid_encode: "is_valid (encode_utf8 cs)"
  by (induction cs) (simp_all add: is_valid_append)

lemma is_valid_scalars:
  "is_valid t \<Longrightarrow> \<exists>cs. (\<forall>c \<in> set cs. scalar c) \<and> t = encode_utf8 cs"
proof (induction t rule: is_valid.induct)
  case 1
  then show ?case by (intro exI [of _ "[]"]) simp
next
  case (2 b bs)
  obtain len cp minimum where lead: "lead_byte b = Some (len, cp, minimum)"
    and le: "len \<le> Suc (length bs)" and dec: "decode_scalar (take (len - 1) bs) cp minimum \<noteq> None"
    and rest: "is_valid (drop (len - 1) bs)"
    using "2.prems" by (auto simp: is_valid.simps not_less split: option.splits prod.splits if_splits)
  obtain c where c: "decode_scalar (take (len - 1) bs) cp minimum = Some c" using dec by blast
  have "append_utf8 c = b # take (len - 1) bs" "scalar c" using decode_append [OF lead _ c] le by auto
  moreover obtain cs where "\<forall>c \<in> set cs. scalar c" "drop (len - 1) bs = encode_utf8 cs"
    using "2.IH" [OF lead refl refl] le rest by auto
  ultimately show ?case by (intro exI [of _ "c # cs"]) (metis append_Cons append_take_drop_id encode_utf8.simps(2) set_ConsD)
qed

lemma consume_finished: "snd (consume_utf8 t True) = []"
  by (induction t "True" rule: consume_utf8.induct) (auto simp: consume_utf8.simps split: option.splits prod.splits)

lemma consume_pending: "length (snd (consume_utf8 t False)) \<le> 3"
proof (induction t "False" rule: consume_utf8.induct)
  case (2 b bs)
  have "len \<le> 4" if "lead_byte b = Some (len, cp, minimum)" for len cp minimum
    using that by (cases rule: lead_byte_cases) auto
  with 2 show ?case by (force simp: consume_utf8.simps split: option.splits prod.splits)
qed simp

lemma consume_split:
  "consume_utf8 (a @ b) finish = apfst ((@) (fst (consume_utf8 a False))) (consume_utf8 (snd (consume_utf8 a False) @ b) finish)"
proof (induction a "False" rule: consume_utf8.induct)
  case (2 x xs)
  show ?case
  proof (cases "lead_byte x")
    case None
    then show ?thesis using "2.hyps"(1) by (simp add: consume_utf8.simps prod_eq_iff)
  next
    case (Some l)
    obtain len cp minimum where l: "l = (len, cp, minimum)" by (rule prod_cases3)
    show ?thesis
    proof (cases "length (x # xs) < len")
      case True
      then show ?thesis using Some l by (simp add: consume_utf8.simps(2) [of x xs False] prod_eq_iff)
    next
      case False
      then have t: "take (len - 1) (xs @ b) = take (len - 1) xs" "drop (len - 1) (xs @ b) = drop (len - 1) xs @ b"
        by auto
      show ?thesis
      proof (cases "decode_scalar (take (len - 1) xs) cp minimum")
        case None
        then show ?thesis using "2.hyps"(3) [OF Some l [symmetric] refl _ None] False Some l t
          by (simp add: consume_utf8.simps prod_eq_iff)
      next
        case c: (Some c)
        then show ?thesis using "2.hyps"(4) [OF Some l [symmetric] refl _ c] False Some l t
          by (simp add: consume_utf8.simps prod_eq_iff)
      qed
    qed
  qed
qed (simp add: prod_eq_iff)

text \<open>A text that arrives in chunks, decoded as a paste does: a possible prefix of a sequence waits.\<close>

fun decode_chunks :: "bytes \<Rightarrow> bytes list \<Rightarrow> u32 list" where
  "decode_chunks pending [] = fst (consume_utf8 pending True)"
| "decode_chunks pending (chunk # chunks) =
     (case consume_utf8 (pending @ chunk) False of (scalars, pending') \<Rightarrow> scalars @ decode_chunks pending' chunks)"

lemma decode_chunks_concat: "decode_chunks pending chunks = decode_utf8 (pending @ concat chunks)"
proof (induction chunks arbitrary: pending)
  case (Cons chunk chunks)
  have "decode_utf8 (pending @ concat (chunk # chunks)) = fst (consume_utf8 ((pending @ chunk) @ concat chunks) True)"
    by (simp add: decode_utf8_def)
  also have "\<dots> = fst (consume_utf8 (pending @ chunk) False) @
      decode_utf8 (snd (consume_utf8 (pending @ chunk) False) @ concat chunks)"
    by (subst consume_split) (simp add: decode_utf8_def)
  finally show ?case using Cons.IH by (simp add: case_prod_unfold)
qed (simp add: decode_utf8_def)

section \<open>Properties\<close>

text \<open>
  C18: Encoding and decoding: whatever scalars are written, the bytes are valid UTF-8 and decode
  to the same scalars, with each value that is no Unicode scalar replaced by U+FFFD.
\<close>

theorem utf8_round_trip: "decode_utf8 (encode_utf8 cs) = map sanitize cs \<and> is_valid (encode_utf8 cs)"
  using consume_encode [of cs "[]" True] is_valid_encode by (simp add: decode_utf8_def)

text \<open>
  \<open>is_valid\<close> is exact: it accepts precisely the encodings of sequences of Unicode scalars
  (no overlong form, surrogate, truncation or value above U+10FFFF), which are precisely the
  texts that decoding and encoding give back unchanged.
\<close>

lemma utf8_valid_exact:
  "(is_valid t \<longleftrightarrow> (\<exists>cs. list_all scalar cs \<and> t = encode_utf8 cs)) \<and>
   (is_valid t \<longleftrightarrow> encode_utf8 (decode_utf8 t) = t)"
proof -
  have unchanged: "encode_utf8 (decode_utf8 t) = t" if "is_valid t"
  proof -
    obtain cs where cs: "\<forall>c \<in> set cs. scalar c" "t = encode_utf8 cs" using is_valid_scalars [OF \<open>is_valid t\<close>] by blast
    have "map sanitize cs = cs" using cs(1) by (simp add: map_idI)
    then show ?thesis using consume_encode [of cs "[]" True] cs(2) by (simp add: decode_utf8_def)
  qed
  have "is_valid t \<longleftrightarrow> (\<exists>cs. list_all scalar cs \<and> t = encode_utf8 cs)"
    using is_valid_scalars is_valid_encode unfolding list_all_iff by blast
  moreover have "encode_utf8 (decode_utf8 t) = t \<Longrightarrow> is_valid t" using is_valid_encode [of "decode_utf8 t"] by simp
  ultimately show ?thesis using unchanged by blast
qed

text \<open>
  Decoding in chunks: however a byte stream is cut into pieces, keeping the undecided
  suffix between them yields the same scalars as decoding it in one piece, and that suffix is
  never longer than three bytes.
\<close>

lemma utf8_chunked:
  "decode_chunks [] chunks = decode_utf8 (concat chunks) \<and> length (snd (consume_utf8 t False)) \<le> 3 \<and>
   snd (consume_utf8 t True) = []"
  using decode_chunks_concat [of "[]"] consume_pending consume_finished by simp

end
