(* ===== verification/Message_Codec.thy ===== *)
theory Message_Codec
  imports Wire_Message Utf8_Text
begin

text \<open>
  \<open>msgs/\<close>: the payload schemas that processes exchange inside IPC envelopes. Every codec is a pair of
  an encoder and a decoder of complete payloads; the registry selects one by message identifier
  and renders decoded values as JSON. An output vector or value with a status is a sum.
\<close>

unbundle bit_operations_syntax

section \<open>Status and identifiers\<close>

datatype msg_status = MSG_OK | MSG_INVALID_ARGUMENT | DUPLICATE_MESSAGE_ID | MESSAGE_ID_NOT_FOUND | CODEC_TYPE_MISMATCH
  | PAYLOAD_ENCODING_FAILED | MALFORMED_PAYLOAD | INCOMPLETE_IPC_MESSAGE | INVALID_IPC_MESSAGE

text \<open>A \<open>MessageId\<close> is its underlying \<open>uint32_t\<close>: any value can come from the wire.\<close>

type_synonym message_id = u32

definition NULL_MESSAGE :: message_id where "NULL_MESSAGE = 0"
definition SCREEN_COMMAND :: message_id where "SCREEN_COMMAND = 1"
definition SCREEN_RESIZE_EVENT :: message_id where "SCREEN_RESIZE_EVENT = 2"
definition CMD_FRAME_NOTIFICATION :: message_id where "CMD_FRAME_NOTIFICATION = 3"
definition TERMINAL_INPUT_EVENT :: message_id where "TERMINAL_INPUT_EVENT = 4"

section \<open>Fields\<close>

definition append_u16 :: "u16 \<Rightarrow> bytes" where
  "append_u16 v = [ucast (drop_bit 8 v), ucast v]"

definition append_u32 :: "u32 \<Rightarrow> bytes" where
  "append_u32 v = [ucast (drop_bit 24 v), ucast (drop_bit 16 v), ucast (drop_bit 8 v), ucast v]"

text \<open>\<open>read_u16\<close> and \<open>read_u32\<close> of the bytes at an offset.\<close>

definition read_u16 :: "bytes \<Rightarrow> nat \<Rightarrow> u16" where
  "read_u16 p i = push_bit 8 (ucast (p ! i)) OR ucast (p ! (i + 1))"

definition read_u32 :: "bytes \<Rightarrow> nat \<Rightarrow> u32" where
  "read_u32 p i = push_bit 24 (ucast (p ! i)) OR push_bit 16 (ucast (p ! (i + 1))) OR
     push_bit 8 (ucast (p ! (i + 2))) OR ucast (p ! (i + 3))"

definition append_string :: "bytes \<Rightarrow> bytes option" where
  "append_string s = (if length s > 2 ^ 32 - 1 then None else Some (append_u32 (of_nat (length s)) @ s))"

definition read_string :: "bytes \<Rightarrow> nat \<Rightarrow> (bytes \<times> nat) option" where
  "read_string payload offset =
     (if length payload - offset < 4 then None
      else let n = unat (read_u32 payload offset) in
        if n > length payload - (offset + 4) then None
        else Some (take n (drop (offset + 4) payload), offset + 4 + n))"

text \<open>The end of an encoder: the fields already written, and a string.\<close>

definition with_string :: "bytes \<Rightarrow> bytes \<Rightarrow> msg_status + bytes" where
  "with_string output s =
     (case append_string s of None \<Rightarrow> Inl PAYLOAD_ENCODING_FAILED | Some t \<Rightarrow> Inr (output @ t))"

section \<open>Empty messages and notifications\<close>

definition encode_null :: "unit \<Rightarrow> msg_status + bytes" where
  "encode_null v = Inr []"

definition decode_null :: "bytes \<Rightarrow> msg_status + unit" where
  "decode_null payload = (if payload = [] then Inr () else Inl MALFORMED_PAYLOAD)"

definition encode_notification :: "bytes \<Rightarrow> msg_status + bytes" where
  "encode_notification t = (if is_valid t then Inr t else Inl PAYLOAD_ENCODING_FAILED)"

definition decode_notification :: "bytes \<Rightarrow> msg_status + bytes" where
  "decode_notification payload =
     (if payload = [] then Inr [] else if is_valid payload then Inr payload else Inl MALFORMED_PAYLOAD)"

section \<open>Screen commands and geometry\<close>

datatype screen_clipboard = SCREEN_PRIMARY | SCREEN_CLIPBOARD

datatype screen_command =
    Screen_Take bytes bytes
  | Screen_Release
  | Screen_Present bytes
  | Screen_Set_Clipboard screen_clipboard bytes

fun screen_clipboard_byte :: "screen_clipboard \<Rightarrow> u8" where
  "screen_clipboard_byte SCREEN_PRIMARY = 0"
| "screen_clipboard_byte SCREEN_CLIPBOARD = 1"

definition u32_size :: "bytes \<Rightarrow> bool" where
  "u32_size s \<longleftrightarrow> length s \<le> 2 ^ 32 - 1"

fun encode_screen_command :: "screen_command \<Rightarrow> msg_status + bytes" where
  "encode_screen_command (Screen_Take initial final) =
     (if \<not> u32_size initial \<or> \<not> u32_size final then Inl PAYLOAD_ENCODING_FAILED
      else Inr ([1] @ append_u32 (of_nat (length initial)) @ initial @ append_u32 (of_nat (length final)) @ final))"
| "encode_screen_command Screen_Release = Inr [2]"
| "encode_screen_command (Screen_Present bs) =
     (if \<not> u32_size bs then Inl PAYLOAD_ENCODING_FAILED else Inr ([3] @ append_u32 (of_nat (length bs)) @ bs))"
| "encode_screen_command (Screen_Set_Clipboard selection t) =
     (if \<not> u32_size t then Inl PAYLOAD_ENCODING_FAILED
      else Inr ([4, screen_clipboard_byte selection] @ append_u32 (of_nat (length t)) @ t))"

definition decode_take :: "bytes \<Rightarrow> msg_status + screen_command" where
  "decode_take payload =
     (if length payload < 9 then Inl MALFORMED_PAYLOAD
      else let n = unat (read_u32 payload 1) in
        if n > length payload - 9 then Inl MALFORMED_PAYLOAD
        else let final_size_offset = 5 + n; final_size = unat (read_u32 payload final_size_offset) in
          if length payload - final_size_offset - 4 \<noteq> final_size then Inl MALFORMED_PAYLOAD
          else Inr (Screen_Take (take n (drop 5 payload)) (take final_size (drop (final_size_offset + 4) payload))))"

definition decode_present :: "bytes \<Rightarrow> msg_status + screen_command" where
  "decode_present payload =
     (if length payload < 5 then Inl MALFORMED_PAYLOAD
      else let n = unat (read_u32 payload 1) in
        if length payload - 5 \<noteq> n then Inl MALFORMED_PAYLOAD else Inr (Screen_Present (take n (drop 5 payload))))"

definition decode_set_clipboard :: "bytes \<Rightarrow> msg_status + screen_command" where
  "decode_set_clipboard payload =
     (if length payload < 6 then Inl MALFORMED_PAYLOAD
      else let n = unat (read_u32 payload 2) in
        if payload ! 1 > 1 \<or> length payload - 6 \<noteq> n then Inl MALFORMED_PAYLOAD
        else Inr (Screen_Set_Clipboard (if payload ! 1 = 0 then SCREEN_PRIMARY else SCREEN_CLIPBOARD) (take n (drop 6 payload))))"

definition decode_screen_command :: "bytes \<Rightarrow> msg_status + screen_command" where
  "decode_screen_command payload =
     (if payload = [] then Inl MALFORMED_PAYLOAD
      else let tag = hd payload in
        if tag = 1 then decode_take payload
        else if tag = 2 then if length payload \<noteq> 1 then Inl MALFORMED_PAYLOAD else Inr Screen_Release
        else if tag = 3 then decode_present payload
        else if tag = 4 then decode_set_clipboard payload
        else Inl MALFORMED_PAYLOAD)"

record screen_resize_event =
  resize_width :: u32
  resize_height :: u32
  resize_pixel_width :: u32
  resize_pixel_height :: u32

definition encode_resize :: "screen_resize_event \<Rightarrow> msg_status + bytes" where
  "encode_resize e =
     (if resize_width e = 0 \<or> resize_height e = 0 then Inl PAYLOAD_ENCODING_FAILED
      else Inr (append_u32 (resize_width e) @ append_u32 (resize_height e) @ append_u32 (resize_pixel_width e) @
        append_u32 (resize_pixel_height e)))"

definition decode_resize :: "bytes \<Rightarrow> msg_status + screen_resize_event" where
  "decode_resize payload =
     (if length payload \<noteq> 16 then Inl MALFORMED_PAYLOAD
      else let e = \<lparr>resize_width = read_u32 payload 0, resize_height = read_u32 payload 4,
             resize_pixel_width = read_u32 payload 8, resize_pixel_height = read_u32 payload 12\<rparr> in
        if resize_width e = 0 \<or> resize_height e = 0 then Inl MALFORMED_PAYLOAD else Inr e)"

section \<open>Terminal input events\<close>

record terminal_key_event =
  key_named :: bool
  key_value :: u32
  key_modifier_bits :: u16
  key_action_byte :: u8
  key_shifted :: "u32 option"
  key_base_layout :: "u32 option"
  key_utf8 :: bytes

text \<open>
  \<open>TerminalInputEvent::Data\<close>, with the members of each struct in their order; an \<open>int32_t\<close> is its
  two's complement word.
\<close>

datatype terminal_input_event =
    Terminal_Key terminal_key_event
  | Terminal_Text bytes
  | Terminal_Mouse u32 u32 u8 u8 u16
  | Terminal_Scroll u32 u32 u32 u32 u16
  | Terminal_Paste u8 bytes
  | Terminal_Focus bool
  | Terminal_Clipboard u8 bytes
  | Terminal_Command u16
  | Terminal_Response u8 u32 bytes
  | Terminal_Unknown u8 bytes

definition kKnownModifierBits :: u16 where "kKnownModifierBits = 0x00ff"
definition kMaximumUnicodeScalar :: u32 where "kMaximumUnicodeScalar = 0x10ffff"

definition valid_scalar :: "u32 \<Rightarrow> bool" where
  "valid_scalar c \<longleftrightarrow> c \<le> kMaximumUnicodeScalar \<and> \<not> (0xd800 \<le> c \<and> c \<le> 0xdfff)"

definition known_modifiers :: "u16 \<Rightarrow> bool" where
  "known_modifiers m \<longleftrightarrow> m AND NOT kKnownModifierBits = 0"

definition valid_key :: "terminal_key_event \<Rightarrow> bool" where
  "valid_key e \<longleftrightarrow> (key_named e \<or> valid_scalar (key_value e)) \<and> key_action_byte e \<le> 2 \<and> known_modifiers (key_modifier_bits e) \<and>
     (case key_shifted e of None \<Rightarrow> True | Some c \<Rightarrow> valid_scalar c) \<and>
     (case key_base_layout e of None \<Rightarrow> True | Some c \<Rightarrow> valid_scalar c) \<and> is_valid (key_utf8 e)"

fun append_optional :: "u32 option \<Rightarrow> bytes" where
  "append_optional None = []"
| "append_optional (Some c) = append_u32 c"

definition option_bits :: "terminal_key_event \<Rightarrow> u8" where
  "option_bits e = (if key_shifted e \<noteq> None then 1 else 0) OR (if key_base_layout e \<noteq> None then 2 else 0)"

fun encode_terminal_event :: "terminal_input_event \<Rightarrow> msg_status + bytes" where
  "encode_terminal_event (Terminal_Key e) =
     (if \<not> valid_key e then Inl PAYLOAD_ENCODING_FAILED
      else with_string ([1, if key_named e then 1 else 0] @ append_u32 (key_value e) @ append_u16 (key_modifier_bits e) @
        [key_action_byte e, option_bits e] @ append_optional (key_shifted e) @ append_optional (key_base_layout e)) (key_utf8 e))"
| "encode_terminal_event (Terminal_Text t) =
     (if \<not> is_valid t then Inl PAYLOAD_ENCODING_FAILED else with_string [2] t)"
| "encode_terminal_event (Terminal_Mouse x y button action modifiers) =
     (if button > 7 \<or> action > 3 \<or> \<not> known_modifiers modifiers then Inl PAYLOAD_ENCODING_FAILED
      else Inr ([3] @ append_u32 x @ append_u32 y @ [button, action] @ append_u16 modifiers))"
| "encode_terminal_event (Terminal_Scroll x y dx dy modifiers) =
     (if \<not> known_modifiers modifiers then Inl PAYLOAD_ENCODING_FAILED
      else Inr ([4] @ append_u32 x @ append_u32 y @ append_u32 dx @ append_u32 dy @ append_u16 modifiers))"
| "encode_terminal_event (Terminal_Paste phase data) =
     (if phase > 3 then Inl PAYLOAD_ENCODING_FAILED else with_string [5, phase] data)"
| "encode_terminal_event (Terminal_Focus focused) = Inr [6, if focused then 1 else 0]"
| "encode_terminal_event (Terminal_Clipboard selection data) =
     (if selection > 1 then Inl PAYLOAD_ENCODING_FAILED else with_string [7, selection] data)"
| "encode_terminal_event (Terminal_Command command) =
     (if command > 11 then Inl PAYLOAD_ENCODING_FAILED else Inr ([8] @ append_u16 command))"
| "encode_terminal_event (Terminal_Response kind v bs) =
     (if kind > 5 then Inl PAYLOAD_ENCODING_FAILED else with_string ([9, kind] @ append_u32 v) bs)"
| "encode_terminal_event (Terminal_Unknown reason bs) =
     (if reason > 4 then Inl PAYLOAD_ENCODING_FAILED else with_string [10, reason] bs)"

definition read_optional :: "bytes \<Rightarrow> nat \<Rightarrow> bool \<Rightarrow> (u32 option \<times> nat) option" where
  "read_optional payload offset present =
     (if \<not> present then Some (None, offset)
      else if length payload - offset < 4 then None else Some (Some (read_u32 payload offset), offset + 4))"

text \<open>The common end of the decoders with a string: it reaches the end of the payload.\<close>

definition read_last_string :: "bytes \<Rightarrow> nat \<Rightarrow> bytes option" where
  "read_last_string payload offset =
     (case read_string payload offset of None \<Rightarrow> None
      | Some (s, offset') \<Rightarrow> if offset' \<noteq> length payload then None else Some s)"

definition decode_key :: "bytes \<Rightarrow> msg_status + terminal_input_event" where
  "decode_key payload =
     (if length payload < 10 \<or> payload ! 1 > 1 \<or> payload ! 9 > 3 then Inl MALFORMED_PAYLOAD
      else case read_optional payload 10 (payload ! 9 AND 1 \<noteq> 0) of
          None \<Rightarrow> Inl MALFORMED_PAYLOAD
        | Some (shifted, offset1) \<Rightarrow>
            (case read_optional payload offset1 (payload ! 9 AND 2 \<noteq> 0) of
               None \<Rightarrow> Inl MALFORMED_PAYLOAD
             | Some (base, offset2) \<Rightarrow>
                 (case read_last_string payload offset2 of
                    None \<Rightarrow> Inl MALFORMED_PAYLOAD
                  | Some t \<Rightarrow>
                      let e = \<lparr>key_named = (payload ! 1 \<noteq> 0), key_value = read_u32 payload 2,
                            key_modifier_bits = read_u16 payload 6, key_action_byte = payload ! 8, key_shifted = shifted,
                            key_base_layout = base, key_utf8 = t\<rparr>
                      in if valid_key e then Inr (Terminal_Key e) else Inl MALFORMED_PAYLOAD)))"

definition decode_text :: "bytes \<Rightarrow> msg_status + terminal_input_event" where
  "decode_text payload =
     (case read_last_string payload 1 of None \<Rightarrow> Inl MALFORMED_PAYLOAD
      | Some t \<Rightarrow> if is_valid t then Inr (Terminal_Text t) else Inl MALFORMED_PAYLOAD)"

definition decode_mouse :: "bytes \<Rightarrow> msg_status + terminal_input_event" where
  "decode_mouse payload =
     (if length payload \<noteq> 13 then Inl MALFORMED_PAYLOAD
      else let modifiers = read_u16 payload 11 in
        if payload ! 9 > 7 \<or> payload ! 10 > 3 \<or> \<not> known_modifiers modifiers then Inl MALFORMED_PAYLOAD
        else Inr (Terminal_Mouse (read_u32 payload 1) (read_u32 payload 5) (payload ! 9) (payload ! 10) modifiers))"

definition decode_scroll :: "bytes \<Rightarrow> msg_status + terminal_input_event" where
  "decode_scroll payload =
     (if length payload \<noteq> 19 then Inl MALFORMED_PAYLOAD
      else let modifiers = read_u16 payload 17 in
        if \<not> known_modifiers modifiers then Inl MALFORMED_PAYLOAD
        else Inr (Terminal_Scroll (read_u32 payload 1) (read_u32 payload 5) (read_u32 payload 9) (read_u32 payload 13) modifiers))"

text \<open>A byte with a greatest value, then a string: paste, clipboard and unknown events.\<close>

definition decode_tagged :: "u8 \<Rightarrow> (u8 \<Rightarrow> bytes \<Rightarrow> terminal_input_event) \<Rightarrow> bytes \<Rightarrow> msg_status + terminal_input_event" where
  "decode_tagged maximum build payload =
     (if length payload < 6 \<or> payload ! 1 > maximum then Inl MALFORMED_PAYLOAD
      else case read_last_string payload 2 of None \<Rightarrow> Inl MALFORMED_PAYLOAD | Some s \<Rightarrow> Inr (build (payload ! 1) s))"

definition decode_focus :: "bytes \<Rightarrow> msg_status + terminal_input_event" where
  "decode_focus payload =
     (if length payload \<noteq> 2 \<or> payload ! 1 > 1 then Inl MALFORMED_PAYLOAD else Inr (Terminal_Focus (payload ! 1 \<noteq> 0)))"

definition decode_command :: "bytes \<Rightarrow> msg_status + terminal_input_event" where
  "decode_command payload =
     (if length payload \<noteq> 3 then Inl MALFORMED_PAYLOAD
      else let command = read_u16 payload 1 in
        if command > 11 then Inl MALFORMED_PAYLOAD else Inr (Terminal_Command command))"

definition decode_response :: "bytes \<Rightarrow> msg_status + terminal_input_event" where
  "decode_response payload =
     (if length payload < 10 \<or> payload ! 1 > 5 then Inl MALFORMED_PAYLOAD
      else case read_last_string payload 6 of None \<Rightarrow> Inl MALFORMED_PAYLOAD
        | Some s \<Rightarrow> Inr (Terminal_Response (payload ! 1) (read_u32 payload 2) s))"

definition decode_terminal_event :: "bytes \<Rightarrow> msg_status + terminal_input_event" where
  "decode_terminal_event payload =
     (if payload = [] then Inl MALFORMED_PAYLOAD
      else let tag = hd payload in
        if tag = 1 then decode_key payload
        else if tag = 2 then decode_text payload
        else if tag = 3 then decode_mouse payload
        else if tag = 4 then decode_scroll payload
        else if tag = 5 then decode_tagged 3 Terminal_Paste payload
        else if tag = 6 then decode_focus payload
        else if tag = 7 then decode_tagged 1 Terminal_Clipboard payload
        else if tag = 8 then decode_command payload
        else if tag = 9 then decode_response payload
        else if tag = 10 then decode_tagged 4 Terminal_Unknown payload
        else Inl MALFORMED_PAYLOAD)"

section \<open>Fields are read back\<close>

lemma bytes_of_u32:
  "ucast (drop_bit 24 (push_bit 24 (ucast a) OR push_bit 16 (ucast b) OR push_bit 8 (ucast c) OR ucast d :: u32)) = (a :: u8)"
  "ucast (drop_bit 16 (push_bit 24 (ucast a) OR push_bit 16 (ucast b) OR push_bit 8 (ucast c) OR ucast d :: u32)) = (b :: u8)"
  "ucast (drop_bit 8 (push_bit 24 (ucast a) OR push_bit 16 (ucast b) OR push_bit 8 (ucast c) OR ucast d :: u32)) = (c :: u8)"
  "ucast (push_bit 24 (ucast a) OR push_bit 16 (ucast b) OR push_bit 8 (ucast c) OR ucast d :: u32) = (d :: u8)"
  by (rule bit_word_eqI; auto simp: bit_simps dest: bit_imp_le_length)+

lemma bytes_of_u16:
  "ucast (drop_bit 8 (push_bit 8 (ucast a) OR ucast b :: u16)) = (a :: u8)"
  "ucast (push_bit 8 (ucast a) OR ucast b :: u16) = (b :: u8)"
  by (rule bit_word_eqI; auto simp: bit_simps dest: bit_imp_le_length)+

lemma u32_of_bytes:
  "push_bit 24 (ucast (ucast (drop_bit 24 v) :: u8)) OR push_bit 16 (ucast (ucast (drop_bit 16 v) :: u8)) OR
     push_bit 8 (ucast (ucast (drop_bit 8 v) :: u8)) OR ucast (ucast v :: u8) = (v :: u32)"
proof (rule bit_word_eqI)
  fix n
  show "bit (push_bit 24 (ucast (ucast (drop_bit 24 v) :: u8)) OR push_bit 16 (ucast (ucast (drop_bit 16 v) :: u8)) OR
     push_bit 8 (ucast (ucast (drop_bit 8 v) :: u8)) OR ucast (ucast v :: u8) :: u32) n = bit v n" if "n < LENGTH(32)"
    using that by (cases "n < 8"; cases "n < 16"; cases "n < 24") (auto simp: bit_simps)
qed

lemma u16_of_bytes: "push_bit 8 (ucast (ucast (drop_bit 8 v) :: u8)) OR ucast (ucast v :: u8) = (v :: u16)"
  by (rule bit_word_eqI) (auto simp: bit_simps)

lemma length_append_u [simp]: "length (append_u16 m) = 2" "length (append_u32 v) = 4"
  by (simp_all add: append_u16_def append_u32_def)

lemma read_append_u32: "length pre = i \<Longrightarrow> read_u32 (pre @ append_u32 v @ post) i = v"
  by (simp add: read_u32_def append_u32_def nth_append u32_of_bytes)

lemma read_append_u16: "length pre = i \<Longrightarrow> read_u16 (pre @ append_u16 v @ post) i = v"
  by (simp add: read_u16_def append_u16_def nth_append u16_of_bytes)

lemma drop_u32:
  assumes "i + 4 \<le> length p"
  shows "drop i p = append_u32 (read_u32 p i) @ drop (i + 4) p"
proof -
  have "drop i p = [p ! i, p ! (i + 1), p ! (i + 2), p ! (i + 3)] @ drop (i + 4) p"
    using assms by (simp add: Cons_nth_drop_Suc [symmetric] eval_nat_numeral)
  then show ?thesis unfolding append_u32_def read_u32_def bytes_of_u32 .
qed

lemma drop_u16:
  assumes "i + 2 \<le> length p"
  shows "drop i p = append_u16 (read_u16 p i) @ drop (i + 2) p"
proof -
  have "drop i p = [p ! i, p ! (i + 1)] @ drop (i + 2) p"
    using assms by (simp add: Cons_nth_drop_Suc [symmetric] eval_nat_numeral)
  then show ?thesis unfolding append_u16_def read_u16_def bytes_of_u16 .
qed

lemma drop_byte: "i < length p \<Longrightarrow> drop i p = p ! i # drop (i + 1) p"
  by (simp add: Cons_nth_drop_Suc)

lemma size_word [simp]: "length s \<le> 4294967295 \<Longrightarrow> unat (word_of_nat (length s) :: u32) = length s"
  by (rule word_nat_small) simp

lemma append_string_Some: "append_string s = Some t \<longleftrightarrow> length s \<le> 4294967295 \<and> t = append_u32 (of_nat (length s)) @ s"
  by (auto simp: append_string_def)

text \<open>A string is read exactly where it was written.\<close>

lemma read_string_iff:
  assumes "i \<le> length p"
  shows "read_string p i = Some (s, j) \<longleftrightarrow> length s \<le> 4294967295 \<and> j = i + 4 + length s \<and> j \<le> length p \<and>
    drop i p = append_u32 (of_nat (length s)) @ s @ drop j p"
proof
  assume r: "read_string p i = Some (s, j)"
  define n where "n = unat (read_u32 p i)"
  have i: "i + 4 \<le> length p" and n: "i + 4 + n \<le> length p" "s = take n (drop (i + 4) p)" "j = i + 4 + n"
    using r unfolding read_string_def n_def [symmetric] by (auto simp: Let_def split: if_splits)
  have s: "length s = n" "drop (i + 4) p = s @ drop j p"
    unfolding n(2,3) using n(1) by (simp, metis append_take_drop_id drop_drop add.commute)
  have "of_nat n = read_u32 p i" by (simp add: n_def)
  moreover have "n \<le> 4294967295" using unsigned_less [of "read_u32 p i", where ?'a = nat] by (simp add: n_def)
  ultimately show "length s \<le> 4294967295 \<and> j = i + 4 + length s \<and> j \<le> length p \<and>
    drop i p = append_u32 (of_nat (length s)) @ s @ drop j p"
    using n(1,3) s(1) by (simp add: drop_u32 [OF i] s(2))
next
  assume "length s \<le> 4294967295 \<and> j = i + 4 + length s \<and> j \<le> length p \<and>
    drop i p = append_u32 (of_nat (length s)) @ s @ drop j p"
  then have s: "length s \<le> 4294967295" "j = i + 4 + length s" "j \<le> length p"
    and d: "drop i p = append_u32 (of_nat (length s)) @ s @ drop j p" by blast+
  have p: "p = take i p @ append_u32 (of_nat (length s)) @ s @ drop j p" using d by (metis append_take_drop_id)
  have r: "read_u32 p i = of_nat (length s)" by (subst p, rule read_append_u32) (use assms in simp)
  have "drop (i + 4) p = s @ drop j p" using d by (metis append_eq_conv_conj drop_drop add.commute length_append_u(2))
  then show "read_string p i = Some (s, j)" using s by (simp add: read_string_def r Let_def) arith
qed

lemma read_last_string_iff:
  assumes "i \<le> length p"
  shows "read_last_string p i = Some s \<longleftrightarrow> append_string s = Some (drop i p)"
proof -
  have "read_last_string p i = Some s \<longleftrightarrow> read_string p i = Some (s, length p)"
    by (auto simp: read_last_string_def split: option.splits if_splits)
  also have "\<dots> \<longleftrightarrow> append_string s = Some (drop i p)"
    unfolding read_string_iff [OF assms] append_string_Some using assms by (auto dest: arg_cong [where f = length])
  finally show ?thesis .
qed

lemma with_string_iff:
  "with_string out s = Inr p \<longleftrightarrow> length out \<le> length p \<and> take (length out) p = out \<and> append_string s = Some (drop (length out) p)"
  by (auto simp: with_string_def split: option.splits) (metis append_take_drop_id)

section \<open>Codecs\<close>

text \<open>
  The contract of a codec: the accepted payloads are exactly the encodings, one for each value that
  can be encoded, and each side has one way to fail.
\<close>

locale payload_codec =
  fixes encode :: "'v \<Rightarrow> msg_status + bytes"
    and decode :: "bytes \<Rightarrow> msg_status + 'v"
  assumes canonical: "decode p = Inr v \<longleftrightarrow> encode v = Inr p"
    and encode_fails: "encode v = Inl e \<Longrightarrow> e = PAYLOAD_ENCODING_FAILED"
    and decode_fails: "decode p = Inl e \<Longrightarrow> e = MALFORMED_PAYLOAD"
begin

lemma encode_inj: "encode v = Inr p \<Longrightarrow> encode w = Inr p \<Longrightarrow> v = w"
  using canonical [of p] by (metis sum.inject(2))

lemma decode_inj: "decode p = Inr v \<Longrightarrow> decode q = Inr v \<Longrightarrow> p = q"
  using canonical by (metis sum.inject(2))

lemma rejected_iff: "decode p = Inl MALFORMED_PAYLOAD \<longleftrightarrow> (\<forall>v. encode v \<noteq> Inr p)"
  using canonical decode_fails by (metis Inl_Inr_False obj_sumE)

lemma refused_iff: "encode v = Inl PAYLOAD_ENCODING_FAILED \<longleftrightarrow> (\<forall>p. decode p \<noteq> Inr v)"
  using canonical encode_fails by (metis Inl_Inr_False obj_sumE)

end

interpretation null_codec: payload_codec encode_null decode_null
  by unfold_locales (auto simp: encode_null_def decode_null_def split: if_splits)

interpretation notification_codec: payload_codec encode_notification decode_notification
  by unfold_locales (auto simp: encode_notification_def decode_notification_def split: if_splits)


section \<open>Screen messages\<close>

lemma decode_take_iff:
  "decode_take p = Inr v \<longleftrightarrow> (\<exists>a b j. v = Screen_Take a b \<and> read_string p 1 = Some (a, j) \<and> read_last_string p j = Some b)"
  unfolding decode_take_def read_last_string_def read_string_def Let_def
  by (auto split: if_splits option.splits)

lemma decode_present_iff: "decode_present p = Inr v \<longleftrightarrow> (\<exists>s. v = Screen_Present s \<and> read_last_string p 1 = Some s)"
  unfolding decode_present_def read_last_string_def read_string_def Let_def
  by (auto split: if_splits option.splits)

lemma clipboard_byte_iff: "p1 = screen_clipboard_byte c \<longleftrightarrow> \<not> p1 > 1 \<and> c = (if p1 = 0 then SCREEN_PRIMARY else SCREEN_CLIPBOARD)"
  for p1 :: u8
proof -
  have "\<not> p1 > 1 \<longleftrightarrow> p1 = 0 \<or> p1 = 1" by (auto simp: not_less word_le_nat_alt word_unat_eq_iff le_Suc_eq)
  then show ?thesis by (cases c) auto
qed

lemma decode_set_clipboard_iff:
  "decode_set_clipboard p = Inr v \<longleftrightarrow> (\<exists>c s. v = Screen_Set_Clipboard c s \<and> p ! 1 = screen_clipboard_byte c \<and> read_last_string p 2 = Some s)"
  unfolding decode_set_clipboard_def read_last_string_def read_string_def Let_def clipboard_byte_iff
  by (auto split: if_splits option.splits)

lemma split_front: "p \<noteq> [] \<Longrightarrow> p = hd p # drop 1 p"
  by (cases p) simp_all

interpretation resize_codec: payload_codec encode_resize decode_resize
proof unfold_locales
  fix p e and s :: msg_status
  have "append_u32 (read_u32 p 0) @ append_u32 (read_u32 p 4) @ append_u32 (read_u32 p 8) @ append_u32 (read_u32 p 12) = p" if "length p = 16"
    using drop_u32 [of 0 p] drop_u32 [of 4 p] drop_u32 [of 8 p] drop_u32 [of 12 p] that by simp
  then show "decode_resize p = Inr e \<longleftrightarrow> encode_resize e = Inr p"
    using read_append_u32 [of "[]" 0 "resize_width e"] read_append_u32 [of "append_u32 (resize_width e)" 4 "resize_height e"]
      read_append_u32 [of "append_u32 (resize_width e) @ append_u32 (resize_height e)" 8 "resize_pixel_width e"]
      read_append_u32 [of "append_u32 (resize_width e) @ append_u32 (resize_height e) @ append_u32 (resize_pixel_width e)" 12 "resize_pixel_height e" "[]"]
    by (auto simp: decode_resize_def encode_resize_def split: if_splits)
qed (auto simp: decode_resize_def encode_resize_def Let_def split: if_splits)

lemma drop_past_string [simp]: "drop (5 + length a) (tag # append_u32 w @ a @ r) = r"
  using append_eq_conv_conj [of "tag # append_u32 w @ a" r "tag # append_u32 w @ a @ r"] by simp

interpretation screen_codec: payload_codec encode_screen_command decode_screen_command
proof unfold_locales
  fix p v and e :: msg_status
  show "decode_screen_command p = Inr v \<longleftrightarrow> encode_screen_command v = Inr p"
  proof (cases p)
    case Nil
    then show ?thesis by (cases v) (auto simp: decode_screen_command_def)
  next
    case (Cons tag q)
    have sizes: "1 \<le> length p" by (simp add: Cons)
    have take: "decode_take p = Inr (Screen_Take a b) \<longleftrightarrow> u32_size a \<and> u32_size b \<and>
        q = append_u32 (of_nat (length a)) @ a @ append_u32 (of_nat (length b)) @ b" for a b
    proof -
      have "read_string p 1 = Some (a, j) \<and> read_last_string p j = Some b \<longleftrightarrow> u32_size a \<and> u32_size b \<and> j = 5 + length a \<and>
        q = append_u32 (of_nat (length a)) @ a @ append_u32 (of_nat (length b)) @ b" for j
        unfolding read_string_iff [OF sizes] u32_size_def
        using read_last_string_iff [of j p b] by (auto simp: Cons append_string_Some)
      then show ?thesis unfolding decode_take_iff by auto
    qed
    have present: "decode_present p = Inr (Screen_Present s) \<longleftrightarrow> u32_size s \<and> q = append_u32 (of_nat (length s)) @ s" for s
      unfolding decode_present_iff using read_last_string_iff [OF sizes] by (auto simp: Cons append_string_Some u32_size_def)
    have clip: "decode_set_clipboard p = Inr (Screen_Set_Clipboard c s) \<longleftrightarrow>
        u32_size s \<and> q = screen_clipboard_byte c # append_u32 (of_nat (length s)) @ s" for c s
    proof (cases q)
      case Nil
      then show ?thesis by (simp add: decode_set_clipboard_def Cons)
    next
      case (Cons b r)
      then have "2 \<le> length p" by (simp add: \<open>p = tag # q\<close>)
      then show ?thesis unfolding decode_set_clipboard_iff using read_last_string_iff [of 2 p]
        by (auto simp: \<open>p = tag # q\<close> Cons append_string_Some u32_size_def)
    qed
    have shapes: "decode_take p = Inr w \<Longrightarrow> \<exists>a b. w = Screen_Take a b" "decode_present p = Inr w \<Longrightarrow> \<exists>s. w = Screen_Present s"
      "decode_set_clipboard p = Inr w \<Longrightarrow> \<exists>c s. w = Screen_Set_Clipboard c s" for w
      unfolding decode_take_iff decode_present_iff decode_set_clipboard_iff by blast+
    have front: "p \<noteq> []" "hd p = tag" "x # r = p \<longleftrightarrow> x = tag \<and> r = q" "length p = Suc 0 \<longleftrightarrow> q = []" for x r by (auto simp: Cons)
    show ?thesis
      by (cases v) (auto simp: decode_screen_command_def front take present clip dest: shapes split: if_splits)
  qed
  show "e = PAYLOAD_ENCODING_FAILED" if "encode_screen_command v = Inl e"
    using that by (cases v) (auto split: if_splits)
  show "e = MALFORMED_PAYLOAD" if "decode_screen_command p = Inl e"
    using that by (auto simp: decode_screen_command_def decode_take_def decode_present_def decode_set_clipboard_def Let_def split: if_splits)
qed


section \<open>Terminal messages\<close>

lemma append_u32_eq [simp]: "append_u32 v @ x = append_u32 w @ y \<longleftrightarrow> v = w \<and> x = y"
proof -
  have "append_u32 v = append_u32 w \<Longrightarrow> v = w"
    using read_append_u32 [of "[]" 0 v "[]"] read_append_u32 [of "[]" 0 w "[]"] by simp
  then show ?thesis by (auto simp: append_eq_append_conv)
qed

lemma append_u16_eq [simp]: "append_u16 v @ x = append_u16 w @ y \<longleftrightarrow> v = w \<and> x = y"
proof -
  have "append_u16 v = append_u16 w \<Longrightarrow> v = w"
    using read_append_u16 [of "[]" 0 v "[]"] read_append_u16 [of "[]" 0 w "[]"] by simp
  then show ?thesis by (auto simp: append_eq_append_conv)
qed

lemma append_u32_inj [simp]: "append_u32 v = append_u32 w \<longleftrightarrow> v = w"
  using append_u32_eq [of v "[]" w "[]"] by simp

lemma append_u16_inj [simp]: "append_u16 v = append_u16 w \<longleftrightarrow> v = w"
  using append_u16_eq [of v "[]" w "[]"] by simp

lemma with_string_Inr: "with_string out s = Inr p \<longleftrightarrow> (\<exists>t. append_string s = Some t \<and> p = out @ t)"
  by (auto simp: with_string_def split: option.splits)

lemma append_string_inj: "append_string s = Some t \<Longrightarrow> append_string s' = Some t \<Longrightarrow> s = s'"
  using append_u32_eq by (auto simp: append_string_Some)

lemma append_string_length: "append_string s = Some t \<Longrightarrow> 4 \<le> length t"
  by (auto simp: append_string_Some)

lemma bool_byte: "b = (if c then 1 else 0) \<longleftrightarrow> \<not> b > 1 \<and> c = (b \<noteq> 0)" for b :: u8
proof -
  have "\<not> b > 1 \<longleftrightarrow> b = 0 \<or> b = 1" by (auto simp: not_less word_le_nat_alt word_unat_eq_iff le_Suc_eq)
  then show ?thesis by auto
qed

lemma option_byte:
  "b = (if s then 1 else 0) OR (if t then 2 else 0) \<longleftrightarrow> \<not> b > 3 \<and> s = (b AND 1 \<noteq> 0) \<and> t = (b AND 2 \<noteq> 0)" for b :: u8
proof -
  have "\<not> b > 3 \<longleftrightarrow> b = 0 \<or> b = 1 \<or> b = 2 \<or> b = 3"
    by (simp add: not_less word_le_nat_alt word_unat_eq_iff) arith
  then show ?thesis by (cases s; cases t) auto
qed

lemma last_string_case:
  assumes "i \<le> length p"
  shows "(case read_last_string p i of None \<Rightarrow> Inl e | Some s \<Rightarrow> f s) = Inr v \<longleftrightarrow>
    (\<exists>s. append_string s = Some (drop i p) \<and> f s = Inr v)"
  unfolding read_last_string_iff [OF assms, symmetric] by (cases "read_last_string p i") simp_all

lemma decode_text_iff:
  "decode_text (tag # q) = Inr v \<longleftrightarrow> (\<exists>t. v = Terminal_Text t \<and> is_valid t \<and> append_string t = Some q)"
  unfolding decode_text_def by (subst last_string_case) (auto split: if_splits)

lemma decode_tagged_iff:
  "decode_tagged maximum build (tag # q) = Inr v \<longleftrightarrow>
     (\<exists>b s t. q = b # t \<and> \<not> b > maximum \<and> append_string s = Some t \<and> v = build b s)"
proof (cases q)
  case Nil
  then show ?thesis by (simp add: decode_tagged_def)
next
  case (Cons b t)
  have "decode_tagged maximum build (tag # q) = Inr v \<longleftrightarrow> \<not> b > maximum \<and> (\<exists>s. append_string s = Some t \<and> v = build b s)"
  proof (cases "length t < 4 \<or> b > maximum")
    case True
    then show ?thesis using append_string_length by (fastforce simp: decode_tagged_def Cons)
  next
    case False
    then show ?thesis unfolding decode_tagged_def by (auto simp: Cons last_string_case)
  qed
  then show ?thesis using Cons by auto
qed

lemma decode_focus_iff: "decode_focus (tag # q) = Inr v \<longleftrightarrow> (\<exists>f. v = Terminal_Focus f \<and> q = [if f then 1 else 0])"
proof (cases q)
  case Nil
  then show ?thesis by (simp add: decode_focus_def)
next
  case (Cons b t)
  then show ?thesis using bool_byte [of b] by (auto simp: decode_focus_def)
qed

text \<open>The fixed fields behind the tag.\<close>

lemma response_fields: "10 \<le> length p \<Longrightarrow> drop 1 p = p ! 1 # append_u32 (read_u32 p 2) @ drop 6 p"
  using drop_byte [of 1 p] drop_u32 [of 2 p] by (simp add: eval_nat_numeral)

lemma mouse_fields:
  "length p = 13 \<Longrightarrow>
    drop 1 p = append_u32 (read_u32 p 1) @ append_u32 (read_u32 p 5) @ p ! 9 # p ! 10 # append_u16 (read_u16 p 11)"
  using drop_u32 [of 1 p] drop_u32 [of 5 p] drop_byte [of 9 p] drop_byte [of 10 p] drop_u16 [of 11 p] by simp

lemma scroll_fields:
  "length p = 19 \<Longrightarrow> drop 1 p = append_u32 (read_u32 p 1) @ append_u32 (read_u32 p 5) @ append_u32 (read_u32 p 9) @
    append_u32 (read_u32 p 13) @ append_u16 (read_u16 p 17)"
  using drop_u32 [of 1 p] drop_u32 [of 5 p] drop_u32 [of 9 p] drop_u32 [of 13 p] drop_u16 [of 17 p] by simp

lemma decode_command_iff:
  "decode_command (tag # q) = Inr v \<longleftrightarrow> (\<exists>c. v = Terminal_Command c \<and> \<not> c > 11 \<and> q = append_u16 c)"
proof (cases "length q = 2")
  case True
  then have "q = append_u16 (read_u16 (tag # q) 1)" using drop_u16 [of 1 "tag # q"] by simp
  then show ?thesis using True append_u16_inj by (auto simp: decode_command_def Let_def)
next
  case False
  then show ?thesis by (auto simp: decode_command_def)
qed

lemma decode_response_iff:
  "decode_response (tag # q) = Inr v \<longleftrightarrow>
     (\<exists>k w s t. v = Terminal_Response k w s \<and> \<not> k > 5 \<and> append_string s = Some t \<and> q = k # append_u32 w @ t)"
proof (cases "length q < 9")
  case True
  then show ?thesis by (auto simp: decode_response_def dest: append_string_length)
next
  case False
  define p where "p = tag # q"
  have p: "10 \<le> length p" "q = drop 1 p" using False by (auto simp: p_def)
  have "q = k # append_u32 w @ t \<longleftrightarrow> k = p ! 1 \<and> w = read_u32 p 2 \<and> t = drop 6 p" for k w t
    unfolding p(2) response_fields [OF p(1)] by auto
  then show ?thesis unfolding p_def [symmetric] decode_response_def using p(1) by (auto simp: last_string_case)
qed

lemma decode_mouse_iff:
  "decode_mouse (tag # q) = Inr v \<longleftrightarrow> (\<exists>x y b a m. v = Terminal_Mouse x y b a m \<and> \<not> b > 7 \<and> \<not> a > 3 \<and> known_modifiers m \<and>
     q = append_u32 x @ append_u32 y @ b # a # append_u16 m)"
proof (cases "length q = 12")
  case True
  define p where "p = tag # q"
  have p: "length p = 13" "q = drop 1 p" using True by (auto simp: p_def)
  have "q = append_u32 x @ append_u32 y @ b # a # append_u16 m \<longleftrightarrow>
      x = read_u32 p 1 \<and> y = read_u32 p 5 \<and> b = p ! 9 \<and> a = p ! 10 \<and> m = read_u16 p 11" for x y b a m
    unfolding p(2) mouse_fields [OF p(1)] by auto
  then show ?thesis unfolding p_def [symmetric] using p(1) by (auto simp: decode_mouse_def Let_def)
next
  case False
  then show ?thesis by (auto simp: decode_mouse_def)
qed

lemma decode_scroll_iff:
  "decode_scroll (tag # q) = Inr v \<longleftrightarrow> (\<exists>x y dx dy m. v = Terminal_Scroll x y dx dy m \<and> known_modifiers m \<and>
     q = append_u32 x @ append_u32 y @ append_u32 dx @ append_u32 dy @ append_u16 m)"
proof (cases "length q = 18")
  case True
  define p where "p = tag # q"
  have p: "length p = 19" "q = drop 1 p" using True by (auto simp: p_def)
  have "q = append_u32 x @ append_u32 y @ append_u32 dx @ append_u32 dy @ append_u16 m \<longleftrightarrow>
      x = read_u32 p 1 \<and> y = read_u32 p 5 \<and> dx = read_u32 p 9 \<and> dy = read_u32 p 13 \<and> m = read_u16 p 17" for x y dx dy m
    unfolding p(2) scroll_fields [OF p(1)] by auto
  then show ?thesis unfolding p_def [symmetric] using p(1) by (auto simp: decode_scroll_def Let_def)
next
  case False
  then show ?thesis by (auto simp: decode_scroll_def)
qed

lemma read_optional_iff:
  assumes "i \<le> length p"
  shows "read_optional p i present = Some (x, j) \<longleftrightarrow>
    present = (x \<noteq> None) \<and> j = i + length (append_optional x) \<and> j \<le> length p \<and> drop i p = append_optional x @ drop j p"
proof (cases present)
  case False
  then show ?thesis using assms by (cases x) (auto simp: read_optional_def)
next
  case True
  show ?thesis
  proof (cases "i + 4 \<le> length p")
    case True
    have "drop i p = append_u32 c @ drop (i + 4) p \<longleftrightarrow> read_u32 p i = c" for c unfolding drop_u32 [OF True] by auto
    note this [simp]
    show ?thesis using \<open>present\<close> True by (cases x) (auto simp: read_optional_def)
  next
    case False
    then show ?thesis using \<open>present\<close> by (cases x) (auto simp: read_optional_def)
  qed
qed

lemma key_fields:
  "10 \<le> length p \<Longrightarrow>
    drop 1 p = p ! 1 # append_u32 (read_u32 p 2) @ append_u16 (read_u16 p 6) @ p ! 8 # p ! 9 # drop 10 p"
  using drop_byte [of 1 p] drop_u32 [of 2 p] drop_u16 [of 6 p] drop_byte [of 8 p] drop_byte [of 9 p] by (simp add: eval_nat_numeral)

text \<open>The fields of a key event behind its tag, before its text.\<close>

definition key_prefix :: "terminal_key_event \<Rightarrow> bytes" where
  "key_prefix e = (if key_named e then 1 else 0) # append_u32 (key_value e) @ append_u16 (key_modifier_bits e) @
     key_action_byte e # option_bits e # append_optional (key_shifted e) @ append_optional (key_base_layout e)"

lemma decode_key_options:
  assumes "10 \<le> length p"
  shows "decode_key p = Inr v \<longleftrightarrow> (\<exists>x y t r. drop 10 p = append_optional x @ append_optional y @ r \<and> append_string t = Some r \<and>
    \<not> p ! 1 > 1 \<and> \<not> p ! 9 > 3 \<and> (p ! 9 AND 1 \<noteq> 0) = (x \<noteq> None) \<and> (p ! 9 AND 2 \<noteq> 0) = (y \<noteq> None) \<and>
    (let e = \<lparr>key_named = (p ! 1 \<noteq> 0), key_value = read_u32 p 2, key_modifier_bits = read_u16 p 6, key_action_byte = p ! 8,
        key_shifted = x, key_base_layout = y, key_utf8 = t\<rparr> in valid_key e \<and> v = Terminal_Key e))" (is "_ \<longleftrightarrow> ?R")
proof
  assume d: "decode_key p = Inr v"
  then obtain x j1 y j2 t where x: "read_optional p 10 (p ! 9 AND 1 \<noteq> 0) = Some (x, j1)"
    and y: "read_optional p j1 (p ! 9 AND 2 \<noteq> 0) = Some (y, j2)" and t: "read_last_string p j2 = Some t"
    unfolding decode_key_def by (auto split: if_splits option.splits)
  note ix = x [unfolded read_optional_iff [OF assms]]
  then have j1: "j1 \<le> length p" by blast
  note iy = y [unfolded read_optional_iff [OF j1]]
  then have j2: "j2 \<le> length p" by blast
  have "drop 10 p = append_optional x @ append_optional y @ drop j2 p" using ix iy by metis
  moreover have "append_string t = Some (drop j2 p)" using t read_last_string_iff [OF j2] by blast
  moreover have "\<not> p ! 1 > 1" "\<not> p ! 9 > 3" using d by (auto simp: decode_key_def split: if_splits)
  moreover have "let e = \<lparr>key_named = (p ! 1 \<noteq> 0), key_value = read_u32 p 2, key_modifier_bits = read_u16 p 6, key_action_byte = p ! 8,
        key_shifted = x, key_base_layout = y, key_utf8 = t\<rparr> in valid_key e \<and> v = Terminal_Key e"
    using d unfolding decode_key_def x y t by (auto simp: x y t Let_def split: if_splits)
  ultimately show ?R using ix iy by blast
next
  assume ?R
  then obtain x y t r where d: "drop 10 p = append_optional x @ append_optional y @ r" and t: "append_string t = Some r"
    and b: "\<not> p ! 1 > 1" "\<not> p ! 9 > 3" "(p ! 9 AND 1 \<noteq> 0) = (x \<noteq> None)" "(p ! 9 AND 2 \<noteq> 0) = (y \<noteq> None)"
    and e: "valid_key \<lparr>key_named = (p ! 1 \<noteq> 0), key_value = read_u32 p 2, key_modifier_bits = read_u16 p 6, key_action_byte = p ! 8,
        key_shifted = x, key_base_layout = y, key_utf8 = t\<rparr>"
      "v = Terminal_Key \<lparr>key_named = (p ! 1 \<noteq> 0), key_value = read_u32 p 2, key_modifier_bits = read_u16 p 6, key_action_byte = p ! 8,
        key_shifted = x, key_base_layout = y, key_utf8 = t\<rparr>"
    unfolding Let_def by blast
  define j1 where "j1 = 10 + length (append_optional x)"
  define j2 where "j2 = j1 + length (append_optional y)"
  have len: "length p = j2 + length r" using arg_cong [OF d, of length] assms by (simp add: j1_def j2_def)
  have d1: "drop j1 p = append_optional y @ r" using d unfolding j1_def by (metis append_eq_conv_conj drop_drop add.commute)
  then have d2: "drop j2 p = r" unfolding j2_def by (metis append_eq_conv_conj drop_drop add.commute)
  have "read_optional p 10 (p ! 9 AND 1 \<noteq> 0) = Some (x, j1)"
    unfolding read_optional_iff [OF assms] using b(3) d d1 len by (simp add: j1_def [symmetric] j2_def)
  moreover have "read_optional p j1 (p ! 9 AND 2 \<noteq> 0) = Some (y, j2)"
    using b(4) d1 d2 len by (subst read_optional_iff) (auto simp: j2_def)
  moreover have "read_last_string p j2 = Some t" using read_last_string_iff [of j2 p t] t d2 len by simp
  ultimately show "decode_key p = Inr v" using b(1,2) e assms by (simp add: decode_key_def Let_def)
qed

lemma decode_key_iff:
  "decode_key (tag # q) = Inr v \<longleftrightarrow>
     (\<exists>e t. v = Terminal_Key e \<and> valid_key e \<and> append_string (key_utf8 e) = Some t \<and> q = key_prefix e @ t)"
proof (cases "length q < 9")
  case True
  then show ?thesis by (auto simp: decode_key_def key_prefix_def dest: append_string_length)
next
  case False
  define p where "p = tag # q"
  have p: "10 \<le> length p" "q = drop 1 p" using False by (auto simp: p_def)
  have q: "q = key_prefix e @ t \<longleftrightarrow> \<not> p ! 1 > 1 \<and> key_named e = (p ! 1 \<noteq> 0) \<and> read_u32 p 2 = key_value e \<and>
      read_u16 p 6 = key_modifier_bits e \<and> p ! 8 = key_action_byte e \<and> \<not> p ! 9 > 3 \<and>
      (key_shifted e \<noteq> None) = (p ! 9 AND 1 \<noteq> 0) \<and> (key_base_layout e \<noteq> None) = (p ! 9 AND 2 \<noteq> 0) \<and>
      drop 10 p = append_optional (key_shifted e) @ append_optional (key_base_layout e) @ t" for e t
    unfolding p(2) key_fields [OF p(1)] key_prefix_def option_bits_def
    using bool_byte [of "p ! 1" "key_named e"] option_byte [of "p ! 9" "key_shifted e \<noteq> None" "key_base_layout e \<noteq> None"]
    by simp
  show ?thesis (is "_ \<longleftrightarrow> ?R")
  proof
    assume "decode_key (tag # q) = Inr v"
    then obtain e t where "v = Terminal_Key e" "valid_key e" "append_string (key_utf8 e) = Some t" "q = key_prefix e @ t"
      unfolding p_def [symmetric] decode_key_options [OF p(1)] q Let_def by fastforce
    then show ?R by blast
  next
    assume ?R
    then obtain e t where e: "v = Terminal_Key e" "valid_key e" "append_string (key_utf8 e) = Some t" "q = key_prefix e @ t" by blast
    obtain n k m a x y u where "e = \<lparr>key_named = n, key_value = k, key_modifier_bits = m, key_action_byte = a, key_shifted = x,
        key_base_layout = y, key_utf8 = u\<rparr>" by (cases e) blast
    then show "decode_key (tag # q) = Inr v"
      unfolding p_def [symmetric] decode_key_options [OF p(1)] Let_def using e(1-3) e(4) [unfolded q] by auto
  qed
qed


lemma terminal_errors:
  "encode_terminal_event v = Inl e \<Longrightarrow> e = PAYLOAD_ENCODING_FAILED" "decode_terminal_event p = Inl e \<Longrightarrow> e = MALFORMED_PAYLOAD"
proof -
  show "e = PAYLOAD_ENCODING_FAILED" if "encode_terminal_event v = Inl e"
    using that by (cases v) (auto simp: with_string_def split: if_splits option.splits)
  have "decode_key p = Inl e \<Longrightarrow> e = MALFORMED_PAYLOAD" "decode_tagged m build p = Inl e \<Longrightarrow> e = MALFORMED_PAYLOAD" for m build
    by (auto simp: decode_key_def decode_tagged_def Let_def split: if_splits option.splits)
  moreover have "decode_text p = Inl e \<Longrightarrow> e = MALFORMED_PAYLOAD" "decode_mouse p = Inl e \<Longrightarrow> e = MALFORMED_PAYLOAD"
    "decode_scroll p = Inl e \<Longrightarrow> e = MALFORMED_PAYLOAD" "decode_focus p = Inl e \<Longrightarrow> e = MALFORMED_PAYLOAD"
    "decode_command p = Inl e \<Longrightarrow> e = MALFORMED_PAYLOAD" "decode_response p = Inl e \<Longrightarrow> e = MALFORMED_PAYLOAD"
    by (auto simp: decode_text_def decode_mouse_def decode_scroll_def decode_focus_def decode_command_def decode_response_def
        Let_def split: if_splits option.splits)
  ultimately show "e = MALFORMED_PAYLOAD" if "decode_terminal_event p = Inl e"
    using that unfolding decode_terminal_event_def Let_def by (metis sum.inject(1))
qed

lemmas decode_event_iffs = decode_key_iff decode_text_iff decode_mouse_iff decode_scroll_iff decode_tagged_iff decode_focus_iff
  decode_command_iff decode_response_iff

interpretation terminal_codec: payload_codec encode_terminal_event decode_terminal_event
proof unfold_locales
  fix p v and e :: msg_status
  show "decode_terminal_event p = Inr v \<longleftrightarrow> encode_terminal_event v = Inr p"
  proof (cases p)
    case Nil
    then show ?thesis by (cases v) (auto simp: decode_terminal_event_def with_string_Inr)
  next
    case (Cons tag q)
    show ?thesis unfolding Cons
    proof (cases v)
      case (Terminal_Key k)
      then show "decode_terminal_event (tag # q) = Inr v \<longleftrightarrow> encode_terminal_event v = Inr (tag # q)"
        by (simp add: decode_terminal_event_def decode_event_iffs with_string_Inr key_prefix_def)
    qed (auto simp: decode_terminal_event_def decode_event_iffs with_string_Inr)
  qed
qed (fact terminal_errors)+


section \<open>The registry\<close>

text \<open>
  The codecs of the repository, one for each message type, and the values they carry. The value
  type \<open>T\<close> of a typed call is named by its codec.
\<close>

datatype codec = Null_Codec | Screen_Command_Codec | Screen_Resize_Codec | Notification_Codec | Terminal_Input_Codec

datatype message_value =
    Null_Value
  | Screen_Command_Value screen_command
  | Screen_Resize_Value screen_resize_event
  | Notification_Value bytes
  | Terminal_Input_Value terminal_input_event

fun codec_message_id :: "codec \<Rightarrow> message_id" where
  "codec_message_id Null_Codec = NULL_MESSAGE"
| "codec_message_id Screen_Command_Codec = SCREEN_COMMAND"
| "codec_message_id Screen_Resize_Codec = SCREEN_RESIZE_EVENT"
| "codec_message_id Notification_Codec = CMD_FRAME_NOTIFICATION"
| "codec_message_id Terminal_Input_Codec = TERMINAL_INPUT_EVENT"

fun value_codec :: "message_value \<Rightarrow> codec" where
  "value_codec Null_Value = Null_Codec"
| "value_codec (Screen_Command_Value _) = Screen_Command_Codec"
| "value_codec (Screen_Resize_Value _) = Screen_Resize_Codec"
| "value_codec (Notification_Value _) = Notification_Codec"
| "value_codec (Terminal_Input_Value _) = Terminal_Input_Codec"

fun codec_serialize :: "message_value \<Rightarrow> msg_status + bytes" where
  "codec_serialize Null_Value = encode_null ()"
| "codec_serialize (Screen_Command_Value v) = encode_screen_command v"
| "codec_serialize (Screen_Resize_Value v) = encode_resize v"
| "codec_serialize (Notification_Value v) = encode_notification v"
| "codec_serialize (Terminal_Input_Value v) = encode_terminal_event v"

fun codec_deserialize :: "codec \<Rightarrow> bytes \<Rightarrow> msg_status + message_value" where
  "codec_deserialize Null_Codec p = map_sum id (\<lambda>_. Null_Value) (decode_null p)"
| "codec_deserialize Screen_Command_Codec p = map_sum id Screen_Command_Value (decode_screen_command p)"
| "codec_deserialize Screen_Resize_Codec p = map_sum id Screen_Resize_Value (decode_resize p)"
| "codec_deserialize Notification_Codec p = map_sum id Notification_Value (decode_notification p)"
| "codec_deserialize Terminal_Input_Codec p = map_sum id Terminal_Input_Value (decode_terminal_event p)"

subsection \<open>JSON\<close>

definition kHex :: string where "kHex = ''0123456789abcdef''"

definition hex_text :: "bytes \<Rightarrow> string" where
  "hex_text bs = concat (map (\<lambda>b. [kHex ! unat (drop_bit 4 b), kHex ! unat (b AND 0x0f)]) bs)"

fun json_decimal :: "nat \<Rightarrow> string" where
  "json_decimal n = (if n < 10 then [] else json_decimal (n div 10)) @ [kHex ! (n mod 10)]"

declare json_decimal.simps [simp del]

fun screen_command_json :: \<open>screen_command \<Rightarrow> string\<close> where
  \<open>screen_command_json (Screen_Take initial final) =
     ''{"type":"take","initial_bytes_hex":"'' @ hex_text initial @ ''","final_bytes_hex":"'' @ hex_text final @ ''"}''\<close>
| \<open>screen_command_json Screen_Release = ''{"type":"release"}''\<close>
| \<open>screen_command_json (Screen_Set_Clipboard selection t) =
     ''{"type":"set_clipboard","selection":"'' @ (if selection = SCREEN_PRIMARY then ''primary'' else ''clipboard'') @
     ''","text_hex":"'' @ hex_text t @ ''"}''\<close>
| \<open>screen_command_json (Screen_Present bs) = ''{"type":"present","bytes_hex":"'' @ hex_text bs @ ''"}''\<close>

definition resize_json :: \<open>screen_resize_event \<Rightarrow> string\<close> where
  \<open>resize_json e = ''{"width":'' @ json_decimal (unat (resize_width e)) @ '',"height":'' @ json_decimal (unat (resize_height e)) @
     '',"pixel_width":'' @ json_decimal (unat (resize_pixel_width e)) @ '',"pixel_height":'' @
     json_decimal (unat (resize_pixel_height e)) @ ''}''\<close>

definition notification_json :: \<open>bytes \<Rightarrow> string\<close> where
  \<open>notification_json t = ''{"text_hex":"'' @ hex_text t @ ''"}''\<close>

fun terminal_input_event_name :: "terminal_input_event \<Rightarrow> string" where
  "terminal_input_event_name (Terminal_Key _) = ''key''"
| "terminal_input_event_name (Terminal_Text _) = ''text''"
| "terminal_input_event_name (Terminal_Mouse _ _ _ _ _) = ''mouse''"
| "terminal_input_event_name (Terminal_Scroll _ _ _ _ _) = ''scroll''"
| "terminal_input_event_name (Terminal_Paste _ _) = ''paste''"
| "terminal_input_event_name (Terminal_Focus _) = ''focus''"
| "terminal_input_event_name (Terminal_Clipboard _ _) = ''clipboard''"
| "terminal_input_event_name (Terminal_Command _) = ''command''"
| "terminal_input_event_name (Terminal_Response _ _ _) = ''response''"
| "terminal_input_event_name (Terminal_Unknown _ _) = ''unknown''"

definition terminal_input_json :: \<open>terminal_input_event \<Rightarrow> string\<close> where
  \<open>terminal_input_json e = ''{"type":"'' @ terminal_input_event_name e @ ''"}''\<close>

fun to_json :: "message_value \<Rightarrow> string" where
  "to_json Null_Value = ''{}''"
| "to_json (Screen_Command_Value v) = screen_command_json v"
| "to_json (Screen_Resize_Value v) = resize_json v"
| "to_json (Notification_Value v) = notification_json v"
| "to_json (Terminal_Input_Value v) = terminal_input_json v"

subsection \<open>Dispatch\<close>

record codec_collection =
  payload_limit :: nat
  codecs :: "message_id \<rightharpoonup> codec"

definition new_collection :: "nat \<Rightarrow> codec_collection" where
  "new_collection maximum = \<lparr>payload_limit = maximum, codecs = [NULL_MESSAGE \<mapsto> Null_Codec]\<rparr>"

text \<open>\<open>None\<close> is a null pointer.\<close>

definition register_codec :: "codec option \<Rightarrow> codec_collection \<Rightarrow> codec_collection \<times> msg_status" where
  "register_codec candidate c =
     (case candidate of None \<Rightarrow> (c, MSG_INVALID_ARGUMENT)
      | Some k \<Rightarrow>
          if codecs c (codec_message_id k) \<noteq> None then (c, DUPLICATE_MESSAGE_ID)
          else (c\<lparr>codecs := (codecs c)(codec_message_id k \<mapsto> k)\<rparr>, MSG_OK))"

definition register_terminal_codecs :: "codec_collection \<Rightarrow> codec_collection \<times> msg_status" where
  "register_terminal_codecs c = register_codec (Some Terminal_Input_Codec) c"

definition register_cmdframe_codecs :: "codec_collection \<Rightarrow> codec_collection \<times> msg_status" where
  "register_cmdframe_codecs c = register_codec (Some Notification_Codec) c"

definition register_screen_codecs :: "codec_collection \<Rightarrow> codec_collection \<times> msg_status" where
  "register_screen_codecs c =
     (case register_codec (Some Screen_Command_Codec) c of (c', st) \<Rightarrow>
        if st \<noteq> MSG_OK then (c', st) else register_codec (Some Screen_Resize_Codec) c')"

definition get_codec :: "message_id \<Rightarrow> codec \<Rightarrow> codec_collection \<Rightarrow> msg_status + codec" where
  "get_codec i wanted c =
     (case codecs c i of None \<Rightarrow> Inl MESSAGE_ID_NOT_FOUND
      | Some k \<Rightarrow> if k = wanted then Inr k else Inl CODEC_TYPE_MISMATCH)"

definition collection_serialize :: "message_id \<Rightarrow> message_value \<Rightarrow> codec_collection \<Rightarrow> msg_status + bytes" where
  "collection_serialize i v c = (case get_codec i (value_codec v) c of Inl st \<Rightarrow> Inl st | Inr _ \<Rightarrow> codec_serialize v)"

definition collection_deserialize :: "message_id \<Rightarrow> codec \<Rightarrow> bytes \<Rightarrow> codec_collection \<Rightarrow> msg_status + message_value" where
  "collection_deserialize i wanted payload c =
     (case get_codec i wanted c of Inl st \<Rightarrow> Inl st | Inr k \<Rightarrow> codec_deserialize k payload)"

definition decode_payload_to_json :: "message_id \<Rightarrow> bytes \<Rightarrow> codec_collection \<Rightarrow> msg_status \<times> string" where
  "decode_payload_to_json i payload c =
     (case codecs c i of None \<Rightarrow> (MESSAGE_ID_NOT_FOUND, [])
      | Some k \<Rightarrow> (case codec_deserialize k payload of Inl st \<Rightarrow> (st, []) | Inr v \<Rightarrow> (MSG_OK, to_json v)))"

text \<open>The status, the text and what \<open>data\<close> views afterwards.\<close>

definition decode_to_json :: "(bytes \<Rightarrow> bytes) \<Rightarrow> bytes \<Rightarrow> codec_collection \<Rightarrow> msg_status \<times> string \<times> bytes" where
  "decode_to_json sha256 data c =
     (case deserialize_message sha256 data (payload_limit c) of
        Inl st \<Rightarrow> (if st = TRUNCATED_MESSAGE then INCOMPLETE_IPC_MESSAGE else INVALID_IPC_MESSAGE, [], data)
      | Inr (m, consumed) \<Rightarrow>
          (case decode_payload_to_json (dec_message_id m) (dec_payload m) c of (st, output) \<Rightarrow>
             if st \<noteq> MSG_OK then (st, output, data) else (MSG_OK, output, drop consumed data)))"

lemma map_sum_Inr: "map_sum id f x = Inr w \<longleftrightarrow> (\<exists>y. x = Inr y \<and> w = f y)"
  by (cases x) auto

lemma codec_canonical: "codec_deserialize (value_codec v) p = Inr v \<longleftrightarrow> codec_serialize v = Inr p"
  by (cases v) (simp_all add: map_sum_Inr null_codec.canonical screen_codec.canonical resize_codec.canonical
      notification_codec.canonical terminal_codec.canonical)

lemma codec_values: "codec_deserialize k p = Inr v \<Longrightarrow> value_codec v = k"
  by (cases k) (auto simp: map_sum_Inr)


section \<open>Properties\<close>

text \<open>
  The payload schemas are canonical. In every collection and under every identifier, a value is
  serialised to a payload exactly if that payload is deserialised, at the value's type, to that
  value. So nothing is lost in transport, no two payloads mean the same value, and a payload with
  trailing bytes, an unknown tag, an invalid enumerator, scalar or UTF-8 text is never accepted,
  for all five message types.
\<close>

lemma payloads_canonical:
  "collection_serialize i v c = Inr p \<longleftrightarrow> collection_deserialize i (value_codec v) p c = Inr v"
  unfolding collection_serialize_def collection_deserialize_def
  by (auto simp: get_codec_def codec_canonical split: option.splits)

lemma json_of_payload:
  assumes "collection_serialize i v c = Inr p"
  shows "decode_payload_to_json i p c = (MSG_OK, to_json v)"
proof -
  have "codecs c i = Some (value_codec v)" "codec_serialize v = Inr p"
    using assms by (auto simp: collection_serialize_def get_codec_def split: option.splits if_splits)
  then show ?thesis using codec_canonical [of v p] by (simp add: decode_payload_to_json_def)
qed

text \<open>
  Generic dispatch of a stream. When a typed value is serialised and sent in an envelope, the
  diagnostic decoder finds its codec by the identifier in the header, renders that value, and leaves
  exactly the bytes behind the envelope; cut anywhere, the same bytes are reported incomplete, with
  no text and the input left in place.
\<close>

lemma json_dispatch:
  assumes m: "valid_message (payload_limit c) m" and sha: "\<forall>x. length (sha256 x) = 32"
    and v: "collection_serialize (msg_message_id m) v c = Inr (msg_payload m)"
  shows "\<exists>output. serialize_message sha256 m (payload_limit c) = Inr output \<and>
    (\<forall>rest. decode_to_json sha256 (output @ rest) c = (MSG_OK, to_json v, rest)) \<and>
    (\<forall>k < length output. decode_to_json sha256 (take k output) c = (INCOMPLETE_IPC_MESSAGE, [], take k output))"
proof -
  have s: "serialize_message sha256 m (payload_limit c) = Inr (encode_message sha256 m)" by (rule serialize_valid [OF m])
  have "dec_message_id (view_message sha256 m) = msg_message_id m" "dec_payload (view_message sha256 m) = msg_payload m"
    by (simp_all add: view_message_def view_header_def)
  then have "decode_to_json sha256 (encode_message sha256 m @ rest) c = (MSG_OK, to_json v, rest)" for rest
    using deserialize_encoded [OF m sha, of rest] json_of_payload [OF v] by (simp add: decode_to_json_def)
  moreover have "decode_to_json sha256 (take k (encode_message sha256 m)) c = (INCOMPLETE_IPC_MESSAGE, [], take k (encode_message sha256 m))"
    if "k < length (encode_message sha256 m)" for k
    using deserialize_cut [OF m sha that] by (simp add: decode_to_json_def)
  ultimately show ?thesis using s by blast
qed

definition sample_collection :: codec_collection where
  "sample_collection = fst (register_cmdframe_codecs (fst (register_screen_codecs (new_collection 100))))"

definition sample_notice :: message where
  "sample_notice = ping\<lparr>msg_message_id := CMD_FRAME_NOTIFICATION, msg_payload := [0x68, 0x69]\<rparr>"

end
