(* ===== verification/Terminal_Event.thy ===== *)
theory Terminal_Event
  imports Prelude
begin

text \<open>
  \<open>puc-cli/tui/terminal/event.hpp\<close>: the events that the terminal decoder emits and the
  text editor consumes.
\<close>

unbundle bit_operations_syntax

section \<open>Keys\<close>

text \<open>
  The 111 enumerators of \<open>NamedKey\<close>, by family: \<open>FUNCTION_KEY n\<close> is \<open>Fn\<close> (\<open>n\<close> from 1 to 35) and
  \<open>KEYPAD_DIGIT n\<close> is \<open>KEYPAD_n\<close> (\<open>n\<close> from 0 to 9).
\<close>

datatype keypad_key = KEYPAD_DIGIT nat | KEYPAD_DECIMAL | KEYPAD_DIVIDE | KEYPAD_MULTIPLY | KEYPAD_SUBTRACT
  | KEYPAD_ADD | KEYPAD_ENTER | KEYPAD_EQUAL | KEYPAD_SEPARATOR | KEYPAD_LEFT | KEYPAD_RIGHT | KEYPAD_UP
  | KEYPAD_DOWN | KEYPAD_PAGE_UP | KEYPAD_PAGE_DOWN | KEYPAD_HOME | KEYPAD_END | KEYPAD_INSERT
  | KEYPAD_DELETE | KEYPAD_BEGIN

datatype media_key = MEDIA_PLAY | MEDIA_PAUSE | MEDIA_PLAY_PAUSE | MEDIA_REVERSE | MEDIA_STOP
  | MEDIA_FAST_FORWARD | MEDIA_REWIND | MEDIA_TRACK_NEXT | MEDIA_TRACK_PREVIOUS | MEDIA_RECORD
  | VOLUME_DOWN | VOLUME_UP | VOLUME_MUTE

datatype modifier_key = LEFT_SHIFT | LEFT_CONTROL | LEFT_ALT | LEFT_SUPER | LEFT_HYPER | LEFT_META
  | RIGHT_SHIFT | RIGHT_CONTROL | RIGHT_ALT | RIGHT_SUPER | RIGHT_HYPER | RIGHT_META
  | ISO_LEVEL3_SHIFT | ISO_LEVEL5_SHIFT

datatype named_key = ESCAPE | ENTER | TAB | BACKSPACE | INSERT | DELETE_KEY | LEFT | RIGHT | UP | DOWN
  | PAGE_UP | PAGE_DOWN | HOME | END | CAPS_LOCK | SCROLL_LOCK | NUM_LOCK | PRINT_SCREEN | PAUSE | MENU
  | FUNCTION_KEY nat | Keypad keypad_key | Media media_key | Modifier_Key modifier_key

text \<open>\<open>std::variant<NamedKey, char32_t>\<close>.\<close>

datatype key_code = Named named_key | Character u32

datatype modifier = SHIFT | ALT | CONTROL | SUPER | HYPER | META | CAPS_LOCK_ON | NUM_LOCK_ON

fun modifier_bit :: "modifier \<Rightarrow> u16" where
  "modifier_bit SHIFT = 1"
| "modifier_bit ALT = 2"
| "modifier_bit CONTROL = 4"
| "modifier_bit SUPER = 8"
| "modifier_bit HYPER = 16"
| "modifier_bit META = 32"
| "modifier_bit CAPS_LOCK_ON = 64"
| "modifier_bit NUM_LOCK_ON = 128"

type_synonym modifiers = u16

definition contains_modifier :: "modifiers \<Rightarrow> modifier \<Rightarrow> bool" where
  "contains_modifier bits m \<longleftrightarrow> bits AND modifier_bit m \<noteq> 0"

definition add_modifier :: "modifiers \<Rightarrow> modifier \<Rightarrow> modifiers" where
  "add_modifier bits m = bits OR modifier_bit m"

datatype key_action = KEY_PRESS | KEY_REPEAT | KEY_RELEASE

record key_event =
  event_key :: key_code
  event_modifiers :: modifiers
  event_action :: key_action
  shifted_key :: "u32 option"
  base_layout_key :: "u32 option"
  event_text :: bytes

section \<open>Text, pointer, paste and clipboard\<close>

record text_event =
  text_utf8 :: bytes

record cell_position =
  cell_x :: nat
  cell_y :: nat

datatype mouse_button = NO_BUTTON | LEFT_BUTTON | MIDDLE_BUTTON | RIGHT_BUTTON
  | AUXILIARY_1 | AUXILIARY_2 | AUXILIARY_3 | AUXILIARY_4

datatype mouse_action = MOUSE_PRESS | MOUSE_RELEASE | MOUSE_MOVE | MOUSE_DRAG

record mouse_event =
  mouse_position :: cell_position
  mouse_button :: mouse_button
  mouse_action :: mouse_action
  mouse_modifiers :: modifiers

record scroll_event =
  scroll_position :: cell_position
  delta_x :: int
  delta_y :: int
  scroll_modifiers :: modifiers

datatype paste_phase = PASTE_BEGIN | PASTE_DATA | PASTE_END | PASTE_CANCEL

record paste_event =
  paste_phase :: paste_phase
  paste_data :: bytes

datatype clipboard_selection = CLIPBOARD | PRIMARY

datatype command = COPY | SELECT_ALL | ENTER_COMMAND_MODE | ENTER_TERMINAL_MODE
  | MOVE_WORD_LEFT | MOVE_WORD_RIGHT | MOVE_ROW_START | MOVE_ROW_END
  | MOVE_BUFFER_START | MOVE_BUFFER_END | MOVE_PAGE_UP | MOVE_PAGE_DOWN

datatype response_kind = KITTY_KEYBOARD_FLAGS | CURSOR_POSITION | DEVICE_ATTRIBUTES | MODE_REPORT
  | OPERATING_SYSTEM_COMMAND | DEVICE_CONTROL_STRING

datatype unknown_reason = UNSUPPORTED_SEQUENCE | MALFORMED_SEQUENCE | INVALID_UTF8
  | INCOMPLETE_SEQUENCE | LIMIT_EXCEEDED

text \<open>\<open>std::variant<KeyEvent, ..., UnknownEvent>\<close>.\<close>

datatype event =
    Key_Event key_event
  | Text_Event text_event
  | Mouse_Event mouse_event
  | Scroll_Event scroll_event
  | Paste_Event paste_event
  | Focus_Event bool
  | Clipboard_Event clipboard_selection bytes
  | Command_Event command
  | Response_Event response_kind u32 bytes
  | Unknown_Event unknown_reason bytes

section \<open>Modifier sets\<close>

lemma contains_add [simp]:
  "contains_modifier (add_modifier bits m) m' \<longleftrightarrow> contains_modifier bits m' \<or> m = m'"
proof -
  have "modifier_bit m AND modifier_bit m' = (if m = m' then modifier_bit m else 0)"
    by (cases m; cases m'; simp)
  then have "(bits OR modifier_bit m) AND modifier_bit m' =
      (bits AND modifier_bit m') OR (if m = m' then modifier_bit m else 0)"
    by (simp add: bit.conj_disj_distrib2)
  moreover have "modifier_bit m \<noteq> 0" by (cases m) simp_all
  ultimately show ?thesis by (auto simp: contains_modifier_def add_modifier_def or_eq_0_iff)
qed

lemma contains_none [simp]: "\<not> contains_modifier 0 m"
  by (simp add: contains_modifier_def)

end
