(* ===== verification/Clipboard.thy ===== *)
theory Clipboard
  imports Terminal_Event Utf8_Text
begin

text \<open>
  \<open>puc-cli/tui/terminal/clipboard.cpp\<close> and \<open>status.hpp\<close>: the Base64 payload of the OSC 52
  clipboard sequences. The accumulator of the decoder is a 32-bit word that shifts out its high
  bits, as the \<open>uint32_t\<close> of the source does.
\<close>

datatype term_status = TERM_OK | TERM_INVALID_ARGUMENT | ALREADY_ACTIVE | NOT_ACTIVE | TERMINAL_NOT_AVAILABLE
  | TERMINAL_CONFIG_FAILED | TERMINAL_QUERY_FAILED | TERMINAL_READ_FAILED | TERMINAL_WRITE_FAILED
  | CHANNEL_SETUP_FAILED | INPUT_LIMIT_EXCEEDED | OUTPUT_LIMIT_EXCEEDED | CONFIGURATION_LOAD_FAILED
  | CONFIGURATION_PARSE_FAILED | TERMINFO_LOAD_FAILED | TERM_UNSUPPORTED

section \<open>Base64\<close>

definition kBase64Alphabet :: bytes where
  "kBase64Alphabet = map of_nat ([65..<91] @ [97..<123] @ [48..<58] @ [43, 47])"

definition base64_value :: "u8 \<Rightarrow> u32 option" where
  "base64_value c =
     (if 0x41 \<le> c \<and> c \<le> 0x5a then Some (ucast c - 0x41)
      else if 0x61 \<le> c \<and> c \<le> 0x7a then Some (ucast c - 0x61 + 26)
      else if 0x30 \<le> c \<and> c \<le> 0x39 then Some (ucast c - 0x30 + 52)
      else if c = 0x2b then Some 62
      else if c = 0x2f then Some 63
      else None)"

definition base64_char :: "u32 \<Rightarrow> nat \<Rightarrow> u8" where
  "base64_char v shift = kBase64Alphabet ! unat (drop_bit shift v AND 0x3f)"

fun append_base64 :: "bytes \<Rightarrow> bytes" where
  "append_base64 (a # b # c # rest) =
     (let v = push_bit 16 (ucast a) OR push_bit 8 (ucast b) OR ucast c in
      [base64_char v 18, base64_char v 12, base64_char v 6, base64_char v 0] @ append_base64 rest)"
| "append_base64 [] = []"
| "append_base64 [a] =
     (let v = push_bit 16 (ucast a) in [base64_char v 18, base64_char v 12, 0x3d, 0x3d])"
| "append_base64 [a, b] =
     (let v = push_bit 16 (ucast a) OR push_bit 8 (ucast b) in
      [base64_char v 18, base64_char v 12, base64_char v 6, 0x3d])"

text \<open>The loop over the content: accumulator, number of bits in it, decoded bytes.\<close>

fun base64_loop :: "bytes \<Rightarrow> u32 \<times> nat \<times> bytes \<Rightarrow> (u32 \<times> nat \<times> bytes) option" where
  "base64_loop [] st = Some st"
| "base64_loop (c # cs) (accumulator, bit_count, decoded) =
     (case base64_value c of None \<Rightarrow> None
      | Some v \<Rightarrow>
          let acc = push_bit 6 accumulator OR v; bits = bit_count + 6 in
          if bits \<ge> 8 then base64_loop cs (acc, bits - 8, decoded @ [ucast (drop_bit (bits - 8) acc AND 0xff)])
          else base64_loop cs (acc, bits, decoded))"

definition decode_clipboard_payload :: "bytes \<Rightarrow> nat \<Rightarrow> term_status \<times> bytes option" where
  "decode_clipboard_payload encoded maximum_bytes =
     (let padding = length (takeWhile (\<lambda>c. c = 0x3d) (rev encoded)) in
      if padding > 2 then (TERM_INVALID_ARGUMENT, None)
      else let content_size = length encoded - padding; remainder = content_size mod 4 in
        if remainder = 1 \<or> (padding \<noteq> 0 \<and> length encoded mod 4 \<noteq> 0) \<or> (padding = 1 \<and> remainder \<noteq> 3) \<or>
           (padding = 2 \<and> remainder \<noteq> 2) then (TERM_INVALID_ARGUMENT, None)
        else let decoded_size = (content_size div 4) * 3 + (if remainder = 2 then 1 else 0) +
                   (if remainder = 3 then 2 else 0) in
          if decoded_size > maximum_bytes then (INPUT_LIMIT_EXCEEDED, None)
          else case base64_loop (take content_size encoded) (0, 0, []) of
              None \<Rightarrow> (TERM_INVALID_ARGUMENT, None)
            | Some (accumulator, bit_count, decoded) \<Rightarrow>
                if length decoded \<noteq> decoded_size \<or>
                   (bit_count \<noteq> 0 \<and> accumulator AND (push_bit bit_count 1 - 1) \<noteq> 0)
                then (TERM_INVALID_ARGUMENT, None)
                else (TERM_OK, Some decoded))"

section \<open>Requests\<close>

definition clipboard_selector :: "clipboard_selection \<Rightarrow> u8" where
  "clipboard_selector selection = (if selection = PRIMARY then 0x70 else 0x63)"

definition osc52_prefix :: "clipboard_selection \<Rightarrow> bytes" where
  "osc52_prefix selection = [0x1b, 0x5d, 0x35, 0x32, 0x3b, clipboard_selector selection, 0x3b]"

definition build_clipboard_write :: "clipboard_selection \<Rightarrow> bytes \<Rightarrow> nat \<Rightarrow> term_status \<times> bytes option" where
  "build_clipboard_write selection data maximum_bytes =
     (if length data > maximum_bytes then (OUTPUT_LIMIT_EXCEEDED, None)
      else if length data > (size_max - 2) div 3 then (OUTPUT_LIMIT_EXCEEDED, None)
      else if (length data + 2) div 3 * 4 > size_max - 9 then (OUTPUT_LIMIT_EXCEEDED, None)
      else (TERM_OK, Some (osc52_prefix selection @ append_base64 data @ [0x1b, 0x5c])))"

definition build_clipboard_query :: "clipboard_selection \<Rightarrow> bytes" where
  "build_clipboard_query selection = osc52_prefix selection @ [0x3f, 0x1b, 0x5c]"

section \<open>Round trip\<close>

lemma base64_value_char:
  assumes "i < 64"
  shows "base64_value (kBase64Alphabet ! i) = Some (of_nat i)" and "kBase64Alphabet ! i \<noteq> 0x3d"
proof -
  have "list_all (\<lambda>i. base64_value (kBase64Alphabet ! i) = Some (of_nat i) \<and> kBase64Alphabet ! i \<noteq> 0x3d) [0..<64]"
    by code_simp
  then show "base64_value (kBase64Alphabet ! i) = Some (of_nat i)" "kBase64Alphabet ! i \<noteq> 0x3d"
    using assms by (simp_all add: list_all_iff)
qed

lemma base64_char:
  "base64_value (base64_char v n) = Some (drop_bit n v AND 0x3f)" "base64_char v n \<noteq> 0x3d"
proof -
  have "drop_bit n v AND 0x3f < 64" using and_mask_less' [of 6 "drop_bit n v"] by (simp add: mask_eq_exp_minus_1)
  then have "unat (drop_bit n v AND 0x3f) < 64" by (simp add: word_less_nat_alt)
  then show "base64_value (base64_char v n) = Some (drop_bit n v AND 0x3f)" "base64_char v n \<noteq> 0x3d"
    unfolding base64_char_def by (simp_all add: base64_value_char)
qed

text \<open>Shifting six bits into the accumulator, in numbers.\<close>

lemma unat_shift_in:
  fixes x s :: u32
  assumes "unat s < 64"
  shows "unat (push_bit 6 x OR s) = (unat x mod 2 ^ 26) * 64 + unat s"
proof -
  have "push_bit 6 x = push_bit 6 (take_bit 26 x)" by (rule bit_word_eqI) (auto simp: bit_simps)
  moreover have "unat (take_bit 26 x) = unat x mod 2 ^ 26"
    using unsigned_take_bit_eq [of 26 x, where ?'a = nat] unfolding take_bit_eq_mod .
  ultimately show ?thesis using unat_push_or [of s 6 "take_bit 26 x"] assms by simp
qed

lemma unat_byte_at: "unat (ucast (drop_bit k w AND 0xff) :: u8) = unat w div 2 ^ k mod 256" for w :: u32
proof -
  have m: "(0xff :: u32) = mask 8" by (simp add: mask_eq_exp_minus_1)
  have "unat (drop_bit k w AND 0xff) = take_bit 8 (unat (drop_bit k w))"
    unfolding m take_bit_eq_mask [symmetric] unsigned_take_bit_eq ..
  then have "unat (drop_bit k w AND 0xff) = unat w div 2 ^ k mod 256" unfolding take_bit_eq_mod unat_drop by simp
  then show ?thesis unfolding unat_scalar_to_byte by simp
qed

lemma shifted_mod:
  fixes q r :: nat
  assumes "k \<in> {0, 2, 4}"
  shows "(q * 4096 + r) div 2 ^ k mod 256 = r div 2 ^ k mod 256"
proof -
  have "(q * 4096 + r) div 2 ^ k = r div 2 ^ k + (q * (4096 div (2 ^ k * 256))) * 256"
  proof -
    have "(4096 :: nat) = 4096 div (2 ^ k * 256) * 256 * 2 ^ k" using assms by auto
    then have "q * 4096 + r = r + (q * (4096 div (2 ^ k * 256)) * 256) * 2 ^ k" by (metis add.commute mult.assoc)
    then show ?thesis by (simp only: div_mult_self1 [of "2 ^ k"]) simp
  qed
  then show ?thesis by (simp only: mod_mult_self1)
qed

lemma mod_mod_small: "(n mod 2 ^ 26) mod 64 = n mod (64::nat)"
  by (simp add: mod_mod_cancel)

lemma shift_in_low: "unat s < 64 \<Longrightarrow> unat (push_bit 6 x OR s) mod 64 = unat s" for x s :: u32
  by (simp add: unat_shift_in)

lemma shift_out:
  fixes x s :: u32
  assumes s: "unat s < 64" and k: "k \<in> {0, 2, 4}"
  shows "unat (ucast (drop_bit k (push_bit 6 x OR s) AND 0xff) :: u8) = ((unat x mod 64) * 64 + unat s) div 2 ^ k mod 256"
proof -
  define z where "z = unat x mod 2 ^ 26"
  have z: "z mod 64 = unat x mod 64" unfolding z_def by (rule mod_mod_small)
  have "unat (ucast (drop_bit k (push_bit 6 x OR s) AND 0xff) :: u8) = (z * 64 + unat s) div 2 ^ k mod 256"
    unfolding unat_byte_at unat_shift_in [OF s] z_def ..
  moreover have "z * 64 + unat s = (z div 64) * 4096 + ((z mod 64) * 64 + unat s)"
    using div_mult_mod_eq [of z 64] by linarith
  ultimately have "unat (ucast (drop_bit k (push_bit 6 x OR s) AND 0xff) :: u8) =
      (z div 64 * 4096 + ((unat x mod 64) * 64 + unat s)) div 2 ^ k mod 256" unfolding z by simp
  also have "\<dots> = ((unat x mod 64) * 64 + unat s) div 2 ^ k mod 256" by (rule shifted_mod [OF k])
  finally show ?thesis .
qed

text \<open>Three bytes are four groups of six bits.\<close>

lemma unat_triple:
  fixes a b c :: u8
  shows "unat (push_bit 16 (ucast a) OR push_bit 8 (ucast b) OR (ucast c :: u32)) = unat a * 65536 + unat b * 256 + unat c"
proof -
  have lt: "unat x < 256" for x :: u8 using unsigned_less [of x, where ?'a = nat] by simp
  let ?ab = "push_bit 8 (ucast a) OR (ucast b :: u32)"
  have ab: "unat ?ab = unat (ucast a :: u32) * 2 ^ 8 + unat (ucast b :: u32)"
    by (rule unat_push_or) (use lt [of a] lt [of b] in \<open>simp_all only: unat_byte_to_scalar, simp_all\<close>)
  have "push_bit 16 (ucast a) OR push_bit 8 (ucast b) OR (ucast c :: u32) = push_bit 8 ?ab OR ucast c"
    by (simp add: push_bit_or or.assoc)
  moreover have "unat (push_bit 8 ?ab OR (ucast c :: u32)) = unat ?ab * 2 ^ 8 + unat (ucast c :: u32)"
    by (rule unat_push_or) (use lt [of a] lt [of b] lt [of c] in \<open>simp_all only: unat_byte_to_scalar ab, simp_all\<close>)
  ultimately show ?thesis by (simp only: ab unat_byte_to_scalar) (simp add: algebra_simps)
qed

lemma sextets:
  fixes a b c :: u8
  assumes v: "v = push_bit 16 (ucast a) OR push_bit 8 (ucast b) OR (ucast c :: u32)"
    and a: "unat a = 4 * a1 + a0" "a0 < 4" and b: "unat b = 16 * b1 + b0" "b0 < 16"
    and c: "unat c = 64 * c1 + c0" "c0 < 64"
  shows "unat (drop_bit 18 v AND 0x3f) = a1" "unat (drop_bit 12 v AND 0x3f) = 16 * a0 + b1"
    "unat (drop_bit 6 v AND 0x3f) = 4 * b0 + c1" "unat (drop_bit 0 v AND 0x3f) = c0"
    "a1 < 64" "b1 < 16" "c1 < 4"
proof -
  have lt: "unat x < 256" for x :: u8 using unsigned_less [of x, where ?'a = nat] by simp
  show r: "a1 < 64" "b1 < 16" "c1 < 4" using lt [of a] lt [of b] lt [of c] a b c by linarith+
  have n: "unat v = a1 * 262144 + (16 * a0 + b1) * 4096 + (4 * b0 + c1) * 64 + c0"
    unfolding v unat_triple a(1) b(1) c(1) by (simp add: algebra_simps)
  have s: "16 * a0 + b1 \<le> 63" "4 * b0 + c1 \<le> 63" using r a b by linarith+
  define x where "x = 16 * a0 + b1"
  define y where "y = 4 * b0 + c1"
  have n': "unat v = a1 * 262144 + x * 4096 + y * 64 + c0" "x \<le> 63" "y \<le> 63" using n s by (simp_all add: x_def y_def)
  have tail: "(p * 64 + q) mod 64 = q" if "q < 64" for p q :: nat using that by simp
  have at: "unat (drop_bit k v AND 0x3f) = unat v div 2 ^ k mod 64" for k by (simp only: unat_and_low unat_drop)
  have "unat v div 262144 = a1" by (rule mod_offset(2)) (use n' c in \<open>simp_all add: x_def [symmetric] y_def [symmetric]\<close>)
  then show "unat (drop_bit 18 v AND 0x3f) = a1" unfolding at using r by simp
  have "unat v div 4096 = a1 * 64 + (16 * a0 + b1)" by (rule mod_offset(2)) (use n' c in \<open>simp_all add: x_def [symmetric] y_def [symmetric]\<close>)
  moreover have "(a1 * 64 + (16 * a0 + b1)) mod 64 = 16 * a0 + b1" by (rule tail) (use s in simp)
  ultimately show "unat (drop_bit 12 v AND 0x3f) = 16 * a0 + b1" unfolding at by simp
  have "unat v div 64 = (a1 * 64 + (16 * a0 + b1)) * 64 + (4 * b0 + c1)" by (rule mod_offset(2)) (use n' c in \<open>simp_all add: x_def [symmetric] y_def [symmetric]\<close>)
  moreover have "((a1 * 64 + (16 * a0 + b1)) * 64 + (4 * b0 + c1)) mod 64 = 4 * b0 + c1" by (rule tail) (use s in simp)
  ultimately show "unat (drop_bit 6 v AND 0x3f) = 4 * b0 + c1" unfolding at by simp
  have "unat v = ((a1 * 64 + (16 * a0 + b1)) * 64 + (4 * b0 + c1)) * 64 + c0" using n by simp
  then have "unat v mod 64 = c0" by (simp only: tail [OF c(2)])
  then show "unat (drop_bit 0 v AND 0x3f) = c0" unfolding at by simp
qed

lemma base64_step:
  assumes "unat s < 64" and "base64_value ch = Some s"
  shows "base64_loop (ch # cs) (acc, bits, out) =
    (if bits + 6 \<ge> 8
     then base64_loop cs (push_bit 6 acc OR s, bits - 2, out @ [ucast (drop_bit (bits - 2) (push_bit 6 acc OR s) AND 0xff)])
     else base64_loop cs (push_bit 6 acc OR s, bits + 6, out))"
  using assms by (simp add: Let_def)

lemma group_bytes:
  fixes a b c :: u8 and acc :: u32
  assumes v: "v = push_bit 16 (ucast a) OR push_bit 8 (ucast b) OR (ucast c :: u32)"
    and s: "s1 = drop_bit 18 v AND 0x3f" "s2 = drop_bit 12 v AND 0x3f" "s3 = drop_bit 6 v AND 0x3f" "s4 = drop_bit 0 v AND 0x3f"
    and x: "x1 = push_bit 6 acc OR s1" "x2 = push_bit 6 x1 OR s2" "x3 = push_bit 6 x2 OR s3" "x4 = push_bit 6 x3 OR s4"
  shows "ucast (drop_bit 4 x2 AND 0xff) = a" "ucast (drop_bit 2 x3 AND 0xff) = b" "ucast (drop_bit 0 x4 AND 0xff) = c"
    "unat s1 < 64" "unat s2 < 64" "unat s3 < 64" "unat s4 < 64"
    "b = 0 \<Longrightarrow> unat x2 mod 16 = 0" "c = 0 \<Longrightarrow> unat x3 mod 4 = 0"
proof -
  define a1 a0 b1 b0 c1 c0 where "a1 = unat a div 4" and "a0 = unat a mod 4" and "b1 = unat b div 16" and "b0 = unat b mod 16"
    and "c1 = unat c div 64" and "c0 = unat c mod 64"
  have a: "unat a = 4 * a1 + a0" "a0 < 4" and b: "unat b = 16 * b1 + b0" "b0 < 16" and c: "unat c = 64 * c1 + c0" "c0 < 64"
    by (simp_all add: a1_def a0_def b1_def b0_def c1_def c0_def)
  note q = sextets [OF v a b c, folded s]
  show lt: "unat s1 < 64" "unat s2 < 64" "unat s3 < 64" "unat s4 < 64" using q(1-4) q(5-7) a b c by linarith+
  have low: "unat x1 mod 64 = a1" "unat x2 mod 64 = 16 * a0 + b1" "unat x3 mod 64 = 4 * b0 + c1"
    using shift_in_low [OF lt(1), of acc] shift_in_low [OF lt(2), of x1] shift_in_low [OF lt(3), of x2] q(1-3)
    by (simp_all only: x)
  have off: "(q * m + r) div m = q" if "r < m" for q m r :: nat using that by simp
  have "(a1 * 64 + (16 * a0 + b1)) div 2 ^ 4 = 4 * a1 + a0" using off [of b1 16 "4 * a1 + a0"] q(6) by (simp add: algebra_simps)
  then have "unat (ucast (drop_bit 4 x2 AND 0xff) :: u8) = unat a"
    using shift_out [OF lt(2), of 4 x1] q(5) a unfolding x(2) [symmetric] low q(2) by simp
  then show "ucast (drop_bit 4 x2 AND 0xff) = a" by (simp only: word_unat_eq_iff)
  have "((16 * a0 + b1) * 64 + (4 * b0 + c1)) div 2 ^ 2 = 256 * a0 + 16 * b1 + b0"
    using off [of c1 4 "256 * a0 + 16 * b1 + b0"] q(7) by (simp add: algebra_simps)
  moreover have "(256 * a0 + 16 * b1 + b0) mod 256 = 16 * b1 + b0" using q(6) b by (simp add: add.assoc)
  ultimately have "unat (ucast (drop_bit 2 x3 AND 0xff) :: u8) = unat b"
    using shift_out [OF lt(3), of 2 x2] b unfolding x(3) [symmetric] low q(3) by simp
  then show "ucast (drop_bit 2 x3 AND 0xff) = b" by (simp only: word_unat_eq_iff)
  have "((4 * b0 + c1) * 64 + c0) mod 256 = 64 * c1 + c0"
  proof -
    have "(4 * b0 + c1) * 64 + c0 = (64 * c1 + c0) + b0 * 256" by simp
    then show ?thesis using q(7) c by (simp only: mod_mult_self1) simp
  qed
  then have "unat (ucast (drop_bit 0 x4 AND 0xff) :: u8) = unat c"
    using shift_out [OF lt(4), of 0 x3] c unfolding x(4) [symmetric] low q(4) by simp
  then show "ucast (drop_bit 0 x4 AND 0xff) = c" by (simp only: word_unat_eq_iff)
  show "unat x2 mod 16 = 0" if "b = 0"
  proof -
    have "b1 = 0" using that by (simp add: b1_def)
    have "unat x2 mod 64 mod 16 = unat x2 mod 16" by (rule mod_mod_cancel) simp
    then show ?thesis using low(2) \<open>b1 = 0\<close> by simp
  qed
  show "unat x3 mod 4 = 0" if "c = 0"
  proof -
    have "c1 = 0" using that by (simp add: c1_def)
    have "unat x3 mod 64 mod 4 = unat x3 mod 4" by (rule mod_mod_cancel) simp
    then show ?thesis using low(3) \<open>c1 = 0\<close> by simp
  qed
qed

lemma base64_group:
  assumes v: "v = push_bit 16 (ucast a) OR push_bit 8 (ucast b) OR (ucast c :: u32)"
  shows "\<exists>acc'. \<forall>cs. base64_loop (base64_char v 18 # base64_char v 12 # base64_char v 6 # base64_char v 0 # cs) (acc, 0, out) =
      base64_loop cs (acc', 0, out @ [a, b, c])"
    and "b = 0 \<Longrightarrow> \<exists>acc'. base64_loop [base64_char v 18, base64_char v 12] (acc, 0, out) = Some (acc', 4, out @ [a]) \<and> unat acc' mod 16 = 0"
    and "c = 0 \<Longrightarrow> \<exists>acc'. base64_loop [base64_char v 18, base64_char v 12, base64_char v 6] (acc, 0, out) =
      Some (acc', 2, out @ [a, b]) \<and> unat acc' mod 4 = 0"
proof -
  define s1 s2 s3 s4 where "s1 = drop_bit 18 v AND 0x3f" and "s2 = drop_bit 12 v AND 0x3f" and "s3 = drop_bit 6 v AND 0x3f"
    and "s4 = drop_bit 0 v AND 0x3f"
  define x1 where "x1 = push_bit 6 acc OR s1"
  define x2 where "x2 = push_bit 6 x1 OR s2"
  define x3 where "x3 = push_bit 6 x2 OR s3"
  define x4 where "x4 = push_bit 6 x3 OR s4"
  note g = group_bytes [OF v s1_def s2_def s3_def s4_def x1_def x2_def x3_def x4_def]
  have val: "base64_value (base64_char v 18) = Some s1" "base64_value (base64_char v 12) = Some s2"
    "base64_value (base64_char v 6) = Some s3" "base64_value (base64_char v 0) = Some s4"
    by (simp_all only: base64_char(1) s1_def s2_def s3_def s4_def)
  have 1: "base64_loop (base64_char v 18 # cs) (acc, 0, out) = base64_loop cs (x1, 6, out)" for cs
    unfolding base64_step [OF g(4) val(1)] x1_def by simp
  have 2: "base64_loop (base64_char v 12 # cs) (x1, 6, out) = base64_loop cs (x2, 4, out @ [a])" for cs
    unfolding base64_step [OF g(5) val(2)] x2_def [symmetric] using g(1) by simp
  have 3: "base64_loop (base64_char v 6 # cs) (x2, 4, out) = base64_loop cs (x3, 2, out @ [b])" for cs out
    unfolding base64_step [OF g(6) val(3)] x3_def [symmetric] using g(2) by simp
  have 4: "base64_loop (base64_char v 0 # cs) (x3, 2, out) = base64_loop cs (x4, 0, out @ [c])" for cs out
    unfolding base64_step [OF g(7) val(4)] x4_def [symmetric] using g(3) by simp
  show "\<exists>acc'. \<forall>cs. base64_loop (base64_char v 18 # base64_char v 12 # base64_char v 6 # base64_char v 0 # cs) (acc, 0, out) =
      base64_loop cs (acc', 0, out @ [a, b, c])" unfolding 1 2 3 4 by auto
  show "\<exists>acc'. base64_loop [base64_char v 18, base64_char v 12] (acc, 0, out) = Some (acc', 4, out @ [a]) \<and> unat acc' mod 16 = 0"
    if "b = 0" unfolding 1 2 using g(8) [OF that] by auto
  show "\<exists>acc'. base64_loop [base64_char v 18, base64_char v 12, base64_char v 6] (acc, 0, out) =
      Some (acc', 2, out @ [a, b]) \<and> unat acc' mod 4 = 0"
    if "c = 0" unfolding 1 2 3 using g(9) [OF that] by auto
qed

definition padding_ok :: "nat \<Rightarrow> nat \<Rightarrow> nat \<Rightarrow> u32 \<Rightarrow> nat \<Rightarrow> bool" where
  "padding_ok n len pad acc bits \<longleftrightarrow>
     n mod 3 = 0 \<and> pad = 0 \<and> bits = 0 \<and> len = 4 * (n div 3) \<or>
     n mod 3 = 1 \<and> pad = 2 \<and> bits = 4 \<and> unat acc mod 16 = 0 \<and> len = 4 * (n div 3) + 2 \<or>
     n mod 3 = 2 \<and> pad = 1 \<and> bits = 2 \<and> unat acc mod 4 = 0 \<and> len = 4 * (n div 3) + 3"

definition encodes :: "bytes \<Rightarrow> bytes \<Rightarrow> nat \<Rightarrow> u32 \<Rightarrow> nat \<Rightarrow> bool" where
  "encodes data content pad acc bits \<longleftrightarrow> append_base64 data = content @ replicate pad 0x3d \<and> 0x3d \<notin> set content \<and>
     padding_ok (length data) (length content) pad acc bits"

lemma padding_ok_group: "padding_ok n len pad acc bits \<Longrightarrow> padding_ok (n + 3) (len + 4) pad acc bits"
proof -
  have "(n + 3) div 3 = n div 3 + 1" "(n + 3) mod 3 = n mod 3" by simp_all
  then show "padding_ok n len pad acc bits \<Longrightarrow> ?thesis" unfolding padding_ok_def by (elim disjE) simp_all
qed

lemma not_padding: "0x3d \<notin> set (map (base64_char v) ns)"
  using base64_char(2) by (metis imageE set_map)

lemma append_base64_encodes:
  "\<exists>content pad acc' bits. encodes data content pad acc' bits \<and> base64_loop content (acc, 0, out) = Some (acc', bits, out @ data)"
proof (induction data arbitrary: acc out rule: append_base64.induct)
  case (1 a b c rest)
  define v where "v = push_bit 16 (ucast a) OR push_bit 8 (ucast b) OR (ucast c :: u32)"
  let ?g = "[base64_char v 18, base64_char v 12, base64_char v 6, base64_char v 0]"
  obtain acc1 where g: "\<And>cs. base64_loop (?g @ cs) (acc, 0, out) = base64_loop cs (acc1, 0, out @ [a, b, c])"
    using base64_group(1) [OF v_def, of acc out] by auto
  obtain content pad acc' bits where e: "encodes rest content pad acc' bits"
    and l: "base64_loop content (acc1, 0, out @ [a, b, c]) = Some (acc', bits, (out @ [a, b, c]) @ rest)"
    using "1.IH" [OF v_def, of acc1 "out @ [a, b, c]"] by blast
  have "append_base64 (a # b # c # rest) = (?g @ content) @ replicate pad 0x3d"
    using e by (simp add: encodes_def v_def Let_def)
  moreover have "0x3d \<notin> set (?g @ content)" using not_padding [of v "[18, 12, 6, 0]"] e by (simp add: encodes_def)
  moreover have "padding_ok (length (a # b # c # rest)) (length (?g @ content)) pad acc' bits"
    using padding_ok_group [of "length rest" "length content"] e by (simp add: encodes_def eval_nat_numeral)
  ultimately have "encodes (a # b # c # rest) (?g @ content) pad acc' bits" unfolding encodes_def by blast
  moreover have "base64_loop (?g @ content) (acc, 0, out) = Some (acc', bits, out @ a # b # c # rest)" unfolding g l by simp
  ultimately show ?case by blast
next
  case 2
  show ?case by (intro exI [of _ "[]"] exI [of _ 0] exI [of _ acc]) (simp add: encodes_def padding_ok_def)
next
  case (3 a)
  define v where "v = push_bit 16 (ucast a :: u32)"
  have "v = push_bit 16 (ucast a) OR push_bit 8 (ucast (0 :: u8)) OR (ucast (0 :: u8) :: u32)" by (simp add: v_def)
  note base64_group(2) [OF this refl, of acc out]
  then obtain acc' where l: "base64_loop [base64_char v 18, base64_char v 12] (acc, 0, out) = Some (acc', 4, out @ [a])"
    "unat acc' mod 16 = 0" by (elim exE conjE)
  have "append_base64 [a] = [base64_char v 18, base64_char v 12] @ replicate 2 0x3d" by (simp add: v_def numeral_2_eq_2 Let_def)
  moreover have "0x3d \<notin> set [base64_char v 18, base64_char v 12]" using not_padding [of v "[18, 12]"] by simp
  moreover have "padding_ok (length [a]) (length [base64_char v 18, base64_char v 12]) 2 acc' 4" using l(2) by (simp add: padding_ok_def)
  ultimately have "encodes [a] [base64_char v 18, base64_char v 12] 2 acc' 4" unfolding encodes_def by blast
  then show ?case using l(1) by blast
next
  case (4 a b)
  define v where "v = push_bit 16 (ucast a) OR push_bit 8 (ucast b :: u32)"
  have "v = push_bit 16 (ucast a) OR push_bit 8 (ucast b) OR (ucast (0 :: u8) :: u32)" by (simp add: v_def)
  note base64_group(3) [OF this refl, of acc out]
  then obtain acc' where l: "base64_loop [base64_char v 18, base64_char v 12, base64_char v 6] (acc, 0, out) = Some (acc', 2, out @ [a, b])"
    "unat acc' mod 4 = 0" by (elim exE conjE)
  have "append_base64 [a, b] = [base64_char v 18, base64_char v 12, base64_char v 6] @ replicate 1 0x3d" by (simp add: v_def Let_def)
  moreover have "0x3d \<notin> set [base64_char v 18, base64_char v 12, base64_char v 6]" using not_padding [of v "[18, 12, 6]"] by simp
  moreover have "padding_ok (length [a, b]) (length [base64_char v 18, base64_char v 12, base64_char v 6]) 1 acc' 2"
    using l(2) by (simp add: padding_ok_def)
  ultimately have "encodes [a, b] [base64_char v 18, base64_char v 12, base64_char v 6] 1 acc' 2" unfolding encodes_def by blast
  then show ?case using l(1) by blast
qed

lemma spare_bits:
  fixes acc :: u32
  assumes "unat acc mod 2 ^ n = 0"
  shows "acc AND (push_bit n 1 - 1) = 0"
proof -
  have "acc AND (push_bit n 1 - 1) = take_bit n acc" by (simp add: take_bit_eq_mask mask_eq_exp_minus_1)
  moreover have "unat (take_bit n acc) = 0" using assms unsigned_take_bit_eq [of n acc, where ?'a = nat] by (simp add: take_bit_eq_mod)
  ultimately show ?thesis by (simp add: unat_eq_zero)
qed

lemma decode_payload_ok:
  assumes pad: "length (takeWhile (\<lambda>c. c = 0x3d) (rev enc)) = pad" and size: "length enc = n + pad"
    and loop: "base64_loop (take n enc) (0, 0, []) = Some (acc, bits, data)" and max: "length data \<le> maximum"
    and cases: "length data = 3 * q \<and> pad = 0 \<and> bits = 0 \<and> n = 4 * q \<or>
      length data = 3 * q + 1 \<and> pad = 2 \<and> bits = 4 \<and> n = 4 * q + 2 \<or>
      length data = 3 * q + 2 \<and> pad = 1 \<and> bits = 2 \<and> n = 4 * q + 3"
    and spare: "bits \<noteq> 0 \<Longrightarrow> acc AND (push_bit bits 1 - 1) = 0"
  shows "decode_clipboard_payload enc maximum = (TERM_OK, Some data)"
proof -
  have "Suc (Suc (4 * q)) div 4 = q" "Suc (Suc (4 * q)) mod 4 = 2" by presburger+
  then show ?thesis using cases loop max spare
    by (elim disjE conjE) (simp_all add: decode_clipboard_payload_def pad size Let_def add.commute [of 3])
qed

lemma decode_base64:
  assumes max: "length data \<le> maximum"
  shows "decode_clipboard_payload (append_base64 data) maximum = (TERM_OK, Some data)"
proof -
  obtain content pad acc bits where e: "encodes data content pad acc bits"
    and l: "base64_loop content (0, 0, []) = Some (acc, bits, data)"
    using append_base64_encodes [of data 0 "[]"] by auto
  have enc: "append_base64 data = content @ replicate pad 0x3d" "0x3d \<notin> set content"
    and ok: "padding_ok (length data) (length content) pad acc bits" using e unfolding encodes_def by blast+
  have none: "takeWhile (\<lambda>c. c = 0x3d) (rev content) = []" using enc(2) by (cases "rev content") auto
  show ?thesis
  proof (rule decode_payload_ok)
    show "length (takeWhile (\<lambda>c. c = 0x3d) (rev (append_base64 data))) = pad"
      using takeWhile_append2 [of "replicate pad 0x3d" "\<lambda>c. c = 0x3d" "rev content"] none unfolding enc(1) by auto
    show "length (append_base64 data) = length content + pad" unfolding enc(1) by simp
    show "base64_loop (take (length content) (append_base64 data)) (0, 0, []) = Some (acc, bits, data)"
      using l unfolding enc(1) by simp
    show "length data = 3 * (length data div 3) \<and> pad = 0 \<and> bits = 0 \<and> length content = 4 * (length data div 3) \<or>
        length data = 3 * (length data div 3) + 1 \<and> pad = 2 \<and> bits = 4 \<and> length content = 4 * (length data div 3) + 2 \<or>
        length data = 3 * (length data div 3) + 2 \<and> pad = 1 \<and> bits = 2 \<and> length content = 4 * (length data div 3) + 3"
      using ok div_mult_mod_eq [of "length data" 3] unfolding padding_ok_def by fastforce
    show "acc AND (push_bit bits 1 - 1) = 0" if "bits \<noteq> 0"
      using ok that spare_bits [of acc 4] spare_bits [of acc 2] unfolding padding_ok_def by auto
  qed (rule max)
qed

end
