(* ===== verification/Decoder_Parse.thy ===== *)
theory Decoder_Parse
  imports Clipboard
begin

text \<open>
  The pure parsers of \<open>puc-cli/tui/terminal/decoder.cpp\<close>: strict decoding of one UTF-8 scalar,
  numeric protocol fields, the key tables, and the parsers of complete CSI, SGR mouse and OSC 52
  sequences. An out-parameter together with a \<open>bool\<close> result is an \<open>option\<close>; a parser that always
  appends exactly one event is a function to \<open>event\<close>.
\<close>

unbundle bit_operations_syntax

definition kEscape :: u8 where "kEscape = 0x1b"

definition maximum_osc52_sequence_bytes :: "nat \<Rightarrow> nat" where
  "maximum_osc52_sequence_bytes decoded_bytes =
     (if decoded_bytes > (size_max - 2) div 3 then size_max
      else let encoded = ((decoded_bytes + 2) div 3) * 4 in
        if encoded > size_max - 24 then size_max else encoded + 24)"

section \<open>UTF-8\<close>

datatype utf8_result = Utf8_Valid u32 nat | Utf8_Incomplete | Utf8_Invalid

definition is_unicode_scalar :: "u32 \<Rightarrow> bool" where
  "is_unicode_scalar codepoint \<longleftrightarrow> codepoint \<le> 0x10ffff \<and> \<not> (0xd800 \<le> codepoint \<and> codepoint \<le> 0xdfff)"

definition utf8_lead :: "u8 \<Rightarrow> (nat \<times> u32) option" where
  "utf8_lead first =
     (if 0xc2 \<le> first \<and> first \<le> 0xdf then Some (2, ucast first AND 0x1f)
      else if 0xe0 \<le> first \<and> first \<le> 0xef then Some (3, ucast first AND 0x0f)
      else if 0xf0 \<le> first \<and> first \<le> 0xf4 then Some (4, ucast first AND 0x07)
      else None)"

definition utf8_tail_invalid :: "u8 \<Rightarrow> u8 \<Rightarrow> bool" where
  "utf8_tail_invalid first second \<longleftrightarrow> first = 0xe0 \<and> second < 0xa0 \<or> first = 0xed \<and> second \<ge> 0xa0 \<or>
     first = 0xf0 \<and> second < 0x90 \<or> first = 0xf4 \<and> second \<ge> 0x90"

fun decode_one :: "bytes \<Rightarrow> utf8_result" where
  "decode_one [] = Utf8_Incomplete"
| "decode_one (first # rest) =
     (if first \<le> 0x7f then Utf8_Valid (ucast first) 1
      else case utf8_lead first of
          None \<Rightarrow> Utf8_Invalid
        | Some (expected, value) \<Rightarrow>
            let continuation = take (expected - 1) rest in
            if list_ex (\<lambda>b. b AND 0xc0 \<noteq> 0x80) continuation then Utf8_Invalid
            else if length (first # rest) < expected then Utf8_Incomplete
            else if utf8_tail_invalid first (hd rest) then Utf8_Invalid
            else let codepoint = fold (\<lambda>b v. push_bit 6 v OR (ucast b AND 0x3f)) continuation value in
              if is_unicode_scalar codepoint then Utf8_Valid codepoint expected else Utf8_Invalid)"

definition append_scalar :: "u32 \<Rightarrow> bytes" where
  "append_scalar codepoint =
     (if codepoint \<le> 0x7f then [ucast codepoint]
      else if codepoint \<le> 0x7ff
      then [ucast (0xc0 OR drop_bit 6 codepoint), ucast (0x80 OR (codepoint AND 0x3f))]
      else if codepoint \<le> 0xffff
      then [ucast (0xe0 OR drop_bit 12 codepoint), ucast (0x80 OR (drop_bit 6 codepoint AND 0x3f)),
            ucast (0x80 OR (codepoint AND 0x3f))]
      else [ucast (0xf0 OR drop_bit 18 codepoint), ucast (0x80 OR (drop_bit 12 codepoint AND 0x3f)),
            ucast (0x80 OR (drop_bit 6 codepoint AND 0x3f)), ucast (0x80 OR (codepoint AND 0x3f))])"

section \<open>Protocol fields\<close>

definition is_digit :: "u8 \<Rightarrow> bool" where
  "is_digit b \<longleftrightarrow> 0x30 \<le> b \<and> b \<le> 0x39"

definition decimal_value :: "bytes \<Rightarrow> nat" where
  "decimal_value = foldl (\<lambda>n b. n * 10 + (unat b - 0x30)) 0"

definition parse_unsigned :: "bytes \<Rightarrow> u32 option" where
  "parse_unsigned t =
     (if t = [] \<or> \<not> list_all is_digit t \<or> decimal_value t \<ge> 2 ^ 32 then None else Some (of_nat (decimal_value t)))"

fun split_on :: "u8 \<Rightarrow> bytes \<Rightarrow> bytes list" where
  "split_on delimiter [] = [[]]"
| "split_on delimiter (b # bs) =
     (if b = delimiter then [] # split_on delimiter bs
      else case split_on delimiter bs of f # fs \<Rightarrow> (b # f) # fs | [] \<Rightarrow> [[b]])"

definition split_fields :: "nat \<Rightarrow> u8 \<Rightarrow> bytes \<Rightarrow> bytes list option" where
  "split_fields maximum delimiter t =
     (if t = [] then Some []
      else let parts = split_on delimiter t in if length parts > maximum then None else Some parts)"

definition parse_modifiers_and_action :: "bytes \<Rightarrow> (modifiers \<times> key_action) option" where
  "parse_modifiers_and_action field =
     (if field = [] then Some (0, KEY_PRESS)
      else case split_fields 2 0x3a field of
          None \<Rightarrow> None
        | Some parts \<Rightarrow>
            (case (if hd parts = [] then Some 1 else parse_unsigned (hd parts)) of
               None \<Rightarrow> None
             | Some encoded \<Rightarrow>
                 if encoded < 1 \<or> encoded > 256 then None
                 else let bits = ucast (encoded - 1) in
                   if length parts = 2
                   then case parse_unsigned (parts ! 1) of
                       None \<Rightarrow> None
                     | Some action \<Rightarrow>
                         if action < 1 \<or> action > 3 then None
                         else Some (bits, if action = 1 then KEY_PRESS else if action = 2 then KEY_REPEAT else KEY_RELEASE)
                   else Some (bits, KEY_PRESS)))"

section \<open>Key tables\<close>

text \<open>The enumerators from \<open>KEYPAD_0\<close> on, in their order.\<close>

definition keypad_and_media_keys :: "named_key list" where
  "keypad_and_media_keys = map (\<lambda>n. Keypad (KEYPAD_DIGIT n)) [0..<10] @
     map Keypad [KEYPAD_DECIMAL, KEYPAD_DIVIDE, KEYPAD_MULTIPLY, KEYPAD_SUBTRACT, KEYPAD_ADD, KEYPAD_ENTER, KEYPAD_EQUAL,
       KEYPAD_SEPARATOR, KEYPAD_LEFT, KEYPAD_RIGHT, KEYPAD_UP, KEYPAD_DOWN, KEYPAD_PAGE_UP, KEYPAD_PAGE_DOWN, KEYPAD_HOME,
       KEYPAD_END, KEYPAD_INSERT, KEYPAD_DELETE, KEYPAD_BEGIN] @
     map Media [MEDIA_PLAY, MEDIA_PAUSE, MEDIA_PLAY_PAUSE, MEDIA_REVERSE, MEDIA_STOP, MEDIA_FAST_FORWARD, MEDIA_REWIND,
       MEDIA_TRACK_NEXT, MEDIA_TRACK_PREVIOUS, MEDIA_RECORD, VOLUME_DOWN, VOLUME_UP, VOLUME_MUTE] @
     map Modifier_Key [LEFT_SHIFT, LEFT_CONTROL, LEFT_ALT, LEFT_SUPER, LEFT_HYPER, LEFT_META, RIGHT_SHIFT, RIGHT_CONTROL,
       RIGHT_ALT, RIGHT_SUPER, RIGHT_HYPER, RIGHT_META, ISO_LEVEL3_SHIFT, ISO_LEVEL5_SHIFT]"

definition kitty_control_keys :: "(u32 \<times> named_key) list" where
  "kitty_control_keys = [(9, TAB), (13, ENTER), (27, ESCAPE), (127, BACKSPACE), (57348, INSERT), (57349, DELETE_KEY),
     (57350, LEFT), (57351, RIGHT), (57352, UP), (57353, DOWN), (57354, PAGE_UP), (57355, PAGE_DOWN), (57356, HOME),
     (57357, END), (57358, CAPS_LOCK), (57359, SCROLL_LOCK), (57360, NUM_LOCK), (57361, PRINT_SCREEN), (57362, PAUSE),
     (57363, MENU)]"

definition kitty_named_key :: "u32 \<Rightarrow> named_key option" where
  "kitty_named_key code =
     (case map_of kitty_control_keys code of Some key \<Rightarrow> Some key
      | None \<Rightarrow>
          if 57364 \<le> code \<and> code \<le> 57375 then Some (FUNCTION_KEY (1 + unat (code - 57364)))
          else if 57376 \<le> code \<and> code \<le> 57398 then Some (FUNCTION_KEY (13 + unat (code - 57376)))
          else if 57399 \<le> code \<and> code \<le> 57454 then Some (keypad_and_media_keys ! unat (code - 57399))
          else None)"

definition protocol_key_code :: "u32 \<Rightarrow> key_code option" where
  "protocol_key_code code =
     (case kitty_named_key code of Some named \<Rightarrow> Some (Named named)
      | None \<Rightarrow> if code = 0 \<or> \<not> is_unicode_scalar code \<or> (57344 \<le> code \<and> code \<le> 63743) then None
          else Some (Character code))"

definition tilde_named_key :: "u32 \<Rightarrow> named_key option" where
  "tilde_named_key = map_of [(1, HOME), (7, HOME), (2, INSERT), (3, DELETE_KEY), (4, END), (8, END), (5, PAGE_UP),
     (6, PAGE_DOWN), (11, FUNCTION_KEY 1), (12, FUNCTION_KEY 2), (13, FUNCTION_KEY 3), (14, FUNCTION_KEY 4),
     (15, FUNCTION_KEY 5), (17, FUNCTION_KEY 6), (18, FUNCTION_KEY 7), (19, FUNCTION_KEY 8), (20, FUNCTION_KEY 9),
     (21, FUNCTION_KEY 10), (23, FUNCTION_KEY 11), (24, FUNCTION_KEY 12), (57427, Keypad KEYPAD_BEGIN)]"

definition csi_final_key :: "u8 \<Rightarrow> named_key option" where
  "csi_final_key = map_of [(0x41, UP), (0x42, DOWN), (0x43, RIGHT), (0x44, LEFT), (0x48, HOME), (0x46, END),
     (0x50, FUNCTION_KEY 1), (0x51, FUNCTION_KEY 2), (0x53, FUNCTION_KEY 4)]"

text \<open>A \<open>KeyEvent\<close> with its default members.\<close>

definition key_of :: "key_code \<Rightarrow> key_event" where
  "key_of k = \<lparr>event_key = k, event_modifiers = 0, event_action = KEY_PRESS, shifted_key = None,
     base_layout_key = None, event_text = []\<rparr>"

definition legacy_control_key :: "u8 \<Rightarrow> key_event option" where
  "legacy_control_key byte =
     (if byte = 8 \<or> byte = 127 then Some (key_of (Named BACKSPACE))
      else if byte = 9 then Some (key_of (Named TAB))
      else if byte = 10 \<or> byte = 13 then Some (key_of (Named ENTER))
      else let control = (\<lambda>c. Some ((key_of (Character c))\<lparr>event_modifiers := modifier_bit CONTROL\<rparr>)) in
        if byte = 0 then control 0x20
        else if 1 \<le> byte \<and> byte \<le> 26 then control (0x61 + ucast byte - 1)
        else if 28 \<le> byte \<and> byte \<le> 31 then control ([0x5c, 0x5d, 0x5e, 0x5f] ! unat (byte - 28))
        else None)"

definition parse_letter_key_fields :: "bytes \<Rightarrow> (modifiers \<times> key_action) option" where
  "parse_letter_key_fields body =
     (case split_fields 2 0x3b body of
        None \<Rightarrow> None
      | Some [] \<Rightarrow> Some (0, KEY_PRESS)
      | Some (first # rest) \<Rightarrow>
          if parse_unsigned first \<noteq> Some 1 then None
          else case rest of [] \<Rightarrow> Some (0, KEY_PRESS) | field # _ \<Rightarrow> parse_modifiers_and_action field)"

definition auxiliary_button :: "u32 \<Rightarrow> mouse_button" where
  "auxiliary_button index =
     (if index = 0 then AUXILIARY_1 else if index = 1 then AUXILIARY_2 else if index = 2 then AUXILIARY_3 else AUXILIARY_4)"

section \<open>Complete sequences\<close>

text \<open>\<open>sequence.substr(2, sequence.size() - 3)\<close>.\<close>

definition sequence_body :: "bytes \<Rightarrow> bytes" where
  "sequence_body sequence = take (length sequence - 3) (drop 2 sequence)"

definition sgr_modifiers :: "u32 \<Rightarrow> modifiers" where
  "sgr_modifiers code =
     (let m1 = (if code AND 4 \<noteq> 0 then add_modifier 0 SHIFT else 0);
          m2 = (if code AND 8 \<noteq> 0 then add_modifier m1 ALT else m1)
      in if code AND 16 \<noteq> 0 then add_modifier m2 CONTROL else m2)"

definition sgr_event :: "u8 \<Rightarrow> bytes \<Rightarrow> u32 \<Rightarrow> u32 \<Rightarrow> u32 \<Rightarrow> event" where
  "sgr_event final sequence code x y =
     (let modifiers = sgr_modifiers code;
          position = \<lparr>cell_x = unat (x - 1), cell_y = unat (y - 1)\<rparr>;
          button_code = code AND NOT (4 OR 8 OR 16 OR 32)
      in if button_code AND NOT (3 OR 64 OR 128) \<noteq> 0 \<or> button_code AND (64 OR 128) = 64 OR 128
         then Unknown_Event UNSUPPORTED_SEQUENCE sequence
         else if button_code AND 64 \<noteq> 0 \<and> button_code AND 128 = 0
         then let wheel = button_code AND 3 in
           Scroll_Event \<lparr>scroll_position = position,
             delta_x = (if wheel = 2 then 1 else if wheel = 3 then - 1 else 0),
             delta_y = (if wheel = 0 then 1 else if wheel = 1 then - 1 else 0), scroll_modifiers = modifiers\<rparr>
         else let button = (if button_code AND 128 \<noteq> 0 then auxiliary_button (button_code AND 3)
                else if button_code AND 3 = 0 then LEFT_BUTTON
                else if button_code AND 3 = 1 then MIDDLE_BUTTON
                else if button_code AND 3 = 2 then RIGHT_BUTTON else NO_BUTTON);
                motion = (code AND 32 \<noteq> 0)
           in Mouse_Event \<lparr>mouse_position = position, mouse_button = button,
                mouse_action = (if final = 0x6d then MOUSE_RELEASE else if \<not> motion then MOUSE_PRESS
                  else if button = NO_BUTTON then MOUSE_MOVE else MOUSE_DRAG),
                mouse_modifiers = modifiers\<rparr>)"

definition parse_sgr_mouse :: "bytes \<Rightarrow> event" where
  "parse_sgr_mouse sequence =
     (let final = last sequence; body = sequence_body sequence; malformed = Unknown_Event MALFORMED_SEQUENCE sequence in
      if body = [] \<or> hd body \<noteq> 0x3c \<or> (final \<noteq> 0x4d \<and> final \<noteq> 0x6d) then malformed
      else case split_fields 3 0x3b (tl body) of
          Some [f0, f1, f2] \<Rightarrow>
            (case (parse_unsigned f0, parse_unsigned f1, parse_unsigned f2) of
               (Some code, Some x, Some y) \<Rightarrow> if x = 0 \<or> y = 0 then malformed else sgr_event final sequence code x y
             | _ \<Rightarrow> malformed)
        | _ \<Rightarrow> malformed)"

text \<open>An optional alternate key: absent or empty is no key, anything but a scalar is malformed.\<close>

definition alternate_key :: "bytes list \<Rightarrow> nat \<Rightarrow> u32 option option" where
  "alternate_key key_fields i =
     (if i \<ge> length key_fields \<or> key_fields ! i = [] then Some None
      else case parse_unsigned (key_fields ! i) of
          Some c \<Rightarrow> if is_unicode_scalar c then Some (Some c) else None
        | None \<Rightarrow> None)"

fun associated_text :: "bytes list \<Rightarrow> bytes option" where
  "associated_text [] = Some []"
| "associated_text (f # fs) =
     (case parse_unsigned f of
        None \<Rightarrow> None
      | Some c \<Rightarrow>
          if \<not> is_unicode_scalar c \<or> c < 0x20 \<or> (0x7f \<le> c \<and> c \<le> 0x9f) then None
          else map_option (\<lambda>rest. append_scalar c @ rest) (associated_text fs))"

text \<open>The fields of a Kitty key report; \<open>None\<close> is a malformed sequence.\<close>

definition kitty_key_fields :: "bytes \<Rightarrow> (u32 \<times> key_event) option" where
  "kitty_key_fields body =
     (case split_fields 3 0x3b body of
        Some (f0 # rest) \<Rightarrow>
          (case split_fields 3 0x3a f0 of
             Some (k0 # ks) \<Rightarrow>
               (case (parse_unsigned k0, alternate_key (k0 # ks) 1, alternate_key (k0 # ks) 2) of
                  (Some key_number, Some shifted, Some base) \<Rightarrow>
                    (case (if rest = [] then Some (0, KEY_PRESS) else parse_modifiers_and_action (hd rest)) of
                       None \<Rightarrow> None
                     | Some (modifiers, action) \<Rightarrow>
                         (case (if length rest < 2 \<or> rest ! 1 = [] then Some []
                                else case split_fields 64 0x3a (rest ! 1) of
                                    None \<Rightarrow> None | Some parts \<Rightarrow> associated_text parts) of
                            None \<Rightarrow> None
                          | Some t \<Rightarrow> Some (key_number, \<lparr>event_key = Named ESCAPE, event_modifiers = modifiers,
                              event_action = action, shifted_key = shifted, base_layout_key = base, event_text = t\<rparr>)))
                | _ \<Rightarrow> None)
           | _ \<Rightarrow> None)
      | _ \<Rightarrow> None)"

definition parse_csi_u :: "bytes \<Rightarrow> bytes \<Rightarrow> event" where
  "parse_csi_u sequence body =
     (let malformed = Unknown_Event MALFORMED_SEQUENCE sequence in
      if body \<noteq> [] \<and> hd body = 0x3f
      then case parse_unsigned (tl body) of
          None \<Rightarrow> malformed | Some flags \<Rightarrow> Response_Event KITTY_KEYBOARD_FLAGS flags []
      else if body \<noteq> [] \<and> (hd body = 0x3e \<or> hd body = 0x3c) then Response_Event KITTY_KEYBOARD_FLAGS 0 sequence
      else case kitty_key_fields body of
          None \<Rightarrow> malformed
        | Some (key_number, ev) \<Rightarrow>
            if key_number = 0
            then if event_text ev = [] then malformed else Text_Event \<lparr>text_utf8 = event_text ev\<rparr>
            else case protocol_key_code key_number of
                None \<Rightarrow> Unknown_Event UNSUPPORTED_SEQUENCE sequence
              | Some k \<Rightarrow> Key_Event (ev\<lparr>event_key := k\<rparr>))"

definition modified_key :: "bytes \<Rightarrow> key_code \<Rightarrow> (modifiers \<times> key_action) option \<Rightarrow> event" where
  "modified_key sequence k parsed =
     (case parsed of None \<Rightarrow> Unknown_Event MALFORMED_SEQUENCE sequence
      | Some (modifiers, action) \<Rightarrow> Key_Event ((key_of k)\<lparr>event_modifiers := modifiers, event_action := action\<rparr>))"

definition parse_csi_tilde :: "bytes \<Rightarrow> bytes \<Rightarrow> event" where
  "parse_csi_tilde sequence body =
     (let malformed = Unknown_Event MALFORMED_SEQUENCE sequence in
      case split_fields 3 0x3b body of
        Some (f0 # rest) \<Rightarrow>
          (case parse_unsigned f0 of
             None \<Rightarrow> malformed
           | Some key_number \<Rightarrow>
               if key_number = 27 \<and> length rest = 2
               then case parse_unsigned (rest ! 1) of
                   None \<Rightarrow> malformed
                 | Some codepoint \<Rightarrow>
                     (case protocol_key_code codepoint of
                        None \<Rightarrow> malformed
                      | Some k \<Rightarrow> modified_key sequence k (parse_modifiers_and_action (rest ! 0)))
               else case tilde_named_key key_number of
                   None \<Rightarrow> Unknown_Event UNSUPPORTED_SEQUENCE sequence
                 | Some named \<Rightarrow>
                     if length rest \<noteq> 1 then Unknown_Event UNSUPPORTED_SEQUENCE sequence
                     else modified_key sequence (Named named) (parse_modifiers_and_action (rest ! 0)))
      | _ \<Rightarrow> malformed)"

definition parse_csi :: "bytes \<Rightarrow> event" where
  "parse_csi sequence =
     (let final = last sequence; body = sequence_body sequence in
      if final = 0x75 then parse_csi_u sequence body
      else if final = 0x7e then parse_csi_tilde sequence body
      else if body \<noteq> [] \<and> csi_final_key final \<noteq> None
      then modified_key sequence (Named (the (csi_final_key final))) (parse_letter_key_fields body)
      else if final = 0x45 \<and> body \<noteq> []
      then modified_key sequence (Named (Keypad KEYPAD_BEGIN)) (parse_letter_key_fields body)
      else if final = 0x52
      then case split_fields 2 0x3b body of
          Some [f0, f1] \<Rightarrow>
            (case (parse_unsigned f0, parse_unsigned f1) of
               (Some row, Some column) \<Rightarrow> Response_Event CURSOR_POSITION row f1
             | _ \<Rightarrow> Unknown_Event MALFORMED_SEQUENCE sequence)
        | _ \<Rightarrow> Unknown_Event MALFORMED_SEQUENCE sequence
      else if final = 0x63 then Response_Event DEVICE_ATTRIBUTES 0 sequence
      else if final = 0x79 \<and> 0x24 \<in> set body then Response_Event MODE_REPORT 0 sequence
      else Unknown_Event UNSUPPORTED_SEQUENCE sequence)"

definition parse_osc :: "bytes \<Rightarrow> event" where
  "parse_osc sequence = Response_Event OPERATING_SYSTEM_COMMAND 0 sequence"

text \<open>The subtraction may wrap when the sequence is shorter than its frame.\<close>

definition osc_content :: "bytes \<Rightarrow> bytes" where
  "osc_content sequence =
     (let terminator_size = (if last sequence = 0x07 then 1 else 2)
      in take (size_sub (length sequence - 2) terminator_size) (drop 2 sequence))"

definition parse_osc52 :: "bytes \<Rightarrow> nat \<Rightarrow> event \<times> term_status" where
  "parse_osc52 sequence maximum_clipboard_bytes =
     (let content = osc_content sequence in
      if take 3 content \<noteq> [0x35, 0x32, 0x3b] then (Unknown_Event MALFORMED_SEQUENCE sequence, TERM_OK)
      else let selectors = takeWhile (\<lambda>b. b \<noteq> 0x3b) (drop 3 content);
               rest = dropWhile (\<lambda>b. b \<noteq> 0x3b) (drop 3 content)
        in if rest = [] then (Unknown_Event MALFORMED_SEQUENCE [], TERM_OK)
           else let payload = tl rest in
             if payload = [0x3f] then (Response_Event OPERATING_SYSTEM_COMMAND 0 [], TERM_OK)
             else if 0x63 \<notin> set selectors \<and> 0x70 \<notin> set selectors
             then (Unknown_Event UNSUPPORTED_SEQUENCE [], TERM_OK)
             else let selection = (if 0x63 \<in> set selectors then CLIPBOARD else PRIMARY) in
               case decode_clipboard_payload payload maximum_clipboard_bytes of
                 (TERM_OK, Some data) \<Rightarrow> (Clipboard_Event selection data, TERM_OK)
               | (status, _) \<Rightarrow>
                   if status = INPUT_LIMIT_EXCEEDED then (Unknown_Event LIMIT_EXCEEDED [], INPUT_LIMIT_EXCEEDED)
                   else (Unknown_Event MALFORMED_SEQUENCE [], TERM_OK))"

section \<open>The two UTF-8 decoders agree\<close>

lemma is_unicode_scalar_iff: "is_unicode_scalar c \<longleftrightarrow> scalar c"
  by (auto simp: is_unicode_scalar_def scalar_def is_surrogate_def)

lemma continue_scalar_fold:
  "continue_scalar bs v =
    (if list_ex (\<lambda>b. b AND 0xc0 \<noteq> 0x80) bs then None else Some (fold (\<lambda>b v. push_bit 6 v OR (ucast b AND 0x3f)) bs v))"
  by (induction bs arbitrary: v) (simp_all add: is_continuation_def)

lemma lead_byte_multi: "\<not> b \<le> 0x7f \<Longrightarrow> lead_byte b = Some (len, cp, mn) \<Longrightarrow> utf8_lead b = Some (len, cp)"
  "\<not> b \<le> 0x7f \<Longrightarrow> utf8_lead b = Some (len, cp) \<Longrightarrow> \<exists>mn. lead_byte b = Some (len, cp, mn)"
  by (auto simp: lead_byte_def utf8_lead_def split: if_splits)

lemma tail_invalid_iff: "utf8_tail_invalid b b1 \<longleftrightarrow> unat b = 224 \<and> unat b1 < 160 \<or> unat b = 237 \<and> unat b1 \<ge> 160 \<or>
    unat b = 240 \<and> unat b1 < 144 \<or> unat b = 244 \<and> unat b1 \<ge> 144"
  by (simp add: utf8_tail_invalid_def word_unat_eq_iff word_less_nat_alt word_le_nat_alt)

lemma tail_invalid_minimum:
  assumes lead: "lead_byte b = Some (len, cp, mn)" and multi: "\<not> b \<le> 0x7f" and len: "length k = len - 1"
    and cont: "\<forall>x \<in> set k. unat x div 64 = 2" and c: "unat c = scalar_value k (unat cp)" and s: "scalar c"
  shows "utf8_tail_invalid b (hd k) \<longleftrightarrow> unat c < unat mn"
  using lead
proof (cases rule: lead_byte_cases)
  case 1
  then show ?thesis using multi by (simp add: word_le_nat_alt)
next
  case 2
  then obtain b0 where k: "k = [b0]" using len by (auto simp: length_Suc_conv)
  show ?thesis using 2 c unfolding tail_invalid_iff k by auto
next
  case 3
  then obtain b1 b0 where k: "k = [b1, b0]" using len by (auto simp: length_Suc_conv numeral_2_eq_2)
  obtain r1 where r1: "unat b1 = 128 + r1" "r1 < 64" "unat b1 mod 64 = r1" using continuation_number [of b1] cont k by auto
  have v: "unat c = (unat cp * 64 + r1) * 64 + unat b0 mod 64" "unat b0 mod 64 < 64" using c r1 by (simp_all add: k)
  have b: "unat b = 224 + unat cp" using 3 by simp
  consider "unat cp = 0" | "unat cp = 13" | "unat cp \<noteq> 0" "unat cp \<noteq> 13" by blast
  then show ?thesis
  proof cases
    case 1
    then show ?thesis using b v r1 \<open>unat mn = 2048\<close> by (auto simp: tail_invalid_iff k)
  next
    case 2
    then show ?thesis using b v r1 s \<open>unat mn = 2048\<close> by (auto simp: tail_invalid_iff k scalar_iff)
  next
    case 3
    then show ?thesis using b v \<open>unat mn = 2048\<close> \<open>unat b < 240\<close> by (auto simp: tail_invalid_iff k)
  qed
next
  case 4
  then obtain b2 b1 b0 where k: "k = [b2, b1, b0]" using len by (auto simp: length_Suc_conv numeral_3_eq_3)
  obtain r2 where r2: "unat b2 = 128 + r2" "r2 < 64" "unat b2 mod 64 = r2" using continuation_number [of b2] cont k by auto
  have v: "unat c = ((unat cp * 64 + r2) * 64 + unat b1 mod 64) * 64 + unat b0 mod 64" "unat b0 mod 64 < 64" "unat b1 mod 64 < 64"
    using c r2 by (simp_all add: k)
  have b: "unat b = 240 + unat cp" using 4 by simp
  consider "unat cp = 0" | "unat cp = 4" | "unat cp \<noteq> 0" "unat cp \<noteq> 4" by blast
  then show ?thesis
  proof cases
    case 1
    then show ?thesis using b v r2 \<open>unat mn = 65536\<close> by (auto simp: tail_invalid_iff k)
  next
    case 2
    then show ?thesis using b v r2 s \<open>unat mn = 65536\<close> by (auto simp: tail_invalid_iff k scalar_iff)
  next
    case 3
    then show ?thesis using b v \<open>unat mn = 65536\<close> by (auto simp: tail_invalid_iff k)
  qed
qed

lemma decode_one_iff:
  "decode_one (b # bs) = Utf8_Valid c len \<longleftrightarrow>
    (\<exists>cp mn. lead_byte b = Some (len, cp, mn) \<and> len \<le> Suc (length bs) \<and> decode_scalar (take (len - 1) bs) cp mn = Some c)"
proof (cases "b \<le> 0x7f")
  case True
  then have "scalar (ucast b)" "lead_byte b = Some (1, ucast b, 0)"
    by (simp_all add: scalar_iff lead_byte_def word_le_nat_alt)
  then show ?thesis using True by (auto simp: decode_scalar_def scalar_def)
next
  case multi: False
  show ?thesis
  proof (cases "utf8_lead b")
    case None
    then show ?thesis using multi lead_byte_multi(1) [OF multi] by fastforce
  next
    case (Some p)
    obtain n v where p: "p = (n, v)" by fastforce
    obtain mn where lead: "lead_byte b = Some (n, v, mn)" using lead_byte_multi(2) [OF multi] Some p by blast
    define k where "k = take (n - 1) bs"
    show ?thesis
    proof (cases "n \<le> Suc (length bs)")
      case False
      then show ?thesis using multi Some p lead by (auto simp: Let_def)
    next
      case True
      then have len: "length k = n - 1" by (auto simp: k_def)
      have n: "2 \<le> n" "n \<le> 4" "unat v < 32" using lead multi by (cases rule: lead_byte_cases; simp add: word_le_nat_alt)+
      then have hd: "hd k = hd bs" by (simp add: k_def)
      have "(2::nat) ^ 14 \<le> 2 ^ (32 - 6 * length k)" using len n by (intro power_increasing) auto
      then have small: "unat v < 2 ^ (32 - 6 * length k)" "length k \<le> 4" using n len by simp_all
      show ?thesis
      proof (cases "continue_scalar k v")
        case None
        then show ?thesis using multi Some p lead by (auto simp: Let_def k_def continue_scalar_fold decode_scalar_def split: if_splits)
      next
        case cs: (Some c0)
        then have fold: "\<not> list_ex (\<lambda>b. b AND 0xc0 \<noteq> 0x80) k" "fold (\<lambda>b v. push_bit 6 v OR (ucast b AND 0x3f)) k v = c0"
          by (simp_all add: continue_scalar_fold split: if_splits)
        have val: "\<forall>x \<in> set k. unat x div 64 = 2" "unat c0 = scalar_value k (unat v)"
          using continue_scalar_value [OF small] cs by blast+
        have one: "decode_one (b # bs) = (if utf8_tail_invalid b (hd bs) \<or> \<not> scalar c0 then Utf8_Invalid else Utf8_Valid c0 n)"
          using multi Some p True fold by (simp add: Let_def k_def is_unicode_scalar_iff)
        have dec: "decode_scalar k v mn = (if unat c0 < unat mn \<or> \<not> scalar c0 then None else Some c0)"
          using cs by (auto simp: decode_scalar_def scalar_def word_less_nat_alt)
        have "(\<exists>cp mn. lead_byte b = Some (len, cp, mn) \<and> len \<le> Suc (length bs) \<and> decode_scalar (take (len - 1) bs) cp mn = Some c) \<longleftrightarrow>
            len = n \<and> decode_scalar k v mn = Some c" using lead True unfolding k_def by auto
        then show ?thesis unfolding one dec using tail_invalid_minimum [OF lead multi len val] hd by auto
      qed
    qed
  qed
qed

declare decode_one.simps(2) [simp del]

lemma decode_one_valid:
  assumes "decode_one bs = Utf8_Valid c len"
  shows "scalar c" "take len bs = append_utf8 c" "0 < len" "len \<le> length bs"
proof -
  obtain b rest where bs: "bs = b # rest" using assms by (cases bs) auto
  obtain cp mn where l: "lead_byte b = Some (len, cp, mn)" "len \<le> Suc (length rest)" "decode_scalar (take (len - 1) rest) cp mn = Some c"
    using assms decode_one_iff bs by blast
  have "0 < len" using l(1) by (cases rule: lead_byte_cases) simp_all
  then show "scalar c" "take len bs = append_utf8 c" "0 < len" "len \<le> length bs"
    using decode_append [OF l(1) _ l(3)] l(2) by (auto simp: bs take_Cons')
qed

lemma append_scalar_eq: "scalar c \<Longrightarrow> append_scalar c = append_utf8 c"
  by (simp add: append_scalar_def append_utf8_def scalar_def)

section \<open>Clipboard round trip\<close>

lemma append_base64_length: "length (append_base64 data) mod 4 = 0"
proof -
  obtain content pad acc bits where "encodes data content pad acc bits"
    using append_base64_encodes [of data 0 "[]"] by blast
  then have "append_base64 data = content @ replicate pad 0x3d" "padding_ok (length data) (length content) pad acc bits"
    unfolding encodes_def by blast+
  then have len: "length (append_base64 data) = length content + pad"
    and pad: "pad = 0 \<and> length content = 4 * (length data div 3) \<or> pad = 2 \<and> length content = 4 * (length data div 3) + 2 \<or>
      pad = 1 \<and> length content = 4 * (length data div 3) + 3"
    unfolding padding_ok_def by auto
  from pad have "length content + pad = 4 * (length data div 3) \<or> length content + pad = 4 * (length data div 3 + 1)" by auto
  then show ?thesis unfolding len by (metis mod_mult_self1_is_0)
qed

lemma osc_content_framed: "osc_content ([a, b] @ body @ [0x1b, 0x5c]) = body"
proof -
  have "last ([a, b] @ body @ [0x1b, 0x5c]) = 0x5c" by simp
  moreover have "size_sub (length ([a, b] @ body @ [0x1b, 0x5c]) - 2) 2 = length body" by simp
  ultimately show ?thesis unfolding osc_content_def Let_def by simp
qed

text \<open>
  C24: The clipboard round trip. A clipboard write that \<open>build_clipboard_write\<close> accepts is a
  sequence that the decoder's OSC 52 parser turns into a clipboard event for the same selection
  with the same bytes, for data within the decoder's own limit.
\<close>

theorem clipboard_round_trip:
  assumes "build_clipboard_write selection data limit = (TERM_OK, Some sequence)" and "length data \<le> maximum"
  shows "parse_osc52 sequence maximum = (Clipboard_Event selection data, TERM_OK)"
proof -
  let ?b = "append_base64 data"
  have seq: "sequence = [0x1b, 0x5d] @ ([0x35, 0x32, 0x3b, clipboard_selector selection, 0x3b] @ ?b) @ [0x1b, 0x5c]"
    using assms(1) by (simp add: build_clipboard_write_def osc52_prefix_def split: if_splits)
  have content: "osc_content sequence = [0x35, 0x32, 0x3b, clipboard_selector selection, 0x3b] @ ?b"
    unfolding seq by (rule osc_content_framed)
  have sel: "clipboard_selector selection \<noteq> 0x3b" by (simp add: clipboard_selector_def)
  have "?b \<noteq> [0x3f]" using append_base64_length [of data] by auto
  then have "parse_osc52 sequence maximum = (Clipboard_Event (if 0x63 = clipboard_selector selection then CLIPBOARD else PRIMARY) data, TERM_OK)"
    using decode_base64 [OF assms(2)] sel unfolding parse_osc52_def content by (simp add: Let_def clipboard_selector_def)
  then show ?thesis by (cases selection) (simp_all add: clipboard_selector_def)
qed

theorem clipboard_round_trip_witness:
  "parse_osc52 [0x1b, 0x5d, 0x35, 0x32, 0x3b, 0x70, 0x3b, 0x61, 0x47, 0x6b, 0x3d, 0x1b, 0x5c] 8 =
    (Clipboard_Event PRIMARY [0x68, 0x69], TERM_OK)"
proof -
  have "append_base64 [0x68, 0x69] = [0x61, 0x47, 0x6b, 0x3d]" by code_simp
  then have "build_clipboard_write PRIMARY [0x68, 0x69] 8 =
      (TERM_OK, Some [0x1b, 0x5d, 0x35, 0x32, 0x3b, 0x70, 0x3b, 0x61, 0x47, 0x6b, 0x3d, 0x1b, 0x5c])"
    by (simp add: build_clipboard_write_def osc52_prefix_def clipboard_selector_def size_max_def)
  then show ?thesis using clipboard_round_trip by force
qed

end
