(* ===== verification/Terminal_Input.thy ===== *)
theory Terminal_Input
  imports Key_Trie Decoder_Parse "HOL-Library.Char_ord"
begin

text \<open>
  \<open>puc-cli/tui/terminal/input.hpp\<close> and the map operations of \<open>input.cpp\<close>: the actions stored in
  the input trie and the builder \<open>InputMap\<close> that registers, replaces and disables byte sequences.
  The trie is the one of \<open>Key_Trie\<close>, with bytes as keys. Texts of the configuration are strings.
\<close>

section \<open>Actions\<close>

datatype input_protocol = PROTOCOL_TEXT | PROTOCOL_ESCAPE | SS3 | CSI | OSC | PROTOCOL_DCS
  | APPLICATION_PROGRAM_COMMAND | PRIVACY_MESSAGE | SGR_MOUSE | OSC52 | PROTOCOL_PASTE_BEGIN | PROTOCOL_PASTE_END

text \<open>\<open>std::variant<std::monostate, EmitInputEvent, EnterInputProtocol>\<close>.\<close>

datatype input_action = No_Action | Emit_Input_Event event | Enter_Input_Protocol input_protocol

fun action_event :: "input_action \<Rightarrow> event option" where
  "action_event (Emit_Input_Event e) = Some e"
| "action_event _ = None"

fun action_protocol :: "input_action \<Rightarrow> input_protocol option" where
  "action_protocol (Enter_Input_Protocol p) = Some p"
| "action_protocol _ = None"

fun action_empty :: "input_action \<Rightarrow> bool" where
  "action_empty No_Action = True"
| "action_empty _ = False"

type_synonym input_trie = "(u8, input_action) trie"

definition empty_input_trie :: input_trie where
  "empty_input_trie = trie_new 0 No_Action"

section \<open>The map under construction\<close>

record command_sequence =
  command_path :: bytes
  command_source :: string
  command_line :: nat
  command_column :: nat

record input_map =
  map_trie :: input_trie
  terminfo_keys :: "(string \<times> key_event) list"
  command_sequences :: "command_sequence list"
  exact_command_conflicts :: "(command_sequence \<times> command_sequence) list"

definition empty_input_map :: input_map where
  "empty_input_map = \<lparr>map_trie = empty_input_trie, terminfo_keys = [], command_sequences = [], exact_command_conflicts = []\<rparr>"

definition kMaximumConfiguredSequenceBytes :: nat where
  "kMaximumConfiguredSequenceBytes = 4096"

definition register_sequence :: "bytes \<Rightarrow> input_action \<Rightarrow> input_map \<Rightarrow> input_map \<times> term_status" where
  "register_sequence sequence action m =
     (if length sequence > kMaximumConfiguredSequenceBytes \<or> action_empty action \<or>
         sequence = [] \<and> action_protocol action \<noteq> Some PROTOCOL_TEXT
      then (m, TERM_INVALID_ARGUMENT)
      else (m\<lparr>map_trie := fst (trie_insert No_Action sequence action (map_trie m))\<rparr>, TERM_OK))"

definition register_key_sequence :: "bytes \<Rightarrow> key_event \<Rightarrow> input_map \<Rightarrow> input_map \<times> term_status" where
  "register_key_sequence sequence ev m = register_sequence sequence (Emit_Input_Event (Key_Event ev)) m"

definition disable_sequence :: "bytes \<Rightarrow> input_map \<Rightarrow> input_map \<times> bool" where
  "disable_sequence sequence m =
     (case trie_erase No_Action sequence (map_trie m) of (t, erased) \<Rightarrow> (m\<lparr>map_trie := t\<rparr>, erased))"

definition capability_char :: "char \<Rightarrow> bool" where
  "capability_char c \<longleftrightarrow> (CHR ''a'' \<le> c \<and> c \<le> CHR ''z'') \<or> (CHR ''A'' \<le> c \<and> c \<le> CHR ''Z'') \<or>
     (CHR ''0'' \<le> c \<and> c \<le> CHR ''9'') \<or> c = CHR ''_''"

fun replace_binding :: "string \<Rightarrow> key_event \<Rightarrow> (string \<times> key_event) list \<Rightarrow> (string \<times> key_event) list" where
  "replace_binding capability ev [] = [(capability, ev)]"
| "replace_binding capability ev ((c, old) # bs) =
     (if c = capability then (c, ev) # bs else (c, old) # replace_binding capability ev bs)"

definition register_terminfo_key :: "string \<Rightarrow> key_event \<Rightarrow> input_map \<Rightarrow> input_map \<times> term_status" where
  "register_terminfo_key capability ev m =
     (if capability = [] \<or> length capability > 64 \<or> \<not> list_all capability_char capability
      then (m, TERM_INVALID_ARGUMENT)
      else (m\<lparr>terminfo_keys := replace_binding capability ev (terminfo_keys m)\<rparr>, TERM_OK))"

text \<open>
  The depth-first search for a sequence that enters a protocol recurses over child indexes; it
  spends fuel, of which the size of the trie is enough.
\<close>

fun find_protocol_path :: "nat \<Rightarrow> input_trie \<Rightarrow> nat \<Rightarrow> input_protocol \<Rightarrow> bytes \<Rightarrow> bytes option"
  and find_protocol_child :: "nat \<Rightarrow> input_trie \<Rightarrow> nat list \<Rightarrow> input_protocol \<Rightarrow> bytes \<Rightarrow> bytes option" where
  "find_protocol_path 0 t n protocol path = None"
| "find_protocol_path (Suc fuel) t n protocol path =
     (if sequence_end (t ! n) \<and> action_protocol (node_value (t ! n)) = Some protocol then Some path
      else find_protocol_child fuel t (children (t ! n)) protocol path)"
| "find_protocol_child fuel t [] protocol path = None"
| "find_protocol_child fuel t (c # cs) protocol path =
     (case find_protocol_path fuel t c protocol (path @ [key (t ! c)]) of
        Some found \<Rightarrow> Some found
      | None \<Rightarrow> find_protocol_child fuel t cs protocol path)"

definition find_protocol_sequence :: "input_protocol \<Rightarrow> input_map \<Rightarrow> bytes option" where
  "find_protocol_sequence protocol m = find_protocol_path (length (map_trie m)) (map_trie m) kRootNode protocol []"

section \<open>Semantic commands\<close>

fun is_command_action :: "input_action option \<Rightarrow> bool" where
  "is_command_action (Some (Emit_Input_Event (Command_Event c))) = True"
| "is_command_action _ = False"

fun remove_command :: "bytes \<Rightarrow> command_sequence list \<Rightarrow> command_sequence list" where
  "remove_command sequence [] = []"
| "remove_command sequence (c # cs) = (if command_path c = sequence then cs else c # remove_command sequence cs)"

fun replace_command :: "command_sequence \<Rightarrow> command_sequence list \<Rightarrow> command_sequence list" where
  "replace_command declaration [] = [declaration]"
| "replace_command declaration (c # cs) =
     (if command_path c = command_path declaration then declaration # cs else c # replace_command declaration cs)"

definition track_command_sequence ::
    "bytes \<Rightarrow> input_action option \<Rightarrow> string \<times> nat \<times> nat \<Rightarrow> input_map \<Rightarrow> input_map" where
  "track_command_sequence sequence action location m =
     (let existing = List.find (\<lambda>c. command_path c = sequence) (command_sequences m) in
      if \<not> is_command_action action
      then m\<lparr>command_sequences := remove_command sequence (command_sequences m)\<rparr>
      else case location of (source, line, column) \<Rightarrow>
        let declaration = \<lparr>command_path = sequence, command_source = source, command_line = line, command_column = column\<rparr>;
            m' = m\<lparr>command_sequences := replace_command declaration (command_sequences m)\<rparr>
        in case existing of
            Some old \<Rightarrow> if command_source old = source
              then m'\<lparr>exact_command_conflicts := exact_command_conflicts m @ [(old, declaration)]\<rparr> else m'
          | None \<Rightarrow> m')"

text \<open>\<open>starts_with\<close>.\<close>

fun is_prefix :: "bytes \<Rightarrow> bytes \<Rightarrow> bool" where
  "is_prefix [] ys = True"
| "is_prefix (x # xs) [] = False"
| "is_prefix (x # xs) (y # ys) = (x = y \<and> is_prefix xs ys)"

fun command_conflicts :: "bytes list \<Rightarrow> nat" where
  "command_conflicts [] = 0"
| "command_conflicts (first # rest) =
     length (filter (\<lambda>second. is_prefix second first \<or> is_prefix first second) rest) + command_conflicts rest"

definition validate_command_sequences :: "input_map \<Rightarrow> term_status" where
  "validate_command_sequences m =
     (if length (exact_command_conflicts m) + command_conflicts (map command_path (command_sequences m)) \<noteq> 0
      then CONFIGURATION_PARSE_FAILED else TERM_OK)"

section \<open>The trie of a configured map\<close>

text \<open>What the configuration can store: fixed key, focus and command events, and protocols.\<close>

fun configured_event :: "event \<Rightarrow> bool" where
  "configured_event (Key_Event _) = True"
| "configured_event (Focus_Event _) = True"
| "configured_event (Command_Event _) = True"
| "configured_event _ = False"

fun configured_action :: "input_action \<Rightarrow> bool" where
  "configured_action No_Action = False"
| "configured_action (Emit_Input_Event e) = configured_event e"
| "configured_action (Enter_Input_Protocol _) = True"

definition blank_ok :: "input_trie \<Rightarrow> bool" where
  "blank_ok t \<longleftrightarrow> (\<forall>n < length t. \<not> sequence_end (t ! n) \<longrightarrow> node_value (t ! n) = No_Action)"

definition input_trie_ok :: "input_trie \<Rightarrow> bool" where
  "input_trie_ok t \<longleftrightarrow> trie_wf t \<and> blank_ok t \<and> (\<forall>ks v. trie_find t ks = Some v \<longrightarrow> configured_action v) \<and>
     (\<forall>v. trie_find t [] = Some v \<longrightarrow> v = Enter_Input_Protocol PROTOCOL_TEXT)"

lemma input_trie_okD:
  assumes "input_trie_ok t"
  shows "trie_wf t" "blank_ok t" "trie_find t ks = Some v \<Longrightarrow> configured_action v"
    "trie_find t [] = Some v \<Longrightarrow> v = Enter_Input_Protocol PROTOCOL_TEXT"
  using assms unfolding input_trie_ok_def by blast+

lemma empty_input_trie_ok: "input_trie_ok empty_input_trie"
  by (simp add: input_trie_ok_def empty_input_trie_def trie_wf_new trie_find_new blank_ok_def)
    (simp add: trie_new_def blank_node_def)

lemma blank_ok_add_child: "blank_ok t \<Longrightarrow> n < length t \<Longrightarrow> blank_ok (add_child No_Action t n k)"
  unfolding blank_ok_def add_child_basic(1)
  using add_child_basic(3,4,6) [of n t] by (metis blank_node_def less_Suc_eq trie_node.select_convs(4))

lemma blank_ok_set_terminal: "blank_ok t \<Longrightarrow> b \<or> v = No_Action \<Longrightarrow> blank_ok (set_terminal t n b v)"
  by (auto simp: blank_ok_def set_terminal_def nth_list_update')

lemma blank_ok_insert_path:
  assumes "trie_wf t" and "n < length t" and "blank_ok t" and "insert_path No_Action t n ks = (t', m)"
  shows "blank_ok t'"
  using assms
proof (induction ks arbitrary: t n)
  case (Cons k ks)
  show ?case
  proof (cases "find_child t n k")
    case None
    have len: "length t < length (add_child No_Action t n k)" using add_child_basic(1) [OF Cons.prems(2)] by simp
    show ?thesis
      using Cons.IH [OF trie_wf_add_child [OF Cons.prems(1,2) None] len blank_ok_add_child [OF Cons.prems(3,2)]] Cons.prems(4) None
      by simp
  next
    case (Some c)
    then show ?thesis using Cons.IH [OF Cons.prems(1) find_child_bounds(2) [OF Cons.prems(1,2) Some] Cons.prems(3)] Cons.prems(4) by simp
  qed
qed simp

lemma trie_insert_ok:
  assumes ok: "input_trie_ok t" and act: "configured_action a" and root: "ks = [] \<longrightarrow> a = Enter_Input_Protocol PROTOCOL_TEXT"
  shows "input_trie_ok (fst (trie_insert No_Action ks a t))"
proof -
  note wf = input_trie_okD(1) [OF ok]
  obtain t' n where ins: "trie_insert No_Action ks a t = (t', n)" by fastforce
  obtain u where u: "insert_path No_Action t kRootNode ks = (u, n)" "t' = set_terminal u n True a"
    using ins by (auto simp: trie_insert_def split: prod.splits)
  have "blank_ok u" by (rule blank_ok_insert_path [OF wf _ input_trie_okD(2) [OF ok] u(1)]) (use trie_wfD(2) [OF wf] in \<open>simp add: kRootNode_def\<close>)
  then have "blank_ok t'" unfolding u(2) by (rule blank_ok_set_terminal) simp
  then show ?thesis
    using trie_insert_spec(1,2) [OF wf ins] ins act root input_trie_okD(3,4) [OF ok] by (auto simp: input_trie_ok_def)
qed

lemma trie_erase_ok:
  assumes ok: "input_trie_ok t"
  shows "input_trie_ok (fst (trie_erase No_Action ks t))"
proof -
  note wf = input_trie_okD(1) [OF ok]
  obtain t' b where er: "trie_erase No_Action ks t = (t', b)" by fastforce
  have "blank_ok t'" using er input_trie_okD(2) [OF ok] blank_ok_set_terminal [of t False No_Action]
    by (auto simp: trie_erase_def split: option.splits if_splits)
  then show ?thesis
    using trie_erase_spec(1,2) [OF wf er] er input_trie_okD(3,4) [OF ok] by (auto simp: input_trie_ok_def)
qed

lemma register_sequence_ok:
  assumes ok: "input_trie_ok (map_trie m)" and act: "action_empty a \<or> configured_action a"
  shows "input_trie_ok (map_trie (fst (register_sequence ks a m)))"
proof (cases "snd (register_sequence ks a m) = TERM_OK")
  case True
  then have a: "configured_action a" "ks = [] \<longrightarrow> a = Enter_Input_Protocol PROTOCOL_TEXT"
    using act by (cases a; auto simp: register_sequence_def split: if_splits)+
  have "map_trie (fst (register_sequence ks a m)) = fst (trie_insert No_Action ks a (map_trie m))"
    using True by (auto simp: register_sequence_def split: if_splits)
  then show ?thesis using trie_insert_ok [OF ok a] by simp
next
  case False
  then show ?thesis using ok by (auto simp: register_sequence_def split: if_splits)
qed

lemma disable_sequence_ok: "input_trie_ok (map_trie m) \<Longrightarrow> input_trie_ok (map_trie (fst (disable_sequence ks m)))"
  using trie_erase_ok [of "map_trie m" ks] by (cases "trie_erase No_Action ks (map_trie m)") (simp add: disable_sequence_def)

end
