(* ===== verification/Input_Decoder.thy ===== *)
theory Input_Decoder
  imports Terminal_Input
begin

text \<open>
  The streaming decoder of \<open>puc-cli/tui/terminal/decoder.cpp\<close>. The buffer and its read offset are
  represented by the unread bytes, so that \<open>consume\<close> drops bytes and \<open>compact\<close> is the identity.
  Events that a method appends to its output vector are part of its result. The loop of \<open>process\<close>
  need not end for an arbitrary trie: it is a partial function, and \<open>None\<close> is a loop that does not
  return.
\<close>

section \<open>State\<close>

record decoder_limits =
  maximum_pending_bytes :: nat
  maximum_sequence_bytes :: nat
  maximum_paste_bytes :: nat
  maximum_clipboard_bytes :: nat

record trie_cursor =
  cursor_node :: nat
  last_match :: "nat option"
  scanned :: nat
  last_match_size :: nat

record decoder =
  limits :: decoder_limits
  dec_pending :: bytes
  input_trie :: input_trie
  cursor :: trie_cursor
  active_node :: "nat option"
  active_sequence :: bytes
  paste_candidate :: bytes
  paste_end_sequence :: bytes
  paste_in_progress :: bool
  paste_discarding :: bool
  paste_bytes :: nat
  next_timeout_generation :: u64
  pending_timeout :: "u64 option"

datatype parse_result = CONSUMED | NEED_MORE

type_synonym step_result = "decoder \<times> event list \<times> term_status \<times> parse_result"

definition root_cursor :: trie_cursor where
  "root_cursor = \<lparr>cursor_node = kRootNode, last_match = None, scanned = 0, last_match_size = 0\<rparr>"

definition at_least_one :: "decoder_limits \<Rightarrow> decoder_limits" where
  "at_least_one l = l\<lparr>maximum_pending_bytes := max 1 (maximum_pending_bytes l),
     maximum_sequence_bytes := max 1 (maximum_sequence_bytes l)\<rparr>"

definition new_decoder :: "input_map \<Rightarrow> decoder_limits \<Rightarrow> decoder" where
  "new_decoder m l = \<lparr>limits = at_least_one l, dec_pending = [], input_trie = map_trie m, cursor = root_cursor,
     active_node = None, active_sequence = [], paste_candidate = [],
     paste_end_sequence = (case find_protocol_sequence PROTOCOL_PASTE_END m of None \<Rightarrow> [] | Some t \<Rightarrow> t),
     paste_in_progress = False, paste_discarding = False, paste_bytes = 0, next_timeout_generation = 0,
     pending_timeout = None\<rparr>"

definition consume :: "nat \<Rightarrow> decoder \<Rightarrow> decoder" where
  "consume byte_count s = s\<lparr>dec_pending := drop byte_count (dec_pending s)\<rparr>"

definition reset_trie_cursor :: "decoder \<Rightarrow> decoder" where
  "reset_trie_cursor s = s\<lparr>cursor := root_cursor\<rparr>"

definition reset_active_action :: "decoder \<Rightarrow> decoder" where
  "reset_active_action s = s\<lparr>active_node := None, active_sequence := []\<rparr>"

definition active_protocol :: "decoder \<Rightarrow> input_protocol option" where
  "active_protocol s =
     (case active_node s of None \<Rightarrow> None | Some n \<Rightarrow> action_protocol (node_value (input_trie s ! n)))"

definition pending_bytes :: "decoder \<Rightarrow> nat" where
  "pending_bytes s = length (dec_pending s) + length (active_sequence s) + length (paste_candidate s)"

section \<open>Text\<close>

datatype text_stop = Stop_End | Stop_Incomplete | Stop_Invalid

function text_scan :: "bytes \<Rightarrow> nat \<Rightarrow> nat \<times> text_stop" where
  "text_scan [] text_size = (text_size, Stop_End)"
| "text_scan (b # bs) text_size =
     (if b = kEscape \<or> b < 0x20 \<or> b = 0x7f then (text_size, Stop_End)
      else if b < 0x80 then text_scan bs (Suc text_size)
      else case decode_one (b # bs) of
          Utf8_Incomplete \<Rightarrow> (text_size, Stop_Incomplete)
        | Utf8_Invalid \<Rightarrow> (text_size, Stop_Invalid)
        | Utf8_Valid _ len \<Rightarrow> text_scan (drop (len - 1) bs) (text_size + len))"
  by pat_completeness auto
termination
  by (relation "measure (\<lambda>(bs, _). length bs)") auto

definition parse_text :: "decoder \<Rightarrow> step_result" where
  "parse_text s =
     (let bytes = dec_pending s; first = hd bytes in
      if first < 0x20 \<or> first = 0x7f
      then (consume 1 s, [Unknown_Event UNSUPPORTED_SEQUENCE [first]], TERM_OK, CONSUMED)
      else case text_scan bytes 0 of (text_size, stop) \<Rightarrow>
        if stop = Stop_Incomplete \<and> text_size = 0 then (s, [], TERM_OK, NEED_MORE)
        else if stop = Stop_Invalid \<and> text_size = 0
        then (consume 1 s, [Unknown_Event INVALID_UTF8 [first]], TERM_OK, CONSUMED)
        else (consume text_size s, [Text_Event \<lparr>text_utf8 = take text_size bytes\<rparr>], TERM_OK, CONSUMED))"

section \<open>The trie\<close>

definition paste_event_of :: "paste_phase \<Rightarrow> bytes \<Rightarrow> event" where
  "paste_event_of phase data = Paste_Event \<lparr>paste_phase = phase, paste_data = data\<rparr>"

definition execute_action :: "nat \<Rightarrow> nat \<Rightarrow> decoder \<Rightarrow> step_result" where
  "execute_action node byte_count s =
     (case node_value (input_trie s ! node) of
        Emit_Input_Event e \<Rightarrow> (reset_trie_cursor (consume byte_count s), [e], TERM_OK, CONSUMED)
      | No_Action \<Rightarrow>
          (reset_trie_cursor (consume (if byte_count = 0 then 1 else byte_count) s),
           [Unknown_Event UNSUPPORTED_SEQUENCE (take byte_count (dec_pending s))], TERM_OK, CONSUMED)
      | Enter_Input_Protocol protocol \<Rightarrow>
          if protocol = PROTOCOL_TEXT then parse_text (reset_trie_cursor s)
          else let matched = take byte_count (dec_pending s); s' = reset_trie_cursor (consume byte_count s) in
            if protocol = PROTOCOL_PASTE_BEGIN
            then (s'\<lparr>active_node := Some node, active_sequence := [], paste_candidate := [], paste_in_progress := True,
                     paste_discarding := False, paste_bytes := 0\<rparr>, [paste_event_of PASTE_BEGIN []], TERM_OK, CONSUMED)
            else if protocol = PROTOCOL_PASTE_END
            then (s', [Unknown_Event UNSUPPORTED_SEQUENCE matched], TERM_OK, CONSUMED)
            else (s'\<lparr>active_node := Some node, active_sequence := matched\<rparr>, [], TERM_OK, CONSUMED))"

datatype trie_outcome = Trie_More | Trie_Execute nat nat | Trie_Unknown nat

fun trie_loop :: "input_trie \<Rightarrow> trie_cursor \<Rightarrow> bytes \<Rightarrow> trie_cursor \<times> trie_outcome" where
  "trie_loop t c [] = (c, Trie_More)"
| "trie_loop t c (byte # bytes) =
     (case find_child t (cursor_node c) byte of
        None \<Rightarrow>
          (c, case last_match c of
                Some n \<Rightarrow> Trie_Execute n (last_match_size c)
              | None \<Rightarrow>
                  if scanned c \<noteq> 0 then Trie_Unknown (scanned c)
                  else if sequence_end (t ! kRootNode) then Trie_Execute kRootNode 0 else Trie_Unknown 1)
      | Some child \<Rightarrow>
          let c1 = c\<lparr>cursor_node := child, scanned := Suc (scanned c)\<rparr>;
              c2 = (if sequence_end (t ! child)
                then c1\<lparr>last_match := Some child, last_match_size := scanned c1\<rparr> else c1)
          in if sequence_end (t ! child) \<and> children (t ! child) = [] then (c2, Trie_Execute child (scanned c2))
             else if \<not> sequence_end (t ! child) \<and> children (t ! child) = [] then (c2, Trie_Unknown (scanned c2))
             else trie_loop t c2 bytes)"

definition advance_trie :: "decoder \<Rightarrow> step_result" where
  "advance_trie s =
     (case trie_loop (input_trie s) (cursor s) (drop (scanned (cursor s)) (dec_pending s)) of (c, outcome) \<Rightarrow>
        let s' = s\<lparr>cursor := c\<rparr> in
        case outcome of
          Trie_More \<Rightarrow> (s', [], TERM_OK, NEED_MORE)
        | Trie_Execute node byte_count \<Rightarrow> execute_action node byte_count s'
        | Trie_Unknown n \<Rightarrow>
            (reset_trie_cursor (consume n s'), [Unknown_Event UNSUPPORTED_SEQUENCE (take n (dec_pending s))], TERM_OK, CONSUMED))"

section \<open>Captured sequences\<close>

definition parse_alt_key :: "decoder \<Rightarrow> step_result" where
  "parse_alt_key s =
     (let bytes = dec_pending s in
      if bytes = [] then (s, [], TERM_OK, NEED_MORE)
      else let first = hd bytes; alt = (\<lambda>ev. Key_Event (ev\<lparr>event_modifiers := add_modifier (event_modifiers ev) ALT\<rparr>)) in
        if first = kEscape
        then (reset_active_action (consume 1 s), [alt (key_of (Named ESCAPE))], TERM_OK, CONSUMED)
        else case legacy_control_key first of
            Some control \<Rightarrow> (reset_active_action (consume 1 s), [alt control], TERM_OK, CONSUMED)
          | None \<Rightarrow>
              (case decode_one bytes of
                 Utf8_Incomplete \<Rightarrow> (s, [], TERM_OK, NEED_MORE)
               | Utf8_Invalid \<Rightarrow>
                   (reset_active_action (consume 1 s), [Unknown_Event INVALID_UTF8 (active_sequence s @ [first])], TERM_OK, CONSUMED)
               | Utf8_Valid codepoint len \<Rightarrow>
                   (reset_active_action (consume len s), [alt (key_of (Character codepoint))], TERM_OK, CONSUMED)))"

text \<open>How the scan of a captured sequence stops.\<close>

datatype capture_end = End_More | End_Escape | End_Final | End_Malformed | End_Limit

fun control_loop :: "nat \<Rightarrow> bytes \<Rightarrow> bytes \<Rightarrow> capture_end \<times> bytes \<times> bytes" where
  "control_loop limit active [] = (End_More, active, [])"
| "control_loop limit active (b # bs) =
     (if b = kEscape then (End_Escape, active, b # bs)
      else let active' = active @ [b] in
        if 0x40 \<le> b \<and> b \<le> 0x7e then (End_Final, active', bs)
        else if b < 0x20 \<or> b > 0x3f then (End_Malformed, active', bs)
        else if length active' \<ge> limit then (End_Limit, active', bs)
        else control_loop limit active' bs)"

fun string_loop :: "nat \<Rightarrow> bool \<Rightarrow> bytes \<Rightarrow> bytes \<Rightarrow> capture_end \<times> bytes \<times> bytes" where
  "string_loop limit bel active [] = (End_More, active, [])"
| "string_loop limit bel active (b # bs) =
     (if b = kEscape
      then case bs of
          [] \<Rightarrow> (End_More, active, [b])
        | c # cs \<Rightarrow>
            if c = 0x5c
            then if limit < 2 \<or> length active > limit - 2 then (End_Limit, active, b # bs)
                 else (End_Final, active @ [b, c], cs)
            else (End_Escape, active, b # bs)
      else let active' = active @ [b] in
        if bel \<and> b = 0x07 then (End_Final, active', bs)
        else if length active' \<ge> limit then (End_Limit, active', bs)
        else string_loop limit bel active' bs)"

text \<open>The common ends of the four capture functions; the final sequence is given to \<open>finish\<close>.\<close>

definition end_capture :: "(bytes \<Rightarrow> event \<times> term_status) \<Rightarrow> capture_end \<times> bytes \<times> bytes \<Rightarrow> decoder \<Rightarrow> step_result" where
  "end_capture final_event scan s =
     (case scan of (stop, active, rest) \<Rightarrow>
        let s' = s\<lparr>dec_pending := rest, active_sequence := active\<rparr> in
        case stop of
          End_More \<Rightarrow> (s', [], TERM_OK, NEED_MORE)
        | End_Escape \<Rightarrow> (reset_active_action s', [Unknown_Event INCOMPLETE_SEQUENCE active], TERM_OK, CONSUMED)
        | End_Final \<Rightarrow> (case final_event active of (e, st) \<Rightarrow> (reset_active_action s', [e], st, CONSUMED))
        | End_Malformed \<Rightarrow> (reset_active_action s', [Unknown_Event MALFORMED_SEQUENCE active], TERM_OK, CONSUMED)
        | End_Limit \<Rightarrow> (reset_active_action s', [Unknown_Event LIMIT_EXCEEDED []], INPUT_LIMIT_EXCEEDED, CONSUMED))"

definition capture_ss3 :: "decoder \<Rightarrow> step_result" where
  "capture_ss3 s =
     end_capture (\<lambda>active. (Unknown_Event UNSUPPORTED_SEQUENCE active, TERM_OK))
       (control_loop (maximum_sequence_bytes (limits s)) (active_sequence s) (dec_pending s)) s"

definition capture_csi :: "decoder \<Rightarrow> step_result" where
  "capture_csi s =
     (let sgr_mouse = (active_protocol s = Some SGR_MOUSE) in
      end_capture (\<lambda>active. (if sgr_mouse \<and> (last active = 0x4d \<or> last active = 0x6d)
          then parse_sgr_mouse active else parse_csi active, TERM_OK))
        (control_loop (maximum_sequence_bytes (limits s)) (active_sequence s) (dec_pending s)) s)"

definition capture_osc :: "decoder \<Rightarrow> step_result" where
  "capture_osc s =
     (let osc52 = (active_protocol s = Some OSC52);
          sequence_limit = (if osc52 then maximum_osc52_sequence_bytes (maximum_clipboard_bytes (limits s))
            else maximum_sequence_bytes (limits s))
      in end_capture (\<lambda>active. if osc52 then parse_osc52 active (maximum_clipboard_bytes (limits s)) else (parse_osc active, TERM_OK))
           (string_loop sequence_limit True (active_sequence s) (dec_pending s)) s)"

definition capture_st_string :: "decoder \<Rightarrow> step_result" where
  "capture_st_string s =
     end_capture (\<lambda>active. (Response_Event (if active_protocol s = Some PROTOCOL_DCS then DEVICE_CONTROL_STRING
         else OPERATING_SYSTEM_COMMAND) 0 active, TERM_OK))
       (string_loop (maximum_sequence_bytes (limits s)) False (active_sequence s) (dec_pending s)) s"

section \<open>Bracketed paste\<close>

definition append_paste_data :: "bytes \<Rightarrow> decoder \<Rightarrow> decoder \<times> event list \<times> term_status" where
  "append_paste_data data s =
     (if data = [] \<or> paste_discarding s then (s, [], TERM_OK)
      else if length data > maximum_paste_bytes (limits s) - min (paste_bytes s) (maximum_paste_bytes (limits s))
      then (s\<lparr>paste_discarding := True\<rparr>, [paste_event_of PASTE_CANCEL []], INPUT_LIMIT_EXCEEDED)
      else (s\<lparr>paste_bytes := paste_bytes s + length data\<rparr>, [paste_event_of PASTE_DATA data], TERM_OK))"

text \<open>The inner loop: bytes leave the candidate until it is a prefix of the terminator.\<close>

fun paste_shed :: "bytes \<Rightarrow> bytes \<Rightarrow> bytes \<times> bytes" where
  "paste_shed fin [] = ([], [])"
| "paste_shed fin (c # cs) = (if is_prefix (c # cs) fin then ([], c # cs) else apfst ((#) c) (paste_shed fin cs))"

fun paste_scan :: "bytes \<Rightarrow> bytes \<Rightarrow> bytes \<Rightarrow> bytes \<Rightarrow> bytes \<times> bytes \<times> bytes \<times> bool" where
  "paste_scan fin candidate [] data = (data, candidate, [], False)"
| "paste_scan fin candidate (b # bs) data =
     (case paste_shed fin (candidate @ [b]) of (shed, candidate') \<Rightarrow>
        if candidate' = fin then (data @ shed, candidate', bs, True)
        else paste_scan fin candidate' bs (data @ shed))"

definition end_paste_mode :: "decoder \<Rightarrow> decoder" where
  "end_paste_mode s = reset_active_action (s\<lparr>paste_in_progress := False, paste_discarding := False, paste_bytes := 0\<rparr>)"

definition capture_paste :: "decoder \<Rightarrow> step_result" where
  "capture_paste s =
     (if paste_end_sequence s = []
      then ((reset_active_action s)\<lparr>paste_in_progress := False\<rparr>, [Unknown_Event UNSUPPORTED_SEQUENCE []], TERM_UNSUPPORTED, CONSUMED)
      else case paste_scan (paste_end_sequence s) (paste_candidate s) (dec_pending s) [] of (data, candidate, rest, found) \<Rightarrow>
        if found
        then case append_paste_data data (s\<lparr>dec_pending := rest, paste_candidate := []\<rparr>) of (s', evs, st) \<Rightarrow>
          (end_paste_mode s', evs @ (if paste_discarding s' then [] else [paste_event_of PASTE_END []]), st, CONSUMED)
        else case append_paste_data data (s\<lparr>dec_pending := rest, paste_candidate := candidate\<rparr>) of (s', evs, st) \<Rightarrow>
          (s', evs, st, if data = [] then NEED_MORE else CONSUMED))"

section \<open>The loop\<close>

definition advance_active_action :: "decoder \<Rightarrow> step_result" where
  "advance_active_action s =
     (case active_protocol s of
        None \<Rightarrow> (reset_active_action s, [], TERM_INVALID_ARGUMENT, CONSUMED)
      | Some PROTOCOL_TEXT \<Rightarrow> parse_text s
      | Some PROTOCOL_ESCAPE \<Rightarrow> parse_alt_key s
      | Some SS3 \<Rightarrow> capture_ss3 s
      | Some CSI \<Rightarrow> capture_csi s
      | Some SGR_MOUSE \<Rightarrow> capture_csi s
      | Some OSC \<Rightarrow> capture_osc s
      | Some OSC52 \<Rightarrow> capture_osc s
      | Some PROTOCOL_DCS \<Rightarrow> capture_st_string s
      | Some APPLICATION_PROGRAM_COMMAND \<Rightarrow> capture_st_string s
      | Some PRIVACY_MESSAGE \<Rightarrow> capture_st_string s
      | Some PROTOCOL_PASTE_BEGIN \<Rightarrow> capture_paste s
      | Some PROTOCOL_PASTE_END \<Rightarrow> (reset_active_action s, [], TERM_INVALID_ARGUMENT, CONSUMED))"

definition advance :: "decoder \<Rightarrow> step_result" where
  "advance s = (if active_node s = None then advance_trie s else advance_active_action s)"

definition first_error :: "term_status \<Rightarrow> term_status \<Rightarrow> term_status" where
  "first_error st st' = (if st \<noteq> TERM_OK then st else st')"

type_synonym run_result = "decoder \<times> event list \<times> term_status"

partial_function (option) process :: "decoder \<Rightarrow> run_result option" where
  "process s =
     (if dec_pending s = [] then Some (s, [], TERM_OK)
      else case advance s of (s', evs, st, result) \<Rightarrow>
        if result = NEED_MORE then Some (s', evs, st)
        else Option.bind (process s') (\<lambda>(s'', evs', st'). Some (s'', evs @ evs', first_error st st')))"

declare process.simps [code]

section \<open>Timeouts and public operations\<close>

definition update_pending_timeout :: "bool \<Rightarrow> decoder \<Rightarrow> decoder" where
  "update_pending_timeout rearm s =
     (let needs_timeout = (\<not> paste_in_progress s \<and> (active_node s \<noteq> None \<or> dec_pending s \<noteq> [])) in
      if \<not> needs_timeout then s\<lparr>pending_timeout := None\<rparr>
      else if \<not> rearm \<and> pending_timeout s \<noteq> None then s
      else let generation = next_timeout_generation s + 1;
               generation' = (if generation = 0 then generation + 1 else generation)
        in s\<lparr>next_timeout_generation := generation', pending_timeout := Some generation'\<rparr>)"

definition feed :: "bytes \<Rightarrow> decoder \<Rightarrow> run_result option" where
  "feed bytes s =
     (let retained = min (pending_bytes s) (maximum_pending_bytes (limits s)) in
      if length bytes > maximum_pending_bytes (limits s) - retained
      then Some (s, [Unknown_Event LIMIT_EXCEEDED []], INPUT_LIMIT_EXCEEDED)
      else Option.bind (process (s\<lparr>dec_pending := dec_pending s @ bytes\<rparr>))
        (\<lambda>(s', evs, st). Some (update_pending_timeout (bytes \<noteq> []) s', evs, st)))"

definition after_events :: "event list \<Rightarrow> run_result option \<Rightarrow> run_result option" where
  "after_events evs r = map_option (\<lambda>(s, evs', st). (s, evs @ evs', st)) r"

definition resolve_timed_out_active_action :: "decoder \<Rightarrow> run_result option" where
  "resolve_timed_out_active_action s =
     (case active_protocol s of
        None \<Rightarrow> Some (reset_active_action s, [], TERM_INVALID_ARGUMENT)
      | Some protocol \<Rightarrow>
          if paste_in_progress s then Some (s, [], TERM_OK)
          else if active_sequence s = [] \<or> hd (active_sequence s) \<noteq> kEscape
          then Some (reset_trie_cursor (reset_active_action (s\<lparr>dec_pending := []\<rparr>)),
                 [Unknown_Event INCOMPLETE_SEQUENCE (active_sequence s @ dec_pending s)], TERM_OK)
          else if protocol = PROTOCOL_ESCAPE
          then after_events [Key_Event (key_of (Named ESCAPE))] (process (reset_trie_cursor (reset_active_action s)))
          else let replay = tl (active_sequence s) @ dec_pending s;
                   s' = reset_trie_cursor ((reset_active_action s)\<lparr>dec_pending := replay\<rparr>)
            in case find_child (input_trie s) kRootNode kEscape of
                None \<Rightarrow> after_events [Key_Event (key_of (Named ESCAPE))] (process s')
              | Some escape \<Rightarrow> process (s'\<lparr>active_node := Some escape, active_sequence := [kEscape]\<rparr>))"

text \<open>Sequential composition of two operations of which the second runs only after success.\<close>

definition and_then :: "run_result option \<Rightarrow> (decoder \<Rightarrow> run_result option) \<Rightarrow> run_result option" where
  "and_then r f =
     Option.bind r (\<lambda>(s, evs, st). if st = TERM_OK then after_events evs (f s) else Some (s, evs, st))"

definition resolve_if_active :: "decoder \<Rightarrow> run_result option" where
  "resolve_if_active s = (if active_node s \<noteq> None then resolve_timed_out_active_action s else Some (s, [], TERM_OK))"

definition timeout_status :: "decoder \<Rightarrow> run_result option" where
  "timeout_status s =
     (if active_node s \<noteq> None then resolve_timed_out_active_action s
      else case last_match (cursor s) of
          Some node \<Rightarrow>
            let matched_all = (last_match_size (cursor s) = length (dec_pending s)) in
            (case execute_action node (last_match_size (cursor s)) s of (s1, evs, st, _) \<Rightarrow>
               and_then (and_then (and_then (Some (s1, evs, st))
                 (\<lambda>s2. if matched_all then resolve_if_active s2 else Some (s2, [], TERM_OK)))
                 process) resolve_if_active)
        | None \<Rightarrow>
            Some (reset_trie_cursor (s\<lparr>dec_pending := []\<rparr>), [Unknown_Event INCOMPLETE_SEQUENCE (dec_pending s)], TERM_OK))"

definition handle_timeout :: "u64 \<Rightarrow> decoder \<Rightarrow> run_result option" where
  "handle_timeout generation s =
     (if pending_timeout s = None \<or> generation = 0 \<or> pending_timeout s \<noteq> Some generation then Some (s, [], TERM_OK)
      else let s0 = s\<lparr>pending_timeout := None\<rparr> in
        if paste_in_progress s0 then Some (s0, [], TERM_OK)
        else if active_node s0 = None \<and> dec_pending s0 = [] then Some (s0, [], TERM_OK)
        else map_option (\<lambda>(s', evs, st). (update_pending_timeout True s', evs, st)) (timeout_status s0))"

definition finish_pending :: "decoder \<Rightarrow> run_result" where
  "finish_pending s =
     (let n = cursor_node (cursor s);
          (s1, evs1, st1) =
            (if n \<noteq> kRootNode \<and> scanned (cursor s) = length (dec_pending s) \<and> sequence_end (input_trie s ! n) \<and>
                action_event (node_value (input_trie s ! n)) \<noteq> None
             then case execute_action n (length (dec_pending s)) s of (s1, evs, st, _) \<Rightarrow> (s1, evs, st)
             else (s, [], TERM_OK));
          (s2, evs2) = (if dec_pending s1 = [kEscape] then (consume 1 s1, [Key_Event (key_of (Named ESCAPE))]) else (s1, []));
          (s3, evs3) = (if dec_pending s2 \<noteq> []
             then (s2\<lparr>dec_pending := []\<rparr>, [Unknown_Event INCOMPLETE_SEQUENCE (dec_pending s2)]) else (s2, []))
      in (s3, evs1 @ evs2 @ evs3, st1))"

definition finish :: "decoder \<Rightarrow> run_result" where
  "finish s =
     (let (s', evs, st) =
        (if paste_in_progress s
         then case append_paste_data (paste_candidate s @ dec_pending s) (s\<lparr>dec_pending := [], paste_candidate := []\<rparr>) of
             (s1, evs, st) \<Rightarrow> (end_paste_mode s1, evs @ (if paste_discarding s1 then [] else [paste_event_of PASTE_CANCEL []]), st)
         else if active_node s \<noteq> None
         then (reset_active_action (s\<lparr>dec_pending := []\<rparr>),
               [Unknown_Event INCOMPLETE_SEQUENCE (active_sequence s @ dec_pending s)], TERM_OK)
         else if dec_pending s \<noteq> [] then finish_pending s
         else (s, [], TERM_OK))
      in ((reset_trie_cursor s')\<lparr>pending_timeout := None\<rparr>, evs, st))"

definition reset :: "decoder \<Rightarrow> decoder" where
  "reset s = (reset_active_action (reset_trie_cursor (s\<lparr>dec_pending := [], paste_in_progress := False,
     paste_discarding := False, paste_bytes := 0, paste_candidate := []\<rparr>)))\<lparr>pending_timeout := None\<rparr>"

end
