(* ===== verification/Portable_Event.thy ===== *)
theory Portable_Event
  imports Decoder_Parse
begin

text \<open>
  The events that can leave the process: what the parsers of the decoder produce is within the
  ranges that the message schemas of \<open>msgs/terminal_msgs.cpp\<close> can carry, and no longer than the
  bytes it was read from, apart from the text of a Kitty key report, which has at most 64 scalars.
\<close>

text \<open>The values of \<open>named_key\<close> that are enumerators of \<open>NamedKey\<close>.\<close>

fun enumerator :: "named_key \<Rightarrow> bool" where
  "enumerator (FUNCTION_KEY n) \<longleftrightarrow> 1 \<le> n \<and> n \<le> 35"
| "enumerator (Keypad (KEYPAD_DIGIT n)) \<longleftrightarrow> n \<le> 9"
| "enumerator _ \<longleftrightarrow> True"

fun portable_key_code :: "key_code \<Rightarrow> bool" where
  "portable_key_code (Named k) \<longleftrightarrow> enumerator k"
| "portable_key_code (Character c) \<longleftrightarrow> is_unicode_scalar c"

definition low_modifiers :: "modifiers \<Rightarrow> bool" where
  "low_modifiers m \<longleftrightarrow> m AND NOT 0xff = 0"

definition portable_key :: "key_event \<Rightarrow> bool" where
  "portable_key e \<longleftrightarrow> portable_key_code (event_key e) \<and> low_modifiers (event_modifiers e) \<and>
     pred_option is_unicode_scalar (shifted_key e) \<and> pred_option is_unicode_scalar (base_layout_key e) \<and> is_valid (event_text e)"

definition portable_cell :: "cell_position \<Rightarrow> bool" where
  "portable_cell c \<longleftrightarrow> cell_x c < 2 ^ 32 \<and> cell_y c < 2 ^ 32"

fun portable_event :: "event \<Rightarrow> bool" where
  "portable_event (Key_Event e) \<longleftrightarrow> portable_key e"
| "portable_event (Text_Event t) \<longleftrightarrow> is_valid (text_utf8 t)"
| "portable_event (Mouse_Event m) \<longleftrightarrow> portable_cell (mouse_position m) \<and> low_modifiers (mouse_modifiers m)"
| "portable_event (Scroll_Event s) \<longleftrightarrow> portable_cell (scroll_position s) \<and> low_modifiers (scroll_modifiers s) \<and>
     \<bar>delta_x s\<bar> < 2 ^ 31 \<and> \<bar>delta_y s\<bar> < 2 ^ 31"
| "portable_event _ \<longleftrightarrow> True"

fun event_size :: "event \<Rightarrow> nat" where
  "event_size (Key_Event e) = length (event_text e)"
| "event_size (Text_Event t) = length (text_utf8 t)"
| "event_size (Paste_Event p) = length (paste_data p)"
| "event_size (Clipboard_Event _ bs) = length bs"
| "event_size (Response_Event _ _ bs) = length bs"
| "event_size (Unknown_Event _ bs) = length bs"
| "event_size _ = 0"

definition kitty_text_bytes :: nat where
  "kitty_text_bytes = 256"

text \<open>An event that fits into a message, read from at most \<open>n\<close> bytes.\<close>

definition fits :: "nat \<Rightarrow> event \<Rightarrow> bool" where
  "fits n e \<longleftrightarrow> portable_event e \<and> event_size e \<le> max kitty_text_bytes n"

lemma fits_mono: "fits n e \<Longrightarrow> n \<le> m \<Longrightarrow> fits m e"
  by (auto simp: fits_def)

lemma fits_if: "(c \<Longrightarrow> fits n a) \<Longrightarrow> (\<not> c \<Longrightarrow> fits n b) \<Longrightarrow> fits n (if c then a else b)"
  by simp

lemma fits_bytes [simp]:
  "fits n (Unknown_Event r bs) \<longleftrightarrow> length bs \<le> max kitty_text_bytes n"
  "fits n (Response_Event k v bs) \<longleftrightarrow> length bs \<le> max kitty_text_bytes n"
  "fits n (Clipboard_Event c bs) \<longleftrightarrow> length bs \<le> max kitty_text_bytes n"
  by (simp_all add: fits_def)

section \<open>Modifiers\<close>

lemma low_modifiersI: "m \<le> 0xff \<Longrightarrow> low_modifiers m"
proof -
  assume "m \<le> 0xff"
  then have "m = m AND mask 8"
    by (simp add: take_bit_eq_mask [symmetric] word_unat_eq_iff word_le_nat_alt unsigned_take_bit_eq take_bit_nat_eq_self)
  then have "m AND NOT (mask 8) = 0" by (metis bit.conj_cancel_right and.assoc and_zero_eq)
  then show ?thesis by (simp add: low_modifiers_def mask_eq_exp_minus_1)
qed

lemma low_modifiers_0 [simp]: "low_modifiers 0"
  by (simp add: low_modifiers_def)

lemma low_modifiers_add [simp]: "low_modifiers (add_modifier bits m) \<longleftrightarrow> low_modifiers bits"
proof -
  have "modifier_bit m AND NOT 0xff = 0" by (cases m) simp_all
  then show ?thesis by (simp add: low_modifiers_def add_modifier_def bit.conj_disj_distrib2)
qed

lemma modifiers_low: "parse_modifiers_and_action field = Some (m, a) \<Longrightarrow> low_modifiers m"
proof -
  assume p: "parse_modifiers_and_action field = Some (m, a)"
  have "low_modifiers (ucast (encoded - 1))" if "\<not> (encoded < 1 \<or> encoded > 256)" for encoded :: u32
  proof (rule low_modifiersI)
    have "unat (encoded - 1) = unat encoded - 1" using that by (simp add: unat_sub word_le_nat_alt word_less_nat_alt not_less)
    moreover have "unat encoded - 1 \<le> 255" using that by (simp add: word_less_nat_alt not_less) linarith
    then have "take_bit 16 (unat encoded - 1) \<le> 255" using take_bit_nat_less_eq_self by (rule order_trans [rotated])
    ultimately show "(ucast (encoded - 1) :: u16) \<le> 0xff" by (simp add: word_le_nat_alt unsigned_ucast_eq)
  qed
  then show ?thesis using p unfolding parse_modifiers_and_action_def Let_def
    by (auto split: if_splits option.splits)
qed

lemma letter_modifiers_low: "parse_letter_key_fields body = Some (m, a) \<Longrightarrow> low_modifiers m"
  unfolding parse_letter_key_fields_def by (auto split: option.splits list.splits if_splits dest: modifiers_low)

section \<open>Keys\<close>

lemma map_of_enumerator: "list_all (enumerator \<circ> snd) xs \<Longrightarrow> map_of xs k = Some v \<Longrightarrow> enumerator v"
  by (auto simp: list_all_iff dest!: map_of_SomeD)

lemma key_tables_enumerators:
  "tilde_named_key n = Some k \<Longrightarrow> enumerator k" "csi_final_key b = Some k \<Longrightarrow> enumerator k"
proof -
  show "enumerator k" if "tilde_named_key n = Some k"
    by (rule map_of_enumerator [OF _ that [unfolded tilde_named_key_def]]) simp
  show "enumerator k" if "csi_final_key b = Some k"
    by (rule map_of_enumerator [OF _ that [unfolded csi_final_key_def]]) simp
qed

lemma keypad_enumerators: "list_all enumerator keypad_and_media_keys" "length keypad_and_media_keys = 56"
  by code_simp+

lemma kitty_enumerator:
  assumes "kitty_named_key code = Some k"
  shows "enumerator k"
proof (cases "map_of kitty_control_keys code")
  case None
  then consider (low) "57364 \<le> code" "code \<le> 57375" "k = FUNCTION_KEY (1 + unat (code - 57364))"
    | (high) "57376 \<le> code" "code \<le> 57398" "k = FUNCTION_KEY (13 + unat (code - 57376))"
    | (keypad) "57399 \<le> code" "code \<le> 57454" "k = keypad_and_media_keys ! unat (code - 57399)"
    using assms unfolding kitty_named_key_def by (auto split: if_splits)
  then show ?thesis
  proof cases
    case keypad
    then have "unat (code - 57399) < length keypad_and_media_keys"
      by (simp add: keypad_enumerators(2) unat_sub word_le_nat_alt)
    then show ?thesis using keypad keypad_enumerators(1) by (simp add: list_all_length)
  qed (auto simp: unat_sub word_le_nat_alt)
next
  case (Some k')
  then have "map_of kitty_control_keys code = Some k" using assms by (simp add: kitty_named_key_def)
  then show ?thesis by (rule map_of_enumerator [rotated]) (simp add: kitty_control_keys_def)
qed

lemma protocol_key_portable: "protocol_key_code code = Some k \<Longrightarrow> portable_key_code k"
  by (auto simp: protocol_key_code_def kitty_enumerator split: option.splits if_splits)

lemma key_of_portable: "portable_key_code k \<Longrightarrow> portable_key (key_of k)"
  by (simp add: portable_key_def key_of_def)

lemma ascii_scalar: "c \<le> 0x7f \<Longrightarrow> is_unicode_scalar c"
  by (simp add: is_unicode_scalar_def word_le_nat_alt)

lemma control_letter: "1 \<le> b \<Longrightarrow> b \<le> 26 \<Longrightarrow> is_unicode_scalar (0x61 + ucast b - 1)" for b :: u8
proof (rule ascii_scalar)
  assume b: "1 \<le> b" "b \<le> 26"
  have "(0x61 + ucast b - 1 :: u32) = word_of_nat (0x60 + unat b)" by simp
  then have "unat (0x61 + ucast b - 1 :: u32) = 0x60 + unat b"
    using b by (simp only: unsigned_of_nat) (simp add: word_le_nat_alt take_bit_nat_eq_self)
  then show "(0x61 + ucast b - 1 :: u32) \<le> 0x7f" using b by (simp add: word_le_nat_alt)
qed

lemma control_punctuation: "28 \<le> b \<Longrightarrow> b \<le> 31 \<Longrightarrow> is_unicode_scalar ([0x5c, 0x5d, 0x5e, 0x5f] ! unat (b - 28))" for b :: u8
proof -
  assume b: "28 \<le> b" "b \<le> 31"
  then have "unat (b - 28) < length [0x5c, 0x5d, 0x5e, 0x5f :: u32]" by (simp add: unat_sub word_le_nat_alt)
  moreover have "list_all is_unicode_scalar [0x5c, 0x5d, 0x5e, 0x5f]" by (simp add: is_unicode_scalar_def)
  ultimately show ?thesis by (simp only: list_all_length)
qed

lemma portable_alt [simp]: "portable_key (e\<lparr>event_modifiers := add_modifier (event_modifiers e) m\<rparr>) \<longleftrightarrow> portable_key e"
  by (simp add: portable_key_def)

lemma escape_portable [simp]: "portable_key (key_of (Named ESCAPE))" "event_text (key_of k) = []"
  by (simp_all add: key_of_def portable_key_def)

lemma decode_one_scalar: "decode_one bs = Utf8_Valid c len \<Longrightarrow> is_unicode_scalar c"
proof (cases bs)
  case (Cons b rest)
  have "is_unicode_scalar (ucast b)" if "b \<le> 0x7f"
    using that by (intro ascii_scalar) (simp add: word_le_nat_alt)
  then show "decode_one bs = Utf8_Valid c len \<Longrightarrow> is_unicode_scalar c"
    by (auto simp: Cons decode_one.simps Let_def split: if_splits option.splits)
qed (simp add: decode_one.simps)

lemma legacy_key_portable: "legacy_control_key b = Some e \<Longrightarrow> portable_key e \<and> event_text e = []"
proof -
  have "low_modifiers 4" "is_unicode_scalar 0x20" by (simp_all add: low_modifiers_def is_unicode_scalar_def)
  then show "legacy_control_key b = Some e \<Longrightarrow> portable_key e \<and> event_text e = []"
    using control_letter [of b] control_punctuation [of b]
    unfolding legacy_control_key_def Let_def portable_key_def key_of_def by (auto split: if_splits)
qed

lemma modified_key_fits:
  assumes "portable_key_code k" and "\<And>m a. parsed = Some (m, a) \<Longrightarrow> low_modifiers m" and "length sequence \<le> max kitty_text_bytes n"
  shows "fits n (modified_key sequence k parsed)"
  using assms by (auto simp: modified_key_def fits_def portable_key_def key_of_def split: option.split)

section \<open>Complete sequences\<close>

lemma length_append_scalar: "length (append_scalar c) \<le> 4"
  by (simp add: append_scalar_def)

lemma associated_text_length: "associated_text fs = Some t \<Longrightarrow> length t \<le> 4 * length fs"
  by (induction fs arbitrary: t) (auto split: option.splits if_splits intro: add_mono [OF length_append_scalar])

lemma associated_text_valid: "associated_text fs = Some t \<Longrightarrow> is_valid t"
  by (induction fs arbitrary: t)
    (auto simp: is_unicode_scalar_iff append_scalar_eq is_valid_append split: option.splits if_splits)

lemma split_fields_length: "split_fields maximum d t = Some fs \<Longrightarrow> length fs \<le> maximum"
  by (auto simp: split_fields_def Let_def split: if_splits)

lemma alternate_key_scalar: "alternate_key ks i = Some x \<Longrightarrow> pred_option is_unicode_scalar x"
  by (cases "parse_unsigned (ks ! i)"; cases x; simp add: alternate_key_def split: if_splits)

lemma kitty_key_fields_fit:
  assumes "kitty_key_fields body = Some (n, e)"
  shows "is_valid (event_text e)" "length (event_text e) \<le> kitty_text_bytes" "low_modifiers (event_modifiers e)"
    "pred_option is_unicode_scalar (shifted_key e)" "pred_option is_unicode_scalar (base_layout_key e)"
proof -
  have "event_text e = [] \<or> (\<exists>fs. length fs \<le> 64 \<and> associated_text fs = Some (event_text e))"
    using assms unfolding kitty_key_fields_def
    by (auto split: option.splits list.splits prod.splits if_splits dest: split_fields_length)
  then have "is_valid (event_text e) \<and> length (event_text e) \<le> kitty_text_bytes"
  proof
    assume "\<exists>fs. length fs \<le> 64 \<and> associated_text fs = Some (event_text e)"
    then obtain fs where fs: "length fs \<le> 64" "associated_text fs = Some (event_text e)" by blast
    show ?thesis using fs(1) associated_text_valid [OF fs(2)] associated_text_length [OF fs(2)] by (simp add: kitty_text_bytes_def)
  qed (simp add: kitty_text_bytes_def)
  then show "is_valid (event_text e)" "length (event_text e) \<le> kitty_text_bytes" by blast+
  show "low_modifiers (event_modifiers e)" "pred_option is_unicode_scalar (shifted_key e)"
    "pred_option is_unicode_scalar (base_layout_key e)"
    using assms unfolding kitty_key_fields_def
    by (auto split: option.splits list.splits prod.splits if_splits dest: modifiers_low alternate_key_scalar)
qed

lemma parse_csi_u_fits:
  assumes "length sequence \<le> n"
  shows "fits n (parse_csi_u sequence body)"
proof (cases "kitty_key_fields body")
  case None
  then show ?thesis using assms by (auto simp: parse_csi_u_def Let_def split: option.split)
next
  case (Some r)
  obtain k e where r: "r = (k, e)" by (cases r)
  note kf = kitty_key_fields_fit [OF Some [unfolded r]]
  have "fits n (Text_Event \<lparr>text_utf8 = event_text e\<rparr>)" "portable_key_code c \<Longrightarrow> fits n (Key_Event (e\<lparr>event_key := c\<rparr>))" for c
    using kf by (simp_all add: fits_def portable_key_def)
  then show ?thesis unfolding parse_csi_u_def Let_def Some r
    using assms protocol_key_portable by (auto split: option.split)
qed

lemma parse_csi_tilde_fits:
  assumes "length sequence \<le> n"
  shows "fits n (parse_csi_tilde sequence body)"
  using assms
  by (auto simp: parse_csi_tilde_def Let_def protocol_key_portable key_tables_enumerators intro!: modified_key_fits
      split: option.split list.split dest: modifiers_low)

lemma split_on_length: "f \<in> set (split_on d t) \<Longrightarrow> length f \<le> length t"
  by (induction d t arbitrary: f rule: split_on.induct) (auto split: if_splits list.splits, fastforce+)

lemma split_fields_member: "split_fields maximum d t = Some fs \<Longrightarrow> f \<in> set fs \<Longrightarrow> length f \<le> length t"
  by (auto simp: split_fields_def Let_def split_on_length split: if_splits)

lemma sequence_body_length: "length (sequence_body sequence) \<le> length sequence"
  by (simp add: sequence_body_def)

lemma parse_csi_fits:
  assumes "length sequence \<le> n"
  shows "fits n (parse_csi sequence)"
proof -
  have report: "fits n (Response_Event CURSOR_POSITION row f)" if "split_fields 2 0x3b (sequence_body sequence) = Some fs" "f \<in> set fs" for row f fs
    using split_fields_member [OF that] sequence_body_length [of sequence] assms by simp
  have key: "fits n (modified_key sequence (Named k) (parse_letter_key_fields (sequence_body sequence)))" if "enumerator k" for k
    using that assms by (intro modified_key_fits) (auto dest: letter_modifiers_low)
  have cursor: "fits n (case split_fields 2 0x3b (sequence_body sequence) of
      Some [f0, f1] \<Rightarrow> (case (parse_unsigned f0, parse_unsigned f1) of
         (Some row, Some column) \<Rightarrow> Response_Event CURSOR_POSITION row f1
       | _ \<Rightarrow> Unknown_Event MALFORMED_SEQUENCE sequence)
    | _ \<Rightarrow> Unknown_Event MALFORMED_SEQUENCE sequence)"
  proof (cases "split_fields 2 0x3b (sequence_body sequence)")
    case (Some fs)
    show ?thesis using report [OF Some] assms unfolding Some by (auto split: list.split option.split)
  qed (use assms in simp)
  show ?thesis unfolding parse_csi_def Let_def
    using assms
    by (intro fits_if cursor key parse_csi_u_fits parse_csi_tilde_fits) (auto simp: key_tables_enumerators)
qed

lemma parse_sgr_mouse_fits:
  assumes "length sequence \<le> n"
  shows "fits n (parse_sgr_mouse sequence)"
proof -
  have low: "low_modifiers (sgr_modifiers code)" for code by (simp add: sgr_modifiers_def Let_def)
  have cell: "portable_cell \<lparr>cell_x = unat x, cell_y = unat y\<rparr>" for x y :: u32
    using unsigned_less [of x, where ?'a = nat] unsigned_less [of y, where ?'a = nat] by (simp add: portable_cell_def)
  have "fits n (sgr_event final sequence code x y)" for final code x y
  proof -
    define cell_of where "cell_of = \<lparr>cell_x = unat (x - 1), cell_y = unat (y - 1)\<rparr>"
    have cell_of: "portable_cell cell_of" by (simp add: cell_of_def cell)
    have unknown: "fits n (Unknown_Event UNSUPPORTED_SEQUENCE sequence)" using assms by simp
    have mouse: "fits n (Mouse_Event \<lparr>mouse_position = cell_of, mouse_button = b, mouse_action = a,
        mouse_modifiers = sgr_modifiers code\<rparr>)" for b a
      using cell_of low by (simp add: fits_def)
    have scroll: "fits n (Scroll_Event \<lparr>scroll_position = cell_of, delta_x = (if p then 1 else if q then - 1 else 0),
        delta_y = (if u then 1 else if v then - 1 else 0), scroll_modifiers = sgr_modifiers code\<rparr>)" for p q u v
      using cell_of low by (simp add: fits_def)
    show ?thesis unfolding sgr_event_def Let_def cell_of_def [symmetric]
      by (rule fits_if, rule unknown, rule fits_if, rule scroll, rule mouse)
  qed
  then show ?thesis unfolding parse_sgr_mouse_def Let_def using assms by (auto split: option.split list.split)
qed

lemma clipboard_payload_length:
  assumes "decode_clipboard_payload encoded maximum = (st, Some data)"
  shows "length data \<le> length encoded"
proof -
  define content where "content = length encoded - length (takeWhile (\<lambda>c. c = 0x3d) (rev encoded))"
  define decoded where "decoded = content div 4 * 3 + (if content mod 4 = 2 then 1 else 0) + (if content mod 4 = 3 then 2 else 0)"
  have "length data = decoded"
    using assms unfolding decode_clipboard_payload_def Let_def content_def [symmetric] decoded_def [symmetric]
    by (simp split: if_split_asm option.split_asm prod.split_asm)
  moreover have "decoded \<le> content" unfolding decoded_def by presburger
  moreover have "content \<le> length encoded" by (simp add: content_def)
  ultimately show ?thesis by simp
qed

lemma osc52_result_fits:
  assumes "\<And>x. d = Some x \<Longrightarrow> fits n (Clipboard_Event c x)"
  shows "fits n (fst (case (st, d) of (TERM_OK, Some data) \<Rightarrow> (Clipboard_Event c data, TERM_OK)
    | (status, _) \<Rightarrow> if status = INPUT_LIMIT_EXCEEDED then (Unknown_Event LIMIT_EXCEEDED [], INPUT_LIMIT_EXCEEDED)
        else (Unknown_Event MALFORMED_SEQUENCE [], TERM_OK)))"
  using assms by (cases st; cases d) simp_all

lemma parse_osc52_fits:
  assumes "length sequence \<le> n"
  shows "fits n (fst (parse_osc52 sequence maximum))"
proof -
  define payload where "payload = tl (dropWhile (\<lambda>b. b \<noteq> 0x3b) (drop 3 (osc_content sequence)))"
  obtain st d where d: "decode_clipboard_payload payload maximum = (st, d)" by fastforce
  have "length payload \<le> n"
    using assms length_dropWhile_le [of "\<lambda>b. b \<noteq> 0x3b" "drop 3 (osc_content sequence)"]
    by (simp add: payload_def osc_content_def Let_def)
  then have data: "fits n (Clipboard_Event c x)" if "d = Some x" for c x
    using clipboard_payload_length [OF d [unfolded that]] by simp
  have "fits n (Unknown_Event MALFORMED_SEQUENCE sequence)" using assms by simp
  then show ?thesis unfolding parse_osc52_def Let_def payload_def [symmetric] d
    by (simp only: fst_conv if_distrib [of fst]) (intro fits_if osc52_result_fits data; simp)
qed

end
