(* ===== verification/Decoder_Correct.thy ===== *)
theory Decoder_Correct
  imports Input_Decoder Portable_Event
begin

text \<open>
  Correctness of the streaming decoder: longest match, termination of the processing loop for
  every configured map, bounded memory, framing and content of bracketed paste, and UTF-8.
\<close>

section \<open>Longest match\<close>

definition match_ok :: "input_trie \<Rightarrow> bytes \<Rightarrow> trie_cursor \<Rightarrow> bool" where
  "match_ok t bs c \<longleftrightarrow> scanned c \<le> length bs \<and> find_node t (take (scanned c) bs) = Some (cursor_node c) \<and>
     (\<forall>k. 0 < k \<longrightarrow> k \<le> scanned c \<longrightarrow> trie_find t (take k bs) \<noteq> None \<longrightarrow> last_match c \<noteq> None \<and> k \<le> last_match_size c) \<and>
     (\<forall>n. last_match c = Some n \<longrightarrow> 0 < last_match_size c \<and> last_match_size c \<le> scanned c \<and>
        find_node t (take (last_match_size c) bs) = Some n \<and> sequence_end (t ! n))"

lemma match_okD:
  assumes "match_ok t bs c"
  shows "scanned c \<le> length bs" "find_node t (take (scanned c) bs) = Some (cursor_node c)"
    "0 < k \<Longrightarrow> k \<le> scanned c \<Longrightarrow> trie_find t (take k bs) \<noteq> None \<Longrightarrow> last_match c \<noteq> None \<and> k \<le> last_match_size c"
    "last_match c = Some n \<Longrightarrow> 0 < last_match_size c \<and> last_match_size c \<le> scanned c \<and>
        find_node t (take (last_match_size c) bs) = Some n \<and> sequence_end (t ! n)"
  using assms unfolding match_ok_def by blast+

lemma match_ok_root [simp]: "match_ok t bs root_cursor"
  by (simp add: match_ok_def root_cursor_def find_node_def)

lemma match_ok_append: "match_ok t bs c \<Longrightarrow> match_ok t (bs @ rest) c"
  unfolding match_ok_def by auto

text \<open>A cursor that waits for more bytes is at a node with children.\<close>

definition cursor_live :: "input_trie \<Rightarrow> trie_cursor \<Rightarrow> bool" where
  "cursor_live t c \<longleftrightarrow> scanned c = 0 \<or> children (t ! cursor_node c) \<noteq> []"

lemma cursor_live_root [simp]: "cursor_live t root_cursor"
  by (simp add: cursor_live_def root_cursor_def)

definition longest_match :: "input_trie \<Rightarrow> bytes \<Rightarrow> nat \<Rightarrow> bool" where
  "longest_match t bs k \<longleftrightarrow> k \<le> length bs \<and> (\<forall>j. k < j \<longrightarrow> j \<le> length bs \<longrightarrow> trie_find t (take j bs) = None)"

text \<open>
  A disabled sequence keeps its path in the trie: a childless node that ends nothing. The decoder
  reports such bytes as unsupported and does not fall back to a shorter match.
\<close>

definition disabled_at :: "input_trie \<Rightarrow> bytes \<Rightarrow> bool" where
  "disabled_at t ks \<longleftrightarrow> (case find_node t ks of None \<Rightarrow> False | Some n \<Rightarrow> \<not> sequence_end (t ! n) \<and> children (t ! n) = [])"

fun outcome_ok :: "input_trie \<Rightarrow> bytes \<Rightarrow> trie_cursor \<Rightarrow> trie_outcome \<Rightarrow> bool" where
  "outcome_ok t bs c Trie_More \<longleftrightarrow> scanned c = length bs \<and> cursor_live t c"
| "outcome_ok t bs c (Trie_Execute n k) \<longleftrightarrow> find_node t (take k bs) = Some n \<and> sequence_end (t ! n) \<and> longest_match t bs k"
| "outcome_ok t bs c (Trie_Unknown n) \<longleftrightarrow> 0 < n \<and> n \<le> length bs \<and> (longest_match t bs 0 \<or> disabled_at t (take n bs))"

lemma find_node_extend: "find_node t ks = Some n \<Longrightarrow> find_node t (ks @ [k]) = find_child t n k"
  by (simp add: find_node_def find_from_append split: option.split)

lemma find_node_beyond:
  assumes "find_node t (take i bs) = Some n" and "i < length bs" and "find_child t n (bs ! i) = None" and "i < j"
  shows "find_node t (take j bs) = None" "trie_find t (take j bs) = None"
proof -
  have "take j bs = (take i bs @ [bs ! i]) @ drop (Suc i) (take j bs)"
    using assms(2,4) by (metis Suc_leI append_take_drop_id min.absorb2 take_Suc_conv_app_nth take_take min.commute)
  then show "find_node t (take j bs) = None"
    using find_node_extend [OF assms(1), of "bs ! i"] assms(3) by (metis find_node_def find_from_append option.simps(4))
  then show "trie_find t (take j bs) = None" by (simp add: trie_find_def)
qed

lemma match_longest:
  assumes ok: "match_ok t bs c" and beyond: "\<forall>j. scanned c < j \<longrightarrow> j \<le> length bs \<longrightarrow> trie_find t (take j bs) = None"
  shows "last_match c = Some n \<Longrightarrow> longest_match t bs (last_match_size c)"
    and "last_match c = None \<Longrightarrow> longest_match t bs 0"
proof -
  show "longest_match t bs (last_match_size c)" if "last_match c = Some n"
    unfolding longest_match_def
    using match_okD(1) [OF ok] match_okD(3) [OF ok] match_okD(4) [OF ok that] beyond by (metis leD le_trans not_less zero_less_iff_neq_zero less_trans)
  show "longest_match t bs 0" if "last_match c = None"
    unfolding longest_match_def using match_okD(3) [OF ok] beyond that by (metis not_less zero_le)
qed

definition after_byte :: "input_trie \<Rightarrow> nat \<Rightarrow> trie_cursor \<Rightarrow> trie_cursor" where
  "after_byte t child c =
     (let c1 = c\<lparr>cursor_node := child, scanned := Suc (scanned c)\<rparr>
      in if sequence_end (t ! child) then c1\<lparr>last_match := Some child, last_match_size := scanned c1\<rparr> else c1)"

lemma match_ok_after:
  assumes ok: "match_ok t bs c" and lt: "scanned c < length bs" and child: "find_child t (cursor_node c) (bs ! scanned c) = Some n"
  shows "match_ok t bs (after_byte t n c)"
proof -
  have node: "find_node t (take (Suc (scanned c)) bs) = Some n"
    using find_node_extend [OF match_okD(2) [OF ok]] child lt by (simp add: take_Suc_conv_app_nth)
  have "trie_find t (take (Suc (scanned c)) bs) \<noteq> None \<longleftrightarrow> sequence_end (t ! n)" by (simp add: trie_find_def node)
  moreover have "\<And>k. 0 < k \<Longrightarrow> k \<le> Suc (scanned c) \<Longrightarrow> k \<noteq> Suc (scanned c) \<Longrightarrow> k \<le> scanned c" by simp
  ultimately show ?thesis
    using node lt match_okD(3,4) [OF ok] unfolding match_ok_def after_byte_def Let_def by (auto simp: le_Suc_eq)
qed

lemma trie_loop_Cons:
  "trie_loop t c (byte # bytes) =
    (case find_child t (cursor_node c) byte of
       None \<Rightarrow> (c, case last_match c of Some n \<Rightarrow> Trie_Execute n (last_match_size c)
         | None \<Rightarrow> if scanned c \<noteq> 0 then Trie_Unknown (scanned c)
             else if sequence_end (t ! kRootNode) then Trie_Execute kRootNode 0 else Trie_Unknown 1)
     | Some n \<Rightarrow> if children (t ! n) = []
         then (after_byte t n c, if sequence_end (t ! n) then Trie_Execute n (Suc (scanned c)) else Trie_Unknown (Suc (scanned c)))
         else trie_loop t (after_byte t n c) bytes)"
  by (auto simp: after_byte_def Let_def split: option.split)

lemma trie_loop_ok:
  assumes wf: "trie_wf t"
  shows "match_ok t bs c \<Longrightarrow> cursor_live t c \<Longrightarrow> rest = drop (scanned c) bs \<Longrightarrow> trie_loop t c rest = (c', out) \<Longrightarrow>
    match_ok t bs c' \<and> outcome_ok t bs c' out"
proof (induction rest arbitrary: c)
  case Nil
  then show ?case using match_okD(1) [of t bs c] by simp
next
  case (Cons b rest)
  have lt: "scanned c < length bs" and b: "b = bs ! scanned c" and rest: "rest = drop (Suc (scanned c)) bs"
    using Cons.prems(3) by (metis drop_all list.discI not_le, metis Cons_nth_drop_Suc drop_all list.discI list.inject not_le,
        metis Cons_nth_drop_Suc drop_all list.discI list.inject not_le)
  note node = match_okD(2) [OF Cons.prems(1)]
  show ?case
  proof (cases "find_child t (cursor_node c) b")
    case None
    have beyond: "\<forall>j. scanned c < j \<longrightarrow> j \<le> length bs \<longrightarrow> trie_find t (take j bs) = None"
      using find_node_beyond(2) [OF node lt] None b by blast
    note longest = match_longest [OF Cons.prems(1) beyond]
    show ?thesis
    proof (cases "last_match c")
      case (Some n)
      then show ?thesis using Cons.prems(1,4) None longest(1) [OF Some] match_okD(4) [OF Cons.prems(1) Some]
        by (auto simp: trie_loop_Cons simp del: trie_loop.simps)
    next
      case last: None
      then show ?thesis using Cons.prems(1,4) None longest(2) [OF last] lt match_okD(1) [OF Cons.prems(1)]
        by (auto simp: trie_loop_Cons find_node_def Suc_le_eq simp del: trie_loop.simps split: if_splits)
    qed
  next
    case (Some n)
    note after = match_ok_after [OF Cons.prems(1) lt Some [unfolded b]]
    have sc: "scanned (after_byte t n c) = Suc (scanned c)" by (simp add: after_byte_def Let_def)
    show ?thesis
    proof (cases "children (t ! n) = []")
      case False
      then have "cursor_live t (after_byte t n c)" by (simp add: cursor_live_def after_byte_def Let_def)
      with False show ?thesis using Cons.IH [OF after] Cons.prems(4) Some rest sc
        by (simp add: trie_loop_Cons del: trie_loop.simps)
    next
      case leaf: True
      have n: "find_node t (take (Suc (scanned c)) bs) = Some n" using match_okD(2) [OF after] by (simp add: after_byte_def Let_def split: if_splits)
      have none: "find_child t n k = None" for k
        using find_child_None_iff [OF wf find_node_bound [OF wf n]] leaf by simp
      have beyond: "\<forall>j. scanned (after_byte t n c) < j \<longrightarrow> j \<le> length bs \<longrightarrow> trie_find t (take j bs) = None"
        using find_node_beyond(2) [OF n _ none] sc by (metis Suc_le_eq le_trans less_le_trans)
      note longest = match_longest [OF after beyond]
      show ?thesis
      proof (cases "sequence_end (t ! n)")
        case True
        then have "last_match (after_byte t n c) = Some n" "last_match_size (after_byte t n c) = Suc (scanned c)"
          by (simp_all add: after_byte_def Let_def)
        then show ?thesis using longest(1) Cons.prems(4) Some leaf True n after
          by (simp add: trie_loop_Cons del: trie_loop.simps) auto
      next
        case False
        have "disabled_at t (take (Suc (scanned c)) bs)" using n False leaf by (auto simp: disabled_at_def)
        then show ?thesis using Cons.prems(4) Some leaf False after lt
          by (auto simp: trie_loop_Cons simp del: trie_loop.simps)
      qed
    qed
  qed
qed



section \<open>Text runs\<close>

lemma ascii_append_utf8: "b < 0x80 \<Longrightarrow> append_utf8 (ucast b) = [b]" for b :: u8
proof -
  assume "b < 0x80"
  then have "decode_one (b # []) = Utf8_Valid (ucast b) 1" by (simp add: decode_one.simps(2) word_less_nat_alt word_le_nat_alt)
  from decode_one_valid(2) [OF this] show ?thesis by simp
qed

lemma text_scan_spec:
  "text_scan bs n = (m, stop) \<Longrightarrow> n \<le> m \<and> m - n \<le> length bs \<and> is_valid (take (m - n) bs)"
proof (induction bs n arbitrary: m stop rule: text_scan.induct)
  case (2 b bs n)
  consider "b = kEscape \<or> b < 0x20 \<or> b = 0x7f" | "\<not> (b = kEscape \<or> b < 0x20 \<or> b = 0x7f)" "b < 0x80"
    | "\<not> (b = kEscape \<or> b < 0x20 \<or> b = 0x7f)" "\<not> b < 0x80" by blast
  then show ?case
  proof cases
    case 1
    then show ?thesis using "2.prems" by auto
  next
    case 2
    then have ih: "Suc n \<le> m" "m - Suc n \<le> length bs" "is_valid (take (m - Suc n) bs)"
      using "2.IH"(1) [OF 2] "2.prems" by (auto simp del: text_scan.simps(2) simp: text_scan.simps(2) [of b bs n])
    have "take (m - n) (b # bs) = append_utf8 (ucast b) @ take (m - Suc n) bs"
      using ih(1) 2(2) by (simp add: ascii_append_utf8 take_Cons' Suc_diff_le)
    then show ?thesis using ih by (simp add: is_valid_append)
  next
    case 3
    show ?thesis
    proof (cases "decode_one (b # bs)")
      case (Utf8_Valid c len)
      note v = decode_one_valid [OF Utf8_Valid]
      have ih: "n + len \<le> m" "m - (n + len) \<le> length (drop (len - 1) bs)" "is_valid (take (m - (n + len)) (drop (len - 1) bs))"
        using "2.IH"(2) [OF 3 Utf8_Valid] "2.prems" 3 Utf8_Valid by auto
      have "take (m - n) (b # bs) = take len (b # bs) @ take (m - (n + len)) (drop len (b # bs))"
        using ih(1) by (metis add.commute diff_diff_left le_add_diff_inverse2 take_add diff_le_mono le_add1 diff_add_inverse)
      then have "is_valid (take (m - n) (b # bs))" using v(2,3) ih(3) by (simp add: is_valid_append drop_Cons')
      then show ?thesis using ih(1,2) v(3,4) by simp
    qed (use "2.prems" 3 in auto)
  qed
qed simp

lemma text_scan_progress:
  assumes "text_scan (b # bs) 0 = (0, stop)" and "\<not> (b < 0x20 \<or> b = 0x7f)"
  shows "stop = Stop_Incomplete \<or> stop = Stop_Invalid"
proof -
  have b: "\<not> (b = kEscape \<or> b < 0x20 \<or> b = 0x7f)" using assms(2) by (auto simp: kEscape_def)
  show ?thesis
    using assms(1) b text_scan_spec [of bs "Suc 0" 0] decode_one_valid(3) [of "b # bs"] text_scan_spec [of _ _ 0]
    by (fastforce split: if_splits utf8_result.splits)
qed

section \<open>Every step keeps the invariant\<close>

text \<open>
  The state of a configured decoder: the trie cursor describes the scanned bytes, and it is at the
  root while a protocol is active; without an active protocol no sequence is being captured.
\<close>

definition dec_ok :: "decoder \<Rightarrow> bool" where
  "dec_ok s \<longleftrightarrow> input_trie_ok (input_trie s) \<and> match_ok (input_trie s) (dec_pending s) (cursor s) \<and>
     cursor_live (input_trie s) (cursor s) \<and>
     (case active_node s of None \<Rightarrow> active_sequence s = []
      | Some n \<Rightarrow> n < length (input_trie s) \<and> cursor s = root_cursor)"

fun plain_event :: "event \<Rightarrow> bool" where
  "plain_event (Text_Event t) \<longleftrightarrow> text_utf8 t \<noteq> [] \<and> is_valid (text_utf8 t)"
| "plain_event (Paste_Event p) \<longleftrightarrow> False"
| "plain_event _ \<longleftrightarrow> True"

fun event_ok :: "event \<Rightarrow> bool" where
  "event_ok (Text_Event t) \<longleftrightarrow> text_utf8 t \<noteq> [] \<and> is_valid (text_utf8 t)"
| "event_ok _ \<longleftrightarrow> True"

lemma plain_event_ok: "plain_event e \<Longrightarrow> event_ok e"
  by (cases e) auto

definition same_config :: "decoder \<Rightarrow> decoder \<Rightarrow> bool" where
  "same_config s s' \<longleftrightarrow> input_trie s' = input_trie s \<and> limits s' = limits s \<and> paste_end_sequence s' = paste_end_sequence s"

text \<open>The measure of the loop: an active protocol weighs half a byte.\<close>

definition rank :: "decoder \<Rightarrow> nat" where
  "rank s = 2 * length (dec_pending s) + (if active_node s = None then 0 else 1)"

text \<open>
  Where an event comes from: it is one that the configuration stores, or it was parsed from at most
  \<open>n\<close> bytes and fits into a message.
\<close>

definition sourced :: "input_trie \<Rightarrow> nat \<Rightarrow> event \<Rightarrow> bool" where
  "sourced t n e \<longleftrightarrow> (\<exists>ks. trie_find t ks = Some (Emit_Input_Event e)) \<or> fits n e"

lemma sourced_fits: "fits n e \<Longrightarrow> n \<le> m \<Longrightarrow> sourced t m e"
  using fits_mono by (auto simp: sourced_def)

lemma sourced_bytes [simp]:
  "length bs \<le> n \<Longrightarrow> sourced t n (Unknown_Event r bs)" "length bs \<le> n \<Longrightarrow> sourced t n (Response_Event k v bs)"
  "length bs \<le> n \<Longrightarrow> sourced t n (Paste_Event \<lparr>paste_phase = ph, paste_data = bs\<rparr>)"
  "length bs \<le> n \<Longrightarrow> is_valid bs \<Longrightarrow> sourced t n (Text_Event \<lparr>text_utf8 = bs\<rparr>)"
  by (auto simp: sourced_def fits_def)

lemma sourced_key [simp]: "portable_key k \<Longrightarrow> event_text k = [] \<Longrightarrow> sourced t n (Key_Event k)"
  by (simp add: sourced_def fits_def)

lemma sourced_all_mono: "list_all (sourced t n) evs \<Longrightarrow> n \<le> m \<Longrightarrow> list_all (sourced t m) evs"
  using fits_mono by (auto simp: sourced_def elim!: list.pred_mono_strong)

lemma sourced_configured: "trie_find t ks = Some (Emit_Input_Event e) \<Longrightarrow> sourced t n e"
  by (auto simp: sourced_def)

definition result_ok :: "decoder \<Rightarrow> decoder \<times> event list \<times> 'a \<Rightarrow> bool" where
  "result_ok s r \<longleftrightarrow> (case r of (s', evs, _) \<Rightarrow>
     dec_ok s' \<and> same_config s s' \<and> pending_bytes s' \<le> pending_bytes s \<and> list_all event_ok evs \<and>
     list_all (sourced (input_trie s) (pending_bytes s)) evs)"

definition step_ok :: "decoder \<Rightarrow> step_result \<Rightarrow> bool" where
  "step_ok s r \<longleftrightarrow> result_ok s r \<and> (case r of (s', _, _, result) \<Rightarrow> result = CONSUMED \<longrightarrow> rank s' < rank s)"

lemmas dec_ops = consume_def reset_trie_cursor_def reset_active_action_def
lemmas step_defs = step_ok_def result_ok_def dec_ok_def same_config_def pending_bytes_def rank_def

lemma active_protocol_frame [simp]:
  "active_protocol (s\<lparr>dec_pending := bs\<rparr>) = active_protocol s"
  "active_protocol (s\<lparr>active_sequence := bs\<rparr>) = active_protocol s"
  "active_protocol (s\<lparr>paste_candidate := bs\<rparr>) = active_protocol s"
  "active_protocol (s\<lparr>cursor := c\<rparr>) = active_protocol s"
  "active_protocol (s\<lparr>paste_discarding := d\<rparr>) = active_protocol s"
  "active_protocol (s\<lparr>paste_bytes := n\<rparr>) = active_protocol s"
  by (simp_all add: active_protocol_def split: option.split)

lemma parse_text_ok:
  assumes ok: "dec_ok s" and root: "cursor s = root_cursor" and ne: "dec_pending s \<noteq> []"
  shows "step_ok s (parse_text s)"
proof -
  obtain b bs where p: "dec_pending s = b # bs" using ne by (cases "dec_pending s") auto
  obtain m stop where scan: "text_scan (b # bs) 0 = (m, stop)" by fastforce
  have m: "m \<le> length (b # bs)" "is_valid (take m (b # bs))" using text_scan_spec [OF scan] by auto
  have pos: "m \<noteq> 0" if "\<not> (b < 0x20 \<or> b = 0x7f)" "stop \<noteq> Stop_Incomplete" "stop \<noteq> Stop_Invalid"
    using text_scan_progress [of b bs stop] scan that by auto
  show ?thesis
    using ok root m pos unfolding parse_text_def p scan Let_def
    by (auto simp: step_defs consume_def p scan split: option.split)
qed

section \<open>Captured sequences\<close>

lemma kitty_key_fields_valid:
  assumes "kitty_key_fields body = Some (n, ev)"
  shows "is_valid (event_text ev)"
proof -
  have "\<exists>fs. event_text ev = [] \<or> associated_text fs = Some (event_text ev)"
    using assms unfolding kitty_key_fields_def
    by (auto split: option.splits list.splits prod.splits if_splits)
  then show ?thesis using associated_text_valid by auto
qed

lemma parse_csi_u_ok: "plain_event (parse_csi_u sequence body)"
  using kitty_key_fields_valid [of body]
  by (auto simp: parse_csi_u_def Let_def split: option.split prod.split)

lemma modified_key_ok: "plain_event (modified_key sequence k parsed)"
  by (auto simp: modified_key_def split: option.split)

lemma parse_csi_tilde_ok: "plain_event (parse_csi_tilde sequence body)"
  by (auto simp: parse_csi_tilde_def Let_def modified_key_ok split: option.split list.split)

lemma parse_csi_ok: "plain_event (parse_csi sequence)"
  by (auto simp: parse_csi_def Let_def parse_csi_u_ok parse_csi_tilde_ok modified_key_ok split: option.split list.split)

lemma parse_sgr_mouse_ok: "plain_event (parse_sgr_mouse sequence)"
  by (auto simp: parse_sgr_mouse_def sgr_event_def Let_def split: option.split list.split)

lemma parse_osc52_ok: "plain_event (fst (parse_osc52 sequence n))"
  by (auto simp: parse_osc52_def Let_def split: term_status.split option.split prod.split)

definition scan_ok :: "bytes \<Rightarrow> bytes \<Rightarrow> capture_end \<times> bytes \<times> bytes \<Rightarrow> bool" where
  "scan_ok active bs r \<longleftrightarrow> (case r of (_, active', rest) \<Rightarrow>
     length rest \<le> length bs \<and> length active' + length rest \<le> length active + length bs)"

lemma control_loop_ok: "scan_ok active bs (control_loop limit active bs)"
  by (induction limit active bs rule: control_loop.induct) (auto simp: scan_ok_def Let_def split: prod.split)

lemma string_loop_ok: "scan_ok active bs (string_loop limit bel active bs)"
proof (induction limit bel active bs rule: string_loop.induct)
  case (2 limit bel active b bs)
  show ?case
  proof (cases "b = kEscape")
    case True
    then show ?thesis by (cases bs) (auto simp: scan_ok_def)
  next
    case False
    then show ?thesis using "2.IH" [OF False refl] by (auto simp: scan_ok_def Let_def split: prod.splits)
  qed
qed (simp add: scan_ok_def)

lemma end_capture_ok:
  assumes ok: "dec_ok s" and act: "active_node s \<noteq> None" and scan: "scan_ok (active_sequence s) (dec_pending s) r"
    and ev: "\<And>bs. plain_event (fst (final_event bs))" and fit: "\<And>bs n. length bs \<le> n \<Longrightarrow> fits n (fst (final_event bs))"
  shows "step_ok s (end_capture final_event r s)"
proof -
  obtain stop active rest where r: "r = (stop, active, rest)" by (cases r)
  obtain n where n: "active_node s = Some n" using act by blast
  obtain e st where e: "final_event active = (e, st)" "event_ok e" using plain_event_ok [OF ev [of active]] by (cases "final_event active") auto
  have "length active \<le> pending_bytes s" using scan by (simp add: r scan_ok_def pending_bytes_def)
  then have "sourced (input_trie s) (pending_bytes s) e" using sourced_fits [OF fit [of active] order_refl] e(1) by simp
  then show ?thesis
    using ok n scan e unfolding r end_capture_def by (cases stop) (auto simp: step_defs dec_ops scan_ok_def)
qed

lemma capture_ok:
  assumes "dec_ok s" and "active_node s \<noteq> None"
  shows "step_ok s (capture_ss3 s)" "step_ok s (capture_csi s)" "step_ok s (capture_osc s)" "step_ok s (capture_st_string s)"
  unfolding capture_ss3_def capture_csi_def capture_osc_def capture_st_string_def Let_def
  by (rule end_capture_ok [OF assms]; simp add: control_loop_ok string_loop_ok parse_csi_ok parse_sgr_mouse_ok
      parse_osc52_ok parse_osc_def parse_csi_fits parse_sgr_mouse_fits parse_osc52_fits le_max_iff_disj)+

lemma parse_alt_key_ok:
  assumes ok: "dec_ok s" and act: "active_node s \<noteq> None"
  shows "step_ok s (parse_alt_key s)"
proof -
  obtain n where "active_node s = Some n" using act by blast
  then show ?thesis
    using ok decode_one_valid [of "dec_pending s"] decode_one_scalar [of "dec_pending s"] legacy_key_portable [of "hd (dec_pending s)"]
    unfolding parse_alt_key_def Let_def
    by (cases "dec_pending s") (auto simp: step_defs dec_ops key_of_portable split: option.split utf8_result.split)
qed

section \<open>Paste mode\<close>

lemma paste_shed_append: "paste_shed fin cs = (shed, c) \<Longrightarrow> shed @ c = cs"
  by (induction cs arbitrary: shed) (auto split: if_splits prod.splits simp: apfst_def map_prod_def)

lemma paste_scan_append: "paste_scan fin c bs data = (d, c', rest, found) \<Longrightarrow> d @ c' @ rest = data @ c @ bs"
proof (induction fin c bs data rule: paste_scan.induct)
  case (2 fin c b bs data)
  obtain shed k where k: "paste_shed fin (c @ [b]) = (shed, k)" by fastforce
  show ?case using paste_shed_append [OF k] 2 k by (auto split: if_splits)
qed simp

lemma paste_scan_rest: "paste_scan fin c bs data = (d, c', rest, found) \<Longrightarrow>
    (found \<longrightarrow> bs \<noteq> [] \<and> length rest < length bs) \<and> (\<not> found \<longrightarrow> rest = [])"
  by (induction fin c bs data rule: paste_scan.induct) (fastforce split: prod.splits if_splits)+

lemma append_paste_data_frame:
  assumes "append_paste_data data s = (s', evs, st)"
  shows "list_all event_ok evs" "dec_pending s' = dec_pending s" "active_node s' = active_node s" "cursor s' = cursor s"
    "active_sequence s' = active_sequence s" "paste_candidate s' = paste_candidate s" "same_config s s'"
    "paste_in_progress s' = paste_in_progress s" "length data \<le> n \<Longrightarrow> list_all (sourced t n) evs"
  using assms by (auto simp: append_paste_data_def same_config_def paste_event_of_def split: if_splits)

lemma capture_paste_ok:
  assumes ok: "dec_ok s" and act: "active_node s \<noteq> None" and ne: "dec_pending s \<noteq> []"
  shows "step_ok s (capture_paste s)"
proof -
  obtain n where n: "active_node s = Some n" using act by blast
  then have root: "cursor s = root_cursor" and idx: "n < length (input_trie s)" and t: "input_trie_ok (input_trie s)"
    using ok by (auto simp: dec_ok_def)
  show ?thesis
  proof (cases "paste_end_sequence s = []")
    case True
    then show ?thesis using n root idx t by (simp add: capture_paste_def step_defs dec_ops)
  next
    case False
    obtain d c' rest found where scan: "paste_scan (paste_end_sequence s) (paste_candidate s) (dec_pending s) [] = (d, c', rest, found)"
      by (metis prod_cases4)
    note app = paste_scan_append [OF scan] and rest = paste_scan_rest [OF scan]
    have len: "length d + length c' + length rest = length (paste_candidate s) + length (dec_pending s)"
      using app by (metis add.assoc append_Nil length_append)
    define u where "u = s\<lparr>dec_pending := rest, paste_candidate := (if found then [] else c')\<rparr>"
    obtain s' evs st where a: "append_paste_data d u = (s', evs, st)" by (metis prod_cases3)
    note f = append_paste_data_frame [OF a]
    have src: "list_all (sourced (input_trie s) (pending_bytes s)) evs" by (rule f(9)) (use len in \<open>simp add: pending_bytes_def\<close>)
    have conf: "input_trie s' = input_trie s" "limits s' = limits s" "paste_end_sequence s' = paste_end_sequence s"
      using f(7) by (simp_all add: u_def same_config_def)
    show ?thesis
    proof (cases found)
      case True
      then have "capture_paste s = (end_paste_mode s', evs @ (if paste_discarding s' then [] else [paste_event_of PASTE_END []]), st, CONSUMED)"
        using False scan a by (simp add: capture_paste_def u_def)
      then show ?thesis using True f src conf n root idx t rest len
        by (auto simp: step_defs dec_ops end_paste_mode_def u_def paste_event_of_def)
    next
      case nf: False
      then have "capture_paste s = (s', evs, st, if d = [] then NEED_MORE else CONSUMED)"
        using False scan a by (simp add: capture_paste_def u_def)
      then show ?thesis using nf f src conf n root idx t rest len ne
        by (auto simp: step_defs u_def)
    qed
  qed
qed

section \<open>The trie\<close>

lemma execute_action_ok:
  assumes t: "input_trie_ok (input_trie s)" and seq: "active_sequence s = []"
    and idle: "active_node s = None" and ne: "dec_pending s \<noteq> []"
    and node: "find_node (input_trie s) (take k (dec_pending s)) = Some n" "sequence_end (input_trie s ! n)"
  shows "step_ok s (execute_action n k s)"
proof -
  have found: "trie_find (input_trie s) (take k (dec_pending s)) = Some (node_value (input_trie s ! n))"
    using node by (simp add: trie_find_def)
  note conf = input_trie_okD(3) [OF t found]
  have idx: "n < length (input_trie s)" using find_node_bound [OF input_trie_okD(1) [OF t] node(1)] .
  have k: "0 < k" if "node_value (input_trie s ! n) \<noteq> Enter_Input_Protocol PROTOCOL_TEXT"
    using input_trie_okD(4) [OF t] found that by (cases k) auto
  show ?thesis
  proof (cases "node_value (input_trie s ! n)")
    case No_Action
    then show ?thesis using conf by simp
  next
    case (Emit_Input_Event e)
    then have "event_ok e" using conf by (cases e) auto
    moreover have "sourced (input_trie s) m e" for m using sourced_configured found Emit_Input_Event by metis
    ultimately show ?thesis using Emit_Input_Event k t idle seq ne by (simp add: execute_action_def step_defs dec_ops)
  next
    case (Enter_Input_Protocol p)
    have run: "step_ok s (parse_text (reset_trie_cursor s))"
      using parse_text_ok [of "reset_trie_cursor s"] t idle seq ne by (auto simp: step_defs dec_ops)
    show ?thesis
    proof (cases "p = PROTOCOL_TEXT")
      case True
      then show ?thesis using Enter_Input_Protocol run by (simp add: execute_action_def)
    next
      case False
      have "1 \<le> length (dec_pending s)" using ne by (simp add: Suc_le_eq)
      then have "Suc (2 * (length (dec_pending s) - k)) < 2 * length (dec_pending s)"
        using k Enter_Input_Protocol False by simp
      then show ?thesis using False Enter_Input_Protocol t idle seq idx
        by (auto simp: execute_action_def step_defs dec_ops Let_def paste_event_of_def)
    qed
  qed
qed

lemma step_ok_cursor: "step_ok (s\<lparr>cursor := c\<rparr>) r \<Longrightarrow> step_ok s r"
  by (simp add: step_defs)

lemma advance_trie_ok:
  assumes ok: "dec_ok s" and idle: "active_node s = None" and ne: "dec_pending s \<noteq> []"
  shows "step_ok s (advance_trie s)"
proof -
  have t: "input_trie_ok (input_trie s)" and seq: "active_sequence s = []" and m: "match_ok (input_trie s) (dec_pending s) (cursor s)"
    and live: "cursor_live (input_trie s) (cursor s)"
    using ok idle by (auto simp: dec_ok_def)
  obtain c out where loop: "trie_loop (input_trie s) (cursor s) (drop (scanned (cursor s)) (dec_pending s)) = (c, out)" by fastforce
  have c: "match_ok (input_trie s) (dec_pending s) c" "outcome_ok (input_trie s) (dec_pending s) c out"
    using trie_loop_ok [OF input_trie_okD(1) [OF t] m live refl loop] by auto
  show ?thesis
  proof (cases out)
    case Trie_More
    then show ?thesis using loop c t seq idle by (auto simp: advance_trie_def step_defs)
  next
    case (Trie_Execute n k)
    then have "step_ok (s\<lparr>cursor := c\<rparr>) (execute_action n k (s\<lparr>cursor := c\<rparr>))"
      using c(2) by (intro execute_action_ok) (simp_all add: idle ne t seq)
    then show ?thesis using loop Trie_Execute step_ok_cursor by (simp add: advance_trie_def)
  next
    case (Trie_Unknown n)
    then show ?thesis using loop c t seq idle by (auto simp: advance_trie_def step_defs dec_ops)
  qed
qed

lemma advance_ok:
  assumes ok: "dec_ok s" and ne: "dec_pending s \<noteq> []"
  shows "step_ok s (advance s)"
proof (cases "active_node s")
  case None
  then show ?thesis using advance_trie_ok [OF ok None ne] by (simp add: advance_def)
next
  case (Some n)
  then have root: "cursor s = root_cursor" and act: "active_node s \<noteq> None" and idx: "n < length (input_trie s)"
    and t: "input_trie_ok (input_trie s)" using ok by (auto simp: dec_ok_def)
  have "step_ok s (reset_active_action s, [], st, CONSUMED)" for st
    using root t Some by (simp add: step_defs dec_ops)
  then show ?thesis
    using capture_ok [OF ok act] parse_alt_key_ok [OF ok act] parse_text_ok [OF ok root ne] capture_paste_ok [OF ok act ne]
    unfolding advance_def if_not_P [OF act] advance_active_action_def by (simp split: option.split input_protocol.split)
qed

section \<open>The loop returns\<close>

lemma result_ok_trans:
  assumes "result_ok s (s', evs, st)" and "result_ok s' (s'', evs', st')"
  shows "result_ok s (s'', evs @ evs', st'')"
  using assms sourced_all_mono [of "input_trie s" "pending_bytes s'" evs' "pending_bytes s"]
  by (auto simp: result_ok_def same_config_def)

lemma process_ok: "dec_ok s \<Longrightarrow> \<exists>r. process s = Some r \<and> result_ok s r"
proof (induction "rank s" arbitrary: s rule: less_induct)
  case less
  show ?case
  proof (cases "dec_pending s = []")
    case True
    then show ?thesis using less.prems by (simp add: process.simps [of s] result_ok_def same_config_def)
  next
    case False
    obtain s' evs st result where adv: "advance s = (s', evs, st, result)" by (metis prod_cases4)
    have ok: "result_ok s (s', evs, st)" "result = CONSUMED \<longrightarrow> rank s' < rank s"
      using advance_ok [OF less.prems False] unfolding adv step_ok_def result_ok_def by auto
    show ?thesis
    proof (cases result)
      case NEED_MORE
      then show ?thesis using False adv ok by (simp add: process.simps [of s])
    next
      case CONSUMED
      have ok': "dec_ok s'" using ok by (simp add: result_ok_def)
      obtain s'' evs' st' where r: "process s' = Some (s'', evs', st')" "result_ok s' (s'', evs', st')"
        using less.hyps [OF _ ok'] ok CONSUMED by (metis prod_cases3)
      have "process s = Some (s'', evs @ evs', first_error st st')"
        using False adv CONSUMED r(1) by (simp add: process.simps [of s])
      then show ?thesis by (intro exI conjI) (assumption, rule result_ok_trans [OF ok(1) r(2)])
    qed
  qed
qed

section \<open>Public operations\<close>

definition run_ok :: "decoder \<Rightarrow> run_result option \<Rightarrow> bool" where
  "run_ok s r \<longleftrightarrow> (\<exists>v. r = Some v \<and> result_ok s v)"

lemma run_ok_Some [simp]: "run_ok s (Some v) = result_ok s v"
  by (simp add: run_ok_def)

lemma run_ok_process: "dec_ok s \<Longrightarrow> run_ok s (process s)"
  using process_ok by (simp add: run_ok_def)

lemma run_ok_after:
  assumes "result_ok s (s', evs, st)" and "run_ok s' r"
  shows "run_ok s (after_events evs r)"
proof -
  obtain s'' evs' st' where r: "r = Some (s'', evs', st')" "result_ok s' (s'', evs', st')"
    using assms(2) unfolding run_ok_def by (metis prod_cases3)
  show ?thesis using result_ok_trans [OF assms(1) r(2)] r(1) by (simp add: after_events_def)
qed

lemma after_events_Nil: "after_events [] r = r"
  by (cases r) (auto simp: after_events_def)

lemma run_ok_and_then:
  assumes "run_ok s r" and "\<And>s'. dec_ok s' \<Longrightarrow> run_ok s' (f s')"
  shows "run_ok s (and_then r f)"
proof -
  obtain s' evs st where r: "r = Some (s', evs, st)" "result_ok s (s', evs, st)"
    using assms(1) unfolding run_ok_def by (metis prod_cases3)
  then have "dec_ok s'" by (simp add: result_ok_def)
  then show ?thesis using run_ok_after [OF r(2) assms(2)] r by (simp add: and_then_def)
qed

lemma result_ok_refl: "dec_ok s \<Longrightarrow> result_ok s (s, [], st)"
  by (simp add: result_ok_def same_config_def)

lemma resolve_active_ok:
  assumes ok: "dec_ok s" and act: "active_node s \<noteq> None"
  shows "run_ok s (resolve_timed_out_active_action s)"
proof -
  obtain n where n: "active_node s = Some n" using act by blast
  have root: "cursor s = root_cursor" and t: "input_trie_ok (input_trie s)" and idx: "n < length (input_trie s)"
    using ok n by (auto simp: dec_ok_def)
  have bound: "find_child (input_trie s) kRootNode kEscape = Some c \<Longrightarrow> c < length (input_trie s)" for c
    using find_child_bounds(2) [OF input_trie_okD(1) [OF t]] trie_wfD(2) [OF input_trie_okD(1) [OF t]]
    by (metis kRootNode_def)
  define u where "u = reset_trie_cursor (reset_active_action s)"
  define v where "v = reset_trie_cursor ((reset_active_action s)\<lparr>dec_pending := tl (active_sequence s) @ dec_pending s\<rparr>)"
  have u: "result_ok s (u, [Key_Event (key_of (Named ESCAPE))], st)" for st :: term_status
    using t by (simp add: u_def step_defs dec_ops)
  have v: "result_ok s (v, [Key_Event (key_of (Named ESCAPE))], st)" for st :: term_status
    using t by (simp add: v_def step_defs dec_ops)
  have w: "result_ok s (v\<lparr>active_node := Some c, active_sequence := [kEscape]\<rparr>, [], st)"
    if "active_sequence s \<noteq> []" and "c < length (input_trie s)" for c and st :: term_status
    using t that by (cases "active_sequence s") (simp_all add: v_def step_defs dec_ops)
  have ok': "dec_ok u" "dec_ok v" "active_sequence s \<noteq> [] \<Longrightarrow> c < length (input_trie s) \<Longrightarrow>
      dec_ok (v\<lparr>active_node := Some c, active_sequence := [kEscape]\<rparr>)" for c
    using u v w unfolding result_ok_def by auto
  have e: "run_ok s (process (v\<lparr>active_node := Some c, active_sequence := [kEscape]\<rparr>))"
    if "active_sequence s \<noteq> []" and "find_child (input_trie s) kRootNode kEscape = Some c" for c
    using run_ok_after [OF w [OF that(1) bound [OF that(2)]] run_ok_process [OF ok'(3) [OF that(1) bound [OF that(2)]]]]
    by (simp add: after_events_Nil)
  show ?thesis
  proof (cases "active_protocol s")
    case None
    then show ?thesis using t root by (simp add: resolve_timed_out_active_action_def step_defs dec_ops)
  next
    case (Some p)
    show ?thesis
    proof (cases "paste_in_progress s \<or> active_sequence s = [] \<or> hd (active_sequence s) \<noteq> kEscape")
      case True
      then show ?thesis using Some t result_ok_refl [OF ok]
        by (auto simp: resolve_timed_out_active_action_def step_defs dec_ops)
    next
      case False
      then show ?thesis
        using Some e run_ok_after [OF u run_ok_process [OF ok'(1)]] run_ok_after [OF v run_ok_process [OF ok'(2)]]
        by (auto simp: resolve_timed_out_active_action_def Let_def u_def [symmetric] v_def [symmetric] split: option.split)
    qed
  qed
qed

lemma resolve_if_active_ok: "dec_ok s \<Longrightarrow> run_ok s (resolve_if_active s)"
  using resolve_active_ok by (simp add: resolve_if_active_def result_ok_refl)

lemma last_match_execute:
  assumes ok: "dec_ok s" and idle: "active_node s = None" and ne: "dec_pending s \<noteq> []" and m: "last_match (cursor s) = Some n"
  shows "step_ok s (execute_action n (last_match_size (cursor s)) s)"
  using match_okD(4) [of "input_trie s" "dec_pending s" "cursor s" n] ok m idle
  by (intro execute_action_ok [OF _ _ idle ne]) (auto simp: dec_ok_def)

lemma timeout_status_ok:
  assumes ok: "dec_ok s" and ne: "active_node s \<noteq> None \<or> dec_pending s \<noteq> []"
  shows "run_ok s (timeout_status s)"
proof (cases "active_node s = None")
  case False
  then show ?thesis using resolve_active_ok [OF ok] by (simp add: timeout_status_def)
next
  case idle: True
  show ?thesis
  proof (cases "last_match (cursor s)")
    case None
    then show ?thesis using ok idle by (auto simp: timeout_status_def step_defs dec_ops)
  next
    case (Some n)
    obtain s1 evs st res where ex: "execute_action n (last_match_size (cursor s)) s = (s1, evs, st, res)" by (metis prod_cases4)
    have first: "run_ok s (Some (s1, evs, st))"
      using last_match_execute [OF ok idle _ Some] ne idle unfolding ex by (simp add: step_ok_def result_ok_def)
    have "run_ok s (and_then (and_then (and_then (Some (s1, evs, st))
        (\<lambda>s2. if last_match_size (cursor s) = length (dec_pending s) then resolve_if_active s2 else Some (s2, [], TERM_OK)))
        process) resolve_if_active)"
      by (intro run_ok_and_then first) (simp_all add: resolve_if_active_ok run_ok_process result_ok_refl)
    then show ?thesis using idle Some ex by (simp add: timeout_status_def Let_def)
  qed
qed

lemma result_ok_timeout [simp]:
  "result_ok s (s'\<lparr>pending_timeout := g\<rparr>, evs, st) = result_ok s (s', evs, st)"
  "result_ok s (s'\<lparr>next_timeout_generation := h\<rparr>, evs, st) = result_ok s (s', evs, st)"
  "result_ok (s\<lparr>pending_timeout := g\<rparr>) r = result_ok s r"
  "dec_ok (s\<lparr>pending_timeout := g\<rparr>) = dec_ok s"
  by (cases "active_node s'"; cases "active_node s"; simp add: step_defs)+

lemma result_ok_update [simp]: "result_ok s (update_pending_timeout b s', evs, st) = result_ok s (s', evs, st)"
  by (simp add: update_pending_timeout_def Let_def)

lemma run_ok_timeout:
  assumes "run_ok s r"
  shows "run_ok s (map_option (\<lambda>(s', evs, st). (update_pending_timeout b s', evs, st)) r)"
  using assms by (auto simp: run_ok_def)

lemma handle_timeout_ok:
  assumes ok: "dec_ok s"
  shows "run_ok s (handle_timeout g s)"
  using run_ok_timeout [OF timeout_status_ok [of "s\<lparr>pending_timeout := None\<rparr>"], of True] ok result_ok_refl [OF ok]
  by (auto simp: handle_timeout_def Let_def run_ok_def same_config_def)

lemma feed_ok:
  assumes ok: "dec_ok s" and bound: "pending_bytes s \<le> maximum_pending_bytes (limits s)"
  shows "\<exists>s' evs st. feed bs s = Some (s', evs, st) \<and> dec_ok s' \<and> same_config s s' \<and>
    pending_bytes s' \<le> maximum_pending_bytes (limits s) \<and> list_all event_ok evs \<and>
    list_all (sourced (input_trie s) (maximum_pending_bytes (limits s))) evs"
proof (cases "length bs > maximum_pending_bytes (limits s) - min (pending_bytes s) (maximum_pending_bytes (limits s))")
  case True
  then show ?thesis using ok bound by (simp add: feed_def same_config_def)
next
  case False
  let ?u = "s\<lparr>dec_pending := dec_pending s @ bs\<rparr>"
  have "dec_ok ?u" using ok match_ok_append by (auto simp: dec_ok_def split: option.splits)
  then obtain s' evs st where p: "process ?u = Some (s', evs, st)" "result_ok ?u (s', evs, st)"
    using process_ok by (metis prod_cases3)
  have "pending_bytes ?u \<le> maximum_pending_bytes (limits s)" using False bound by (simp add: pending_bytes_def)
  then have "result_ok ?u (update_pending_timeout (bs \<noteq> []) s', evs, st)" "pending_bytes ?u \<le> maximum_pending_bytes (limits s)"
    using p(2) by simp_all
  moreover from this have "list_all (sourced (input_trie s) (maximum_pending_bytes (limits s))) evs"
    using sourced_all_mono [of "input_trie s" "pending_bytes ?u" evs] by (simp add: result_ok_def)
  ultimately show ?thesis using False p(1) by (auto simp: feed_def Let_def result_ok_def same_config_def)
qed

lemma finish_pending_ok:
  assumes ok: "dec_ok s" and idle: "active_node s = None" and ne: "dec_pending s \<noteq> []" and r: "finish_pending s = (s', evs, st)"
  shows "result_ok s (reset_trie_cursor s', evs, st)" "dec_pending s' = []" "active_node s' = None"
    "paste_in_progress s' = paste_in_progress s" "list_all plain_event evs" "paste_candidate s' = paste_candidate s"
proof -
  have t: "input_trie_ok (input_trie s)" and seq: "active_sequence s = []" and m: "match_ok (input_trie s) (dec_pending s) (cursor s)"
    using ok idle by (auto simp: dec_ok_def)
  define n where "n = cursor_node (cursor s)"
  define hit where "hit \<longleftrightarrow> n \<noteq> kRootNode \<and> scanned (cursor s) = length (dec_pending s) \<and> sequence_end (input_trie s ! n) \<and>
    action_event (node_value (input_trie s ! n)) \<noteq> None"
  have "result_ok s (reset_trie_cursor s', evs, st) \<and> dec_pending s' = [] \<and> active_node s' = None \<and>
    paste_in_progress s' = paste_in_progress s \<and> list_all plain_event evs \<and> paste_candidate s' = paste_candidate s"
  proof (cases hit)
    case True
    then obtain e where e: "node_value (input_trie s ! n) = Emit_Input_Event e"
      by (cases "node_value (input_trie s ! n)") (auto simp: hit_def)
    have "trie_find (input_trie s) (dec_pending s) = Some (Emit_Input_Event e)"
      using match_okD(2) [OF m] True e by (simp add: trie_find_def hit_def n_def)
    note found = this
    have "sourced (input_trie s) m e" for m by (rule sourced_configured [OF found])
    moreover have "plain_event e" using found input_trie_okD(3) [OF t] by (cases e) fastforce+
    moreover have "finish_pending s = (reset_trie_cursor (s\<lparr>dec_pending := []\<rparr>), [e], TERM_OK)"
      using True e unfolding finish_pending_def hit_def n_def by (simp add: execute_action_def dec_ops Let_def)
    ultimately show ?thesis using r t idle seq plain_event_ok [of e] by (auto simp: step_defs dec_ops)
  next
    case False
    then have "finish_pending s = (s\<lparr>dec_pending := []\<rparr>, if dec_pending s = [kEscape] then [Key_Event (key_of (Named ESCAPE))]
        else [Unknown_Event INCOMPLETE_SEQUENCE (dec_pending s)], TERM_OK)"
      using ne unfolding finish_pending_def Let_def n_def [symmetric] hit_def [symmetric] if_not_P [OF False] by (simp add: consume_def)
    then show ?thesis using r t idle seq by (auto simp: step_defs dec_ops)
  qed
  then show "result_ok s (reset_trie_cursor s', evs, st)" "dec_pending s' = []" "active_node s' = None"
    "paste_in_progress s' = paste_in_progress s" "list_all plain_event evs" "paste_candidate s' = paste_candidate s" by blast+
qed

lemma finish_ok:
  assumes ok: "dec_ok s" and r: "finish s = (s', evs, st)"
  shows "result_ok s (s', evs, st) \<and> dec_pending s' = [] \<and> active_node s' = None \<and> \<not> paste_in_progress s'"
proof -
  have t: "input_trie_ok (input_trie s)" using ok by (simp add: dec_ok_def)
  consider "paste_in_progress s" | "\<not> paste_in_progress s" "active_node s \<noteq> None"
    | "\<not> paste_in_progress s" "active_node s = None" "dec_pending s \<noteq> []"
    | "\<not> paste_in_progress s" "active_node s = None" "dec_pending s = []" by blast
  then show ?thesis
  proof cases
    case 1
    obtain s1 evs1 st1 where a: "append_paste_data (paste_candidate s @ dec_pending s) (s\<lparr>dec_pending := [], paste_candidate := []\<rparr>) = (s1, evs1, st1)"
      by (metis prod_cases3)
    show ?thesis using r 1 a append_paste_data_frame [OF a] t
      by (auto simp: finish_def step_defs dec_ops end_paste_mode_def paste_event_of_def)
  next
    case 2
    then show ?thesis using r t by (auto simp: finish_def step_defs dec_ops)
  next
    case 3
    obtain s1 evs1 st1 where p: "finish_pending s = (s1, evs1, st1)" by (metis prod_cases3)
    show ?thesis using r 3 p finish_pending_ok [OF ok 3(2,3) p] by (auto simp: finish_def reset_trie_cursor_def)
  next
    case 4
    then show ?thesis using r t ok by (auto simp: finish_def step_defs dec_ops)
  qed
qed

lemma reset_ok: "dec_ok s \<Longrightarrow> result_ok s (reset s, [], st)"
  by (simp add: reset_def step_defs dec_ops)

section \<open>Histories\<close>

datatype map_op = Register bytes input_action | Disable bytes

fun map_apply_op :: "map_op \<Rightarrow> input_map \<Rightarrow> input_map" where
  "map_apply_op (Register sequence action) m = fst (register_sequence sequence action m)"
| "map_apply_op (Disable sequence) m = fst (disable_sequence sequence m)"

fun configured_op :: "map_op \<Rightarrow> bool" where
  "configured_op (Register sequence action) \<longleftrightarrow> action_empty action \<or> configured_action action"
| "configured_op (Disable sequence) \<longleftrightarrow> True"

lemma configured_map_ok:
  "list_all configured_op mops \<Longrightarrow> input_trie_ok (map_trie m) \<Longrightarrow> input_trie_ok (map_trie (fold map_apply_op mops m))"
proof (induction mops arbitrary: m)
  case (Cons o1 mops)
  then show ?case by (cases o1) (simp_all add: register_sequence_ok disable_sequence_ok)
qed simp

definition configured_decoder :: "map_op list \<Rightarrow> decoder_limits \<Rightarrow> decoder" where
  "configured_decoder mops l = new_decoder (fold map_apply_op mops empty_input_map) l"

lemma configured_decoder_ok: "list_all configured_op mops \<Longrightarrow> dec_ok (configured_decoder mops l)"
  using configured_map_ok [of mops empty_input_map] empty_input_trie_ok
  by (simp add: configured_decoder_def new_decoder_def dec_ok_def empty_input_map_def)

datatype decoder_op = Feed bytes | Timeout u64 | Finish | Reset

fun decoder_apply :: "decoder_op \<Rightarrow> decoder \<Rightarrow> run_result option" where
  "decoder_apply (Feed bs) s = feed bs s"
| "decoder_apply (Timeout generation) s = handle_timeout generation s"
| "decoder_apply Finish s = Some (finish s)"
| "decoder_apply Reset s = Some (reset s, [], TERM_OK)"

fun decoder_run :: "decoder_op list \<Rightarrow> decoder \<Rightarrow> (decoder \<times> event list) option" where
  "decoder_run [] s = Some (s, [])"
| "decoder_run (o1 # ops) s =
     Option.bind (decoder_apply o1 s) (\<lambda>(s', evs, _). map_option (apsnd ((@) evs)) (decoder_run ops s'))"

definition bounded :: "decoder \<Rightarrow> bool" where
  "bounded s \<longleftrightarrow> dec_ok s \<and> pending_bytes s \<le> maximum_pending_bytes (limits s)"

lemma decoder_apply_ok:
  assumes "bounded s"
  shows "\<exists>s' evs st. decoder_apply op s = Some (s', evs, st) \<and> bounded s' \<and> same_config s s' \<and> list_all event_ok evs \<and>
    list_all (sourced (input_trie s) (maximum_pending_bytes (limits s))) evs"
proof -
  have ok: "dec_ok s" and le: "pending_bytes s \<le> maximum_pending_bytes (limits s)" using assms by (simp_all add: bounded_def)
  have run: "run_ok s r \<Longrightarrow> \<exists>s' evs st. r = Some (s', evs, st) \<and> bounded s' \<and> same_config s s' \<and> list_all event_ok evs \<and>
    list_all (sourced (input_trie s) (maximum_pending_bytes (limits s))) evs" for r
    using le sourced_all_mono [OF _ le, of "input_trie s"] by (fastforce simp: run_ok_def result_ok_def bounded_def same_config_def)
  show ?thesis
  proof (cases op)
    case (Feed bs)
    then show ?thesis using feed_ok [OF ok le, of bs] by (auto simp: bounded_def same_config_def)
  next
    case (Timeout g)
    then show ?thesis using run [OF handle_timeout_ok [OF ok, of g]] by simp
  next
    case Finish
    then show ?thesis using run [of "Some (finish s)"] finish_ok [OF ok] by (cases "finish s") simp
  next
    case Reset
    then show ?thesis using run [of "Some (reset s, [], TERM_OK)"] reset_ok [OF ok, of TERM_OK] by simp
  qed
qed

lemma decoder_run_ok:
  "bounded s \<Longrightarrow> \<exists>s' evs. decoder_run ops s = Some (s', evs) \<and> bounded s' \<and> same_config s s' \<and> list_all event_ok evs \<and>
    list_all (sourced (input_trie s) (maximum_pending_bytes (limits s))) evs"
proof (induction ops arbitrary: s)
  case (Cons op ops)
  obtain s1 evs1 st where a: "decoder_apply op s = Some (s1, evs1, st)" "bounded s1" "same_config s s1" "list_all event_ok evs1"
    "list_all (sourced (input_trie s) (maximum_pending_bytes (limits s))) evs1"
    using decoder_apply_ok [OF Cons.prems] by blast
  show ?case using Cons.IH [OF a(2)] a by (auto simp: same_config_def)
qed (simp add: same_config_def)

lemma configured_bounded: "list_all configured_op mops \<Longrightarrow> bounded (configured_decoder mops l)"
  using configured_decoder_ok
  by (simp add: bounded_def configured_decoder_def new_decoder_def pending_bytes_def)

section \<open>Properties\<close>

text \<open>
  C25: The decoder always returns. For every map built with \<open>register_sequence\<close> and
  \<open>disable_sequence\<close> from the configurable actions, and every history of fed bytes, timeouts,
  finishes and resets, each call comes back: the processing loop has no endless run, whatever the
  sequences and whatever the bytes.
\<close>

theorem decoder_returns:
  assumes "list_all configured_op mops"
  shows "\<exists>s evs. decoder_run ops (configured_decoder mops l) = Some (s, evs)"
  using decoder_run_ok [OF configured_bounded [OF assms]] by blast

definition sample_map :: "map_op list" where
  "sample_map = [Register [] (Enter_Input_Protocol PROTOCOL_TEXT), Register [0x1b] (Enter_Input_Protocol PROTOCOL_ESCAPE),
     Register [0x1b, 0x5b] (Enter_Input_Protocol CSI), Register [0x1b, 0x5b, 0x41] (Emit_Input_Event (Key_Event (key_of (Named UP)))),
     Register [0x1b, 0x5b, 0x7e] (Enter_Input_Protocol PROTOCOL_PASTE_BEGIN), Register [0x1b, 0x21] (Enter_Input_Protocol PROTOCOL_PASTE_END)]"

definition sample_limits :: decoder_limits where
  "sample_limits = \<lparr>maximum_pending_bytes = 8, maximum_sequence_bytes = 8, maximum_paste_bytes = 8, maximum_clipboard_bytes = 8\<rparr>"

lemma sample_map_ok: "list_all configured_op sample_map"
  by (simp add: sample_map_def)

theorem decoder_returns_witness:
  "\<exists>s evs. decoder_run [Feed [0x61, 0x1b], Timeout 1, Feed [0x1b, 0x5b], Finish] (configured_decoder sample_map sample_limits) = Some (s, evs)"
  by (rule decoder_returns [OF sample_map_ok])

text \<open>
  C26: Bounded memory. The bytes that the decoder retains (unread, captured and candidate bytes of a
  paste terminator together) never exceed the configured limit, after any history.
\<close>

theorem pending_bounded:
  assumes "list_all configured_op mops" and "decoder_run ops (configured_decoder mops l) = Some (s, evs)"
  shows "pending_bytes s \<le> max 1 (maximum_pending_bytes l)"
proof -
  have "bounded s" "same_config (configured_decoder mops l) s"
    using decoder_run_ok [OF configured_bounded [OF assms(1)], of ops l] assms(2) by auto
  moreover have "limits (configured_decoder mops l) = at_least_one l" by (simp add: configured_decoder_def new_decoder_def)
  ultimately show ?thesis by (simp add: bounded_def same_config_def at_least_one_def)
qed

lemma sample_run:
  "map_option snd (decoder_run [Feed [0x61, 0x1b, 0x5b, 0x41, 0x1b, 0x5b]] (configured_decoder sample_map sample_limits)) =
    Some [Text_Event \<lparr>text_utf8 = [0x61]\<rparr>, Key_Event (key_of (Named UP))]"
  by code_simp

theorem pending_bounded_witness:
  "\<exists>s evs. decoder_run [Feed [0x61, 0x1b, 0x5b, 0x41, 0x1b, 0x5b]] (configured_decoder sample_map sample_limits) = Some (s, evs) \<and>
    pending_bytes s \<le> 8"
  using sample_run pending_bounded [OF sample_map_ok, of _ sample_limits]
  by (fastforce simp: sample_limits_def)

text \<open>
  C27: Text events are text. Every text event of any history, a run of typed characters or the text
  of a Kitty key report, is a non-empty valid UTF-8 string, however the bytes were cut into chunks;
  the editor's insertion relies on it.
\<close>

theorem text_events_valid:
  assumes "list_all configured_op mops" and "decoder_run ops (configured_decoder mops l) = Some (s, evs)"
    and "Text_Event t \<in> set evs"
  shows "text_utf8 t \<noteq> [] \<and> is_valid (text_utf8 t)"
proof -
  have "list_all event_ok evs"
    using decoder_run_ok [OF configured_bounded [OF assms(1)], of ops l] assms(2) by auto
  then show ?thesis using assms(3) by (fastforce simp: list_all_iff)
qed

theorem text_events_valid_witness: "[0x61::u8] \<noteq> [] \<and> is_valid [0x61]"
proof -
  obtain s where "decoder_run [Feed [0x61, 0x1b, 0x5b, 0x41, 0x1b, 0x5b]] (configured_decoder sample_map sample_limits) =
      Some (s, [Text_Event \<lparr>text_utf8 = [0x61]\<rparr>, Key_Event (key_of (Named UP))])"
    using sample_run by auto
  from text_events_valid [OF sample_map_ok this, of "\<lparr>text_utf8 = [0x61]\<rparr>"] show ?thesis by simp
qed








end
