(* ===== verification/Text_Wrap.thy ===== *)
theory Text_Wrap
  imports Utf8_Text
begin

text \<open>
  The line buffer of \<open>puc-cli/tui/text_input/text_editor_utils.cpp\<close> and its two ways of
  wrapping: \<open>materialize_word_wraps\<close>, which replaces a space by a line break in the text, and
  \<open>visual_rows\<close>, which only cuts lines into rows for display. A line is a list of scalars;
  the \<open>while\<close> loops that scan over a line are \<open>scan_right\<close> and \<open>scan_left\<close>.
\<close>

section \<open>Positions and scanning\<close>

type_synonym text_line = "u32 list"

record text_cursor =
  cur_line :: nat
  cur_column :: nat

definition cursor_less :: "text_cursor \<Rightarrow> text_cursor \<Rightarrow> bool" where
  "cursor_less left right \<longleftrightarrow> cur_line left < cur_line right \<or>
     (cur_line left = cur_line right \<and> cur_column left < cur_column right)"

definition kSpace :: u32 where "kSpace = 0x20"

function scan_right :: "(u32 \<Rightarrow> bool) \<Rightarrow> text_line \<Rightarrow> nat \<Rightarrow> nat" where
  "scan_right p line i = (if i < length line \<and> p (line ! i) then scan_right p line (Suc i) else i)"
  by pat_completeness auto
termination
  by (relation "measure (\<lambda>(p, line, i). length line - i)") auto

function scan_left :: "(u32 \<Rightarrow> bool) \<Rightarrow> text_line \<Rightarrow> nat \<Rightarrow> nat \<Rightarrow> nat" where
  "scan_left p line first i = (if i > first \<and> p (line ! (i - 1)) then scan_left p line first (i - 1) else i)"
  by pat_completeness auto
termination
  by (relation "measure (\<lambda>(p, line, first, i). i)") auto

declare scan_right.simps [simp del] scan_left.simps [simp del]

lemma scan_right_bounds:
  shows "i \<le> scan_right p line i" and "i \<le> length line \<Longrightarrow> scan_right p line i \<le> length line"
    and "\<forall>k. i \<le> k \<and> k < scan_right p line i \<longrightarrow> p (line ! k)"
    and "scan_right p line i < length line \<Longrightarrow> \<not> p (line ! scan_right p line i)"
proof (induction p line i rule: scan_right.induct)
  case (1 p line i)
  { case 1 show ?case using "1.IH"(1) by (subst scan_right.simps) auto }
  { case 2 then show ?case using "1.IH"(2) by (subst scan_right.simps) auto }
  { case 3 show ?case
    proof (intro allI impI)
      fix k assume k: "i \<le> k \<and> k < scan_right p line i"
      show "p (line ! k)"
      proof (cases "i < length line \<and> p (line ! i)")
        case True
        then have "scan_right p line i = scan_right p line (Suc i)" by (simp add: scan_right.simps [of p line i])
        then show ?thesis using "1.IH"(3) [OF True] k True by (cases "k = i") auto
      next
        case False
        then have "scan_right p line i = i" by (subst scan_right.simps) (rule if_not_P)
        with k show ?thesis by auto
      qed
    qed }
  { case 4 then show ?case using "1.IH"(4) by (subst scan_right.simps) (auto simp: scan_right.simps [of p line i] split: if_splits) }
qed

lemma scan_left_bounds:
  shows "scan_left p line first i \<le> i" and "first \<le> i \<Longrightarrow> first \<le> scan_left p line first i"
    and "\<forall>k. scan_left p line first i \<le> k \<and> k < i \<longrightarrow> p (line ! k)"
    and "first < scan_left p line first i \<Longrightarrow> \<not> p (line ! (scan_left p line first i - 1))"
proof (induction p line first i rule: scan_left.induct)
  case (1 p line first i)
  { case 1 show ?case using "1.IH"(1) by (subst scan_left.simps) auto }
  { case 2 then show ?case using "1.IH"(2) by (subst scan_left.simps) auto }
  { case 3 show ?case
    proof (intro allI impI)
      fix k assume k: "scan_left p line first i \<le> k \<and> k < i"
      show "p (line ! k)"
      proof (cases "i > first \<and> p (line ! (i - 1))")
        case True
        then have "scan_left p line first i = scan_left p line first (i - 1)" by (subst scan_left.simps) simp
        then show ?thesis using "1.IH"(3) [OF True] k True by (cases "k = i - 1") auto
      next
        case False
        then have "scan_left p line first i = i" by (subst scan_left.simps) (rule if_not_P)
        with k show ?thesis by auto
      qed
    qed }
  { case 4 then show ?case using "1.IH"(4) by (subst scan_left.simps) (auto simp: scan_left.simps [of p line first i] split: if_splits) }
qed

section \<open>Breaking a line into lines\<close>

function wrap_break_from :: "text_line \<Rightarrow> nat \<Rightarrow> nat \<Rightarrow> nat option" where
  "wrap_break_from line width row_first =
     (if width > 0 \<and> length line - row_first > width
      then let word_character = scan_right (\<lambda>c. c = kSpace) line (row_first + width) in
        if word_character = length line then None
        else let word_first = scan_left (\<lambda>c. c \<noteq> kSpace) line row_first word_character in
          if word_first > row_first then Some (word_first - 1)
          else wrap_break_from line width (row_first + width)
      else None)"
  by pat_completeness auto
termination
  by (relation "measure (\<lambda>(line, width, row_first). length line - row_first)") auto

declare wrap_break_from.simps [simp del]

definition materialized_wrap_break :: "text_line \<Rightarrow> nat \<Rightarrow> nat option" where
  "materialized_wrap_break line width = (if width = 0 then None else wrap_break_from line width 0)"

lemma wrap_break_from_space:
  "wrap_break_from line width row_first = Some k \<Longrightarrow> k < length line \<and> row_first \<le> k \<and> line ! k = kSpace"
proof (induction line width row_first rule: wrap_break_from.induct)
  case (1 line width row_first)
  let ?c = "scan_right (\<lambda>c. c = kSpace) line (row_first + width)"
  let ?w = "scan_left (\<lambda>c. c \<noteq> kSpace) line row_first ?c"
  have long: "width > 0 \<and> length line - row_first > width"
    using "1.prems" by (subst (asm) wrap_break_from.simps) (simp split: if_splits)
  have c: "?c \<noteq> length line" using "1.prems" long by (subst (asm) wrap_break_from.simps) (auto simp: Let_def)
  show ?case
  proof (cases "?w > row_first")
    case True
    then have k: "k = ?w - 1" using "1.prems" long c by (subst (asm) wrap_break_from.simps) (simp add: Let_def)
    have "?w \<le> ?c" "?c \<le> length line" using scan_left_bounds(1) scan_right_bounds(2) [of "row_first + width" line] long by auto
    then show ?thesis using k True c scan_left_bounds(4) [OF True] by auto
  next
    case False
    then have "wrap_break_from line width (row_first + width) = Some k"
      using "1.prems" long c by (subst (asm) wrap_break_from.simps) (simp add: Let_def)
    then show ?thesis using "1.IH" [OF long refl c refl False] by auto
  qed
qed

lemma wrap_break_space:
  assumes "materialized_wrap_break line width = Some k"
  shows "k < length line" and "line ! k = kSpace"
  using assms wrap_break_from_space [of line width 0 k] by (auto simp: materialized_wrap_break_def split: if_splits)

text \<open>
  The loop of \<open>materialize_word_wraps\<close> over \<open>line_index\<close> and \<open>final_line\<close>. Indexing outside the
  buffer, which the test on \<open>line_index\<close> excludes here, does not arise: the caret's line is in
  range and every break adds a line.
\<close>

function materialize_loop :: "nat \<Rightarrow> nat \<Rightarrow> nat \<Rightarrow> text_line list \<times> text_cursor \<Rightarrow> text_line list \<times> text_cursor" where
  "materialize_loop width line_index final_line (ls, cursor) =
     (if line_index \<le> final_line \<and> line_index < length ls
      then case materialized_wrap_break (ls ! line_index) width of
          None \<Rightarrow> materialize_loop width (Suc line_index) final_line (ls, cursor)
        | Some separator \<Rightarrow>
            let line = ls ! line_index;
                cursor' = (if cur_line cursor = line_index \<and> cur_column cursor > separator
                  then \<lparr>cur_line = Suc (cur_line cursor), cur_column = cur_column cursor - (separator + 1)\<rparr>
                  else if cur_line cursor > line_index then cursor\<lparr>cur_line := Suc (cur_line cursor)\<rparr>
                  else cursor)
            in materialize_loop width (Suc line_index) (Suc final_line)
                 (take line_index ls @ take separator line # drop (separator + 1) line # drop (Suc line_index) ls, cursor')
      else (ls, cursor))"
  by pat_completeness auto
termination
proof (relation "measure (\<lambda>(width, i, final, ls, cursor). (Suc final - i) + length (concat (drop i ls)))", goal_cases)
  case 1
  show ?case by simp
next
  case (2 width i final ls cursor)
  then show ?case by (auto simp: Cons_nth_drop_Suc [symmetric, of i ls])
next
  case (3 width i final ls cursor k)
  then have "k < length (ls ! i)" using wrap_break_space(1) by blast
  then show ?case using 3 by (auto simp: Cons_nth_drop_Suc [symmetric, of i ls])
qed

declare materialize_loop.simps [simp del]

section \<open>Rows for display\<close>

record visual_row =
  row_line :: nat
  row_first :: nat
  row_length :: nat

definition soft_row_length :: "text_line \<Rightarrow> nat \<Rightarrow> nat \<Rightarrow> nat" where
  "soft_row_length line width first =
     (let remaining = length line - first; hard_end = first + width in
      if remaining > width \<and> line ! (hard_end - 1) \<noteq> kSpace \<and> line ! hard_end \<noteq> kSpace
      then let candidate = scan_left (\<lambda>c. c \<noteq> kSpace) line first hard_end in
        if candidate > first then candidate - first else min width remaining
      else min width remaining)"

lemma soft_row_length_bounds:
  assumes "first < length line" and "0 < width"
  shows "0 < soft_row_length line width first" and "soft_row_length line width first \<le> width"
    and "first + soft_row_length line width first \<le> length line"
proof -
  let ?c = "scan_left (\<lambda>c. c \<noteq> kSpace) line first (first + width)"
  have "?c \<le> first + width" by (rule scan_left_bounds)
  then show "0 < soft_row_length line width first" "soft_row_length line width first \<le> width"
    "first + soft_row_length line width first \<le> length line"
    using assms by (auto simp: soft_row_length_def Let_def)
qed

function line_rows :: "nat \<Rightarrow> text_line \<Rightarrow> nat \<Rightarrow> nat \<Rightarrow> visual_row list" where
  "line_rows line_index line width first =
     (if first < length line \<and> 0 < width
      then \<lparr>row_line = line_index, row_first = first, row_length = soft_row_length line width first\<rparr>
        # line_rows line_index line width (first + soft_row_length line width first)
      else [])"
  by pat_completeness auto
termination
proof (relation "measure (\<lambda>(i, line, width, first). length line - first)", goal_cases)
  case (2 i line width first)
  then have "0 < soft_row_length line width first" by (intro soft_row_length_bounds) simp_all
  with 2 show ?case by auto
qed simp

declare line_rows.simps [simp del]

definition rows_of_line :: "text_cursor \<Rightarrow> nat \<Rightarrow> nat \<Rightarrow> text_line \<Rightarrow> visual_row list" where
  "rows_of_line cursor width line_index line =
     (if line = [] then [\<lparr>row_line = line_index, row_first = 0, row_length = 0\<rparr>]
      else let rows = line_rows line_index line width 0 in
        rows @ (if line_index = cur_line cursor \<and> cur_column cursor = length line \<and> rows \<noteq> [] \<and>
                   row_line (last rows) = line_index \<and> row_length (last rows) = width
                then [\<lparr>row_line = line_index, row_first = length line, row_length = 0\<rparr>] else []))"

definition visual_rows :: "text_line list \<Rightarrow> text_cursor \<Rightarrow> nat \<Rightarrow> visual_row list" where
  "visual_rows ls cursor width =
     (if width = 0 then []
      else concat (map (\<lambda>i. rows_of_line cursor width i (ls ! i)) [0..<length ls]))"

fun find_cursor_row :: "text_cursor \<Rightarrow> nat \<Rightarrow> nat \<Rightarrow> visual_row list \<Rightarrow> (nat \<times> nat) option" where
  "find_cursor_row cursor width index [] = None"
| "find_cursor_row cursor width index (row # rows) =
     (if row_line row \<noteq> cur_line cursor then find_cursor_row cursor width (Suc index) rows
      else if row_length row = 0 \<and> row_first row = cur_column cursor then Some (index, 0)
      else if cur_column cursor \<ge> row_first row \<and> cur_column cursor < row_first row + row_length row
      then Some (index, cur_column cursor - row_first row)
      else if row_length row < width \<and> cur_column cursor = row_first row + row_length row
      then Some (index, row_length row)
      else find_cursor_row cursor width (Suc index) rows)"

definition visual_cursor :: "text_cursor \<Rightarrow> visual_row list \<Rightarrow> nat \<Rightarrow> nat \<times> nat" where
  "visual_cursor cursor rows width =
     (case find_cursor_row cursor width 0 rows of Some r \<Rightarrow> r
      | None \<Rightarrow> (if rows = [] then 0 else length rows - 1, 0))"

section \<open>The buffer as one text\<close>

text \<open>
  The lines with a separator after each, and the place of a caret in that text. With a line
  break as the separator this is the edited text; with a space it is the text up to the choice
  between spaces and line breaks.
\<close>

definition flat :: "u32 \<Rightarrow> text_line list \<Rightarrow> u32 list" where
  "flat s ls = concat (map (\<lambda>l. l @ [s]) ls)"

definition flat_pos :: "text_line list \<Rightarrow> text_cursor \<Rightarrow> nat" where
  "flat_pos ls cursor = length (concat (take (cur_line cursor) ls)) + cur_line cursor + cur_column cursor"

definition cursor_ok :: "text_line list \<Rightarrow> text_cursor \<Rightarrow> bool" where
  "cursor_ok ls cursor \<longleftrightarrow> cur_line cursor < length ls \<and> cur_column cursor \<le> length (ls ! cur_line cursor)"

lemma flat_simps [simp]: "flat s [] = []" "flat s (l # ls) = l @ s # flat s ls" "flat s (as @ bs) = flat s as @ flat s bs"
  by (simp_all add: flat_def)

lemma length_flat: "length (flat s ls) = length (concat ls) + length ls"
  by (induction ls) simp_all

lemma flat_pos_take:
  assumes "cur_line cursor \<le> length ls"
  shows "flat_pos ls cursor = length (flat s (take (cur_line cursor) ls)) + cur_column cursor"
  using assms by (simp add: flat_pos_def length_flat)

lemma split_at_line: "i < length ls \<Longrightarrow> ls = take i ls @ (ls ! i) # drop (Suc i) ls"
  by (rule id_take_nth_drop)

lemma flat_at_line:
  assumes "i < length ls"
  shows "flat s ls = flat s (take i ls) @ (ls ! i) @ s # flat s (drop (Suc i) ls)"
  using arg_cong [OF split_at_line [OF assms], of "flat s"] by simp

lemma flat_pos_bound: "cursor_ok ls cursor \<Longrightarrow> flat_pos ls cursor < length (flat s ls)"
  using flat_at_line [of "cur_line cursor" ls s] flat_pos_take [of cursor ls s] by (auto simp: cursor_ok_def)

lemma flat_pos_mono:
  assumes "cursor_ok ls a" "cursor_ok ls b" "cursor_less a b"
  shows "flat_pos ls a < flat_pos ls b"
proof (cases "cur_line a = cur_line b")
  case True
  then show ?thesis using assms by (simp add: cursor_less_def flat_pos_def)
next
  case False
  then have lt: "cur_line a < cur_line b" using assms(3) by (simp add: cursor_less_def)
  have "length (flat 0 (take (Suc (cur_line a)) ls)) \<le> length (flat 0 (take (cur_line b) ls))"
  proof -
    have "take (cur_line b) ls = take (Suc (cur_line a)) ls @ take (cur_line b - Suc (cur_line a)) (drop (Suc (cur_line a)) ls)"
      using lt by (metis Suc_leI le_add_diff_inverse take_add)
    then show ?thesis by simp
  qed
  moreover have "flat_pos ls a < length (flat 0 (take (Suc (cur_line a)) ls))"
    using assms(1) flat_pos_take [of a ls 0] by (simp add: cursor_ok_def take_Suc_conv_app_nth)
  moreover have "length (flat 0 (take (cur_line b) ls)) \<le> flat_pos ls b"
    using assms(2) flat_pos_take [of b ls 0] by (simp add: cursor_ok_def)
  ultimately show ?thesis by linarith
qed

subsection \<open>Breaking lines keeps the text\<close>

lemma take_drop_space: "k < length l \<Longrightarrow> l ! k = s \<Longrightarrow> l = take k l @ s # drop (Suc k) l"
  using id_take_nth_drop by blast

definition break_cursor :: "nat \<Rightarrow> nat \<Rightarrow> text_cursor \<Rightarrow> text_cursor" where
  "break_cursor i k cursor =
     (if cur_line cursor = i \<and> cur_column cursor > k
      then \<lparr>cur_line = Suc (cur_line cursor), cur_column = cur_column cursor - (k + 1)\<rparr>
      else if cur_line cursor > i then cursor\<lparr>cur_line := Suc (cur_line cursor)\<rparr> else cursor)"

lemma break_cursor_pos:
  assumes i: "i < length ls" and k: "k < length (ls ! i)" and ok: "cursor_ok ls cursor"
    and ls': "ls' = take i ls @ take k (ls ! i) # drop (k + 1) (ls ! i) # drop (Suc i) ls"
  shows "cursor_ok ls' (break_cursor i k cursor) \<and> flat_pos ls' (break_cursor i k cursor) = flat_pos ls cursor"
proof -
  let ?L = "cur_line cursor"
  consider "?L < i" | "?L = i" "cur_column cursor \<le> k" | "?L = i" "cur_column cursor > k" | "?L > i" by linarith
  then show ?thesis
  proof cases
    case 1
    then have "ls' ! ?L = ls ! ?L" "take ?L ls' = take ?L ls" using i by (simp_all add: ls' nth_append)
    then show ?thesis using 1 ok i by (simp add: break_cursor_def cursor_ok_def flat_pos_def ls')
  next
    case 2
    then show ?thesis using i k by (simp add: break_cursor_def cursor_ok_def flat_pos_def ls' nth_append)
  next
    case 3
    then show ?thesis using i k ok by (auto simp: break_cursor_def cursor_ok_def flat_pos_def ls' nth_append)
  next
    case 4
    define m where "m = ?L - Suc i"
    have L: "?L = Suc (i + m)" using 4 by (simp add: m_def)
    have "ls' ! Suc ?L = ls ! ?L" using i ok by (simp add: ls' nth_append L cursor_ok_def)
    moreover have "take (Suc ?L) ls' = take i ls @ take k (ls ! i) # drop (k + 1) (ls ! i) # take m (drop (Suc i) ls)"
      using i by (simp add: ls' L)
    moreover have "take ?L ls = take i ls @ (ls ! i) # take m (drop (Suc i) ls)"
    proof -
      have "take ?L ls = take i ls @ take (Suc m) (drop i ls)" using take_add [of i "Suc m" ls] L by simp
      then show ?thesis by (simp add: Cons_nth_drop_Suc [OF i, symmetric])
    qed
    ultimately show ?thesis using 4 k ok i by (auto simp: break_cursor_def cursor_ok_def flat_pos_def ls')
  qed
qed

lemma materialize_loop_flat:
  assumes "cursor_ok ls cursor" and "materialize_loop width i final (ls, cursor) = (ls', cursor')"
  shows "flat kSpace ls' = flat kSpace ls \<and> cursor_ok ls' cursor' \<and> flat_pos ls' cursor' = flat_pos ls cursor"
  using assms
proof (induction width i final "(ls, cursor)" arbitrary: ls cursor rule: materialize_loop.induct)
  case (1 width i final ls cursor)
  show ?case
  proof (cases "i \<le> final \<and> i < length ls")
    case False
    then have "materialize_loop width i final (ls, cursor) = (ls, cursor)"
      by (subst materialize_loop.simps) (rule if_not_P)
    then show ?thesis using "1.prems" by simp
  next
    case in_range: True
    show ?thesis
    proof (cases "materialized_wrap_break (ls ! i) width")
      case None
      then have "materialize_loop width (Suc i) final (ls, cursor) = (ls', cursor')"
        using "1.prems"(2) in_range by (subst (asm) materialize_loop.simps) simp
      then show ?thesis using "1.hyps"(1) [OF in_range None "1.prems"(1)] by simp
    next
      case (Some k)
      let ?l = "ls ! i"
      let ?c = "if cur_line cursor = i \<and> cur_column cursor > k
        then \<lparr>cur_line = Suc (cur_line cursor), cur_column = cur_column cursor - (k + 1)\<rparr>
        else if cur_line cursor > i then cursor\<lparr>cur_line := Suc (cur_line cursor)\<rparr> else cursor"
      let ?ls = "take i ls @ take k ?l # drop (k + 1) ?l # drop (Suc i) ls"
      have k: "k < length ?l" "?l ! k = kSpace" using wrap_break_space [OF Some] by simp_all
      have i: "i < length ls" using in_range by simp
      have flat: "flat kSpace ?ls = flat kSpace ls"
        using flat_at_line [OF i, of kSpace] take_drop_space [OF k] by (metis flat_simps(2,3) append.assoc append_Cons Suc_eq_plus1)
      have ok: "cursor_ok ?ls ?c \<and> flat_pos ?ls ?c = flat_pos ls cursor"
        using break_cursor_pos [OF i k(1) "1.prems"(1) refl] by (simp only: break_cursor_def)
      have "materialize_loop width (Suc i) (Suc final) (?ls, ?c) = (ls', cursor')"
        using "1.prems"(2) in_range Some by (subst (asm) materialize_loop.simps) (simp add: Let_def)
      then have "flat kSpace ls' = flat kSpace ?ls \<and> cursor_ok ls' cursor' \<and> flat_pos ls' cursor' = flat_pos ?ls ?c"
        using "1.hyps"(2) [OF in_range Some refl refl] ok by blast
      then show ?thesis using flat ok by metis
    qed
  qed
qed

subsection \<open>Rows tile the lines\<close>

definition row_slice :: "text_line list \<Rightarrow> visual_row \<Rightarrow> text_line" where
  "row_slice ls r = take (row_length r) (drop (row_first r) (ls ! row_line r))"

lemma line_rows_tile:
  assumes "0 < width" and "first \<le> length (ls ! i)"
  shows "concat (map (row_slice ls) (line_rows i (ls ! i) width first)) = drop first (ls ! i)"
    and "\<forall>r \<in> set (line_rows i (ls ! i) width first). row_line r = i \<and> 0 < row_length r \<and> row_length r \<le> width \<and>
      row_first r + row_length r \<le> length (ls ! i)"
    and "c < length (ls ! i) \<Longrightarrow> first \<le> c \<Longrightarrow>
      \<exists>r \<in> set (line_rows i (ls ! i) width first). row_first r \<le> c \<and> c < row_first r + row_length r"
    and "first < length (ls ! i) \<Longrightarrow> line_rows i (ls ! i) width first \<noteq> [] \<and>
      row_first (last (line_rows i (ls ! i) width first)) + row_length (last (line_rows i (ls ! i) width first)) = length (ls ! i)"
  using assms
proof (induction i "ls ! i" width first rule: line_rows.induct)
  case (1 i width first)
  let ?n = "soft_row_length (ls ! i) width first"
  note b = soft_row_length_bounds [of first "ls ! i" width]
  have empty: "line_rows i (ls ! i) width first = []" if "\<not> first < length (ls ! i)"
    using that by (simp add: line_rows.simps)
  have step: "line_rows i (ls ! i) width first =
      \<lparr>row_line = i, row_first = first, row_length = ?n\<rparr> # line_rows i (ls ! i) width (first + ?n)"
    if "first < length (ls ! i)" "0 < width"
    using that by (simp add: line_rows.simps [of i "ls ! i" width first])
  { case 1
    show ?case
    proof (cases "first < length (ls ! i)")
      case True
      note ih = "1.hyps"(1) [OF conjI [OF True 1(1)] 1(1)]
      have "take ?n (drop first (ls ! i)) @ drop (first + ?n) (ls ! i) = drop first (ls ! i)"
        by (metis add.commute append_take_drop_id drop_drop)
      then show ?thesis using ih b True 1(1) step by (simp add: row_slice_def)
    qed (use empty in simp) }
  { case 2
    show ?case
    proof (cases "first < length (ls ! i)")
      case True
      then show ?thesis using "1.hyps"(2) [OF conjI [OF True 2(1)] 2(1)] b 2(1) step by simp
    qed (use empty in simp) }
  { case 3
    then have True: "first < length (ls ! i)" by simp
    show ?case
    proof (cases "c < first + ?n")
      case True
      then show ?thesis using 3 step by simp
    next
      case False
      then show ?thesis using "1.hyps"(3) [OF conjI [OF True 3(3)]] b True 3 step by simp
    qed }
  { case 4
    show ?case
    proof (cases "first + ?n < length (ls ! i)")
      case True
      then show ?thesis using "1.hyps"(4) [OF conjI [OF 4(1,2)] True 4(2)] step 4 by simp
    next
      case False
      then have "line_rows i (ls ! i) width (first + ?n) = []" by (simp add: line_rows.simps)
      then show ?thesis using b(3) [OF 4(1,2)] False step 4 by simp
    qed }
qed

subsection \<open>The caret has a row\<close>

definition row_holds :: "text_cursor \<Rightarrow> nat \<Rightarrow> visual_row \<Rightarrow> bool" where
  "row_holds cursor width row \<longleftrightarrow> row_line row = cur_line cursor \<and>
     (row_length row = 0 \<and> row_first row = cur_column cursor \<or>
      row_first row \<le> cur_column cursor \<and> cur_column cursor < row_first row + row_length row \<or>
      row_length row < width \<and> cur_column cursor = row_first row + row_length row)"

lemma find_cursor_row_sound:
  "find_cursor_row cursor width index rows = Some (k, col) \<Longrightarrow>
    index \<le> k \<and> k - index < length rows \<and> row_line (rows ! (k - index)) = cur_line cursor \<and>
    row_first (rows ! (k - index)) + col = cur_column cursor \<and> col \<le> row_length (rows ! (k - index))"
proof (induction rows arbitrary: index)
  case (Cons row rows)
  show ?case
  proof (cases "row_holds cursor width row")
    case True
    then show ?thesis using Cons.prems by (auto simp: row_holds_def split: if_splits)
  next
    case False
    then have "find_cursor_row cursor width (Suc index) rows = Some (k, col)"
      using Cons.prems by (auto simp: row_holds_def split: if_splits)
    then have ih: "Suc index \<le> k \<and> k - Suc index < length rows \<and> row_line (rows ! (k - Suc index)) = cur_line cursor \<and>
        row_first (rows ! (k - Suc index)) + col = cur_column cursor \<and> col \<le> row_length (rows ! (k - Suc index))"
      by (rule Cons.IH)
    then have "k - index = Suc (k - Suc index)" by linarith
    then show ?thesis using ih by simp
  qed
qed simp

lemma find_cursor_row_exists: "\<exists>r \<in> set rows. row_holds cursor width r \<Longrightarrow> find_cursor_row cursor width index rows \<noteq> None"
  by (induction rows arbitrary: index) (auto simp: row_holds_def)

lemma rows_of_line_holds:
  assumes "0 < width" and "cursor_ok ls cursor"
  shows "\<exists>r \<in> set (rows_of_line cursor width (cur_line cursor) (ls ! cur_line cursor)). row_holds cursor width r"
proof -
  let ?i = "cur_line cursor" and ?c = "cur_column cursor"
  let ?l = "ls ! ?i"
  let ?rows = "line_rows ?i ?l width 0"
  note tile = line_rows_tile [OF assms(1), of 0 ls ?i]
  have c: "?c \<le> length ?l" using assms(2) by (simp add: cursor_ok_def)
  show ?thesis
  proof (cases "?l = []")
    case True
    then show ?thesis using c by (simp add: rows_of_line_def row_holds_def)
  next
    case False
    show ?thesis
    proof (cases "?c < length ?l")
      case True
      then obtain r where "r \<in> set ?rows" "row_first r \<le> ?c" "?c < row_first r + row_length r" using tile(3) [of ?c] by auto
      then have "r \<in> set (rows_of_line cursor width ?i ?l)" "row_holds cursor width r"
        using tile(2) False by (auto simp: rows_of_line_def row_holds_def Let_def)
      then show ?thesis by blast
    next
      case end_of_line: False
      then have eq: "?c = length ?l" using c by simp
      have last: "?rows \<noteq> []" "row_first (last ?rows) + row_length (last ?rows) = length ?l" using tile(4) False by auto
      then have r: "last ?rows \<in> set ?rows" by simp
      then have b: "row_line (last ?rows) = ?i" "row_length (last ?rows) \<le> width" using tile(2) by auto
      show ?thesis
      proof (cases "row_length (last ?rows) = width")
        case True
        then show ?thesis using eq last(1) b(1) False by (simp add: rows_of_line_def row_holds_def Let_def)
      next
        case short: False
        then have "row_holds cursor width (last ?rows)" using b last(2) eq by (simp add: row_holds_def)
        moreover have "last ?rows \<in> set (rows_of_line cursor width ?i ?l)" using r False by (simp add: rows_of_line_def Let_def)
        ultimately show ?thesis by blast
      qed
    qed
  qed
qed

lemma visual_rows_line: "0 < width \<Longrightarrow> r \<in> set (visual_rows ls cursor width) \<longleftrightarrow>
    (\<exists>i < length ls. r \<in> set (rows_of_line cursor width i (ls ! i)))"
  by (auto simp: visual_rows_def)

lemma visual_cursor_correct:
  assumes "0 < width" and "cursor_ok ls cursor" and "rows = visual_rows ls cursor width"
    and "visual_cursor cursor rows width = (k, col)"
  shows "k < length rows" "row_line (rows ! k) = cur_line cursor" "row_first (rows ! k) + col = cur_column cursor"
    and "col \<le> row_length (rows ! k)"
proof -
  have "\<exists>r \<in> set rows. row_holds cursor width r"
    using rows_of_line_holds [OF assms(1,2)] assms(2) unfolding assms(3) cursor_ok_def visual_rows_line [OF assms(1)] Bex_def
    by (metis (no_types, lifting) assms(1) visual_rows_line)
  then obtain r where "find_cursor_row cursor width 0 rows = Some r" using find_cursor_row_exists by blast
  then have "find_cursor_row cursor width 0 rows = Some (k, col)" using assms(4) by (simp add: visual_cursor_def)
  from find_cursor_row_sound [OF this]
  show "k < length rows" "row_line (rows ! k) = cur_line cursor" "row_first (rows ! k) + col = cur_column cursor"
    "col \<le> row_length (rows ! k)" by simp_all
qed

lemma rows_of_line_valid:
  assumes "0 < width" and "i < length ls" and "r \<in> set (rows_of_line cursor width i (ls ! i))"
  shows "row_line r = i" and "row_first r + row_length r \<le> length (ls ! i)" and "row_length r \<le> width"
  using assms(3) line_rows_tile(2) [OF assms(1), of 0 ls i]
  by (auto simp: rows_of_line_def Let_def split: if_splits)

lemma visual_rows_valid:
  assumes "0 < width" and "r \<in> set (visual_rows ls cursor width)"
  shows "row_line r < length ls" and "row_first r + row_length r \<le> length (ls ! row_line r)" and "row_length r \<le> width"
  using assms visual_rows_line [OF assms(1)] rows_of_line_valid [OF assms(1)] by metis+

lemma visual_rows_not_empty: "0 < width \<Longrightarrow> cursor_ok ls cursor \<Longrightarrow> visual_rows ls cursor width \<noteq> []"
  using visual_cursor_correct(1) [of width ls cursor "visual_rows ls cursor width"]
  by (metis length_greater_0_conv less_nat_zero_code surj_pair list.size(3))

lemma concat_map_concat: "concat (map f (concat xss)) = concat (map (\<lambda>xs. concat (map f xs)) xss)"
  by (induction xss) simp_all

lemma visual_rows_tile:
  assumes "0 < width"
  shows "concat (map (row_slice ls) (visual_rows ls cursor width)) = concat ls"
proof -
  have line: "concat (map (row_slice ls) (rows_of_line cursor width i (ls ! i))) = ls ! i" for i
    using line_rows_tile(1) [OF assms, of 0 ls i] by (auto simp: rows_of_line_def Let_def row_slice_def)
  have "concat (map (row_slice ls) (visual_rows ls cursor width)) = concat (map (\<lambda>i. ls ! i) [0..<length ls])"
    using assms by (simp add: visual_rows_def concat_map_concat line comp_def)
  then show ?thesis by (simp add: map_nth)
qed

end
