(* ===== verification/Tui_Types.thy ===== *)
theory Tui_Types
  imports Prelude
begin

text \<open>
  Types shared by the terminal user interface: the result codes of
  \<open>puc-cli/tui/rendering/status.hpp\<close> and the selection events of \<open>rendering/selection.hpp\<close>.
  Signed 64-bit coordinates are integers.
\<close>

datatype tui_status = TUI_OK | TUI_INVALID_ARGUMENT | INVALID_DIMENSIONS | DIMENSION_OVERFLOW
  | FRAME_ALREADY_IN_PROGRESS | NO_FRAME_IN_PROGRESS | RECT_OUT_OF_BOUNDS | CELL_SHAPE_MISMATCH
  | DUPLICATE_FRAME_ID | FRAME_NOT_FOUND | FRAME_NOT_SELECTABLE | INVALID_SELECTION_TRANSITION
  | NO_SELECTION | INVALID_PERCENTAGE | INVALID_RATIO | INVALID_CONSTRAINT | CONSTRAINT_CYCLE
  | CANVAS_NOT_SET | TERMINAL_NOT_AVAILABLE | TERMINAL_QUERY_FAILED | TERMINAL_CONFIG_FAILED
  | TERMINAL_WRITE_FAILED | CHANNEL_SETUP_FAILED | MESSAGE_ENCODING_FAILED | MESSAGE_DECODING_FAILED
  | ASYNC_DISPATCH_FAILED

datatype selection_phase = PHASE_NONE | IN_PROGRESS | COMPLETE

datatype selection_type = SELECT_AND_EXTEND | END_SELECT_AND_EXTEND | SELECT_WORD | SELECT_LINE
  | SELECT_ALL_TEXT | RESET

record selection_position =
  pos_x :: int
  pos_y :: int

record selection_event =
  selection_type :: selection_type
  sel_anchor :: selection_position
  sel_extent :: selection_position

end
