(* ===== verification/Text_Editor.thy ===== *)
theory Text_Editor
  imports Text_Wrap Terminal_Event Tui_Types
begin

text \<open>
  \<open>TextEditor\<close> of \<open>puc-cli/tui/text_input/text_editor_utils.cpp\<close>: a buffer of lines with a
  caret, a selection, a scrolled viewport and transactional paste. Every method of \<open>Impl\<close> and
  of \<open>TextEditor\<close> that changes state is a function on the record \<open>text_editor\<close>. Sizes are
  natural numbers; the two subtractions whose operands the code does not compare first
  (in \<open>map_character\<close> and \<open>scroll_vertical\<close>) wrap around as \<open>size_t\<close> does. Indexing a vector
  outside its bounds is the value \<open>None\<close> of \<open>map_character\<close>.
\<close>

section \<open>State\<close>

record text_range =
  range_first :: text_cursor
  range_last :: text_cursor

record editor_options =
  tab_width :: nat
  fallback_width :: nat
  reserve_plain_enter :: bool

record paste_transaction =
  saved_lines :: "text_line list"
  saved_cursor :: text_cursor
  saved_selection :: "text_range option"
  saved_anchor :: "text_cursor option"
  saved_scroll_row :: nat
  saved_desired_column :: nat
  saved_has_desired_column :: bool
  pending_utf8 :: bytes
  preceding_cr :: bool

record text_editor =
  options :: editor_options
  ed_lines :: "text_line list"
  ed_cursor :: text_cursor
  ed_selection :: "text_range option"
  keyboard_anchor :: "text_cursor option"
  scroll_row :: nat
  desired_column :: nat
  has_desired_column :: bool
  viewport_width :: nat
  viewport_height :: nat
  ed_paste :: "paste_transaction option"

abbreviation "origin \<equiv> \<lparr>cur_line = 0, cur_column = 0\<rparr>"

definition new_editor :: "editor_options \<Rightarrow> text_editor" where
  "new_editor supplied = \<lparr>options = supplied\<lparr>tab_width := max (tab_width supplied) 1,
       fallback_width := max (fallback_width supplied) 1\<rparr>,
     ed_lines = [[]], ed_cursor = origin, ed_selection = None, keyboard_anchor = None, scroll_row = 0,
     desired_column = 0, has_desired_column = False, viewport_width = 0, viewport_height = 0, ed_paste = None\<rparr>"

definition has_input :: "text_editor \<Rightarrow> bool" where
  "has_input e \<longleftrightarrow> length (ed_lines e) > 1 \<or> hd (ed_lines e) \<noteq> []"

definition editable_width :: "text_editor \<Rightarrow> nat" where
  "editable_width e = (if viewport_width e = 0 then fallback_width (options e) else viewport_width e)"

definition ed_rows :: "text_editor \<Rightarrow> nat \<Rightarrow> visual_row list" where
  "ed_rows e width = visual_rows (ed_lines e) (ed_cursor e) width"

definition materialize_word_wraps :: "nat \<Rightarrow> text_editor \<Rightarrow> text_editor" where
  "materialize_word_wraps first_line e =
     (case materialize_loop (editable_width e) first_line first_line (ed_lines e, ed_cursor e) of
        (ls, c) \<Rightarrow> e\<lparr>ed_lines := ls, ed_cursor := c\<rparr>)"

section \<open>Scrolling\<close>

definition maximum_scroll :: "text_editor \<Rightarrow> nat" where
  "maximum_scroll e =
     (let rows = ed_rows e (viewport_width e) in
      if length rows > viewport_height e then length rows - viewport_height e else 0)"

definition clamp_scroll :: "text_editor \<Rightarrow> text_editor" where
  "clamp_scroll e =
     (if viewport_width e = 0 then e\<lparr>scroll_row := 0\<rparr>
      else e\<lparr>scroll_row := min (scroll_row e) (maximum_scroll e)\<rparr>)"

definition ensure_cursor_visible :: "text_editor \<Rightarrow> text_editor" where
  "ensure_cursor_visible e =
     (if viewport_width e = 0 \<or> viewport_height e = 0 then e
      else let rows = ed_rows e (viewport_width e) in
        if rows = [] then e\<lparr>scroll_row := 0\<rparr>
        else let row = fst (visual_cursor (ed_cursor e) rows (viewport_width e));
                 scrolled = (if row < scroll_row e then row
                   else if row \<ge> scroll_row e + viewport_height e then row - viewport_height e + 1
                   else scroll_row e)
          in e\<lparr>scroll_row := min scrolled (maximum_scroll e)\<rparr>)"

section \<open>Editing\<close>

definition after_character :: "text_editor \<Rightarrow> text_cursor \<Rightarrow> text_cursor" where
  "after_character e position =
     (if cur_line position < length (ed_lines e) \<and> cur_column position < length (ed_lines e ! cur_line position)
      then position\<lparr>cur_column := Suc (cur_column position)\<rparr> else position)"

definition delete_selection :: "text_editor \<Rightarrow> text_editor \<times> bool" where
  "delete_selection e =
     (case ed_selection e of None \<Rightarrow> (e, False)
      | Some r \<Rightarrow>
          let a = range_first r; b = range_last r; ls = ed_lines e;
              ls' = (if cur_line a = cur_line b
                then ls[cur_line a := take (cur_column a) (ls ! cur_line a) @
                          drop (cur_column a + (cur_column b - cur_column a)) (ls ! cur_line a)]
                else take (cur_line a) ls @
                  [take (cur_column a) (ls ! cur_line a) @ drop (cur_column b) (ls ! cur_line b)] @
                  drop (Suc (cur_line b)) ls)
          in (e\<lparr>ed_lines := ls', ed_cursor := a, ed_selection := None, keyboard_anchor := None,
                has_desired_column := False\<rparr>, True))"

definition insert_at :: "nat \<Rightarrow> 'a list \<Rightarrow> 'a list \<Rightarrow> 'a list" where
  "insert_at i new xs = take i xs @ new @ drop i xs"

text \<open>One character of the loop in \<open>insert\<close>; the flag is \<open>preceding_cr\<close>.\<close>

definition insert_scalar :: "u32 \<Rightarrow> text_editor \<times> bool \<Rightarrow> text_editor \<times> bool" where
  "insert_scalar character st =
     (case st of (e, cr) \<Rightarrow>
        let i = cur_line (ed_cursor e); c = cur_column (ed_cursor e); ls = ed_lines e in
        if character = 0x0a \<and> cr then (e, False)
        else if character = 0x0d \<or> character = 0x0a
        then (e\<lparr>ed_lines := take i ls @ take c (ls ! i) # drop c (ls ! i) # drop (Suc i) ls,
                ed_cursor := \<lparr>cur_line = Suc i, cur_column = 0\<rparr>\<rparr>, character = 0x0d)
        else if character = 0x09
        then let count = tab_width (options e) - c mod tab_width (options e) in
          (materialize_word_wraps i
             (e\<lparr>ed_lines := ls[i := insert_at c (replicate count kSpace) (ls ! i)],
                ed_cursor := (ed_cursor e)\<lparr>cur_column := c + count\<rparr>\<rparr>), False)
        else if character < 0x20 \<or> character = 0x7f then (e, False)
        else (materialize_word_wraps i
               (e\<lparr>ed_lines := ls[i := insert_at c [character] (ls ! i)],
                  ed_cursor := (ed_cursor e)\<lparr>cur_column := Suc c\<rparr>\<rparr>), False))"

definition insert_text :: "u32 list \<Rightarrow> bool \<Rightarrow> text_editor \<Rightarrow> text_editor \<times> bool" where
  "insert_text characters cr e =
     (case fold insert_scalar characters (fst (delete_selection e), cr) of
        (e', cr') \<Rightarrow> (ensure_cursor_visible
          (e'\<lparr>ed_selection := None, keyboard_anchor := None, has_desired_column := False\<rparr>), cr'))"

definition backspace :: "text_editor \<Rightarrow> text_editor" where
  "backspace e =
     (case delete_selection e of
        (e', True) \<Rightarrow> ensure_cursor_visible e'
      | (e', False) \<Rightarrow>
          let i = cur_line (ed_cursor e'); c = cur_column (ed_cursor e'); ls = ed_lines e';
              e'' = (if c > 0
                then e'\<lparr>ed_lines := ls[i := take (c - 1) (ls ! i) @ drop c (ls ! i)],
                        ed_cursor := (ed_cursor e')\<lparr>cur_column := c - 1\<rparr>\<rparr>
                else if i > 0
                then e'\<lparr>ed_lines := take (i - 1) ls @ (ls ! (i - 1) @ ls ! i) # drop (Suc i) ls,
                        ed_cursor := \<lparr>cur_line = i - 1, cur_column = length (ls ! (i - 1))\<rparr>\<rparr>
                else e')
          in ensure_cursor_visible (e''\<lparr>keyboard_anchor := None, has_desired_column := False\<rparr>))"

definition delete_forward :: "text_editor \<Rightarrow> text_editor" where
  "delete_forward e =
     (case delete_selection e of
        (e', True) \<Rightarrow> ensure_cursor_visible e'
      | (e', False) \<Rightarrow>
          let i = cur_line (ed_cursor e'); c = cur_column (ed_cursor e'); ls = ed_lines e';
              e'' = (if c < length (ls ! i)
                then e'\<lparr>ed_lines := ls[i := take c (ls ! i) @ drop (Suc c) (ls ! i)]\<rparr>
                else if Suc i < length ls
                then e'\<lparr>ed_lines := take i ls @ (ls ! i @ ls ! Suc i) # drop (Suc (Suc i)) ls\<rparr>
                else e')
          in ensure_cursor_visible (e''\<lparr>keyboard_anchor := None, has_desired_column := False\<rparr>))"

section \<open>Navigation\<close>

definition finish_navigation :: "text_cursor \<Rightarrow> bool \<Rightarrow> text_editor \<Rightarrow> text_editor" where
  "finish_navigation old_cursor shift e =
     (if \<not> shift then e\<lparr>ed_selection := None, keyboard_anchor := None\<rparr>
      else let anchor = (case keyboard_anchor e of None \<Rightarrow> old_cursor | Some a \<Rightarrow> a);
               e' = e\<lparr>keyboard_anchor := Some anchor\<rparr>
        in if anchor = ed_cursor e then e'\<lparr>ed_selection := None\<rparr>
           else if cursor_less (ed_cursor e) anchor
           then e'\<lparr>ed_selection := Some \<lparr>range_first = ed_cursor e, range_last = anchor\<rparr>\<rparr>
           else e'\<lparr>ed_selection := Some \<lparr>range_first = anchor, range_last = ed_cursor e\<rparr>\<rparr>)"

definition horizontal_target :: "bool \<Rightarrow> text_editor \<Rightarrow> text_cursor" where
  "horizontal_target right e =
     (let i = cur_line (ed_cursor e); c = cur_column (ed_cursor e); ls = ed_lines e in
      if right
      then if c < length (ls ! i) then \<lparr>cur_line = i, cur_column = Suc c\<rparr>
        else if Suc i < length ls then \<lparr>cur_line = Suc i, cur_column = 0\<rparr>
        else ed_cursor e
      else if c > 0 then \<lparr>cur_line = i, cur_column = c - 1\<rparr>
      else if i > 0 then \<lparr>cur_line = i - 1, cur_column = length (ls ! (i - 1))\<rparr>
      else ed_cursor e)"

definition move_horizontal :: "bool \<Rightarrow> bool \<Rightarrow> text_editor \<Rightarrow> text_editor" where
  "move_horizontal right shift e =
     ensure_cursor_visible (finish_navigation (ed_cursor e) shift
       (e\<lparr>ed_cursor := horizontal_target right e, has_desired_column := False\<rparr>))"

definition is_word_character :: "u32 \<Rightarrow> bool" where
  "is_word_character character \<longleftrightarrow> character > 0x7f \<or>
     (0x30 \<le> character \<and> character \<le> 0x39) \<or> (0x41 \<le> character \<and> character \<le> 0x5a) \<or>
     (0x61 \<le> character \<and> character \<le> 0x7a) \<or> character = 0x5f \<or> character = 0x2d"

definition move_word_left :: "bool \<Rightarrow> text_editor \<Rightarrow> text_editor" where
  "move_word_left shift e =
     (let old = ed_cursor e; ls = ed_lines e in
      if cur_column old = 0 \<and> cur_line old = 0 then finish_navigation old shift e
      else let start = (if cur_column old = 0
                 then \<lparr>cur_line = cur_line old - 1, cur_column = length (ls ! (cur_line old - 1))\<rparr> else old);
               line = ls ! cur_line start;
               c1 = scan_left (\<lambda>c. \<not> is_word_character c) line 0 (cur_column start);
               c2 = scan_left is_word_character line 0 c1
        in ensure_cursor_visible (finish_navigation old shift
             (e\<lparr>ed_cursor := start\<lparr>cur_column := c2\<rparr>, has_desired_column := False\<rparr>)))"

definition move_word_right :: "bool \<Rightarrow> text_editor \<Rightarrow> text_editor" where
  "move_word_right shift e =
     (let old = ed_cursor e; ls = ed_lines e;
          start = (if cur_column old = length (ls ! cur_line old) \<and> Suc (cur_line old) < length ls
            then \<lparr>cur_line = Suc (cur_line old), cur_column = 0\<rparr> else old);
          line = ls ! cur_line start;
          c1 = scan_right is_word_character line (cur_column start);
          c2 = scan_right (\<lambda>c. \<not> is_word_character c) line c1
      in ensure_cursor_visible (finish_navigation old shift
           (e\<lparr>ed_cursor := start\<lparr>cur_column := c2\<rparr>, has_desired_column := False\<rparr>)))"

definition move_vertical :: "int \<Rightarrow> bool \<Rightarrow> text_editor \<Rightarrow> text_editor" where
  "move_vertical row_delta shift e =
     (let width = editable_width e; rows = ed_rows e width in
      if rows = [] then e
      else case visual_cursor (ed_cursor e) rows width of (current_row, current_column) \<Rightarrow>
        let e1 = (if has_desired_column e then e else e\<lparr>desired_column := current_column, has_desired_column := True\<rparr>);
            target = (if row_delta < 0
              then let distance = nat (- row_delta) in if distance > current_row then 0 else current_row - distance
              else current_row + min (nat row_delta) (length rows - 1 - current_row));
            row = rows ! target
        in ensure_cursor_visible (finish_navigation (ed_cursor e) shift
             (e1\<lparr>ed_cursor := \<lparr>cur_line = row_line row,
                 cur_column = row_first row + min (desired_column e1) (row_length row)\<rparr>\<rparr>)))"

definition move_row_boundary :: "bool \<Rightarrow> bool \<Rightarrow> text_editor \<Rightarrow> text_editor" where
  "move_row_boundary to_end shift e =
     (let width = editable_width e; rows = ed_rows e width;
          target = (if rows = [] then ed_cursor e
            else let row = rows ! fst (visual_cursor (ed_cursor e) rows width) in
              \<lparr>cur_line = row_line row, cur_column = (if to_end then row_first row + row_length row else row_first row)\<rparr>)
      in ensure_cursor_visible (finish_navigation (ed_cursor e) shift
           (e\<lparr>ed_cursor := target, has_desired_column := False\<rparr>)))"

definition buffer_end :: "text_editor \<Rightarrow> text_cursor" where
  "buffer_end e = \<lparr>cur_line = length (ed_lines e) - 1, cur_column = length (last (ed_lines e))\<rparr>"

definition move_buffer_boundary :: "bool \<Rightarrow> bool \<Rightarrow> text_editor \<Rightarrow> text_editor" where
  "move_buffer_boundary to_end shift e =
     ensure_cursor_visible (finish_navigation (ed_cursor e) shift
       (e\<lparr>ed_cursor := (if to_end then buffer_end e else origin), has_desired_column := False\<rparr>))"

definition move_page :: "bool \<Rightarrow> bool \<Rightarrow> text_editor \<Rightarrow> text_editor" where
  "move_page down shift e =
     (let delta = int (min (max (viewport_height e) 1) (2 ^ 63 - 1))
      in move_vertical (if down then delta else - delta) shift e)"

section \<open>Pointer positions\<close>

definition pointer_row :: "selection_position \<Rightarrow> nat \<Rightarrow> text_editor \<Rightarrow> nat" where
  "pointer_row position row_count e =
     (if pos_y position < 0
      then let distance = nat (- pos_y position) in
        if distance > scroll_row e then 0 else scroll_row e - distance
      else size_add (scroll_row e)
        (min (nat (pos_y position)) (size_sub (row_count - 1) (scroll_row e))))"

definition map_character :: "selection_position \<Rightarrow> text_editor \<Rightarrow> text_cursor option option" where
  "map_character position e =
     (if viewport_width e = 0 \<or> viewport_height e = 0 then Some None
      else let rows = ed_rows e (viewport_width e) in
        if rows = [] then Some None
        else let visual_index = pointer_row position (length rows) e
          in if visual_index \<ge> length rows then None
             else let row = rows ! visual_index in
               if row_length row = 0 then Some None
               else let column = min (if pos_x position > 0 then nat (pos_x position) else 0) (row_length row - 1)
                 in Some (Some \<lparr>cur_line = row_line row, cur_column = row_first row + column\<rparr>))"

definition map_caret :: "selection_position \<Rightarrow> text_editor \<Rightarrow> text_cursor option" where
  "map_caret position e =
     (if viewport_width e = 0 \<or> viewport_height e = 0 \<or> pos_x position < 0 \<or> pos_y position < 0 \<or>
         pos_x position \<ge> int (viewport_width e) \<or> pos_y position \<ge> int (viewport_height e) then None
      else let rows = ed_rows e (viewport_width e); visual_index = scroll_row e + nat (pos_y position) in
        if visual_index \<ge> length rows then None
        else let row = rows ! visual_index in
          Some \<lparr>cur_line = row_line row, cur_column = row_first row + min (nat (pos_x position)) (row_length row)\<rparr>)"

definition is_selected :: "text_editor \<Rightarrow> text_cursor \<Rightarrow> bool" where
  "is_selected e position =
     (case ed_selection e of None \<Rightarrow> False
      | Some r \<Rightarrow> \<not> cursor_less position (range_first r) \<and> cursor_less position (range_last r))"

section \<open>Public operations\<close>

definition set_viewport :: "nat \<Rightarrow> nat \<Rightarrow> text_editor \<Rightarrow> text_editor" where
  "set_viewport width height e =
     (let changed = (viewport_width e \<noteq> width \<or> viewport_height e \<noteq> height);
          e' = clamp_scroll (e\<lparr>viewport_width := width, viewport_height := height\<rparr>)
      in if changed then ensure_cursor_visible e' else e')"

definition set_fallback_width :: "nat \<Rightarrow> text_editor \<Rightarrow> text_editor" where
  "set_fallback_width width e = e\<lparr>options := (options e)\<lparr>fallback_width := max width 1\<rparr>\<rparr>"

fun lines_utf8 :: "text_line list \<Rightarrow> bytes" where
  "lines_utf8 [] = []"
| "lines_utf8 [line] = encode_utf8 line"
| "lines_utf8 (line # ls) = encode_utf8 line @ 0x0a # lines_utf8 ls"

definition editor_text :: "text_editor \<Rightarrow> bytes" where
  "editor_text e = lines_utf8 (ed_lines e)"

definition logical_line_count :: "text_editor \<Rightarrow> nat" where
  "logical_line_count e = (if has_input e then length (ed_lines e) else 0)"

definition visual_row_count :: "nat \<Rightarrow> text_editor \<Rightarrow> nat" where
  "visual_row_count width e = length (ed_rows e width)"

record editor_snapshot =
  snap_text :: bytes
  snap_cursor :: text_cursor
  snap_scroll_row :: nat
  snap_paste_in_progress :: bool
  snap_selection :: "text_range option"

definition editor_snapshot_of :: "text_editor \<Rightarrow> editor_snapshot" where
  "editor_snapshot_of e = \<lparr>snap_text = editor_text e, snap_cursor = ed_cursor e, snap_scroll_row = scroll_row e,
     snap_paste_in_progress = (ed_paste e \<noteq> None), snap_selection = ed_selection e\<rparr>"

record render_row =
  logical_line :: nat
  first_character :: nat
  first_visual_row :: bool
  render_cells :: "(u32 \<times> bool) list"

record render_state =
  render_rows :: "render_row list"
  render_cursor_row :: "nat option"
  render_cursor_column :: nat

definition render_row_of :: "text_editor \<Rightarrow> visual_row \<Rightarrow> render_row" where
  "render_row_of e row = \<lparr>logical_line = row_line row, first_character = row_first row,
     first_visual_row = (row_first row = 0),
     render_cells = map (\<lambda>column. let logical = \<lparr>cur_line = row_line row, cur_column = row_first row + column\<rparr>
       in (ed_lines e ! row_line row ! cur_column logical, is_selected e logical)) [0..<row_length row]\<rparr>"

definition editor_render_state :: "text_editor \<Rightarrow> render_state" where
  "editor_render_state e =
     (if viewport_width e = 0 \<or> viewport_height e = 0
      then \<lparr>render_rows = [], render_cursor_row = None, render_cursor_column = 0\<rparr>
      else let rows = ed_rows e (viewport_width e);
               available = (if scroll_row e < length rows then length rows - scroll_row e else 0);
               count = min (viewport_height e) available
        in case visual_cursor (ed_cursor e) rows (viewport_width e) of (cursor_row, cursor_column) \<Rightarrow>
          if cursor_row \<ge> scroll_row e \<and> cursor_row < scroll_row e + viewport_height e
          then \<lparr>render_rows = map (\<lambda>visible. render_row_of e (rows ! (scroll_row e + visible))) [0..<count],
                render_cursor_row = Some (cursor_row - scroll_row e), render_cursor_column = cursor_column\<rparr>
          else \<lparr>render_rows = map (\<lambda>visible. render_row_of e (rows ! (scroll_row e + visible))) [0..<count],
                render_cursor_row = None, render_cursor_column = 0\<rparr>)"

definition editor_clear :: "text_editor \<Rightarrow> text_editor" where
  "editor_clear e = new_editor (options e)"

definition insert_utf8 :: "bytes \<Rightarrow> text_editor \<Rightarrow> text_editor" where
  "insert_utf8 t e = fst (insert_text (decode_utf8 t) False e)"

fun is_modifier_key :: "named_key \<Rightarrow> bool" where
  "is_modifier_key (Modifier_Key _) = True"
| "is_modifier_key _ = False"

definition handle_named :: "named_key \<Rightarrow> bool \<Rightarrow> bool \<Rightarrow> bool \<Rightarrow> text_editor \<Rightarrow> text_editor" where
  "handle_named key shift option_key command_key e =
     (if key \<in> {ENTER, Keypad KEYPAD_ENTER}
      then if reserve_plain_enter (options e) \<and> \<not> shift then e else fst (insert_text [0x0a] False e)
      else if key = TAB then fst (insert_text [0x09] False e)
      else if key = BACKSPACE then backspace e
      else if key \<in> {DELETE_KEY, Keypad KEYPAD_DELETE} then delete_forward e
      else if key \<in> {LEFT, Keypad KEYPAD_LEFT}
      then if command_key then move_row_boundary False shift e
           else if option_key then move_word_left shift e else move_horizontal False shift e
      else if key \<in> {RIGHT, Keypad KEYPAD_RIGHT}
      then if command_key then move_row_boundary True shift e
           else if option_key then move_word_right shift e else move_horizontal True shift e
      else if key \<in> {UP, Keypad KEYPAD_UP}
      then if command_key then move_buffer_boundary False shift e
           else if option_key then move_page False shift e else move_vertical (- 1) shift e
      else if key \<in> {DOWN, Keypad KEYPAD_DOWN}
      then if command_key then move_buffer_boundary True shift e
           else if option_key then move_page True shift e else move_vertical 1 shift e
      else if key \<in> {HOME, Keypad KEYPAD_HOME} then move_row_boundary False shift e
      else if key \<in> {END, Keypad KEYPAD_END} then move_row_boundary True shift e
      else if key \<in> {PAGE_UP, Keypad KEYPAD_PAGE_UP} then move_page False False e
      else if key \<in> {PAGE_DOWN, Keypad KEYPAD_PAGE_DOWN} then move_page True False e
      else e)"

definition handle_key :: "key_event \<Rightarrow> text_editor \<Rightarrow> text_editor" where
  "handle_key ev e =
     (if event_action ev = KEY_RELEASE \<or> ed_paste e \<noteq> None then e
      else let has = contains_modifier (event_modifiers ev) in
        case event_key ev of
          Named key \<Rightarrow>
            if is_modifier_key key then e
            else handle_named key (has SHIFT) (has ALT) (has SUPER \<or> has META) e
        | Character c \<Rightarrow>
            if has CONTROL \<or> has SUPER \<or> has HYPER \<or> has META then e
            else if event_text ev \<noteq> [] then insert_utf8 (event_text ev) e
            else insert_utf8 (append_utf8 (case shifted_key ev of None \<Rightarrow> c | Some s \<Rightarrow> s)) e)"

definition handle_text :: "text_event \<Rightarrow> text_editor \<Rightarrow> text_editor" where
  "handle_text ev e = (if ed_paste e = None then insert_utf8 (text_utf8 ev) e else e)"

text \<open>\<open>insert(consume_utf8(pending, finish), preceding_cr)\<close> on the open transaction.\<close>

definition paste_insert :: "bytes \<Rightarrow> bool \<Rightarrow> paste_transaction \<Rightarrow> text_editor \<Rightarrow> text_editor" where
  "paste_insert bs finish p e =
     (case consume_utf8 bs finish of (scalars, rest) \<Rightarrow>
        case insert_text scalars (preceding_cr p) e of (e', cr) \<Rightarrow>
          e'\<lparr>ed_paste := Some (p\<lparr>pending_utf8 := rest, preceding_cr := cr\<rparr>)\<rparr>)"

definition handle_paste :: "paste_event \<Rightarrow> text_editor \<Rightarrow> text_editor \<times> tui_status" where
  "handle_paste ev e =
     (case paste_phase ev of
        PASTE_BEGIN \<Rightarrow>
          (if ed_paste e \<noteq> None then (e, TUI_INVALID_ARGUMENT)
           else (e\<lparr>ed_paste := Some \<lparr>saved_lines = ed_lines e, saved_cursor = ed_cursor e,
              saved_selection = ed_selection e, saved_anchor = keyboard_anchor e, saved_scroll_row = scroll_row e,
              saved_desired_column = desired_column e, saved_has_desired_column = has_desired_column e,
              pending_utf8 = [], preceding_cr = False\<rparr>\<rparr>, TUI_OK))
      | PASTE_DATA \<Rightarrow>
          (case ed_paste e of None \<Rightarrow> (e, TUI_INVALID_ARGUMENT)
           | Some p \<Rightarrow> (paste_insert (pending_utf8 p @ paste_data ev) False p e, TUI_OK))
      | PASTE_END \<Rightarrow>
          (case ed_paste e of None \<Rightarrow> (e, TUI_INVALID_ARGUMENT)
           | Some p \<Rightarrow> ((paste_insert (pending_utf8 p) True p e)\<lparr>ed_paste := None\<rparr>, TUI_OK))
      | PASTE_CANCEL \<Rightarrow>
          (case ed_paste e of None \<Rightarrow> (e, TUI_OK)
           | Some p \<Rightarrow> (e\<lparr>ed_lines := saved_lines p, ed_cursor := saved_cursor p, ed_selection := saved_selection p,
               keyboard_anchor := saved_anchor p, scroll_row := saved_scroll_row p,
               desired_column := saved_desired_column p, has_desired_column := saved_has_desired_column p,
               ed_paste := None\<rparr>, TUI_OK)))"

definition select_everything :: "text_editor \<Rightarrow> text_editor" where
  "select_everything e = e\<lparr>ed_selection := Some \<lparr>range_first = origin, range_last = buffer_end e\<rparr>, keyboard_anchor := None\<rparr>"

fun apply_command :: "command \<Rightarrow> text_editor \<Rightarrow> text_editor" where
  "apply_command COPY e = e"
| "apply_command ENTER_COMMAND_MODE e = e"
| "apply_command ENTER_TERMINAL_MODE e = e"
| "apply_command SELECT_ALL e = (if has_input e then select_everything e else e)"
| "apply_command MOVE_WORD_LEFT e = move_word_left False e"
| "apply_command MOVE_WORD_RIGHT e = move_word_right False e"
| "apply_command MOVE_ROW_START e = move_row_boundary False False e"
| "apply_command MOVE_ROW_END e = move_row_boundary True False e"
| "apply_command MOVE_BUFFER_START e = move_buffer_boundary False False e"
| "apply_command MOVE_BUFFER_END e = move_buffer_boundary True False e"
| "apply_command MOVE_PAGE_UP e = move_page False False e"
| "apply_command MOVE_PAGE_DOWN e = move_page True False e"

definition scroll_vertical :: "int \<Rightarrow> text_editor \<Rightarrow> text_editor" where
  "scroll_vertical delta e =
     (if viewport_width e = 0 \<or> delta = 0 then e
      else if delta > 0
      then e\<lparr>scroll_row := (if nat delta > scroll_row e then 0 else scroll_row e - nat delta)\<rparr>
      else e\<lparr>scroll_row := size_add (scroll_row e)
             (min (nat (- delta)) (size_sub (maximum_scroll e) (scroll_row e)))\<rparr>)"

definition reset_selection :: "text_editor \<Rightarrow> text_editor" where
  "reset_selection e = e\<lparr>ed_selection := None, keyboard_anchor := None\<rparr>"

definition word_bounds :: "text_line \<Rightarrow> nat \<Rightarrow> nat \<times> nat" where
  "word_bounds line column =
     (if is_word_character (line ! column)
      then (scan_left is_word_character line 0 column, scan_right is_word_character line (Suc column))
      else (column, Suc column))"

text \<open>\<open>None\<close>: \<open>map_character\<close> indexed the rows outside their bounds.\<close>

definition update_selection :: "selection_event \<Rightarrow> text_editor \<Rightarrow> (text_editor \<times> tui_status) option" where
  "update_selection ev e =
     (if selection_type ev = RESET then Some (reset_selection e, TUI_OK)
      else if selection_type ev = SELECT_ALL_TEXT
      then Some (if \<not> has_input e then (e, NO_SELECTION) else (select_everything e, TUI_OK))
      else case map_character (sel_extent ev) e of
          None \<Rightarrow> None
        | Some None \<Rightarrow> Some (e, NO_SELECTION)
        | Some (Some extent) \<Rightarrow>
            let select = (\<lambda>a b. (e\<lparr>ed_selection := Some \<lparr>range_first = a, range_last = b\<rparr>, keyboard_anchor := None\<rparr>, TUI_OK)) in
            if selection_type ev = SELECT_WORD
            then case word_bounds (ed_lines e ! cur_line extent) (cur_column extent) of (a, b) \<Rightarrow>
              Some (select (extent\<lparr>cur_column := a\<rparr>) (extent\<lparr>cur_column := b\<rparr>))
            else if selection_type ev = SELECT_LINE
            then Some (select (extent\<lparr>cur_column := 0\<rparr>) (extent\<lparr>cur_column := length (ed_lines e ! cur_line extent)\<rparr>))
            else case map_character (sel_anchor ev) e of
                None \<Rightarrow> None
              | Some None \<Rightarrow> Some (e, NO_SELECTION)
              | Some (Some anchor) \<Rightarrow>
                  Some (if cursor_less extent anchor then select extent (after_character e anchor)
                        else select anchor (after_character e extent)))"

definition range_lines :: "text_line list \<Rightarrow> text_range \<Rightarrow> text_line list" where
  "range_lines ls r = map (\<lambda>i.
     let first = (if i = cur_line (range_first r) then cur_column (range_first r) else 0);
         last = (if i = cur_line (range_last r) then cur_column (range_last r) else length (ls ! i))
     in take (last - first) (drop first (ls ! i))) [cur_line (range_first r)..<Suc (cur_line (range_last r))]"

definition selected_text :: "text_editor \<Rightarrow> bytes \<times> tui_status" where
  "selected_text e =
     (case ed_selection e of None \<Rightarrow> ([], NO_SELECTION)
      | Some r \<Rightarrow> (lines_utf8 (range_lines (ed_lines e) r), TUI_OK))"

definition place_cursor :: "selection_position \<Rightarrow> text_editor \<Rightarrow> text_editor \<times> tui_status" where
  "place_cursor position e =
     (case map_caret position e of None \<Rightarrow> (e, TUI_OK)
      | Some mapped \<Rightarrow>
          (ensure_cursor_visible ((reset_selection (e\<lparr>ed_cursor := mapped\<rparr>))\<lparr>has_desired_column := False\<rparr>), TUI_OK))"

section \<open>Edits of the flat text\<close>

lemma nth_flat_line:
  assumes "cursor_ok ls c"
  shows "flat s ls = flat s (take (cur_line c) ls) @ take (cur_column c) (ls ! cur_line c) @
      drop (cur_column c) (ls ! cur_line c) @ s # flat s (drop (Suc (cur_line c)) ls)"
    and "length (flat s (take (cur_line c) ls) @ take (cur_column c) (ls ! cur_line c)) = flat_pos ls c"
proof -
  show "flat s ls = flat s (take (cur_line c) ls) @ take (cur_column c) (ls ! cur_line c) @
      drop (cur_column c) (ls ! cur_line c) @ s # flat s (drop (Suc (cur_line c)) ls)"
    using flat_at_line [of "cur_line c" ls s] assms by (simp add: cursor_ok_def)
  show "length (flat s (take (cur_line c) ls) @ take (cur_column c) (ls ! cur_line c)) = flat_pos ls c"
    using assms flat_pos_take [of c ls s] by (simp add: cursor_ok_def)
qed

lemma flat_take_drop:
  assumes "cursor_ok ls c"
  shows "take (flat_pos ls c) (flat s ls) = flat s (take (cur_line c) ls) @ take (cur_column c) (ls ! cur_line c)"
    and "drop (flat_pos ls c) (flat s ls) = drop (cur_column c) (ls ! cur_line c) @ s # flat s (drop (Suc (cur_line c)) ls)"
proof -
  let ?a = "flat s (take (cur_line c) ls) @ take (cur_column c) (ls ! cur_line c)"
  let ?b = "drop (cur_column c) (ls ! cur_line c) @ s # flat s (drop (Suc (cur_line c)) ls)"
  have eq: "flat s ls = ?a @ ?b" "length ?a = flat_pos ls c" using nth_flat_line [OF assms, of s] by simp_all
  have "?a = take (length ?a) (flat s ls) \<and> ?b = drop (length ?a) (flat s ls)"
    using eq(1) append_eq_conv_conj by metis
  then show "take (flat_pos ls c) (flat s ls) = ?a" "drop (flat_pos ls c) (flat s ls) = ?b" unfolding eq(2) by simp_all
qed

lemma flat_update:
  assumes "i < length ls"
  shows "flat s (ls[i := l]) = flat s (take i ls) @ l @ s # flat s (drop (Suc i) ls)"
  using assms by (simp add: upd_conv_take_nth_drop)

lemma flat_insert:
  assumes ok: "cursor_ok ls c" and ls': "ls' = ls[cur_line c := insert_at (cur_column c) new (ls ! cur_line c)]"
    and c': "c' = c\<lparr>cur_column := cur_column c + length new\<rparr>"
  shows "flat s ls' = insert_at (flat_pos ls c) new (flat s ls)"
    and "cursor_ok ls' c'" and "flat_pos ls' c' = flat_pos ls c + length new"
proof -
  have i: "cur_line c < length ls" using ok by (simp add: cursor_ok_def)
  show "flat s ls' = insert_at (flat_pos ls c) new (flat s ls)"
    unfolding ls' flat_update [OF i] insert_at_def flat_take_drop [OF ok] by simp
  show "cursor_ok ls' c'" "flat_pos ls' c' = flat_pos ls c + length new"
    using ok by (simp_all add: cursor_ok_def flat_pos_def ls' c' insert_at_def)
qed

lemma flat_break:
  assumes ok: "cursor_ok ls c"
    and ls': "ls' = take (cur_line c) ls @ take (cur_column c) (ls ! cur_line c) # drop (cur_column c) (ls ! cur_line c) #
      drop (Suc (cur_line c)) ls"
    and c': "c' = \<lparr>cur_line = Suc (cur_line c), cur_column = 0\<rparr>"
  shows "flat s ls' = insert_at (flat_pos ls c) [s] (flat s ls)"
    and "cursor_ok ls' c'" and "flat_pos ls' c' = flat_pos ls c + 1"
proof -
  show "flat s ls' = insert_at (flat_pos ls c) [s] (flat s ls)"
    unfolding ls' insert_at_def flat_take_drop [OF ok] by simp
  show "cursor_ok ls' c'" "flat_pos ls' c' = flat_pos ls c + 1"
    using ok by (auto simp: cursor_ok_def flat_pos_def ls' c' nth_append)
qed

lemma flat_remove_range:
  assumes a: "cursor_ok ls a" and b: "cursor_ok ls b" and le: "a = b \<or> cursor_less a b"
    and ls': "ls' = take (cur_line a) ls @
      (take (cur_column a) (ls ! cur_line a) @ drop (cur_column b) (ls ! cur_line b)) # drop (Suc (cur_line b)) ls"
  shows "flat s ls' = take (flat_pos ls a) (flat s ls) @ drop (flat_pos ls b) (flat s ls)"
    and "cursor_ok ls' a" and "flat_pos ls' a = flat_pos ls a"
proof -
  show "flat s ls' = take (flat_pos ls a) (flat s ls) @ drop (flat_pos ls b) (flat s ls)"
    unfolding ls' flat_take_drop [OF a] flat_take_drop [OF b] by simp
  show "cursor_ok ls' a" "flat_pos ls' a = flat_pos ls a"
    using a by (simp_all add: cursor_ok_def flat_pos_def ls' nth_append)
qed

text \<open>The invariant of the editor.\<close>

definition range_ok :: "text_line list \<Rightarrow> text_range option \<Rightarrow> bool" where
  "range_ok ls sel \<longleftrightarrow> (case sel of None \<Rightarrow> True | Some r \<Rightarrow>
     cursor_ok ls (range_first r) \<and> cursor_ok ls (range_last r) \<and> cursor_less (range_first r) (range_last r))"

definition anchor_ok :: "text_line list \<Rightarrow> text_cursor option \<Rightarrow> bool" where
  "anchor_ok ls a \<longleftrightarrow> (case a of None \<Rightarrow> True | Some c \<Rightarrow> cursor_ok ls c)"

definition paste_ok :: "paste_transaction option \<Rightarrow> bool" where
  "paste_ok p \<longleftrightarrow> (case p of None \<Rightarrow> True | Some t \<Rightarrow> cursor_ok (saved_lines t) (saved_cursor t) \<and>
     range_ok (saved_lines t) (saved_selection t) \<and> anchor_ok (saved_lines t) (saved_anchor t))"

definition ed_wf :: "text_editor \<Rightarrow> bool" where
  "ed_wf e \<longleftrightarrow> cursor_ok (ed_lines e) (ed_cursor e) \<and> range_ok (ed_lines e) (ed_selection e) \<and>
     anchor_ok (ed_lines e) (keyboard_anchor e) \<and> paste_ok (ed_paste e) \<and>
     0 < tab_width (options e) \<and> 0 < fallback_width (options e)"

lemma ok_none [simp]: "range_ok ls None" "anchor_ok ls None" "paste_ok None"
  by (simp_all add: range_ok_def anchor_ok_def paste_ok_def)

lemma ed_wfD:
  assumes "ed_wf e"
  shows "cursor_ok (ed_lines e) (ed_cursor e)" "range_ok (ed_lines e) (ed_selection e)"
    "anchor_ok (ed_lines e) (keyboard_anchor e)" "paste_ok (ed_paste e)"
    "0 < tab_width (options e)" "0 < fallback_width (options e)" "ed_lines e \<noteq> []"
  using assms by (auto simp: ed_wf_def cursor_ok_def)

lemma new_editor_wf: "ed_wf (new_editor opts)"
  by (simp add: ed_wf_def new_editor_def cursor_ok_def less_max_iff_disj)

text \<open>What \<open>ensure_cursor_visible\<close> and \<open>clamp_scroll\<close> leave alone.\<close>

lemma scroll_update [simp]: "ed_wf (e\<lparr>scroll_row := r\<rparr>) = ed_wf e" "ed_rows (e\<lparr>scroll_row := r\<rparr>) w = ed_rows e w"
  "maximum_scroll (e\<lparr>scroll_row := r\<rparr>) = maximum_scroll e"
  by (simp_all add: ed_wf_def ed_rows_def maximum_scroll_def Let_def)

lemma ensure_eq: "\<exists>r. ensure_cursor_visible e = e\<lparr>scroll_row := r\<rparr>"
proof -
  have "e = e\<lparr>scroll_row := scroll_row e\<rparr>" by simp
  then show ?thesis unfolding ensure_cursor_visible_def Let_def by metis
qed

lemma ensure_simps [simp]:
  "ed_lines (ensure_cursor_visible e) = ed_lines e" "ed_cursor (ensure_cursor_visible e) = ed_cursor e"
  "ed_selection (ensure_cursor_visible e) = ed_selection e" "keyboard_anchor (ensure_cursor_visible e) = keyboard_anchor e"
  "ed_paste (ensure_cursor_visible e) = ed_paste e" "options (ensure_cursor_visible e) = options e"
  "viewport_width (ensure_cursor_visible e) = viewport_width e" "viewport_height (ensure_cursor_visible e) = viewport_height e"
  "ed_wf (ensure_cursor_visible e) = ed_wf e" "desired_column (ensure_cursor_visible e) = desired_column e"
  "has_desired_column (ensure_cursor_visible e) = has_desired_column e"
  using ensure_eq [of e] by auto

lemma clamp_simps [simp]:
  "ed_lines (clamp_scroll e) = ed_lines e" "ed_cursor (clamp_scroll e) = ed_cursor e"
  "viewport_width (clamp_scroll e) = viewport_width e" "viewport_height (clamp_scroll e) = viewport_height e"
  "ed_wf (clamp_scroll e) = ed_wf e"
  by (simp_all add: clamp_scroll_def)

section \<open>Deleting and inserting\<close>

definition selected_span :: "text_editor \<Rightarrow> nat \<times> nat" where
  "selected_span e =
     (case ed_selection e of None \<Rightarrow> (flat_pos (ed_lines e) (ed_cursor e), flat_pos (ed_lines e) (ed_cursor e))
      | Some r \<Rightarrow> (flat_pos (ed_lines e) (range_first r), flat_pos (ed_lines e) (range_last r)))"

definition same_frame :: "text_editor \<Rightarrow> text_editor \<Rightarrow> bool" where
  "same_frame e e' \<longleftrightarrow> options e' = options e \<and> viewport_width e' = viewport_width e \<and>
     viewport_height e' = viewport_height e \<and> ed_paste e' = ed_paste e"

lemma delete_selection_flat:
  assumes wf: "ed_wf e" and del: "delete_selection e = (e', d)" and span: "selected_span e = (pa, pb)"
  shows "flat s (ed_lines e') = take pa (flat s (ed_lines e)) @ drop pb (flat s (ed_lines e))"
    and "cursor_ok (ed_lines e') (ed_cursor e')" and "flat_pos (ed_lines e') (ed_cursor e') = pa"
    and "same_frame e e'" and "ed_selection e' = None" and "d \<longleftrightarrow> ed_selection e \<noteq> None"
    and "d \<longrightarrow> keyboard_anchor e' = None" and "\<not> d \<longrightarrow> e' = e"
proof -
  note ok = ed_wfD [OF wf]
  have "flat s (ed_lines e') = take pa (flat s (ed_lines e)) @ drop pb (flat s (ed_lines e)) \<and>
    cursor_ok (ed_lines e') (ed_cursor e') \<and> flat_pos (ed_lines e') (ed_cursor e') = pa \<and>
    same_frame e e' \<and> ed_selection e' = None \<and> (d \<longleftrightarrow> ed_selection e \<noteq> None) \<and> (d \<longrightarrow> keyboard_anchor e' = None) \<and>
    (\<not> d \<longrightarrow> e' = e)"
  proof (cases "ed_selection e")
    case None
    then show ?thesis using del span ok(1) by (auto simp: delete_selection_def selected_span_def same_frame_def)
  next
    case (Some r)
    let ?a = "range_first r" and ?b = "range_last r" and ?ls = "ed_lines e"
    have ab: "cursor_ok ?ls ?a" "cursor_ok ?ls ?b" "cursor_less ?a ?b" using ok(2) Some by (simp_all add: range_ok_def)
    have ls': "ed_lines e' = take (cur_line ?a) ?ls @
        (take (cur_column ?a) (?ls ! cur_line ?a) @ drop (cur_column ?b) (?ls ! cur_line ?b)) # drop (Suc (cur_line ?b)) ?ls"
      and e': "ed_cursor e' = ?a" "same_frame e e'" "ed_selection e' = None" "keyboard_anchor e' = None" "d"
      using del Some ab by (auto simp: delete_selection_def Let_def same_frame_def cursor_less_def cursor_ok_def
          upd_conv_take_nth_drop)
    then show ?thesis
      using flat_remove_range [OF ab(1,2) disjI2 [OF ab(3)] ls'] span Some by (simp add: selected_span_def)
  qed
  then show "flat s (ed_lines e') = take pa (flat s (ed_lines e)) @ drop pb (flat s (ed_lines e))"
    and "cursor_ok (ed_lines e') (ed_cursor e')" and "flat_pos (ed_lines e') (ed_cursor e') = pa"
    and "same_frame e e'" and "ed_selection e' = None" and "d \<longleftrightarrow> ed_selection e \<noteq> None"
    and "d \<longrightarrow> keyboard_anchor e' = None" and "\<not> d \<longrightarrow> e' = e" by simp_all
qed

lemma materialize_flat:
  assumes "cursor_ok (ed_lines e) (ed_cursor e)"
  shows "flat kSpace (ed_lines (materialize_word_wraps i e)) = flat kSpace (ed_lines e)"
    and "cursor_ok (ed_lines (materialize_word_wraps i e)) (ed_cursor (materialize_word_wraps i e))"
    and "flat_pos (ed_lines (materialize_word_wraps i e)) (ed_cursor (materialize_word_wraps i e)) =
      flat_pos (ed_lines e) (ed_cursor e)"
    and "same_frame e (materialize_word_wraps i e)" and "ed_selection (materialize_word_wraps i e) = ed_selection e"
proof -
  obtain ls c where m: "materialize_loop (editable_width e) i i (ed_lines e, ed_cursor e) = (ls, c)" by fastforce
  then have eq: "materialize_word_wraps i e = e\<lparr>ed_lines := ls, ed_cursor := c\<rparr>" by (simp add: materialize_word_wraps_def)
  show "flat kSpace (ed_lines (materialize_word_wraps i e)) = flat kSpace (ed_lines e)"
    "cursor_ok (ed_lines (materialize_word_wraps i e)) (ed_cursor (materialize_word_wraps i e))"
    "flat_pos (ed_lines (materialize_word_wraps i e)) (ed_cursor (materialize_word_wraps i e)) =
      flat_pos (ed_lines e) (ed_cursor e)"
    "same_frame e (materialize_word_wraps i e)" "ed_selection (materialize_word_wraps i e) = ed_selection e"
    unfolding eq using materialize_loop_flat [OF assms m] by (simp_all add: same_frame_def)
qed

text \<open>
  What the insertion of a character adds to the text: nothing for a line feed after a carriage
  return and for other control characters, a line break for the first of them, one to
  \<open>tab_width\<close> spaces for a tab, and otherwise the character.
\<close>

definition scalar_expands :: "nat \<Rightarrow> bool \<Rightarrow> u32 \<Rightarrow> u32 list \<Rightarrow> bool \<Rightarrow> bool" where
  "scalar_expands tab cr c out cr' \<longleftrightarrow>
     (if c = 0x0a \<and> cr then out = [] \<and> \<not> cr'
      else if c = 0x0d \<or> c = 0x0a then out = [kSpace] \<and> cr' = (c = 0x0d)
      else if c = 0x09 then \<not> cr' \<and> (\<exists>n. 1 \<le> n \<and> n \<le> tab \<and> out = replicate n kSpace)
      else if c < 0x20 \<or> c = 0x7f then out = [] \<and> \<not> cr'
      else out = [c] \<and> \<not> cr')"

inductive text_expands :: "nat \<Rightarrow> bool \<Rightarrow> u32 list \<Rightarrow> u32 list \<Rightarrow> bool \<Rightarrow> bool" where
  expands_nil: "text_expands tab cr [] [] cr"
| expands_cons: "scalar_expands tab cr c out cr1 \<Longrightarrow> text_expands tab cr1 cs outs cr2 \<Longrightarrow>
    text_expands tab cr (c # cs) (out @ outs) cr2"

lemma insert_at_insert_at: "i \<le> length xs \<Longrightarrow> insert_at (i + length a) b (insert_at i a xs) = insert_at i (a @ b) xs"
  by (simp add: insert_at_def)

lemma insert_scalar_flat:
  assumes ok: "cursor_ok (ed_lines e) (ed_cursor e)" and tab: "0 < tab_width (options e)"
    and ins: "insert_scalar c (e, cr) = (e', cr')"
  shows "\<exists>out. scalar_expands (tab_width (options e)) cr c out cr' \<and>
    flat kSpace (ed_lines e') = insert_at (flat_pos (ed_lines e) (ed_cursor e)) out (flat kSpace (ed_lines e)) \<and>
    flat_pos (ed_lines e') (ed_cursor e') = flat_pos (ed_lines e) (ed_cursor e) + length out \<and>
    cursor_ok (ed_lines e') (ed_cursor e') \<and> same_frame e e' \<and> ed_selection e' = ed_selection e"
proof -
  let ?ls = "ed_lines e" and ?c = "ed_cursor e"
  have one: ?thesis if "e' = materialize_word_wraps (cur_line ?c)
      (e\<lparr>ed_lines := ?ls[cur_line ?c := insert_at (cur_column ?c) new (?ls ! cur_line ?c)],
         ed_cursor := ?c\<lparr>cur_column := cur_column ?c + length new\<rparr>\<rparr>)"
    "scalar_expands (tab_width (options e)) cr c new cr'" for new
  proof -
    let ?e = "e\<lparr>ed_lines := ?ls[cur_line ?c := insert_at (cur_column ?c) new (?ls ! cur_line ?c)],
         ed_cursor := ?c\<lparr>cur_column := cur_column ?c + length new\<rparr>\<rparr>"
    note f = flat_insert [OF ok refl refl, where new = new]
    have "cursor_ok (ed_lines ?e) (ed_cursor ?e)" using f(2) by simp
    note m = materialize_flat [OF this, of "cur_line ?c", folded that(1)]
    show ?thesis using m f that(2) by (intro exI [of _ new]) (simp add: same_frame_def)
  qed
  consider "c = 0x0a \<and> cr" | "\<not> (c = 0x0a \<and> cr)" "c = 0x0d \<or> c = 0x0a" | "c = 0x09"
    | "c \<noteq> 0x0d" "c \<noteq> 0x0a" "c \<noteq> 0x09" "c < 0x20 \<or> c = 0x7f" | "c \<noteq> 0x0d" "c \<noteq> 0x0a" "c \<noteq> 0x09" "\<not> (c < 0x20 \<or> c = 0x7f)"
    by blast
  then show ?thesis
  proof cases
    case 1
    then have "e' = e" "\<not> cr'" using ins by (simp_all add: insert_scalar_def Let_def)
    then show ?thesis using 1 ok by (intro exI [of _ "[]"]) (simp add: scalar_expands_def insert_at_def same_frame_def)
  next
    case 2
    then have e': "e' = e\<lparr>ed_lines := take (cur_line ?c) ?ls @ take (cur_column ?c) (?ls ! cur_line ?c) #
        drop (cur_column ?c) (?ls ! cur_line ?c) # drop (Suc (cur_line ?c)) ?ls,
        ed_cursor := \<lparr>cur_line = Suc (cur_line ?c), cur_column = 0\<rparr>\<rparr>" "cr' = (c = 0x0d)"
      using ins by (auto simp: insert_scalar_def Let_def)
    show ?thesis using flat_break(1) [OF ok refl refl, of kSpace] flat_break(2,3) [OF ok refl refl] 2 unfolding e'
      by (intro exI [of _ "[kSpace]"]) (simp add: scalar_expands_def same_frame_def)
  next
    case 3
    define n where "n = tab_width (options e) - cur_column ?c mod tab_width (options e)"
    have n: "1 \<le> n" "n \<le> tab_width (options e)" using tab mod_less_divisor [OF tab, of "cur_column ?c"] by (auto simp: n_def)
    have "scalar_expands (tab_width (options e)) cr c (replicate n kSpace) False"
      using 3 n by (auto simp: scalar_expands_def)
    then show ?thesis using ins 3 by (intro one [of "replicate n kSpace"]) (auto simp: insert_scalar_def Let_def n_def)
  next
    case 4
    then have "e' = e" "\<not> cr'" using ins by (auto simp: insert_scalar_def Let_def)
    then show ?thesis using 4 ok by (intro exI [of _ "[]"]) (auto simp: scalar_expands_def insert_at_def same_frame_def)
  next
    case 5
    then have "scalar_expands (tab_width (options e)) cr c [c] False" by (simp add: scalar_expands_def)
    then show ?thesis using ins 5 by (intro one [of "[c]"]) (auto simp: insert_scalar_def Let_def)
  qed
qed

lemma insert_fold_flat:
  assumes "cursor_ok (ed_lines e) (ed_cursor e)" and "0 < tab_width (options e)"
    and "fold insert_scalar cs (e, cr) = (e', cr')"
  shows "\<exists>out. text_expands (tab_width (options e)) cr cs out cr' \<and>
    flat kSpace (ed_lines e') = insert_at (flat_pos (ed_lines e) (ed_cursor e)) out (flat kSpace (ed_lines e)) \<and>
    flat_pos (ed_lines e') (ed_cursor e') = flat_pos (ed_lines e) (ed_cursor e) + length out \<and>
    cursor_ok (ed_lines e') (ed_cursor e') \<and> same_frame e e' \<and> ed_selection e' = ed_selection e"
  using assms
proof (induction cs arbitrary: e cr)
  case Nil
  then show ?case by (auto intro!: exI [of _ "[]"] expands_nil simp: insert_at_def same_frame_def)
next
  case (Cons c cs)
  obtain e1 cr1 where one: "insert_scalar c (e, cr) = (e1, cr1)" by fastforce
  obtain out where o: "scalar_expands (tab_width (options e)) cr c out cr1"
    "flat kSpace (ed_lines e1) = insert_at (flat_pos (ed_lines e) (ed_cursor e)) out (flat kSpace (ed_lines e))"
    "flat_pos (ed_lines e1) (ed_cursor e1) = flat_pos (ed_lines e) (ed_cursor e) + length out"
    "cursor_ok (ed_lines e1) (ed_cursor e1)" "same_frame e e1" "ed_selection e1 = ed_selection e"
    using insert_scalar_flat [OF Cons.prems(1,2) one] by blast
  have opt: "options e1 = options e" using o(5) by (simp add: same_frame_def)
  have "fold insert_scalar cs (e1, cr1) = (e', cr')" using Cons.prems(3) one by simp
  then obtain outs where os: "text_expands (tab_width (options e)) cr1 cs outs cr'"
    "flat kSpace (ed_lines e') = insert_at (flat_pos (ed_lines e1) (ed_cursor e1)) outs (flat kSpace (ed_lines e1))"
    "flat_pos (ed_lines e') (ed_cursor e') = flat_pos (ed_lines e1) (ed_cursor e1) + length outs"
    "cursor_ok (ed_lines e') (ed_cursor e')" "same_frame e1 e'" "ed_selection e' = ed_selection e1"
    using Cons.IH [OF o(4)] Cons.prems(2) opt by auto
  have "flat_pos (ed_lines e) (ed_cursor e) \<le> length (flat kSpace (ed_lines e))"
    using flat_pos_bound [OF Cons.prems(1), of kSpace] by simp
  then have "flat kSpace (ed_lines e') = insert_at (flat_pos (ed_lines e) (ed_cursor e)) (out @ outs) (flat kSpace (ed_lines e))"
    using os(2) o(2,3) insert_at_insert_at by metis
  then show ?case using os o expands_cons [OF o(1) os(1)]
    by (intro exI [of _ "out @ outs"]) (simp add: same_frame_def)
qed

lemma ed_wf_frame:
  assumes "ed_wf e" and "same_frame e e'" and "cursor_ok (ed_lines e') (ed_cursor e')"
    and "range_ok (ed_lines e') (ed_selection e')" and "anchor_ok (ed_lines e') (keyboard_anchor e')"
  shows "ed_wf e'"
  using assms by (simp add: ed_wf_def same_frame_def)

lemma span_bounds:
  assumes "ed_wf e" and "selected_span e = (pa, pb)"
  shows "pa \<le> pb" and "pb < length (flat s (ed_lines e))"
proof -
  note ok = ed_wfD [OF assms(1)]
  have "pa \<le> pb \<and> pb < length (flat s (ed_lines e))"
  proof (cases "ed_selection e")
    case None
    then show ?thesis using assms(2) flat_pos_bound [OF ok(1), of s] by (auto simp: selected_span_def)
  next
    case (Some r)
    then have r: "cursor_ok (ed_lines e) (range_first r)" "cursor_ok (ed_lines e) (range_last r)"
      "cursor_less (range_first r) (range_last r)" using ok(2) by (simp_all add: range_ok_def)
    then show ?thesis using assms(2) Some flat_pos_mono [OF r] flat_pos_bound [OF r(2), of s] by (auto simp: selected_span_def)
  qed
  then show "pa \<le> pb" "pb < length (flat s (ed_lines e))" by simp_all
qed

lemma insert_text_flat:
  assumes wf: "ed_wf e" and ins: "insert_text cs cr e = (e', cr')" and span: "selected_span e = (pa, pb)"
  shows "\<exists>out. text_expands (tab_width (options e)) cr cs out cr' \<and>
    flat kSpace (ed_lines e') = take pa (flat kSpace (ed_lines e)) @ out @ drop pb (flat kSpace (ed_lines e)) \<and>
    flat_pos (ed_lines e') (ed_cursor e') = pa + length out \<and> ed_wf e' \<and> same_frame e e' \<and> ed_selection e' = None"
proof -
  obtain e1 d where del: "delete_selection e = (e1, d)" by fastforce
  note D = delete_selection_flat [OF wf del span]
  obtain e2 cr2 where fold: "fold insert_scalar cs (e1, cr) = (e2, cr2)" by fastforce
  have e': "e' = ensure_cursor_visible (e2\<lparr>ed_selection := None, keyboard_anchor := None, has_desired_column := False\<rparr>)" "cr' = cr2"
    using ins del fold by (auto simp: insert_text_def)
  have opt: "options e1 = options e" using D(4) by (simp add: same_frame_def)
  have "0 < tab_width (options e1)" using ed_wfD(5) [OF wf] opt by simp
  then obtain out where o: "text_expands (tab_width (options e)) cr cs out cr2"
    "flat kSpace (ed_lines e2) = insert_at pa out (flat kSpace (ed_lines e1))"
    "flat_pos (ed_lines e2) (ed_cursor e2) = pa + length out" "cursor_ok (ed_lines e2) (ed_cursor e2)" "same_frame e1 e2"
    using insert_fold_flat [OF D(2) _ fold] D(3) opt by auto
  have frame: "same_frame e e'" using D(4) o(5) by (simp add: e' same_frame_def)
  have "pa \<le> length (flat kSpace (ed_lines e))" using span_bounds(1) [OF wf span] span_bounds(2) [OF wf span, of kSpace] by simp
  then have "flat kSpace (ed_lines e') = take pa (flat kSpace (ed_lines e)) @ out @ drop pb (flat kSpace (ed_lines e))"
    using o(2) D(1) [of kSpace] by (simp add: e' insert_at_def)
  moreover have "ed_wf e'" using ed_wf_frame [OF wf frame] o(4) by (simp add: e')
  ultimately show ?thesis using o(1,3) frame e' by auto
qed

definition remove_range :: "text_cursor \<Rightarrow> text_cursor \<Rightarrow> text_line list \<Rightarrow> text_line list" where
  "remove_range a b ls = take (cur_line a) ls @
     (take (cur_column a) (ls ! cur_line a) @ drop (cur_column b) (ls ! cur_line b)) # drop (Suc (cur_line b)) ls"

lemmas remove_range_flat = flat_remove_range [OF _ _ _ remove_range_def]

text \<open>The removed span of a backspace and of a forward deletion.\<close>

definition backspace_span :: "text_editor \<Rightarrow> nat \<times> nat" where
  "backspace_span e = (if ed_selection e \<noteq> None then selected_span e
     else let p = flat_pos (ed_lines e) (ed_cursor e) in (p - 1, p))"

definition delete_span :: "text_editor \<Rightarrow> nat \<times> nat" where
  "delete_span e = (if ed_selection e \<noteq> None then selected_span e
     else let p = flat_pos (ed_lines e) (ed_cursor e) in (p, min (Suc p) (length (flat 0x0a (ed_lines e)) - 1)))"

lemma list_update_same_line:
  "i < length ls \<Longrightarrow> ls[i := take c (ls ! i) @ drop d (ls ! i)] =
    remove_range \<lparr>cur_line = i, cur_column = c\<rparr> \<lparr>cur_line = i, cur_column = d\<rparr> ls"
  by (simp add: remove_range_def upd_conv_take_nth_drop)

lemma cursor_column_update: "c\<lparr>cur_column := x\<rparr> = \<lparr>cur_line = cur_line c, cur_column = x\<rparr>"
  by (cases c) simp

lemma flat_pos_prev:
  assumes "0 < i" "i < length ls"
  shows "flat_pos ls \<lparr>cur_line = i, cur_column = 0\<rparr> =
    Suc (flat_pos ls \<lparr>cur_line = i - 1, cur_column = length (ls ! (i - 1))\<rparr>)"
proof -
  obtain k where k: "i = Suc k" using assms(1) by (cases i) auto
  then show ?thesis using assms(2) by (simp add: flat_pos_def take_Suc_conv_app_nth)
qed

lemma flat_pos_zero_iff: "cursor_ok ls c \<Longrightarrow> flat_pos ls c = 0 \<longleftrightarrow> cur_line c = 0 \<and> cur_column c = 0"
  by (auto simp: flat_pos_def)

lemma flat_pos_last_iff:
  assumes "cursor_ok ls c"
  shows "flat_pos ls c = length (flat s ls) - 1 \<longleftrightarrow> \<not> (cur_column c < length (ls ! cur_line c)) \<and> \<not> (Suc (cur_line c) < length ls)"
proof -
  have "length (flat s ls) = flat_pos ls c + (length (ls ! cur_line c) - cur_column c) + 1 + length (flat s (drop (Suc (cur_line c)) ls))"
    using arg_cong [OF nth_flat_line(1) [OF assms, of s], of length] nth_flat_line(2) [OF assms, of s] by simp
  moreover have "length (flat s (drop (Suc (cur_line c)) ls)) = 0 \<longleftrightarrow> \<not> Suc (cur_line c) < length ls"
  proof -
    have "length (flat s xs) = 0 \<longleftrightarrow> xs = []" for xs by (cases xs) auto
    then show ?thesis by (simp add: not_less)
  qed
  ultimately show ?thesis by auto
qed

lemma edit_done:
  assumes wf: "ed_wf e" and sel: "ed_selection e = None"
    and e': "e' = ensure_cursor_visible (e\<lparr>ed_lines := ls', ed_cursor := c', keyboard_anchor := None, has_desired_column := False\<rparr>)"
    and flat: "flat s ls' = take pa (flat s (ed_lines e)) @ drop pb (flat s (ed_lines e))" "flat_pos ls' c' = pa" "cursor_ok ls' c'"
  shows "flat s (ed_lines e') = take pa (flat s (ed_lines e)) @ drop pb (flat s (ed_lines e)) \<and>
    flat_pos (ed_lines e') (ed_cursor e') = pa \<and> ed_wf e' \<and> same_frame e e' \<and> ed_selection e' = None"
proof -
  have f: "same_frame e e'" unfolding e' by (simp add: same_frame_def)
  have "ed_wf e'" by (rule ed_wf_frame [OF wf f]) (simp_all add: e' flat(3) sel)
  then show ?thesis using f flat sel by (simp add: e')
qed

lemma backspace_flat:
  assumes wf: "ed_wf e" and span: "backspace_span e = (pa, pb)"
  shows "flat s (ed_lines (backspace e)) = take pa (flat s (ed_lines e)) @ drop pb (flat s (ed_lines e)) \<and>
    flat_pos (ed_lines (backspace e)) (ed_cursor (backspace e)) = pa \<and> ed_wf (backspace e) \<and>
    same_frame e (backspace e) \<and> ed_selection (backspace e) = None"
proof (cases "ed_selection e")
  case (Some r)
  obtain e1 d where del: "delete_selection e = (e1, d)" by fastforce
  have span': "selected_span e = (pa, pb)" using span Some by (simp add: backspace_span_def)
  note D = delete_selection_flat [OF wf del span']
  have "d" using D(6) Some by simp
  then have eq: "backspace e = ensure_cursor_visible e1" using del by (simp add: backspace_def)
  have "ed_wf e1" using ed_wf_frame [OF wf D(4,2)] D(5,7) \<open>d\<close> by simp
  then show ?thesis unfolding eq using D(1) [of s] D(3-5) by (simp add: same_frame_def)
next
  case None
  let ?ls = "ed_lines e" and ?c = "ed_cursor e"
  let ?i = "cur_line ?c" and ?col = "cur_column ?c"
  have ok: "cursor_ok ?ls ?c" using wf by (simp add: ed_wf_def)
  have span': "pb = flat_pos ?ls ?c" "pa = flat_pos ?ls ?c - 1" using span None by (auto simp: backspace_span_def Let_def)
  note fin = edit_done [OF wf None, of "backspace e", where s = s and pa = pa and pb = pb]
  have del: "delete_selection e = (e, False)" using None by (simp add: delete_selection_def)
  have i: "?i < length ?ls" "?col \<le> length (?ls ! ?i)" using ok by (simp_all add: cursor_ok_def)
  consider "0 < ?col" | "?col = 0" "0 < ?i" | "?col = 0" "?i = 0" by auto
  then show ?thesis
  proof cases
    case 1
    let ?a = "\<lparr>cur_line = ?i, cur_column = ?col - 1\<rparr>" and ?b = "\<lparr>cur_line = ?i, cur_column = ?col\<rparr>"
    have eq: "backspace e = ensure_cursor_visible (e\<lparr>ed_lines := remove_range ?a ?b ?ls, ed_cursor := ?a,
        keyboard_anchor := None, has_desired_column := False\<rparr>)"
      using 1 del i list_update_same_line [of ?i ?ls "?col - 1" ?col]
      by (simp add: backspace_def Let_def cursor_column_update)
    have ab: "cursor_ok ?ls ?a" "cursor_ok ?ls ?b" "?a = ?b \<or> cursor_less ?a ?b"
      using i 1 by (simp_all add: cursor_ok_def cursor_less_def)
    have p: "flat_pos ?ls ?a = pa" "flat_pos ?ls ?b = pb" using 1 span' by (simp_all add: flat_pos_def)
    show ?thesis using fin [OF eq] remove_range_flat(1) [OF ab, of s] remove_range_flat(2,3) [OF ab] p by simp
  next
    case 2
    let ?a = "\<lparr>cur_line = ?i - 1, cur_column = length (?ls ! (?i - 1))\<rparr>" and ?b = "\<lparr>cur_line = ?i, cur_column = 0\<rparr>"
    have eq: "backspace e = ensure_cursor_visible (e\<lparr>ed_lines := remove_range ?a ?b ?ls, ed_cursor := ?a,
        keyboard_anchor := None, has_desired_column := False\<rparr>)"
      using 2 del i by (simp add: backspace_def Let_def remove_range_def)
    have ab: "cursor_ok ?ls ?a" "cursor_ok ?ls ?b" "?a = ?b \<or> cursor_less ?a ?b"
      using i 2 by (simp_all add: cursor_ok_def cursor_less_def)
    have "?b = ?c" using 2 by simp
    then have p: "flat_pos ?ls ?a = pa" "flat_pos ?ls ?b = pb" using flat_pos_prev [OF 2(2) i(1)] span' by simp_all
    show ?thesis using fin [OF eq] remove_range_flat(1) [OF ab, of s] remove_range_flat(2,3) [OF ab] p by simp
  next
    case 3
    then have z: "flat_pos ?ls ?c = 0" using flat_pos_zero_iff [OF ok] by simp
    have eq: "backspace e = ensure_cursor_visible (e\<lparr>ed_lines := ?ls, ed_cursor := ?c,
        keyboard_anchor := None, has_desired_column := False\<rparr>)"
      using 3 del by (simp add: backspace_def Let_def)
    show ?thesis using fin [OF eq] z ok span' by simp
  qed
qed

lemma delete_forward_flat:
  assumes wf: "ed_wf e" and span: "delete_span e = (pa, pb)"
  shows "flat s (ed_lines (delete_forward e)) = take pa (flat s (ed_lines e)) @ drop pb (flat s (ed_lines e)) \<and>
    flat_pos (ed_lines (delete_forward e)) (ed_cursor (delete_forward e)) = pa \<and> ed_wf (delete_forward e) \<and>
    same_frame e (delete_forward e) \<and> ed_selection (delete_forward e) = None"
proof (cases "ed_selection e")
  case (Some r)
  obtain e1 d where del: "delete_selection e = (e1, d)" by fastforce
  have span': "selected_span e = (pa, pb)" using span Some by (simp add: delete_span_def)
  note D = delete_selection_flat [OF wf del span']
  have "d" using D(6) Some by simp
  then have eq: "delete_forward e = ensure_cursor_visible e1" using del by (simp add: delete_forward_def)
  have "ed_wf e1" using ed_wf_frame [OF wf D(4,2)] D(5,7) \<open>d\<close> by simp
  then show ?thesis unfolding eq using D(1) [of s] D(3-5) by (simp add: same_frame_def)
next
  case None
  let ?ls = "ed_lines e" and ?c = "ed_cursor e"
  let ?i = "cur_line ?c" and ?col = "cur_column ?c"
  have ok: "cursor_ok ?ls ?c" using wf by (simp add: ed_wf_def)
  have pa: "pa = flat_pos ?ls ?c" and pb: "pb = min (Suc pa) (length (flat 0x0a ?ls) - 1)"
    using span None by (auto simp: delete_span_def Let_def)
  have lt: "pa < length (flat 0x0a ?ls)" using flat_pos_bound [OF ok] pa by simp
  note last = flat_pos_last_iff [OF ok, of "0x0a"]
  note fin = edit_done [OF wf None, of "delete_forward e", where s = s and pa = pa and pb = pb]
  have del: "delete_selection e = (e, False)" using None by (simp add: delete_selection_def)
  have i: "?i < length ?ls" "?col \<le> length (?ls ! ?i)" using ok by (simp_all add: cursor_ok_def)
  have c: "?c = \<lparr>cur_line = ?i, cur_column = ?col\<rparr>" by simp
  consider "?col < length (?ls ! ?i)" | "?col = length (?ls ! ?i)" "Suc ?i < length ?ls"
    | "?col = length (?ls ! ?i)" "\<not> Suc ?i < length ?ls" using i(2) by linarith
  then show ?thesis
  proof cases
    case 1
    let ?b = "\<lparr>cur_line = ?i, cur_column = Suc ?col\<rparr>"
    have "e\<lparr>ed_lines := remove_range ?c ?b ?ls\<rparr> = e\<lparr>ed_lines := remove_range ?c ?b ?ls, ed_cursor := ?c\<rparr>" by simp
    then have eq: "delete_forward e = ensure_cursor_visible (e\<lparr>ed_lines := remove_range ?c ?b ?ls, ed_cursor := ?c,
        keyboard_anchor := None, has_desired_column := False\<rparr>)"
      using 1 del i list_update_same_line [of ?i ?ls ?col "Suc ?col"]
      by (simp add: delete_forward_def Let_def remove_range_def)
    have ab: "cursor_ok ?ls ?b" "?c = ?b \<or> cursor_less ?c ?b" using i 1 by (simp_all add: cursor_ok_def cursor_less_def)
    have "flat_pos ?ls ?b = Suc pa" "Suc pa \<le> length (flat 0x0a ?ls) - 1"
      using 1 last lt pa by (auto simp: flat_pos_def)
    then show ?thesis using fin [OF eq] remove_range_flat(1) [OF ok ab, of s] remove_range_flat(2,3) [OF ok ab] pa pb by simp
  next
    case 2
    let ?b = "\<lparr>cur_line = Suc ?i, cur_column = 0\<rparr>"
    have "e\<lparr>ed_lines := remove_range ?c ?b ?ls\<rparr> = e\<lparr>ed_lines := remove_range ?c ?b ?ls, ed_cursor := ?c\<rparr>" by simp
    then have eq: "delete_forward e = ensure_cursor_visible (e\<lparr>ed_lines := remove_range ?c ?b ?ls, ed_cursor := ?c,
        keyboard_anchor := None, has_desired_column := False\<rparr>)"
      using 2 del by (simp add: delete_forward_def Let_def remove_range_def)
    have ab: "cursor_ok ?ls ?b" "?c = ?b \<or> cursor_less ?c ?b" using 2 by (simp_all add: cursor_ok_def cursor_less_def)
    have "flat_pos ?ls ?b = Suc pa" using flat_pos_prev [of "Suc ?i" ?ls] 2 pa by (simp add: flat_pos_def)
    moreover have "Suc pa \<le> length (flat 0x0a ?ls) - 1" using 2 last lt pa by auto
    ultimately show ?thesis using fin [OF eq] remove_range_flat(1) [OF ok ab, of s] remove_range_flat(2,3) [OF ok ab] pa pb by simp
  next
    case 3
    have eq: "delete_forward e = ensure_cursor_visible (e\<lparr>ed_lines := ?ls, ed_cursor := ?c,
        keyboard_anchor := None, has_desired_column := False\<rparr>)"
      using 3 del by (simp add: delete_forward_def Let_def)
    have "pb = pa" using 3 last pa pb by simp
    show ?thesis by (rule fin [OF eq]) (simp_all add: \<open>pb = pa\<close> pa ok)
  qed
qed

section \<open>Navigation\<close>

lemma cursor_less_total: "a \<noteq> b \<Longrightarrow> \<not> cursor_less a b \<Longrightarrow> cursor_less b a"
  by (cases a; cases b) (auto simp: cursor_less_def)

lemma finish_navigation_frame:
  "same_frame e (finish_navigation old shift e)" "ed_lines (finish_navigation old shift e) = ed_lines e"
  "ed_cursor (finish_navigation old shift e) = ed_cursor e"
  by (simp_all add: finish_navigation_def same_frame_def Let_def)

lemma finish_navigation_wf:
  assumes wf: "ed_wf e" and lines: "ed_lines e1 = ed_lines e" and frame: "same_frame e e1"
    and anchor: "keyboard_anchor e1 = keyboard_anchor e" and new: "cursor_ok (ed_lines e) (ed_cursor e1)"
  shows "ed_wf (finish_navigation (ed_cursor e) shift e1)"
proof -
  let ?e' = "finish_navigation (ed_cursor e) shift e1"
  let ?a = "case keyboard_anchor e1 of None \<Rightarrow> ed_cursor e | Some a \<Rightarrow> a"
  have a: "cursor_ok (ed_lines e) ?a" using ed_wfD(1,3) [OF wf] anchor by (auto simp: anchor_ok_def split: option.splits)
  have "range_ok (ed_lines e) (ed_selection ?e')"
  proof -
    have "ed_selection ?e' = None \<or> cursor_less (ed_cursor e1) ?a \<and>
        ed_selection ?e' = Some \<lparr>range_first = ed_cursor e1, range_last = ?a\<rparr> \<or> cursor_less ?a (ed_cursor e1) \<and>
        ed_selection ?e' = Some \<lparr>range_first = ?a, range_last = ed_cursor e1\<rparr>"
      using cursor_less_total [of "ed_cursor e1" ?a] by (auto simp: finish_navigation_def Let_def)
    then show ?thesis using a new unfolding range_ok_def by (elim disjE conjE) simp_all
  qed
  moreover have "anchor_ok (ed_lines e) (keyboard_anchor ?e')"
    using a new by (simp add: finish_navigation_def anchor_ok_def Let_def)
  moreover have "same_frame e ?e'" using frame finish_navigation_frame(1) [of e1] by (simp add: same_frame_def)
  ultimately show ?thesis using ed_wf_frame [OF wf] new lines finish_navigation_frame(2,3) [of "ed_cursor e" shift e1] by simp
qed

lemma navigate_wf:
  assumes "ed_wf e" and "cursor_ok (ed_lines e) c" and "e1 = e\<lparr>ed_cursor := c, has_desired_column := h\<rparr>"
  shows "ed_wf (ensure_cursor_visible (finish_navigation (ed_cursor e) shift e1))"
  using finish_navigation_wf [OF assms(1), of e1 shift] assms(2,3) by (simp add: same_frame_def)

lemma horizontal_target_ok:
  assumes "ed_wf e"
  shows "cursor_ok (ed_lines e) (horizontal_target right e)"
    and "flat_pos (ed_lines e) (horizontal_target right e) =
      (if right then min (Suc (flat_pos (ed_lines e) (ed_cursor e))) (length (flat s (ed_lines e)) - 1)
       else flat_pos (ed_lines e) (ed_cursor e) - 1)"
proof -
  let ?ls = "ed_lines e" and ?c = "ed_cursor e"
  have ok: "cursor_ok ?ls ?c" using assms by (simp add: ed_wf_def)
  then have i: "cur_line ?c < length ?ls" "cur_column ?c \<le> length (?ls ! cur_line ?c)" by (simp_all add: cursor_ok_def)
  show "cursor_ok ?ls (horizontal_target right e)"
  proof (cases right)
    case True
    then show ?thesis using i ok
      by (cases "cur_column ?c < length (?ls ! cur_line ?c)"; cases "Suc (cur_line ?c) < length ?ls")
        (simp_all add: horizontal_target_def Let_def cursor_ok_def)
  next
    case False
    then show ?thesis using i ok
      by (cases "0 < cur_column ?c"; cases "0 < cur_line ?c") (simp_all add: horizontal_target_def Let_def cursor_ok_def)
  qed
  have c: "?c = \<lparr>cur_line = cur_line ?c, cur_column = cur_column ?c\<rparr>" by simp
  note lt = flat_pos_bound [OF ok, of s] and last = flat_pos_last_iff [OF ok, of s]
  show "flat_pos ?ls (horizontal_target right e) =
      (if right then min (Suc (flat_pos ?ls ?c)) (length (flat s ?ls) - 1) else flat_pos ?ls ?c - 1)"
  proof (cases right)
    case True
    consider "cur_column ?c < length (?ls ! cur_line ?c)"
      | "cur_column ?c = length (?ls ! cur_line ?c)" "Suc (cur_line ?c) < length ?ls"
      | "cur_column ?c = length (?ls ! cur_line ?c)" "\<not> Suc (cur_line ?c) < length ?ls" using i(2) by linarith
    then show ?thesis
    proof cases
      case 1
      then have "flat_pos ?ls (horizontal_target right e) = Suc (flat_pos ?ls ?c)"
        using True by (simp add: horizontal_target_def Let_def flat_pos_def)
      moreover have "flat_pos ?ls ?c \<noteq> length (flat s ?ls) - 1" using last 1 by simp
      ultimately show ?thesis using True lt by auto
    next
      case 2
      then have "flat_pos ?ls (horizontal_target right e) = Suc (flat_pos ?ls ?c)"
        using True flat_pos_prev [of "Suc (cur_line ?c)" ?ls] by (simp add: horizontal_target_def Let_def flat_pos_def)
      moreover have "flat_pos ?ls ?c \<noteq> length (flat s ?ls) - 1" using last 2 by simp
      ultimately show ?thesis using True lt by auto
    next
      case 3
      then show ?thesis using True last by (simp add: horizontal_target_def Let_def)
    qed
  next
    case False
    consider "cur_column ?c > 0" | "cur_column ?c = 0" "cur_line ?c > 0" | "cur_column ?c = 0" "cur_line ?c = 0" by auto
    then show ?thesis
    proof cases
      case 2
      then show ?thesis using False flat_pos_prev [OF 2(2) i(1)] by (simp add: horizontal_target_def Let_def flat_pos_def)
    qed (use False in \<open>simp_all add: horizontal_target_def Let_def flat_pos_def\<close>)
  qed
qed

lemma editable_width_pos: "ed_wf e \<Longrightarrow> 0 < editable_width e"
  by (simp add: editable_width_def ed_wf_def)

lemma row_cursor_ok:
  assumes "0 < w" and "r \<in> set (ed_rows e w)" and "k \<le> row_length r"
  shows "cursor_ok (ed_lines e) \<lparr>cur_line = row_line r, cur_column = row_first r + k\<rparr>"
  using visual_rows_valid [OF assms(1), of r "ed_lines e" "ed_cursor e"] assms(2,3) by (simp add: ed_rows_def cursor_ok_def)

lemma ed_rows_cursor:
  assumes "ed_wf e" and "0 < w" and "visual_cursor (ed_cursor e) (ed_rows e w) w = (k, col)"
  shows "ed_rows e w \<noteq> []" "k < length (ed_rows e w)" "row_line (ed_rows e w ! k) = cur_line (ed_cursor e)"
    "row_first (ed_rows e w ! k) + col = cur_column (ed_cursor e)" "col \<le> row_length (ed_rows e w ! k)"
  using visual_cursor_correct [OF assms(2) ed_wfD(1) [OF assms(1)] refl, of k col] assms(3)
  by (auto simp: ed_rows_def)

lemma move_horizontal_wf: "ed_wf e \<Longrightarrow> ed_wf (move_horizontal right shift e)"
  unfolding move_horizontal_def by (rule navigate_wf [OF _ horizontal_target_ok(1) refl])

lemma finish_navigation_same_wf:
  assumes "ed_wf e" shows "ed_wf (finish_navigation (ed_cursor e) shift e)"
  using finish_navigation_wf [OF assms refl _ refl ed_wfD(1) [OF assms]] by (simp add: same_frame_def)

lemma move_word_left_wf:
  assumes wf: "ed_wf e" shows "ed_wf (move_word_left shift e)"
proof (cases "cur_column (ed_cursor e) = 0 \<and> cur_line (ed_cursor e) = 0")
  case True
  then show ?thesis using finish_navigation_same_wf [OF wf] by (simp add: move_word_left_def Let_def)
next
  case False
  let ?old = "ed_cursor e" and ?ls = "ed_lines e"
  define start where "start = (if cur_column ?old = 0
      then \<lparr>cur_line = cur_line ?old - 1, cur_column = length (?ls ! (cur_line ?old - 1))\<rparr> else ?old)"
  have s: "cursor_ok ?ls start" using ed_wfD(1) [OF wf] False by (auto simp: start_def cursor_ok_def)
  define c1 where "c1 = scan_left (\<lambda>c. \<not> is_word_character c) (?ls ! cur_line start) 0 (cur_column start)"
  define c2 where "c2 = scan_left is_word_character (?ls ! cur_line start) 0 c1"
  have "c2 \<le> c1" "c1 \<le> cur_column start" unfolding c1_def c2_def by (rule scan_left_bounds)+
  then have "cursor_ok ?ls (start\<lparr>cur_column := c2\<rparr>)" using s by (simp add: cursor_ok_def)
  moreover have "move_word_left shift e = ensure_cursor_visible (finish_navigation ?old shift
      (e\<lparr>ed_cursor := start\<lparr>cur_column := c2\<rparr>, has_desired_column := False\<rparr>))"
    unfolding move_word_left_def Let_def start_def c1_def c2_def using False by auto
  ultimately show ?thesis using navigate_wf [OF wf _ refl] by simp
qed

lemma move_word_right_wf:
  assumes wf: "ed_wf e" shows "ed_wf (move_word_right shift e)"
proof -
  let ?old = "ed_cursor e" and ?ls = "ed_lines e"
  define start where "start = (if cur_column ?old = length (?ls ! cur_line ?old) \<and> Suc (cur_line ?old) < length ?ls
      then \<lparr>cur_line = Suc (cur_line ?old), cur_column = 0\<rparr> else ?old)"
  have s: "cursor_ok ?ls start" using ed_wfD(1) [OF wf] by (auto simp: start_def cursor_ok_def)
  define c1 where "c1 = scan_right is_word_character (?ls ! cur_line start) (cur_column start)"
  define c2 where "c2 = scan_right (\<lambda>c. \<not> is_word_character c) (?ls ! cur_line start) c1"
  have "c1 \<le> length (?ls ! cur_line start)" unfolding c1_def using s by (intro scan_right_bounds) (simp add: cursor_ok_def)
  then have "c2 \<le> length (?ls ! cur_line start)" unfolding c2_def by (rule scan_right_bounds)
  then have "cursor_ok ?ls (start\<lparr>cur_column := c2\<rparr>)" using s by (simp add: cursor_ok_def)
  moreover have "move_word_right shift e = ensure_cursor_visible (finish_navigation ?old shift
      (e\<lparr>ed_cursor := start\<lparr>cur_column := c2\<rparr>, has_desired_column := False\<rparr>))"
    unfolding move_word_right_def Let_def start_def c1_def c2_def by simp
  ultimately show ?thesis using navigate_wf [OF wf _ refl] by simp
qed

lemma move_vertical_wf:
  assumes wf: "ed_wf e" shows "ed_wf (move_vertical delta shift e)"
proof -
  let ?w = "editable_width e"
  let ?rows = "ed_rows e ?w"
  obtain k col where vc: "visual_cursor (ed_cursor e) ?rows ?w = (k, col)" by fastforce
  note w = editable_width_pos [OF wf]
  note v = ed_rows_cursor [OF wf w vc]
  define e1 where "e1 = (if has_desired_column e then e else e\<lparr>desired_column := col, has_desired_column := True\<rparr>)"
  define target where "target = (if delta < 0
      then let distance = nat (- delta) in if distance > k then 0 else k - distance
      else k + min (nat delta) (length ?rows - 1 - k))"
  have "target < length ?rows" using v(1,2) by (auto simp: target_def Let_def)
  then have r: "?rows ! target \<in> set ?rows" by simp
  define c where "c = \<lparr>cur_line = row_line (?rows ! target),
      cur_column = row_first (?rows ! target) + min (desired_column e1) (row_length (?rows ! target))\<rparr>"
  have c: "cursor_ok (ed_lines e) c" unfolding c_def by (rule row_cursor_ok [OF w r]) simp
  have eq: "move_vertical delta shift e = ensure_cursor_visible (finish_navigation (ed_cursor e) shift (e1\<lparr>ed_cursor := c\<rparr>))"
    unfolding move_vertical_def Let_def vc prod.case e1_def [symmetric] c_def target_def Let_def using v(1) by simp
  have "ed_wf (finish_navigation (ed_cursor e) shift (e1\<lparr>ed_cursor := c\<rparr>))"
    by (rule finish_navigation_wf [OF wf]) (auto simp: e1_def same_frame_def c)
  then show ?thesis unfolding eq by simp
qed

lemma move_row_boundary_wf:
  assumes wf: "ed_wf e" shows "ed_wf (move_row_boundary to_end shift e)"
proof -
  let ?w = "editable_width e"
  let ?rows = "ed_rows e ?w"
  obtain k col where vc: "visual_cursor (ed_cursor e) ?rows ?w = (k, col)" by fastforce
  note w = editable_width_pos [OF wf]
  note v = ed_rows_cursor [OF wf w vc]
  have r: "?rows ! k \<in> set ?rows" using v(2) by simp
  have "cursor_ok (ed_lines e) \<lparr>cur_line = row_line (?rows ! k), cur_column = row_first (?rows ! k) +
      (if to_end then row_length (?rows ! k) else 0)\<rparr>" by (rule row_cursor_ok [OF w r]) simp
  then show ?thesis
    unfolding move_row_boundary_def Let_def vc fst_conv using v(1) by (intro navigate_wf [OF wf _ refl]) (cases to_end; simp)
qed

lemma buffer_end_ok: "ed_wf e \<Longrightarrow> cursor_ok (ed_lines e) (buffer_end e)"
  using ed_wfD(7) [of e] by (simp add: buffer_end_def cursor_ok_def last_conv_nth)

lemma origin_ok: "ed_wf e \<Longrightarrow> cursor_ok (ed_lines e) origin"
  using ed_wfD(7) [of e] by (simp add: cursor_ok_def)

lemma move_buffer_boundary_wf: "ed_wf e \<Longrightarrow> ed_wf (move_buffer_boundary to_end shift e)"
  unfolding move_buffer_boundary_def
  by (rule navigate_wf [OF _ _ refl]) (auto intro: buffer_end_ok origin_ok)

lemma move_page_wf: "ed_wf e \<Longrightarrow> ed_wf (move_page down shift e)"
  unfolding move_page_def Let_def by (rule move_vertical_wf)

lemmas navigation_wf = move_horizontal_wf move_word_left_wf move_word_right_wf move_vertical_wf move_row_boundary_wf
  move_buffer_boundary_wf move_page_wf

end
