(* ===== verification/Editor_Correct.thy ===== *)
theory Editor_Correct
  imports Text_Editor
begin

text \<open>
  Correctness of the text editor of \<open>puc-cli/tui/text_input/text_editor_utils.cpp\<close>: the
  invariant over every history of calls, the refinement of a flat buffer of characters by the
  editing operations, paste as a transaction, the selection, and the visibility of the caret.
\<close>

section \<open>The viewport\<close>

definition scroll_ok :: "text_editor \<Rightarrow> bool" where
  "scroll_ok e \<longleftrightarrow> (0 < viewport_width e \<longrightarrow> 0 < viewport_height e \<longrightarrow> scroll_row e \<le> maximum_scroll e)"

lemma ensure_scroll_ok [simp]: "scroll_ok (ensure_cursor_visible e)"
  by (simp add: scroll_ok_def ensure_cursor_visible_def Let_def)

lemma clamp_scroll_ok [simp]: "scroll_ok (clamp_scroll e)"
  by (simp add: scroll_ok_def clamp_scroll_def)

lemma scroll_ok_cong:
  assumes "scroll_ok e" and "ed_lines e' = ed_lines e" "ed_cursor e' = ed_cursor e" "scroll_row e' = scroll_row e"
    "viewport_width e' = viewport_width e" "viewport_height e' = viewport_height e"
  shows "scroll_ok e'"
  using assms by (simp only: scroll_ok_def maximum_scroll_def ed_rows_def)

lemma scroll_ok_row:
  assumes "ed_wf e" and "scroll_ok e" and "0 < viewport_width e" and "0 < viewport_height e"
  shows "scroll_row e < length (ed_rows e (viewport_width e))"
proof -
  have "ed_rows e (viewport_width e) \<noteq> []"
    using ed_rows_cursor(1) [OF assms(1,3)] by (metis surj_pair)
  then show ?thesis using assms(2-4) by (auto simp: scroll_ok_def maximum_scroll_def Let_def split: if_splits)
qed

abbreviation "cancel_paste \<equiv> \<lparr>paste_phase = PASTE_CANCEL, paste_data = []\<rparr>"

definition settled :: "text_editor \<Rightarrow> bool" where
  "settled e \<longleftrightarrow> ed_wf e \<and> scroll_ok e \<and> scroll_ok (fst (handle_paste cancel_paste e))"

lemma settled_frame:
  assumes s: "settled e" and f: "same_frame e e'" and e': "ed_wf e'" "scroll_ok e'"
  shows "settled e'"
proof (cases "ed_paste e")
  case None
  then show ?thesis using f e' by (simp add: settled_def handle_paste_def same_frame_def)
next
  case (Some p)
  then have "scroll_ok (fst (handle_paste cancel_paste e')) = scroll_ok (fst (handle_paste cancel_paste e))"
    using f by (simp add: handle_paste_def same_frame_def scroll_ok_def maximum_scroll_def ed_rows_def Let_def)
  then show ?thesis using s e' by (simp add: settled_def)
qed

section \<open>Every operation keeps the invariant\<close>

lemma insert_utf8_kept:
  assumes "ed_wf e" shows "ed_wf (fst (insert_text cs cr e))" "same_frame e (fst (insert_text cs cr e))"
    "scroll_ok (fst (insert_text cs cr e))"
proof -
  obtain e' cr' where ins: "insert_text cs cr e = (e', cr')" by fastforce
  obtain pa pb where "selected_span e = (pa, pb)" by fastforce
  from insert_text_flat [OF assms ins this]
  show "ed_wf (fst (insert_text cs cr e))" "same_frame e (fst (insert_text cs cr e))" using ins by auto
  show "scroll_ok (fst (insert_text cs cr e))" by (simp add: insert_text_def split_beta)
qed

lemma backspace_kept:
  assumes "ed_wf e" shows "ed_wf (backspace e)" "same_frame e (backspace e)" "scroll_ok (backspace e)"
proof -
  obtain pa pb where "backspace_span e = (pa, pb)" by fastforce
  from backspace_flat [OF assms this]
  show "ed_wf (backspace e)" "same_frame e (backspace e)" by auto
  show "scroll_ok (backspace e)" by (simp add: backspace_def Let_def split: prod.split bool.split)
qed

lemma delete_forward_kept:
  assumes "ed_wf e" shows "ed_wf (delete_forward e)" "same_frame e (delete_forward e)" "scroll_ok (delete_forward e)"
proof -
  obtain pa pb where "delete_span e = (pa, pb)" by fastforce
  from delete_forward_flat [OF assms this]
  show "ed_wf (delete_forward e)" "same_frame e (delete_forward e)" by auto
  show "scroll_ok (delete_forward e)" by (simp add: delete_forward_def Let_def split: prod.split bool.split)
qed

lemma finish_navigation_scroll:
  "scroll_ok e \<Longrightarrow> scroll_ok (finish_navigation old shift e)"
  by (erule scroll_ok_cong) (simp_all add: finish_navigation_def Let_def)

lemma same_frame_simps [simp]:
  "same_frame e e" "same_frame e (ensure_cursor_visible e1) = same_frame e e1"
  "same_frame e (finish_navigation old shift e1) = same_frame e e1" "same_frame e (e1\<lparr>ed_cursor := c\<rparr>) = same_frame e e1"
  "same_frame e (e1\<lparr>has_desired_column := h\<rparr>) = same_frame e e1" "same_frame e (e1\<lparr>desired_column := d\<rparr>) = same_frame e e1"
  "same_frame e (e1\<lparr>ed_selection := r\<rparr>) = same_frame e e1" "same_frame e (e1\<lparr>keyboard_anchor := a\<rparr>) = same_frame e e1"
  "same_frame e (e1\<lparr>scroll_row := n\<rparr>) = same_frame e e1"
  using finish_navigation_frame(1) [of e1 old shift] by (simp_all add: same_frame_def)

lemma move_vertical_frame: "same_frame e (move_vertical delta shift e)"
  by (simp add: move_vertical_def Let_def split: prod.split)

lemma move_frame:
  "same_frame e (move_horizontal right shift e)" "same_frame e (move_word_left shift e)"
  "same_frame e (move_word_right shift e)" "same_frame e (move_vertical delta shift e)"
  "same_frame e (move_row_boundary to_end shift e)" "same_frame e (move_buffer_boundary to_end shift e)"
  "same_frame e (move_page down shift e)"
  by (simp_all add: move_horizontal_def move_word_left_def move_word_right_def move_vertical_frame move_row_boundary_def
      move_buffer_boundary_def move_page_def Let_def)

lemma move_scroll:
  assumes "scroll_ok e"
  shows "scroll_ok (move_horizontal right shift e)" "scroll_ok (move_word_left shift e)"
    "scroll_ok (move_word_right shift e)" "scroll_ok (move_vertical delta shift e)"
    "scroll_ok (move_row_boundary to_end shift e)" "scroll_ok (move_buffer_boundary to_end shift e)"
    "scroll_ok (move_page down shift e)"
  using assms finish_navigation_scroll [OF assms]
  by (simp_all add: move_horizontal_def move_word_left_def move_word_right_def move_vertical_def move_row_boundary_def
      move_buffer_boundary_def move_page_def Let_def split: prod.split)

lemma settled_edit:
  assumes "settled e"
  shows "settled (fst (insert_text cs cr e))" "settled (backspace e)" "settled (delete_forward e)"
    "settled (move_horizontal right shift e)" "settled (move_word_left shift e)" "settled (move_word_right shift e)"
    "settled (move_vertical delta shift e)" "settled (move_row_boundary to_end shift e)"
    "settled (move_buffer_boundary to_end shift e)" "settled (move_page down shift e)"
proof -
  have wf: "ed_wf e" "scroll_ok e" using assms by (simp_all add: settled_def)
  note keep = settled_frame [OF assms]
  show "settled (fst (insert_text cs cr e))" by (rule keep [OF insert_utf8_kept(2,1,3)]) (rule wf)+
  show "settled (backspace e)" by (rule keep [OF backspace_kept(2,1,3)]) (rule wf)+
  show "settled (delete_forward e)" by (rule keep [OF delete_forward_kept(2,1,3)]) (rule wf)+
  show "settled (move_horizontal right shift e)" "settled (move_word_left shift e)" "settled (move_word_right shift e)"
    "settled (move_vertical delta shift e)" "settled (move_row_boundary to_end shift e)"
    "settled (move_buffer_boundary to_end shift e)" "settled (move_page down shift e)"
    by (rule keep, rule move_frame, rule navigation_wf, rule wf, rule move_scroll, rule wf)+
qed

lemma handle_named_settled: "settled e \<Longrightarrow> settled (handle_named key shift alt cmd e)"
  unfolding handle_named_def by (simp add: settled_edit)

lemma handle_key_settled: "settled e \<Longrightarrow> settled (handle_key ev e)"
  unfolding handle_key_def Let_def insert_utf8_def by (simp add: settled_edit handle_named_settled split: key_code.split)

lemma insert_utf8_settled: "settled e \<Longrightarrow> settled (insert_utf8 t e)"
  unfolding insert_utf8_def by (rule settled_edit)

lemma handle_text_settled: "settled e \<Longrightarrow> settled (handle_text ev e)"
  unfolding handle_text_def by (simp add: insert_utf8_settled)

lemma paste_none_settled: "ed_paste e = None \<Longrightarrow> settled e \<longleftrightarrow> ed_wf e \<and> scroll_ok e"
  by (auto simp: settled_def handle_paste_def)

lemma set_viewport_settled: "settled e \<Longrightarrow> ed_paste e = None \<Longrightarrow> settled (set_viewport w h e)"
proof -
  assume "settled e" "ed_paste e = None"
  then have "ed_wf e" "ed_paste (set_viewport w h e) = None"
    by (simp_all add: settled_def set_viewport_def clamp_scroll_def Let_def)
  moreover have "ed_wf (set_viewport w h e) = ed_wf (e\<lparr>viewport_width := w, viewport_height := h\<rparr>)"
    by (simp add: set_viewport_def Let_def)
  ultimately show ?thesis by (simp add: paste_none_settled) (simp add: ed_wf_def set_viewport_def Let_def)
qed

lemma set_viewport_wf: "ed_wf e \<Longrightarrow> ed_wf (set_viewport w h e)"
  by (simp add: set_viewport_def Let_def) (simp add: ed_wf_def)

lemma fallback_settled: "settled e \<Longrightarrow> settled (set_fallback_width w e)"
proof -
  assume s: "settled e"
  have "scroll_ok (set_fallback_width w e)" by (rule scroll_ok_cong [of e]) (use s in \<open>simp_all add: settled_def set_fallback_width_def\<close>)
  moreover have "scroll_ok (fst (handle_paste cancel_paste (set_fallback_width w e)))"
    by (rule scroll_ok_cong [of "fst (handle_paste cancel_paste e)"])
      (use s in \<open>simp_all add: settled_def set_fallback_width_def handle_paste_def split: option.split\<close>)
  ultimately show ?thesis using s by (simp add: settled_def) (simp add: ed_wf_def set_fallback_width_def)
qed

lemma editor_clear_settled: "settled (editor_clear e)"
  by (simp add: editor_clear_def settled_def new_editor_wf) (simp add: scroll_ok_def new_editor_def handle_paste_def)

lemma scroll_vertical_settled:
  assumes s: "settled e" shows "settled (scroll_vertical d e)"
proof (rule settled_frame [OF s])
  show "same_frame e (scroll_vertical d e)" by (simp add: scroll_vertical_def)
  show "ed_wf (scroll_vertical d e)" using s by (simp add: scroll_vertical_def settled_def)
  have le: "scroll_row e \<le> m \<Longrightarrow> size_add (scroll_row e) (min k (m - scroll_row e)) \<le> m" for m k
    using order_trans [OF size_add_bound, of "scroll_row e" "min k (m - scroll_row e)" m] by simp
  show "scroll_ok (scroll_vertical d e)"
    using s by (auto simp: scroll_vertical_def settled_def scroll_ok_def intro: le)
qed

lemma selection_settled:
  assumes s: "settled e" and r: "range_ok (ed_lines e) r"
  shows "settled (e\<lparr>ed_selection := r, keyboard_anchor := None\<rparr>)"
proof (rule settled_frame [OF s])
  show "ed_wf (e\<lparr>ed_selection := r, keyboard_anchor := None\<rparr>)" using s r by (simp add: settled_def ed_wf_def)
  show "scroll_ok (e\<lparr>ed_selection := r, keyboard_anchor := None\<rparr>)"
    by (rule scroll_ok_cong [of e]) (use s in \<open>simp_all add: settled_def\<close>)
qed simp

lemma reset_selection_settled: "settled e \<Longrightarrow> settled (reset_selection e)"
  unfolding reset_selection_def by (rule selection_settled) simp_all

lemma select_everything_settled:
  assumes s: "settled e" and i: "has_input e" shows "settled (select_everything e)"
proof -
  have wf: "ed_wf e" using s by (simp add: settled_def)
  then have "ed_lines e \<noteq> []" by (rule ed_wfD)
  then have "cursor_less origin (buffer_end e)"
    using i by (cases "ed_lines e") (auto simp: has_input_def cursor_less_def buffer_end_def)
  then have "range_ok (ed_lines e) (Some \<lparr>range_first = origin, range_last = buffer_end e\<rparr>)"
    using wf by (simp add: range_ok_def buffer_end_ok origin_ok)
  then show ?thesis unfolding select_everything_def by (rule selection_settled [OF s])
qed

lemma apply_command_settled: "settled e \<Longrightarrow> settled (apply_command cmd e)"
  by (cases cmd) (simp_all add: settled_edit select_everything_settled)

section \<open>Pointer positions\<close>

lemma pointer_row_bound:
  assumes "scroll_row e < n" shows "pointer_row position n e < n"
proof (cases "pos_y position < 0")
  case True
  then show ?thesis using assms less_imp_diff_less [OF assms] by (simp add: pointer_row_def Let_def)
next
  case False
  have "scroll_row e + min (nat (pos_y position)) (size_sub (n - 1) (scroll_row e)) < n" using assms by simp
  then show ?thesis using False le_less_trans [OF size_add_bound] by (simp add: pointer_row_def)
qed

lemma map_character_total:
  assumes wf: "ed_wf e" and ok: "scroll_ok e"
  shows "map_character position e \<noteq> None"
proof (cases "viewport_width e = 0 \<or> viewport_height e = 0")
  case False
  then have "pointer_row position (length (ed_rows e (viewport_width e))) e < length (ed_rows e (viewport_width e))"
    using scroll_ok_row [OF wf ok] by (intro pointer_row_bound) simp
  then show ?thesis by (auto simp: map_character_def Let_def)
qed (auto simp: map_character_def)

lemma map_character_ok:
  assumes "map_character position e = Some (Some c)"
  shows "cursor_ok (ed_lines e) c" "cur_column c < length (ed_lines e ! cur_line c)"
proof -
  let ?w = "viewport_width e"
  let ?rows = "ed_rows e ?w"
  define k where "k = pointer_row position (length ?rows) e"
  define j where "j = min (if pos_x position > 0 then nat (pos_x position) else 0) (row_length (?rows ! k) - 1)"
  have "0 < ?w" "k < length ?rows" "0 < row_length (?rows ! k)"
    and c: "c = \<lparr>cur_line = row_line (?rows ! k), cur_column = row_first (?rows ! k) + j\<rparr>"
    using assms unfolding map_character_def Let_def k_def [symmetric] j_def [symmetric] by (simp_all split: if_splits)
  then have "0 < ?w" "k < length ?rows" "j < row_length (?rows ! k)" by (auto simp: j_def)
  then have "cursor_ok (ed_lines e) (c\<lparr>cur_column := Suc (cur_column c)\<rparr>)"
    using row_cursor_ok [of ?w "?rows ! k" e "Suc j"] c by simp
  then show "cursor_ok (ed_lines e) c" "cur_column c < length (ed_lines e ! cur_line c)"
    by (simp_all add: cursor_ok_def)
qed

lemma map_caret_ok:
  assumes "map_caret position e = Some c" shows "cursor_ok (ed_lines e) c"
proof -
  let ?w = "viewport_width e"
  let ?rows = "ed_rows e ?w"
  define k where "k = scroll_row e + nat (pos_y position)"
  define j where "j = min (nat (pos_x position)) (row_length (?rows ! k))"
  have "0 < ?w" "k < length ?rows" and c: "c = \<lparr>cur_line = row_line (?rows ! k), cur_column = row_first (?rows ! k) + j\<rparr>"
    using assms unfolding map_caret_def Let_def k_def [symmetric] j_def [symmetric] by (simp_all split: if_splits)
  then show ?thesis using row_cursor_ok [of ?w "?rows ! k" e j] by (simp add: j_def)
qed

lemma word_bounds_ok:
  assumes "column < length line" and "word_bounds line column = (a, b)"
  shows "a \<le> column" "column < b" "b \<le> length line"
proof -
  have "scan_left is_word_character line 0 column \<le> column" by (rule scan_left_bounds)
  moreover have "Suc column \<le> scan_right is_word_character line (Suc column)"
    "scan_right is_word_character line (Suc column) \<le> length line"
    using scan_right_bounds(1,2) [where i = "Suc column" and line = line and p = is_word_character] assms(1) by simp_all
  ultimately show "a \<le> column" "column < b" "b \<le> length line"
    using assms by (auto simp: word_bounds_def split: if_splits)
qed

lemma after_character_ok:
  assumes "cursor_ok (ed_lines e) c" and "cur_column c < length (ed_lines e ! cur_line c)"
  shows "after_character e c = c\<lparr>cur_column := Suc (cur_column c)\<rparr>" "cursor_ok (ed_lines e) (after_character e c)"
  using assms by (simp_all add: after_character_def cursor_ok_def)

lemma update_selection_settled:
  assumes s: "settled e"
  shows "\<exists>e' st. update_selection ev e = Some (e', st) \<and> settled e'"
proof -
  have wf: "ed_wf e" and sc: "scroll_ok e" using s by (simp_all add: settled_def)
  note sel = selection_settled [OF s]
  show ?thesis
  proof (cases "selection_type ev = RESET \<or> selection_type ev = SELECT_ALL_TEXT")
    case True
    then show ?thesis using s by (auto simp: update_selection_def reset_selection_settled select_everything_settled)
  next
    case direct: False
    obtain m where m: "map_character (sel_extent ev) e = Some m" using map_character_total [OF wf sc] by blast
    obtain n where n: "map_character (sel_anchor ev) e = Some n" using map_character_total [OF wf sc] by blast
    show ?thesis
    proof (cases m)
      case None
      then show ?thesis using s m direct by (simp add: update_selection_def)
    next
      case (Some x)
      note x = map_character_ok [of "sel_extent ev" e x, unfolded m Some, OF refl]
      obtain a b where ab: "word_bounds (ed_lines e ! cur_line x) (cur_column x) = (a, b)" by fastforce
      note w = word_bounds_ok [OF x(2) ab]
      have word: "settled (e\<lparr>ed_selection := Some \<lparr>range_first = x\<lparr>cur_column := a\<rparr>, range_last = x\<lparr>cur_column := b\<rparr>\<rparr>,
          keyboard_anchor := None\<rparr>)"
        by (rule sel) (use x w in \<open>simp add: range_ok_def cursor_ok_def cursor_less_def\<close>)
      have line: "settled (e\<lparr>ed_selection := Some \<lparr>range_first = x\<lparr>cur_column := 0\<rparr>,
          range_last = x\<lparr>cur_column := length (ed_lines e ! cur_line x)\<rparr>\<rparr>, keyboard_anchor := None\<rparr>)"
        by (rule sel) (use x in \<open>auto simp add: range_ok_def cursor_ok_def cursor_less_def\<close>)
      show ?thesis
      proof (cases "selection_type ev = SELECT_WORD \<or> selection_type ev = SELECT_LINE")
        case True
        then show ?thesis using word line m Some ab direct by (auto simp: update_selection_def Let_def)
      next
        case plain: False
        show ?thesis
        proof (cases n)
          case None
          then show ?thesis using s m n Some direct plain by (simp add: update_selection_def Let_def)
        next
          case (Some y)
          note y = map_character_ok [of "sel_anchor ev" e y, unfolded n Some, OF refl]
          have span: "range_ok (ed_lines e) (Some \<lparr>range_first = p, range_last = after_character e q\<rparr>)"
            if "cursor_ok (ed_lines e) p" "cursor_ok (ed_lines e) q" "cur_column q < length (ed_lines e ! cur_line q)"
              "\<not> cursor_less q p" for p q
            using that after_character_ok [OF that(2,3)] by (auto simp: range_ok_def cursor_less_def)
          have "\<not> cursor_less y x" if "cursor_less x y" using that by (auto simp: cursor_less_def)
          then show ?thesis using sel [OF span [OF x(1) y]] sel [OF span [OF y(1) x]] m n \<open>m = Some x\<close> Some direct plain
            by (auto simp: update_selection_def Let_def)
        qed
      qed
    qed
  qed
qed

lemma place_cursor_settled:
  assumes s: "settled e" shows "settled (fst (place_cursor position e))"
proof (cases "map_caret position e")
  case None
  then show ?thesis using s by (simp add: place_cursor_def)
next
  case (Some c)
  let ?e = "ensure_cursor_visible ((reset_selection (e\<lparr>ed_cursor := c\<rparr>))\<lparr>has_desired_column := False\<rparr>)"
  have "settled ?e"
    by (rule settled_frame [OF s]) (use s map_caret_ok [OF Some] in \<open>simp_all add: settled_def reset_selection_def ed_wf_def\<close>)
  then show ?thesis using Some by (simp add: place_cursor_def)
qed

section \<open>Paste\<close>

lemma paste_insert_kept:
  assumes wf: "ed_wf e" and p: "ed_paste e = Some p"
  shows "ed_wf (paste_insert bs finish p e)" "scroll_ok (paste_insert bs finish p e)"
    "\<exists>rest cr. ed_paste (paste_insert bs finish p e) = Some (p\<lparr>pending_utf8 := rest, preceding_cr := cr\<rparr>)"
    "viewport_width (paste_insert bs finish p e) = viewport_width e"
    "viewport_height (paste_insert bs finish p e) = viewport_height e"
proof -
  obtain cs rest where c: "consume_utf8 bs finish = (cs, rest)" by fastforce
  obtain e' cr where i: "insert_text cs (preceding_cr p) e = (e', cr)" by fastforce
  have eq: "paste_insert bs finish p e = e'\<lparr>ed_paste := Some (p\<lparr>pending_utf8 := rest, preceding_cr := cr\<rparr>)\<rparr>"
    by (simp add: paste_insert_def c i)
  note k = insert_utf8_kept [OF wf, of cs "preceding_cr p", unfolded i fst_conv]
  show "ed_wf (paste_insert bs finish p e)" using k(1) ed_wfD(4) [OF wf] p unfolding eq by (simp add: ed_wf_def paste_ok_def)
  show "scroll_ok (paste_insert bs finish p e)" unfolding eq by (rule scroll_ok_cong [OF k(3)]) simp_all
  show "\<exists>rest cr. ed_paste (paste_insert bs finish p e) = Some (p\<lparr>pending_utf8 := rest, preceding_cr := cr\<rparr>)"
    unfolding eq by auto
  show "viewport_width (paste_insert bs finish p e) = viewport_width e"
    "viewport_height (paste_insert bs finish p e) = viewport_height e" using k(2) unfolding eq by (simp_all add: same_frame_def)
qed

lemma paste_begin_settled: "settled e \<Longrightarrow> paste_phase ev = PASTE_BEGIN \<Longrightarrow> settled (fst (handle_paste ev e))"
proof (cases "ed_paste e")
  case None
  assume s: "settled e" and b: "paste_phase ev = PASTE_BEGIN"
  let ?e = "fst (handle_paste ev e)"
  have "ed_wf ?e" using s b None by (simp add: settled_def ed_wf_def handle_paste_def paste_ok_def)
  moreover have "scroll_ok ?e" by (rule scroll_ok_cong [of e]) (use s b None in \<open>simp_all add: settled_def handle_paste_def\<close>)
  moreover have "scroll_ok (fst (handle_paste cancel_paste ?e))"
    by (rule scroll_ok_cong [of e]) (use s b None in \<open>simp_all add: settled_def handle_paste_def\<close>)
  ultimately show ?thesis by (simp add: settled_def)
qed (simp add: handle_paste_def)

lemma paste_data_settled:
  assumes s: "settled e" and p: "ed_paste e = Some p" shows "settled (paste_insert bs finish p e)"
proof -
  have wf: "ed_wf e" using s by (simp add: settled_def)
  note k = paste_insert_kept [OF wf p, of bs finish]
  obtain rest cr where q: "ed_paste (paste_insert bs finish p e) = Some (p\<lparr>pending_utf8 := rest, preceding_cr := cr\<rparr>)"
    using k(3) by blast
  have "scroll_ok (fst (handle_paste cancel_paste (paste_insert bs finish p e)))"
    by (rule scroll_ok_cong [of "fst (handle_paste cancel_paste e)"])
      (use s p q k(4,5) in \<open>simp_all add: settled_def handle_paste_def\<close>)
  then show ?thesis using k(1,2) by (simp add: settled_def)
qed

lemma paste_end_settled:
  assumes "ed_wf e" and "scroll_ok e" shows "settled (e\<lparr>ed_paste := None\<rparr>)"
proof -
  have "scroll_ok (e\<lparr>ed_paste := None\<rparr>)" by (rule scroll_ok_cong [OF assms(2)]) simp_all
  then show ?thesis using assms(1) by (simp add: paste_none_settled) (simp add: ed_wf_def)
qed

lemma paste_cancel_settled: "settled e \<Longrightarrow> settled (fst (handle_paste cancel_paste e))"
proof (cases "ed_paste e")
  case (Some p)
  assume s: "settled e"
  then have "ed_wf (fst (handle_paste cancel_paste e))" using Some
    by (simp add: settled_def ed_wf_def handle_paste_def paste_ok_def)
  then show ?thesis using s Some by (subst paste_none_settled) (simp_all add: settled_def handle_paste_def)
qed (simp add: handle_paste_def)

lemma handle_paste_settled:
  assumes s: "settled e" shows "settled (fst (handle_paste ev e))"
proof (cases "paste_phase ev")
  case PASTE_BEGIN
  then show ?thesis by (rule paste_begin_settled [OF s])
next
  case PASTE_DATA
  then show ?thesis using s paste_data_settled [OF s] by (simp add: handle_paste_def split: option.split)
next
  case PASTE_END
  have "settled ((paste_insert (pending_utf8 p) True p e)\<lparr>ed_paste := None\<rparr>)" if "ed_paste e = Some p" for p
    using paste_data_settled [OF s that] by (intro paste_end_settled) (simp_all add: settled_def)
  then show ?thesis using PASTE_END s by (simp add: handle_paste_def split: option.split)
next
  case PASTE_CANCEL
  then have "handle_paste ev e = handle_paste cancel_paste e" by (simp add: handle_paste_def)
  then show ?thesis using paste_cancel_settled [OF s] by simp
qed

section \<open>Histories\<close>

datatype editor_op = Set_Viewport nat nat | Set_Fallback_Width nat | Clear_Text | Insert_Utf8 bytes | Key_Input key_event
  | Text_Input text_event | Paste_Input paste_event | Apply_Command command | Scroll_Vertical int
  | Update_Selection selection_event | Reset_Selection | Place_Cursor selection_position

fun editor_step :: "editor_op \<Rightarrow> text_editor \<Rightarrow> text_editor option" where
  "editor_step (Set_Viewport w h) e = Some (set_viewport w h e)"
| "editor_step (Set_Fallback_Width w) e = Some (set_fallback_width w e)"
| "editor_step Clear_Text e = Some (editor_clear e)"
| "editor_step (Insert_Utf8 t) e = Some (insert_utf8 t e)"
| "editor_step (Key_Input ev) e = Some (handle_key ev e)"
| "editor_step (Text_Input ev) e = Some (handle_text ev e)"
| "editor_step (Paste_Input ev) e = Some (fst (handle_paste ev e))"
| "editor_step (Apply_Command c) e = Some (apply_command c e)"
| "editor_step (Scroll_Vertical d) e = Some (scroll_vertical d e)"
| "editor_step (Update_Selection ev) e = map_option fst (update_selection ev e)"
| "editor_step Reset_Selection e = Some (reset_selection e)"
| "editor_step (Place_Cursor p) e = Some (fst (place_cursor p e))"

fun editor_run :: "editor_op list \<Rightarrow> text_editor \<Rightarrow> text_editor option" where
  "editor_run [] e = Some e"
| "editor_run (op # ops) e = (case editor_step op e of None \<Rightarrow> None | Some e' \<Rightarrow> editor_run ops e')"

text \<open>No call of \<open>set_viewport\<close> falls between the begin and the end of a paste; the flag says that one is open.\<close>

fun resize_free :: "bool \<Rightarrow> editor_op list \<Rightarrow> bool" where
  "resize_free paste [] = True"
| "resize_free paste (Set_Viewport w h # ops) = (\<not> paste \<and> resize_free paste ops)"
| "resize_free paste (Clear_Text # ops) = resize_free False ops"
| "resize_free paste (Paste_Input ev # ops) =
     resize_free (case paste_phase ev of PASTE_BEGIN \<Rightarrow> True | PASTE_DATA \<Rightarrow> paste | _ \<Rightarrow> False) ops"
| "resize_free paste (_ # ops) = resize_free paste ops"

lemma editor_step_settled:
  assumes s: "settled e" and v: "\<And>w h. op = Set_Viewport w h \<Longrightarrow> ed_paste e = None"
  shows "\<exists>e'. editor_step op e = Some e' \<and> settled e'"
proof (cases op)
  case (Update_Selection ev)
  then show ?thesis using update_selection_settled [OF s, of ev] by auto
qed (use s v in \<open>simp_all add: set_viewport_settled fallback_settled editor_clear_settled insert_utf8_settled
  handle_key_settled handle_text_settled handle_paste_settled apply_command_settled scroll_vertical_settled
  reset_selection_settled place_cursor_settled\<close>)

lemma edit_paste:
  assumes "ed_wf e"
  shows "ed_paste (fst (insert_text cs cr e)) = ed_paste e" "ed_paste (backspace e) = ed_paste e"
    "ed_paste (delete_forward e) = ed_paste e"
  using insert_utf8_kept(2) [OF assms, of cs cr] backspace_kept(2) [OF assms] delete_forward_kept(2) [OF assms]
  by (simp_all add: same_frame_def)

lemma move_paste:
  "ed_paste (move_horizontal right shift e) = ed_paste e" "ed_paste (move_word_left shift e) = ed_paste e"
  "ed_paste (move_word_right shift e) = ed_paste e" "ed_paste (move_vertical delta shift e) = ed_paste e"
  "ed_paste (move_row_boundary to_end shift e) = ed_paste e" "ed_paste (move_buffer_boundary to_end shift e) = ed_paste e"
  "ed_paste (move_page down shift e) = ed_paste e"
  using move_frame [of e] by (simp_all add: same_frame_def)

lemma update_selection_paste: "update_selection ev e = Some (e', st) \<Longrightarrow> ed_paste e' = ed_paste e"
  by (auto simp: update_selection_def Let_def reset_selection_def select_everything_def split: if_splits option.splits prod.splits)

lemma apply_command_paste: "ed_paste (apply_command c e) = ed_paste e"
  by (cases c) (simp_all add: move_paste select_everything_def)

lemma handle_named_frame: "ed_wf e \<Longrightarrow> same_frame e (handle_named key shift alt cmd e)"
  unfolding handle_named_def by (simp add: insert_utf8_kept backspace_kept delete_forward_kept move_frame)

lemma handle_key_paste:
  assumes "ed_wf e" shows "ed_paste (handle_key ev e) = ed_paste e"
proof -
  have "same_frame e (handle_key ev e)"
    unfolding handle_key_def Let_def insert_utf8_def
    by (simp add: assms insert_utf8_kept handle_named_frame split: key_code.split)
  then show ?thesis by (simp add: same_frame_def)
qed

lemma editor_step_paste:
  assumes "ed_wf e" and "editor_step op e = Some e'"
  shows "case op of Clear_Text \<Rightarrow> ed_paste e' = None
    | Paste_Input ev \<Rightarrow> (case paste_phase ev of PASTE_BEGIN \<Rightarrow> True | PASTE_DATA \<Rightarrow> ed_paste e = None \<longrightarrow> ed_paste e' = None
         | _ \<Rightarrow> ed_paste e' = None)
    | _ \<Rightarrow> ed_paste e' = ed_paste e"
  using assms
  by (cases op) (auto simp: set_viewport_def clamp_scroll_def set_fallback_width_def editor_clear_def new_editor_def
      insert_utf8_def edit_paste handle_text_def handle_key_paste handle_paste_def apply_command_paste scroll_vertical_def
      reset_selection_def place_cursor_def Let_def update_selection_paste split: paste_phase.split option.split)

lemma editor_run_settled:
  assumes "settled e" and "resize_free paste ops" and "\<not> paste \<longrightarrow> ed_paste e = None"
  shows "\<exists>e'. editor_run ops e = Some e' \<and> settled e'"
  using assms
proof (induction ops arbitrary: e paste)
  case (Cons op ops)
  have v: "\<And>w h. op = Set_Viewport w h \<Longrightarrow> ed_paste e = None" using Cons.prems by auto
  obtain e' where e': "editor_step op e = Some e'" "settled e'"
    using editor_step_settled [of e op] Cons.prems(1) v by blast
  have wf: "ed_wf e" using Cons.prems(1) by (simp add: settled_def)
  note step = editor_step_paste [OF wf e'(1)]
  define p' where "p' = (case op of Clear_Text \<Rightarrow> False
      | Paste_Input ev \<Rightarrow> (case paste_phase ev of PASTE_BEGIN \<Rightarrow> True | PASTE_DATA \<Rightarrow> paste | _ \<Rightarrow> False) | _ \<Rightarrow> paste)"
  have "resize_free p' ops" using Cons.prems(2) by (cases op) (auto simp: p'_def)
  moreover have "\<not> p' \<longrightarrow> ed_paste e' = None"
    using Cons.prems(3) step by (cases op) (auto simp: p'_def split: paste_phase.splits)
  ultimately show ?case using Cons.IH [OF e'(2)] e'(1) by simp
qed simp

lemma new_editor_settled: "settled (new_editor opts)"
  using editor_clear_settled [of "(new_editor opts)\<lparr>options := opts\<rparr>"] by (simp add: editor_clear_def)

text \<open>
  C19: Over every history of calls on a new editor in which the viewport is not resized while a
  paste is open, every call stays within the bounds of its vectors and returns; in the result the
  caret, the two ends of a selection (the first before the last), the keyboard anchor and the
  positions saved by an open paste all lie in the text, and the viewport is not scrolled past the
  last page of rows.
\<close>

theorem editor_history:
  assumes "resize_free False ops"
  shows "\<exists>e. editor_run ops (new_editor opts) = Some e \<and> ed_wf e \<and>
    (0 < viewport_width e \<longrightarrow> 0 < viewport_height e \<longrightarrow> scroll_row e \<le> maximum_scroll e)"
proof -
  have "ed_paste (new_editor opts) = None" by (simp add: new_editor_def)
  then obtain e where "editor_run ops (new_editor opts) = Some e" "settled e"
    using editor_run_settled [OF new_editor_settled assms, of opts] by blast
  then show ?thesis by (auto simp: settled_def scroll_ok_def)
qed

abbreviation "sample_options \<equiv> \<lparr>tab_width = 4, fallback_width = 80, reserve_plain_enter = False\<rparr>"

theorem editor_history_witness:
  "\<exists>e. editor_run [Set_Viewport 4 2, Insert_Utf8 [0x61, 0x62, 0x0a, 0x63], Update_Selection \<lparr>selection_type = SELECT_WORD,
      sel_anchor = \<lparr>pos_x = 0, pos_y = 0\<rparr>, sel_extent = \<lparr>pos_x = 1, pos_y = 0\<rparr>\<rparr>] (new_editor sample_options) = Some e \<and> ed_wf e \<and>
    (0 < viewport_width e \<longrightarrow> 0 < viewport_height e \<longrightarrow> scroll_row e \<le> maximum_scroll e)"
  by (rule editor_history) simp

section \<open>A paste that is cancelled after a resize\<close>

text \<open>
  The restriction of histories is needed. \<open>CANCEL\<close> restores the scroll row of the old viewport
  without clamping it to the new one: when the viewport was made wider inside the paste, so that
  the text has fewer visual rows, a later pointer selection indexes the rows out of bounds.
\<close>

lemma cancel_after_resize:
  "editor_run [Set_Viewport 1 1, Insert_Utf8 [0x61, 0x62, 0x63],
      Paste_Input \<lparr>paste_phase = PASTE_BEGIN, paste_data = []\<rparr>, Set_Viewport 9 1,
      Paste_Input cancel_paste, Update_Selection \<lparr>selection_type = SELECT_WORD,
        sel_anchor = \<lparr>pos_x = 0, pos_y = 0\<rparr>, sel_extent = \<lparr>pos_x = 0, pos_y = - 1\<rparr>\<rparr>] (new_editor sample_options) = None"
  by code_simp

section \<open>Editing refines a flat buffer\<close>

text \<open>
  C20: Inserting UTF-8 text replaces the selected characters, or nothing at the caret without a
  selection, by what the decoded characters expand to (line breaks for CR, LF and CR LF, one to
  \<open>tab_width\<close> spaces for a tab, no control characters), and leaves the caret right after them and
  nothing selected. Line breaks count as the spaces that word wrapping replaces by them.
\<close>

theorem insert_refines:
  assumes "ed_wf e" and "selected_span e = (pa, pb)"
  shows "\<exists>out cr. text_expands (tab_width (options e)) False (decode_utf8 t) out cr \<and>
    flat kSpace (ed_lines (insert_utf8 t e)) = take pa (flat kSpace (ed_lines e)) @ out @ drop pb (flat kSpace (ed_lines e)) \<and>
    flat_pos (ed_lines (insert_utf8 t e)) (ed_cursor (insert_utf8 t e)) = pa + length out \<and>
    ed_selection (insert_utf8 t e) = None"
proof -
  obtain e' cr' where "insert_text (decode_utf8 t) False e = (e', cr')" by fastforce
  from insert_text_flat [OF assms(1) this assms(2)] this show ?thesis by (auto simp: insert_utf8_def)
qed

theorem insert_refines_witness:
  "\<exists>out cr. text_expands 4 False (decode_utf8 [0x61, 0x0d, 0x0a]) out cr \<and>
    flat kSpace (ed_lines (insert_utf8 [0x61, 0x0d, 0x0a] (new_editor sample_options))) = out @ [kSpace] \<and>
    flat_pos (ed_lines (insert_utf8 [0x61, 0x0d, 0x0a] (new_editor sample_options)))
      (ed_cursor (insert_utf8 [0x61, 0x0d, 0x0a] (new_editor sample_options))) = length out"
  using insert_refines [of "new_editor sample_options" 0 0 "[0x61, 0x0d, 0x0a]", OF new_editor_wf]
  by (auto simp: selected_span_def new_editor_def flat_pos_def)

text \<open>
  Backspace and delete remove exactly the selected characters and, when nothing is selected,
  the one character (or line break) before or after the caret, if there is one; the caret ends
  where the removed characters were and nothing is selected.
\<close>

lemma erase_refines:
  assumes "ed_wf e" and "backspace_span e = (ba, bb)" and "delete_span e = (da, db)"
  shows "flat 0x0a (ed_lines (backspace e)) = take ba (flat 0x0a (ed_lines e)) @ drop bb (flat 0x0a (ed_lines e)) \<and>
    flat_pos (ed_lines (backspace e)) (ed_cursor (backspace e)) = ba \<and> ed_selection (backspace e) = None \<and>
    flat 0x0a (ed_lines (delete_forward e)) = take da (flat 0x0a (ed_lines e)) @ drop db (flat 0x0a (ed_lines e)) \<and>
    flat_pos (ed_lines (delete_forward e)) (ed_cursor (delete_forward e)) = da \<and> ed_selection (delete_forward e) = None"
  using backspace_flat [OF assms(1,2), of "0x0a"] delete_forward_flat [OF assms(1,3), of "0x0a"] by simp

abbreviation "sample_editor \<equiv> insert_utf8 [0x61, 0x0a, 0x62] (new_editor sample_options)"

lemma sample_editor_wf: "ed_wf sample_editor"
  using insert_utf8_kept(1) [OF new_editor_wf] by (simp add: insert_utf8_def)

text \<open>
  The left and right arrows move the caret by one position of the flat text, line breaks
  included, stop at its two ends and leave the text alone; with shift the selection is the span
  between the anchor, where the selection was begun, and the caret.
\<close>

lemma arrow_refines:
  assumes wf: "ed_wf e"
  shows "ed_lines (move_horizontal right shift e) = ed_lines e \<and>
    flat_pos (ed_lines e) (ed_cursor (move_horizontal right shift e)) =
      (if right then min (Suc (flat_pos (ed_lines e) (ed_cursor e))) (length (flat 0x0a (ed_lines e)) - 1)
       else flat_pos (ed_lines e) (ed_cursor e) - 1) \<and>
    (let anchor = (case keyboard_anchor e of None \<Rightarrow> ed_cursor e | Some a \<Rightarrow> a);
         caret = ed_cursor (move_horizontal right shift e)
     in ed_selection (move_horizontal right shift e) =
       (if \<not> shift \<or> anchor = caret then None
        else if cursor_less caret anchor then Some \<lparr>range_first = caret, range_last = anchor\<rparr>
        else Some \<lparr>range_first = anchor, range_last = caret\<rparr>))"
  using horizontal_target_ok(2) [OF wf, of right "0x0a"]
  by (cases right; cases shift) (simp_all add: move_horizontal_def finish_navigation_def Let_def split: option.split)

section \<open>The selected text\<close>

lemma encode_utf8_append: "encode_utf8 (a @ b) = encode_utf8 a @ encode_utf8 b"
  by (induction a) simp_all

lemma append_line_feed [simp]: "append_utf8 0x0a = [0x0a]"
  by code_simp

lemma lines_utf8_flat: "ls \<noteq> [] \<Longrightarrow> lines_utf8 ls @ [0x0a] = encode_utf8 (flat 0x0a ls)"
  by (induction ls rule: lines_utf8.induct) (simp_all add: encode_utf8_append)

lemma flat_range_lines:
  assumes a: "cursor_ok ls (range_first r)" and b: "cursor_ok ls (range_last r)"
    and lt: "cursor_less (range_first r) (range_last r)"
    and p: "pa = flat_pos ls (range_first r)" "pb = flat_pos ls (range_last r)"
  shows "flat s (range_lines ls r) = drop pa (take pb (flat s ls)) @ [s]"
proof -
  let ?a = "range_first r" and ?b = "range_last r"
  have la: "length (flat s (take (cur_line ?a) ls)) + cur_column ?a = pa"
    using nth_flat_line(2) [OF a, of s] a p by (simp add: cursor_ok_def)
  have tb: "take pb (flat s ls) = flat s (take (cur_line ?b) ls) @ take (cur_column ?b) (ls ! cur_line ?b)"
    using flat_take_drop(1) [OF b] p by simp
  show ?thesis
  proof (cases "cur_line ?a = cur_line ?b")
    case True
    then have "range_lines ls r = [take (cur_column ?b - cur_column ?a) (drop (cur_column ?a) (ls ! cur_line ?a))]"
      by (simp add: range_lines_def Let_def)
    moreover have "drop pa (take pb (flat s ls)) = drop (cur_column ?a) (take (cur_column ?b) (ls ! cur_line ?a))"
      unfolding tb la [symmetric] using True by simp
    ultimately show ?thesis by (simp add: drop_take)
  next
    case False
    then have l: "cur_line ?a < cur_line ?b" "cur_line ?b < length ls" "cur_line ?a < length ls"
      using lt b by (auto simp: cursor_less_def cursor_ok_def)
    let ?mid = "take (cur_line ?b - Suc (cur_line ?a)) (drop (Suc (cur_line ?a)) ls)"
    have upt: "[cur_line ?a..<Suc (cur_line ?b)] = cur_line ?a # [Suc (cur_line ?a)..<cur_line ?b] @ [cur_line ?b]"
      using l by (simp add: upt_conv_Cons)
    have mid: "map (\<lambda>i. ls ! i) [Suc (cur_line ?a)..<cur_line ?b] = ?mid"
      using l by (intro nth_equalityI) simp_all
    have "range_lines ls r = drop (cur_column ?a) (ls ! cur_line ?a) # map (\<lambda>i. ls ! i) [Suc (cur_line ?a)..<cur_line ?b] @
        [take (cur_column ?b) (ls ! cur_line ?b)]"
      unfolding range_lines_def upt using False l by (simp add: Let_def)
    then have rl: "range_lines ls r = drop (cur_column ?a) (ls ! cur_line ?a) # ?mid @ [take (cur_column ?b) (ls ! cur_line ?b)]"
      unfolding mid .
    have "take (cur_line ?b) ls = take (cur_line ?a) ls @ ls ! cur_line ?a # ?mid"
      using l id_take_nth_drop [of "cur_line ?a" "take (cur_line ?b) ls"] by (simp add: min_def drop_take)
    then have "drop pa (take pb (flat s ls)) = drop (cur_column ?a) (ls ! cur_line ?a) @ s # flat s ?mid @ take (cur_column ?b) (ls ! cur_line ?b)"
      unfolding tb la [symmetric] using a by (simp add: cursor_ok_def)
    then show ?thesis unfolding rl by simp
  qed
qed

text \<open>
  The text of a selection is the UTF-8 encoding of the characters between its two ends, with a
  line feed for each line break, and deleting the selection removes exactly those characters and
  puts the caret in their place.
\<close>

lemma selected_text_exact:
  assumes wf: "ed_wf e" and sel: "ed_selection e = Some r" and span: "selected_span e = (pa, pb)"
  shows "selected_text e = (encode_utf8 (drop pa (take pb (flat 0x0a (ed_lines e)))), TUI_OK) \<and>
    flat 0x0a (ed_lines (fst (delete_selection e))) =
      take pa (flat 0x0a (ed_lines e)) @ drop pb (flat 0x0a (ed_lines e)) \<and>
    flat_pos (ed_lines (fst (delete_selection e))) (ed_cursor (fst (delete_selection e))) = pa"
proof -
  have r: "cursor_ok (ed_lines e) (range_first r)" "cursor_ok (ed_lines e) (range_last r)"
    "cursor_less (range_first r) (range_last r)" using ed_wfD(2) [OF wf] sel by (simp_all add: range_ok_def)
  have p: "pa = flat_pos (ed_lines e) (range_first r)" "pb = flat_pos (ed_lines e) (range_last r)"
    using span sel by (simp_all add: selected_span_def)
  let ?rl = "range_lines (ed_lines e) r"
  have "?rl \<noteq> []" using r(3) by (auto simp: range_lines_def cursor_less_def)
  then have "lines_utf8 ?rl @ [0x0a] = encode_utf8 (drop pa (take pb (flat 0x0a (ed_lines e)))) @ [0x0a]"
    using lines_utf8_flat [of ?rl] flat_range_lines [OF r p, of "0x0a"] by (simp add: encode_utf8_append)
  then have "selected_text e = (encode_utf8 (drop pa (take pb (flat 0x0a (ed_lines e)))), TUI_OK)"
    using sel by (simp add: selected_text_def)
  moreover obtain e' d where "delete_selection e = (e', d)" by fastforce
  ultimately show ?thesis using delete_selection_flat(1,3) [OF wf _ span] by simp
qed

section \<open>Paste is a transaction\<close>

definition clean :: "text_editor \<Rightarrow> text_editor" where
  "clean e = e\<lparr>scroll_row := 0, ed_paste := None, ed_selection := None, keyboard_anchor := None, has_desired_column := False\<rparr>"

lemma materialize_clean: "materialize_word_wraps i (clean e) = clean (materialize_word_wraps i e)"
  by (simp add: materialize_word_wraps_def clean_def editable_width_def split: prod.split)

lemma clean_update: "clean e\<lparr>ed_lines := ls, ed_cursor := c\<rparr> = clean (e\<lparr>ed_lines := ls, ed_cursor := c\<rparr>)"
  "ed_lines (clean e) = ed_lines e" "ed_cursor (clean e) = ed_cursor e" "options (clean e) = options e"
  by (simp_all add: clean_def)

lemma insert_scalar_clean: "insert_scalar c (clean e, cr) = apfst clean (insert_scalar c (e, cr))"
  by (simp add: insert_scalar_def Let_def clean_update materialize_clean)

lemma insert_fold_clean: "fold insert_scalar cs (clean e, cr) = apfst clean (fold insert_scalar cs (e, cr))"
proof (induction cs arbitrary: e cr)
  case (Cons c cs)
  show ?case using Cons.IH by (cases "insert_scalar c (e, cr)") (simp add: insert_scalar_clean)
qed simp

lemma clean_ensure [simp]: "clean (ensure_cursor_visible e) = clean e"
  using ensure_eq [of e] by (auto simp: clean_def)

lemma clean_updates [simp]: "clean (e\<lparr>ed_selection := s\<rparr>) = clean e" "clean (e\<lparr>keyboard_anchor := a\<rparr>) = clean e"
  "clean (e\<lparr>has_desired_column := h\<rparr>) = clean e" "clean (e\<lparr>ed_paste := p\<rparr>) = clean e"
  by (simp_all add: clean_def)

lemma clean_unselected:
  "ed_selection x = None \<Longrightarrow> keyboard_anchor x = None \<Longrightarrow> \<not> has_desired_column x \<Longrightarrow> ed_paste x = None \<Longrightarrow>
    x\<lparr>scroll_row := 0\<rparr> = clean x"
  by (cases x) (simp add: clean_def)

lemma insert_text_clean:
  assumes "insert_text cs cr e = (e', cr')"
  shows "fold insert_scalar cs (clean (fst (delete_selection e)), cr) = (clean e', cr')"
    and "ed_selection e' = None" "keyboard_anchor e' = None" "has_desired_column e' = False"
  using assms by (auto simp: insert_text_def insert_fold_clean split: prod.splits)

lemma delete_nothing: "ed_selection e = None \<Longrightarrow> delete_selection e = (e, False)"
  by (simp add: delete_selection_def)

abbreviation "paste_chunk bs \<equiv> \<lparr>paste_phase = PASTE_DATA, paste_data = bs\<rparr>"
abbreviation "feed_paste \<equiv> fold (\<lambda>bs e. fst (handle_paste (paste_chunk bs) e))"
abbreviation "begin_paste \<equiv> \<lparr>paste_phase = PASTE_BEGIN, paste_data = []\<rparr>"
abbreviation "end_paste \<equiv> \<lparr>paste_phase = PASTE_END, paste_data = []\<rparr>"

lemma paste_insert_clean:
  assumes "paste_insert bs finish p e = e'" and "consume_utf8 bs finish = (cs, rest)"
  obtains cr where "fold insert_scalar cs (clean (fst (delete_selection e)), preceding_cr p) = (clean e', cr)"
    and "ed_selection e' = None" "keyboard_anchor e' = None" "has_desired_column e' = False"
    and "ed_paste e' = Some (p\<lparr>pending_utf8 := rest, preceding_cr := cr\<rparr>)"
proof -
  obtain e1 cr where i: "insert_text cs (preceding_cr p) e = (e1, cr)" by fastforce
  then have "e' = e1\<lparr>ed_paste := Some (p\<lparr>pending_utf8 := rest, preceding_cr := cr\<rparr>)\<rparr>"
    using assms by (simp add: paste_insert_def)
  then show thesis using that [of cr] insert_text_clean [OF i] by simp
qed

lemma feed_end_clean:
  assumes "ed_paste e = Some p" and "x = fst (handle_paste end_paste (feed_paste chunks e))"
  shows "clean x = fst (fold insert_scalar (decode_chunks (pending_utf8 p) chunks) (clean (fst (delete_selection e)), preceding_cr p)) \<and>
    ed_selection x = None \<and> keyboard_anchor x = None \<and> \<not> has_desired_column x \<and> ed_paste x = None"
  using assms
proof (induction chunks arbitrary: e p)
  case Nil
  obtain cs rest where c: "consume_utf8 (pending_utf8 p) True = (cs, rest)" by fastforce
  obtain cr where f: "fold insert_scalar cs (clean (fst (delete_selection e)), preceding_cr p) =
      (clean (paste_insert (pending_utf8 p) True p e), cr)"
    and r: "ed_selection (paste_insert (pending_utf8 p) True p e) = None"
      "keyboard_anchor (paste_insert (pending_utf8 p) True p e) = None"
      "has_desired_column (paste_insert (pending_utf8 p) True p e) = False"
    using paste_insert_clean [OF refl c] by blast
  have "x = (paste_insert (pending_utf8 p) True p e)\<lparr>ed_paste := None\<rparr>" using Nil.prems by (simp add: handle_paste_def)
  then show ?case using r f c by simp
next
  case (Cons bs chunks)
  define e1 where "e1 = paste_insert (pending_utf8 p @ bs) False p e"
  obtain cs rest where c: "consume_utf8 (pending_utf8 p @ bs) False = (cs, rest)" by fastforce
  obtain cr where f: "fold insert_scalar cs (clean (fst (delete_selection e)), preceding_cr p) = (clean e1, cr)"
    and s: "ed_selection e1 = None" and p: "ed_paste e1 = Some (p\<lparr>pending_utf8 := rest, preceding_cr := cr\<rparr>)"
    using paste_insert_clean [OF e1_def [symmetric] c] by blast
  have "x = fst (handle_paste end_paste (feed_paste chunks e1))" using Cons.prems by (simp add: handle_paste_def e1_def)
  from Cons.IH [OF p this] show ?case using f c by (simp add: delete_nothing [OF s])
qed

lemma feed_saved:
  assumes "ed_wf e" and "ed_paste e = Some p"
  shows "\<exists>rest cr. ed_paste (feed_paste chunks e) = Some (p\<lparr>pending_utf8 := rest, preceding_cr := cr\<rparr>) \<and>
    options (feed_paste chunks e) = options e \<and> viewport_width (feed_paste chunks e) = viewport_width e \<and>
    viewport_height (feed_paste chunks e) = viewport_height e"
  using assms
proof (induction chunks arbitrary: e p)
  case Nil
  then show ?case by (intro exI [of _ "pending_utf8 p"] exI [of _ "preceding_cr p"]) simp
next
  case (Cons bs chunks)
  define e1 where "e1 = paste_insert (pending_utf8 p @ bs) False p e"
  note k = paste_insert_kept [OF Cons.prems, of "pending_utf8 p @ bs" False, folded e1_def]
  have o: "options e1 = options e"
    using insert_utf8_kept(2) [OF Cons.prems(1)]
    by (simp add: e1_def paste_insert_def same_frame_def split_beta)
  obtain rest cr where p1: "ed_paste e1 = Some (p\<lparr>pending_utf8 := rest, preceding_cr := cr\<rparr>)" using k(3) by blast
  show ?case using Cons.IH [OF k(1) p1] Cons.prems(2) k(4,5) o by (auto simp: handle_paste_def e1_def)
qed

text \<open>
  C21: A paste is a transaction. Begun, fed any sequence of chunks (that may split the encoding of
  a character, or a CR LF pair, anywhere) and ended, it leaves the editor in the state, up to the
  scroll position, that inserting the concatenated text in one call leaves; cancelled instead, it
  leaves the editor in exactly the state in which it began.
\<close>

theorem paste_transactional:
  assumes "ed_wf e" and "ed_paste e = None"
  shows "(fst (handle_paste end_paste (feed_paste chunks (fst (handle_paste begin_paste e)))))\<lparr>scroll_row := 0\<rparr> =
      (insert_utf8 (concat chunks) e)\<lparr>scroll_row := 0\<rparr> \<and>
    fst (handle_paste cancel_paste (feed_paste chunks (fst (handle_paste begin_paste e)))) = e"
proof
  let ?b = "fst (handle_paste begin_paste e)"
  define p where "p = the (ed_paste ?b)"
  have p: "ed_paste ?b = Some p" "pending_utf8 p = []" "\<not> preceding_cr p" "?b = e\<lparr>ed_paste := Some p\<rparr>"
    and saved: "saved_lines p = ed_lines e" "saved_cursor p = ed_cursor e" "saved_selection p = ed_selection e"
      "saved_anchor p = keyboard_anchor e" "saved_scroll_row p = scroll_row e" "saved_desired_column p = desired_column e"
      "saved_has_desired_column p = has_desired_column e"
    using assms(2) by (simp_all add: p_def handle_paste_def)
  let ?x = "fst (handle_paste end_paste (feed_paste chunks ?b))"
  obtain y cr where y: "insert_text (decode_utf8 (concat chunks)) False e = (y, cr)" by fastforce
  have "clean (fst (delete_selection ?b)) = clean (fst (delete_selection e))"
    unfolding p(4) by (simp add: delete_selection_def Let_def clean_def split: option.split)
  then have "clean ?x = clean y"
    using feed_end_clean [OF p(1) refl, of chunks] insert_text_clean(1) [OF y] p(2,3) by (simp add: decode_chunks_concat)
  moreover have "?x\<lparr>scroll_row := 0\<rparr> = clean ?x" using feed_end_clean [OF p(1) refl, of chunks] by (intro clean_unselected) simp_all
  moreover have "ed_paste y = None" using edit_paste(1) [OF assms(1), of "decode_utf8 (concat chunks)" False] y assms(2) by simp
  then have "y\<lparr>scroll_row := 0\<rparr> = clean y" using insert_text_clean(2-4) [OF y] by (intro clean_unselected) simp_all
  ultimately show "?x\<lparr>scroll_row := 0\<rparr> = (insert_utf8 (concat chunks) e)\<lparr>scroll_row := 0\<rparr>" by (simp add: insert_utf8_def y)
  have "ed_wf ?b" using assms by (simp add: ed_wf_def handle_paste_def paste_ok_def)
  then show "fst (handle_paste cancel_paste (feed_paste chunks ?b)) = e"
    using feed_saved [OF _ p(1), of chunks] p(4) saved assms(2) by (auto simp: handle_paste_def)
qed

theorem paste_transactional_witness:
  "(fst (handle_paste end_paste (feed_paste [[0x61, 0xc3], [0xa9, 0x0d], [0x0a]]
      (fst (handle_paste begin_paste (new_editor sample_options))))))\<lparr>scroll_row := 0\<rparr> =
    (insert_utf8 [0x61, 0xc3, 0xa9, 0x0d, 0x0a] (new_editor sample_options))\<lparr>scroll_row := 0\<rparr>"
proof -
  have "ed_paste (new_editor sample_options) = None" by (simp add: new_editor_def)
  from paste_transactional [OF new_editor_wf this, of "[[0x61, 0xc3], [0xa9, 0x0d], [0x0a]]"] show ?thesis by simp
qed

section \<open>Rows and the caret\<close>

text \<open>
  C22: Wrapping neither loses nor repeats a character: the visual rows, in order, hold exactly the
  characters of the lines, each row lies in one line and is at most as wide as the viewport, and the
  row and column computed for the caret are those of the caret in the text.
\<close>

theorem wrapping_faithful:
  assumes "0 < width" and "cursor_ok ls cursor"
  shows "let rows = visual_rows ls cursor width; (k, col) = visual_cursor cursor rows width in
    concat (map (row_slice ls) rows) = concat ls \<and>
    (\<forall>r \<in> set rows. row_line r < length ls \<and> row_first r + row_length r \<le> length (ls ! row_line r) \<and> row_length r \<le> width) \<and>
    k < length rows \<and> row_line (rows ! k) = cur_line cursor \<and> row_first (rows ! k) + col = cur_column cursor \<and>
    col \<le> row_length (rows ! k)"
proof -
  obtain k col where vc: "visual_cursor cursor (visual_rows ls cursor width) width = (k, col)" by fastforce
  then show ?thesis
    using visual_rows_tile [OF assms(1), of ls cursor] visual_rows_valid [OF assms(1)]
      visual_cursor_correct [OF assms refl vc] by (simp add: Let_def)
qed

theorem wrapping_faithful_witness:
  "visual_rows [[0x61, 0x62, 0x20, 0x63, 0x64, 0x65]] origin 4 =
     [\<lparr>row_line = 0, row_first = 0, row_length = 3\<rparr>, \<lparr>row_line = 0, row_first = 3, row_length = 3\<rparr>] \<and>
   concat (map (row_slice [[0x61, 0x62, 0x20, 0x63, 0x64, 0x65]]) (visual_rows [[0x61, 0x62, 0x20, 0x63, 0x64, 0x65]] origin 4)) =
     [0x61, 0x62, 0x20, 0x63, 0x64, 0x65]"
proof -
  have ok: "cursor_ok [[0x61, 0x62, 0x20, 0x63, 0x64, 0x65]] origin" by (simp add: cursor_ok_def)
  have "concat (map (row_slice [[0x61, 0x62, 0x20, 0x63, 0x64, 0x65]]) (visual_rows [[0x61, 0x62, 0x20, 0x63, 0x64, 0x65]] origin 4)) =
      [0x61, 0x62, 0x20, 0x63, 0x64, 0x65]"
    using wrapping_faithful [OF _ ok, of 4] by (simp add: Let_def split: prod.splits)
  moreover have "visual_rows [[0x61, 0x62, 0x20, 0x63, 0x64, 0x65]] origin 4 =
     [\<lparr>row_line = 0, row_first = 0, row_length = 3\<rparr>, \<lparr>row_line = 0, row_first = 3, row_length = 3\<rparr>]" by code_simp
  ultimately show ?thesis by simp
qed

lemma ensure_visible_bounds:
  assumes wf: "ed_wf e" and v: "0 < viewport_width e" "0 < viewport_height e"
    and vc: "visual_cursor (ed_cursor e) (ed_rows e (viewport_width e)) (viewport_width e) = (k, col)"
  shows "scroll_row (ensure_cursor_visible e) \<le> k" "k < scroll_row (ensure_cursor_visible e) + viewport_height e"
  using ed_rows_cursor(1,2) [OF wf v(1) vc] v vc by (auto simp: ensure_cursor_visible_def maximum_scroll_def Let_def)

text \<open>
  C23: After every edit and move of the caret, which end by making the caret visible, the rendered
  viewport contains the caret: the rendered row is one of the rows shown and the caret stands in it
  at its column of the text.
\<close>

theorem caret_visible:
  assumes wf: "ed_wf e" and v: "0 < viewport_width e" "0 < viewport_height e"
    and out: "out = editor_render_state (ensure_cursor_visible e)"
  shows "\<exists>k. render_cursor_row out = Some k \<and> k < viewport_height e \<and> k < length (render_rows out) \<and>
    logical_line (render_rows out ! k) = cur_line (ed_cursor e) \<and>
    first_character (render_rows out ! k) + render_cursor_column out = cur_column (ed_cursor e) \<and>
    render_cursor_column out \<le> length (render_cells (render_rows out ! k))"
proof -
  obtain r where e': "ensure_cursor_visible e = e\<lparr>scroll_row := r\<rparr>" using ensure_eq by blast
  obtain k col where vc: "visual_cursor (ed_cursor e) (ed_rows e (viewport_width e)) (viewport_width e) = (k, col)" by fastforce
  note row = ed_rows_cursor [OF wf v(1) vc]
  have b: "r \<le> k" "k < r + viewport_height e" using ensure_visible_bounds [OF wf v vc] e' by simp_all
  let ?n = "min (viewport_height e) (length (ed_rows e (viewport_width e)) - r)"
  have n: "k - r < ?n" "r < length (ed_rows e (viewport_width e))" using b row(2) by auto
  have rows: "render_rows out = map (\<lambda>i. render_row_of (e\<lparr>scroll_row := r\<rparr>) (ed_rows e (viewport_width e) ! (r + i))) [0..<?n]"
    and "render_cursor_row out = Some (k - r)" "render_cursor_column out = col"
    using b n(2) v vc unfolding out e' by (auto simp: editor_render_state_def Let_def)
  moreover have "render_rows out ! (k - r) = render_row_of (e\<lparr>scroll_row := r\<rparr>) (ed_rows e (viewport_width e) ! k)"
    "k - r < length (render_rows out)" using n b(1) by (simp_all add: rows)
  ultimately show ?thesis using b row(3-5) by (auto simp: render_row_of_def)
qed

theorem caret_visible_witness:
  "\<exists>k. render_cursor_row (editor_render_state (ensure_cursor_visible (sample_editor\<lparr>viewport_width := 2, viewport_height := 1\<rparr>))) = Some k \<and> k < 1"
proof -
  have wf: "ed_wf (sample_editor\<lparr>viewport_width := 2, viewport_height := 1\<rparr>)"
    using sample_editor_wf by (simp add: ed_wf_def)
  show ?thesis using caret_visible [OF wf _ _ refl] by auto
qed

end
