(* ===== verification/Paste_Correct.thy ===== *)
theory Paste_Correct
  imports Decoder_Correct Editor_Correct "HOL-Library.Sublist"
begin

text \<open>
  Bracketed paste across components: the decoder's paste events are well bracketed and bounded, so
  that the editor accepts each of them, and the pasted bytes are those before the first terminator,
  however the input is cut into chunks.
\<close>

section \<open>The protocol of paste events\<close>

text \<open>
  The consumer's side: closed, or open with a number of bytes received. While a paste is open only
  its own events and diagnostics of unknown input may occur; an event that the protocol does not
  allow makes the run fail.
\<close>

fun paste_next :: "nat \<Rightarrow> nat option \<Rightarrow> event \<Rightarrow> nat option option" where
  "paste_next limit st (Paste_Event p) =
     (case (paste_phase p, st) of
        (PASTE_BEGIN, None) \<Rightarrow> Some (Some 0)
      | (PASTE_DATA, Some n) \<Rightarrow>
          if paste_data p \<noteq> [] \<and> n + length (paste_data p) \<le> limit then Some (Some (n + length (paste_data p))) else None
      | (PASTE_END, Some n) \<Rightarrow> Some None
      | (PASTE_CANCEL, Some n) \<Rightarrow> Some None
      | _ \<Rightarrow> None)"
| "paste_next limit st (Unknown_Event reason bs) = Some st"
| "paste_next limit st _ = (if st = None then Some None else None)"

fun paste_run :: "nat \<Rightarrow> nat option \<Rightarrow> event list \<Rightarrow> nat option option" where
  "paste_run limit st [] = Some st"
| "paste_run limit st (e # evs) = Option.bind (paste_next limit st e) (\<lambda>st'. paste_run limit st' evs)"

lemma paste_run_append: "paste_run limit st (xs @ ys) = Option.bind (paste_run limit st xs) (\<lambda>st'. paste_run limit st' ys)"
  by (induction xs arbitrary: st) (auto simp: bind_assoc split: bind_split)

lemma paste_run_plain: "list_all plain_event evs \<Longrightarrow> paste_run limit None evs = Some None"
proof (induction evs)
  case (Cons e evs)
  then show ?case by (cases e) auto
qed simp

definition open_state :: "decoder \<Rightarrow> nat option" where
  "open_state s = (if paste_in_progress s \<and> \<not> paste_discarding s then Some (paste_bytes s) else None)"

text \<open>
  What the configuration has to provide: a terminator, and the escape byte alone does not start a
  paste.
\<close>

definition paste_configured :: "decoder \<Rightarrow> bool" where
  "paste_configured s \<longleftrightarrow> paste_end_sequence s \<noteq> [] \<and>
     trie_find (input_trie s) [kEscape] \<noteq> Some (Enter_Input_Protocol PROTOCOL_PASTE_BEGIN)"

definition paste_inv :: "decoder \<Rightarrow> bool" where
  "paste_inv s \<longleftrightarrow> paste_configured s \<and> (paste_in_progress s \<longleftrightarrow> active_protocol s = Some PROTOCOL_PASTE_BEGIN) \<and>
     (if paste_in_progress s
      then paste_bytes s \<le> maximum_paste_bytes (limits s) \<and> is_prefix (paste_candidate s) (paste_end_sequence s) \<and>
        paste_candidate s \<noteq> paste_end_sequence s
      else paste_candidate s = [])"

definition paste_step :: "decoder \<Rightarrow> decoder \<times> event list \<times> 'a \<Rightarrow> bool" where
  "paste_step s r \<longleftrightarrow> (case r of (s', evs, _) \<Rightarrow>
     paste_inv s' \<and> same_config s s' \<and> paste_run (maximum_paste_bytes (limits s)) (open_state s) evs = Some (open_state s'))"

lemma paste_step_trans:
  assumes "paste_step s (s', evs, st)" and "paste_step s' (s'', evs', st')"
  shows "paste_step s (s'', evs @ evs', st'')"
  using assms by (auto simp: paste_step_def paste_run_append same_config_def)

lemma paste_quiet:
  assumes "paste_inv s" and "\<not> paste_in_progress s" and "same_config s s'" and "\<not> paste_in_progress s'"
    and "paste_candidate s' = paste_candidate s" and "active_protocol s' \<noteq> Some PROTOCOL_PASTE_BEGIN"
    and "list_all plain_event evs"
  shows "paste_step s (s', evs, x)"
  using assms by (simp add: paste_step_def paste_inv_def paste_configured_def same_config_def open_state_def paste_run_plain)

lemma parse_text_plain:
  assumes "dec_pending s \<noteq> []" and r: "parse_text s = (s', evs, x)"
  shows "list_all plain_event evs" "same_config s s'" "paste_in_progress s' = paste_in_progress s"
    "paste_candidate s' = paste_candidate s" "active_node s' = active_node s" "active_protocol s' = active_protocol s"
proof -
  obtain b bs where p: "dec_pending s = b # bs" using assms(1) by (cases "dec_pending s") auto
  obtain m stop where scan: "text_scan (b # bs) 0 = (m, stop)" by fastforce
  have m: "m \<le> length (b # bs)" "is_valid (take m (b # bs))" using text_scan_spec [OF scan] by auto
  have pos: "m \<noteq> 0" if "\<not> (b < 0x20 \<or> b = 0x7f)" "stop \<noteq> Stop_Incomplete" "stop \<noteq> Stop_Invalid"
    using text_scan_progress [of b bs stop] scan that by auto
  show "list_all plain_event evs" using r m pos unfolding parse_text_def p scan Let_def by (auto simp: scan p split: if_splits)
  show "same_config s s'" "paste_in_progress s' = paste_in_progress s"
    "paste_candidate s' = paste_candidate s" "active_node s' = active_node s" "active_protocol s' = active_protocol s"
    using r unfolding parse_text_def p scan Let_def by (auto simp: scan p consume_def same_config_def split: if_splits)
qed

lemma parse_text_paste:
  assumes ok: "paste_inv s" and idle: "\<not> paste_in_progress s" and ne: "dec_pending s \<noteq> []"
  shows "paste_step s (parse_text s)"
proof -
  obtain s' evs x where r: "parse_text s = (s', evs, x)" by (cases "parse_text s") auto
  show ?thesis unfolding r using parse_text_plain [OF ne r] ok idle
    by (intro paste_quiet) (auto simp: paste_inv_def)
qed

lemma end_capture_paste:
  assumes ok: "paste_inv s" and idle: "\<not> paste_in_progress s" and ev: "\<And>bs. plain_event (fst (final_event bs))"
  shows "paste_step s (end_capture final_event r s)"
proof -
  obtain stop active rest where r: "r = (stop, active, rest)" by (cases r)
  have "active_protocol s \<noteq> Some PROTOCOL_PASTE_BEGIN" using ok idle by (auto simp: paste_inv_def)
  moreover obtain e st where "final_event active = (e, st)" "plain_event e" using ev [of active] by (cases "final_event active") auto
  ultimately show ?thesis unfolding r end_capture_def
    by (cases stop) (auto intro!: paste_quiet [OF ok idle] simp: dec_ops same_config_def idle active_protocol_def split: option.splits)
qed

lemma capture_paste_quiet:
  assumes "paste_inv s" and "\<not> paste_in_progress s"
  shows "paste_step s (capture_ss3 s)" "paste_step s (capture_csi s)" "paste_step s (capture_osc s)" "paste_step s (capture_st_string s)"
  unfolding capture_ss3_def capture_csi_def capture_osc_def capture_st_string_def Let_def
  by (rule end_capture_paste [OF assms]; simp add: parse_csi_ok parse_sgr_mouse_ok parse_osc52_ok parse_osc_def)+

lemma parse_alt_key_paste:
  assumes ok: "paste_inv s" and idle: "\<not> paste_in_progress s"
  shows "paste_step s (parse_alt_key s)"
proof -
  have "active_protocol s \<noteq> Some PROTOCOL_PASTE_BEGIN" using ok idle by (auto simp: paste_inv_def)
  then show ?thesis unfolding parse_alt_key_def Let_def
    by (auto intro!: paste_quiet [OF ok idle] simp: dec_ops same_config_def idle split: option.split utf8_result.split)
      (simp_all add: active_protocol_def)
qed

section \<open>Paste mode\<close>

lemma paste_shed_prefix: "paste_shed fin cs = (shed, c) \<Longrightarrow> is_prefix c fin"
  by (induction cs arbitrary: shed) (auto split: if_splits prod.splits simp: apfst_def map_prod_def)

lemma paste_scan_prefix:
  "paste_scan fin c bs data = (d, c', rest, found) \<Longrightarrow> is_prefix c fin \<Longrightarrow> c \<noteq> fin \<Longrightarrow>
    is_prefix c' fin \<and> (found \<longleftrightarrow> c' = fin)"
  by (induction fin c bs data rule: paste_scan.induct) (auto split: prod.splits if_splits dest: paste_shed_prefix)

lemma append_paste_run:
  assumes "append_paste_data d s = (s', evs, st)" and "paste_in_progress s" and "paste_bytes s \<le> maximum_paste_bytes (limits s)"
  shows "paste_run (maximum_paste_bytes (limits s)) (open_state s) evs = Some (open_state s')"
    and "paste_bytes s' \<le> maximum_paste_bytes (limits s)"
  using assms by (auto simp: append_paste_data_def open_state_def paste_event_of_def split: if_splits)

lemma capture_paste_step:
  assumes ok: "paste_inv s" and on: "paste_in_progress s"
  shows "paste_step s (capture_paste s)"
proof -
  have conf: "paste_configured s" and proto: "active_protocol s = Some PROTOCOL_PASTE_BEGIN"
    and bytes: "paste_bytes s \<le> maximum_paste_bytes (limits s)"
    and cand: "is_prefix (paste_candidate s) (paste_end_sequence s)" "paste_candidate s \<noteq> paste_end_sequence s"
    using ok on by (auto simp: paste_inv_def)
  obtain d c' rest found where scan: "paste_scan (paste_end_sequence s) (paste_candidate s) (dec_pending s) [] = (d, c', rest, found)"
    by (metis prod_cases4)
  note c' = paste_scan_prefix [OF scan cand]
  define u where "u = s\<lparr>dec_pending := rest, paste_candidate := (if found then [] else c')\<rparr>"
  obtain s' evs st where a: "append_paste_data d u = (s', evs, st)" by (metis prod_cases3)
  note f = append_paste_data_frame [OF a]
  have same: "same_config s s'" using f(7) by (simp add: u_def same_config_def)
  have u: "open_state u = open_state s" "paste_in_progress u" "paste_bytes u \<le> maximum_paste_bytes (limits u)" "limits u = limits s"
    using on bytes by (simp_all add: u_def open_state_def)
  note run = append_paste_run [OF a u(2,3), unfolded u(1,4)]
  have on': "paste_in_progress s'" using f(8) u(2) by simp
  have proto': "active_protocol s' = Some PROTOCOL_PASTE_BEGIN"
    using proto f(3) same by (simp add: u_def active_protocol_def same_config_def split: option.splits)
  show ?thesis
  proof (cases found)
    case True
    then have cap: "capture_paste s = (end_paste_mode s', evs @ (if paste_discarding s' then [] else [paste_event_of PASTE_END []]), st, CONSUMED)"
      using conf scan a by (simp add: capture_paste_def u_def paste_configured_def)
    have "paste_inv (end_paste_mode s')" "same_config s (end_paste_mode s')" "open_state (end_paste_mode s') = None"
      using conf same f(6) True
      by (auto simp: paste_inv_def paste_configured_def same_config_def end_paste_mode_def reset_active_action_def
          active_protocol_def open_state_def u_def)
    then show ?thesis unfolding cap paste_step_def using run(1) on'
      by (auto simp: paste_run_append paste_event_of_def open_state_def split: if_splits)
  next
    case False
    then have cap: "capture_paste s = (s', evs, st, if d = [] then NEED_MORE else CONSUMED)"
      using conf scan a by (simp add: capture_paste_def u_def paste_configured_def)
    have "paste_inv s'" using conf same f(6) on' proto' c' False run(2)
      by (simp add: paste_inv_def paste_configured_def same_config_def u_def)
    then show ?thesis unfolding cap paste_step_def using run(1) same by simp
  qed
qed

section \<open>The loop and the public operations\<close>

lemma execute_action_paste:
  assumes ok: "paste_inv s" and t: "input_trie_ok (input_trie s)" and idle: "active_node s = None" and ne: "dec_pending s \<noteq> []"
    and node: "find_node (input_trie s) (take k (dec_pending s)) = Some n" "sequence_end (input_trie s ! n)"
  shows "paste_step s (execute_action n k s)"
proof -
  have off: "\<not> paste_in_progress s" "active_protocol s = None" using ok idle by (simp_all add: paste_inv_def active_protocol_def)
  note quiet = paste_quiet [OF ok off(1)]
  have found: "trie_find (input_trie s) (take k (dec_pending s)) = Some (node_value (input_trie s ! n))"
    using node by (simp add: trie_find_def)
  note conf = input_trie_okD(3) [OF t found]
  show ?thesis
  proof (cases "node_value (input_trie s ! n)")
    case No_Action
    then show ?thesis using conf by simp
  next
    case (Emit_Input_Event e)
    then have "plain_event e" using conf by (cases e) auto
    then show ?thesis using Emit_Input_Event off
      by (auto intro!: quiet simp: execute_action_def dec_ops same_config_def)
  next
    case (Enter_Input_Protocol p)
    have run: "paste_step s (parse_text (reset_trie_cursor s))"
      using parse_text_paste [of "reset_trie_cursor s"] ok off ne
      by (auto simp: paste_step_def reset_trie_cursor_def paste_inv_def paste_configured_def same_config_def open_state_def)
    consider "p = PROTOCOL_TEXT" | "p = PROTOCOL_PASTE_BEGIN" | "p \<noteq> PROTOCOL_TEXT" "p \<noteq> PROTOCOL_PASTE_BEGIN" by blast
    then show ?thesis
    proof cases
      case 1
      then show ?thesis using Enter_Input_Protocol run by (simp add: execute_action_def)
    next
      case 2
      then show ?thesis using Enter_Input_Protocol ok off(1)
        by (auto simp: execute_action_def Let_def paste_step_def paste_inv_def paste_configured_def dec_ops same_config_def
            open_state_def active_protocol_def paste_event_of_def)
    next
      case 3
      then show ?thesis using Enter_Input_Protocol off idle
        by (auto intro!: quiet simp: execute_action_def Let_def dec_ops same_config_def active_protocol_def)
    qed
  qed
qed

lemma paste_step_cursor: "paste_step (s\<lparr>cursor := c\<rparr>) r = paste_step s r"
  by (simp add: paste_step_def same_config_def open_state_def)

lemma paste_inv_cursor [simp]: "paste_inv (s\<lparr>cursor := c\<rparr>) = paste_inv s"
  by (simp add: paste_inv_def paste_configured_def)

lemma paste_step_refl: "paste_inv s \<Longrightarrow> paste_step s (s, [], x)"
  by (simp add: paste_step_def same_config_def)

lemma advance_trie_paste:
  assumes ok: "dec_ok s" and p: "paste_inv s" and idle: "active_node s = None" and ne: "dec_pending s \<noteq> []"
  shows "paste_step s (advance_trie s)"
proof -
  have t: "input_trie_ok (input_trie s)" and m: "match_ok (input_trie s) (dec_pending s) (cursor s)"
    and live: "cursor_live (input_trie s) (cursor s)" using ok by (auto simp: dec_ok_def)
  have off: "\<not> paste_in_progress s" using p idle by (simp add: paste_inv_def active_protocol_def)
  obtain c out where loop: "trie_loop (input_trie s) (cursor s) (drop (scanned (cursor s)) (dec_pending s)) = (c, out)" by fastforce
  have c: "outcome_ok (input_trie s) (dec_pending s) c out"
    using trie_loop_ok [OF input_trie_okD(1) [OF t] m live refl loop] by auto
  show ?thesis
  proof (cases out)
    case Trie_More
    then show ?thesis using loop paste_step_refl [of "s\<lparr>cursor := c\<rparr>"] p by (simp add: advance_trie_def paste_step_cursor)
  next
    case (Trie_Execute n k)
    then have "paste_step (s\<lparr>cursor := c\<rparr>) (execute_action n k (s\<lparr>cursor := c\<rparr>))"
      using c by (intro execute_action_paste) (simp_all add: idle ne t p)
    then show ?thesis using loop Trie_Execute by (simp add: advance_trie_def paste_step_cursor)
  next
    case (Trie_Unknown n)
    then show ?thesis using loop off idle
      by (auto intro!: paste_quiet [OF p off] simp: advance_trie_def dec_ops same_config_def active_protocol_def)
  qed
qed

lemma reset_active_quiet:
  assumes "paste_inv s" and "\<not> paste_in_progress s" and "list_all plain_event evs"
  shows "paste_step s (reset_active_action s, evs, x)"
  using assms by (intro paste_quiet) (simp_all add: dec_ops same_config_def active_protocol_def)

lemma advance_paste:
  assumes ok: "dec_ok s" and p: "paste_inv s" and ne: "dec_pending s \<noteq> []"
  shows "paste_step s (advance s)"
proof (cases "active_node s = None")
  case True
  then show ?thesis using advance_trie_paste [OF ok p True ne] by (simp add: advance_def)
next
  case act: False
  have eq: "advance s = advance_active_action s" unfolding advance_def if_not_P [OF act] ..
  show ?thesis
  proof (cases "paste_in_progress s")
    case True
    then have "active_protocol s = Some PROTOCOL_PASTE_BEGIN" using p by (simp add: paste_inv_def)
    then show ?thesis using capture_paste_step [OF p True] unfolding eq by (simp add: advance_active_action_def)
  next
    case False
    then have "active_protocol s \<noteq> Some PROTOCOL_PASTE_BEGIN" using p by (simp add: paste_inv_def)
    then show ?thesis
      using capture_paste_quiet [OF p False] parse_alt_key_paste [OF p False] parse_text_paste [OF p False ne]
        reset_active_quiet [OF p False, of "[]" "(TERM_INVALID_ARGUMENT, CONSUMED)"]
      unfolding eq advance_active_action_def by (simp split: option.split input_protocol.split)
  qed
qed

lemma process_paste:
  assumes "process s = Some r"
  shows "dec_ok s \<longrightarrow> paste_inv s \<longrightarrow> paste_step s r"
proof (rule process.raw_induct [OF _ assms], intro impI)
  fix process' s r
  assume IH: "\<And>s r. process' s = Some r \<Longrightarrow> dec_ok s \<longrightarrow> paste_inv s \<longrightarrow> paste_step s r"
    and body: "(if dec_pending s = [] then Some (s, [], TERM_OK)
      else case advance s of (s', evs, st, result) \<Rightarrow>
        if result = NEED_MORE then Some (s', evs, st)
        else Option.bind (process' s') (\<lambda>(s'', evs', st'). Some (s'', evs @ evs', first_error st st'))) = Some r"
    and ok: "dec_ok s" and p: "paste_inv s"
  show "paste_step s r"
  proof (cases "dec_pending s = []")
    case True
    then show ?thesis using body p by (auto simp: paste_step_refl)
  next
    case False
    obtain s' evs st result where adv: "advance s = (s', evs, st, result)" by (metis prod_cases4)
    have step: "paste_step s (s', evs, st)" using advance_paste [OF ok p False] unfolding adv paste_step_def by simp
    then have p': "paste_inv s'" by (simp add: paste_step_def)
    have ok': "dec_ok s'" using advance_ok [OF ok False] unfolding adv by (simp add: step_ok_def result_ok_def)
    show ?thesis
    proof (cases result)
      case NEED_MORE
      then show ?thesis using body False adv step by auto
    next
      case CONSUMED
      then obtain s'' evs' st' where r: "process' s' = Some (s'', evs', st')" "r = (s'', evs @ evs', first_error st st')"
        using body False adv by (auto simp: bind_eq_Some_conv)
      then have "paste_step s' (s'', evs', st')" using IH ok' p' by blast
      then show ?thesis using paste_step_trans [OF step] r(2) by simp
    qed
  qed
qed

definition run_good :: "decoder \<Rightarrow> run_result option \<Rightarrow> bool" where
  "run_good s r \<longleftrightarrow> run_ok s r \<and> (\<forall>v. r = Some v \<longrightarrow> paste_step s v)"

lemma run_goodI: "run_ok s (Some v) \<Longrightarrow> paste_step s v \<Longrightarrow> run_good s (Some v)"
  by (simp add: run_good_def)

lemma run_goodE:
  assumes "run_good s r"
  obtains s' evs st where "r = Some (s', evs, st)" "result_ok s (s', evs, st)" "paste_step s (s', evs, st)" "dec_ok s'" "paste_inv s'"
  using assms unfolding run_good_def run_ok_def result_ok_def paste_step_def by fastforce

lemma run_good_process: "dec_ok s \<Longrightarrow> paste_inv s \<Longrightarrow> run_good s (process s)"
  using run_ok_process process_paste by (simp add: run_good_def)

lemma run_good_after:
  assumes "result_ok s (s', evs, st)" and "paste_step s (s', evs, st)" and "run_good s' r"
  shows "run_good s (after_events evs r)"
proof -
  obtain s'' evs' st' where r: "r = Some (s'', evs', st')" "paste_step s' (s'', evs', st')" using assms(3) by (rule run_goodE)
  have "run_ok s (after_events evs r)" using run_ok_after [OF assms(1)] assms(3) by (simp add: run_good_def)
  then show ?thesis using paste_step_trans [OF assms(2) r(2)] r(1) by (simp add: run_good_def after_events_def)
qed

lemma run_good_and_then:
  assumes "run_good s r" and "\<And>s'. dec_ok s' \<Longrightarrow> paste_inv s' \<Longrightarrow> run_good s' (f s')"
  shows "run_good s (and_then r f)"
proof -
  obtain s' evs st where r: "r = Some (s', evs, st)" "result_ok s (s', evs, st)" "paste_step s (s', evs, st)" "dec_ok s'" "paste_inv s'"
    using assms(1) by (rule run_goodE)
  then show ?thesis using run_good_after [OF r(2,3) assms(2) [OF r(4,5)]] by (simp add: and_then_def run_good_def)
qed

lemma run_good_refl: "dec_ok s \<Longrightarrow> paste_inv s \<Longrightarrow> run_good s (Some (s, [], st))"
  by (simp add: run_goodI result_ok_refl paste_step_refl)

text \<open>The escape node is no paste.\<close>

lemma escape_no_paste:
  assumes t: "input_trie_ok (input_trie s)" and conf: "paste_configured s" and c: "find_child (input_trie s) kRootNode kEscape = Some c"
  shows "action_protocol (node_value (input_trie s ! c)) \<noteq> Some PROTOCOL_PASTE_BEGIN"
proof -
  have node: "find_node (input_trie s) [kEscape] = Some c" using c by (simp add: find_node_def)
  have idx: "c < length (input_trie s)" by (rule find_node_bound [OF input_trie_okD(1) [OF t] node])
  show ?thesis
  proof (cases "sequence_end (input_trie s ! c)")
    case True
    then show ?thesis using conf node by (cases "node_value (input_trie s ! c)") (auto simp: paste_configured_def trie_find_def)
  next
    case False
    then show ?thesis using input_trie_okD(2) [OF t] idx by (simp add: blank_ok_def)
  qed
qed

lemma resolve_active_paste:
  assumes ok: "dec_ok s" and act: "active_node s \<noteq> None" and p: "paste_inv s" and off: "\<not> paste_in_progress s"
  shows "run_good s (resolve_timed_out_active_action s)"
proof -
  have run: "run_ok s (resolve_timed_out_active_action s)" by (rule resolve_active_ok [OF ok act])
  have t: "input_trie_ok (input_trie s)" and conf: "paste_configured s" using ok p by (auto simp: dec_ok_def paste_inv_def)
  note quiet = paste_quiet [OF p off]
  define u where "u = reset_trie_cursor (reset_active_action s)"
  define v where "v = reset_trie_cursor ((reset_active_action s)\<lparr>dec_pending := tl (active_sequence s) @ dec_pending s\<rparr>)"
  have dec: "dec_ok u" "dec_ok v" using t by (simp_all add: u_def v_def dec_ok_def dec_ops)
  have u: "paste_step s (u, [Key_Event k], x)" "paste_step s (v, [Key_Event k], x)" for k :: key_event and x :: term_status
    using off by (auto intro!: quiet simp: u_def v_def dec_ops same_config_def active_protocol_def)
  have w: "paste_step s (v\<lparr>active_node := Some c, active_sequence := [kEscape]\<rparr>, [], x)"
    if "find_child (input_trie s) kRootNode kEscape = Some c" for c and x :: term_status
    using off escape_no_paste [OF t conf that] by (auto intro!: quiet simp: v_def dec_ops same_config_def active_protocol_def)
  have wok: "dec_ok (v\<lparr>active_node := Some c, active_sequence := [kEscape]\<rparr>)"
    if "find_child (input_trie s) kRootNode kEscape = Some c" for c
    using t find_node_bound [OF input_trie_okD(1) [OF t], of "[kEscape]" c] that
    by (simp add: v_def dec_ok_def dec_ops find_node_def)
  have pr: "paste_step s r" if eq: "after_events evs (process s') = Some r" and step: "paste_step s (s', evs, TERM_OK)" and d: "dec_ok s'" for s' evs r
  proof -
    have "paste_inv s'" using step by (simp add: paste_step_def)
    then obtain s'' evs' st where q: "process s' = Some (s'', evs', st)" "paste_step s' (s'', evs', st)"
      using run_good_process [OF d] by (metis run_goodE)
    then show ?thesis using eq paste_step_trans [OF step q(2)] by (auto simp: after_events_def)
  qed
  have "paste_step s r" if "resolve_timed_out_active_action s = Some r" for r
  proof (cases "active_protocol s")
    case None
    then show ?thesis using that reset_active_quiet [OF p off, of "[]"] by (auto simp: resolve_timed_out_active_action_def)
  next
    case (Some q)
    show ?thesis
    proof (cases "active_sequence s = [] \<or> hd (active_sequence s) \<noteq> kEscape")
      case True
      then show ?thesis using that Some off
        by (auto intro!: quiet simp: resolve_timed_out_active_action_def dec_ops same_config_def active_protocol_def)
    next
      case False
      then show ?thesis using that Some off pr [OF _ u(1) dec(1)] pr [OF _ u(2) dec(2)] pr [OF _ w wok]
        by (auto simp: resolve_timed_out_active_action_def Let_def u_def [symmetric] v_def [symmetric] after_events_Nil
            split: option.splits if_splits)
    qed
  qed
  then show ?thesis using run by (simp add: run_good_def)
qed

lemma resolve_if_active_paste:
  assumes ok: "dec_ok s" and p: "paste_inv s"
  shows "run_good s (resolve_if_active s)"
proof (cases "active_node s = None")
  case True
  then show ?thesis using run_good_refl [OF ok p] by (simp add: resolve_if_active_def)
next
  case act: False
  show ?thesis
  proof (cases "paste_in_progress s")
    case True
    then have "active_protocol s = Some PROTOCOL_PASTE_BEGIN" using p by (simp add: paste_inv_def)
    then show ?thesis using True act run_good_refl [OF ok p] by (simp add: resolve_if_active_def resolve_timed_out_active_action_def)
  next
    case False
    then show ?thesis using act resolve_active_paste [OF ok act p False] by (simp add: resolve_if_active_def)
  qed
qed

lemma timeout_status_paste:
  assumes ok: "dec_ok s" and p: "paste_inv s" and off: "\<not> paste_in_progress s" and ne: "active_node s \<noteq> None \<or> dec_pending s \<noteq> []"
  shows "run_good s (timeout_status s)"
proof (cases "active_node s = None")
  case False
  then show ?thesis using resolve_active_paste [OF ok False p off] by (simp add: timeout_status_def)
next
  case idle: True
  show ?thesis
  proof (cases "last_match (cursor s)")
    case None
    have "paste_step s v" if "timeout_status s = Some v" for v
      using that None idle off by (auto intro!: paste_quiet [OF p off] simp: timeout_status_def dec_ops same_config_def active_protocol_def)
    then show ?thesis using timeout_status_ok [OF ok ne] by (simp add: run_good_def)
  next
    case (Some n)
    obtain s1 evs st res where ex: "execute_action n (last_match_size (cursor s)) s = (s1, evs, st, res)" by (metis prod_cases4)
    have t: "input_trie_ok (input_trie s)" and pend: "dec_pending s \<noteq> []" using ok ne idle by (auto simp: dec_ok_def)
    have m: "find_node (input_trie s) (take (last_match_size (cursor s)) (dec_pending s)) = Some n" "sequence_end (input_trie s ! n)"
      using match_okD(4) [of "input_trie s" "dec_pending s" "cursor s" n] ok Some by (auto simp: dec_ok_def)
    have "run_ok s (Some (s1, evs, st))"
      using last_match_execute [OF ok idle pend Some] unfolding ex by (simp add: step_ok_def result_ok_def)
    moreover have "paste_step s (s1, evs, st)"
      using execute_action_paste [OF p t idle pend m] unfolding ex by (simp add: paste_step_def)
    ultimately have first: "run_good s (Some (s1, evs, st))" by (rule run_goodI)
    have "run_good s (and_then (and_then (and_then (Some (s1, evs, st))
        (\<lambda>s2. if last_match_size (cursor s) = length (dec_pending s) then resolve_if_active s2 else Some (s2, [], TERM_OK)))
        process) resolve_if_active)"
      by (intro run_good_and_then first) (simp_all add: resolve_if_active_paste run_good_process run_good_refl)
    then show ?thesis using idle Some ex by (simp add: timeout_status_def Let_def)
  qed
qed

lemma paste_step_timeout [simp]:
  "paste_step s (update_pending_timeout b s', evs, x) = paste_step s (s', evs, x)"
  "paste_step s (s'\<lparr>pending_timeout := g\<rparr>, evs, x) = paste_step s (s', evs, x)"
  "paste_step (s\<lparr>pending_timeout := g\<rparr>) r = paste_step s r"
  "paste_inv (s\<lparr>pending_timeout := g\<rparr>) = paste_inv s"
  by (simp_all add: update_pending_timeout_def Let_def paste_step_def paste_inv_def paste_configured_def same_config_def
      open_state_def active_protocol_def split: option.split)

lemma handle_timeout_paste:
  assumes ok: "dec_ok s" and p: "paste_inv s"
  shows "run_good s (handle_timeout g s)"
proof -
  have "paste_step s v" if "handle_timeout g s = Some v" for v
  proof (cases "pending_timeout s = None \<or> g = 0 \<or> pending_timeout s \<noteq> Some g \<or> paste_in_progress s \<or> active_node s = None \<and> dec_pending s = []")
    case True
    then have "handle_timeout g s = Some (s, [], TERM_OK) \<or> handle_timeout g s = Some (s\<lparr>pending_timeout := None\<rparr>, [], TERM_OK)"
      by (auto simp: handle_timeout_def Let_def)
    then show ?thesis using that paste_step_refl [OF p, of TERM_OK] by auto
  next
    case False
    then have "run_good (s\<lparr>pending_timeout := None\<rparr>) (timeout_status (s\<lparr>pending_timeout := None\<rparr>))"
      using timeout_status_paste [of "s\<lparr>pending_timeout := None\<rparr>"] ok p by auto
    then show ?thesis using that False by (auto simp: handle_timeout_def Let_def run_good_def)
  qed
  then show ?thesis using handle_timeout_ok [OF ok] by (simp add: run_good_def)
qed

lemma open_state_pending [simp]: "open_state (s\<lparr>dec_pending := bs\<rparr>) = open_state s"
  by (simp add: open_state_def)

lemma feed_paste:
  assumes ok: "dec_ok s" and p: "paste_inv s" and r: "feed bs s = Some v"
  shows "paste_step s v"
proof (cases "length bs > maximum_pending_bytes (limits s) - min (pending_bytes s) (maximum_pending_bytes (limits s))")
  case True
  then show ?thesis using r p by (auto simp: feed_def paste_step_def same_config_def)
next
  case False
  let ?u = "s\<lparr>dec_pending := dec_pending s @ bs\<rparr>"
  have u: "dec_ok ?u" "paste_inv ?u" using ok p match_ok_append
    by (auto simp: dec_ok_def paste_inv_def paste_configured_def split: option.splits)
  obtain s' evs st where q: "process ?u = Some (s', evs, st)" "paste_step ?u (s', evs, st)"
    using run_good_process [OF u] by (rule run_goodE)
  have "paste_step s (s', evs, st)" using q(2) by (simp add: paste_step_def same_config_def)
  then show ?thesis using r False q(1) by (auto simp: feed_def Let_def)
qed

lemma finish_paste:
  assumes ok: "dec_ok s" and p: "paste_inv s"
  shows "paste_step s (finish s)"
proof -
  consider "paste_in_progress s" | "\<not> paste_in_progress s" "active_node s \<noteq> None"
    | "\<not> paste_in_progress s" "active_node s = None" "dec_pending s \<noteq> []"
    | "\<not> paste_in_progress s" "active_node s = None" "dec_pending s = []" by blast
  then show ?thesis
  proof cases
    case 1
    define u where "u = s\<lparr>dec_pending := [], paste_candidate := []\<rparr>"
    obtain s1 evs1 st1 where a: "append_paste_data (paste_candidate s @ dec_pending s) u = (s1, evs1, st1)" by (metis prod_cases3)
    have u: "open_state u = open_state s" "paste_in_progress u" "paste_bytes u \<le> maximum_paste_bytes (limits u)" "limits u = limits s"
      using 1 p by (simp_all add: u_def open_state_def paste_inv_def)
    note run = append_paste_run [OF a u(2,3), unfolded u(1,4)] and f = append_paste_data_frame [OF a]
    have conf: "paste_configured s" using p by (simp add: paste_inv_def)
    have "finish s = ((reset_trie_cursor (end_paste_mode s1))\<lparr>pending_timeout := None\<rparr>,
        evs1 @ (if paste_discarding s1 then [] else [paste_event_of PASTE_CANCEL []]), st1)"
      using 1 a by (simp add: finish_def u_def)
    then show ?thesis using run(1) f(6,7,8) conf 1
      by (auto simp: paste_step_def paste_run_append paste_event_of_def end_paste_mode_def dec_ops paste_inv_def
          paste_configured_def same_config_def open_state_def active_protocol_def u_def)
  next
    case 2
    then show ?thesis
      by (auto intro!: paste_quiet [OF p 2(1)] simp: finish_def dec_ops same_config_def active_protocol_def)
  next
    case 3
    obtain s1 evs1 st1 where q: "finish_pending s = (s1, evs1, st1)" by (metis prod_cases3)
    note f = finish_pending_ok [OF ok 3(2,3) q]
    show ?thesis using 3 q f
      by (auto intro!: paste_quiet [OF p 3(1)] simp: finish_def dec_ops same_config_def active_protocol_def result_ok_def)
  next
    case 4
    then show ?thesis
      by (auto intro!: paste_quiet [OF p 4(1)] simp: finish_def dec_ops same_config_def active_protocol_def)
  qed
qed

section \<open>The first terminator\<close>

lemma is_prefix_eq: "is_prefix xs ys = prefix xs ys"
  by (induction xs ys rule: is_prefix.induct) auto

text \<open>The candidate is the longest end of the received bytes that can still become the terminator.\<close>

definition longest_border :: "bytes \<Rightarrow> bytes \<Rightarrow> bytes \<Rightarrow> bool" where
  "longest_border fin received c \<longleftrightarrow> suffix c received \<and> prefix c fin \<and>
     (\<forall>x. suffix x received \<longrightarrow> prefix x fin \<longrightarrow> length x \<le> length c)"

lemma longest_border_unique: "longest_border fin received c \<Longrightarrow> c = fin \<longleftrightarrow> suffix fin received"
  unfolding longest_border_def by (metis prefix_length_prefix prefix_order.order_refl prefix_order.antisym)

lemma paste_shed_longest:
  "paste_shed fin cs = (shed, c) \<Longrightarrow> suffix x cs \<Longrightarrow> prefix x fin \<Longrightarrow> length x \<le> length c"
proof (induction cs arbitrary: shed)
  case (Cons b cs)
  show ?case
  proof (cases "is_prefix (b # cs) fin")
    case True
    then show ?thesis using Cons.prems suffix_length_le by fastforce
  next
    case False
    then obtain shed' where k: "paste_shed fin cs = (shed', c)" using Cons.prems(1) by (auto simp: apfst_def map_prod_def split: prod.splits)
    have "suffix x cs" using Cons.prems(2,3) False by (auto simp: suffix_Cons is_prefix_eq)
    then show ?thesis using Cons.IH [OF k] Cons.prems(3) by simp
  qed
qed simp

lemma longest_border_step:
  assumes P: "longest_border fin received c" and shed: "paste_shed fin (c @ [b]) = (shed, c')"
  shows "longest_border fin (received @ [b]) c'"
proof -
  obtain p where p: "received = p @ c" using P by (auto simp: longest_border_def suffix_def)
  have suf: "suffix c' (received @ [b])"
    using paste_shed_append [OF shed] p by (metis append.assoc suffixI)
  have "length x \<le> length c'" if "suffix x (received @ [b])" "prefix x fin" for x
  proof (cases x rule: rev_cases)
    case (snoc y z)
    then have y: "z = b" "suffix y received" using that(1) by simp_all
    have "prefix y fin" using that(2) snoc by (metis append_prefixD)
    then have "length y \<le> length c" using P y(2) by (simp add: longest_border_def)
    then have "suffix y c" using y(2) P by (meson longest_border_def suffix_length_suffix)
    then have "suffix x (c @ [b])" using snoc y(1) by simp
    then show ?thesis using paste_shed_longest [OF shed] that(2) by blast
  qed simp
  then show ?thesis using suf paste_shed_prefix [OF shed] by (simp add: longest_border_def is_prefix_eq)
qed

lemma paste_scan_first:
  "paste_scan fin c bs data = (d, c', rest, found) \<Longrightarrow> longest_border fin received c \<Longrightarrow> c \<noteq> fin \<Longrightarrow>
    \<exists>used. bs = used @ rest \<and> longest_border fin (received @ used) c' \<and> (found \<longleftrightarrow> suffix fin (received @ used)) \<and>
      (\<forall>k < length used. \<not> suffix fin (received @ take k used))"
proof (induction fin c bs data arbitrary: received rule: paste_scan.induct)
  case (1 fin c data)
  then show ?case using longest_border_unique by (intro exI [of _ "[]"]) auto
next
  case (2 fin c b bs data)
  obtain shed k where k: "paste_shed fin (c @ [b]) = (shed, k)" by fastforce
  note step = longest_border_step [OF "2.prems"(2) k]
  have here: "\<not> suffix fin received" using longest_border_unique [OF "2.prems"(2)] "2.prems"(3) by simp
  show ?case
  proof (cases "k = fin")
    case True
    then show ?thesis using "2.prems"(1) k step here longest_border_unique [OF step] by (intro exI [of _ "[b]"]) auto
  next
    case False
    obtain used where u: "bs = used @ rest" "longest_border fin ((received @ [b]) @ used) c'"
      "found \<longleftrightarrow> suffix fin ((received @ [b]) @ used)" "\<forall>k < length used. \<not> suffix fin ((received @ [b]) @ take k used)"
      using "2.IH" [OF k [symmetric] False _ step False] "2.prems"(1) k False by auto
    have "\<not> suffix fin (received @ take j (b # used))" if "j < length (b # used)" for j
      using u(4) here that by (cases j) auto
    then show ?thesis using u by (intro exI [of _ "b # used"]) auto
  qed
qed

section \<open>A whole paste in chunks\<close>

text \<open>A decoder between two chunks of an open paste that is not being discarded.\<close>

definition pasting :: "decoder \<Rightarrow> bytes \<Rightarrow> nat \<Rightarrow> bool" where
  "pasting s c n \<longleftrightarrow> active_protocol s = Some PROTOCOL_PASTE_BEGIN \<and> paste_in_progress s \<and> \<not> paste_discarding s \<and>
     dec_pending s = [] \<and> active_sequence s = [] \<and> paste_candidate s = c \<and> paste_bytes s = n \<and> paste_end_sequence s \<noteq> []"

definition data_events :: "bytes \<Rightarrow> event list" where
  "data_events d = (if d = [] then [] else [paste_event_of PASTE_DATA d])"

lemma process_Nil: "dec_pending s = [] \<Longrightarrow> process s = Some (s, [], TERM_OK)"
  by (simp add: process.simps [of s])

lemma pasting_advance:
  assumes s: "pasting s c n" and scan: "paste_scan (paste_end_sequence s) c bs [] = (d, c', [], found)" and ne: "bs \<noteq> []"
    and fits: "n + length d \<le> maximum_paste_bytes (limits s)"
  shows "\<exists>s'. process (s\<lparr>dec_pending := bs\<rparr>) = Some (s', data_events d @ (if found then [paste_event_of PASTE_END []] else []), TERM_OK) \<and>
    same_config s s' \<and> (if found then \<not> paste_in_progress s' \<and> dec_pending s' = [] else pasting s' c' (n + length d))"
proof -
  let ?u = "s\<lparr>dec_pending := bs\<rparr>"
  define v where "v = s\<lparr>dec_pending := [], paste_candidate := (if found then [] else c'), paste_bytes := n + length d\<rparr>"
  have act: "active_node ?u \<noteq> None" "active_protocol ?u = Some PROTOCOL_PASTE_BEGIN"
    using s by (auto simp: pasting_def active_protocol_def split: option.splits)
  have adv: "advance ?u = capture_paste ?u"
    unfolding advance_def if_not_P [OF act(1)] by (simp only: advance_active_action_def act(2) option.case input_protocol.case)
  have data: "append_paste_data d (s\<lparr>dec_pending := [], paste_candidate := (if found then [] else c')\<rparr>) = (v, data_events d, TERM_OK)"
    using s fits by (simp add: append_paste_data_def v_def data_events_def pasting_def)
  have v: "same_config s v" "\<not> paste_discarding v" "dec_pending v = []" "\<not> found \<Longrightarrow> pasting v c' (n + length d)"
    using s by (simp_all add: v_def same_config_def pasting_def)
  have cap: "capture_paste ?u = (if found then (end_paste_mode v, data_events d @ [paste_event_of PASTE_END []], TERM_OK, CONSUMED)
      else (v, data_events d, TERM_OK, if d = [] then NEED_MORE else CONSUMED))"
    using s scan data v(2) by (cases found) (auto simp: capture_paste_def pasting_def)
  show ?thesis
  proof (cases found)
    case True
    have e: "dec_pending (end_paste_mode v) = []" "\<not> paste_in_progress (end_paste_mode v)" "same_config s (end_paste_mode v)"
      using v by (simp_all add: end_paste_mode_def reset_active_action_def same_config_def)
    then show ?thesis using True ne adv cap process_Nil [OF e(1)] by (simp add: process.simps [of ?u] first_error_def)
  next
    case False
    then show ?thesis using ne adv cap process_Nil [OF v(3)] v(1,4) by (simp add: process.simps [of ?u] first_error_def data_events_def)
  qed
qed

lemma pasting_feed:
  assumes s: "pasting s c n" and scan: "paste_scan (paste_end_sequence s) c bs [] = (d, c', [], found)"
    and fits: "n + length d \<le> maximum_paste_bytes (limits s)" and room: "length bs + length c \<le> maximum_pending_bytes (limits s)"
    and c: "c \<noteq> paste_end_sequence s"
  shows "\<exists>s'. feed bs s = Some (s', data_events d @ (if found then [paste_event_of PASTE_END []] else []), TERM_OK) \<and>
    same_config s s' \<and> (if found then \<not> paste_in_progress s' \<and> dec_pending s' = [] else pasting s' c' (n + length d))"
proof -
  have ok: "\<not> length bs > maximum_pending_bytes (limits s) - min (pending_bytes s) (maximum_pending_bytes (limits s))"
    using s room by (simp add: pending_bytes_def pasting_def)
  have frame: "same_config s (update_pending_timeout b u) = same_config s u" "pasting (update_pending_timeout b u) x m = pasting u x m"
    "paste_in_progress (update_pending_timeout b u) = paste_in_progress u" "dec_pending (update_pending_timeout b u) = dec_pending u" for b u x m
    by (simp_all add: update_pending_timeout_def Let_def same_config_def pasting_def active_protocol_def split: option.split)
  have append: "dec_pending s @ bs = bs" using s by (simp add: pasting_def)
  obtain s' where "process (s\<lparr>dec_pending := bs\<rparr>) = Some (s', data_events d @ (if found then [paste_event_of PASTE_END []] else []), TERM_OK)"
    "same_config s s'" "if found then \<not> paste_in_progress s' \<and> dec_pending s' = [] else pasting s' c' (n + length d)"
  proof (cases "bs = []")
    case True
    then have "d = []" "c' = c" "\<not> found" using scan by auto
    then show thesis using that [of s] s True process_Nil [of "s\<lparr>dec_pending := []\<rparr>"]
      by (simp add: data_events_def pasting_def same_config_def)
  next
    case False
    then show thesis using pasting_advance [OF s scan False fits] that by blast
  qed
  then show ?thesis using ok append frame by (simp add: feed_def Let_def)
qed

lemma run_empty_chunks:
  "\<forall>cs \<in> set css. cs = [] \<Longrightarrow> dec_pending s = [] \<Longrightarrow>
    \<exists>s'. decoder_run (map Feed css) s = Some (s', []) \<and> paste_in_progress s' = paste_in_progress s"
proof (induction css arbitrary: s)
  case (Cons cs css)
  have p: "dec_pending (update_pending_timeout False s) = []" "paste_in_progress (update_pending_timeout False s) = paste_in_progress s"
    using Cons.prems(2) by (simp_all add: update_pending_timeout_def Let_def)
  have same: "s\<lparr>dec_pending := []\<rparr> = s" using Cons.prems(2) by (cases s) simp
  have "feed [] s = Some (update_pending_timeout False s, [], TERM_OK)"
    using process_Nil [OF Cons.prems(2)] Cons.prems(2) by (simp add: feed_def Let_def same)
  then show ?case using Cons.IH [OF _ p(1)] Cons.prems(1) p(2) by auto
qed simp

definition first_terminator :: "bytes \<Rightarrow> bytes \<Rightarrow> bool" where
  "first_terminator fin body \<longleftrightarrow> (\<forall>k < length (body @ fin). \<not> suffix fin (take k (body @ fin)))"

lemma border_within_body:
  assumes border: "longest_border fin received c" and all: "received @ rest = body @ fin" and split: "received = shown @ c"
  shows "length shown \<le> length body"
proof (rule ccontr)
  assume "\<not> length shown \<le> length body"
  define m where "m = length received - length body"
  have m: "length received = length body + m" using \<open>\<not> length shown \<le> length body\<close> split by (simp add: m_def)
  have "received = body @ take m fin"
    using arg_cong [OF all, of "take (length body + m)"] m by simp
  then have "suffix (take m fin) received" by (simp add: suffixI)
  then have "length (take m fin) \<le> length c" using border take_is_prefix [of m fin] unfolding longest_border_def by blast
  moreover have "length (take m fin) = m" using \<open>received = body @ take m fin\<close> m by (metis add_left_cancel length_append)
  ultimately show False using m split \<open>\<not> length shown \<le> length body\<close> by simp
qed

lemma paste_chunks:
  assumes "pasting s c n" and "longest_border (paste_end_sequence s) received c" and "c \<noteq> paste_end_sequence s"
    and "received = shown @ c" and "received @ concat css = body @ paste_end_sequence s"
    and "first_terminator (paste_end_sequence s) body"
    and "\<forall>cs \<in> set css. length cs + length (paste_end_sequence s) \<le> maximum_pending_bytes (limits s)"
    and "n + length body \<le> maximum_paste_bytes (limits s) + length shown"
  shows "\<exists>s' ds. decoder_run (map Feed css) s = Some (s', map (paste_event_of PASTE_DATA) ds @ [paste_event_of PASTE_END []]) \<and>
    shown @ concat ds = body \<and> \<not> paste_in_progress s'"
  using assms
proof (induction css arbitrary: s c n received shown)
  case Nil
  then show ?case using longest_border_unique [OF Nil.prems(2)] by (simp add: suffixI)
next
  case (Cons cs css)
  let ?fin = "paste_end_sequence s"
  obtain d c' rest found where scan: "paste_scan ?fin c cs [] = (d, c', rest, found)" by (metis prod_cases4)
  obtain used where used: "cs = used @ rest" and border: "longest_border ?fin (received @ used) c'"
    and found: "found \<longleftrightarrow> suffix ?fin (received @ used)" using paste_scan_first [OF scan Cons.prems(2,3)] by blast
  have app: "d @ c' @ rest = c @ cs" using paste_scan_append [OF scan] by simp
  have all: "(received @ used) @ (rest @ concat css) = body @ ?fin" using Cons.prems(5) used by simp
  have prefix_len: "rest @ concat css = []" if found
  proof (rule ccontr)
    assume "rest @ concat css \<noteq> []"
    then have "0 < length (rest @ concat css)" by blast
    then have "length (received @ used) < length (body @ ?fin)" unfolding all [symmetric] length_append [of "received @ used"] by linarith
    moreover have "take (length (received @ used)) (body @ ?fin) = received @ used" unfolding all [symmetric] by simp
    ultimately show False using Cons.prems(6) found that by (metis first_terminator_def)
  qed
  have rest: "rest = []" using prefix_len paste_scan_rest [OF scan] by (cases found) auto
  have shown: "received @ used = (shown @ d) @ c'" using app rest used Cons.prems(4) by simp
  have le: "length (shown @ d) \<le> length body" by (rule border_within_body [OF border all shown])
  have room: "length cs + length c \<le> maximum_pending_bytes (limits s)"
    using Cons.prems(2,7) prefix_length_le [of c ?fin] by (fastforce simp: longest_border_def)
  have fits: "n + length d \<le> maximum_paste_bytes (limits s)" using Cons.prems(8) le by simp
  obtain s1 where s1: "feed cs s = Some (s1, data_events d @ (if found then [paste_event_of PASTE_END []] else []), TERM_OK)"
    "same_config s s1" "if found then \<not> paste_in_progress s1 \<and> dec_pending s1 = [] else pasting s1 c' (n + length d)"
    using pasting_feed [OF Cons.prems(1) scan [unfolded rest] fits room Cons.prems(3)] by blast
  define ds0 where "ds0 = (if d = [] then [] else [d])"
  have ds0: "data_events d = map (paste_event_of PASTE_DATA) ds0" "concat ds0 = d" by (simp_all add: data_events_def ds0_def)
  show ?case
  proof (cases found)
    case True
    then have "\<forall>cs \<in> set css. cs = []" using prefix_len by auto
    moreover have "dec_pending s1 = []" "\<not> paste_in_progress s1" using s1(3) True by auto
    ultimately obtain s' where "decoder_run (map Feed css) s1 = Some (s', [])" "\<not> paste_in_progress s'"
      using run_empty_chunks by blast
    moreover have "c' = ?fin" using longest_border_unique [OF border] found True by simp
    then have "shown @ d = body" using all prefix_len [OF True] unfolding shown by simp
    ultimately show ?thesis using s1(1) True ds0 by (intro exI [of _ s'] exI [of _ ds0]) simp
  next
    case False
    have conf: "paste_end_sequence s1 = ?fin" "limits s1 = limits s" using s1(2) by (simp_all add: same_config_def)
    have c': "c' \<noteq> ?fin" using longest_border_unique [OF border] found False by simp
    obtain s' ds where ih: "decoder_run (map Feed css) s1 = Some (s', map (paste_event_of PASTE_DATA) ds @ [paste_event_of PASTE_END []])"
      "(shown @ d) @ concat ds = body" "\<not> paste_in_progress s'"
      using Cons.IH [of s1 c' "n + length d" "received @ used" "shown @ d"] s1(3) False border c' shown all rest Cons.prems(6-8)
      unfolding conf by auto
    then show ?thesis using s1(1) False ds0 by (intro exI [of _ s'] exI [of _ "ds0 @ ds"]) simp
  qed
qed

text \<open>
  C29: A paste arrives whole. Inside an open paste, let the bytes that follow be a body and then the
  terminator, which occurs there first, cut into chunks at any places, inside the terminator too.
  Feeding the chunks emits data events whose concatenation is the body and then one end event, and
  leaves paste mode; a false start of the terminator inside the body is not lost.
\<close>

theorem paste_content:
  assumes "pasting s [] n" and "concat css = body @ paste_end_sequence s" and "first_terminator (paste_end_sequence s) body"
    and "\<forall>cs \<in> set css. length cs + length (paste_end_sequence s) \<le> maximum_pending_bytes (limits s)"
    and "n + length body \<le> maximum_paste_bytes (limits s)"
  shows "\<exists>s' ds. decoder_run (map Feed css) s = Some (s', map (paste_event_of PASTE_DATA) ds @ [paste_event_of PASTE_END []]) \<and>
    concat ds = body \<and> \<not> paste_in_progress s'"
proof -
  have "longest_border (paste_end_sequence s) [] []" "[] \<noteq> paste_end_sequence s"
    using assms(1) by (auto simp: longest_border_def pasting_def)
  then show ?thesis using paste_chunks [of s "[]" n "[]" "[]" css body] assms by simp
qed

definition sample_pasting :: decoder where
  "sample_pasting = (configured_decoder sample_map sample_limits)\<lparr>active_node := Some 4, paste_in_progress := True\<rparr>"

theorem paste_content_witness:
  "\<exists>s' ds. decoder_run (map Feed [[0x61], [0x1b], [0x1b, 0x21]]) sample_pasting =
      Some (s', map (paste_event_of PASTE_DATA) ds @ [paste_event_of PASTE_END []]) \<and>
    concat ds = [0x61, 0x1b] \<and> \<not> paste_in_progress s'"
proof (rule paste_content)
  have fin: "paste_end_sequence sample_pasting = [0x1b, 0x21]" by code_simp
  have p: "active_protocol sample_pasting = Some PROTOCOL_PASTE_BEGIN \<and> paste_in_progress sample_pasting \<and>
      \<not> paste_discarding sample_pasting \<and> dec_pending sample_pasting = [] \<and> active_sequence sample_pasting = [] \<and>
      paste_candidate sample_pasting = [] \<and> paste_bytes sample_pasting = 0"
    by code_simp
  show "pasting sample_pasting [] 0" using p fin by (simp add: pasting_def)
  show "concat [[0x61], [0x1b], [0x1b, 0x21]] = [0x61, 0x1b] @ paste_end_sequence sample_pasting" by (simp add: fin)
  have "\<forall>k \<in> set [0..<4]. \<not> suffix [0x1b, 0x21] (take k [0x61, 0x1b, 0x1b, 0x21 :: u8])" by code_simp
  then show "first_terminator (paste_end_sequence sample_pasting) [0x61, 0x1b]"
    unfolding first_terminator_def fin by (simp add: atLeastLessThan_upt [symmetric])
  have l: "maximum_pending_bytes (limits sample_pasting) = 8 \<and> maximum_paste_bytes (limits sample_pasting) = 8" by code_simp
  show "\<forall>cs \<in> set [[0x61], [0x1b], [0x1b, 0x21]].
      length cs + length (paste_end_sequence sample_pasting) \<le> maximum_pending_bytes (limits sample_pasting)" by (simp add: fin l)
  show "0 + length [0x61::u8, 0x1b] \<le> maximum_paste_bytes (limits sample_pasting)" by (simp add: l)
qed

section \<open>Histories of paste events\<close>

lemma decoder_apply_paste:
  assumes "bounded s" and "paste_inv s" and "op \<noteq> Reset" and "decoder_apply op s = Some v"
  shows "paste_step s v"
proof -
  have ok: "dec_ok s" using assms(1) by (simp add: bounded_def)
  show ?thesis
    using assms(3,4) feed_paste [OF ok assms(2)] handle_timeout_paste [OF ok assms(2)] finish_paste [OF ok assms(2)]
    by (cases v; cases op) (auto simp: run_good_def)
qed

lemma decoder_run_paste:
  "bounded s \<Longrightarrow> paste_inv s \<Longrightarrow> Reset \<notin> set ops \<Longrightarrow> decoder_run ops s = Some (s', evs) \<Longrightarrow> paste_step s (s', evs, ())"
proof (induction ops arbitrary: s evs)
  case Nil
  then show ?case by (auto simp: paste_step_refl)
next
  case (Cons op ops)
  obtain s1 evs1 st where a: "decoder_apply op s = Some (s1, evs1, st)" "bounded s1"
    using decoder_apply_ok [OF Cons.prems(1)] by blast
  have step: "paste_step s (s1, evs1, ())"
    using decoder_apply_paste [OF Cons.prems(1,2) _ a(1)] Cons.prems(3) by (auto simp: paste_step_def)
  obtain evs2 where e: "decoder_run ops s1 = Some (s', evs2)" "evs = evs1 @ evs2" using Cons.prems(4) a(1) by auto
  have "paste_inv s1" using step by (simp add: paste_step_def)
  then have "paste_step s1 (s', evs2, ())" using Cons.IH [OF a(2) _ _ e(1)] Cons.prems(3) by simp
  from paste_step_trans [OF step this] show ?case unfolding e(2) .
qed

lemma configured_paste_inv: "paste_configured (configured_decoder mops l) \<Longrightarrow> paste_inv (configured_decoder mops l)"
  by (simp add: paste_inv_def configured_decoder_def new_decoder_def active_protocol_def)

lemma history_pastes:
  assumes "list_all configured_op mops" and "paste_configured (configured_decoder mops l)" and "Reset \<notin> set ops"
    and "decoder_run ops (configured_decoder mops l) = Some (s, evs)"
  shows "paste_run (maximum_paste_bytes l) None evs = Some (open_state s)"
proof -
  have "paste_step (configured_decoder mops l) (s, evs, ())"
    by (rule decoder_run_paste [OF configured_bounded [OF assms(1)] configured_paste_inv [OF assms(2)] assms(3,4)])
  moreover have "open_state (configured_decoder mops l) = None" "maximum_paste_bytes (limits (configured_decoder mops l)) = maximum_paste_bytes l"
    by (simp_all add: open_state_def configured_decoder_def new_decoder_def at_least_one_def)
  ultimately show ?thesis by (simp add: paste_step_def)
qed

end
