(* ===== verification/Event_Transport.thy ===== *)
theory Event_Transport
  imports Message_Codec Paste_Correct
begin

text \<open>
  \<open>puc-cli/tui/terminal/event_messages.cpp\<close>, the publishing side of \<open>terminal_subsystem.cpp\<close> and the
  receiving side of \<open>rendering/screen.cpp\<close>: decoded events travel as messages from the terminal to
  the screen. An enumerator is converted by its position in the enumeration.
\<close>

section \<open>Enumerations\<close>

definition named_keys :: "named_key list" where
  "named_keys = [ESCAPE, ENTER, TAB, BACKSPACE, INSERT, DELETE_KEY, LEFT, RIGHT, UP, DOWN, PAGE_UP, PAGE_DOWN, HOME, END,
     CAPS_LOCK, SCROLL_LOCK, NUM_LOCK, PRINT_SCREEN, PAUSE, MENU] @ map FUNCTION_KEY [1..<36] @ keypad_and_media_keys"

definition key_actions :: "key_action list" where
  "key_actions = [KEY_PRESS, KEY_REPEAT, KEY_RELEASE]"

definition mouse_buttons :: "mouse_button list" where
  "mouse_buttons = [NO_BUTTON, LEFT_BUTTON, MIDDLE_BUTTON, RIGHT_BUTTON, AUXILIARY_1, AUXILIARY_2, AUXILIARY_3, AUXILIARY_4]"

definition mouse_actions :: "mouse_action list" where
  "mouse_actions = [MOUSE_PRESS, MOUSE_RELEASE, MOUSE_MOVE, MOUSE_DRAG]"

definition paste_phases :: "paste_phase list" where
  "paste_phases = [PASTE_BEGIN, PASTE_DATA, PASTE_END, PASTE_CANCEL]"

definition clipboard_selections :: "clipboard_selection list" where
  "clipboard_selections = [CLIPBOARD, PRIMARY]"

definition commands :: "command list" where
  "commands = [COPY, SELECT_ALL, ENTER_COMMAND_MODE, ENTER_TERMINAL_MODE, MOVE_WORD_LEFT, MOVE_WORD_RIGHT, MOVE_ROW_START,
     MOVE_ROW_END, MOVE_BUFFER_START, MOVE_BUFFER_END, MOVE_PAGE_UP, MOVE_PAGE_DOWN]"

definition response_kinds :: "response_kind list" where
  "response_kinds = [KITTY_KEYBOARD_FLAGS, CURSOR_POSITION, DEVICE_ATTRIBUTES, MODE_REPORT, OPERATING_SYSTEM_COMMAND,
     DEVICE_CONTROL_STRING]"

definition unknown_reasons :: "unknown_reason list" where
  "unknown_reasons = [UNSUPPORTED_SEQUENCE, MALFORMED_SEQUENCE, INVALID_UTF8, INCOMPLETE_SEQUENCE, LIMIT_EXCEEDED]"

text \<open>\<open>ordinal\<close>: the position of an enumerator.\<close>

definition enum_ordinal :: "'a list \<Rightarrow> 'a \<Rightarrow> nat" where
  "enum_ordinal xs x = length (takeWhile (\<lambda>y. y \<noteq> x) xs)"

definition valid_ordinal :: "nat \<Rightarrow> 'a list \<Rightarrow> 'a \<Rightarrow> bool" where
  "valid_ordinal v xs maximum \<longleftrightarrow> v \<le> enum_ordinal xs maximum"

definition fits_u32 :: "nat \<Rightarrow> bool" where
  "fits_u32 v \<longleftrightarrow> v \<le> 2 ^ 32 - 1"

definition fits_i32 :: "int \<Rightarrow> bool" where
  "fits_i32 v \<longleftrightarrow> - (2 ^ 31) \<le> v \<and> v \<le> 2 ^ 31 - 1"

section \<open>Conversion\<close>

definition key_message :: "key_event \<Rightarrow> terminal_key_event" where
  "key_message e = \<lparr>key_named = (case event_key e of Named _ \<Rightarrow> True | Character _ \<Rightarrow> False),
     key_value = (case event_key e of Named k \<Rightarrow> word_of_nat (enum_ordinal named_keys k) | Character c \<Rightarrow> c),
     key_modifier_bits = event_modifiers e, key_action_byte = word_of_nat (enum_ordinal key_actions (event_action e)),
     key_shifted = shifted_key e, key_base_layout = base_layout_key e, key_utf8 = event_text e\<rparr>"

fun to_message :: "event \<Rightarrow> msg_status + terminal_input_event" where
  "to_message (Key_Event e) = Inr (Terminal_Key (key_message e))"
| "to_message (Text_Event t) = Inr (Terminal_Text (text_utf8 t))"
| "to_message (Mouse_Event m) =
     (if \<not> fits_u32 (cell_x (mouse_position m)) \<or> \<not> fits_u32 (cell_y (mouse_position m)) then Inl PAYLOAD_ENCODING_FAILED
      else Inr (Terminal_Mouse (word_of_nat (cell_x (mouse_position m))) (word_of_nat (cell_y (mouse_position m)))
        (word_of_nat (enum_ordinal mouse_buttons (mouse_button m))) (word_of_nat (enum_ordinal mouse_actions (mouse_action m)))
        (mouse_modifiers m)))"
| "to_message (Scroll_Event s) =
     (if \<not> fits_u32 (cell_x (scroll_position s)) \<or> \<not> fits_u32 (cell_y (scroll_position s)) \<or> \<not> fits_i32 (delta_x s) \<or>
         \<not> fits_i32 (delta_y s) then Inl PAYLOAD_ENCODING_FAILED
      else Inr (Terminal_Scroll (word_of_nat (cell_x (scroll_position s))) (word_of_nat (cell_y (scroll_position s)))
        (word_of_int (delta_x s)) (word_of_int (delta_y s)) (scroll_modifiers s)))"
| "to_message (Paste_Event p) = Inr (Terminal_Paste (word_of_nat (enum_ordinal paste_phases (paste_phase p))) (paste_data p))"
| "to_message (Focus_Event focused) = Inr (Terminal_Focus focused)"
| "to_message (Clipboard_Event selection data) =
     Inr (Terminal_Clipboard (word_of_nat (enum_ordinal clipboard_selections selection)) data)"
| "to_message (Command_Event c) = Inr (Terminal_Command (word_of_nat (enum_ordinal commands c)))"
| "to_message (Response_Event kind v bs) = Inr (Terminal_Response (word_of_nat (enum_ordinal response_kinds kind)) v bs)"
| "to_message (Unknown_Event reason bs) = Inr (Terminal_Unknown (word_of_nat (enum_ordinal unknown_reasons reason)) bs)"

fun from_message :: "terminal_input_event \<Rightarrow> msg_status + event" where
  "from_message (Terminal_Key e) =
     (if unat (key_action_byte e) > enum_ordinal key_actions KEY_RELEASE \<or>
         key_named e \<and> \<not> valid_ordinal (unat (key_value e)) named_keys (Modifier_Key ISO_LEVEL5_SHIFT)
      then Inl MALFORMED_PAYLOAD
      else Inr (Key_Event \<lparr>event_key = (if key_named e then Named (named_keys ! unat (key_value e)) else Character (key_value e)),
        event_modifiers = key_modifier_bits e, event_action = key_actions ! unat (key_action_byte e),
        shifted_key = key_shifted e, base_layout_key = key_base_layout e, event_text = key_utf8 e\<rparr>))"
| "from_message (Terminal_Text t) = Inr (Text_Event \<lparr>text_utf8 = t\<rparr>)"
| "from_message (Terminal_Mouse x y button action modifiers) =
     (if \<not> valid_ordinal (unat button) mouse_buttons AUXILIARY_4 \<or> \<not> valid_ordinal (unat action) mouse_actions MOUSE_DRAG
      then Inl MALFORMED_PAYLOAD
      else Inr (Mouse_Event \<lparr>mouse_position = \<lparr>cell_x = unat x, cell_y = unat y\<rparr>, mouse_button = mouse_buttons ! unat button,
        mouse_action = mouse_actions ! unat action, mouse_modifiers = modifiers\<rparr>))"
| "from_message (Terminal_Scroll x y dx dy modifiers) =
     Inr (Scroll_Event \<lparr>scroll_position = \<lparr>cell_x = unat x, cell_y = unat y\<rparr>, delta_x = sint dx, delta_y = sint dy,
       scroll_modifiers = modifiers\<rparr>)"
| "from_message (Terminal_Paste phase data) =
     (if \<not> valid_ordinal (unat phase) paste_phases PASTE_CANCEL then Inl MALFORMED_PAYLOAD
      else Inr (Paste_Event \<lparr>paste_phase = paste_phases ! unat phase, paste_data = data\<rparr>))"
| "from_message (Terminal_Focus focused) = Inr (Focus_Event focused)"
| "from_message (Terminal_Clipboard selection data) =
     (if \<not> valid_ordinal (unat selection) clipboard_selections PRIMARY then Inl MALFORMED_PAYLOAD
      else Inr (Clipboard_Event (clipboard_selections ! unat selection) data))"
| "from_message (Terminal_Command c) =
     (if \<not> valid_ordinal (unat c) commands MOVE_PAGE_DOWN then Inl MALFORMED_PAYLOAD else Inr (Command_Event (commands ! unat c)))"
| "from_message (Terminal_Response kind v bs) =
     (if \<not> valid_ordinal (unat kind) response_kinds DEVICE_CONTROL_STRING then Inl MALFORMED_PAYLOAD
      else Inr (Response_Event (response_kinds ! unat kind) v bs))"
| "from_message (Terminal_Unknown reason bs) =
     (if \<not> valid_ordinal (unat reason) unknown_reasons LIMIT_EXCEEDED then Inl MALFORMED_PAYLOAD
      else Inr (Unknown_Event (unknown_reasons ! unat reason) bs))"

section \<open>Publishing and receiving\<close>

text \<open>
  \<open>publish_events\<close> with a bound directory: the channel, its transmission and the terminal status that
  a failure leaves behind; every status but \<open>TERM_OK\<close> is a failure of the subsystem.
\<close>

fun publish_events :: "('c \<Rightarrow> bytes \<Rightarrow> 'c \<times> transfer_result) \<Rightarrow> event list \<Rightarrow> 'c \<Rightarrow> 'c \<times> term_status" where
  "publish_events transmit [] ch = (ch, TERM_OK)"
| "publish_events transmit (e # es) ch =
     (case to_message e of
        Inl _ \<Rightarrow> (ch, OUTPUT_LIMIT_EXCEEDED)
      | Inr m \<Rightarrow>
          (case encode_terminal_event m of
             Inl _ \<Rightarrow> (ch, OUTPUT_LIMIT_EXCEEDED)
           | Inr payload \<Rightarrow>
               (case transmit ch payload of (ch', transfer) \<Rightarrow>
                  if transfer_status transfer \<noteq> IPC_OK \<or> transfer_bytes transfer \<noteq> length payload then (ch', term_status.CHANNEL_SETUP_FAILED)
                  else publish_events transmit es ch')))"

record input_queue =
  input_events :: "event list"
  input_status :: tui_status

definition empty_queue :: input_queue where
  "empty_queue = \<lparr>input_events = [], input_status = TUI_OK\<rparr>"

definition receive_input_event :: "bytes \<Rightarrow> input_queue \<Rightarrow> input_queue" where
  "receive_input_event payload q =
     (case (case decode_terminal_event payload of Inl st \<Rightarrow> Inl st | Inr m \<Rightarrow> from_message m) of
        Inl _ \<Rightarrow> q\<lparr>input_events := [], input_status := MESSAGE_DECODING_FAILED\<rparr>
      | Inr e \<Rightarrow> if input_status q = TUI_OK then q\<lparr>input_events := input_events q @ [e]\<rparr> else q)"

section \<open>Every enumerator is its position\<close>

lemma ordinal_less: "x \<in> set xs \<Longrightarrow> enum_ordinal xs x < length xs"
  by (induction xs) (auto simp: enum_ordinal_def)

lemma ordinal_nth: "x \<in> set xs \<Longrightarrow> xs ! enum_ordinal xs x = x"
  using nth_length_takeWhile [of "\<lambda>y. y \<noteq> x" xs] ordinal_less [of x xs] by (simp add: enum_ordinal_def)

lemma all_key_actions: "x \<in> set key_actions" by (cases x) (simp_all add: key_actions_def)
lemma all_mouse_buttons: "x \<in> set mouse_buttons" by (cases x) (simp_all add: mouse_buttons_def)
lemma all_mouse_actions: "x \<in> set mouse_actions" by (cases x) (simp_all add: mouse_actions_def)
lemma all_paste_phases: "x \<in> set paste_phases" by (cases x) (simp_all add: paste_phases_def)
lemma all_clipboard_selections: "x \<in> set clipboard_selections" by (cases x) (simp_all add: clipboard_selections_def)
lemma all_commands: "x \<in> set commands" by (cases x) (simp_all add: commands_def)
lemma all_response_kinds: "x \<in> set response_kinds" by (cases x) (simp_all add: response_kinds_def)
lemma all_unknown_reasons: "x \<in> set unknown_reasons" by (cases x) (simp_all add: unknown_reasons_def)

lemma all_named_keys:
  assumes "enumerator k"
  shows "k \<in> set named_keys"
proof (cases k)
  case (FUNCTION_KEY n)
  then show ?thesis using assms by (auto simp: named_keys_def)
next
  case (Keypad x)
  then show ?thesis using assms by (cases x) (auto simp: named_keys_def keypad_and_media_keys_def)
next
  case (Media y)
  then show ?thesis by (cases y) (simp_all add: named_keys_def keypad_and_media_keys_def)
next
  case (Modifier_Key z)
  then show ?thesis by (cases z) (simp_all add: named_keys_def keypad_and_media_keys_def)
qed (simp_all add: named_keys_def)

text \<open>An enumerator below a power of two survives the conversion to a narrow integer and back.\<close>

lemma narrow_ordinal:
  assumes "x \<in> set xs" and "length xs \<le> 111"
  shows "unat (word_of_nat (enum_ordinal xs x) :: u8) = enum_ordinal xs x" "unat (word_of_nat (enum_ordinal xs x) :: u16) = enum_ordinal xs x"
    "unat (word_of_nat (enum_ordinal xs x) :: u32) = enum_ordinal xs x"
  using ordinal_less [OF assms(1)] assms(2) by (auto intro: word_nat_small)

lemma ordinal_limits:
  "enum_ordinal key_actions KEY_RELEASE = 2" "enum_ordinal named_keys (Modifier_Key ISO_LEVEL5_SHIFT) = 110"
  "enum_ordinal mouse_buttons AUXILIARY_4 = 7" "enum_ordinal mouse_actions MOUSE_DRAG = 3" "enum_ordinal paste_phases PASTE_CANCEL = 3"
  "enum_ordinal clipboard_selections PRIMARY = 1" "enum_ordinal commands MOVE_PAGE_DOWN = 11"
  "enum_ordinal response_kinds DEVICE_CONTROL_STRING = 5" "enum_ordinal unknown_reasons LIMIT_EXCEEDED = 4"
  by code_simp+

lemma enum_lengths:
  "length key_actions = 3" "length named_keys = 111" "length mouse_buttons = 8" "length mouse_actions = 4" "length paste_phases = 4"
  "length clipboard_selections = 2" "length commands = 12" "length response_kinds = 6" "length unknown_reasons = 5"
  by code_simp+

text \<open>The bounds of the codec are the last enumerators, so that every ordinal passes both checks.\<close>

lemmas all_enumerators = all_key_actions all_mouse_buttons all_mouse_actions all_paste_phases all_clipboard_selections
  all_commands all_response_kinds all_unknown_reasons

lemmas enum_facts = ordinal_less ordinal_nth narrow_ordinal

lemma ordinal_bounds:
  "enum_ordinal key_actions a \<le> 2" "enum_ordinal mouse_buttons b \<le> 7" "enum_ordinal mouse_actions c \<le> 3"
  "enum_ordinal paste_phases d \<le> 3" "enum_ordinal clipboard_selections e \<le> 1" "enum_ordinal commands f \<le> 11"
  "enum_ordinal response_kinds g \<le> 5" "enum_ordinal unknown_reasons h \<le> 4"
  using ordinal_less [OF all_key_actions, of a] ordinal_less [OF all_mouse_buttons, of b] ordinal_less [OF all_mouse_actions, of c]
    ordinal_less [OF all_paste_phases, of d] ordinal_less [OF all_clipboard_selections, of e] ordinal_less [OF all_commands, of f]
    ordinal_less [OF all_response_kinds, of g] ordinal_less [OF all_unknown_reasons, of h]
  by (simp_all add: enum_lengths)

section \<open>Events survive transport\<close>

lemma string_fits: "length s < 2 ^ 32 \<Longrightarrow> \<exists>p. with_string out s = Inr p"
  by (auto simp: with_string_def append_string_def)

lemma known_low: "known_modifiers m = low_modifiers m"
  by (simp add: known_modifiers_def low_modifiers_def kKnownModifierBits_def)

lemma valid_scalar_eq: "valid_scalar c = is_unicode_scalar c"
  by (simp add: valid_scalar_def is_unicode_scalar_def kMaximumUnicodeScalar_def)

lemma key_message_valid:
  assumes "portable_key e"
  shows "valid_key (key_message e)"
proof -
  have "(word_of_nat (enum_ordinal key_actions (event_action e)) :: u8) \<le> 2"
    using ordinal_bounds(1) [of "event_action e"] narrow_ordinal(1) [OF all_key_actions, of "event_action e"]
    by (simp add: word_le_nat_alt enum_lengths)
  then show ?thesis
    using assms by (cases "event_key e"; cases "shifted_key e"; cases "base_layout_key e")
      (simp_all add: valid_key_def key_message_def portable_key_def known_low valid_scalar_eq)
qed

lemma key_message_back:
  assumes "portable_key e"
  shows "from_message (Terminal_Key (key_message e)) = Inr (Key_Event e)"
proof -
  have a: "unat (word_of_nat (enum_ordinal key_actions (event_action e)) :: u8) = enum_ordinal key_actions (event_action e)"
    by (rule narrow_ordinal(1) [OF all_key_actions]) (simp add: enum_lengths)
  have k: "unat (word_of_nat (enum_ordinal named_keys n) :: u32) = enum_ordinal named_keys n" "enum_ordinal named_keys n \<le> 110"
    "named_keys ! enum_ordinal named_keys n = n" if "event_key e = Named n" for n
  proof -
    have n: "n \<in> set named_keys" using assms that by (intro all_named_keys) (simp add: portable_key_def)
    show "unat (word_of_nat (enum_ordinal named_keys n) :: u32) = enum_ordinal named_keys n" by (rule narrow_ordinal(3) [OF n]) (simp add: enum_lengths)
    show "enum_ordinal named_keys n \<le> 110" using ordinal_less [OF n] by (simp add: enum_lengths)
    show "named_keys ! enum_ordinal named_keys n = n" by (rule ordinal_nth [OF n])
  qed
  show ?thesis
    using k ordinal_bounds(1) [of "event_action e"] ordinal_nth [OF all_key_actions, of "event_action e"]
    by (cases "event_key e") (simp_all add: key_message_def a valid_ordinal_def ordinal_limits)
qed


text \<open>A portable event is converted, encoded, decoded and converted back to itself.\<close>

lemma event_round_trip:
  assumes "portable_event e" and "event_size e < 2 ^ 32"
  shows "\<exists>m p. to_message e = Inr m \<and> encode_terminal_event m = Inr p \<and> from_message m = Inr e"
proof (cases e)
  case (Key_Event k)
  then have k: "portable_key k" and "length (key_utf8 (key_message k)) < 2 ^ 32" using assms by (simp_all add: key_message_def)
  then show ?thesis using string_fits key_message_valid [OF k] key_message_back [OF k] by (simp add: Key_Event del: from_message.simps)
next
  case (Text_Event t)
  then show ?thesis using assms string_fits [of "text_utf8 t"] by auto
next
  case (Mouse_Event m)
  have b: "unat (word_of_nat (enum_ordinal mouse_buttons (mouse_button m)) :: u8) = enum_ordinal mouse_buttons (mouse_button m)"
    "unat (word_of_nat (enum_ordinal mouse_actions (mouse_action m)) :: u8) = enum_ordinal mouse_actions (mouse_action m)"
    by (simp_all add: narrow_ordinal all_enumerators enum_lengths)
  then show ?thesis
    using assms Mouse_Event ordinal_bounds(2) [of "mouse_button m"] ordinal_bounds(3) [of "mouse_action m"]
      ordinal_nth [OF all_mouse_buttons, of "mouse_button m"] ordinal_nth [OF all_mouse_actions, of "mouse_action m"]
    by (simp add: portable_cell_def fits_u32_def known_low word_less_nat_alt valid_ordinal_def ordinal_limits word_nat_small)
next
  case (Scroll_Event s)
  have "sint (word_of_int d :: u32) = d" if "\<bar>d\<bar> < 2 ^ 31" for d :: int
    using that signed_take_bit_int_eq_self [of 31 d] by (simp add: signed_of_int abs_less_iff)
  then show ?thesis
    using assms Scroll_Event by (simp add: portable_cell_def fits_u32_def fits_i32_def known_low word_nat_small abs_less_iff)
next
  case (Paste_Event p)
  have b: "unat (word_of_nat (enum_ordinal paste_phases (paste_phase p)) :: u8) = enum_ordinal paste_phases (paste_phase p)"
    by (simp add: narrow_ordinal all_enumerators enum_lengths)
  then show ?thesis
    using assms Paste_Event string_fits [of "paste_data p"] ordinal_bounds(4) [of "paste_phase p"] ordinal_nth [OF all_paste_phases, of "paste_phase p"]
    by (simp add: word_less_nat_alt valid_ordinal_def ordinal_limits)
next
  case (Clipboard_Event c bs)
  have b: "unat (word_of_nat (enum_ordinal clipboard_selections c) :: u8) = enum_ordinal clipboard_selections c"
    by (simp add: narrow_ordinal all_enumerators enum_lengths)
  then show ?thesis
    using assms Clipboard_Event string_fits [of bs] ordinal_bounds(5) [of c] ordinal_nth [OF all_clipboard_selections, of c]
    by (simp add: word_less_nat_alt valid_ordinal_def ordinal_limits)
next
  case (Command_Event c)
  have b: "unat (word_of_nat (enum_ordinal commands c) :: u16) = enum_ordinal commands c"
    by (simp add: narrow_ordinal all_enumerators enum_lengths)
  then show ?thesis
    using Command_Event ordinal_bounds(6) [of c] ordinal_nth [OF all_commands, of c]
    by (simp add: word_less_nat_alt valid_ordinal_def ordinal_limits)
next
  case (Response_Event k v bs)
  have b: "unat (word_of_nat (enum_ordinal response_kinds k) :: u8) = enum_ordinal response_kinds k"
    by (simp add: narrow_ordinal all_enumerators enum_lengths)
  then show ?thesis
    using assms Response_Event string_fits [of bs] ordinal_bounds(7) [of k] ordinal_nth [OF all_response_kinds, of k]
    by (simp add: word_less_nat_alt valid_ordinal_def ordinal_limits)
next
  case (Unknown_Event r bs)
  have b: "unat (word_of_nat (enum_ordinal unknown_reasons r) :: u8) = enum_ordinal unknown_reasons r"
    by (simp add: narrow_ordinal all_enumerators enum_lengths)
  then show ?thesis
    using assms Unknown_Event string_fits [of bs] ordinal_bounds(8) [of r] ordinal_nth [OF all_unknown_reasons, of r]
    by (simp add: word_less_nat_alt valid_ordinal_def ordinal_limits)
qed simp

section \<open>What a configured decoder sends\<close>

text \<open>The keys that \<open>parse_key_event\<close> of \<open>input.cpp\<close> builds: in range, and without text.\<close>

fun stored_event :: "event \<Rightarrow> bool" where
  "stored_event (Key_Event k) \<longleftrightarrow> portable_key k \<and> event_text k = []"
| "stored_event (Focus_Event _) \<longleftrightarrow> True"
| "stored_event (Command_Event _) \<longleftrightarrow> True"
| "stored_event _ \<longleftrightarrow> False"

fun stored_op :: "map_op \<Rightarrow> bool" where
  "stored_op (Register sequence (Emit_Input_Event e)) \<longleftrightarrow> stored_event e"
| "stored_op _ \<longleftrightarrow> True"

lemma stored_configured: "stored_op op \<Longrightarrow> configured_op op"
proof (cases op)
  case (Register ks a)
  assume "stored_op op"
  then show ?thesis
  proof (cases a)
    case (Emit_Input_Event e)
    then show ?thesis using Register \<open>stored_op op\<close> by (cases e) auto
  qed (simp_all add: Register)
qed simp

definition stored_trie :: "input_trie \<Rightarrow> bool" where
  "stored_trie t \<longleftrightarrow> (\<forall>ks e. trie_find t ks = Some (Emit_Input_Event e) \<longrightarrow> stored_event e)"

lemma map_op_stored:
  assumes "input_trie_ok (map_trie m)" and "stored_trie (map_trie m)" and "stored_op op"
  shows "stored_trie (map_trie (map_apply_op op m))"
proof (cases op)
  case (Register ks a)
  obtain t n where ins: "trie_insert No_Action ks a (map_trie m) = (t, n)" by fastforce
  have "stored_trie t"
    using trie_insert_spec(2) [OF input_trie_okD(1) [OF assms(1)] ins] assms(2,3) Register by (auto simp: stored_trie_def)
  then show ?thesis using assms(2) ins by (simp add: Register register_sequence_def)
next
  case (Disable ks)
  obtain t b where er: "trie_erase No_Action ks (map_trie m) = (t, b)" by fastforce
  then show ?thesis
    using trie_erase_spec(2) [OF input_trie_okD(1) [OF assms(1)] er] assms(2) by (auto simp: Disable disable_sequence_def stored_trie_def)
qed

lemma configured_map_stored:
  "list_all stored_op mops \<Longrightarrow> input_trie_ok (map_trie m) \<Longrightarrow> stored_trie (map_trie m) \<Longrightarrow>
    stored_trie (map_trie (fold map_apply_op mops m))"
proof (induction mops arbitrary: m)
  case (Cons op mops)
  have "input_trie_ok (map_trie (map_apply_op op m))"
    using configured_map_ok [of "[op]" m] Cons.prems stored_configured [of op] by simp
  then show ?case using Cons map_op_stored [of m op] by simp
qed simp

lemma decoder_events_portable:
  assumes ops: "list_all stored_op mops" and lim: "maximum_pending_bytes l < 2 ^ 32"
    and run: "decoder_run ops (configured_decoder mops l) = Some (s, evs)"
  shows "list_all (\<lambda>e. portable_event e \<and> event_size e < 2 ^ 32) evs"
proof -
  let ?d = "configured_decoder mops l"
  have conf: "list_all configured_op mops" using ops stored_configured by (simp add: list_all_iff)
  have "stored_trie (input_trie ?d)"
    using configured_map_stored [OF ops, of empty_input_map] empty_input_trie_ok
    by (simp add: configured_decoder_def new_decoder_def empty_input_map_def stored_trie_def empty_input_trie_def trie_find_new)
  moreover have "list_all (sourced (input_trie ?d) (maximum_pending_bytes (limits ?d))) evs"
    using decoder_run_ok [OF configured_bounded [OF conf], of ops l] run by auto
  moreover have "max kitty_text_bytes (maximum_pending_bytes (limits ?d)) < 2 ^ 32"
    using lim by (simp add: configured_decoder_def new_decoder_def at_least_one_def kitty_text_bytes_def)
  moreover have "stored_event e \<Longrightarrow> portable_event e \<and> event_size e < 2 ^ 32" for e by (cases e) auto
  ultimately show ?thesis unfolding sourced_def stored_trie_def fits_def list_all_iff by (meson le_less_trans)
qed


lemma publish_portable:
  assumes "list_all (\<lambda>e. portable_event e \<and> event_size e < 2 ^ 32) evs"
  shows "snd (publish_events transmit evs ch) = TERM_OK \<or> snd (publish_events transmit evs ch) = term_status.CHANNEL_SETUP_FAILED"
  using assms
proof (induction evs arbitrary: ch)
  case (Cons e evs)
  then obtain m p where m: "to_message e = Inr m" "encode_terminal_event m = Inr p" using event_round_trip [of e] by auto
  obtain ch' r where "transmit ch p = (ch', r)" by fastforce
  then show ?case using Cons m by simp
qed simp

text \<open>A channel that accepts every payload and keeps them in order.\<close>

definition accepting_channel :: "bytes list \<Rightarrow> bytes \<Rightarrow> bytes list \<times> transfer_result" where
  "accepting_channel sent payload = (sent @ [payload], \<lparr>transfer_status = IPC_OK, transfer_bytes = length payload\<rparr>)"

lemma publish_accepted:
  assumes "list_all (\<lambda>e. portable_event e \<and> event_size e < 2 ^ 32) evs"
  shows "\<exists>ps. publish_events accepting_channel evs sent = (sent @ ps, TERM_OK) \<and>
    (\<forall>q. input_status q = TUI_OK \<longrightarrow> fold receive_input_event ps q = q\<lparr>input_events := input_events q @ evs\<rparr>)"
  using assms
proof (induction evs arbitrary: sent)
  case (Cons e evs)
  obtain m p where m: "to_message e = Inr m" "encode_terminal_event m = Inr p" "from_message m = Inr e"
    using event_round_trip [of e] Cons.prems by auto
  obtain ps where ps: "publish_events accepting_channel evs (sent @ [p]) = ((sent @ [p]) @ ps, TERM_OK)"
    "\<forall>q. input_status q = TUI_OK \<longrightarrow> fold receive_input_event ps q = q\<lparr>input_events := input_events q @ evs\<rparr>"
    using Cons.IH [of "sent @ [p]"] Cons.prems by auto
  have "decode_terminal_event p = Inr m" using m(2) terminal_codec.canonical by blast
  then have "receive_input_event p q = q\<lparr>input_events := input_events q @ [e]\<rparr>" if "input_status q = TUI_OK" for q
    using that m(3) by (simp add: receive_input_event_def)
  moreover have "accepting_channel sent p = (sent @ [p], \<lparr>transfer_status = IPC_OK, transfer_bytes = length p\<rparr>)"
    by (simp add: accepting_channel_def)
  ultimately show ?case using ps m by (intro exI [of _ "p # ps"]) simp
qed simp

section \<open>Properties\<close>

text \<open>
  C40: Terminal input reaches the screen unchanged. For every map of keys, focus changes, commands
  and protocols as the configuration builds them, a buffer limit below 4 GiB, and every history of
  bytes, timeouts, finishes and resets: each event that the decoder emits can be converted and
  encoded, so that publishing never fails for another reason than a refusing channel (it would
  bring the terminal subsystem down); and over a channel that delivers what it accepts, the
  screen's queue holds exactly the emitted events, in order, with no decoding failure. All bounds
  of the schema (enumerators, modifier bits, scalars, UTF-8, coordinates, string sizes) are wide
  enough for every event.
\<close>

theorem events_transported:
  assumes "list_all stored_op mops" and "maximum_pending_bytes l < 2 ^ 32"
    and "decoder_run ops (configured_decoder mops l) = Some (s, evs)"
  shows "(\<forall>transmit ch. snd (publish_events transmit evs ch) \<in> {TERM_OK, term_status.CHANNEL_SETUP_FAILED}) \<and>
    (\<exists>ps. publish_events accepting_channel evs [] = (ps, TERM_OK) \<and>
       fold receive_input_event ps empty_queue = \<lparr>input_events = evs, input_status = TUI_OK\<rparr>)"
proof
  note evs = decoder_events_portable [OF assms]
  show "\<forall>transmit ch. snd (publish_events transmit evs ch) \<in> {TERM_OK, term_status.CHANNEL_SETUP_FAILED}"
    by (simp add: publish_portable [OF evs])
  show "\<exists>ps. publish_events accepting_channel evs [] = (ps, TERM_OK) \<and>
      fold receive_input_event ps empty_queue = \<lparr>input_events = evs, input_status = TUI_OK\<rparr>"
    using publish_accepted [OF evs, of "[]"] by (auto simp: empty_queue_def)
qed

lemma sample_map_stored: "list_all stored_op sample_map"
  by (simp add: sample_map_def portable_key_def key_of_def)

theorem events_transported_witness:
  "\<exists>ps. publish_events accepting_channel [Text_Event \<lparr>text_utf8 = [0x61]\<rparr>, Key_Event (key_of (Named UP))] [] = (ps, TERM_OK) \<and>
    fold receive_input_event ps empty_queue =
      \<lparr>input_events = [Text_Event \<lparr>text_utf8 = [0x61]\<rparr>, Key_Event (key_of (Named UP))], input_status = TUI_OK\<rparr>"
proof -
  obtain s where "decoder_run [Feed [0x61, 0x1b, 0x5b, 0x41, 0x1b, 0x5b]] (configured_decoder sample_map sample_limits) =
      Some (s, [Text_Event \<lparr>text_utf8 = [0x61]\<rparr>, Key_Event (key_of (Named UP))])"
    using sample_run by auto
  note run = this
  have "maximum_pending_bytes sample_limits < 2 ^ 32" by (simp add: sample_limits_def)
  from events_transported [OF sample_map_stored this run] show ?thesis by (rule conjunct2)
qed

end
