(* ===== verification/Canvas.thy ===== *)
theory Canvas
  imports Tui_Types
begin

text \<open>
  \<open>puc-cli/tui/rendering/canvas.cpp\<close> and \<open>theme.cpp\<close>: the double-buffered cell grid with its
  frame transactions, and the semantic palette. The abstract specification is a published image
  and, while a frame is being built, a working image, both functions of row and column.
\<close>

section \<open>Cells and rectangles\<close>

record cell =
  cell_char :: u32
  foreground :: u32
  background :: u32

definition default_cell :: cell where
  "default_cell = \<lparr>cell_char = 0x20, foreground = 0, background = 0\<rparr>"

record rect =
  rect_x :: nat
  rect_y :: nat
  rect_width :: nat
  rect_height :: nat

datatype buffer_state = DRAW_A_WRITETO_B | DRAW_B_WRITETO_A

record canvas =
  screen_buffer_a :: "cell list"
  screen_buffer_b :: "cell list"
  buffer_state :: buffer_state
  frame_in_progress :: bool
  canvas_status :: tui_status
  canvas_width :: nat
  canvas_height :: nat

definition checked_area :: "nat \<Rightarrow> nat \<Rightarrow> nat \<times> tui_status" where
  "checked_area width height =
     (if height \<noteq> 0 \<and> width > size_max div height then (0, DIMENSION_OVERFLOW) else (width * height, TUI_OK))"

definition new_canvas :: "nat \<Rightarrow> nat \<Rightarrow> canvas" where
  "new_canvas width height =
     (case checked_area width height of (area, status) \<Rightarrow>
        if status \<noteq> TUI_OK
        then \<lparr>screen_buffer_a = [], screen_buffer_b = [], buffer_state = DRAW_A_WRITETO_B, frame_in_progress = False,
              canvas_status = status, canvas_width = 0, canvas_height = 0\<rparr>
        else \<lparr>screen_buffer_a = replicate area default_cell, screen_buffer_b = replicate area default_cell,
              buffer_state = DRAW_A_WRITETO_B, frame_in_progress = False,
              canvas_status = TUI_OK, canvas_width = width, canvas_height = height\<rparr>)"

definition get_drawable_buffer :: "canvas \<Rightarrow> cell list" where
  "get_drawable_buffer c = (if buffer_state c = DRAW_A_WRITETO_B then screen_buffer_a c else screen_buffer_b c)"

definition writable_buffer :: "canvas \<Rightarrow> cell list" where
  "writable_buffer c = (if buffer_state c = DRAW_A_WRITETO_B then screen_buffer_b c else screen_buffer_a c)"

definition set_writable :: "cell list \<Rightarrow> canvas \<Rightarrow> canvas" where
  "set_writable cells c =
     (if buffer_state c = DRAW_A_WRITETO_B then c\<lparr>screen_buffer_b := cells\<rparr> else c\<lparr>screen_buffer_a := cells\<rparr>)"

definition copy_drawable_to_writable :: "canvas \<Rightarrow> canvas" where
  "copy_drawable_to_writable c = set_writable (get_drawable_buffer c) c"

section \<open>Transactions\<close>

definition begin_frame :: "canvas \<Rightarrow> canvas \<times> tui_status" where
  "begin_frame c =
     (if canvas_status c \<noteq> TUI_OK then (c, canvas_status c)
      else if frame_in_progress c then (c, FRAME_ALREADY_IN_PROGRESS)
      else ((copy_drawable_to_writable c)\<lparr>frame_in_progress := True\<rparr>, TUI_OK))"

definition canvas_clear :: "cell \<Rightarrow> canvas \<Rightarrow> canvas \<times> tui_status" where
  "canvas_clear v c =
     (if \<not> frame_in_progress c then (c, NO_FRAME_IN_PROGRESS)
      else (set_writable (map (\<lambda>_. v) (writable_buffer c)) c, TUI_OK))"

text \<open>\<open>std::copy\<close> of one row to an offset, and the loop over the rows.\<close>

definition copy_at :: "nat \<Rightarrow> 'a list \<Rightarrow> 'a list \<Rightarrow> 'a list" where
  "copy_at destination row buffer = take destination buffer @ row @ drop (destination + length row) buffer"

fun copy_rows :: "nat \<Rightarrow> nat \<Rightarrow> nat \<Rightarrow> 'a list list \<Rightarrow> 'a list \<Rightarrow> 'a list" where
  "copy_rows width x y [] buffer = buffer"
| "copy_rows width x y (row # rows) buffer = copy_rows width x (Suc y) rows (copy_at (y * width + x) row buffer)"

definition write_cells :: "rect \<Rightarrow> cell list list \<Rightarrow> canvas \<Rightarrow> canvas \<times> tui_status" where
  "write_cells r cells c =
     (if \<not> frame_in_progress c then (c, NO_FRAME_IN_PROGRESS)
      else if rect_x r > canvas_width c \<or> rect_y r > canvas_height c \<or> rect_width r > canvas_width c - rect_x r \<or>
              rect_height r > canvas_height c - rect_y r then (c, RECT_OUT_OF_BOUNDS)
      else if length cells \<noteq> rect_height r then (c, CELL_SHAPE_MISMATCH)
      else if \<exists>row \<in> set cells. length row \<noteq> rect_width r then (c, CELL_SHAPE_MISMATCH)
      else (set_writable (copy_rows (canvas_width c) (rect_x r) (rect_y r) cells (writable_buffer c)) c, TUI_OK))"

definition end_frame :: "canvas \<Rightarrow> canvas \<times> tui_status" where
  "end_frame c =
     (if \<not> frame_in_progress c then (c, NO_FRAME_IN_PROGRESS)
      else (c\<lparr>buffer_state := (if buffer_state c = DRAW_A_WRITETO_B then DRAW_B_WRITETO_A else DRAW_A_WRITETO_B),
              frame_in_progress := False\<rparr>, TUI_OK))"

definition cancel_frame :: "canvas \<Rightarrow> canvas \<times> tui_status" where
  "cancel_frame c =
     (if \<not> frame_in_progress c then (c, NO_FRAME_IN_PROGRESS) else (c\<lparr>frame_in_progress := False\<rparr>, TUI_OK))"

section \<open>The palette\<close>

datatype color_types = PRIMARY_COLOR | SECONDARY | TERTIARY | HIGHLIGHT_BACKGROUND | HIGHLIGHT_TEXT | TEXT | TEXT_SECONDARY
  | TEXT_TERTIARY | TEXT_MUTED | TEXT_DISABLED | TEXT_ERROR | TEXT_WARNING | TEXT_ALERT | TEXT_SUCCESS | TEXT_INFO | TEXT_LINK
  | TEXT_EMPHASIS | TEXT_CODE | ALERT_TEXT_PRIMARY | ALERT_TEXT_SECONDARY | DIFF_ADDED_TEXT_PRIMARY | DIFF_ADDED_TEXT_SECONDARY
  | DIFF_ADDED_TEXT_BACKGROUND | DIFF_REMOVED_TEXT_PRIMARY | DIFF_REMOVED_TEXT_SECONDARY | DIFF_REMOVED_TEXT_BACKGROUND
  | BACKGROUND

text \<open>
  \<open>Theme::Colors\<close> has one member for each role, which \<open>get_color\<close> selects: the palette is a
  function of the role, and \<open>load_colors\<close> replaces it.
\<close>

record tui_theme =
  theme_colors :: "color_types \<Rightarrow> u32"

definition load_colors :: "(color_types \<Rightarrow> u32) \<Rightarrow> tui_theme \<Rightarrow> tui_theme" where
  "load_colors colors t = t\<lparr>theme_colors := colors\<rparr>"

definition get_color :: "tui_theme \<Rightarrow> color_types \<Rightarrow> u32" where
  "get_color t role = theme_colors t role"

section \<open>Images\<close>

type_synonym image = "nat \<Rightarrow> nat \<Rightarrow> cell"

definition image_of :: "nat \<Rightarrow> nat \<Rightarrow> cell list \<Rightarrow> image" where
  "image_of w h cells = (\<lambda>row column. if row < h \<and> column < w then cells ! (row * w + column) else default_cell)"

definition canvas_wf :: "canvas \<Rightarrow> bool" where
  "canvas_wf c \<longleftrightarrow> length (screen_buffer_a c) = canvas_width c * canvas_height c \<and>
     length (screen_buffer_b c) = canvas_width c * canvas_height c \<and> canvas_width c * canvas_height c \<le> size_max \<and>
     (canvas_status c \<noteq> TUI_OK \<longrightarrow> canvas_width c = 0 \<and> canvas_height c = 0 \<and> \<not> frame_in_progress c)"

definition published :: "canvas \<Rightarrow> image" where
  "published c = image_of (canvas_width c) (canvas_height c) (get_drawable_buffer c)"

definition working :: "canvas \<Rightarrow> image" where
  "working c = image_of (canvas_width c) (canvas_height c) (writable_buffer c)"

definition inside :: "rect \<Rightarrow> nat \<Rightarrow> nat \<Rightarrow> bool" where
  "inside r row column \<longleftrightarrow> rect_y r \<le> row \<and> row < rect_y r + rect_height r \<and>
     rect_x r \<le> column \<and> column < rect_x r + rect_width r"

definition fits :: "rect \<Rightarrow> canvas \<Rightarrow> bool" where
  "fits r c \<longleftrightarrow> rect_x r + rect_width r \<le> canvas_width c \<and> rect_y r + rect_height r \<le> canvas_height c"

lemma grid_bound: "row < h \<Longrightarrow> column < w \<Longrightarrow> row * w + column < w * (h::nat)"
proof -
  assume "row < h" "column < w"
  then have "row * w + column < Suc row * w" by simp
  also have "Suc row * w \<le> h * w" using \<open>row < h\<close> by (intro mult_le_mono1) simp
  finally show ?thesis by (simp add: mult.commute)
qed

lemma grid_inj: "column < w \<Longrightarrow> column' < w \<Longrightarrow> row * w + column = row' * w + column' \<longleftrightarrow> row = row' \<and> column = (column'::nat)"
  by (metis add.commute div_mult_self3 div_less add_0 mod_mult_self1 mod_less mod_if not_less0)

lemma length_copy_at [simp]: "destination + length row \<le> length buffer \<Longrightarrow> length (copy_at destination row buffer) = length buffer"
  by (simp add: copy_at_def)

lemma nth_copy_at:
  assumes "destination + length row \<le> length buffer" and "i < length buffer"
  shows "copy_at destination row buffer ! i =
    (if destination \<le> i \<and> i < destination + length row then row ! (i - destination) else buffer ! i)"
  using assms by (auto simp: copy_at_def nth_append)

lemma copy_rows_spec:
  assumes "length buffer = w * h" and "x + n \<le> w" and "y + length rows \<le> h" and "\<forall>row \<in> set rows. length row = n"
  shows "length (copy_rows w x y rows buffer) = w * h \<and>
    (\<forall>i < h. \<forall>j < w. copy_rows w x y rows buffer ! (i * w + j) =
      (if y \<le> i \<and> i < y + length rows \<and> x \<le> j \<and> j < x + n then rows ! (i - y) ! (j - x) else buffer ! (i * w + j)))"
  using assms
proof (induction rows arbitrary: y buffer)
  case (Cons row rows)
  have row: "length row = n" "x + n \<le> w" "y < h" using Cons.prems by simp_all
  have "y * w + w \<le> w * h" using row(3) mult_le_mono1 [of "Suc y" h w] by (simp add: mult.commute)
  then have d: "y * w + x + length row \<le> length buffer" using Cons.prems(1) row by simp
  let ?b = "copy_at (y * w + x) row buffer"
  have ih: "length (copy_rows w x (Suc y) rows ?b) = w * h \<and>
    (\<forall>i < h. \<forall>j < w. copy_rows w x (Suc y) rows ?b ! (i * w + j) =
      (if Suc y \<le> i \<and> i < Suc y + length rows \<and> x \<le> j \<and> j < x + n then rows ! (i - Suc y) ! (j - x) else ?b ! (i * w + j)))"
    using Cons.prems d by (intro Cons.IH) auto
  have b: "?b ! (i * w + j) = (if i = y \<and> x \<le> j \<and> j < x + n then row ! (j - x) else buffer ! (i * w + j))"
    if "i < h" "j < w" for i j
  proof -
    have lt: "i * w + j < length buffer" using grid_bound [OF that] Cons.prems(1) by simp
    have "y * w + x \<le> i * w + j \<and> i * w + j < y * w + x + length row \<longleftrightarrow> i = y \<and> x \<le> j \<and> j < x + n"
    proof
      assume a: "y * w + x \<le> i * w + j \<and> i * w + j < y * w + x + length row"
      define k where "k = i * w + j - (y * w + x)"
      have k: "i * w + j = y * w + (x + k)" "x + k < w" using a row by (auto simp: k_def)
      then have "i = y \<and> j = x + k" using grid_inj [of j w "x + k" i y] that by blast
      then show "i = y \<and> x \<le> j \<and> j < x + n" using a row by simp
    qed (use row in auto)
    then show ?thesis unfolding nth_copy_at [OF d lt] by auto
  qed
  have "copy_rows w x y (row # rows) buffer ! (i * w + j) =
      (if y \<le> i \<and> i < y + length (row # rows) \<and> x \<le> j \<and> j < x + n then (row # rows) ! (i - y) ! (j - x) else buffer ! (i * w + j))"
    if "i < h" "j < w" for i j
  proof (cases "i = y")
    case True
    then show ?thesis using ih b [OF that] that by simp
  next
    case False
    then have "Suc y \<le> i \<longleftrightarrow> y \<le> i" "\<not> i \<le> y \<Longrightarrow> i - y = Suc (i - Suc y)" by auto
    then show ?thesis using ih b [OF that] that False by auto
  qed
  then show ?case using ih by simp
qed auto

lemmas canvas_views = published_def working_def get_drawable_buffer_def writable_buffer_def

lemma set_writable_frame [simp]:
  "frame_in_progress (set_writable b c) = frame_in_progress c" "canvas_width (set_writable b c) = canvas_width c"
  "canvas_height (set_writable b c) = canvas_height c" "canvas_status (set_writable b c) = canvas_status c"
  "buffer_state (set_writable b c) = buffer_state c" "get_drawable_buffer (set_writable b c) = get_drawable_buffer c"
  "writable_buffer (set_writable b c) = b"
  by (simp_all add: set_writable_def get_drawable_buffer_def writable_buffer_def)

lemma canvas_wf_buffers:
  assumes "canvas_wf c"
  shows "length (get_drawable_buffer c) = canvas_width c * canvas_height c" "length (writable_buffer c) = canvas_width c * canvas_height c"
  using assms by (simp_all add: canvas_wf_def get_drawable_buffer_def writable_buffer_def)

lemma canvas_wf_set_writable:
  "canvas_wf c \<Longrightarrow> length b = canvas_width c * canvas_height c \<Longrightarrow> canvas_wf (set_writable b c)"
  by (auto simp: canvas_wf_def set_writable_def)

lemma new_canvas_wf: "canvas_wf (new_canvas w h)"
proof (cases "h \<noteq> 0 \<and> w > size_max div h")
  case True
  then show ?thesis by (simp add: new_canvas_def checked_area_def canvas_wf_def)
next
  case False
  then have "w * h \<le> size_max" by (cases "h = 0") (auto simp: not_less less_eq_div_iff_mult_less_eq)
  with False show ?thesis by (simp add: new_canvas_def checked_area_def canvas_wf_def)
qed

section \<open>The canvas implements images\<close>

lemma image_of_eqI:
  "(\<And>i j. i < h \<Longrightarrow> j < w \<Longrightarrow> b ! (i * w + j) = f i j) \<Longrightarrow> image_of w h b = (\<lambda>i j. if i < h \<and> j < w then f i j else default_cell)"
  by (auto simp: image_of_def fun_eq_iff)

text \<open>The specification of a write: all or nothing, and exactly the rectangle changes.\<close>

definition overlay :: "rect \<Rightarrow> cell list list \<Rightarrow> image \<Rightarrow> image" where
  "overlay r cells img = (\<lambda>row column. if inside r row column then cells ! (row - rect_y r) ! (column - rect_x r) else img row column)"

lemma write_cells_ok:
  assumes wf: "canvas_wf c" and ok: "write_cells r cells c = (c', TUI_OK)"
  shows "canvas_wf c'" "working c' = overlay r cells (working c)" "published c' = published c" "fits r c"
    "canvas_width c' = canvas_width c" "canvas_height c' = canvas_height c" "frame_in_progress c'" "frame_in_progress c"
    "length cells = rect_height r" "\<forall>row \<in> set cells. length row = rect_width r" "canvas_status c' = canvas_status c"
proof -
  have fip: "frame_in_progress c" and fit: "fits r c" and len: "length cells = rect_height r" "\<forall>row \<in> set cells. length row = rect_width r"
    and c': "c' = set_writable (copy_rows (canvas_width c) (rect_x r) (rect_y r) cells (writable_buffer c)) c"
    using ok by (auto simp: write_cells_def fits_def split: if_splits)
  let ?b = "copy_rows (canvas_width c) (rect_x r) (rect_y r) cells (writable_buffer c)"
  have spec: "length ?b = canvas_width c * canvas_height c \<and>
    (\<forall>i < canvas_height c. \<forall>j < canvas_width c. ?b ! (i * canvas_width c + j) =
      (if rect_y r \<le> i \<and> i < rect_y r + length cells \<and> rect_x r \<le> j \<and> j < rect_x r + rect_width r
       then cells ! (i - rect_y r) ! (j - rect_x r) else writable_buffer c ! (i * canvas_width c + j)))"
    using copy_rows_spec [of "writable_buffer c" "canvas_width c" "canvas_height c" "rect_x r" "rect_width r" "rect_y r" cells]
      canvas_wf_buffers(2) [OF wf] fit len by (simp add: fits_def)
  show "canvas_wf c'" unfolding c' by (rule canvas_wf_set_writable [OF wf]) (use spec in blast)
  have out: "inside r i j \<Longrightarrow> i < canvas_height c \<and> j < canvas_width c" for i j using fit by (auto simp: inside_def fits_def)
  show "working c' = overlay r cells (working c)"
    using spec out unfolding c' working_def set_writable_frame
    by (auto simp: image_of_def overlay_def inside_def len(1) fun_eq_iff)
  show "published c' = published c" by (simp add: c' published_def)
  show "fits r c" "canvas_width c' = canvas_width c" "canvas_height c' = canvas_height c" "frame_in_progress c'" "frame_in_progress c"
    "length cells = rect_height r" "\<forall>row \<in> set cells. length row = rect_width r" "canvas_status c' = canvas_status c"
    using fit len fip by (simp_all add: c')
qed

lemma write_cells_refused: "write_cells r cells c = (c', st) \<Longrightarrow> st \<noteq> TUI_OK \<Longrightarrow> c' = c"
  by (auto simp: write_cells_def split: if_splits)

lemma write_cells_accepts:
  "write_cells r cells c = (c', st) \<Longrightarrow> frame_in_progress c \<Longrightarrow> fits r c \<Longrightarrow> length cells = rect_height r \<Longrightarrow>
    \<forall>row \<in> set cells. length row = rect_width r \<Longrightarrow> st = TUI_OK"
  by (auto simp: write_cells_def fits_def split: if_splits)

datatype canvas_op = Begin_Frame | Clear_Frame cell | Write_Cells rect "cell list list" | End_Frame | Cancel_Frame

fun canvas_apply :: "canvas_op \<Rightarrow> canvas \<Rightarrow> canvas \<times> tui_status" where
  "canvas_apply Begin_Frame c = begin_frame c"
| "canvas_apply (Clear_Frame v) c = canvas_clear v c"
| "canvas_apply (Write_Cells r cells) c = write_cells r cells c"
| "canvas_apply End_Frame c = end_frame c"
| "canvas_apply Cancel_Frame c = cancel_frame c"

text \<open>The specification on a grid of given size: a published image and perhaps one under construction.\<close>

fun image_apply :: "nat \<Rightarrow> nat \<Rightarrow> canvas_op \<Rightarrow> image \<times> image option \<Rightarrow> (image \<times> image option) \<times> tui_status" where
  "image_apply w h Begin_Frame (pub, None) = ((pub, Some pub), TUI_OK)"
| "image_apply w h Begin_Frame (pub, Some img) = ((pub, Some img), FRAME_ALREADY_IN_PROGRESS)"
| "image_apply w h (Clear_Frame v) (pub, Some img) =
     ((pub, Some (\<lambda>row column. if row < h \<and> column < w then v else default_cell)), TUI_OK)"
| "image_apply w h (Write_Cells r cells) (pub, Some img) =
     (if rect_x r + rect_width r > w \<or> rect_y r + rect_height r > h then ((pub, Some img), RECT_OUT_OF_BOUNDS)
      else if length cells = rect_height r \<and> (\<forall>row \<in> set cells. length row = rect_width r)
      then ((pub, Some (overlay r cells img)), TUI_OK) else ((pub, Some img), CELL_SHAPE_MISMATCH))"
| "image_apply w h End_Frame (pub, Some img) = ((img, None), TUI_OK)"
| "image_apply w h Cancel_Frame (pub, Some img) = ((pub, None), TUI_OK)"
| "image_apply w h _ (pub, None) = ((pub, None), NO_FRAME_IN_PROGRESS)"

definition images :: "canvas \<Rightarrow> image \<times> image option" where
  "images c = (published c, if frame_in_progress c then Some (working c) else None)"

lemma canvas_apply_images:
  assumes wf: "canvas_wf c" and ok: "canvas_status c = TUI_OK"
  shows "case canvas_apply op c of (c', st) \<Rightarrow>
    canvas_wf c' \<and> canvas_status c' = TUI_OK \<and> canvas_width c' = canvas_width c \<and> canvas_height c' = canvas_height c \<and>
    image_apply (canvas_width c) (canvas_height c) op (images c) = (images c', st)"
proof (cases op)
  case Begin_Frame
  have "canvas_wf (copy_drawable_to_writable c)"
    unfolding copy_drawable_to_writable_def by (rule canvas_wf_set_writable [OF wf canvas_wf_buffers(1) [OF wf]])
  then have "canvas_wf ((copy_drawable_to_writable c)\<lparr>frame_in_progress := True\<rparr>)"
    using ok by (simp add: canvas_wf_def copy_drawable_to_writable_def)
  moreover have "images ((copy_drawable_to_writable c)\<lparr>frame_in_progress := True\<rparr>) = (published c, Some (published c))"
    by (simp add: images_def canvas_views copy_drawable_to_writable_def set_writable_def)
  ultimately show ?thesis using Begin_Frame ok wf
    by (auto simp: begin_frame_def images_def copy_drawable_to_writable_def)
next
  case (Clear_Frame v)
  let ?c = "set_writable (map (\<lambda>_. v) (writable_buffer c)) c"
  have "canvas_wf ?c" by (rule canvas_wf_set_writable [OF wf]) (simp add: canvas_wf_buffers(2) [OF wf])
  moreover have "working ?c = (\<lambda>row column. if row < canvas_height c \<and> column < canvas_width c then v else default_cell)"
    using grid_bound canvas_wf_buffers(2) [OF wf] by (auto simp: working_def image_of_def fun_eq_iff)
  ultimately show ?thesis using Clear_Frame ok wf by (auto simp: canvas_clear_def images_def published_def)
next
  case (Write_Cells r cells)
  obtain c' st where w: "write_cells r cells c = (c', st)" by fastforce
  show ?thesis
  proof (cases "st = TUI_OK")
    case True
    note ok' = write_cells_ok [OF wf w [unfolded True]]
    show ?thesis using Write_Cells w True ok ok' by (auto simp: images_def fits_def)
  next
    case False
    have "c' = c" by (rule write_cells_refused [OF w False])
    then show ?thesis using Write_Cells w False ok wf by (auto simp: write_cells_def images_def split: if_splits)
  qed
next
  case End_Frame
  then show ?thesis using ok wf by (auto simp: end_frame_def images_def canvas_wf_def canvas_views)
next
  case Cancel_Frame
  then show ?thesis using ok wf by (auto simp: cancel_frame_def images_def canvas_wf_def canvas_views)
qed

fun canvas_run :: "canvas_op list \<Rightarrow> canvas \<Rightarrow> canvas \<times> tui_status list" where
  "canvas_run [] c = (c, [])"
| "canvas_run (op # ops) c = (case canvas_apply op c of (c', st) \<Rightarrow> apsnd ((#) st) (canvas_run ops c'))"

fun image_run :: "nat \<Rightarrow> nat \<Rightarrow> canvas_op list \<Rightarrow> image \<times> image option \<Rightarrow> (image \<times> image option) \<times> tui_status list" where
  "image_run w h [] s = (s, [])"
| "image_run w h (op # ops) s = (case image_apply w h op s of (s', st) \<Rightarrow> apsnd ((#) st) (image_run w h ops s'))"

lemma canvas_run_images:
  "canvas_wf c \<Longrightarrow> canvas_status c = TUI_OK \<Longrightarrow>
    image_run (canvas_width c) (canvas_height c) ops (images c) = (apfst images (canvas_run ops c))"
proof (induction ops arbitrary: c)
  case (Cons op ops)
  obtain c' st where a: "canvas_apply op c = (c', st)" by fastforce
  have c': "canvas_wf c'" "canvas_status c' = TUI_OK" "canvas_width c' = canvas_width c" "canvas_height c' = canvas_height c"
    "image_apply (canvas_width c) (canvas_height c) op (images c) = (images c', st)"
    using canvas_apply_images [OF Cons.prems, of op] unfolding a by simp_all
  show ?case using Cons.IH [OF c'(1,2)] c'(3-5) a by (cases "canvas_run ops c'") simp
qed simp

text \<open>
  C30: The canvas implements images. Over any history of frame transactions on a grid whose area is
  a \<open>size_t\<close>, the two flat buffers behave as a published image and an image under construction:
  writes and clears touch only the latter, a refused write changes nothing and an accepted one
  changes exactly its rectangle, ending a frame publishes, cancelling forgets, and every call
  returns the specified status.
\<close>

theorem canvas_refines:
  assumes "w * h \<le> size_max"
  shows "image_run w h ops (\<lambda>_ _. default_cell, None) = apfst images (canvas_run ops (new_canvas w h))"
proof -
  have n: "new_canvas w h = \<lparr>screen_buffer_a = replicate (w * h) default_cell, screen_buffer_b = replicate (w * h) default_cell,
      buffer_state = DRAW_A_WRITETO_B, frame_in_progress = False, canvas_status = TUI_OK, canvas_width = w, canvas_height = h\<rparr>"
    using assms by (cases "h = 0") (simp_all add: new_canvas_def checked_area_def not_less less_eq_div_iff_mult_less_eq)
  have "images (new_canvas w h) = (\<lambda>_ _. default_cell, None)"
    using grid_bound [of _ h _ w] by (auto simp: n images_def canvas_views image_of_def fun_eq_iff)
  then show ?thesis using canvas_run_images [OF new_canvas_wf [of w h], of ops] by (simp add: n)
qed

theorem canvas_refines_witness:
  "image_run 2 1 [Begin_Frame, Write_Cells \<lparr>rect_x = 1, rect_y = 0, rect_width = 1, rect_height = 1\<rparr> [[default_cell\<lparr>cell_char := 0x61\<rparr>]],
      End_Frame] (\<lambda>_ _. default_cell, None) =
    apfst images (canvas_run [Begin_Frame, Write_Cells \<lparr>rect_x = 1, rect_y = 0, rect_width = 1, rect_height = 1\<rparr>
      [[default_cell\<lparr>cell_char := 0x61\<rparr>]], End_Frame] (new_canvas 2 1))"
  by (rule canvas_refines) (simp add: size_max_def)

end
