(* ===== verification/Frames.thy ===== *)
theory Frames
  imports Canvas Text_Editor
begin

text \<open>
  The views of \<open>puc-cli/tui/frames\<close> that edit and decorate text: \<open>TextInputFrame\<close>,
  \<open>AnnotatedTextFrame\<close>, \<open>BoundingFrame\<close>, \<open>CmdFrame\<close> and \<open>MessageFrame\<close>, on the interface \<open>Frame\<close> of
  \<open>rendering/frame.hpp\<close>. Virtual methods are a record of operations on the state of the frame;
  a decorator takes the operations of its child, and none stand for a null child. Drawing threads
  the canvas. A pointer operation of the editor that reads outside its rows is the result \<open>None\<close>.
\<close>

section \<open>The interface\<close>

record 'c frame_ops =
  draw_op :: "tui_theme \<Rightarrow> rect \<Rightarrow> 'c \<times> canvas \<Rightarrow> ('c \<times> canvas) \<times> tui_status"
  selectable_op :: "'c \<Rightarrow> bool"
  update_selection_op :: "selection_event \<Rightarrow> 'c \<Rightarrow> ('c \<times> tui_status) option"
  selected_text_op :: "'c \<Rightarrow> bytes \<times> tui_status"
  accepts_cursor_op :: "'c \<Rightarrow> bool"
  place_cursor_op :: "selection_position \<Rightarrow> 'c \<Rightarrow> 'c \<times> tui_status"

text \<open>A frame that only draws.\<close>

definition plain_frame :: "(tui_theme \<Rightarrow> rect \<Rightarrow> 'c \<times> canvas \<Rightarrow> ('c \<times> canvas) \<times> tui_status) \<Rightarrow> 'c frame_ops" where
  "plain_frame draw = \<lparr>draw_op = draw, selectable_op = (\<lambda>_. False),
     update_selection_op = (\<lambda>_ s. Some (s, FRAME_NOT_SELECTABLE)), selected_text_op = (\<lambda>_. ([], FRAME_NOT_SELECTABLE)),
     accepts_cursor_op = (\<lambda>_. False), place_cursor_op = (\<lambda>_ s. (s, FRAME_NOT_SELECTABLE))\<rparr>"

definition cell_grid :: "nat \<Rightarrow> nat \<Rightarrow> (nat \<Rightarrow> nat \<Rightarrow> cell) \<Rightarrow> cell list list" where
  "cell_grid width height f = map (\<lambda>row. map (f row) [0..<width]) [0..<height]"

definition sat_add :: "nat \<Rightarrow> nat \<Rightarrow> nat" where
  "sat_add a b = (if a > size_max - b then size_max else a + b)"

definition int64_max :: nat where
  "int64_max = 2 ^ 63 - 1"

definition signed_width :: "nat \<Rightarrow> int" where
  "signed_width v = int (min v int64_max)"

section \<open>\<open>TextInputFrame\<close>\<close>

record text_style =
  text_color :: color_types
  cursor_color :: color_types
  background_color :: color_types
  selection_text_color :: color_types
  selection_background_color :: color_types

definition default_text_style :: text_style where
  "default_text_style = \<lparr>text_color = TEXT_SECONDARY, cursor_color = TEXT, background_color = SECONDARY,
     selection_text_color = HIGHLIGHT_TEXT, selection_background_color = HIGHLIGHT_BACKGROUND\<rparr>"

record text_input_frame =
  tif_editor :: text_editor
  tif_style :: text_style
  tif_viewport :: rect
  tif_viewport_valid :: bool
  tif_visible_rows :: "(nat \<times> bool) list"

definition default_editor_options :: editor_options where
  "default_editor_options = \<lparr>tab_width = 4, fallback_width = 35, reserve_plain_enter = True\<rparr>"

definition new_text_frame :: "text_style \<Rightarrow> editor_options \<Rightarrow> text_input_frame" where
  "new_text_frame style opts = \<lparr>tif_editor = new_editor opts, tif_style = style,
     tif_viewport = \<lparr>rect_x = 0, rect_y = 0, rect_width = 0, rect_height = 0\<rparr>, tif_viewport_valid = False, tif_visible_rows = []\<rparr>"

definition tif_set_style :: "text_style \<Rightarrow> text_input_frame \<Rightarrow> text_input_frame" where
  "tif_set_style style f = f\<lparr>tif_style := style\<rparr>"

definition in_viewport :: "cell_position \<Rightarrow> rect \<Rightarrow> bool" where
  "in_viewport p r \<longleftrightarrow> cell_x p \<ge> rect_x r \<and> cell_y p \<ge> rect_y r \<and> cell_x p - rect_x r < rect_width r \<and>
     cell_y p - rect_y r < rect_height r"

definition tif_handle_event :: "event \<Rightarrow> text_input_frame \<Rightarrow> text_input_frame \<times> tui_status" where
  "tif_handle_event ev f =
     (case ev of
        Key_Event k \<Rightarrow> (f\<lparr>tif_editor := handle_key k (tif_editor f)\<rparr>, TUI_OK)
      | Text_Event t \<Rightarrow> (f\<lparr>tif_editor := handle_text t (tif_editor f)\<rparr>, TUI_OK)
      | Paste_Event p \<Rightarrow> (case handle_paste p (tif_editor f) of (e, st) \<Rightarrow> (f\<lparr>tif_editor := e\<rparr>, st))
      | Command_Event c \<Rightarrow> (f\<lparr>tif_editor := apply_command c (tif_editor f)\<rparr>, TUI_OK)
      | Scroll_Event s \<Rightarrow>
          (if tif_viewport_valid f \<and> delta_y s \<noteq> 0 \<and> in_viewport (scroll_position s) (tif_viewport f)
           then f\<lparr>tif_editor := scroll_vertical (delta_y s) (tif_editor f)\<rparr> else f, TUI_OK)
      | _ \<Rightarrow> (f, TUI_OK))"

definition tif_clear :: "text_input_frame \<Rightarrow> text_input_frame" where
  "tif_clear f =
     (let e = editor_clear (tif_editor f);
          e' = (if tif_viewport_valid f then set_viewport (rect_width (tif_viewport f)) (rect_height (tif_viewport f)) e else e)
      in f\<lparr>tif_editor := e', tif_visible_rows := []\<rparr>)"

definition tif_set_fallback_width :: "nat \<Rightarrow> text_input_frame \<Rightarrow> text_input_frame" where
  "tif_set_fallback_width w f = f\<lparr>tif_editor := set_fallback_width w (tif_editor f)\<rparr>"

definition tif_preferred_rows :: "nat \<Rightarrow> text_input_frame \<Rightarrow> nat" where
  "tif_preferred_rows w f = visual_row_count w (tif_editor f)"

text \<open>One cell of the drawing: text, selection, padding, and the caret on top.\<close>

definition tif_cell :: "tui_theme \<Rightarrow> text_style \<Rightarrow> render_state \<Rightarrow> nat \<Rightarrow> nat \<Rightarrow> cell" where
  "tif_cell theme style rendered row column =
     (let fg = get_color theme (text_color style); bg = get_color theme (background_color style);
          base = (if row < length (render_rows rendered) \<and> column < length (render_cells (render_rows rendered ! row))
            then case render_cells (render_rows rendered ! row) ! column of (ch, selected) \<Rightarrow>
              \<lparr>cell_char = ch, foreground = (if selected then get_color theme (selection_text_color style) else fg),
                background = (if selected then get_color theme (selection_background_color style) else bg)\<rparr>
            else \<lparr>cell_char = 0x20, foreground = fg, background = bg\<rparr>)
      in if render_cursor_row rendered = Some row \<and> column = render_cursor_column rendered
         then base\<lparr>foreground := bg, background := get_color theme (cursor_color style)\<rparr> else base)"

definition tif_draw :: "tui_theme \<Rightarrow> rect \<Rightarrow> text_input_frame \<times> canvas \<Rightarrow> (text_input_frame \<times> canvas) \<times> tui_status" where
  "tif_draw theme r fc =
     (case fc of (f, c) \<Rightarrow>
        if rect_width r = 0 \<or> rect_height r = 0 then ((f, c), INVALID_DIMENSIONS)
        else let e = set_viewport (rect_width r) (rect_height r) (tif_editor f);
                 rendered = editor_render_state e;
                 f' = f\<lparr>tif_editor := e\<rparr>
          in case write_cells r (cell_grid (rect_width r) (rect_height r) (tif_cell theme (tif_style f) rendered)) c of (c', st) \<Rightarrow>
            if st \<noteq> TUI_OK then ((f', c'), st)
            else ((f'\<lparr>tif_viewport := r, tif_viewport_valid := True,
                     tif_visible_rows := map (\<lambda>row. (logical_line row, first_visual_row row)) (render_rows rendered)\<rparr>, c'), TUI_OK))"

definition tif_update_selection :: "selection_event \<Rightarrow> text_input_frame \<Rightarrow> (text_input_frame \<times> tui_status) option" where
  "tif_update_selection ev f = map_option (\<lambda>(e, st). (f\<lparr>tif_editor := e\<rparr>, st)) (update_selection ev (tif_editor f))"

definition tif_place_cursor :: "selection_position \<Rightarrow> text_input_frame \<Rightarrow> text_input_frame \<times> tui_status" where
  "tif_place_cursor p f = (case place_cursor p (tif_editor f) of (e, st) \<Rightarrow> (f\<lparr>tif_editor := e\<rparr>, st))"

definition text_frame_ops :: "text_input_frame frame_ops" where
  "text_frame_ops = \<lparr>draw_op = tif_draw, selectable_op = (\<lambda>_. True), update_selection_op = tif_update_selection,
     selected_text_op = (\<lambda>f. selected_text (tif_editor f)), accepts_cursor_op = (\<lambda>_. True), place_cursor_op = tif_place_cursor\<rparr>"

section \<open>\<open>AnnotatedTextFrame\<close>\<close>

record line_status =
  status_line :: nat
  status_text :: "u32 list"
  status_color :: color_types

record annotated_configuration =
  show_line_numbers :: bool
  minimum_line_number_columns :: nat
  status_columns :: nat
  separator_columns :: nat
  minimum_gutter_width :: nat
  gutter_background :: color_types
  line_number_color :: color_types

record annotated_frame =
  ann_configuration :: annotated_configuration
  ann_statuses :: "nat \<Rightarrow> line_status option"
  last_gutter_width :: nat
  ann_geometry_valid :: bool

text \<open>The additional methods of \<open>AnnotatedTextSource\<close>.\<close>

record 'c text_source = "'c frame_ops" +
  source_line_count :: "'c \<Rightarrow> nat"
  source_visible_rows :: "'c \<Rightarrow> (nat \<times> bool) list"

definition text_frame_source :: "text_input_frame text_source" where
  "text_frame_source = frame_ops.extend text_frame_ops
     \<lparr>source_line_count = (\<lambda>f. logical_line_count (tif_editor f)), source_visible_rows = tif_visible_rows\<rparr>"

definition new_annotated :: "annotated_configuration \<Rightarrow> annotated_frame" where
  "new_annotated conf = \<lparr>ann_configuration = conf, ann_statuses = Map.empty, last_gutter_width = 0, ann_geometry_valid = False\<rparr>"

fun decimal_columns :: "nat \<Rightarrow> nat" where
  "decimal_columns n = (if n < 10 then 1 else Suc (decimal_columns (n div 10)))"

text \<open>\<open>std::to_string\<close>, as characters of cells.\<close>

fun decimal_text :: "nat \<Rightarrow> u32 list" where
  "decimal_text n = (if n < 10 then [word_of_nat (48 + n)] else decimal_text (n div 10) @ [word_of_nat (48 + n mod 10)])"

declare decimal_columns.simps [simp del] decimal_text.simps [simp del]

definition line_columns :: "annotated_configuration \<Rightarrow> nat \<Rightarrow> nat" where
  "line_columns conf lines =
     (if show_line_numbers conf then max (minimum_line_number_columns conf) (decimal_columns (max lines 1)) else 0)"

definition gutter_width :: "annotated_configuration \<Rightarrow> nat \<Rightarrow> nat" where
  "gutter_width conf lines =
     max (minimum_gutter_width conf) (sat_add (sat_add (status_columns conf) (line_columns conf lines)) (separator_columns conf))"

definition ann_set_configuration :: "annotated_configuration \<Rightarrow> annotated_frame \<Rightarrow> annotated_frame" where
  "ann_set_configuration conf a = a\<lparr>ann_configuration := conf, ann_geometry_valid := False\<rparr>"

definition ann_set_statuses :: "line_status list \<Rightarrow> annotated_frame \<Rightarrow> annotated_frame" where
  "ann_set_statuses statuses a = a\<lparr>ann_statuses := foldl (\<lambda>m s. m(status_line s \<mapsto> s)) Map.empty statuses\<rparr>"

definition ann_clear_statuses :: "annotated_frame \<Rightarrow> annotated_frame" where
  "ann_clear_statuses a = a\<lparr>ann_statuses := Map.empty\<rparr>"

definition ann_content_rect :: "nat \<Rightarrow> rect \<Rightarrow> rect option" where
  "ann_content_rect gutter r =
     (if gutter \<ge> rect_width r \<or> rect_height r = 0 \<or> gutter > size_max - rect_x r then None
      else Some (r\<lparr>rect_x := rect_x r + gutter, rect_width := rect_width r - gutter\<rparr>))"

definition gutter_cell :: "tui_theme \<Rightarrow> annotated_frame \<Rightarrow> nat \<Rightarrow> (nat \<times> bool) list \<Rightarrow> nat \<Rightarrow> nat \<Rightarrow> cell" where
  "gutter_cell theme a lines visible row column =
     (let conf = ann_configuration a; bg = get_color theme (gutter_background conf);
          blank = \<lparr>cell_char = 0x20, foreground = get_color theme TEXT, background = bg\<rparr>
      in if row \<ge> length visible \<or> \<not> snd (visible ! row) then blank
         else let line = fst (visible ! row); columns = line_columns conf lines;
                  number = decimal_text (Suc line); count = min columns (length number);
                  first = status_columns conf + columns - count
           in if show_line_numbers conf \<and> lines \<noteq> 0 \<and> line < lines \<and> first \<le> column \<and> column < first + count
              then blank\<lparr>cell_char := number ! (length number - count + (column - first)),
                        foreground := get_color theme (line_number_color conf)\<rparr>
              else case ann_statuses a line of
                  None \<Rightarrow> blank
                | Some marker \<Rightarrow>
                    if column < min (status_columns conf) (length (status_text marker))
                    then blank\<lparr>cell_char := status_text marker ! column, foreground := get_color theme (status_color marker)\<rparr>
                    else blank)"

definition ann_draw :: "'c text_source option \<Rightarrow> tui_theme \<Rightarrow> rect \<Rightarrow> (annotated_frame \<times> 'c) \<times> canvas \<Rightarrow>
    ((annotated_frame \<times> 'c) \<times> canvas) \<times> tui_status" where
  "ann_draw child theme r afc =
     (case afc of ((a, f), c) \<Rightarrow>
        case child of
          None \<Rightarrow> (afc, TUI_INVALID_ARGUMENT)
        | Some ops \<Rightarrow>
            let lines = source_line_count ops f; gutter = gutter_width (ann_configuration a) lines in
            case ann_content_rect gutter r of
              None \<Rightarrow> (afc, INVALID_DIMENSIONS)
            | Some child_rect \<Rightarrow>
                (case draw_op ops theme child_rect (f, c) of ((f', c'), st) \<Rightarrow>
                   if st \<noteq> TUI_OK then (((a, f'), c'), st)
                   else let a' = a\<lparr>last_gutter_width := gutter, ann_geometry_valid := True\<rparr> in
                     if gutter = 0 then (((a', f'), c'), TUI_OK)
                     else case write_cells (r\<lparr>rect_width := gutter\<rparr>)
                         (cell_grid gutter (rect_height r) (gutter_cell theme a lines (source_visible_rows ops f'))) c' of (c'', st') \<Rightarrow>
                       (((a', f'), c''), st')))"

definition ann_translate :: "annotated_frame \<Rightarrow> selection_position \<Rightarrow> selection_position" where
  "ann_translate a p = (if ann_geometry_valid a then p\<lparr>pos_x := pos_x p - signed_width (last_gutter_width a)\<rparr> else p)"

definition translate_event :: "(selection_position \<Rightarrow> selection_position) \<Rightarrow> selection_event \<Rightarrow> selection_event" where
  "translate_event f ev = ev\<lparr>sel_anchor := f (sel_anchor ev), sel_extent := f (sel_extent ev)\<rparr>"

definition ann_update_selection ::
    "'c text_source option \<Rightarrow> selection_event \<Rightarrow> annotated_frame \<times> 'c \<Rightarrow> ((annotated_frame \<times> 'c) \<times> tui_status) option" where
  "ann_update_selection child ev af =
     (case child of
        None \<Rightarrow> Some (af, TUI_INVALID_ARGUMENT)
      | Some ops \<Rightarrow>
          map_option (\<lambda>(f, st). ((fst af, f), st)) (update_selection_op ops (translate_event (ann_translate (fst af)) ev) (snd af)))"

definition ann_place_cursor ::
    "'c text_source option \<Rightarrow> selection_position \<Rightarrow> annotated_frame \<times> 'c \<Rightarrow> (annotated_frame \<times> 'c) \<times> tui_status" where
  "ann_place_cursor child p af =
     (case child of
        None \<Rightarrow> (af, TUI_INVALID_ARGUMENT)
      | Some ops \<Rightarrow>
          if ann_geometry_valid (fst af) \<and> pos_x p < signed_width (last_gutter_width (fst af)) then (af, TUI_OK)
          else case place_cursor_op ops (ann_translate (fst af) p) (snd af) of (f, st) \<Rightarrow> ((fst af, f), st))"

definition annotated_ops :: "'c text_source option \<Rightarrow> (annotated_frame \<times> 'c) frame_ops" where
  "annotated_ops child = \<lparr>draw_op = ann_draw child,
     selectable_op = (\<lambda>af. case child of None \<Rightarrow> False | Some ops \<Rightarrow> selectable_op ops (snd af)),
     update_selection_op = ann_update_selection child,
     selected_text_op = (\<lambda>af. case child of None \<Rightarrow> ([], TUI_INVALID_ARGUMENT) | Some ops \<Rightarrow> selected_text_op ops (snd af)),
     accepts_cursor_op = (\<lambda>af. case child of None \<Rightarrow> False | Some ops \<Rightarrow> accepts_cursor_op ops (snd af)),
     place_cursor_op = ann_place_cursor child\<rparr>"

section \<open>\<open>BoundingFrame\<close>\<close>

record frame_margins =
  margin_top :: nat
  margin_bottom :: nat
  margin_left :: nat
  margin_right :: nat

definition no_margins :: frame_margins where
  "no_margins = \<lparr>margin_top = 0, margin_bottom = 0, margin_left = 0, margin_right = 0\<rparr>"

record size_constraints =
  minimum_width :: nat
  minimum_height :: nat
  maximum_width :: "nat option"
  maximum_height :: "nat option"
  require_full_canvas_width :: bool

record bounding_configuration =
  outer_margins :: frame_margins
  inner_margins :: frame_margins
  outside_box_color :: "color_types option"
  inside_color :: color_types
  border_color :: "color_types option"
  size_limits :: size_constraints

record bounding_frame =
  bnd_configuration :: bounding_configuration
  child_offset_x :: nat
  child_offset_y :: nat
  bnd_geometry_valid :: bool

definition new_bounding :: "bounding_configuration \<Rightarrow> bounding_frame" where
  "new_bounding conf = \<lparr>bnd_configuration = conf, child_offset_x = 0, child_offset_y = 0, bnd_geometry_valid = False\<rparr>"

definition inset :: "rect \<Rightarrow> frame_margins \<Rightarrow> rect option" where
  "inset r m =
     (if margin_left m > rect_width r \<or> margin_right m > rect_width r - margin_left m \<or>
         margin_top m > rect_height r \<or> margin_bottom m > rect_height r - margin_top m \<or>
         margin_left m > size_max - rect_x r \<or> margin_top m > size_max - rect_y r then None
      else Some \<lparr>rect_x = rect_x r + margin_left m, rect_y = rect_y r + margin_top m,
        rect_width = rect_width r - margin_left m - margin_right m, rect_height = rect_height r - margin_top m - margin_bottom m\<rparr>)"

definition one_cell_margins :: frame_margins where
  "one_cell_margins = \<lparr>margin_top = 1, margin_bottom = 1, margin_left = 1, margin_right = 1\<rparr>"

definition not_empty :: "rect option \<Rightarrow> rect option" where
  "not_empty r = (case r of None \<Rightarrow> None | Some b \<Rightarrow> if rect_width b = 0 \<or> rect_height b = 0 then None else Some b)"

definition bnd_content_rect :: "rect \<Rightarrow> bounding_configuration \<Rightarrow> rect option" where
  "bnd_content_rect r conf =
     (case inset r (outer_margins conf) of
        None \<Rightarrow> None
      | Some box \<Rightarrow>
          (case (if border_color conf \<noteq> None then inset box one_cell_margins else Some box) of
             None \<Rightarrow> None
           | Some inner \<Rightarrow> not_empty (inset inner (inner_margins conf))))"

definition bnd_box_rect :: "rect \<Rightarrow> bounding_configuration \<Rightarrow> rect option" where
  "bnd_box_rect r conf = not_empty (inset r (outer_margins conf))"

definition bnd_set_configuration :: "bounding_configuration \<Rightarrow> bounding_frame \<Rightarrow> bounding_frame" where
  "bnd_set_configuration conf b = b\<lparr>bnd_configuration := conf, bnd_geometry_valid := False\<rparr>"

definition bnd_set_size_constraints :: "size_constraints \<Rightarrow> bounding_frame \<Rightarrow> bounding_frame" where
  "bnd_set_size_constraints limits b =
     b\<lparr>bnd_configuration := (bnd_configuration b)\<lparr>size_limits := limits\<rparr>, bnd_geometry_valid := False\<rparr>"

definition exceeds :: "nat \<Rightarrow> nat option \<Rightarrow> bool" where
  "exceeds n limit = (case limit of None \<Rightarrow> False | Some m \<Rightarrow> n > m)"

definition size_refused :: "size_constraints \<Rightarrow> nat \<Rightarrow> rect \<Rightarrow> bool" where
  "size_refused limits canvas_w r \<longleftrightarrow>
     minimum_width limits = 0 \<or> minimum_height limits = 0 \<or> exceeds (minimum_width limits) (maximum_width limits) \<or>
     exceeds (minimum_height limits) (maximum_height limits) \<or> rect_width r < minimum_width limits \<or>
     rect_height r < minimum_height limits \<or> exceeds (rect_width r) (maximum_width limits) \<or>
     exceeds (rect_height r) (maximum_height limits) \<or>
     require_full_canvas_width limits \<and> (rect_x r \<noteq> 0 \<or> rect_width r \<noteq> canvas_w)"

definition box_glyph :: "nat \<Rightarrow> nat \<Rightarrow> nat \<Rightarrow> nat \<Rightarrow> u32 option" where
  "box_glyph right bottom y x =
     (if y = 0 \<and> x = 0 then Some 0x250c else if y = 0 \<and> x = right then Some 0x2510
      else if y = bottom \<and> x = 0 then Some 0x2514 else if y = bottom \<and> x = right then Some 0x2518
      else if y = 0 \<or> y = bottom then Some 0x2500 else if x = 0 \<or> x = right then Some 0x2502 else None)"

definition box_cell :: "tui_theme \<Rightarrow> bounding_configuration \<Rightarrow> rect \<Rightarrow> nat \<Rightarrow> nat \<Rightarrow> cell" where
  "box_cell theme conf box y x =
     (let blank = \<lparr>cell_char = 0x20, foreground = get_color theme TEXT, background = get_color theme (inside_color conf)\<rparr>;
          outside = get_color theme (case outside_box_color conf of None \<Rightarrow> BACKGROUND | Some role \<Rightarrow> role)
      in case border_color conf of
          None \<Rightarrow> blank
        | Some border \<Rightarrow>
            (case box_glyph (rect_width box - 1) (rect_height box - 1) y x of
               None \<Rightarrow> blank
             | Some glyph \<Rightarrow> \<lparr>cell_char = glyph, foreground = get_color theme border, background = outside\<rparr>))"

text \<open>The three steps of drawing: the optional fill, the box, and the child.\<close>

definition bnd_fill :: "tui_theme \<Rightarrow> bounding_configuration \<Rightarrow> rect \<Rightarrow> canvas \<Rightarrow> canvas \<times> tui_status" where
  "bnd_fill theme conf r c =
     (case outside_box_color conf of
        None \<Rightarrow> (c, TUI_OK)
      | Some role \<Rightarrow> write_cells r (cell_grid (rect_width r) (rect_height r)
          (\<lambda>_ _. \<lparr>cell_char = 0x20, foreground = get_color theme TEXT, background = get_color theme role\<rparr>)) c)"

definition bnd_box :: "tui_theme \<Rightarrow> bounding_configuration \<Rightarrow> rect \<Rightarrow> canvas \<Rightarrow> canvas \<times> tui_status" where
  "bnd_box theme conf box c =
     (if border_color conf \<noteq> None \<and> (rect_width box < 2 \<or> rect_height box < 2) then (c, INVALID_DIMENSIONS)
      else write_cells box (cell_grid (rect_width box) (rect_height box) (box_cell theme conf box)) c)"

definition bnd_draw :: "'c frame_ops option \<Rightarrow> tui_theme \<Rightarrow> rect \<Rightarrow> (bounding_frame \<times> 'c) \<times> canvas \<Rightarrow>
    ((bounding_frame \<times> 'c) \<times> canvas) \<times> tui_status" where
  "bnd_draw child theme r bfc =
     (case bfc of ((b, f), c) \<Rightarrow>
        case child of
          None \<Rightarrow> (bfc, TUI_INVALID_ARGUMENT)
        | Some ops \<Rightarrow>
            let conf = bnd_configuration b in
            if size_refused (size_limits conf) (canvas_width c) r then (bfc, INVALID_DIMENSIONS)
            else if rect_x r > canvas_width c \<or> rect_y r > canvas_height c \<or> rect_width r > canvas_width c - rect_x r \<or>
                    rect_height r > canvas_height c - rect_y r then (bfc, RECT_OUT_OF_BOUNDS)
            else case (bnd_box_rect r conf, bnd_content_rect r conf) of
                (Some box, Some content) \<Rightarrow>
                  (case bnd_fill theme conf r c of (c1, st1) \<Rightarrow>
                     if st1 \<noteq> TUI_OK then (((b, f), c1), st1)
                     else case bnd_box theme conf box c1 of (c2, st2) \<Rightarrow>
                       if st2 \<noteq> TUI_OK then (((b, f), c2), st2)
                       else let b' = b\<lparr>child_offset_x := rect_x content - rect_x r, child_offset_y := rect_y content - rect_y r,
                                      bnd_geometry_valid := True\<rparr>
                         in case draw_op ops theme content (f, c2) of ((f', c3), st3) \<Rightarrow> (((b', f'), c3), st3))
              | _ \<Rightarrow> (bfc, INVALID_DIMENSIONS))"

definition bnd_translate :: "bounding_frame \<Rightarrow> selection_position \<Rightarrow> selection_position" where
  "bnd_translate b p =
     (if bnd_geometry_valid b
      then \<lparr>pos_x = pos_x p - signed_width (child_offset_x b), pos_y = pos_y p - signed_width (child_offset_y b)\<rparr> else p)"

definition bounding_ops :: "'c frame_ops option \<Rightarrow> (bounding_frame \<times> 'c) frame_ops" where
  "bounding_ops child = \<lparr>draw_op = bnd_draw child,
     selectable_op = (\<lambda>bf. case child of None \<Rightarrow> False | Some ops \<Rightarrow> selectable_op ops (snd bf)),
     update_selection_op = (\<lambda>ev bf. case child of
         None \<Rightarrow> Some (bf, TUI_INVALID_ARGUMENT)
       | Some ops \<Rightarrow> map_option (\<lambda>(f, st). ((fst bf, f), st))
           (update_selection_op ops (translate_event (bnd_translate (fst bf)) ev) (snd bf))),
     selected_text_op = (\<lambda>bf. case child of None \<Rightarrow> ([], TUI_INVALID_ARGUMENT) | Some ops \<Rightarrow> selected_text_op ops (snd bf)),
     accepts_cursor_op = (\<lambda>bf. case child of None \<Rightarrow> False | Some ops \<Rightarrow> accepts_cursor_op ops (snd bf)),
     place_cursor_op = (\<lambda>p bf. case child of
         None \<Rightarrow> (bf, TUI_INVALID_ARGUMENT)
       | Some ops \<Rightarrow> (case place_cursor_op ops (bnd_translate (fst bf) p) (snd bf) of (f, st) \<Rightarrow> ((fst bf, f), st)))\<rparr>"

section \<open>\<open>MessageFrame\<close>\<close>

record message_frame =
  message_text :: bytes
  message_foreground :: color_types
  message_background :: color_types

definition message_draw :: "tui_theme \<Rightarrow> rect \<Rightarrow> message_frame \<times> canvas \<Rightarrow> (message_frame \<times> canvas) \<times> tui_status" where
  "message_draw theme r mc =
     (case mc of (m, c) \<Rightarrow>
        if rect_width r = 0 \<or> rect_height r = 0 then (mc, TUI_OK)
        else let count = min (rect_width r) (length (message_text m));
                 row = map (\<lambda>b. \<lparr>cell_char = ucast b, foreground = get_color theme (message_foreground m),
                    background = get_color theme (message_background m)\<rparr>) (take count (message_text m))
          in case write_cells \<lparr>rect_x = rect_x r + (rect_width r - count) div 2, rect_y = rect_y r + rect_height r div 2,
                rect_width = count, rect_height = 1\<rparr> [row] c of (c', st) \<Rightarrow> ((m, c'), st))"

definition message_ops :: "message_frame frame_ops" where
  "message_ops = plain_frame message_draw"

section \<open>\<open>CmdFrame\<close>\<close>

record help_span =
  span_text :: "u32 list"
  span_foreground :: color_types
  span_background :: color_types

record help_row =
  plain_text :: bytes
  help_spans :: "help_span list"

record cmd_completion =
  completion_command :: bytes
  completion_description :: bytes

record cmd_frame =
  cmd_input :: text_input_frame
  cmd_annotated :: annotated_frame
  cmd_help :: "help_row list"

definition default_gutter :: annotated_configuration where
  "default_gutter = \<lparr>show_line_numbers = True, minimum_line_number_columns = 2, status_columns = 0, separator_columns = 1,
     minimum_gutter_width = 0, gutter_background = SECONDARY, line_number_color = TEXT_MUTED\<rparr>"

definition new_cmd_frame :: cmd_frame where
  "new_cmd_frame = \<lparr>cmd_input = new_text_frame \<lparr>text_color = TEXT_SUCCESS, cursor_color = TEXT_SUCCESS, background_color = SECONDARY,
       selection_text_color = HIGHLIGHT_TEXT, selection_background_color = HIGHLIGHT_BACKGROUND\<rparr> default_editor_options,
     cmd_annotated = new_annotated default_gutter, cmd_help = []\<rparr>"

definition append_span :: "bytes \<Rightarrow> color_types \<Rightarrow> color_types \<Rightarrow> help_row \<Rightarrow> help_row" where
  "append_span t fg bg row = row\<lparr>plain_text := plain_text row @ t,
     help_spans := help_spans row @ [\<lparr>span_text = decode_utf8 t, span_foreground = fg, span_background = bg\<rparr>]\<rparr>"

definition empty_help_row :: help_row where
  "empty_help_row = \<lparr>plain_text = [], help_spans = []\<rparr>"

definition cmd_handle_event :: "event \<Rightarrow> cmd_frame \<Rightarrow> cmd_frame \<times> tui_status" where
  "cmd_handle_event ev f = (case tif_handle_event ev (cmd_input f) of (i, st) \<Rightarrow> (f\<lparr>cmd_input := i\<rparr>, st))"

definition cmd_clear :: "cmd_frame \<Rightarrow> cmd_frame" where
  "cmd_clear f = f\<lparr>cmd_input := tif_clear (cmd_input f)\<rparr>"

definition cmd_replace_text :: "bytes \<Rightarrow> cmd_frame \<Rightarrow> cmd_frame \<times> tui_status" where
  "cmd_replace_text t f =
     (let f' = cmd_clear f in if t = [] then (f', TUI_OK) else cmd_handle_event (Text_Event \<lparr>text_utf8 = t\<rparr>) f')"

definition cmd_gutter_width :: "cmd_frame \<Rightarrow> nat" where
  "cmd_gutter_width f = gutter_width (ann_configuration (cmd_annotated f)) (logical_line_count (tif_editor (cmd_input f)))"

definition cmd_preferred_rows :: "nat \<Rightarrow> cmd_frame \<Rightarrow> nat" where
  "cmd_preferred_rows width f =
     (let gutter = cmd_gutter_width f in if width > gutter then tif_preferred_rows (width - gutter) (cmd_input f) else 0)"

definition kDescriptionGap :: nat where
  "kDescriptionGap = 8"

definition completion_row :: "bytes \<Rightarrow> nat \<Rightarrow> bool \<Rightarrow> cmd_completion \<Rightarrow> help_row" where
  "completion_row typed_prefix longest selected completion =
     (let command = completion_command completion;
          row1 = append_span (if selected then [0x3e, 0x20] else [0x20, 0x20])
            (if selected then TEXT_SUCCESS else TEXT_MUTED) BACKGROUND empty_help_row;
          matched = (if prefix typed_prefix command then length typed_prefix else 0);
          row2 = append_span (take matched command) HIGHLIGHT_TEXT HIGHLIGHT_BACKGROUND row1;
          row3 = append_span (drop matched command) TEXT_SECONDARY BACKGROUND row2
      in if completion_description completion = [] then row3
         else append_span (completion_description completion) TERTIARY BACKGROUND
           (append_span (replicate (longest - length (decode_utf8 command) + kDescriptionGap) 0x20) TEXT_MUTED BACKGROUND row3))"

definition cmd_set_completions :: "bytes \<Rightarrow> cmd_completion list \<Rightarrow> nat \<Rightarrow> cmd_frame \<Rightarrow> cmd_frame" where
  "cmd_set_completions typed_prefix completions selected f =
     (let longest = foldl max 0 (map (\<lambda>c. length (decode_utf8 (completion_command c))) completions);
          selected' = (if completions \<noteq> [] then min selected (length completions - 1) else selected)
      in f\<lparr>cmd_help := map (\<lambda>(index, c). completion_row typed_prefix longest (index = selected') c) (enumerate 0 completions)\<rparr>)"

definition cmd_set_usage :: "bytes list \<Rightarrow> cmd_frame \<Rightarrow> cmd_frame" where
  "cmd_set_usage usage f = f\<lparr>cmd_help := map (\<lambda>t. append_span t TEXT_MUTED BACKGROUND empty_help_row) usage\<rparr>"

definition cmd_clear_help :: "cmd_frame \<Rightarrow> cmd_frame" where
  "cmd_clear_help f = f\<lparr>cmd_help := []\<rparr>"

definition cmd_help_text :: "cmd_frame \<Rightarrow> bytes list" where
  "cmd_help_text f = map plain_text (cmd_help f)"

definition help_cells :: "tui_theme \<Rightarrow> nat \<Rightarrow> help_row \<Rightarrow> cell list" where
  "help_cells theme width row =
     take width (concat (map (\<lambda>s. map (\<lambda>ch. \<lparr>cell_char = ch, foreground = get_color theme (span_foreground s),
       background = get_color theme (span_background s)\<rparr>) (span_text s)) (help_spans row)))"

fun draw_help_rows :: "tui_theme \<Rightarrow> rect \<Rightarrow> nat \<Rightarrow> help_row list \<Rightarrow> canvas \<Rightarrow> canvas \<times> tui_status" where
  "draw_help_rows theme r y [] c = (c, TUI_OK)"
| "draw_help_rows theme r y (row # rows) c =
     (let cells = help_cells theme (rect_width r) row in
      if cells = [] then draw_help_rows theme r (Suc y) rows c
      else case write_cells \<lparr>rect_x = rect_x r, rect_y = y, rect_width = length cells, rect_height = 1\<rparr> [cells] c of (c', st) \<Rightarrow>
        if st \<noteq> TUI_OK then (c', st) else draw_help_rows theme r (Suc y) rows c')"

definition cmd_draw_help :: "tui_theme \<Rightarrow> rect \<Rightarrow> cmd_frame \<Rightarrow> canvas \<Rightarrow> canvas \<times> tui_status" where
  "cmd_draw_help theme r f c =
     (if rect_width r = 0 \<or> rect_height r = 0 then (c, TUI_OK)
      else draw_help_rows theme r (rect_y r) (take (rect_height r) (cmd_help f)) c)"

text \<open>Drawing and pointer operations go through the gutter of the text.\<close>

abbreviation "annotated_text \<equiv> annotated_ops (Some text_frame_source)"

definition cmd_parts :: "cmd_frame \<Rightarrow> annotated_frame \<times> text_input_frame" where
  "cmd_parts f = (cmd_annotated f, cmd_input f)"

definition set_cmd_parts :: "cmd_frame \<Rightarrow> annotated_frame \<times> text_input_frame \<Rightarrow> cmd_frame" where
  "set_cmd_parts f p = f\<lparr>cmd_annotated := fst p, cmd_input := snd p\<rparr>"

definition cmd_ops :: "cmd_frame frame_ops" where
  "cmd_ops = \<lparr>draw_op = (\<lambda>theme r (f, c). case draw_op annotated_text theme r (cmd_parts f, c) of ((p, c'), st) \<Rightarrow> ((set_cmd_parts f p, c'), st)),
     selectable_op = (\<lambda>f. selectable_op annotated_text (cmd_parts f)),
     update_selection_op = (\<lambda>ev f. map_option (\<lambda>(p, st). (set_cmd_parts f p, st)) (update_selection_op annotated_text ev (cmd_parts f))),
     selected_text_op = (\<lambda>f. selected_text_op annotated_text (cmd_parts f)),
     accepts_cursor_op = (\<lambda>f. accepts_cursor_op annotated_text (cmd_parts f)),
     place_cursor_op = (\<lambda>p f. case place_cursor_op annotated_text p (cmd_parts f) of (q, st) \<Rightarrow> (set_cmd_parts f q, st))\<rparr>"

end
