(* ===== verification/Input_Frame.thy ===== *)
theory Input_Frame
  imports Frames
begin

text \<open>
  \<open>IntegratedTermFrame\<close> and \<open>InputFrame\<close> of \<open>puc-cli/tui/frames\<close>: the view of the embedded
  terminal, and the coordinator of the normal, command and terminal modes above it and the two
  editors. The vendored terminal emulator (libtmt) is a parameter, a record of its functions; the
  callbacks it makes during a call are the messages that call returns. The monotonic clock is an
  integer of nanoseconds.
\<close>

section \<open>\<open>IntegratedTermFrame\<close>\<close>

datatype tmt_color = TMT_DEFAULT | TMT_BLACK | TMT_RED | TMT_GREEN | TMT_YELLOW | TMT_BLUE | TMT_MAGENTA | TMT_CYAN | TMT_WHITE
  | TMT_MAX

record tmt_char =
  tmt_c :: u32
  tmt_bold :: bool
  tmt_dim :: bool
  tmt_reverse :: bool
  tmt_invisible :: bool
  tmt_fg :: tmt_color
  tmt_bg :: tmt_color

datatype tmt_msg = TMT_ANSWER bytes | TMT_CURSOR bool | TMT_OTHER

text \<open>\<open>TMTSCREEN\<close>: the numbers of lines and columns stand beside the lines.\<close>

record tmtscreen =
  nline :: nat
  ncol :: nat
  tmt_lines :: "tmt_char list list"

record 't tmt_ops =
  tmt_open :: "nat \<Rightarrow> nat \<Rightarrow> ('t \<times> tmt_msg list) option"
  tmt_resize :: "nat \<Rightarrow> nat \<Rightarrow> 't \<Rightarrow> 't \<times> tmt_msg list \<times> bool"
  tmt_write :: "bytes \<Rightarrow> 't \<Rightarrow> 't \<times> tmt_msg list"
  tmt_screen :: "'t \<Rightarrow> tmtscreen"
  tmt_cursor :: "'t \<Rightarrow> nat \<times> nat"
  tmt_clean :: "'t \<Rightarrow> 't"
  tmt_reset :: "'t \<Rightarrow> 't \<times> tmt_msg list"

record term_style =
  term_text_color :: color_types
  term_background_color :: color_types
  term_cursor_color :: color_types

definition default_term_style :: term_style where
  "default_term_style = \<lparr>term_text_color = TEXT_SECONDARY, term_background_color = SECONDARY, term_cursor_color = TERTIARY\<rparr>"

text \<open>
  \<open>out_of_bounds\<close> is not a field of the class: it records that a drawing has accessed memory outside
  its vector of cells or outside the lines of the emulator, after which C++ promises nothing.
\<close>

record 't term_frame =
  term_style_of :: term_style
  emulator :: "'t option"
  term_rows :: nat
  term_columns :: nat
  cursor_visible :: bool
  pending_output :: bytes
  responses :: bytes
  session_active :: bool
  generation :: nat
  out_of_bounds :: bool

definition new_term_frame :: "term_style \<Rightarrow> 't term_frame" where
  "new_term_frame style = \<lparr>term_style_of = style, emulator = None, term_rows = 0, term_columns = 0, cursor_visible = True,
     pending_output = [], responses = [], session_active = False, generation = 0, out_of_bounds = False\<rparr>"

fun tmt_callback :: "tmt_msg \<Rightarrow> 't term_frame \<Rightarrow> 't term_frame" where
  "tmt_callback (TMT_ANSWER result) f = f\<lparr>responses := responses f @ result\<rparr>"
| "tmt_callback (TMT_CURSOR visible) f = f\<lparr>cursor_visible := visible\<rparr>"
| "tmt_callback TMT_OTHER f = f"

text \<open>The emulator changed, with the callbacks made meanwhile.\<close>

definition with_emulator :: "'t \<times> tmt_msg list \<Rightarrow> 't term_frame \<Rightarrow> 't term_frame" where
  "with_emulator r f = fold tmt_callback (snd r) (f\<lparr>emulator := Some (fst r)\<rparr>)"

definition ensure_terminal :: "'t tmt_ops \<Rightarrow> nat \<Rightarrow> nat \<Rightarrow> 't term_frame \<Rightarrow> 't term_frame \<times> bool" where
  "ensure_terminal tmt rows columns f =
     (if rows < 2 \<or> columns < 2 then (f, False)
      else case emulator f of
          None \<Rightarrow>
            (case tmt_open tmt rows columns of
               None \<Rightarrow> (f, False)
             | Some opened \<Rightarrow>
                 let f1 = (with_emulator opened f)\<lparr>term_rows := rows, term_columns := columns\<rparr> in
                 if pending_output f1 = [] then (f1, True)
                 else ((with_emulator (tmt_write tmt (pending_output f1) (the (emulator f1))) f1)\<lparr>pending_output := []\<rparr>, True))
        | Some vt \<Rightarrow>
            if term_rows f = rows \<and> term_columns f = columns then (f, True)
            else case tmt_resize tmt rows columns vt of (vt', msgs, ok) \<Rightarrow>
              let f1 = with_emulator (vt', msgs) f in
              if ok then (f1\<lparr>term_rows := rows, term_columns := columns\<rparr>, True) else (f1, False))"

definition destroy_terminal :: "'t term_frame \<Rightarrow> 't term_frame" where
  "destroy_terminal f = f\<lparr>emulator := None, term_rows := 0, term_columns := 0, cursor_visible := True, pending_output := [],
     responses := []\<rparr>"

definition begin_new_session :: "bool \<Rightarrow> 't term_frame \<Rightarrow> 't term_frame" where
  "begin_new_session preserve f =
     (let pending = (if preserve then pending_output f else []) in
      (destroy_terminal f)\<lparr>pending_output := pending, session_active := True,
        generation := (if generation f = size_max then 1 else generation f + 1)\<rparr>)"

definition term_write :: "'t tmt_ops \<Rightarrow> bytes \<Rightarrow> 't term_frame \<Rightarrow> 't term_frame \<times> tui_status" where
  "term_write tmt output f =
     (case emulator f of
        None \<Rightarrow> (f\<lparr>pending_output := pending_output f @ output\<rparr>, TUI_OK)
      | Some vt \<Rightarrow> (with_emulator (tmt_write tmt output vt) f, TUI_OK))"

definition take_responses :: "'t term_frame \<Rightarrow> 't term_frame \<times> bytes" where
  "take_responses f = (f\<lparr>responses := []\<rparr>, responses f)"

definition term_reset :: "'t tmt_ops \<Rightarrow> 't term_frame \<Rightarrow> 't term_frame" where
  "term_reset tmt f =
     (let f' = f\<lparr>pending_output := []\<rparr> in
      case emulator f' of None \<Rightarrow> f' | Some vt \<Rightarrow> with_emulator (tmt_reset tmt vt) f')"

definition activate_session :: "'t term_frame \<Rightarrow> 't term_frame" where
  "activate_session f = (if session_active f then f else begin_new_session (generation f = 0) f)"

definition start_new_session :: "'t term_frame \<Rightarrow> 't term_frame" where
  "start_new_session f = begin_new_session False f"

definition close_session :: "'t term_frame \<Rightarrow> 't term_frame" where
  "close_session f = (destroy_terminal f)\<lparr>session_active := False\<rparr>"

definition terminal_character :: "u32 \<Rightarrow> u32" where
  "terminal_character ch = (if ch > 0x10ffff \<or> (ch \<ge> 0xd800 \<and> ch \<le> 0xdfff) then 0xfffd else ch)"

fun terminal_color :: "tmt_color \<Rightarrow> u32 \<Rightarrow> tui_theme \<Rightarrow> u32" where
  "terminal_color TMT_BLACK fallback theme = get_color theme BACKGROUND"
| "terminal_color TMT_RED fallback theme = get_color theme TEXT_ERROR"
| "terminal_color TMT_GREEN fallback theme = get_color theme TEXT_SUCCESS"
| "terminal_color TMT_YELLOW fallback theme = get_color theme TEXT_WARNING"
| "terminal_color TMT_BLUE fallback theme = get_color theme PRIMARY_COLOR"
| "terminal_color TMT_MAGENTA fallback theme = get_color theme TERTIARY"
| "terminal_color TMT_CYAN fallback theme = get_color theme TEXT_INFO"
| "terminal_color TMT_WHITE fallback theme = get_color theme TEXT"
| "terminal_color _ fallback theme = fallback"

definition emulated_cell :: "tui_theme \<Rightarrow> u32 \<Rightarrow> u32 \<Rightarrow> tmt_char \<Rightarrow> cell" where
  "emulated_cell theme default_fg default_bg ch =
     (let fg0 = terminal_color (tmt_fg ch) default_fg theme; bg0 = terminal_color (tmt_bg ch) default_bg theme;
          fg1 = (if tmt_bold ch \<and> tmt_fg ch = TMT_DEFAULT \<and> get_color theme TEXT_EMPHASIS \<noteq> 0 then get_color theme TEXT_EMPHASIS else fg0);
          fg2 = (if tmt_dim ch \<and> get_color theme TEXT_MUTED \<noteq> 0 then get_color theme TEXT_MUTED else fg1);
          fg3 = (if tmt_reverse ch then bg0 else fg2); bg3 = (if tmt_reverse ch then fg2 else bg0)
      in \<lparr>cell_char = terminal_character (tmt_c ch), foreground = (if tmt_invisible ch then bg3 else fg3), background = bg3\<rparr>)"

text \<open>
  The loop over the screen. The source tests neither the index into the cells nor the one into the
  lines of the emulator; an access outside either is recorded in the flag, and the rest of the loop
  is what the code computes if that access did no harm.
\<close>

fun copy_screen :: "tui_theme \<Rightarrow> u32 \<Rightarrow> u32 \<Rightarrow> tmtscreen \<Rightarrow> (nat \<times> nat) list \<Rightarrow> cell list list \<times> bool \<Rightarrow> cell list list \<times> bool" where
  "copy_screen theme fg bg screen [] acc = acc"
| "copy_screen theme fg bg screen ((row, column) # ps) (cells, stray) =
     (if row < length (tmt_lines screen) \<and> column < length (tmt_lines screen ! row) \<and> row < length cells \<and> column < length (cells ! row)
      then copy_screen theme fg bg screen ps
        (cells[row := (cells ! row)[column := emulated_cell theme fg bg (tmt_lines screen ! row ! column)]], stray)
      else copy_screen theme fg bg screen ps (cells, True))"

definition screen_positions :: "tmtscreen \<Rightarrow> (nat \<times> nat) list" where
  "screen_positions screen = List.product [0..<nline screen] [0..<ncol screen]"

definition cursor_cell :: "u32 \<Rightarrow> cell \<Rightarrow> cell" where
  "cursor_cell color v = v\<lparr>foreground := background v, background := color\<rparr>"

definition term_draw :: "'t tmt_ops \<Rightarrow> tui_theme \<Rightarrow> rect \<Rightarrow> 't term_frame \<times> canvas \<Rightarrow> ('t term_frame \<times> canvas) \<times> tui_status" where
  "term_draw tmt theme r fc =
     (case fc of (f, c) \<Rightarrow>
        if rect_width r < 2 \<or> rect_height r < 2 then (fc, INVALID_DIMENSIONS)
        else case ensure_terminal tmt (rect_height r) (rect_width r) f of (f1, ok) \<Rightarrow>
          if \<not> ok then ((f1, c), TERMINAL_CONFIG_FAILED)
          else let vt = the (emulator f1);
                   fg = get_color theme (term_text_color (term_style_of f1));
                   bg = get_color theme (term_background_color (term_style_of f1));
                   blank = cell_grid (rect_width r) (rect_height r) (\<lambda>_ _. \<lparr>cell_char = 0x20, foreground = fg, background = bg\<rparr>);
                   screen = tmt_screen tmt vt;
                   (cells, stray) = copy_screen theme fg bg screen (screen_positions screen) (blank, False);
                   (row, column) = tmt_cursor tmt vt;
                   cells' = (if cursor_visible f1 \<and> row < rect_height r \<and> column < rect_width r
                     then cells[row := (cells ! row)
                       [column := cursor_cell (get_color theme (term_cursor_color (term_style_of f1))) (cells ! row ! column)]]
                     else cells)
            in case write_cells r cells' c of (c', st) \<Rightarrow>
                 ((f1\<lparr>emulator := Some (tmt_clean tmt vt), out_of_bounds := out_of_bounds f1 \<or> stray\<rparr>, c'), st))"

definition term_ops :: "'t tmt_ops \<Rightarrow> 't term_frame frame_ops" where
  "term_ops tmt = plain_frame (term_draw tmt)"

section \<open>\<open>InputFrame\<close>\<close>

datatype input_mode = NORMAL_MODE | COMMAND_MODE | TERMINAL_MODE

record 't input_frame =
  normal_input :: text_input_frame
  normal_annotated :: annotated_frame
  command_frame :: cmd_frame
  terminal_frame :: "'t term_frame"
  normal_bounding :: bounding_frame
  command_bounding :: bounding_frame
  terminal_bounding :: bounding_frame
  if_mode :: input_mode
  terminal_visible :: bool
  escape_started :: "int option"
  notification :: bytes

definition kMinimumWidth :: nat where
  "kMinimumWidth = 40"

definition kMinimumHeight :: nat where
  "kMinimumHeight = 5"

definition kTerminalMinimumHeight :: nat where
  "kTerminalMinimumHeight = 6"

definition kBaselineMaximumHeight :: nat where
  "kBaselineMaximumHeight = 7"

definition kDoubleEscapeInterval :: int where
  "kDoubleEscapeInterval = 500 * 1000000"

definition editor_bounds :: "color_types \<Rightarrow> bounding_configuration" where
  "editor_bounds border = \<lparr>outer_margins = no_margins\<lparr>margin_top := 1, margin_bottom := 1\<rparr>, inner_margins = no_margins,
     outside_box_color = Some BACKGROUND, inside_color = SECONDARY, border_color = Some border,
     size_limits = \<lparr>minimum_width = kMinimumWidth, minimum_height = kMinimumHeight, maximum_width = None, maximum_height = None,
       require_full_canvas_width = True\<rparr>\<rparr>"

definition terminal_bounds :: bounding_configuration where
  "terminal_bounds = \<lparr>outer_margins = no_margins\<lparr>margin_top := 1, margin_bottom := 1\<rparr>, inner_margins = no_margins\<lparr>margin_left := 3\<rparr>,
     outside_box_color = Some BACKGROUND, inside_color = SECONDARY, border_color = Some TERTIARY,
     size_limits = \<lparr>minimum_width = kMinimumWidth, minimum_height = kTerminalMinimumHeight, maximum_width = None, maximum_height = None,
       require_full_canvas_width = True\<rparr>\<rparr>"

definition new_input_frame :: "'t input_frame" where
  "new_input_frame = \<lparr>normal_input = new_text_frame default_text_style default_editor_options,
     normal_annotated = new_annotated default_gutter, command_frame = new_cmd_frame,
     terminal_frame = new_term_frame default_term_style, normal_bounding = new_bounding (editor_bounds TEXT),
     command_bounding = new_bounding (editor_bounds TEXT_SUCCESS), terminal_bounding = new_bounding terminal_bounds,
     if_mode = NORMAL_MODE, terminal_visible = False, escape_started = None, notification = []\<rparr>"

definition if_paste_in_progress :: "'t input_frame \<Rightarrow> bool" where
  "if_paste_in_progress f =
     (if if_mode f = COMMAND_MODE then ed_paste (tif_editor (cmd_input (command_frame f))) \<noteq> None
      else if_mode f = NORMAL_MODE \<and> ed_paste (tif_editor (normal_input f)) \<noteq> None)"

definition route_editor_event :: "event \<Rightarrow> 't input_frame \<Rightarrow> 't input_frame \<times> tui_status" where
  "route_editor_event ev f =
     (if if_mode f = COMMAND_MODE
      then case cmd_handle_event ev (command_frame f) of (c, st) \<Rightarrow> (f\<lparr>command_frame := c\<rparr>, st)
      else case tif_handle_event ev (normal_input f) of (i, st) \<Rightarrow> (f\<lparr>normal_input := i\<rparr>, st))"

definition enter_command_mode :: "'t input_frame \<Rightarrow> 't input_frame" where
  "enter_command_mode f = f\<lparr>command_frame := cmd_clear_help (cmd_clear (command_frame f)), if_mode := COMMAND_MODE,
     terminal_visible := False, escape_started := None\<rparr>"

definition enter_terminal_mode :: "'t input_frame \<Rightarrow> 't input_frame" where
  "enter_terminal_mode f = f\<lparr>terminal_frame := activate_session (terminal_frame f),
     command_frame := cmd_clear_help (command_frame f), if_mode := TERMINAL_MODE, terminal_visible := True, escape_started := None\<rparr>"

definition if_apply_command :: "command \<Rightarrow> 't input_frame \<Rightarrow> 't input_frame \<times> tui_status" where
  "if_apply_command cmd f =
     (if cmd = ENTER_COMMAND_MODE then (enter_command_mode f, TUI_OK)
      else if cmd = ENTER_TERMINAL_MODE then (enter_terminal_mode f, TUI_OK)
      else if if_mode f = TERMINAL_MODE \<or> cmd = COPY \<or> cmd = SELECT_ALL then (f, TUI_OK)
      else route_editor_event (Command_Event cmd) f)"

definition escape_recent :: "int \<Rightarrow> 't input_frame \<Rightarrow> bool" where
  "escape_recent now f =
     (case escape_started f of None \<Rightarrow> False | Some started \<Rightarrow> now \<ge> started \<and> now - started < kDoubleEscapeInterval)"

definition handle_escape :: "int \<Rightarrow> bool \<Rightarrow> 't input_frame \<Rightarrow> 't input_frame" where
  "handle_escape now decoder_double_escape f =
     (if decoder_double_escape \<or> escape_recent now f
      then (if if_mode f = COMMAND_MODE \<or> if_mode f = TERMINAL_MODE
            then f\<lparr>if_mode := NORMAL_MODE, terminal_visible := False\<rparr>
            else f\<lparr>normal_input := tif_clear (normal_input f)\<rparr>)\<lparr>escape_started := None\<rparr>
      else f\<lparr>escape_started := Some now\<rparr>)"

definition handle_committed_text :: "bytes \<Rightarrow> int \<Rightarrow> 't input_frame \<Rightarrow> 't input_frame \<times> tui_status" where
  "handle_committed_text t now f =
     (let escape_chord = ((if_mode f = NORMAL_MODE \<or> if_mode f = COMMAND_MODE) \<and> escape_recent now f \<and> t \<noteq> [] \<and>
            (hd t = 0x3a \<or> hd t = 0x3e));
          f' = (if escape_chord then if hd t = 0x3a then enter_command_mode f else enter_terminal_mode f
                else f\<lparr>escape_started := None\<rparr>);
          t' = (if escape_chord then tl t else t)
      in if if_mode f' \<noteq> TERMINAL_MODE \<and> t' \<noteq> [] then route_editor_event (Text_Event \<lparr>text_utf8 = t'\<rparr>) f' else (f', TUI_OK))"

definition if_handle_key :: "key_event \<Rightarrow> int \<Rightarrow> 't input_frame \<Rightarrow> 't input_frame \<times> tui_status" where
  "if_handle_key ev now f =
     (if event_action ev = KEY_RELEASE \<or> if_paste_in_progress f then (f, TUI_OK)
      else let disarmed = f\<lparr>escape_started := None\<rparr>; has = contains_modifier (event_modifiers ev) in
        case event_key ev of
          Named k \<Rightarrow>
            if k = ESCAPE then (handle_escape now (has ALT) f, TUI_OK)
            else if is_modifier_key k then (f, TUI_OK)
            else if if_mode f = TERMINAL_MODE then (disarmed, TUI_OK)
            else route_editor_event (Key_Event ev) disarmed
        | Character c \<Rightarrow>
            if if_mode f = TERMINAL_MODE then (disarmed, TUI_OK)
            else if event_text ev \<noteq> [] then handle_committed_text (event_text ev) now f
            else if has CONTROL \<or> has SUPER \<or> has HYPER \<or> has META then route_editor_event (Key_Event ev) disarmed
            else handle_committed_text (append_utf8 (case shifted_key ev of None \<Rightarrow> c | Some s \<Rightarrow> s)) now f)"

definition if_handle_event :: "event \<Rightarrow> int \<Rightarrow> 't input_frame \<Rightarrow> 't input_frame \<times> tui_status" where
  "if_handle_event ev now f =
     (case ev of
        Key_Event k \<Rightarrow> if_handle_key k now f
      | Text_Event t \<Rightarrow> if \<not> if_paste_in_progress f then handle_committed_text (text_utf8 t) now f else (f, TUI_OK)
      | Paste_Event p \<Rightarrow>
          if if_mode f = TERMINAL_MODE then (f\<lparr>escape_started := None\<rparr>, TUI_OK)
          else route_editor_event ev (if paste_phase p = PASTE_BEGIN then f\<lparr>escape_started := None\<rparr> else f)
      | Scroll_Event s \<Rightarrow>
          let f' = f\<lparr>escape_started := None\<rparr> in
          if if_mode f = TERMINAL_MODE then (f', TUI_OK) else route_editor_event ev f'
      | Mouse_Event m \<Rightarrow> (f\<lparr>escape_started := None\<rparr>, TUI_OK)
      | Command_Event cmd \<Rightarrow>
          if \<not> if_paste_in_progress f then if_apply_command cmd (f\<lparr>escape_started := None\<rparr>) else (f, TUI_OK)
      | _ \<Rightarrow> (f, TUI_OK))"

definition advance_time :: "int \<Rightarrow> 't input_frame \<Rightarrow> 't input_frame" where
  "advance_time now f =
     (case escape_started f of
        None \<Rightarrow> f
      | Some started \<Rightarrow> if now \<ge> started \<and> now - started \<ge> kDoubleEscapeInterval then f\<lparr>escape_started := None\<rparr> else f)"

definition set_notification :: "bytes \<Rightarrow> 't input_frame \<Rightarrow> 't input_frame" where
  "set_notification t f = f\<lparr>notification := t\<rparr>"

definition set_command_completions :: "bytes \<Rightarrow> cmd_completion list \<Rightarrow> nat \<Rightarrow> 't input_frame \<Rightarrow> 't input_frame" where
  "set_command_completions typed_prefix completions selected f =
     f\<lparr>command_frame := cmd_set_completions typed_prefix completions selected (command_frame f)\<rparr>"

definition set_command_usage :: "bytes list \<Rightarrow> 't input_frame \<Rightarrow> 't input_frame" where
  "set_command_usage usage f = f\<lparr>command_frame := cmd_set_usage usage (command_frame f)\<rparr>"

definition clear_command_help :: "'t input_frame \<Rightarrow> 't input_frame" where
  "clear_command_help f = f\<lparr>command_frame := cmd_clear_help (command_frame f)\<rparr>"

definition replace_command_text :: "bytes \<Rightarrow> 't input_frame \<Rightarrow> 't input_frame \<times> tui_status" where
  "replace_command_text t f = (case cmd_replace_text t (command_frame f) of (c, st) \<Rightarrow> (f\<lparr>command_frame := c\<rparr>, st))"

definition leave_command_mode :: "'t input_frame \<Rightarrow> 't input_frame" where
  "leave_command_mode f = (if if_mode f = COMMAND_MODE then f\<lparr>if_mode := NORMAL_MODE\<rparr> else f)
     \<lparr>command_frame := cmd_clear_help (command_frame f), escape_started := None\<rparr>"

definition write_terminal :: "'t tmt_ops \<Rightarrow> bytes \<Rightarrow> 't input_frame \<Rightarrow> 't input_frame \<times> tui_status" where
  "write_terminal tmt output f = (case term_write tmt output (terminal_frame f) of (t, st) \<Rightarrow> (f\<lparr>terminal_frame := t\<rparr>, st))"

definition take_terminal_responses :: "'t input_frame \<Rightarrow> 't input_frame \<times> bytes" where
  "take_terminal_responses f = (case take_responses (terminal_frame f) of (t, bs) \<Rightarrow> (f\<lparr>terminal_frame := t\<rparr>, bs))"

definition reset_terminal :: "'t tmt_ops \<Rightarrow> 't input_frame \<Rightarrow> 't input_frame" where
  "reset_terminal tmt f = f\<lparr>terminal_frame := term_reset tmt (terminal_frame f)\<rparr>"

definition start_new_terminal :: "'t input_frame \<Rightarrow> 't input_frame" where
  "start_new_terminal f = f\<lparr>terminal_frame := start_new_session (terminal_frame f), if_mode := TERMINAL_MODE,
     terminal_visible := True, escape_started := None\<rparr>"

definition close_terminal :: "'t input_frame \<Rightarrow> 't input_frame" where
  "close_terminal f =
     (let f' = f\<lparr>terminal_frame := close_session (terminal_frame f)\<rparr> in
      (if if_mode f = TERMINAL_MODE then f'\<lparr>if_mode := NORMAL_MODE, terminal_visible := False\<rparr> else f')\<lparr>escape_started := None\<rparr>)"

definition if_clear :: "'t tmt_ops \<Rightarrow> 't input_frame \<Rightarrow> 't input_frame" where
  "if_clear tmt f =
     (case if_mode f of
        NORMAL_MODE \<Rightarrow> f\<lparr>normal_input := tif_clear (normal_input f)\<rparr>
      | COMMAND_MODE \<Rightarrow> f\<lparr>command_frame := cmd_clear (command_frame f)\<rparr>
      | TERMINAL_MODE \<Rightarrow> f\<lparr>terminal_frame := term_reset tmt (terminal_frame f)\<rparr>)\<lparr>escape_started := None\<rparr>"

section \<open>Heights\<close>

definition if_maximum_height :: "nat \<Rightarrow> nat" where
  "if_maximum_height screen_height = min screen_height (max kBaselineMaximumHeight (screen_height div 5))"

definition terminal_height :: "nat \<Rightarrow> nat" where
  "terminal_height screen_height =
     min screen_height (max kTerminalMinimumHeight ((screen_height div 5) * 3 + ((screen_height mod 5) * 3) div 5))"

definition if_minimum_height :: "'t input_frame \<Rightarrow> nat" where
  "if_minimum_height f = (if terminal_visible f then kTerminalMinimumHeight else kMinimumHeight)"

definition command_maximum_height :: "nat \<Rightarrow> nat \<Rightarrow> nat" where
  "command_maximum_height screen_height help_rows = min screen_height (sat_add help_rows (if_maximum_height screen_height))"

definition if_help_rows :: "'t input_frame \<Rightarrow> nat" where
  "if_help_rows f = (if if_mode f = COMMAND_MODE then length (cmd_help (command_frame f)) else 0)"

definition normal_gutter_width :: "'t input_frame \<Rightarrow> nat" where
  "normal_gutter_width f = gutter_width (ann_configuration (normal_annotated f)) (logical_line_count (tif_editor (normal_input f)))"

definition preferred_height :: "nat \<Rightarrow> nat \<Rightarrow> 't input_frame \<Rightarrow> nat" where
  "preferred_height screen_width screen_height f =
     (if screen_height = 0 then 0
      else if if_mode f = TERMINAL_MODE then terminal_height screen_height
      else let bounded_width = (if screen_width > 2 then screen_width - 2 else 0);
               content_rows = (if if_mode f = COMMAND_MODE then cmd_preferred_rows bounded_width (command_frame f)
                 else let gutter = normal_gutter_width f in
                   tif_preferred_rows (if bounded_width > gutter then bounded_width - gutter else 1) (normal_input f));
               fixed_rows = sat_add (if_help_rows f) 4;
               desired = (if fixed_rows = size_max \<or> content_rows > size_max - fixed_rows then size_max else content_rows + fixed_rows);
               maximum = (if if_mode f = COMMAND_MODE then command_maximum_height screen_height (if_help_rows f)
                 else if_maximum_height screen_height)
        in if maximum < kMinimumHeight then maximum else min maximum (max kMinimumHeight desired))"

section \<open>Drawing\<close>

abbreviation "normal_ops \<equiv> bounding_ops (Some annotated_text)"
abbreviation "command_ops \<equiv> bounding_ops (Some cmd_ops)"
abbreviation "terminal_ops tmt \<equiv> bounding_ops (Some (term_ops tmt))"

definition normal_view :: "'t input_frame \<Rightarrow> bounding_frame \<times> annotated_frame \<times> text_input_frame" where
  "normal_view f = (normal_bounding f, normal_annotated f, normal_input f)"

definition set_normal_view :: "'t input_frame \<Rightarrow> bounding_frame \<times> annotated_frame \<times> text_input_frame \<Rightarrow> 't input_frame" where
  "set_normal_view f v = f\<lparr>normal_bounding := fst v, normal_annotated := fst (snd v), normal_input := snd (snd v)\<rparr>"

definition command_view :: "'t input_frame \<Rightarrow> bounding_frame \<times> cmd_frame" where
  "command_view f = (command_bounding f, command_frame f)"

definition set_command_view :: "'t input_frame \<Rightarrow> bounding_frame \<times> cmd_frame \<Rightarrow> 't input_frame" where
  "set_command_view f v = f\<lparr>command_bounding := fst v, command_frame := snd v\<rparr>"

definition terminal_view :: "'t input_frame \<Rightarrow> bounding_frame \<times> 't term_frame" where
  "terminal_view f = (terminal_bounding f, terminal_frame f)"

definition set_terminal_view :: "'t input_frame \<Rightarrow> bounding_frame \<times> 't term_frame \<Rightarrow> 't input_frame" where
  "set_terminal_view f v = f\<lparr>terminal_bounding := fst v, terminal_frame := snd v\<rparr>"

definition constrain_active :: "size_constraints \<Rightarrow> 't input_frame \<Rightarrow> 't input_frame" where
  "constrain_active limits f =
     (case if_mode f of
        NORMAL_MODE \<Rightarrow> f\<lparr>normal_bounding := bnd_set_size_constraints limits (normal_bounding f)\<rparr>
      | COMMAND_MODE \<Rightarrow> f\<lparr>command_bounding := bnd_set_size_constraints limits (command_bounding f)\<rparr>
      | TERMINAL_MODE \<Rightarrow> f\<lparr>terminal_bounding := bnd_set_size_constraints limits (terminal_bounding f)\<rparr>)"

definition draw_active :: "'t tmt_ops \<Rightarrow> tui_theme \<Rightarrow> rect \<Rightarrow> 't input_frame \<times> canvas \<Rightarrow> ('t input_frame \<times> canvas) \<times> tui_status" where
  "draw_active tmt theme r fc =
     (case fc of (f, c) \<Rightarrow>
        case if_mode f of
          NORMAL_MODE \<Rightarrow> (case draw_op normal_ops theme r (normal_view f, c) of ((v, c'), st) \<Rightarrow> ((set_normal_view f v, c'), st))
        | COMMAND_MODE \<Rightarrow> (case draw_op command_ops theme r (command_view f, c) of ((v, c'), st) \<Rightarrow> ((set_command_view f v, c'), st))
        | TERMINAL_MODE \<Rightarrow>
            (case draw_op (terminal_ops tmt) theme r (terminal_view f, c) of ((v, c'), st) \<Rightarrow> ((set_terminal_view f v, c'), st)))"

definition write_text_row :: "nat \<Rightarrow> nat \<Rightarrow> nat \<Rightarrow> u32 list \<Rightarrow> u32 \<Rightarrow> u32 \<Rightarrow> canvas \<Rightarrow> canvas \<times> tui_status" where
  "write_text_row x y limit t fg bg c =
     (let count = min limit (length t) in
      if count = 0 then (c, TUI_OK)
      else write_cells \<lparr>rect_x = x, rect_y = y, rect_width = count, rect_height = 1\<rparr>
        [map (\<lambda>ch. \<lparr>cell_char = ch, foreground = fg, background = bg\<rparr>) (take count t)] c)"

definition ascii :: "string \<Rightarrow> bytes" where
  "ascii t = map (\<lambda>ch. word_of_nat (of_char ch)) t"

definition escape_prompt :: "input_mode \<Rightarrow> bytes" where
  "escape_prompt mode =
     (case mode of
        NORMAL_MODE \<Rightarrow> ascii ''hit escape again to clear the input''
      | COMMAND_MODE \<Rightarrow> ascii ''hit escape again to exit command mode''
      | TERMINAL_MODE \<Rightarrow> ascii ''hit escape again to exit terminal mode'')"

definition mode_maximum_height :: "nat \<Rightarrow> 't input_frame \<Rightarrow> nat" where
  "mode_maximum_height screen_height f =
     (case if_mode f of
        NORMAL_MODE \<Rightarrow> if_maximum_height screen_height
      | COMMAND_MODE \<Rightarrow> command_maximum_height screen_height (if_help_rows f)
      | TERMINAL_MODE \<Rightarrow> terminal_height screen_height)"

text \<open>What \<open>draw\<close> does to the active view before it draws it, and the rows it writes after that.\<close>

definition prepare_draw :: "nat \<Rightarrow> nat \<Rightarrow> nat \<Rightarrow> 't input_frame \<Rightarrow> 't input_frame" where
  "prepare_draw minimum maximum help_rows f =
     (let f1 = (if if_mode f = COMMAND_MODE
        then let conf = editor_bounds TEXT_SUCCESS;
                 conf' = conf\<lparr>outer_margins := (outer_margins conf)\<lparr>margin_top := margin_top (outer_margins conf) + help_rows\<rparr>\<rparr>
          in f\<lparr>command_bounding := bnd_set_configuration conf' (command_bounding f)\<rparr>
        else f)
      in constrain_active \<lparr>minimum_width = kMinimumWidth, minimum_height = minimum, maximum_width = None,
           maximum_height = Some maximum, require_full_canvas_width = True\<rparr> f1)"

definition draw_overlays :: "tui_theme \<Rightarrow> rect \<Rightarrow> nat \<Rightarrow> 't input_frame \<Rightarrow> canvas \<Rightarrow> canvas \<times> tui_status" where
  "draw_overlays theme r help_rows f c =
     (let inner = (if rect_width r > 4 then rect_width r - 4 else 0); muted = get_color theme TEXT_MUTED; bg = get_color theme BACKGROUND;
          (c1, st1) = (if help_rows \<noteq> 0
            then cmd_draw_help theme \<lparr>rect_x = rect_x r + 2, rect_y = rect_y r, rect_width = inner, rect_height = help_rows\<rparr> (command_frame f) c
            else (c, TUI_OK))
      in if st1 \<noteq> TUI_OK then (c1, st1)
         else let (c2, st2) = (if escape_started f \<noteq> None
                then write_text_row (rect_x r + 2) (rect_y r + rect_height r - 2) inner (decode_utf8 (escape_prompt (if_mode f))) muted bg c1
                else (c1, TUI_OK))
           in if st2 \<noteq> TUI_OK then (c2, st2)
              else write_text_row (rect_x r) (rect_y r + rect_height r - 1) (rect_width r) (decode_utf8 (notification f)) muted bg c2)"

definition if_draw :: "'t tmt_ops \<Rightarrow> tui_theme \<Rightarrow> rect \<Rightarrow> 't input_frame \<times> canvas \<Rightarrow> ('t input_frame \<times> canvas) \<times> tui_status" where
  "if_draw tmt theme r fc =
     (case fc of (f, c) \<Rightarrow>
        if rect_x r \<noteq> 0 \<or> rect_width r \<noteq> canvas_width c \<or> rect_width r < kMinimumWidth \<or> rect_height r < kMinimumHeight
        then (fc, INVALID_DIMENSIONS)
        else if rect_y r > canvas_height c \<or> rect_height r > canvas_height c - rect_y r then (fc, RECT_OUT_OF_BOUNDS)
        else let minimum = (if if_mode f = TERMINAL_MODE then kTerminalMinimumHeight else kMinimumHeight);
                 maximum = mode_maximum_height (canvas_height c) f
          in if rect_height r < minimum \<or> rect_height r > maximum then (fc, INVALID_DIMENSIONS)
             else let available = (if if_mode f = COMMAND_MODE \<and> rect_height r > kMinimumHeight then rect_height r - kMinimumHeight else 0);
                      help_rows = min available (length (cmd_help (command_frame f)))
               in case draw_active tmt theme r (prepare_draw minimum maximum help_rows f, c) of ((f', c'), st) \<Rightarrow>
                 if st \<noteq> TUI_OK then ((f', c'), st)
                 else case draw_overlays theme r help_rows f' c' of (c'', st') \<Rightarrow> ((f', c''), st'))"

section \<open>Pointer operations\<close>

definition if_update_selection :: "selection_event \<Rightarrow> 't input_frame \<Rightarrow> ('t input_frame \<times> tui_status) option" where
  "if_update_selection ev f =
     (let f' = f\<lparr>escape_started := None\<rparr> in
      case if_mode f' of
        TERMINAL_MODE \<Rightarrow>
          if selection_type ev \<noteq> RESET then Some (f', FRAME_NOT_SELECTABLE)
          else Option.bind (tif_update_selection ev (normal_input f')) (\<lambda>(i, normal).
            map_option (\<lambda>(cmd, command). (f'\<lparr>normal_input := i, command_frame := cmd\<rparr>, if normal \<noteq> TUI_OK then normal else command))
              (update_selection_op cmd_ops ev (command_frame f')))
      | NORMAL_MODE \<Rightarrow> map_option (\<lambda>(v, st). (set_normal_view f' v, st)) (update_selection_op normal_ops ev (normal_view f'))
      | COMMAND_MODE \<Rightarrow> map_option (\<lambda>(v, st). (set_command_view f' v, st)) (update_selection_op command_ops ev (command_view f')))"

definition if_selected_text :: "'t input_frame \<Rightarrow> bytes \<times> tui_status" where
  "if_selected_text f =
     (case if_mode f of
        TERMINAL_MODE \<Rightarrow> ([], FRAME_NOT_SELECTABLE)
      | NORMAL_MODE \<Rightarrow> selected_text_op normal_ops (normal_view f)
      | COMMAND_MODE \<Rightarrow> selected_text_op command_ops (command_view f))"

definition if_place_cursor :: "selection_position \<Rightarrow> 't input_frame \<Rightarrow> 't input_frame \<times> tui_status" where
  "if_place_cursor p f =
     (let f' = f\<lparr>escape_started := None\<rparr> in
      case if_mode f of
        TERMINAL_MODE \<Rightarrow> (f, FRAME_NOT_SELECTABLE)
      | NORMAL_MODE \<Rightarrow> (case place_cursor_op normal_ops p (normal_view f') of (v, st) \<Rightarrow> (set_normal_view f' v, st))
      | COMMAND_MODE \<Rightarrow> (case place_cursor_op command_ops p (command_view f') of (v, st) \<Rightarrow> (set_command_view f' v, st)))"

definition input_frame_ops :: "'t tmt_ops \<Rightarrow> 't input_frame frame_ops" where
  "input_frame_ops tmt = \<lparr>draw_op = if_draw tmt, selectable_op = (\<lambda>f. \<not> terminal_visible f), update_selection_op = if_update_selection,
     selected_text_op = if_selected_text, accepts_cursor_op = (\<lambda>f. \<not> terminal_visible f), place_cursor_op = if_place_cursor\<rparr>"

end
