(* ===== verification/Frames_Correct.thy ===== *)
theory Frames_Correct
  imports Input_Frame
begin

text \<open>
  The drawing contract of \<open>rendering/frame.hpp\<close>: a frame writes nothing outside the rectangle it
  was assigned. The contract is a locale, which every frame of the program interprets; decorators
  keep it when their child does.
\<close>

section \<open>Confined changes\<close>

definition confined :: "rect \<Rightarrow> canvas \<Rightarrow> canvas \<Rightarrow> bool" where
  "confined r c c' \<longleftrightarrow> canvas_wf c' \<and> canvas_width c' = canvas_width c \<and> canvas_height c' = canvas_height c \<and>
     frame_in_progress c' = frame_in_progress c \<and> canvas_status c' = canvas_status c \<and> published c' = published c \<and>
     (\<forall>row column. \<not> inside r row column \<longrightarrow> working c' row column = working c row column)"

definition within :: "rect \<Rightarrow> rect \<Rightarrow> bool" where
  "within r' r \<longleftrightarrow> (\<forall>row column. inside r' row column \<longrightarrow> inside r row column)"

lemma confined_refl: "canvas_wf c \<Longrightarrow> confined r c c"
  by (simp add: confined_def)

lemma confined_trans: "confined r c c' \<Longrightarrow> confined r c' c'' \<Longrightarrow> confined r c c''"
  by (simp add: confined_def)

lemma confined_within: "confined r' c c' \<Longrightarrow> within r' r \<Longrightarrow> confined r c c'"
  by (auto simp: confined_def within_def)

lemma confined_wf: "confined r c c' \<Longrightarrow> canvas_wf c'"
  by (simp add: confined_def)

lemma within_refl [simp]: "within r r"
  by (simp add: within_def)

lemma within_trans: "within r r' \<Longrightarrow> within r' r'' \<Longrightarrow> within r r''"
  by (simp add: within_def)

lemma withinI:
  assumes "rect_x r \<le> rect_x r'" and "rect_x r' + rect_width r' \<le> rect_x r + rect_width r"
    and "rect_y r \<le> rect_y r'" and "rect_y r' + rect_height r' \<le> rect_y r + rect_height r"
  shows "within r' r"
  using assms by (auto simp: within_def inside_def)

lemma write_confined:
  assumes wf: "canvas_wf c" and w: "write_cells r' cells c = (c', st)" and sub: "within r' r"
  shows "confined r c c'"
proof (cases "st = TUI_OK")
  case True
  note ok = write_cells_ok [OF wf w [unfolded True]]
  have "confined r' c c'" using ok by (simp add: confined_def overlay_def)
  then show ?thesis using sub by (rule confined_within)
next
  case False
  then show ?thesis using write_cells_refused [OF w] confined_refl [OF wf] by simp
qed

section \<open>The contract\<close>

locale frame_contract =
  fixes draw :: "tui_theme \<Rightarrow> rect \<Rightarrow> 'c \<times> canvas \<Rightarrow> ('c \<times> canvas) \<times> tui_status"
  assumes draw_confined: "canvas_wf c \<Longrightarrow> draw theme r (f, c) = ((f', c'), st) \<Longrightarrow> confined r c c'"
begin

text \<open>Frames drawn one after another into disjoint rectangles do not disturb each other.\<close>

lemma draw_elsewhere:
  assumes "canvas_wf c" and "draw theme r (f, c) = ((f', c'), st)" and "\<And>row column. inside r row column \<Longrightarrow> \<not> inside q row column"
  shows "inside q row column \<Longrightarrow> working c' row column = working c row column"
  using draw_confined [OF assms(1,2)] assms(3) by (auto simp: confined_def)

end

lemma tif_draw_confined:
  assumes "canvas_wf c" and "tif_draw theme r (f, c) = ((f', c'), st)"
  shows "confined r c c'"
  using assms confined_refl [OF assms(1)] write_confined [OF assms(1) _ within_refl]
  by (auto simp: tif_draw_def Let_def split: if_splits prod.splits)

interpretation text_frame: frame_contract tif_draw
  by unfold_locales (rule tif_draw_confined)

lemma message_draw_confined:
  assumes wf: "canvas_wf c" and d: "message_draw theme r (f, c) = ((f', c'), st)"
  shows "confined r c c'"
proof (cases "rect_width r = 0 \<or> rect_height r = 0")
  case True
  then show ?thesis using d confined_refl [OF wf] by (simp add: message_draw_def)
next
  case False
  define q where "q = \<lparr>rect_x = rect_x r + (rect_width r - min (rect_width r) (length (message_text f))) div 2,
    rect_y = rect_y r + rect_height r div 2, rect_width = min (rect_width r) (length (message_text f)), rect_height = 1\<rparr>"
  have "within q r" using False by (intro withinI) (auto simp: q_def min_def)
  moreover obtain cells where "write_cells q cells c = (c', st)"
    using d False by (auto simp: message_draw_def Let_def q_def split: prod.splits)
  ultimately show ?thesis using write_confined [OF wf] by blast
qed

interpretation message: frame_contract message_draw
  by unfold_locales (rule message_draw_confined)

lemma term_draw_confined:
  assumes "canvas_wf c" and "term_draw tmt theme r (f, c) = ((f', c'), st)"
  shows "confined r c c'"
  using assms confined_refl [OF assms(1)] write_confined [OF assms(1) _ within_refl]
  by (auto simp: term_draw_def Let_def split: if_splits prod.splits)

interpretation embedded: frame_contract "term_draw tmt"
  for tmt by unfold_locales (rule term_draw_confined)

lemma ann_content_within: "ann_content_rect gutter r = Some q \<Longrightarrow> within q r \<and> gutter < rect_width r"
  by (auto simp: ann_content_rect_def intro!: withinI split: if_splits)

lemma annotated_contract:
  assumes "frame_contract (draw_op ops)"
  shows "frame_contract (ann_draw (Some ops))"
proof unfold_locales
  fix c theme r af af' c' st
  assume wf: "canvas_wf c" and d: "ann_draw (Some ops) theme r (af, c) = ((af', c'), st)"
  obtain a f where af: "af = (a, f)" by fastforce
  let ?gutter = "gutter_width (ann_configuration a) (source_line_count ops f)"
  show "confined r c c'"
  proof (cases "ann_content_rect ?gutter r")
    case None
    then show ?thesis using d af confined_refl [OF wf] by (simp add: ann_draw_def Let_def)
  next
    case (Some q)
    obtain f1 c1 st1 where d1: "draw_op ops theme q (f, c) = ((f1, c1), st1)" by (metis prod.collapse)
    have q: "within q r" "?gutter < rect_width r" using ann_content_within [OF Some] by auto
    have c1: "confined r c c1" using frame_contract.draw_confined [OF assms wf d1] q(1) by (rule confined_within)
    have g: "within (r\<lparr>rect_width := ?gutter\<rparr>) r" using q(2) by (intro withinI) auto
    show ?thesis
      using d d1 af Some c1 confined_trans [OF c1 write_confined [OF confined_wf [OF c1] _ g]]
      by (auto simp: ann_draw_def Let_def split: if_splits prod.splits)
  qed
qed

lemma inset_within: "inset r m = Some q \<Longrightarrow> within q r"
  by (auto simp: inset_def intro!: withinI split: if_splits)

lemma not_empty_Some: "not_empty r = Some q \<longleftrightarrow> r = Some q \<and> rect_width q \<noteq> 0 \<and> rect_height q \<noteq> 0"
  by (auto simp: not_empty_def split: option.split)

lemma bnd_box_within: "bnd_box_rect r conf = Some q \<Longrightarrow> within q r"
  by (auto simp: bnd_box_rect_def not_empty_Some intro: inset_within)

lemma bnd_content_within: "bnd_content_rect r conf = Some q \<Longrightarrow> within q r"
  by (auto simp: bnd_content_rect_def not_empty_Some split: option.splits if_splits dest!: inset_within intro: within_trans)

lemma bounding_contract:
  assumes "frame_contract (draw_op ops)"
  shows "frame_contract (bnd_draw (Some ops))"
proof unfold_locales
  fix c theme r bf bf' c' st
  assume wf: "canvas_wf c" and d: "bnd_draw (Some ops) theme r (bf, c) = ((bf', c'), st)"
  obtain b f where bf: "bf = (b, f)" by fastforce
  let ?conf = "bnd_configuration b"
  obtain c1 st1 where fill: "bnd_fill theme ?conf r c = (c1, st1)" by fastforce
  have c1: "confined r c c1"
    using fill confined_refl [OF wf] write_confined [OF wf _ within_refl] by (auto simp: bnd_fill_def split: option.splits)
  show "confined r c c'"
  proof (cases "c' = c \<or> c' = c1")
    case True
    then show ?thesis using c1 confined_refl [OF wf] by auto
  next
    case False
    then obtain box content where rects: "bnd_box_rect r ?conf = Some box" "bnd_content_rect r ?conf = Some content"
      using d bf by (auto simp: bnd_draw_def Let_def split: if_splits option.splits)
    obtain c2 st2 where b2: "bnd_box theme ?conf box c1 = (c2, st2)" by fastforce
    have c2: "confined r c1 c2"
      using b2 confined_refl [OF confined_wf [OF c1]] write_confined [OF confined_wf [OF c1] _ bnd_box_within [OF rects(1)]]
      by (auto simp: bnd_box_def split: if_splits)
    obtain f3 c3 st3 where d3: "draw_op ops theme content (f, c2) = ((f3, c3), st3)" by (metis prod.collapse)
    have c3: "confined r c2 c3"
      using frame_contract.draw_confined [OF assms confined_wf [OF c2] d3] bnd_content_within [OF rects(2)] by (rule confined_within)
    show ?thesis
      using d bf False rects fill b2 d3 confined_trans [OF c1 c2] confined_trans [OF confined_trans [OF c1 c2] c3]
      by (auto simp: bnd_draw_def Let_def split: if_splits)
  qed
qed

interpretation annotated: frame_contract "ann_draw (Some text_frame_source)"
  by (rule annotated_contract) (simp add: text_frame_source_def text_frame_ops_def frame_ops.defs text_frame.frame_contract_axioms)

lemma annotated_text_draw [simp]: "draw_op annotated_text = ann_draw (Some text_frame_source)"
  by (simp add: annotated_ops_def)

interpretation cmd: frame_contract "draw_op cmd_ops"
proof unfold_locales
  fix c theme r f f' c' st
  assume wf: "canvas_wf c" and d: "draw_op cmd_ops theme r (f, c) = ((f', c'), st)"
  obtain p c1 st1 where d1: "draw_op annotated_text theme r (cmd_parts f, c) = ((p, c1), st1)" by (metis prod.collapse)
  have "c' = c1" using d d1 by (simp add: cmd_ops_def)
  then show "confined r c c'" using annotated.draw_confined [OF wf] d1 by simp
qed

interpretation normal: frame_contract "draw_op normal_ops"
  using bounding_contract [of annotated_text] annotated.frame_contract_axioms by (simp add: bounding_ops_def)

interpretation command: frame_contract "draw_op command_ops"
  using bounding_contract [OF cmd.frame_contract_axioms] by (simp add: bounding_ops_def)

interpretation terminal: frame_contract "draw_op (terminal_ops tmt)"
  for tmt using bounding_contract [of "term_ops tmt"] embedded.frame_contract_axioms [of tmt] by (simp add: bounding_ops_def term_ops_def plain_frame_def)

section \<open>The input frame\<close>

lemma help_rows_confined:
  assumes "canvas_wf c" and "draw_help_rows theme r y rows c = (c', st)" and "rect_y r \<le> y" and "y + length rows \<le> rect_y r + rect_height r"
  shows "confined r c c'"
  using assms
proof (induction rows arbitrary: y c)
  case Nil
  then show ?case by (simp add: confined_refl)
next
  case (Cons row rows)
  let ?cells = "help_cells theme (rect_width r) row"
  let ?q = "\<lparr>rect_x = rect_x r, rect_y = y, rect_width = length ?cells, rect_height = 1\<rparr>"
  show ?case
  proof (cases "?cells = []")
    case True
    then show ?thesis using Cons by (auto simp: Let_def)
  next
    case False
    obtain c1 st1 where w: "write_cells ?q [?cells] c = (c1, st1)" by fastforce
    have "within ?q r" using Cons.prems by (intro withinI) (auto simp: help_cells_def)
    then have c1: "confined r c c1" using write_confined [OF Cons.prems(1) w] by blast
    then show ?thesis
      using Cons.IH [OF confined_wf [OF c1], of "Suc y"] Cons.prems False w confined_trans [OF c1]
      by (auto simp: Let_def split: if_splits)
  qed
qed

lemma draw_help_confined:
  assumes "canvas_wf c" and "cmd_draw_help theme r f c = (c', st)"
  shows "confined r c c'"
  using assms confined_refl help_rows_confined [OF assms(1), of theme r "rect_y r" "take (rect_height r) (cmd_help f)"]
  by (auto simp: cmd_draw_help_def split: if_splits)

lemma text_row_confined:
  assumes "canvas_wf c" and "write_text_row x y limit t fg bg c = (c', st)"
    and "rect_x r \<le> x" and "x + limit \<le> rect_x r + rect_width r" and "rect_y r \<le> y" and "y < rect_y r + rect_height r"
  shows "confined r c c'"
proof (cases "min limit (length t) = 0")
  case True
  then show ?thesis using assms confined_refl by (auto simp: write_text_row_def Let_def)
next
  case False
  have "within \<lparr>rect_x = x, rect_y = y, rect_width = min limit (length t), rect_height = 1\<rparr> r"
    using assms by (intro withinI) auto
  then show ?thesis using write_confined [OF assms(1)] assms(2) False by (auto simp: write_text_row_def Let_def)
qed

lemma overlays_confined:
  assumes wf: "canvas_wf c" and d: "draw_overlays theme r hs f c = (c', st)" and "4 < rect_width r" "2 < rect_height r" "hs \<le> rect_height r"
  shows "confined r c c'"
proof -
  let ?q = "\<lparr>rect_x = rect_x r + 2, rect_y = rect_y r, rect_width = rect_width r - 4, rect_height = hs\<rparr>"
  let ?x = "rect_x r + 2" and ?w = "rect_width r - 4" and ?y = "rect_y r + rect_height r - 2" and ?p = "decode_utf8 (escape_prompt (if_mode f))"
    and ?muted = "get_color theme TEXT_MUTED" and ?bg = "get_color theme BACKGROUND"
  have q: "within ?q r" using assms(3,5) by (intro withinI) auto
  obtain c1 st1 where d1: "(if hs \<noteq> 0 then cmd_draw_help theme ?q (command_frame f) c else (c, TUI_OK)) = (c1, st1)" by fastforce
  have c1: "confined r c c1"
    using d1 confined_refl [OF wf] confined_within [OF draw_help_confined [OF wf] q, of theme "command_frame f" c1 st1] by (auto split: if_splits)
  obtain c2 st2 where d2: "(if escape_started f \<noteq> None then write_text_row ?x ?y ?w ?p ?muted ?bg c1 else (c1, TUI_OK)) = (c2, st2)" by fastforce
  have c2: "confined r c1 c2"
    using d2 confined_refl [OF confined_wf [OF c1]] text_row_confined [OF confined_wf [OF c1], of ?x ?y ?w ?p ?muted ?bg c2 st2 r] assms(3,4)
    by (auto split: if_splits)
  have "c' = c1 \<or> c' = c2 \<or> confined r c2 c'"
    using d d1 d2 assms(3,4) text_row_confined [OF confined_wf [OF c2], of "rect_x r" "rect_y r + rect_height r - 1" "rect_width r" _ ?muted ?bg c' st r]
    by (auto simp: draw_overlays_def Let_def split: if_splits)
  then show ?thesis using c1 c2 by (metis confined_trans)
qed

lemma active_confined:
  assumes "canvas_wf c" and "draw_active tmt theme r (f, c) = ((f', c'), st)"
  shows "confined r c c'"
  using assms normal.draw_confined [OF assms(1), of theme r] command.draw_confined [OF assms(1), of theme r]
    terminal.draw_confined [OF assms(1), of tmt theme r]
  by (auto simp: draw_active_def simp del: annotated_text_draw split: input_mode.splits prod.splits)

text \<open>The state a drawing of the input frame passes to its active view.\<close>

definition drawing_rows :: "rect \<Rightarrow> 't input_frame \<Rightarrow> nat" where
  "drawing_rows r f = min (if if_mode f = COMMAND_MODE \<and> rect_height r > kMinimumHeight then rect_height r - kMinimumHeight else 0)
     (length (cmd_help (command_frame f)))"

definition drawing_state :: "rect \<Rightarrow> canvas \<Rightarrow> 't input_frame \<Rightarrow> 't input_frame" where
  "drawing_state r c f = prepare_draw (if if_mode f = TERMINAL_MODE then kTerminalMinimumHeight else kMinimumHeight)
     (mode_maximum_height (canvas_height c) f) (drawing_rows r f) f"

lemma if_draw_cases:
  assumes "if_draw tmt theme r (f, c) = ((f', c'), st)"
  obtains (refused) "f' = f" "c' = c" "st \<noteq> TUI_OK"
  | (active) "kMinimumWidth \<le> rect_width r" "kMinimumHeight \<le> rect_height r"
      "draw_active tmt theme r (drawing_state r c f, c) = ((f', c'), st)" "st \<noteq> TUI_OK"
  | (overlays) c1 where "kMinimumWidth \<le> rect_width r" "kMinimumHeight \<le> rect_height r"
      "draw_active tmt theme r (drawing_state r c f, c) = ((f', c1), TUI_OK)"
      "draw_overlays theme r (drawing_rows r f) f' c1 = (c', st)"
proof -
  obtain f1 c1 st1 where a: "draw_active tmt theme r (drawing_state r c f, c) = ((f1, c1), st1)" by (metis prod.collapse)
  obtain c2 st2 where o: "draw_overlays theme r (drawing_rows r f) f1 c1 = (c2, st2)" by fastforce
  show thesis
    using assms a o that
    by (simp add: if_draw_def Let_def drawing_state_def drawing_rows_def not_less split: if_splits)
qed

lemma if_draw_confined:
  assumes wf: "canvas_wf c" and d: "if_draw tmt theme r (f, c) = ((f', c'), st)"
  shows "confined r c c'"
  using d
proof (cases rule: if_draw_cases)
  case refused
  then show ?thesis using confined_refl [OF wf] by simp
next
  case active
  then show ?thesis using active_confined [OF wf] by blast
next
  case (overlays c1)
  have c1: "confined r c c1" by (rule active_confined [OF wf overlays(3)])
  have "drawing_rows r f \<le> rect_height r" by (auto simp: drawing_rows_def min_def)
  then have "confined r c1 c'"
    using overlays overlays_confined [OF confined_wf [OF c1] overlays(4)] by (simp add: kMinimumWidth_def kMinimumHeight_def)
  then show ?thesis by (rule confined_trans [OF c1])
qed

interpretation input: frame_contract "if_draw tmt"
  for tmt by unfold_locales (rule if_draw_confined)

section \<open>What is drawn and where a click lands\<close>

lemma grid_nth [simp]: "row < h \<Longrightarrow> column < w \<Longrightarrow> cell_grid w h g ! row ! column = g row column"
  by (simp add: cell_grid_def)

lemma write_grid:
  assumes "canvas_wf c" and "write_cells r (cell_grid (rect_width r) (rect_height r) g) c = (c', TUI_OK)"
    and "row < rect_height r" and "column < rect_width r"
  shows "working c' (rect_y r + row) (rect_x r + column) = g row column"
  using write_cells_ok(2) [OF assms(1,2)] assms(3,4) by (simp add: overlay_def inside_def)

lemma set_viewport_size [simp]:
  "viewport_width (set_viewport w h e) = w" "viewport_height (set_viewport w h e) = h" "ed_lines (set_viewport w h e) = ed_lines e"
  by (simp_all add: set_viewport_def Let_def)

text \<open>The text frame shows its rendered editor, cell by cell.\<close>

definition shows_text :: "tui_theme \<Rightarrow> rect \<Rightarrow> text_input_frame \<Rightarrow> canvas \<Rightarrow> bool" where
  "shows_text theme r f c \<longleftrightarrow> viewport_width (tif_editor f) = rect_width r \<and> viewport_height (tif_editor f) = rect_height r \<and>
     (\<forall>row < rect_height r. \<forall>column < rect_width r. working c (rect_y r + row) (rect_x r + column) =
       tif_cell theme (tif_style f) (editor_render_state (tif_editor f)) row column)"

lemma shows_text_kept:
  assumes "shows_text theme r f c" and "confined q c c'" and "\<And>row column. inside r row column \<Longrightarrow> \<not> inside q row column"
  shows "shows_text theme r f c'"
proof -
  have "working c' (rect_y r + row) (rect_x r + column) = working c (rect_y r + row) (rect_x r + column)"
    if "row < rect_height r" "column < rect_width r" for row column
    using assms(2) assms(3) [of "rect_y r + row" "rect_x r + column"] that by (simp add: confined_def inside_def)
  then show ?thesis using assms(1) by (simp add: shows_text_def)
qed

lemma tif_draw_shows:
  assumes "canvas_wf c" and "tif_draw theme r (f, c) = ((f', c'), TUI_OK)"
  shows "shows_text theme r f' c' \<and> tif_editor f' = set_viewport (rect_width r) (rect_height r) (tif_editor f)"
  using assms write_grid [OF assms(1), of r _ c']
  by (auto simp: tif_draw_def shows_text_def Let_def split: if_splits prod.splits)

lemma ann_draw_shows:
  assumes wf: "canvas_wf c" and d: "ann_draw (Some text_frame_source) theme r ((a, f), c) = (((a', f'), c'), TUI_OK)"
  shows "let gutter = gutter_width (ann_configuration a) (logical_line_count (tif_editor f)) in
    gutter < rect_width r \<and> last_gutter_width a' = gutter \<and> ann_geometry_valid a' \<and>
    shows_text theme (r\<lparr>rect_x := rect_x r + gutter, rect_width := rect_width r - gutter\<rparr>) f' c' \<and>
    tif_editor f' = set_viewport (rect_width r - gutter) (rect_height r) (tif_editor f)"
proof -
  define g where "g = gutter_width (ann_configuration a) (logical_line_count (tif_editor f))"
  have src: "source_line_count text_frame_source f = logical_line_count (tif_editor f)" "draw_op text_frame_source = tif_draw"
    by (simp_all add: text_frame_source_def text_frame_ops_def frame_ops.defs)
  let ?q = "r\<lparr>rect_x := rect_x r + g, rect_width := rect_width r - g\<rparr>"
  have q: "ann_content_rect g r = Some ?q" "g < rect_width r"
    using d by (auto simp: ann_draw_def src g_def Let_def ann_content_rect_def split: option.splits if_splits)
  obtain f1 c1 st1 where d1: "tif_draw theme ?q (f, c) = ((f1, c1), st1)" by (metis prod.collapse)
  have ok: "st1 = TUI_OK" using d d1 q(1) by (auto simp: ann_draw_def src g_def Let_def split: if_splits prod.splits)
  have c1: "shows_text theme ?q f1 c1" "confined ?q c c1" "tif_editor f1 = set_viewport (rect_width r - g) (rect_height r) (tif_editor f)"
    using tif_draw_shows [OF wf] tif_draw_confined [OF wf] d1 ok by fastforce+
  have end_: "a' = a\<lparr>last_gutter_width := g, ann_geometry_valid := True\<rparr> \<and> f' = f1 \<and>
      (c' = c1 \<or> (\<exists>cells. write_cells (r\<lparr>rect_width := g\<rparr>) cells c1 = (c', TUI_OK)))"
    using d d1 q(1) ok by (auto simp: ann_draw_def src g_def Let_def split: if_splits prod.splits)
  have "shows_text theme ?q f1 c'"
  proof (cases "c' = c1")
    case False
    then obtain cells where "write_cells (r\<lparr>rect_width := g\<rparr>) cells c1 = (c', TUI_OK)" using end_ by blast
    then have "confined (r\<lparr>rect_width := g\<rparr>) c1 c'" using write_confined [OF confined_wf [OF c1(2)] _ within_refl] by blast
    then show ?thesis by (rule shows_text_kept [OF c1(1)]) (auto simp: inside_def)
  qed (use c1 in simp)
  then show ?thesis using end_ q(2) c1(3) by (simp add: g_def [symmetric] Let_def)
qed

text \<open>The configuration of the box around the normal editor, whose size limits vary.\<close>

definition normal_box :: "bounding_frame \<Rightarrow> bool" where
  "normal_box b \<longleftrightarrow> (bnd_configuration b)\<lparr>size_limits := size_limits (editor_bounds TEXT)\<rparr> = editor_bounds TEXT"

lemma normal_box_fields:
  assumes "normal_box b"
  shows "outer_margins (bnd_configuration b) = no_margins\<lparr>margin_top := 1, margin_bottom := 1\<rparr>"
    "inner_margins (bnd_configuration b) = no_margins" "border_color (bnd_configuration b) = Some TEXT"
  using arg_cong [OF assms [unfolded normal_box_def], of outer_margins] arg_cong [OF assms [unfolded normal_box_def], of inner_margins]
    arg_cong [OF assms [unfolded normal_box_def], of border_color] by (simp_all add: editor_bounds_def)

lemma normal_content:
  assumes "normal_box b" and "bnd_content_rect r (bnd_configuration b) = Some q"
  shows "q = \<lparr>rect_x = rect_x r + 1, rect_y = rect_y r + 2, rect_width = rect_width r - 2, rect_height = rect_height r - 4\<rparr>"
    "4 < rect_height r" "2 < rect_width r"
  using assms(2) normal_box_fields [OF assms(1)]
  by (auto simp: bnd_content_rect_def not_empty_Some inset_def no_margins_def one_cell_margins_def split: option.splits if_splits)

definition text_rect :: "rect \<Rightarrow> nat \<Rightarrow> rect" where
  "text_rect r gutter = \<lparr>rect_x = rect_x r + 1 + gutter, rect_y = rect_y r + 2, rect_width = rect_width r - 2 - gutter,
     rect_height = rect_height r - 4\<rparr>"

lemma normal_draw_shows:
  assumes wf: "canvas_wf c" and box: "normal_box b"
    and d: "bnd_draw (Some annotated_text) theme r ((b, a, f), c) = (((b', a', f'), c'), TUI_OK)"
  shows "let gutter = gutter_width (ann_configuration a) (logical_line_count (tif_editor f)) in
    gutter < rect_width r - 2 \<and> last_gutter_width a' = gutter \<and> ann_geometry_valid a' \<and>
    child_offset_x b' = 1 \<and> child_offset_y b' = 2 \<and> bnd_geometry_valid b' \<and> shows_text theme (text_rect r gutter) f' c' \<and>
    tif_editor f' = set_viewport (rect_width r - 2 - gutter) (rect_height r - 4) (tif_editor f)"
proof -
  let ?conf = "bnd_configuration b"
  obtain out content where rects: "bnd_box_rect r ?conf = Some out" "bnd_content_rect r ?conf = Some content"
    using d by (auto simp: bnd_draw_def Let_def split: if_splits option.splits)
  note content = normal_content [OF box rects(2)]
  obtain c1 st1 where fill: "bnd_fill theme ?conf r c = (c1, st1)" by fastforce
  have c1: "canvas_wf c1"
    using fill wf write_confined [OF wf _ within_refl, THEN confined_wf] by (auto simp: bnd_fill_def split: option.splits)
  obtain c2 st2 where b2: "bnd_box theme ?conf out c1 = (c2, st2)" by fastforce
  have c2: "canvas_wf c2"
    using b2 c1 write_confined [OF c1 _ within_refl, THEN confined_wf] by (auto simp: bnd_box_def split: if_splits)
  obtain a3 f3 c3 st3 where d3: "ann_draw (Some text_frame_source) theme content ((a, f), c2) = (((a3, f3), c3), st3)"
    by (metis prod.collapse)
  have fin: "st3 = TUI_OK" "a' = a3" "f' = f3" "c' = c3"
    "b' = b\<lparr>child_offset_x := rect_x content - rect_x r, child_offset_y := rect_y content - rect_y r, bnd_geometry_valid := True\<rparr>"
    using d rects fill b2 d3 by (auto simp: bnd_draw_def Let_def split: if_splits)
  show ?thesis
    using ann_draw_shows [OF c2 d3 [unfolded fin(1)]] content(1) fin by (simp add: Let_def text_rect_def)
qed

text \<open>In normal mode the rows written after the view are the border and the notification row.\<close>

lemma overlays_bottom:
  assumes wf: "canvas_wf c" and d: "draw_overlays theme r 0 f c = (c', st)" and s: "4 < rect_width r" "2 < rect_height r"
  shows "confined (r\<lparr>rect_y := rect_y r + rect_height r - 2, rect_height := 2\<rparr>) c c'"
proof -
  let ?q = "r\<lparr>rect_y := rect_y r + rect_height r - 2, rect_height := 2\<rparr>"
  let ?x = "rect_x r + 2" and ?w = "rect_width r - 4" and ?y = "rect_y r + rect_height r - 2" and ?p = "decode_utf8 (escape_prompt (if_mode f))"
    and ?muted = "get_color theme TEXT_MUTED" and ?bg = "get_color theme BACKGROUND"
  obtain c2 st2 where d2: "(if escape_started f \<noteq> None then write_text_row ?x ?y ?w ?p ?muted ?bg c else (c, TUI_OK)) = (c2, st2)" by fastforce
  have c2: "confined ?q c c2"
    using d2 confined_refl [OF wf] text_row_confined [OF wf, of ?x ?y ?w ?p ?muted ?bg c2 st2 ?q] s by (auto split: if_splits)
  let ?last = "write_text_row (rect_x r) (rect_y r + rect_height r - 1) (rect_width r) (decode_utf8 (notification f)) ?muted ?bg c2"
  have o: "draw_overlays theme r 0 f c = (if st2 \<noteq> TUI_OK then (c2, st2) else ?last)"
    using s(1) unfolding draw_overlays_def Let_def by (simp only: d2 if_P [OF s(1)] prod.case simp_thms if_True if_False)
  have l: "confined ?q c2 c'" if "?last = (c', st)"
    by (rule text_row_confined [OF confined_wf [OF c2] that]) (use s in auto)
  show ?thesis
  proof (cases "st2 = TUI_OK")
    case True
    then have "?last = (c', st)" using d unfolding o by simp
    then show ?thesis by (rule confined_trans [OF c2 l])
  next
    case False
    then have "c' = c2" using d unfolding o by simp
    then show ?thesis using c2 by (simp only:)
  qed
qed

lemma normal_drawing_state:
  assumes "if_mode f = NORMAL_MODE"
  shows "if_mode (drawing_state r c f) = NORMAL_MODE" "normal_input (drawing_state r c f) = normal_input f"
    "normal_annotated (drawing_state r c f) = normal_annotated f" "drawing_rows r f = 0"
    "normal_box (normal_bounding f) \<Longrightarrow> normal_box (normal_bounding (drawing_state r c f))"
  using assms by (auto simp: drawing_state_def drawing_rows_def prepare_draw_def constrain_active_def Let_def normal_box_def bnd_set_size_constraints_def)

lemma input_draw_shows:
  assumes wf: "canvas_wf c" and mode: "if_mode f = NORMAL_MODE" and box: "normal_box (normal_bounding f)"
    and d: "if_draw tmt theme r (f, c) = ((f', c'), TUI_OK)"
  shows "let gutter = normal_gutter_width f in
    gutter < rect_width r - 2 \<and> last_gutter_width (normal_annotated f') = gutter \<and> ann_geometry_valid (normal_annotated f') \<and>
    child_offset_x (normal_bounding f') = 1 \<and> child_offset_y (normal_bounding f') = 2 \<and> bnd_geometry_valid (normal_bounding f') \<and>
    if_mode f' = NORMAL_MODE \<and> shows_text theme (text_rect r gutter) (normal_input f') c' \<and>
    tif_editor (normal_input f') = set_viewport (rect_width r - 2 - gutter) (rect_height r - 4) (tif_editor (normal_input f))"
  using d
proof (cases rule: if_draw_cases)
  case (overlays c1)
  let ?f = "drawing_state r c f"
  note st = normal_drawing_state [OF mode]
  obtain b' a' i' where 1: "bnd_draw (Some annotated_text) theme r ((normal_bounding ?f, normal_annotated ?f, normal_input ?f), c) = (((b', a', i'), c1), TUI_OK)"
    "f' = set_normal_view ?f (b', a', i')"
    using overlays(3) st(1) by (auto simp: draw_active_def normal_view_def bounding_ops_def split: prod.splits)
  note shows1 = normal_draw_shows [OF wf st(5) [OF box] 1(1)]
  have c1: "canvas_wf c1" using active_confined [OF wf overlays(3)] by (rule confined_wf)
  define g where "g = normal_gutter_width f"
  have "shows_text theme (text_rect r g) i' c1" using shows1 st by (simp add: Let_def g_def normal_gutter_width_def)
  moreover have "confined (r\<lparr>rect_y := rect_y r + rect_height r - 2, rect_height := 2\<rparr>) c1 c'"
    using overlays_bottom [OF c1 overlays(4) [unfolded st(4)]] overlays(1,2) by (simp add: kMinimumWidth_def kMinimumHeight_def)
  ultimately have "shows_text theme (text_rect r g) i' c'"
    by (rule shows_text_kept) (auto simp: inside_def text_rect_def)
  then show ?thesis using shows1 1(2) st by (simp add: Let_def g_def normal_gutter_width_def set_normal_view_def)
qed simp_all

text \<open>A rendered character is a character of the text, and the pointer maps its cell back to it.\<close>

lemma rendered_cell:
  fixes e row column
  defines "shown \<equiv> render_rows (editor_render_state e) ! row"
  assumes row: "row < length (render_rows (editor_render_state e))" and column: "column < length (render_cells shown)"
  shows "row < viewport_height e" "column < viewport_width e" "logical_line shown < length (ed_lines e)"
    "first_character shown + column < length (ed_lines e ! logical_line shown)"
    "fst (render_cells shown ! column) = ed_lines e ! logical_line shown ! (first_character shown + column)"
    "map_caret \<lparr>pos_x = int column, pos_y = int row\<rparr> e =
      Some \<lparr>cur_line = logical_line shown, cur_column = first_character shown + column\<rparr>"
proof -
  let ?w = "viewport_width e"
  let ?rows = "ed_rows e ?w"
  have w: "0 < ?w" "0 < viewport_height e" using row by (auto simp: editor_render_state_def split: if_splits)
  let ?n = "min (viewport_height e) (if scroll_row e < length ?rows then length ?rows - scroll_row e else 0)"
  have rows: "render_rows (editor_render_state e) = map (\<lambda>i. render_row_of e (?rows ! (scroll_row e + i))) [0..<?n]"
    using w by (auto simp: editor_render_state_def Let_def split: prod.splits)
  have r: "row < viewport_height e" "scroll_row e + row < length ?rows" using row by (auto simp: rows split: if_splits)
  have shown: "shown = render_row_of e (?rows ! (scroll_row e + row))" using row by (simp add: shown_def rows)
  note valid = visual_rows_valid [OF w(1) nth_mem [OF r(2) [unfolded ed_rows_def]], folded ed_rows_def]
  show "row < viewport_height e" by (rule r)
  show c: "column < ?w" using column valid(3) by (simp add: shown render_row_of_def)
  show "logical_line shown < length (ed_lines e)" using valid(1) by (simp add: shown render_row_of_def)
  show "first_character shown + column < length (ed_lines e ! logical_line shown)"
    using column valid(2) by (simp add: shown render_row_of_def)
  show "fst (render_cells shown ! column) = ed_lines e ! logical_line shown ! (first_character shown + column)"
    using column by (simp add: shown render_row_of_def Let_def)
  show "map_caret \<lparr>pos_x = int column, pos_y = int row\<rparr> e =
      Some \<lparr>cur_line = logical_line shown, cur_column = first_character shown + column\<rparr>"
    using c r w column by (simp add: map_caret_def Let_def shown render_row_of_def)
qed

lemma place_cursor_at:
  assumes "map_caret p e = Some k"
  shows "snd (place_cursor p e) = TUI_OK" "ed_cursor (fst (place_cursor p e)) = k" "ed_lines (fst (place_cursor p e)) = ed_lines e"
  using assms by (simp_all add: place_cursor_def reset_selection_def)

lemma tif_cell_char:
  assumes "row < length (render_rows out)" and "column < length (render_cells (render_rows out ! row))"
  shows "cell_char (tif_cell theme style out row column) = fst (render_cells (render_rows out ! row) ! column)"
  using assms by (simp add: tif_cell_def Let_def split: prod.split)

lemma if_place_normal:
  assumes "if_mode f = NORMAL_MODE" and "bnd_geometry_valid (normal_bounding f)" and "ann_geometry_valid (normal_annotated f)"
    and "child_offset_x (normal_bounding f) = 1" "child_offset_y (normal_bounding f) = 2"
    and "last_gutter_width (normal_annotated f) = g" and "g \<le> int64_max"
  shows "if_place_cursor \<lparr>pos_x = int (1 + g + column), pos_y = int (2 + row)\<rparr> f =
    (f\<lparr>escape_started := None, normal_input := (normal_input f)
        \<lparr>tif_editor := fst (place_cursor \<lparr>pos_x = int column, pos_y = int row\<rparr> (tif_editor (normal_input f)))\<rparr>\<rparr>,
     snd (place_cursor \<lparr>pos_x = int column, pos_y = int row\<rparr> (tif_editor (normal_input f))))"
  using assms
  by (simp add: if_place_cursor_def Let_def bounding_ops_def annotated_ops_def ann_place_cursor_def bnd_translate_def ann_translate_def
      signed_width_def min_def int64_max_def text_frame_source_def text_frame_ops_def frame_ops.defs tif_place_cursor_def normal_view_def
      set_normal_view_def split: prod.splits)

section \<open>Drawing succeeds\<close>

text \<open>A canvas inside a frame transaction, of a given size.\<close>

definition ready :: "nat \<Rightarrow> nat \<Rightarrow> canvas \<Rightarrow> bool" where
  "ready w h c \<longleftrightarrow> canvas_wf c \<and> frame_in_progress c \<and> canvas_width c = w \<and> canvas_height c = h"

lemma write_ready:
  assumes "ready w h c" and "rect_x r + rect_width r \<le> w" and "rect_y r + rect_height r \<le> h"
    and "length cells = rect_height r" and "\<forall>row \<in> set cells. length row = rect_width r"
  shows "\<exists>c'. write_cells r cells c = (c', TUI_OK) \<and> ready w h c'"
proof -
  obtain c' st where w: "write_cells r cells c = (c', st)" by fastforce
  have "fits r c" using assms(1-3) by (simp add: ready_def fits_def)
  then have "st = TUI_OK" using write_cells_accepts [OF w _ _ assms(4,5)] assms(1) by (simp add: ready_def)
  then show ?thesis using w write_cells_ok [of c r cells c'] assms(1) by (simp add: ready_def)
qed

lemma write_grid_ready:
  assumes "ready w h c" and "rect_x r + rect_width r \<le> w" and "rect_y r + rect_height r \<le> h"
  shows "\<exists>c'. write_cells r (cell_grid (rect_width r) (rect_height r) g) c = (c', TUI_OK) \<and> ready w h c'"
  by (rule write_ready [OF assms]) (simp_all add: cell_grid_def)

lemma tif_draw_ready:
  assumes "ready w h c" and "rect_x r + rect_width r \<le> w" and "rect_y r + rect_height r \<le> h" and "0 < rect_width r" "0 < rect_height r"
  shows "\<exists>f' c'. tif_draw theme r (f, c) = ((f', c'), TUI_OK) \<and> ready w h c'"
  using assms(4,5) write_grid_ready [OF assms(1-3), of "tif_cell theme (tif_style f) (editor_render_state (set_viewport (rect_width r) (rect_height r) (tif_editor f)))"]
  by (auto simp: tif_draw_def Let_def)

lemma ann_draw_ready:
  assumes rdy: "ready w h c" and fit: "rect_x r + rect_width r \<le> w" "rect_y r + rect_height r \<le> h" "w \<le> size_max"
    and g: "gutter_width (ann_configuration a) (logical_line_count (tif_editor f)) < rect_width r" "0 < rect_height r"
  shows "\<exists>af' c'. ann_draw (Some text_frame_source) theme r ((a, f), c) = ((af', c'), TUI_OK) \<and> ready w h c'"
proof -
  define k where "k = gutter_width (ann_configuration a) (logical_line_count (tif_editor f))"
  let ?q = "r\<lparr>rect_x := rect_x r + k, rect_width := rect_width r - k\<rparr>"
  have src: "source_line_count text_frame_source f = logical_line_count (tif_editor f)" "draw_op text_frame_source = tif_draw"
    by (simp_all add: text_frame_source_def text_frame_ops_def frame_ops.defs)
  have q: "ann_content_rect k r = Some ?q" using g fit by (auto simp: ann_content_rect_def k_def)
  obtain f' c1 where 1: "tif_draw theme ?q (f, c) = ((f', c1), TUI_OK)" "ready w h c1"
    using tif_draw_ready [OF rdy, of ?q theme f] g fit by (auto simp: k_def)
  obtain c2 where 2: "write_cells (r\<lparr>rect_width := k\<rparr>)
      (cell_grid k (rect_height r) (gutter_cell theme a (logical_line_count (tif_editor f)) (source_visible_rows text_frame_source f'))) c1 =
      (c2, TUI_OK)" "ready w h c2"
    using write_grid_ready [OF 1(2), of "r\<lparr>rect_width := k\<rparr>"] g fit by (auto simp: k_def)
  show ?thesis using 1 2 q by (simp add: ann_draw_def src Let_def k_def [symmetric])
qed

lemma bnd_normal_ready:
  assumes rdy: "ready w h c" and fit: "rect_x r + rect_width r \<le> w" "rect_y r + rect_height r \<le> h" "w \<le> size_max" "h \<le> size_max"
    and size: "\<not> size_refused (size_limits (bnd_configuration b)) w r" "4 < rect_height r" and box: "normal_box b"
    and g: "gutter_width (ann_configuration a) (logical_line_count (tif_editor f)) < rect_width r - 2"
  shows "\<exists>v c'. bnd_draw (Some annotated_text) theme r ((b, a, f), c) = ((v, c'), TUI_OK) \<and> ready w h c'"
proof -
  let ?conf = "bnd_configuration b"
  let ?content = "\<lparr>rect_x = rect_x r + 1, rect_y = rect_y r + 2, rect_width = rect_width r - 2, rect_height = rect_height r - 4\<rparr>"
  let ?out = "\<lparr>rect_x = rect_x r, rect_y = rect_y r + 1, rect_width = rect_width r, rect_height = rect_height r - 2\<rparr>"
  have rects: "bnd_box_rect r ?conf = Some ?out" "bnd_content_rect r ?conf = Some ?content"
    using normal_box_fields [OF box] size(2) g fit
    by (auto simp: bnd_box_rect_def bnd_content_rect_def inset_def not_empty_def no_margins_def one_cell_margins_def)
  obtain c1 where 1: "bnd_fill theme ?conf r c = (c1, TUI_OK)" "ready w h c1"
    using rdy write_grid_ready [OF rdy fit(1,2)] by (cases "outside_box_color ?conf") (auto simp: bnd_fill_def)
  have out: "rect_x ?out + rect_width ?out \<le> w" "rect_y ?out + rect_height ?out \<le> h" "2 \<le> rect_width ?out" "2 \<le> rect_height ?out"
    using fit size(2) g by simp_all
  have "bnd_box theme ?conf ?out c1 = write_cells ?out (cell_grid (rect_width ?out) (rect_height ?out) (box_cell theme ?conf ?out)) c1"
    unfolding bnd_box_def using out(3,4) by (simp add: not_less [symmetric])
  then obtain c2 where 2: "bnd_box theme ?conf ?out c1 = (c2, TUI_OK)" "ready w h c2"
    using write_grid_ready [OF 1(2) out(1,2), of "box_cell theme ?conf ?out"] by metis
  have content: "rect_x ?content + rect_width ?content \<le> w" "rect_y ?content + rect_height ?content \<le> h"
    "gutter_width (ann_configuration a) (logical_line_count (tif_editor f)) < rect_width ?content" "0 < rect_height ?content"
    using fit size(2) g by simp_all
  obtain af c3 where 3: "ann_draw (Some text_frame_source) theme ?content ((a, f), c2) = ((af, c3), TUI_OK)" "ready w h c3"
    using ann_draw_ready [OF 2(2) content(1,2) fit(3) content(3,4), of theme] by blast
  have "canvas_width c = w" "canvas_height c = h" using rdy by (simp_all add: ready_def)
  then show ?thesis using 1 2 3 rects size(1) fit by (auto simp: bnd_draw_def Let_def)
qed

lemma text_row_ready:
  assumes "ready w h c" and "x + limit \<le> w" and "y < h"
  shows "\<exists>c'. write_text_row x y limit t fg bg c = (c', TUI_OK) \<and> ready w h c'"
  using assms write_ready [OF assms(1), of "\<lparr>rect_x = x, rect_y = y, rect_width = min limit (length t), rect_height = 1\<rparr>"]
  by (auto simp: write_text_row_def Let_def)

lemma overlays_ready:
  assumes rdy: "ready w h c" and fit: "rect_x r + rect_width r \<le> w" "rect_y r + rect_height r \<le> h" and s: "4 < rect_width r" "2 < rect_height r"
  shows "\<exists>c'. draw_overlays theme r 0 f c = (c', TUI_OK) \<and> ready w h c'"
proof -
  let ?x = "rect_x r + 2" and ?w = "rect_width r - 4" and ?y = "rect_y r + rect_height r - 2" and ?p = "decode_utf8 (escape_prompt (if_mode f))"
    and ?muted = "get_color theme TEXT_MUTED" and ?bg = "get_color theme BACKGROUND"
  have at: "?x + ?w \<le> w" "?y < h" "rect_x r + rect_width r \<le> w" "rect_y r + rect_height r - 1 < h" using fit s by simp_all
  obtain c2 where 2: "(if escape_started f \<noteq> None then write_text_row ?x ?y ?w ?p ?muted ?bg c else (c, TUI_OK)) = (c2, TUI_OK)" "ready w h c2"
    using rdy text_row_ready [OF rdy at(1,2)] by metis
  obtain c3 where 3: "write_text_row (rect_x r) (rect_y r + rect_height r - 1) (rect_width r) (decode_utf8 (notification f)) ?muted ?bg c2 = (c3, TUI_OK)"
    "ready w h c3"
    using text_row_ready [OF 2(2) at(3,4)] by metis
  have "draw_overlays theme r 0 f c = (c3, TUI_OK)"
    unfolding draw_overlays_def Let_def by (simp only: 2(1) 3(1) if_P [OF s(1)] prod.case simp_thms if_True if_False)
  then show ?thesis using 3(2) by blast
qed

lemma input_draw_ready:
  assumes rdy: "ready w h c" and mode: "if_mode f = NORMAL_MODE" and box: "normal_box (normal_bounding f)" and max: "w \<le> size_max" "h \<le> size_max"
    and r: "rect_x r = 0" "rect_width r = w" "rect_y r + rect_height r \<le> h"
    and size: "kMinimumWidth \<le> w" "kMinimumHeight \<le> rect_height r" "rect_height r \<le> if_maximum_height h"
    and g: "normal_gutter_width f < w - 2"
  shows "snd (if_draw tmt theme r (f, c)) = TUI_OK"
proof -
  let ?f = "drawing_state r c f"
  note st = normal_drawing_state [OF mode]
  have c: "canvas_width c = w" "canvas_height c = h" using rdy by (simp_all add: ready_def)
  have limits: "\<not> size_refused (size_limits (bnd_configuration (normal_bounding ?f))) w r"
    using mode r size c
    by (simp add: drawing_state_def prepare_draw_def constrain_active_def bnd_set_size_constraints_def size_refused_def exceeds_def
        mode_maximum_height_def kMinimumWidth_def kMinimumHeight_def)
  obtain v c1 where 1: "bnd_draw (Some annotated_text) theme r ((normal_bounding ?f, normal_annotated ?f, normal_input ?f), c) = ((v, c1), TUI_OK)"
      "ready w h c1"
    using bnd_normal_ready [OF rdy _ r(3) max limits _ st(5) [OF box], of "normal_annotated ?f" "normal_input ?f" theme] r size(2) g st(2,3)
    by (auto simp: kMinimumHeight_def normal_gutter_width_def)
  have a: "draw_active tmt theme r (?f, c) = ((set_normal_view ?f v, c1), TUI_OK)"
    using 1 st(1) by (simp add: draw_active_def normal_view_def bounding_ops_def)
  obtain c2 where 2: "draw_overlays theme r 0 (set_normal_view ?f v) c1 = (c2, TUI_OK)"
    using overlays_ready [OF 1(2), of r] r size by (auto simp: kMinimumWidth_def kMinimumHeight_def)
  have "if_draw tmt theme r (f, c) = ((set_normal_view ?f v, c2), TUI_OK)"
    using a 2 r size c mode unfolding if_draw_def Let_def drawing_state_def drawing_rows_def mode_maximum_height_def by simp
  then show ?thesis by simp
qed

definition no_emulator :: "unit tmt_ops" where
  "no_emulator = \<lparr>tmt_open = (\<lambda>_ _. None), tmt_resize = (\<lambda>_ _ t. (t, [], False)), tmt_write = (\<lambda>_ t. (t, [])), tmt_screen = (\<lambda>_. \<lparr>nline = 0, ncol = 0, tmt_lines = []\<rparr>),
     tmt_cursor = (\<lambda>_. (0, 0)), tmt_clean = (\<lambda>t. t), tmt_reset = (\<lambda>t. (t, []))\<rparr>"

definition sample_input :: "unit input_frame" where
  "sample_input = new_input_frame\<lparr>normal_input := (normal_input (new_input_frame :: unit input_frame))
     \<lparr>tif_editor := insert_utf8 [0x61, 0x62] (new_editor default_editor_options)\<rparr>\<rparr>"

abbreviation "sample_rect \<equiv> \<lparr>rect_x = 0, rect_y = 0, rect_width = 40, rect_height = 5\<rparr>"
abbreviation "sample_canvas \<equiv> fst (begin_frame (new_canvas 40 5))"
abbreviation "sample_theme \<equiv> \<lparr>theme_colors = \<lambda>_. 0\<rparr>"

lemma sample_ready: "ready 40 5 sample_canvas"
  using new_canvas_wf [of 40 5]
  by (simp add: ready_def begin_frame_def copy_drawable_to_writable_def new_canvas_def checked_area_def size_max_def canvas_wf_def set_writable_def
      get_drawable_buffer_def split: buffer_state.split)

lemma sample_input_fields:
  "if_mode sample_input = NORMAL_MODE" "normal_box (normal_bounding sample_input)" "normal_gutter_width sample_input = 3"
  "tif_editor (normal_input sample_input) = insert_utf8 [0x61, 0x62] (new_editor default_editor_options)"
proof -
  show "if_mode sample_input = NORMAL_MODE" "normal_box (normal_bounding sample_input)"
    "tif_editor (normal_input sample_input) = insert_utf8 [0x61, 0x62] (new_editor default_editor_options)"
    by (simp_all add: sample_input_def new_input_frame_def normal_box_def new_bounding_def)
  have "logical_line_count (insert_utf8 [0x61, 0x62] (new_editor default_editor_options)) = 1" by code_simp
  then show "normal_gutter_width sample_input = 3"
    by (simp add: sample_input_def new_input_frame_def normal_gutter_width_def gutter_width_def new_annotated_def default_gutter_def
        line_columns_def sat_add_def decimal_columns.simps size_max_def)
qed

lemma sample_draw_ok: "snd (if_draw no_emulator sample_theme sample_rect (sample_input, sample_canvas)) = TUI_OK"
  by (rule input_draw_ready [OF sample_ready])
    (simp_all add: sample_input_fields size_max_def kMinimumWidth_def kMinimumHeight_def if_maximum_height_def kBaselineMaximumHeight_def)

text \<open>
  C32: A click goes to the character it points at. After the input frame has been drawn in normal
  mode, every cell of the canvas inside its box, right of the line numbers, where a row of the text
  is shown holds a character of the text, and placing the cursor at the coordinates of that cell
  relative to the frame puts the caret on exactly that character and changes no text.
\<close>

theorem click_places_caret:
  assumes "canvas_wf c" and "if_mode f = NORMAL_MODE" and "normal_box (normal_bounding f)" and "canvas_width c \<le> int64_max"
    and "if_draw tmt theme r (f, c) = ((f', c'), TUI_OK)" and "out = editor_render_state (tif_editor (normal_input f'))"
    and "row < length (render_rows out)" and "column < length (render_cells (render_rows out ! row))"
    and "x = 1 + normal_gutter_width f + column" and "y = 2 + row"
    and "if_place_cursor \<lparr>pos_x = int x, pos_y = int y\<rparr> f' = (f'', st)"
  shows "let e = tif_editor (normal_input f''); line = cur_line (ed_cursor e); i = cur_column (ed_cursor e) in
    st = TUI_OK \<and> ed_lines e = ed_lines (tif_editor (normal_input f)) \<and>
    line = logical_line (render_rows out ! row) \<and> i = first_character (render_rows out ! row) + column \<and>
    line < length (ed_lines e) \<and> i < length (ed_lines e ! line) \<and>
    cell_char (working c' (rect_y r + y) (rect_x r + x)) = ed_lines e ! line ! i"
proof -
  let ?e = "tif_editor (normal_input f')" and ?g = "normal_gutter_width f"
  note drawn = input_draw_shows [OF assms(1,2,3,5), unfolded Let_def]
  note cell = rendered_cell [of row ?e column, folded assms(6), OF assms(7,8)]
  have "rect_width r = canvas_width c" using assms(5) by (auto simp: if_draw_def split: if_splits)
  then have g: "?g \<le> int64_max" using drawn assms(4) by auto
  let ?place = "place_cursor \<lparr>pos_x = int column, pos_y = int row\<rparr> ?e"
  have p: "(f'', st) = (f'\<lparr>escape_started := None, normal_input := (normal_input f')\<lparr>tif_editor := fst ?place\<rparr>\<rparr>, snd ?place)"
    using if_place_normal [of f' ?g column row] drawn g assms(9-11) by simp
  have shown: "shows_text theme (text_rect r ?g) (normal_input f') c'" using drawn by simp
  have "cell_char (working c' (rect_y r + y) (rect_x r + x)) = fst (render_cells (render_rows out ! row) ! column)"
    using shown cell(1,2) tif_cell_char [OF assms(7,8)] assms(6,9,10)
    by (simp add: shows_text_def text_rect_def add.assoc)
  moreover have "ed_lines ?e = ed_lines (tif_editor (normal_input f))" using drawn by simp
  ultimately show ?thesis using p place_cursor_at [OF cell(6)] cell(3-5) by (simp add: Let_def)
qed

lemma sample_rendered:
  "render_rows (editor_render_state (set_viewport 35 1 (insert_utf8 [0x61, 0x62] (new_editor default_editor_options)))) =
    [\<lparr>logical_line = 0, first_character = 0, first_visual_row = True, render_cells = [(0x61, False), (0x62, False)]\<rparr>]"
  by code_simp

theorem click_places_caret_witness:
  "\<exists>f' c' f''. if_draw no_emulator sample_theme sample_rect (sample_input, sample_canvas) = ((f', c'), TUI_OK) \<and>
    if_place_cursor \<lparr>pos_x = 5, pos_y = 2\<rparr> f' = (f'', TUI_OK) \<and>
    ed_cursor (tif_editor (normal_input f'')) = \<lparr>cur_line = 0, cur_column = 1\<rparr> \<and> cell_char (working c' 2 5) = 0x62"
proof -
  obtain f' c' where d: "if_draw no_emulator sample_theme sample_rect (sample_input, sample_canvas) = ((f', c'), TUI_OK)"
    using sample_draw_ok by (metis prod.collapse)
  obtain f'' st where p: "if_place_cursor \<lparr>pos_x = 5, pos_y = 2\<rparr> f' = (f'', st)" by fastforce
  have c: "canvas_wf sample_canvas" "canvas_width sample_canvas = 40" using sample_ready by (simp_all add: ready_def)
  have "tif_editor (normal_input f') = set_viewport 35 1 (insert_utf8 [0x61, 0x62] (new_editor default_editor_options))"
    using input_draw_shows [OF c(1) sample_input_fields(1,2) d] by (simp add: sample_input_fields Let_def)
  then have out: "render_rows (editor_render_state (tif_editor (normal_input f'))) =
      [\<lparr>logical_line = 0, first_character = 0, first_visual_row = True, render_cells = [(0x61, False), (0x62, False)]\<rparr>]"
    by (simp only: sample_rendered)
  have lines: "ed_lines (tif_editor (normal_input sample_input)) = [[0x61, 0x62]]"
    unfolding sample_input_fields by code_simp
  have "canvas_width sample_canvas \<le> int64_max" by (simp add: c int64_max_def)
  from click_places_caret [OF c(1) sample_input_fields(1,2) this d refl, of 0 1 5 2 f'' st]
  show ?thesis using d p out lines by (auto simp: sample_input_fields Let_def numeral_2_eq_2)
qed

end
