(* ===== verification/Input_Pipeline.thy ===== *)
theory Input_Pipeline
  imports Paste_Correct Frames_Correct
begin

text \<open>
  The decoder feeding the input frame: the events of every history of the decoder are accepted by
  the frame, whose two editors stay well formed; and the modes of the frame over every history of
  its operations.
\<close>

section \<open>The editors behind the frame\<close>

abbreviation "normal_editor f \<equiv> tif_editor (normal_input f)"
abbreviation "command_editor f \<equiv> tif_editor (cmd_input (command_frame f))"

definition calm :: "'t input_frame \<Rightarrow> bool" where
  "calm f \<longleftrightarrow> settled (normal_editor f) \<and> settled (command_editor f) \<and>
     ed_paste (normal_editor f) = None \<and> ed_paste (command_editor f) = None"

text \<open>What the consumer's side of the paste protocol means for the frame.\<close>

definition follows :: "nat option \<Rightarrow> 't input_frame \<Rightarrow> bool" where
  "follows st f \<longleftrightarrow> settled (normal_editor f) \<and> settled (command_editor f) \<and>
     (ed_paste (normal_editor f) \<noteq> None \<longleftrightarrow> st \<noteq> None \<and> if_mode f = NORMAL_MODE) \<and>
     (ed_paste (command_editor f) \<noteq> None \<longleftrightarrow> st \<noteq> None \<and> if_mode f = COMMAND_MODE)"

lemma follows_None: "follows None f \<longleftrightarrow> calm f"
  by (auto simp: follows_def calm_def)

lemma tif_event_kept:
  assumes "settled (tif_editor i)" and "\<nexists>p. ev = Paste_Event p"
  shows "snd (tif_handle_event ev i) = TUI_OK" "settled (tif_editor (fst (tif_handle_event ev i)))"
    "ed_paste (tif_editor (fst (tif_handle_event ev i))) = ed_paste (tif_editor i)"
proof -
  have wf: "ed_wf (tif_editor i)" using assms(1) by (simp add: settled_def)
  show "snd (tif_handle_event ev i) = TUI_OK" using assms(2) by (cases ev) (auto simp: tif_handle_event_def)
  show "settled (tif_editor (fst (tif_handle_event ev i)))"
    using assms by (cases ev)
      (auto simp: tif_handle_event_def handle_key_settled handle_text_settled apply_command_settled scroll_vertical_settled)
  show "ed_paste (tif_editor (fst (tif_handle_event ev i))) = ed_paste (tif_editor i)"
    using assms(2) by (cases ev)
      (auto simp: tif_handle_event_def handle_key_paste [OF wf] handle_text_def insert_utf8_def edit_paste [OF wf] apply_command_paste
        scroll_vertical_def Let_def)
qed

lemma tif_clear_kept:
  "settled (tif_editor (tif_clear i))" "ed_paste (tif_editor (tif_clear i)) = None"
proof -
  have none: "ed_paste (editor_clear e) = None" for e by (simp add: editor_clear_def new_editor_def)
  show "settled (tif_editor (tif_clear i))"
    by (simp add: tif_clear_def Let_def editor_clear_settled set_viewport_settled none)
  show "ed_paste (tif_editor (tif_clear i)) = None"
    by (simp add: tif_clear_def Let_def none set_viewport_def clamp_scroll_def)
qed

lemma cmd_parts_kept [simp]:
  "cmd_input (cmd_clear_help c) = cmd_input c" "cmd_input (cmd_clear c) = tif_clear (cmd_input c)"
  by (simp_all add: cmd_clear_help_def cmd_clear_def)

lemma route_kept:
  assumes "calm f" and "\<nexists>p. ev = Paste_Event p"
  shows "snd (route_editor_event ev f) = TUI_OK" "calm (fst (route_editor_event ev f))"
  using assms tif_event_kept [of "normal_input f" ev] tif_event_kept [of "cmd_input (command_frame f)" ev]
  by (auto simp: route_editor_event_def cmd_handle_event_def calm_def split: prod.splits)

lemma calm_modes [simp]:
  "calm f \<Longrightarrow> calm (enter_command_mode f)" "calm f \<Longrightarrow> calm (enter_terminal_mode f)"
  "calm (f\<lparr>escape_started := x\<rparr>) = calm f" "calm (f\<lparr>if_mode := m\<rparr>) = calm f" "calm (f\<lparr>terminal_visible := b\<rparr>) = calm f"
  "calm f \<Longrightarrow> calm (f\<lparr>normal_input := tif_clear (normal_input f)\<rparr>)"
  by (simp_all add: calm_def enter_command_mode_def enter_terminal_mode_def tif_clear_kept)

lemma committed_kept:
  assumes "calm f"
  shows "snd (handle_committed_text t now f) = TUI_OK \<and> calm (fst (handle_committed_text t now f))"
  using assms by (simp add: handle_committed_text_def Let_def route_kept)

lemma key_kept:
  assumes "calm f"
  shows "snd (if_handle_key ev now f) = TUI_OK \<and> calm (fst (if_handle_key ev now f))"
proof -
  have "calm (handle_escape now d f)" for d using assms by (simp add: handle_escape_def)
  then show ?thesis using assms by (simp add: if_handle_key_def Let_def route_kept committed_kept split: key_code.split)
qed

lemma command_kept:
  assumes "calm f"
  shows "snd (if_apply_command cmd f) = TUI_OK \<and> calm (fst (if_apply_command cmd f))"
  using assms by (simp add: if_apply_command_def route_kept)

lemma plain_event_kept:
  assumes "calm f" and "\<nexists>p. ev = Paste_Event p"
  shows "snd (if_handle_event ev now f) = TUI_OK \<and> calm (fst (if_handle_event ev now f))"
  using assms by (cases ev) (simp_all add: if_handle_event_def Let_def route_kept committed_kept key_kept command_kept)

section \<open>Paste events\<close>

lemma handle_paste_next:
  assumes s: "settled e" and n: "paste_next limit st (Paste_Event p) = Some st'" and o: "ed_paste e \<noteq> None \<longleftrightarrow> st \<noteq> None"
  shows "snd (handle_paste p e) = TUI_OK" "settled (fst (handle_paste p e))" "ed_paste (fst (handle_paste p e)) \<noteq> None \<longleftrightarrow> st' \<noteq> None"
proof -
  have wf: "ed_wf e" using s by (simp add: settled_def)
  have open_: "ed_paste (paste_insert bs fin q e) \<noteq> None" if "ed_paste e = Some q" for bs fin q
    using paste_insert_kept(3) [OF wf that] by fastforce
  show "settled (fst (handle_paste p e))" by (rule handle_paste_settled [OF s])
  show "snd (handle_paste p e) = TUI_OK" "ed_paste (fst (handle_paste p e)) \<noteq> None \<longleftrightarrow> st' \<noteq> None"
    using n o open_ by (auto simp: handle_paste_def split: paste_phase.splits option.splits if_splits)
qed

lemma paste_event_kept:
  assumes f: "follows st f" and n: "paste_next limit st (Paste_Event p) = Some st'"
  shows "snd (if_handle_event (Paste_Event p) now f) = TUI_OK \<and> follows st' (fst (if_handle_event (Paste_Event p) now f))"
proof (cases "if_mode f = TERMINAL_MODE")
  case True
  then show ?thesis using f by (auto simp: if_handle_event_def follows_def)
next
  case False
  show ?thesis
    using f False handle_paste_next [OF _ n, of "normal_editor f"] handle_paste_next [OF _ n, of "command_editor f"]
    by (cases "if_mode f")
      (auto simp: if_handle_event_def follows_def route_editor_event_def cmd_handle_event_def tif_handle_event_def split: prod.splits)
qed

lemma event_kept:
  assumes f: "follows st f" and n: "paste_next limit st ev = Some st'"
  shows "snd (if_handle_event ev now f) = TUI_OK \<and> follows st' (fst (if_handle_event ev now f))"
proof (cases "\<exists>p. ev = Paste_Event p")
  case True
  then show ?thesis using paste_event_kept [OF f] n by blast
next
  case False
  show ?thesis
  proof (cases "st = None")
    case True
    then have "st' = None" using n False by (cases ev) auto
    then show ?thesis using plain_event_kept [of f ev now] f False True by (simp add: follows_None)
  next
    case open_: False
    then obtain reason bs where "ev = Unknown_Event reason bs" "st' = st" using n False by (cases ev) auto
    then show ?thesis using f by (simp add: if_handle_event_def)
  qed
qed

fun deliver :: "event list \<Rightarrow> int list \<Rightarrow> 't input_frame \<Rightarrow> 't input_frame \<times> tui_status list" where
  "deliver (ev # evs) (now # ts) f =
     (case if_handle_event ev now f of (f', st) \<Rightarrow> apsnd ((#) st) (deliver evs ts f'))"
| "deliver _ _ f = (f, [])"

lemma deliver_follows:
  assumes "follows st f" and "paste_run limit st evs = Some st'" and "length ts = length evs"
  shows "set (snd (deliver evs ts f)) \<subseteq> {TUI_OK} \<and> follows st' (fst (deliver evs ts f))"
  using assms
proof (induction evs ts f arbitrary: st rule: deliver.induct)
  case (1 ev evs now ts f)
  obtain st1 where st1: "paste_next limit st ev = Some st1" "paste_run limit st1 evs = Some st'"
    using 1(3) by (auto split: bind_splits)
  obtain f1 s1 where h: "if_handle_event ev now f = (f1, s1)" by fastforce
  have k: "s1 = TUI_OK" "follows st1 f1" using event_kept [OF 1(2) st1(1), of now] h by simp_all
  show ?case using 1(1) [OF h [symmetric] k(2) st1(2)] 1(4) k(1) h by (cases "deliver evs ts f1") simp
qed simp_all

lemma new_frame_calm: "calm new_input_frame"
  by (simp add: calm_def new_input_frame_def new_text_frame_def new_cmd_frame_def new_editor_settled)
    (simp add: new_editor_def)

text \<open>
  C33: The input frame accepts what the decoder emits. For every configured map that has a paste
  terminator and does not begin a paste at a lone escape byte, and every history of bytes, timeouts
  and end of input in which the decoder is not reset, delivering the emitted events one by one, at any
  times, makes every call of the frame return OK: in every mode a paste is open in the active editor
  exactly while the decoder has one open, keys and commands never reach an editor in between, and
  both editors stay well formed with the viewport not scrolled past the last page. The conditions are
  needed: a reset inside a paste, or a map without a terminator, ends the decoder's paste with neither
  \<open>END\<close> nor \<open>CANCEL\<close>, and the editor's paste stays open.
\<close>

theorem decoder_events_accepted:
  assumes "list_all configured_op mops" and "paste_configured (configured_decoder mops l)" and "Reset \<notin> set ops"
    and "decoder_run ops (configured_decoder mops l) = Some (s, evs)" and "length ts = length evs"
    and "deliver evs ts new_input_frame = (f, sts)"
  shows "(\<forall>st \<in> set sts. st = TUI_OK) \<and> ed_wf (normal_editor f) \<and> ed_wf (command_editor f) \<and>
    (ed_paste (normal_editor f) \<noteq> None \<longleftrightarrow> open_state s \<noteq> None \<and> if_mode f = NORMAL_MODE) \<and>
    (ed_paste (command_editor f) \<noteq> None \<longleftrightarrow> open_state s \<noteq> None \<and> if_mode f = COMMAND_MODE)"
proof -
  have "follows None (new_input_frame :: 'a input_frame)" by (simp add: follows_None new_frame_calm)
  from deliver_follows [OF this history_pastes [OF assms(1-4)] assms(5)]
  show ?thesis unfolding assms(6) by (auto simp: follows_def settled_def)
qed

theorem decoder_events_accepted_witness:
  "\<exists>s evs. decoder_run [Feed [0x61, 0x1b, 0x5b, 0x7e], Feed [0x62]] (configured_decoder sample_map sample_limits) = Some (s, evs) \<and>
    set (snd (deliver evs [0, 1, 2] (new_input_frame :: unit input_frame))) = {TUI_OK}"
proof -
  have run: "map_option snd (decoder_run [Feed [0x61, 0x1b, 0x5b, 0x7e], Feed [0x62]] (configured_decoder sample_map sample_limits)) =
      Some [Text_Event \<lparr>text_utf8 = [0x61]\<rparr>, Paste_Event \<lparr>paste_phase = PASTE_BEGIN, paste_data = []\<rparr>,
        Paste_Event \<lparr>paste_phase = PASTE_DATA, paste_data = [0x62]\<rparr>]"
    by code_simp
  then obtain s where s: "decoder_run [Feed [0x61, 0x1b, 0x5b, 0x7e], Feed [0x62]] (configured_decoder sample_map sample_limits) =
      Some (s, [Text_Event \<lparr>text_utf8 = [0x61]\<rparr>, Paste_Event \<lparr>paste_phase = PASTE_BEGIN, paste_data = []\<rparr>,
        Paste_Event \<lparr>paste_phase = PASTE_DATA, paste_data = [0x62]\<rparr>])"
    by auto
  let ?evs = "[Text_Event \<lparr>text_utf8 = [0x61]\<rparr>, Paste_Event \<lparr>paste_phase = PASTE_BEGIN, paste_data = []\<rparr>,
        Paste_Event \<lparr>paste_phase = PASTE_DATA, paste_data = [0x62]\<rparr>]"
  have conf: "paste_configured (configured_decoder sample_map sample_limits)"
    unfolding paste_configured_def by code_simp
  obtain f sts where d: "deliver ?evs [0, 1, 2] (new_input_frame :: unit input_frame) = (f, sts)" by fastforce
  have "length sts = 3" using d by (auto simp: split: prod.splits)
  then have "sts \<noteq> []" by auto
  moreover have "\<forall>st \<in> set sts. st = TUI_OK" using decoder_events_accepted [OF sample_map_ok conf _ s _ d] by simp
  ultimately have "set sts = {TUI_OK}" by (cases sts) auto
  then show ?thesis using s d by auto
qed

section \<open>Modes over a history\<close>

datatype 't frame_op = Handle_Event event int | Advance_Time int | Set_Notification bytes
  | Set_Completions bytes "cmd_completion list" nat | Set_Usage "bytes list" | Clear_Help | Replace_Command bytes | Leave_Command
  | Write_Terminal bytes | Take_Responses | Reset_Terminal | New_Terminal | Close_Terminal | Clear_Input
  | Draw_Frame tui_theme rect canvas | Select_Text selection_event | Place_Caret selection_position

text \<open>A pointer operation of the editor may read outside its rows; the history ends there.\<close>

fun frame_step :: "'t tmt_ops \<Rightarrow> 't frame_op \<Rightarrow> 't input_frame \<Rightarrow> 't input_frame option" where
  "frame_step tmt (Handle_Event ev now) f = Some (fst (if_handle_event ev now f))"
| "frame_step tmt (Advance_Time now) f = Some (advance_time now f)"
| "frame_step tmt (Set_Notification t) f = Some (set_notification t f)"
| "frame_step tmt (Set_Completions t cs n) f = Some (set_command_completions t cs n f)"
| "frame_step tmt (Set_Usage rows) f = Some (set_command_usage rows f)"
| "frame_step tmt Clear_Help f = Some (clear_command_help f)"
| "frame_step tmt (Replace_Command t) f = Some (fst (replace_command_text t f))"
| "frame_step tmt Leave_Command f = Some (leave_command_mode f)"
| "frame_step tmt (Write_Terminal bs) f = Some (fst (write_terminal tmt bs f))"
| "frame_step tmt Take_Responses f = Some (fst (take_terminal_responses f))"
| "frame_step tmt Reset_Terminal f = Some (reset_terminal tmt f)"
| "frame_step tmt New_Terminal f = Some (start_new_terminal f)"
| "frame_step tmt Close_Terminal f = Some (close_terminal f)"
| "frame_step tmt Clear_Input f = Some (if_clear tmt f)"
| "frame_step tmt (Draw_Frame theme r c) f = Some (fst (fst (if_draw tmt theme r (f, c))))"
| "frame_step tmt (Select_Text ev) f = map_option fst (if_update_selection ev f)"
| "frame_step tmt (Place_Caret p) f = Some (fst (if_place_cursor p f))"

inductive frame_reachable :: "'t tmt_ops \<Rightarrow> 't input_frame \<Rightarrow> bool" for tmt where
  initial: "frame_reachable tmt new_input_frame"
| step: "frame_reachable tmt f \<Longrightarrow> frame_step tmt op f = Some f' \<Longrightarrow> frame_reachable tmt f'"

lemma term_callbacks [simp]:
  "session_active (fold tmt_callback ms t) = session_active t" "generation (fold tmt_callback ms t) = generation t"
  "emulator (fold tmt_callback ms t) = emulator t"
proof -
  have one: "session_active (tmt_callback m u) = session_active u \<and> generation (tmt_callback m u) = generation u \<and>
      emulator (tmt_callback m u) = emulator u" for m and u :: "'a term_frame"
    by (cases m) simp_all
  show "session_active (fold tmt_callback ms t) = session_active t" "generation (fold tmt_callback ms t) = generation t"
    "emulator (fold tmt_callback ms t) = emulator t"
    by (induction ms arbitrary: t) (simp_all add: one)
qed

lemma with_emulator_session [simp]:
  "session_active (with_emulator r t) = session_active t" "generation (with_emulator r t) = generation t"
  "emulator (with_emulator r t) = Some (fst r)"
  by (simp_all add: with_emulator_def)

definition session_ok :: "'t term_frame \<Rightarrow> bool" where
  "session_ok t \<longleftrightarrow> (session_active t \<longrightarrow> 0 < generation t) \<and> (emulator t \<noteq> None \<longrightarrow> session_active t)"

definition modes_ok :: "'t input_frame \<Rightarrow> bool" where
  "modes_ok f \<longleftrightarrow> (terminal_visible f \<longleftrightarrow> if_mode f = TERMINAL_MODE) \<and>
     (if_mode f = TERMINAL_MODE \<longrightarrow> session_active (terminal_frame f)) \<and>
     session_ok (terminal_frame f) \<and>
     normal_box (normal_bounding f) \<and> ann_configuration (normal_annotated f) = default_gutter"

lemma session_kept:
  "session_ok t \<Longrightarrow> session_ok (fst (term_write tmt bs t))" "session_ok t \<Longrightarrow> session_ok (fst (take_responses t))"
  "session_ok t \<Longrightarrow> session_ok (term_reset tmt t)" "session_ok (begin_new_session b t)"
  "session_ok t \<Longrightarrow> session_ok (activate_session t)" "session_ok (start_new_session t)" "session_ok (close_session t)"
  by (simp_all add: session_ok_def term_write_def take_responses_def term_reset_def begin_new_session_def activate_session_def
      start_new_session_def close_session_def destroy_terminal_def Let_def size_max_def split: option.split)

lemma session_active_kept [simp]:
  "session_active (fst (term_write tmt bs t)) = session_active t" "session_active (fst (take_responses t)) = session_active t"
  "session_active (term_reset tmt t) = session_active t" "session_active (activate_session t)" "session_active (start_new_session t)"
  by (simp_all add: term_write_def take_responses_def term_reset_def activate_session_def begin_new_session_def start_new_session_def
      Let_def split: option.split)

lemma ensure_session:
  "session_active t \<Longrightarrow> session_ok t \<Longrightarrow> ensure_terminal tmt h w t = (t', b) \<Longrightarrow> session_active t' \<and> session_ok t'"
  by (auto simp: ensure_terminal_def session_ok_def Let_def split: if_splits option.splits prod.splits)

lemma term_draw_session:
  assumes "session_active t" and "session_ok t" and "term_draw tmt theme r (t, c) = ((t', c'), st)"
  shows "session_active t' \<and> session_ok t'"
proof -
  obtain t1 b where "ensure_terminal tmt (rect_height r) (rect_width r) t = (t1, b)" by fastforce
  moreover have "session_active t1 \<and> session_ok t1" using ensure_session [OF assms(1,2)] calculation by blast
  ultimately show ?thesis using assms by (auto simp: term_draw_def Let_def session_ok_def split: if_splits prod.splits)
qed

lemma bnd_draw_child:
  assumes "bnd_draw (Some ops) theme r ((b, f), c) = (((b', f'), c'), st)"
  shows "bnd_configuration b' = bnd_configuration b \<and> (f' = f \<or> (\<exists>q c2. draw_op ops theme q (f, c2) = ((f', c'), st)))"
  using assms by (auto simp: bnd_draw_def Let_def split: if_splits option.splits prod.splits)

lemma ann_draw_configuration:
  "ann_draw child theme r ((a, f), c) = (((a', f'), c'), st) \<Longrightarrow> ann_configuration a' = ann_configuration a"
  by (auto simp: ann_draw_def Let_def split: if_splits option.splits prod.splits)

lemma modes_fields [simp]:
  "modes_ok (f\<lparr>normal_input := i\<rparr>) = modes_ok f" "modes_ok (f\<lparr>command_frame := c\<rparr>) = modes_ok f"
  "modes_ok (f\<lparr>escape_started := x\<rparr>) = modes_ok f" "modes_ok (f\<lparr>notification := t\<rparr>) = modes_ok f"
  "modes_ok (f\<lparr>command_bounding := b\<rparr>) = modes_ok f" "modes_ok (f\<lparr>terminal_bounding := b\<rparr>) = modes_ok f"
  by (simp_all add: modes_ok_def)

lemma route_modes [simp]: "modes_ok (fst (route_editor_event ev f)) = modes_ok f"
  by (simp add: route_editor_event_def split: prod.split)

lemma enter_modes [simp]:
  "modes_ok f \<Longrightarrow> modes_ok (enter_command_mode f)" "modes_ok f \<Longrightarrow> modes_ok (enter_terminal_mode f)"
  by (auto simp: modes_ok_def enter_command_mode_def enter_terminal_mode_def session_kept)

lemma event_modes: "modes_ok f \<Longrightarrow> modes_ok (fst (if_handle_event ev now f))"
proof -
  assume f: "modes_ok f"
  have escape: "modes_ok (handle_escape now d f)" for d using f by (simp add: handle_escape_def) (simp add: modes_ok_def)
  have committed: "modes_ok (fst (handle_committed_text t now f))" for t using f by (simp add: handle_committed_text_def Let_def)
  have "modes_ok (fst (if_handle_key k now f))" for k
    using f escape committed by (simp add: if_handle_key_def Let_def split: key_code.split)
  moreover have "modes_ok (fst (if_apply_command cmd (f\<lparr>escape_started := None\<rparr>)))" for cmd using f by (simp add: if_apply_command_def)
  ultimately show ?thesis using f committed by (cases ev) (simp_all add: if_handle_event_def Let_def)
qed

lemma constrain_modes: "modes_ok f \<Longrightarrow> modes_ok (constrain_active lim f)"
  by (cases "if_mode f") (simp_all add: constrain_active_def, simp add: modes_ok_def normal_box_def bnd_set_size_constraints_def)

lemma active_modes:
  assumes f: "modes_ok f" and d: "draw_active tmt theme r (f, c) = ((f', c'), st)"
  shows "modes_ok f'"
proof (cases "if_mode f")
  case NORMAL_MODE
  then obtain b a i where v: "bnd_draw (Some annotated_text) theme r ((normal_bounding f, normal_annotated f, normal_input f), c) = (((b, a, i), c'), st)"
    "f' = set_normal_view f (b, a, i)"
    using d by (auto simp: draw_active_def normal_view_def bounding_ops_def split: prod.splits)
  have "bnd_configuration b = bnd_configuration (normal_bounding f)" "ann_configuration a = ann_configuration (normal_annotated f)"
    using bnd_draw_child [OF v(1)] ann_draw_configuration by auto
  then show ?thesis using f v(2) by (simp add: modes_ok_def set_normal_view_def normal_box_def)
next
  case COMMAND_MODE
  then show ?thesis using d f by (auto simp: draw_active_def set_command_view_def split: prod.splits)
next
  case TERMINAL_MODE
  then obtain b t where v: "bnd_draw (Some (term_ops tmt)) theme r ((terminal_bounding f, terminal_frame f), c) = (((b, t), c'), st)"
    "f' = set_terminal_view f (b, t)"
    using d by (auto simp: draw_active_def terminal_view_def bounding_ops_def split: prod.splits)
  have "session_active t \<and> session_ok t"
    using bnd_draw_child [OF v(1)] term_draw_session [of "terminal_frame f" tmt theme _ _ t c' st] f TERMINAL_MODE
    by (auto simp: modes_ok_def term_ops_def plain_frame_def)
  then show ?thesis using f v(2) TERMINAL_MODE by (simp add: modes_ok_def set_terminal_view_def)
qed

lemma draw_modes: "modes_ok f \<Longrightarrow> modes_ok (fst (fst (if_draw tmt theme r (f, c))))"
proof -
  assume f: "modes_ok f"
  obtain f' c' st where d: "if_draw tmt theme r (f, c) = ((f', c'), st)" by (metis prod.collapse)
  have "modes_ok (drawing_state r c f)" using f by (simp add: drawing_state_def prepare_draw_def Let_def constrain_modes)
  then have "modes_ok f'" using d by (cases rule: if_draw_cases [OF d]) (use f active_modes in blast)+
  then show ?thesis using d by simp
qed

lemma selection_modes: "modes_ok f \<Longrightarrow> if_update_selection ev f = Some (f', st) \<Longrightarrow> modes_ok f'"
  by (cases "if_mode f")
    (auto simp: if_update_selection_def Let_def set_normal_view_def set_command_view_def normal_view_def command_view_def bounding_ops_def
      annotated_ops_def ann_update_selection_def modes_ok_def split: bind_splits if_splits prod.splits)

lemma place_modes: "modes_ok f \<Longrightarrow> modes_ok (fst (if_place_cursor p f))"
  by (cases "if_mode f")
    (auto simp: if_place_cursor_def Let_def set_normal_view_def set_command_view_def normal_view_def command_view_def bounding_ops_def
      annotated_ops_def ann_place_cursor_def modes_ok_def split: prod.splits)

lemma terminal_frame_modes:
  "modes_ok f \<Longrightarrow> session_ok t \<Longrightarrow> session_active t = session_active (terminal_frame f) \<Longrightarrow> modes_ok (f\<lparr>terminal_frame := t\<rparr>)"
  by (simp add: modes_ok_def)

lemma terminal_modes:
  assumes f: "modes_ok f"
  shows "modes_ok (fst (write_terminal tmt bs f))" "modes_ok (fst (take_terminal_responses f))" "modes_ok (reset_terminal tmt f)"
    "modes_ok (start_new_terminal f)" "modes_ok (close_terminal f)"
proof -
  have ok: "session_ok (terminal_frame f)" using f by (simp add: modes_ok_def)
  note keep = terminal_frame_modes [OF f]
  show "modes_ok (fst (write_terminal tmt bs f))" "modes_ok (fst (take_terminal_responses f))" "modes_ok (reset_terminal tmt f)"
    by (simp_all add: write_terminal_def take_terminal_responses_def reset_terminal_def case_prod_beta keep session_kept ok)
  show "modes_ok (start_new_terminal f)" "modes_ok (close_terminal f)"
    using f by (auto simp: modes_ok_def start_new_terminal_def close_terminal_def Let_def session_kept)
qed

lemma editing_modes:
  assumes "modes_ok f"
  shows "modes_ok (advance_time now f)" "modes_ok (leave_command_mode f)" "modes_ok (if_clear tmt f)" "modes_ok (fst (replace_command_text t f))"
proof -
  show "modes_ok (advance_time now f)" using assms by (simp add: advance_time_def split: option.split)
  show "modes_ok (leave_command_mode f)" using assms by (auto simp: leave_command_mode_def modes_ok_def)
  show "modes_ok (if_clear tmt f)"
    using assms by (cases "if_mode f") (simp_all add: if_clear_def, simp add: modes_ok_def session_kept)
  show "modes_ok (fst (replace_command_text t f))" using assms by (simp add: replace_command_text_def split: prod.split)
qed

lemma step_modes:
  assumes "modes_ok f" and "frame_step tmt op f = Some f'"
  shows "modes_ok f'"
proof (cases op)
  case (Select_Text ev)
  then show ?thesis using selection_modes assms by fastforce
qed (use assms event_modes [OF assms(1)] draw_modes [OF assms(1)] place_modes [OF assms(1)] terminal_modes [OF assms(1)]
    editing_modes [OF assms(1)] in \<open>auto simp: set_notification_def set_command_completions_def set_command_usage_def clear_command_help_def\<close>)

text \<open>
  C34: Over every history of operations of the input frame (events at any times, help, notifications,
  terminal sessions, drawings into any canvas, pointer operations) the flag that other threads read
  agrees with the mode, terminal mode has an active session, an active session has a generation
  number, an emulator exists only inside an active session, and the box and the gutter of the normal
  editor keep the geometry that clicks are translated through.
\<close>

theorem input_frame_modes:
  assumes "frame_reachable tmt f"
  shows "(terminal_visible f \<longleftrightarrow> if_mode f = TERMINAL_MODE) \<and>
    (if_mode f = TERMINAL_MODE \<longrightarrow> session_active (terminal_frame f)) \<and>
    (session_active (terminal_frame f) \<longrightarrow> 0 < generation (terminal_frame f)) \<and>
    (emulator (terminal_frame f) \<noteq> None \<longrightarrow> session_active (terminal_frame f)) \<and>
    normal_box (normal_bounding f) \<and> ann_configuration (normal_annotated f) = default_gutter"
proof -
  have "modes_ok f" using assms
  proof induction
    case initial
    show ?case by (simp add: modes_ok_def session_ok_def new_input_frame_def new_term_frame_def new_bounding_def normal_box_def new_annotated_def)
  next
    case (step f op f')
    then show ?case using step_modes by blast
  qed
  then show ?thesis by (auto simp: modes_ok_def session_ok_def)
qed

theorem input_frame_modes_witness:
  "if_mode (start_new_terminal new_input_frame :: unit input_frame) = TERMINAL_MODE \<and>
   session_active (terminal_frame (start_new_terminal new_input_frame :: unit input_frame))"
proof -
  have "frame_reachable no_emulator (start_new_terminal new_input_frame)"
    by (rule frame_reachable.step [OF frame_reachable.initial, of _ New_Terminal]) simp
  from input_frame_modes [OF this] show ?thesis by (simp add: start_new_terminal_def)
qed

end
