(* ===== verification/Embedded_Terminal.thy ===== *)
theory Embedded_Terminal
  imports Input_Pipeline
begin

text \<open>
  The embedded terminal of the input frame draws in bounds. What \<open>integrated_term_frame.cpp\<close> relies
  on is stated of the emulator as libtmt documents it; the loop that copies its screen has no test of
  its own.
\<close>

section \<open>The emulator\<close>

text \<open>
  The emulator terminals that libtmt's documentation gives a size: opened, or resized with success,
  written to, cleaned and reset. A terminal whose resize failed is trashed and is not among them.
\<close>

inductive emulator_live :: "'t tmt_ops \<Rightarrow> nat \<Rightarrow> nat \<Rightarrow> 't \<Rightarrow> bool" for tmt where
  opened: "tmt_open tmt rows columns = Some (vt, ms) \<Longrightarrow> emulator_live tmt rows columns vt"
| resized: "emulator_live tmt rows columns vt \<Longrightarrow> tmt_resize tmt rows' columns' vt = (vt', ms, True) \<Longrightarrow> emulator_live tmt rows' columns' vt'"
| written: "emulator_live tmt rows columns vt \<Longrightarrow> emulator_live tmt rows columns (fst (tmt_write tmt bs vt))"
| cleaned: "emulator_live tmt rows columns vt \<Longrightarrow> emulator_live tmt rows columns (tmt_clean tmt vt)"
| hard_reset: "emulator_live tmt rows columns vt \<Longrightarrow> emulator_live tmt rows columns (fst (tmt_reset tmt vt))"

definition screen_fits :: "nat \<Rightarrow> nat \<Rightarrow> tmtscreen \<Rightarrow> bool" where
  "screen_fits rows columns screen \<longleftrightarrow> nline screen = rows \<and> ncol screen = columns \<and> length (tmt_lines screen) = rows \<and>
     (\<forall>l \<in> set (tmt_lines screen). length l = columns)"

text \<open>Two promises of the emulator: its screen has its size, and a resize to a valid size finds the memory it needs.\<close>

definition sized_screens :: "'t tmt_ops \<Rightarrow> bool" where
  "sized_screens tmt \<longleftrightarrow> (\<forall>rows columns vt. emulator_live tmt rows columns vt \<longrightarrow> screen_fits rows columns (tmt_screen tmt vt))"

definition resizes :: "'t tmt_ops \<Rightarrow> bool" where
  "resizes tmt \<longleftrightarrow> (\<forall>rows columns vt rows' columns'. emulator_live tmt rows columns vt \<longrightarrow> 2 \<le> rows' \<longrightarrow> 2 \<le> columns' \<longrightarrow>
     snd (snd (tmt_resize tmt rows' columns' vt)))"

definition emulator_ok :: "'t tmt_ops \<Rightarrow> 't term_frame \<Rightarrow> bool" where
  "emulator_ok tmt t \<longleftrightarrow> \<not> out_of_bounds t \<and>
     (\<forall>vt. emulator t = Some vt \<longrightarrow> emulator_live tmt (term_rows t) (term_columns t) vt)"

lemma callback_size [simp]:
  "term_rows (fold tmt_callback ms t) = term_rows t" "term_columns (fold tmt_callback ms t) = term_columns t"
  "out_of_bounds (fold tmt_callback ms t) = out_of_bounds t"
proof -
  have one: "term_rows (tmt_callback m u) = term_rows u \<and> term_columns (tmt_callback m u) = term_columns u \<and>
      out_of_bounds (tmt_callback m u) = out_of_bounds u" for m and u :: "'a term_frame"
    by (cases m) simp_all
  show "term_rows (fold tmt_callback ms t) = term_rows t" "term_columns (fold tmt_callback ms t) = term_columns t"
    "out_of_bounds (fold tmt_callback ms t) = out_of_bounds t"
    by (induction ms arbitrary: t) (simp_all add: one)
qed

lemma with_emulator_size [simp]:
  "term_rows (with_emulator r t) = term_rows t" "term_columns (with_emulator r t) = term_columns t"
  "out_of_bounds (with_emulator r t) = out_of_bounds t"
  by (simp_all add: with_emulator_def)

lemma emulator_kept:
  "emulator_ok tmt t \<Longrightarrow> emulator_ok tmt (fst (term_write tmt bs t))" "emulator_ok tmt t \<Longrightarrow> emulator_ok tmt (fst (take_responses t))"
  "emulator_ok tmt t \<Longrightarrow> emulator_ok tmt (term_reset tmt t)" "emulator_ok tmt t \<Longrightarrow> emulator_ok tmt (activate_session t)"
  "emulator_ok tmt t \<Longrightarrow> emulator_ok tmt (start_new_session t)" "emulator_ok tmt t \<Longrightarrow> emulator_ok tmt (close_session t)"
  by (auto simp: emulator_ok_def term_write_def take_responses_def term_reset_def activate_session_def begin_new_session_def
      start_new_session_def close_session_def destroy_terminal_def Let_def intro: emulator_live.intros split: option.split)

lemma ensure_emulator:
  assumes t: "emulator_ok tmt t" and m: "resizes tmt" and e: "ensure_terminal tmt rows columns t = (t', ok)"
  shows "emulator_ok tmt t' \<and> (ok \<longrightarrow> (\<exists>vt. emulator t' = Some vt \<and> emulator_live tmt rows columns vt \<and>
    term_rows t' = rows \<and> term_columns t' = columns))"
proof (cases "rows < 2 \<or> columns < 2")
  case False
  show ?thesis
  proof (cases "emulator t")
    case None
    then show ?thesis using t e False
      by (auto simp: ensure_terminal_def emulator_ok_def Let_def
          intro: emulator_live.opened emulator_live.written [OF emulator_live.opened] split: option.splits if_splits)
  next
    case (Some vt)
    have live: "emulator_live tmt (term_rows t) (term_columns t) vt" using t Some by (simp add: emulator_ok_def)
    obtain vt' ms ok' where r: "tmt_resize tmt rows columns vt = (vt', ms, ok')" by (metis prod_cases3)
    have "ok'" using m live False r unfolding resizes_def by (metis linorder_not_less snd_conv)
    then have "emulator_live tmt rows columns vt'" using emulator_live.resized [OF live, of rows columns vt' ms] r by simp
    then show ?thesis using t e False Some r live \<open>ok'\<close>
      by (auto simp: ensure_terminal_def emulator_ok_def Let_def split: if_splits)
  qed
qed (use t e in \<open>auto simp: ensure_terminal_def\<close>)

definition sized :: "nat \<Rightarrow> nat \<Rightarrow> 'a list list \<Rightarrow> bool" where
  "sized rows columns cells \<longleftrightarrow> length cells = rows \<and> (\<forall>l \<in> set cells. length l = columns)"

lemma sized_rows: "sized rows columns cells \<Longrightarrow> length cells = rows" "sized rows columns cells \<Longrightarrow> row < rows \<Longrightarrow> length (cells ! row) = columns"
  by (auto simp: sized_def)

lemma sized_update [simp]: "sized rows columns cells \<Longrightarrow> row < rows \<Longrightarrow> sized rows columns (cells[row := (cells ! row)[column := v]])"
  by (auto simp: sized_def dest: set_update_subset_insert [THEN subsetD])

lemma sized_grid [simp]: "sized rows columns (cell_grid columns rows g)"
  by (auto simp: sized_def cell_grid_def)

lemma screen_fits_iff: "screen_fits rows columns screen \<longleftrightarrow> nline screen = rows \<and> ncol screen = columns \<and> sized rows columns (tmt_lines screen)"
  by (simp add: screen_fits_def sized_def)

lemma copy_screen_sized: "sized rows columns cells \<Longrightarrow> sized rows columns (fst (copy_screen theme fg bg screen ps (cells, stray)))"
proof (induction ps arbitrary: cells stray)
  case (Cons p ps)
  obtain row column where p: "p = (row, column)" by fastforce
  show ?case unfolding p copy_screen.simps using Cons.IH [OF Cons.prems] Cons.IH [OF sized_update [OF Cons.prems]] sized_rows(1) [OF Cons.prems]
    by (cases "row < length cells") simp_all
qed simp

text \<open>The loop over a screen of the size of the cells accesses neither out of bounds.\<close>

lemma copy_screen_in_bounds:
  assumes "screen_fits rows columns screen" and "sized rows columns cells" and "set ps \<subseteq> {..<rows} \<times> {..<columns}"
  shows "snd (copy_screen theme fg bg screen ps (cells, stray)) = stray"
  using assms(2,3)
proof (induction ps arbitrary: cells)
  case (Cons p ps)
  obtain row column where p: "p = (row, column)" by fastforce
  have b: "row < rows" "column < columns" using Cons.prems(2) p by auto
  note l = sized_rows [OF Cons.prems(1)] sized_rows [of rows columns "tmt_lines screen"]
  show ?case using Cons.IH [OF sized_update [OF Cons.prems(1) b(1)]] Cons.prems(2) assms(1) b l p by (simp add: screen_fits_iff)
qed simp

lemma term_draw_in_bounds:
  assumes t: "emulator_ok tmt t" and m: "sized_screens tmt" "resizes tmt" and d: "term_draw tmt theme r (t, c) = ((t', c'), st)"
  shows "emulator_ok tmt t'"
proof (cases "rect_width r < 2 \<or> rect_height r < 2")
  case False
  obtain t1 ok where e: "ensure_terminal tmt (rect_height r) (rect_width r) t = (t1, ok)" by fastforce
  note k = ensure_emulator [OF t m(2) e]
  show ?thesis
  proof (cases ok)
    case True
    then obtain vt where vt: "emulator t1 = Some vt" "emulator_live tmt (rect_height r) (rect_width r) vt"
      "term_rows t1 = rect_height r" "term_columns t1 = rect_width r" using k by blast
    let ?s = "tmt_screen tmt vt"
    have fits: "screen_fits (rect_height r) (rect_width r) ?s" using m(1) vt(2) by (simp add: sized_screens_def)
    have stray: "snd (copy_screen theme fg bg ?s (screen_positions ?s) (cell_grid (rect_width r) (rect_height r) g, False)) = False" for fg bg g
      using fits by (intro copy_screen_in_bounds [OF fits]) (auto simp: screen_positions_def screen_fits_def)
    have "out_of_bounds t' = out_of_bounds t1 \<and> emulator t' = Some (tmt_clean tmt vt) \<and> term_rows t' = term_rows t1 \<and> term_columns t' = term_columns t1"
      using d False e True vt(1) stray by (auto simp: term_draw_def Let_def split: prod.splits) (metis snd_conv)+
    then show ?thesis using k vt by (auto simp: emulator_ok_def intro: emulator_live.cleaned)
  qed (use d False e k in \<open>auto simp: term_draw_def\<close>)
qed (use t d in \<open>auto simp: term_draw_def\<close>)

lemma live_fields [simp]:
  "terminal_frame (constrain_active lim f) = terminal_frame f" "terminal_frame (set_normal_view f v) = terminal_frame f"
  "terminal_frame (set_command_view f w) = terminal_frame f" "terminal_frame (set_terminal_view f x) = snd x"
  "terminal_frame (fst (route_editor_event ev f)) = terminal_frame f" "terminal_frame (enter_command_mode f) = terminal_frame f"
  "terminal_frame (enter_terminal_mode f) = activate_session (terminal_frame f)" "terminal_frame (handle_escape now d f) = terminal_frame f"
  "terminal_frame (prepare_draw minimum maximum hs f) = terminal_frame f"
  by (simp_all add: constrain_active_def set_normal_view_def set_command_view_def set_terminal_view_def route_editor_event_def
      enter_command_mode_def enter_terminal_mode_def handle_escape_def prepare_draw_def Let_def split: input_mode.split prod.split)

lemma event_live:
  assumes "emulator_ok tmt (terminal_frame f)"
  shows "emulator_ok tmt (terminal_frame (fst (if_handle_event ev now f)))"
proof -
  note keep = emulator_kept(4) [OF assms]
  have committed: "emulator_ok tmt (terminal_frame (fst (handle_committed_text t now f)))" for t
    using assms keep by (simp add: handle_committed_text_def Let_def)
  have "emulator_ok tmt (terminal_frame (fst (if_handle_key k now f)))" for k
    using assms committed by (simp add: if_handle_key_def Let_def split: key_code.split)
  moreover have "emulator_ok tmt (terminal_frame (fst (if_apply_command cmd (f\<lparr>escape_started := None\<rparr>))))" for cmd
    using assms keep by (simp add: if_apply_command_def)
  ultimately show ?thesis using assms committed by (cases ev) (simp_all add: if_handle_event_def Let_def)
qed

lemma active_live:
  assumes f: "emulator_ok tmt (terminal_frame f)" and m: "sized_screens tmt" "resizes tmt"
    and d: "draw_active tmt theme r (f, c) = ((f', c'), st)"
  shows "emulator_ok tmt (terminal_frame f')"
proof (cases "if_mode f = TERMINAL_MODE")
  case True
  then obtain b t where v: "bnd_draw (Some (term_ops tmt)) theme r ((terminal_bounding f, terminal_frame f), c) = (((b, t), c'), st)"
    "terminal_frame f' = t"
    using d by (auto simp: draw_active_def terminal_view_def bounding_ops_def split: prod.splits)
  show ?thesis using bnd_draw_child [OF v(1)] term_draw_in_bounds [OF f m] f v(2) by (auto simp: term_ops_def plain_frame_def)
next
  case False
  then have "terminal_frame f' = terminal_frame f" using d by (cases "if_mode f") (auto simp: draw_active_def split: prod.splits)
  then show ?thesis using f by simp
qed

lemma draw_live:
  assumes f: "emulator_ok tmt (terminal_frame f)" and m: "sized_screens tmt" "resizes tmt"
    and d: "if_draw tmt theme r (f, c) = ((f', c'), st)"
  shows "emulator_ok tmt (terminal_frame f')"
proof -
  have "emulator_ok tmt (terminal_frame (drawing_state r c f))" using f by (simp add: drawing_state_def)
  note a = active_live [OF this m]
  show ?thesis using d by (cases rule: if_draw_cases) (use f a in auto)
qed

lemma pointer_live:
  "if_update_selection ev f = Some (f', st) \<Longrightarrow> terminal_frame f' = terminal_frame f"
  "terminal_frame (fst (if_place_cursor p f)) = terminal_frame f"
  by (cases "if_mode f"; auto simp: if_update_selection_def if_place_cursor_def Let_def split: bind_splits if_splits prod.splits)+

lemma step_live:
  assumes f: "emulator_ok tmt (terminal_frame f)" and m: "sized_screens tmt" "resizes tmt" and s: "frame_step tmt op f = Some f'"
  shows "emulator_ok tmt (terminal_frame f')"
proof (cases op)
  case (Draw_Frame theme r c)
  then show ?thesis using s draw_live [OF f m] by (metis frame_step.simps(15) option.inject prod.collapse)
next
  case (Select_Text ev)
  then show ?thesis using s f pointer_live(1) by fastforce
next
  case (Handle_Event ev now)
  then show ?thesis using s event_live [OF f] by auto
next
  case (Place_Caret p)
  then show ?thesis using s f by (auto simp: pointer_live)
qed (use s f emulator_kept [OF f] in \<open>auto simp: advance_time_def set_notification_def set_command_completions_def set_command_usage_def
    clear_command_help_def replace_command_text_def leave_command_mode_def write_terminal_def take_terminal_responses_def reset_terminal_def
    start_new_terminal_def close_terminal_def if_clear_def Let_def case_prod_beta split: option.split input_mode.split\<close>)

lemma reachable_live:
  assumes "frame_reachable tmt f" and "sized_screens tmt" "resizes tmt"
  shows "emulator_ok tmt (terminal_frame f)"
  using assms(1)
proof induction
  case initial
  show ?case by (simp add: emulator_ok_def new_input_frame_def new_term_frame_def)
next
  case (step f op f')
  then show ?case using step_live assms(2,3) by blast
qed

text \<open>
  C31: (safety) The input frame draws only where it may. Take an emulator whose screen has the size it
  was opened at or last resized to with success, as libtmt documents, and whose resizes to valid sizes
  succeed. Then after every history of operations of the input frame, in every mode, a drawing, whether
  it succeeds or is refused, accesses neither its own cells nor the emulator's lines out of bounds, and
  it leaves the published image and every cell of the image under construction outside the assigned
  rectangle unchanged. The second condition is needed: libtmt trashes a terminal whose resize failed,
  and the frame goes on drawing it (see \<open>failed_resize_overruns\<close>).
\<close>

theorem input_frame_confined:
  assumes "sized_screens tmt" and "resizes tmt" and "frame_reachable tmt f"
    and "canvas_wf c" and "if_draw tmt theme r (f, c) = ((f', c'), st)"
  shows "\<not> out_of_bounds (terminal_frame f') \<and>
    canvas_wf c' \<and> published c' = published c \<and> frame_in_progress c' = frame_in_progress c \<and>
    (\<forall>row column. inside r row column \<or> working c' row column = working c row column)"
  using draw_live [OF reachable_live [OF assms(3,1,2)] assms(1,2,5)] input.draw_confined [OF assms(4,5)]
  by (auto simp: confined_def emulator_ok_def)

lemma term_draw_ready:
  assumes rdy: "ready w h c" and fit: "rect_x r + rect_width r \<le> w" "rect_y r + rect_height r \<le> h" "2 \<le> rect_width r" "2 \<le> rect_height r"
    and e: "ensure_terminal tmt (rect_height r) (rect_width r) t = (t1, True)"
  shows "\<exists>t' c'. term_draw tmt theme r (t, c) = ((t', c'), TUI_OK) \<and> ready w h c' \<and> emulator t' = Some (tmt_clean tmt (the (emulator t1)))"
proof -
  let ?vt = "the (emulator t1)" and ?fg = "get_color theme (term_text_color (term_style_of t1))"
    and ?bg = "get_color theme (term_background_color (term_style_of t1))"
  obtain cells stray where c: "copy_screen theme ?fg ?bg (tmt_screen tmt ?vt) (screen_positions (tmt_screen tmt ?vt))
      (cell_grid (rect_width r) (rect_height r) (\<lambda>_ _. \<lparr>cell_char = 0x20, foreground = ?fg, background = ?bg\<rparr>), False) = (cells, stray)" by fastforce
  obtain row column where p: "tmt_cursor tmt ?vt = (row, column)" by fastforce
  have l: "sized (rect_height r) (rect_width r) cells" using copy_screen_sized [OF sized_grid] c by (metis fst_conv)
  define cells' where "cells' = (if cursor_visible t1 \<and> row < rect_height r \<and> column < rect_width r
      then cells[row := (cells ! row)[column := cursor_cell (get_color theme (term_cursor_color (term_style_of t1))) (cells ! row ! column)]]
      else cells)"
  have "sized (rect_height r) (rect_width r) cells'" using l by (simp add: cells'_def)
  then have "length cells' = rect_height r" "\<forall>l \<in> set cells'. length l = rect_width r" by (simp_all add: sized_def)
  from write_ready [OF rdy fit(1,2) this] obtain c' where "write_cells r cells' c = (c', TUI_OK)" "ready w h c'" by blast
  then show ?thesis using fit(3,4) e c p by (auto simp: term_draw_def Let_def cells'_def [symmetric])
qed

section \<open>A terminal that is drawn\<close>

lemma bnd_child_ready:
  assumes rdy: "ready w h c" and fit: "rect_x r + rect_width r \<le> w" "rect_y r + rect_height r \<le> h"
    and size: "\<not> size_refused (size_limits (bnd_configuration b)) w r"
    and rects: "bnd_box_rect r (bnd_configuration b) = Some out" "bnd_content_rect r (bnd_configuration b) = Some content"
    and out: "rect_x out + rect_width out \<le> w" "rect_y out + rect_height out \<le> h" "2 \<le> rect_width out" "2 \<le> rect_height out"
    and child: "\<And>c. ready w h c \<Longrightarrow> \<exists>f' c'. draw_op ops theme content (f, c) = ((f', c'), TUI_OK) \<and> ready w h c' \<and> P f'"
  shows "\<exists>b' f' c'. bnd_draw (Some ops) theme r ((b, f), c) = (((b', f'), c'), TUI_OK) \<and> ready w h c' \<and> P f'"
proof -
  let ?conf = "bnd_configuration b"
  obtain c1 where 1: "bnd_fill theme ?conf r c = (c1, TUI_OK)" "ready w h c1"
    using rdy write_grid_ready [OF rdy fit(1,2)] by (cases "outside_box_color ?conf") (auto simp: bnd_fill_def)
  have "bnd_box theme ?conf out c1 = write_cells out (cell_grid (rect_width out) (rect_height out) (box_cell theme ?conf out)) c1"
    unfolding bnd_box_def using out(3,4) by (simp add: not_less [symmetric])
  then obtain c2 where 2: "bnd_box theme ?conf out c1 = (c2, TUI_OK)" "ready w h c2"
    using write_grid_ready [OF 1(2) out(1,2), of "box_cell theme ?conf out"] by metis
  obtain f' c3 where 3: "draw_op ops theme content (f, c2) = ((f', c3), TUI_OK)" "ready w h c3" "P f'" using child [OF 2(2)] by blast
  have "canvas_width c = w" "canvas_height c = h" using rdy by (simp_all add: ready_def)
  then show ?thesis using 1 2 3 rects size fit by (auto simp: bnd_draw_def Let_def)
qed

lemma terminal_draw_ready:
  assumes rdy: "ready w h c" and f: "if_mode f = TERMINAL_MODE" "bnd_configuration (terminal_bounding f) = terminal_bounds" and max: "w \<le> size_max" "h \<le> size_max"
    and r: "rect_x r = 0" "rect_width r = w" "rect_y r + rect_height r \<le> h"
    and size: "kMinimumWidth \<le> w" "kTerminalMinimumHeight \<le> rect_height r" "rect_height r \<le> terminal_height h"
    and e: "ensure_terminal tmt (rect_height r - 4) (w - 5) (terminal_frame f) = (t1, True)"
  shows "\<exists>f' c'. if_draw tmt theme r (f, c) = ((f', c'), TUI_OK) \<and> emulator (terminal_frame f') = Some (tmt_clean tmt (the (emulator t1)))"
proof -
  let ?f = "drawing_state r c f" and ?conf = "\<lambda>lim. terminal_bounds\<lparr>size_limits := lim\<rparr>"
  let ?lim = "\<lparr>minimum_width = kMinimumWidth, minimum_height = kTerminalMinimumHeight, maximum_width = None,
           maximum_height = Some (terminal_height h), require_full_canvas_width = True\<rparr>"
  let ?out = "\<lparr>rect_x = rect_x r, rect_y = rect_y r + 1, rect_width = rect_width r, rect_height = rect_height r - 2\<rparr>"
  let ?content = "\<lparr>rect_x = rect_x r + 4, rect_y = rect_y r + 2, rect_width = rect_width r - 5, rect_height = rect_height r - 4\<rparr>"
  have c: "canvas_width c = w" "canvas_height c = h" using rdy by (simp_all add: ready_def)
  have big: "40 \<le> w" "6 \<le> rect_height r" using size by (simp_all add: kMinimumWidth_def kTerminalMinimumHeight_def)
  have st: "if_mode ?f = TERMINAL_MODE" "terminal_frame ?f = terminal_frame f" "bnd_configuration (terminal_bounding ?f) = ?conf ?lim"
    using f c by (simp_all add: drawing_state_def prepare_draw_def constrain_active_def Let_def bnd_set_size_constraints_def mode_maximum_height_def)
  have rects: "bnd_box_rect r (?conf ?lim) = Some ?out" "bnd_content_rect r (?conf ?lim) = Some ?content"
    using r max big
    by (auto simp: bnd_box_rect_def bnd_content_rect_def inset_def not_empty_def no_margins_def one_cell_margins_def terminal_bounds_def)
  have limits: "\<not> size_refused (size_limits (bnd_configuration (terminal_bounding ?f))) w r"
    using r size st(3) by (simp add: size_refused_def exceeds_def kMinimumWidth_def kTerminalMinimumHeight_def)
  have rects': "bnd_box_rect r (bnd_configuration (terminal_bounding ?f)) = Some ?out"
    "bnd_content_rect r (bnd_configuration (terminal_bounding ?f)) = Some ?content" by (simp_all only: st(3) rects)
  have fit: "rect_x r + rect_width r \<le> w" "rect_y r + rect_height r \<le> h"
    and out: "rect_x ?out + rect_width ?out \<le> w" "rect_y ?out + rect_height ?out \<le> h" "2 \<le> rect_width ?out" "2 \<le> rect_height ?out"
    using r big by simp_all
  have child: "\<exists>t' c'. draw_op (term_ops tmt) theme ?content (terminal_frame ?f, x) = ((t', c'), TUI_OK) \<and> ready w h c' \<and>
      emulator t' = Some (tmt_clean tmt (the (emulator t1)))" if "ready w h x" for x
    using term_draw_ready [OF that, of ?content tmt "terminal_frame f" t1 theme] r big e st(2) by (auto simp: term_ops_def plain_frame_def)
  obtain b' t' c1 where 1: "bnd_draw (Some (term_ops tmt)) theme r ((terminal_bounding ?f, terminal_frame ?f), c) = (((b', t'), c1), TUI_OK)"
      "ready w h c1" "emulator t' = Some (tmt_clean tmt (the (emulator t1)))"
    using bnd_child_ready [OF rdy fit limits rects' out child] by blast
  have a: "draw_active tmt theme r (?f, c) = ((set_terminal_view ?f (b', t'), c1), TUI_OK)"
    using 1 st(1) by (simp add: draw_active_def terminal_view_def bounding_ops_def)
  obtain c2 where 2: "draw_overlays theme r 0 (set_terminal_view ?f (b', t')) c1 = (c2, TUI_OK)"
    using overlays_ready [OF 1(2), of r] r big by auto
  have "if_draw tmt theme r (f, c) = ((set_terminal_view ?f (b', t'), c2), TUI_OK)"
    using a 2 r size c f unfolding if_draw_def Let_def drawing_state_def drawing_rows_def mode_maximum_height_def
    by (simp add: kMinimumHeight_def kTerminalMinimumHeight_def)
  then show ?thesis using 1(3) by simp
qed

text \<open>An emulator that shows what is written to it, line after line.\<close>

definition typed_char :: "u8 \<Rightarrow> tmt_char" where
  "typed_char b = \<lparr>tmt_c = ucast b, tmt_bold = False, tmt_dim = False, tmt_reverse = False, tmt_invisible = False, tmt_fg = TMT_DEFAULT, tmt_bg = TMT_DEFAULT\<rparr>"

definition typewriter :: "(nat \<times> nat \<times> bytes) tmt_ops" where
  "typewriter = \<lparr>tmt_open = (\<lambda>rows columns. if rows < 2 \<or> columns < 2 then None else Some ((rows, columns, []), [])),
     tmt_resize = (\<lambda>rows columns (r, c, t). if rows < 2 \<or> columns < 2 then ((r, c, t), [], False) else ((rows, columns, t), [TMT_OTHER], True)),
     tmt_write = (\<lambda>bs (r, c, t). ((r, c, t @ bs), [TMT_OTHER])),
     tmt_screen = (\<lambda>(r, c, t). \<lparr>nline = r, ncol = c, tmt_lines =
       map (\<lambda>i. map (\<lambda>j. typed_char (if i * c + j < length t then t ! (i * c + j) else 0x20)) [0..<c]) [0..<r]\<rparr>),
     tmt_cursor = (\<lambda>(r, c, t). (length t div c, length t mod c)), tmt_clean = (\<lambda>vt. vt), tmt_reset = (\<lambda>(r, c, t). ((r, c, []), []))\<rparr>"

lemma typewriter_ok: "sized_screens typewriter" "resizes typewriter"
proof -
  have live: "\<exists>t. vt = (rows, columns, t)" if "emulator_live typewriter rows columns vt" for rows columns vt
    using that by induction (auto simp: typewriter_def split: if_splits)
  have "screen_fits rows columns (tmt_screen typewriter vt)" if "emulator_live typewriter rows columns vt" for rows columns vt
    using live [OF that] by (auto simp: screen_fits_def typewriter_def)
  then show "sized_screens typewriter" by (simp add: sized_screens_def)
  show "resizes typewriter" by (auto simp: resizes_def typewriter_def)
qed

definition typing_frame :: "(nat \<times> nat \<times> bytes) input_frame" where
  "typing_frame = fst (write_terminal typewriter [0x68, 0x69] (start_new_terminal new_input_frame))"

abbreviation "typing_canvas \<equiv> fst (begin_frame (new_canvas 40 8))"
abbreviation "typing_rect \<equiv> \<lparr>rect_x = 0, rect_y = 1, rect_width = 40, rect_height = 6\<rparr>"

theorem input_frame_confined_witness:
  "\<exists>f' c'. if_draw typewriter sample_theme typing_rect (typing_frame, typing_canvas) = ((f', c'), TUI_OK) \<and>
    emulator (terminal_frame f') = Some (2, 35, [0x68, 0x69]) \<and> \<not> out_of_bounds (terminal_frame f') \<and>
    published c' = published typing_canvas \<and> working c' 0 7 = working typing_canvas 0 7 \<and> working c' 7 39 = working typing_canvas 7 39"
proof -
  have c: "ready 40 8 typing_canvas"
    using new_canvas_wf [of 40 8]
    by (simp add: ready_def begin_frame_def copy_drawable_to_writable_def new_canvas_def checked_area_def size_max_def canvas_wf_def set_writable_def
        get_drawable_buffer_def split: buffer_state.split)
  have mode: "if_mode typing_frame = TERMINAL_MODE" "bnd_configuration (terminal_bounding typing_frame) = terminal_bounds"
    by (simp_all add: typing_frame_def write_terminal_def term_write_def start_new_terminal_def new_input_frame_def new_bounding_def split: prod.split option.split)
  have e: "map_prod emulator id (ensure_terminal typewriter 2 35 (terminal_frame typing_frame)) = (Some (2, 35, [0x68, 0x69]), True)"
    by (simp add: typing_frame_def write_terminal_def term_write_def start_new_terminal_def new_input_frame_def start_new_session_def
        begin_new_session_def destroy_terminal_def new_term_frame_def ensure_terminal_def typewriter_def with_emulator_def Let_def size_max_def)
  then obtain t1 where t1: "ensure_terminal typewriter 2 35 (terminal_frame typing_frame) = (t1, True)" "emulator t1 = Some (2, 35, [0x68, 0x69])"
    by (cases "ensure_terminal typewriter 2 35 (terminal_frame typing_frame)") auto
  obtain f' c' where d: "if_draw typewriter sample_theme typing_rect (typing_frame, typing_canvas) = ((f', c'), TUI_OK)"
    "emulator (terminal_frame f') = Some (2, 35, [0x68, 0x69])"
    using terminal_draw_ready [OF c mode, of typing_rect typewriter t1 sample_theme] t1
    by (auto simp: size_max_def kMinimumWidth_def kTerminalMinimumHeight_def terminal_height_def typewriter_def)
  have "frame_reachable typewriter (start_new_terminal new_input_frame)"
    by (rule frame_reachable.step [OF frame_reachable.initial, of _ New_Terminal]) simp
  then have "frame_reachable typewriter typing_frame"
    by (rule frame_reachable.step [of _ _ "Write_Terminal [0x68, 0x69]"]) (simp add: typing_frame_def)
  from input_frame_confined [OF typewriter_ok this _ d(1)] c
  show ?thesis using d by (auto simp: ready_def inside_def)
qed

text \<open>
  Without memory for a resize: an emulator that has taken the new number of columns when the
  allocation of a line fails. The drawing reports the failure and keeps the terminal and its own record
  of the old size; the next drawing at that size finds nothing to resize and writes outside its cells.
\<close>

definition starved :: "(nat \<times> nat \<times> bytes) tmt_ops" where
  "starved = typewriter\<lparr>tmt_resize := (\<lambda>rows columns (r, c, t). ((r, columns, t), [], False))\<rparr>"

lemma starved_documented: "sized_screens starved"
proof -
  have live: "\<exists>t. vt = (rows, columns, t)" if "emulator_live starved rows columns vt" for rows columns vt
    using that by induction (auto simp: starved_def typewriter_def split: if_splits)
  have "screen_fits rows columns (tmt_screen starved vt)" if "emulator_live starved rows columns vt" for rows columns vt
    using live [OF that] by (auto simp: screen_fits_def starved_def typewriter_def)
  then show ?thesis by (simp add: sized_screens_def)
qed

definition starved_canvas :: canvas where
  "starved_canvas = \<lparr>screen_buffer_a = replicate 6 default_cell, screen_buffer_b = replicate 6 default_cell, buffer_state = DRAW_A_WRITETO_B,
     frame_in_progress = True, canvas_status = TUI_OK, canvas_width = 3, canvas_height = 2\<rparr>"

lemma starved_canvas_begun: "begin_frame (new_canvas 3 2) = (starved_canvas, TUI_OK)"
  by (simp add: starved_canvas_def begin_frame_def copy_drawable_to_writable_def new_canvas_def checked_area_def size_max_def set_writable_def
      get_drawable_buffer_def)

definition starved_draw :: "nat \<Rightarrow> (nat \<times> nat \<times> bytes) term_frame \<Rightarrow> (nat \<times> nat \<times> bytes) term_frame \<times> tui_status" where
  "starved_draw width t =
     (case term_draw starved sample_theme \<lparr>rect_x = 0, rect_y = 0, rect_width = width, rect_height = 2\<rparr> (t, starved_canvas) of
       ((t', c), st) \<Rightarrow> (t', st))"

lemma failed_resize_overruns:
  "let (t1, st1) = starved_draw 2 (new_term_frame default_term_style); (t2, st2) = starved_draw 3 t1; (t3, st3) = starved_draw 2 t2 in
    st1 = TUI_OK \<and> \<not> out_of_bounds t1 \<and> st2 = TERMINAL_CONFIG_FAILED \<and> \<not> out_of_bounds t2 \<and> st3 = TUI_OK \<and> out_of_bounds t3"
  by code_simp

end
