(* ===== verification/Z_Buffer.thy ===== *)
theory Z_Buffer
  imports Tui_Types
begin

text \<open>
  \<open>rendering/zbuf.cpp\<close>, the ordered container of frames, and \<open>rendering/selection.cpp\<close>, the state
  machine that routes selection events to one of them. Frames are handles; a null pointer is
  \<open>None\<close>. The objects behind the handles are a store, and the selection methods a frame
  implements are a parameter.
\<close>

section \<open>\<open>ZBuffer\<close>\<close>

record 'f zbuffer =
  z_frames :: "(string \<times> 'f) list"
  z_revision :: nat

definition empty_zbuffer :: "'f zbuffer" where
  "empty_zbuffer = \<lparr>z_frames = [], z_revision = 0\<rparr>"

definition frame_ids :: "'f zbuffer \<Rightarrow> string list" where
  "frame_ids z = map fst (z_frames z)"

definition z_add :: "string \<Rightarrow> 'f option \<Rightarrow> 'f zbuffer \<Rightarrow> 'f zbuffer \<times> tui_status" where
  "z_add frame_id frame z =
     (case frame of
        None \<Rightarrow> (z, TUI_INVALID_ARGUMENT)
      | Some f \<Rightarrow>
          if frame_id = [] then (z, TUI_INVALID_ARGUMENT)
          else if frame_id \<in> set (frame_ids z) then (z, DUPLICATE_FRAME_ID)
          else (z\<lparr>z_frames := z_frames z @ [(frame_id, f)], z_revision := size_add (z_revision z) 1\<rparr>, TUI_OK))"

text \<open>The first entry with an identifier and the entries around it.\<close>

fun z_split :: "string \<Rightarrow> (string \<times> 'f) list \<Rightarrow> ((string \<times> 'f) list \<times> (string \<times> 'f) \<times> (string \<times> 'f) list) option" where
  "z_split frame_id [] = None"
| "z_split frame_id (e # es) =
     (if fst e = frame_id then Some ([], e, es)
      else map_option (\<lambda>(before, found, after). (e # before, found, after)) (z_split frame_id es))"

definition z_remove :: "string \<Rightarrow> 'f zbuffer \<Rightarrow> 'f zbuffer \<times> tui_status" where
  "z_remove frame_id z =
     (case z_split frame_id (z_frames z) of
        None \<Rightarrow> (z, FRAME_NOT_FOUND)
      | Some (before, found, after) \<Rightarrow>
          (z\<lparr>z_frames := before @ after, z_revision := size_add (z_revision z) 1\<rparr>, TUI_OK))"

definition bring_to_front :: "string \<Rightarrow> 'f zbuffer \<Rightarrow> 'f zbuffer \<times> tui_status" where
  "bring_to_front frame_id z =
     (case z_split frame_id (z_frames z) of
        None \<Rightarrow> (z, FRAME_NOT_FOUND)
      | Some (before, found, after) \<Rightarrow>
          if after = [] then (z, TUI_OK)
          else (z\<lparr>z_frames := before @ after @ [found], z_revision := size_add (z_revision z) 1\<rparr>, TUI_OK))"

section \<open>\<open>SelectionStateMachine\<close>\<close>

text \<open>
  The methods of \<open>Frame\<close> that selections use, on the store of frame objects. The \<open>None\<close> of
  \<open>send_selection\<close> is a frame that indexes its rows out of bounds; it has no further behaviour, and
  the machine that called it has none.
\<close>

record ('f, 's) selection_ops =
  is_selectable :: "'f \<Rightarrow> 's \<Rightarrow> bool"
  send_selection :: "'f \<Rightarrow> selection_event \<Rightarrow> 's \<Rightarrow> ('s \<times> tui_status) option"
  get_selected_text :: "'f \<Rightarrow> 's \<Rightarrow> bytes \<times> tui_status"

record 'f selection_machine =
  machine_phase :: selection_phase
  active_id :: string
  active_frame :: "'f option"

definition new_selection_machine :: "'f selection_machine" where
  "new_selection_machine = \<lparr>machine_phase = PHASE_NONE, active_id = [], active_frame = None\<rparr>"

definition is_active_target :: "string \<Rightarrow> 'f \<Rightarrow> 'f selection_machine \<Rightarrow> bool" where
  "is_active_target frame_id frame m \<longleftrightarrow> active_frame m = Some frame \<and> active_id m = frame_id"

definition reset_event :: selection_event where
  "reset_event = \<lparr>selection_type = RESET, sel_anchor = \<lparr>pos_x = 0, pos_y = 0\<rparr>, sel_extent = \<lparr>pos_x = 0, pos_y = 0\<rparr>\<rparr>"

definition sel_reset :: "('f, 's) selection_ops \<Rightarrow> 'f selection_machine \<times> 's \<Rightarrow> (('f selection_machine \<times> 's) \<times> tui_status) option" where
  "sel_reset ops ms =
     (case ms of (m, s) \<Rightarrow>
        if machine_phase m = PHASE_NONE then Some ((m\<lparr>active_id := [], active_frame := None\<rparr>, s), TUI_OK)
        else case active_frame m of
            None \<Rightarrow> Some (ms, INVALID_SELECTION_TRANSITION)
          | Some f \<Rightarrow>
              map_option (\<lambda>(s', status).
                 if status \<noteq> TUI_OK then ((m, s'), status)
                 else ((\<lparr>machine_phase = PHASE_NONE, active_id = [], active_frame = None\<rparr>, s'), TUI_OK))
                (send_selection ops f reset_event s))"

text \<open>The transition required before the frame sees the event, and the event itself.\<close>

definition sel_prepare :: "('f, 's) selection_ops \<Rightarrow> string \<Rightarrow> 'f \<Rightarrow> selection_event \<Rightarrow>
    'f selection_machine \<times> 's \<Rightarrow> (('f selection_machine \<times> 's) \<times> tui_status) option" where
  "sel_prepare ops frame_id frame ev ms =
     (case selection_type ev of
        SELECT_AND_EXTEND \<Rightarrow>
          if machine_phase (fst ms) = COMPLETE then sel_reset ops ms
          else if machine_phase (fst ms) = IN_PROGRESS \<and> \<not> is_active_target frame_id frame (fst ms)
          then Some (ms, INVALID_SELECTION_TRANSITION) else Some (ms, TUI_OK)
      | END_SELECT_AND_EXTEND \<Rightarrow>
          if machine_phase (fst ms) \<noteq> IN_PROGRESS \<or> \<not> is_active_target frame_id frame (fst ms)
          then Some (ms, INVALID_SELECTION_TRANSITION) else Some (ms, TUI_OK)
      | RESET \<Rightarrow> Some (ms, TUI_OK)
      | _ \<Rightarrow> if machine_phase (fst ms) \<noteq> PHASE_NONE then sel_reset ops ms else Some (ms, TUI_OK))"

definition sel_apply :: "('f, 's) selection_ops \<Rightarrow> string \<Rightarrow> 'f option \<Rightarrow> selection_event \<Rightarrow>
    'f selection_machine \<times> 's \<Rightarrow> (('f selection_machine \<times> 's) \<times> tui_status) option" where
  "sel_apply ops frame_id frame ev ms =
     (if selection_type ev = RESET then sel_reset ops ms
      else case frame of
          None \<Rightarrow> Some (ms, TUI_INVALID_ARGUMENT)
        | Some f \<Rightarrow>
            if frame_id = [] then Some (ms, TUI_INVALID_ARGUMENT)
            else if \<not> is_selectable ops f (snd ms) then Some (ms, FRAME_NOT_SELECTABLE)
            else Option.bind (sel_prepare ops frame_id f ev ms) (\<lambda>((m, s), status).
              if status \<noteq> TUI_OK then Some ((m, s), status)
              else map_option (\<lambda>(s', status').
                if status' \<noteq> TUI_OK then ((m, s'), status')
                else ((\<lparr>machine_phase = (if selection_type ev = SELECT_AND_EXTEND then IN_PROGRESS else COMPLETE),
                        active_id = frame_id, active_frame = Some f\<rparr>, s'), TUI_OK))
                (send_selection ops f ev s)))"

text \<open>A sequence of events, each with the frame it is routed to.\<close>

fun sel_history :: "('f, 's) selection_ops \<Rightarrow> (string \<times> 'f option \<times> selection_event) list \<Rightarrow>
    'f selection_machine \<times> 's \<Rightarrow> ('f selection_machine \<times> 's) option" where
  "sel_history ops [] ms = Some ms"
| "sel_history ops ((frame_id, frame, ev) # evs) ms =
     Option.bind (sel_apply ops frame_id frame ev ms) (\<lambda>(ms', status). sel_history ops evs ms')"

definition active_frame_id :: "'f selection_machine \<Rightarrow> string option" where
  "active_frame_id m = (if machine_phase m = PHASE_NONE \<or> active_frame m = None then None else Some (active_id m))"

definition sel_selected_text :: "('f, 's) selection_ops \<Rightarrow> 'f selection_machine \<Rightarrow> 's \<Rightarrow> bytes \<times> tui_status" where
  "sel_selected_text ops m s =
     (if machine_phase m \<noteq> COMPLETE then ([], NO_SELECTION)
      else case active_frame m of None \<Rightarrow> ([], NO_SELECTION) | Some f \<Rightarrow> get_selected_text ops f s)"

section \<open>The order of frames\<close>

lemma z_split_some:
  "z_split frame_id es = Some (before, found, after) \<Longrightarrow>
    es = before @ found # after \<and> fst found = frame_id \<and> frame_id \<notin> set (map fst before)"
  by (induction es arbitrary: before) (force split: if_splits)+

lemma z_split_none: "z_split frame_id es = None \<longleftrightarrow> frame_id \<notin> set (map fst es)"
  by (induction es) auto

definition z_wf :: "'f zbuffer \<Rightarrow> bool" where
  "z_wf z \<longleftrightarrow> distinct (frame_ids z) \<and> [] \<notin> set (frame_ids z)"

lemma z_ops_wf:
  assumes "z_wf z"
  shows "z_wf (fst (z_add i f z))" "z_wf (fst (z_remove i z))" "z_wf (fst (bring_to_front i z))"
proof -
  show "z_wf (fst (z_add i f z))" using assms by (auto simp: z_wf_def z_add_def frame_ids_def split: option.split)
  have parts: "distinct (map fst before @ map fst after @ [fst found])" "[] \<notin> set (map fst before @ map fst after @ [fst found])"
    if "z_split i (z_frames z) = Some (before, found, after)" for before found after
    using z_split_some [OF that] assms by (simp_all add: z_wf_def frame_ids_def)
  show "z_wf (fst (z_remove i z))" using assms parts by (auto simp: z_wf_def z_remove_def frame_ids_def split: option.split)
  show "z_wf (fst (bring_to_front i z))"
  proof (cases "z_split i (z_frames z)")
    case (Some t)
    then show ?thesis using assms parts by (cases t) (simp add: z_wf_def bring_to_front_def frame_ids_def image_Un)
  qed (use assms in \<open>simp add: bring_to_front_def\<close>)
qed

lemma z_ops_frames:
  assumes "z_wf z"
  shows "snd (z_remove i z) = TUI_OK \<Longrightarrow> z_frames (fst (z_remove i z)) = filter (\<lambda>e. fst e \<noteq> i) (z_frames z)"
    "snd (bring_to_front i z) = TUI_OK \<Longrightarrow> z_frames (fst (bring_to_front i z)) =
       filter (\<lambda>e. fst e \<noteq> i) (z_frames z) @ filter (\<lambda>e. fst e = i) (z_frames z)"
proof -
  have others: "filter (\<lambda>e. fst e \<noteq> i) (before @ found # after) = before @ after"
    "filter (\<lambda>e. fst e = i) (before @ found # after) = [found]"
    if "z_frames z = before @ found # after" "fst found = i" for before found after
  proof -
    have "i \<notin> fst ` set before" "i \<notin> fst ` set after" using assms that by (auto simp: z_wf_def frame_ids_def)
    then have "\<forall>e \<in> set before \<union> set after. fst e \<noteq> i" by auto
    then show "filter (\<lambda>e. fst e \<noteq> i) (before @ found # after) = before @ after"
      "filter (\<lambda>e. fst e = i) (before @ found # after) = [found]" using that(2) by (simp_all add: filter_id_conv filter_empty_conv)
  qed
  show "snd (z_remove i z) = TUI_OK \<Longrightarrow> z_frames (fst (z_remove i z)) = filter (\<lambda>e. fst e \<noteq> i) (z_frames z)"
    using others by (auto simp: z_remove_def split: option.splits dest!: z_split_some)
  show "snd (bring_to_front i z) = TUI_OK \<Longrightarrow> z_frames (fst (bring_to_front i z)) =
       filter (\<lambda>e. fst e \<noteq> i) (z_frames z) @ filter (\<lambda>e. fst e = i) (z_frames z)"
  proof -
    assume ok: "snd (bring_to_front i z) = TUI_OK"
    then obtain before found after where f: "z_split i (z_frames z) = Some (before, found, after)"
      by (auto simp: bring_to_front_def split: option.splits)
    then have e: "z_frames z = before @ found # after" "fst found = i" using z_split_some [OF f] by simp_all
    show ?thesis using f others [OF e] unfolding e(1) [symmetric] by (simp add: bring_to_front_def) (simp add: e(1))
  qed
qed

section \<open>One selection at a time\<close>

text \<open>
  The contract a frame promises: a rejected event changes no selection, an event touches only the
  frame it is sent to, an accepted reset leaves that frame without a selection, and a store in
  bounds answers every event and stays in bounds.
\<close>

locale selectable_frames =
  fixes ops :: "('f, 's) selection_ops" and selected :: "'f \<Rightarrow> 's \<Rightarrow> bool" and in_bounds :: "'s \<Rightarrow> bool"
  assumes rejected_unchanged: "send_selection ops f ev s = Some (s', st) \<Longrightarrow> st \<noteq> TUI_OK \<Longrightarrow> selected f s' = selected f s"
    and others_unchanged: "send_selection ops f ev s = Some (s', st) \<Longrightarrow> g \<noteq> f \<Longrightarrow> selected g s' = selected g s"
    and reset_clears: "send_selection ops f reset_event s = Some (s', TUI_OK) \<Longrightarrow> \<not> selected f s'"
    and answers: "in_bounds s \<Longrightarrow> \<exists>s' st. send_selection ops f ev s = Some (s', st) \<and> in_bounds s'"
begin

definition single :: "'f selection_machine \<times> 's \<Rightarrow> bool" where
  "single ms \<longleftrightarrow> (\<forall>f. selected f (snd ms) \<longrightarrow> machine_phase (fst ms) \<noteq> PHASE_NONE \<and> active_frame (fst ms) = Some f) \<and>
     (machine_phase (fst ms) \<noteq> PHASE_NONE \<longrightarrow> active_frame (fst ms) \<noteq> None)"

lemma reset_single:
  assumes s: "single ms" and r: "sel_reset ops ms = Some (ms', st)"
  shows "single ms' \<and> (st = TUI_OK \<longrightarrow> machine_phase (fst ms') = PHASE_NONE) \<and> (st \<noteq> TUI_OK \<longrightarrow> fst ms' = fst ms)"
proof (cases "machine_phase (fst ms) = PHASE_NONE")
  case True
  then show ?thesis using s r by (auto simp: single_def sel_reset_def split: prod.splits)
next
  case False
  then obtain f where f: "active_frame (fst ms) = Some f" using s by (auto simp: single_def)
  obtain s' st' where u: "send_selection ops f reset_event (snd ms) = Some (s', st')"
    using r f False by (auto simp: sel_reset_def split: prod.splits)
  show ?thesis
  proof (cases "st' = TUI_OK")
    case True
    have "\<not> selected g s'" for g
      using reset_clears [OF u [unfolded True]] others_unchanged [OF u, of g] s f by (cases "g = f") (auto simp: single_def)
    then show ?thesis using r f u True False by (auto simp: single_def sel_reset_def split: prod.splits)
  next
    case no: False
    have "selected g s' = selected g (snd ms)" for g
      using rejected_unchanged [OF u no] others_unchanged [OF u, of g] by (cases "g = f") auto
    then show ?thesis using r f u s no False by (auto simp: single_def sel_reset_def split: prod.splits)
  qed
qed

lemma prepare_single:
  assumes "single ms" and "sel_prepare ops i f ev ms = Some (ms', st)"
  shows "single ms' \<and> (st = TUI_OK \<longrightarrow> selection_type ev \<noteq> RESET \<longrightarrow> machine_phase (fst ms') = PHASE_NONE \<or> active_frame (fst ms') = Some f)"
proof (cases "sel_prepare ops i f ev ms = sel_reset ops ms")
  case True
  then show ?thesis using reset_single [OF assms(1), of ms' st] assms(2) by simp
next
  case False
  then have "ms' = ms" "st = TUI_OK \<longrightarrow> selection_type ev \<noteq> RESET \<longrightarrow> machine_phase (fst ms) = PHASE_NONE \<or> is_active_target i f (fst ms)"
    using assms(2) by (cases "machine_phase (fst ms)"; cases "selection_type ev"; simp add: sel_prepare_def split: if_splits)+
  then show ?thesis using assms(1) by (auto simp: is_active_target_def)
qed

lemma apply_single:
  assumes s: "single ms" and a: "sel_apply ops i fr ev ms = Some (ms', st)"
  shows "single ms'"
proof (cases "selection_type ev = RESET")
  case True
  then show ?thesis using reset_single [OF s] a by (simp add: sel_apply_def)
next
  case ev: False
  show ?thesis
  proof (cases "ms' = ms")
    case False
    then obtain f where f: "fr = Some f" "i \<noteq> []" "is_selectable ops f (snd ms)"
      using a ev by (auto simp: sel_apply_def split: option.splits if_splits)
    obtain m s0 st0 where p: "sel_prepare ops i f ev ms = Some ((m, s0), st0)"
      using a ev f by (cases "sel_prepare ops i f ev ms") (auto simp: sel_apply_def)
    note ps = prepare_single [OF s p]
    show ?thesis
    proof (cases "st0 = TUI_OK")
      case True
      obtain s1 st1 where u: "send_selection ops f ev s0 = Some (s1, st1)"
        using a ev f p True by (auto simp: sel_apply_def)
      have same: "selected g s1 = selected g s0" if "st1 \<noteq> TUI_OK" for g
        using rejected_unchanged [OF u that] others_unchanged [OF u, of g] by (cases "g = f") auto
      have "g = f" if "selected g s1" "st1 = TUI_OK" for g
        using others_unchanged [OF u, of g] that ps True ev by (cases "g = f") (auto simp: single_def)
      then show ?thesis using a ev f p u ps True same by (auto simp: sel_apply_def single_def split: if_splits)
    qed (use a ev f p ps in \<open>auto simp: sel_apply_def\<close>)
  qed (use s in simp)
qed

lemma history_single: "single ms \<Longrightarrow> sel_history ops evs ms = Some ms' \<Longrightarrow> single ms'"
proof (induction evs arbitrary: ms)
  case (Cons e evs)
  obtain i fr ev where e: "e = (i, fr, ev)" by (metis prod_cases3)
  obtain ms1 st where "sel_apply ops i fr ev ms = Some (ms1, st)" "sel_history ops evs ms1 = Some ms'"
    using Cons.prems(2) e by (auto split: bind_splits)
  then show ?case using Cons.IH apply_single [OF Cons.prems(1)] by blast
qed simp

lemma reset_answers:
  assumes "in_bounds (snd ms)"
  shows "\<exists>m s st. sel_reset ops ms = Some ((m, s), st) \<and> in_bounds s"
proof (cases "machine_phase (fst ms) = PHASE_NONE \<or> active_frame (fst ms) = None")
  case False
  then obtain f where f: "active_frame (fst ms) = Some f" by auto
  obtain s' st where "send_selection ops f reset_event (snd ms) = Some (s', st)" "in_bounds s'" using answers [OF assms] by blast
  then show ?thesis using f False by (cases ms; cases "st = TUI_OK") (simp_all add: sel_reset_def)
qed (use assms in \<open>cases ms; auto simp: sel_reset_def\<close>)

lemma apply_answers:
  assumes b: "in_bounds (snd ms)"
  shows "\<exists>m s st. sel_apply ops i fr ev ms = Some ((m, s), st) \<and> in_bounds s"
proof -
  note reset = reset_answers [OF b]
  have prepare: "\<exists>m s st. sel_prepare ops i f ev ms = Some ((m, s), st) \<and> in_bounds s" for f
    using b reset by (cases ms; cases "selection_type ev") (simp_all add: sel_prepare_def)
  show ?thesis
  proof (cases "sel_apply ops i fr ev ms = sel_reset ops ms \<or> (\<exists>st. sel_apply ops i fr ev ms = Some (ms, st))")
    case False
    then obtain f where f: "fr = Some f" "selection_type ev \<noteq> RESET" "i \<noteq> []" "is_selectable ops f (snd ms)"
      by (cases fr) (auto simp: sel_apply_def split: if_splits)
    obtain m s st where p: "sel_prepare ops i f ev ms = Some ((m, s), st)" "in_bounds s" using prepare by blast
    obtain s' st' where "send_selection ops f ev s = Some (s', st')" "in_bounds s'" using answers [OF p(2)] by blast
    then show ?thesis using f p by (cases "st = TUI_OK"; cases "st' = TUI_OK") (simp_all add: sel_apply_def)
  qed (use b reset in \<open>cases ms; auto\<close>)
qed

lemma history_answers: "in_bounds (snd ms) \<Longrightarrow> \<exists>ms'. sel_history ops evs ms = Some ms'"
proof (induction evs arbitrary: ms)
  case (Cons e evs)
  obtain i fr ev where e: "e = (i, fr, ev)" by (metis prod_cases3)
  show ?case using apply_answers [OF Cons.prems, of i fr ev] Cons.IH e by auto
qed simp

end

end
