(* ===== verification/Frame_Layout.thy ===== *)
theory Frame_Layout
  imports Complex_Main Canvas Z_Buffer "HOL-Library.AList" "HOL-Library.List_Lexorder" "HOL-Library.Char_ord"
begin

text \<open>
  \<open>rendering/layout.cpp\<close>: validation of constraints, resolution of frames to rectangles with named
  anchors, the caches of order and geometry, the render dependencies of overlapping frames, minimum
  dimensions, and sequential drawing. A \<open>float\<close> is a rational number or not finite. The extended
  precision arithmetic of the solver rounds every operation by the function \<open>rnd\<close>, a parameter
  because its precision depends on the platform; integers of 32 bits and \<open>float\<close>s are exact in it.
\<close>

section \<open>Constraints\<close>

datatype constraint_type = ASPECT_RATIO | MIN_WIDTH | MIN_HEIGHT | MAX_WIDTH | MAX_HEIGHT
  | LEFT_MARGIN | RIGHT_MARGIN | TOP_MARGIN | BOTTOM_MARGIN
  | LEFT_ANCHOR | RIGHT_ANCHOR | TOP_ANCHOR | BOTTOM_ANCHOR | HORIZONTAL_CENTER | VERTICAL_CENTER

datatype layout_unit = CHARACTERS | PERCENT | RATIO | NAME

datatype float32 = Finite rat | Not_Finite

record aspect_ratio =
  ratio_width :: int
  ratio_height :: int

datatype constraint_value = Float_Value float32 | Size_Value nat | Ratio_Value aspect_ratio | Name_Value string

record constraint =
  c_type :: constraint_type
  c_unit :: layout_unit
  c_value :: constraint_value

definition make_percentage_constraint :: "constraint_type \<Rightarrow> float32 \<Rightarrow> constraint" where
  "make_percentage_constraint type p = \<lparr>c_type = type, c_unit = PERCENT, c_value = Float_Value p\<rparr>"

definition make_character_constraint :: "constraint_type \<Rightarrow> nat \<Rightarrow> constraint" where
  "make_character_constraint type n = \<lparr>c_type = type, c_unit = CHARACTERS, c_value = Size_Value n\<rparr>"

definition make_ratio_constraint :: "constraint_type \<Rightarrow> int \<Rightarrow> int \<Rightarrow> constraint" where
  "make_ratio_constraint type w h = \<lparr>c_type = type, c_unit = RATIO, c_value = Ratio_Value \<lparr>ratio_width = w, ratio_height = h\<rparr>\<rparr>"

definition make_name_constraint :: "constraint_type \<Rightarrow> string \<Rightarrow> constraint" where
  "make_name_constraint type name = \<lparr>c_type = type, c_unit = NAME, c_value = Name_Value name\<rparr>"

definition is_horizontal_placement :: "constraint_type \<Rightarrow> bool" where
  "is_horizontal_placement type \<longleftrightarrow> type = LEFT_ANCHOR \<or> type = RIGHT_ANCHOR \<or> type = HORIZONTAL_CENTER"

definition is_vertical_placement :: "constraint_type \<Rightarrow> bool" where
  "is_vertical_placement type \<longleftrightarrow> type = TOP_ANCHOR \<or> type = BOTTOM_ANCHOR \<or> type = VERTICAL_CENTER"

definition is_edge_anchor :: "constraint_type \<Rightarrow> bool" where
  "is_edge_anchor type \<longleftrightarrow> type = LEFT_ANCHOR \<or> type = RIGHT_ANCHOR \<or> type = TOP_ANCHOR \<or> type = BOTTOM_ANCHOR"

definition percentage_ok :: "constraint_value \<Rightarrow> bool" where
  "percentage_ok v = (case v of Float_Value (Finite p) \<Rightarrow> 0 \<le> p \<and> p \<le> 1 | _ \<Rightarrow> False)"

definition ratio_ok :: "constraint_value \<Rightarrow> bool" where
  "ratio_ok v = (case v of Ratio_Value r \<Rightarrow> 0 < ratio_width r \<and> 0 < ratio_height r | _ \<Rightarrow> False)"

definition is_size :: "constraint_value \<Rightarrow> bool" where
  "is_size v = (case v of Size_Value _ \<Rightarrow> True | _ \<Rightarrow> False)"

definition validate_constraint :: "constraint \<Rightarrow> tui_status" where
  "validate_constraint c =
     (case c_unit c of
        CHARACTERS \<Rightarrow> if c_type c = ASPECT_RATIO \<or> \<not> is_size (c_value c) then INVALID_CONSTRAINT else TUI_OK
      | PERCENT \<Rightarrow> if c_type c = ASPECT_RATIO then INVALID_CONSTRAINT
          else if \<not> percentage_ok (c_value c) then INVALID_PERCENTAGE else TUI_OK
      | RATIO \<Rightarrow> if c_type c \<noteq> ASPECT_RATIO then INVALID_CONSTRAINT else if \<not> ratio_ok (c_value c) then INVALID_RATIO else TUI_OK
      | NAME \<Rightarrow> if \<not> is_edge_anchor (c_type c) then INVALID_CONSTRAINT
          else (case c_value c of Name_Value name \<Rightarrow> if name = [] then TUI_INVALID_ARGUMENT else TUI_OK
             | _ \<Rightarrow> TUI_INVALID_ARGUMENT))"

text \<open>Two bounds in the same unit must not cross.\<close>

definition validate_bound_pair :: "constraint option \<Rightarrow> constraint option \<Rightarrow> tui_status" where
  "validate_bound_pair minimum maximum =
     (case (minimum, maximum) of
        (Some lo, Some hi) \<Rightarrow>
          if c_unit lo \<noteq> c_unit hi then TUI_OK
          else if c_unit lo = CHARACTERS
          then (case (c_value lo, c_value hi) of (Size_Value a, Size_Value b) \<Rightarrow> if a > b then INVALID_CONSTRAINT else TUI_OK
             | _ \<Rightarrow> INVALID_CONSTRAINT)
          else if c_unit lo = PERCENT
          then (case (c_value lo, c_value hi) of
              (Float_Value (Finite a), Float_Value (Finite b)) \<Rightarrow> if a > b then INVALID_CONSTRAINT else TUI_OK
            | (Float_Value _, Float_Value _) \<Rightarrow> TUI_OK
            | _ \<Rightarrow> INVALID_CONSTRAINT)
          else TUI_OK
      | _ \<Rightarrow> TUI_OK)"

type_synonym parsed_constraints = "constraint_type \<Rightarrow> constraint option"

fun parse_loop :: "constraint list \<Rightarrow> parsed_constraints \<Rightarrow> nat \<Rightarrow> nat \<Rightarrow> tui_status + parsed_constraints \<times> nat \<times> nat" where
  "parse_loop [] parsed h v = Inr (parsed, h, v)"
| "parse_loop (c # cs) parsed h v =
     (if validate_constraint c \<noteq> TUI_OK then Inl (validate_constraint c)
      else if parsed (c_type c) \<noteq> None then Inl INVALID_CONSTRAINT
      else parse_loop cs (parsed(c_type c := Some c)) (if is_horizontal_placement (c_type c) then Suc h else h)
        (if is_vertical_placement (c_type c) then Suc v else v))"

definition parse_constraints :: "constraint list \<Rightarrow> tui_status + parsed_constraints" where
  "parse_constraints cs =
     (case parse_loop cs Map.empty 0 0 of
        Inl status \<Rightarrow> Inl status
      | Inr (parsed, h, v) \<Rightarrow>
          if h > 1 \<or> v > 1 then Inl INVALID_CONSTRAINT
          else if validate_bound_pair (parsed MIN_WIDTH) (parsed MAX_WIDTH) \<noteq> TUI_OK
          then Inl (validate_bound_pair (parsed MIN_WIDTH) (parsed MAX_WIDTH))
          else if validate_bound_pair (parsed MIN_HEIGHT) (parsed MAX_HEIGHT) \<noteq> TUI_OK
          then Inl (validate_bound_pair (parsed MIN_HEIGHT) (parsed MAX_HEIGHT))
          else Inr parsed)"

section \<open>Descriptions\<close>

record cell_dimensions =
  cell_width :: nat
  cell_height :: nat

record absolute_layout =
  frame_layouts :: "string \<Rightarrow> rect option"
  frame_dependencies :: "(nat \<times> nat) list"

definition no_layout :: absolute_layout where
  "no_layout = \<lparr>frame_layouts = Map.empty, frame_dependencies = []\<rparr>"

record cached_layout =
  cached_width :: nat
  cached_height :: nat
  cached_cells :: cell_dimensions
  cached_z_revision :: nat
  cached_constraint_revision :: nat
  cached_result :: absolute_layout

record 'f layout_description =
  layout_name :: string
  z_buffer :: "'f zbuffer"
  constraints :: "(string \<times> constraint list) list"
  constraint_revision :: nat
  cached_order :: "string list"
  cached_order_z :: nat
  cached_order_constraint :: nat
  cached_order_valid :: bool
  cached_absolute :: "cached_layout option"

definition make_layout_description :: "string \<Rightarrow> 'f layout_description" where
  "make_layout_description name = \<lparr>layout_name = name, z_buffer = empty_zbuffer, constraints = [], constraint_revision = 0,
     cached_order = [], cached_order_z = 0, cached_order_constraint = 0, cached_order_valid = False, cached_absolute = None\<rparr>"

definition frame_exists :: "'f layout_description \<Rightarrow> string \<Rightarrow> bool" where
  "frame_exists d frame_id \<longleftrightarrow> frame_id \<in> set (frame_ids (z_buffer d))"

fun parse_frames :: "(string \<times> constraint list) list \<Rightarrow> string list \<Rightarrow> (string \<Rightarrow> parsed_constraints option) \<Rightarrow>
    tui_status + (string \<Rightarrow> parsed_constraints option)" where
  "parse_frames cons [] parsed = Inr parsed"
| "parse_frames cons (frame_id # ids) parsed =
     (case (case map_of cons frame_id of None \<Rightarrow> Inr Map.empty | Some cs \<Rightarrow> parse_constraints cs) of
        Inl status \<Rightarrow> Inl status
      | Inr p \<Rightarrow> parse_frames cons ids (if parsed frame_id = None then parsed(frame_id := Some p) else parsed))"

definition parse_layout :: "'f layout_description \<Rightarrow> tui_status + (string \<Rightarrow> parsed_constraints option)" where
  "parse_layout d =
     (case parse_frames (constraints d) (frame_ids (z_buffer d)) Map.empty of
        Inl status \<Rightarrow> Inl status
      | Inr parsed \<Rightarrow> if \<exists>c \<in> set (constraints d). \<not> frame_exists d (fst c) then Inl FRAME_NOT_FOUND else Inr parsed)"

definition conflicting :: "constraint_type \<Rightarrow> constraint_type \<Rightarrow> bool" where
  "conflicting a b \<longleftrightarrow> a = b \<or> is_horizontal_placement a \<and> is_horizontal_placement b \<or> is_vertical_placement a \<and> is_vertical_placement b"

definition invalidate :: "'f layout_description \<Rightarrow> 'f layout_description" where
  "invalidate d = d\<lparr>constraint_revision := size_add (constraint_revision d) 1, cached_order_valid := False, cached_absolute := None\<rparr>"

definition add_frame_to_layout_description ::
    "string \<Rightarrow> 'f option \<Rightarrow> 'f layout_description \<Rightarrow> 'f layout_description \<times> tui_status" where
  "add_frame_to_layout_description frame_id frame d =
     (case z_add frame_id frame (z_buffer d) of (z, status) \<Rightarrow>
        if status \<noteq> TUI_OK then (d\<lparr>z_buffer := z\<rparr>, status)
        else (invalidate (d\<lparr>z_buffer := z,
           constraints := (if map_of (constraints d) frame_id = None then AList.update frame_id [] (constraints d) else constraints d)\<rparr>), TUI_OK))"

definition add_constraint_to_frame ::
    "string \<Rightarrow> constraint \<Rightarrow> 'f layout_description \<Rightarrow> 'f layout_description \<times> tui_status" where
  "add_constraint_to_frame frame_id c d =
     (if frame_id = [] then (d, TUI_INVALID_ARGUMENT)
      else if \<not> frame_exists d frame_id then (d, FRAME_NOT_FOUND)
      else if validate_constraint c \<noteq> TUI_OK then (d, validate_constraint c)
      else let existing = (case map_of (constraints d) frame_id of None \<Rightarrow> [] | Some cs \<Rightarrow> cs);
               d' = d\<lparr>constraints := AList.update frame_id existing (constraints d)\<rparr>
        in if \<exists>e \<in> set existing. conflicting (c_type e) (c_type c) then (d', INVALID_CONSTRAINT)
           else (invalidate (d\<lparr>constraints := AList.update frame_id (existing @ [c]) (constraints d)\<rparr>), TUI_OK))"

fun check_new :: "constraint list \<Rightarrow> constraint list \<Rightarrow> tui_status" where
  "check_new previous [] = TUI_OK"
| "check_new previous (c # cs) =
     (if validate_constraint c \<noteq> TUI_OK then validate_constraint c
      else if \<exists>p \<in> set previous. conflicting (c_type p) (c_type c) then INVALID_CONSTRAINT
      else check_new (previous @ [c]) cs)"

fun add_constraints :: "string \<Rightarrow> constraint list \<Rightarrow> 'f layout_description \<Rightarrow> 'f layout_description \<times> tui_status" where
  "add_constraints frame_id [] d = (d, TUI_OK)"
| "add_constraints frame_id (c # cs) d =
     (case add_constraint_to_frame frame_id c d of (d', status) \<Rightarrow>
        if status \<noteq> TUI_OK then (d', status) else add_constraints frame_id cs d')"

definition add_frame :: "string \<Rightarrow> 'f option \<Rightarrow> constraint list \<Rightarrow> 'f layout_description \<Rightarrow> 'f layout_description \<times> tui_status" where
  "add_frame frame_id frame cs d =
     (if frame_id = [] \<or> frame = None then (d, TUI_INVALID_ARGUMENT)
      else if check_new [] cs \<noteq> TUI_OK then (d, check_new [] cs)
      else case add_frame_to_layout_description frame_id frame d of (d', status) \<Rightarrow>
        if status \<noteq> TUI_OK then (d', status) else add_constraints frame_id cs d')"

section \<open>Measures\<close>

definition resolve_measure :: "(rat \<Rightarrow> rat) \<Rightarrow> constraint option \<Rightarrow> nat \<Rightarrow> nat \<Rightarrow> tui_status + nat" where
  "resolve_measure rnd c extent default_value =
     (case c of
        None \<Rightarrow> Inr default_value
      | Some k \<Rightarrow>
          if c_unit k = CHARACTERS then (case c_value k of Size_Value n \<Rightarrow> Inr n | _ \<Rightarrow> Inl INVALID_CONSTRAINT)
          else if c_unit k = PERCENT
          then (case c_value k of
              Float_Value (Finite p) \<Rightarrow>
                if p < 0 \<or> p > 1 then Inl INVALID_PERCENTAGE
                else if p = 1 then Inr extent else Inr (nat \<lfloor>rnd (rnd (of_nat extent) * p)\<rfloor>)
            | _ \<Rightarrow> Inl INVALID_PERCENTAGE)
          else Inl INVALID_CONSTRAINT)"

datatype dimension_rounding = ROUND_DOWN | ROUND_UP

definition checked_derived_dimension ::
    "(rat \<Rightarrow> rat) \<Rightarrow> nat \<Rightarrow> nat \<Rightarrow> int \<Rightarrow> nat \<Rightarrow> int \<Rightarrow> dimension_rounding \<Rightarrow> tui_status + nat" where
  "checked_derived_dimension rnd source_cells source_cell source_ratio target_cell target_ratio rounding =
     (if source_cell = 0 \<or> target_cell = 0 then Inl INVALID_DIMENSIONS
      else if source_ratio \<le> 0 \<or> target_ratio \<le> 0 then Inl INVALID_RATIO
      else let scaled = rnd (rnd (rnd (rnd (of_nat source_cells) * rnd (of_nat source_cell)) * of_int target_ratio) /
                  rnd (rnd (of_nat target_cell) * of_int source_ratio));
               rounded = (if rounding = ROUND_UP then \<lceil>scaled\<rceil> else \<lfloor>scaled\<rfloor>)
        in if of_int rounded > rnd (of_nat size_max) then Inl DIMENSION_OVERFLOW else Inr (nat rounded))"

definition height_for_width :: "(rat \<Rightarrow> rat) \<Rightarrow> nat \<Rightarrow> aspect_ratio \<Rightarrow> cell_dimensions \<Rightarrow> dimension_rounding \<Rightarrow> tui_status + nat" where
  "height_for_width rnd width ratio cells rounding =
     checked_derived_dimension rnd width (cell_width cells) (ratio_width ratio) (cell_height cells) (ratio_height ratio) rounding"

definition width_for_height :: "(rat \<Rightarrow> rat) \<Rightarrow> nat \<Rightarrow> aspect_ratio \<Rightarrow> cell_dimensions \<Rightarrow> dimension_rounding \<Rightarrow> tui_status + nat" where
  "width_for_height rnd height ratio cells rounding =
     checked_derived_dimension rnd height (cell_height cells) (ratio_height ratio) (cell_width cells) (ratio_width ratio) rounding"

definition at_least_one_cell :: "nat \<Rightarrow> nat \<Rightarrow> nat \<Rightarrow> nat" where
  "at_least_one_cell width height n = (if width > 0 \<and> height > 0 \<and> n = 0 then 1 else n)"

definition apply_aspect_ratio :: "(rat \<Rightarrow> rat) \<Rightarrow> parsed_constraints \<Rightarrow> nat \<Rightarrow> nat \<Rightarrow> cell_dimensions \<Rightarrow> tui_status + nat \<times> nat" where
  "apply_aspect_ratio rnd parsed width height cells =
     (case parsed ASPECT_RATIO of
        None \<Rightarrow> Inr (width, height)
      | Some c \<Rightarrow>
          if \<not> ratio_ok (c_value c) then Inl INVALID_RATIO
          else (case c_value c of
              Ratio_Value ratio \<Rightarrow>
                (case height_for_width rnd width ratio cells ROUND_DOWN of
                   Inl status \<Rightarrow> Inl status
                 | Inr h \<Rightarrow>
                     if at_least_one_cell width height h \<le> height then Inr (width, at_least_one_cell width height h)
                     else (case width_for_height rnd height ratio cells ROUND_DOWN of
                         Inl status \<Rightarrow> Inl status
                       | Inr w \<Rightarrow> Inr (min width (at_least_one_cell width height w), height)))
            | _ \<Rightarrow> Inl INVALID_RATIO))"

definition resolve_axis_bounds :: "(rat \<Rightarrow> rat) \<Rightarrow> parsed_constraints \<Rightarrow> bool \<Rightarrow> nat \<Rightarrow> tui_status + nat \<times> nat" where
  "resolve_axis_bounds rnd parsed horizontal extent =
     (case resolve_measure rnd (parsed (if horizontal then LEFT_MARGIN else TOP_MARGIN)) extent 0 of
        Inl status \<Rightarrow> Inl status
      | Inr lower_margin \<Rightarrow>
          (case resolve_measure rnd (parsed (if horizontal then RIGHT_MARGIN else BOTTOM_MARGIN)) extent 0 of
             Inl status \<Rightarrow> Inl status
           | Inr upper_margin \<Rightarrow>
               let lower = min lower_margin extent; upper = extent - min upper_margin extent
               in Inr (lower, if upper < lower then lower else upper)))"

definition placement_constraint :: "parsed_constraints \<Rightarrow> bool \<Rightarrow> constraint option" where
  "placement_constraint parsed horizontal =
     (case map parsed (if horizontal then [LEFT_ANCHOR, RIGHT_ANCHOR, HORIZONTAL_CENTER] else [TOP_ANCHOR, BOTTOM_ANCHOR, VERTICAL_CENTER]) of
        [Some c, _, _] \<Rightarrow> Some c
      | [None, Some c, _] \<Rightarrow> Some c
      | [None, None, c] \<Rightarrow> c
      | _ \<Rightarrow> None)"

definition clamp_origin :: "nat \<Rightarrow> nat \<Rightarrow> nat \<Rightarrow> nat \<Rightarrow> nat" where
  "clamp_origin origin lower upper extent =
     (if upper < lower \<or> extent > upper - lower then lower
      else if origin < lower then lower else if origin > upper - extent then upper - extent else origin)"

definition saturating_add :: "nat \<Rightarrow> nat \<Rightarrow> nat" where
  "saturating_add a b = (if b > size_max - a then size_max else a + b)"

definition named_origin :: "constraint_type \<Rightarrow> nat \<Rightarrow> rect \<Rightarrow> tui_status + nat" where
  "named_origin type extent reference =
     (let before = (\<lambda>edge. if extent > edge then 0 else edge - extent) in
      case type of
        LEFT_ANCHOR \<Rightarrow> Inr (rect_x reference)
      | RIGHT_ANCHOR \<Rightarrow> Inr (before (saturating_add (rect_x reference) (rect_width reference)))
      | TOP_ANCHOR \<Rightarrow> Inr (rect_y reference)
      | BOTTOM_ANCHOR \<Rightarrow> Inr (before (saturating_add (rect_y reference) (rect_height reference)))
      | _ \<Rightarrow> Inl INVALID_CONSTRAINT)"

definition offset_origin :: "constraint_type \<Rightarrow> nat \<Rightarrow> nat \<Rightarrow> nat \<Rightarrow> nat \<Rightarrow> tui_status + nat" where
  "offset_origin type offset lower upper extent =
     (if type = LEFT_ANCHOR \<or> type = TOP_ANCHOR then Inr (saturating_add lower offset)
      else if type = RIGHT_ANCHOR \<or> type = BOTTOM_ANCHOR
      then let needed = saturating_add extent offset in Inr (if needed > upper then lower else upper - needed)
      else if type = HORIZONTAL_CENTER \<or> type = VERTICAL_CENTER
      then let available = upper - lower; centered = (if extent > available then lower else lower + (available - extent) div 2)
        in Inr (saturating_add centered offset)
      else Inl INVALID_CONSTRAINT)"

definition resolve_axis_origin ::
    "(rat \<Rightarrow> rat) \<Rightarrow> constraint option \<Rightarrow> nat \<Rightarrow> nat \<Rightarrow> nat \<Rightarrow> nat \<Rightarrow> rect option \<Rightarrow> tui_status + nat" where
  "resolve_axis_origin rnd placement screen lower upper extent reference =
     (case placement of
        None \<Rightarrow> Inr lower
      | Some c \<Rightarrow>
          if c_unit c = NAME
          then (case reference of
              None \<Rightarrow> Inl FRAME_NOT_FOUND
            | Some r \<Rightarrow> map_sum id (\<lambda>origin. clamp_origin origin lower upper extent) (named_origin (c_type c) extent r))
          else (case resolve_measure rnd (Some c) screen 0 of
              Inl status \<Rightarrow> Inl status
            | Inr offset \<Rightarrow>
                map_sum id (\<lambda>origin. clamp_origin origin lower upper extent) (offset_origin (c_type c) offset lower upper extent)))"

section \<open>The resolver\<close>

datatype visit_state = UNVISITED | VISITING | RESOLVED

record solver =
  visits :: "string \<Rightarrow> visit_state option"
  solved :: "string \<Rightarrow> rect option"
  resolution_order :: "string list"

record screen_env =
  env_parsed :: "string \<Rightarrow> parsed_constraints option"
  env_width :: nat
  env_height :: nat
  env_cells :: cell_dimensions

text \<open>The bounds and the size of a frame, which depend on no other frame.\<close>

record frame_box =
  box_left :: nat
  box_right :: nat
  box_top :: nat
  box_bottom :: nat
  box_width :: nat
  box_height :: nat

definition size_frame :: "(rat \<Rightarrow> rat) \<Rightarrow> screen_env \<Rightarrow> parsed_constraints \<Rightarrow> tui_status + frame_box" where
  "size_frame rnd env p =
     (case resolve_axis_bounds rnd p True (env_width env) of Inl status \<Rightarrow> Inl status | Inr (left, right) \<Rightarrow>
      case resolve_axis_bounds rnd p False (env_height env) of Inl status \<Rightarrow> Inl status | Inr (upper, lower) \<Rightarrow>
      case resolve_measure rnd (p MAX_WIDTH) (env_width env) (right - left) of Inl status \<Rightarrow> Inl status | Inr w \<Rightarrow>
      case resolve_measure rnd (p MAX_HEIGHT) (env_height env) (lower - upper) of Inl status \<Rightarrow> Inl status | Inr h \<Rightarrow>
      case apply_aspect_ratio rnd p (min w (right - left)) (min h (lower - upper)) (env_cells env) of
        Inl status \<Rightarrow> Inl status
      | Inr (width, height) \<Rightarrow> Inr \<lparr>box_left = left, box_right = right, box_top = upper, box_bottom = lower, box_width = width, box_height = height\<rparr>)"

definition place_frame :: "(rat \<Rightarrow> rat) \<Rightarrow> screen_env \<Rightarrow> parsed_constraints \<Rightarrow> frame_box \<Rightarrow> rect option \<Rightarrow> rect option \<Rightarrow> tui_status + rect" where
  "place_frame rnd env p b href vref =
     (case resolve_axis_origin rnd (placement_constraint p True) (env_width env) (box_left b) (box_right b) (box_width b) href of
        Inl status \<Rightarrow> Inl status
      | Inr x \<Rightarrow>
          (case resolve_axis_origin rnd (placement_constraint p False) (env_height env) (box_top b) (box_bottom b) (box_height b) vref of
             Inl status \<Rightarrow> Inl status
           | Inr y \<Rightarrow> Inr \<lparr>rect_x = x, rect_y = y, rect_width = box_width b, rect_height = box_height b\<rparr>))"

text \<open>
  \<open>resolve\<close> and \<open>resolve_reference\<close>, with the recursive call as an argument; a result \<open>None\<close> is
  that the depth given was too small.
\<close>

type_synonym solver_call = "string \<Rightarrow> solver \<Rightarrow> (solver \<times> tui_status) option"

definition resolve_reference :: "solver_call \<Rightarrow> constraint option \<Rightarrow> solver \<Rightarrow> (solver \<times> (tui_status + rect option)) option" where
  "resolve_reference call placement s =
     (case placement of
        None \<Rightarrow> Some (s, Inr None)
      | Some c \<Rightarrow>
          if c_unit c \<noteq> NAME then Some (s, Inr None)
          else (case c_value c of
              Name_Value name \<Rightarrow>
                if name = [] then Some (s, Inl TUI_INVALID_ARGUMENT)
                else (case call name s of
                    None \<Rightarrow> None
                  | Some (s', status) \<Rightarrow>
                      Some (s', if status \<noteq> TUI_OK then Inl status
                        else (case solved s' name of None \<Rightarrow> Inl FRAME_NOT_FOUND | Some r \<Rightarrow> Inr (Some r))))
            | _ \<Rightarrow> Some (s, Inl TUI_INVALID_ARGUMENT)))"

definition resolve_unvisited :: "(rat \<Rightarrow> rat) \<Rightarrow> screen_env \<Rightarrow> solver_call \<Rightarrow> string \<Rightarrow> solver \<Rightarrow> (solver \<times> tui_status) option" where
  "resolve_unvisited rnd env call frame_id s =
     (let s1 = s\<lparr>visits := (visits s)(frame_id \<mapsto> VISITING)\<rparr> in
      case env_parsed env frame_id of None \<Rightarrow> Some (s1, FRAME_NOT_FOUND) | Some p \<Rightarrow>
      case size_frame rnd env p of Inl status \<Rightarrow> Some (s1, status) | Inr b \<Rightarrow>
      case resolve_reference call (placement_constraint p True) s1 of
        None \<Rightarrow> None
      | Some (s2, Inl status) \<Rightarrow> Some (s2, status)
      | Some (s2, Inr href) \<Rightarrow>
      (case resolve_reference call (placement_constraint p False) s2 of
        None \<Rightarrow> None
      | Some (s3, Inl status) \<Rightarrow> Some (s3, status)
      | Some (s3, Inr vref) \<Rightarrow>
          (case place_frame rnd env p b href vref of
             Inl status \<Rightarrow> Some (s3, status)
           | Inr r \<Rightarrow> Some (\<lparr>visits = (visits s3)(frame_id \<mapsto> RESOLVED), solved = (solved s3)(frame_id \<mapsto> r),
               resolution_order = resolution_order s3 @ [frame_id]\<rparr>, TUI_OK))))"

primrec resolve :: "nat \<Rightarrow> (rat \<Rightarrow> rat) \<Rightarrow> screen_env \<Rightarrow> solver_call" where
  "resolve 0 rnd env frame_id s = None"
| "resolve (Suc depth) rnd env frame_id s =
     (case visits s frame_id of
        None \<Rightarrow> Some (s, FRAME_NOT_FOUND)
      | Some RESOLVED \<Rightarrow> Some (s, TUI_OK)
      | Some VISITING \<Rightarrow> Some (s, CONSTRAINT_CYCLE)
      | Some UNVISITED \<Rightarrow> resolve_unvisited rnd env (resolve depth rnd env) frame_id s)"

fun resolve_all :: "nat \<Rightarrow> (rat \<Rightarrow> rat) \<Rightarrow> screen_env \<Rightarrow> string list \<Rightarrow> solver \<Rightarrow> (solver \<times> tui_status) option" where
  "resolve_all depth rnd env [] s = Some (s, TUI_OK)"
| "resolve_all depth rnd env (frame_id # ids) s =
     (case resolve depth rnd env frame_id s of
        None \<Rightarrow> None
      | Some (s', status) \<Rightarrow> if status \<noteq> TUI_OK then Some (s', status) else resolve_all depth rnd env ids s')"

definition new_solver :: "string list \<Rightarrow> solver" where
  "new_solver ids = \<lparr>visits = (\<lambda>i. if i \<in> set ids then Some UNVISITED else None), solved = Map.empty, resolution_order = []\<rparr>"

section \<open>Absolute layouts\<close>

definition rectangles_intersect :: "rect \<Rightarrow> rect \<Rightarrow> bool" where
  "rectangles_intersect a b \<longleftrightarrow>
     rect_width a \<noteq> 0 \<and> rect_height a \<noteq> 0 \<and> rect_width b \<noteq> 0 \<and> rect_height b \<noteq> 0 \<and>
     rect_x a < size_add (rect_x b) (rect_width b) \<and> rect_x b < size_add (rect_x a) (rect_width a) \<and>
     rect_y a < size_add (rect_y b) (rect_height b) \<and> rect_y b < size_add (rect_y a) (rect_height a)"

text \<open>Every frame has its rectangle: the pairs of a frame and a later one that it intersects.\<close>

definition dependency_pairs :: "(string \<Rightarrow> rect option) \<Rightarrow> string list \<Rightarrow> (nat \<times> nat) list" where
  "dependency_pairs rects ids =
     [(back, front). back \<leftarrow> [0..<length ids], front \<leftarrow> [Suc back..<length ids],
        rectangles_intersect (the (rects (ids ! back))) (the (rects (ids ! front)))]"

definition build_frame_dependencies :: "(string \<Rightarrow> rect option) \<Rightarrow> string list \<Rightarrow> tui_status + (nat \<times> nat) list" where
  "build_frame_dependencies rects ids =
     (if \<exists>i \<in> set ids. rects i = None then Inl FRAME_NOT_FOUND else Inr (dependency_pairs rects ids))"

definition order_cache_valid :: "'f layout_description \<Rightarrow> bool" where
  "order_cache_valid d \<longleftrightarrow> cached_order_valid d \<and> cached_order_z d = z_revision (z_buffer d) \<and>
     cached_order_constraint d = constraint_revision d"

definition geometry_cached :: "'f layout_description \<Rightarrow> nat \<Rightarrow> nat \<Rightarrow> cell_dimensions \<Rightarrow> absolute_layout option" where
  "geometry_cached d width height cells =
     (case cached_absolute d of
        None \<Rightarrow> None
      | Some c \<Rightarrow>
          if cached_width c = width \<and> cached_height c = height \<and> cached_cells c = cells \<and>
             cached_z_revision c = z_revision (z_buffer d) \<and> cached_constraint_revision c = constraint_revision d
          then Some (cached_result c) else None)"

definition solve_layout :: "(rat \<Rightarrow> rat) \<Rightarrow> 'f layout_description \<Rightarrow> nat \<Rightarrow> nat \<Rightarrow> cell_dimensions \<Rightarrow> string list \<Rightarrow>
    (tui_status + absolute_layout \<times> string list) option" where
  "solve_layout rnd d width height cells order =
     (let ids = frame_ids (z_buffer d) in
      case parse_layout d of
        Inl status \<Rightarrow> Some (Inl status)
      | Inr parsed \<Rightarrow>
          (case resolve_all (Suc (length ids)) rnd \<lparr>env_parsed = parsed, env_width = width, env_height = height, env_cells = cells\<rparr>
              order (new_solver ids) of
             None \<Rightarrow> None
           | Some (s, status) \<Rightarrow>
               if status \<noteq> TUI_OK then Some (Inl status)
               else Some (map_sum id (\<lambda>deps. (\<lparr>frame_layouts = solved s, frame_dependencies = deps\<rparr>, resolution_order s))
                   (build_frame_dependencies (solved s) ids))))"

definition compute_absolute_layout :: "(rat \<Rightarrow> rat) \<Rightarrow> nat \<Rightarrow> nat \<Rightarrow> cell_dimensions \<Rightarrow> 'f layout_description \<Rightarrow>
    ('f layout_description \<times> absolute_layout \<times> tui_status) option" where
  "compute_absolute_layout rnd width height cells d =
     (if cell_width cells = 0 \<or> cell_height cells = 0 then Some (d, no_layout, INVALID_DIMENSIONS)
      else case geometry_cached d width height cells of
          Some layout \<Rightarrow> Some (d, layout, TUI_OK)
        | None \<Rightarrow>
            let reuse = order_cache_valid d in
            (case solve_layout rnd d width height cells (if reuse then cached_order d else frame_ids (z_buffer d)) of
               None \<Rightarrow> None
             | Some (Inl status) \<Rightarrow> Some (d, no_layout, status)
             | Some (Inr (layout, order)) \<Rightarrow>
                 let d1 = (if reuse then d else d\<lparr>cached_order := order, cached_order_z := z_revision (z_buffer d),
                       cached_order_constraint := constraint_revision d, cached_order_valid := True\<rparr>)
                 in Some (d1\<lparr>cached_absolute := Some \<lparr>cached_width = width, cached_height = height, cached_cells = cells,
                      cached_z_revision = z_revision (z_buffer d), cached_constraint_revision = constraint_revision d,
                      cached_result = layout\<rparr>\<rparr>, layout, TUI_OK)))"

section \<open>Minimum dimensions\<close>

definition checked_add :: "nat \<Rightarrow> nat \<Rightarrow> tui_status + nat" where
  "checked_add a b = (if b > size_max - a then Inl DIMENSION_OVERFLOW else Inr (a + b))"

definition character_minimum :: "constraint option \<Rightarrow> tui_status + nat" where
  "character_minimum c =
     (case c of
        None \<Rightarrow> Inr 0
      | Some k \<Rightarrow>
          if c_unit k = PERCENT then Inr 0
          else if c_unit k \<noteq> CHARACTERS then Inl INVALID_CONSTRAINT
          else (case c_value k of Size_Value n \<Rightarrow> Inr n | _ \<Rightarrow> Inl INVALID_CONSTRAINT))"

definition add_minimum_component :: "(rat \<Rightarrow> rat) \<Rightarrow> constraint option \<Rightarrow> nat \<Rightarrow> nat \<times> rat \<Rightarrow> tui_status + nat \<times> rat" where
  "add_minimum_component rnd c multiplier acc =
     (case acc of (fixed, fraction) \<Rightarrow>
      case c of
        None \<Rightarrow> Inr acc
      | Some k \<Rightarrow>
          if c_unit k = CHARACTERS
          then (case c_value k of
              Size_Value n \<Rightarrow>
                if multiplier \<noteq> 0 \<and> n > size_max div multiplier then Inl DIMENSION_OVERFLOW
                else map_sum id (\<lambda>total. (total, fraction)) (checked_add fixed (n * multiplier))
            | _ \<Rightarrow> Inl DIMENSION_OVERFLOW)
          else if c_unit k = PERCENT
          then (case c_value k of
              Float_Value (Finite p) \<Rightarrow> Inr (fixed, rnd (fraction + rnd (p * of_nat multiplier)))
            | _ \<Rightarrow> Inl INVALID_CONSTRAINT)
          else if c_unit k = NAME then Inr acc
          else Inl INVALID_CONSTRAINT)"

function advance_required :: "(rat \<Rightarrow> rat) \<Rightarrow> constraint option \<Rightarrow> nat \<Rightarrow> nat \<Rightarrow> tui_status + nat" where
  "advance_required rnd maximum frame_minimum required =
     (case resolve_measure rnd maximum required 0 of
        Inl status \<Rightarrow> Inl status
      | Inr resolved \<Rightarrow>
          if resolved < frame_minimum
          then if required \<ge> size_max then Inl DIMENSION_OVERFLOW else advance_required rnd maximum frame_minimum (Suc required)
          else Inr required)"
  by pat_completeness auto

termination by (relation "measure (\<lambda>(_, _, _, required). size_max - required)") auto

declare advance_required.simps [simp del]

definition required_for_percentage_maximum :: "(rat \<Rightarrow> rat) \<Rightarrow> constraint option \<Rightarrow> nat \<Rightarrow> tui_status + nat" where
  "required_for_percentage_maximum rnd maximum frame_minimum =
     (case maximum of
        None \<Rightarrow> Inr 0
      | Some c \<Rightarrow>
          if c_unit c = CHARACTERS
          then (case c_value c of Size_Value n \<Rightarrow> if n < frame_minimum then Inl INVALID_CONSTRAINT else Inr 0 | _ \<Rightarrow> Inl INVALID_CONSTRAINT)
          else if c_unit c \<noteq> PERCENT then Inl INVALID_CONSTRAINT
          else (case c_value c of
              Float_Value (Finite p) \<Rightarrow>
                if p < 0 \<or> p > 1 then Inl INVALID_PERCENTAGE
                else if frame_minimum = 0 then Inr 0
                else if p = 0 then Inl INVALID_CONSTRAINT
                else let estimate = \<lceil>rnd (rnd (of_nat frame_minimum) / p)\<rceil> in
                  if of_int estimate > rnd (of_nat size_max) then Inl DIMENSION_OVERFLOW
                  else advance_required rnd maximum frame_minimum (nat estimate)
            | _ \<Rightarrow> Inl INVALID_PERCENTAGE))"

definition is_center :: "constraint option \<Rightarrow> bool" where
  "is_center placement = (case placement of None \<Rightarrow> False | Some c \<Rightarrow> c_type c = HORIZONTAL_CENTER \<or> c_type c = VERTICAL_CENTER)"

definition minimum_axis :: "(rat \<Rightarrow> rat) \<Rightarrow> parsed_constraints \<Rightarrow> bool \<Rightarrow> nat \<Rightarrow> tui_status + nat" where
  "minimum_axis rnd p horizontal frame_minimum =
     (let placement = placement_constraint p horizontal in
      case add_minimum_component rnd (p (if horizontal then LEFT_MARGIN else TOP_MARGIN)) 1 (frame_minimum, 0) of
        Inl status \<Rightarrow> Inl status | Inr a1 \<Rightarrow>
      case add_minimum_component rnd (p (if horizontal then RIGHT_MARGIN else BOTTOM_MARGIN)) 1 a1 of
        Inl status \<Rightarrow> Inl status | Inr a2 \<Rightarrow>
      case add_minimum_component rnd placement (if is_center placement then 2 else 1) a2 of
        Inl status \<Rightarrow> Inl status | Inr (fixed, fraction) \<Rightarrow>
      let required = \<lceil>rnd (rnd (of_nat fixed) / rnd (1 - fraction))\<rceil> in
      if fraction \<ge> 1 \<and> fixed \<noteq> 0 then Inl INVALID_CONSTRAINT
      else if fraction < 1 \<and> of_int required > rnd (of_nat size_max) then Inl DIMENSION_OVERFLOW
      else map_sum id (max (if fraction \<ge> 1 then 0 else nat required))
        (required_for_percentage_maximum rnd (p (if horizontal then MAX_WIDTH else MAX_HEIGHT)) frame_minimum))"

definition frame_minimum_size :: "(rat \<Rightarrow> rat) \<Rightarrow> parsed_constraints \<Rightarrow> cell_dimensions \<Rightarrow> tui_status + nat \<times> nat" where
  "frame_minimum_size rnd p cells =
     (case character_minimum (p MIN_WIDTH) of Inl status \<Rightarrow> Inl status | Inr width \<Rightarrow>
      case character_minimum (p MIN_HEIGHT) of Inl status \<Rightarrow> Inl status | Inr height \<Rightarrow>
      case p ASPECT_RATIO of None \<Rightarrow> Inr (width, height) | Some c \<Rightarrow>
      if \<not> ratio_ok (c_value c) then Inl INVALID_RATIO
      else case c_value c of
          Ratio_Value ratio \<Rightarrow>
            (case height_for_width rnd width ratio cells ROUND_UP of Inl status \<Rightarrow> Inl status | Inr h \<Rightarrow>
               if height \<ge> h
               then map_sum id (\<lambda>w. (max width w, height)) (width_for_height rnd height ratio cells ROUND_UP)
               else Inr (width, h))
        | _ \<Rightarrow> Inl INVALID_RATIO)"

fun minimum_frames :: "(rat \<Rightarrow> rat) \<Rightarrow> cell_dimensions \<Rightarrow> parsed_constraints list \<Rightarrow> nat \<times> nat \<Rightarrow> (nat \<times> nat) \<times> tui_status" where
  "minimum_frames rnd cells [] acc = (acc, TUI_OK)"
| "minimum_frames rnd cells (p # ps) acc =
     (case frame_minimum_size rnd p cells of Inl status \<Rightarrow> (acc, status) | Inr (w, h) \<Rightarrow>
      case minimum_axis rnd p True w of Inl status \<Rightarrow> (acc, status) | Inr required_width \<Rightarrow>
      case minimum_axis rnd p False h of Inl status \<Rightarrow> (acc, status) | Inr required_height \<Rightarrow>
      minimum_frames rnd cells ps (max (fst acc) required_width, max (snd acc) required_height))"

text \<open>The map of parsed frames is iterated in the order of identifiers.\<close>

definition compute_minimum_dimensions :: "(rat \<Rightarrow> rat) \<Rightarrow> cell_dimensions \<Rightarrow> 'f layout_description \<Rightarrow> (nat \<times> nat) \<times> tui_status" where
  "compute_minimum_dimensions rnd cells d =
     (if cell_width cells = 0 \<or> cell_height cells = 0 then ((0, 0), INVALID_DIMENSIONS)
      else case parse_layout d of
          Inl status \<Rightarrow> ((0, 0), status)
        | Inr parsed \<Rightarrow> minimum_frames rnd cells (map (\<lambda>i. the (parsed i)) (sort (frame_ids (z_buffer d)))) (0, 0))"

section \<open>Drawing\<close>

text \<open>The store of frames and the canvas are threaded; \<open>draw_frame\<close> is the virtual method.\<close>

fun draw_frames :: "('f \<Rightarrow> tui_theme \<Rightarrow> rect \<Rightarrow> 's \<Rightarrow> 's \<times> tui_status) \<Rightarrow> (string \<Rightarrow> rect option) \<Rightarrow> tui_theme \<Rightarrow>
    (string \<times> 'f) list \<Rightarrow> 's \<Rightarrow> 's \<times> tui_status" where
  "draw_frames draw_frame rects theme [] s = (s, TUI_OK)"
| "draw_frames draw_frame rects theme ((frame_id, f) # fs) s =
     (case rects frame_id of
        None \<Rightarrow> (s, FRAME_NOT_FOUND)
      | Some r \<Rightarrow>
          (case draw_frame f theme r s of (s', status) \<Rightarrow>
             if status \<noteq> TUI_OK then (s', status) else draw_frames draw_frame rects theme fs s'))"

definition layout_draw :: "('f \<Rightarrow> tui_theme \<Rightarrow> rect \<Rightarrow> 's \<Rightarrow> 's \<times> tui_status) \<Rightarrow> absolute_layout \<Rightarrow> tui_theme \<Rightarrow>
    'f layout_description \<Rightarrow> 's \<Rightarrow> 's \<times> tui_status" where
  "layout_draw draw_frame layout theme d s = draw_frames draw_frame (frame_layouts layout) theme (z_frames (z_buffer d)) s"

end
