(* ===== verification/Layout_Correct.thy ===== *)
theory Layout_Correct
  imports Frame_Layout
begin

text \<open>
  Correctness of the layout solver: when it succeeds, that the rectangles lie on the screen, that
  the caches never change a result, and that the render dependencies are exactly the overlaps.
\<close>

section \<open>Validated constraints\<close>

definition validated :: "parsed_constraints \<Rightarrow> bool" where
  "validated p \<longleftrightarrow> (\<forall>t c. p t = Some c \<longrightarrow> c_type c = t \<and> validate_constraint c = TUI_OK)"

lemma parse_loop_validated: "validated p \<Longrightarrow> parse_loop cs p h v = Inr (p', h', v') \<Longrightarrow> validated p'"
proof (induction cs arbitrary: p h v)
  case (Cons c cs)
  have "validate_constraint c = TUI_OK" using Cons.prems(2) by (simp split: if_splits)
  then have "validated (p(c_type c := Some c))" using Cons.prems(1) by (simp add: validated_def)
  moreover obtain h1 v1 where "parse_loop cs (p(c_type c := Some c)) h1 v1 = Inr (p', h', v')"
    using Cons.prems(2) by (metis parse_loop.simps(2) sum.distinct(1))
  ultimately show ?case by (rule Cons.IH)
qed simp

lemma parse_constraints_validated: "parse_constraints cs = Inr p \<Longrightarrow> validated p"
  using parse_loop_validated [of Map.empty cs 0 0] by (auto simp: parse_constraints_def validated_def split: sum.splits if_splits)

lemma parse_frames_validated:
  assumes "parse_frames cons ids parsed = Inr parsed'" and "\<And>i p. parsed i = Some p \<Longrightarrow> validated p"
  shows "\<And>i p. parsed' i = Some p \<Longrightarrow> validated p" and "dom parsed' = dom parsed \<union> set ids"
proof -
  have "(\<forall>i p. parsed' i = Some p \<longrightarrow> validated p) \<and> dom parsed' = dom parsed \<union> set ids"
    using assms
  proof (induction cons ids parsed rule: parse_frames.induct)
    case (2 cons i ids parsed)
    obtain p where p: "(case map_of cons i of None \<Rightarrow> Inr Map.empty | Some cs \<Rightarrow> parse_constraints cs) = Inr p"
      using 2(2) by (auto split: sum.splits)
    have v: "validated p" using p parse_constraints_validated by (auto simp: validated_def split: option.splits)
    let ?parsed = "if parsed i = None then parsed(i := Some p) else parsed"
    have r: "parse_frames cons ids ?parsed = Inr parsed'" using 2(2) p by simp
    have "\<And>j q. ?parsed j = Some q \<Longrightarrow> validated q" using 2(3) v by (auto split: if_splits)
    from 2(1) [OF p r this] show ?case by (auto simp: dom_def split: if_splits)
  qed auto
  then show "\<And>i p. parsed' i = Some p \<Longrightarrow> validated p" "dom parsed' = dom parsed \<union> set ids" by blast+
qed

lemma parse_layout_validated:
  assumes "parse_layout d = Inr parsed"
  shows "\<And>i p. parsed i = Some p \<Longrightarrow> validated p" and "dom parsed = set (frame_ids (z_buffer d))"
  using assms parse_frames_validated [of "constraints d" "frame_ids (z_buffer d)" Map.empty parsed]
  by (auto simp: parse_layout_def split: sum.splits if_splits)

lemma parse_loop_error: "parse_loop cs p h v = Inl st \<Longrightarrow> st \<noteq> TUI_OK"
  by (induction cs p h v rule: parse_loop.induct) (auto split: if_splits)

lemma parse_layout_error: "parse_layout d = Inl st \<Longrightarrow> st \<noteq> TUI_OK"
proof -
  have c: "parse_constraints cs = Inl e \<Longrightarrow> e \<noteq> TUI_OK" for cs e
    using parse_loop_error by (auto simp: parse_constraints_def split: sum.splits if_splits)
  have "parse_frames cons ids parsed = Inl e \<Longrightarrow> e \<noteq> TUI_OK" for cons ids parsed e
    by (induction cons ids parsed rule: parse_frames.induct) (auto split: sum.splits option.splits dest: c)
  then show "parse_layout d = Inl st \<Longrightarrow> st \<noteq> TUI_OK" by (auto simp: parse_layout_def split: sum.splits if_splits)
qed

lemma measure_total:
  assumes "validated p" and "t \<noteq> ASPECT_RATIO" and "\<not> is_edge_anchor t"
  shows "\<exists>n. resolve_measure rnd (p t) e dflt = Inr n"
proof (cases "p t")
  case (Some c)
  then have "c_type c = t" "validate_constraint c = TUI_OK" using assms(1) by (auto simp: validated_def)
  then show ?thesis using assms(2,3) Some
    by (auto simp: resolve_measure_def validate_constraint_def is_size_def percentage_ok_def
        split: layout_unit.splits if_splits constraint_value.splits float32.splits)
qed (simp add: resolve_measure_def)

lemma bounds_total: "validated p \<Longrightarrow> \<exists>lo hi. resolve_axis_bounds rnd p h e = Inr (lo, hi)"
  using measure_total [of p "if h then LEFT_MARGIN else TOP_MARGIN" rnd e 0] measure_total [of p "if h then RIGHT_MARGIN else BOTTOM_MARGIN" rnd e 0]
  by (auto simp: resolve_axis_bounds_def is_edge_anchor_def Let_def split: if_splits)

lemma bounds_order: "resolve_axis_bounds rnd p h e = Inr (lo, hi) \<Longrightarrow> lo \<le> hi \<and> hi \<le> e"
  by (auto simp: resolve_axis_bounds_def Let_def split: sum.splits if_splits)

lemma derived_error:
  "checked_derived_dimension rnd n a x b y r = Inl st \<Longrightarrow> 0 < a \<Longrightarrow> 0 < b \<Longrightarrow> 0 < x \<Longrightarrow> 0 < y \<Longrightarrow> st = DIMENSION_OVERFLOW"
  by (auto simp: checked_derived_dimension_def Let_def split: if_splits)

lemma aspect_error:
  assumes "validated p" and "0 < cell_width cells" "0 < cell_height cells" and "apply_aspect_ratio rnd p w h cells = Inl st"
  shows "st = DIMENSION_OVERFLOW"
proof (cases "p ASPECT_RATIO")
  case None
  then show ?thesis using assms(4) by (simp add: apply_aspect_ratio_def)
next
  case (Some c)
  then have "c_type c = ASPECT_RATIO" "validate_constraint c = TUI_OK" using assms(1) by (auto simp: validated_def)
  then have ok: "ratio_ok (c_value c)"
    by (auto simp: validate_constraint_def is_edge_anchor_def split: layout_unit.splits if_splits)
  then obtain ratio where ratio: "c_value c = Ratio_Value ratio" "0 < ratio_width ratio" "0 < ratio_height ratio"
    by (auto simp: ratio_ok_def split: constraint_value.splits)
  show ?thesis
    using assms(2-4) Some ok ratio derived_error [of rnd _ "cell_width cells" "ratio_width ratio" "cell_height cells" "ratio_height ratio"]
      derived_error [of rnd _ "cell_height cells" "ratio_height ratio" "cell_width cells" "ratio_width ratio"]
    by (auto simp: apply_aspect_ratio_def height_for_width_def width_for_height_def split: sum.splits if_splits)
qed

lemma aspect_bounds: "apply_aspect_ratio rnd p w h cells = Inr (w', h') \<Longrightarrow> w' \<le> w \<and> h' \<le> h"
  by (auto simp: apply_aspect_ratio_def split: option.splits sum.splits if_splits constraint_value.splits)

section \<open>Size and place of one frame\<close>

definition box_ok :: "screen_env \<Rightarrow> frame_box \<Rightarrow> bool" where
  "box_ok env b \<longleftrightarrow> box_left b \<le> box_right b \<and> box_right b \<le> env_width env \<and> box_top b \<le> box_bottom b \<and> box_bottom b \<le> env_height env \<and>
     box_width b \<le> box_right b - box_left b \<and> box_height b \<le> box_bottom b - box_top b"

lemma size_frame_ok: "size_frame rnd env p = Inr b \<Longrightarrow> box_ok env b"
  by (auto simp: size_frame_def box_ok_def split: sum.splits prod.splits dest!: bounds_order aspect_bounds)

lemma size_frame_error:
  assumes "validated p" and "0 < cell_width (env_cells env)" "0 < cell_height (env_cells env)" and "size_frame rnd env p = Inl st"
  shows "st = DIMENSION_OVERFLOW"
proof -
  obtain l r where lr: "resolve_axis_bounds rnd p True (env_width env) = Inr (l, r)" using bounds_total [OF assms(1)] by blast
  obtain u b where ub: "resolve_axis_bounds rnd p False (env_height env) = Inr (u, b)" using bounds_total [OF assms(1)] by blast
  obtain w h where "resolve_measure rnd (p MAX_WIDTH) (env_width env) (r - l) = Inr w" "resolve_measure rnd (p MAX_HEIGHT) (env_height env) (b - u) = Inr h"
    using measure_total [OF assms(1)] by (metis constraint_type.distinct(5,7) is_edge_anchor_def constraint_type.distinct)
  then show ?thesis using assms lr ub aspect_error [OF assms(1-3)] by (auto simp: size_frame_def split: sum.splits prod.splits)
qed

text \<open>The frame a placement refers to.\<close>

definition anchor_of :: "parsed_constraints \<Rightarrow> bool \<Rightarrow> string option" where
  "anchor_of p h = (case placement_constraint p h of
     Some c \<Rightarrow> if c_unit c = NAME then (case c_value c of Name_Value name \<Rightarrow> Some name | _ \<Rightarrow> None) else None | None \<Rightarrow> None)"

lemma placement_valid:
  assumes "validated p" and "placement_constraint p h = Some c"
  shows "validate_constraint c = TUI_OK"
    "if h then is_horizontal_placement (c_type c) else is_vertical_placement (c_type c)"
  using assms
  by (auto simp: placement_constraint_def validated_def is_horizontal_placement_def is_vertical_placement_def split: option.splits if_splits)

lemma anchor_named:
  assumes "validated p" and "placement_constraint p h = Some c" and "c_unit c = NAME"
  obtains name where "c_value c = Name_Value name" "name \<noteq> []" "anchor_of p h = Some name"
  using assms placement_valid(1) [OF assms(1,2)] that
  by (auto simp: anchor_of_def validate_constraint_def split: constraint_value.splits if_splits)

lemma origin_total:
  assumes v: "validated p" and r: "anchor_of p h \<noteq> None \<Longrightarrow> ref \<noteq> None"
  shows "\<exists>x. resolve_axis_origin rnd (placement_constraint p h) e lo hi n ref = Inr x"
proof (cases "placement_constraint p h")
  case (Some c)
  note ok = placement_valid [OF v Some]
  show ?thesis
  proof (cases "c_unit c = NAME")
    case True
    then have "is_edge_anchor (c_type c)" using ok(1) by (auto simp: validate_constraint_def split: if_splits)
    moreover obtain q where "ref = Some q" using anchor_named [OF v Some True] r by (metis not_None_eq)
    ultimately show ?thesis using Some True by (auto simp: resolve_axis_origin_def named_origin_def is_edge_anchor_def Let_def)
  next
    case False
    then have "\<exists>m. resolve_measure rnd (Some c) e 0 = Inr m" using ok
      by (auto simp: resolve_measure_def validate_constraint_def is_size_def percentage_ok_def is_horizontal_placement_def is_vertical_placement_def
          split: layout_unit.splits if_splits constraint_value.splits float32.splits)
    then show ?thesis using Some False ok(2)
      by (auto simp: resolve_axis_origin_def offset_origin_def is_horizontal_placement_def is_vertical_placement_def Let_def split: if_splits)
  qed
qed (simp add: resolve_axis_origin_def)

lemma origin_bounds:
  assumes "resolve_axis_origin rnd pl e lo hi n ref = Inr x" and "lo \<le> hi" and "n \<le> hi - lo"
  shows "lo \<le> x \<and> x + n \<le> hi"
proof -
  have "lo \<le> clamp_origin y lo hi n \<and> clamp_origin y lo hi n + n \<le> hi" for y
    using assms(2,3) by (auto simp: clamp_origin_def)
  then show ?thesis using assms by (auto simp: resolve_axis_origin_def map_sum_def split: option.splits if_splits sum.splits)
qed

section \<open>The resolver\<close>

definition refs :: "parsed_constraints \<Rightarrow> string set" where
  "refs p = {n. anchor_of p True = Some n \<or> anchor_of p False = Some n}"

definition anchor_rel :: "screen_env \<Rightarrow> (string \<times> string) set" where
  "anchor_rel env = {(i, j). \<exists>p. env_parsed env i = Some p \<and> j \<in> refs p}"

definition env_ok :: "screen_env \<Rightarrow> string list \<Rightarrow> bool" where
  "env_ok env ids \<longleftrightarrow> (\<forall>i p. env_parsed env i = Some p \<longrightarrow> validated p) \<and> dom (env_parsed env) = set ids \<and>
     0 < cell_width (env_cells env) \<and> 0 < cell_height (env_cells env)"

text \<open>The rectangle of a frame, given the rectangles of the frames it refers to.\<close>

definition placed :: "(rat \<Rightarrow> rat) \<Rightarrow> screen_env \<Rightarrow> (string \<Rightarrow> rect option) \<Rightarrow> string \<Rightarrow> rect \<Rightarrow> bool" where
  "placed rnd env sol i r \<longleftrightarrow> (\<exists>p b. env_parsed env i = Some p \<and> size_frame rnd env p = Inr b \<and> refs p \<subseteq> dom sol \<and>
     place_frame rnd env p b (Option.bind (anchor_of p True) sol) (Option.bind (anchor_of p False) sol) = Inr r)"

definition topological :: "screen_env \<Rightarrow> string list \<Rightarrow> bool" where
  "topological env order \<longleftrightarrow> (\<forall>xs i ys. order = xs @ i # ys \<longrightarrow> (\<forall>j. (i, j) \<in> anchor_rel env \<longrightarrow> j \<in> set xs))"

definition solver_ok :: "(rat \<Rightarrow> rat) \<Rightarrow> screen_env \<Rightarrow> string list \<Rightarrow> solver \<Rightarrow> bool" where
  "solver_ok rnd env ids s \<longleftrightarrow> dom (visits s) = set ids \<and> distinct (resolution_order s) \<and>
     (\<forall>i. visits s i = Some RESOLVED \<longleftrightarrow> i \<in> set (resolution_order s)) \<and> dom (solved s) = set (resolution_order s) \<and>
     (\<forall>i \<in> set (resolution_order s). placed rnd env (solved s) i (the (solved s i))) \<and> topological env (resolution_order s)"

definition progress :: "solver \<Rightarrow> solver \<Rightarrow> bool" where
  "progress s s' \<longleftrightarrow> (\<exists>new. resolution_order s' = resolution_order s @ new) \<and> solved s \<subseteq>\<^sub>m solved s' \<and>
     (\<forall>i. visits s i = Some VISITING \<longrightarrow> visits s' i = Some VISITING) \<and>
     (\<forall>i. visits s' i = Some UNVISITED \<longrightarrow> visits s i = Some UNVISITED)"

definition quiet :: "solver \<Rightarrow> solver \<Rightarrow> bool" where
  "quiet s s' \<longleftrightarrow> (\<forall>i. visits s' i = Some VISITING \<longrightarrow> visits s i = Some VISITING)"

text \<open>What an error of the resolver says about the layout.\<close>

definition faulty :: "(rat \<Rightarrow> rat) \<Rightarrow> screen_env \<Rightarrow> string list \<Rightarrow> tui_status \<Rightarrow> bool" where
  "faulty rnd env ids st \<longleftrightarrow> st = CONSTRAINT_CYCLE \<and> \<not> acyclic (anchor_rel env) \<or>
     st = FRAME_NOT_FOUND \<and> (\<exists>i j. (i, j) \<in> anchor_rel env \<and> j \<notin> set ids) \<or>
     st = DIMENSION_OVERFLOW \<and> (\<exists>i p. env_parsed env i = Some p \<and> size_frame rnd env p = Inl DIMENSION_OVERFLOW)"

lemma solver_okD:
  assumes "solver_ok rnd env ids s"
  shows "dom (visits s) = set ids" "distinct (resolution_order s)" "visits s i = Some RESOLVED \<longleftrightarrow> i \<in> set (resolution_order s)"
    "dom (solved s) = set (resolution_order s)" "i \<in> set (resolution_order s) \<Longrightarrow> placed rnd env (solved s) i (the (solved s i))"
    "topological env (resolution_order s)"
  using assms unfolding solver_ok_def by blast+

lemma faulty_error: "faulty rnd env ids st \<Longrightarrow> st \<noteq> TUI_OK"
  by (auto simp: faulty_def)

lemma progress_refl: "progress s s"
  by (auto simp: progress_def)

lemma progressD:
  assumes "progress s s'"
  shows "set (resolution_order s) \<subseteq> set (resolution_order s')" and "solved s \<subseteq>\<^sub>m solved s'"
    and "visits s i = Some VISITING \<Longrightarrow> visits s' i = Some VISITING" and "visits s' i = Some UNVISITED \<Longrightarrow> visits s i = Some UNVISITED"
  using assms unfolding progress_def by (metis Un_upper1 set_append, blast+)

lemma progress_trans: "progress a b \<Longrightarrow> progress b c \<Longrightarrow> progress a c"
proof -
  assume ab: "progress a b" and bc: "progress b c"
  obtain n m where "resolution_order b = resolution_order a @ n" "resolution_order c = resolution_order b @ m"
    using ab bc by (auto simp: progress_def)
  then have "\<exists>new. resolution_order c = resolution_order a @ new" by simp
  moreover have "solved a \<subseteq>\<^sub>m solved c" using ab bc map_le_trans by (simp add: progress_def) blast
  ultimately show ?thesis using ab bc unfolding progress_def by blast
qed

lemma quiet_trans: "quiet a b \<Longrightarrow> quiet b c \<Longrightarrow> quiet a c"
  by (auto simp: quiet_def)

lemma placed_mono:
  assumes "placed rnd env sol i r" and "sol \<subseteq>\<^sub>m sol'"
  shows "placed rnd env sol' i r"
proof -
  have b: "Option.bind a sol' = Option.bind a sol" if "\<forall>n. a = Some n \<longrightarrow> n \<in> dom sol" for a
    using assms(2) that by (cases a) (auto simp: map_le_def)
  obtain p bx where p: "env_parsed env i = Some p" "size_frame rnd env p = Inr bx" "refs p \<subseteq> dom sol"
    "place_frame rnd env p bx (Option.bind (anchor_of p True) sol) (Option.bind (anchor_of p False) sol) = Inr r"
    using assms(1) by (auto simp: placed_def)
  have "\<forall>n. anchor_of p h = Some n \<longrightarrow> n \<in> dom sol" for h using p(3) by (cases h) (auto simp: refs_def)
  then have "place_frame rnd env p bx (Option.bind (anchor_of p True) sol') (Option.bind (anchor_of p False) sol') = Inr r"
    using p(4) b by simp
  moreover have "refs p \<subseteq> dom sol'" using p(3) map_le_implies_dom_le [OF assms(2)] by blast
  ultimately show ?thesis using p(1,2) unfolding placed_def by blast
qed

definition call_ok :: "(rat \<Rightarrow> rat) \<Rightarrow> screen_env \<Rightarrow> string list \<Rightarrow> solver_call \<Rightarrow> bool" where
  "call_ok rnd env ids call \<longleftrightarrow> (\<forall>i s s' st. solver_ok rnd env ids s \<longrightarrow>
     (\<forall>v. visits s v = Some VISITING \<longrightarrow> (v, i) \<in> (anchor_rel env)\<^sup>+) \<longrightarrow> (i \<in> set ids \<or> (\<exists>j. (j, i) \<in> anchor_rel env)) \<longrightarrow>
     call i s = Some (s', st) \<longrightarrow> solver_ok rnd env ids s' \<and> progress s s' \<and>
       (if st = TUI_OK then i \<in> set (resolution_order s') \<and> quiet s s' else faulty rnd env ids st))"

lemma reference_ok:
  assumes call: "call_ok rnd env ids call" and env: "env_ok env ids" and p: "env_parsed env i = Some p"
    and s: "solver_ok rnd env ids s" and v: "\<forall>v. visits s v = Some VISITING \<longrightarrow> v = i \<or> (v, i) \<in> (anchor_rel env)\<^sup>+"
    and r: "resolve_reference call (placement_constraint p h) s = Some (s', res)"
  shows "solver_ok rnd env ids s' \<and> progress s s' \<and>
    (case res of Inl st \<Rightarrow> faulty rnd env ids st
     | Inr ref \<Rightarrow> ref = Option.bind (anchor_of p h) (solved s') \<and> set_option (anchor_of p h) \<subseteq> set (resolution_order s') \<and> quiet s s')"
proof (cases "anchor_of p h")
  case None
  have "validated p" using env p by (auto simp: env_ok_def)
  then have "s' = s \<and> res = Inr None"
    using r None by (cases "placement_constraint p h") (auto simp: resolve_reference_def elim: anchor_named split: if_splits)
  then show ?thesis using s None by (simp add: progress_refl quiet_def)
next
  case (Some n)
  then obtain c where c: "placement_constraint p h = Some c" "c_unit c = NAME" "c_value c = Name_Value n"
    by (auto simp: anchor_of_def split: option.splits if_splits constraint_value.splits)
  have "validated p" using env p by (auto simp: env_ok_def)
  then have "n \<noteq> []" using anchor_named [OF _ c(1,2)] c(3) by auto
  then obtain st where st: "call n s = Some (s', st)"
    and res: "res = (if st \<noteq> TUI_OK then Inl st else (case solved s' n of None \<Rightarrow> Inl FRAME_NOT_FOUND | Some r \<Rightarrow> Inr (Some r)))"
    using r c by (auto simp: resolve_reference_def split: option.splits)
  have rel: "(i, n) \<in> anchor_rel env" using p Some by (cases h) (auto simp: anchor_rel_def refs_def)
  then have "\<forall>v. visits s v = Some VISITING \<longrightarrow> (v, n) \<in> (anchor_rel env)\<^sup>+" using v by (auto intro: trancl_into_trancl)
  then have k: "solver_ok rnd env ids s' \<and> progress s s' \<and>
      (if st = TUI_OK then n \<in> set (resolution_order s') \<and> quiet s s' else faulty rnd env ids st)"
    using call [unfolded call_ok_def, rule_format, of s n s' st] s rel st by blast
  show ?thesis
  proof (cases "st = TUI_OK")
    case True
    then have o: "n \<in> set (resolution_order s')" "quiet s s'" "solver_ok rnd env ids s'" "progress s s'" using k by simp_all
    then have "n \<in> dom (solved s')" using solver_okD(4) by blast
    then obtain q where "solved s' n = Some q" by blast
    then show ?thesis using o res Some True by simp
  next
    case False
    then show ?thesis using k res by simp
  qed
qed

lemma topological_snoc:
  assumes "topological env xs" and "\<forall>j. (i, j) \<in> anchor_rel env \<longrightarrow> j \<in> set xs"
  shows "topological env (xs @ [i])"
  unfolding topological_def
proof (intro allI impI)
  fix us k vs j
  assume e: "xs @ [i] = us @ k # vs" and k: "(k, j) \<in> anchor_rel env"
  show "j \<in> set us"
  proof (cases vs rule: rev_cases)
    case Nil
    then show ?thesis using e assms(2) k by simp
  next
    case (snoc ws w)
    then have "xs = us @ k # ws" using e by simp
    then show ?thesis using assms(1) k by (auto simp: topological_def)
  qed
qed


lemma mark_ok:
  assumes "solver_ok rnd env ids s" and "visits s i = Some UNVISITED"
  defines "s1 \<equiv> s\<lparr>visits := (visits s)(i \<mapsto> VISITING)\<rparr>"
  shows "solver_ok rnd env ids s1" and "progress s s1" and "visits s1 i = Some VISITING" and "\<And>j. visits s1 j = Some VISITING \<Longrightarrow> j = i \<or> visits s j = Some VISITING"
proof -
  have i: "i \<in> set ids" "i \<notin> set (resolution_order s)" using assms(2) solver_okD(1,3) [OF assms(1)] by force+
  show "solver_ok rnd env ids s1" using assms(1) i unfolding solver_ok_def s1_def by auto
  show "progress s s1" using assms(2) by (auto simp: progress_def s1_def)
qed (auto simp: s1_def split: if_splits)

lemma settle_ok:
  assumes s: "solver_ok rnd env ids s" and i: "visits s i = Some VISITING" and r: "placed rnd env (solved s) i r"
  defines "s1 \<equiv> \<lparr>visits = (visits s)(i \<mapsto> RESOLVED), solved = (solved s)(i \<mapsto> r), resolution_order = resolution_order s @ [i]\<rparr>"
  shows "solver_ok rnd env ids s1"
proof -
  have new: "i \<notin> set (resolution_order s)" "i \<in> set ids" "i \<notin> dom (solved s)"
    using i solver_okD(1,3,4) [OF s] by force+
  have le: "solved s \<subseteq>\<^sub>m solved s1" using new(3) by (auto simp: s1_def map_le_def)
  have "placed rnd env (solved s1) j (the (solved s1 j))" if "j \<in> set (resolution_order s1)" for j
  proof (cases "j = i")
    case True
    then show ?thesis using placed_mono [OF r le] by (simp add: s1_def)
  next
    case False
    then have "j \<in> set (resolution_order s)" using that by (simp add: s1_def)
    from placed_mono [OF solver_okD(5) [OF s this] le] show ?thesis using False by (simp add: s1_def)
  qed
  moreover have "\<forall>j. (i, j) \<in> anchor_rel env \<longrightarrow> j \<in> set (resolution_order s)"
    using r solver_okD(4) [OF s] by (auto simp: placed_def anchor_rel_def)
  then have "topological env (resolution_order s1)"
    using topological_snoc [OF solver_okD(6) [OF s]] by (simp add: s1_def)
  moreover have "dom (visits s1) = set ids" "dom (solved s1) = set (resolution_order s1)" "distinct (resolution_order s1)"
    "\<forall>j. visits s1 j = Some RESOLVED \<longleftrightarrow> j \<in> set (resolution_order s1)"
    using new solver_okD(1-4) [OF s] by (auto simp: s1_def)
  ultimately show ?thesis unfolding solver_ok_def by blast
qed

lemma size_frame_faulty:
  assumes "env_ok env ids" and "env_parsed env i = Some p" and "size_frame rnd env p = Inl st"
  shows "faulty rnd env ids st"
proof -
  have "st = DIMENSION_OVERFLOW" using assms(1,2) size_frame_error [OF _ _ _ assms(3)] unfolding env_ok_def by blast
  then show ?thesis using assms(2,3) by (auto simp: faulty_def)
qed

lemma place_frame_total:
  assumes "validated p" and "\<And>h. set_option (anchor_of p h) \<subseteq> dom sol"
  shows "\<exists>r. place_frame rnd env p b (Option.bind (anchor_of p True) sol) (Option.bind (anchor_of p False) sol) = Inr r"
proof -
  have "Option.bind (anchor_of p h) sol \<noteq> None" if "anchor_of p h \<noteq> None" for h using assms(2) [of h] that by auto
  then show ?thesis
    using origin_total [OF assms(1), of True "Option.bind (anchor_of p True) sol" rnd "env_width env" "box_left b" "box_right b" "box_width b"]
      origin_total [OF assms(1), of False "Option.bind (anchor_of p False) sol" rnd "env_height env" "box_top b" "box_bottom b" "box_height b"]
    by (auto simp: place_frame_def)
qed

text \<open>One recursive step, given the contract of the calls it makes.\<close>

lemma unvisited_ok:
  assumes call: "call_ok rnd env ids call" and env: "env_ok env ids" and s: "solver_ok rnd env ids s"
    and v: "\<forall>v. visits s v = Some VISITING \<longrightarrow> (v, i) \<in> (anchor_rel env)\<^sup>+" and i: "visits s i = Some UNVISITED"
    and r: "resolve_unvisited rnd env call i s = Some (s', st)"
  shows "solver_ok rnd env ids s' \<and> progress s s' \<and> (if st = TUI_OK then i \<in> set (resolution_order s') \<and> quiet s s' else faulty rnd env ids st)"
proof -
  define s1 where "s1 = s\<lparr>visits := (visits s)(i \<mapsto> VISITING)\<rparr>"
  note m = mark_ok [OF s i, folded s1_def]
  have "i \<in> dom (env_parsed env)" using i solver_okD(1) [OF s] env by (auto simp: env_ok_def)
  then obtain p where p: "env_parsed env i = Some p" by blast
  have valid: "validated p" using env p by (auto simp: env_ok_def)
  have v1: "\<forall>v. visits s1 v = Some VISITING \<longrightarrow> v = i \<or> (v, i) \<in> (anchor_rel env)\<^sup>+" using m(4) v by blast
  show ?thesis
  proof (cases "size_frame rnd env p")
    case (Inl e)
    then have "s' = s1" "st = e" using r p by (simp_all add: resolve_unvisited_def s1_def Let_def)
    then show ?thesis using m size_frame_faulty [OF env p Inl] faulty_error by auto
  next
    case (Inr b)
    obtain s2 h where h: "resolve_reference call (placement_constraint p True) s1 = Some (s2, h)"
      using r p Inr by (auto simp: resolve_unvisited_def s1_def Let_def split: option.splits)
    note k2 = reference_ok [OF call env p m(1) v1 h]
    show ?thesis
    proof (cases h)
      case (Inl e)
      then have "s' = s2" "st = e" using r p \<open>size_frame rnd env p = Inr b\<close> h by (simp_all add: resolve_unvisited_def s1_def Let_def)
      then show ?thesis using k2 Inl faulty_error progress_trans [OF m(2)] by auto
    next
      case hr: (Inr href)
      have q2: "quiet s1 s2" using k2 hr by simp
      have v2: "\<forall>v. visits s2 v = Some VISITING \<longrightarrow> v = i \<or> (v, i) \<in> (anchor_rel env)\<^sup>+" using v1 q2 unfolding quiet_def by blast
      obtain s3 w where w: "resolve_reference call (placement_constraint p False) s2 = Some (s3, w)"
        using r p Inr h hr by (auto simp: resolve_unvisited_def s1_def Let_def split: option.splits)
      note k3 = reference_ok [OF call env p conjunct1 [OF k2] v2 w]
      show ?thesis
      proof (cases w)
        case (Inl e)
        then have "s' = s3" "st = e" using r p \<open>size_frame rnd env p = Inr b\<close> h hr w by (simp_all add: resolve_unvisited_def s1_def Let_def)
        then show ?thesis using k2 k3 Inl faulty_error progress_trans [OF m(2) progress_trans, of s2 s3] by auto
      next
        case wr: (Inr vref)
        have p23: "progress s2 s3" and p12: "progress s1 s2" and q3: "quiet s2 s3" and ok3: "solver_ok rnd env ids s3" using k2 k3 wr by simp_all
        have p03: "progress s s3" using progress_trans m(2) p12 p23 by blast
        have sol: "set_option (anchor_of p True) \<subseteq> dom (solved s3)" "set_option (anchor_of p False) \<subseteq> dom (solved s3)"
          using k2 k3 hr wr subset_trans [OF _ progressD(1) [OF p23]] unfolding solver_okD(4) [OF ok3] by simp_all
        have dom2: "set_option (anchor_of p True) \<subseteq> dom (solved s2)" using k2 hr unfolding solver_okD(4) [OF conjunct1 [OF k2]] by simp
        have href: "href = Option.bind (anchor_of p True) (solved s3)"
          using k2 hr dom2 progressD(2) [OF p23] by (cases "anchor_of p True") (simp_all add: map_le_def)
        have vref: "vref = Option.bind (anchor_of p False) (solved s3)" using k3 wr by simp
        obtain q where q: "place_frame rnd env p b href vref = Inr q"
          using place_frame_total [OF valid, of "solved s3"] sol href vref by (metis (full_types))
        have s': "s' = \<lparr>visits = (visits s3)(i \<mapsto> RESOLVED), solved = (solved s3)(i \<mapsto> q), resolution_order = resolution_order s3 @ [i]\<rparr>" "st = TUI_OK"
          using r p Inr h hr w wr q by (simp_all add: resolve_unvisited_def s1_def Let_def)
        have i3: "visits s3 i = Some VISITING" using progressD(3) [OF p23 progressD(3) [OF p12 m(3)]] .
        have "placed rnd env (solved s3) i q" using p Inr q href vref sol by (auto simp: placed_def refs_def)
        from settle_ok [OF ok3 i3 this] have "solver_ok rnd env ids s'" by (simp add: s')
        moreover have "solved s3 \<subseteq>\<^sub>m solved s'" using i3 solver_okD(3,4) [OF ok3] by (force simp: s' map_le_def)
        then have "progress s s'" using p03 i map_le_trans by (auto simp: progress_def s')
        moreover have "quiet s s'" using m(4) q2 q3 by (auto simp: quiet_def s' split: if_splits)
        ultimately show ?thesis using s' by simp
      qed
    qed
  qed
qed

lemma resolve_ok: "env_ok env ids \<Longrightarrow> call_ok rnd env ids (resolve depth rnd env)"
proof (induction depth)
  case (Suc depth)
  then have IH: "call_ok rnd env ids (resolve depth rnd env)" by blast
  show ?case unfolding call_ok_def
  proof (intro allI impI)
    fix i s s' st
    assume s: "solver_ok rnd env ids s" and v: "\<forall>v. visits s v = Some VISITING \<longrightarrow> (v, i) \<in> (anchor_rel env)\<^sup>+"
      and i: "i \<in> set ids \<or> (\<exists>j. (j, i) \<in> anchor_rel env)" and r: "resolve (Suc depth) rnd env i s = Some (s', st)"
    show "solver_ok rnd env ids s' \<and> progress s s' \<and> (if st = TUI_OK then i \<in> set (resolution_order s') \<and> quiet s s' else faulty rnd env ids st)"
    proof (cases "visits s i")
      case None
      then have "i \<notin> set ids" using solver_okD(1) [OF s] by blast
      then show ?thesis using None r s i by (auto simp: faulty_def progress_refl)
    next
      case (Some vs)
      show ?thesis
      proof (cases vs)
        case UNVISITED
        then show ?thesis using unvisited_ok [OF IH Suc.prems s v] r Some by simp
      next
        case VISITING
        then have "(i, i) \<in> (anchor_rel env)\<^sup>+" using Some v by blast
        then show ?thesis using r s Some VISITING by (auto simp: faulty_def progress_refl acyclic_def)
      next
        case RESOLVED
        then show ?thesis using r s Some solver_okD(3) [OF s] by (auto simp: progress_refl quiet_def)
      qed
    qed
  qed
qed (simp add: call_ok_def)


section \<open>Termination\<close>

text \<open>Every call marks a frame that was not visited, so the number of frames bounds the depth of the recursion.\<close>

definition unvisited :: "solver \<Rightarrow> string set" where
  "unvisited s = {i. visits s i = Some UNVISITED}"

definition shrinking :: "solver_call \<Rightarrow> bool" where
  "shrinking call \<longleftrightarrow> (\<forall>i s s' st. call i s = Some (s', st) \<longrightarrow> unvisited s' \<subseteq> unvisited s)"

lemma reference_shrinks: "shrinking call \<Longrightarrow> resolve_reference call c s = Some (s', r) \<Longrightarrow> unvisited s' \<subseteq> unvisited s"
  unfolding shrinking_def resolve_reference_def by (auto split: option.splits if_splits constraint_value.splits)

lemma mark_shrinks: "unvisited (s\<lparr>visits := (visits s)(i \<mapsto> VISITING)\<rparr>) = unvisited s - {i}"
  by (auto simp: unvisited_def)

lemma settle_shrinks: "unvisited \<lparr>visits = (visits s)(i \<mapsto> RESOLVED), solved = sol, resolution_order = order\<rparr> \<subseteq> unvisited s"
  by (auto simp: unvisited_def split: if_splits)

lemma resolve_shrinks: "shrinking (resolve depth rnd env)"
proof (induction depth)
  case (Suc depth)
  note ref = reference_shrinks [OF Suc]
  have "unvisited s' \<subseteq> unvisited s" if r: "resolve_unvisited rnd env (resolve depth rnd env) i s = Some (s', st)" for i s s' st
  proof -
    let ?s1 = "s\<lparr>visits := (visits s)(i \<mapsto> VISITING)\<rparr>"
    have "unvisited s' \<subseteq> unvisited ?s1" using r
      by (auto simp: resolve_unvisited_def Let_def split: option.splits sum.splits prod.splits dest!: ref subsetD [OF settle_shrinks])
    then show ?thesis by (auto simp: mark_shrinks)
  qed
  then show ?case unfolding shrinking_def by (simp split: option.splits visit_state.splits) blast
qed (simp add: shrinking_def)

lemma reference_returns:
  assumes "\<And>i. call i s \<noteq> None"
  shows "resolve_reference call c s \<noteq> None"
proof -
  define f where "f i = the (call i s)" for i
  have "\<And>i. call i s = Some (f i)" using assms by (simp add: f_def del: not_None_eq)
  then show ?thesis by (simp add: resolve_reference_def split: option.split constraint_value.split prod.split)
qed

lemma resolve_returns: "finite (unvisited s) \<Longrightarrow> card (unvisited s) < depth \<Longrightarrow> resolve depth rnd env i s \<noteq> None"
proof (induction depth arbitrary: i s)
  case (Suc depth)
  have "resolve_unvisited rnd env (resolve depth rnd env) i s \<noteq> None" if i: "visits s i = Some UNVISITED"
  proof -
    let ?s1 = "s\<lparr>visits := (visits s)(i \<mapsto> VISITING)\<rparr>"
    have "i \<in> unvisited s" using i by (simp add: unvisited_def)
    then have c: "finite (unvisited ?s1)" "card (unvisited ?s1) < depth"
      using Suc.prems card_gt_0_iff [of "unvisited s"] by (auto simp: mark_shrinks card_Diff_singleton)
    have call: "resolve depth rnd env j t \<noteq> None" if "unvisited t \<subseteq> unvisited ?s1" for j t
      using Suc.IH [of t j] c that by (meson card_mono finite_subset le_less_trans)
    have "resolve_reference (resolve depth rnd env) k t \<noteq> None" if "unvisited t \<subseteq> unvisited ?s1" for k t
      using reference_returns call [OF that] .
    note ref = this
    show ?thesis
    proof (cases "env_parsed env i")
      case (Some p)
      obtain s2 h where h: "resolve_reference (resolve depth rnd env) (placement_constraint p True) ?s1 = Some (s2, h)"
        using ref [OF subset_refl] by fast
      obtain s3 v where "resolve_reference (resolve depth rnd env) (placement_constraint p False) s2 = Some (s3, v)"
        using ref [OF reference_shrinks [OF resolve_shrinks h]] by fast
      then show ?thesis using h Some by (simp add: resolve_unvisited_def Let_def split: sum.split)
    qed (simp add: resolve_unvisited_def Let_def)
  qed
  then show ?case by (auto split: option.splits visit_state.splits)
qed simp

lemma resolve_all_returns: "finite (unvisited s) \<Longrightarrow> card (unvisited s) < depth \<Longrightarrow> resolve_all depth rnd env ids s \<noteq> None"
proof (induction ids arbitrary: s)
  case (Cons i ids)
  obtain s' st where r: "resolve depth rnd env i s = Some (s', st)" using resolve_returns [OF Cons.prems] by fast
  then have "unvisited s' \<subseteq> unvisited s" using resolve_shrinks [of depth rnd env] unfolding shrinking_def by blast
  then have "finite (unvisited s')" "card (unvisited s') < depth"
    using Cons.prems by (meson card_mono finite_subset le_less_trans)+
  from Cons.IH [OF this] show ?case using r by simp
qed simp

lemma new_solver_unvisited: "unvisited (new_solver ids) = set ids"
  by (auto simp: unvisited_def new_solver_def)

lemma solve_layout_returns: "solve_layout rnd d w h cells order \<noteq> None"
proof -
  have "resolve_all (Suc (length (frame_ids (z_buffer d)))) rnd env order (new_solver (frame_ids (z_buffer d))) \<noteq> None" for env
    by (rule resolve_all_returns) (simp_all add: new_solver_unvisited card_length le_imp_less_Suc)
  then show ?thesis by (cases "parse_layout d") (simp_all add: solve_layout_def Let_def split: option.split)
qed

section \<open>The whole layout\<close>

lemma new_solver_ok: "solver_ok rnd env ids (new_solver ids)"
  by (auto simp: solver_ok_def new_solver_def topological_def dom_def)

lemma resolve_all_ok:
  assumes "env_ok env ids" and "solver_ok rnd env ids s" and "\<forall>v. visits s v \<noteq> Some VISITING" and "set order \<subseteq> set ids"
    and "resolve_all depth rnd env order s = Some (s', st)"
  shows "if st = TUI_OK then solver_ok rnd env ids s' \<and> set order \<subseteq> set (resolution_order s') \<and> set (resolution_order s) \<subseteq> set (resolution_order s')
    else faulty rnd env ids st"
  using assms(2-5)
proof (induction order arbitrary: s)
  case (Cons i order)
  obtain s1 st1 where r: "resolve depth rnd env i s = Some (s1, st1)" using Cons.prems(4) by (auto split: option.splits)
  have i: "i \<in> set ids" using Cons.prems(3) by simp
  have k: "solver_ok rnd env ids s1 \<and> progress s s1 \<and> (if st1 = TUI_OK then i \<in> set (resolution_order s1) \<and> quiet s s1 else faulty rnd env ids st1)"
    using resolve_ok [OF assms(1), of rnd depth, unfolded call_ok_def, rule_format, of s i s1 st1] Cons.prems(1,2) i r by blast
  show ?case
  proof (cases "st1 = TUI_OK")
    case True
    then have "\<forall>v. visits s1 v \<noteq> Some VISITING" using k Cons.prems(2) unfolding quiet_def by auto
    moreover have "resolve_all depth rnd env order s1 = Some (s', st)" using Cons.prems(4) r True by simp
    moreover have "set order \<subseteq> set ids" using Cons.prems(3) by simp
    ultimately have IH: "if st = TUI_OK then solver_ok rnd env ids s' \<and> set order \<subseteq> set (resolution_order s') \<and> set (resolution_order s1) \<subseteq> set (resolution_order s')
      else faulty rnd env ids st" using Cons.IH k by blast
    have "i \<in> set (resolution_order s1)" "set (resolution_order s) \<subseteq> set (resolution_order s1)" using k True progressD(1) by auto
    then show ?thesis using IH by (cases "st = TUI_OK") (simp_all, blast)
  next
    case False
    then have "s' = s1" "st = st1" using Cons.prems(4) r by simp_all
    then show ?thesis using k False by simp
  qed
qed auto

text \<open>Only one assignment of rectangles can satisfy the placements of a layout without cycles.\<close>

definition solution :: "(rat \<Rightarrow> rat) \<Rightarrow> screen_env \<Rightarrow> string list \<Rightarrow> (string \<Rightarrow> rect option) \<Rightarrow> bool" where
  "solution rnd env ids sol \<longleftrightarrow> dom sol = set ids \<and> (\<forall>i \<in> set ids. placed rnd env sol i (the (sol i)))"

lemma topological_prefix: "topological env (xs @ ys) \<Longrightarrow> topological env xs"
  unfolding topological_def by (metis append.assoc append_Cons)

lemma solution_unique:
  assumes a: "solution rnd env ids a" and b: "solution rnd env ids b" and t: "topological env order" "set order \<subseteq> set ids"
  shows "i \<in> set order \<Longrightarrow> a i = b i"
  using t
proof (induction order arbitrary: i rule: rev_induct)
  case (snoc k order)
  have IH: "\<And>j. j \<in> set order \<Longrightarrow> a j = b j" using snoc topological_prefix by auto
  show ?case
  proof (cases "i \<in> set order")
    case False
    then have k: "i = k" "k \<in> set ids" using snoc.prems by auto
    obtain p x where p: "env_parsed env k = Some p" "size_frame rnd env p = Inr x"
      "place_frame rnd env p x (Option.bind (anchor_of p True) a) (Option.bind (anchor_of p False) a) = Inr (the (a k))"
      using a k(2) unfolding solution_def placed_def by blast
    have q: "place_frame rnd env p x (Option.bind (anchor_of p True) b) (Option.bind (anchor_of p False) b) = Inr (the (b k))"
      using b k(2) p(1,2) unfolding solution_def placed_def by auto
    have "j \<in> set order" if "j \<in> refs p" for j
    proof -
      have "(k, j) \<in> anchor_rel env" using p(1) that by (simp add: anchor_rel_def)
      then show ?thesis using snoc.prems(2) unfolding topological_def by blast
    qed
    then have "Option.bind (anchor_of p h) a = Option.bind (anchor_of p h) b" for h
      using IH by (cases "anchor_of p h"; cases h) (auto simp: refs_def)
    then have "the (a k) = the (b k)" using p(3) q by simp
    moreover have "k \<in> dom a" "k \<in> dom b" using a b k(2) by (simp_all add: solution_def)
    ultimately show ?thesis using k(1) by auto
  qed (rule IH)
qed simp


text \<open>What is wrong with a layout that cannot be solved.\<close>

definition solvable :: "(rat \<Rightarrow> rat) \<Rightarrow> screen_env \<Rightarrow> string list \<Rightarrow> bool" where
  "solvable rnd env ids \<longleftrightarrow> acyclic (anchor_rel env) \<and> (\<forall>i j. (i, j) \<in> anchor_rel env \<longrightarrow> j \<in> set ids) \<and>
     (\<forall>i p. env_parsed env i = Some p \<longrightarrow> size_frame rnd env p \<noteq> Inl DIMENSION_OVERFLOW)"

lemma solvable_iff: "solvable rnd env ids \<longleftrightarrow> (\<forall>st. \<not> faulty rnd env ids st)"
  by (auto simp: solvable_def faulty_def)

lemma topological_acyclic:
  assumes "topological env order" and "distinct order" and "\<And>i j. (i, j) \<in> anchor_rel env \<Longrightarrow> i \<in> set order"
  shows "acyclic (anchor_rel env)"
proof -
  define rank where "rank i = length (takeWhile (\<lambda>k. k \<noteq> i) order)" for i
  have "i \<notin> set us \<Longrightarrow> takeWhile (\<lambda>k. k \<noteq> i) (us @ i # vs) = us" for i us and vs :: "string list" by (induction us) auto
  then have rank: "order = us @ i # vs \<Longrightarrow> i \<notin> set us \<Longrightarrow> rank i = length us" for i us vs by (simp add: rank_def)
  have "rank j < rank i" if ij: "(i, j) \<in> anchor_rel env" for i j
  proof -
    obtain xs ys where o: "order = xs @ i # ys" using assms(3) [OF ij] split_list by metis
    then have xs: "i \<notin> set xs" and j: "j \<in> set xs" using assms(1,2) ij by (auto simp: topological_def)
    have "rank i = length xs" using rank [OF o xs] .
    moreover obtain us vs where us: "xs = us @ j # vs" "j \<notin> set us" using j split_list_first by metis
    have "rank j = length us" using rank [of us j "vs @ i # ys"] us o by simp
    moreover have "length us < length xs" using us by simp
    ultimately show ?thesis by simp
  qed
  then have "(anchor_rel env)\<inverse> \<subseteq> measure rank" by auto
  then have "acyclic ((anchor_rel env)\<inverse>)" using wf_acyclic wf_subset wf_measure by metis
  then show ?thesis by simp
qed

lemma solution_solvable:
  assumes "env_ok env ids" and "solution rnd env ids sol" and "topological env order" "distinct order" "set order = set ids"
  shows "solvable rnd env ids"
proof -
  have i: "i \<in> set ids" if "(i, j) \<in> anchor_rel env" for i j
    using that assms(1) by (auto simp: anchor_rel_def env_ok_def)
  have p: "\<exists>q b. env_parsed env i = Some q \<and> size_frame rnd env q = Inr b \<and> refs q \<subseteq> dom sol" if "i \<in> set ids" for i
    using that assms(2) unfolding solution_def placed_def by blast
  have "acyclic (anchor_rel env)" using topological_acyclic [OF assms(3,4)] i assms(5) by blast
  moreover have "j \<in> set ids" if ij: "(i, j) \<in> anchor_rel env" for i j
    using p [OF i [OF ij]] ij assms(2) by (auto simp: anchor_rel_def solution_def)
  moreover have "size_frame rnd env q \<noteq> Inl DIMENSION_OVERFLOW" if q: "env_parsed env i = Some q" for i q
  proof -
    have "i \<in> set ids" using q assms(1) by (auto simp: env_ok_def)
    then show ?thesis using p q by fastforce
  qed
  ultimately show ?thesis unfolding solvable_def by blast
qed

abbreviation layout_env :: "(string \<Rightarrow> parsed_constraints option) \<Rightarrow> nat \<Rightarrow> nat \<Rightarrow> cell_dimensions \<Rightarrow> screen_env" where
  "layout_env parsed width height cells \<equiv> \<lparr>env_parsed = parsed, env_width = width, env_height = height, env_cells = cells\<rparr>"

lemma layout_env_ok:
  assumes "parse_layout d = Inr parsed" and "0 < cell_width cells" "0 < cell_height cells"
  shows "env_ok (layout_env parsed w h cells) (frame_ids (z_buffer d))"
  using parse_layout_validated [OF assms(1)] assms(2,3) by (auto simp: env_ok_def)

text \<open>The result of the solver, whatever the order in which it visits the frames.\<close>

lemma solve_layout_spec:
  fixes w h :: nat
  assumes p: "parse_layout d = Inr parsed" and c: "0 < cell_width cells" "0 < cell_height cells" and o: "set order = set (frame_ids (z_buffer d))"
  defines "env \<equiv> layout_env parsed w h cells" and "ids \<equiv> frame_ids (z_buffer d)"
  shows "(\<exists>st. solve_layout rnd d w h cells order = Some (Inl st) \<and> faulty rnd env ids st) \<or>
    (\<exists>l order'. solve_layout rnd d w h cells order = Some (Inr (l, order')) \<and> solution rnd env ids (frame_layouts l) \<and>
       frame_dependencies l = dependency_pairs (frame_layouts l) ids \<and> topological env order' \<and> distinct order' \<and> set order' = set ids)"
proof -
  have env: "env_ok env ids" using layout_env_ok [OF p c] by (simp add: env_def ids_def)
  have "resolve_all (Suc (length ids)) rnd env order (new_solver ids) \<noteq> None"
    by (rule resolve_all_returns) (simp_all add: new_solver_unvisited card_length le_imp_less_Suc)
  then obtain s st where r: "resolve_all (Suc (length ids)) rnd env order (new_solver ids) = Some (s, st)" by fast
  have "\<forall>v. visits (new_solver ids) v \<noteq> Some VISITING" by (simp add: new_solver_def)
  note k = resolve_all_ok [OF env new_solver_ok this _ r]
  have sub: "set order \<subseteq> set ids" using o by (simp add: ids_def)
  show ?thesis
  proof (cases "st = TUI_OK")
    case True
    then have s: "solver_ok rnd env ids s" "set ids \<subseteq> set (resolution_order s)" using k sub o by (simp_all add: ids_def)
    then have ord: "set (resolution_order s) = set ids" using solver_okD(1,3) [OF s(1)] by (metis domI subsetI subset_antisym)
    have sol: "solution rnd env ids (solved s)" using solver_okD(4,5) [OF s(1)] ord by (simp add: solution_def)
    then have "\<not> (\<exists>i \<in> set ids. solved s i = None)" by (auto simp: solution_def)
    then have "solve_layout rnd d w h cells order =
        Some (Inr (\<lparr>frame_layouts = solved s, frame_dependencies = dependency_pairs (solved s) ids\<rparr>, resolution_order s))"
      using p r True by (simp add: solve_layout_def build_frame_dependencies_def Let_def env_def ids_def)
    then show ?thesis using sol ord solver_okD(2,6) [OF s(1)] by simp
  next
    case False
    then have "solve_layout rnd d w h cells order = Some (Inl st)" using p r by (simp add: solve_layout_def env_def ids_def)
    then show ?thesis using k sub False by simp
  qed
qed

lemma solve_layout_unique:
  assumes p: "parse_layout d = Inr parsed" and c: "0 < cell_width cells" "0 < cell_height cells"
    and o: "set order = set (frame_ids (z_buffer d))" "set order2 = set (frame_ids (z_buffer d))"
    and a: "solve_layout rnd d w h cells order = Some (Inr (l, ord))"
  shows "\<exists>ord2. solve_layout rnd d w h cells order2 = Some (Inr (l, ord2))"
proof -
  let ?env = "layout_env parsed w h cells" let ?ids = "frame_ids (z_buffer d)"
  have sa: "solution rnd ?env ?ids (frame_layouts l)" "frame_dependencies l = dependency_pairs (frame_layouts l) ?ids"
    "topological ?env ord" "distinct ord" "set ord = set ?ids"
    using solve_layout_spec [OF p c o(1), of rnd w h] a by auto
  have "solvable rnd ?env ?ids" using solution_solvable [OF layout_env_ok [OF p c]] sa by blast
  then obtain l2 ord2 where b: "solve_layout rnd d w h cells order2 = Some (Inr (l2, ord2))" "solution rnd ?env ?ids (frame_layouts l2)"
    "frame_dependencies l2 = dependency_pairs (frame_layouts l2) ?ids"
    using solve_layout_spec [OF p c o(2), of rnd w h] by (auto simp: solvable_iff)
  have "frame_layouts l i = frame_layouts l2 i" if "i \<in> set ?ids" for i
    using solution_unique [OF sa(1) b(2) sa(3)] sa(5) that by simp
  moreover have "dom (frame_layouts l) = set ?ids" "dom (frame_layouts l2) = set ?ids" using sa b by (simp_all add: solution_def)
  ultimately have "frame_layouts l = frame_layouts l2" by (metis domIff ext)
  then show ?thesis using b sa(2) by simp
qed

end
