(* ===== verification/Layout_History.thy ===== *)
theory Layout_History
  imports Layout_Correct
begin

text \<open>
  Layout descriptions over time: frames are added, constrained, reordered and removed, and layouts
  computed for changing screens. The order cache and the geometry cache, whose keys are revision
  counters that wrap, never change a result, and every layout that is returned is on the screen.
\<close>

section \<open>Histories\<close>

datatype 'f layout_op =
    Add_Frame string "'f option" "constraint list"
  | Add_Bare_Frame string "'f option"
  | Add_Constraint string constraint
  | Remove_Frame string
  | Bring_To_Front string
  | Compute_Layout nat nat cell_dimensions

fun layout_step :: "(rat \<Rightarrow> rat) \<Rightarrow> 'f layout_op \<Rightarrow> 'f layout_description \<Rightarrow> 'f layout_description" where
  "layout_step rnd (Add_Frame frame_id frame cs) d = fst (add_frame frame_id frame cs d)"
| "layout_step rnd (Add_Bare_Frame frame_id frame) d = fst (add_frame_to_layout_description frame_id frame d)"
| "layout_step rnd (Add_Constraint frame_id c) d = fst (add_constraint_to_frame frame_id c d)"
| "layout_step rnd (Remove_Frame frame_id) d = d\<lparr>z_buffer := fst (z_remove frame_id (z_buffer d))\<rparr>"
| "layout_step rnd (Bring_To_Front frame_id) d = d\<lparr>z_buffer := fst (bring_to_front frame_id (z_buffer d))\<rparr>"
| "layout_step rnd (Compute_Layout width height cells) d =
     (case compute_absolute_layout rnd width height cells d of Some (d', _) \<Rightarrow> d' | None \<Rightarrow> d)"

definition layout_history :: "(rat \<Rightarrow> rat) \<Rightarrow> string \<Rightarrow> 'f layout_op list \<Rightarrow> 'f layout_description" where
  "layout_history rnd name ops = fold (layout_step rnd) ops (make_layout_description name)"

section \<open>The caches\<close>

definition forget :: "'f layout_description \<Rightarrow> 'f layout_description" where
  "forget d = d\<lparr>cached_order_valid := False, cached_absolute := None\<rparr>"

definition computed :: "(rat \<Rightarrow> rat) \<Rightarrow> 'f layout_description \<Rightarrow> nat \<Rightarrow> nat \<Rightarrow> cell_dimensions \<Rightarrow> absolute_layout \<Rightarrow> bool" where
  "computed rnd d w h cells l \<longleftrightarrow> 0 < cell_width cells \<and> 0 < cell_height cells \<and>
     (\<exists>order. solve_layout rnd d w h cells (frame_ids (z_buffer d)) = Some (Inr (l, order)))"

definition order_ok :: "(rat \<Rightarrow> rat) \<Rightarrow> 'f layout_description \<Rightarrow> bool" where
  "order_ok rnd d \<longleftrightarrow> cached_order_z d \<le> z_revision (z_buffer d) \<and>
     (order_cache_valid d \<longrightarrow> set (cached_order d) = set (frame_ids (z_buffer d)) \<and> (\<exists>w h cells l. computed rnd d w h cells l))"

definition geometry_ok :: "(rat \<Rightarrow> rat) \<Rightarrow> 'f layout_description \<Rightarrow> cached_layout \<Rightarrow> bool" where
  "geometry_ok rnd d c \<longleftrightarrow> cached_z_revision c \<le> z_revision (z_buffer d) \<and>
     (cached_z_revision c = z_revision (z_buffer d) \<and> cached_constraint_revision c = constraint_revision d \<longrightarrow>
       computed rnd d (cached_width c) (cached_height c) (cached_cells c) (cached_result c))"

definition cache_ok :: "(rat \<Rightarrow> rat) \<Rightarrow> 'f layout_description \<Rightarrow> bool" where
  "cache_ok rnd d \<longleftrightarrow> (cached_order_valid d \<longrightarrow> order_ok rnd d) \<and> (\<forall>c. cached_absolute d = Some c \<longrightarrow> geometry_ok rnd d c)"

text \<open>A solution depends on the frames and the constraints only.\<close>

lemma solve_layout_content:
  assumes "z_buffer d' = z_buffer d" and "constraints d' = constraints d"
  shows "solve_layout rnd d' w h cells order = solve_layout rnd d w h cells order"
proof -
  have e: "frame_exists d' = frame_exists d" by (simp add: fun_eq_iff frame_exists_def assms(1))
  show ?thesis unfolding solve_layout_def parse_layout_def assms e ..
qed

lemma computed_content:
  assumes "z_buffer d' = z_buffer d" and "constraints d' = constraints d"
  shows "computed rnd d' w h cells l = computed rnd d w h cells l"
  unfolding computed_def solve_layout_content [OF assms] assms(1) ..

lemma anchor_rel_size: "anchor_rel (layout_env parsed w h cells) = anchor_rel (layout_env parsed w' h' cells')"
  by (simp add: anchor_rel_def)

text \<open>After one success, two visiting orders give the same rectangles and the same errors on every screen.\<close>

lemma solve_layout_agree:
  assumes ok: "computed rnd d w0 h0 cells0 l0" and c: "0 < cell_width cells" "0 < cell_height cells" and o: "set order = set (frame_ids (z_buffer d))"
  shows "map_option (map_sum id fst) (solve_layout rnd d w h cells order) =
    map_option (map_sum id fst) (solve_layout rnd d w h cells (frame_ids (z_buffer d)))"
proof -
  let ?ids = "frame_ids (z_buffer d)" let ?solve = "solve_layout rnd d w h cells"
  from ok obtain ord where c0: "0 < cell_width cells0" "0 < cell_height cells0" and s: "solve_layout rnd d w0 h0 cells0 ?ids = Some (Inr (l0, ord))"
    by (auto simp: computed_def)
  then obtain parsed where p: "parse_layout d = Inr parsed" by (cases "parse_layout d") (auto simp: solve_layout_def Let_def)
  have "solvable rnd (layout_env parsed w0 h0 cells0) ?ids"
    using solve_layout_spec [OF p c0 refl, of rnd w0 h0] s solution_solvable [OF layout_env_ok [OF p c0]] by auto
  then have f: "st = DIMENSION_OVERFLOW" if "faulty rnd (layout_env parsed w h cells) ?ids st" for st
    using that anchor_rel_size [of parsed w h cells w0 h0 cells0] by (auto simp: solvable_def faulty_def)
  have e: "map_option (map_sum id fst) (?solve o2) = Some (Inr l)"
    if "?solve o1 = Some (Inr (l, ord1))" "set o1 = set ?ids" "set o2 = set ?ids" for o1 o2 l ord1
    using solve_layout_unique [OF p c that(2,3,1)] by auto
  show ?thesis
  proof (cases "\<exists>l ord. ?solve order = Some (Inr (l, ord))")
    case True
    then obtain l ord where "?solve order = Some (Inr (l, ord))" by blast
    then show ?thesis using e [OF _ o refl] by (metis e [OF _ o o])
  next
    case False
    then have a: "?solve order = Some (Inl DIMENSION_OVERFLOW)" using solve_layout_spec [OF p c o, of rnd w h] f by blast
    have "\<nexists>l ord. ?solve ?ids = Some (Inr (l, ord))" using e [OF _ refl o] a by auto
    then have "?solve ?ids = Some (Inl DIMENSION_OVERFLOW)" using solve_layout_spec [OF p c refl, of rnd w h] f by blast
    then show ?thesis using a by simp
  qed
qed

section \<open>Every operation keeps the caches right\<close>

definition uncached :: "'f layout_description \<Rightarrow> bool" where
  "uncached d \<longleftrightarrow> \<not> cached_order_valid d \<and> cached_absolute d = None"

lemma uncached_ok: "uncached d \<Longrightarrow> cache_ok rnd d"
  by (simp add: cache_ok_def uncached_def)

lemma add_constraint_step:
  "add_constraint_to_frame i c d = (d', st) \<Longrightarrow> z_buffer d' = z_buffer d \<and> (d' = d \<or> uncached d')"
  by (auto simp: add_constraint_to_frame_def Let_def update_triv invalidate_def uncached_def split: if_splits option.splits)

lemma add_constraints_step:
  "add_constraints i cs d = (d', st) \<Longrightarrow> z_buffer d' = z_buffer d \<and> (d' = d \<or> uncached d')"
proof (induction i cs d rule: add_constraints.induct)
  case (2 i c cs d)
  obtain d1 st1 where s: "add_constraint_to_frame i c d = (d1, st1)" by fastforce
  show ?case using add_constraint_step [OF s] 2 s by (auto split: if_splits)
qed simp

lemma z_add_step: "z_add i f z = (z', st) \<Longrightarrow> (if st = TUI_OK then z_revision z' = size_add (z_revision z) 1 else z' = z)"
  by (auto simp: z_add_def split: option.splits if_splits)

lemma add_bare_step:
  "add_frame_to_layout_description i f d = (d', st) \<Longrightarrow>
    (st \<noteq> TUI_OK \<and> d' = d \<or> uncached d' \<and> z_revision (z_buffer d') = size_add (z_revision (z_buffer d)) 1)"
  using z_add_step [of i f "z_buffer d"]
  by (auto simp: add_frame_to_layout_description_def invalidate_def uncached_def split: prod.splits if_splits)

lemma add_frame_step:
  assumes "add_frame i f cs d = (d', st)"
  shows "d' = d \<or> uncached d' \<and> z_revision (z_buffer d') = size_add (z_revision (z_buffer d)) 1"
proof -
  obtain d1 st1 where s: "add_frame_to_layout_description i f d = (d1, st1)" by fastforce
  show ?thesis using assms add_bare_step [OF s] s add_constraints_step [of i cs d1 d' st]
    by (auto simp: add_frame_def split: if_splits)
qed

lemma z_change_step:
  assumes "z' = fst (z_remove i z) \<or> z' = fst (bring_to_front i z)"
  shows "z' = z \<or> z_revision z' = size_add (z_revision z) 1"
  using assms by (auto simp: z_remove_def bring_to_front_def split: option.splits)

lemma cache_ok_z:
  assumes "cache_ok rnd d" and "z_revision z = size_add (z_revision (z_buffer d)) 1" and "z_revision (z_buffer d) < size_max"
  shows "cache_ok rnd (d\<lparr>z_buffer := z\<rparr>)"
proof -
  have "z_revision z = Suc (z_revision (z_buffer d))" using assms(2,3) by (simp add: size_add_def size_max_def)
  then show ?thesis using assms(1) by (auto simp: cache_ok_def order_ok_def geometry_ok_def order_cache_valid_def)
qed

text \<open>The result of a computation, as a function of the solver.\<close>

definition reported :: "(tui_status + absolute_layout \<times> string list) option \<Rightarrow> (absolute_layout \<times> tui_status) option" where
  "reported r = map_option (\<lambda>x. case map_sum id fst x of Inl status \<Rightarrow> (no_layout, status) | Inr l \<Rightarrow> (l, TUI_OK)) r"

abbreviation visiting_order :: "'f layout_description \<Rightarrow> string list" where
  "visiting_order d \<equiv> if order_cache_valid d then cached_order d else frame_ids (z_buffer d)"

lemma reported_agree: "map_option (map_sum id fst) a = map_option (map_sum id fst) b \<Longrightarrow> reported a = reported b"
  by (cases a; cases b) (auto simp: reported_def)

lemma compute_solved:
  assumes "0 < cell_width cells" "0 < cell_height cells" and "geometry_cached d w h cells = None"
  shows "map_option snd (compute_absolute_layout rnd w h cells d) = reported (solve_layout rnd d w h cells (visiting_order d))"
  using assms by (auto simp: compute_absolute_layout_def reported_def Let_def split: option.split sum.split)

lemma visiting_order_agree:
  assumes "cache_ok rnd d" and "0 < cell_width cells" "0 < cell_height cells"
  shows "map_option (map_sum id fst) (solve_layout rnd d w h cells (visiting_order d)) =
    map_option (map_sum id fst) (solve_layout rnd d w h cells (frame_ids (z_buffer d)))"
proof (cases "order_cache_valid d")
  case True
  then have "order_ok rnd d" using assms(1) by (simp add: cache_ok_def order_cache_valid_def)
  then obtain w0 h0 cells0 l0 where "computed rnd d w0 h0 cells0 l0" "set (cached_order d) = set (frame_ids (z_buffer d))"
    using True by (auto simp: order_ok_def)
  from solve_layout_agree [OF this(1) assms(2,3) this(2)] show ?thesis using True by simp
qed simp

lemma compute_forgotten:
  assumes "0 < cell_width cells" "0 < cell_height cells"
  shows "map_option snd (compute_absolute_layout rnd w h cells (forget d)) = reported (solve_layout rnd d w h cells (frame_ids (z_buffer d)))"
  using compute_solved [of cells "forget d" w h rnd] assms solve_layout_content [of "forget d" d rnd w h cells]
  by (simp add: forget_def geometry_cached_def order_cache_valid_def)

lemma compute_uncached:
  assumes "cache_ok rnd d"
  shows "map_option snd (compute_absolute_layout rnd w h cells d) = map_option snd (compute_absolute_layout rnd w h cells (forget d))"
proof (cases "0 < cell_width cells \<and> 0 < cell_height cells")
  case True
  note f = compute_forgotten [OF conjunct1 [OF True] conjunct2 [OF True], of rnd w h d]
  show ?thesis
  proof (cases "geometry_cached d w h cells")
    case None
    then show ?thesis using compute_solved [OF _ _ None, of rnd] True f reported_agree [OF visiting_order_agree [OF assms]] by simp
  next
    case (Some l)
    then obtain c where c: "cached_absolute d = Some c" "cached_width c = w" "cached_height c = h" "cached_cells c = cells" "cached_result c = l"
      "cached_z_revision c = z_revision (z_buffer d)" "cached_constraint_revision c = constraint_revision d"
      by (auto simp: geometry_cached_def split: option.splits if_splits)
    then have "computed rnd d w h cells l" using assms by (auto simp: cache_ok_def geometry_ok_def)
    then have "reported (solve_layout rnd d w h cells (frame_ids (z_buffer d))) = Some (l, TUI_OK)" by (auto simp: computed_def reported_def)
    moreover have "compute_absolute_layout rnd w h cells d = Some (d, l, TUI_OK)" using Some True by (simp add: compute_absolute_layout_def)
    ultimately show ?thesis unfolding f by simp
  qed
qed (simp add: compute_absolute_layout_def)

lemma compute_returns: "compute_absolute_layout rnd w h cells d \<noteq> None"
proof (cases "(cell_width cells = 0 \<or> cell_height cells = 0) \<or> geometry_cached d w h cells \<noteq> None")
  case False
  then have "map_option snd (compute_absolute_layout rnd w h cells d) = reported (solve_layout rnd d w h cells (visiting_order d))"
    by (intro compute_solved) auto
  then show ?thesis using solve_layout_returns [of rnd d w h cells "visiting_order d"] unfolding reported_def by (metis option.map_disc_iff)
qed (auto simp: compute_absolute_layout_def)

lemma solved_order:
  assumes "solve_layout rnd d w h cells order = Some (Inr (l, order'))" and "0 < cell_width cells" "0 < cell_height cells"
    and "set order = set (frame_ids (z_buffer d))"
  shows "set order' = set (frame_ids (z_buffer d))"
proof -
  obtain parsed where "parse_layout d = Inr parsed" using assms(1) by (cases "parse_layout d") (auto simp: solve_layout_def Let_def)
  from solve_layout_spec [OF this assms(2-4), of rnd w h] show ?thesis using assms(1) by auto
qed

lemma compute_cache_ok:
  assumes ok: "cache_ok rnd d" and r: "compute_absolute_layout rnd w h cells d = Some (d', l, st)"
  shows "cache_ok rnd d' \<and> z_buffer d' = z_buffer d \<and> constraints d' = constraints d"
proof (cases "d' = d")
  case False
  have c: "0 < cell_width cells" "0 < cell_height cells" and g: "geometry_cached d w h cells = None"
    using r False by (auto simp: compute_absolute_layout_def split: if_splits option.splits)
  obtain order where s: "solve_layout rnd d w h cells (visiting_order d) = Some (Inr (l, order))"
    and d': "d' = (if order_cache_valid d then d else d\<lparr>cached_order := order, cached_order_z := z_revision (z_buffer d),
       cached_order_constraint := constraint_revision d, cached_order_valid := True\<rparr>)
      \<lparr>cached_absolute := Some \<lparr>cached_width = w, cached_height = h, cached_cells = cells, cached_z_revision = z_revision (z_buffer d),
         cached_constraint_revision = constraint_revision d, cached_result = l\<rparr>\<rparr>"
    using r False c g by (auto simp: compute_absolute_layout_def Let_def split: option.splits sum.splits)
  have same: "z_buffer d' = z_buffer d" "constraints d' = constraints d" "constraint_revision d' = constraint_revision d" by (simp_all add: d')
  have "\<exists>order2. solve_layout rnd d w h cells (frame_ids (z_buffer d)) = Some (Inr (l, order2))"
    using visiting_order_agree [OF ok c, of w h] s
    by (cases "solve_layout rnd d w h cells (frame_ids (z_buffer d))"; cases "the (solve_layout rnd d w h cells (frame_ids (z_buffer d)))") auto
  then have l: "computed rnd d w h cells l" using c by (simp add: computed_def)
  have l': "computed rnd d' w h cells l" using l computed_content [OF same(1,2)] by simp
  then have "\<forall>k. cached_absolute d' = Some k \<longrightarrow> geometry_ok rnd d' k" by (simp add: geometry_ok_def d')
  moreover have "set (cached_order d') = set (frame_ids (z_buffer d)) \<and> cached_order_z d' = z_revision (z_buffer d)"
  proof (cases "order_cache_valid d")
    case True
    then show ?thesis using ok by (auto simp: d' cache_ok_def order_ok_def order_cache_valid_def)
  next
    case False
    then show ?thesis using s c solved_order [of rnd d w h cells _ l order] by (simp add: d')
  qed
  then have "order_ok rnd d'" using l' same unfolding order_ok_def by auto
  ultimately show ?thesis using same by (simp add: cache_ok_def)
qed (use ok in simp)

lemma layout_step_ok:
  assumes ok: "cache_ok rnd d" and z: "z_revision (z_buffer d) < size_max"
  shows "cache_ok rnd (layout_step rnd oper d) \<and> z_revision (z_buffer (layout_step rnd oper d)) \<le> Suc (z_revision (z_buffer d))"
proof -
  have add: "size_add (z_revision (z_buffer d)) 1 = Suc (z_revision (z_buffer d))" using z by (simp add: size_add_def size_max_def)
  have zstep: "cache_ok rnd (d\<lparr>z_buffer := z'\<rparr>) \<and> z_revision z' \<le> Suc (z_revision (z_buffer d))"
    if "z' = z_buffer d \<or> z_revision z' = size_add (z_revision (z_buffer d)) 1" for z'
    using that cache_ok_z [OF ok _ z, of z'] ok add by auto
  show ?thesis
  proof (cases oper)
    case (Add_Frame i f cs)
    then show ?thesis using ok add add_frame_step [of i f cs d "fst (add_frame i f cs d)" "snd (add_frame i f cs d)"] uncached_ok [of _ rnd] by auto
  next
    case (Add_Bare_Frame i f)
    then show ?thesis
      using ok add add_bare_step [of i f d "fst (add_frame_to_layout_description i f d)" "snd (add_frame_to_layout_description i f d)"]
        uncached_ok [of _ rnd] by auto
  next
    case (Add_Constraint i c)
    then show ?thesis
      using ok add_constraint_step [of i c d "fst (add_constraint_to_frame i c d)" "snd (add_constraint_to_frame i c d)"] uncached_ok [of _ rnd] by auto
  next
    case (Remove_Frame i)
    then show ?thesis using zstep [OF z_change_step, of _ i] by auto
  next
    case (Bring_To_Front i)
    then show ?thesis using zstep [OF z_change_step, of _ i] by auto
  next
    case (Compute_Layout w h cells)
    obtain d' l st where "compute_absolute_layout rnd w h cells d = Some (d', l, st)" using compute_returns [of rnd w h cells d] by (metis not_None_eq prod_cases3)
    then show ?thesis using compute_cache_ok [OF ok] Compute_Layout by simp
  qed
qed

lemma layout_fold_ok:
  "cache_ok rnd d \<Longrightarrow> z_revision (z_buffer d) + length ops \<le> size_max \<Longrightarrow> cache_ok rnd (fold (layout_step rnd) ops d)"
proof (induction ops arbitrary: d)
  case (Cons oper ops)
  then have "z_revision (z_buffer d) < size_max" by simp
  note k = layout_step_ok [OF Cons.prems(1) this, of oper]
  then have "z_revision (z_buffer (layout_step rnd oper d)) + length ops \<le> size_max" using Cons.prems(2) by simp
  then show ?case using Cons.IH k by simp
qed simp

lemma layout_history_ok: "length ops \<le> size_max \<Longrightarrow> cache_ok rnd (layout_history rnd name ops)"
  unfolding layout_history_def by (rule layout_fold_ok) (simp_all add: cache_ok_def make_layout_description_def empty_zbuffer_def)

section \<open>Computed layouts\<close>

lemma computed_spec:
  assumes d: "cache_ok rnd d" and r: "compute_absolute_layout rnd w h cells d = Some (d', l, TUI_OK)"
  obtains parsed where "parse_layout d = Inr parsed" "0 < cell_width cells" "0 < cell_height cells"
    "solution rnd (layout_env parsed w h cells) (frame_ids (z_buffer d)) (frame_layouts l)"
    "frame_dependencies l = dependency_pairs (frame_layouts l) (frame_ids (z_buffer d))"
    "solvable rnd (layout_env parsed w h cells) (frame_ids (z_buffer d))"
proof -
  let ?ids = "frame_ids (z_buffer d)"
  have c: "0 < cell_width cells" "0 < cell_height cells" using r by (auto simp: compute_absolute_layout_def split: if_splits)
  have s: "reported (solve_layout rnd d w h cells ?ids) = Some (l, TUI_OK)"
    using compute_uncached [OF d, of w h cells] compute_forgotten [OF c, of rnd w h d] r by simp
  have "parse_layout d \<noteq> Inl st" for st
  proof
    assume p: "parse_layout d = Inl st"
    then have "st \<noteq> TUI_OK" using parse_layout_error by blast
    then show False using s p by (simp add: solve_layout_def reported_def Let_def)
  qed
  then obtain parsed where p: "parse_layout d = Inr parsed" by (cases "parse_layout d") auto
  let ?env = "layout_env parsed w h cells"
  obtain order where "solution rnd ?env ?ids (frame_layouts l)" "frame_dependencies l = dependency_pairs (frame_layouts l) ?ids"
    "topological ?env order" "distinct order" "set order = set ?ids"
    using solve_layout_spec [OF p c refl, of rnd w h] s faulty_error by (auto simp: reported_def)
  then show thesis using that p c solution_solvable [OF layout_env_ok [OF p c]] by blast
qed

lemma placed_inside:
  assumes "placed rnd env sol i r"
  shows "rect_x r + rect_width r \<le> env_width env \<and> rect_y r + rect_height r \<le> env_height env"
proof -
  obtain p b where b: "size_frame rnd env p = Inr b" and
    q: "place_frame rnd env p b (Option.bind (anchor_of p True) sol) (Option.bind (anchor_of p False) sol) = Inr r"
    using assms by (auto simp: placed_def)
  note k = size_frame_ok [OF b, unfolded box_ok_def]
  obtain x y where "resolve_axis_origin rnd (placement_constraint p True) (env_width env) (box_left b) (box_right b) (box_width b) (Option.bind (anchor_of p True) sol) = Inr x"
    "resolve_axis_origin rnd (placement_constraint p False) (env_height env) (box_top b) (box_bottom b) (box_height b) (Option.bind (anchor_of p False) sol) = Inr y"
    "r = \<lparr>rect_x = x, rect_y = y, rect_width = box_width b, rect_height = box_height b\<rparr>"
    using q by (auto simp: place_frame_def split: sum.splits)
  then show ?thesis using k origin_bounds by (auto dest!: origin_bounds)
qed

lemma intersect_cells:
  assumes "rect_x a + rect_width a \<le> size_max" "rect_y a + rect_height a \<le> size_max" "rect_x b + rect_width b \<le> size_max" "rect_y b + rect_height b \<le> size_max"
  shows "rectangles_intersect a b \<longleftrightarrow> (\<exists>row column. inside a row column \<and> inside b row column)"
proof
  assume "rectangles_intersect a b"
  then have "inside a (max (rect_y a) (rect_y b)) (max (rect_x a) (rect_x b)) \<and> inside b (max (rect_y a) (rect_y b)) (max (rect_x a) (rect_x b))"
    using assms by (auto simp: rectangles_intersect_def inside_def)
  then show "\<exists>row column. inside a row column \<and> inside b row column" by blast
next
  assume "\<exists>row column. inside a row column \<and> inside b row column"
  then show "rectangles_intersect a b" using assms by (auto simp: rectangles_intersect_def inside_def)
qed

lemma dependency_pairs_exact:
  "set (dependency_pairs rects ids) = {(a, b). a < b \<and> b < length ids \<and> rectangles_intersect (the (rects (ids ! a))) (the (rects (ids ! b)))}"
  by (auto simp: dependency_pairs_def)

text \<open>Two frames, the second anchored to the first.\<close>

lemmas layout_evaluation = layout_history_def make_layout_description_def empty_zbuffer_def add_frame_to_layout_description_def z_add_def frame_ids_def
  invalidate_def add_frame_def make_name_constraint_def make_character_constraint_def validate_constraint_def is_edge_anchor_def is_size_def conflicting_def
  is_horizontal_placement_def is_vertical_placement_def add_constraint_to_frame_def frame_exists_def Let_def size_add_def size_max_def

definition demo_ops :: "unit layout_op list" where
  "demo_ops = [Add_Bare_Frame ''a'' (Some ()),
     Add_Frame ''b'' (Some ()) [make_name_constraint LEFT_ANCHOR ''a'', make_character_constraint MAX_WIDTH 10]]"

abbreviation demo_layout :: "unit layout_description" where
  "demo_layout \<equiv> layout_history id ''main'' demo_ops"

lemma demo_layout_content: "z_frames (z_buffer demo_layout) = [(''a'', ()), (''b'', ())]" 
  "constraints demo_layout = [(''a'', []), (''b'', [make_name_constraint LEFT_ANCHOR ''a'', make_character_constraint MAX_WIDTH 10])]"
  "order_cache_valid demo_layout = False" "cached_absolute demo_layout = None"
  by (simp_all add: demo_ops_def layout_evaluation order_cache_valid_def)

definition demo_parsed :: "string \<Rightarrow> parsed_constraints option" where
  "demo_parsed = [''a'' \<mapsto> Map.empty, ''b'' \<mapsto> [LEFT_ANCHOR \<mapsto> make_name_constraint LEFT_ANCHOR ''a'', MAX_WIDTH \<mapsto> make_character_constraint MAX_WIDTH 10]]"

lemma demo_layout_parsed: "parse_layout demo_layout = Inr demo_parsed"
  by (simp add: parse_layout_def frame_ids_def frame_exists_def demo_layout_content parse_constraints_def validate_constraint_def
     make_name_constraint_def make_character_constraint_def is_edge_anchor_def is_size_def is_horizontal_placement_def is_vertical_placement_def
     validate_bound_pair_def demo_parsed_def)
lemma demo_solved: "\<exists>l ord. solve_layout id demo_layout 80 24 \<lparr>cell_width = 8, cell_height = 16\<rparr> [''a'', ''b''] = Some (Inr (l, ord))"
  apply (simp add: solve_layout_def demo_layout_parsed frame_ids_def demo_layout_content Let_def)
  apply (simp add: new_solver_def demo_parsed_def resolve_unvisited_def Let_def resolve_reference_def size_frame_def resolve_axis_bounds_def resolve_measure_def apply_aspect_ratio_def
    place_frame_def resolve_axis_origin_def placement_constraint_def  make_name_constraint_def make_character_constraint_def named_origin_def clamp_origin_def 
    build_frame_dependencies_def)
  done

lemma demo_computed: "\<exists>d' l. compute_absolute_layout id 80 24 \<lparr>cell_width = 8, cell_height = 16\<rparr> demo_layout = Some (d', l, TUI_OK)"
  using demo_solved by (auto simp: compute_absolute_layout_def geometry_cached_def demo_layout_content frame_ids_def Let_def)

text \<open>
  C35: (safety) After any history of fewer than 2^64 operations on a layout description, a layout
  that is computed gives every frame of the z-buffer, and no other, a rectangle that lies on the
  screen; and the render dependencies are exactly the pairs of a frame and one in front of it that
  share a cell.
\<close>

theorem layout_within_screen:
  assumes "length ops \<le> size_max" and "w \<le> size_max" "h \<le> size_max"
    and "compute_absolute_layout rnd w h cells (layout_history rnd name ops) = Some (d', l, TUI_OK)"
  defines "ids \<equiv> frame_ids (z_buffer (layout_history rnd name ops))"
  shows "dom (frame_layouts l) = set ids \<and>
    (\<forall>i r. frame_layouts l i = Some r \<longrightarrow> rect_x r + rect_width r \<le> w \<and> rect_y r + rect_height r \<le> h) \<and>
    set (frame_dependencies l) = {(a, b). a < b \<and> b < length ids \<and>
      (\<exists>row column. inside (the (frame_layouts l (ids ! a))) row column \<and> inside (the (frame_layouts l (ids ! b))) row column)}"
proof -
  obtain parsed where s: "solution rnd (layout_env parsed w h cells) ids (frame_layouts l)" "frame_dependencies l = dependency_pairs (frame_layouts l) ids"
    using computed_spec [OF layout_history_ok [OF assms(1)] assms(4)] unfolding ids_def by blast
  have d: "dom (frame_layouts l) = set ids" using s(1) by (simp add: solution_def)
  have b: "rect_x r + rect_width r \<le> w \<and> rect_y r + rect_height r \<le> h" if "frame_layouts l i = Some r" for i r
  proof -
    have "i \<in> set ids" using that d by blast
    then have "placed rnd (layout_env parsed w h cells) (frame_layouts l) i r" using s(1) that by (metis solution_def option.sel)
    from placed_inside [OF this] show ?thesis by simp
  qed
  have "rectangles_intersect (the (frame_layouts l (ids ! a))) (the (frame_layouts l (ids ! b))) \<longleftrightarrow>
      (\<exists>row column. inside (the (frame_layouts l (ids ! a))) row column \<and> inside (the (frame_layouts l (ids ! b))) row column)"
    if "a < b" "b < length ids" for a b
  proof -
    have "ids ! a \<in> dom (frame_layouts l)" "ids ! b \<in> dom (frame_layouts l)" using d that by auto
    then obtain q r where "frame_layouts l (ids ! a) = Some q" "frame_layouts l (ids ! b) = Some r" by blast
    then show ?thesis using b [of "ids ! a"] b [of "ids ! b"] assms(2,3) by (intro intersect_cells) auto
  qed
  then show ?thesis using d b by (auto simp: s(2) dependency_pairs_exact)
qed

theorem layout_within_screen_witness:
  "\<exists>d' l. compute_absolute_layout id 80 24 \<lparr>cell_width = 8, cell_height = 16\<rparr> demo_layout = Some (d', l, TUI_OK) \<and>
    dom (frame_layouts l) = {''a'', ''b''} \<and> (\<forall>i r. frame_layouts l i = Some r \<longrightarrow> rect_x r + rect_width r \<le> 80 \<and> rect_y r + rect_height r \<le> 24)"
proof -
  obtain d' l where c: "compute_absolute_layout id 80 24 \<lparr>cell_width = 8, cell_height = 16\<rparr> demo_layout = Some (d', l, TUI_OK)"
    using demo_computed by blast
  have "length demo_ops \<le> size_max" "(80::nat) \<le> size_max" "(24::nat) \<le> size_max" by (simp_all add: demo_ops_def size_max_def)
  note k = layout_within_screen [OF this c]
  have "set (frame_ids (z_buffer demo_layout)) = {''a'', ''b''}" by (simp add: frame_ids_def demo_layout_content)
  with conjunct1 [OF k] have "dom (frame_layouts l) = {''a'', ''b''}" by (rule trans)
  then show ?thesis using c conjunct1 [OF conjunct2 [OF k]] by (intro exI conjI)
qed

text \<open>
  C36: (equivalence) After any history of fewer than 2^64 operations, computing a layout always
  returns, and returns the same layout and status as it would with the order cache and the geometry
  cache emptied.
\<close>

theorem layout_cache_transparent:
  assumes "length ops \<le> size_max"
  shows "compute_absolute_layout rnd w h cells (layout_history rnd name ops) \<noteq> None \<and>
    map_option snd (compute_absolute_layout rnd w h cells (layout_history rnd name ops)) =
    map_option snd (compute_absolute_layout rnd w h cells (forget (layout_history rnd name ops)))"
  using compute_returns compute_uncached [OF layout_history_ok [OF assms]] by blast

theorem layout_cache_transparent_witness:
  "compute_absolute_layout id 80 24 \<lparr>cell_width = 8, cell_height = 16\<rparr> demo_layout \<noteq> None \<and>
    map_option snd (compute_absolute_layout id 80 24 \<lparr>cell_width = 8, cell_height = 16\<rparr> demo_layout) =
    map_option snd (compute_absolute_layout id 80 24 \<lparr>cell_width = 8, cell_height = 16\<rparr> (forget demo_layout))"
  by (rule layout_cache_transparent) (simp add: demo_ops_def size_max_def)

text \<open>
  C37: (error) What computing a layout answers, after any history. Cells without a size give
  \<open>INVALID_DIMENSIONS\<close>, and constraints that do not parse give the error of the parser. With cells
  that have a size and constraints that parse, it succeeds exactly if the named anchors form no cycle,
  all refer to frames of the layout, and no frame size overflows; every frame is then placed by its own
  constraints from the final rectangles of the frames it is anchored to. Otherwise the status names one
  of these three faults, and the layout has that fault.
\<close>

theorem layout_solvable:
  assumes "length ops \<le> size_max"
    and "compute_absolute_layout rnd w h cells (layout_history rnd name ops) = Some (d', l, st)"
  defines "d \<equiv> layout_history rnd name ops" and "ids \<equiv> frame_ids (z_buffer (layout_history rnd name ops))"
  shows "if cell_width cells = 0 \<or> cell_height cells = 0 then st = INVALID_DIMENSIONS
    else case parse_layout d of
        Inl error \<Rightarrow> st = error \<and> error \<noteq> TUI_OK
      | Inr parsed \<Rightarrow>
          (st = TUI_OK \<longleftrightarrow> solvable rnd (layout_env parsed w h cells) ids) \<and>
          (st = TUI_OK \<longrightarrow> (\<forall>i \<in> set ids. placed rnd (layout_env parsed w h cells) (frame_layouts l) i (the (frame_layouts l i)))) \<and>
          (st \<noteq> TUI_OK \<longrightarrow> faulty rnd (layout_env parsed w h cells) ids st)"
proof (cases "cell_width cells = 0 \<or> cell_height cells = 0")
  case True
  then show ?thesis using assms(2) by (simp add: compute_absolute_layout_def)
next
  case False
  then have c: "0 < cell_width cells" "0 < cell_height cells" by simp_all
  note ok = layout_history_ok [OF assms(1), of rnd name, folded d_def]
  have s: "reported (solve_layout rnd d w h cells ids) = Some (l, st)"
    using compute_uncached [OF ok, of w h cells] compute_forgotten [OF c, of rnd w h d] assms(2) by (simp add: ids_def d_def)
  show ?thesis
  proof (cases "parse_layout d")
    case (Inl error)
    then show ?thesis using s parse_layout_error [OF Inl] False by (simp add: solve_layout_def reported_def Let_def)
  next
    case (Inr parsed)
    let ?env = "layout_env parsed w h cells"
    have "st \<noteq> TUI_OK \<longrightarrow> faulty rnd ?env ids st"
      using s solve_layout_spec [OF Inr c refl, of rnd w h] by (auto simp: reported_def ids_def d_def)
    moreover have "solvable rnd ?env ids \<and> (\<forall>i \<in> set ids. placed rnd ?env (frame_layouts l) i (the (frame_layouts l i)))" if st: "st = TUI_OK"
    proof -
      obtain q where "parse_layout d = Inr q" "solution rnd (layout_env q w h cells) ids (frame_layouts l)" "solvable rnd (layout_env q w h cells) ids"
        using computed_spec [OF ok assms(2) [unfolded st, folded d_def]] unfolding ids_def d_def by blast
      then show ?thesis using Inr by (simp add: solution_def)
    qed
    ultimately show ?thesis using solvable_iff Inr False by (simp, blast)
  qed
qed

theorem layout_solvable_witness:
  "solvable id (layout_env demo_parsed 80 24 \<lparr>cell_width = 8, cell_height = 16\<rparr>) (frame_ids (z_buffer demo_layout))"
proof -
  obtain d' l where c: "compute_absolute_layout id 80 24 \<lparr>cell_width = 8, cell_height = 16\<rparr> demo_layout = Some (d', l, TUI_OK)"
    using demo_computed by blast
  have "length demo_ops \<le> size_max" by (simp add: demo_ops_def size_max_def)
  from layout_solvable [OF this c] show ?thesis by (simp add: demo_layout_parsed)
qed

end
