(* ===== verification/Selection_Correct.thy ===== *)
theory Selection_Correct
  imports Z_Buffer Frames_Correct Editor_Correct
begin

text \<open>
  The selection state machine over a screen of input frames: the contract of \<open>Z_Buffer\<close> holds of
  the frames that \<open>Input_Frame\<close> models, so that at most one frame shows a selection.
\<close>

definition send_to_frame :: "'f \<Rightarrow> selection_event \<Rightarrow> ('f \<Rightarrow> 't input_frame) \<Rightarrow> (('f \<Rightarrow> 't input_frame) \<times> tui_status) option" where
  "send_to_frame f ev s = map_option (\<lambda>(g, st). (s(f := g), st)) (if_update_selection ev (s f))"

definition screen_frames :: "('f, 'f \<Rightarrow> 't input_frame) selection_ops" where
  "screen_frames = \<lparr>is_selectable = (\<lambda>f s. \<not> terminal_visible (s f)), send_selection = send_to_frame, get_selected_text = (\<lambda>f s. if_selected_text (s f))\<rparr>"

text \<open>The editors whose selection a frame shows; a terminal hides both.\<close>

definition shows_selection :: "'t input_frame \<Rightarrow> bool" where
  "shows_selection f = (case if_mode f of
     NORMAL_MODE \<Rightarrow> ed_selection (tif_editor (normal_input f)) \<noteq> None
   | COMMAND_MODE \<Rightarrow> ed_selection (tif_editor (cmd_input (command_frame f))) \<noteq> None
   | TERMINAL_MODE \<Rightarrow> ed_selection (tif_editor (normal_input f)) \<noteq> None \<or> ed_selection (tif_editor (cmd_input (command_frame f))) \<noteq> None)"

lemma editor_rejects: "update_selection ev e = Some (e', st) \<Longrightarrow> st \<noteq> TUI_OK \<Longrightarrow> e' = e"
  by (auto simp: update_selection_def Let_def split: if_splits option.splits prod.splits)

lemma editor_resets: "update_selection ev e = Some (e', st) \<Longrightarrow> selection_type ev = RESET \<Longrightarrow> st = TUI_OK \<and> ed_selection e' = None"
  by (auto simp: update_selection_def reset_selection_def)

lemma tif_rejects: "tif_update_selection ev f = Some (f', st) \<Longrightarrow> st \<noteq> TUI_OK \<Longrightarrow> f' = f"
  by (auto simp: tif_update_selection_def dest: editor_rejects)

lemma tif_resets: "tif_update_selection ev f = Some (f', st) \<Longrightarrow> selection_type ev = RESET \<Longrightarrow> st = TUI_OK \<and> ed_selection (tif_editor f') = None"
  by (auto simp: tif_update_selection_def dest: editor_resets)

lemma translate_type [simp]: "selection_type (translate_event t ev) = selection_type ev"
  by (simp add: translate_event_def)

lemmas frame_selection = if_update_selection_def Let_def set_normal_view_def set_command_view_def normal_view_def command_view_def
  bounding_ops_def annotated_ops_def ann_update_selection_def text_frame_ops_def text_frame_source_def frame_ops.defs cmd_ops_def cmd_parts_def set_cmd_parts_def

lemma frame_rejects:
  assumes "if_update_selection ev f = Some (f', st)" and "st \<noteq> TUI_OK"
  shows "shows_selection f' = shows_selection f"
proof (cases "if_mode f = TERMINAL_MODE \<and> selection_type ev = RESET")
  case True
  then have False using assms by (auto simp: frame_selection split: bind_splits if_splits prod.splits dest: tif_resets)
  then show ?thesis ..
next
  case False
  then show ?thesis using assms
    by (cases "if_mode f") (auto simp: frame_selection shows_selection_def dest!: tif_rejects)
qed

lemma frame_resets: "if_update_selection reset_event f = Some (f', TUI_OK) \<Longrightarrow> \<not> shows_selection f'"
  by (cases "if_mode f")
    (auto simp: frame_selection shows_selection_def reset_event_def split: bind_splits if_splits prod.splits dest!: tif_resets)

text \<open>
  Frames whose editors are well formed and not scrolled past their last row, as the histories of
  \<open>Editor_Correct\<close> leave them, answer every selection event without an access out of bounds.
\<close>

definition editors_settled :: "'t input_frame \<Rightarrow> bool" where
  "editors_settled f \<longleftrightarrow> settled (tif_editor (normal_input f)) \<and> settled (tif_editor (cmd_input (command_frame f)))"

lemma tif_answers:
  assumes "settled (tif_editor f)"
  shows "\<exists>f' st. tif_update_selection ev f = Some (f', st) \<and> settled (tif_editor f')"
  using update_selection_settled [OF assms, of ev] by (auto simp: tif_update_selection_def)

lemma frame_answers:
  assumes "editors_settled f"
  shows "\<exists>f' st. if_update_selection ev f = Some (f', st) \<and> editors_settled f'"
proof -
  have n: "\<exists>i st. tif_update_selection ev' (normal_input f) = Some (i, st) \<and> settled (tif_editor i)" for ev'
    using assms by (intro tif_answers) (simp add: editors_settled_def)
  have c: "\<exists>i st. tif_update_selection ev' (cmd_input (command_frame f)) = Some (i, st) \<and> settled (tif_editor i)" for ev'
    using assms by (intro tif_answers) (simp add: editors_settled_def)
  show ?thesis
  proof (cases "if_mode f")
    case NORMAL_MODE
    then show ?thesis using n [of "translate_event (ann_translate (normal_annotated f)) (translate_event (bnd_translate (normal_bounding f)) ev)"] assms
      by (auto simp: frame_selection editors_settled_def)
  next
    case COMMAND_MODE
    then show ?thesis using c [of "translate_event (ann_translate (cmd_annotated (command_frame f))) (translate_event (bnd_translate (command_bounding f)) ev)"] assms
      by (auto simp: frame_selection editors_settled_def)
  next
    case TERMINAL_MODE
    then show ?thesis using n [of ev] c [of "translate_event (ann_translate (cmd_annotated (command_frame f))) ev"] assms
      by (auto simp: frame_selection editors_settled_def)
  qed
qed

lemma send_answers:
  assumes "\<forall>g. editors_settled (s g)"
  shows "\<exists>s' st. send_to_frame f ev s = Some (s', st) \<and> (\<forall>g. editors_settled (s' g))"
proof -
  obtain g st where "if_update_selection ev (s f) = Some (g, st)" "editors_settled g" using frame_answers assms by blast
  then show ?thesis using assms by (simp add: send_to_frame_def)
qed

interpretation screen: selectable_frames screen_frames "\<lambda>f s. shows_selection (s f)" "\<lambda>s. \<forall>f. editors_settled (s f)"
proof unfold_locales
  show "\<exists>s' st. send_selection screen_frames f ev s = Some (s', st) \<and> (\<forall>f. editors_settled (s' f))"
    if "\<forall>f. editors_settled (s f)" for s :: "'f \<Rightarrow> 't input_frame" and f ev
    using send_answers [OF that] by (simp add: screen_frames_def)
qed (auto simp: screen_frames_def send_to_frame_def frame_rejects frame_resets)

text \<open>
  C38: (invariant) Whatever selection events the state machine routes to the input frames of a
  screen, in any order and with any of them rejected, at most one frame shows a selection: it is the
  active one, the machine is not idle then, and a selection that was completed is the one copied.
  When the editors of the frames are settled to begin with, every such sequence of events is
  answered without an access out of bounds; from other states (see the findings) an event may read
  outside the rows of an editor, and the claim is about the sequences in which none did.
\<close>

theorem one_selection:
  assumes "\<forall>f. \<not> shows_selection (s f)"
  shows "((\<forall>f. editors_settled (s f)) \<longrightarrow> sel_history screen_frames evs (new_selection_machine, s) \<noteq> None) \<and>
    (\<forall>m s' f. sel_history screen_frames evs (new_selection_machine, s) = Some (m, s') \<longrightarrow> shows_selection (s' f) \<longrightarrow>
      (\<forall>g. shows_selection (s' g) \<longleftrightarrow> g = f) \<and> machine_phase m \<noteq> PHASE_NONE \<and> active_frame m = Some f \<and>
      (machine_phase m = COMPLETE \<longrightarrow> sel_selected_text screen_frames m s' = if_selected_text (s' f)))"
proof (intro conjI impI allI)
  show "sel_history screen_frames evs (new_selection_machine, s) \<noteq> None" if "\<forall>f. editors_settled (s f)"
    using screen.history_answers [of "(new_selection_machine, s)" evs] that by auto
  fix m s' f assume h: "sel_history screen_frames evs (new_selection_machine, s) = Some (m, s')" and f: "shows_selection (s' f)"
  have "screen.single (new_selection_machine, s)" using assms by (simp add: screen.single_def new_selection_machine_def)
  from screen.history_single [OF this h] have "screen.single (m, s')" .
  then have k: "machine_phase m \<noteq> PHASE_NONE" "active_frame m = Some f" "\<forall>g. shows_selection (s' g) \<longrightarrow> active_frame m = Some g"
    using f by (auto simp: screen.single_def)
  show "shows_selection (s' g) \<longleftrightarrow> g = f" for g using k(2) k(3) [rule_format, of g] f by auto
  show "machine_phase m \<noteq> PHASE_NONE" "active_frame m = Some f" by (fact k)+
  show "sel_selected_text screen_frames m s' = if_selected_text (s' f)" if "machine_phase m = COMPLETE"
    using k that by (simp add: sel_selected_text_def screen_frames_def)
qed

definition demo_events :: "(string \<times> bool option \<times> selection_event) list" where
  "demo_events = [(''a'', Some True, reset_event\<lparr>selection_type := SELECT_ALL_TEXT\<rparr>), (''b'', Some False, reset_event\<lparr>selection_type := SELECT_ALL_TEXT\<rparr>)]"

abbreviation demo_screen :: "(bool selection_machine \<times> (bool \<Rightarrow> unit input_frame)) option" where
  "demo_screen \<equiv> sel_history screen_frames demo_events (new_selection_machine, \<lambda>_. sample_input)"

lemma sample_settled: "editors_settled sample_input"
proof -
  have "settled (insert_utf8 [0x61, 0x62] (new_editor default_editor_options))"
    by (intro insert_utf8_settled new_editor_settled)
  then show ?thesis using new_editor_settled by (simp add: editors_settled_def sample_input_def new_input_frame_def new_cmd_frame_def new_text_frame_def)
qed

theorem one_selection_witness:
  "\<exists>m s'. demo_screen = Some (m, s') \<and> shows_selection (s' False) \<and> \<not> shows_selection (s' True) \<and> active_frame m = Some False"
proof -
  have "\<not> shows_selection sample_input" by code_simp
  then have s: "\<forall>f :: bool. \<not> shows_selection ((\<lambda>_. sample_input) f)" by simp
  note k = one_selection [OF s, of demo_events]
  obtain m s' where d: "demo_screen = Some (m, s')" using k sample_settled by (metis not_None_eq prod.exhaust)
  have "shows_selection (snd (the demo_screen) False)" by code_simp
  then have f: "shows_selection (s' False)" using d by simp
  show ?thesis using conjunct2 [OF k, rule_format, OF d f] d f by blast
qed

end
