(* ===== verification/Parallel_Render.thy ===== *)
theory Parallel_Render
  imports Layout_History Frames_Correct Dependency_Graph
begin

text \<open>
  \<open>rendering/renderer.cpp\<close>: one canvas transaction drawn by a graph of jobs, one for each frame,
  ordered by the overlaps of the layout. The frames' objects are a store; \<open>draw\<close> is their virtual
  method. A job draws its frame and then records its completion under a lock; jobs of frames that
  do not overlap interleave in any order, and the last one publishes or cancels.
\<close>

section \<open>\<open>RenderContext\<close>\<close>

record 'f render_context =
  ctx_inputs :: "('f layout_description \<times> absolute_layout \<times> tui_theme) option"
  ctx_status :: tui_status
  remaining_frames :: nat
  ctx_published :: bool

definition new_context :: "'f render_context" where
  "new_context = \<lparr>ctx_inputs = None, ctx_status = TUI_OK, remaining_frames = 0, ctx_published = False\<rparr>"

definition prepare_context :: "'f layout_description \<Rightarrow> absolute_layout \<Rightarrow> tui_theme \<Rightarrow> nat \<Rightarrow> 'f render_context \<Rightarrow> 'f render_context" where
  "prepare_context d l theme frame_count ctx =
     ctx\<lparr>ctx_inputs := Some (d, l, theme), ctx_status := TUI_OK, remaining_frames := frame_count, ctx_published := False\<rparr>"

definition publish :: "'f render_context \<times> canvas \<Rightarrow> 'f render_context \<times> canvas" where
  "publish xc =
     (case xc of (ctx, c) \<Rightarrow>
      case (if ctx_status ctx = TUI_OK then end_frame c else cancel_frame c) of (c', transaction_status) \<Rightarrow>
        (ctx\<lparr>ctx_status := (if ctx_status ctx = TUI_OK then transaction_status else ctx_status ctx), ctx_published := True\<rparr>, c'))"

definition finish_frame :: "tui_status \<Rightarrow> 'f render_context \<times> canvas \<Rightarrow> 'f render_context \<times> canvas" where
  "finish_frame frame_status xc =
     (case xc of (ctx, c) \<Rightarrow>
      let status = (if ctx_status ctx = TUI_OK \<and> frame_status \<noteq> TUI_OK then frame_status else ctx_status ctx) in
      if remaining_frames ctx = 0 then (ctx\<lparr>ctx_status := (if status = TUI_OK then ASYNC_DISPATCH_FAILED else status)\<rparr>, c)
      else let ctx' = ctx\<lparr>ctx_status := status, remaining_frames := remaining_frames ctx - 1\<rparr>
        in if remaining_frames ctx' = 0 then publish (ctx', c) else (ctx', c))"

text \<open>A method of a frame object, on the store of all of them.\<close>

definition store_draw :: "('f \<Rightarrow> tui_theme \<Rightarrow> rect \<Rightarrow> 's \<times> canvas \<Rightarrow> ('s \<times> canvas) \<times> tui_status) \<Rightarrow> 'f \<Rightarrow> tui_theme \<Rightarrow> rect \<Rightarrow>
    ('f \<Rightarrow> 's) \<times> canvas \<Rightarrow> (('f \<Rightarrow> 's) \<times> canvas) \<times> tui_status" where
  "store_draw draw f theme r wc = (case draw f theme r (fst wc f, snd wc) of ((s, c), st) \<Rightarrow> (((fst wc)(f := s), c), st))"

text \<open>\<open>render()\<close> up to its call of \<open>finish_frame()\<close>; jobs run only between \<open>prepare()\<close> and \<open>reset()\<close>.\<close>

definition render_frame :: "('f \<Rightarrow> tui_theme \<Rightarrow> rect \<Rightarrow> 's \<times> canvas \<Rightarrow> ('s \<times> canvas) \<times> tui_status) \<Rightarrow> nat \<Rightarrow> 'f render_context \<Rightarrow>
    ('f \<Rightarrow> 's) \<times> canvas \<Rightarrow> (('f \<Rightarrow> 's) \<times> canvas) \<times> tui_status" where
  "render_frame draw frame_index ctx wc =
     (case ctx_inputs ctx of
        None \<Rightarrow> (wc, FRAME_NOT_FOUND)
      | Some (d, l, theme) \<Rightarrow>
          if frame_index \<ge> length (z_frames (z_buffer d)) then (wc, FRAME_NOT_FOUND)
          else case z_frames (z_buffer d) ! frame_index of (frame_id, f) \<Rightarrow>
            (case frame_layouts l frame_id of None \<Rightarrow> (wc, FRAME_NOT_FOUND) | Some r \<Rightarrow> store_draw draw f theme r wc))"

definition cancel_after_graph_failure :: "'f render_context \<times> canvas \<Rightarrow> ('f render_context \<times> canvas) \<times> tui_status" where
  "cancel_after_graph_failure xc =
     (case xc of (ctx, c) \<Rightarrow>
      let ctx' = (if ctx_status ctx = TUI_OK then ctx\<lparr>ctx_status := ASYNC_DISPATCH_FAILED\<rparr> else ctx);
          c' = (if ctx_published ctx then c else fst (cancel_frame c))
      in ((ctx', c'), ctx_status ctx'))"

definition reset_context :: "'f render_context \<Rightarrow> 'f render_context" where
  "reset_context ctx = ctx\<lparr>ctx_inputs := None, remaining_frames := 0\<rparr>"

definition map_graph_status :: "graph_status \<Rightarrow> tui_status" where
  "map_graph_status status = (if status = GRAPH_OK then TUI_OK else if status = GRAPH_INVALID_ARGUMENT then TUI_INVALID_ARGUMENT else ASYNC_DISPATCH_FAILED)"

section \<open>\<open>ParallelRenderer\<close>\<close>

record 'f renderer =
  render_ctx :: "'f render_context"
  render_graph :: "nat dependency_graph option"
  render_topology :: "(nat \<times> (nat \<times> nat) list) option"
  render_active :: bool

definition new_renderer :: "'f renderer" where
  "new_renderer = \<lparr>render_ctx = new_context, render_graph = None, render_topology = None, render_active = False\<rparr>"

fun add_frame_nodes :: "nat list \<Rightarrow> nat dependency_graph \<Rightarrow> tui_status + nat dependency_graph" where
  "add_frame_nodes [] g = Inr g"
| "add_frame_nodes (i # is) g =
     (case add_node i g of (g', status) \<Rightarrow> if status \<noteq> GRAPH_OK then Inl (map_graph_status status) else add_frame_nodes is g')"

fun add_frame_dependencies :: "nat \<Rightarrow> (nat \<times> nat) list \<Rightarrow> nat dependency_graph \<Rightarrow> tui_status + nat dependency_graph" where
  "add_frame_dependencies frame_count [] g = Inr g"
| "add_frame_dependencies frame_count ((earlier, later) # deps) g =
     (if earlier \<ge> frame_count \<or> later \<ge> frame_count \<or> earlier \<ge> later then Inl TUI_INVALID_ARGUMENT
      else case add_dependency earlier later g of (g', status) \<Rightarrow>
        if status \<noteq> GRAPH_OK then Inl (map_graph_status status) else add_frame_dependencies frame_count deps g')"

text \<open>A layout without frames has one job, which publishes.\<close>

definition prepare_graph :: "nat \<Rightarrow> (nat \<times> nat) list \<Rightarrow> 'f renderer \<Rightarrow> 'f renderer \<times> tui_status" where
  "prepare_graph frame_count deps R =
     (if render_topology R = Some (frame_count, deps) then (R, TUI_OK)
      else case add_frame_nodes (if frame_count = 0 then [0] else [0..<frame_count]) empty_graph of
          Inl status \<Rightarrow> (R, status)
        | Inr g \<Rightarrow>
            (case add_frame_dependencies frame_count deps g of
               Inl status \<Rightarrow> (R, status)
             | Inr g' \<Rightarrow> (R\<lparr>render_graph := Some g', render_topology := Some (frame_count, deps)\<rparr>, TUI_OK)))"

text \<open>What \<open>ExecutionGraph::start()\<close> answers on an idle graph before it schedules the roots.\<close>

definition graph_start :: "bool \<Rightarrow> nat dependency_graph \<Rightarrow> (nat dependency_graph \<times> graph_status) option" where
  "graph_start workers_active g =
     (if \<not> workers_active then Some (g, GRAPH_INVALID_ARGUMENT) else map_option (\<lambda>(g', status, _). (g', status)) (snapshot g))"

text \<open>
  \<open>start()\<close>: the activity of the worker pool is asked twice. \<open>None\<close> is a validation of the graph
  that does not return.
\<close>

definition covers_frames :: "'f layout_description \<Rightarrow> absolute_layout \<Rightarrow> bool" where
  "covers_frames d l \<longleftrightarrow> card (dom (frame_layouts l)) = length (z_frames (z_buffer d)) \<and>
     (\<forall>i \<in> set (frame_ids (z_buffer d)). frame_layouts l i \<noteq> None)"

definition begin_batch :: "cell option \<Rightarrow> canvas \<Rightarrow> canvas \<times> tui_status" where
  "begin_batch base_cell c =
     (case begin_frame c of (c1, status) \<Rightarrow>
        if status \<noteq> TUI_OK then (c1, status)
        else case base_cell of
            None \<Rightarrow> (c1, TUI_OK)
          | Some v \<Rightarrow> (case canvas_clear v c1 of (c2, status') \<Rightarrow>
              if status' \<noteq> TUI_OK then (fst (cancel_frame c2), status') else (c2, TUI_OK)))"

definition render_start :: "bool \<Rightarrow> bool \<Rightarrow> 'f layout_description option \<Rightarrow> absolute_layout \<Rightarrow> tui_theme \<Rightarrow> cell option \<Rightarrow>
    'f renderer \<Rightarrow> canvas option \<Rightarrow> (('f renderer \<times> canvas option) \<times> tui_status) option" where
  "render_start active_before active_after layout_description l theme base_cell R canvas =
     (if render_active R then Some ((R, canvas), FRAME_ALREADY_IN_PROGRESS)
      else case (layout_description, canvas) of
          (Some d, Some c) \<Rightarrow>
            if \<not> active_before then Some ((R, canvas), TUI_INVALID_ARGUMENT)
            else if \<not> covers_frames d l then Some ((R, canvas), FRAME_NOT_FOUND)
            else (case prepare_graph (length (z_frames (z_buffer d))) (frame_dependencies l) R of (R1, status) \<Rightarrow>
              if status \<noteq> TUI_OK then Some ((R1, canvas), status)
              else case begin_batch base_cell c of (c1, status') \<Rightarrow>
                if status' \<noteq> TUI_OK then Some ((R1, Some c1), status')
                else let ctx = prepare_context d l theme (length (z_frames (z_buffer d))) (render_ctx R1) in
                  case graph_start active_after (the (render_graph R1)) of
                    None \<Rightarrow> None
                  | Some (g, graph_status) \<Rightarrow>
                      if graph_status \<noteq> GRAPH_OK
                      then case cancel_after_graph_failure (ctx, c1) of ((ctx', c2), _) \<Rightarrow>
                        Some ((R1\<lparr>render_ctx := reset_context ctx', render_graph := Some g\<rparr>, Some c2), map_graph_status graph_status)
                      else Some ((R1\<lparr>render_ctx := ctx, render_graph := Some g, render_active := True\<rparr>, Some c1), TUI_OK))
        | _ \<Rightarrow> Some ((R, canvas), TUI_INVALID_ARGUMENT))"

text \<open>\<open>wait()\<close>, after \<open>ExecutionGraph::wait()\<close> returned \<open>graph_status\<close>.\<close>

definition render_wait :: "graph_status \<Rightarrow> 'f renderer \<times> canvas \<Rightarrow> ('f renderer \<times> canvas) \<times> tui_status" where
  "render_wait graph_status Rc =
     (case Rc of (R, c) \<Rightarrow>
        if \<not> render_active R then (Rc, TUI_OK)
        else case (if graph_status = GRAPH_OK then ((render_ctx R, c), ctx_status (render_ctx R)) else cancel_after_graph_failure (render_ctx R, c)) of
          ((ctx, c'), status) \<Rightarrow> ((R\<lparr>render_ctx := reset_context ctx, render_active := False\<rparr>, c'), status))"

section \<open>Interleavings of the jobs\<close>

datatype render_step = Draw_Step nat | Finish_Step nat | Publish_Step

record ('f, 's) batch =
  batch_ctx :: "'f render_context"
  batch_store :: "'f \<Rightarrow> 's"
  batch_canvas :: canvas
  frame_status :: "nat \<Rightarrow> tui_status"

fun render_exec :: "('f \<Rightarrow> tui_theme \<Rightarrow> rect \<Rightarrow> 's \<times> canvas \<Rightarrow> ('s \<times> canvas) \<times> tui_status) \<Rightarrow> render_step \<Rightarrow> ('f, 's) batch \<Rightarrow> ('f, 's) batch" where
  "render_exec draw (Draw_Step i) b =
     (case render_frame draw i (batch_ctx b) (batch_store b, batch_canvas b) of ((w, c), status) \<Rightarrow>
        b\<lparr>batch_store := w, batch_canvas := c, frame_status := (frame_status b)(i := status)\<rparr>)"
| "render_exec draw (Finish_Step i) b =
     (case finish_frame (frame_status b i) (batch_ctx b, batch_canvas b) of (ctx, c) \<Rightarrow> b\<lparr>batch_ctx := ctx, batch_canvas := c\<rparr>)"
| "render_exec draw Publish_Step b =
     (case publish (batch_ctx b, batch_canvas b) of (ctx, c) \<Rightarrow> b\<lparr>batch_ctx := ctx, batch_canvas := c\<rparr>)"

text \<open>
  What \<open>ExecutionGraph\<close> promises of a run that completes: every job runs once, and begins only
  after the jobs it depends on have finished.
\<close>

definition frame_schedule :: "nat dependency_graph \<Rightarrow> nat \<Rightarrow> render_step list \<Rightarrow> bool" where
  "frame_schedule g n steps \<longleftrightarrow>
     (if n = 0 then steps = [Publish_Step]
      else distinct steps \<and> set steps = Draw_Step ` {..<n} \<union> Finish_Step ` {..<n} \<and>
        (\<forall>xs i ys. steps = xs @ Finish_Step i # ys \<longrightarrow> Draw_Step i \<in> set xs) \<and>
        (\<forall>xs i ys. steps = xs @ Draw_Step i # ys \<longrightarrow> (\<forall>p. (p, i) \<in> edges (dependents g) \<longrightarrow> Finish_Step p \<in> set xs)))"

end
