(* ===== verification/Render_Correct.thy ===== *)
theory Render_Correct
  imports Parallel_Render
begin

text \<open>
  Drawing the frames of a layout in parallel gives the image of drawing them one after another from
  back to front. The contract of a frame is a locale: it writes inside its rectangle, and what it
  does depends on its own state and the size of the canvas only. The input frame satisfies it.
\<close>

section \<open>Oblivious drawing\<close>

text \<open>Two canvases in a transaction that agree on a set of cells.\<close>

definition agree :: "(nat \<Rightarrow> nat \<Rightarrow> bool) \<Rightarrow> canvas \<Rightarrow> canvas \<Rightarrow> bool" where
  "agree X c c2 \<longleftrightarrow> canvas_wf c \<and> canvas_wf c2 \<and> frame_in_progress c \<and> frame_in_progress c2 \<and>
     canvas_width c2 = canvas_width c \<and> canvas_height c2 = canvas_height c \<and>
     (\<forall>row column. X row column \<longrightarrow> working c2 row column = working c row column)"

definition oblivious :: "('s \<times> canvas \<Rightarrow> ('s \<times> canvas) \<times> tui_status) \<Rightarrow> bool" where
  "oblivious d \<longleftrightarrow> (\<forall>X s c c2 s' c' st. agree X c c2 \<longrightarrow> d (s, c) = ((s', c'), st) \<longrightarrow>
     (\<exists>c2'. d (s, c2) = ((s', c2'), st) \<and> agree X c' c2'))"

lemma write_agree:
  assumes a: "agree X c c2" and w: "write_cells r cells c = (c', st)"
  shows "\<exists>c2'. write_cells r cells c2 = (c2', st) \<and> agree X c' c2'"
proof -
  obtain c2' st2 where w2: "write_cells r cells c2 = (c2', st2)" by fastforce
  have "st2 = st" using a w w2 by (auto simp: agree_def write_cells_def split: if_splits)
  show ?thesis
  proof (cases "st = TUI_OK")
    case True
    have wf: "canvas_wf c" "canvas_wf c2" using a by (simp_all add: agree_def)
    note ok = write_cells_ok [OF wf(1) w [unfolded True]] and ok2 = write_cells_ok [OF wf(2) w2 [unfolded \<open>st2 = st\<close> True]]
    have "agree X c' c2'" using a ok ok2 by (simp add: agree_def overlay_def)
    then show ?thesis using w2 \<open>st2 = st\<close> by blast
  next
    case False
    then have "c' = c" "c2' = c2" using write_cells_refused w w2 \<open>st2 = st\<close> by blast+
    then show ?thesis using w2 \<open>st2 = st\<close> a by blast
  qed
qed

lemma end_frame_image: "frame_in_progress c \<Longrightarrow> end_frame c = (c', st) \<Longrightarrow> st = TUI_OK \<and> \<not> frame_in_progress c' \<and> published c' = working c"
  by (auto simp: end_frame_def published_def working_def get_drawable_buffer_def writable_buffer_def)

lemma published_progress [simp]: "published (c\<lparr>frame_in_progress := x\<rparr>) = published c"
  by (simp add: published_def get_drawable_buffer_def)

locale concurrent_frames =
  fixes draw :: "'f \<Rightarrow> tui_theme \<Rightarrow> rect \<Rightarrow> 's \<times> canvas \<Rightarrow> ('s \<times> canvas) \<times> tui_status"
  assumes draw_inside: "canvas_wf c \<Longrightarrow> draw f theme r (s, c) = ((s', c'), st) \<Longrightarrow> confined r c c'"
    and draw_oblivious: "oblivious (draw f theme r)"
begin

text \<open>Drawing the first frames in order, whatever their results.\<close>

primrec painted :: "tui_theme \<Rightarrow> (nat \<Rightarrow> 'f) \<Rightarrow> (nat \<Rightarrow> rect) \<Rightarrow> ('f \<Rightarrow> 's) \<times> canvas \<Rightarrow> nat \<Rightarrow> ('f \<Rightarrow> 's) \<times> canvas" where
  "painted theme fh rc wc 0 = wc"
| "painted theme fh rc wc (Suc k) = fst (store_draw draw (fh k) theme (rc k) (painted theme fh rc wc k))"

definition paint_status :: "tui_theme \<Rightarrow> (nat \<Rightarrow> 'f) \<Rightarrow> (nat \<Rightarrow> rect) \<Rightarrow> ('f \<Rightarrow> 's) \<times> canvas \<Rightarrow> nat \<Rightarrow> tui_status" where
  "paint_status theme fh rc wc k = snd (store_draw draw (fh k) theme (rc k) (painted theme fh rc wc k))"

lemma painted_canvas:
  assumes "canvas_wf (snd wc)"
  shows "canvas_wf (snd (painted theme fh rc wc k)) \<and> canvas_width (snd (painted theme fh rc wc k)) = canvas_width (snd wc) \<and>
    canvas_height (snd (painted theme fh rc wc k)) = canvas_height (snd wc) \<and>
    frame_in_progress (snd (painted theme fh rc wc k)) = frame_in_progress (snd wc) \<and>
    published (snd (painted theme fh rc wc k)) = published (snd wc)"
proof (induction k)
  case (Suc k)
  let ?p = "painted theme fh rc wc k"
  obtain s c st where d: "draw (fh k) theme (rc k) (fst ?p (fh k), snd ?p) = ((s, c), st)" by (metis prod.collapse)
  from draw_inside [OF _ d] Suc have "confined (rc k) (snd ?p) c" by blast
  then show ?case using Suc d by (simp add: store_draw_def confined_def)
qed (use assms in simp)

lemma painted_outside:
  assumes "canvas_wf (snd wc)" and "i \<le> k" and "\<And>j. i \<le> j \<Longrightarrow> j < k \<Longrightarrow> \<not> inside (rc j) row column"
  shows "working (snd (painted theme fh rc wc k)) row column = working (snd (painted theme fh rc wc i)) row column"
  using assms(2,3)
proof (induction k)
  case (Suc k)
  show ?case
  proof (cases "i = Suc k")
    case False
    let ?p = "painted theme fh rc wc k"
    obtain s c st where d: "draw (fh k) theme (rc k) (fst ?p (fh k), snd ?p) = ((s, c), st)" by (metis prod.collapse)
    have "confined (rc k) (snd ?p) c" using draw_inside [OF _ d] painted_canvas [OF assms(1)] by blast
    moreover have "\<not> inside (rc k) row column" using Suc.prems False by simp
    ultimately have "working c row column = working (snd ?p) row column" by (simp add: confined_def)
    then show ?thesis using Suc d False by (simp add: store_draw_def)
  qed simp
qed simp

lemma painted_store:
  assumes "inj_on fh {..<n}" and "k \<le> n"
  shows "fst (painted theme fh rc wc k) f = (if \<exists>i < k. f = fh i then fst (painted theme fh rc wc n) f else fst wc f)"
proof -
  have step: "fst (painted theme fh rc wc (Suc j)) g = fst (painted theme fh rc wc j) g" if "g \<noteq> fh j" for j g
    using that by (simp add: store_draw_def split: prod.split)
  have "fst (painted theme fh rc wc j) g = fst (painted theme fh rc wc i) g" if "i \<le> j" "\<forall>m. i \<le> m \<and> m < j \<longrightarrow> g \<noteq> fh m" for i j g
    using that
  proof (induction j)
    case (Suc j)
    then show ?case using step [of g j] by (cases "i = Suc j") (auto simp: le_Suc_eq simp del: painted.simps)
  qed (simp del: painted.simps)
  note keep = this
  show ?thesis
  proof (cases "\<exists>i < k. f = fh i")
    case True
    then obtain i where i: "i < k" "f = fh i" by blast
    have "f \<noteq> fh m" if "k \<le> m" "m < n" for m using inj_onD [OF assms(1), of i m] i that assms(2) by auto
    then show ?thesis using keep [OF assms(2)] True by (simp del: painted.simps)
  next
    case False
    then show ?thesis using keep [of 0 k f] by auto
  qed
qed

section \<open>One interleaving\<close>

text \<open>
  The frames drawn and the frames finished so far: every cell shows what the frames drawn on it
  leave when they are drawn in order.
\<close>

definition drawing :: "tui_theme \<Rightarrow> (nat \<Rightarrow> 'f) \<Rightarrow> (nat \<Rightarrow> rect) \<Rightarrow> nat \<Rightarrow> ('f \<Rightarrow> 's) \<times> canvas \<Rightarrow> nat set \<Rightarrow> ('f, 's) batch \<Rightarrow> bool" where
  "drawing theme fh rc n wc drawn b \<longleftrightarrow>
     canvas_wf (batch_canvas b) \<and> canvas_width (batch_canvas b) = canvas_width (snd wc) \<and> canvas_height (batch_canvas b) = canvas_height (snd wc) \<and>
     frame_in_progress (batch_canvas b) \<and> published (batch_canvas b) = published (snd wc) \<and>
     (\<forall>row column k. k \<le> n \<and> (\<forall>j < n. inside (rc j) row column \<longrightarrow> (j \<in> drawn \<longleftrightarrow> j < k)) \<longrightarrow>
        working (batch_canvas b) row column = working (snd (painted theme fh rc wc k)) row column) \<and>
     (\<forall>f. batch_store b f = (if \<exists>i \<in> drawn. f = fh i then fst (painted theme fh rc wc n) f else fst wc f)) \<and>
     (\<forall>i \<in> drawn. frame_status b i = paint_status theme fh rc wc i)"

definition counting :: "(nat \<Rightarrow> tui_status) \<Rightarrow> nat \<Rightarrow> nat set \<Rightarrow> 'f render_context \<Rightarrow> bool" where
  "counting st n ended ctx \<longleftrightarrow> remaining_frames ctx = n - card ended \<and> (ctx_status ctx = TUI_OK \<longleftrightarrow> (\<forall>i \<in> ended. st i = TUI_OK)) \<and>
     (ctx_status ctx \<noteq> TUI_OK \<longrightarrow> (\<exists>i \<in> ended. ctx_status ctx = st i))"

lemma drawingD:
  assumes "drawing theme fh rc n wc drawn b"
  shows "canvas_wf (batch_canvas b)" "frame_in_progress (batch_canvas b)" "canvas_width (batch_canvas b) = canvas_width (snd wc)"
    "canvas_height (batch_canvas b) = canvas_height (snd wc)" "published (batch_canvas b) = published (snd wc)"
    "batch_store b f = (if \<exists>i \<in> drawn. f = fh i then fst (painted theme fh rc wc n) f else fst wc f)"
    "k \<le> n \<Longrightarrow> \<forall>j < n. inside (rc j) row column \<longrightarrow> (j \<in> drawn \<longleftrightarrow> j < k) \<Longrightarrow>
      working (batch_canvas b) row column = working (snd (painted theme fh rc wc k)) row column"
    "j \<in> drawn \<Longrightarrow> frame_status b j = paint_status theme fh rc wc j"
  using assms unfolding drawing_def by blast+

lemma draw_step:
  assumes inv: "drawing theme fh rc n wc drawn b" and wf: "canvas_wf (snd wc)" "frame_in_progress (snd wc)"
    and inj: "inj_on fh {..<n}" and i: "i < n" "i \<notin> drawn" "drawn \<subseteq> {..<n}"
    and order: "\<And>j row column. j < n \<Longrightarrow> inside (rc j) row column \<Longrightarrow> inside (rc i) row column \<Longrightarrow> j \<in> drawn \<longleftrightarrow> j < i"
    and render: "render_frame draw i (batch_ctx b) (batch_store b, batch_canvas b) = store_draw draw (fh i) theme (rc i) (batch_store b, batch_canvas b)"
  shows "drawing theme fh rc n wc (insert i drawn) (render_exec draw (Draw_Step i) b)"
    and "batch_ctx (render_exec draw (Draw_Step i) b) = batch_ctx b"
proof -
  let ?P = "painted theme fh rc wc" and ?c = "batch_canvas b"
  have P: "canvas_wf (snd (?P k))" "frame_in_progress (snd (?P k))" "canvas_width (snd (?P k)) = canvas_width (snd wc)"
    "canvas_height (snd (?P k)) = canvas_height (snd wc)" for k using painted_canvas [OF wf(1)] wf(2) by simp_all
  note b = drawingD [OF inv]
  have own: "batch_store b (fh i) = fst (?P i) (fh i)"
  proof -
    have "\<not> (\<exists>j \<in> drawn. fh i = fh j)" using inj_onD [OF inj, of i] i by blast
    moreover have "\<not> (\<exists>j < i. fh i = fh j)" using inj_onD [OF inj, of i] i(1) by force
    ultimately show ?thesis using b(6) [of "fh i"] painted_store [OF inj, of i theme rc wc "fh i"] i(1) by auto
  qed
  obtain s p st where d: "draw (fh i) theme (rc i) (fst (?P i) (fh i), snd (?P i)) = ((s, p), st)" by (metis prod.collapse)
  have "working ?c row column = working (snd (?P i)) row column" if "inside (rc i) row column" for row column
    using b(7) [of i row column] order that i(1) by auto
  then have "agree (inside (rc i)) (snd (?P i)) ?c" using b P by (simp add: agree_def)
  then obtain c' where d2: "draw (fh i) theme (rc i) (batch_store b (fh i), ?c) = ((s, c'), st)" and a: "agree (inside (rc i)) p c'"
    using draw_oblivious d unfolding oblivious_def own by blast
  have conf: "confined (rc i) ?c c'" using draw_inside [OF b(1) d2] .
  have confp: "confined (rc i) (snd (?P i)) p" using draw_inside [OF P(1) d] .
  have nxt: "?P (Suc i) = ((fst (?P i))(fh i := s), p)" and st: "paint_status theme fh rc wc i = st"
    using d by (simp_all add: store_draw_def paint_status_def)
  have e: "render_exec draw (Draw_Step i) b = b\<lparr>batch_store := (batch_store b)(fh i := s), batch_canvas := c', frame_status := (frame_status b)(i := st)\<rparr>"
    using render d2 by (simp add: store_draw_def)
  then show "batch_ctx (render_exec draw (Draw_Step i) b) = batch_ctx b" by simp
  have cells: "working c' row column = working (snd (?P k)) row column"
    if k: "k \<le> n" "\<forall>j < n. inside (rc j) row column \<longrightarrow> (j \<in> insert i drawn \<longleftrightarrow> j < k)" for row column k
  proof (cases "inside (rc i) row column")
    case True
    then have "i < k" using k(2) [rule_format, OF i(1) True] by simp
    have "\<not> inside (rc j) row column" if "Suc i \<le> j" "j < k" for j using order [of j row column] k(2) [rule_format, of j] k(1) that True by auto
    then have "working (snd (?P k)) row column = working p row column"
      using painted_outside [OF wf(1), of "Suc i" k rc row column theme fh] \<open>i < k\<close> nxt by (simp del: painted.simps)
    then show ?thesis using a True by (simp add: agree_def)
  next
    case False
    then have "\<forall>j < n. inside (rc j) row column \<longrightarrow> (j \<in> drawn \<longleftrightarrow> j < k)" using k(2) by auto
    then show ?thesis using b(7) [OF k(1)] conf False by (simp add: confined_def)
  qed
  have store: "((batch_store b)(fh i := s)) f = (if \<exists>j \<in> insert i drawn. f = fh j then fst (?P n) f else fst wc f)" for f
  proof (cases "f = fh i")
    case True
    have "fst (?P (Suc i)) f = fst (?P n) f" using painted_store [OF inj, of "Suc i" theme rc wc f] True i(1) by auto
    then show ?thesis using nxt True by (simp del: painted.simps)
  qed (use b(6) in auto)
  show "drawing theme fh rc n wc (insert i drawn) (render_exec draw (Draw_Step i) b)"
    using b conf cells store st unfolding drawing_def e by (simp add: confined_def)
qed

lemma finish_step:
  assumes inv: "drawing theme fh rc n wc drawn b" and count: "counting (paint_status theme fh rc wc) n ended (batch_ctx b)"
    and i: "i \<in> drawn" "i \<notin> ended" "ended \<subseteq> {..<n}" "i < n" and more: "Suc (card ended) < n"
  shows "drawing theme fh rc n wc drawn (render_exec draw (Finish_Step i) b)"
    and "counting (paint_status theme fh rc wc) n (insert i ended) (batch_ctx (render_exec draw (Finish_Step i) b))"
    and "ctx_inputs (batch_ctx (render_exec draw (Finish_Step i) b)) = ctx_inputs (batch_ctx b)"
proof -
  have fin: "finite ended" using i(3) finite_subset by blast
  have st: "frame_status b i = paint_status theme fh rc wc i" using inv i(1) by (auto simp: drawing_def)
  have r: "remaining_frames (batch_ctx b) \<noteq> 0" "remaining_frames (batch_ctx b) - 1 \<noteq> 0" using count more by (auto simp: counting_def)
  let ?ctx = "(batch_ctx b)\<lparr>ctx_status := (if ctx_status (batch_ctx b) = TUI_OK \<and> paint_status theme fh rc wc i \<noteq> TUI_OK
     then paint_status theme fh rc wc i else ctx_status (batch_ctx b)), remaining_frames := remaining_frames (batch_ctx b) - 1\<rparr>"
  have e: "render_exec draw (Finish_Step i) b = b\<lparr>batch_ctx := ?ctx\<rparr>" using r st by (simp add: finish_frame_def Let_def)
  show "drawing theme fh rc n wc drawn (render_exec draw (Finish_Step i) b)" using inv unfolding e by (simp add: drawing_def)
  show "counting (paint_status theme fh rc wc) n (insert i ended) (batch_ctx (render_exec draw (Finish_Step i) b))"
    unfolding e using count fin i(2) by (auto simp: counting_def)
  show "ctx_inputs (batch_ctx (render_exec draw (Finish_Step i) b)) = ctx_inputs (batch_ctx b)" unfolding e by simp
qed

definition ordered_steps :: "nat \<Rightarrow> (nat \<Rightarrow> rect) \<Rightarrow> render_step list \<Rightarrow> bool" where
  "ordered_steps n rc steps \<longleftrightarrow> distinct steps \<and> set steps = Draw_Step ` {..<n} \<union> Finish_Step ` {..<n} \<and>
     (\<forall>xs i ys. steps = xs @ Finish_Step i # ys \<longrightarrow> Draw_Step i \<in> set xs) \<and>
     (\<forall>xs i ys. steps = xs @ Draw_Step i # ys \<longrightarrow>
        (\<forall>j < i. (\<exists>row column. inside (rc j) row column \<and> inside (rc i) row column) \<longrightarrow> Finish_Step j \<in> set xs))"

abbreviation drawn_by :: "render_step list \<Rightarrow> nat set" where
  "drawn_by xs \<equiv> {i. Draw_Step i \<in> set xs}"

abbreviation ended_by :: "render_step list \<Rightarrow> nat set" where
  "ended_by xs \<equiv> {i. Finish_Step i \<in> set xs}"

lemma drawn_before:
  assumes o: "ordered_steps n rc steps" and steps: "steps = xs @ Draw_Step i # ys" and j: "j < n" "inside (rc j) row column" "inside (rc i) row column"
  shows "j \<in> drawn_by xs \<longleftrightarrow> j < i"
proof -
  note q = o [unfolded ordered_steps_def]
  note dist = conjunct1 [OF q]
  note fin = conjunct1 [OF conjunct2 [OF conjunct2 [OF q]], rule_format]
  note dep = conjunct2 [OF conjunct2 [OF conjunct2 [OF q]], rule_format]
  have drawn: "Draw_Step k \<in> set us" if f: "Finish_Step k \<in> set us" and e: "steps = us @ vs" for k us vs
  proof -
    obtain as bs where "us = as @ Finish_Step k # bs" using split_list [OF f] by blast
    then show ?thesis using fin [of as k "bs @ vs"] e by simp
  qed
  show ?thesis
  proof (cases "j < i")
    case True
    then have "Finish_Step j \<in> set xs" using dep [OF steps True] j by blast
    then show ?thesis using drawn [OF _ steps] True by simp
  next
    case False
    have "Draw_Step j \<notin> set xs"
    proof
      assume a: "Draw_Step j \<in> set xs"
      obtain us vs where xs: "xs = us @ Draw_Step j # vs" using split_list [OF a] by blast
      have "j \<noteq> i" using a dist steps by auto
      then have "Finish_Step i \<in> set us" using dep [of us j "vs @ Draw_Step i # ys" i] xs steps j False by auto
      then have "Draw_Step i \<in> set us" using drawn [of i us] steps xs by simp
      then show False using dist steps xs by auto
    qed
    then show ?thesis using False by simp
  qed
qed

lemma batch_prefix:
  assumes o: "ordered_steps n rc steps" and wf: "canvas_wf (snd wc)" "frame_in_progress (snd wc)" and inj: "inj_on fh {..<n}"
    and start: "drawing theme fh rc n wc {} b" "counting (paint_status theme fh rc wc) n {} (batch_ctx b)"
    and render: "\<And>i ctx v. i < n \<Longrightarrow> ctx_inputs ctx = ctx_inputs (batch_ctx b) \<Longrightarrow> render_frame draw i ctx v = store_draw draw (fh i) theme (rc i) v"
  shows "steps = xs @ ys \<Longrightarrow> card (ended_by xs) < n \<Longrightarrow>
    drawing theme fh rc n wc (drawn_by xs) (fold (render_exec draw) xs b) \<and>
    counting (paint_status theme fh rc wc) n (ended_by xs) (batch_ctx (fold (render_exec draw) xs b)) \<and>
    ctx_inputs (batch_ctx (fold (render_exec draw) xs b)) = ctx_inputs (batch_ctx b)"
proof (induction xs arbitrary: ys rule: rev_induct)
  case Nil
  then show ?case using start by simp
next
  case (snoc x xs)
  have sub: "set xs \<subseteq> Draw_Step ` {..<n} \<union> Finish_Step ` {..<n}" "x \<in> Draw_Step ` {..<n} \<union> Finish_Step ` {..<n}"
    using o snoc.prems(1) by (auto simp: ordered_steps_def)
  have bounded: "drawn_by xs \<subseteq> {..<n}" "ended_by xs \<subseteq> {..<n}" using sub(1) by auto
  have "finite (ended_by (xs @ [x]))" by (rule finite_subset [of _ "{..<n}"]) (use sub in auto)
  then have "card (ended_by xs) \<le> card (ended_by (xs @ [x]))" by (rule card_mono) auto
  then have "card (ended_by xs) < n" using snoc.prems(2) by (rule le_less_trans)
  note IH = snoc.IH [OF _ this, of "x # ys"]
  let ?b = "fold (render_exec draw) xs b"
  have inv: "drawing theme fh rc n wc (drawn_by xs) ?b" "counting (paint_status theme fh rc wc) n (ended_by xs) (batch_ctx ?b)"
    "ctx_inputs (batch_ctx ?b) = ctx_inputs (batch_ctx b)" using IH snoc.prems(1) by auto
  have new: "x \<notin> set xs" using o snoc.prems(1) by (auto simp: ordered_steps_def)
  from sub(2) consider (draw) i where "x = Draw_Step i" "i < n" | (finish) i where "x = Finish_Step i" "i < n" by auto
  then show ?case
  proof cases
    case (draw i)
    have "j \<in> drawn_by xs \<longleftrightarrow> j < i" if "j < n" "inside (rc j) row column" "inside (rc i) row column" for j row column
      using drawn_before [OF o _ that] snoc.prems(1) draw by simp
    note d = draw_step [OF inv(1) wf inj draw(2) _ bounded(1) this render [OF draw(2) inv(3)]]
    have "drawn_by (xs @ [x]) = insert i (drawn_by xs)" "ended_by (xs @ [x]) = ended_by xs" using draw by auto
    then show ?thesis using d inv new draw by (simp del: render_exec.simps)
  next
    case (finish i)
    have e: "ended_by (xs @ [x]) = insert i (ended_by xs)" "drawn_by (xs @ [x]) = drawn_by xs" using finish by auto
    have "i \<in> drawn_by xs" using o snoc.prems(1) finish unfolding ordered_steps_def by auto
    moreover have "i \<notin> ended_by xs" using new finish by simp
    moreover have "Suc (card (ended_by xs)) < n" using snoc.prems(2) calculation(2) finite_subset [OF bounded(2)] unfolding e by simp
    ultimately show ?thesis using finish_step [OF inv(1,2) _ _ bounded(2) finish(2)] inv(3) finish(1) unfolding e by (simp del: render_exec.simps)
  qed
qed

lemma last_step:
  assumes o: "ordered_steps n rc steps" and n: "0 < n"
  obtains xs i where "steps = xs @ [Finish_Step i]" "i < n" "drawn_by xs = {..<n}" "ended_by xs = {..<n} - {i}"
proof -
  note q = o [unfolded ordered_steps_def]
  have all: "set steps = Draw_Step ` {..<n} \<union> Finish_Step ` {..<n}" and dist: "distinct steps" using q by blast+
  then have "steps \<noteq> []" using n by auto
  then obtain xs x where e: "steps = xs @ [x]" using rev_exhaust by blast
  have x: "x \<in> Draw_Step ` {..<n} \<union> Finish_Step ` {..<n}" using all e by auto
  have "\<exists>i < n. x = Finish_Step i"
  proof (rule ccontr)
    assume "\<not> (\<exists>i < n. x = Finish_Step i)"
    then obtain i where i: "x = Draw_Step i" "i < n" using x by auto
    then have "Finish_Step i \<in> set steps" using all by blast
    then have "Finish_Step i \<in> set xs" using e i by auto
    then obtain us vs where "xs = us @ Finish_Step i # vs" using split_list [of "Finish_Step i" xs] by blast
    then have "Draw_Step i \<in> set us" and "set us \<subseteq> set xs"
      using conjunct1 [OF conjunct2 [OF conjunct2 [OF q]], rule_format, of us i "vs @ [x]"] e by auto
    then show False using dist e i by auto
  qed
  then obtain i where i: "i < n" "x = Finish_Step i" by blast
  have mem: "y \<in> set xs \<longleftrightarrow> y \<in> Draw_Step ` {..<n} \<union> Finish_Step ` {..<n} \<and> y \<noteq> Finish_Step i" for y
    using all dist unfolding e i(2) by auto
  have "drawn_by xs = {..<n}" "ended_by xs = {..<n} - {i}" unfolding mem by auto
  then show thesis using that e i by simp
qed

lemma counting_last:
  assumes "counting st n ({..<n} - {i}) ctx" and "i < n"
  defines "s \<equiv> if ctx_status ctx = TUI_OK \<and> st i \<noteq> TUI_OK then st i else ctx_status ctx"
  shows "remaining_frames ctx = 1" and "s = TUI_OK \<longleftrightarrow> (\<forall>j < n. st j = TUI_OK)" and "s \<noteq> TUI_OK \<Longrightarrow> \<exists>j < n. s = st j"
proof -
  have c: "remaining_frames ctx = n - card ({..<n} - {i})" "ctx_status ctx = TUI_OK \<longleftrightarrow> (\<forall>j \<in> {..<n} - {i}. st j = TUI_OK)"
    "ctx_status ctx \<noteq> TUI_OK \<longrightarrow> (\<exists>j \<in> {..<n} - {i}. ctx_status ctx = st j)" using assms(1) unfolding counting_def by blast+
  show "remaining_frames ctx = 1" using c(1) assms(2) by simp
  show "s = TUI_OK \<longleftrightarrow> (\<forall>j < n. st j = TUI_OK)" using c(2) assms(2) unfolding s_def by auto
  show "s \<noteq> TUI_OK \<Longrightarrow> \<exists>j < n. s = st j" using c(3) assms(2) unfolding s_def by auto
qed

lemma batch_complete:
  assumes o: "ordered_steps n rc steps" and n: "0 < n" and wf: "canvas_wf (snd wc)" "frame_in_progress (snd wc)" and inj: "inj_on fh {..<n}"
    and start: "drawing theme fh rc n wc {} b" "counting (paint_status theme fh rc wc) n {} (batch_ctx b)"
    and render: "\<And>i ctx v. i < n \<Longrightarrow> ctx_inputs ctx = ctx_inputs (batch_ctx b) \<Longrightarrow> render_frame draw i ctx v = store_draw draw (fh i) theme (rc i) v"
  defines "b' \<equiv> fold (render_exec draw) steps b"
  shows "\<not> frame_in_progress (batch_canvas b') \<and> ctx_published (batch_ctx b') \<and>
    (if \<forall>i < n. paint_status theme fh rc wc i = TUI_OK
     then ctx_status (batch_ctx b') = TUI_OK \<and> published (batch_canvas b') = working (snd (painted theme fh rc wc n)) \<and>
       (\<forall>f. batch_store b' f = fst (painted theme fh rc wc n) f)
     else (\<exists>i < n. ctx_status (batch_ctx b') = paint_status theme fh rc wc i) \<and> ctx_status (batch_ctx b') \<noteq> TUI_OK \<and>
       published (batch_canvas b') = published (snd wc))"
proof -
  obtain xs i where l: "steps = xs @ [Finish_Step i]" "i < n" "drawn_by xs = {..<n}" "ended_by xs = {..<n} - {i}" by (rule last_step [OF o n])
  let ?st = "paint_status theme fh rc wc" and ?b = "fold (render_exec draw) xs b"
  have card: "card ({..<n} - {i}) = n - 1" using l(2) by simp
  have "card (ended_by xs) < n" unfolding l(4) using card n by simp
  note pre = batch_prefix [OF o wf inj start render l(1) this, unfolded l(3,4)]
  note k = conjunct1 [OF pre] conjunct1 [OF conjunct2 [OF pre]]
  have fs: "frame_status ?b i = ?st i" using drawingD(8) [OF k(1), of i] l(2) by blast
  note ip = drawingD(2) [OF k(1)] and pub = drawingD(5) [OF k(1)]
  have work: "working (batch_canvas ?b) = working (snd (painted theme fh rc wc n))"
    by (intro ext) (rule drawingD(7) [OF k(1)], simp_all)
  have all: "fst (painted theme fh rc wc n) f = batch_store ?b f" for f
  proof (cases "\<exists>j \<in> {..<n}. f = fh j")
    case True
    then show ?thesis using drawingD(6) [OF k(1), of f] by simp
  next
    case False
    then have "\<not> (\<exists>j < n. f = fh j)" by blast
    from trans [OF painted_store [OF inj le_refl, of theme rc wc f] if_not_P [OF this]]
    show ?thesis using trans [OF drawingD(6) [OF k(1), of f] if_not_P [OF False]] by simp
  qed
  note s = counting_last(2,3) [OF k(2) l(2)] and r = counting_last(1) [OF k(2) l(2)]
  let ?s = "if ctx_status (batch_ctx ?b) = TUI_OK \<and> ?st i \<noteq> TUI_OK then ?st i else ctx_status (batch_ctx ?b)"
  have b': "b' = (case publish ((batch_ctx ?b)\<lparr>ctx_status := ?s, remaining_frames := 0\<rparr>, batch_canvas ?b) of (ctx, c) \<Rightarrow> ?b\<lparr>batch_ctx := ctx, batch_canvas := c\<rparr>)"
    unfolding b'_def l(1) using r fs by (simp add: finish_frame_def Let_def)
  show ?thesis
  proof (cases "\<forall>j < n. ?st j = TUI_OK")
    case True
    then have "?s = TUI_OK" using s(1) by blast
    obtain c' st' where e: "end_frame (batch_canvas ?b) = (c', st')" by fastforce
    note img = end_frame_image [OF ip e]
    have "b' = ?b\<lparr>batch_ctx := (batch_ctx ?b)\<lparr>ctx_status := TUI_OK, remaining_frames := 0, ctx_published := True\<rparr>, batch_canvas := c'\<rparr>"
      unfolding b' \<open>?s = TUI_OK\<close> using e img by (simp add: publish_def)
    then show ?thesis using True img work all by simp
  next
    case False
    then have ns: "?s \<noteq> TUI_OK" "\<exists>j < n. ?s = ?st j" using s by blast+
    then have "b' = ?b\<lparr>batch_ctx := (batch_ctx ?b)\<lparr>ctx_status := ?s, remaining_frames := 0, ctx_published := True\<rparr>,
      batch_canvas := (batch_canvas ?b)\<lparr>frame_in_progress := False\<rparr>\<rparr>" using ip by (simp add: b' publish_def cancel_frame_def)
    then show ?thesis using False ns pub by simp
  qed
qed

text \<open>Drawing in order stops at the first frame that fails.\<close>

lemma draw_frames_painted:
  fixes fs :: "(string \<times> 'f) list"
  assumes "\<And>i. i < length fs \<Longrightarrow> rects (fst (fs ! i)) = Some (rc i)" and "\<And>i. i < length fs \<Longrightarrow> snd (fs ! i) = fh i" and "k \<le> length fs"
  shows "if \<forall>i. k \<le> i \<and> i < length fs \<longrightarrow> paint_status theme fh rc wc i = TUI_OK
    then draw_frames (store_draw draw) rects theme (drop k fs) (painted theme fh rc wc k) = (painted theme fh rc wc (length fs), TUI_OK)
    else snd (draw_frames (store_draw draw) rects theme (drop k fs) (painted theme fh rc wc k)) \<noteq> TUI_OK"
  using assms(3)
proof (induction "length fs - k" arbitrary: k)
  case 0
  then show ?case by simp
next
  case (Suc m)
  then have k: "k < length fs" by simp
  have d: "drop k fs = fs ! k # drop (Suc k) fs" using k by (simp add: Cons_nth_drop_Suc)
  have IH: "if \<forall>i. Suc k \<le> i \<and> i < length fs \<longrightarrow> paint_status theme fh rc wc i = TUI_OK
    then draw_frames (store_draw draw) rects theme (drop (Suc k) fs) (painted theme fh rc wc (Suc k)) = (painted theme fh rc wc (length fs), TUI_OK)
    else snd (draw_frames (store_draw draw) rects theme (drop (Suc k) fs) (painted theme fh rc wc (Suc k))) \<noteq> TUI_OK"
    using Suc.hyps(1) [of "Suc k"] Suc.hyps(2) k by linarith
  obtain wc' st where s: "store_draw draw (fh k) theme (rc k) (painted theme fh rc wc k) = (wc', st)" by fastforce
  have p: "wc' = painted theme fh rc wc (Suc k)" "st = paint_status theme fh rc wc k" using s by (simp_all add: paint_status_def)
  have e: "draw_frames (store_draw draw) rects theme (drop k fs) (painted theme fh rc wc k) =
      (if st \<noteq> TUI_OK then (wc', st) else draw_frames (store_draw draw) rects theme (drop (Suc k) fs) wc')"
    unfolding d using assms(1,2) [OF k] s by (cases "fs ! k") simp
  have "(\<forall>i. k \<le> i \<and> i < length fs \<longrightarrow> paint_status theme fh rc wc i = TUI_OK) \<longleftrightarrow>
      st = TUI_OK \<and> (\<forall>i. Suc k \<le> i \<and> i < length fs \<longrightarrow> paint_status theme fh rc wc i = TUI_OK)"
  proof -
    have "k \<le> i \<longleftrightarrow> i = k \<or> Suc k \<le> i" for i by auto
    then show ?thesis using k p(2) by auto
  qed
  then show ?case unfolding e using IH p(1) by (auto simp del: painted.simps split: if_splits)
qed

end

section \<open>The input frame is oblivious\<close>

text \<open>Steps that do the same, in lockstep, on canvases that agree; a frame threads its state through them.\<close>

definition cstep :: "(canvas \<Rightarrow> canvas \<times> tui_status) \<Rightarrow> bool" where
  "cstep g \<longleftrightarrow> (\<forall>X c c2. agree X c c2 \<longrightarrow> snd (g c2) = snd (g c) \<and> agree X (fst (g c)) (fst (g c2)))"

definition fstep :: "(canvas \<Rightarrow> ('s \<times> canvas) \<times> tui_status) \<Rightarrow> bool" where
  "fstep g \<longleftrightarrow> (\<forall>X c c2. agree X c c2 \<longrightarrow> fst (fst (g c2)) = fst (fst (g c)) \<and> snd (g c2) = snd (g c) \<and> agree X (snd (fst (g c))) (snd (fst (g c2))))"

lemma oblivious_iff: "oblivious d \<longleftrightarrow> (\<forall>s. fstep (\<lambda>c. d (s, c)))"
  unfolding oblivious_def fstep_def by (smt (verit) prod.collapse prod.inject)

lemma obliviousD: "oblivious d \<Longrightarrow> fstep (\<lambda>c. d (s, c))"
  unfolding oblivious_iff by (rule spec)

lemma agree_size: "agree X c c2 \<Longrightarrow> canvas_width c2 = canvas_width c \<and> canvas_height c2 = canvas_height c"
  by (simp add: agree_def)

lemma step_return: "cstep (\<lambda>c. (c, st))" "fstep (\<lambda>c. ((s, c), st))"
  by (simp_all add: cstep_def fstep_def)

lemma step_write: "cstep (write_cells r cells)"
  unfolding cstep_def using write_agree by (metis prod.collapse fst_conv snd_conv)

lemma step_if:
  "(\<And>X c c2. agree X c c2 \<Longrightarrow> P c2 = P c) \<Longrightarrow> cstep a \<Longrightarrow> cstep b \<Longrightarrow> cstep (\<lambda>c. if P c then a c else b c)"
  "(\<And>X c c2. agree X c c2 \<Longrightarrow> P c2 = P c) \<Longrightarrow> fstep a' \<Longrightarrow> fstep b' \<Longrightarrow> fstep (\<lambda>c. if P c then a' c else b' c)"
  unfolding cstep_def fstep_def by auto

lemma step_bind:
  assumes "cstep g"
  shows "(\<And>st. cstep (h st)) \<Longrightarrow> cstep (\<lambda>c. case g c of (c', st) \<Rightarrow> h st c')"
    and "(\<And>st. fstep (k st)) \<Longrightarrow> fstep (\<lambda>c. case g c of (c', st) \<Rightarrow> k st c')"
  using assms unfolding cstep_def fstep_def case_prod_unfold by (simp_all, blast+)

lemma step_frame: "fstep g \<Longrightarrow> (\<And>s st. fstep (k s st)) \<Longrightarrow> fstep (\<lambda>c. case g c of ((s, c'), st) \<Rightarrow> k s st c')"
  unfolding fstep_def case_prod_unfold by (simp, blast)

lemmas lockstep = step_if step_bind step_frame step_return step_write

lemma step_size: "(\<And>w h. fstep (k w h)) \<Longrightarrow> fstep (\<lambda>c. k (canvas_width c) (canvas_height c) c)"
  unfolding fstep_def by (metis agree_size)

lemma tif_oblivious: "oblivious (tif_draw theme r)"
  unfolding oblivious_iff tif_draw_def Let_def
  by (auto intro!: lockstep)


lemma step_option: "(cstep a) \<Longrightarrow> (\<And>x. cstep (b x)) \<Longrightarrow> cstep (\<lambda>c. case v of None \<Rightarrow> a c | Some x \<Rightarrow> b x c)"
  "fstep a' \<Longrightarrow> (\<And>x. fstep (b' x)) \<Longrightarrow> fstep (\<lambda>c. case v of None \<Rightarrow> a' c | Some x \<Rightarrow> b' x c)"
  by (cases v; simp)+

lemma step_pair: "(\<And>a b. fstep (k a b)) \<Longrightarrow> fstep (\<lambda>c. case v of (a, b) \<Rightarrow> k a b c)"
  by (cases v) simp

lemma term_oblivious: "oblivious (term_draw tmt theme r)"
proof -
  have "fstep (\<lambda>c. term_draw tmt theme r (f, c))" for f
  proof (cases "ensure_terminal tmt (rect_height r) (rect_width r) f")
    case (Pair f1 ok)
    show ?thesis unfolding term_draw_def Let_def prod.case Pair by (intro step_pair lockstep) auto
  qed
  then show ?thesis by (simp add: oblivious_iff)
qed

lemma ann_oblivious:
  assumes "\<And>theme r. oblivious (draw_op ops theme r)"
  shows "oblivious (ann_draw (Some ops) theme r)"
proof -
  have ch: "fstep (\<lambda>c. draw_op ops theme q (f, c))" for q f using assms by (simp add: oblivious_iff)
  have "fstep (\<lambda>c. ann_draw (Some ops) theme r ((a, f), c))" for a f
    unfolding ann_draw_def Let_def prod.case option.case
    by (intro step_option lockstep ch) auto
  then show ?thesis unfolding oblivious_iff by auto
qed

lemma fill_step: "cstep (bnd_fill theme conf r)" "cstep (bnd_box theme conf box)"
  unfolding bnd_fill_def bnd_box_def by (intro step_option lockstep, simp)+

lemma bnd_oblivious:
  assumes "\<And>theme r. oblivious (draw_op ops theme r)"
  shows "oblivious (bnd_draw (Some ops) theme r)"
proof -
  have ch: "fstep (\<lambda>c. draw_op ops theme q (f, c))" for q f using assms by (simp add: oblivious_iff)
  have "fstep (\<lambda>c. bnd_draw (Some ops) theme r ((b, f), c))" for b f
    unfolding bnd_draw_def Let_def prod.case option.case
    by (intro step_option lockstep ch fill_step; auto dest: agree_size)
  then show ?thesis unfolding oblivious_iff by auto
qed


lemma text_source_oblivious: "oblivious (draw_op text_frame_source theme r)"
  by (simp add: text_frame_source_def text_frame_ops_def frame_ops.defs tif_oblivious)

lemma annotated_oblivious: "oblivious (draw_op annotated_text theme r)"
  by (simp add: ann_oblivious text_source_oblivious)

lemma cmd_oblivious: "oblivious (draw_op cmd_ops theme r)"
proof -
  have "fstep (\<lambda>c. draw_op annotated_text theme r (p, c))" for p by (rule obliviousD [OF annotated_oblivious])
  then have "fstep (\<lambda>c. case draw_op annotated_text theme r (cmd_parts f, c) of ((p, c'), st) \<Rightarrow> ((set_cmd_parts f p, c'), st))" for f
    by (intro lockstep)
  then show ?thesis by (simp add: oblivious_iff cmd_ops_def del: annotated_text_draw)
qed

lemma term_source_oblivious: "oblivious (draw_op (term_ops tmt) theme r)"
  by (simp add: term_ops_def plain_frame_def term_oblivious)

lemma active_oblivious: "oblivious (draw_active tmt theme r)"
proof -
  have n: "fstep (\<lambda>c. draw_op normal_ops theme r (v, c))" for v
    using obliviousD [OF bnd_oblivious [OF annotated_oblivious]] by (simp add: bounding_ops_def del: annotated_text_draw)
  have c: "fstep (\<lambda>c. draw_op command_ops theme r (v, c))" for v
    using obliviousD [OF bnd_oblivious [OF cmd_oblivious]] by (simp add: bounding_ops_def)
  have t: "fstep (\<lambda>c. draw_op (terminal_ops tmt) theme r (v, c))" for v
    using obliviousD [OF bnd_oblivious [OF term_source_oblivious]] by (simp add: bounding_ops_def)
  have "fstep (\<lambda>c. draw_active tmt theme r (f, c))" for f
    unfolding draw_active_def prod.case
    by (cases "if_mode f"; simp only: input_mode.case; intro lockstep n c t)
  then show ?thesis by (simp add: oblivious_iff)
qed

lemma help_step: "cstep (draw_help_rows theme r y rows)"
proof (induction rows arbitrary: y)
  case (Cons row rows)
  have "cstep (\<lambda>c. draw_help_rows theme r y (row # rows) c)"
    unfolding draw_help_rows.simps Let_def by (intro lockstep Cons) auto
  then show ?case .
qed (simp add: cstep_def)

lemma row_step: "cstep (write_text_row x y limit t fg bg)"
  unfolding write_text_row_def Let_def by (intro lockstep) auto

lemma overlays_step: "cstep (draw_overlays theme r hs f)"
proof -
  have h: "cstep (\<lambda>c. if hs \<noteq> 0 then cmd_draw_help theme q g c else (c, TUI_OK))" for q g
    unfolding cmd_draw_help_def by (intro lockstep help_step) auto
  have p: "cstep (\<lambda>c. if escape_started f \<noteq> None then write_text_row x y limit t fg bg c else (c, TUI_OK))" for x y limit t fg bg
    by (intro lockstep row_step) auto
  show ?thesis unfolding draw_overlays_def Let_def by (intro lockstep h p row_step) auto
qed

lemma if_draw_oblivious: "oblivious (if_draw tmt theme r)"
proof -
  have a: "fstep (\<lambda>c. draw_active tmt theme r (f, c))" for f by (rule obliviousD [OF active_oblivious])
  define k where "k f w h c =
     (if rect_x r \<noteq> 0 \<or> rect_width r \<noteq> w \<or> rect_width r < kMinimumWidth \<or> rect_height r < kMinimumHeight then ((f, c), INVALID_DIMENSIONS)
      else if rect_y r > h \<or> rect_height r > h - rect_y r then ((f, c), RECT_OUT_OF_BOUNDS)
      else if rect_height r < (if if_mode f = TERMINAL_MODE then kTerminalMinimumHeight else kMinimumHeight) \<or> rect_height r > mode_maximum_height h f
      then ((f, c), INVALID_DIMENSIONS)
      else case draw_active tmt theme r (prepare_draw (if if_mode f = TERMINAL_MODE then kTerminalMinimumHeight else kMinimumHeight)
            (mode_maximum_height h f) (drawing_rows r f) f, c) of ((f', c'), st) \<Rightarrow>
        if st \<noteq> TUI_OK then ((f', c'), st) else case draw_overlays theme r (drawing_rows r f) f' c' of (c'', st') \<Rightarrow> ((f', c''), st'))" for f w h c
  have "fstep (k f w h)" for f w h unfolding k_def by (intro lockstep a overlays_step) auto
  then have "fstep (\<lambda>c. k f (canvas_width c) (canvas_height c) c)" for f by (rule step_size)
  moreover have "if_draw tmt theme r (f, c) = k f (canvas_width c) (canvas_height c) c" for f c
    by (simp only: if_draw_def k_def drawing_rows_def Let_def prod.case)
  ultimately show ?thesis by (simp add: oblivious_iff)
qed

interpretation input_frames: concurrent_frames "\<lambda>_. if_draw tmt"
  for tmt by (unfold_locales, erule (1) if_draw_confined, rule if_draw_oblivious)


section \<open>The graph of a batch\<close>

lemma frame_node_new:
  assumes "graph_wf g" and "v \<notin> set (dg_nodes g)"
  shows "add_node v g = (fst (add_node v g), GRAPH_OK) \<and> dg_nodes (fst (add_node v g)) = dg_nodes g @ [v]"
proof -
  have "node_indices g v = None" using assms unfolding graph_wf_def by (metis not_None_eq nth_mem)
  then show ?thesis by (simp add: add_node_def)
qed

lemma add_frame_nodes_ok:
  assumes "graph_wf g" and "distinct (dg_nodes g @ is)" and "add_frame_nodes is g = Inr g'"
  shows "graph_wf g' \<and> dg_nodes g' = dg_nodes g @ is"
  using assms
proof (induction "is" arbitrary: g)
  case (Cons i "is")
  have i: "i \<notin> set (dg_nodes g)" using Cons.prems(2) by auto
  note n = frame_node_new [OF Cons.prems(1) i]
  have "add_frame_nodes is (fst (add_node i g)) = Inr g'" using Cons.prems(3) n by (auto split: prod.splits if_splits)
  from Cons.IH [OF graph_wf_add_node [OF Cons.prems(1)] _ this] show ?case using n Cons.prems(2) by simp
qed simp

lemma add_dependency_edges:
  assumes wf: "graph_wf g" and ok: "add_dependency p q g = (g', GRAPH_OK)"
    and n: "dg_nodes g ! p = p" "p < length (dg_nodes g)" "dg_nodes g ! q = q" "q < length (dg_nodes g)"
  shows "insert (p, q) (edges (dependents g)) \<subseteq> edges (dependents g') \<and> dg_nodes g' = dg_nodes g"
proof -
  have "node_indices g p = Some p" "node_indices g q = Some q" "length (dependents g) = length (dg_nodes g)"
    using wf n unfolding graph_wf_def by blast+
  then have "dependents g' = (dependents g)[p := dependents g ! p @ [q]]" "dg_nodes g' = dg_nodes g" "p < length (dependents g)"
    using ok n(2) by (auto simp: add_dependency_def split: if_splits)
  then show ?thesis by (auto simp: edges_def preds_def nth_list_update)
qed

lemma add_frame_dependencies_edges:
  assumes "graph_wf g" and "\<forall>i < n. i < length (dg_nodes g) \<and> dg_nodes g ! i = i" and "add_frame_dependencies n deps g = Inr g'"
  shows "graph_wf g' \<and> set deps \<union> edges (dependents g) \<subseteq> edges (dependents g')"
  using assms
proof (induction n deps g rule: add_frame_dependencies.induct)
  case (2 n p q deps g)
  have pq: "p < n" "q < n" "\<not> (n \<le> p \<or> n \<le> q \<or> q \<le> p)" using "2.prems"(3) by (auto split: if_splits)
  obtain g1 where g1: "add_dependency p q g = (g1, GRAPH_OK)" "add_frame_dependencies n deps g1 = Inr g'"
    using "2.prems"(3) by (auto split: if_splits prod.splits)
  have e: "insert (p, q) (edges (dependents g)) \<subseteq> edges (dependents g1)" "dg_nodes g1 = dg_nodes g"
    using add_dependency_edges [OF "2.prems"(1) g1(1)] "2.prems"(2) pq by blast+
  have "graph_wf g1" using graph_wf_add_dependency [OF "2.prems"(1), of p q] g1(1) by simp
  moreover have "\<forall>i < n. i < length (dg_nodes g1) \<and> dg_nodes g1 ! i = i" using "2.prems"(2) e(2) by simp
  ultimately have "graph_wf g' \<and> set deps \<union> edges (dependents g1) \<subseteq> edges (dependents g')"
    using "2.IH" [OF pq(3) g1(1) [symmetric]] g1(2) by simp
  then show ?case using e(1) by auto
qed simp

text \<open>The graph a renderer keeps has an edge for every dependency of its topology.\<close>

definition renderer_ok :: "'f renderer \<Rightarrow> bool" where
  "renderer_ok R \<longleftrightarrow> (\<forall>n deps. render_topology R = Some (n, deps) \<longrightarrow>
     (\<exists>g. render_graph R = Some g \<and> graph_wf g \<and> set deps \<subseteq> edges (dependents g)))"

lemma map_graph_status_ok [simp]: "map_graph_status st = TUI_OK \<longleftrightarrow> st = GRAPH_OK"
  by (simp add: map_graph_status_def)

lemma nodes_error: "add_frame_nodes is g = Inl st \<Longrightarrow> st \<noteq> TUI_OK"
  by (induction "is" g rule: add_frame_nodes.induct) (auto split: prod.splits if_splits)

lemma dependencies_error: "add_frame_dependencies n deps g = Inl st \<Longrightarrow> st \<noteq> TUI_OK"
  by (induction n deps g rule: add_frame_dependencies.induct) (auto split: prod.splits if_splits)

lemma prepare_graph_ok:
  assumes R: "renderer_ok R" and p: "prepare_graph n deps R = (R', st)"
  shows "renderer_ok R' \<and> render_active R' = render_active R \<and> render_ctx R' = render_ctx R \<and> (st = TUI_OK \<longrightarrow> render_topology R' = Some (n, deps))"
proof (cases "render_topology R = Some (n, deps) \<or> st \<noteq> TUI_OK")
  case True
  then show ?thesis using R p by (auto simp: prepare_graph_def split: if_splits sum.splits)
next
  case False
  let ?is = "if n = 0 then [0] else [0..<n]"
  obtain g g' where g: "add_frame_nodes ?is empty_graph = Inr g" "add_frame_dependencies n deps g = Inr g'"
    and R': "R' = R\<lparr>render_graph := Some g', render_topology := Some (n, deps)\<rparr>"
    using p False nodes_error [of ?is empty_graph st] dependencies_error [of n deps _ st]
    by (simp add: prepare_graph_def del: add_frame_nodes.simps split: sum.splits) blast
  have "dg_nodes (empty_graph :: nat dependency_graph) = []" by (simp add: empty_graph_def)
  then have n: "graph_wf g" "dg_nodes g = ?is" using add_frame_nodes_ok [OF graph_wf_empty _ g(1)] by auto
  have "\<forall>i < n. i < length (dg_nodes g) \<and> dg_nodes g ! i = i" unfolding n(2) by simp
  from add_frame_dependencies_edges [OF n(1) this g(2)] show ?thesis using R' by (auto simp: renderer_ok_def)
qed

lemma graph_start_ok:
  assumes "graph_wf g" and "graph_start active g = Some (g', st)"
  shows "graph_wf g' \<and> dependents g' = dependents g"
  using assms(1)
proof (cases rule: validate_locked_cases)
  case (valid g1)
  then show ?thesis using assms by (auto simp: graph_start_def snapshot_def split: if_splits)
next
  case (cycle g1)
  then show ?thesis using assms by (auto simp: graph_start_def snapshot_def split: if_splits)
qed


section \<open>Batches\<close>

inductive renderer_reachable :: "'f renderer \<Rightarrow> bool" where
  fresh: "renderer_reachable new_renderer"
| started: "renderer_reachable R \<Longrightarrow> render_start a1 a2 d l theme base R c = Some ((R', c'), st) \<Longrightarrow> renderer_reachable R'"
| advanced: "renderer_reachable R \<Longrightarrow> renderer_reachable (R\<lparr>render_ctx := ctx\<rparr>)"
| waited: "renderer_reachable R \<Longrightarrow> render_wait gs (R, c) = ((R', c'), st) \<Longrightarrow> renderer_reachable R'"

lemma renderer_ok_ctx [simp]: "renderer_ok (R\<lparr>render_ctx := ctx\<rparr>) = renderer_ok R" "renderer_ok (R\<lparr>render_active := x\<rparr>) = renderer_ok R"
  by (simp_all add: renderer_ok_def)

lemma renderer_ok_graph:
  assumes "renderer_ok R" and "graph_wf (the (render_graph R)) \<Longrightarrow> graph_wf g \<and> dependents g = dependents (the (render_graph R))"
  shows "renderer_ok (R\<lparr>render_graph := Some g\<rparr>)"
  using assms unfolding renderer_ok_def by (simp, metis option.sel)

lemma renderer_start_ok:
  assumes R: "renderer_ok R" and s: "render_start a1 a2 d l theme base R c = Some ((R', c'), st)"
  shows "renderer_ok R'"
proof (cases "R' = R")
  case False
  then obtain d0 c0 where dc: "d = Some d0" "c = Some c0" "\<not> render_active R" "a1" "covers_frames d0 l"
    using s by (auto simp: render_start_def split: if_splits option.splits)
  obtain R1 st1 where p: "prepare_graph (length (z_frames (z_buffer d0))) (frame_dependencies l) R = (R1, st1)" by fastforce
  note k = prepare_graph_ok [OF R p]
  obtain c1 st2 where b: "begin_batch base c0 = (c1, st2)" by fastforce
  show ?thesis
  proof (cases "st1 = TUI_OK \<and> st2 = TUI_OK")
    case True
    obtain g gs where g: "graph_start a2 (the (render_graph R1)) = Some (g, gs)" using s dc p b True by (auto simp: render_start_def Let_def split: option.splits)
    have "renderer_ok (R1\<lparr>render_graph := Some g\<rparr>)" by (rule renderer_ok_graph) (use k graph_start_ok [OF _ g] in auto)
    moreover have "render_topology R' = render_topology R1" "render_graph R' = Some g"
      using s dc p b g True by (cases "gs = GRAPH_OK"; auto simp: render_start_def Let_def split: prod.splits)+
    ultimately show ?thesis by (simp add: renderer_ok_def)
  next
    case False
    then have "R' = R1" using s dc p b by (auto simp: render_start_def split: if_splits)
    then show ?thesis using k by simp
  qed
qed (use R in simp)

lemma renderer_reachable_ok: "renderer_reachable R \<Longrightarrow> renderer_ok R"
proof (induction rule: renderer_reachable.induct)
  case (waited R gs c R' c' st)
  then show ?case by (auto simp: render_wait_def split: if_splits prod.splits)
qed (auto simp: renderer_start_ok, simp add: renderer_ok_def new_renderer_def)

lemma batch_started:
  assumes R: "renderer_ok R" and s: "render_start a1 a2 (Some d) l theme base R (Some c) = Some ((R', Some c1), TUI_OK)"
  shows "begin_batch base c = (c1, TUI_OK) \<and> covers_frames d l \<and> render_active R' \<and>
    render_ctx R' = prepare_context d l theme (length (z_frames (z_buffer d))) (render_ctx R) \<and>
    set (frame_dependencies l) \<subseteq> edges (dependents (the (render_graph R')))"
proof -
  have ok: "renderer_ok R'" by (rule renderer_start_ok [OF R s])
  have na: "\<not> render_active R" "a1" "covers_frames d l" using s by (auto simp: render_start_def split: if_splits)
  obtain R1 st1 where p: "prepare_graph (length (z_frames (z_buffer d))) (frame_dependencies l) R = (R1, st1)" by fastforce
  have st1: "st1 = TUI_OK" using s na p by (auto simp: render_start_def split: if_splits)
  note k = prepare_graph_ok [OF R p]
  obtain c2 st2 where b: "begin_batch base c = (c2, st2)" by fastforce
  have st2: "st2 = TUI_OK" using s na p b st1 by (auto simp: render_start_def split: if_splits)
  obtain g gs where g: "graph_start a2 (the (render_graph R1)) = Some (g, gs)" using s na p b st1 st2 by (auto simp: render_start_def Let_def split: option.splits)
  have gs: "gs = GRAPH_OK" using s na p b st1 st2 g by (auto simp: render_start_def Let_def split: if_splits prod.splits)
  have R': "R' = R1\<lparr>render_ctx := prepare_context d l theme (length (z_frames (z_buffer d))) (render_ctx R1), render_graph := Some g, render_active := True\<rparr>" "c1 = c2"
    using s na p b st1 st2 g gs by (auto simp: render_start_def Let_def)
  have "render_topology R' = Some (length (z_frames (z_buffer d)), frame_dependencies l)" using k st1 R' by simp
  then have "set (frame_dependencies l) \<subseteq> edges (dependents (the (render_graph R')))" using ok by (auto simp: renderer_ok_def)
  then show ?thesis using R' b st2 k na by simp
qed

lemma begin_batch_canvas:
  assumes wf: "canvas_wf c" and b: "begin_batch base c = (c1, TUI_OK)"
  shows "canvas_wf c1 \<and> frame_in_progress c1 \<and> canvas_width c1 = canvas_width c \<and> canvas_height c1 = canvas_height c \<and> published c1 = published c"
proof -
  let ?c = "(copy_drawable_to_writable c)\<lparr>frame_in_progress := True\<rparr>"
  have s: "canvas_status c = TUI_OK" "begin_frame c = (?c, TUI_OK)"
    using b by (auto simp: begin_batch_def begin_frame_def split: if_splits)
  have "canvas_wf (copy_drawable_to_writable c)" unfolding copy_drawable_to_writable_def
    by (rule canvas_wf_set_writable [OF wf]) (use canvas_wf_buffers [OF wf] in simp)
  moreover have "published (copy_drawable_to_writable c) = published c" by (simp add: published_def copy_drawable_to_writable_def)
  ultimately have k: "canvas_wf ?c" "frame_in_progress ?c" "canvas_width ?c = canvas_width c" "canvas_height ?c = canvas_height c" "published ?c = published c"
    using s(1) by (auto simp: canvas_wf_def copy_drawable_to_writable_def)
  show ?thesis
  proof (cases base)
    case None
    then have "c1 = ?c" using b s by (simp add: begin_batch_def)
    then show ?thesis using k by simp
  next
    case (Some v)
    let ?d = "set_writable (map (\<lambda>_. v) (writable_buffer ?c)) ?c"
    have "c1 = ?d" using b s k(2) Some by (simp add: begin_batch_def canvas_clear_def)
    moreover have "canvas_wf ?d" by (rule canvas_wf_set_writable [OF k(1)]) (use canvas_wf_buffers [OF k(1)] in simp)
    moreover have "published ?d = published ?c" by (simp add: published_def)
    ultimately show ?thesis using k by simp
  qed
qed


context concurrent_frames
begin

lemma drawing_start:
  assumes "canvas_wf c" and "frame_in_progress c"
  shows "drawing theme fh rc n (s, c) {} \<lparr>batch_ctx = ctx, batch_store = s, batch_canvas = c, frame_status = fs\<rparr>"
proof -
  have "working c row column = working (snd (painted theme fh rc (s, c) k)) row column"
    if "k \<le> n" "\<forall>j < n. inside (rc j) row column \<longrightarrow> (j \<in> {} \<longleftrightarrow> j < k)" for row column k
  proof -
    have "\<not> inside (rc j) row column" if "j < k" for j using that less_le_trans [OF that \<open>k \<le> n\<close>] \<open>\<forall>j < n. _ j\<close> by blast
    then show ?thesis using painted_outside [of "(s, c)" 0 k rc row column theme fh] assms(1) by simp
  qed
  then show ?thesis using assms by (simp add: drawing_def)
qed

text \<open>A batch and the sequential drawing of the same frames on the same canvas.\<close>

lemma batch_sequential:
  fixes d :: "'f layout_description" and s :: "'f \<Rightarrow> 's"
  defines "n \<equiv> length (z_frames (z_buffer d))" and "ids \<equiv> frame_ids (z_buffer d)"
  assumes c: "canvas_wf c" "frame_in_progress c" and cover: "\<forall>i \<in> set ids. frame_layouts l i \<noteq> None"
    and handles: "distinct (map snd (z_frames (z_buffer d)))"
    and edge: "\<And>a b row column. a < b \<Longrightarrow> b < n \<Longrightarrow> inside (the (frame_layouts l (ids ! a))) row column \<Longrightarrow>
      inside (the (frame_layouts l (ids ! b))) row column \<Longrightarrow> (a, b) \<in> edges (dependents g)"
    and sched: "frame_schedule g n steps"
    and run: "fold (render_exec draw) steps \<lparr>batch_ctx = prepare_context d l theme n ctx, batch_store = s, batch_canvas = c, frame_status = fs\<rparr> = b"
  shows "\<not> frame_in_progress (batch_canvas b) \<and> (case layout_draw (store_draw draw) l theme d (s, c) of ((s', c'), st) \<Rightarrow>
    if st = TUI_OK then ctx_status (batch_ctx b) = TUI_OK \<and> published (batch_canvas b) = working c' \<and> batch_store b = s'
    else ctx_status (batch_ctx b) \<noteq> TUI_OK \<and> published (batch_canvas b) = published c)"
proof (cases "n = 0")
  case True
  then have "z_frames (z_buffer d) = []" "steps = [Publish_Step]" using sched by (simp_all add: n_def frame_schedule_def)
  moreover obtain c' st' where e: "end_frame c = (c', st')" by fastforce
  ultimately show ?thesis using run end_frame_image [OF c(2) e] e by (auto simp: layout_draw_def prepare_context_def publish_def)
next
  case False
  let ?fs = "z_frames (z_buffer d)"
  define fh where "fh i = snd (?fs ! i)" for i
  define rc where "rc i = the (frame_layouts l (ids ! i))" for i
  have len: "length ids = n" by (simp add: ids_def n_def frame_ids_def)
  have id: "i < n \<Longrightarrow> ids ! i = fst (?fs ! i)" for i by (simp add: ids_def n_def frame_ids_def)
  have rect: "frame_layouts l (fst (?fs ! i)) = Some (rc i)" if "i < n" for i
  proof -
    have "ids ! i \<in> set ids" using that len by simp
    then show ?thesis using cover id [OF that] by (auto simp: rc_def)
  qed
  have inj: "inj_on fh {..<n}" using handles by (auto simp: inj_on_def fh_def n_def distinct_conv_nth)
  note q = sched [unfolded frame_schedule_def, unfolded if_not_P [OF False]]
  have o: "ordered_steps n rc steps"
    unfolding ordered_steps_def
  proof (intro conjI)
    show "distinct steps" "set steps = Draw_Step ` {..<n} \<union> Finish_Step ` {..<n}" using q by (rule conjunct1, rule conjunct1 [OF conjunct2])
    show "\<forall>xs i ys. steps = xs @ Finish_Step i # ys \<longrightarrow> Draw_Step i \<in> set xs" using q by (rule conjunct1 [OF conjunct2 [OF conjunct2]])
    show "\<forall>xs i ys. steps = xs @ Draw_Step i # ys \<longrightarrow> (\<forall>j < i. (\<exists>row column. inside (rc j) row column \<and> inside (rc i) row column) \<longrightarrow> Finish_Step j \<in> set xs)"
    proof (intro allI impI)
      fix xs i ys j
      assume e: "steps = xs @ Draw_Step i # ys" and j: "j < i" and "\<exists>row column. inside (rc j) row column \<and> inside (rc i) row column"
      then obtain row column where x: "inside (rc j) row column" "inside (rc i) row column" by blast
      have "Draw_Step i \<in> set steps" using e by simp
      then have "i < n" using conjunct1 [OF conjunct2 [OF q]] by auto
      then have "(j, i) \<in> edges (dependents g)" using edge j x unfolding rc_def by blast
      then show "Finish_Step j \<in> set xs" using conjunct2 [OF conjunct2 [OF conjunct2 [OF q]]] e by blast
    qed
  qed
  let ?b0 = "\<lparr>batch_ctx = prepare_context d l theme n ctx, batch_store = s, batch_canvas = c, frame_status = fs\<rparr>"
  have render: "render_frame draw i x v = store_draw draw (fh i) theme (rc i) v" if "i < n" "ctx_inputs x = ctx_inputs (batch_ctx ?b0)" for i x v
    using that rect [OF that(1)] by (cases "?fs ! i") (simp add: render_frame_def prepare_context_def fh_def n_def)
  have count: "counting (paint_status theme fh rc (s, c)) n {} (batch_ctx ?b0)" by (simp add: counting_def prepare_context_def)
  have k: "\<not> frame_in_progress (batch_canvas b) \<and> ctx_published (batch_ctx b) \<and>
    (if \<forall>i < n. paint_status theme fh rc (s, c) i = TUI_OK
     then ctx_status (batch_ctx b) = TUI_OK \<and> published (batch_canvas b) = working (snd (painted theme fh rc (s, c) n)) \<and>
       (\<forall>f. batch_store b f = fst (painted theme fh rc (s, c) n) f)
     else (\<exists>i < n. ctx_status (batch_ctx b) = paint_status theme fh rc (s, c) i) \<and> ctx_status (batch_ctx b) \<noteq> TUI_OK \<and>
       published (batch_canvas b) = published (snd (s, c)))"
    using batch_complete [OF o _ _ _ inj drawing_start [OF c] count render] False c unfolding run by simp
  have d: "if \<forall>i. 0 \<le> i \<and> i < length ?fs \<longrightarrow> paint_status theme fh rc (s, c) i = TUI_OK
    then draw_frames (store_draw draw) (frame_layouts l) theme (drop 0 ?fs) (painted theme fh rc (s, c) 0) = (painted theme fh rc (s, c) (length ?fs), TUI_OK)
    else snd (draw_frames (store_draw draw) (frame_layouts l) theme (drop 0 ?fs) (painted theme fh rc (s, c) 0)) \<noteq> TUI_OK"
    by (rule draw_frames_painted) (simp_all add: rect fh_def n_def [symmetric])
  show ?thesis
  proof (cases "\<forall>i < n. paint_status theme fh rc (s, c) i = TUI_OK")
    case True
    then have "layout_draw (store_draw draw) l theme d (s, c) = (painted theme fh rc (s, c) n, TUI_OK)"
      using d by (simp add: layout_draw_def n_def)
    moreover obtain s' c' where "painted theme fh rc (s, c) n = (s', c')" by fastforce
    ultimately show ?thesis using k True by (simp add: fun_eq_iff)
  next
    case False
    then have "snd (layout_draw (store_draw draw) l theme d (s, c)) \<noteq> TUI_OK" using d by (auto simp: layout_draw_def n_def split: if_splits)
    then show ?thesis using k False by (auto split: prod.splits)
  qed
qed

end


text \<open>A screen of two input frames, one in front of the other.\<close>

definition pair_ops :: "bool layout_op list" where
  "pair_ops = [Add_Bare_Frame ''a'' (Some True), Add_Bare_Frame ''b'' (Some False)]"

abbreviation pair_layout :: "bool layout_description" where
  "pair_layout \<equiv> layout_history id ''main'' pair_ops"

abbreviation pair_cells :: cell_dimensions where
  "pair_cells \<equiv> \<lparr>cell_width = 8, cell_height = 16\<rparr>"

lemma pair_content:
  "z_frames (z_buffer pair_layout) = [(''a'', True), (''b'', False)]" "constraints pair_layout = [(''a'', []), (''b'', [])]"
  "order_cache_valid pair_layout = False" "cached_absolute pair_layout = None"
  by (simp_all add: pair_ops_def layout_evaluation order_cache_valid_def)

definition pair_result :: absolute_layout where
  "pair_result = \<lparr>frame_layouts = [''a'' \<mapsto> sample_rect, ''b'' \<mapsto> sample_rect], frame_dependencies = [(0, 1)]\<rparr>"

lemma pair_parsed: "parse_layout pair_layout = Inr [''a'' \<mapsto> Map.empty, ''b'' \<mapsto> Map.empty]"
  by (simp add: parse_layout_def frame_ids_def frame_exists_def pair_content parse_constraints_def validate_bound_pair_def)

lemma pair_solved: "solve_layout id pair_layout 40 5 pair_cells [''a'', ''b''] = Some (Inr (pair_result, [''a'', ''b'']))"
  by (simp add: solve_layout_def pair_parsed frame_ids_def pair_content Let_def new_solver_def resolve_unvisited_def resolve_reference_def size_frame_def
    resolve_axis_bounds_def resolve_measure_def apply_aspect_ratio_def place_frame_def resolve_axis_origin_def placement_constraint_def
    build_frame_dependencies_def dependency_pairs_def rectangles_intersect_def pair_result_def upt_rec size_add_def size_max_def)

lemma pair_computed: "\<exists>d. compute_absolute_layout id 40 5 pair_cells pair_layout = Some (d, pair_result, TUI_OK) \<and> z_buffer d = z_buffer pair_layout"
  using pair_solved by (simp add: compute_absolute_layout_def geometry_cached_def pair_content frame_ids_def Let_def)

definition pair_graph :: "nat dependency_graph" where
  "pair_graph = \<lparr>dg_nodes = [0, 1], node_indices = [0 \<mapsto> 0, 1 \<mapsto> 1], dependents = [[1], []], dependency_counts = [0, 1], edge_count = 1,
     topology_valid = False, forward_layer_indices = []\<rparr>"

lemma pair_graph_built: "prepare_graph 2 [(0, 1)] new_renderer =
   (new_renderer\<lparr>render_graph := Some pair_graph, render_topology := Some (2, [(0, 1)])\<rparr>, TUI_OK)"
  by (simp add: prepare_graph_def new_renderer_def add_node_def empty_graph_def add_dependency_def pair_graph_def upt_rec)

lemma pair_graph_starts: "map_option snd (graph_start True pair_graph) = Some GRAPH_OK" 
  "map_option (\<lambda>(g, _). dependents g) (graph_start True pair_graph) = Some [[1], []]"
  by code_simp+


abbreviation pair_steps :: "render_step list" where
  "pair_steps \<equiv> [Draw_Step 0, Finish_Step 0, Draw_Step 1, Finish_Step 1]"

lemma split_at: "steps = xs @ x # ys \<Longrightarrow> \<exists>k < length steps. xs = take k steps \<and> x = steps ! k"
  by (rule exI [of _ "length xs"]) simp

lemma pair_schedule: "dependents g = [[1], []] \<Longrightarrow> frame_schedule g 2 pair_steps"
proof -
  assume g: "dependents g = [[1], []]"
  have e: "edges (dependents g) = {(0, 1)}" by (auto simp: g edges_def preds_def less_Suc_eq)
  have all: "set pair_steps = Draw_Step ` {..<2} \<union> Finish_Step ` {..<2}" by (auto simp: less_Suc_eq numeral_2_eq_2 image_iff)
  have fin: "Draw_Step i \<in> set xs" if "pair_steps = xs @ Finish_Step i # ys" for xs i ys
    using split_at [OF that] by (auto simp: less_Suc_eq)
  have dep: "Finish_Step 0 \<in> set xs" if "pair_steps = xs @ Draw_Step 1 # ys" for xs ys
    using split_at [OF that] by (auto simp: less_Suc_eq)
  show ?thesis unfolding frame_schedule_def e
  proof (rule if_not_P [THEN iffD2], simp, intro conjI allI impI)
    show "distinct pair_steps" by simp
    show "Finish_Step p \<in> set xs" if "pair_steps = xs @ Draw_Step i # ys" "(p, i) \<in> {(0, 1)}" for xs i ys p using dep that by blast
  qed (use all in simp, erule fin)
qed

text \<open>
  C39: (equivalence) Rendering a computed layout of input frames in parallel. Whatever order the
  worker threads draw and finish the frames in, as long as a frame starts after the frames the graph
  makes it wait for have finished, and for any emulator: if drawing the frames one after another from
  back to front on the same canvas succeeds, the batch succeeds and publishes exactly that image,
  with every frame left in the same state, the record of an access out of bounds included (whether
  there is one is the subject of \<open>Embedded_Terminal\<close>); and if that drawing fails, the batch reports
  a failure and the published image is the one from before the batch. Either way the transaction is over and the
  renderer is ready for the next batch.
\<close>

theorem parallel_render_sequential:
  fixes s :: "'f \<Rightarrow> 't input_frame"
  assumes "length ops \<le> size_max" and "w \<le> size_max" "h \<le> size_max"
    and "compute_absolute_layout rnd w h cells (layout_history rnd name ops) = Some (d, l, TUI_OK)"
    and "distinct (map snd (z_frames (z_buffer d)))"
    and "canvas_wf c" and "renderer_reachable R"
    and "render_start active_before active_after (Some d) l theme base R (Some c) = Some ((R1, Some c1), TUI_OK)"
    and "frame_schedule (the (render_graph R1)) (length (z_frames (z_buffer d))) steps"
    and "fold (render_exec (\<lambda>_. if_draw tmt)) steps \<lparr>batch_ctx = render_ctx R1, batch_store = s, batch_canvas = c1, frame_status = fs\<rparr> = b"
    and "render_wait GRAPH_OK (R1\<lparr>render_ctx := batch_ctx b\<rparr>, batch_canvas b) = ((R2, c2), st)"
  shows "\<not> frame_in_progress c2 \<and> \<not> render_active R2 \<and>
    (case layout_draw (store_draw (\<lambda>_. if_draw tmt)) l theme d (s, c1) of ((s', c'), st') \<Rightarrow>
       if st' = TUI_OK then st = TUI_OK \<and> published c2 = working c' \<and> batch_store b = s'
       else st \<noteq> TUI_OK \<and> published c2 = published c)"
proof -
  note ok = layout_history_ok [OF assms(1), of rnd name]
  have z: "z_buffer d = z_buffer (layout_history rnd name ops)" using compute_cache_ok [OF ok assms(4)] by simp
  let ?ids = "frame_ids (z_buffer d)"
  obtain parsed where sol: "solution rnd (layout_env parsed w h cells) ?ids (frame_layouts l)" "frame_dependencies l = dependency_pairs (frame_layouts l) ?ids"
    using computed_spec [OF ok assms(4)] unfolding z by blast
  have cover: "\<forall>i \<in> set ?ids. frame_layouts l i \<noteq> None" using sol(1) by (auto simp: solution_def)
  note k = batch_started [OF renderer_reachable_ok [OF assms(7)] assms(8)]
  have c1: "canvas_wf c1" "frame_in_progress c1" "published c1 = published c" using begin_batch_canvas [OF assms(6)] k by blast+
  have edge: "(i, j) \<in> edges (dependents (the (render_graph R1)))"
    if "i < j" "j < length (z_frames (z_buffer d))" "inside (the (frame_layouts l (?ids ! i))) row column" "inside (the (frame_layouts l (?ids ! j))) row column"
    for i j row column
  proof -
    have j: "?ids ! i \<in> set ?ids" "?ids ! j \<in> set ?ids" "j < length ?ids" using that(1,2) by (simp_all add: frame_ids_def)
    have "placed rnd (layout_env parsed w h cells) (frame_layouts l) x (the (frame_layouts l x))" if "x \<in> set ?ids" for x
      using sol(1) that by (simp add: solution_def)
    note p = placed_inside [OF this [OF j(1)], simplified] placed_inside [OF this [OF j(2)], simplified]
    have "rectangles_intersect (the (frame_layouts l (?ids ! i))) (the (frame_layouts l (?ids ! j)))"
      using that(3,4) p assms(2,3) by (subst intersect_cells) auto
    then have "(i, j) \<in> set (frame_dependencies l)" using that(1) j(3) by (simp add: sol(2) dependency_pairs_exact)
    then show ?thesis using k by blast
  qed
  have run: "fold (render_exec (\<lambda>_. if_draw tmt)) steps \<lparr>batch_ctx = prepare_context d l theme (length (z_frames (z_buffer d))) (render_ctx R),
      batch_store = s, batch_canvas = c1, frame_status = fs\<rparr> = b" using assms(10) k by simp
  have seq: "\<not> frame_in_progress (batch_canvas b) \<and> (case layout_draw (store_draw (\<lambda>_. if_draw tmt)) l theme d (s, c1) of ((s', c'), st) \<Rightarrow>
    if st = TUI_OK then ctx_status (batch_ctx b) = TUI_OK \<and> published (batch_canvas b) = working c' \<and> batch_store b = s'
    else ctx_status (batch_ctx b) \<noteq> TUI_OK \<and> published (batch_canvas b) = published c1)"
    by (rule input_frames.batch_sequential [OF c1(1,2) cover assms(5) _ assms(9) run]) (rule edge)
  have "st = ctx_status (batch_ctx b)" "c2 = batch_canvas b" "\<not> render_active R2" using assms(11) k by (auto simp: render_wait_def)
  then show ?thesis using seq c1(3) by (simp split: prod.splits)
qed

theorem parallel_render_sequential_witness:
  "\<exists>d R1 c1 b R2 c2 st. compute_absolute_layout id 40 5 pair_cells pair_layout = Some (d, pair_result, TUI_OK) \<and>
    render_start True True (Some d) pair_result sample_theme None new_renderer (Some (new_canvas 40 5)) = Some ((R1, Some c1), TUI_OK) \<and>
    fold (render_exec (\<lambda>_. if_draw no_emulator)) pair_steps
      \<lparr>batch_ctx = render_ctx R1, batch_store = (\<lambda>_. sample_input), batch_canvas = c1, frame_status = (\<lambda>_. TUI_OK)\<rparr> = b \<and>
    render_wait GRAPH_OK (R1\<lparr>render_ctx := batch_ctx b\<rparr>, batch_canvas b) = ((R2, c2), st) \<and> \<not> frame_in_progress c2 \<and> \<not> render_active R2"
proof -
  obtain d where d: "compute_absolute_layout id 40 5 pair_cells pair_layout = Some (d, pair_result, TUI_OK)" "z_buffer d = z_buffer pair_layout"
    using pair_computed by blast
  obtain g where g: "graph_start True pair_graph = Some (g, GRAPH_OK)" "dependents g = [[1], []]"
    using pair_graph_starts by (auto split: prod.splits)
  obtain c1 where c1: "begin_batch None (new_canvas 40 5) = (c1, TUI_OK)"
    by (auto simp: begin_batch_def begin_frame_def new_canvas_def checked_area_def size_max_def)
  have cov: "covers_frames d pair_result" by (simp add: covers_frames_def d(2) frame_ids_def pair_content pair_result_def)
  let ?ctx = "prepare_context d pair_result sample_theme 2 new_context"
  let ?R = "new_renderer\<lparr>render_graph := Some g, render_topology := Some (2, [(0, 1)]), render_ctx := ?ctx, render_active := True\<rparr>"
  have start: "render_start True True (Some d) pair_result sample_theme None new_renderer (Some (new_canvas 40 5)) = Some ((?R, Some c1), TUI_OK)"
  proof -
    have "length (z_frames (z_buffer d)) = 2" "frame_dependencies pair_result = [(0, 1)]" "\<not> render_active (new_renderer :: bool renderer)"
      "render_ctx (new_renderer :: bool renderer) = new_context" by (simp_all add: d(2) pair_content pair_result_def new_renderer_def)
    then show ?thesis using cov c1 g(1) by (simp add: render_start_def Let_def pair_graph_built [unfolded One_nat_def])
  qed
  let ?b = "fold (render_exec (\<lambda>_. if_draw no_emulator)) pair_steps
      \<lparr>batch_ctx = render_ctx ?R, batch_store = (\<lambda>_. sample_input), batch_canvas = c1, frame_status = (\<lambda>_. TUI_OK)\<rparr>"
  obtain R2 c2 st where w: "render_wait GRAPH_OK (?R\<lparr>render_ctx := batch_ctx ?b\<rparr>, batch_canvas ?b) = ((R2, c2), st)" by (metis prod.collapse)
  have sizes: "length pair_ops \<le> size_max" "(40::nat) \<le> size_max" "(5::nat) \<le> size_max" by (simp_all add: pair_ops_def size_max_def)
  have handles: "distinct (map snd (z_frames (z_buffer d)))" by (simp add: d(2) pair_content)
  have sched: "frame_schedule (the (render_graph ?R)) (length (z_frames (z_buffer d))) pair_steps"
    using pair_schedule [OF g(2)] by (simp add: d(2) pair_content numeral_2_eq_2)
  note k = parallel_render_sequential [OF sizes d(1) handles new_canvas_wf renderer_reachable.fresh start sched refl w]
  show ?thesis using d(1) start w conjunct1 [OF k] conjunct1 [OF conjunct2 [OF k]] by blast
qed

end
