(* ===== verification/Spec2Isabelle.thy ===== *)
theory Spec2Isabelle
  imports Execution_Plan Key_Trie Turn_Tree Framed_Io Wire_Message App_State Event_Transport Embedded_Terminal Layout_History
    Selection_Correct Render_Correct
begin

text \<open>
  A verification development for \<open>puc\<close>, a C++23 terminal application around a canvas of
  conversation turns. Paths below are relative to \<open>src/\<close>.

  \<^bold>\<open>The program and how its parts interact.\<close> Bytes of the host terminal enter a streaming decoder
  (\<open>puc-cli/tui/terminal\<close>), which matches them against a configured trie of sequences and emits
  events. The input frame (\<open>puc-cli/tui/frames\<close>) routes events to its text editor, its command line
  or an embedded terminal. Frames are arranged by a layout of constraints and drawn, by jobs of an
  execution graph, into a double-buffered canvas (\<open>puc-cli/tui/rendering\<close>). Conversation turns live
  in a tree with hierarchical addresses and incremental hashes (\<open>canvas/turn\<close>). Processes exchange
  checksummed messages in length-prefixed frames (\<open>utils/ipc\<close>), with payloads that typed codecs
  encode (\<open>msgs\<close>); decoded terminal events travel to the screen that way. Everything is a subsystem whose
  lifecycle the application state orders by a dependency graph (\<open>state\<close>).

  \<^bold>\<open>Theories, in the order of their imports.\<close>
  \<^item> \<open>Prelude\<close>: fixed-width integers, unsigned decrement, list and word lemmas used throughout.
  \<^item> \<open>Key_Trie\<close> (\<open>utils/containers/trie.hpp\<close>): node vector, insert, find, erase, completions. It
    refines a finite map, and completions are the stored extensions in order.
  \<^item> \<open>Dependency_Graph\<close> and \<open>Execution_Plan\<close> (\<open>utils/execution_graph\<close>): layered validation decides
    acyclicity; a run of a plan is a step relation over job begins, ends, failures and cancellations,
    with the order of jobs, a single completion and termination proved over all interleavings.
  \<^item> \<open>Turn_Address\<close> and \<open>Turn_Tree\<close> (\<open>canvas/turn\<close>): addresses, allocation, commit, rebuild, hashes.
    No address is allocated twice; the root hash depends on the committed turns only.
  \<^item> \<open>Ipc_Types\<close>, \<open>Wire_Message\<close>, \<open>Framed_Io\<close> (\<open>utils/ipc/status.hpp\<close>, \<open>msg.cpp\<close>, \<open>framed_io.cpp\<close>): the
    wire format and its transport over arbitrary partial reads and writes, with round trips, rejection
    of altered messages and progress.
  \<^item> \<open>App_State\<close> (\<open>state/state.cpp\<close>, \<open>lifecycle.hpp\<close>): registration and the lifecycle calls with
    rollback; hooks run in dependency order over any history and any hook results.
  \<^item> \<open>Utf8_Text\<close>, \<open>Terminal_Event\<close>, \<open>Tui_Types\<close>: the UTF-8 codec, the events and shared enumerations.
  \<^item> \<open>Text_Wrap\<close>, \<open>Text_Editor\<close>, \<open>Editor_Correct\<close> (\<open>puc-cli/tui/text_input/text_editor_utils.cpp\<close>): lines,
    wrapping, and every editing, selection, paste and scrolling call. The editor stays well formed over
    any history, refines replacement in a flat text, and keeps the caret visible.
  \<^item> \<open>Clipboard\<close>, \<open>Decoder_Parse\<close>, \<open>Terminal_Input\<close>, \<open>Input_Decoder\<close> (\<open>clipboard.cpp\<close>, \<open>decoder.cpp\<close>,
    \<open>input.cpp\<close>): Base64 and OSC 52, the protocol parsers, the input map and the streaming decoder.
    \<open>Decoder_Correct\<close> shows that every call returns, memory is bounded, text is valid UTF-8 and the
    longest match wins unless it is disabled; \<open>Paste_Correct\<close> that a paste is delivered whole, however it is chunked.
  \<^item> \<open>Message_Codec\<close> (\<open>msgs\<close>): the payload schemas, their JSON text and the registry of codecs; a schema
    is a bijection between the values it accepts and the payloads it accepts.
  \<^item> \<open>Portable_Event\<close>, \<open>Event_Transport\<close> (\<open>terminal/event_messages.cpp\<close>, \<open>publish_events\<close> of
    \<open>terminal_subsystem.cpp\<close>, \<open>receive_input_event\<close> of \<open>screen.cpp\<close>): every event the decoder can emit
    fits its message and arrives unchanged.
  \<^item> \<open>Canvas\<close> (\<open>rendering/canvas.cpp\<close>, \<open>theme.cpp\<close>): frame transactions refine two images.
  \<^item> \<open>Frames\<close>, \<open>Input_Frame\<close>, \<open>Frames_Correct\<close> (\<open>puc-cli/tui/frames\<close>): the views and the input frame with
    its modes. Drawing is confined to the frame's rectangle; a click puts the caret where it points.
  \<^item> \<open>Input_Pipeline\<close>: decoder and input frame composed; every decoder event is accepted, as long as
    the map has a paste terminator and the decoder is not reset; the modes agree over any history.
  \<^item> \<open>Embedded_Terminal\<close>: drawing the embedded terminal stays in bounds for an emulator that behaves as
    libtmt documents and whose resizes succeed; after a failed resize it does not.
  \<^item> \<open>Z_Buffer\<close>, \<open>Selection_Correct\<close> (\<open>rendering/zbuf.cpp\<close>, \<open>selection.cpp\<close>): the order of frames and the
    routing of selections; at most one frame shows a selection, and settled editors answer in bounds.
  \<^item> \<open>Frame_Layout\<close>, \<open>Layout_Correct\<close>, \<open>Layout_History\<close> (\<open>rendering/layout.cpp\<close>): constraints, the recursive
    solver, its two caches, render dependencies, minimum dimensions. Rectangles lie on the screen, the
    solver fails exactly on the named faults, and the caches never change a result.
  \<^item> \<open>Parallel_Render\<close>, \<open>Render_Correct\<close> (\<open>rendering/renderer.cpp\<close>): frames drawn by concurrent jobs
    publish the image of drawing them in order.

  \<^bold>\<open>How code becomes definitions.\<close> A class is a record, a method a function from the old to the new
  state with its status; a status enumeration is a datatype with the constructors of the source.
  A \<open>size_t\<close> that may wrap is a word or a number with the modulus written out; elsewhere an
  invariant proved of the state keeps it in range. An access out of the bounds of a vector is the result
  \<open>None\<close>, so that a theorem of the form \<open>= Some ...\<close> includes that none happens; in the drawing of the
  embedded terminal it is recorded in a ghost field, \<open>out_of_bounds\<close>. Code outside the repository or
  vendored in it (SHA-256 of Mbed TLS, protobuf serialisation, the terminal emulator, hooks of subsystems,
  reads and writes of the operating system, rounding of \<open>long double\<close>) is an argument of the
  definitions. Interfaces are locales, interpreted on the definitions of the providers: codecs
  and payloads, the text views and editors, selectable frames, and frames that may be drawn concurrently.

  \<^bold>\<open>Loops, fuel and bounds.\<close> The decoder's processing loop is a partial function into \<open>option\<close>, and
  \<open>decoder_returns\<close> shows it never yields \<open>None\<close>. The layout solver recurses along anchors; its depth
  argument is one more than the number of frames, which suffices because a frame being visited is never
  entered again (\<open>layout_cache_transparent\<close> includes that it returns). Readers and writers of frames
  take a list of transfer results, and \<open>frame_progress\<close> bounds how many are needed. All other loops
  are structural or have a measure. Revision counters of \<open>ZBuffer\<close> and \<open>Layout\<close> wrap at \<open>2 ^ 64\<close>; the
  histories of \<open>Layout_History\<close> are shorter than that. Concurrency is modelled as interleaving of
  steps: locked sections of \<open>ExecutionPlan\<close> and frame jobs of the renderer are atomic, acceptance
  of jobs by the worker pool is an arbitrary boolean, and the renderer assumes of an execution graph
  what \<open>Execution_Plan\<close> proves, that a job runs once and after its prerequisites.

  \<^bold>\<open>Not modelled.\<close> What only drives the operating system or a library: \<open>TerminalSession\<close> and the
  terminal subsystems (termios, pseudo terminals, signals), the job queue and worker threads, IPC channels
  over sockets, shared memory and files, the SQLite datastore, properties, configuration and themes
  (TOML), loggers, clocks and timers, bootstrap and test programs. \<open>Screen\<close> (but for its input
  queue) and the canvas session glue combine modelled parts with those. Of \<open>input.cpp\<close> the reading of the configuration file is left out,
  and of \<open>execution_graph.hpp\<close> only the answer of \<open>start\<close> is taken.
\<close>

end
